(* ===== verification/Prelude.thy ===== *)
theory Prelude
  imports Main "HOL-Library.Word"
begin

text \<open>
  What every component shares: the names of the C integer types, the theorem
  collections, and generic lemmas on lists, options and machine words.

  Conventions of the translation. An unsigned C integer of width \<open>w\<close> is a
  \<open>w word\<close> where its wrap-around or its bits matter, and a \<open>nat\<close> where the code
  bounds it (an array index, a count). A C \<open>int\<close> that is a status code is an \<open>int\<close>,
  with the source's own numbers. A C string is the HOL string of its bytes before the
  terminating NUL. A spinlock that brackets a whole function makes the function one
  atomic step.
\<close>

unbundle bit_operations_syntax

type_synonym u8 = "8 word"
type_synonym u16 = "16 word"
type_synonym u32 = "32 word"
type_synonym u64 = "64 word"

text \<open>
  \<open>frame\<close> collects what an operation leaves alone, \<open>keeps\<close> the preservation lemmas of
  the invariants.
\<close>

named_theorems frame "facts saying which part of the state an operation leaves alone"
named_theorems keeps "facts saying which invariant an operation preserves"

section \<open>Lists\<close>

text \<open>The first index of a list from which on a test holds, as C's linear searches find it.\<close>

fun find_index :: "('a \<Rightarrow> bool) \<Rightarrow> 'a list \<Rightarrow> nat option" where
  "find_index p [] = None"
| "find_index p (x # xs) = (if p x then Some 0 else map_option Suc (find_index p xs))"

lemma find_index_SomeD:
  "find_index p xs = Some i \<Longrightarrow> i < length xs \<and> p (xs ! i) \<and> (\<forall>j<i. \<not> p (xs ! j))"
proof (induction xs arbitrary: i)
  case Nil
  then show ?case by simp
next
  case (Cons x xs)
  then show ?case
    by (cases i) (auto split: if_splits simp: nth_Cons split: nat.splits)
qed

lemma find_index_None_iff: "find_index p xs = None \<longleftrightarrow> (\<forall>x\<in>set xs. \<not> p x)"
  by (induction xs) auto

lemma find_index_Some_iff:
  "find_index p xs = Some i \<longleftrightarrow> i < length xs \<and> p (xs ! i) \<and> (\<forall>j<i. \<not> p (xs ! j))"
proof
  assume *: "i < length xs \<and> p (xs ! i) \<and> (\<forall>j<i. \<not> p (xs ! j))"
  then have "find_index p xs \<noteq> None" by (auto simp: find_index_None_iff)
  then obtain k where k: "find_index p xs = Some k" by auto
  from find_index_SomeD [OF this] * have "k = i" by (metis linorder_neqE_nat)
  with k show "find_index p xs = Some i" by simp
qed (rule find_index_SomeD)

lemma nth_list_update_cases:
  "i < length xs \<Longrightarrow> xs[i := x] ! j = (if i = j then x else xs ! j)"
  by auto

end
