(* ===== verification/Kstring.thy ===== *)
theory Kstring
  imports Prelude
begin

text \<open>
  The memory and string routines of \<open>kernel/src/lib/string.c\<close> and \<open>string.h\<close>.

  A pointer is the list of the elements from its address to the end of the object it
  points into; reading or writing past the end is undefined in C, and the model's answer
  is then \<open>None\<close>. Pointers are returned as offsets or as such suffixes. A \<open>char\<close> is
  signed, as x86-64 has it: \<open>schar\<close> is its value as an \<open>int\<close>. The copy routine is
  inline assembly (\<open>rep movs\<close> on units of 8, 4, 2 or 1 bytes, direction flag clear);
  source and destination are distinct objects there.
\<close>

abbreviation NUL :: char where "NUL \<equiv> CHR 0x00"

definition schar :: "char \<Rightarrow> int" where
  "schar c = (if (of_char c :: int) < 128 then of_char c else of_char c - 256)"

lemma of_char_int_bounds: "0 \<le> (of_char c :: int)" "(of_char c :: int) < 256"
  by (auto simp: of_char_def horner_sum_simps split: if_splits)

lemma schar_inj [simp]: "schar x = schar y \<longleftrightarrow> x = y"
proof
  assume "schar x = schar y"
  then have "(of_char x :: int) = of_char y"
    using of_char_int_bounds [of x] of_char_int_bounds [of y]
    unfolding schar_def by (simp only: split: if_splits)
  then show "x = y" by (simp add: of_char_eq_iff)
qed simp

lemma schar_bounds: "-128 \<le> schar c \<and> schar c \<le> 127"
  using of_char_int_bounds [of c] unfolding schar_def by (simp only: split: if_splits) linarith

section \<open>Memory blocks\<close>

text \<open>\<open>rep movs\<close>: \<open>n\<close> units of \<open>u\<close> elements each, copied upwards.\<close>

fun rep_movs :: "nat \<Rightarrow> nat \<Rightarrow> 'a list \<Rightarrow> 'a list \<Rightarrow> 'a list" where
  "rep_movs u 0 src dest = dest"
| "rep_movs u (Suc n) src dest = take u src @ rep_movs u n (drop u src) (drop u dest)"

definition memcpy :: "'a list \<Rightarrow> 'a list \<Rightarrow> nat \<Rightarrow> 'a list option" where
  "memcpy dest src len =
     (if length dest < len \<or> length src < len then None
      else if len mod 8 = 0 then Some (rep_movs 8 (len div 8) src dest)
      else if len mod 4 = 0 then Some (rep_movs 4 (len div 4) src dest)
      else if len mod 2 = 0 then Some (rep_movs 2 (len div 2) src dest)
      else Some (rep_movs 1 len src dest))"

definition memset :: "'a list \<Rightarrow> 'a \<Rightarrow> nat \<Rightarrow> 'a list option" where
  "memset a val len =
     (if length a < len then None else Some (fold (\<lambda>i xs. xs[i := val]) [0..<len] a))"

text \<open>
  \<open>memcmp\<close> answers \<^emph>\<open>true\<close> when the blocks agree, unlike the C library's function of this
  name, which answers zero then.
\<close>

fun memcmp :: "'a list \<Rightarrow> 'a list \<Rightarrow> nat \<Rightarrow> bool option" where
  "memcmp s1 s2 0 = Some True"
| "memcmp (a # s1) (b # s2) (Suc len) = (if a \<noteq> b then Some False else memcmp s1 s2 len)"
| "memcmp s1 s2 (Suc len) = None"

text \<open>\<open>memmove\<close> within one array: offsets \<open>d\<close> and \<open>s\<close>, forwards or backwards.\<close>

function move_fwd :: "'a list \<Rightarrow> nat \<Rightarrow> nat \<Rightarrow> nat \<Rightarrow> nat \<Rightarrow> 'a list" where
  "move_fwd a d s i len =
     (if i < len then move_fwd (a[d + i := a ! (s + i)]) d s (Suc i) len else a)"
  by pat_completeness auto
termination by (relation "measure (\<lambda>(a, d, s, i, len). len - i)") auto

declare move_fwd.simps [simp del]

fun move_bwd :: "'a list \<Rightarrow> nat \<Rightarrow> nat \<Rightarrow> nat \<Rightarrow> 'a list" where
  "move_bwd a d s 0 = a"
| "move_bwd a d s (Suc i) = move_bwd (a[d + i := a ! (s + i)]) d s i"

definition memmove :: "'a list \<Rightarrow> nat \<Rightarrow> nat \<Rightarrow> nat \<Rightarrow> 'a list option" where
  "memmove a d s len =
     (if length a < d + len \<or> length a < s + len then None
      else if d < s then Some (move_fwd a d s 0 len)
      else Some (move_bwd a d s len))"

lemma rep_movs_eq:
  "n * u \<le> length src \<Longrightarrow> rep_movs u n src dest = take (n * u) src @ drop (n * u) dest"
proof (induction n arbitrary: src dest)
  case 0
  then show ?case by simp
next
  case (Suc n)
  then have "n * u \<le> length (drop u src)" by simp
  from Suc.IH [OF this] have "rep_movs u (Suc n) src dest
      = take u src @ take (n * u) (drop u src) @ drop (u + n * u) dest"
    by (simp add: add.commute)
  also have "take u src @ take (n * u) (drop u src) @ drop (u + n * u) dest
      = take (u + n * u) src @ drop (u + n * u) dest"
    by (simp only: take_add append_assoc)
  finally show ?case by simp
qed

lemma memcpy_eq:
  "len \<le> length dest \<Longrightarrow> len \<le> length src \<Longrightarrow>
     memcpy dest src len = Some (take len src @ drop len dest)"
  by (auto simp: memcpy_def rep_movs_eq elim: dvdE)

lemma fold_update_eq:
  "len \<le> length a \<Longrightarrow>
     fold (\<lambda>i xs. xs[i := v]) [0..<len] a = replicate len v @ drop len a"
proof (induction len)
  case 0
  then show ?case by simp
next
  case (Suc len)
  then have "drop len a = a ! len # drop (Suc len) a" by (simp add: Cons_nth_drop_Suc)
  with Suc show ?case by (simp add: list_update_append replicate_append_same)
qed

lemma memset_eq: "len \<le> length a \<Longrightarrow> memset a v len = Some (replicate len v @ drop len a)"
  by (simp add: memset_def fold_update_eq)

lemma memcmp_eq:
  "len \<le> length s1 \<Longrightarrow> len \<le> length s2 \<Longrightarrow>
     memcmp s1 s2 len = Some (take len s1 = take len s2)"
  by (induction s1 s2 len rule: memcmp.induct) auto

lemma move_fwd_nth:
  "i \<le> len \<Longrightarrow> d < s \<Longrightarrow> s + len \<le> length a \<Longrightarrow> k < length a \<Longrightarrow>
     length (move_fwd a d s i len) = length a
     \<and> move_fwd a d s i len ! k = (if d + i \<le> k \<and> k < d + len then a ! (s + (k - d)) else a ! k)"
proof (induction a d s i len rule: move_fwd.induct)
  case (1 a d s i len)
  show ?case
  proof (cases "i < len")
    case True
    have IH: "length (move_fwd (a[d + i := a ! (s + i)]) d s (Suc i) len) = length a
      \<and> move_fwd (a[d + i := a ! (s + i)]) d s (Suc i) len ! k
        = (if d + Suc i \<le> k \<and> k < d + len then a[d + i := a ! (s + i)] ! (s + (k - d))
           else a[d + i := a ! (s + i)] ! k)"
      using "1.IH" [OF True] "1.prems" True by simp
    show ?thesis
      using IH "1.prems" True by (subst (1 2) move_fwd.simps) (auto simp: nth_list_update)
  next
    case False
    with "1.prems" show ?thesis by (subst (1 2) move_fwd.simps) auto
  qed
qed

lemma move_bwd_nth:
  "s \<le> d \<Longrightarrow> d + i \<le> length a \<Longrightarrow> k < length a \<Longrightarrow>
     length (move_bwd a d s i) = length a
     \<and> move_bwd a d s i ! k = (if d \<le> k \<and> k < d + i then a ! (s + (k - d)) else a ! k)"
proof (induction i arbitrary: a)
  case 0
  then show ?case by auto
next
  case (Suc i)
  from Suc.IH [of "a[d + i := a ! (s + i)]"] Suc.prems show ?case
    by (auto simp: nth_list_update)
qed

text \<open>
  \<open>memmove\<close> is right for overlapping ranges in either direction: whenever both ranges
  lie in the array, the destination range afterwards holds what the source range held
  before, and every other element is unchanged.
\<close>

theorem memmove_correct:
  assumes "d + len \<le> length a" "s + len \<le> length a"
  shows "memmove a d s len = Some (take d a @ take len (drop s a) @ drop (d + len) a)"
proof -
  let ?r = "take d a @ take len (drop s a) @ drop (d + len) a"
  have len: "length ?r = length a" using assms by simp
  have nth: "?r ! k = (if d \<le> k \<and> k < d + len then a ! (s + (k - d)) else a ! k)"
    if "k < length a" for k
    using assms that by (auto simp: nth_append)
  show ?thesis
  proof (cases "d < s")
    case True
    have "move_fwd a d s 0 len = ?r"
    proof (cases "a = []")
      case False
      then have "length (move_fwd a d s 0 len) = length a"
        using move_fwd_nth [of 0 len d s a 0] True assms by simp
      then show ?thesis
        using nth move_fwd_nth [of 0 len d s a] True assms len
        by (intro nth_equalityI) auto
    qed (use assms True in \<open>simp add: move_fwd.simps\<close>)
    with True assms show ?thesis by (simp add: memmove_def)
  next
    case False
    have "move_bwd a d s len = ?r"
    proof (cases "a = []")
      case False
      then have "length (move_bwd a d s len) = length a"
        using move_bwd_nth [of s d len a 0] \<open>\<not> d < s\<close> assms by simp
      then show ?thesis
        using nth move_bwd_nth [of s d len a] \<open>\<not> d < s\<close> assms len
        by (intro nth_equalityI) auto
    qed (use assms in simp)
    with False assms show ?thesis by (simp add: memmove_def)
  qed
qed

theorem memmove_correct_witness:
  "memmove [1, 2, 3, 4, 5 :: nat] 1 0 3 = Some [1, 1, 2, 3, 5]"
  using memmove_correct [of 1 3 "[1, 2, 3, 4, 5 :: nat]" 0] by (simp add: eval_nat_numeral)

section \<open>C strings\<close>

fun strlen :: "char list \<Rightarrow> nat option" where
  "strlen [] = None"
| "strlen (c # s) = (if c \<noteq> NUL then map_option Suc (strlen s) else Some 0)"

fun strcmp :: "char list \<Rightarrow> char list \<Rightarrow> int option" where
  "strcmp (x # a) (y # b) =
     (if x \<noteq> y \<or> x = NUL \<or> y = NUL then Some (schar x - schar y) else strcmp a b)"
| "strcmp a b = None"

fun strncmp :: "char list \<Rightarrow> char list \<Rightarrow> nat \<Rightarrow> int option" where
  "strncmp a b 0 = Some 0"
| "strncmp (x # a) (y # b) (Suc len) =
     (if x \<noteq> y \<or> x = NUL \<or> y = NUL then Some (schar x - schar y) else strncmp a b len)"
| "strncmp a b (Suc len) = None"

text \<open>The copies return the new destination and the offset the C function returns.\<close>

fun strcpy :: "char list \<Rightarrow> char list \<Rightarrow> (char list \<times> nat) option" where
  "strcpy (d # dest) (c # src) =
     (if c = NUL then Some (c # dest, 0)
      else map_option (\<lambda>(r, i). (c # r, Suc i)) (strcpy dest src))"
| "strcpy dest src = None"

fun strncpy :: "char list \<Rightarrow> char list \<Rightarrow> nat \<Rightarrow> (char list \<times> nat) option" where
  "strncpy dest src 0 = Some (dest, 0)"
| "strncpy (d # dest) (c # src) (Suc len) =
     (if c = NUL then Some (c # dest, 0)
      else map_option (\<lambda>(r, i). (c # r, Suc i)) (strncpy dest src len))"
| "strncpy dest src (Suc len) = None"

definition strcat :: "char list \<Rightarrow> char list \<Rightarrow> (char list \<times> nat) option" where
  "strcat dest src =
     (case strlen dest of None \<Rightarrow> None
      | Some dest_len \<Rightarrow>
          map_option (\<lambda>(r, i). (take dest_len dest @ r, dest_len + i))
            (strcpy (drop dest_len dest) src))"

text \<open>
  \<open>strncat\<close>: the loop index runs over the destination, and stops at the source's NUL or
  once it has reached \<open>dest_size - 1\<close> (an unsigned difference); the byte it stops at
  becomes NUL.
\<close>

fun strncat_loop :: "nat \<Rightarrow> nat \<Rightarrow> char list \<Rightarrow> char list \<Rightarrow> (char list \<times> nat) option" where
  "strncat_loop lim i (d # dest) (c # src) =
     (if c = NUL \<or> lim \<le> i then Some (NUL # dest, i)
      else map_option (\<lambda>(r, j). (c # r, j)) (strncat_loop lim (Suc i) dest src))"
| "strncat_loop lim i dest src = None"

definition strncat :: "char list \<Rightarrow> char list \<Rightarrow> u64 \<Rightarrow> (char list \<times> nat) option" where
  "strncat dest src dest_size =
     (case strlen dest of None \<Rightarrow> None
      | Some dest_len \<Rightarrow>
          map_option (\<lambda>(r, i). (take dest_len dest @ r, i))
            (strncat_loop (unat (dest_size - 1)) dest_len (drop dest_len dest) src))"

datatype num_sys_t = OCT | DEC

fun strtol_loop :: "int \<Rightarrow> char list \<Rightarrow> u64 \<Rightarrow> u64" where
  "strtol_loop m [] val = val"
| "strtol_loop m (c # s) val =
     strtol_loop m s
       (if 48 \<le> schar c \<and> schar c \<le> 48 + m
        then val * (of_int m + 1) + of_int (schar c) - 48 else val)"

definition strtol :: "char list \<Rightarrow> num_sys_t \<Rightarrow> u64 option" where
  "strtol s type =
     (case strlen s of None \<Rightarrow> None
      | Some len \<Rightarrow> Some (strtol_loop (if type = OCT then 7 else 9) (take len s) 0))"

text \<open>The searches return a suffix of the string, or the null pointer (the inner \<open>None\<close>).\<close>

fun strchr :: "char list \<Rightarrow> int \<Rightarrow> char list option option" where
  "strchr [] c = None"
| "strchr (x # s) c =
     (if x = NUL then Some None else if schar x = c then Some (Some (x # s)) else strchr s c)"

fun strrchr_loop :: "char list \<Rightarrow> int \<Rightarrow> char list option \<Rightarrow> char list option option" where
  "strrchr_loop [] c found = None"
| "strrchr_loop (x # s) c found =
     (if x = NUL then Some found
      else strrchr_loop s c (if schar x = c then Some (x # s) else found))"

definition strrchr :: "char list \<Rightarrow> int \<Rightarrow> char list option option" where
  "strrchr s c = strrchr_loop s c None"

definition char_lower :: "char \<Rightarrow> char" where
  "char_lower c = (if 65 \<le> schar c \<and> schar c \<le> 90 then char_of (of_char c + 32 :: nat) else c)"

definition char_upper :: "char \<Rightarrow> char" where
  "char_upper c = (if 97 \<le> schar c \<and> schar c \<le> 122 then char_of (of_char c - 32 :: nat) else c)"

definition strlwr :: "char list \<Rightarrow> char list option" where
  "strlwr s = (case strlen s of None \<Rightarrow> None
     | Some len \<Rightarrow> Some (map char_lower (take len s) @ drop len s))"

definition strupr :: "char list \<Rightarrow> char list option" where
  "strupr s = (case strlen s of None \<Rightarrow> None
     | Some len \<Rightarrow> Some (map char_upper (take len s) @ drop len s))"

text \<open>
  The abstraction: \<open>cstr s t\<close> says the buffer \<open>s\<close> holds the C string \<open>t\<close>: the bytes of
  \<open>t\<close>, none of them NUL, then a NUL.
\<close>

definition cstr :: "char list \<Rightarrow> string \<Rightarrow> bool" where
  "cstr s t \<longleftrightarrow> NUL \<notin> set t \<and> (\<exists>r. s = t @ NUL # r)"

lemma cstr_intro: "NUL \<notin> set t \<Longrightarrow> cstr (t @ NUL # r) t"
  by (auto simp: cstr_def)

lemma cstr_Nil: "cstr s [] \<longleftrightarrow> (\<exists>r. s = NUL # r)"
  by (auto simp: cstr_def)

lemma cstr_Cons: "cstr s (c # t) \<longleftrightarrow> c \<noteq> NUL \<and> (\<exists>s'. s = c # s' \<and> cstr s' t)"
  by (auto simp: cstr_def)

lemma strlen_cstr: "cstr s t \<Longrightarrow> strlen s = Some (length t)"
  by (induction t arbitrary: s) (auto simp: cstr_Nil cstr_Cons)

lemma strlen_SomeD: "strlen s = Some n \<Longrightarrow> cstr s (take n s) \<and> n < length s"
  by (induction s arbitrary: n) (auto simp: cstr_Nil cstr_Cons split: if_splits)

lemma strcmp_cstr: "cstr a x \<Longrightarrow> cstr b y \<Longrightarrow> \<exists>d. strcmp a b = Some d \<and> (d = 0 \<longleftrightarrow> x = y)"
proof (induction x arbitrary: a b y)
  case Nil
  then show ?case by (cases y) (auto simp: cstr_Nil cstr_Cons)
next
  case (Cons c x)
  then show ?case
    by (cases y) (fastforce simp: cstr_Nil cstr_Cons)+
qed

lemma strncmp_prefix:
  "cstr a x \<Longrightarrow> cstr b y \<Longrightarrow>
     \<exists>d. strncmp a b (length x) = Some d \<and> (d = 0 \<longleftrightarrow> take (length x) y = x)"
proof (induction x arbitrary: a b y)
  case Nil
  then show ?case by simp
next
  case (Cons c x)
  then show ?case
    by (cases y) (fastforce simp: cstr_Nil cstr_Cons)+
qed

lemma strcpy_cstr:
  "cstr src t \<Longrightarrow> length t < length dest \<Longrightarrow>
     strcpy dest src = Some (t @ NUL # drop (Suc (length t)) dest, length t)"
proof (induction t arbitrary: src dest)
  case Nil
  then show ?case by (cases dest) (auto simp: cstr_Nil)
next
  case (Cons c t)
  then show ?case by (cases dest) (auto simp: cstr_Cons)
qed

text \<open>
  \<open>strncpy\<close> copies the terminator when it fits and stops there: unlike the C library's it
  does not pad, and it leaves the destination unterminated when the source has \<open>len\<close>
  bytes or more.
\<close>

lemma strncpy_cstr:
  "cstr src t \<Longrightarrow> len \<le> length dest \<Longrightarrow>
     strncpy dest src len =
       (if length t < len then Some (t @ NUL # drop (Suc (length t)) dest, length t)
        else Some (take len t @ drop len dest, len))"
proof (induction len arbitrary: src t dest)
  case 0
  then show ?case by simp
next
  case (Suc len)
  then obtain d dest' where d: "dest = d # dest'" by (cases dest) auto
  show ?case
  proof (cases t)
    case Nil
    with Suc.prems d show ?thesis by (auto simp: cstr_Nil)
  next
    case (Cons c t')
    with Suc.prems obtain s' where s: "src = c # s'" "c \<noteq> NUL" "cstr s' t'"
      by (auto simp: cstr_Cons)
    from Suc.IH [OF s(3), of dest'] Suc.prems(2) s(1,2) Cons d show ?thesis by auto
  qed
qed

lemma strchr_cstr:
  "cstr s t \<Longrightarrow> strchr s (schar c) =
     Some (if c \<in> set t then Some (drop (length (takeWhile (\<lambda>x. x \<noteq> c) t)) s) else None)"
proof (induction t arbitrary: s)
  case Nil
  then show ?case by (auto simp: cstr_Nil)
next
  case (Cons x t)
  then show ?case by (auto simp: cstr_Cons)
qed

end
