(* ===== verification/Ctype.thy ===== *)
theory Ctype
  imports Prelude
begin

text \<open>
  The character classes of \<open>kernel/src/lib/ctype.c\<close>. Each C function takes an \<open>int\<close> and
  returns a truth value as an \<open>int\<close>; the model returns the truth value itself.
\<close>

definition isalpha :: "int \<Rightarrow> bool" where
  "isalpha c \<longleftrightarrow> (65 \<le> c \<and> c \<le> 90) \<or> (97 \<le> c \<and> c \<le> 122)"

definition isdigit :: "int \<Rightarrow> bool" where
  "isdigit c \<longleftrightarrow> 48 \<le> c \<and> c \<le> 57"

definition isalnum :: "int \<Rightarrow> bool" where
  "isalnum c \<longleftrightarrow> isalpha c \<or> isdigit c"

definition isblank :: "int \<Rightarrow> bool" where
  "isblank c \<longleftrightarrow> c = 32 \<or> c = 9"

definition iscntrl :: "int \<Rightarrow> bool" where
  "iscntrl c \<longleftrightarrow> 0 \<le> c \<and> c \<le> 31"

definition isgraph :: "int \<Rightarrow> bool" where
  "isgraph c \<longleftrightarrow> 33 \<le> c \<and> c \<le> 126"

definition islower :: "int \<Rightarrow> bool" where
  "islower c \<longleftrightarrow> 97 \<le> c \<and> c \<le> 122"

definition isprint :: "int \<Rightarrow> bool" where
  "isprint c \<longleftrightarrow> 32 \<le> c \<and> c \<le> 126"

definition ispunct :: "int \<Rightarrow> bool" where
  "ispunct c \<longleftrightarrow> (33 \<le> c \<and> c \<le> 47) \<or> (58 \<le> c \<and> c \<le> 64) \<or> (91 \<le> c \<and> c \<le> 96)
     \<or> (123 \<le> c \<and> c \<le> 126)"

definition isspace :: "int \<Rightarrow> bool" where
  "isspace c \<longleftrightarrow> c = 32 \<or> (9 \<le> c \<and> c \<le> 13)"

definition isupper :: "int \<Rightarrow> bool" where
  "isupper c \<longleftrightarrow> 65 \<le> c \<and> c \<le> 90"

definition isxdigit :: "int \<Rightarrow> bool" where
  "isxdigit c \<longleftrightarrow> isdigit c \<or> (97 \<le> c \<and> c \<le> 102) \<or> (65 \<le> c \<and> c \<le> 70)"

definition tolower :: "int \<Rightarrow> int" where
  "tolower c = (if \<not> isalpha c \<or> islower c then c else c + 32)"

definition toupper :: "int \<Rightarrow> int" where
  "toupper c = (if \<not> isalpha c \<or> isupper c then c else c - 32)"

lemmas ctype_defs = isalpha_def isdigit_def isalnum_def isblank_def iscntrl_def isgraph_def
  islower_def isprint_def ispunct_def isspace_def isupper_def isxdigit_def tolower_def toupper_def

text \<open>The printable characters split into letters, digits, punctuation and the blank.\<close>

lemma isprint_cases: "isprint c \<longleftrightarrow> isalnum c \<or> ispunct c \<or> c = 32"
  by (auto simp: ctype_defs)

lemma classes_disjoint:
  "\<not> (isalpha c \<and> isdigit c)" "\<not> (isalnum c \<and> ispunct c)" "\<not> (iscntrl c \<and> isprint c)"
  "\<not> (isupper c \<and> islower c)"
  by (auto simp: ctype_defs)

lemma tolower_idem: "tolower (tolower c) = tolower c"
  by (auto simp: ctype_defs)

lemma tolower_toupper: "tolower (toupper c) = tolower c"
  by (auto simp: ctype_defs)

lemma tolower_ascii_range: "0 \<le> c \<Longrightarrow> c < 128 \<Longrightarrow> 0 \<le> tolower c \<and> tolower c < 128"
  by (auto simp: ctype_defs)

text \<open>
  The kernel's character classes are coherent: on every integer, a graphic character
  is exactly a letter, a digit or punctuation, exactly one of the three; the case maps
  agree with the classes and undo each other on letters.
\<close>

theorem ctype_coherent:
  "isgraph c = (isalpha c \<or> isdigit c \<or> ispunct c)
   \<and> \<not> (isalpha c \<and> isdigit c) \<and> \<not> (isalpha c \<and> ispunct c) \<and> \<not> (isdigit c \<and> ispunct c)
   \<and> isalpha c = (isupper c \<or> islower c)
   \<and> isupper (toupper c) = isalpha c \<and> islower (tolower c) = isalpha c
   \<and> tolower (toupper c) = tolower c \<and> toupper (tolower c) = toupper c"
  by (auto simp: ctype_defs)

end
