(* ===== verification/Ring.thy ===== *)
theory Ring
  imports Prelude
begin

text \<open>
  Ring buffers. The kernel has three, all arrays with a head index (where the next element
  goes) and a tail index (where the oldest one is), one slot always free: the PS/2
  character ring (\<open>drivers/ps2/ringbuffer.c\<close>, here), the input event ring
  (\<open>drivers/input/input.c\<close>) and the terminal ring (\<open>drivers/tty/tty.c\<close>).

  \<open>ring_list\<close> reads such an array as the queue it stands for. The locale \<open>bounded_queue\<close>
  is the contract the rings' clients rely on: first in, first out, and a full ring refuses
  an element without losing one.
\<close>

section \<open>The queue an array stands for\<close>

definition ring_count :: "nat \<Rightarrow> nat \<Rightarrow> nat \<Rightarrow> nat" where
  "ring_count n h t = (h + n - t) mod n"

definition ring_list :: "'a list \<Rightarrow> nat \<Rightarrow> nat \<Rightarrow> 'a list" where
  "ring_list buf h t =
     map (\<lambda>i. buf ! ((t + i) mod length buf)) [0..<ring_count (length buf) h t]"

lemma mod_two: "a < n + n \<Longrightarrow> a mod n = (if a < n then a else a - n)" for n :: nat
  by (simp add: le_mod_geq)

lemma ring_count_cases:
  "h < n \<Longrightarrow> t < n \<Longrightarrow> ring_count n h t = (if t \<le> h then h - t else h + n - t)"
  by (auto simp: ring_count_def mod_two)

lemma next_cases: "h < n \<Longrightarrow> Suc h mod n = (if Suc h = n then 0 else Suc h)" for n :: nat
  by simp

lemma ring_count_less: "h < n \<Longrightarrow> ring_count n h t < n"
  by (simp add: ring_count_def)

lemma ring_count_put:
  "h < n \<Longrightarrow> t < n \<Longrightarrow> Suc h mod n \<noteq> t \<Longrightarrow>
     ring_count n (Suc h mod n) t = Suc (ring_count n h t)"
  by (auto simp: ring_count_cases next_cases split: if_splits)

lemma ring_count_get:
  "h < n \<Longrightarrow> t < n \<Longrightarrow> h \<noteq> t \<Longrightarrow>
     ring_count n h t = Suc (ring_count n h (Suc t mod n))"
  by (auto simp: ring_count_cases next_cases split: if_splits)

lemma ring_count_full:
  "h < n \<Longrightarrow> t < n \<Longrightarrow> Suc h mod n = t \<longleftrightarrow> ring_count n h t = n - 1"
  by (auto simp: ring_count_cases next_cases split: if_splits)

lemma ring_count_zero: "h < n \<Longrightarrow> t < n \<Longrightarrow> ring_count n h t = 0 \<longleftrightarrow> h = t"
  by (auto simp: ring_count_cases split: if_splits)

lemma ring_head_slot:
  "h < n \<Longrightarrow> t < n \<Longrightarrow> (t + ring_count n h t) mod n = h"
  by (auto simp: ring_count_cases mod_two)

lemma ring_slot_inj:
  "h < n \<Longrightarrow> t < n \<Longrightarrow> i < ring_count n h t \<Longrightarrow> (t + i) mod n \<noteq> h"
  by (auto simp: ring_count_cases mod_two split: if_splits)

lemma length_ring_list [simp]: "length (ring_list buf h t) = ring_count (length buf) h t"
  by (simp add: ring_list_def)

lemma ring_list_put:
  assumes "h < length buf" "t < length buf" "Suc h mod length buf \<noteq> t"
  shows "ring_list (buf[h := x]) (Suc h mod length buf) t = ring_list buf h t @ [x]"
proof -
  have "ring_count (length buf) (Suc h mod length buf) t = Suc (ring_count (length buf) h t)"
    using assms by (rule ring_count_put)
  moreover have "map (\<lambda>i. buf[h := x] ! ((t + i) mod length buf))
      [0..<ring_count (length buf) h t] = ring_list buf h t"
    using ring_slot_inj [OF assms(1,2)] by (fastforce simp: ring_list_def)
  ultimately show ?thesis
    using assms by (simp add: ring_list_def ring_head_slot)
qed

lemma ring_list_get:
  assumes "h < length buf" "t < length buf" "h \<noteq> t"
  shows "ring_list buf h t = buf ! t # ring_list buf h (Suc t mod length buf)"
proof -
  have c: "ring_count (length buf) h t
      = Suc (ring_count (length buf) h (Suc t mod length buf))"
    using assms by (rule ring_count_get)
  have "(Suc t mod length buf + i) mod length buf = (t + Suc i) mod length buf" for i
    by (simp add: mod_add_left_eq)
  then show ?thesis
    using assms by (simp add: ring_list_def c upt_rec [of 0] map_Suc_upt [symmetric]
        del: upt_Suc map_Suc_upt) 
qed

lemma ring_list_empty: "h < length buf \<Longrightarrow> ring_list buf h h = []"
  by (simp add: ring_list_def ring_count_def)

section \<open>The contract\<close>

text \<open>
  \<open>put\<close> answers whether the element was taken; \<open>get\<close> answers the oldest element, or
  \<open>None\<close> from an empty queue. \<open>items\<close> is the abstraction, \<open>room\<close> the number of
  elements the queue can hold.
\<close>

locale bounded_queue =
  fixes put :: "'q \<Rightarrow> 'a \<Rightarrow> bool \<times> 'q"
    and get :: "'q \<Rightarrow> ('a \<times> 'q) option"
    and items :: "'q \<Rightarrow> 'a list"
    and wf :: "'q \<Rightarrow> bool"
    and room :: nat
  assumes put_room: "wf q \<Longrightarrow> length (items q) < room \<Longrightarrow>
      fst (put q x) \<and> wf (snd (put q x)) \<and> items (snd (put q x)) = items q @ [x]"
    and put_full: "wf q \<Longrightarrow> \<not> length (items q) < room \<Longrightarrow> put q x = (False, q)"
    and get_empty: "wf q \<Longrightarrow> items q = [] \<Longrightarrow> get q = None"
    and get_some: "wf q \<Longrightarrow> items q = x # xs \<Longrightarrow>
      \<exists>q'. get q = Some (x, q') \<and> wf q' \<and> items q' = xs"
begin

definition put_all :: "'q \<Rightarrow> 'a list \<Rightarrow> 'q" where
  "put_all q xs = fold (\<lambda>x q. snd (put q x)) xs q"

primrec get_all :: "nat \<Rightarrow> 'q \<Rightarrow> 'a list" where
  "get_all 0 q = []"
| "get_all (Suc n) q = (case get q of None \<Rightarrow> [] | Some (x, q') \<Rightarrow> x # get_all n q')"

lemma put_all_items:
  "wf q \<Longrightarrow> length (items q) \<le> room \<Longrightarrow>
     wf (put_all q xs) \<and> items (put_all q xs) = items q @ take (room - length (items q)) xs"
proof (induction xs arbitrary: q)
  case Nil
  then show ?case by (simp add: put_all_def)
next
  case (Cons x xs)
  show ?case
  proof (cases "length (items q) < room")
    case True
    from put_room [OF Cons.prems(1) True]
    have q': "wf (snd (put q x))" "items (snd (put q x)) = items q @ [x]" by auto
    with True have "length (items (snd (put q x))) \<le> room" by simp
    from Cons.IH [OF q'(1) this] q'(2) True show ?thesis
      by (auto simp: put_all_def take_Cons' Suc_diff_Suc)
  next
    case False
    with Cons.IH [OF Cons.prems] put_full [OF Cons.prems(1) False] Cons.prems(2)
    show ?thesis by (simp add: put_all_def)
  qed
qed

lemma get_all_items:
  "wf q \<Longrightarrow> length (items q) \<le> n \<Longrightarrow> get_all n q = items q"
proof (induction n arbitrary: q)
  case 0
  then show ?case by simp
next
  case (Suc n)
  show ?case
  proof (cases "items q")
    case Nil
    with Suc.prems(1) show ?thesis by (simp add: get_empty)
  next
    case (Cons x xs)
    from get_some [OF Suc.prems(1) Cons] obtain q'
      where "get q = Some (x, q')" "wf q'" "items q' = xs" by blast
    with Suc Cons show ?thesis by simp
  qed
qed

text \<open>What goes in comes out, in order; what does not fit is dropped from the end.\<close>

lemma fifo:
  assumes "wf q" "items q = []" "room \<le> n"
  shows "get_all n (put_all q xs) = take room xs"
proof -
  from put_all_items [of q xs] assms
  have "wf (put_all q xs)" "items (put_all q xs) = take room xs" by simp_all
  with get_all_items [of "put_all q xs" n] assms(3) show ?thesis by simp
qed

end

section \<open>The PS/2 character ring\<close>

definition RINGBUFFER_SIZE :: nat where "RINGBUFFER_SIZE = 256"

record ringbuffer =
  rb_buffer :: "char list"
  rb_head :: nat
  rb_tail :: nat

definition rb_init :: "ringbuffer \<Rightarrow> ringbuffer" where
  "rb_init rb = rb\<lparr>rb_head := 0, rb_tail := 0\<rparr>"

definition rb_empty :: "ringbuffer \<Rightarrow> bool" where
  "rb_empty rb \<longleftrightarrow> rb_head rb = rb_tail rb"

definition rb_put :: "ringbuffer \<Rightarrow> char \<Rightarrow> bool \<times> ringbuffer" where
  "rb_put rb c =
     (let next_head = (rb_head rb + 1) mod RINGBUFFER_SIZE in
      if next_head = rb_tail rb then (False, rb)
      else (True, rb\<lparr>rb_buffer := (rb_buffer rb)[rb_head rb := c], rb_head := next_head\<rparr>))"

definition rb_get :: "ringbuffer \<Rightarrow> (char \<times> ringbuffer) option" where
  "rb_get rb =
     (if rb_head rb = rb_tail rb then None
      else Some (rb_buffer rb ! rb_tail rb,
                 rb\<lparr>rb_tail := (rb_tail rb + 1) mod RINGBUFFER_SIZE\<rparr>))"

definition rb_wf :: "ringbuffer \<Rightarrow> bool" where
  "rb_wf rb \<longleftrightarrow> length (rb_buffer rb) = RINGBUFFER_SIZE
     \<and> rb_head rb < RINGBUFFER_SIZE \<and> rb_tail rb < RINGBUFFER_SIZE"

definition rb_items :: "ringbuffer \<Rightarrow> char list" where
  "rb_items rb = ring_list (rb_buffer rb) (rb_head rb) (rb_tail rb)"

lemma rb_init_wf: "length (rb_buffer rb) = RINGBUFFER_SIZE \<Longrightarrow>
    rb_wf (rb_init rb) \<and> rb_items (rb_init rb) = []"
  by (simp add: rb_wf_def rb_init_def rb_items_def RINGBUFFER_SIZE_def ring_list_empty)

lemma rb_empty_items: "rb_wf rb \<Longrightarrow> rb_empty rb \<longleftrightarrow> rb_items rb = []"
proof -
  assume "rb_wf rb"
  then have "rb_items rb = [] \<longleftrightarrow> ring_count RINGBUFFER_SIZE (rb_head rb) (rb_tail rb) = 0"
    by (simp add: rb_items_def rb_wf_def flip: length_0_conv)
  with \<open>rb_wf rb\<close> show ?thesis by (simp add: ring_count_zero rb_wf_def rb_empty_def)
qed

interpretation rbq: bounded_queue rb_put rb_get rb_items rb_wf "RINGBUFFER_SIZE - 1"
proof unfold_locales
  fix q x assume wf: "rb_wf q"
  then have b: "rb_head q < length (rb_buffer q)" "rb_tail q < length (rb_buffer q)"
    and n: "length (rb_buffer q) = RINGBUFFER_SIZE" by (simp_all add: rb_wf_def)
  have full: "Suc (rb_head q) mod RINGBUFFER_SIZE = rb_tail q
      \<longleftrightarrow> \<not> length (rb_items q) < RINGBUFFER_SIZE - 1"
    using ring_count_full [OF b] ring_count_less [OF b(1), of "rb_tail q"] n
    by (auto simp: rb_items_def)
  show "fst (rb_put q x) \<and> rb_wf (snd (rb_put q x))
      \<and> rb_items (snd (rb_put q x)) = rb_items q @ [x]"
    if "length (rb_items q) < RINGBUFFER_SIZE - 1"
    using that full ring_list_put [OF b, of x] n wf
    by (auto simp: rb_put_def rb_items_def rb_wf_def Let_def)
  show "rb_put q x = (False, q)" if "\<not> length (rb_items q) < RINGBUFFER_SIZE - 1"
    using that full by (simp add: rb_put_def)
next
  fix q assume "rb_wf q" "rb_items q = []"
  then show "rb_get q = None"
    using rb_empty_items [of q] by (simp add: rb_get_def rb_empty_def)
next
  fix q x xs assume wf: "rb_wf q" and it: "rb_items q = x # xs"
  from wf have b: "rb_head q < length (rb_buffer q)" "rb_tail q < length (rb_buffer q)"
    and n: "length (rb_buffer q) = RINGBUFFER_SIZE" by (simp_all add: rb_wf_def)
  have "rb_head q \<noteq> rb_tail q" using rb_empty_items [OF wf] it by (simp add: rb_empty_def)
  from ring_list_get [OF b this] this wf it n
  show "\<exists>q'. rb_get q = Some (x, q') \<and> rb_wf q' \<and> rb_items q' = xs"
    by (auto simp: rb_get_def rb_items_def rb_wf_def)
qed

text \<open>Runs of puts and gets of the model's ring, for the statement of its contract.\<close>

primrec rb_put_all :: "ringbuffer \<Rightarrow> char list \<Rightarrow> ringbuffer" where
  "rb_put_all rb [] = rb"
| "rb_put_all rb (c # cs) = rb_put_all (snd (rb_put rb c)) cs"

primrec rb_get_all :: "nat \<Rightarrow> ringbuffer \<Rightarrow> char list" where
  "rb_get_all 0 rb = []"
| "rb_get_all (Suc n) rb =
     (case rb_get rb of None \<Rightarrow> [] | Some (c, rb') \<Rightarrow> c # rb_get_all n rb')"

lemma rb_put_all_eq: "rb_put_all rb cs = rbq.put_all rb cs"
  by (induction cs arbitrary: rb) (simp_all add: rbq.put_all_def)

lemma rb_get_all_eq: "rb_get_all n rb = rbq.get_all n rb"
  by (induction n arbitrary: rb) (simp_all split: option.splits)

text \<open>
  The PS/2 character ring is a first-in first-out queue of 255 characters: after
  initialisation, putting any characters and then reading until it is empty gives back the
  first 255 of them in order (a character that finds the ring full is dropped, none that
  was taken is lost).
\<close>

theorem ringbuffer_fifo:
  assumes "length (rb_buffer rb) = RINGBUFFER_SIZE" "255 \<le> n"
  shows "rb_get_all n (rb_put_all (rb_init rb) cs) = take 255 cs"
  using rbq.fifo [of "rb_init rb" n cs] rb_init_wf [OF assms(1)] assms(2)
  by (simp add: rb_put_all_eq rb_get_all_eq RINGBUFFER_SIZE_def)

theorem ringbuffer_fifo_witness:
  "rb_get_all 255 (rb_put_all (rb_init \<lparr>rb_buffer = replicate RINGBUFFER_SIZE CHR 0x00, rb_head = 9,
     rb_tail = 4\<rparr>) ''abc'') = ''abc''"
  using ringbuffer_fifo [of "\<lparr>rb_buffer = replicate RINGBUFFER_SIZE CHR 0x00, rb_head = 9,
     rb_tail = 4\<rparr>" 255 "''abc''"] by simp

end
