(* ===== verification/Input.thy ===== *)
theory Input
  imports Ring
begin

text \<open>
  Keyboard and mouse input: \<open>drivers/ps2/keyboard.c\<close>, \<open>drivers/ps2/mouse.c\<close> and
  \<open>drivers/input/input.c\<close>. One record holds the static variables of the three files.

  The PS/2 controller is the hardware: \<open>ps2_out\<close> is its output buffer, a list of bytes
  each marked with whether it came from the mouse. Status bit 0 says the buffer is not
  empty, bit 5 that its next byte is the mouse's; reading the data port takes the byte.
  The layout tables are the two 128-entry tables the layout pointers point to.
  C \<open>int\<close> coordinates are \<open>int\<close>.
\<close>

record input_event =
  ev_sec :: u64
  ev_usec :: u64
  ev_type :: u16
  ev_code :: u16
  ev_value :: int

record input_sys =
  kb_buffer :: ringbuffer
  shift_pressed :: bool
  ctrl_pressed :: bool
  alt_pressed :: bool
  super_pressed :: bool
  super_press_event :: bool
  extended_scancode :: bool
  key_down :: "bool list"
  key_press_event :: "bool list"
  keyboard_irq_hits :: u64
  scancode_ascii :: "char list"
  scancode_ascii_shift :: "char list"
  mouse_cycle :: nat
  mouse_bytes :: "u8 list"
  mouse_packet_size :: nat
  mouse_has_wheel :: bool
  mouse_X :: int
  mouse_y :: int
  mouse_scroll :: int
  mouse_left :: bool
  mouse_right :: bool
  mouse_middle :: bool
  mouse_bound_w :: int
  mouse_bound_h :: int
  input_init_done :: bool
  input_chars :: ringbuffer
  ps2_key_down :: "bool list"
  evbuf :: "input_event list"
  ev_head :: nat
  ev_tail :: nat
  ps2_out :: "(bool \<times> u8) list"

definition EV_KEY :: u16 where "EV_KEY = 1"
definition EV_REL :: u16 where "EV_REL = 2"
definition REL_X :: u16 where "REL_X = 0"
definition REL_Y :: u16 where "REL_Y = 1"
definition REL_WHEEL :: u16 where "REL_WHEEL = 8"
definition BTN_LEFT :: u16 where "BTN_LEFT = 0x110"
definition BTN_RIGHT :: u16 where "BTN_RIGHT = 0x111"
definition BTN_MIDDLE :: u16 where "BTN_MIDDLE = 0x112"

section \<open>The event ring\<close>

definition input_init_once :: "input_sys \<Rightarrow> input_sys" where
  "input_init_once s =
     (if input_init_done s then s
      else s\<lparr>input_chars := rb_init (input_chars s), ps2_key_down := replicate 128 False,
             ev_head := 0, ev_tail := 0, input_init_done := True\<rparr>)"

definition evbuf_push :: "input_sys \<Rightarrow> input_event \<Rightarrow> input_sys" where
  "evbuf_push s ev =
     (let next_head = (ev_head s + 1) mod 128;
          s = (if next_head = ev_tail s then s\<lparr>ev_tail := (ev_tail s + 1) mod 128\<rparr> else s)
      in s\<lparr>evbuf := (evbuf s)[ev_head s := ev], ev_head := next_head\<rparr>)"

definition mk_event :: "u16 \<Rightarrow> u16 \<Rightarrow> int \<Rightarrow> input_event" where
  "mk_event t c v = \<lparr>ev_sec = 0, ev_usec = 0, ev_type = t, ev_code = c, ev_value = v\<rparr>"

definition input_evdev_push_key :: "input_sys \<Rightarrow> u8 \<Rightarrow> bool \<Rightarrow> input_sys" where
  "input_evdev_push_key s scancode pressed =
     (let s = input_init_once s
      in evbuf_push s (mk_event EV_KEY (ucast scancode) (if pressed then 1 else 0)))"

definition input_evdev_push_mouse ::
    "input_sys \<Rightarrow> int \<Rightarrow> int \<Rightarrow> int \<Rightarrow> bool \<Rightarrow> bool \<Rightarrow> bool \<Rightarrow> input_sys" where
  "input_evdev_push_mouse s dx dy wheel left right middle =
     (let s = input_init_once s;
          s = (if dx \<noteq> 0 then evbuf_push s (mk_event EV_REL REL_X dx) else s);
          s = (if dy \<noteq> 0 then evbuf_push s (mk_event EV_REL REL_Y dy) else s);
          s = (if wheel \<noteq> 0 then evbuf_push s (mk_event EV_REL REL_WHEEL wheel) else s);
          s = evbuf_push s (mk_event EV_KEY BTN_LEFT (if left then 1 else 0));
          s = evbuf_push s (mk_event EV_KEY BTN_RIGHT (if right then 1 else 0))
      in evbuf_push s (mk_event EV_KEY BTN_MIDDLE (if middle then 1 else 0)))"

definition input_evdev_pop :: "input_sys \<Rightarrow> input_event option \<times> input_sys" where
  "input_evdev_pop s =
     (let s = input_init_once s in
      if ev_tail s = ev_head s then (None, s)
      else (Some (evbuf s ! ev_tail s), s\<lparr>ev_tail := (ev_tail s + 1) mod 128\<rparr>))"

section \<open>The keyboard\<close>

definition ctrl_char :: "char \<Rightarrow> char" where
  "ctrl_char c =
     (let n = (of_char c :: nat) in
      if 97 \<le> n \<and> n \<le> 122 \<or> 65 \<le> n \<and> n \<le> 90 then char_of (n AND 31) else c)"

definition kb_note_key :: "input_sys \<Rightarrow> u8 \<Rightarrow> bool \<Rightarrow> input_sys" where
  "kb_note_key s key released =
     (if unat key < 128
      then let s = s\<lparr>key_down := (key_down s)[unat key := \<not> released]\<rparr>;
               s = input_evdev_push_key s key (\<not> released)
           in if \<not> released
              then s\<lparr>key_press_event := (key_press_event s)[unat key := True]\<rparr> else s
      else s)"

definition kb_note_super :: "input_sys \<Rightarrow> u8 \<Rightarrow> bool \<Rightarrow> input_sys" where
  "kb_note_super s key released =
     (if key = 0x5B \<or> key = 0x5C
      then s\<lparr>super_pressed := \<not> released,
             super_press_event := (if \<not> released then True else super_press_event s)\<rparr>
      else s)"

definition kb_note_ctrl_alt :: "input_sys \<Rightarrow> u8 \<Rightarrow> bool \<Rightarrow> input_sys" where
  "kb_note_ctrl_alt s key released =
     (let s = (if key = 0x1D then s\<lparr>ctrl_pressed := \<not> released\<rparr> else s)
      in if key = 0x38 then s\<lparr>alt_pressed := \<not> released\<rparr> else s)"

definition kb_note_shift :: "input_sys \<Rightarrow> u8 \<Rightarrow> bool \<Rightarrow> input_sys" where
  "kb_note_shift s key released =
     (if key = 0x2A \<or> key = 0x36 then s\<lparr>shift_pressed := \<not> released\<rparr> else s)"

definition kb_char :: "input_sys \<Rightarrow> u8 \<Rightarrow> char" where
  "kb_char s key =
     (let c = (if shift_pressed s then scancode_ascii_shift s ! unat key
               else scancode_ascii s ! unat key)
      in if ctrl_pressed s then ctrl_char c else c)"

definition kb_emit :: "input_sys \<Rightarrow> char \<Rightarrow> input_sys" where
  "kb_emit s c = (if c \<noteq> CHR 0x00 then s\<lparr>kb_buffer := snd (rb_put (kb_buffer s) c)\<rparr> else s)"

definition keyboard_apply_scancode :: "input_sys \<Rightarrow> u8 \<Rightarrow> bool \<Rightarrow> bool \<Rightarrow> input_sys" where
  "keyboard_apply_scancode s key released extended =
     (let was_down = (if unat key < 128 then key_down s ! unat key else False);
          s = kb_note_key s key released;
          s = kb_note_super s key released
      in if extended then kb_note_ctrl_alt s key released
         else
           let s = kb_note_shift s key released;
               s = kb_note_ctrl_alt s key released
           in if \<not> released \<and> \<not> was_down then kb_emit s (kb_char s key) else s)"

text \<open>The polling loop, with its budget of 256 bytes.\<close>

primrec keyboard_poll_loop :: "nat \<Rightarrow> input_sys \<Rightarrow> input_sys" where
  "keyboard_poll_loop 0 s = s"
| "keyboard_poll_loop (Suc budget) s =
     (case ps2_out s of
        [] \<Rightarrow> s
      | (from_mouse, scancode) # rest \<Rightarrow>
          let s = s\<lparr>ps2_out := rest\<rparr> in
          if from_mouse then keyboard_poll_loop budget s
          else if scancode = 0xE0 then keyboard_poll_loop budget (s\<lparr>extended_scancode := True\<rparr>)
          else
            let released = scancode AND 0x80 \<noteq> 0; key = scancode AND 0x7F in
            if extended_scancode s
            then keyboard_poll_loop budget
                   ((keyboard_apply_scancode s key released True)\<lparr>extended_scancode := False\<rparr>)
            else keyboard_poll_loop budget (keyboard_apply_scancode s key released False))"

definition keyboard_poll :: "input_sys \<Rightarrow> input_sys" where
  "keyboard_poll s = keyboard_poll_loop 256 s"

definition keyboard_getchar :: "input_sys \<Rightarrow> (char \<times> input_sys) option" where
  "keyboard_getchar s =
     map_option (\<lambda>(c, rb). (c, s\<lparr>kb_buffer := rb\<rparr>)) (rb_get (kb_buffer s))"

definition keyboard_is_key_pressed :: "input_sys \<Rightarrow> u8 \<Rightarrow> bool" where
  "keyboard_is_key_pressed s key =
     (if key = 0x2A \<or> key = 0x36 then shift_pressed s
      else if key = 0x1D then ctrl_pressed s
      else if key = 0x38 then alt_pressed s
      else if unat key < 128 then key_down s ! unat key
      else False)"

definition keyboard_irq_handler :: "input_sys \<Rightarrow> input_sys" where
  "keyboard_irq_handler s = keyboard_poll (s\<lparr>keyboard_irq_hits := keyboard_irq_hits s + 1\<rparr>)"

definition keyboard_consume_super_press :: "input_sys \<Rightarrow> bool \<times> input_sys" where
  "keyboard_consume_super_press s =
     (if \<not> super_press_event s then (False, s) else (True, s\<lparr>super_press_event := False\<rparr>))"

definition keyboard_consume_key_press :: "input_sys \<Rightarrow> u8 \<Rightarrow> bool \<times> input_sys" where
  "keyboard_consume_key_press s key =
     (if 128 \<le> unat key then (False, s)
      else if \<not> key_press_event s ! unat key then (False, s)
      else (True, s\<lparr>key_press_event := (key_press_event s)[unat key := False]\<rparr>))"

definition keyboard_inject_scancode_set1 :: "input_sys \<Rightarrow> u8 \<Rightarrow> bool \<Rightarrow> input_sys" where
  "keyboard_inject_scancode_set1 s scancode pressed =
     (let key = scancode AND 0x7F in
      if 128 \<le> unat key then s else keyboard_apply_scancode s key (\<not> pressed) False)"

definition keyboard_inject_char :: "input_sys \<Rightarrow> char \<Rightarrow> input_sys" where
  "keyboard_inject_char s c =
     (if c \<noteq> CHR 0x00 then s\<lparr>kb_buffer := snd (rb_put (kb_buffer s) c)\<rparr> else s)"

section \<open>The mouse\<close>

definition mouse_clamp :: "input_sys \<Rightarrow> input_sys" where
  "mouse_clamp s =
     (let s = (if mouse_X s < 0 then s\<lparr>mouse_X := 0\<rparr> else s);
          s = (if mouse_y s < 0 then s\<lparr>mouse_y := 0\<rparr> else s);
          s = (if mouse_bound_w s \<le> mouse_X s then s\<lparr>mouse_X := mouse_bound_w s - 1\<rparr> else s)
      in (if mouse_bound_h s \<le> mouse_y s then s\<lparr>mouse_y := mouse_bound_h s - 1\<rparr> else s))"

definition mouse_set_bounds :: "input_sys \<Rightarrow> int \<Rightarrow> int \<Rightarrow> input_sys" where
  "mouse_set_bounds s width height =
     (let s = (if 0 < width then s\<lparr>mouse_bound_w := width\<rparr> else s);
          s = (if 0 < height then s\<lparr>mouse_bound_h := height\<rparr> else s)
      in mouse_clamp s)"

text \<open>A delta byte is signed; the overflow flag replaces it by the extreme of its sign.\<close>

definition mouse_delta :: "u8 \<Rightarrow> bool \<Rightarrow> int" where
  "mouse_delta b overflow =
     (let d = sint b in if overflow then (if d < 0 then -127 else 127) else d)"

definition mouse_move :: "input_sys \<Rightarrow> input_sys" where
  "mouse_move s =
     (let flags = mouse_bytes s ! 0;
          dx = mouse_delta (mouse_bytes s ! 1) (flags AND 0x40 \<noteq> 0);
          dy = mouse_delta (mouse_bytes s ! 2) (flags AND 0x80 \<noteq> 0)
      in s\<lparr>mouse_X := mouse_X s + dx, mouse_y := mouse_y s - dy\<rparr>)"

definition mouse_finish :: "input_sys \<Rightarrow> int \<Rightarrow> input_sys" where
  "mouse_finish s wheel =
     (let s = mouse_clamp s;
          flags = mouse_bytes s ! 0;
          s = s\<lparr>mouse_left := flags AND 1 \<noteq> 0, mouse_right := flags AND 2 \<noteq> 0,
                mouse_middle := flags AND 4 \<noteq> 0\<rparr>
      in input_evdev_push_mouse s (sint (mouse_bytes s ! 1)) (sint (mouse_bytes s ! 2)) wheel
           (mouse_left s) (mouse_right s) (mouse_middle s))"

definition mouse_process_byte :: "input_sys \<Rightarrow> u8 \<Rightarrow> input_sys" where
  "mouse_process_byte s data =
     (if mouse_cycle s = 0 then
        (if data AND 8 = 0 then s
         else s\<lparr>mouse_bytes := (mouse_bytes s)[0 := data], mouse_cycle := 1\<rparr>)
      else if mouse_cycle s = 1 then
        s\<lparr>mouse_bytes := (mouse_bytes s)[1 := data], mouse_cycle := 2\<rparr>
      else if mouse_cycle s = 2 then
        (let s = s\<lparr>mouse_bytes := (mouse_bytes s)[2 := data]\<rparr> in
         if mouse_packet_size s = 4 then s\<lparr>mouse_cycle := 3\<rparr>
         else mouse_finish (mouse_move (s\<lparr>mouse_cycle := 0\<rparr>)) 0)
      else
        (let s = mouse_move (s\<lparr>mouse_bytes := (mouse_bytes s)[3 := data], mouse_cycle := 0\<rparr>);
             z = sint (push_bit 4 (mouse_bytes s ! 3)) div 16
         in if mouse_has_wheel s then mouse_finish (s\<lparr>mouse_scroll := mouse_scroll s + z\<rparr>) z
            else mouse_finish s 0))"

definition mouse_data :: "input_sys \<Rightarrow> bool" where
  "mouse_data s \<longleftrightarrow> (case ps2_out s of [] \<Rightarrow> False | (from_mouse, b) # _ \<Rightarrow> from_mouse)"

definition mouse_poll :: "input_sys \<Rightarrow> input_sys" where
  "mouse_poll s =
     (if \<not> mouse_data s then s
      else mouse_process_byte (s\<lparr>ps2_out := tl (ps2_out s)\<rparr>) (snd (hd (ps2_out s))))"

primrec mouse_irq_loop :: "nat \<Rightarrow> input_sys \<Rightarrow> input_sys" where
  "mouse_irq_loop 0 s = s"
| "mouse_irq_loop (Suc budget) s =
     (case ps2_out s of [] \<Rightarrow> s
      | (_, b) # rest \<Rightarrow> mouse_irq_loop budget (mouse_process_byte (s\<lparr>ps2_out := rest\<rparr>) b))"

definition mouse_irq_handler :: "input_sys \<Rightarrow> input_sys" where
  "mouse_irq_handler s = mouse_irq_loop 64 s"

definition mouse_get_scroll :: "input_sys \<Rightarrow> int \<times> input_sys" where
  "mouse_get_scroll s = (mouse_scroll s, s\<lparr>mouse_scroll := 0\<rparr>)"

definition mouse_inject_report ::
    "input_sys \<Rightarrow> int \<Rightarrow> int \<Rightarrow> int \<Rightarrow> bool \<Rightarrow> bool \<Rightarrow> bool \<Rightarrow> input_sys" where
  "mouse_inject_report s dx dy wheel left right middle =
     (let s = mouse_clamp (s\<lparr>mouse_X := mouse_X s + dx, mouse_y := mouse_y s - dy\<rparr>)
      in s\<lparr>mouse_scroll := mouse_scroll s + wheel, mouse_left := left, mouse_right := right,
           mouse_middle := middle\<rparr>)"

section \<open>The input front end\<close>

text \<open>
  The transfer loop empties the keyboard ring, which holds at most 255 characters: 256
  rounds are enough (\<open>drain_chars_done\<close>).
\<close>

primrec drain_chars :: "nat \<Rightarrow> input_sys \<Rightarrow> input_sys" where
  "drain_chars 0 s = s"
| "drain_chars (Suc n) s =
     (case keyboard_getchar s of None \<Rightarrow> s
      | Some (c, s) \<Rightarrow> drain_chars n (s\<lparr>input_chars := snd (rb_put (input_chars s) c)\<rparr>))"

primrec mouse_drain :: "nat \<Rightarrow> input_sys \<Rightarrow> input_sys" where
  "mouse_drain 0 s = s"
| "mouse_drain (Suc budget) s = (if mouse_data s then mouse_drain budget (mouse_poll s) else s)"

definition input_poll :: "input_sys \<Rightarrow> input_sys" where
  "input_poll s =
     (let s = input_init_once s;
          s = keyboard_poll s;
          s = drain_chars RINGBUFFER_SIZE s;
          s = s\<lparr>ps2_key_down := map (\<lambda>k. keyboard_is_key_pressed s (of_nat k)) [0..<128]\<rparr>
      in mouse_drain 256 s)"

definition input_try_getchar :: "input_sys \<Rightarrow> char option \<times> input_sys" where
  "input_try_getchar s =
     (let s = input_poll s in
      case rb_get (input_chars s) of None \<Rightarrow> (None, s)
      | Some (c, rb) \<Rightarrow> (Some c, s\<lparr>input_chars := rb\<rparr>))"

definition input_key_pressed :: "input_sys \<Rightarrow> u8 \<Rightarrow> bool \<times> input_sys" where
  "input_key_pressed s key =
     (let s = input_init_once s in
      if 128 \<le> unat key then (False, s)
      else let s = input_poll s in (ps2_key_down s ! unat key, s))"

definition input_copy_key_state :: "input_sys \<Rightarrow> nat \<Rightarrow> bool list \<times> input_sys" where
  "input_copy_key_state s len =
     (let s = input_init_once s in
      if len = 0 then ([], s)
      else let len = (if 128 < len then 128 else len); s = input_poll s
           in (take len (ps2_key_down s), s))"

definition input_consume_super_press :: "input_sys \<Rightarrow> bool \<times> input_sys" where
  "input_consume_super_press s = keyboard_consume_super_press (input_poll (input_init_once s))"

definition input_mouse_get_state ::
    "input_sys \<Rightarrow> int \<Rightarrow> int \<Rightarrow> (int \<times> int \<times> int \<times> bool \<times> bool \<times> bool) \<times> input_sys" where
  "input_mouse_get_state s bound_w bound_h =
     (let s = (if 0 < bound_w \<and> 0 < bound_h then mouse_set_bounds s bound_w bound_h else s);
          s = input_poll s;
          (scroll, s) = mouse_get_scroll s
      in ((mouse_X s, mouse_y s, scroll, mouse_left s, mouse_right s, mouse_middle s), s))"

definition input_inject_scancode_set1 :: "input_sys \<Rightarrow> u8 \<Rightarrow> bool \<Rightarrow> input_sys" where
  "input_inject_scancode_set1 s scancode pressed =
     (let s = input_init_once s; key = scancode AND 0x7F in
      if 128 \<le> unat key then s
      else s\<lparr>ps2_key_down := (ps2_key_down s)[unat key := pressed]\<rparr>)"

definition input_inject_char :: "input_sys \<Rightarrow> char \<Rightarrow> input_sys" where
  "input_inject_char s c =
     (let s = input_init_once s in
      if c = CHR 0x00 then s else s\<lparr>input_chars := snd (rb_put (input_chars s) c)\<rparr>)"

definition input_inject_mouse_report ::
    "input_sys \<Rightarrow> int \<Rightarrow> int \<Rightarrow> int \<Rightarrow> bool \<Rightarrow> bool \<Rightarrow> bool \<Rightarrow> input_sys" where
  "input_inject_mouse_report s dx dy wheel left right middle =
     mouse_inject_report s dx dy wheel left right middle"

section \<open>The pointer stays on the screen\<close>

definition mouse_ok :: "input_sys \<Rightarrow> bool" where
  "mouse_ok s \<longleftrightarrow> 0 < mouse_bound_w s \<and> 0 < mouse_bound_h s
     \<and> 0 \<le> mouse_X s \<and> mouse_X s < mouse_bound_w s \<and> 0 \<le> mouse_y s \<and> mouse_y s < mouse_bound_h s"

definition bounds_ok :: "input_sys \<Rightarrow> bool" where
  "bounds_ok s \<longleftrightarrow> 0 < mouse_bound_w s \<and> 0 < mouse_bound_h s"

lemma mouse_ok_bounds: "mouse_ok s \<Longrightarrow> bounds_ok s"
  by (simp add: mouse_ok_def bounds_ok_def)

lemma mouse_clamp_ok [keeps]: "bounds_ok s \<Longrightarrow> mouse_ok (mouse_clamp s)"
  by (auto simp: mouse_clamp_def mouse_ok_def bounds_ok_def Let_def)

lemma mouse_ok_frame [frame, simp]:
  "mouse_ok (evbuf_push s ev) = mouse_ok s"
  "mouse_ok (input_init_once s) = mouse_ok s"
  "mouse_ok (s\<lparr>mouse_left := l, mouse_right := r, mouse_middle := m\<rparr>) = mouse_ok s"
  "mouse_ok (s\<lparr>mouse_scroll := w\<rparr>) = mouse_ok s"
  "mouse_ok (s\<lparr>mouse_bytes := b\<rparr>) = mouse_ok s"
  "mouse_ok (s\<lparr>mouse_cycle := n\<rparr>) = mouse_ok s"
  "mouse_ok (s\<lparr>ps2_out := bs\<rparr>) = mouse_ok s"
  "mouse_ok (s\<lparr>kb_buffer := rb\<rparr>) = mouse_ok s"
  "mouse_ok (s\<lparr>input_chars := rb\<rparr>) = mouse_ok s"
  "mouse_ok (s\<lparr>ps2_key_down := kd\<rparr>) = mouse_ok s"
  "mouse_ok (s\<lparr>extended_scancode := x\<rparr>) = mouse_ok s"
  "mouse_ok (s\<lparr>keyboard_irq_hits := h\<rparr>) = mouse_ok s"
  "mouse_ok (s\<lparr>ev_tail := t\<rparr>) = mouse_ok s"
  by (simp_all add: mouse_ok_def evbuf_push_def input_init_once_def Let_def)

lemma mouse_ok_push_mouse [frame, simp]:
  "mouse_ok (input_evdev_push_mouse s dx dy w l r m) = mouse_ok s"
  by (simp add: input_evdev_push_mouse_def Let_def)

lemma mouse_ok_push_key [frame, simp]: "mouse_ok (input_evdev_push_key s k p) = mouse_ok s"
  by (simp add: input_evdev_push_key_def Let_def)

lemma mouse_ok_kb [frame, simp]:
  "mouse_ok (kb_note_super s key r) = mouse_ok s"
  "mouse_ok (kb_note_ctrl_alt s key r) = mouse_ok s"
  "mouse_ok (kb_note_shift s key r) = mouse_ok s"
  "mouse_ok (kb_emit s c) = mouse_ok s"
  by (simp_all add: kb_note_super_def kb_note_ctrl_alt_def kb_note_shift_def kb_emit_def Let_def
      mouse_ok_def)

lemma mouse_ok_note_key [frame, simp]: "mouse_ok (kb_note_key s key r) = mouse_ok s"
proof -
  have "mouse_ok (s\<lparr>key_down := a\<rparr>) = mouse_ok s"
    "mouse_ok (s\<lparr>key_press_event := a\<rparr>) = mouse_ok s" for s a
    by (simp_all add: mouse_ok_def)
  then show ?thesis by (simp add: kb_note_key_def Let_def)
qed

lemma mouse_ok_scancode [frame, simp]: "mouse_ok (keyboard_apply_scancode s key r e) = mouse_ok s"
  by (simp add: keyboard_apply_scancode_def Let_def)

lemma mouse_ok_keyboard_poll [frame, simp]: "mouse_ok (keyboard_poll s) = mouse_ok s"
proof -
  have "mouse_ok (keyboard_poll_loop n s) = mouse_ok s" for n
    by (induction n arbitrary: s) (simp_all add: Let_def split: list.split)
  then show ?thesis by (simp add: keyboard_poll_def)
qed

lemma mouse_ok_drain_chars [frame, simp]: "mouse_ok (drain_chars n s) = mouse_ok s"
  by (induction n arbitrary: s) (auto simp: keyboard_getchar_def split: option.split)

lemma mouse_finish_ok [keeps]: "bounds_ok s \<Longrightarrow> mouse_ok (mouse_finish s w)"
  by (simp add: mouse_finish_def Let_def mouse_clamp_ok)

lemma mouse_process_byte_ok [keeps]: "mouse_ok s \<Longrightarrow> mouse_ok (mouse_process_byte s b)"
proof -
  assume "mouse_ok s"
  then have b: "bounds_ok s" by (rule mouse_ok_bounds)
  have move: "bounds_ok (mouse_move s) = bounds_ok s" for s
    by (simp add: mouse_move_def Let_def bounds_ok_def)
  have frames: "bounds_ok (s\<lparr>mouse_bytes := x\<rparr>) = bounds_ok s"
    "bounds_ok (s\<lparr>mouse_cycle := n\<rparr>) = bounds_ok s" "bounds_ok (s\<lparr>mouse_scroll := i\<rparr>) = bounds_ok s"
    for s x n i by (simp_all add: bounds_ok_def)
  show ?thesis
    using \<open>mouse_ok s\<close> b by (simp add: mouse_process_byte_def Let_def mouse_finish_ok move frames)
qed

lemma mouse_poll_ok [keeps]: "mouse_ok s \<Longrightarrow> mouse_ok (mouse_poll s)"
  by (simp add: mouse_poll_def mouse_process_byte_ok)

lemma mouse_drain_ok [keeps]: "mouse_ok s \<Longrightarrow> mouse_ok (mouse_drain n s)"
  by (induction n arbitrary: s) (simp_all add: mouse_poll_ok)

lemma mouse_irq_ok [keeps]: "mouse_ok s \<Longrightarrow> mouse_ok (mouse_irq_handler s)"
proof -
  have "mouse_ok s \<Longrightarrow> mouse_ok (mouse_irq_loop n s)" for n
    by (induction n arbitrary: s) (auto split: list.split simp: mouse_process_byte_ok)
  then show "mouse_ok s \<Longrightarrow> mouse_ok (mouse_irq_handler s)" by (simp add: mouse_irq_handler_def)
qed

lemma input_poll_ok [keeps]: "mouse_ok s \<Longrightarrow> mouse_ok (input_poll s)"
  by (simp add: input_poll_def Let_def mouse_drain_ok)

lemma mouse_set_bounds_ok [keeps]: "bounds_ok s \<Longrightarrow> mouse_ok (mouse_set_bounds s w h)"
  by (auto simp: mouse_set_bounds_def Let_def bounds_ok_def intro!: mouse_clamp_ok)

lemma mouse_inject_ok [keeps]: "bounds_ok s \<Longrightarrow> mouse_ok (mouse_inject_report s dx dy w l r m)"
proof -
  assume "bounds_ok s"
  then have "mouse_ok (mouse_clamp (s\<lparr>mouse_X := mouse_X s + dx, mouse_y := mouse_y s - dy\<rparr>))"
    by (auto simp: bounds_ok_def intro!: mouse_clamp_ok)
  then show ?thesis by (simp add: mouse_inject_report_def Let_def mouse_ok_def)
qed

text \<open>The entry points of the subsystem, as the steps of its runs.\<close>

datatype input_op =
    Arrive "(bool \<times> u8) list" \<comment> \<open>bytes reach the controller\<close>
  | KeyboardIrq | MouseIrq | Poll | TryGetchar | KeyPressed u8 | EvPop
  | MouseState int int | InjectScancode u8 bool | InjectChar char
  | InjectMouse int int int bool bool bool

fun input_step :: "input_sys \<Rightarrow> input_op \<Rightarrow> input_sys" where
  "input_step s (Arrive bs) = s\<lparr>ps2_out := ps2_out s @ bs\<rparr>"
| "input_step s KeyboardIrq = keyboard_irq_handler s"
| "input_step s MouseIrq = mouse_irq_handler s"
| "input_step s Poll = input_poll s"
| "input_step s TryGetchar = snd (input_try_getchar s)"
| "input_step s (KeyPressed k) = snd (input_key_pressed s k)"
| "input_step s EvPop = snd (input_evdev_pop s)"
| "input_step s (MouseState w h) = snd (input_mouse_get_state s w h)"
| "input_step s (InjectScancode k p) = input_inject_scancode_set1 s k p"
| "input_step s (InjectChar c) = input_inject_char s c"
| "input_step s (InjectMouse dx dy w l r m) = input_inject_mouse_report s dx dy w l r m"

lemma input_step_mouse_ok [keeps]: "mouse_ok s \<Longrightarrow> mouse_ok (input_step s op)"
proof (cases op)
  case (MouseState w h)
  moreover assume "mouse_ok s"
  ultimately show ?thesis
    by (auto simp: input_mouse_get_state_def Let_def mouse_get_scroll_def
        intro!: input_poll_ok mouse_set_bounds_ok mouse_ok_bounds)
qed (auto simp: keyboard_irq_handler_def input_try_getchar_def input_key_pressed_def Let_def
    input_evdev_pop_def input_inject_scancode_set1_def input_inject_char_def
    input_inject_mouse_report_def intro!: input_poll_ok mouse_irq_ok mouse_inject_ok mouse_ok_bounds
    split: option.split)

primrec input_run :: "input_sys \<Rightarrow> input_op list \<Rightarrow> input_sys" where
  "input_run s [] = s"
| "input_run s (op # ops) = input_run (input_step s op) ops"

text \<open>
  Whatever bytes the mouse sends (partial packets, overflow flags, wheel packets),
  and however bounds, injected reports, interrupts and polls interleave, the pointer's
  coordinates stay inside the current screen bounds, which stay positive.
\<close>

theorem mouse_stays_in_bounds:
  assumes "mouse_ok s"
  shows "let s' = input_run s ops in
    0 \<le> mouse_X s' \<and> mouse_X s' < mouse_bound_w s' \<and> 0 \<le> mouse_y s' \<and> mouse_y s' < mouse_bound_h s'"
proof -
  have "mouse_ok s \<Longrightarrow> mouse_ok (input_run s ops)"
    by (induction ops arbitrary: s) (simp_all add: input_step_mouse_ok)
  with assms show ?thesis by (simp add: mouse_ok_def Let_def)
qed

text \<open>The state the static initialisers give: the pointer at (100, 100) on 640 by 480.\<close>

definition input_boot :: "char list \<Rightarrow> char list \<Rightarrow> input_sys" where
  "input_boot ascii shifted =
     \<lparr>kb_buffer = \<lparr>rb_buffer = replicate RINGBUFFER_SIZE (CHR 0x00), rb_head = 0, rb_tail = 0\<rparr>,
      shift_pressed = False, ctrl_pressed = False, alt_pressed = False, super_pressed = False,
      super_press_event = False, extended_scancode = False, key_down = replicate 128 False,
      key_press_event = replicate 128 False, keyboard_irq_hits = 0, scancode_ascii = ascii,
      scancode_ascii_shift = shifted, mouse_cycle = 0, mouse_bytes = replicate 4 0,
      mouse_packet_size = 3, mouse_has_wheel = False, mouse_X = 100, mouse_y = 100,
      mouse_scroll = 0, mouse_left = False, mouse_right = False, mouse_middle = False,
      mouse_bound_w = 640, mouse_bound_h = 480, input_init_done = False,
      input_chars = \<lparr>rb_buffer = replicate RINGBUFFER_SIZE (CHR 0x00), rb_head = 0, rb_tail = 0\<rparr>,
      ps2_key_down = replicate 128 False, evbuf = replicate 128 (mk_event 0 0 0), ev_head = 0,
      ev_tail = 0, ps2_out = []\<rparr>"

theorem mouse_stays_in_bounds_witness:
  "let s' = input_run (input_boot [] []) [Arrive [(True, 0x88), (True, 1), (True, 0x7F)], MouseIrq] in
    0 \<le> mouse_X s' \<and> mouse_X s' < mouse_bound_w s' \<and> 0 \<le> mouse_y s' \<and> mouse_y s' < mouse_bound_h s'"
proof -
  have "mouse_ok (input_boot [] [])" by (simp add: mouse_ok_def input_boot_def)
  then show ?thesis by (rule mouse_stays_in_bounds)
qed

section \<open>The event ring keeps the newest events\<close>

definition ev_wf :: "input_sys \<Rightarrow> bool" where
  "ev_wf s \<longleftrightarrow> length (evbuf s) = 128 \<and> ev_head s < 128 \<and> ev_tail s < 128"

definition ev_items :: "input_sys \<Rightarrow> input_event list" where
  "ev_items s = ring_list (evbuf s) (ev_head s) (ev_tail s)"

definition newest :: "nat \<Rightarrow> 'a list \<Rightarrow> 'a list" where
  "newest n xs = drop (length xs - n) xs"

lemma length_ev_items: "ev_wf s \<Longrightarrow> length (ev_items s) < 128"
  by (simp add: ev_items_def ev_wf_def ring_count_less)

lemma evbuf_push_items:
  assumes "ev_wf s"
  shows "ev_wf (evbuf_push s e) \<and> ev_items (evbuf_push s e) = newest 127 (ev_items s @ [e])"
proof -
  let ?h = "Suc (ev_head s) mod 128" and ?b = "(evbuf s)[ev_head s := e]"
  from assms have b: "ev_head s < length (evbuf s)" "ev_tail s < length (evbuf s)"
    and n: "length (evbuf s) = 128" by (simp_all add: ev_wf_def)
  have cnt: "length (ev_items s) = ring_count 128 (ev_head s) (ev_tail s)"
    by (simp add: ev_items_def n)
  show ?thesis
  proof (cases "?h = ev_tail s")
    case False
    with ring_list_put [OF b, of e] n have "ev_items (evbuf_push s e) = ev_items s @ [e]"
      by (simp add: evbuf_push_def ev_items_def Let_def)
    moreover have "length (ev_items s) \<noteq> 127"
      using ring_count_full [of "ev_head s" 128 "ev_tail s"] b n cnt False by simp
    ultimately show ?thesis
      using length_ev_items [OF assms] assms False
      by (auto simp: newest_def evbuf_push_def ev_wf_def Let_def)
  next
    case True
    let ?t = "Suc (ev_tail s) mod 128"
    have full: "length (ev_items s) = 127"
      using ring_count_full [of "ev_head s" 128 "ev_tail s"] b n cnt True by simp
    then have ne: "ev_head s \<noteq> ev_tail s"
      using cnt b n ring_count_zero [of "ev_head s" 128 "ev_tail s"] by auto
    have ne2: "Suc (ev_head s) mod length (evbuf s) \<noteq> ?t"
      using True n b by (auto simp: next_cases split: if_splits)
    have "?t < length (evbuf s)" by (simp add: n)
    from ring_list_put [OF b(1) this ne2, of e] n
    have "ev_items (evbuf_push s e) = ring_list (evbuf s) (ev_head s) ?t @ [e]"
      using True by (simp add: evbuf_push_def ev_items_def Let_def)
    moreover have "ring_list (evbuf s) (ev_head s) ?t = tl (ev_items s)"
      using ring_list_get [OF b ne] n by (simp add: ev_items_def)
    ultimately have "ev_items (evbuf_push s e) = tl (ev_items s @ [e])"
      using full by (cases "ev_items s") auto
    then show ?thesis
      using assms True full
      by (cases "ev_items s") (simp_all add: newest_def drop_Suc evbuf_push_def ev_wf_def Let_def)
  qed
qed

lemma newest_newest: "newest n (newest n xs @ ys) = newest n (xs @ ys)"
  by (cases "length xs \<le> n") (auto simp: newest_def add.commute)

lemma evdev_pop_items:
  assumes "ev_wf s" "input_init_done s"
  shows "input_evdev_pop s = (case ev_items s of [] \<Rightarrow> None | e # es \<Rightarrow> Some e, snd (input_evdev_pop s))"
    "ev_wf (snd (input_evdev_pop s))" "input_init_done (snd (input_evdev_pop s))"
    "ev_items (snd (input_evdev_pop s)) = tl (ev_items s)"
proof -
  have b: "ev_head s < length (evbuf s)" "ev_tail s < length (evbuf s)" "length (evbuf s) = 128"
    using assms(1) by (simp_all add: ev_wf_def)
  have i: "input_init_once s = s" using assms(2) by (simp add: input_init_once_def)
  have e: "ev_items s = (if ev_head s = ev_tail s then [] else
      evbuf s ! ev_tail s # ring_list (evbuf s) (ev_head s) (Suc (ev_tail s) mod 128))"
    using ring_list_get [OF b(1,2)] b(3) ring_count_zero [of "ev_head s" 128 "ev_tail s"] b(1,2)
    by (auto simp: ev_items_def ring_list_def)
  show "input_evdev_pop s = (case ev_items s of [] \<Rightarrow> None | e # es \<Rightarrow> Some e, snd (input_evdev_pop s))"
    "ev_items (snd (input_evdev_pop s)) = tl (ev_items s)"
    by (simp_all add: input_evdev_pop_def i e) (simp_all add: ev_items_def)
  show "ev_wf (snd (input_evdev_pop s))" "input_init_done (snd (input_evdev_pop s))"
    using assms by (simp_all add: input_evdev_pop_def i ev_wf_def Let_def)
qed

lemma evbuf_push_init [simp]: "input_init_done (evbuf_push s e) = input_init_done s"
  by (simp add: evbuf_push_def Let_def)

text \<open>Runs of pushes and pops on the ring, and on the queue it stands for.\<close>

datatype ev_call = EvPut input_event | EvGet

fun ev_run :: "ev_call list \<Rightarrow> input_sys \<Rightarrow> input_event option list \<times> input_sys" where
  "ev_run [] s = ([], s)"
| "ev_run (EvPut e # cs) s = ev_run cs (evbuf_push s e)"
| "ev_run (EvGet # cs) s =
     (case input_evdev_pop s of (r, s) \<Rightarrow> (case ev_run cs s of (rs, s) \<Rightarrow> (r # rs, s)))"

fun ev_queue :: "ev_call list \<Rightarrow> input_event list \<Rightarrow> input_event option list \<times> input_event list" where
  "ev_queue [] q = ([], q)"
| "ev_queue (EvPut e # cs) q = ev_queue cs (newest 127 (q @ [e]))"
| "ev_queue (EvGet # cs) q =
     (case ev_queue cs (tl q) of (rs, q') \<Rightarrow> ((case q of [] \<Rightarrow> None | e # es \<Rightarrow> Some e) # rs, q'))"

text \<open>
  C1. The ring of input events is a queue that keeps the newest 127 events. After initialisation, every sequence of
  pushes and pops on a well-formed ring gives the answers of that queue and leaves its contents: a push
  appends and, if there are 127 events already, drops the oldest one; a pop takes the oldest event, and
  answers nothing if there is none.
\<close>

theorem event_ring_keeps_newest:
  assumes "ev_wf s" "input_init_done s"
  shows "fst (ev_run cs s) = fst (ev_queue cs (ev_items s)) \<and> ev_items (snd (ev_run cs s)) = snd (ev_queue cs (ev_items s))
    \<and> ev_wf (snd (ev_run cs s))"
  using assms
proof (induction cs s rule: ev_run.induct)
  case (2 e cs s)
  with evbuf_push_items [OF 2(2), of e] show ?case by simp
next
  case (3 cs s)
  note p = evdev_pop_items [OF 3(2,3)]
  obtain r t where rt: "input_evdev_pop s = (r, t)" by fastforce
  with p have t: "ev_wf t" "input_init_done t" "ev_items t = tl (ev_items s)"
    "r = (case ev_items s of [] \<Rightarrow> None | e # es \<Rightarrow> Some e)" by simp_all
  from 3(1) [OF rt [symmetric] t(1,2)] t(3,4) rt show ?case by (simp add: case_prod_beta)
qed simp

theorem event_ring_keeps_newest_witness:
  "fst (ev_run [EvPut (mk_event 1 2 3), EvPut (mk_event 4 5 6), EvGet, EvGet, EvGet] (input_init_once (input_boot [] [])))
     = [Some (mk_event 1 2 3), Some (mk_event 4 5 6), None]"
proof -
  let ?s = "input_init_once (input_boot [] [])"
  have "ev_wf ?s" "input_init_done ?s" "ev_items ?s = []"
    by (simp_all add: ev_wf_def ev_items_def input_init_once_def input_boot_def ring_list_def ring_count_def)
  with event_ring_keeps_newest [of ?s "[EvPut (mk_event 1 2 3), EvPut (mk_event 4 5 6), EvGet, EvGet, EvGet]"]
  show ?thesis by (simp add: newest_def)
qed

section \<open>Characters reach the reader in order\<close>

lemma rb_get_items:
  "rb_wf rb \<Longrightarrow> rb_get rb = (case rb_items rb of [] \<Rightarrow> None | c # cs \<Rightarrow> rb_get rb)"
  by (cases "rb_items rb") (simp_all add: rbq.get_empty)

lemma drain_chars_done:
  "rb_wf (kb_buffer s) \<Longrightarrow> rb_wf (input_chars s) \<Longrightarrow> length (rb_items (kb_buffer s)) \<le> n \<Longrightarrow>
     rb_wf (kb_buffer (drain_chars n s)) \<and> rb_items (kb_buffer (drain_chars n s)) = []
     \<and> input_chars (drain_chars n s) = rbq.put_all (input_chars s) (rb_items (kb_buffer s))"
proof (induction n arbitrary: s)
  case 0
  then show ?case by (simp add: rbq.put_all_def)
next
  case (Suc n)
  show ?case
  proof (cases "rb_items (kb_buffer s)")
    case Nil
    with Suc.prems show ?thesis by (simp add: keyboard_getchar_def rbq.get_empty rbq.put_all_def)
  next
    case (Cons c cs)
    from rbq.get_some [OF Suc.prems(1) Cons] obtain rb
      where rb: "rb_get (kb_buffer s) = Some (c, rb)" "rb_wf rb" "rb_items rb = cs" by blast
    have "rb_wf (snd (rb_put (input_chars s) c))"
      by (cases "length (rb_items (input_chars s)) < RINGBUFFER_SIZE - 1")
        (use rbq.put_room rbq.put_full Suc.prems(2) in \<open>fastforce+\<close>)
    with Suc.IH [of "s\<lparr>kb_buffer := rb, input_chars := snd (rb_put (input_chars s) c)\<rparr>"]
      Suc.prems Cons rb show ?thesis
      by (simp add: keyboard_getchar_def rbq.put_all_def)
  qed
qed

text \<open>
  Draining the keyboard ring into the reader's ring loses no order: with both rings well
  formed, the keyboard ring ends empty and the reader's ring holds its old characters
  followed by the keyboard's, as many as fit in its 255 places.
\<close>

theorem drain_chars_in_order:
  assumes "rb_wf (kb_buffer s)" "rb_wf (input_chars s)"
  shows "rb_items (kb_buffer (drain_chars RINGBUFFER_SIZE s)) = []
    \<and> rb_items (input_chars (drain_chars RINGBUFFER_SIZE s))
      = take 255 (rb_items (input_chars s) @ rb_items (kb_buffer s))"
proof -
  have len: "length (rb_items rb) \<le> 255" if "rb_wf rb" for rb
    using that ring_count_less [of "rb_head rb" 256 "rb_tail rb"]
    by (simp add: rb_items_def rb_wf_def RINGBUFFER_SIZE_def)
  have "rb_items (rbq.put_all (input_chars s) (rb_items (kb_buffer s)))
      = rb_items (input_chars s)
        @ take (255 - length (rb_items (input_chars s))) (rb_items (kb_buffer s))"
    using rbq.put_all_items [OF assms(2)] len [OF assms(2)] by (simp add: RINGBUFFER_SIZE_def)
  with drain_chars_done [OF assms, of RINGBUFFER_SIZE] len [OF assms(1)] len [OF assms(2)]
  show ?thesis by (simp add: RINGBUFFER_SIZE_def)
qed

theorem drain_chars_in_order_witness:
  "rb_items (input_chars (drain_chars RINGBUFFER_SIZE (keyboard_inject_char (input_boot [] [])
     (CHR ''x'')))) = ''x''"
proof -
  let ?s = "keyboard_inject_char (input_boot [] []) (CHR ''x'')"
  have wf: "rb_wf (kb_buffer (input_boot [] []))" and i: "rb_items (kb_buffer (input_boot [] [])) = []"
    by (simp_all add: rb_wf_def rb_items_def input_boot_def RINGBUFFER_SIZE_def ring_list_empty)
  from rbq.put_room [OF wf] i
  have "rb_wf (kb_buffer ?s)" "rb_items (kb_buffer ?s) = ''x''"
    by (simp_all add: keyboard_inject_char_def RINGBUFFER_SIZE_def)
  moreover have "rb_wf (input_chars ?s)" "rb_items (input_chars ?s) = []"
    by (simp_all add: keyboard_inject_char_def input_boot_def rb_wf_def rb_items_def
        RINGBUFFER_SIZE_def ring_list_empty)
  ultimately show ?thesis using drain_chars_in_order [of ?s] by simp
qed

section \<open>Injected scancodes\<close>

text \<open>
  \<open>input_inject_scancode_set1\<close> writes the front end's copy of the key states, which every
  poll recomputes from the keyboard. The lemmas say that nothing before that point reads
  the copy.
\<close>

lemma init_once_done [simp]: "input_init_done s \<Longrightarrow> input_init_once s = s"
  by (simp add: input_init_once_def)

lemma init_done_frame [frame, simp]:
  "input_init_done (evbuf_push s e) = input_init_done s"
  "input_init_done (kb_note_super s key r) = input_init_done s"
  "input_init_done (kb_note_ctrl_alt s key r) = input_init_done s"
  "input_init_done (kb_note_shift s key r) = input_init_done s"
  "input_init_done (kb_emit s c) = input_init_done s"
  "input_init_done s \<Longrightarrow> input_init_done (kb_note_key s key r)"
  by (simp_all add: evbuf_push_def kb_note_super_def kb_note_ctrl_alt_def kb_note_shift_def
      kb_emit_def kb_note_key_def input_evdev_push_key_def Let_def)

lemma init_done_scancode [simp]:
  "input_init_done s \<Longrightarrow> input_init_done (keyboard_apply_scancode s key r e)"
  by (simp add: keyboard_apply_scancode_def Let_def)

lemma key_copy_commute:
  "s\<lparr>ps2_key_down := x, ps2_out := a\<rparr> = s\<lparr>ps2_out := a, ps2_key_down := x\<rparr>"
  "s\<lparr>ps2_key_down := x, key_down := b\<rparr> = s\<lparr>key_down := b, ps2_key_down := x\<rparr>"
  "s\<lparr>ps2_key_down := x, key_press_event := b\<rparr> = s\<lparr>key_press_event := b, ps2_key_down := x\<rparr>"
  "s\<lparr>ps2_key_down := x, extended_scancode := c\<rparr> = s\<lparr>extended_scancode := c, ps2_key_down := x\<rparr>"
  "s\<lparr>ps2_key_down := x, kb_buffer := d\<rparr> = s\<lparr>kb_buffer := d, ps2_key_down := x\<rparr>"
  "s\<lparr>ps2_key_down := x, input_chars := d\<rparr> = s\<lparr>input_chars := d, ps2_key_down := x\<rparr>"
  by simp_all

lemma key_copy_unread:
  "evbuf_push (s\<lparr>ps2_key_down := x\<rparr>) e = (evbuf_push s e)\<lparr>ps2_key_down := x\<rparr>"
  "kb_note_super (s\<lparr>ps2_key_down := x\<rparr>) key r = (kb_note_super s key r)\<lparr>ps2_key_down := x\<rparr>"
  "kb_note_ctrl_alt (s\<lparr>ps2_key_down := x\<rparr>) key r = (kb_note_ctrl_alt s key r)\<lparr>ps2_key_down := x\<rparr>"
  "kb_note_shift (s\<lparr>ps2_key_down := x\<rparr>) key r = (kb_note_shift s key r)\<lparr>ps2_key_down := x\<rparr>"
  "kb_emit (s\<lparr>ps2_key_down := x\<rparr>) c = (kb_emit s c)\<lparr>ps2_key_down := x\<rparr>"
  "kb_char (s\<lparr>ps2_key_down := x\<rparr>) key = kb_char s key"
  by (simp_all add: evbuf_push_def kb_note_super_def kb_note_ctrl_alt_def kb_note_shift_def
      kb_emit_def kb_char_def Let_def)

lemma key_copy_unread_note:
  assumes "input_init_done s"
  shows "kb_note_key (s\<lparr>ps2_key_down := x\<rparr>) key r = (kb_note_key s key r)\<lparr>ps2_key_down := x\<rparr>"
  using assms
  by (simp add: kb_note_key_def input_evdev_push_key_def Let_def key_copy_unread(1) key_copy_commute)

lemma key_copy_unread_scancode:
  "input_init_done s \<Longrightarrow> keyboard_apply_scancode (s\<lparr>ps2_key_down := x\<rparr>) key r e
     = (keyboard_apply_scancode s key r e)\<lparr>ps2_key_down := x\<rparr>"
  by (simp add: keyboard_apply_scancode_def Let_def key_copy_unread key_copy_unread_note)

lemma keyboard_poll_loop_copy:
  "input_init_done s \<Longrightarrow> input_init_done (keyboard_poll_loop n s)
     \<and> keyboard_poll_loop n (s\<lparr>ps2_key_down := x\<rparr>) = (keyboard_poll_loop n s)\<lparr>ps2_key_down := x\<rparr>"
proof (induction n arbitrary: s)
  case 0
  then show ?case by simp
next
  case (Suc n)
  show ?case
  proof (cases "ps2_out s")
    case Nil
    with Suc.prems show ?thesis by simp
  next
    case (Cons b bs)
    obtain m c where b: "b = (m, c)" by (cases b)
    let ?s = "s\<lparr>ps2_out := bs\<rparr>"
    have d: "input_init_done ?s" using Suc.prems by simp
    have *: "keyboard_apply_scancode (s\<lparr>ps2_key_down := x, ps2_out := bs\<rparr>) k r e
        = (keyboard_apply_scancode ?s k r e)\<lparr>ps2_key_down := x\<rparr>" for k r e
      using key_copy_unread_scancode [OF d, of x k r e] by (simp only: key_copy_commute)
    show ?thesis
      using Suc.IH [of ?s] Suc.IH [of "?s\<lparr>extended_scancode := True\<rparr>"]
        Suc.IH [of "keyboard_apply_scancode ?s (c AND 0x7F) (c AND 0x80 \<noteq> 0) False"]
        Suc.IH [of "(keyboard_apply_scancode ?s (c AND 0x7F) (c AND 0x80 \<noteq> 0) True)
            \<lparr>extended_scancode := False\<rparr>"] Cons b d *
      by (simp add: Let_def key_copy_commute key_copy_unread_scancode)
  qed
qed

lemma drain_chars_copy:
  "input_init_done s \<Longrightarrow> input_init_done (drain_chars n s)
     \<and> drain_chars n (s\<lparr>ps2_key_down := x\<rparr>) = (drain_chars n s)\<lparr>ps2_key_down := x\<rparr>"
proof (induction n arbitrary: s)
  case 0
  then show ?case by simp
next
  case (Suc n)
  show ?case
  proof (cases "rb_get (kb_buffer s)")
    case None
    with Suc.prems show ?thesis by (simp add: keyboard_getchar_def)
  next
    case (Some p)
    obtain c rb where "p = (c, rb)" by (cases p)
    with Some Suc.IH [of "s\<lparr>kb_buffer := rb, input_chars := snd (rb_put (input_chars s) c)\<rparr>"] Suc.prems
    show ?thesis by (simp add: keyboard_getchar_def key_copy_commute)
  qed
qed

text \<open>
  An injected scancode is invisible: once the input layer is initialised, querying any
  key after \<open>input_inject_scancode_set1\<close> gives the same answer as without the injection,
  because the query polls first and the poll overwrites the injected key state.
\<close>

theorem injected_scancode_invisible:
  assumes "input_init_done s"
  shows "input_key_pressed (input_inject_scancode_set1 s code pressed) key = input_key_pressed s key
    \<or> 128 \<le> unat key"
proof -
  have poll: "input_poll (s\<lparr>ps2_key_down := x\<rparr>) = input_poll s" for x
  proof -
    have a: "input_init_done (keyboard_poll s)"
      "keyboard_poll (s\<lparr>ps2_key_down := x\<rparr>) = (keyboard_poll s)\<lparr>ps2_key_down := x\<rparr>"
      using keyboard_poll_loop_copy [OF assms] by (simp_all add: keyboard_poll_def)
    have "drain_chars RINGBUFFER_SIZE ((keyboard_poll s)\<lparr>ps2_key_down := x\<rparr>)
        = (drain_chars RINGBUFFER_SIZE (keyboard_poll s))\<lparr>ps2_key_down := x\<rparr>"
      using drain_chars_copy [OF a(1)] by blast
    with a(2) assms show ?thesis
      by (simp add: input_poll_def Let_def keyboard_is_key_pressed_def cong: map_cong)
  qed
  show ?thesis
    using poll assms by (simp add: input_key_pressed_def input_inject_scancode_set1_def Let_def)
qed

theorem injected_scancode_invisible_witness:
  "input_key_pressed (input_inject_scancode_set1 (input_init_once (input_boot [] [])) 0x1E True) 0x1E
     = input_key_pressed (input_init_once (input_boot [] [])) 0x1E"
proof -
  have "input_init_done (input_init_once (input_boot [] []))"
    by (simp add: input_init_once_def input_boot_def)
  from injected_scancode_invisible [OF this, of "0x1E" True "0x1E"] show ?thesis by simp
qed

end
