(* ===== verification/Pmm.thy ===== *)
theory Pmm
  imports Prelude
begin

text \<open>
  The physical page allocator, \<open>kernel/src/mm/pmm.c\<close>: a bitmap with one bit per 4 KiB page
  (set means in use), searched a 64-bit word at a time from where the last search stopped.

  Addresses and counts are \<open>nat\<close>: physical addresses are below \<open>2 ^ 52\<close> on this machine,
  so no sum of them wraps. The bitmap's bytes are words, and the search reads them as the
  code does, eight at a time; the last word may reach past the bitmap, and \<open>beyond\<close> is
  whatever memory lies there. A null pointer result is \<open>None\<close>.
\<close>

definition PAGE_SIZE :: nat where "PAGE_SIZE = 4096"

record memmap_entry =
  me_base :: nat
  me_length :: nat
  me_type :: nat

definition USABLE_MEMORY :: nat where "USABLE_MEMORY = 0"

record pmm =
  bitmap :: nat            \<comment> \<open>the pointer, 0 before initialisation\<close>
  bits :: "u8 list"        \<comment> \<open>what it points to\<close>
  bitmap_size :: nat
  total_pages :: nat
  free_pages :: nat
  memory_start :: nat
  total_usable_bytes :: nat
  last_alloc_page :: nat

definition pmm_boot :: pmm where
  "pmm_boot = \<lparr>bitmap = 0, bits = [], bitmap_size = 0, total_pages = 0, free_pages = 0,
     memory_start = 0, total_usable_bytes = 0, last_alloc_page = 1\<rparr>"

text \<open>The boot loader's answer to the offset request, if it gave one (\<open>mm/hhdm.c\<close>).\<close>

definition hhdm_offset_get :: "nat option \<Rightarrow> nat" where
  "hhdm_offset_get response = (case response of None \<Rightarrow> 0 | Some off \<Rightarrow> off)"

definition phys_to_virt :: "nat \<Rightarrow> nat \<Rightarrow> nat" where
  "phys_to_virt off phys = (if off \<noteq> 0 then phys + off else phys)"

section \<open>Bits\<close>

definition set_page_bit :: "u8 list \<Rightarrow> nat \<Rightarrow> u8 list" where
  "set_page_bit bm n = bm[n div 8 := bm ! (n div 8) OR push_bit (n mod 8) 1]"

definition clear_page_bit :: "u8 list \<Rightarrow> nat \<Rightarrow> u8 list" where
  "clear_page_bit bm n = bm[n div 8 := bm ! (n div 8) AND NOT (push_bit (n mod 8) 1)]"

definition test_page_bit :: "u8 list \<Rightarrow> nat \<Rightarrow> bool" where
  "test_page_bit bm n \<longleftrightarrow> drop_bit (n mod 8) (bm ! (n div 8)) AND 1 \<noteq> 0"

lemma test_page_bit_eq: "test_page_bit bm n = bit (bm ! (n div 8)) (n mod 8)"
  by (simp add: test_page_bit_def and_one_eq odd_iff_mod_2_eq_one bit_iff_odd_drop_bit mod2_eq_if)

lemma length_page_bits [simp]:
  "length (set_page_bit bm n) = length bm" "length (clear_page_bit bm n) = length bm"
  by (simp_all add: set_page_bit_def clear_page_bit_def)

lemma div_mod_8_eq: "m div 8 = n div 8 \<Longrightarrow> m mod 8 = n mod 8 \<Longrightarrow> m = n" for m n :: nat
  by (metis div_mult_mod_eq)

lemma test_set_page_bit [simp]:
  "n div 8 < length bm \<Longrightarrow> test_page_bit (set_page_bit bm n) m \<longleftrightarrow> m = n \<or> test_page_bit bm m"
  using div_mod_8_eq [of m n]
  by (auto simp: test_page_bit_eq set_page_bit_def nth_list_update bit_or_iff bit_exp_iff)

lemma test_clear_page_bit [simp]:
  "n div 8 < length bm \<Longrightarrow> test_page_bit (clear_page_bit bm n) m \<longleftrightarrow> m \<noteq> n \<and> test_page_bit bm m"
  using div_mod_8_eq [of m n]
  by (auto simp: test_page_bit_eq clear_page_bit_def nth_list_update bit_and_iff bit_not_iff
      bit_exp_iff)

section \<open>Initialisation\<close>

fun sum_usable :: "memmap_entry list \<Rightarrow> nat" where
  "sum_usable [] = 0"
| "sum_usable (e # es) = (if me_type e = USABLE_MEMORY then me_length e else 0) + sum_usable es"

fun highest_end :: "memmap_entry list \<Rightarrow> nat \<Rightarrow> nat" where
  "highest_end [] hi = hi"
| "highest_end (e # es) hi =
     highest_end es (if hi < me_base e + me_length e then me_base e + me_length e else hi)"

text \<open>
  The bitmap goes to the start of the first usable entry that can hold it, which gives up
  those bytes. The result is the pointer, if an entry was found, and the changed map.
\<close>

fun place_bitmap :: "nat \<Rightarrow> nat \<Rightarrow> memmap_entry list \<Rightarrow> (nat \<times> memmap_entry list) option" where
  "place_bitmap off need [] = None"
| "place_bitmap off need (e # es) =
     (if me_type e = USABLE_MEMORY \<and> need \<le> me_length e
      then Some (phys_to_virt off (me_base e),
                 e\<lparr>me_base := me_base e + need, me_length := me_length e - need\<rparr> # es)
      else map_option (\<lambda>(p, es'). (p, e # es')) (place_bitmap off need es))"

function clear_range :: "u8 list \<Rightarrow> nat \<Rightarrow> nat \<Rightarrow> nat \<Rightarrow> u8 list \<times> nat" where
  "clear_range bm fp addr e =
     (if addr + PAGE_SIZE \<le> e
      then clear_range (clear_page_bit bm (addr div PAGE_SIZE)) (fp + 1) (addr + PAGE_SIZE) e
      else (bm, fp))"
  by pat_completeness auto
termination by (relation "measure (\<lambda>(bm, fp, addr, e). e - addr)") (auto simp: PAGE_SIZE_def)

declare clear_range.simps [simp del]

fun clear_entries :: "memmap_entry list \<Rightarrow> u8 list \<Rightarrow> nat \<Rightarrow> u8 list \<times> nat" where
  "clear_entries [] bm fp = (bm, fp)"
| "clear_entries (e # es) bm fp =
     (let (bm, fp) = (if me_type e = USABLE_MEMORY
                      then clear_range bm fp (me_base e) (me_base e + me_length e) else (bm, fp))
      in clear_entries es bm fp)"

definition pmm_init :: "nat \<Rightarrow> memmap_entry list \<Rightarrow> pmm \<Rightarrow> memmap_entry list \<times> pmm" where
  "pmm_init off memmap s =
     (if memmap = [] then (memmap, s)
      else
        let s = s\<lparr>total_usable_bytes := sum_usable memmap\<rparr>;
            s = s\<lparr>total_pages := highest_end memmap 0 div PAGE_SIZE\<rparr>;
            s = s\<lparr>bitmap_size := total_pages s div 8 + 1\<rparr>;
            (memmap, s) = (case place_bitmap off (bitmap_size s) memmap of
                             None \<Rightarrow> (memmap, s)
                           | Some (p, memmap') \<Rightarrow> (memmap', s\<lparr>bitmap := p\<rparr>))
        in if bitmap s = 0 then (memmap, s)
           else
             let (bm, fp) = clear_entries memmap (replicate (bitmap_size s) 0xFF) (free_pages s);
                 s = s\<lparr>bits := bm, free_pages := fp, memory_start := bitmap s + bitmap_size s\<rparr>;
                 s = (if \<not> test_page_bit (bits s) 0
                      then s\<lparr>bits := set_page_bit (bits s) 0,
                             free_pages := (if free_pages s > 0 then free_pages s - 1
                                            else free_pages s)\<rparr>
                      else s)
             in (memmap, s\<lparr>last_alloc_page := 1\<rparr>))"

section \<open>Allocation\<close>

definition bitmap_byte :: "u8 list \<Rightarrow> (nat \<Rightarrow> u8) \<Rightarrow> nat \<Rightarrow> u8" where
  "bitmap_byte bm beyond i = (if i < length bm then bm ! i else beyond i)"

definition bitmap_word :: "u8 list \<Rightarrow> (nat \<Rightarrow> u8) \<Rightarrow> nat \<Rightarrow> u64" where
  "bitmap_word bm beyond w =
     fold (\<lambda>k acc. acc OR push_bit (8 * k) (ucast (bitmap_byte bm beyond (8 * w + k)))) [0..<8] 0"

text \<open>\<open>__builtin_ctzll\<close>: the position of the lowest set bit of a nonzero word.\<close>

function ctz_from :: "u64 \<Rightarrow> nat \<Rightarrow> nat" where
  "ctz_from x i = (if i < 64 \<and> \<not> bit x i then ctz_from x (Suc i) else i)"
  by pat_completeness auto
termination by (relation "measure (\<lambda>(x, i). 64 - i)") auto

declare ctz_from.simps [simp del]

text \<open>One round of the inner loop: the page it returns, or \<open>None\<close> to go on.\<close>

definition scan_word :: "u8 list \<Rightarrow> (nat \<Rightarrow> u8) \<Rightarrow> nat \<Rightarrow> nat \<Rightarrow> nat option" where
  "scan_word bm beyond npages w =
     (let word = bitmap_word bm beyond w in
      if word \<noteq> NOT 0 then
        let page = w * 64 + ctz_from (NOT word) 0 in
        if page = 0 \<or> npages \<le> page then None
        else if \<not> test_page_bit bm page then Some page
        else None
      else None)"

function scan_words :: "u8 list \<Rightarrow> (nat \<Rightarrow> u8) \<Rightarrow> nat \<Rightarrow> nat \<Rightarrow> nat \<Rightarrow> nat option" where
  "scan_words bm beyond npages word_count w =
     (if w < word_count
      then case scan_word bm beyond npages w of
             Some page \<Rightarrow> Some page
           | None \<Rightarrow> scan_words bm beyond npages word_count (Suc w)
      else None)"
  by pat_completeness auto
termination by (relation "measure (\<lambda>(bm, beyond, npages, word_count, w). word_count - w)") auto

declare scan_words.simps [simp del]

definition pmm_alloc_page :: "(nat \<Rightarrow> u8) \<Rightarrow> pmm \<Rightarrow> nat option \<times> pmm" where
  "pmm_alloc_page beyond s =
     (if bitmap s = 0 \<or> total_pages s = 0 then (None, s)
      else
        let start = last_alloc_page s;
            word_count = (total_pages s + 63) div 64;
            found = (case scan_words (bits s) beyond (total_pages s) word_count (start div 64) of
                       Some page \<Rightarrow> Some page
                     | None \<Rightarrow> scan_words (bits s) beyond (total_pages s) word_count 0)
        in case found of
             None \<Rightarrow> (None, s)
           | Some page \<Rightarrow>
               let s = s\<lparr>bits := set_page_bit (bits s) page, free_pages := free_pages s - 1,
                         last_alloc_page := page + 1\<rparr>;
                   s = (if total_pages s \<le> last_alloc_page s then s\<lparr>last_alloc_page := 1\<rparr> else s)
               in (Some (page * PAGE_SIZE), s))"

definition pmm_free_page :: "nat \<Rightarrow> pmm \<Rightarrow> pmm" where
  "pmm_free_page addr s =
     (let page = addr div PAGE_SIZE in
      if page = 0 \<or> total_pages s \<le> page then s
      else if test_page_bit (bits s) page
      then s\<lparr>bits := clear_page_bit (bits s) page, free_pages := free_pages s + 1\<rparr>
      else s)"

definition pmm_get_free_memory :: "pmm \<Rightarrow> nat" where
  "pmm_get_free_memory s = free_pages s * PAGE_SIZE"

definition pmm_get_total_usable_memory :: "pmm \<Rightarrow> nat" where
  "pmm_get_total_usable_memory s = total_usable_bytes s"

definition pmm_get_total_memory_32 :: "memmap_entry list \<Rightarrow> u32" where
  "pmm_get_total_memory_32 memmap = of_nat (sum_usable memmap)"

section \<open>The invariant\<close>

text \<open>
  The bitmap covers every page, page 0 is never free, and the free count is the number of
  clear bits.
\<close>

definition free_set :: "pmm \<Rightarrow> nat set" where
  "free_set s = {p. p < total_pages s \<and> \<not> test_page_bit (bits s) p}"

definition pmm_inv :: "pmm \<Rightarrow> bool" where
  "pmm_inv s \<longleftrightarrow> bitmap s \<noteq> 0 \<and> length (bits s) = total_pages s div 8 + 1
     \<and> test_page_bit (bits s) 0 \<and> free_pages s = card (free_set s)"

lemma finite_free_set [simp]: "finite (free_set s)"
  by (simp add: free_set_def)

lemma page_in_bitmap: "pmm_inv s \<Longrightarrow> p < total_pages s \<Longrightarrow> p div 8 < length (bits s)"
  by (simp add: pmm_inv_def div_le_mono less_Suc_eq_le)

lemma free_set_pos: "pmm_inv s \<Longrightarrow> p \<in> free_set s \<Longrightarrow> 0 < p \<and> p < total_pages s"
  by (auto simp: free_set_def pmm_inv_def intro!: gr0I)

section \<open>The search\<close>

lemma bit_bitmap_word:
  assumes "n < 64"
  shows "bit (bitmap_word bm beyond w) n = bit (bitmap_byte bm beyond (8 * w + n div 8)) (n mod 8)"
proof -
  have fold: "bit (fold (\<lambda>k acc. acc OR push_bit (8 * k) (ucast (f k :: u8))) [0..<m] (0 :: u64)) n
      \<longleftrightarrow> n div 8 < m \<and> bit (f (n div 8)) (n mod 8)" for m f
  proof (induction m)
    case 0
    then show ?case by simp
  next
    case (Suc m)
    have "bit (push_bit (8 * m) (ucast (f m) :: u64)) n
        \<longleftrightarrow> n div 8 = m \<and> bit (f (n div 8)) (n mod 8)"
    proof (cases "8 * m \<le> n \<and> n < 8 * m + 8")
      case True
      then have "n div 8 = m" by auto
      then have "n div 8 = m" "n mod 8 = n - 8 * m"
        using minus_mult_div_eq_mod [of n 8] by simp_all
      with True assms show ?thesis by (auto simp: bit_push_bit_iff bit_ucast_iff)
    next
      case False
      then have "n div 8 \<noteq> m" by auto
      moreover have "\<not> (8 * m \<le> n \<and> bit (f m) (n - 8 * m))"
        using False bit_imp_le_length [of "f m" "n - 8 * m"] by auto
      ultimately show ?thesis by (auto simp: bit_push_bit_iff bit_ucast_iff)
    qed
    with Suc show ?case by (auto simp: bit_or_iff less_Suc_eq)
  qed
  have "n div 8 < 8" using assms by auto
  with fold [of _ 8] show ?thesis by (simp only: bitmap_word_def simp_thms)
qed

lemma ctz_from_lowest:
  "i \<le> 64 \<Longrightarrow> i \<le> ctz_from x i \<and> ctz_from x i \<le> 64 \<and> (\<forall>j. i \<le> j \<longrightarrow> j < ctz_from x i \<longrightarrow> \<not> bit x j)
     \<and> (ctz_from x i < 64 \<longrightarrow> bit x (ctz_from x i))"
proof (induction x i rule: ctz_from.induct)
  case (1 x i)
  show ?case
  proof (cases "i < 64 \<and> \<not> bit x i")
    case True
    then have e: "ctz_from x i = ctz_from x (Suc i)" by (simp add: ctz_from.simps [of x i])
    from "1.IH" [OF True] True show ?thesis
      unfolding e by (metis Suc_leI Suc_le_eq le_neq_implies_less less_or_eq_imp_le)
  next
    case False
    with "1.prems" show ?thesis by (auto simp: ctz_from.simps [of x i])
  qed
qed

lemma ctz_not_word:
  assumes "word \<noteq> (NOT 0 :: u64)"
  shows "ctz_from (NOT word) 0 < 64 \<and> \<not> bit word (ctz_from (NOT word) 0)
    \<and> (\<forall>j < ctz_from (NOT word) 0. bit word j)"
proof -
  let ?c = "ctz_from (NOT word) 0"
  have c: "?c \<le> 64" "\<forall>j. j < ?c \<longrightarrow> \<not> bit (NOT word) j" "?c < 64 \<longrightarrow> bit (NOT word) ?c"
    using ctz_from_lowest [of 0 "NOT word"] by auto
  have "?c \<noteq> 64"
  proof
    assume "?c = 64"
    then have "word = NOT 0"
      using c(2) by (intro bit_eqI) (auto simp: bit_not_iff)
    with assms show False ..
  qed
  with c show ?thesis by (auto simp: bit_not_iff)
qed

lemma bit_bitmap_word_page:
  assumes "n < 64" "(w * 64 + n) div 8 < length bm"
  shows "bit (bitmap_word bm beyond w) n = test_page_bit bm (w * 64 + n)"
proof -
  have "(w * 64 + n) div 8 = 8 * w + n div 8" "(w * 64 + n) mod 8 = n mod 8"
    by (simp_all add: div_add1_eq [of "w * 64"] mod_add_eq [of "w * 64" 8, symmetric])
  with assms show ?thesis
    by (simp add: bit_bitmap_word test_page_bit_eq bitmap_byte_def)
qed

lemma scan_word_Some:
  "scan_word bm beyond npages w = Some p \<Longrightarrow> 0 < p \<and> p < npages \<and> \<not> test_page_bit bm p"
  by (auto simp: scan_word_def Let_def split: if_splits)

lemma scan_words_Some:
  "scan_words bm beyond npages wc w = Some p \<Longrightarrow> 0 < p \<and> p < npages \<and> \<not> test_page_bit bm p"
proof (induction "wc - w" arbitrary: w)
  case 0
  then show ?case by (subst (asm) scan_words.simps) simp
next
  case (Suc n)
  show ?case
  proof (cases "scan_word bm beyond npages w")
    case None
    with Suc.prems Suc.hyps(2) have "scan_words bm beyond npages wc (Suc w) = Some p"
      by (subst (asm) scan_words.simps) (simp split: if_splits)
    moreover have "n = wc - Suc w" using Suc.hyps(2) by simp
    ultimately show ?thesis using Suc.hyps(1) by blast
  next
    case (Some q)
    with Suc.prems Suc.hyps(2) have "q = p" by (subst (asm) scan_words.simps) (simp split: if_splits)
    with Some show ?thesis using scan_word_Some by blast
  qed
qed

lemma scan_word_None:
  assumes "scan_word bm beyond npages w = None" "test_page_bit bm 0" "npages \<le> 8 * length bm"
    "w * 64 \<le> p" "p < w * 64 + 64" "p < npages"
  shows "test_page_bit bm p"
proof -
  let ?word = "bitmap_word bm beyond w" and ?c = "ctz_from (NOT (bitmap_word bm beyond w)) 0"
  have in_bm: "q div 8 < length bm" if "q < npages" for q using that assms(3) by auto
  have used: "test_page_bit bm p" if "bit ?word (p - w * 64)"
    using bit_bitmap_word_page [of "p - w * 64" w bm beyond] that assms(4-6) in_bm by simp
  show ?thesis
  proof (cases "?word = NOT 0 \<or> p < w * 64 + ?c")
    case True
    then have "bit ?word (p - w * 64)"
      using ctz_not_word [of ?word] assms(4,5) by (cases "?word = NOT 0") (auto simp: bit_not_iff)
    then show ?thesis by (rule used)
  next
    case False
    then have ne: "?word \<noteq> NOT 0" and lt: "w * 64 + ?c < npages" using assms(6) by auto
    have c: "?c < 64" "\<not> bit ?word ?c" using ctz_not_word [OF ne] by auto
    then have t: "\<not> test_page_bit bm (w * 64 + ?c)"
      using bit_bitmap_word_page [OF c(1) in_bm [OF lt]] by blast
    then have "w * 64 + ?c \<noteq> 0" using assms(2) by metis
    with ne lt t have "scan_word bm beyond npages w \<noteq> None"
      unfolding scan_word_def Let_def by (simp del: add_is_0)
    with assms(1) show ?thesis by simp
  qed
qed

lemma scan_words_None:
  "scan_words bm beyond npages wc w = None \<Longrightarrow> test_page_bit bm 0 \<Longrightarrow> npages \<le> 8 * length bm \<Longrightarrow>
     npages \<le> wc * 64 \<Longrightarrow> w * 64 \<le> p \<Longrightarrow> p < npages \<Longrightarrow> test_page_bit bm p"
proof (induction "wc - w" arbitrary: w)
  case 0
  then show ?case by simp
next
  case (Suc n)
  then have r: "scan_word bm beyond npages w = None" "scan_words bm beyond npages wc (Suc w) = None"
    by (subst (asm) (2) scan_words.simps, simp split: option.splits)+
  show ?case
  proof (cases "p < w * 64 + 64")
    case True
    with scan_word_None [OF r(1)] Suc.prems show ?thesis by blast
  next
    case False
    have "n = wc - Suc w" using Suc.hyps(2) by simp
    from Suc.hyps(1) [OF this r(2)] Suc.prems False show ?thesis by simp
  qed
qed

lemma scan_words_complete:
  assumes "pmm_inv s"
  shows "scan_words (bits s) beyond (total_pages s) ((total_pages s + 63) div 64) 0 = None
    \<longleftrightarrow> free_set s = {}"
proof
  assume n: "scan_words (bits s) beyond (total_pages s) ((total_pages s + 63) div 64) 0 = None"
  have "total_pages s \<le> 8 * length (bits s)" "test_page_bit (bits s) 0"
    using assms by (auto simp: pmm_inv_def)
  with scan_words_None [OF n] show "free_set s = {}" by (auto simp: free_set_def)
next
  assume "free_set s = {}"
  then show "scan_words (bits s) beyond (total_pages s) ((total_pages s + 63) div 64) 0 = None"
    using scan_words_Some [of "bits s" beyond "total_pages s"]
    by (cases "scan_words (bits s) beyond (total_pages s) ((total_pages s + 63) div 64) 0")
      (auto simp: free_set_def)
qed

section \<open>What the operations do to the free set\<close>

lemma take_page:
  assumes "pmm_inv s" "p \<in> free_set s"
  shows "pmm_inv (s\<lparr>bits := set_page_bit (bits s) p, free_pages := free_pages s - 1,
           last_alloc_page := l\<rparr>)"
    and "free_set (s\<lparr>bits := set_page_bit (bits s) p, free_pages := n, last_alloc_page := l\<rparr>)
           = free_set s - {p}"
proof -
  have "p div 8 < length (bits s)"
    using assms page_in_bitmap by (auto simp: free_set_def)
  then show *: "free_set (s\<lparr>bits := set_page_bit (bits s) p, free_pages := n, last_alloc_page := l\<rparr>)
      = free_set s - {p}" for n
    by (auto simp: free_set_def)
  show "pmm_inv (s\<lparr>bits := set_page_bit (bits s) p, free_pages := free_pages s - 1,
      last_alloc_page := l\<rparr>)"
    using assms * [of "free_pages s - 1"] \<open>p div 8 < length (bits s)\<close>
    by (simp add: pmm_inv_def card_Diff_singleton)
qed

lemma pmm_alloc_page_Some:
  assumes "pmm_inv s" "pmm_alloc_page beyond s = (Some a, s')"
  shows "\<exists>p \<in> free_set s. a = p * PAGE_SIZE \<and> free_set s' = free_set s - {p} \<and> pmm_inv s'
    \<and> total_pages s' = total_pages s"
proof -
  from assms(2) obtain p where p: "0 < p" "p < total_pages s" "\<not> test_page_bit (bits s) p"
    "a = p * PAGE_SIZE"
    and s': "s' = s\<lparr>bits := set_page_bit (bits s) p, free_pages := free_pages s - 1,
       last_alloc_page := (if total_pages s \<le> p + 1 then 1 else p + 1)\<rparr>"
    by (fastforce simp: pmm_alloc_page_def Let_def dest: scan_words_Some
        split: if_splits option.splits)
  then have "p \<in> free_set s" by (simp add: free_set_def)
  with take_page [OF assms(1) this] p(4) s' show ?thesis by auto
qed

lemma pmm_alloc_page_None:
  assumes "pmm_inv s" "pmm_alloc_page beyond s = (None, s')"
  shows "s' = s \<and> free_set s = {}"
proof -
  have "total_pages s = 0 \<Longrightarrow> free_set s = {}" by (simp add: free_set_def)
  then show ?thesis
    using assms scan_words_complete [OF assms(1), of beyond]
    by (auto simp: pmm_alloc_page_def pmm_inv_def Let_def split: if_splits option.splits)
qed

lemma pmm_free_page_free_set:
  assumes "pmm_inv s"
  shows "pmm_inv (pmm_free_page a s) \<and> total_pages (pmm_free_page a s) = total_pages s
    \<and> free_set (pmm_free_page a s) =
      (if 0 < a div PAGE_SIZE \<and> a div PAGE_SIZE < total_pages s
       then insert (a div PAGE_SIZE) (free_set s) else free_set s)"
proof (cases "0 < a div PAGE_SIZE \<and> a div PAGE_SIZE < total_pages s
    \<and> test_page_bit (bits s) (a div PAGE_SIZE)")
  case True
  let ?p = "a div PAGE_SIZE"
  have e: "pmm_free_page a s
      = s\<lparr>bits := clear_page_bit (bits s) ?p, free_pages := free_pages s + 1\<rparr>"
    using True by (simp add: pmm_free_page_def Let_def)
  have "?p div 8 < length (bits s)" using page_in_bitmap [OF assms] True by blast
  then have f: "free_set (pmm_free_page a s) = insert ?p (free_set s)"
    using True by (auto simp: e free_set_def)
  have "?p \<notin> free_set s" using True by (simp add: free_set_def)
  then have "card (free_set (pmm_free_page a s)) = free_pages s + 1"
    using assms by (simp add: f pmm_inv_def)
  with f True assms \<open>?p div 8 < length (bits s)\<close> show ?thesis
    by (simp add: pmm_inv_def e)
next
  case False
  then have "pmm_free_page a s = s" by (auto simp: pmm_free_page_def Let_def)
  with False assms show ?thesis by (auto simp: free_set_def)
qed

section \<open>The contract of a frame allocator\<close>

text \<open>
  What the paging code relies on: an allocated frame was available and no longer is, a null
  answer means no frame is left, and freeing a managed frame makes it available again.
\<close>

locale frame_allocator =
  fixes alloc :: "'s \<Rightarrow> nat option \<times> 's"
    and free :: "nat \<Rightarrow> 's \<Rightarrow> 's"
    and avail :: "'s \<Rightarrow> nat set"
    and managed :: "'s \<Rightarrow> nat set"
    and ok :: "'s \<Rightarrow> bool"
  assumes avail_managed: "ok s \<Longrightarrow> avail s \<subseteq> managed s \<and> finite (avail s)"
    and alloc_Some: "ok s \<Longrightarrow> alloc s = (Some a, s') \<Longrightarrow>
      a \<in> avail s \<and> ok s' \<and> avail s' = avail s - {a} \<and> managed s' = managed s"
    and alloc_None: "ok s \<Longrightarrow> alloc s = (None, s') \<Longrightarrow> avail s = {} \<and> s' = s"
    and free_managed: "ok s \<Longrightarrow> a \<in> managed s \<Longrightarrow>
      ok (free a s) \<and> avail (free a s) = insert a (avail s) \<and> managed (free a s) = managed s"
begin

primrec alloc_many :: "nat \<Rightarrow> 's \<Rightarrow> nat list \<times> 's" where
  "alloc_many 0 s = ([], s)"
| "alloc_many (Suc n) s =
     (case alloc s of (None, s) \<Rightarrow> ([], s)
      | (Some a, s) \<Rightarrow> (let (fs, s) = alloc_many n s in (a # fs, s)))"

text \<open>Successive frames are distinct and there are as many as asked for or available.\<close>

lemma alloc_many_frames:
  "ok s \<Longrightarrow> alloc_many n s = (fs, s') \<Longrightarrow>
     distinct fs \<and> set fs \<subseteq> avail s \<and> length fs = min n (card (avail s)) \<and> ok s'
     \<and> avail s' = avail s - set fs"
proof (induction n arbitrary: s fs s')
  case 0
  then show ?case by simp
next
  case (Suc n)
  show ?case
  proof (cases "alloc s")
    case (Pair r t)
    show ?thesis
    proof (cases r)
      case None
      with Suc.prems Pair alloc_None [of s t] show ?thesis by auto
    next
      case (Some a)
      with Pair have al: "alloc s = (Some a, t)" by simp
      obtain bs u where m: "alloc_many n t = (bs, u)" by (cases "alloc_many n t")
      from alloc_Some [OF Suc.prems(1) al]
      have t: "a \<in> avail s" "ok t" "avail t = avail s - {a}" by auto
      have fin: "finite (avail s)" using avail_managed [OF Suc.prems(1)] by blast
      with t(1) have c: "card (avail s) = Suc (card (avail t))"
        using t(3) card_Suc_Diff1 [of "avail s" a] by simp
      from Suc.prems(2) al m have r: "fs = a # bs" "s' = u" by auto
      from Suc.IH [OF t(2) m] have ih: "distinct bs" "set bs \<subseteq> avail s - {a}"
        "length bs = min n (card (avail t))" "ok u" "avail u = avail s - {a} - set bs"
        by (simp_all add: t(3))
      then show ?thesis using t(1) c r by auto
    qed
  qed
qed

lemma free_alloc: "ok s \<Longrightarrow> alloc s = (Some a, s') \<Longrightarrow> avail (free a s') = avail s"
  using alloc_Some [of s a s'] free_managed [of s' a] avail_managed [of s] by auto

end

definition frames_of :: "nat set \<Rightarrow> nat set" where
  "frames_of ps = (\<lambda>p. p * PAGE_SIZE) ` ps"

definition managed_frames :: "pmm \<Rightarrow> nat set" where
  "managed_frames s = frames_of {p. 0 < p \<and> p < total_pages s}"

lemma frames_of_simps:
  "frames_of (A - {p}) = frames_of A - {p * PAGE_SIZE}"
  "frames_of (insert p A) = insert (p * PAGE_SIZE) (frames_of A)"
  "finite A \<Longrightarrow> finite (frames_of A)" "card (frames_of A) = card A"
  "A \<subseteq> B \<Longrightarrow> frames_of A \<subseteq> frames_of B" "frames_of A = {} \<longleftrightarrow> A = {}"
  by (auto simp: frames_of_def PAGE_SIZE_def card_image inj_on_def)

interpretation pmma: frame_allocator "pmm_alloc_page beyond" pmm_free_page
  "\<lambda>s. frames_of (free_set s)" managed_frames pmm_inv for beyond
proof unfold_locales
  fix s a s' assume inv: "pmm_inv s"
  show "frames_of (free_set s) \<subseteq> managed_frames s \<and> finite (frames_of (free_set s))"
    using free_set_pos [OF inv] by (auto simp: managed_frames_def frames_of_def)
  show "a \<in> frames_of (free_set s) \<and> pmm_inv s' \<and> frames_of (free_set s') = frames_of (free_set s) - {a}
      \<and> managed_frames s' = managed_frames s" if "pmm_alloc_page beyond s = (Some a, s')"
  proof -
    from pmm_alloc_page_Some [OF inv that] obtain q where q: "q \<in> free_set s" "a = q * PAGE_SIZE"
      "free_set s' = free_set s - {q}" "pmm_inv s'" "total_pages s' = total_pages s" by auto
    from q(1,2) have "a \<in> frames_of (free_set s)" by (auto simp: frames_of_def)
    with q show ?thesis by (simp add: frames_of_simps managed_frames_def)
  qed
  show "frames_of (free_set s) = {} \<and> s' = s" if "pmm_alloc_page beyond s = (None, s')"
    using pmm_alloc_page_None [OF inv that] by (simp add: frames_of_def)
  show "pmm_inv (pmm_free_page a s)
      \<and> frames_of (free_set (pmm_free_page a s)) = insert a (frames_of (free_set s))
      \<and> managed_frames (pmm_free_page a s) = managed_frames s" if "a \<in> managed_frames s"
  proof -
    from that obtain q where q: "0 < q" "q < total_pages s" "a = q * PAGE_SIZE"
      by (auto simp: managed_frames_def frames_of_def)
    then have "a div PAGE_SIZE = q" by (simp add: PAGE_SIZE_def)
    with pmm_free_page_free_set [OF inv, of a] q show ?thesis
      by (simp add: frames_of_simps managed_frames_def)
  qed
qed

section \<open>Properties of the allocator\<close>

text \<open>
  C2. A page is taken out of the free set and put back. On a sound allocator \<open>pmm_alloc_page\<close> fails exactly when
  no page is free, and then nothing changes; otherwise it returns the address of a free page other than page 0,
  removes that page and no other from the free set, counts it, and keeps the invariant. Freeing that
  address restores the free set and the count, and freeing it once more changes nothing.
\<close>

theorem pmm_alloc_page_correct:
  assumes "pmm_inv s"
  shows "case pmm_alloc_page beyond s of
      (None, s') \<Rightarrow> free_set s = {} \<and> s' = s
    | (Some a, s') \<Rightarrow> a mod PAGE_SIZE = 0 \<and> a div PAGE_SIZE \<in> free_set s \<and> a \<noteq> 0
        \<and> free_set s' = free_set s - {a div PAGE_SIZE}
        \<and> pmm_get_free_memory s' + PAGE_SIZE = pmm_get_free_memory s \<and> pmm_inv s'
        \<and> free_set (pmm_free_page a s') = free_set s
        \<and> pmm_get_free_memory (pmm_free_page a s') = pmm_get_free_memory s
        \<and> pmm_inv (pmm_free_page a s') \<and> pmm_free_page a (pmm_free_page a s') = pmm_free_page a s'"
proof (cases "pmm_alloc_page beyond s")
  case (Pair r s')
  show ?thesis
  proof (cases r)
    case None
    with Pair pmm_alloc_page_None [OF assms] show ?thesis by simp
  next
    case (Some a)
    with Pair have "pmm_alloc_page beyond s = (Some a, s')" by simp
    from pmm_alloc_page_Some [OF assms this] obtain q where q: "q \<in> free_set s"
      "a = q * PAGE_SIZE" "free_set s' = free_set s - {q}" "pmm_inv s'" by auto
    have d: "a div PAGE_SIZE = q" "total_pages s' = total_pages s"
      using q(2) \<open>pmm_alloc_page beyond s = (Some a, s')\<close>
      by (auto simp: PAGE_SIZE_def pmm_alloc_page_def Let_def split: option.splits if_splits)
    have "free_pages s = Suc (free_pages s')"
      using q assms card_Suc_Diff1 [of "free_set s" q] by (simp add: pmm_inv_def)
    then have a: "a mod PAGE_SIZE = 0 \<and> a div PAGE_SIZE \<in> free_set s \<and> a \<noteq> 0
        \<and> free_set s' = free_set s - {a div PAGE_SIZE}
        \<and> pmm_get_free_memory s' + PAGE_SIZE = pmm_get_free_memory s \<and> pmm_inv s'"
      using q free_set_pos [OF assms q(1)] by (simp add: PAGE_SIZE_def pmm_get_free_memory_def)
    let ?t = "pmm_free_page a s'"
    have f: "pmm_inv ?t" "free_set ?t = free_set s" "total_pages ?t = total_pages s"
      using pmm_free_page_free_set [OF q(4), of a] free_set_pos [OF assms q(1)] q(1,3) d by auto
    then have "pmm_get_free_memory ?t = pmm_get_free_memory s"
      using assms by (simp add: pmm_get_free_memory_def pmm_inv_def)
    moreover have "\<not> test_page_bit (bits ?t) q" using f(2) q(1) by (simp add: free_set_def set_eq_iff) blast
    then have "pmm_free_page a ?t = ?t" using d(1) by (simp add: pmm_free_page_def [of a ?t] Let_def)
    ultimately show ?thesis using Pair Some a f by simp
  qed
qed

text \<open>A three-page machine, for the witnesses: page 0 reserved, page 1 used, page 2 free.\<close>

definition pmm_small :: pmm where
  "pmm_small = pmm_boot\<lparr>bitmap := 1, bits := [3], total_pages := 3, bitmap_size := 1,
     free_pages := 1\<rparr>"

lemma pmm_small_inv: "pmm_inv pmm_small \<and> free_set pmm_small = {2}"
proof -
  have t: "test_page_bit [3] 0" "test_page_bit [3] 1" "\<not> test_page_bit [3] 2"
    by (simp_all add: test_page_bit_def)
  have "free_set pmm_small = {p. p < 3 \<and> \<not> test_page_bit [3] p}"
    by (simp add: free_set_def pmm_small_def)
  also have "\<dots> = {2}"
    using t by (auto simp: less_Suc_eq numeral_3_eq_3 numeral_2_eq_2)
  finally have "free_set pmm_small = {2}" .
  then show ?thesis by (simp add: pmm_inv_def pmm_small_def pmm_boot_def test_page_bit_def)
qed

theorem pmm_alloc_page_correct_witness:
  "\<exists>s'. pmm_alloc_page (\<lambda>_. 0) pmm_small = (Some 8192, s') \<and> free_set s' = {}
     \<and> free_set (pmm_free_page 8192 s') = {2} \<and> pmm_inv (pmm_free_page 8192 s')"
proof -
  obtain r s' where a: "pmm_alloc_page (\<lambda>_. 0) pmm_small = (r, s')" by fastforce
  have i: "pmm_inv pmm_small" "free_set pmm_small = {2}" using pmm_small_inv by simp_all
  note c = pmm_alloc_page_correct [OF i(1), of "\<lambda>_. 0", unfolded a i(2) prod.case]
  then have "r \<noteq> None" by (cases r) simp_all
  with c obtain b where b: "r = Some b" "b mod PAGE_SIZE = 0" "b div PAGE_SIZE = 2" "free_set s' = {}"
    "free_set (pmm_free_page b s') = {2}" "pmm_inv (pmm_free_page b s')" by (cases r) simp_all
  have "b = 8192" using b(2,3) div_mult_mod_eq [of b PAGE_SIZE] by (simp add: PAGE_SIZE_def)
  with a b show ?thesis by simp
qed

primrec pmm_alloc_many :: "(nat \<Rightarrow> u8) \<Rightarrow> nat \<Rightarrow> pmm \<Rightarrow> nat list \<times> pmm" where
  "pmm_alloc_many beyond 0 s = ([], s)"
| "pmm_alloc_many beyond (Suc n) s =
     (case pmm_alloc_page beyond s of (None, s) \<Rightarrow> ([], s)
      | (Some a, s) \<Rightarrow> (let (fs, s) = pmm_alloc_many beyond n s in (a # fs, s)))"

lemma pmm_alloc_many_eq: "pmm_alloc_many beyond n s = pmma.alloc_many beyond n s"
  by (induction n arbitrary: s) (simp_all split: prod.split option.split)

text \<open>
  No frame is handed out twice: \<open>n\<close> successive allocations return distinct frames that
  were free, as many as asked for or as \<open>free_pages\<close> says are left, whichever is less; and
  freeing the frames again, one by one, gives back the free set of the start.
\<close>

theorem pmm_alloc_many_distinct:
  assumes "pmm_inv s"
  shows "let (fs, s') = pmm_alloc_many beyond n s in
    distinct fs \<and> set fs \<subseteq> frames_of (free_set s) \<and> length fs = min n (free_pages s)
    \<and> frames_of (free_set (fold pmm_free_page fs s')) = frames_of (free_set s)"
proof -
  obtain fs s' where m: "pmm_alloc_many beyond n s = (fs, s')" by fastforce
  then have fr: "distinct fs \<and> set fs \<subseteq> frames_of (free_set s)
      \<and> length fs = min n (card (frames_of (free_set s))) \<and> pmm_inv s'
      \<and> frames_of (free_set s') = frames_of (free_set s) - set fs"
    using pmma.alloc_many_frames [OF assms, of beyond n fs s'] by (simp add: pmm_alloc_many_eq)
  have mg: "managed_frames s' = managed_frames s"
    using m
  proof (induction n arbitrary: s fs)
    case 0
    then show ?case by simp
  next
    case (Suc n)
    have "total_pages (snd (pmm_alloc_page beyond s)) = total_pages s"
      by (simp add: pmm_alloc_page_def Let_def split: option.split)
    with Suc.prems Suc.IH show ?case
      by (auto simp: managed_frames_def split: prod.splits option.splits)
  qed
  have refill: "pmm_inv t \<Longrightarrow> set bs \<subseteq> managed_frames t \<Longrightarrow>
      frames_of (free_set (fold pmm_free_page bs t)) = frames_of (free_set t) \<union> set bs" for bs t
  proof (induction bs arbitrary: t)
    case Nil
    then show ?case by simp
  next
    case (Cons b bs)
    from pmma.free_managed [OF Cons.prems(1), of b] Cons.prems(2)
    have f: "pmm_inv (pmm_free_page b t)"
      "frames_of (free_set (pmm_free_page b t)) = insert b (frames_of (free_set t))"
      "managed_frames (pmm_free_page b t) = managed_frames t" by auto
    from Cons.IH [OF f(1)] Cons.prems(2) f(2,3) show ?case by auto
  qed
  have "set fs \<subseteq> managed_frames s'"
    using fr pmma.avail_managed [OF assms] by (auto simp: mg)
  with refill [of s' fs] fr assms show ?thesis
    by (auto simp: m frames_of_simps pmm_inv_def)
qed

theorem pmm_alloc_many_distinct_witness:
  "let (fs, s') = pmm_alloc_many (\<lambda>_. 255) 5 pmm_small in
    distinct fs \<and> set fs \<subseteq> frames_of (free_set pmm_small) \<and> length fs = 1
    \<and> frames_of (free_set (fold pmm_free_page fs s')) = frames_of (free_set pmm_small)"
proof -
  have "free_pages pmm_small = 1" by (simp add: pmm_small_def)
  with pmm_alloc_many_distinct [of pmm_small "\<lambda>_. 255" 5] pmm_small_inv show ?thesis by simp
qed

section \<open>Initialisation establishes the invariant\<close>

definition entry_pages :: "memmap_entry \<Rightarrow> nat set" where
  "entry_pages e = (if me_type e = USABLE_MEMORY
     then {me_base e div PAGE_SIZE ..< me_base e div PAGE_SIZE + me_length e div PAGE_SIZE} else {})"

text \<open>The pages the scan of an entry marks as free: from the base, rounded down, as many as the length holds.\<close>

definition scanned_pages :: "memmap_entry list \<Rightarrow> nat set" where
  "scanned_pages es = (\<Union>e\<in>set es. entry_pages e)"

text \<open>The pages that lie inside a usable entry.\<close>

definition whole_pages :: "memmap_entry list \<Rightarrow> nat set" where
  "whole_pages es = {p. \<exists>e\<in>set es. me_type e = USABLE_MEMORY
     \<and> me_base e \<le> p * PAGE_SIZE \<and> (p + 1) * PAGE_SIZE \<le> me_base e + me_length e}"

text \<open>
  What the boot protocol promises of the map it hands over: usable entries are page aligned
  and do not overlap.
\<close>

definition memmap_ok :: "memmap_entry list \<Rightarrow> bool" where
  "memmap_ok es \<longleftrightarrow>
     (\<forall>e\<in>set es. me_type e = USABLE_MEMORY \<longrightarrow>
        me_base e mod PAGE_SIZE = 0 \<and> me_length e mod PAGE_SIZE = 0)
     \<and> sorted_wrt (\<lambda>a b. entry_pages a \<inter> entry_pages b = {}) es"

lemma clear_range_result:
  "clear_range bm fp addr (addr + len) = (bm', fp') \<Longrightarrow>
     (addr + len) div PAGE_SIZE \<le> 8 * length bm \<Longrightarrow>
     length bm' = length bm \<and> fp' = fp + len div PAGE_SIZE
     \<and> (\<forall>q. test_page_bit bm' q \<longleftrightarrow>
          test_page_bit bm q \<and> q \<notin> {addr div PAGE_SIZE ..< addr div PAGE_SIZE + len div PAGE_SIZE})"
proof (induction "len div PAGE_SIZE" arbitrary: len addr bm fp)
  case 0
  then have "len < PAGE_SIZE" by (simp add: PAGE_SIZE_def)
  with 0 show ?case by (subst (asm) clear_range.simps) simp
next
  case (Suc n)
  then have ge: "PAGE_SIZE \<le> len" by (simp add: PAGE_SIZE_def)
  define l where "l = len - PAGE_SIZE"
  have l: "len = l + PAGE_SIZE" using ge by (simp add: l_def)
  have d: "len div PAGE_SIZE = Suc (l div PAGE_SIZE)" "(addr + PAGE_SIZE) div PAGE_SIZE = Suc (addr div PAGE_SIZE)"
    by (simp_all add: l PAGE_SIZE_def)
  have e: "addr + len = (addr + PAGE_SIZE) + l" by (simp add: l)
  let ?bm = "clear_page_bit bm (addr div PAGE_SIZE)"
  have step: "clear_range ?bm (fp + 1) (addr + PAGE_SIZE) ((addr + PAGE_SIZE) + l) = (bm', fp')"
    using Suc.prems(1) ge by (subst (asm) clear_range.simps) (simp add: e [symmetric])
  have bound: "((addr + PAGE_SIZE) + l) div PAGE_SIZE \<le> 8 * length ?bm"
    using Suc.prems(2) by (simp add: e)
  have "Suc (addr div PAGE_SIZE) \<le> (addr + len) div PAGE_SIZE"
    using div_le_mono [of "addr + PAGE_SIZE" "addr + len" PAGE_SIZE] ge d(2) by simp
  with Suc.prems(2) have in_bm: "addr div PAGE_SIZE div 8 < length bm" by auto
  have n: "n = l div PAGE_SIZE" using Suc.hyps(2) d(1) by simp
  note IH = Suc.hyps(1) [OF n step bound]
  have "fp' = fp + len div PAGE_SIZE" using IH d(1) by simp
  moreover have ivl: "{a ..< a + Suc m} = insert a {Suc a ..< Suc a + m}" for a m :: nat by auto
  have "test_page_bit bm' q \<longleftrightarrow>
      test_page_bit bm q \<and> q \<notin> {addr div PAGE_SIZE ..< addr div PAGE_SIZE + len div PAGE_SIZE}" for q
    using IH d ivl by (simp add: test_clear_page_bit [OF in_bm] conj_commute conj_left_commute)
  ultimately show ?case using IH by simp
qed

lemma clear_entries_result:
  "clear_entries es bm fp = (bm', fp') \<Longrightarrow>
     (\<forall>e\<in>set es. me_type e = USABLE_MEMORY \<longrightarrow> (me_base e + me_length e) div PAGE_SIZE \<le> 8 * length bm) \<Longrightarrow>
     sorted_wrt (\<lambda>a b. entry_pages a \<inter> entry_pages b = {}) es \<Longrightarrow>
     length bm' = length bm \<and> fp' = fp + card (scanned_pages es)
     \<and> (\<forall>q. test_page_bit bm' q \<longleftrightarrow> test_page_bit bm q \<and> q \<notin> scanned_pages es)"
proof (induction es arbitrary: bm fp)
  case Nil
  then show ?case by (simp add: scanned_pages_def)
next
  case (Cons e es)
  have fin: "finite (entry_pages a)" for a by (simp add: entry_pages_def)
  have up: "scanned_pages (e # es) = entry_pages e \<union> scanned_pages es" by (auto simp: scanned_pages_def)
  have disj: "entry_pages e \<inter> scanned_pages es = {}"
    using Cons.prems(3) by (auto simp: scanned_pages_def)
  have card: "card (entry_pages e \<union> scanned_pages es) = card (entry_pages e) + card (scanned_pages es)"
    by (rule card_Un_disjoint) (use fin disj in \<open>auto simp: scanned_pages_def\<close>)
  obtain bm1 fp1 where r: "(if me_type e = USABLE_MEMORY
      then clear_range bm fp (me_base e) (me_base e + me_length e) else (bm, fp)) = (bm1, fp1)"
    by fastforce
  have one: "length bm1 = length bm \<and> fp1 = fp + card (entry_pages e)
      \<and> (\<forall>q. test_page_bit bm1 q \<longleftrightarrow> test_page_bit bm q \<and> q \<notin> entry_pages e)"
    using r clear_range_result [of bm fp "me_base e" "me_length e" bm1 fp1] Cons.prems(2)
    by (auto simp: entry_pages_def split: if_splits)
  have "clear_entries es bm1 fp1 = (bm', fp')" using Cons.prems(1) r by simp
  from Cons.IH [OF this] Cons.prems(2,3) one show ?case by (auto simp: card up)
qed

lemma highest_end_bound:
  "hi \<le> highest_end es hi \<and> (\<forall>e\<in>set es. me_base e + me_length e \<le> highest_end es hi)"
  by (induction es hi rule: highest_end.induct) (auto intro: order.trans)

text \<open>Carving the bitmap out of an entry only removes pages.\<close>

lemma shrink_entry_pages:
  assumes "me_base e mod PAGE_SIZE = 0" "n \<le> me_length e"
  shows "entry_pages (e\<lparr>me_base := me_base e + n, me_length := me_length e - n\<rparr>) \<subseteq> entry_pages e"
proof -
  have "(me_base e + n) div PAGE_SIZE = me_base e div PAGE_SIZE + n div PAGE_SIZE"
    using assms(1) by (simp add: div_add1_eq)
  moreover have "n div PAGE_SIZE + (me_length e - n) div PAGE_SIZE \<le> me_length e div PAGE_SIZE"
    using div_add1_eq [of n "me_length e - n" PAGE_SIZE] assms(2) by simp
  ultimately show ?thesis by (auto simp: entry_pages_def)
qed

lemma place_bitmap_map:
  "place_bitmap off n es = Some (p, es') \<Longrightarrow> memmap_ok es \<Longrightarrow>
     sorted_wrt (\<lambda>a b. entry_pages a \<inter> entry_pages b = {}) es'
     \<and> (\<forall>e'\<in>set es'. \<exists>e\<in>set es. me_type e' = me_type e
          \<and> me_base e' + me_length e' = me_base e + me_length e \<and> entry_pages e' \<subseteq> entry_pages e)"
proof (induction es arbitrary: es')
  case Nil
  then show ?case by simp
next
  case (Cons e es)
  show ?case
  proof (cases "me_type e = USABLE_MEMORY \<and> n \<le> me_length e")
    case True
    let ?e = "e\<lparr>me_base := me_base e + n, me_length := me_length e - n\<rparr>"
    have es': "es' = ?e # es" using Cons.prems(1) True by simp
    have sub: "entry_pages ?e \<subseteq> entry_pages e"
      using shrink_entry_pages [of e n] True Cons.prems(2) by (auto simp: memmap_ok_def)
    then show ?thesis
      using es' True Cons.prems(2) by (fastforce simp: memmap_ok_def)
  next
    case False
    then obtain es'' where es'': "place_bitmap off n es = Some (p, es'')" "es' = e # es''"
      using Cons.prems(1) by (auto split: if_splits)
    have "memmap_ok es" using Cons.prems(2) by (simp add: memmap_ok_def)
    from Cons.IH [OF es''(1) this] es''(2) Cons.prems(2) show ?thesis
      by (fastforce simp: memmap_ok_def)
  qed
qed

lemma pmm_init_result:
  assumes ok: "memmap_ok es"
    and place: "place_bitmap off (highest_end es 0 div PAGE_SIZE div 8 + 1) es = Some (p, es')"
    and p: "p \<noteq> 0"
  shows "fst (pmm_init off es pmm_boot) = es'"
    and "pmm_inv (snd (pmm_init off es pmm_boot))"
    and "free_set (snd (pmm_init off es pmm_boot)) = scanned_pages es' - {0}"
    and "total_pages (snd (pmm_init off es pmm_boot)) = highest_end es 0 div PAGE_SIZE"
    and "bitmap (snd (pmm_init off es pmm_boot)) = p"
    and "bitmap_size (snd (pmm_init off es pmm_boot)) = highest_end es 0 div PAGE_SIZE div 8 + 1"
proof -
  let ?tp = "highest_end es 0 div PAGE_SIZE"
  let ?s = "snd (pmm_init off es pmm_boot)"
  from place have ne: "es \<noteq> []" by auto
  obtain bm fp where c: "clear_entries es' (replicate (?tp div 8 + 1) 0xFF) 0 = (bm, fp)" by fastforce
  have ends: "\<forall>e'\<in>set es'. (me_base e' + me_length e') div PAGE_SIZE \<le> ?tp"
    using place_bitmap_map [OF place ok] highest_end_bound [of 0 es] by (metis div_le_mono)
  have lenbm: "?tp \<le> 8 * (?tp div 8 + 1)" by simp
  have cr: "length bm = ?tp div 8 + 1 \<and> fp = card (scanned_pages es')
      \<and> (\<forall>q. test_page_bit bm q \<longleftrightarrow>
            test_page_bit (replicate (?tp div 8 + 1) 0xFF) q \<and> q \<notin> scanned_pages es')"
    using clear_entries_result [OF c] place_bitmap_map [OF place ok] ends lenbm
    by (fastforce intro: order.trans)
  have ones: "test_page_bit (replicate (?tp div 8 + 1) 0xFF) q" if "q < ?tp" for q
  proof -
    have "q div 8 < ?tp div 8 + 1" using that by (simp add: div_le_mono less_Suc_eq_le)
    moreover have "bit (0xFF :: u8) k" if "k < 8" for k
    proof -
      have "bit (mask 8 :: u8) k" by (subst bit_mask_iff) (use that in simp)
      moreover have "mask 8 = (0xFF :: u8)" by (simp add: mask_eq_exp_minus_1)
      ultimately show ?thesis by (simp only:)
    qed
    ultimately show ?thesis
      by (simp add: test_page_bit_eq nth_replicate del: replicate_Suc replicate.simps)
  qed
  have sub: "scanned_pages es' \<subseteq> {..< ?tp}"
  proof
    fix q assume "q \<in> scanned_pages es'"
    then obtain e where e: "e \<in> set es'" "q \<in> entry_pages e" by (auto simp: scanned_pages_def)
    then have "q < me_base e div PAGE_SIZE + me_length e div PAGE_SIZE"
      by (auto simp: entry_pages_def split: if_splits)
    also have "\<dots> \<le> (me_base e + me_length e) div PAGE_SIZE"
      by (simp add: div_add1_eq [of "me_base e" "me_length e"])
    also have "\<dots> \<le> ?tp" using ends e(1) by blast
    finally show "q \<in> {..< ?tp}" by simp
  qed
  then have fin: "finite (scanned_pages es')" by (rule finite_subset) simp
  define t where "t = pmm_boot\<lparr>total_usable_bytes := sum_usable es, total_pages := ?tp,
      bitmap_size := ?tp div 8 + 1, bitmap := p, bits := bm, free_pages := fp,
      memory_start := p + (?tp div 8 + 1)\<rparr>"
  define u where "u = (if \<not> test_page_bit bm 0
      then t\<lparr>bits := set_page_bit bm 0, free_pages := (if fp > 0 then fp - 1 else fp)\<rparr> else t)"
  have init: "pmm_init off es pmm_boot = (es', u\<lparr>last_alloc_page := 1\<rparr>)"
    using ne place p c
    by (simp add: pmm_init_def Let_def t_def u_def pmm_boot_def)
  have ft: "free_set t = scanned_pages es'"
    using cr ones sub by (auto simp: free_set_def t_def)
  have t0: "length (bits t) = total_pages t div 8 + 1" "bitmap t \<noteq> 0" "free_pages t = card (free_set t)"
    using cr p ft by (simp_all add: t_def)
  have fu: "free_set (u\<lparr>last_alloc_page := 1\<rparr>) = scanned_pages es' - {0}"
    using ft t0(1) by (auto simp: u_def free_set_def t_def)
  have "pmm_inv (u\<lparr>last_alloc_page := 1\<rparr>)"
  proof (cases "test_page_bit bm 0")
    case True
    with t0 have "pmm_inv t" by (simp add: pmm_inv_def t_def)
    with True show ?thesis by (simp add: u_def pmm_inv_def free_set_def)
  next
    case False
    have "0 < ?tp \<or> ?tp = 0" by blast
    have z: "0 \<in> scanned_pages es'" 
    proof (rule ccontr)
      assume "0 \<notin> scanned_pages es'"
      with cr False have "\<not> test_page_bit (replicate (?tp div 8 + 1) 0xFF) 0" by blast
      then show False by (simp add: test_page_bit_def)
    qed
    with fin have "card (scanned_pages es' - {0}) = card (scanned_pages es') - 1" "0 < card (scanned_pages es')"
      by (auto simp: card_Diff_singleton card_gt_0_iff)
    with fu False cr t0 z show ?thesis
      by (simp add: pmm_inv_def u_def t_def)
  qed
  with init fu show "fst (pmm_init off es pmm_boot) = es'"
    "pmm_inv ?s" "free_set ?s = scanned_pages es' - {0}" "total_pages ?s = ?tp"
    "bitmap ?s = p" "bitmap_size ?s = ?tp div 8 + 1"
    by (simp_all add: u_def t_def)
qed

lemma aligned_pages:
  assumes "me_base e mod PAGE_SIZE = 0"
  shows "me_base e \<le> p * PAGE_SIZE \<and> (p + 1) * PAGE_SIZE \<le> me_base e + me_length e \<longleftrightarrow>
    me_base e div PAGE_SIZE \<le> p \<and> p < me_base e div PAGE_SIZE + me_length e div PAGE_SIZE"
proof -
  obtain k where k: "me_base e = k * PAGE_SIZE" using assms by (metis mod_eq_0_iff_dvd dvdE mult.commute)
  have kd: "me_base e div PAGE_SIZE = k" using k by (simp add: PAGE_SIZE_def)
  have "(p + 1) * PAGE_SIZE \<le> me_base e + me_length e \<longleftrightarrow> p + 1 \<le> (k * PAGE_SIZE + me_length e) div PAGE_SIZE"
    by (subst less_eq_div_iff_mult_less_eq) (simp_all add: k PAGE_SIZE_def)
  moreover have "(k * PAGE_SIZE + me_length e) div PAGE_SIZE = k + me_length e div PAGE_SIZE"
    by (simp add: PAGE_SIZE_def)
  moreover have "me_base e \<le> p * PAGE_SIZE \<longleftrightarrow> k \<le> p" by (simp add: k PAGE_SIZE_def)
  ultimately show ?thesis unfolding kd by linarith
qed

lemma whole_pages_scanned: "memmap_ok es \<Longrightarrow> whole_pages es = scanned_pages es"
proof (rule set_eqI)
  fix p
  assume ok: "memmap_ok es"
  have "me_type e = USABLE_MEMORY \<and> me_base e \<le> p * PAGE_SIZE \<and> (p + 1) * PAGE_SIZE \<le> me_base e + me_length e \<longleftrightarrow>
      p \<in> entry_pages e" if "e \<in> set es" for e
    using aligned_pages [of e p] ok that by (auto simp: entry_pages_def memmap_ok_def)
  then show "p \<in> whole_pages es \<longleftrightarrow> p \<in> scanned_pages es"
    unfolding whole_pages_def scanned_pages_def mem_Collect_eq UN_iff by (rule bex_cong [OF refl])
qed

lemma place_bitmap_at:
  "\<forall>x\<in>set xs. me_type x = USABLE_MEMORY \<longrightarrow> \<not> n \<le> me_length x \<Longrightarrow> me_type e = USABLE_MEMORY \<Longrightarrow> n \<le> me_length e \<Longrightarrow>
     place_bitmap off n (xs @ e # ys) = Some (phys_to_virt off (me_base e),
       xs @ e\<lparr>me_base := me_base e + n, me_length := me_length e - n\<rparr> # ys)"
proof (induction xs)
  case (Cons x xs)
  then have nx: "\<not> (me_type x = USABLE_MEMORY \<and> n \<le> me_length x)" by simp
  show ?case unfolding append_Cons place_bitmap.simps if_not_P [OF nx] using Cons by simp
qed simp

lemma carved_pages:
  assumes e: "me_base e mod PAGE_SIZE = 0" "me_length e mod PAGE_SIZE = 0" "me_type e = USABLE_MEMORY" "n \<le> me_length e"
  shows "entry_pages (e\<lparr>me_base := me_base e + n, me_length := me_length e - n\<rparr>) = entry_pages e
    - {me_base e div PAGE_SIZE ..< me_base e div PAGE_SIZE + n div PAGE_SIZE}
    - (if n mod PAGE_SIZE = 0 then {} else {(me_base e + me_length e) div PAGE_SIZE - 1})"
proof -
  obtain k l where kl: "me_base e = k * PAGE_SIZE" "me_length e = l * PAGE_SIZE"
    using e(1,2) by (metis mod_eq_0_iff_dvd dvdE mult.commute)
  let ?q = "n div PAGE_SIZE" and ?r = "n mod PAGE_SIZE"
  have n: "n = ?q * PAGE_SIZE + ?r" "?r < PAGE_SIZE" by (simp_all add: PAGE_SIZE_def)
  have ql: "?q \<le> l" using e(4) kl(2) n by (metis PAGE_SIZE_def div_le_mono div_mult_self_is_m zero_less_numeral)
  have d: "(me_base e + n) div PAGE_SIZE = k + ?q" "me_base e div PAGE_SIZE = k"
    "(me_base e + me_length e) div PAGE_SIZE = k + l" "me_length e div PAGE_SIZE = l"
    unfolding kl by (simp_all add: PAGE_SIZE_def)
  have m: "(me_length e - n) div PAGE_SIZE = l - ?q - (if ?r = 0 then 0 else 1)"
  proof (cases "?r = 0")
    case True
    then have "me_length e - n = (l - ?q) * PAGE_SIZE" using n(1) by (simp add: kl diff_mult_distrib)
    then show ?thesis using True by (simp add: PAGE_SIZE_def)
  next
    case False
    then have "?q < l" using ql n e(4) kl(2) by (metis le_neq_implies_less add_le_same_cancel1 le_zero_eq)
    then obtain j where j: "l = ?q + Suc j" by (metis add_Suc_right less_iff_Suc_add)
    have "l * PAGE_SIZE = ?q * PAGE_SIZE + PAGE_SIZE + j * PAGE_SIZE" unfolding j by (simp add: algebra_simps)
    then have "me_length e - n = j * PAGE_SIZE + (PAGE_SIZE - ?r)" using n kl(2) by linarith
    moreover have "PAGE_SIZE - ?r < PAGE_SIZE" using False by (simp add: PAGE_SIZE_def)
    moreover have "(j * PAGE_SIZE + t) div PAGE_SIZE = j" if "t < PAGE_SIZE" for t
      using that by (simp add: PAGE_SIZE_def)
    ultimately have "(me_length e - n) div PAGE_SIZE = j" by presburger
    then show ?thesis using j False by simp
  qed
  have "0 < l - ?q" if "?r \<noteq> 0"
    using that ql n e(4) kl(2) by (metis le_neq_implies_less add_le_same_cancel1 le_zero_eq zero_less_diff)
  then show ?thesis using e(3) ql by (auto simp: entry_pages_def d m)
qed

text \<open>
  C3. Initialisation establishes the invariant, with these pages free. Given a map in which the usable entries are page
  aligned and disjoint, let \<open>e\<close> be the first usable entry that has room for the \<open>n\<close> bytes of the
  bitmap. The bitmap is put at its start, and the free set is the set of all pages that lie inside a usable entry,
  without page 0, without the \<open>n div PAGE_SIZE\<close> pages that the bitmap fills, and, if \<open>n\<close> is not a multiple of
  the page size, without the last page of \<open>e\<close>. In that case the page with the end of the bitmap is in
  the free set, unless it is the last one: the scan starts at an unaligned base that is rounded
  down. The free count is right.
\<close>

theorem pmm_init_correct:
  assumes "memmap_ok (xs @ e # ys)" and n: "n = highest_end (xs @ e # ys) 0 div PAGE_SIZE div 8 + 1"
    and first: "\<forall>x\<in>set xs. me_type x = USABLE_MEMORY \<longrightarrow> me_length x < n"
    and e: "me_type e = USABLE_MEMORY" "n \<le> me_length e" "phys_to_virt off (me_base e) \<noteq> 0"
  shows "let s = snd (pmm_init off (xs @ e # ys) pmm_boot);
             k = me_base e div PAGE_SIZE; l = (me_base e + me_length e) div PAGE_SIZE in
    pmm_inv s \<and> bitmap s = phys_to_virt off (me_base e) \<and> bitmap_size s = n
    \<and> free_set s = whole_pages (xs @ e # ys) - {0} - {k ..< k + n div PAGE_SIZE} - (if n mod PAGE_SIZE = 0 then {} else {l - 1})
    \<and> pmm_get_free_memory s = card (free_set s) * PAGE_SIZE"
proof -
  let ?es = "xs @ e # ys" and ?e = "e\<lparr>me_base := me_base e + n, me_length := me_length e - n\<rparr>"
  let ?gone = "{me_base e div PAGE_SIZE ..< me_base e div PAGE_SIZE + n div PAGE_SIZE}
    \<union> (if n mod PAGE_SIZE = 0 then {} else {(me_base e + me_length e) div PAGE_SIZE - 1})"
  note place = place_bitmap_at [OF first [folded not_le] e(1,2), of off ys, unfolded n]
  note R = pmm_init_result [OF assms(1) place e(3)]
  have al: "me_base e mod PAGE_SIZE = 0" "me_length e mod PAGE_SIZE = 0"
    using assms(1) e(1) by (simp_all add: memmap_ok_def)
  have ce: "entry_pages ?e = entry_pages e - ?gone" using carved_pages [OF al e(1,2)] by auto
  have "?gone \<subseteq> entry_pages e"
  proof -
    obtain k l where kl: "me_base e = k * PAGE_SIZE" "me_length e = l * PAGE_SIZE"
      using al by (metis mod_eq_0_iff_dvd dvdE mult.commute)
    have "n div PAGE_SIZE \<le> l" using e(2) kl(2) by (metis PAGE_SIZE_def div_le_mono div_mult_self_is_m zero_less_numeral)
    moreover have "0 < l" using e(2) kl(2) n by (cases l) auto
    ultimately show ?thesis using e(1) by (auto simp: entry_pages_def kl PAGE_SIZE_def)
  qed
  moreover have "entry_pages x \<inter> entry_pages e = {}" if "x \<in> set xs \<union> set ys" for x
    using assms(1) that by (auto simp: memmap_ok_def sorted_wrt_append)
  ultimately have "scanned_pages (xs @ ?e # ys) = scanned_pages ?es - ?gone"
    using ce unfolding scanned_pages_def by fastforce
  then show ?thesis
    using R whole_pages_scanned [OF assms(1)] n by (auto simp: Let_def pmm_get_free_memory_def pmm_inv_def)
qed

definition memmap_small :: "memmap_entry list" where
  "memmap_small = [\<lparr>me_base = 4096, me_length = 12288, me_type = 0\<rparr>]"

lemma memmap_small_ok: "memmap_ok memmap_small
    \<and> place_bitmap 0 (highest_end memmap_small 0 div PAGE_SIZE div 8 + 1) memmap_small
      = Some (4096, [\<lparr>me_base = 4097, me_length = 12287, me_type = 0\<rparr>])"
  by (simp add: memmap_small_def memmap_ok_def USABLE_MEMORY_def PAGE_SIZE_def phys_to_virt_def)

theorem pmm_init_correct_witness:
  "let s = snd (pmm_init 0 memmap_small pmm_boot) in
     pmm_inv s \<and> bitmap s = 4096 \<and> bitmap_size s = 1 \<and> free_set s = whole_pages memmap_small - {0} - {3}"
proof -
  let ?e = "\<lparr>me_base = 4096, me_length = 12288, me_type = 0\<rparr> :: memmap_entry"
  have "1 = highest_end ([] @ ?e # []) 0 div PAGE_SIZE div 8 + 1" by (simp add: PAGE_SIZE_def)
  from pmm_init_correct [OF _ this, of 0] memmap_small_ok show ?thesis
    by (simp add: memmap_small_def USABLE_MEMORY_def PAGE_SIZE_def phys_to_virt_def Let_def)
qed

text \<open>
  Unless the bitmap's size is a multiple of the page size, initialisation marks the page
  that holds the bitmap's own last bytes as free: the entry that gave up those bytes is
  scanned from its new, unaligned base, rounded down. The allocator can then hand out the
  page its bitmap lives in.
\<close>

theorem pmm_init_frees_bitmap_page:
  assumes "memmap_ok (e # es)" "me_type e = USABLE_MEMORY" "0 < me_base e" "off = 0"
    and "size_b = highest_end (e # es) 0 div PAGE_SIZE div 8 + 1"
    and "size_b mod PAGE_SIZE \<noteq> 0" "size_b + PAGE_SIZE \<le> me_length e"
  shows "let s = snd (pmm_init off (e # es) pmm_boot) in
    bitmap s = me_base e \<and> bitmap_size s = size_b
    \<and> (me_base e + size_b - 1) div PAGE_SIZE \<in> free_set s"
proof -
  let ?e = "e\<lparr>me_base := me_base e + size_b, me_length := me_length e - size_b\<rparr>"
  have al: "me_base e mod PAGE_SIZE = 0" using assms(1,2) by (simp add: memmap_ok_def)
  have place: "place_bitmap off (highest_end (e # es) 0 div PAGE_SIZE div 8 + 1) (e # es)
      = Some (me_base e, ?e # es)"
    using assms by (simp add: phys_to_virt_def)
  obtain k where k: "me_base e = k * PAGE_SIZE" using al by (metis mod_eq_0_iff_dvd dvdE mult.commute)
  then have kpos: "0 < k" using assms(3) by (cases k) auto
  define q where "q = size_b div PAGE_SIZE"
  define r where "r = size_b mod PAGE_SIZE"
  have qr: "size_b = q * PAGE_SIZE + r" "0 < r" "r < PAGE_SIZE"
    using assms(6) by (simp_all add: q_def r_def PAGE_SIZE_def)
  have d1: "(me_base e + size_b - 1) div PAGE_SIZE = k + q"
  proof -
    have "me_base e + size_b - 1 = (k + q) * PAGE_SIZE + (r - 1)"
      using qr(1,2) k by (simp add: algebra_simps)
    moreover have "r - 1 < PAGE_SIZE" using qr(3) by simp
    ultimately show ?thesis by simp
  qed
  have d2: "(me_base e + size_b) div PAGE_SIZE = k + q"
    using qr k by (simp add: add.assoc [symmetric] flip: add_mult_distrib)
  have "1 \<le> (me_length e - size_b) div PAGE_SIZE"
    using assms(7) by (simp add: PAGE_SIZE_def)
  then have "k + q \<in> entry_pages ?e"
    using assms(2) d2 by (simp add: entry_pages_def)
  then have "k + q \<in> scanned_pages (?e # es) - {0}" using kpos by (auto simp: scanned_pages_def)
  moreover have "bitmap (snd (pmm_init off (e # es) pmm_boot)) = me_base e"
    "bitmap_size (snd (pmm_init off (e # es) pmm_boot)) = size_b"
    using pmm_init_result(5,6) [OF assms(1) place] assms(3,5) by simp_all
  ultimately show ?thesis
    using pmm_init_result(3) [OF assms(1) place] assms(3) d1 by (simp add: Let_def)
qed

theorem pmm_init_frees_bitmap_page_witness:
  "let s = snd (pmm_init 0 memmap_small pmm_boot) in
    bitmap s = 4096 \<and> bitmap_size s = 1 \<and> (4096 + 1 - 1) div PAGE_SIZE \<in> free_set s"
  using pmm_init_frees_bitmap_page [of "hd memmap_small" "[]" 0 1] memmap_small_ok
  by (simp add: memmap_small_def USABLE_MEMORY_def PAGE_SIZE_def)

end
