(* ===== verification/Vmm.thy ===== *)
theory Vmm
  imports Pmm "HOL-Library.Sublist"
begin

text \<open>
  Four-level paging, \<open>kernel/src/mm/vmm.c\<close>.

  \<open>pages t i\<close> is quadword \<open>i\<close> of the physical page at \<open>t\<close>, as the code reads it through the
  direct map; every table address is page aligned (the code masks it), so two of them name
  the same page or share nothing. \<open>cr3\<close> is the register. A null pointer is 0.
\<close>

definition PAGE_PRESENT :: u64 where "PAGE_PRESENT = 1"
definition PAGE_WRITABLE :: u64 where "PAGE_WRITABLE = 2"
definition PAGE_USER :: u64 where "PAGE_USER = 4"
definition PAGE_HUGE :: u64 where "PAGE_HUGE = 0x80"

definition KERNEL_HEAP_VADDR :: u64 where "KERNEL_HEAP_VADDR = 0xFFFFA00000000000"
definition USER_MMAP_VADDR :: u64 where "USER_MMAP_VADDR = 0x60000000"

definition PML4_IDX :: "u64 \<Rightarrow> nat" where "PML4_IDX v = unat (drop_bit 39 v AND 0x1FF)"
definition PDPT_IDX :: "u64 \<Rightarrow> nat" where "PDPT_IDX v = unat (drop_bit 30 v AND 0x1FF)"
definition PD_IDX :: "u64 \<Rightarrow> nat" where "PD_IDX v = unat (drop_bit 21 v AND 0x1FF)"
definition PT_IDX :: "u64 \<Rightarrow> nat" where "PT_IDX v = unat (drop_bit 12 v AND 0x1FF)"

record vmm =
  pm :: pmm
  pages :: "u64 \<Rightarrow> nat \<Rightarrow> u64"
  cr3 :: u64
  kernel_pml4_phys :: u64
  kernel_heap_cur :: u64
  user_mmap_cur :: u64

definition page_base :: "u64 \<Rightarrow> u64" where
  "page_base e = e AND NOT 0xFFF"

definition set_entry :: "(u64 \<Rightarrow> nat \<Rightarrow> u64) \<Rightarrow> u64 \<Rightarrow> nat \<Rightarrow> u64 \<Rightarrow> u64 \<Rightarrow> nat \<Rightarrow> u64" where
  "set_entry m t i e = m(t := (m t)(i := e))"

section \<open>The table walk\<close>

definition pt_indices :: "u64 \<Rightarrow> nat list" where
  "pt_indices virt = [PML4_IDX virt, PDPT_IDX virt, PD_IDX virt, PT_IDX virt]"

text \<open>
  From \<open>level\<close> down to the leaf. The answer is the code's status (1 present, 0 absent,
  -1 out of memory) and, when the leaf level was reached, the entry and its table.
\<close>

primrec walk_pt :: "(nat \<Rightarrow> u8) \<Rightarrow> nat \<Rightarrow> u64 \<Rightarrow> u64 \<Rightarrow> bool \<Rightarrow> u64 \<Rightarrow> vmm
    \<Rightarrow> int \<times> (u64 \<times> u64) option \<times> vmm" where
  "walk_pt beyond 0 tbl virt create extra s =
     (let entry = pages s tbl (pt_indices virt ! 3)
      in (if entry AND PAGE_PRESENT \<noteq> 0 then 1 else 0, Some (entry, tbl), s))"
| "walk_pt beyond (Suc level) tbl virt create extra s =
     (let i = pt_indices virt ! (3 - Suc level);
          entry = pages s tbl i
      in if entry AND PAGE_PRESENT = 0
         then if \<not> create then (0, None, s)
              else case pmm_alloc_page beyond (pm s) of
                     (None, p) \<Rightarrow> (-1, None, s\<lparr>pm := p\<rparr>)
                   | (Some a, p) \<Rightarrow>
                       let new_page = of_nat a;
                           entry = new_page OR PAGE_PRESENT OR PAGE_WRITABLE OR extra;
                           m = (pages s)(new_page := (\<lambda>_. 0));
                           s = s\<lparr>pm := p, pages := set_entry m tbl i entry\<rparr>
                       in walk_pt beyond level (page_base entry) virt create extra s
         else
           let s = (if extra \<noteq> 0 then s\<lparr>pages := set_entry (pages s) tbl i (entry OR extra)\<rparr> else s)
           in walk_pt beyond level (page_base entry) virt create extra s)"

definition vmm_init :: "nat \<Rightarrow> memmap_entry list \<Rightarrow> vmm \<Rightarrow> memmap_entry list \<times> vmm" where
  "vmm_init off memmap s =
     (if memmap = [] then (memmap, s)
      else let (memmap, p) = pmm_init off memmap (pm s)
           in (memmap, s\<lparr>pm := p, kernel_pml4_phys := page_base (cr3 s)\<rparr>))"

definition vmm_get_kernel_pml4 :: "vmm \<Rightarrow> u64" where
  "vmm_get_kernel_pml4 s = kernel_pml4_phys s"

definition vmm_map_page :: "(nat \<Rightarrow> u8) \<Rightarrow> u64 \<Rightarrow> u64 \<Rightarrow> u64 \<Rightarrow> vmm \<Rightarrow> u64 \<times> vmm" where
  "vmm_map_page beyond virt phys flags s =
     (case walk_pt beyond 3 (page_base (cr3 s)) virt True (flags AND PAGE_USER) s of
        (ret, out, s) \<Rightarrow>
          if ret < 0 then (0, s)
          else let pt = (case out of Some (old, t) \<Rightarrow> t | None \<Rightarrow> 0)
               in (virt, s\<lparr>pages := set_entry (pages s) pt (PT_IDX virt) (page_base phys OR flags)\<rparr>))"

definition vmm_unmap_page :: "(nat \<Rightarrow> u8) \<Rightarrow> u64 \<Rightarrow> vmm \<Rightarrow> vmm" where
  "vmm_unmap_page beyond virt s =
     (case walk_pt beyond 3 (page_base (cr3 s)) virt False 0 s of
        (ret, out, s) \<Rightarrow>
          if ret \<le> 0 then s
          else let pt = (case out of Some (old, t) \<Rightarrow> t | None \<Rightarrow> 0)
               in s\<lparr>pages := set_entry (pages s) pt (PT_IDX virt) 0\<rparr>)"

definition vmm_get_phys_addr :: "(nat \<Rightarrow> u8) \<Rightarrow> u64 \<Rightarrow> vmm \<Rightarrow> u64" where
  "vmm_get_phys_addr beyond virt s =
     (case walk_pt beyond 3 (page_base (cr3 s)) virt False 0 s of
        (ret, out, s) \<Rightarrow>
          if ret \<le> 0 then 0
          else let entry = (case out of Some (e, t) \<Rightarrow> e | None \<Rightarrow> 0)
               in page_base entry OR (virt AND 0xFFF))"

definition vmm_walk_pt :: "(nat \<Rightarrow> u8) \<Rightarrow> u64 \<Rightarrow> u64 \<Rightarrow> vmm \<Rightarrow> int \<times> u64 option" where
  "vmm_walk_pt beyond pml4_phys virt s =
     (case walk_pt beyond 3 pml4_phys virt False 0 s of
        (ret, out, s) \<Rightarrow> (ret, map_option fst out))"

section \<open>Page ranges\<close>

text \<open>Undoing a range: the mapped pages are unmapped, one by one.\<close>

primrec unmap_range :: "(nat \<Rightarrow> u8) \<Rightarrow> u64 \<Rightarrow> nat \<Rightarrow> vmm \<Rightarrow> vmm" where
  "unmap_range beyond start 0 s = s"
| "unmap_range beyond start (Suc j) s =
     vmm_unmap_page beyond (start + of_nat j * of_nat PAGE_SIZE) (unmap_range beyond start j s)"

text \<open>The loop both range allocators run: \<open>i\<close> pages done, \<open>n\<close> to go.\<close>

primrec alloc_pages_loop :: "(nat \<Rightarrow> u8) \<Rightarrow> u64 \<Rightarrow> u64 \<Rightarrow> nat \<Rightarrow> nat \<Rightarrow> u64 \<Rightarrow> vmm
    \<Rightarrow> u64 option \<times> vmm" where
  "alloc_pages_loop beyond flags start 0 i virt s = (Some virt, s)"
| "alloc_pages_loop beyond flags start (Suc n) i virt s =
     (case pmm_alloc_page beyond (pm s) of
        (None, p) \<Rightarrow> (None, unmap_range beyond start i (s\<lparr>pm := p\<rparr>))
      | (Some phys, p) \<Rightarrow>
          (case vmm_map_page beyond virt (of_nat phys) flags (s\<lparr>pm := p\<rparr>) of
             (r, s) \<Rightarrow>
               if r = 0
               then (None, unmap_range beyond start i (s\<lparr>pm := pmm_free_page phys (pm s)\<rparr>))
               else alloc_pages_loop beyond flags start n (Suc i) (virt + of_nat PAGE_SIZE) s))"

definition vmm_alloc_pages :: "(nat \<Rightarrow> u8) \<Rightarrow> nat \<Rightarrow> vmm \<Rightarrow> u64 \<times> vmm" where
  "vmm_alloc_pages beyond count s =
     (let start = kernel_heap_cur s in
      case alloc_pages_loop beyond (PAGE_PRESENT OR PAGE_WRITABLE) start count 0 start s of
        (None, s) \<Rightarrow> (0, s)
      | (Some virt, s) \<Rightarrow> (start, s\<lparr>kernel_heap_cur := virt\<rparr>))"

definition vmm_alloc_page :: "(nat \<Rightarrow> u8) \<Rightarrow> vmm \<Rightarrow> u64 \<times> vmm" where
  "vmm_alloc_page beyond s = vmm_alloc_pages beyond 1 s"

definition vmm_free_page :: "(nat \<Rightarrow> u8) \<Rightarrow> u64 \<Rightarrow> vmm \<Rightarrow> vmm" where
  "vmm_free_page beyond addr s =
     (if addr = 0 then s
      else let phys = vmm_get_phys_addr beyond addr s in
           if phys \<noteq> 0
           then let s = vmm_unmap_page beyond addr s
                in s\<lparr>pm := pmm_free_page (unat phys) (pm s)\<rparr>
           else s)"

definition vmm_alloc_user_pages :: "(nat \<Rightarrow> u8) \<Rightarrow> nat \<Rightarrow> vmm \<Rightarrow> u64 \<times> vmm" where
  "vmm_alloc_user_pages beyond count s =
     (let start = user_mmap_cur s;
          flags = PAGE_PRESENT OR PAGE_WRITABLE OR PAGE_USER in
      case alloc_pages_loop beyond flags start count 0 start s of
        (None, s) \<Rightarrow> (0, s)
      | (Some virt, s) \<Rightarrow> (start, s\<lparr>user_mmap_cur := virt\<rparr>))"

definition vmm_alloc_stack :: "(nat \<Rightarrow> u8) \<Rightarrow> nat \<Rightarrow> vmm \<Rightarrow> u64 \<times> vmm" where
  "vmm_alloc_stack beyond n s =
     (case vmm_alloc_user_pages beyond n s of
        (base, s) \<Rightarrow> if base = 0 then (0, s) else (base + of_nat n * of_nat PAGE_SIZE, s))"

section \<open>The table tree\<close>

text \<open>
  What a path of indices leads to: nothing, a page mapped by a large-page entry (which the
  code does not know), or a table.
\<close>

datatype target = Absent | Huge | Table u64

definition entry_target :: "u64 \<Rightarrow> target" where
  "entry_target e = (if e AND PAGE_PRESENT = 0 then Absent
                     else if e AND PAGE_HUGE \<noteq> 0 then Huge else Table (page_base e))"

fun lookup :: "(u64 \<Rightarrow> nat \<Rightarrow> u64) \<Rightarrow> u64 \<Rightarrow> nat list \<Rightarrow> target" where
  "lookup m t [] = Table t"
| "lookup m t (i # is) = (case entry_target (m t i) of Table t' \<Rightarrow> lookup m t' is | x \<Rightarrow> x)"

definition path_ok :: "nat list \<Rightarrow> bool" where
  "path_ok p \<longleftrightarrow> length p \<le> 3 \<and> (\<forall>i\<in>set p. i < 512)"

definition tree :: "(u64 \<Rightarrow> nat \<Rightarrow> u64) \<Rightarrow> u64 \<Rightarrow> bool" where
  "tree m r \<longleftrightarrow> (\<forall>p q t. path_ok p \<longrightarrow> path_ok q \<longrightarrow> lookup m r p = Table t \<longrightarrow>
     lookup m r q = Table t \<longrightarrow> p = q)"

definition tables :: "(u64 \<Rightarrow> nat \<Rightarrow> u64) \<Rightarrow> u64 \<Rightarrow> u64 set" where
  "tables m r = {t. \<exists>p. path_ok p \<and> lookup m r p = Table t}"

lemma lookup_append:
  "lookup m t (p @ q) = (case lookup m t p of Table t' \<Rightarrow> lookup m t' q | x \<Rightarrow> x)"
  by (induction p arbitrary: t) (auto split: target.splits)

lemma lookup_snoc:
  "lookup m t (p @ [i]) = (case lookup m t p of Table t' \<Rightarrow> entry_target (m t' i) | x \<Rightarrow> x)"
  by (auto simp: lookup_append split: target.splits)

lemma path_ok_prefix: "path_ok (p @ q) \<Longrightarrow> path_ok p"
  by (auto simp: path_ok_def)

lemma treeD: "tree m r \<Longrightarrow> path_ok p \<Longrightarrow> path_ok q \<Longrightarrow> lookup m r p = Table t \<Longrightarrow>
    lookup m r q = Table t \<Longrightarrow> p = q"
  by (auto simp: tree_def)

text \<open>Writing an entry changes the paths through it and no others.\<close>

lemma lookup_set_entry:
  assumes "tree m r" "path_ok p" "lookup m r p = Table t"
    and "\<not> prefix (p @ [i]) q \<or> entry_target e = entry_target (m t i)" "path_ok q"
  shows "lookup (set_entry m t i e) r q = lookup m r q"
  using assms(4,5)
proof (induction q rule: rev_induct)
  case Nil
  then show ?case by simp
next
  case (snoc j q)
  have IH: "lookup (set_entry m t i e) r q = lookup m r q"
    using snoc by (auto simp: path_ok_prefix intro: snoc.IH)
  show ?case
  proof (cases "lookup m r q = Table t \<and> j = i")
    case True
    then have "q = p" using treeD [OF assms(1) _ assms(2)] path_ok_prefix [OF snoc.prems(2)] assms(3)
      by blast
    with True snoc.prems have "entry_target e = entry_target (m t i)" by simp
    with True show ?thesis unfolding lookup_snoc IH by (simp add: set_entry_def)
  next
    case False
    then show ?thesis unfolding lookup_snoc IH by (auto simp: set_entry_def split: target.splits)
  qed
qed

text \<open>Clearing a page that is no table changes no path.\<close>

lemma lookup_fresh_page:
  assumes "n \<notin> tables m r" "path_ok q"
  shows "lookup (m(n := f)) r q = lookup m r q"
  using assms(2)
proof (induction q rule: rev_induct)
  case Nil
  then show ?case by simp
next
  case (snoc j q)
  have ok: "path_ok q" using path_ok_prefix [OF snoc.prems] .
  then have "lookup m r q \<noteq> Table n" using assms(1) by (auto simp: tables_def)
  with snoc.IH [OF ok] show ?case by (auto simp: lookup_snoc split: target.splits)
qed


lemma lookup_zero_page: "lookup m t p = Table n \<Longrightarrow> m n = (\<lambda>_. 0) \<Longrightarrow> lookup m t (p @ i # is) = Absent"
  by (simp add: lookup_append entry_target_def PAGE_PRESENT_def)

lemma lookup_set_entry_tree:
  assumes t: "tree m r" "path_ok p" "lookup m r p = Table t" and e: "entry_target e = entry_target (m t i)"
  shows "tree (set_entry m t i e) r" "tables (set_entry m t i e) r = tables m r"
  using t(1) by (auto simp: tree_def tables_def lookup_set_entry [OF t disjI2 [OF e]])

lemma lookup_set_leaf:
  assumes t: "tree m r" "path_ok p" "lookup m r p = Table t" and p: "length p = 3" and q: "path_ok q"
  shows "lookup (set_entry m t i e) r q = lookup m r q"
proof -
  have "\<not> prefix (p @ [i]) q" using p q by (auto simp: path_ok_def dest: prefix_length_le)
  with lookup_set_entry [OF t disjI1 q] show ?thesis .
qed

lemma tree_set_leaf:
  assumes t: "tree m r" "path_ok p" "lookup m r p = Table t" and p: "length p = 3"
  shows "tree (set_entry m t i e) r" "tables (set_entry m t i e) r = tables m r"
  using t(1) by (auto simp: tree_def tables_def lookup_set_leaf [OF t p])

text \<open>Hanging a cleared page below an absent entry adds one table, and only that.\<close>

definition hang_table :: "(u64 \<Rightarrow> nat \<Rightarrow> u64) \<Rightarrow> u64 \<Rightarrow> nat list \<Rightarrow> u64 \<Rightarrow> nat \<Rightarrow> u64 \<Rightarrow> u64 \<Rightarrow> bool" where
  "hang_table m r p t i n e \<longleftrightarrow> tree m r \<and> path_ok p \<and> length p < 3 \<and> i < 512
     \<and> lookup m r p = Table t \<and> n \<notin> tables m r \<and> entry_target e = Table n
     \<and> entry_target (m t i) = Absent"

lemma lookup_new_table:
  assumes h: "hang_table m r p t i n e" and ok: "path_ok q"
  shows "lookup (set_entry (m(n := (\<lambda>_. 0))) t i e) r q =
    (if q = p @ [i] then Table n else lookup m r q)"
proof -
  let ?z = "m(n := (\<lambda>_. 0))" and ?m = "set_entry (m(n := (\<lambda>_. 0))) t i e"
  have tr: "tree m r" and p: "path_ok p" and lp: "lookup m r p = Table t"
    and n: "n \<notin> tables m r" and e: "entry_target e = Table n" and absent: "entry_target (m t i) = Absent"
    using h by (simp_all add: hang_table_def)
  have tree0: "tree ?z r" using tr by (auto simp: tree_def lookup_fresh_page [OF n])
  have lp0: "lookup ?z r p = Table t" using lookup_fresh_page [OF n p] lp by simp
  have other: "lookup ?m r q' = lookup m r q'" if "\<not> prefix (p @ [i]) q'" "path_ok q'" for q'
    using lookup_set_entry [OF tree0 p lp0 disjI1 [OF that(1)] that(2)] lookup_fresh_page [OF n that(2)]
    by simp
  have "\<not> prefix (p @ [i]) p" by (auto dest: prefix_length_le)
  from other [OF this p] lp have lp': "lookup ?m r p = Table t" by simp
  then have pi: "lookup ?m r (p @ [i]) = Table n"
    using e by (simp add: lookup_snoc) (simp add: set_entry_def)
  have "t \<in> tables m r" using p lp by (auto simp: tables_def)
  with n have zero: "?m n = (\<lambda>_. 0)" by (auto simp: set_entry_def)
  have below: "lookup m r ((p @ [i]) @ z) = Absent" for z
    using lp absent by (simp add: lookup_append)
  show ?thesis
  proof (cases "prefix (p @ [i]) q")
    case True
    then obtain z where z: "q = (p @ [i]) @ z" by (auto simp: prefix_def)
    show ?thesis
    proof (cases z)
      case Nil
      with z pi show ?thesis by simp
    next
      case (Cons k ks)
      have "lookup ?m r q = Absent" unfolding z Cons by (rule lookup_zero_page [OF pi zero])
      moreover have "lookup m r q = Absent" using below [of z] z by simp
      ultimately show ?thesis using z Cons by simp
    qed
  next
    case False
    then have "q \<noteq> p @ [i]" by auto
    with other [OF False ok] show ?thesis by simp
  qed
qed

lemma tree_new_table:
  assumes h: "hang_table m r p t i n e"
  shows "tree (set_entry (m(n := (\<lambda>_. 0))) t i e) r"
  unfolding tree_def
proof (intro allI impI)
  fix q q' t'
  assume ok: "path_ok q" "path_ok q'"
    and l: "lookup (set_entry (m(n := (\<lambda>_. 0))) t i e) r q = Table t'"
      "lookup (set_entry (m(n := (\<lambda>_. 0))) t i e) r q' = Table t'"
  have "lookup m r q \<noteq> Table n" "lookup m r q' \<noteq> Table n"
    using h ok by (auto simp: tables_def hang_table_def)
  moreover have "tree m r" using h by (simp add: hang_table_def)
  ultimately show "q = q'"
    using l by (auto simp: lookup_new_table [OF h ok(1)] lookup_new_table [OF h ok(2)]
        split: if_splits intro: treeD [OF _ ok])
qed

lemma tables_new_table:
  assumes h: "hang_table m r p t i n e"
  shows "tables (set_entry (m(n := (\<lambda>_. 0))) t i e) r = insert n (tables m r)"
proof (intro set_eqI iffI)
  fix x assume "x \<in> tables (set_entry (m(n := (\<lambda>_. 0))) t i e) r"
  then show "x \<in> insert n (tables m r)"
    by (auto simp: tables_def lookup_new_table [OF h] split: if_splits)
next
  fix x assume x: "x \<in> insert n (tables m r)"
  have pi: "path_ok (p @ [i])" and ab: "lookup m r (p @ [i]) = Absent"
    using h by (simp_all add: hang_table_def path_ok_def lookup_snoc)
  show "x \<in> tables (set_entry (m(n := (\<lambda>_. 0))) t i e) r"
  proof (cases "x = n")
    case True
    with lookup_new_table [OF h pi] pi show ?thesis by (auto simp: tables_def)
  next
    case False
    with x obtain q where q: "path_ok q" "lookup m r q = Table x" by (auto simp: tables_def)
    with ab have "q \<noteq> p @ [i]" by auto
    with q lookup_new_table [OF h q(1)] show ?thesis by (auto simp: tables_def)
  qed
qed


section \<open>Entries\<close>

lemma page_base_or: "page_base (x OR y) = page_base x OR page_base y"
  by (simp add: page_base_def word_ao_dist)

lemma page_base_idem [simp]: "page_base (page_base x) = page_base x"
  by (simp add: page_base_def and.assoc)

lemma page_base_small: "f AND NOT 0xFFF = 0 \<Longrightarrow> page_base f = 0"
  by (simp add: page_base_def)

lemma page_base_frame:
  assumes "a mod PAGE_SIZE = 0"
  shows "page_base (of_nat a) = of_nat a"
proof -
  obtain k where k: "a = k * 2 ^ 12" using assms by (auto simp: PAGE_SIZE_def mod_eq_0_iff_dvd elim: dvdE)
  have m: "(0xFFF :: u64) = mask 12" by (simp add: mask_eq_exp_minus_1)
  have "(of_nat a :: u64) = push_bit 12 (of_nat k)" by (simp add: k push_bit_eq_mult)
  then show ?thesis
    unfolding page_base_def m
    by (intro bit_eqI) (auto simp: bit_and_iff bit_not_iff bit_mask_iff bit_push_bit_iff)
qed

lemma base_and_low: "page_base n = n \<Longrightarrow> f AND NOT 0xFFF = 0 \<Longrightarrow> n AND f = 0"
proof -
  assume n: "page_base n = n" and f: "f AND NOT 0xFFF = 0"
  have "n AND f = page_base n AND f" by (simp add: n)
  also have "\<dots> = n AND (f AND NOT 0xFFF)" by (simp only: page_base_def ac_simps)
  finally show ?thesis by (simp only: f and_zero_eq)
qed

lemma user_flag_cases: "flags AND PAGE_USER = 0 \<or> flags AND PAGE_USER = PAGE_USER"
proof -
  have "flags AND 2 ^ 2 = (if bit flags 2 then 2 ^ 2 else 0)"
    by (intro bit_eqI) (auto simp only: bit_and_iff bit_exp_iff bit_0_eq split: if_splits)
  then show ?thesis by (simp add: PAGE_USER_def split: if_splits)
qed

lemma entry_target_user: "entry_target (e OR PAGE_USER) = entry_target e"
  by (simp add: entry_target_def PAGE_PRESENT_def PAGE_USER_def PAGE_HUGE_def word_ao_dist
      page_base_or) (simp add: page_base_def)

lemma entry_target_new:
  assumes "page_base n = n" "extra = 0 \<or> extra = PAGE_USER"
  shows "entry_target (n OR PAGE_PRESENT OR PAGE_WRITABLE OR extra) = Table n"
proof -
  have "n AND 0x80 = 0" using base_and_low [OF assms(1), of "0x80"] by simp
  moreover have "page_base 0 = 0" "page_base 1 = 0" "page_base 2 = 0" "page_base 4 = 0" by (simp_all add: page_base_def)
  ultimately show ?thesis
    using assms by (auto simp: entry_target_def PAGE_PRESENT_def PAGE_WRITABLE_def PAGE_USER_def
        PAGE_HUGE_def word_ao_dist page_base_or)
qed

section \<open>The invariant and what a walk keeps\<close>

abbreviation root :: "vmm \<Rightarrow> u64" where "root s \<equiv> page_base (cr3 s)"

definition dirs :: "u64 \<Rightarrow> nat list" where
  "dirs v = [PML4_IDX v, PDPT_IDX v, PD_IDX v]"

definition leaf :: "(u64 \<Rightarrow> nat \<Rightarrow> u64) \<Rightarrow> u64 \<Rightarrow> nat list \<Rightarrow> nat \<Rightarrow> u64" where
  "leaf m r q j = (case lookup m r q of Table t \<Rightarrow> m t j | _ \<Rightarrow> 0)"

definition vmm_inv :: "vmm \<Rightarrow> bool" where
  "vmm_inv s \<longleftrightarrow> pmm_inv (pm s) \<and> total_pages (pm s) * PAGE_SIZE \<le> 2 ^ 64
     \<and> tree (pages s) (root s)
     \<and> (\<forall>t\<in>tables (pages s) (root s). unat t \<notin> frames_of (free_set (pm s)))"

definition walk_keeps :: "vmm \<Rightarrow> vmm \<Rightarrow> bool" where
  "walk_keeps s s' \<longleftrightarrow> cr3 s' = cr3 s \<and> kernel_heap_cur s' = kernel_heap_cur s
     \<and> user_mmap_cur s' = user_mmap_cur s \<and> total_pages (pm s') = total_pages (pm s)
     \<and> free_set (pm s') \<subseteq> free_set (pm s)
     \<and> (\<forall>q. path_ok q \<longrightarrow> lookup (pages s) (root s) q \<noteq> Absent \<longrightarrow>
          lookup (pages s') (root s) q = lookup (pages s) (root s) q)
     \<and> (\<forall>q. path_ok q \<longrightarrow> lookup (pages s') (root s) q = Huge \<longrightarrow> lookup (pages s) (root s) q = Huge)
     \<and> (\<forall>q j. path_ok q \<longrightarrow> length q = 3 \<longrightarrow>
          leaf (pages s') (root s) q j = leaf (pages s) (root s) q j)
     \<and> (\<forall>t\<in>tables (pages s') (root s).
          t \<in> tables (pages s) (root s) \<or> unat t \<in> frames_of (free_set (pm s)))"

lemma walk_keeps_refl [simp]: "walk_keeps s s"
  by (simp add: walk_keeps_def)

lemma walk_keeps_trans: "walk_keeps s t \<Longrightarrow> walk_keeps t u \<Longrightarrow> walk_keeps s u"
proof -
  assume 1: "walk_keeps s t" and 2: "walk_keeps t u"
  have r: "cr3 t = cr3 s" "cr3 u = cr3 s" using 1 2 by (simp_all add: walk_keeps_def)
  have a: "lookup (pages u) (root s) q = lookup (pages s) (root s) q"
    if "path_ok q" "lookup (pages s) (root s) q \<noteq> Absent" for q
    using 1 2 that unfolding walk_keeps_def r by metis
  have b: "lookup (pages s) (root s) q = Huge" if "path_ok q" "lookup (pages u) (root s) q = Huge" for q
    using 1 2 that unfolding walk_keeps_def r by metis
  have c: "leaf (pages u) (root s) q j = leaf (pages s) (root s) q j"
    if "path_ok q" "length q = 3" for q j
    using 1 2 that unfolding walk_keeps_def r by metis
  have d: "kernel_heap_cur u = kernel_heap_cur s" "user_mmap_cur u = user_mmap_cur s"
    "total_pages (pm u) = total_pages (pm s)" "free_set (pm u) \<subseteq> free_set (pm s)"
    using 1 2 unfolding walk_keeps_def by (metis, metis, metis, metis order.trans)
  have e: "x \<in> tables (pages s) (root s) \<or> unat x \<in> frames_of (free_set (pm s))"
    if "x \<in> tables (pages u) (root s)" for x
  proof -
    have "x \<in> tables (pages t) (root s) \<or> unat x \<in> frames_of (free_set (pm t))"
      using 2 that unfolding walk_keeps_def r by blast
    moreover have "frames_of (free_set (pm t)) \<subseteq> frames_of (free_set (pm s))"
      using 1 unfolding walk_keeps_def by (intro frames_of_simps(5)) blast
    ultimately show ?thesis using 1 unfolding walk_keeps_def by blast
  qed
  show ?thesis
    unfolding walk_keeps_def by (intro conjI allI impI ballI) ((rule r(2) d a b c e; assumption?)+)
qed

lemma dirs_ok [simp]: "path_ok (dirs v)" "length (dirs v) = 3"
proof -
  have "unat (x AND 0x1FF) < 512" for x :: u64
  proof -
    have "x AND 0x1FF \<le> 0x1FF" by (rule word_and_le1)
    then show ?thesis by (simp add: word_le_nat_alt)
  qed
  then show "path_ok (dirs v)" "length (dirs v) = 3"
    by (simp_all add: path_ok_def dirs_def PML4_IDX_def PDPT_IDX_def PD_IDX_def)
qed


section \<open>The steps of a walk\<close>

lemma alloc_frame:
  assumes inv: "vmm_inv s" and al: "pmm_alloc_page beyond (pm s) = (Some a, q)"
  shows "page_base (of_nat a) = of_nat a" "unat (of_nat a :: u64) = a"
    "a \<in> frames_of (free_set (pm s))" "pmm_inv q" "a \<in> managed_frames q"
    "frames_of (free_set q) = frames_of (free_set (pm s)) - {a}" "total_pages q = total_pages (pm s)"
    "free_set q \<subseteq> free_set (pm s)"
proof -
  have pi: "pmm_inv (pm s)" using inv by (simp add: vmm_inv_def)
  from pmm_alloc_page_Some [OF pi al] obtain k where k: "k \<in> free_set (pm s)" "a = k * PAGE_SIZE"
    "free_set q = free_set (pm s) - {k}" "pmm_inv q" "total_pages q = total_pages (pm s)" by auto
  have kp: "0 < k \<and> k < total_pages (pm s)" using free_set_pos [OF pi k(1)] .
  then have "a < total_pages (pm s) * PAGE_SIZE" using k(2) by (simp add: PAGE_SIZE_def)
  then have "a < 2 ^ 64" using inv by (simp add: vmm_inv_def)
  then show "unat (of_nat a :: u64) = a" by (simp add: unat_of_nat take_bit_nat_eq_self)
  show "page_base (of_nat a) = of_nat a" by (rule page_base_frame) (simp add: k(2))
  show "a \<in> frames_of (free_set (pm s))" using k by (auto simp: frames_of_def)
  show "frames_of (free_set q) = frames_of (free_set (pm s)) - {a}" using k by (simp add: frames_of_simps)
  show "a \<in> managed_frames q" using kp k by (auto simp: managed_frames_def frames_of_def)
qed (use pmm_alloc_page_Some [of "pm s" beyond a q] inv al in \<open>auto simp: vmm_inv_def\<close>)

lemma walk_step_new:
  assumes inv: "vmm_inv s" and p: "path_ok p" "length p < 3" "i < 512"
    and lp: "lookup (pages s) (root s) p = Table tbl" and ab: "entry_target (pages s tbl i) = Absent"
    and al: "pmm_alloc_page beyond (pm s) = (Some a, q)" and ex: "extra = 0 \<or> extra = PAGE_USER"
    and s': "s' = s\<lparr>pm := q, pages := set_entry ((pages s)(of_nat a := (\<lambda>_. 0))) tbl i
                 (of_nat a OR PAGE_PRESENT OR PAGE_WRITABLE OR extra)\<rparr>"
  shows "vmm_inv s' \<and> walk_keeps s s' \<and> lookup (pages s') (root s) (p @ [i]) = Table (of_nat a)"
proof -
  let ?e = "of_nat a OR PAGE_PRESENT OR PAGE_WRITABLE OR extra" and ?m = "pages s" and ?r = "root s"
  note fr = alloc_frame [OF inv al]
  have nt: "of_nat a \<notin> tables ?m ?r" using inv fr(2,3) by (auto simp: vmm_inv_def)
  have h: "hang_table ?m ?r p tbl i (of_nat a) ?e"
    using inv p lp ab nt entry_target_new [OF fr(1) ex] by (simp add: hang_table_def vmm_inv_def)
  have ps: "pages s' = set_entry (?m(of_nat a := (\<lambda>_. 0))) tbl i ?e" and "root s' = ?r" "pm s' = q"
    by (simp_all add: s')
  have inv': "vmm_inv s'"
    unfolding vmm_inv_def ps \<open>root s' = ?r\<close> \<open>pm s' = q\<close> tables_new_table [OF h] fr(6,7)
    using inv fr tree_new_table [OF h] by (auto simp: vmm_inv_def)
  have lf: "leaf (pages s') ?r q' j = leaf ?m ?r q' j" if q': "path_ok q'" "length q' = 3" for q' j
  proof (cases "q' = p @ [i]")
    case True
    have "lookup ?m ?r q' = Absent" using True lp ab by (simp add: lookup_snoc)
    moreover have "tbl \<noteq> of_nat a" using nt lp p(1) by (auto simp: tables_def)
    then have "pages s' (of_nat a) j = 0" by (simp add: ps set_entry_def)
    moreover have "lookup (pages s') ?r q' = Table (of_nat a)"
      using True lookup_new_table [OF h q'(1)] by (simp add: ps)
    ultimately show ?thesis by (simp add: leaf_def)
  next
    case False
    have "lookup ?m ?r q' \<noteq> Table tbl"
      using treeD [OF _ q'(1) p(1) _ lp] inv q'(2) p(2) by (auto simp: vmm_inv_def)
    moreover have "lookup ?m ?r q' \<noteq> Table (of_nat a)" using nt q'(1) by (auto simp: tables_def)
    moreover have "lookup (pages s') ?r q' = lookup ?m ?r q'"
      using lookup_new_table [OF h q'(1)] False by (simp add: ps)
    ultimately show ?thesis
      unfolding leaf_def by (auto simp: ps set_entry_def split: target.splits)
  qed
  have lk: "lookup (pages s') ?r q' = (if q' = p @ [i] then Table (of_nat a) else lookup ?m ?r q')"
    if "path_ok q'" for q'
    using lookup_new_table [OF h that] by (simp add: ps)
  have "lookup ?m ?r (p @ [i]) = Absent" using lp ab by (simp add: lookup_snoc)
  moreover have "\<forall>x\<in>tables (pages s') ?r. x \<in> tables ?m ?r \<or> unat x \<in> frames_of (free_set (pm s))"
    using fr(2,3) unfolding ps tables_new_table [OF h] by auto
  ultimately have "walk_keeps s s'" unfolding walk_keeps_def using lk lf fr(7,8) by (simp add: s')
  moreover have "path_ok (p @ [i])" using p by (simp add: path_ok_def)
  ultimately show ?thesis using inv' lk by simp
qed

lemma walk_step_user:
  assumes inv: "vmm_inv s" and p: "path_ok p" "length p < 3" "i < 512"
    and lp: "lookup (pages s) (root s) p = Table tbl"
    and s': "s' = s\<lparr>pages := set_entry (pages s) tbl i (pages s tbl i OR PAGE_USER)\<rparr>"
  shows "vmm_inv s' \<and> walk_keeps s s'"
proof -
  let ?m = "pages s" and ?r = "root s" and ?e = "pages s tbl i OR PAGE_USER"
  have tr: "tree ?m ?r" using inv by (simp add: vmm_inv_def)
  note same = entry_target_user [of "?m tbl i"]
  have lk: "lookup (pages s') ?r q = lookup ?m ?r q" if "path_ok q" for q
    using lookup_set_entry [OF tr p(1) lp disjI2 [OF same] that] by (simp add: s')
  have "vmm_inv s'"
    using inv lookup_set_entry_tree [OF tr p(1) lp same] by (simp add: vmm_inv_def s')
  moreover have "leaf (pages s') ?r q j = leaf ?m ?r q j" if q: "path_ok q" "length q = 3" for q j
  proof -
    have "lookup ?m ?r q \<noteq> Table tbl" using treeD [OF tr q(1) p(1) _ lp] q(2) p(2) by auto
    then show ?thesis unfolding leaf_def lk [OF q(1)] by (auto simp: s' set_entry_def split: target.splits)
  qed
  moreover have "tables (pages s') ?r = tables ?m ?r"
    using lookup_set_entry_tree(2) [OF tr p(1) lp same] by (simp add: s')
  ultimately show ?thesis using lk by (simp add: walk_keeps_def) (simp add: s')
qed

lemma pt_indices_nth: "k < 3 \<Longrightarrow> pt_indices v ! k = dirs v ! k"
  by (auto simp: pt_indices_def dirs_def less_Suc_eq numeral_3_eq_3)

text \<open>The creating walk, from any table on the way down.\<close>

lemma walk_create:
  assumes "vmm_inv s" "l \<le> 3" "lookup (pages s) (root s) (take (3 - l) (dirs v)) = Table tbl"
    and "lookup (pages s) (root s) (dirs v) \<noteq> Huge" "extra = 0 \<or> extra = PAGE_USER"
    and "walk_pt beyond l tbl v True extra s = (ret, res, s')"
  shows "vmm_inv s' \<and> walk_keeps s s' \<and> (ret < 0 \<longrightarrow> free_set (pm s') = {})
     \<and> (0 \<le> ret \<longrightarrow> (\<exists>e t. res = Some (e, t) \<and> lookup (pages s') (root s) (dirs v) = Table t))"
  using assms
proof (induction l arbitrary: s tbl)
  case 0
  then show ?case by (auto simp: Let_def split: if_splits)
next
  case (Suc l)
  let ?p = "take (3 - Suc l) (dirs v)" and ?i = "dirs v ! (3 - Suc l)"
  let ?e = "pages s tbl ?i"
  have k: "3 - Suc l < 3" "3 - l = Suc (3 - Suc l)" using Suc.prems(2) by auto
  have snoc: "take (3 - l) (dirs v) = ?p @ [?i]" unfolding k(2) using k(1) by (simp add: take_Suc_conv_app_nth)
  have p: "path_ok ?p" "length ?p < 3" "?i < 512"
    using k dirs_ok(1) [of v] by (auto simp: path_ok_def dest: in_set_takeD)
  have rest: "dirs v = (?p @ [?i]) @ drop (3 - l) (dirs v)" unfolding snoc [symmetric] by simp
  have nh: "entry_target ?e \<noteq> Huge"
    using Suc.prems(3,4) by (subst (asm) (2) rest) (auto simp: lookup_append)
  have i: "pt_indices v ! (3 - Suc l) = ?i" using k by (simp add: pt_indices_nth)
  show ?case
  proof (cases "?e AND PAGE_PRESENT = 0")
    case True
    then have ab: "entry_target ?e = Absent" by (simp add: entry_target_def)
    obtain r q where al: "pmm_alloc_page beyond (pm s) = (r, q)" by fastforce
    show ?thesis
    proof (cases r)
      case None
      have "q = pm s" "free_set (pm s) = {}"
        using pmm_alloc_page_None [of "pm s" beyond q] Suc.prems(1) al None by (auto simp: vmm_inv_def)
      then show ?thesis using Suc.prems(1,6) True al None i by (simp add: Let_def)
    next
      case (Some a)
      have al': "pmm_alloc_page beyond (pm s) = (Some a, q)" using al Some by simp
      define s1 where "s1 = s\<lparr>pm := q, pages := set_entry ((pages s)(of_nat a := (\<lambda>_. 0))) tbl ?i
                 (of_nat a OR PAGE_PRESENT OR PAGE_WRITABLE OR extra)\<rparr>"
      note st = walk_step_new [OF Suc.prems(1) p Suc.prems(3) ab al' Suc.prems(5) s1_def]
      have base: "page_base (of_nat a OR PAGE_PRESENT OR PAGE_WRITABLE OR extra) = of_nat a"
        using entry_target_new [OF alloc_frame(1) [OF Suc.prems(1) al'] Suc.prems(5)]
        by (auto simp: entry_target_def split: if_splits)
      have w: "walk_pt beyond l (of_nat a) v True extra s1 = (ret, res, s')"
        using Suc.prems(6) True al Some i base by (simp add: Let_def s1_def)
      have r: "root s1 = root s" by (simp add: s1_def)
      have nh1: "lookup (pages s1) (root s1) (dirs v) \<noteq> Huge"
        using st Suc.prems(4) unfolding walk_keeps_def r by (metis dirs_ok(1))
      have "vmm_inv s' \<and> walk_keeps s1 s' \<and> (ret < 0 \<longrightarrow> free_set (pm s') = {})
          \<and> (0 \<le> ret \<longrightarrow> (\<exists>e t. res = Some (e, t) \<and> lookup (pages s') (root s1) (dirs v) = Table t))"
        using st snoc Suc.prems(2) by (intro Suc.IH [OF _ _ _ nh1 Suc.prems(5) w]) (auto simp: r)
      with st walk_keeps_trans [of s s1 s'] r show ?thesis by simp
    qed
  next
    case False
    define s1 where "s1 = (if extra \<noteq> 0 then s\<lparr>pages := set_entry (pages s) tbl ?i (?e OR extra)\<rparr> else s)"
    have st: "vmm_inv s1 \<and> walk_keeps s s1"
    proof (cases "extra = 0")
      case True
      with Suc.prems(1) show ?thesis by (simp add: s1_def)
    next
      case nz: False
      then have "extra = PAGE_USER" using Suc.prems(5) by simp
      with nz walk_step_user [OF Suc.prems(1) p Suc.prems(3)] show ?thesis by (simp add: s1_def)
    qed
    have t: "entry_target ?e = Table (page_base ?e)" using False nh by (simp add: entry_target_def split: if_splits)
    have w: "walk_pt beyond l (page_base ?e) v True extra s1 = (ret, res, s')"
      using Suc.prems(6) False i by (cases "extra = 0") (simp_all add: Let_def s1_def)
    have r: "root s1 = root s" by (simp add: s1_def)
    have l0: "lookup (pages s) (root s) (take (3 - l) (dirs v)) = Table (page_base ?e)"
      unfolding snoc using t Suc.prems(3) by (simp add: lookup_snoc)
    have "path_ok (take (3 - l) (dirs v))"
      using dirs_ok(1) [of v] by (auto simp: path_ok_def dest: in_set_takeD)
    with l0 st have l1: "lookup (pages s1) (root s1) (take (3 - l) (dirs v)) = Table (page_base ?e)"
      unfolding walk_keeps_def r by (metis target.distinct(3))
    have nh1: "lookup (pages s1) (root s1) (dirs v) \<noteq> Huge"
      using st Suc.prems(4) unfolding walk_keeps_def r by (metis dirs_ok(1))
    have "vmm_inv s' \<and> walk_keeps s1 s' \<and> (ret < 0 \<longrightarrow> free_set (pm s') = {})
        \<and> (0 \<le> ret \<longrightarrow> (\<exists>e t. res = Some (e, t) \<and> lookup (pages s') (root s1) (dirs v) = Table t))"
      using st Suc.prems(2) l1 by (intro Suc.IH [OF _ _ _ nh1 Suc.prems(5) w]) auto
    with st walk_keeps_trans [of s s1 s'] r show ?thesis by simp
  qed
qed


section \<open>Translations\<close>

text \<open>Addresses below no large-page entry: those the code can walk.\<close>

definition small_pages :: "vmm \<Rightarrow> u64 \<Rightarrow> bool" where
  "small_pages s v \<longleftrightarrow> lookup (pages s) (root s) (dirs v) \<noteq> Huge"

definition phys_of :: "vmm \<Rightarrow> u64 \<Rightarrow> u64" where
  "phys_of s v = (let e = leaf (pages s) (root s) (dirs v) (PT_IDX v) in
     if e AND PAGE_PRESENT = 0 then 0 else page_base e OR (v AND 0xFFF))"

lemma walk_find:
  assumes "l \<le> 3" "lookup (pages s) tbl (drop (3 - l) (dirs v)) \<noteq> Huge"
  shows "walk_pt beyond l tbl v False 0 s =
    (case lookup (pages s) tbl (drop (3 - l) (dirs v)) of
       Table t \<Rightarrow> (if pages s t (PT_IDX v) AND PAGE_PRESENT \<noteq> 0 then 1 else 0,
                   Some (pages s t (PT_IDX v), t), s)
     | _ \<Rightarrow> (0, None, s))"
  using assms
proof (induction l arbitrary: tbl)
  case 0
  have "pt_indices v ! 3 = PT_IDX v" by (simp add: pt_indices_def)
  then show ?case by (simp add: Let_def)
next
  case (Suc l)
  let ?i = "dirs v ! (3 - Suc l)"
  have k: "3 - Suc l < 3" "3 - l = Suc (3 - Suc l)" using Suc.prems(1) by auto
  have i: "pt_indices v ! (3 - Suc l) = ?i" using k by (simp add: pt_indices_nth)
  have "drop (3 - Suc l) (dirs v) = ?i # drop (3 - l) (dirs v)"
    unfolding k(2) by (rule Cons_nth_drop_Suc [symmetric]) (simp add: k)
  then have d: "drop (2 - l) (dirs v) = dirs v ! (2 - l) # drop (3 - l) (dirs v)" by simp
  show ?case
    using Suc.prems Suc.IH [of "page_base (pages s tbl ?i)"] i
    by (auto simp: d Let_def entry_target_def simp del: One_nat_def split: if_splits)
qed

lemma get_phys_eq: "small_pages s v \<Longrightarrow> vmm_get_phys_addr beyond v s = phys_of s v"
  using walk_find [of 3 s "root s" v beyond]
  by (auto simp: vmm_get_phys_addr_def small_pages_def phys_of_def leaf_def Let_def PAGE_PRESENT_def
      split: target.splits)

text \<open>Writing a leaf entry.\<close>

lemma set_leaf_entry:
  assumes inv: "vmm_inv s" and l: "lookup (pages s) (root s) (dirs v) = Table t"
    and s': "s' = s\<lparr>pages := set_entry (pages s) t (PT_IDX v) e\<rparr>"
  shows "vmm_inv s'" "small_pages s' w = small_pages s w" "free_set (pm s') = free_set (pm s)"
    and "tables (pages s') (root s') = tables (pages s) (root s)"
    and "leaf (pages s') (root s') (dirs w) j =
      (if dirs w = dirs v \<and> j = PT_IDX v then e else leaf (pages s) (root s) (dirs w) j)"
proof -
  have tr: "tree (pages s) (root s)" using inv by (simp add: vmm_inv_def)
  note tl = tree_set_leaf [OF tr dirs_ok(1) l dirs_ok(2)]
  show "vmm_inv s'" using inv tl by (simp add: vmm_inv_def s')
  have lk: "lookup (pages s') (root s') (dirs w) = lookup (pages s) (root s) (dirs w)" for w
    using lookup_set_leaf [OF tr dirs_ok(1) l dirs_ok(2) dirs_ok(1)] by (simp add: s')
  then show "small_pages s' w = small_pages s w" by (simp add: small_pages_def)
  show "free_set (pm s') = free_set (pm s)" by (simp add: s')
  show "tables (pages s') (root s') = tables (pages s) (root s)" using tl(2) by (simp add: s')
  show "leaf (pages s') (root s') (dirs w) j =
      (if dirs w = dirs v \<and> j = PT_IDX v then e else leaf (pages s) (root s) (dirs w) j)"
  proof (cases "dirs w = dirs v")
    case True
    with lk [of w] l show ?thesis by (simp add: leaf_def) (simp add: s' set_entry_def)
  next
    case False
    then have "lookup (pages s) (root s) (dirs w) \<noteq> Table t"
      using treeD [OF tr dirs_ok(1) dirs_ok(1) _ l] by auto
    with False lk [of w] show ?thesis
      unfolding leaf_def by (auto simp: s' set_entry_def split: target.splits)
  qed
qed

lemma pt_indices_eq: "pt_indices w = pt_indices v \<longleftrightarrow> dirs w = dirs v \<and> PT_IDX w = PT_IDX v"
  by (auto simp: pt_indices_def dirs_def)

text \<open>What mapping does, over \<open>phys_of\<close>.\<close>

lemma map_page:
  assumes inv: "vmm_inv s" and sp: "small_pages s v"
    and fl: "flags AND PAGE_PRESENT \<noteq> 0" "flags AND NOT 0xFFF = 0"
    and m: "vmm_map_page beyond v phys flags s = (r, s')"
  shows "vmm_inv s'" "small_pages s w \<Longrightarrow> small_pages s' w" "free_set (pm s') \<subseteq> free_set (pm s)"
    and "total_pages (pm s') = total_pages (pm s)"
    and "kernel_heap_cur s' = kernel_heap_cur s" "user_mmap_cur s' = user_mmap_cur s"
    and "\<forall>t\<in>tables (pages s') (root s').
      t \<in> tables (pages s) (root s) \<or> unat t \<in> frames_of (free_set (pm s))"
    and "(free_set (pm s') = {} \<and> r = 0 \<and> (\<forall>w. phys_of s' w = phys_of s w))
       \<or> (r = v \<and> phys_of s' v = page_base phys OR (v AND 0xFFF)
          \<and> (\<forall>w. pt_indices w \<noteq> pt_indices v \<longrightarrow> phys_of s' w = phys_of s w))"
proof -
  obtain ret res s1 where w: "walk_pt beyond 3 (root s) v True (flags AND PAGE_USER) s = (ret, res, s1)"
    by (cases "walk_pt beyond 3 (root s) v True (flags AND PAGE_USER) s")
  have c: "vmm_inv s1 \<and> walk_keeps s s1 \<and> (ret < 0 \<longrightarrow> free_set (pm s1) = {})
      \<and> (0 \<le> ret \<longrightarrow> (\<exists>e t. res = Some (e, t) \<and> lookup (pages s1) (root s) (dirs v) = Table t))"
    using sp by (intro walk_create [OF inv _ _ _ user_flag_cases w]) (simp_all add: small_pages_def)
  have r1: "root s1 = root s" using c by (simp add: walk_keeps_def)
  have ph: "phys_of s1 w = phys_of s w" for w
    using c dirs_ok [of w] by (simp add: phys_of_def r1 walk_keeps_def)
  have sp1: "small_pages s w \<Longrightarrow> small_pages s1 w" for w
    using c dirs_ok(1) [of w] unfolding small_pages_def r1 walk_keeps_def by blast
  have "vmm_inv s' \<and> (\<forall>w. small_pages s w \<longrightarrow> small_pages s' w)
      \<and> free_set (pm s') \<subseteq> free_set (pm s) \<and> total_pages (pm s') = total_pages (pm s)
      \<and> kernel_heap_cur s' = kernel_heap_cur s \<and> user_mmap_cur s' = user_mmap_cur s
      \<and> (\<forall>t\<in>tables (pages s') (root s').
           t \<in> tables (pages s) (root s) \<or> unat t \<in> frames_of (free_set (pm s)))
      \<and> ((free_set (pm s') = {} \<and> r = 0 \<and> (\<forall>w. phys_of s' w = phys_of s w))
       \<or> (r = v \<and> phys_of s' v = page_base phys OR (v AND 0xFFF)
          \<and> (\<forall>w. pt_indices w \<noteq> pt_indices v \<longrightarrow> phys_of s' w = phys_of s w)))"
  proof (cases "ret < 0")
    case True
    then have "s' = s1" "r = 0" using m w by (simp_all add: vmm_map_page_def)
    with c True ph sp1 show ?thesis
      by (simp add: walk_keeps_def)
  next
    case False
    then obtain e t where t: "res = Some (e, t)" "lookup (pages s1) (root s1) (dirs v) = Table t"
      using c r1 by auto
    let ?e = "page_base phys OR flags"
    have s': "s' = s1\<lparr>pages := set_entry (pages s1) t (PT_IDX v) ?e\<rparr>" "r = v"
      using m w t(1) False by (auto simp: vmm_map_page_def)
    have i1: "vmm_inv s1" using c by simp
    note sl = set_leaf_entry [OF i1 t(2) s'(1)]
    have "page_base phys AND PAGE_PRESENT = 0"
      by (rule base_and_low) (simp_all add: PAGE_PRESENT_def)
    then have "?e AND PAGE_PRESENT \<noteq> 0" using fl(1) by (simp add: word_ao_dist)
    moreover have "page_base ?e = page_base phys"
      by (simp only: page_base_or page_base_idem page_base_small [OF fl(2)] or.right_neutral)
    ultimately have "phys_of s' v = page_base phys OR (v AND 0xFFF)"
      using sl(5) [of v "PT_IDX v"] by (simp add: phys_of_def Let_def)
    moreover have "phys_of s' w = phys_of s w" if "pt_indices w \<noteq> pt_indices v" for w
      using sl(5) [of w "PT_IDX w"] that ph [of w] by (auto simp: phys_of_def pt_indices_eq)
    ultimately show ?thesis
      using sl(1,2,3,4) sp1 c s' by (simp add: walk_keeps_def)
  qed
  then show "vmm_inv s'" "small_pages s w \<Longrightarrow> small_pages s' w" "free_set (pm s') \<subseteq> free_set (pm s)"
    "total_pages (pm s') = total_pages (pm s)"
    "kernel_heap_cur s' = kernel_heap_cur s" "user_mmap_cur s' = user_mmap_cur s"
    "\<forall>t\<in>tables (pages s') (root s').
      t \<in> tables (pages s) (root s) \<or> unat t \<in> frames_of (free_set (pm s))"
    "(free_set (pm s') = {} \<and> r = 0 \<and> (\<forall>w. phys_of s' w = phys_of s w))
       \<or> (r = v \<and> phys_of s' v = page_base phys OR (v AND 0xFFF)
          \<and> (\<forall>w. pt_indices w \<noteq> pt_indices v \<longrightarrow> phys_of s' w = phys_of s w))"
    by blast+
qed

lemma unmap_page:
  assumes inv: "vmm_inv s" and sp: "small_pages s v" and s': "s' = vmm_unmap_page beyond v s"
  shows "vmm_inv s'" "small_pages s' w = small_pages s w" "pm s' = pm s" "phys_of s' v = 0"
    and "pt_indices w \<noteq> pt_indices v \<Longrightarrow> phys_of s' w = phys_of s w"
proof -
  have w: "walk_pt beyond 3 (root s) v False 0 s =
    (case lookup (pages s) (root s) (dirs v) of
       Table t \<Rightarrow> (if pages s t (PT_IDX v) AND PAGE_PRESENT \<noteq> 0 then 1 else 0,
                   Some (pages s t (PT_IDX v), t), s)
     | _ \<Rightarrow> (0, None, s))"
    using walk_find [of 3 s "root s" v beyond] sp by (simp add: small_pages_def)
  have "vmm_inv s' \<and> (\<forall>w. small_pages s' w = small_pages s w) \<and> pm s' = pm s \<and> phys_of s' v = 0
    \<and> (\<forall>w. pt_indices w \<noteq> pt_indices v \<longrightarrow> phys_of s' w = phys_of s w)"
  proof (cases "\<exists>t. lookup (pages s) (root s) (dirs v) = Table t \<and> pages s t (PT_IDX v) AND PAGE_PRESENT \<noteq> 0")
    case False
    then have e: "s' = s" using w by (auto simp: s' vmm_unmap_page_def split: target.splits)
    moreover have "phys_of s v = 0" using False
      by (auto simp: phys_of_def leaf_def split: target.splits)
    ultimately show ?thesis using inv by simp
  next
    case True
    then obtain t where t: "lookup (pages s) (root s) (dirs v) = Table t"
      "pages s t (PT_IDX v) AND PAGE_PRESENT \<noteq> 0" by auto
    have e: "s' = s\<lparr>pages := set_entry (pages s) t (PT_IDX v) 0\<rparr>"
      using w t by (simp add: s' vmm_unmap_page_def)
    note sl = set_leaf_entry [OF inv t(1) e]
    have "phys_of s' v = 0" using sl(5) [of v "PT_IDX v"] by (simp add: phys_of_def)
    moreover have "phys_of s' w = phys_of s w" if "pt_indices w \<noteq> pt_indices v" for w
      using sl(5) [of w "PT_IDX w"] that by (auto simp: phys_of_def pt_indices_eq)
    ultimately show ?thesis using sl(1,2) e by simp
  qed
  then show "vmm_inv s'" "small_pages s' w = small_pages s w" "pm s' = pm s" "phys_of s' v = 0"
    "pt_indices w \<noteq> pt_indices v \<Longrightarrow> phys_of s' w = phys_of s w" by blast+
qed


section \<open>Ranges\<close>

lemma unmap_range_pm:
  assumes "vmm_inv s" "\<forall>k<n. small_pages s (start + of_nat k * of_nat PAGE_SIZE)"
  shows "vmm_inv (unmap_range beyond start n s) \<and> pm (unmap_range beyond start n s) = pm s
    \<and> (\<forall>w. small_pages (unmap_range beyond start n s) w = small_pages s w)"
  using assms(2)
proof (induction n)
  case 0
  with assms(1) show ?case by simp
next
  case (Suc n)
  let ?u = "unmap_range beyond start n s" and ?v = "start + of_nat n * of_nat PAGE_SIZE"
  have IH: "vmm_inv ?u \<and> pm ?u = pm s \<and> (\<forall>w. small_pages ?u w = small_pages s w)"
    using Suc by simp
  then have sp: "small_pages ?u ?v" using Suc.prems by simp
  show ?case
    using IH unmap_page(1,2,3) [OF _ sp refl, of beyond] by simp
qed

definition vpage :: "u64 \<Rightarrow> nat \<Rightarrow> u64" where
  "vpage start k = start + of_nat k * of_nat PAGE_SIZE"

lemma vpage_Suc: "vpage start 0 = start" "vpage start k + of_nat PAGE_SIZE = vpage start (Suc k)"
  "vpage (start + of_nat PAGE_SIZE) k = vpage start (Suc k)"
  by (simp_all add: vpage_def algebra_simps)

text \<open>The pages of a range are told apart by their table indices.\<close>

lemma index_bits:
  "k < 9 \<Longrightarrow> bit (drop_bit n (v :: u64) AND 0x1FF) k = bit v (n + k)"
proof -
  assume "k < 9"
  moreover have "(0x1FF :: u64) = mask 9" by (simp add: mask_eq_exp_minus_1)
  ultimately show ?thesis by (simp only: bit_and_iff bit_mask_iff bit_drop_bit_eq) (simp add: add.commute)
qed

lemma pt_indices_page_number:
  assumes "pt_indices v = pt_indices w"
  shows "take_bit 36 (drop_bit 12 v) = take_bit 36 (drop_bit 12 w)"
proof (rule bit_eqI)
  have eq: "drop_bit n v AND 0x1FF = drop_bit n w AND 0x1FF" if "n \<in> {39, 30, 21, 12}" for n
    using assms that by (auto simp: pt_indices_def PML4_IDX_def PDPT_IDX_def PD_IDX_def PT_IDX_def word_unat_eq_iff)
  have b: "bit v (n + k) = bit w (n + k)" if "n \<in> {39, 30, 21, 12}" "k < 9" for n k
    using eq [OF that(1)] index_bits [OF that(2), of n v] index_bits [OF that(2), of n w] by simp
  fix k
  have "bit v (12 + k) = bit w (12 + k)" if "k < 36"
  proof -
    consider "k < 9" | "9 \<le> k" "k < 18" | "18 \<le> k" "k < 27" | "27 \<le> k" "k < 36"
      using \<open>k < 36\<close> by linarith
    then show ?thesis
    proof cases
      case 1 with b [of 12 k] show ?thesis by simp
    next
      case 2 with b [of 21 "k - 9"] show ?thesis by simp
    next
      case 3 with b [of 30 "k - 18"] show ?thesis by simp
    next
      case 4 with b [of 39 "k - 27"] show ?thesis by simp
    qed
  qed
  then show "bit (take_bit 36 (drop_bit 12 v)) k = bit (take_bit 36 (drop_bit 12 w)) k"
    by (auto simp: bit_take_bit_iff bit_drop_bit_eq add.commute)
qed

lemma vpage_number:
  "unat (take_bit 36 (drop_bit 12 (vpage start k))) = (unat start div 4096 + k) mod 2 ^ 36"
proof -
  have "unat (vpage start k) = (unat start + k * 4096) mod 2 ^ 64"
    by (simp add: vpage_def PAGE_SIZE_def unat_word_ariths unat_of_nat mod_simps take_bit_eq_mod)
  then have "unat (drop_bit 12 (vpage start k)) = (unat start + k * 4096) mod 2 ^ 64 div 4096"
    by (subst unat_drop_bit_eq) (simp add: drop_bit_eq_div)
  also have "\<dots> = (unat start + k * 4096) div 4096 mod 2 ^ 52"
    using mod_mult2_eq [of "unat start + k * 4096" 4096 "2 ^ 52"] by simp
  finally show ?thesis
    by (subst unsigned_take_bit_eq) (simp add: take_bit_eq_mod mod_mod_cancel add.commute)
qed

lemma add_mod_cancel:
  assumes "j < M" "k < M" "(a + j) mod M = (a + k) mod M"
  shows "j = (k :: nat)"
  using assms
proof (induction j k rule: linorder_wlog)
  case (le j k)
  then have "M dvd k - j" using mod_eq_dvd_iff_nat [of "a + j" "a + k" M] by simp
  moreover have "k - j < M" using le by simp
  ultimately have "k - j = 0" using nat_dvd_not_less by blast
  with le show ?case by simp
qed simp

lemma vpage_distinct:
  assumes "j < 2 ^ 36" "k < 2 ^ 36" "pt_indices (vpage start j) = pt_indices (vpage start k)"
  shows "j = k"
proof -
  have "(unat start div 4096 + j) mod 2 ^ 36 = (unat start div 4096 + k) mod 2 ^ 36"
    using pt_indices_page_number [OF assms(3)] vpage_number [of start] by metis
  with assms(1,2) show ?thesis
    by (intro add_mod_cancel [of j "2 ^ 36" k "unat start div 4096"]) simp_all
qed


definition flags_ok :: "u64 \<Rightarrow> bool" where
  "flags_ok flags \<longleftrightarrow> flags AND PAGE_PRESENT \<noteq> 0 \<and> flags AND NOT 0xFFF = 0"

text \<open>
  The state of a range under construction: the pages done are mapped to distinct frames
  taken from the free set, and nothing else is touched.
\<close>

definition mapped_range :: "u64 \<Rightarrow> nat \<Rightarrow> nat list \<Rightarrow> vmm \<Rightarrow> vmm \<Rightarrow> bool" where
  "mapped_range start n fs s s' \<longleftrightarrow> vmm_inv s' \<and> length fs = n \<and> distinct fs
     \<and> set fs \<subseteq> frames_of (free_set (pm s)) \<and> set fs \<inter> frames_of (free_set (pm s')) = {}
     \<and> free_set (pm s') \<subseteq> free_set (pm s)
     \<and> (\<forall>w. small_pages s w \<longrightarrow> small_pages s' w)
     \<and> (\<forall>k<n. phys_of s' (vpage start k) = of_nat (fs ! k) OR (vpage start k AND 0xFFF))
     \<and> (\<forall>w. (\<forall>k<n. pt_indices w \<noteq> pt_indices (vpage start k)) \<longrightarrow> phys_of s' w = phys_of s w)"

lemma mapped_range_step:
  assumes mr: "mapped_range start i fs s s1" and n: "i < 2 ^ 36" and fl: "flags_ok flags"
    and sp: "small_pages s (vpage start i)" and nz: "vpage start i \<noteq> 0"
    and al: "pmm_alloc_page beyond (pm s1) = (Some a, q)"
    and m: "vmm_map_page beyond (vpage start i) (of_nat a) flags (s1\<lparr>pm := q\<rparr>) = (r, s2)"
  shows "r \<noteq> 0 \<Longrightarrow> mapped_range start (Suc i) (fs @ [a]) s s2"
    and "r = 0 \<Longrightarrow> vmm_inv (s2\<lparr>pm := pmm_free_page a (pm s2)\<rparr>)
      \<and> free_set (pmm_free_page a (pm s2)) = {a div PAGE_SIZE}
      \<and> (\<forall>w. small_pages s w \<longrightarrow> small_pages s2 w)"
proof -
  let ?t = "s1\<lparr>pm := q\<rparr>" and ?v = "vpage start i"
  have i1: "vmm_inv s1" using mr by (simp add: mapped_range_def)
  note fr = alloc_frame [OF i1 al]
  have it: "vmm_inv ?t" using i1 fr by (auto simp: vmm_inv_def)
  have spt: "small_pages ?t w = small_pages s1 w" for w by (simp add: small_pages_def)
  have pht: "phys_of ?t w = phys_of s1 w" for w by (simp add: phys_of_def)
  have "small_pages ?t ?v" using mr sp spt by (simp add: mapped_range_def)
  note mp = map_page [OF it this _ _ m]
  have f: "flags AND PAGE_PRESENT \<noteq> 0" "flags AND NOT 0xFFF = 0" using fl by (simp_all add: flags_ok_def)
  note mp = mp [OF f]
  have anot: "a \<notin> set fs" using mr fr(3) by (auto simp: mapped_range_def)
  have sub: "free_set (pm s2) \<subseteq> free_set q" using mp(3) by simp
  have a2: "a \<notin> frames_of (free_set (pm s2))"
    using frames_of_simps(5) [OF sub] fr(6) by auto
  { assume "r \<noteq> 0"
    then have ph: "phys_of s2 ?v = of_nat a OR (?v AND 0xFFF)"
      "\<And>w. pt_indices w \<noteq> pt_indices ?v \<Longrightarrow> phys_of s2 w = phys_of s1 w"
      using mp(8) fr(1) pht by simp_all
    have "phys_of s2 (vpage start k) = of_nat ((fs @ [a]) ! k) OR (vpage start k AND 0xFFF)"
      if "k < Suc i" for k
    proof (cases "k = i")
      case True
      with ph(1) mr show ?thesis by (simp add: mapped_range_def nth_append)
    next
      case False
      then have "k < i" using that by simp
      moreover have "pt_indices (vpage start k) \<noteq> pt_indices ?v"
        using vpage_distinct [of k i start] \<open>k < i\<close> n by auto
      ultimately show ?thesis using ph(2) mr by (simp add: mapped_range_def nth_append)
    qed
    moreover have "phys_of s2 w = phys_of s w"
      if "\<forall>k<Suc i. pt_indices w \<noteq> pt_indices (vpage start k)" for w
      using ph(2) [of w] mr that by (simp add: mapped_range_def)
    moreover have "set (fs @ [a]) \<inter> frames_of (free_set (pm s2)) = {}"
      using mr a2 frames_of_simps(5) [OF sub] frames_of_simps(5) [OF fr(8)]
      by (auto simp: mapped_range_def)
    moreover have "a \<in> frames_of (free_set (pm s))"
      using fr(3) mr frames_of_simps(5) [of "free_set (pm s1)" "free_set (pm s)"]
      by (auto simp: mapped_range_def)
    moreover have "free_set (pm s2) \<subseteq> free_set (pm s)"
      using sub fr(8) mr by (auto simp: mapped_range_def)
    ultimately show "mapped_range start (Suc i) (fs @ [a]) s s2"
      using mr anot mp(1,2) spt by (simp add: mapped_range_def) }
  { assume "r = 0"
    then have e: "free_set (pm s2) = {}" using mp(8) nz by auto
    have am: "a \<in> managed_frames (pm s2)" using fr(5) mp(4) by (simp add: managed_frames_def)
    have pi: "pmm_inv (pm s2)" using mp(1) by (simp add: vmm_inv_def)
    have ad: "a div PAGE_SIZE * PAGE_SIZE = a" "0 < a div PAGE_SIZE" "a div PAGE_SIZE < total_pages (pm s2)"
      using am by (auto simp: managed_frames_def frames_of_def PAGE_SIZE_def)
    have fs: "free_set (pmm_free_page a (pm s2)) = {a div PAGE_SIZE}"
      "pmm_inv (pmm_free_page a (pm s2))" "total_pages (pmm_free_page a (pm s2)) = total_pages (pm s2)"
      using pmm_free_page_free_set [OF pi, of a] ad e by simp_all
    have "unat t \<noteq> a" if "t \<in> tables (pages s2) (root s2)" for t
    proof
      assume "unat t = a"
      have "t \<in> tables (pages s1) (root s1) \<or> a \<in> frames_of (free_set q)"
        using mp(7) that \<open>unat t = a\<close> by auto
      with fr(3,6) i1 \<open>unat t = a\<close> show False by (auto simp: vmm_inv_def)
    qed
    then have "vmm_inv (s2\<lparr>pm := pmm_free_page a (pm s2)\<rparr>)"
      using mp(1) fs ad(1) by (auto simp: vmm_inv_def frames_of_def)
    then show "vmm_inv (s2\<lparr>pm := pmm_free_page a (pm s2)\<rparr>)
      \<and> free_set (pmm_free_page a (pm s2)) = {a div PAGE_SIZE}
      \<and> (\<forall>w. small_pages s w \<longrightarrow> small_pages s2 w)"
      using fs mr mp(2) spt by (simp add: mapped_range_def) }
qed


text \<open>The loop, started after \<open>i\<close> pages.\<close>

lemma alloc_pages_loop_range:
  assumes "mapped_range start i fs s s1" "i + n \<le> 2 ^ 36" "flags_ok flags"
    and "\<forall>k < i + n. small_pages s (vpage start k) \<and> vpage start k \<noteq> 0"
    and "alloc_pages_loop beyond flags start n i (vpage start i) s1 = (r, s')"
  shows "case r of
      Some virt \<Rightarrow> virt = vpage start (i + n) \<and> (\<exists>fs'. mapped_range start (i + n) fs' s s')
    | None \<Rightarrow> vmm_inv s' \<and> card (free_set (pm s')) \<le> 1 \<and> (\<forall>w. small_pages s w \<longrightarrow> small_pages s' w)"
  using assms
proof (induction n arbitrary: i fs s1)
  case 0
  then show ?case by auto
next
  case (Suc n)
  obtain f q where al: "pmm_alloc_page beyond (pm s1) = (f, q)" by fastforce
  have i1: "vmm_inv s1" "\<forall>w. small_pages s w \<longrightarrow> small_pages s1 w"
    using Suc.prems(1) by (simp_all add: mapped_range_def)
  have sp: "\<forall>k<i. small_pages s (start + of_nat k * of_nat PAGE_SIZE)"
    using Suc.prems(4) by (simp add: vpage_def)
  show ?case
  proof (cases f)
    case None
    then have q: "q = pm s1" "free_set (pm s1) = {}"
      using pmm_alloc_page_None [of "pm s1" beyond q] i1 al by (simp_all add: vmm_inv_def)
    then have "r = None" "s' = unmap_range beyond start i s1"
      using Suc.prems(5) al None by simp_all
    with unmap_range_pm [OF i1(1), of i start] sp i1(2) q show ?thesis by simp
  next
    case (Some a)
    have al': "pmm_alloc_page beyond (pm s1) = (Some a, q)" using al Some by simp
    obtain r2 s2 where m: "vmm_map_page beyond (vpage start i) (of_nat a) flags (s1\<lparr>pm := q\<rparr>) = (r2, s2)"
      by fastforce
    have h: "i < 2 ^ 36" "small_pages s (vpage start i)" "vpage start i \<noteq> 0"
      using Suc.prems(2,4) by auto
    note st = mapped_range_step [OF Suc.prems(1) h(1) Suc.prems(3) h(2,3) al' m]
    show ?thesis
    proof (cases "r2 = 0")
      case True
      let ?u = "s2\<lparr>pm := pmm_free_page a (pm s2)\<rparr>"
      have "r = None" "s' = unmap_range beyond start i ?u"
        using Suc.prems(5) al Some m True by simp_all
      moreover have "vmm_inv ?u" "free_set (pm ?u) = {a div PAGE_SIZE}"
        "\<forall>w. small_pages s w \<longrightarrow> small_pages ?u w"
        using st(2) [OF True] by (simp_all add: small_pages_def)
      ultimately show ?thesis
        using unmap_range_pm [of ?u i start beyond] sp by simp
    next
      case False
      have "alloc_pages_loop beyond flags start n (Suc i) (vpage start (Suc i)) s2 = (r, s')"
        using Suc.prems(5) al Some m False by (simp add: vpage_Suc)
      from Suc.IH [OF st(1) [OF False] _ Suc.prems(3) _ this] Suc.prems(2,4) show ?thesis
        by (cases r) simp_all
    qed
  qed
qed

lemma mapped_range_start: "vmm_inv s \<Longrightarrow> mapped_range start 0 [] s s"
  by (simp add: mapped_range_def)

lemma alloc_pages_loop_result:
  assumes "vmm_inv s" "n \<le> 2 ^ 36" "flags_ok flags"
    and "\<forall>k < n. small_pages s (vpage start k) \<and> vpage start k \<noteq> 0"
    and "alloc_pages_loop beyond flags start n 0 start s = (r, s')"
  shows "case r of
      Some virt \<Rightarrow> virt = vpage start n \<and> (\<exists>fs'. mapped_range start n fs' s s')
    | None \<Rightarrow> vmm_inv s' \<and> card (free_set (pm s')) \<le> 1 \<and> (\<forall>w. small_pages s w \<longrightarrow> small_pages s' w)"
  using alloc_pages_loop_range [OF mapped_range_start [OF assms(1)], of n flags start beyond r s'] assms
  by (cases r) (simp_all add: vpage_Suc)

lemma flags_ok_ranges: "flags_ok (PAGE_PRESENT OR PAGE_WRITABLE)"
    "flags_ok (PAGE_PRESENT OR PAGE_WRITABLE OR PAGE_USER)"
  by (simp_all add: flags_ok_def PAGE_PRESENT_def PAGE_WRITABLE_def PAGE_USER_def)

lemma low_bits_vpage: "start AND 0xFFF = 0 \<Longrightarrow> vpage start k AND 0xFFF = 0"
proof -
  have m: "(0xFFF :: u64) = mask 12" by (simp add: mask_eq_exp_minus_1)
  assume "start AND 0xFFF = 0"
  then have "unat (take_bit 12 start) = 0" by (simp only: m take_bit_eq_mask unsigned_0)
  then have "unat start mod 4096 = 0"
    by (subst (asm) unsigned_take_bit_eq) (simp add: take_bit_eq_mod)
  moreover have "unat (vpage start k) = (unat start + k * 4096) mod 2 ^ 64"
    by (simp add: vpage_def PAGE_SIZE_def unat_word_ariths unat_of_nat mod_simps take_bit_eq_mod)
  then have "unat (vpage start k) mod 4096 = (unat start + k * 4096) mod 4096"
    by (simp add: mod_mod_cancel)
  ultimately have "unat (vpage start k) mod 4096 = 0" by (simp add: mod_add_eq)
  then have "unat (take_bit 12 (vpage start k)) = 0"
    by (subst unsigned_take_bit_eq) (simp add: take_bit_eq_mod)
  then show ?thesis by (simp only: m take_bit_eq_mask unat_eq_zero)
qed

text \<open>The cursors move only when a range is complete.\<close>

lemma walk_pt_cur [frame, simp]:
  "kernel_heap_cur (snd (snd (walk_pt beyond l tbl v create extra s))) = kernel_heap_cur s"
  by (induction l arbitrary: tbl s) (auto simp: Let_def split: option.splits prod.splits)

lemma vmm_map_page_cur [frame, simp]:
  "kernel_heap_cur (snd (vmm_map_page beyond v phys flags s)) = kernel_heap_cur s"
  using walk_pt_cur [of beyond 3 "root s" v True "flags AND PAGE_USER" s]
  by (auto simp: vmm_map_page_def Let_def simp del: walk_pt_cur split: prod.splits)

lemma unmap_range_cur [frame, simp]: "kernel_heap_cur (unmap_range beyond start n s) = kernel_heap_cur s"
proof (induction n)
  case (Suc n)
  have "kernel_heap_cur (vmm_unmap_page beyond v t) = kernel_heap_cur t" for v t
    using walk_pt_cur [of beyond 3 "root t" v False 0 t]
    by (auto simp: vmm_unmap_page_def Let_def simp del: walk_pt_cur split: prod.splits)
  with Suc show ?case by simp
qed simp

lemma alloc_pages_loop_cur:
  "alloc_pages_loop beyond flags start n i v s = (r, s') \<Longrightarrow> kernel_heap_cur s' = kernel_heap_cur s"
proof (induction n arbitrary: i v s)
  case (Suc n)
  obtain f q where al: "pmm_alloc_page beyond (pm s) = (f, q)" by fastforce
  show ?case
  proof (cases f)
    case None
    with Suc.prems al show ?thesis by auto
  next
    case (Some a)
    obtain r2 s2 where m: "vmm_map_page beyond v (of_nat a) flags (s\<lparr>pm := q\<rparr>) = (r2, s2)" by fastforce
    then have "kernel_heap_cur s2 = kernel_heap_cur s"
      using vmm_map_page_cur [of beyond v "of_nat a" flags "s\<lparr>pm := q\<rparr>"] by simp
    with Suc.prems Suc.IH [of "Suc i" "v + of_nat PAGE_SIZE" s2] al Some m show ?thesis
      by (auto split: if_splits)
  qed
qed simp

text \<open>A walk takes at most one frame per level, so four frames a page are enough.\<close>

lemma pmm_alloc_count:
  assumes "pmm_inv p" "0 < free_pages p"
  obtains a q where "pmm_alloc_page beyond p = (Some a, q)" "pmm_inv q" "free_pages p = Suc (free_pages q)"
proof (cases "pmm_alloc_page beyond p")
  case (Pair r q)
  show ?thesis
  proof (cases r)
    case None
    with pmm_alloc_page_None [OF assms(1)] Pair assms show ?thesis by (simp add: pmm_inv_def)
  next
    case (Some a)
    with Pair have al: "pmm_alloc_page beyond p = (Some a, q)" by simp
    from pmm_alloc_page_Some [OF assms(1) al] obtain k where k: "k \<in> free_set p"
      "free_set q = free_set p - {k}" "pmm_inv q" by auto
    with assms(1) card_Suc_Diff1 [of "free_set p" k] have "free_pages p = Suc (free_pages q)"
      by (simp add: pmm_inv_def)
    with al k(3) that show ?thesis by blast
  qed
qed

lemma walk_frames:
  assumes "pmm_inv (pm s)" "l \<le> free_pages (pm s)" "walk_pt beyond l tbl v create extra s = (ret, res, s')"
  shows "pmm_inv (pm s') \<and> free_pages (pm s) \<le> free_pages (pm s') + l \<and> 0 \<le> ret"
  using assms
proof (induction l arbitrary: tbl s)
  case 0
  then show ?case by (auto simp: Let_def split: if_splits)
next
  case (Suc l)
  let ?e = "pages s tbl (pt_indices v ! (3 - Suc l))"
  show ?case
  proof (cases "?e AND PAGE_PRESENT = 0 \<and> create")
    case True
    have "0 < free_pages (pm s)" using Suc.prems(2) by simp
    then obtain a q where al: "pmm_alloc_page beyond (pm s) = (Some a, q)" "pmm_inv q"
      "free_pages (pm s) = Suc (free_pages q)"
      by (rule pmm_alloc_count [OF Suc.prems(1)])
    have "pmm_inv (pm s') \<and> free_pages q \<le> free_pages (pm s') + l \<and> 0 \<le> ret"
      using Suc.prems(2,3) True al
        Suc.IH [of "s\<lparr>pm := q, pages := set_entry ((pages s)(of_nat a := (\<lambda>_. 0))) tbl
            (pt_indices v ! (3 - Suc l)) (of_nat a OR PAGE_PRESENT OR PAGE_WRITABLE OR extra)\<rparr>"
          "page_base (of_nat a OR PAGE_PRESENT OR PAGE_WRITABLE OR extra)"]
      by (simp add: Let_def)
    with al(3) show ?thesis by simp
  next
    case False
    then show ?thesis
      using Suc.prems Suc.IH [of s "page_base ?e"]
        Suc.IH [of "s\<lparr>pages := set_entry (pages s) tbl (pt_indices v ! (3 - Suc l)) (?e OR extra)\<rparr>"
          "page_base ?e"]
      by (cases "extra = 0") (auto simp: Let_def split: if_splits)
  qed
qed

lemma alloc_pages_loop_succeeds:
  assumes "pmm_inv (pm s)" "4 * n \<le> free_pages (pm s)" "\<forall>k<n. vpage v k \<noteq> 0"
  shows "fst (alloc_pages_loop beyond flags start n i v s) \<noteq> None"
  using assms
proof (induction n arbitrary: i v s)
  case (Suc n)
  have "0 < free_pages (pm s)" using Suc.prems(2) by simp
  then obtain a q where al: "pmm_alloc_page beyond (pm s) = (Some a, q)" "pmm_inv q"
    "free_pages (pm s) = Suc (free_pages q)"
    by (rule pmm_alloc_count [OF Suc.prems(1)])
  obtain ret res s1 where w: "walk_pt beyond 3 (root s) v True (flags AND PAGE_USER) (s\<lparr>pm := q\<rparr>)
      = (ret, res, s1)" by (cases "walk_pt beyond 3 (root s) v True (flags AND PAGE_USER) (s\<lparr>pm := q\<rparr>)")
  have c: "pmm_inv (pm s1)" "free_pages q \<le> free_pages (pm s1) + 3" "0 \<le> ret"
    using walk_frames [OF _ _ w] al Suc.prems(2) by auto
  then obtain t where m: "vmm_map_page beyond v (of_nat a) flags (s\<lparr>pm := q\<rparr>) = (v, t)" "pm t = pm s1"
    using w by (simp add: vmm_map_page_def)
  have "v \<noteq> 0" using Suc.prems(3) [rule_format, of 0] by (simp add: vpage_Suc)
  have "\<forall>k<n. vpage (v + of_nat PAGE_SIZE) k \<noteq> 0" using Suc.prems(3) by (auto simp: vpage_Suc(3))
  then have "fst (alloc_pages_loop beyond flags start n (Suc i) (v + of_nat PAGE_SIZE) t) \<noteq> None"
    using c al Suc.prems(2) m(2) by (intro Suc.IH) simp_all
  with al m \<open>v \<noteq> 0\<close> show ?case by simp
qed simp

section \<open>Properties of paging\<close>

text \<open>
  C4. Mapping a page makes the address translate to the given frame and leaves every other
  translation alone. On a tree of tables none of whose pages is free for allocation, and an
  address below no large-page entry: the invariant holds again; on success the address
  translates to the frame with the address's offset, and every address with other table
  indices translates as before; on failure no page is free and every translation is as before.
\<close>

theorem vmm_map_page_correct:
  assumes "vmm_inv s" "small_pages s v" "flags_ok flags" "v \<noteq> 0"
  shows "case vmm_map_page beyond v phys flags s of (r, s') \<Rightarrow>
    vmm_inv s'
    \<and> (if r = 0 then free_set (pm s') = {}
       else r = v \<and> vmm_get_phys_addr beyond v s' = page_base phys OR (v AND 0xFFF))
    \<and> (\<forall>w. small_pages s w \<longrightarrow> pt_indices w \<noteq> pt_indices v \<or> r = 0 \<longrightarrow>
         vmm_get_phys_addr beyond w s' = vmm_get_phys_addr beyond w s)"
proof (cases "vmm_map_page beyond v phys flags s")
  case (Pair r s')
  have f: "flags AND PAGE_PRESENT \<noteq> 0" "flags AND NOT 0xFFF = 0" using assms(3) by (simp_all add: flags_ok_def)
  note mp = map_page [OF assms(1,2) f Pair]
  show ?thesis
    using mp(1,8) mp(2) [of v] assms(2,4) get_phys_eq mp(2) by (auto simp: Pair)
qed

text \<open>
  C5. Unmapping takes the translation of the address away and leaves every other one, and the
  frames, alone.
\<close>

theorem vmm_unmap_page_correct:
  assumes "vmm_inv s" "small_pages s v"
  shows "let s' = vmm_unmap_page beyond v s in
    vmm_inv s' \<and> pm s' = pm s \<and> vmm_get_phys_addr beyond v s' = 0
    \<and> (\<forall>w. small_pages s w \<longrightarrow> pt_indices w \<noteq> pt_indices v \<longrightarrow>
         vmm_get_phys_addr beyond w s' = vmm_get_phys_addr beyond w s)"
proof -
  note um = unmap_page [OF assms refl, where beyond = beyond]
  show ?thesis
    unfolding Let_def
  proof (intro conjI allI impI)
    show "vmm_get_phys_addr beyond v (vmm_unmap_page beyond v s) = 0"
      using um(2,4) assms(2) by (simp add: get_phys_eq)
    fix w assume "small_pages s w" "pt_indices w \<noteq> pt_indices v"
    then show "vmm_get_phys_addr beyond w (vmm_unmap_page beyond v s) = vmm_get_phys_addr beyond w s"
      using um(2,5) by (simp add: get_phys_eq)
  qed (rule um)+
qed

text \<open>
  C6. Allocating a range of kernel pages succeeds whenever four frames a page are free (the
  page and a table at each level). When it succeeds it returns the heap cursor, moves the
  cursor behind the range, and maps the range's pages to pairwise distinct frames that were
  free and no longer are; every other translation is as before.
\<close>

theorem vmm_alloc_pages_correct:
  assumes "vmm_inv s" "n \<le> 2 ^ 36" "start = kernel_heap_cur s" "start AND 0xFFF = 0" "start \<noteq> 0"
    and "\<forall>k < n. small_pages s (vpage start k) \<and> vpage start k \<noteq> 0"
    and "vmm_alloc_pages beyond n s = (r, s')"
  shows "(4 * n \<le> free_pages (pm s) \<longrightarrow> r \<noteq> 0)
    \<and> (r \<noteq> 0 \<longrightarrow> r = start \<and> kernel_heap_cur s' = vpage start n \<and> vmm_inv s'
       \<and> (\<exists>fs. length fs = n \<and> distinct fs \<and> set fs \<subseteq> frames_of (free_set (pm s))
            \<and> set fs \<inter> frames_of (free_set (pm s')) = {}
            \<and> (\<forall>k<n. vmm_get_phys_addr beyond (vpage start k) s' = of_nat (fs ! k)))
       \<and> (\<forall>w. small_pages s w \<longrightarrow> (\<forall>k<n. pt_indices w \<noteq> pt_indices (vpage start k)) \<longrightarrow>
            vmm_get_phys_addr beyond w s' = vmm_get_phys_addr beyond w s))"
proof (intro conjI impI allI)
  obtain o2 t where lp: "alloc_pages_loop beyond (PAGE_PRESENT OR PAGE_WRITABLE) start n 0 start s = (o2, t)"
    by fastforce
  { assume "4 * n \<le> free_pages (pm s)"
    with alloc_pages_loop_succeeds [of s n start beyond] assms(1,6) lp have "o2 \<noteq> None"
      by (metis fst_conv vmm_inv_def)
    with lp assms(3,5,7) show "r \<noteq> 0" by (auto simp: vmm_alloc_pages_def Let_def) }
  assume "r \<noteq> 0"
  with assms(3,7) lp obtain virt where v: "o2 = Some virt" "r = start"
    "s' = t\<lparr>kernel_heap_cur := virt\<rparr>"
    by (auto simp: vmm_alloc_pages_def Let_def split: option.splits)
  from alloc_pages_loop_result [OF assms(1,2) flags_ok_ranges(1) assms(6) lp] v(1)
  obtain fs where virt: "virt = vpage start n" and mr: "mapped_range start n fs s t" by auto
  have eq: "phys_of s' w = phys_of t w" "small_pages s' w = small_pages t w" "vmm_inv s' = vmm_inv t"
    "pm s' = pm t" for w
    by (simp_all add: v(3) phys_of_def small_pages_def vmm_inv_def)
  have get: "vmm_get_phys_addr beyond (vpage start k) s' = of_nat (fs ! k)" if "k < n" for k
    using mr that assms(6) low_bits_vpage [OF assms(4), of k] by (simp add: mapped_range_def get_phys_eq eq)
  show "r = start" "kernel_heap_cur s' = vpage start n" "vmm_inv s'"
    using v virt mr eq(3) by (simp_all add: mapped_range_def)
  show "\<exists>fs. length fs = n \<and> distinct fs \<and> set fs \<subseteq> frames_of (free_set (pm s))
            \<and> set fs \<inter> frames_of (free_set (pm s')) = {}
            \<and> (\<forall>k<n. vmm_get_phys_addr beyond (vpage start k) s' = of_nat (fs ! k))"
    using mr get eq(4) unfolding mapped_range_def by metis
  fix w assume "small_pages s w" "\<forall>k<n. pt_indices w \<noteq> pt_indices (vpage start k)"
  then show "vmm_get_phys_addr beyond w s' = vmm_get_phys_addr beyond w s"
    using mr by (simp add: mapped_range_def get_phys_eq eq)
qed

text \<open>
  A range allocation that fails leaks memory: whatever was free before, afterwards at most
  one frame is. The undo loop unmaps the pages done so far but never gives their frames back.
\<close>

theorem vmm_alloc_pages_failure_leaks:
  assumes "vmm_inv s" "n \<le> 2 ^ 36" "start = kernel_heap_cur s" "start \<noteq> 0"
    and "\<forall>k < n. small_pages s (vpage start k) \<and> vpage start k \<noteq> 0"
    and "vmm_alloc_pages beyond n s = (0, s')"
  shows "pmm_get_free_memory (pm s') \<le> PAGE_SIZE \<and> kernel_heap_cur s' = kernel_heap_cur s \<and> vmm_inv s'"
proof -
  obtain o2 t where lp: "alloc_pages_loop beyond (PAGE_PRESENT OR PAGE_WRITABLE) start n 0 start s = (o2, t)"
    by fastforce
  from assms(3,4,6) lp have o: "o2 = None" "s' = t"
    by (auto simp: vmm_alloc_pages_def Let_def split: option.splits)
  from alloc_pages_loop_result [OF assms(1,2) flags_ok_ranges(1) assms(5) lp] o
  have "vmm_inv s'" "card (free_set (pm s')) \<le> 1" by simp_all
  moreover have "kernel_heap_cur s' = kernel_heap_cur s" using alloc_pages_loop_cur lp o by metis
  ultimately show ?thesis by (simp add: vmm_inv_def pmm_inv_def pmm_get_free_memory_def)
qed


text \<open>An eight-page machine for the witnesses: the root table in page 1, pages 2 to 7 free.\<close>

definition vmm_demo :: vmm where
  "vmm_demo = \<lparr>pm = pmm_boot\<lparr>bitmap := 4096, bits := [3, 0xFF], bitmap_size := 2, total_pages := 8,
       free_pages := 6\<rparr>,
     pages = (\<lambda>_ _. 0), cr3 = 0x1000, kernel_pml4_phys = 0,
     kernel_heap_cur = KERNEL_HEAP_VADDR, user_mmap_cur = USER_MMAP_VADDR\<rparr>"

lemma vmm_demo_inv: "vmm_inv vmm_demo" "small_pages vmm_demo v"
proof -
  have lk: "lookup (\<lambda>_ _. 0) t q = (if q = [] then Table t else Absent)" for t q
    by (cases q) (simp_all add: entry_target_def)
  have b: "test_page_bit [3, 0xFF] p \<longleftrightarrow> p < 2" if "p < 8" for p
  proof -
    have "p \<in> {0,1,2,3,4,5,6,7}" using that by auto
    then show ?thesis by (auto simp: test_page_bit_def)
  qed
  have fs: "free_set (pm vmm_demo) = {2..<8}"
    using b by (auto simp: free_set_def vmm_demo_def pmm_boot_def)
  then have pi: "pmm_inv (pm vmm_demo)"
    using b [of 0] by (simp add: pmm_inv_def) (simp add: vmm_demo_def pmm_boot_def)
  have r: "root vmm_demo = 0x1000" by (simp add: vmm_demo_def page_base_def)
  have tb: "tables (pages vmm_demo) (root vmm_demo) = {0x1000}"
    unfolding r by (auto simp: tables_def vmm_demo_def lk path_ok_def split: if_splits)
  show "vmm_inv vmm_demo"
    unfolding vmm_inv_def tb fs using pi
    by (auto simp: tree_def vmm_demo_def lk frames_of_def pmm_boot_def PAGE_SIZE_def split: if_splits)
  show "small_pages vmm_demo v" by (simp add: small_pages_def) (simp add: vmm_demo_def lk dirs_def)
qed

lemma vmm_demo_start: "kernel_heap_cur vmm_demo AND 0xFFF = 0" "kernel_heap_cur vmm_demo \<noteq> 0"
    "free_pages (pm vmm_demo) = 6" "k < 8 \<Longrightarrow> vpage (kernel_heap_cur vmm_demo) k \<noteq> 0"
proof -
  show "vpage (kernel_heap_cur vmm_demo) k \<noteq> 0" if "k < 8"
  proof -
    have "k \<in> {0,1,2,3,4,5,6,7}" using that by auto
    then show ?thesis by (auto simp: vpage_def vmm_demo_def KERNEL_HEAP_VADDR_def PAGE_SIZE_def)
  qed
qed (simp_all add: vmm_demo_def KERNEL_HEAP_VADDR_def)

theorem vmm_map_page_correct_witness:
  "case vmm_map_page (\<lambda>_. 0) 0x400000 0x7000 3 vmm_demo of (r, s') \<Rightarrow>
    vmm_inv s'
    \<and> (if r = 0 then free_set (pm s') = {}
       else r = 0x400000 \<and> vmm_get_phys_addr (\<lambda>_. 0) 0x400000 s' = page_base 0x7000 OR (0x400000 AND 0xFFF))
    \<and> (\<forall>w. small_pages vmm_demo w \<longrightarrow> pt_indices w \<noteq> pt_indices 0x400000 \<or> r = 0 \<longrightarrow>
         vmm_get_phys_addr (\<lambda>_. 0) w s' = vmm_get_phys_addr (\<lambda>_. 0) w vmm_demo)"
  by (rule vmm_map_page_correct [OF vmm_demo_inv]) (simp_all add: flags_ok_def PAGE_PRESENT_def)

theorem vmm_unmap_page_correct_witness:
  "let s' = vmm_unmap_page (\<lambda>_. 0) 0x400000 vmm_demo in
    vmm_inv s' \<and> pm s' = pm vmm_demo \<and> vmm_get_phys_addr (\<lambda>_. 0) 0x400000 s' = 0
    \<and> (\<forall>w. small_pages vmm_demo w \<longrightarrow> pt_indices w \<noteq> pt_indices 0x400000 \<longrightarrow>
         vmm_get_phys_addr (\<lambda>_. 0) w s' = vmm_get_phys_addr (\<lambda>_. 0) w vmm_demo)"
  by (rule vmm_unmap_page_correct [OF vmm_demo_inv])

theorem vmm_alloc_pages_correct_witness:
  "fst (vmm_alloc_pages (\<lambda>_. 0) 1 vmm_demo) = KERNEL_HEAP_VADDR
   \<and> vmm_inv (snd (vmm_alloc_pages (\<lambda>_. 0) 1 vmm_demo))"
proof -
  have st: "kernel_heap_cur vmm_demo = KERNEL_HEAP_VADDR" by (simp add: vmm_demo_def)
  have r: "vmm_alloc_pages (\<lambda>_. 0) 1 vmm_demo
      = (fst (vmm_alloc_pages (\<lambda>_. 0) 1 vmm_demo), snd (vmm_alloc_pages (\<lambda>_. 0) 1 vmm_demo))" by simp
  have k: "\<forall>k<1. small_pages vmm_demo (vpage (kernel_heap_cur vmm_demo) k)
      \<and> vpage (kernel_heap_cur vmm_demo) k \<noteq> 0"
    using vmm_demo_inv(2) vmm_demo_start(4) by simp
  from vmm_alloc_pages_correct [OF vmm_demo_inv(1) _ refl vmm_demo_start(1,2) k r] vmm_demo_start(3) st
  show ?thesis by simp
qed

theorem vmm_alloc_pages_failure_leaks_witness:
  "pmm_get_free_memory (pm vmm_demo) = 6 * PAGE_SIZE
   \<and> pmm_get_free_memory (pm (snd (vmm_alloc_pages (\<lambda>_. 0) 7 vmm_demo))) \<le> PAGE_SIZE"
proof -
  obtain r s' where r: "vmm_alloc_pages (\<lambda>_. 0) 7 vmm_demo = (r, s')" by fastforce
  have k: "\<forall>k<7. small_pages vmm_demo (vpage (kernel_heap_cur vmm_demo) k)
      \<and> vpage (kernel_heap_cur vmm_demo) k \<noteq> 0"
    using vmm_demo_inv(2) vmm_demo_start(4) by simp
  obtain o2 t where lp: "alloc_pages_loop (\<lambda>_. 0) (PAGE_PRESENT OR PAGE_WRITABLE)
      (kernel_heap_cur vmm_demo) 7 0 (kernel_heap_cur vmm_demo) vmm_demo = (o2, t)" by fastforce
  have "o2 = None"
  proof (rule ccontr)
    assume "o2 \<noteq> None"
    with alloc_pages_loop_result [OF vmm_demo_inv(1) _ flags_ok_ranges(1) k lp]
    obtain fs where "length fs = 7" "distinct fs" "set fs \<subseteq> frames_of (free_set (pm vmm_demo))"
      by (auto simp: mapped_range_def)
    then have "7 \<le> card (frames_of (free_set (pm vmm_demo)))"
      by (metis card_mono distinct_card finite_free_set frames_of_simps(3))
    moreover have "card (free_set (pm vmm_demo)) = 6"
      using vmm_demo_inv(1) vmm_demo_start(3) by (simp add: vmm_inv_def pmm_inv_def)
    ultimately show False by (simp add: frames_of_simps(4))
  qed
  with lp r have "r = 0" by (auto simp: vmm_alloc_pages_def Let_def)
  with r have r0: "vmm_alloc_pages (\<lambda>_. 0) 7 vmm_demo = (0, s')" by simp
  from vmm_alloc_pages_failure_leaks [OF vmm_demo_inv(1) _ refl vmm_demo_start(2) k r0] r
    vmm_demo_start(3)
  show ?thesis by (simp add: pmm_get_free_memory_def)
qed

end
