(* ===== verification/Blocklist.thy ===== *)
theory Blocklist
  imports Prelude
begin

text \<open>
  The free lists of the two heap allocators, \<open>mm/kmalloc.c\<close> and \<open>mm/umalloc.c\<close>: singly
  linked blocks, each a 16-byte header (size, next) followed by its bytes. The two files have
  the same structure and the same loops, which are modelled here once.

  A block is named by its header's address. Addresses and sizes are \<open>nat\<close>s below \<open>2 ^ 64\<close>;
  where the code adds, the wrap-around is written out. A pointer to a link (C's \<open>prev\<close>) is
  \<open>None\<close> for the list head and \<open>Some b\<close> for the \<open>next\<close> field of block \<open>b\<close>. The loops
  follow pointers and need not end on a corrupted list: they are partial functions.
\<close>

definition add64 :: "nat \<Rightarrow> nat \<Rightarrow> nat" where "add64 a b = (a + b) mod 2 ^ 64"

definition sub64 :: "nat \<Rightarrow> nat \<Rightarrow> nat" where "sub64 a b = (a + 2 ^ 64 - b) mod 2 ^ 64"

lemma add64_eq: "a + b < 2 ^ 64 \<Longrightarrow> add64 a b = a + b"
  by (simp add: add64_def)

lemma sub64_eq: "b \<le> a \<Longrightarrow> a < 2 ^ 64 \<Longrightarrow> sub64 a b = a - b"
proof -
  assume "b \<le> a" "a < 2 ^ 64"
  then have "a + 2 ^ 64 - b = (a - b) + 2 ^ 64" "a - b < 2 ^ 64" by simp_all
  then show ?thesis unfolding sub64_def by (simp only: mod_add_self2 mod_less)
qed

definition align8 :: "nat \<Rightarrow> nat" where "align8 n = add64 n 7 div 8 * 8"

definition HEADER :: nat where "HEADER = 16"

record blocks =
  bsize :: "nat \<Rightarrow> nat"
  bnext :: "nat \<Rightarrow> nat"
  free_list :: nat

type_synonym link = "nat option"

definition get_link :: "blocks \<Rightarrow> link \<Rightarrow> nat" where
  "get_link h prev = (case prev of None \<Rightarrow> free_list h | Some b \<Rightarrow> bnext h b)"

definition set_link :: "blocks \<Rightarrow> link \<Rightarrow> nat \<Rightarrow> blocks" where
  "set_link h prev v = (case prev of None \<Rightarrow> h\<lparr>free_list := v\<rparr>
                         | Some b \<Rightarrow> h\<lparr>bnext := (bnext h)(b := v)\<rparr>)"

definition block_end :: "blocks \<Rightarrow> nat \<Rightarrow> nat" where
  "block_end h b = add64 (add64 b HEADER) (bsize h b)"

section \<open>Taking a block\<close>

text \<open>The first-fit search: the link that leads to the block found, and the block or 0.\<close>

partial_function (option) find_fit :: "blocks \<Rightarrow> nat \<Rightarrow> link \<Rightarrow> nat \<Rightarrow> (link \<times> nat) option" where
  "find_fit h n prev cur =
     (if cur = 0 then Some (prev, 0)
      else if n \<le> bsize h cur then Some (prev, cur)
      else find_fit h n (Some cur) (bnext h cur))"

definition take_block :: "blocks \<Rightarrow> nat \<Rightarrow> link \<Rightarrow> nat \<Rightarrow> blocks" where
  "take_block h n prev cur =
     (let remaining = bsize h cur - n in
      if HEADER + 8 \<le> remaining
      then let split = add64 (add64 cur HEADER) n;
               h = h\<lparr>bsize := (bsize h)(split := remaining - HEADER),
                     bnext := (bnext h)(split := bnext h cur)\<rparr>;
               h = set_link h prev split
           in h\<lparr>bsize := (bsize h)(cur := n)\<rparr>
      else set_link h prev (bnext h cur))"

section \<open>Giving a block back\<close>

partial_function (option) insert_pos :: "blocks \<Rightarrow> nat \<Rightarrow> link \<Rightarrow> link option" where
  "insert_pos h block prev =
     (let n = get_link h prev in
      if n \<noteq> 0 \<and> n < block then insert_pos h block (Some n) else Some prev)"

partial_function (option) pred_of :: "blocks \<Rightarrow> nat \<Rightarrow> nat \<Rightarrow> nat option" where
  "pred_of h block p =
     (if p \<noteq> 0 \<and> bnext h p \<noteq> block then pred_of h block (bnext h p) else Some p)"

definition merge_next :: "blocks \<Rightarrow> nat \<Rightarrow> blocks" where
  "merge_next h b =
     (let n = bnext h b in
      h\<lparr>bsize := (bsize h)(b := add64 (bsize h b) (add64 HEADER (bsize h n))),
        bnext := (bnext h)(b := bnext h n)\<rparr>)"

definition free_block :: "blocks \<Rightarrow> nat \<Rightarrow> blocks option" where
  "free_block h block =
     Option.bind (insert_pos h block None) (\<lambda>prev.
       let h = h\<lparr>bnext := (bnext h)(block := get_link h prev)\<rparr>;
           h = set_link h prev block;
           h = (if bnext h block \<noteq> 0 \<and> block_end h block = bnext h block
                then merge_next h block else h)
       in if prev \<noteq> None
          then Option.bind (pred_of h block (free_list h)) (\<lambda>p.
            Some (if p \<noteq> 0 \<and> block_end h p = block then merge_next h p else h))
          else Some h)"

section \<open>List segments\<close>

fun seg :: "(nat \<Rightarrow> nat) \<Rightarrow> nat \<Rightarrow> nat list \<Rightarrow> nat \<Rightarrow> bool" where
  "seg nx a [] z \<longleftrightarrow> a = z"
| "seg nx a (b # bs) z \<longleftrightarrow> a = b \<and> b \<noteq> 0 \<and> seg nx (nx b) bs z"

definition link_after :: "nat list \<Rightarrow> link" where
  "link_after xs = (if xs = [] then None else Some (last xs))"

lemma seg_append: "seg nx a (xs @ ys) z \<longleftrightarrow> (\<exists>b. seg nx a xs b \<and> seg nx b ys z)"
  by (induction xs arbitrary: a) auto

lemma seg_cong: "(\<And>b. b \<in> set xs \<Longrightarrow> nx' b = nx b) \<Longrightarrow> seg nx' a xs z = seg nx a xs z"
  by (induction xs arbitrary: a) auto

lemma seg_upd: "b \<notin> set xs \<Longrightarrow> seg (nx(b := v)) a xs z = seg nx a xs z"
  by (rule seg_cong) auto

lemma seg_pos: "seg nx a xs z \<Longrightarrow> b \<in> set xs \<Longrightarrow> b \<noteq> 0"
  by (induction xs arbitrary: a) auto

lemma seg_fun: "seg nx a xs z \<Longrightarrow> seg nx a xs z' \<Longrightarrow> z = z'"
  by (induction xs arbitrary: a) auto

lemma link_after_simps [simp]:
  "link_after [] = None" "link_after (xs @ [b]) = Some b" "link_after (b # bs) \<noteq> None"
  "xs \<noteq> [] \<Longrightarrow> link_after xs = Some (last xs)"
  by (simp_all add: link_after_def)

lemma seg_get_link:
  "seg (bnext h) (free_list h) xs a \<Longrightarrow> get_link h (link_after xs) = a"
  by (cases xs rule: rev_cases) (auto simp: get_link_def seg_append)

lemma seg_set_link:
  assumes "seg (bnext h) (free_list h) xs a" "distinct xs"
  shows "seg (bnext (set_link h (link_after xs) v)) (free_list (set_link h (link_after xs) v)) xs v"
  using assms
  by (cases xs rule: rev_cases) (auto simp: set_link_def seg_append seg_upd)

lemma seg_set_link_tail:
  "set xs \<inter> set ys = {} \<Longrightarrow>
     seg (bnext (set_link h (link_after xs) v)) a ys z = seg (bnext h) a ys z"
  by (cases xs rule: rev_cases) (auto simp: set_link_def seg_upd)

lemma set_link_bsize [simp]: "bsize (set_link h prev v) = bsize h"
  by (simp add: set_link_def split: option.split)

text \<open>The whole list, from the head to null.\<close>

definition free_path :: "blocks \<Rightarrow> nat list \<Rightarrow> bool" where
  "free_path h bs \<longleftrightarrow> seg (bnext h) (free_list h) bs 0 \<and> distinct bs"

lemma free_path_split:
  "free_path h (xs @ ys) \<Longrightarrow>
     \<exists>a. seg (bnext h) (free_list h) xs a \<and> seg (bnext h) a ys 0
       \<and> distinct xs \<and> distinct ys \<and> set xs \<inter> set ys = {}"
  by (auto simp: free_path_def seg_append)

lemma find_fit_path:
  assumes "free_path h (xs @ ys)" "seg (bnext h) a ys 0" "get_link h (link_after xs) = a"
  shows "\<exists>zs ws. ys = zs @ ws \<and> (\<forall>z\<in>set zs. bsize h z < n) \<and>
    (case ws of [] \<Rightarrow> find_fit h n (link_after xs) a = Some (link_after (xs @ zs), 0)
     | c # _ \<Rightarrow> n \<le> bsize h c \<and> find_fit h n (link_after xs) a = Some (link_after (xs @ zs), c))"
  using assms
proof (induction ys arbitrary: xs a)
  case Nil
  then show ?case by (subst find_fit.simps) simp
next
  case (Cons y ys)
  from Cons.prems(2) have y: "a = y" "y \<noteq> 0" "seg (bnext h) (bnext h y) ys 0" by auto
  show ?case
  proof (cases "n \<le> bsize h y")
    case True
    with y show ?thesis by (intro exI [of _ "[]"] exI [of _ "y # ys"]) (simp add: find_fit.simps)
  next
    case False
    have "get_link h (link_after (xs @ [y])) = bnext h y" by (simp add: get_link_def)
    moreover have "free_path h ((xs @ [y]) @ ys)" using Cons.prems(1) by simp
    ultimately obtain zs ws where i: "ys = zs @ ws" "\<forall>z\<in>set zs. bsize h z < n"
      "case ws of [] \<Rightarrow> find_fit h n (link_after (xs @ [y])) (bnext h y) = Some (link_after ((xs @ [y]) @ zs), 0)
       | c # _ \<Rightarrow> n \<le> bsize h c
           \<and> find_fit h n (link_after (xs @ [y])) (bnext h y) = Some (link_after ((xs @ [y]) @ zs), c)"
      using Cons.IH [OF _ y(3)] by blast
    have "find_fit h n (link_after xs) a = find_fit h n (Some y) (bnext h y)"
      using y False by (subst find_fit.simps) simp
    with i False show ?thesis
      by (intro exI [of _ "y # zs"] exI [of _ ws]) (simp split: list.splits)
  qed
qed

lemma find_fit_list:
  assumes "free_path h bs"
  shows "(\<exists>zs c ys. bs = zs @ c # ys \<and> n \<le> bsize h c
      \<and> find_fit h n None (free_list h) = Some (link_after zs, c))
    \<or> ((\<forall>b\<in>set bs. bsize h b < n) \<and> find_fit h n None (free_list h) = Some (link_after bs, 0))"
proof -
  have fp: "free_path h ([] @ bs)" "seg (bnext h) (free_list h) bs 0"
    "get_link h (link_after []) = free_list h"
    using assms by (simp_all add: free_path_def get_link_def)
  from find_fit_path [OF this, of n] obtain zs ws where z: "bs = zs @ ws" "\<forall>z\<in>set zs. bsize h z < n"
    "case ws of [] \<Rightarrow> find_fit h n (link_after []) (free_list h) = Some (link_after ([] @ zs), 0)
     | c # _ \<Rightarrow> n \<le> bsize h c
         \<and> find_fit h n (link_after []) (free_list h) = Some (link_after ([] @ zs), c)" by blast
  then show ?thesis by (cases ws) auto
qed

lemma insert_pos_path:
  assumes "free_path h (xs @ ys)" "seg (bnext h) a ys 0" "get_link h (link_after xs) = a"
  shows "\<exists>zs ws. ys = zs @ ws \<and> insert_pos h block (link_after xs) = Some (link_after (xs @ zs))"
  using assms
proof (induction ys arbitrary: xs a)
  case Nil
  then show ?case by (subst insert_pos.simps) simp
next
  case (Cons y ys)
  from Cons.prems(2) have y: "a = y" "y \<noteq> 0" "seg (bnext h) (bnext h y) ys 0" by auto
  show ?case
  proof (cases "y < block")
    case False
    with y Cons.prems(3) show ?thesis
      by (intro exI [of _ "[]"] exI [of _ "y # ys"]) (simp add: insert_pos.simps)
  next
    case True
    have "get_link h (link_after (xs @ [y])) = bnext h y" by (simp add: get_link_def)
    with Cons.IH [of "xs @ [y]" "bnext h y"] Cons.prems(1) y(3)
    obtain zs ws where i: "ys = zs @ ws"
      "insert_pos h block (Some y) = Some (link_after ((xs @ [y]) @ zs))" by auto
    have "insert_pos h block (link_after xs) = insert_pos h block (Some y)"
      using y True Cons.prems(3) by (subst insert_pos.simps) (simp add: Let_def)
    with i show ?thesis by (intro exI [of _ "y # zs"] exI [of _ ws]) simp
  qed
qed

lemma pred_of_path:
  assumes "seg (bnext h) a (xs @ [p]) block" "block \<notin> set (xs @ [p])"
  shows "pred_of h block a = Some p"
  using assms
proof (induction xs arbitrary: a)
  case Nil
  then show ?case by (subst pred_of.simps) simp
next
  case (Cons x xs)
  then have "bnext h x \<noteq> block" by (cases xs) auto
  with Cons show ?case by (subst pred_of.simps) simp
qed


section \<open>Blocks that do not overlap\<close>

definition ext :: "blocks \<Rightarrow> nat \<Rightarrow> nat set" where
  "ext h b = {b ..< b + HEADER + bsize h b}"

definition cover :: "blocks \<Rightarrow> nat set \<Rightarrow> nat set" where
  "cover h B = (\<Union>b\<in>B. ext h b)"

definition block_ok :: "blocks \<Rightarrow> nat \<Rightarrow> bool" where
  "block_ok h b \<longleftrightarrow> 0 < b \<and> b + HEADER + bsize h b < 2 ^ 64 \<and> 8 dvd b \<and> 8 dvd bsize h b"

definition blocks_ok :: "blocks \<Rightarrow> nat set \<Rightarrow> bool" where
  "blocks_ok h B \<longleftrightarrow> (\<forall>b\<in>B. block_ok h b) \<and> (\<forall>a\<in>B. \<forall>b\<in>B. a \<noteq> b \<longrightarrow> ext h a \<inter> ext h b = {})"

text \<open>Free blocks \<open>bs\<close>, in list order, and live blocks \<open>L\<close>, none overlapping another.\<close>

definition free_inv :: "blocks \<Rightarrow> nat list \<Rightarrow> nat set \<Rightarrow> bool" where
  "free_inv h bs L \<longleftrightarrow> free_path h bs \<and> set bs \<inter> L = {} \<and> blocks_ok h (set bs \<union> L)"

lemma ext_cong: "bsize h' = bsize h \<Longrightarrow> ext h' = ext h"
  by (rule ext) (simp add: ext_def)

lemma blocks_ok_cong: "bsize h' = bsize h \<Longrightarrow> blocks_ok h' = blocks_ok h"
  by (rule ext) (simp add: blocks_ok_def block_ok_def ext_cong [of h' h])

lemma ext_self [simp]: "b \<in> ext h b"
  by (simp add: ext_def HEADER_def)

lemma block_end_eq: "block_ok h b \<Longrightarrow> block_end h b = b + HEADER + bsize h b"
  by (simp add: block_end_def add64_def block_ok_def HEADER_def)

text \<open>Splitting a block in two.\<close>

lemma blocks_ok_split:
  assumes ok: "blocks_ok h B" and c: "c \<in> B" and n: "n + HEADER \<le> bsize h c" "8 dvd n"
    and h': "bsize h' = (bsize h)(c + HEADER + n := bsize h c - n - HEADER, c := n)"
  shows "blocks_ok h' (insert (c + HEADER + n) B)" "c + HEADER + n \<notin> B"
    and "cover h' (insert (c + HEADER + n) B) = cover h B"
proof -
  let ?s = "c + HEADER + n"
  have cok: "block_ok h c" using ok c by (simp add: blocks_ok_def)
  have ne: "?s \<noteq> c" by (simp add: HEADER_def)
  have es: "ext h' ?s = {?s ..< c + HEADER + bsize h c}" and ec: "ext h' c = {c ..< ?s}"
    using n(1) ne by (auto simp: ext_def h' HEADER_def)
  have sin: "?s \<in> ext h c" using n(1) by (simp add: ext_def HEADER_def)
  show s: "?s \<notin> B"
  proof
    assume "?s \<in> B"
    then have "ext h ?s \<inter> ext h c = {}" using ok c ne by (simp add: blocks_ok_def)
    with sin ext_self [of ?s h] show False by blast
  qed
  have other: "ext h' b = ext h b" "bsize h' b = bsize h b" if "b \<in> B" "b \<noteq> c" for b
    using that s by (auto simp: ext_def h')
  have sub: "ext h' ?s \<subseteq> ext h c" "ext h' c \<subseteq> ext h c" "ext h' ?s \<inter> ext h' c = {}"
    unfolding es ec using n(1) by (auto simp: ext_def HEADER_def)
  have un: "ext h' ?s \<union> ext h' c = ext h c" unfolding es ec using n(1) by (auto simp: ext_def HEADER_def)
  have d8: "8 dvd bsize h c - n - HEADER" "8 dvd ?s"
    using cok n by (auto simp: block_ok_def HEADER_def intro!: dvd_diff_nat dvd_add)
  have "block_ok h' ?s" using cok n(1) d8 ne by (simp add: block_ok_def h' HEADER_def)
  moreover have "block_ok h' c" using cok n by (simp add: block_ok_def h')
  moreover have "block_ok h' b" if "b \<in> B" "b \<noteq> c" for b
    using ok other(2) [OF that] that by (simp add: blocks_ok_def block_ok_def)
  moreover have "ext h' a \<inter> ext h' b = {}" if ab: "a \<in> insert ?s B" "b \<in> insert ?s B" "a \<noteq> b" for a b
  proof -
    define rep where "rep x = (if x = ?s then c else x)" for x
    have r: "rep x \<in> B" "ext h' x \<subseteq> ext h (rep x)" if "x \<in> insert ?s B" for x
      using that c sub other(1) [of x] by (auto simp: rep_def)
    show ?thesis
    proof (cases "rep a = rep b")
      case True
      with ab have "{a, b} = {?s, c}" by (auto simp: rep_def split: if_splits)
      with sub(3) show ?thesis by (auto simp: doubleton_eq_iff)
    next
      case False
      with r [OF ab(1)] r [OF ab(2)] ok show ?thesis unfolding blocks_ok_def by blast
    qed
  qed
  ultimately show "blocks_ok h' (insert ?s B)" unfolding blocks_ok_def by blast
  have "cover h' (insert ?s B) = ext h' ?s \<union> ext h' c \<union> cover h' (B - {c})"
    using c by (auto simp: cover_def)
  also have "cover h' (B - {c}) = cover h (B - {c})" using other(1) by (auto simp: cover_def)
  also have "ext h' ?s \<union> ext h' c \<union> cover h (B - {c}) = cover h B"
    unfolding un using c by (auto simp: cover_def)
  finally show "cover h' (insert ?s B) = cover h B" .
qed

text \<open>Joining two neighbours.\<close>

lemma blocks_ok_join:
  assumes ok: "blocks_ok h B" and p: "p \<in> B" "q \<in> B" "p \<noteq> q" "p + HEADER + bsize h p = q"
    and h': "bsize h' = (bsize h)(p := bsize h p + HEADER + bsize h q)"
  shows "blocks_ok h' (B - {q})" "cover h' (B - {q}) = cover h B"
    and "ext h' p = ext h p \<union> ext h q"
proof -
  have pq: "block_ok h p" "block_ok h q" using ok p by (auto simp: blocks_ok_def)
  show un: "ext h' p = ext h p \<union> ext h q" using p(4) by (auto simp: ext_def h' HEADER_def)
  have other: "ext h' b = ext h b" "bsize h' b = bsize h b" if "b \<noteq> p" for b
    using that by (simp_all add: ext_def h')
  have "block_ok h' p" using pq p(4) by (auto simp: block_ok_def h' HEADER_def intro!: dvd_add)
  moreover have "block_ok h' b" if "b \<in> B" "b \<noteq> p" for b
    using ok other(2) [OF that(2)] that by (simp add: blocks_ok_def block_ok_def)
  moreover have "ext h' a \<inter> ext h' b = {}" if "a \<in> B - {q}" "b \<in> B - {q}" "a \<noteq> b" for a b
  proof -
    have d: "ext h a \<inter> ext h b = {}" "a \<noteq> q" "b \<noteq> q" using ok that by (auto simp: blocks_ok_def)
    have dq: "ext h x \<inter> ext h q = {}" if "x \<in> B" "x \<noteq> q" for x
      using ok that p(2) by (simp add: blocks_ok_def)
    show ?thesis
      using that d dq [of a] dq [of b] other(1) un by (cases "a = p"; cases "b = p") auto
  qed
  ultimately show "blocks_ok h' (B - {q})" unfolding blocks_ok_def by blast
  have "cover h' (B - {q}) = ext h' p \<union> cover h' (B - {p, q})" using p by (auto simp: cover_def)
  also have "cover h' (B - {p, q}) = cover h (B - {p, q})" using other(1) by (auto simp: cover_def)
  also have "ext h' p \<union> cover h (B - {p, q}) = cover h B" unfolding un using p by (auto simp: cover_def)
  finally show "cover h' (B - {q}) = cover h B" .
qed


section \<open>The operations on lists of blocks\<close>

lemma free_path_seg:
  "free_path h (xs @ ys) \<Longrightarrow> seg (bnext h) (free_list h) xs (get_link h (link_after xs))
     \<and> seg (bnext h) (get_link h (link_after xs)) ys 0"
  using seg_get_link by (fastforce simp: free_path_def seg_append)

text \<open>Changing what a link leads to.\<close>

lemma free_path_relink:
  assumes fp: "free_path h (xs @ ys)" and tail: "seg nx v zs 0" "distinct zs" "set xs \<inter> set zs = {}"
    and nx: "\<And>b. b \<in> set xs \<union> set zs \<Longrightarrow> bnext h' b = nx b" "\<And>b. b \<in> set xs \<Longrightarrow> nx b = bnext h b"
    and hd: "free_list h' = free_list h"
  shows "free_path (set_link h' (link_after xs) v) (xs @ zs)"
proof -
  have d: "distinct xs" using fp by (simp add: free_path_def)
  have "seg (bnext h') (free_list h') xs (get_link h (link_after xs))"
    using free_path_seg [OF fp] nx hd by (subst seg_cong [of xs _ "bnext h"]) auto
  note a = seg_set_link [OF this d, of v]
  have "seg (bnext h') v zs 0" using tail(1) nx(1) by (subst seg_cong [of zs _ nx]) auto
  then have "seg (bnext (set_link h' (link_after xs) v)) v zs 0"
    using tail(3) by (simp add: seg_set_link_tail)
  with a d tail show ?thesis by (auto simp: free_path_def seg_append)
qed

lemma take_block_inv:
  assumes inv: "free_inv h (xs @ c # ys) L" and n: "n \<le> bsize h c" "8 dvd n"
    and h': "h' = take_block h n (link_after xs) c"
  shows "\<exists>zs. free_inv h' zs (insert c L) \<and> n \<le> bsize h' c \<and> c \<notin> L
    \<and> cover h' (set zs \<union> insert c L) = cover h (set (xs @ c # ys) \<union> L)
    \<and> (\<forall>b\<in>L. bsize h' b = bsize h b)"
proof -
  let ?B = "set (xs @ c # ys) \<union> L"
  have ok: "blocks_ok h ?B" and fp: "free_path h (xs @ c # ys)" and dj: "set (xs @ c # ys) \<inter> L = {}"
    using inv by (simp_all add: free_inv_def)
  have cok: "block_ok h c" using ok by (simp add: blocks_ok_def)
  obtain tl: "seg (bnext h) (bnext h c) ys 0" "c \<noteq> 0" using free_path_seg [OF fp] by auto
  have dist: "distinct ys" "set xs \<inter> set ys = {}" "c \<notin> set ys" "c \<notin> set xs"
    using fp by (auto simp: free_path_def)
  show ?thesis
  proof (cases "HEADER + 8 \<le> bsize h c - n")
    case True
    let ?s = "c + HEADER + n"
    have s: "add64 (add64 c HEADER) n = ?s"
      using cok n True by (simp add: add64_def block_ok_def HEADER_def)
    define h1 where "h1 = h\<lparr>bsize := (bsize h)(?s := bsize h c - n - HEADER),
        bnext := (bnext h)(?s := bnext h c)\<rparr>"
    have e: "h' = (set_link h1 (link_after xs) ?s)\<lparr>bsize := (bsize (set_link h1 (link_after xs) ?s))(c := n)\<rparr>"
      using True by (simp add: h' take_block_def Let_def s h1_def)
    have n': "n + HEADER \<le> bsize h c" using True n(1) by simp
    have bs: "bsize h' = (bsize h)(?s := bsize h c - n - HEADER, c := n)"
      by (simp add: e h1_def)
    note sp = blocks_ok_split [OF ok _ n' n(2) bs]
    have cB: "c \<in> ?B" by simp
    have sB: "?s \<notin> ?B" using sp(2) [OF cB] .
    have set: "set (xs @ ?s # ys) \<union> insert c L = insert ?s ?B" by auto
    have "free_path (set_link h1 (link_after xs) ?s) (xs @ ?s # ys)"
    proof (rule free_path_relink [OF fp, where nx = "bnext h1"])
      show "seg (bnext h1) ?s (?s # ys) 0"
        using tl sB by (simp add: h1_def seg_upd HEADER_def)
    qed (use sB dist in \<open>auto simp: h1_def\<close>)
    then have "free_path h' (xs @ ?s # ys)" by (simp add: e free_path_def)
    moreover have "set (xs @ ?s # ys) \<inter> insert c L = {}" using sB dj dist by auto
    ultimately have "free_inv h' (xs @ ?s # ys) (insert c L)"
      using sp(1) [OF cB] by (simp add: free_inv_def set [simplified])
    moreover have "cover h' (set (xs @ ?s # ys) \<union> insert c L) = cover h ?B"
      using sp(3) [OF cB] unfolding set .
    moreover have "\<forall>b\<in>L. bsize h' b = bsize h b" using sB dj by (auto simp: bs)
    moreover have "n \<le> bsize h' c" "c \<notin> L" using dj by (auto simp: bs)
    ultimately show ?thesis by (intro exI [of _ "xs @ ?s # ys"] conjI)
  next
    case False
    then have e: "h' = set_link h (link_after xs) (bnext h c)"
      by (auto simp: h' take_block_def Let_def)
    have set: "set (xs @ ys) \<union> insert c L = ?B" by auto
    have bs: "bsize h' = bsize h" by (simp add: e)
    have "free_path h' (xs @ ys)"
      unfolding e by (rule free_path_relink [OF fp, where nx = "bnext h"]) (use tl dist in auto)
    moreover have "set (xs @ ys) \<inter> insert c L = {}" using dj dist by auto
    moreover have "blocks_ok h' (set (xs @ ys) \<union> insert c L)"
      unfolding set blocks_ok_cong [OF bs] by (rule ok)
    ultimately have "free_inv h' (xs @ ys) (insert c L)" by (simp add: free_inv_def)
    moreover have "cover h' (set (xs @ ys) \<union> insert c L) = cover h ?B"
      unfolding set by (simp add: cover_def ext_cong [OF bs])
    ultimately show ?thesis using n(1) dj by (auto simp: bs)
  qed
qed

lemma merge_next_inv:
  assumes inv: "free_inv h (xs @ p # q # ys) L" and adj: "block_end h p = q"
  shows "free_inv (merge_next h p) (xs @ p # ys) L"
    and "cover (merge_next h p) (set (xs @ p # ys) \<union> L) = cover h (set (xs @ p # q # ys) \<union> L)"
    and "ext (merge_next h p) p = ext h p \<union> ext h q" "b \<in> L \<Longrightarrow> bsize (merge_next h p) b = bsize h b"
    and "b \<noteq> p \<Longrightarrow> ext (merge_next h p) b = ext h b"
proof -
  let ?B = "set (xs @ p # q # ys) \<union> L" and ?h = "merge_next h p"
  have ok: "blocks_ok h ?B" and fp: "free_path h (xs @ p # q # ys)"
    and dj: "set (xs @ p # q # ys) \<inter> L = {}" using inv by (simp_all add: free_inv_def)
  have pq: "block_ok h p" "block_ok h q" "p \<noteq> q" using ok fp by (auto simp: blocks_ok_def free_path_def)
  have nx: "bnext h p = q" "seg (bnext h) (bnext h q) ys 0" using free_path_seg [OF fp] by auto
  have adj': "p + HEADER + bsize h p = q" using block_end_eq [OF pq(1)] adj by simp
  have sz: "add64 (bsize h p) (add64 HEADER (bsize h q)) = bsize h p + HEADER + bsize h q"
    using pq(2) adj' by (simp add: add64_def block_ok_def HEADER_def)
  have bs: "bsize ?h = (bsize h)(p := bsize h p + HEADER + bsize h q)"
    by (simp add: merge_next_def Let_def nx sz)
  have dist: "p \<notin> set ys" "p \<notin> set xs" "q \<notin> set xs" "q \<notin> set ys" "distinct ys" "distinct xs"
    "set xs \<inter> set ys = {}" using fp by (auto simp: free_path_def)
  have set: "set (xs @ p # ys) \<union> L = ?B - {q}" using dist dj pq(3) by auto
  have pB: "p \<in> ?B" "q \<in> ?B" by auto
  note j = blocks_ok_join [OF ok pB pq(3) adj' bs]
  have bn: "bnext ?h = (bnext h)(p := bnext h q)" "free_list ?h = free_list h"
    by (simp_all add: merge_next_def Let_def nx(1))
  obtain a where a: "seg (bnext h) (free_list h) xs a" "a = p" "p \<noteq> 0"
    using free_path_seg [OF fp] by auto
  have "free_path ?h (xs @ p # ys)"
    using a nx(2) dist by (simp add: free_path_def bn seg_append seg_upd) 
  moreover have "set (xs @ p # ys) \<inter> L = {}" using dj by auto
  ultimately show "free_inv ?h (xs @ p # ys) L" using j(1) by (simp add: free_inv_def set [simplified])
  show "cover ?h (set (xs @ p # ys) \<union> L) = cover h ?B" unfolding set by (rule j(2))
  show "ext ?h p = ext h p \<union> ext h q" by (rule j(3))
  show "b \<in> L \<Longrightarrow> bsize ?h b = bsize h b" using dj by (auto simp: bs)
  show "b \<noteq> p \<Longrightarrow> ext ?h b = ext h b" by (simp add: ext_def bs)
qed

text \<open>
  Freeing a live block: the loops end, the block's bytes lie in some free block afterwards,
  the other live blocks keep their sizes and no block overlaps another.
\<close>

lemma free_block_inv:
  assumes inv: "free_inv h bs L" and b: "b \<in> L"
  shows "\<exists>h' bs'. free_block h b = Some h' \<and> free_inv h' bs' (L - {b})
    \<and> cover h' (set bs' \<union> (L - {b})) = cover h (set bs \<union> L)
    \<and> (\<forall>a\<in>L - {b}. bsize h' a = bsize h a) \<and> (\<exists>f\<in>set bs'. ext h b \<subseteq> ext h' f)"
proof -
  let ?L = "L - {b}"
  have fp: "free_path h bs" and ok: "blocks_ok h (set bs \<union> L)" and dj: "set bs \<inter> L = {}"
    using inv by (simp_all add: free_inv_def)
  have bok: "block_ok h b" using ok b by (simp add: blocks_ok_def)
  have "free_path h ([] @ bs)" "seg (bnext h) (free_list h) bs 0" using fp by (simp_all add: free_path_def)
  from insert_pos_path [OF this, of b] obtain xs ys where bs: "bs = xs @ ys"
    and ip: "insert_pos h b None = Some (link_after xs)" by (auto simp: get_link_def)
  define h1 where "h1 = set_link (h\<lparr>bnext := (bnext h)(b := get_link h (link_after xs))\<rparr>) (link_after xs) b"
  have bnot: "b \<notin> set xs" "b \<notin> set ys" using dj b bs by auto
  have sz1: "bsize h1 = bsize h" by (simp add: h1_def)
  have "free_path h1 (xs @ b # ys)"
    unfolding h1_def
  proof (rule free_path_relink [OF fp [unfolded bs], where nx = "(bnext h)(b := get_link h (link_after xs))"])
    show "seg ((bnext h)(b := get_link h (link_after xs))) b (b # ys) 0"
      using free_path_seg [OF fp [unfolded bs]] bok bnot by (simp add: seg_upd block_ok_def)
  qed (use bnot fp bs in \<open>auto simp: free_path_def\<close>)
  moreover have set1: "set (xs @ b # ys) \<union> ?L = set bs \<union> L" using b bs by auto
  moreover have "blocks_ok h1 (set bs \<union> L)" unfolding blocks_ok_cong [OF sz1] by (rule ok)
  moreover have "set (xs @ b # ys) \<inter> ?L = {}" using dj bs by auto
  ultimately have inv1: "free_inv h1 (xs @ b # ys) ?L" by (simp add: free_inv_def)
  have cov1: "cover h1 (set (xs @ b # ys) \<union> ?L) = cover h (set bs \<union> L)"
    unfolding set1 by (simp add: cover_def ext_cong [OF sz1])
  define h2 where "h2 = (if bnext h1 b \<noteq> 0 \<and> block_end h1 b = bnext h1 b then merge_next h1 b else h1)"
  have "\<exists>zs. free_inv h2 (xs @ b # zs) ?L \<and> cover h2 (set (xs @ b # zs) \<union> ?L) = cover h (set bs \<union> L)
      \<and> (\<forall>a\<in>?L. bsize h2 a = bsize h a) \<and> ext h b \<subseteq> ext h2 b"
  proof (cases "bnext h1 b \<noteq> 0 \<and> block_end h1 b = bnext h1 b")
    case False
    then have "h2 = h1" unfolding h2_def by (rule if_not_P)
    with inv1 cov1 sz1 show ?thesis by (intro exI [of _ ys]) (simp add: ext_cong [OF sz1])
  next
    case True
    then have e: "h2 = merge_next h1 b" unfolding h2_def by (rule if_P)
    have "seg (bnext h1) (bnext h1 b) ys 0"
      using inv1 free_path_seg [of h1 xs "b # ys"] by (auto simp: free_inv_def)
    with True obtain q zs where q: "ys = q # zs" "bnext h1 b = q" by (cases ys) auto
    have inv1': "free_inv h1 (xs @ b # q # zs) ?L" using inv1 q by simp
    have adj: "block_end h1 b = q" using True q by simp
    note m = merge_next_inv [OF inv1' adj]
    show ?thesis
      using m(1-4) cov1 sz1 unfolding e q(1) by (intro exI [of _ zs]) (auto simp: ext_cong [OF sz1])
  qed
  then obtain zs where inv2: "free_inv h2 (xs @ b # zs) ?L"
    and cov2: "cover h2 (set (xs @ b # zs) \<union> ?L) = cover h (set bs \<union> L)"
    and sz2: "\<forall>a\<in>?L. bsize h2 a = bsize h a" and eb: "ext h b \<subseteq> ext h2 b" by blast
  have fb: "free_block h b = (if link_after xs \<noteq> None
        then Option.bind (pred_of h2 b (free_list h2)) (\<lambda>p.
               Some (if p \<noteq> 0 \<and> block_end h2 p = b then merge_next h2 p else h2))
        else Some h2)"
    by (simp only: free_block_def ip bind.bind_lunit Let_def h1_def [symmetric] h2_def [symmetric])
  show ?thesis
  proof (cases xs rule: rev_cases)
    case Nil
    with fb have "free_block h b = Some h2" by simp
    with inv2 cov2 sz2 eb show ?thesis by (intro exI [of _ h2] exI [of _ "xs @ b # zs"]) auto
  next
    case (snoc us p)
    have inv2': "free_inv h2 (us @ p # b # zs) ?L" using inv2 snoc by simp
    then have "seg (bnext h2) (free_list h2) (us @ [p]) b" "b \<notin> set (us @ [p])" "p \<noteq> 0"
      by (auto simp: free_inv_def free_path_def seg_append)
    with pred_of_path have fb2: "free_block h b = Some (if block_end h2 p = b then merge_next h2 p else h2)"
      using fb snoc by simp
    show ?thesis
    proof (cases "block_end h2 p = b")
      case False
      with fb2 inv2 cov2 sz2 eb show ?thesis by (intro exI [of _ h2] exI [of _ "xs @ b # zs"]) auto
    next
      case True
      note m = merge_next_inv [OF inv2' True]
      have "ext h b \<subseteq> ext (merge_next h2 p) p" using m(3) eb by auto
      with True fb2 m(1,2,4) cov2 sz2 snoc show ?thesis
        by (intro exI [of _ "merge_next h2 p"] exI [of _ "us @ p # zs"]) auto
    qed
  qed
qed

end
