(* ===== verification/Kmalloc.thy ===== *)
theory Kmalloc
  imports Blocklist Vmm
begin

text \<open>
  The kernel heap, \<open>kernel/src/mm/kmalloc.c\<close>: a free list searched first-fit, and a bump
  region that \<open>grow_heap\<close> replaces by a fresh range of pages when it is used up. The lock
  brackets each function, which is one atomic step here. The block headers are the two maps
  of \<open>blocks\<close>; what callers write into their blocks is not modelled.
\<close>

definition HEAP_CHUNK_PAGES :: nat where "HEAP_CHUNK_PAGES = 16"

record kheap =
  blk :: blocks
  heap_cur :: nat
  heap_end :: nat
  kvm :: vmm

definition add_remaining_bump_to_free_list :: "kheap \<Rightarrow> kheap" where
  "add_remaining_bump_to_free_list s =
     (let remaining = sub64 (heap_end s) (heap_cur s) in
      if HEADER + 8 \<le> remaining
      then s\<lparr>blk := (blk s)\<lparr>bsize := (bsize (blk s))(heap_cur s := remaining - HEADER),
                            bnext := (bnext (blk s))(heap_cur s := free_list (blk s)),
                            free_list := heap_cur s\<rparr>\<rparr>
      else s)"

definition grow_heap :: "(nat \<Rightarrow> u8) \<Rightarrow> nat \<Rightarrow> kheap \<Rightarrow> bool \<times> kheap" where
  "grow_heap beyond min_bytes s =
     (let s = add_remaining_bump_to_free_list s;
          pages_needed = sub64 (add64 min_bytes PAGE_SIZE) 1 div PAGE_SIZE;
          n = (if HEAP_CHUNK_PAGES < pages_needed then pages_needed else HEAP_CHUNK_PAGES)
      in case vmm_alloc_pages beyond n (kvm s) of
           (chunk, vm) \<Rightarrow>
             if chunk = 0 then (False, s\<lparr>kvm := vm\<rparr>)
             else (True, s\<lparr>kvm := vm, heap_cur := unat chunk,
                          heap_end := add64 (unat chunk) (n * PAGE_SIZE mod 2 ^ 64)\<rparr>))"

definition kmalloc_init :: "kheap \<Rightarrow> kheap" where
  "kmalloc_init s = s\<lparr>blk := (blk s)\<lparr>free_list := 0\<rparr>, heap_cur := 0, heap_end := 0\<rparr>"

text \<open>The tail of \<open>kmalloc\<close>: the block at the aligned bump pointer, if it fits.\<close>

definition bump :: "nat \<Rightarrow> kheap \<Rightarrow> nat \<times> kheap" where
  "bump n s =
     (let alloc_start = align8 (heap_cur s);
          need = add64 (add64 alloc_start HEADER) n
      in (add64 alloc_start HEADER,
          s\<lparr>blk := (blk s)\<lparr>bsize := (bsize (blk s))(alloc_start := n)\<rparr>, heap_cur := need\<rparr>))"

definition bump_fits :: "nat \<Rightarrow> kheap \<Rightarrow> bool" where
  "bump_fits n s \<longleftrightarrow> add64 (add64 (align8 (heap_cur s)) HEADER) n \<le> heap_end s"

definition kmalloc :: "(nat \<Rightarrow> u8) \<Rightarrow> nat \<Rightarrow> kheap \<Rightarrow> (nat \<times> kheap) option" where
  "kmalloc beyond size0 s =
     (if size0 = 0 then Some (0, s)
      else let n = align8 size0 in
        Option.bind (find_fit (blk s) n None (free_list (blk s))) (\<lambda>(prev, cur).
          if cur \<noteq> 0 then Some (add64 cur HEADER, s\<lparr>blk := take_block (blk s) n prev cur\<rparr>)
          else if bump_fits n s then Some (bump n s)
          else case grow_heap beyond (add64 HEADER n) s of
                 (ok, s) \<Rightarrow> if \<not> ok then Some (0, s)
                            else if bump_fits n s then Some (bump n s)
                            else Some (0, s)))"

definition kfree :: "nat \<Rightarrow> kheap \<Rightarrow> kheap option" where
  "kfree ptr s =
     (if ptr = 0 then Some s
      else map_option (\<lambda>h. s\<lparr>blk := h\<rparr>) (free_block (blk s) (sub64 ptr HEADER)))"

section \<open>The invariant\<close>

text \<open>
  Free blocks \<open>bs\<close> and live blocks \<open>L\<close>, none overlapping another or the bump region, all
  below the cursor from which new chunks come.
\<close>

abbreviation cursor :: "kheap \<Rightarrow> nat" where "cursor s \<equiv> unat (kernel_heap_cur (kvm s))"

definition kheap_inv :: "kheap \<Rightarrow> nat list \<Rightarrow> nat set \<Rightarrow> bool" where
  "kheap_inv s bs L \<longleftrightarrow> free_inv (blk s) bs L
     \<and> cover (blk s) (set bs \<union> L) \<inter> {heap_cur s ..< heap_end s} = {}
     \<and> cover (blk s) (set bs \<union> L) \<subseteq> {..< cursor s}
     \<and> heap_cur s \<le> heap_end s \<and> heap_end s \<le> cursor s \<and> 0 < cursor s
     \<and> (heap_cur s = 0 \<longrightarrow> heap_end s = 0)
     \<and> 8 dvd heap_cur s \<and> 8 dvd heap_end s \<and> 8 dvd cursor s"

text \<open>Room for one more chunk below the top of the address space.\<close>

definition room :: "nat \<Rightarrow> kheap \<Rightarrow> bool" where
  "room n s \<longleftrightarrow> cursor s + n + 0x20000 \<le> 2 ^ 64"

lemma align8_aligned: "8 dvd n \<Longrightarrow> n + 7 < 2 ^ 64 \<Longrightarrow> align8 n = n"
  by (auto simp: align8_def add64_def elim: dvdE)

lemma align8_up: "n + 7 < 2 ^ 64 \<Longrightarrow> n \<le> align8 n \<and> align8 n < n + 8 \<and> 8 dvd align8 n"
  by (simp add: align8_def add64_def) linarith

text \<open>Adding a fresh block to a disjoint family.\<close>

lemma blocks_ok_insert:
  assumes "blocks_ok h B" "block_ok h' b" "\<And>a. a \<in> B \<Longrightarrow> bsize h' a = bsize h a"
    and "ext h' b \<inter> cover h B = {}"
  shows "blocks_ok h' (insert b B)" "b \<notin> B" "cover h' B = cover h B"
proof -
  have e: "ext h' a = ext h a" if "a \<in> B" for a using assms(3) that by (simp add: ext_def)
  show "b \<notin> B" using assms(4) ext_self [of b h'] ext_self [of b h] unfolding cover_def by blast
  show "cover h' B = cover h B" using e by (auto simp: cover_def)
  have d: "ext h' b \<inter> ext h' a = {}" if "a \<in> B" for a
    using assms(4) e that by (auto simp: cover_def)
  moreover have "block_ok h' a" if "a \<in> B" for a
    using assms(1,3) that by (simp add: blocks_ok_def block_ok_def)
  ultimately show "blocks_ok h' (insert b B)"
    using assms(1,2) e by (auto simp: blocks_ok_def)
qed

lemma bump_correct:
  assumes inv: "kheap_inv s bs L" and n: "8 dvd n" "heap_cur s + HEADER + n \<le> heap_end s"
    and c: "0 < heap_cur s" "heap_end s + 7 < 2 ^ 64" and r: "bump n s = (p, s')"
  shows "p = heap_cur s + HEADER \<and> kheap_inv s' bs (insert (heap_cur s) L) \<and> heap_cur s \<notin> L
    \<and> bsize (blk s') (heap_cur s) = n \<and> (\<forall>b\<in>L. bsize (blk s') b = bsize (blk s) b)"
proof -
  let ?c = "heap_cur s" and ?B = "set bs \<union> L"
  have fi: "free_path (blk s) bs" "set bs \<inter> L = {}" "blocks_ok (blk s) ?B"
    using inv by (simp_all add: kheap_inv_def free_inv_def)
  have al: "8 dvd ?c" using inv by (simp add: kheap_inv_def)
  have as: "align8 ?c = ?c" using al n c by (intro align8_aligned) simp_all
  have ad: "add64 ?c HEADER = ?c + HEADER" "add64 (add64 ?c HEADER) n = ?c + HEADER + n"
    using n c by (simp_all add: add64_def HEADER_def)
  let ?h = "(blk s)\<lparr>bsize := (bsize (blk s))(?c := n)\<rparr>"
  have s': "s' = s\<lparr>blk := ?h, heap_cur := ?c + HEADER + n\<rparr>" "p = ?c + HEADER"
    using r ad(2) by (auto simp: bump_def Let_def as ad(1))
  have ex: "ext ?h ?c = {?c ..< ?c + HEADER + n}" by (simp add: ext_def)
  have bok: "block_ok ?h ?c" using al n c by (simp add: block_ok_def)
  have dis: "ext ?h ?c \<inter> cover (blk s) ?B = {}"
    unfolding ex using inv n(2) by (auto simp: kheap_inv_def)
  have notin: "?c \<notin> ?B"
    using dis ext_self [of ?c ?h] ext_self [of ?c "blk s"] unfolding cover_def by blast
  have same: "bsize ?h a = bsize (blk s) a" if "a \<in> ?B" for a using notin that by auto
  note bi = blocks_ok_insert [OF fi(3) bok same dis]
  have set: "set bs \<union> insert ?c L = insert ?c ?B" by auto
  have "free_inv ?h bs (insert ?c L)"
    unfolding free_inv_def set using bi(1) fi notin by (auto simp: free_path_def)
  moreover have cov: "cover ?h (insert ?c ?B) = ext ?h ?c \<union> cover (blk s) ?B"
    using bi(3) by (simp add: cover_def)
  ultimately have "kheap_inv s' bs (insert ?c L)"
    unfolding kheap_inv_def set s'(1)
    using inv n al c(1) by (auto simp: kheap_inv_def cov ex HEADER_def simp del: Un_insert_right)
  with s' notin same show ?thesis by auto
qed

lemma bump_fits_eq:
  assumes "8 dvd heap_cur s" "heap_cur s + HEADER + n + 7 < 2 ^ 64"
  shows "bump_fits n s \<longleftrightarrow> heap_cur s + HEADER + n \<le> heap_end s"
  using assms by (simp add: bump_fits_def align8_aligned add64_def HEADER_def)


section \<open>Growing\<close>

lemma free_path_push:
  assumes "free_path h bs" "c \<notin> set bs" "c \<noteq> 0"
  shows "free_path (h\<lparr>bsize := f, bnext := (bnext h)(c := free_list h), free_list := c\<rparr>) (c # bs)"
  using assms by (simp add: free_path_def seg_upd)

text \<open>The leftover of the bump region becomes a free block; the region itself is still there.\<close>

lemma add_remaining_correct:
  assumes inv: "kheap_inv s bs L" and top: "heap_end s < 2 ^ 64"
    and s': "s' = add_remaining_bump_to_free_list s"
  shows "\<exists>bs'. free_inv (blk s') bs' L \<and> cover (blk s') (set bs' \<union> L) \<subseteq> {..< cursor s}
    \<and> kvm s' = kvm s \<and> (\<forall>b\<in>L. bsize (blk s') b = bsize (blk s) b)
    \<and> (heap_end s - heap_cur s < HEADER + 8 \<longrightarrow> s' = s)"
proof -
  let ?c = "heap_cur s" and ?B = "set bs \<union> L" and ?r = "heap_end s - heap_cur s"
  have fi: "free_path (blk s) bs" "set bs \<inter> L = {}" "blocks_ok (blk s) ?B"
    using inv by (simp_all add: kheap_inv_def free_inv_def)
  have le: "?c \<le> heap_end s" "8 dvd ?c" "8 dvd heap_end s" "heap_end s \<le> cursor s"
    "?c = 0 \<longrightarrow> heap_end s = 0" using inv by (simp_all add: kheap_inv_def)
  have sub: "sub64 (heap_end s) ?c = ?r" by (rule sub64_eq [OF le(1) top])
  show ?thesis
  proof (cases "HEADER + 8 \<le> ?r")
    case False
    then have "s' = s" by (simp add: s' add_remaining_bump_to_free_list_def sub)
    with inv show ?thesis by (intro exI [of _ bs]) (auto simp: kheap_inv_def)
  next
    case True
    let ?h = "(blk s)\<lparr>bsize := (bsize (blk s))(?c := ?r - HEADER),
                      bnext := (bnext (blk s))(?c := free_list (blk s)), free_list := ?c\<rparr>"
    have e: "s' = s\<lparr>blk := ?h\<rparr>" using True by (simp add: s' add_remaining_bump_to_free_list_def sub)
    have c0: "?c \<noteq> 0" using True le(5) by (auto simp: HEADER_def)
    have ex: "ext ?h ?c = {?c ..< heap_end s}" using True le(1) by (simp add: ext_def HEADER_def)
    have bok: "block_ok ?h ?c" using True le top c0
      by (simp add: block_ok_def HEADER_def)
    have dis: "ext ?h ?c \<inter> cover (blk s) ?B = {}" unfolding ex using inv by (auto simp: kheap_inv_def)
    have notin: "?c \<notin> ?B"
      using dis ext_self [of ?c ?h] ext_self [of ?c "blk s"] unfolding cover_def by blast
    have same: "bsize ?h a = bsize (blk s) a" if "a \<in> ?B" for a using notin that by auto
    note bi = blocks_ok_insert [OF fi(3) bok same dis]
    have set: "set (?c # bs) \<union> L = insert ?c ?B" by auto
    have "free_inv ?h (?c # bs) L"
      unfolding free_inv_def set using bi(1) fi notin c0 free_path_push [OF fi(1), of ?c] by auto
    moreover have "cover ?h (insert ?c ?B) = ext ?h ?c \<union> cover (blk s) ?B"
      using bi(3) by (simp add: cover_def)
    then have "cover ?h (set (?c # bs) \<union> L) \<subseteq> {..< cursor s}"
      unfolding set ex using inv le by (auto simp: kheap_inv_def)
    ultimately show ?thesis
      using True same by (intro exI [of _ "?c # bs"]) (simp add: e)
  qed
qed

lemma vmm_alloc_pages_cursor:
  assumes "vmm_alloc_pages beyond n v = (r, v')" "r \<noteq> 0"
  shows "r = kernel_heap_cur v \<and> kernel_heap_cur v' = vpage r n"
proof -
  have loop: "alloc_pages_loop beyond fl st m i x w = (Some y, w') \<Longrightarrow> y = vpage x m" for fl st m i x w y w'
  proof (induction m arbitrary: i x w)
    case (Suc m)
    then obtain i' w1 where "alloc_pages_loop beyond fl st m i' (x + of_nat PAGE_SIZE) w1 = (Some y, w')"
      by (auto split: option.splits prod.splits if_splits)
    from Suc.IH [OF this] show ?case by (simp add: vpage_Suc)
  qed (simp add: vpage_Suc)
  from assms show ?thesis
    by (auto simp: vmm_alloc_pages_def Let_def split: prod.splits option.splits dest: loop)
qed

lemma grow_heap_pages:
  assumes "n + 0x20000 \<le> 2 ^ 64"
  shows "sub64 (add64 (HEADER + n) PAGE_SIZE) 1 div PAGE_SIZE = (HEADER + n + 4095) div 4096"
  using assms by (simp add: sub64_eq add64_eq HEADER_def PAGE_SIZE_def)

text \<open>The pages a growth for a block of \<open>n\<close> bytes asks the page allocator for.\<close>

definition pages_wanted :: "nat \<Rightarrow> nat" where
  "pages_wanted n = max HEAP_CHUNK_PAGES ((HEADER + n + 4095) div 4096)"

lemma grow_heap_correct:
  assumes inv: "kheap_inv s bs L" and rm: "room n s" and g: "grow_heap beyond (HEADER + n) s = (ok, s')"
  shows "\<forall>b\<in>L. bsize (blk s') b = bsize (blk s) b"
    and "ok \<Longrightarrow> (\<exists>bs'. kheap_inv s' bs' L) \<and> heap_cur s' + HEADER + n \<le> heap_end s'
      \<and> 0 < heap_cur s' \<and> heap_end s' + 7 < 2 ^ 64"
    and "\<not> ok \<Longrightarrow> fst (vmm_alloc_pages beyond (pages_wanted n) (kvm s)) = 0
      \<and> (heap_end s - heap_cur s < HEADER + 8 \<longrightarrow> blk s' = blk s)
      \<and> heap_cur s' = heap_cur s \<and> heap_end s' = heap_end s"
proof -
  let ?t = "add_remaining_bump_to_free_list s"
  let ?q = "sub64 (add64 (HEADER + n) PAGE_SIZE) 1 div PAGE_SIZE"
  define m where "m = (if HEAP_CHUNK_PAGES < ?q then ?q else HEAP_CHUNK_PAGES)"
  have top: "heap_end s < 2 ^ 64" using inv rm by (simp add: kheap_inv_def room_def)
  from add_remaining_correct [OF inv top refl] obtain bs' where t: "free_inv (blk ?t) bs' L"
    "cover (blk ?t) (set bs' \<union> L) \<subseteq> {..< cursor s}" "kvm ?t = kvm s"
    "\<forall>b\<in>L. bsize (blk ?t) b = bsize (blk s) b" "heap_end s - heap_cur s < HEADER + 8 \<longrightarrow> ?t = s"
    by auto
  have t2: "heap_cur ?t = heap_cur s" "heap_end ?t = heap_end s"
    by (simp_all add: add_remaining_bump_to_free_list_def Let_def)
  obtain r v where v: "vmm_alloc_pages beyond m (kvm s) = (r, v)" by fastforce
  have "n + 0x20000 \<le> 2 ^ 64" using rm by (simp add: room_def)
  note pg = grow_heap_pages [OF this]
  have mw: "m = pages_wanted n" unfolding m_def pg pages_wanted_def by simp
  have gr: "grow_heap beyond (HEADER + n) s = (if r = 0 then (False, ?t\<lparr>kvm := v\<rparr>)
      else (True, ?t\<lparr>kvm := v, heap_cur := unat r,
                     heap_end := add64 (unat r) (m * PAGE_SIZE mod 2 ^ 64)\<rparr>))"
    unfolding grow_heap_def Let_def t(3) m_def [symmetric] v by simp
  show "\<forall>b\<in>L. bsize (blk s') b = bsize (blk s) b" using g gr t(4) by (auto split: if_splits)
  show "\<not> ok \<Longrightarrow> fst (vmm_alloc_pages beyond (pages_wanted n) (kvm s)) = 0
      \<and> (heap_end s - heap_cur s < HEADER + 8 \<longrightarrow> blk s' = blk s)
      \<and> heap_cur s' = heap_cur s \<and> heap_end s' = heap_end s"
    using g gr t2 t(5) v by (auto simp: mw split: if_splits)
  assume ok
  with g gr have nz: "r \<noteq> 0" by (auto split: if_splits)
  note vc = vmm_alloc_pages_cursor [OF v nz]
  have rn: "unat r = cursor s" using vc by simp
  have mb: "m * 4096 \<le> n + 0x20000 - 8" "HEADER + n \<le> m * 4096"
    unfolding m_def pg by (auto simp: HEAP_CHUNK_PAGES_def HEADER_def)
  have fits: "cursor s + m * 4096 + 7 < 2 ^ 64" using mb(1) rm by (simp add: room_def)
  have en: "add64 (unat r) (m * PAGE_SIZE mod 2 ^ 64) = cursor s + m * 4096"
    using fits by (simp add: add64_def rn PAGE_SIZE_def mod_simps)
  have cur: "unat (kernel_heap_cur v) = cursor s + m * 4096"
    using vc fits by (simp add: vpage_def PAGE_SIZE_def unat_word_ariths unat_of_nat mod_simps take_bit_eq_mod)
  have s': "s' = ?t\<lparr>kvm := v, heap_cur := cursor s, heap_end := cursor s + m * 4096\<rparr>"
    using g nz unfolding gr en unfolding rn by (simp split: if_splits)
  have "kheap_inv s' bs' L"
    unfolding kheap_inv_def s' using t(1,2) inv by (auto simp: kheap_inv_def cur)
  with mb(2) fits inv show "(\<exists>bs'. kheap_inv s' bs' L) \<and> heap_cur s' + HEADER + n \<le> heap_end s'
      \<and> 0 < heap_cur s' \<and> heap_end s' + 7 < 2 ^ 64"
    unfolding s' by (auto simp: kheap_inv_def)
qed


lemma grow_heap_oom:
  assumes "\<And>m. 0 < m \<Longrightarrow> fst (vmm_alloc_pages beyond m (kvm s)) = 0"
  shows "\<exists>w. grow_heap beyond k s = (False, (add_remaining_bump_to_free_list s)\<lparr>kvm := w\<rparr>)"
proof -
  have kv: "kvm (add_remaining_bump_to_free_list s) = kvm s"
    by (simp add: add_remaining_bump_to_free_list_def Let_def)
  let ?q = "sub64 (add64 k PAGE_SIZE) 1 div PAGE_SIZE"
  obtain r w where "vmm_alloc_pages beyond (if HEAP_CHUNK_PAGES < ?q then ?q else HEAP_CHUNK_PAGES) (kvm s)
      = (r, w)" by fastforce
  moreover have "0 < (if HEAP_CHUNK_PAGES < ?q then ?q else HEAP_CHUNK_PAGES)"
    by (auto simp: HEAP_CHUNK_PAGES_def)
  ultimately have "r = 0" using assms by (metis fst_conv)
  with \<open>vmm_alloc_pages beyond _ _ = _\<close> show ?thesis
    unfolding grow_heap_def Let_def kv by (intro exI [of _ w]) simp
qed

section \<open>Properties of the kernel heap\<close>

text \<open>What a caller of \<open>kmalloc\<close> gets with the address \<open>p\<close>.\<close>

definition granted :: "nat \<Rightarrow> nat set \<Rightarrow> kheap \<Rightarrow> nat \<Rightarrow> bool" where
  "granted size0 L s p \<longleftrightarrow> 8 dvd p \<and> HEADER \<le> p \<and> p - HEADER \<notin> L \<and> size0 \<le> bsize (blk s) (p - HEADER)
     \<and> (\<exists>bs. kheap_inv s bs (insert (p - HEADER) L))"

lemma kmalloc_from_list:
  assumes inv: "kheap_inv s (zs @ c # ys) L" and size: "0 < size0" and c: "align8 size0 \<le> bsize (blk s) c"
    and n: "size0 \<le> align8 size0" "8 dvd align8 size0"
    and ff: "find_fit (blk s) (align8 size0) None (free_list (blk s)) = Some (link_after zs, c)"
  shows "\<exists>s'. kmalloc beyond size0 s = Some (c + HEADER, s') \<and> granted size0 L s' (c + HEADER) \<and> c + HEADER \<noteq> 0
    \<and> (\<forall>b\<in>L. bsize (blk s') b = bsize (blk s) b)"
proof -
  let ?h = "take_block (blk s) (align8 size0) (link_after zs) c"
  have fi: "free_inv (blk s) (zs @ c # ys) L" using inv by (simp add: kheap_inv_def)
  from take_block_inv [OF fi c n(2) refl] obtain us where
    t: "free_inv ?h us (insert c L)" "align8 size0 \<le> bsize ?h c" "c \<notin> L"
      "cover ?h (set us \<union> insert c L) = cover (blk s) (set (zs @ c # ys) \<union> L)"
      "\<forall>b\<in>L. bsize ?h b = bsize (blk s) b" by blast
  have cok: "block_ok (blk s) c" using fi by (auto simp: free_inv_def blocks_ok_def)
  then have p: "add64 c HEADER = c + HEADER" "c \<noteq> 0" "8 dvd c + HEADER"
    by (simp_all add: add64_eq block_ok_def HEADER_def)
  have "kmalloc beyond size0 s = Some (c + HEADER, s\<lparr>blk := ?h\<rparr>)"
    using size ff p(1,2) by (simp add: kmalloc_def Let_def)
  moreover have "kheap_inv (s\<lparr>blk := ?h\<rparr>) us (insert c L)"
    using inv t(1,4) by (simp add: kheap_inv_def)
  ultimately show ?thesis
    using t(2,3,5) n(1) p(2,3) by (auto simp: granted_def simp del: add_is_0)
qed

lemma bump_granted:
  assumes t: "kheap_inv t cs L" "heap_cur t + HEADER + n \<le> heap_end t" "0 < heap_cur t" "heap_end t + 7 < 2 ^ 64"
    and n: "size0 \<le> n" "8 dvd n" and b: "bump n t = (p, s')"
  shows "granted size0 L s' p \<and> p \<noteq> 0 \<and> (\<forall>b\<in>L. bsize (blk s') b = bsize (blk t) b)"
  using bump_correct [OF t(1) n(2) t(2-4) b] b n(1) t(1)
  by (auto simp: granted_def kheap_inv_def HEADER_def)

text \<open>Without a fit in the list the block comes from the end of the heap, after it has grown if it must.\<close>

lemma kmalloc_from_end:
  assumes inv: "kheap_inv s bs L" and size: "0 < size0" and rm: "room (size0 + 8) s"
    and ff: "find_fit (blk s) (align8 size0) None (free_list (blk s)) = Some (link_after bs, 0)"
  shows "(\<exists>t cs. kmalloc beyond size0 s = Some (bump (align8 size0) t) \<and> kheap_inv t cs L
      \<and> heap_cur t + HEADER + align8 size0 \<le> heap_end t \<and> 0 < heap_cur t \<and> heap_end t + 7 < 2 ^ 64
      \<and> (\<forall>b\<in>L. bsize (blk t) b = bsize (blk s) b))
    \<or> (\<exists>t. kmalloc beyond size0 s = Some (0, t) \<and> (\<forall>b\<in>L. bsize (blk t) b = bsize (blk s) b)
        \<and> heap_end s < heap_cur s + HEADER + align8 size0
        \<and> fst (vmm_alloc_pages beyond (pages_wanted (align8 size0)) (kvm s)) = 0)"
proof -
  define n where "n = align8 size0"
  have n: "n < size0 + 8" "room n s" using align8_up [of size0] rm by (auto simp: n_def room_def)
  have al: "heap_end s \<le> cursor s" "heap_cur s = 0 \<longrightarrow> heap_end s = 0" using inv by (simp_all add: kheap_inv_def)
  have fe: "bump_fits n s \<longleftrightarrow> heap_cur s + HEADER + n \<le> heap_end s"
    using inv n(1) rm by (intro bump_fits_eq) (simp_all add: kheap_inv_def room_def HEADER_def)
  show ?thesis
  proof (cases "bump_fits n s")
    case True
    have "kmalloc beyond size0 s = Some (bump n s)"
      using size ff True by (simp add: kmalloc_def Let_def n_def [symmetric])
    moreover have "0 < heap_cur s" using True fe al(2) by (auto simp: HEADER_def)
    moreover have "heap_end s + 7 < 2 ^ 64" using al(1) rm by (simp add: room_def)
    ultimately show ?thesis using inv True fe unfolding n_def by blast
  next
    case False
    have hn: "add64 HEADER n = HEADER + n" using n(1) rm by (intro add64_eq) (simp add: room_def HEADER_def)
    obtain ok t where g: "grow_heap beyond (HEADER + n) s = (ok, t)" by fastforce
    have e: "kmalloc beyond size0 s =
        (if \<not> ok then Some (0, t) else if bump_fits n t then Some (bump n t) else Some (0, t))"
      using size ff False g by (simp add: kmalloc_def Let_def n_def [symmetric] hn)
    note gc = grow_heap_correct [OF inv n(2) g]
    show ?thesis
    proof (cases ok)
      case False
      have "heap_end s < heap_cur s + HEADER + n" using \<open>\<not> bump_fits n s\<close> fe by simp
      with False e gc(1) gc(3) show ?thesis by (simp add: n_def)
    next
      case True
      then obtain cs where cs: "kheap_inv t cs L" "heap_cur t + HEADER + n \<le> heap_end t"
        "0 < heap_cur t" "heap_end t + 7 < 2 ^ 64" using gc(2) by blast
      have "bump_fits n t" using cs by (subst bump_fits_eq) (simp_all add: kheap_inv_def)
      with e True have "kmalloc beyond size0 s = Some (bump n t)" by simp
      with cs gc(1) show ?thesis unfolding n_def by blast
    qed
  qed
qed

text \<open>
  C7. The kernel heap's allocation is safe, for a request that leaves 128 KiB between the cursor
  of the kernel's pages and the top of the address space. From a state in which no two blocks
  overlap, \<open>kmalloc\<close> returns and the earlier live blocks keep their sizes. The result is null
  only when no free block is as large, the end of the heap has no room for the block, and the
  page allocator refused the number of pages the block needs; otherwise it is an 8-byte
  aligned pointer behind the header of a new live block of at least the size asked for, and
  no block, free or live, overlaps another.
\<close>

theorem kmalloc_correct:
  assumes inv: "kheap_inv s bs L" and size: "0 < size0" and rm: "room (size0 + 8) s"
  shows "\<exists>p s'. kmalloc beyond size0 s = Some (p, s')
    \<and> (\<forall>b\<in>L. bsize (blk s') b = bsize (blk s) b)
    \<and> (p = 0 \<longrightarrow> (\<forall>b\<in>set bs. bsize (blk s) b < align8 size0)
         \<and> heap_end s < heap_cur s + HEADER + align8 size0
         \<and> fst (vmm_alloc_pages beyond (pages_wanted (align8 size0)) (kvm s)) = 0)
    \<and> (p \<noteq> 0 \<longrightarrow> 8 dvd p \<and> HEADER \<le> p \<and> p - HEADER \<notin> L \<and> size0 \<le> bsize (blk s') (p - HEADER)
         \<and> (\<exists>bs'. kheap_inv s' bs' (insert (p - HEADER) L)))"
proof -
  have n: "size0 \<le> align8 size0" "8 dvd align8 size0" using align8_up [of size0] rm by (auto simp: room_def)
  have "free_path (blk s) bs" using inv by (simp add: kheap_inv_def free_inv_def)
  from find_fit_list [OF this, of "align8 size0"] show ?thesis
  proof (elim disjE exE conjE)
    fix zs c ys
    assume z: "bs = zs @ c # ys" and c: "align8 size0 \<le> bsize (blk s) c"
      and ff: "find_fit (blk s) (align8 size0) None (free_list (blk s)) = Some (link_after zs, c)"
    from kmalloc_from_list [OF inv [unfolded z] size c n ff, of beyond] obtain s' where
      k: "kmalloc beyond size0 s = Some (c + HEADER, s')" "granted size0 L s' (c + HEADER)" "c + HEADER \<noteq> 0"
        "\<forall>b\<in>L. bsize (blk s') b = bsize (blk s) b" by blast
    then show ?thesis unfolding granted_def by (intro exI [of _ "c + HEADER"] exI [of _ s']) auto
  next
    assume small: "\<forall>b\<in>set bs. bsize (blk s) b < align8 size0"
      and ff: "find_fit (blk s) (align8 size0) None (free_list (blk s)) = Some (link_after bs, 0)"
    from kmalloc_from_end [OF inv size rm ff, of beyond] show ?thesis
    proof (elim disjE exE conjE)
      fix t cs
      assume k: "kmalloc beyond size0 s = Some (bump (align8 size0) t)" and t: "kheap_inv t cs L"
        "heap_cur t + HEADER + align8 size0 \<le> heap_end t" "0 < heap_cur t" "heap_end t + 7 < 2 ^ 64"
        "\<forall>b\<in>L. bsize (blk t) b = bsize (blk s) b"
      obtain p s' where b: "bump (align8 size0) t = (p, s')" by fastforce
      from bump_granted [OF t(1-4) n b] k t(5) b show ?thesis by (auto simp: granted_def)
    next
      fix t
      assume "kmalloc beyond size0 s = Some (0, t)" "\<forall>b\<in>L. bsize (blk t) b = bsize (blk s) b"
        "heap_end s < heap_cur s + HEADER + align8 size0"
        "fst (vmm_alloc_pages beyond (pages_wanted (align8 size0)) (kvm s)) = 0"
      with small show ?thesis by blast
    qed
  qed
qed

text \<open>
  C8. Freeing a live block returns and keeps the heap sound: the block is no longer live, the
  bytes it occupied lie inside one free block (joined with its neighbours when the list has
  them next to each other), no two blocks overlap, and the other live blocks keep their sizes.
\<close>

theorem kfree_correct:
  assumes inv: "kheap_inv s bs L" and p: "p - HEADER \<in> L" "HEADER \<le> p" "p < 2 ^ 64"
  shows "\<exists>s' bs'. kfree p s = Some s' \<and> kheap_inv s' bs' (L - {p - HEADER})
    \<and> (\<forall>b\<in>L - {p - HEADER}. bsize (blk s') b = bsize (blk s) b)
    \<and> (\<exists>f\<in>set bs'. ext (blk s) (p - HEADER) \<subseteq> ext (blk s') f)"
proof -
  have fi: "free_inv (blk s) bs L" using inv by (simp add: kheap_inv_def)
  from free_block_inv [OF fi p(1)] obtain h' bs' where h:
    "free_block (blk s) (p - HEADER) = Some h'" "free_inv h' bs' (L - {p - HEADER})"
    "cover h' (set bs' \<union> (L - {p - HEADER})) = cover (blk s) (set bs \<union> L)"
    "\<forall>a\<in>L - {p - HEADER}. bsize h' a = bsize (blk s) a"
    "\<exists>f\<in>set bs'. ext (blk s) (p - HEADER) \<subseteq> ext h' f" by blast
  have "sub64 p HEADER = p - HEADER" by (rule sub64_eq) (use p in simp_all)
  moreover have "p \<noteq> 0" using p(2) by (auto simp: HEADER_def)
  ultimately have "kfree p s = Some (s\<lparr>blk := h'\<rparr>)" using h(1) by (simp add: kfree_def)
  moreover have "kheap_inv (s\<lparr>blk := h'\<rparr>) bs' (L - {p - HEADER})"
    using inv h(2,3) by (simp add: kheap_inv_def)
  ultimately show ?thesis using h(4,5) by (intro exI [of _ "s\<lparr>blk := h'\<rparr>"] exI [of _ bs']) simp
qed

text \<open>
  A failed growth breaks the heap. When the bump region still had room for a block but not
  for the request, and the page allocator refuses, \<open>kmalloc\<close> answers null and leaves the
  leftover both in the free list and in the bump region: the next two requests of the
  leftover's size both return the same pointer.
\<close>

theorem kmalloc_double_allocation:
  assumes inv: "kheap_inv s bs L" and size: "0 < size0" "align8 size0 = n0"
    and left: "HEADER + 8 \<le> heap_end s - heap_cur s" "n = heap_end s - heap_cur s - HEADER"
    and big: "n < n0" "\<forall>b\<in>set bs. bsize (blk s) b < n" and rm: "room (n0 + 8) s"
    and oom: "\<And>m. 0 < m \<Longrightarrow> fst (vmm_alloc_pages beyond m (kvm s)) = 0"
  shows "\<exists>s1 s2 s3. kmalloc beyond size0 s = Some (0, s1)
    \<and> kmalloc beyond n s1 = Some (heap_cur s + HEADER, s2)
    \<and> kmalloc beyond n s2 = Some (heap_cur s + HEADER, s3)"
proof -
  have al: "8 dvd heap_cur s" "8 dvd heap_end s" "heap_cur s \<le> heap_end s" "heap_end s \<le> cursor s"
    "heap_cur s = 0 \<longrightarrow> heap_end s = 0" using inv by (simp_all add: kheap_inv_def)
  let ?c = "heap_cur s"
  have c: "0 < ?c" "heap_end s + 7 < 2 ^ 64" using al left rm by (auto simp: room_def HEADER_def)
  have n8: "8 dvd n" "0 < n" "n + 7 < 2 ^ 64" using al left c by (auto simp: HEADER_def)
  have nn: "align8 n = n" using align8_aligned n8 by simp
  have fi: "free_inv (blk s) bs L" using inv by (simp add: kheap_inv_def)
  then have fp: "free_path (blk s) bs" by (simp add: free_inv_def)
  have miss: "find_fit h k None (free_list h) = Some (link_after bs, 0)"
    if "free_path h bs" "\<forall>b\<in>set bs. bsize h b < k" for h k
    using find_fit_list [OF that(1), of k] that(2) by auto
  have cnot: "?c \<notin> set bs"
  proof
    assume "?c \<in> set bs"
    then have "?c \<in> cover (blk s) (set bs \<union> L)" using ext_self [of ?c "blk s"] unfolding cover_def by blast
    moreover have "?c \<in> {?c ..< heap_end s}" using left by (auto simp: HEADER_def)
    ultimately show False using inv unfolding kheap_inv_def by blast
  qed
  text \<open>The first request fails and pushes the leftover.\<close>
  have nofit: "\<not> bump_fits n0 s"
    using al rm big left by (subst bump_fits_eq) (auto simp: room_def HEADER_def)
  let ?h1 = "(blk s)\<lparr>bsize := (bsize (blk s))(?c := n), bnext := (bnext (blk s))(?c := free_list (blk s)),
      free_list := ?c\<rparr>"
  have sub: "sub64 (heap_end s) ?c = heap_end s - ?c" using al c by (intro sub64_eq) simp_all
  have push: "add_remaining_bump_to_free_list s = s\<lparr>blk := ?h1\<rparr>"
    using left by (simp add: add_remaining_bump_to_free_list_def Let_def sub)
  have "\<exists>w. kmalloc beyond size0 s = Some (0, s\<lparr>blk := ?h1, kvm := w\<rparr>)"
  proof -
    have "\<forall>b\<in>set bs. bsize (blk s) b < n0" using big by auto
    note ff = miss [OF fp this]
    obtain w where "grow_heap beyond (add64 HEADER n0) s = (False, s\<lparr>blk := ?h1, kvm := w\<rparr>)"
      using grow_heap_oom [OF oom, of "add64 HEADER n0"] unfolding push by auto
    with ff size nofit show ?thesis by (intro exI [of _ w]) (simp add: kmalloc_def Let_def)
  qed
  then obtain w where w: "kmalloc beyond size0 s = Some (0, s\<lparr>blk := ?h1, kvm := w\<rparr>)" by blast
  let ?s1 = "s\<lparr>blk := ?h1, kvm := w\<rparr>"
  text \<open>The second takes the leftover from the free list.\<close>
  have ff1: "find_fit ?h1 n None ?c = Some (None, ?c)" using c(1) by (subst find_fit.simps) simp
  have tb: "take_block ?h1 n None ?c = ?h1\<lparr>free_list := free_list (blk s)\<rparr>"
    by (simp add: take_block_def set_link_def HEADER_def)
  have ac: "add64 ?c HEADER = ?c + HEADER" using c al left by (intro add64_eq) (simp add: HEADER_def)
  let ?s2 = "?s1\<lparr>blk := ?h1\<lparr>free_list := free_list (blk s)\<rparr>\<rparr>"
  have k2: "kmalloc beyond n ?s1 = Some (?c + HEADER, ?s2)"
    using n8 nn ff1 c(1) tb ac by (simp add: kmalloc_def)
  text \<open>The third takes it from the bump region.\<close>
  let ?h2 = "?h1\<lparr>free_list := free_list (blk s)\<rparr>"
  have fp2: "free_path ?h2 bs" using fp cnot by (simp add: free_path_def seg_upd)
  have "\<forall>b\<in>set bs. bsize ?h2 b < n" using big(2) cnot by auto
  from miss [OF fp2 this]
  have ff2: "find_fit ?h2 n None (free_list ?h2) = Some (link_after bs, 0)" .
  have bf: "bump_fits n ?s2"
    using al c left by (subst bump_fits_eq) (auto simp: HEADER_def)
  have "fst (bump n ?s2) = ?c + HEADER"
    using al c by (simp add: bump_def Let_def align8_aligned ac)
  then have "\<exists>s3. kmalloc beyond n ?s2 = Some (?c + HEADER, s3)"
    using n8 nn ff2 bf by (simp add: kmalloc_def) (metis surj_pair fst_conv)
  with w k2 show ?thesis by blast
qed

text \<open>
  The size is not checked for overflow. A request just below \<open>2 ^ 64\<close> that no free block
  can serve wraps around the end computation: \<open>kmalloc\<close> returns a pointer as if it had
  succeeded and moves the bump pointer back by 4080 bytes, below memory already handed out.
\<close>

theorem kmalloc_size_wraps:
  assumes "kheap_inv s bs L" "8192 \<le> heap_cur s" "heap_end s + 16 < 2 ^ 64"
    and "\<forall>b\<in>set bs. bsize (blk s) b < 2 ^ 64 - 4096"
  shows "\<exists>s'. kmalloc beyond (2 ^ 64 - 4096) s = Some (heap_cur s + HEADER, s')
    \<and> heap_cur s' = heap_cur s - 4080"
proof -
  let ?n = "2 ^ 64 - 4096 :: nat"
  have al: "8 dvd heap_cur s" "heap_cur s \<le> heap_end s" using assms by (simp_all add: kheap_inv_def)
  have an: "align8 ?n = ?n" by (rule align8_aligned) simp_all
  have ac: "align8 (heap_cur s) = heap_cur s" using al assms(3) by (intro align8_aligned) simp_all
  have ad: "add64 (heap_cur s) HEADER = heap_cur s + HEADER"
    using al assms(3) by (intro add64_eq) (simp add: HEADER_def)
  have w: "add64 (heap_cur s + HEADER) ?n = heap_cur s - 4080"
  proof -
    have "heap_cur s + HEADER + ?n = (heap_cur s - 4080) + 2 ^ 64" "heap_cur s - 4080 < 2 ^ 64"
      using assms(2,3) al by (simp_all add: HEADER_def)
    then show ?thesis unfolding add64_def by (simp only: mod_add_self2 mod_less)
  qed
  have "free_path (blk s) bs" using assms(1) by (simp add: kheap_inv_def free_inv_def)
  from find_fit_list [OF this, of ?n] assms(4)
  have ff: "find_fit (blk s) ?n None (free_list (blk s)) = Some (link_after bs, 0)" by auto
  have bf: "bump_fits ?n s" using al unfolding bump_fits_def ac ad w by simp
  have "kmalloc beyond ?n s = Some (bump ?n s)"
    unfolding kmalloc_def Let_def an ff using bf by simp
  moreover have "fst (bump ?n s) = heap_cur s + HEADER" "heap_cur (snd (bump ?n s)) = heap_cur s - 4080"
    unfolding bump_def Let_def ac ad w by simp_all
  ultimately show ?thesis by (metis surjective_pairing)
qed


text \<open>Witness states: a fresh heap, and one with a live block of 16 bytes at 8192.\<close>

definition kheap_fresh :: kheap where
  "kheap_fresh = \<lparr>blk = \<lparr>bsize = (\<lambda>_. 0), bnext = (\<lambda>_. 0), free_list = 0\<rparr>,
     heap_cur = 0, heap_end = 0, kvm = vmm_demo\<rparr>"

definition kheap_one :: "vmm \<Rightarrow> kheap" where
  "kheap_one v = \<lparr>blk = \<lparr>bsize = (\<lambda>_. 16), bnext = (\<lambda>_. 0), free_list = 0\<rparr>,
     heap_cur = 8224, heap_end = 12288, kvm = v\<rparr>"

lemma vmm_demo_cursor: "unat (kernel_heap_cur vmm_demo) = 0xFFFFA00000000000"
  by (simp add: vmm_demo_def KERNEL_HEAP_VADDR_def)

lemma kheap_fresh_inv: "kheap_inv kheap_fresh [] {}" "room 16 kheap_fresh"
  by (simp_all add: kheap_inv_def free_inv_def free_path_def blocks_ok_def cover_def room_def
      kheap_fresh_def vmm_demo_cursor)

lemma kheap_one_inv:
  assumes "kernel_heap_cur v = kernel_heap_cur vmm_demo"
  shows "kheap_inv (kheap_one v) [] {8192}" "room 65536 (kheap_one v)"
  by (simp_all add: kheap_inv_def free_inv_def free_path_def blocks_ok_def block_ok_def cover_def
      ext_def room_def kheap_one_def vmm_demo_cursor HEADER_def assms subset_iff)

lemma kheap_one_kmalloc: "map_option fst (kmalloc (\<lambda>_. 0) 8 (kheap_one vmm_demo)) = Some 8240"
proof -
  have h: "free_list (blk (kheap_one vmm_demo)) = 0" "heap_cur (kheap_one vmm_demo) = 8224"
    "heap_end (kheap_one vmm_demo) = 12288" by (simp_all add: kheap_one_def)
  have "find_fit (blk (kheap_one vmm_demo)) 8 None 0 = Some (None, 0)" by (subst find_fit.simps) simp
  moreover have "align8 8 = 8" "align8 8224 = 8224" "add64 8224 HEADER = 8240" "add64 8240 8 = 8248"
    by (simp_all add: align8_def add64_def HEADER_def)
  ultimately show ?thesis by (simp add: kmalloc_def bump_fits_def bump_def Let_def h)
qed

theorem kmalloc_correct_witness:
  "\<exists>s' bs'. kmalloc (\<lambda>_. 0) 8 (kheap_one vmm_demo) = Some (8240, s')
    \<and> bsize (blk s') 8192 = 16 \<and> 8 \<le> bsize (blk s') 8224 \<and> kheap_inv s' bs' {8224, 8192}"
proof -
  have r: "room (8 + 8) (kheap_one vmm_demo)" using kheap_one_inv(2) [OF refl] by (simp add: room_def)
  have b: "bsize (blk (kheap_one vmm_demo)) 8192 = 16" by (simp add: kheap_one_def)
  have "0 < (8 :: nat)" by simp
  from kmalloc_correct [OF kheap_one_inv(1) [OF refl] this r, of "\<lambda>_. 0"] kheap_one_kmalloc b
  show ?thesis by (auto simp: HEADER_def)
qed

theorem kfree_correct_witness:
  "\<exists>s' bs'. kfree 8208 (kheap_one vmm_demo) = Some s' \<and> kheap_inv s' bs' {}
    \<and> (\<exists>f\<in>set bs'. {8192 ..< 8224} \<subseteq> ext (blk s') f)"
proof -
  have e: "8208 - HEADER = 8192" "ext (blk (kheap_one vmm_demo)) 8192 = {8192 ..< 8224}"
    by (simp_all add: HEADER_def ext_def kheap_one_def)
  have p: "8208 - HEADER \<in> {8192}" "HEADER \<le> 8208" "(8208 :: nat) < 2 ^ 64" by (simp_all add: HEADER_def)
  from kfree_correct [OF kheap_one_inv(1) [OF refl] p] show ?thesis unfolding e by auto
qed

definition vmm_empty :: vmm where
  "vmm_empty = vmm_demo\<lparr>pm := pmm_boot\<rparr>"

lemma vmm_empty_oom: "0 < m \<Longrightarrow> fst (vmm_alloc_pages beyond m vmm_empty) = 0"
  by (cases m) (simp_all add: vmm_alloc_pages_def vmm_empty_def pmm_alloc_page_def pmm_boot_def Let_def)

theorem kmalloc_double_allocation_witness:
  "\<exists>s1 s2 s3. kmalloc (\<lambda>_. 0) 8192 (kheap_one vmm_empty) = Some (0, s1)
    \<and> kmalloc (\<lambda>_. 0) 4048 s1 = Some (8240, s2) \<and> kmalloc (\<lambda>_. 0) 4048 s2 = Some (8240, s3)"
proof -
  have inv: "kheap_inv (kheap_one vmm_empty) [] {8192}" "room (8192 + 8) (kheap_one vmm_empty)"
    using kheap_one_inv [of vmm_empty] by (simp_all add: vmm_empty_def room_def)
  have a: "align8 8192 = 8192" by (simp add: align8_aligned)
  have "heap_cur (kheap_one vmm_empty) + HEADER = 8240" by (simp add: kheap_one_def HEADER_def)
  with kmalloc_double_allocation [OF inv(1) _ a _ _ _ _ inv(2), of 4048 "\<lambda>_. 0"] show ?thesis
    by (simp add: kheap_one_def HEADER_def vmm_empty_oom)
qed

theorem kmalloc_size_wraps_witness:
  "\<exists>s'. kmalloc (\<lambda>_. 0) (2 ^ 64 - 4096) (kheap_one vmm_demo) = Some (8240, s') \<and> heap_cur s' = 4144"
proof -
  have "8192 \<le> heap_cur (kheap_one vmm_demo)" "heap_end (kheap_one vmm_demo) + 16 < 2 ^ 64"
    "heap_cur (kheap_one vmm_demo) + HEADER = 8240" "heap_cur (kheap_one vmm_demo) - 4080 = 4144"
    by (simp_all add: kheap_one_def HEADER_def)
  with kmalloc_size_wraps [OF kheap_one_inv(1) [OF refl], of "\<lambda>_. 0"] show ?thesis by simp
qed

end
