(* ===== verification/Umalloc.thy ===== *)
theory Umalloc
  imports Kmalloc
begin

text \<open>
  The user heap, \<open>kernel/src/mm/umalloc.c\<close>: the same block lists as the kernel heap over one
  region that grows page by page at its end and, unlike the kernel heap, shrinks again when
  its last block is free.
\<close>

definition USER_HEAP_START :: nat where "USER_HEAP_START = 0x00400000"

record uheap =
  ublk :: blocks
  user_heap_break :: nat
  user_heap_mapped_end :: nat
  uvm :: vmm

partial_function (option) expand_user_heap_to ::
    "(nat \<Rightarrow> u8) \<Rightarrow> nat \<Rightarrow> uheap \<Rightarrow> (bool \<times> uheap) option" where
  "expand_user_heap_to beyond required_end s =
     (if user_heap_mapped_end s < required_end
      then case pmm_alloc_page beyond (pm (uvm s)) of
             (None, p) \<Rightarrow> Some (False, s\<lparr>uvm := (uvm s)\<lparr>pm := p\<rparr>\<rparr>)
           | (Some phys, p) \<Rightarrow>
               (case vmm_map_page beyond (of_nat (user_heap_mapped_end s)) (of_nat phys)
                       (PAGE_PRESENT OR PAGE_WRITABLE OR PAGE_USER) ((uvm s)\<lparr>pm := p\<rparr>) of
                  (r, vm) \<Rightarrow>
                    if r = 0 then Some (False, s\<lparr>uvm := vm\<lparr>pm := pmm_free_page phys (pm vm)\<rparr>\<rparr>)
                    else expand_user_heap_to beyond required_end
                           (s\<lparr>uvm := vm, user_heap_mapped_end := add64 (user_heap_mapped_end s) PAGE_SIZE\<rparr>))
      else Some (True, s))"

definition umalloc_init :: "uheap \<Rightarrow> uheap" where
  "umalloc_init s = s\<lparr>user_heap_break := USER_HEAP_START, user_heap_mapped_end := USER_HEAP_START,
     ublk := (ublk s)\<lparr>free_list := 0\<rparr>\<rparr>"

definition umalloc :: "(nat \<Rightarrow> u8) \<Rightarrow> nat \<Rightarrow> uheap \<Rightarrow> (nat \<times> uheap) option" where
  "umalloc beyond size0 s =
     (if size0 = 0 then Some (0, s)
      else let n = align8 size0 in
        Option.bind (find_fit (ublk s) n None (free_list (ublk s))) (\<lambda>(prev, cur).
          if cur \<noteq> 0 then Some (add64 cur HEADER, s\<lparr>ublk := take_block (ublk s) n prev cur\<rparr>)
          else let alloc_start = align8 (user_heap_break s);
                   new_break = add64 (add64 alloc_start HEADER) n
               in if new_break < alloc_start then Some (0, s)
                  else Option.bind (expand_user_heap_to beyond new_break s) (\<lambda>(ok, s).
                    if \<not> ok then Some (0, s)
                    else Some (add64 alloc_start HEADER,
                               s\<lparr>ublk := (ublk s)\<lparr>bsize := (bsize (ublk s))(alloc_start := n)\<rparr>,
                                 user_heap_break := new_break\<rparr>))))"

text \<open>The end of the free list, and the pages given back from there on.\<close>

partial_function (option) last_block :: "blocks \<Rightarrow> nat \<Rightarrow> nat option" where
  "last_block h b =
     (if b \<noteq> 0 \<and> bnext h b \<noteq> 0 then last_block h (bnext h b) else Some b)"

partial_function (option) release_pages :: "(nat \<Rightarrow> u8) \<Rightarrow> nat \<Rightarrow> nat \<Rightarrow> vmm \<Rightarrow> vmm option" where
  "release_pages beyond addr stop vm =
     (if addr < stop
      then let phys = vmm_get_phys_addr beyond (of_nat addr) vm;
               vm = vmm_unmap_page beyond (of_nat addr) vm;
               vm = (if phys \<noteq> 0 then vm\<lparr>pm := pmm_free_page (unat phys) (pm vm)\<rparr> else vm)
           in release_pages beyond (add64 addr PAGE_SIZE) stop vm
      else Some vm)"

definition trim :: "(nat \<Rightarrow> u8) \<Rightarrow> uheap \<Rightarrow> uheap option" where
  "trim beyond s =
     Option.bind (last_block (ublk s) (free_list (ublk s))) (\<lambda>lst.
       if lst \<noteq> 0 \<and> block_end (ublk s) lst = user_heap_mapped_end s
       then let new_mapped = lst div PAGE_SIZE * PAGE_SIZE in
            if USER_HEAP_START \<le> new_mapped \<and> new_mapped < user_heap_mapped_end s
            then Option.bind (release_pages beyond new_mapped (user_heap_mapped_end s) (uvm s)) (\<lambda>vm.
              let h = ublk s;
                  unlinked = (if free_list h = lst then Some (h\<lparr>free_list := bnext h lst\<rparr>)
                              else Option.bind (pred_of h lst (free_list h)) (\<lambda>p.
                                Some (if p \<noteq> 0 then h\<lparr>bnext := (bnext h)(p := bnext h lst)\<rparr> else h)))
              in Option.bind unlinked (\<lambda>h.
                   Some (s\<lparr>uvm := vm, user_heap_mapped_end := new_mapped, ublk := h,
                           user_heap_break := (if new_mapped < user_heap_break s then new_mapped
                                               else user_heap_break s)\<rparr>)))
            else Some s
       else Some s)"

definition ufree :: "(nat \<Rightarrow> u8) \<Rightarrow> nat \<Rightarrow> uheap \<Rightarrow> uheap option" where
  "ufree beyond ptr s =
     (if ptr = 0 then Some s
      else Option.bind (free_block (ublk s) (sub64 ptr HEADER)) (\<lambda>h. trim beyond (s\<lparr>ublk := h\<rparr>)))"

section \<open>The invariant\<close>

text \<open>
  All blocks lie between the start of the heap and the break, and the break lies below the end
  that the heap counts as mapped; \<open>heap_mapped\<close> below says what is mapped there.
\<close>

definition uheap_inv :: "uheap \<Rightarrow> nat list \<Rightarrow> nat set \<Rightarrow> bool" where
  "uheap_inv s bs L \<longleftrightarrow> free_inv (ublk s) bs L
     \<and> cover (ublk s) (set bs \<union> L) \<subseteq> {USER_HEAP_START ..< user_heap_break s}
     \<and> USER_HEAP_START \<le> user_heap_break s \<and> user_heap_break s \<le> user_heap_mapped_end s
     \<and> 8 dvd user_heap_break s \<and> PAGE_SIZE dvd user_heap_mapped_end s"

section \<open>The mapping below the region\<close>

text \<open>
  The pages of the region and what lies below them: the lower half of the address space has no
  large pages, every page of the region translates to a frame, different pages to different
  frames, and none of these frames is free. The memory that is still free cannot take the
  region out of the lower half, which ends at 128 TiB.
\<close>

definition heap_pages :: "uheap \<Rightarrow> nat set" where
  "heap_pages s = {a. USER_HEAP_START \<le> a \<and> a < user_heap_mapped_end s \<and> PAGE_SIZE dvd a}"

definition page_frame :: "(nat \<Rightarrow> u8) \<Rightarrow> uheap \<Rightarrow> nat \<Rightarrow> nat" where
  "page_frame beyond s a = unat (vmm_get_phys_addr beyond (of_nat a) (uvm s))"

definition heap_mapped :: "(nat \<Rightarrow> u8) \<Rightarrow> uheap \<Rightarrow> bool" where
  "heap_mapped beyond s \<longleftrightarrow> vmm_inv (uvm s) \<and> (\<forall>a<2 ^ 47. small_pages (uvm s) (of_nat a))
     \<and> user_heap_mapped_end s + PAGE_SIZE * card (free_set (pm (uvm s))) \<le> 2 ^ 47
     \<and> PAGE_SIZE dvd user_heap_mapped_end s
     \<and> inj_on (page_frame beyond s) (heap_pages s)
     \<and> page_frame beyond s ` heap_pages s \<inter> insert 0 (frames_of (free_set (pm (uvm s)))) = {}"

lemma heap_page_low: "heap_mapped beyond s \<Longrightarrow> a \<in> heap_pages s \<Longrightarrow> a < 2 ^ 47"
  by (simp add: heap_mapped_def heap_pages_def)

lemma page_frame_phys: "heap_mapped beyond s \<Longrightarrow> a < 2 ^ 47 \<Longrightarrow> page_frame beyond s a = unat (phys_of (uvm s) (of_nat a))"
  by (simp add: heap_mapped_def page_frame_def get_phys_eq)

text \<open>Addresses below 128 TiB with the same table indices lie in the same page.\<close>

lemma low_page_indices:
  assumes "a < 2 ^ 47" "b < 2 ^ 47" "PAGE_SIZE dvd a" "PAGE_SIZE dvd b"
    and "pt_indices (of_nat a) = pt_indices (of_nat b)"
  shows "a = b"
proof -
  have v: "(of_nat c :: u64) = vpage 0 (c div PAGE_SIZE)" if "PAGE_SIZE dvd c" for c
  proof -
    have "(of_nat c :: u64) = of_nat (c div PAGE_SIZE * PAGE_SIZE)" using that by simp
    then show ?thesis by (simp only: vpage_def of_nat_mult add_0)
  qed
  have "a div PAGE_SIZE = b div PAGE_SIZE"
    using assms by (intro vpage_distinct [of _ _ 0]) (simp_all add: v PAGE_SIZE_def)
  with assms(3,4) show ?thesis by (metis dvd_div_mult_self)
qed

lemma page_offset_indices:
  assumes "PAGE_SIZE dvd a" "j < PAGE_SIZE" "a + j < 2 ^ 64"
  shows "pt_indices (of_nat (a + j)) = pt_indices (of_nat a)"
proof -
  have un: "unat (of_nat c :: u64) = c" if "c < 2 ^ 64" for c
    using that by (simp add: unat_of_nat take_bit_nat_eq_self)
  have "(a + j) div 4096 = a div 4096" using assms(1,2) by (auto simp: PAGE_SIZE_def elim: dvdE)
  then have d: "drop_bit 12 (of_nat (a + j) :: u64) = drop_bit 12 (of_nat a)"
    using un [of "a + j"] un [of a] assms(3)
    by (simp only: word_unat_eq_iff unat_drop_bit_eq) (simp add: drop_bit_eq_div)
  have "drop_bit (12 + n) (of_nat (a + j) :: u64) = drop_bit (12 + n) (of_nat a)" for n
    unfolding add.commute [of 12 n] drop_bit_drop_bit [symmetric] by (simp only: d)
  from this [of 0] this [of 9] this [of 18] this [of 27] show ?thesis
    by (simp only: pt_indices_def PML4_IDX_def PDPT_IDX_def PD_IDX_def PT_IDX_def add_0_right)
       (simp only: numeral_plus_numeral add_num_simps)
qed

text \<open>Every byte of the region is mapped.\<close>

lemma heap_byte_mapped:
  assumes hm: "heap_mapped beyond s" and x: "USER_HEAP_START \<le> x" "x < user_heap_mapped_end s"
  shows "vmm_get_phys_addr beyond (of_nat x) (uvm s) \<noteq> 0"
proof -
  define a where "a = x div PAGE_SIZE * PAGE_SIZE"
  have xa: "x = a + x mod PAGE_SIZE" by (simp add: a_def)
  have sz: "0 < PAGE_SIZE" by (simp add: PAGE_SIZE_def)
  have "USER_HEAP_START div PAGE_SIZE \<le> x div PAGE_SIZE" using x(1) by (rule div_le_mono)
  then have "USER_HEAP_START \<le> a" by (simp add: a_def USER_HEAP_START_def PAGE_SIZE_def)
  moreover have "a \<le> x" "PAGE_SIZE dvd a" by (simp_all add: a_def)
  ultimately have ah: "a \<in> heap_pages s" using x(2) by (simp add: heap_pages_def)
  have low: "a < 2 ^ 47" "x < 2 ^ 47" using hm x(2) xa by (simp_all add: heap_mapped_def)
  have sp: "small_pages (uvm s) (of_nat a)" "small_pages (uvm s) (of_nat x)" using hm low by (simp_all add: heap_mapped_def)
  have "page_frame beyond s a \<noteq> 0" using hm ah by (auto simp: heap_mapped_def)
  then have nz: "phys_of (uvm s) (of_nat a) \<noteq> 0" using page_frame_phys [OF hm low(1)] by (metis unat_0)
  have "pt_indices (of_nat x) = pt_indices (of_nat a)"
    using page_offset_indices [of a "x mod PAGE_SIZE"] low sz xa by (simp add: a_def)
  then have ix: "dirs (of_nat x) = dirs (of_nat a)" "PT_IDX (of_nat x) = PT_IDX (of_nat a)"
    by (simp_all add: pt_indices_eq)
  have "vpage 0 (a div PAGE_SIZE) = (of_nat a :: u64)" by (simp add: vpage_def a_def)
  then have "(of_nat a :: u64) AND 0xFFF = 0" using low_bits_vpage [of 0 "a div PAGE_SIZE"] by simp
  with nz have "phys_of (uvm s) (of_nat x) \<noteq> 0"
    by (auto simp: phys_of_def Let_def ix or_eq_0_iff split: if_splits)
  then show ?thesis using sp(2) by (simp add: get_phys_eq)
qed

lemma heap_mappedD:
  assumes "heap_mapped beyond s"
  shows "vmm_inv (uvm s)" "b < 2 ^ 47 \<Longrightarrow> small_pages (uvm s) (of_nat b)" "PAGE_SIZE dvd user_heap_mapped_end s"
    "user_heap_mapped_end s + PAGE_SIZE * card (free_set (pm (uvm s))) \<le> 2 ^ 47"
    "inj_on (page_frame beyond s) (heap_pages s)"
    "page_frame beyond s ` heap_pages s \<inter> insert 0 (frames_of (free_set (pm (uvm s)))) = {}"
    "b < 2 ^ 47 \<Longrightarrow> vmm_get_phys_addr beyond (of_nat b) (uvm s) = phys_of (uvm s) (of_nat b)"
  using assms by (simp_all add: heap_mapped_def get_phys_eq)

text \<open>One turn of the expansion takes a frame, and maps it behind the region.\<close>

lemma expand_frame:
  assumes hm: "heap_mapped beyond s" and al: "pmm_alloc_page beyond (pm (uvm s)) = (Some a, q)"
  shows "vmm_inv ((uvm s)\<lparr>pm := q\<rparr>)" "Suc (card (free_set q)) = card (free_set (pm (uvm s)))"
    "user_heap_mapped_end s < 2 ^ 47" "a \<notin> page_frame beyond s ` heap_pages s" "a \<noteq> 0"
    "frames_of {a div PAGE_SIZE} = {a}"
proof -
  let ?F = "free_set (pm (uvm s))"
  note inv = heap_mappedD(1) [OF hm] and bd = heap_mappedD(4) [OF hm]
  note af = alloc_frame [OF inv al]
  have ak: "a div PAGE_SIZE \<in> ?F" "a div PAGE_SIZE * PAGE_SIZE = a"
    using af(3) by (auto simp: frames_of_def PAGE_SIZE_def)
  show it: "vmm_inv ((uvm s)\<lparr>pm := q\<rparr>)" using inv af by (auto simp: vmm_inv_def)
  have "frames_of (free_set q) = frames_of (?F - {a div PAGE_SIZE})"
    unfolding af(6) frames_of_simps(1) ak(2) by (rule refl)
  then have "card (free_set q) = card (?F - {a div PAGE_SIZE})" by (metis frames_of_simps(4))
  then show cq: "Suc (card (free_set q)) = card ?F" using card_Suc_Diff1 [OF finite_free_set ak(1)] by simp
  show "user_heap_mapped_end s < 2 ^ 47" using bd cq by (cases "card ?F") (simp_all add: PAGE_SIZE_def)
  show "a \<notin> page_frame beyond s ` heap_pages s" using heap_mappedD(6) [OF hm] af(3) by blast
  show "a \<noteq> 0" using af(5) by (auto simp: managed_frames_def frames_of_def PAGE_SIZE_def)
  show "frames_of {a div PAGE_SIZE} = {a}" unfolding frames_of_def using ak(2) by simp
qed

lemma expand_map:
  assumes hm: "heap_mapped beyond s" and al: "pmm_alloc_page beyond (pm (uvm s)) = (Some a, q)"
    and m: "vmm_map_page beyond (of_nat (user_heap_mapped_end s)) (of_nat a)
      (PAGE_PRESENT OR PAGE_WRITABLE OR PAGE_USER) ((uvm s)\<lparr>pm := q\<rparr>) = (r, vm)"
    and st: "USER_HEAP_START \<le> user_heap_mapped_end s"
  shows "vmm_inv vm" "\<forall>b<2 ^ 47. small_pages vm (of_nat b)" "free_set (pm vm) \<subseteq> free_set q"
    "total_pages (pm vm) = total_pages q"
    "\<forall>t\<in>tables (pages vm) (root vm). t \<in> tables (pages (uvm s)) (root (uvm s)) \<or> unat t \<in> frames_of (free_set q)"
    "r = 0 \<Longrightarrow> free_set (pm vm) = {} \<and> (\<forall>w. phys_of vm w = phys_of (uvm s) w)"
    "r \<noteq> 0 \<Longrightarrow> phys_of vm (of_nat (user_heap_mapped_end s)) = of_nat a"
    "r \<noteq> 0 \<Longrightarrow> b \<in> heap_pages s \<Longrightarrow> phys_of vm (of_nat b) = phys_of (uvm s) (of_nat b)"
proof -
  let ?e = "user_heap_mapped_end s"
  let ?v = "of_nat ?e :: u64"
  note D = heap_mappedD [OF hm] and X = expand_frame [OF hm al]
  note af = alloc_frame [OF D(1) al]
  have "unat ?v = ?e" using X(3) by (simp add: unat_of_nat take_bit_nat_eq_self)
  then have nz: "?v \<noteq> 0" using st by (auto simp: USER_HEAP_START_def)
  have spt: "small_pages ((uvm s)\<lparr>pm := q\<rparr>) w = small_pages (uvm s) w" for w by (simp add: small_pages_def)
  have pht: "phys_of ((uvm s)\<lparr>pm := q\<rparr>) w = phys_of (uvm s) w" for w by (simp add: phys_of_def)
  have fl: "(PAGE_PRESENT OR PAGE_WRITABLE OR PAGE_USER) AND PAGE_PRESENT \<noteq> 0"
    "(PAGE_PRESENT OR PAGE_WRITABLE OR PAGE_USER) AND NOT 0xFFF = 0"
    using flags_ok_ranges(2) by (simp_all add: flags_ok_def)
  have spv: "small_pages ((uvm s)\<lparr>pm := q\<rparr>) ?v" using D(2) [OF X(3)] spt by simp
  note mp = map_page [OF X(1) spv fl m]
  show "vmm_inv vm" "free_set (pm vm) \<subseteq> free_set q" "total_pages (pm vm) = total_pages q"
    "\<forall>t\<in>tables (pages vm) (root vm). t \<in> tables (pages (uvm s)) (root (uvm s)) \<or> unat t \<in> frames_of (free_set q)"
    using mp(1,3,4,7) by simp_all
  show "\<forall>b<2 ^ 47. small_pages vm (of_nat b)" using mp(2) D(2) spt by simp
  show "r = 0 \<Longrightarrow> free_set (pm vm) = {} \<and> (\<forall>w. phys_of vm w = phys_of (uvm s) w)"
    using mp(8) nz pht by auto
  have "?v = of_nat (?e div PAGE_SIZE * PAGE_SIZE)" using D(3) by simp
  then have "?v = vpage 0 (?e div PAGE_SIZE)" by (simp only: vpage_def of_nat_mult add_0)
  then have "?v AND 0xFFF = 0" using low_bits_vpage [of 0 "?e div PAGE_SIZE"] by simp
  then show "r \<noteq> 0 \<Longrightarrow> phys_of vm ?v = of_nat a" using mp(8) af(1) by simp
  assume r: "r \<noteq> 0" and b: "b \<in> heap_pages s"
  have "pt_indices (of_nat b) \<noteq> pt_indices ?v"
    using low_page_indices [OF heap_page_low [OF hm b] X(3) _ D(3)] b by (auto simp: heap_pages_def)
  then show "phys_of vm (of_nat b) = phys_of (uvm s) (of_nat b)" using mp(8) r pht by auto
qed

lemma heap_pages_extend:
  assumes "PAGE_SIZE dvd user_heap_mapped_end s" "USER_HEAP_START \<le> user_heap_mapped_end s"
  shows "heap_pages (s\<lparr>uvm := vm, user_heap_mapped_end := user_heap_mapped_end s + PAGE_SIZE\<rparr>)
    = insert (user_heap_mapped_end s) (heap_pages s)"
proof -
  let ?e = "user_heap_mapped_end s"
  have "b = ?e" if "\<not> b < ?e" "b < ?e + PAGE_SIZE" "PAGE_SIZE dvd b" for b
    using that assms(1) by (auto simp: PAGE_SIZE_def elim!: dvdE)
  moreover have "?e < ?e + PAGE_SIZE" by (simp add: PAGE_SIZE_def)
  ultimately show ?thesis using assms by (auto simp: heap_pages_def)
qed

lemma expand_mapped:
  assumes hm: "heap_mapped beyond s" and al: "pmm_alloc_page beyond (pm (uvm s)) = (Some a, q)"
    and m: "vmm_map_page beyond (of_nat (user_heap_mapped_end s)) (of_nat a)
      (PAGE_PRESENT OR PAGE_WRITABLE OR PAGE_USER) ((uvm s)\<lparr>pm := q\<rparr>) = (r, vm)"
    and st: "USER_HEAP_START \<le> user_heap_mapped_end s" and r: "r \<noteq> 0"
  shows "heap_mapped beyond (s\<lparr>uvm := vm, user_heap_mapped_end := user_heap_mapped_end s + PAGE_SIZE\<rparr>)"
    "card (free_set (pm vm)) < card (free_set (pm (uvm s)))"
proof -
  let ?e = "user_heap_mapped_end s" and ?F = "free_set (pm (uvm s))"
  let ?s = "s\<lparr>uvm := vm, user_heap_mapped_end := ?e + PAGE_SIZE\<rparr>"
  note D = heap_mappedD [OF hm] and X = expand_frame [OF hm al] and M = expand_map [OF hm al m st]
  note af = alloc_frame [OF D(1) al]
  have gp: "vmm_get_phys_addr beyond (of_nat b) vm = phys_of vm (of_nat b)" if "b < 2 ^ 47" for b
    using M(2) that by (simp add: get_phys_eq)
  have fe: "page_frame beyond ?s ?e = a" using gp [OF X(3)] M(7) [OF r] af(2) by (simp add: page_frame_def)
  have fo: "page_frame beyond ?s b = page_frame beyond s b" if "b \<in> heap_pages s" for b
    using gp D(7) heap_page_low [OF hm that] M(8) [OF r that] by (simp add: page_frame_def)
  note hp = heap_pages_extend [OF D(3) st, of vm]
  have ims: "page_frame beyond ?s ` heap_pages s = page_frame beyond s ` heap_pages s" using fo by (rule image_cong [OF refl])
  then have im: "page_frame beyond ?s ` heap_pages ?s = insert a (page_frame beyond s ` heap_pages s)"
    unfolding hp using fe by simp
  have "inj_on (page_frame beyond ?s) (heap_pages s)" by (rule iffD2 [OF inj_on_cong [OF fo] D(5)])
  then have ij: "inj_on (page_frame beyond ?s) (heap_pages ?s)"
    unfolding hp inj_on_insert fe using X(4) [folded ims] by blast
  have "frames_of (free_set (pm vm)) \<subseteq> frames_of ?F - {a}"
    using frames_of_simps(5) [OF M(3)] af(6) by simp
  then have fr: "insert a (page_frame beyond s ` heap_pages s) \<inter> insert 0 (frames_of (free_set (pm vm))) = {}"
    using D(6) X(5) by blast
  have "card (free_set (pm vm)) \<le> card (free_set q)" using M(3) by (intro card_mono) simp_all
  then show cd: "card (free_set (pm vm)) < card ?F" using X(2) by linarith
  then have "PAGE_SIZE * Suc (card (free_set (pm vm))) \<le> PAGE_SIZE * card ?F" by (intro mult_le_mono2) simp
  with D(4) have "?e + PAGE_SIZE + PAGE_SIZE * card (free_set (pm vm)) \<le> 2 ^ 47" by simp
  then show "heap_mapped beyond ?s"
    unfolding heap_mapped_def im using M(1,2) D(3) fr ij by simp
qed

lemma expand_refused:
  assumes hm: "heap_mapped beyond s" and al: "pmm_alloc_page beyond (pm (uvm s)) = (Some a, q)"
    and m: "vmm_map_page beyond (of_nat (user_heap_mapped_end s)) (of_nat a)
      (PAGE_PRESENT OR PAGE_WRITABLE OR PAGE_USER) ((uvm s)\<lparr>pm := q\<rparr>) = (0, vm)"
    and st: "USER_HEAP_START \<le> user_heap_mapped_end s"
  shows "heap_mapped beyond (s\<lparr>uvm := vm\<lparr>pm := pmm_free_page a (pm vm)\<rparr>\<rparr>)"
    "card (free_set (pmm_free_page a (pm vm))) \<le> 1"
proof -
  let ?s = "s\<lparr>uvm := vm\<lparr>pm := pmm_free_page a (pm vm)\<rparr>\<rparr>"
  note D = heap_mappedD [OF hm] and X = expand_frame [OF hm al] and M = expand_map [OF hm al m st]
  note af = alloc_frame [OF D(1) al]
  have z: "free_set (pm vm) = {}" and pv: "\<And>w. phys_of vm w = phys_of (uvm s) w" using M(6) by simp_all
  have pi: "pmm_inv (pm vm)" using M(1) by (simp add: vmm_inv_def)
  have "0 < a div PAGE_SIZE \<and> a div PAGE_SIZE < total_pages (pm vm)"
    using af(5) M(4) by (auto simp: managed_frames_def frames_of_def PAGE_SIZE_def)
  then have fp: "pmm_inv (pmm_free_page a (pm vm))" "total_pages (pmm_free_page a (pm vm)) = total_pages (pm vm)"
    "free_set (pmm_free_page a (pm vm)) = {a div PAGE_SIZE}"
    using pmm_free_page_free_set [OF pi, of a] z by simp_all
  have "unat t \<noteq> a" if "t \<in> tables (pages vm) (root vm)" for t
  proof
    assume "unat t = a"
    then have "t \<in> tables (pages (uvm s)) (root (uvm s)) \<or> a \<in> frames_of (free_set q)"
      using M(5) that by auto
    with af(3,6) D(1) \<open>unat t = a\<close> show False by (auto simp: vmm_inv_def)
  qed
  then have iv: "vmm_inv (uvm ?s)" using M(1) fp X(6) by (auto simp: vmm_inv_def)
  have sm: "\<forall>b<2 ^ 47. small_pages (uvm ?s) (of_nat b)" using M(2) by (simp add: small_pages_def)
  have hp: "heap_pages ?s = heap_pages s" by (simp add: heap_pages_def)
  have "page_frame beyond ?s b = unat (phys_of (uvm ?s) (of_nat b))" if "b < 2 ^ 47" for b
    using sm that by (simp add: page_frame_def get_phys_eq)
  then have fo: "page_frame beyond ?s b = page_frame beyond s b" if "b \<in> heap_pages s" for b
    using pv D(7) heap_page_low [OF hm that] by (simp add: page_frame_def phys_of_def)
  have ims: "page_frame beyond ?s ` heap_pages s = page_frame beyond s ` heap_pages s" using fo by (rule image_cong [OF refl])
  have ij: "inj_on (page_frame beyond ?s) (heap_pages s)" by (rule iffD2 [OF inj_on_cong [OF fo] D(5)])
  have fr: "page_frame beyond s ` heap_pages s \<inter> insert 0 {a} = {}" using D(6) af(3) by blast
  have "PAGE_SIZE * 1 \<le> PAGE_SIZE * card (free_set (pm (uvm s)))" using X(2) by (intro mult_le_mono2) simp
  with D(4) have bd: "user_heap_mapped_end s + PAGE_SIZE \<le> 2 ^ 47" by linarith
  show "heap_mapped beyond ?s"
    unfolding heap_mapped_def hp ims using iv sm bd D(3) ij fr by (simp add: fp(3) X(6))
  show "card (free_set (pmm_free_page a (pm vm))) \<le> 1" by (simp add: fp(3))
qed

text \<open>
  Expansion ends, changes neither the blocks nor the break, and maps what it says; it fails only
  when memory is used up.
\<close>

lemma expand_result:
  assumes "heap_mapped beyond s" "USER_HEAP_START \<le> user_heap_mapped_end s"
  shows "\<exists>ok t. expand_user_heap_to beyond required s = Some (ok, t) \<and> ublk t = ublk s
    \<and> user_heap_break t = user_heap_break s \<and> user_heap_mapped_end s \<le> user_heap_mapped_end t
    \<and> heap_mapped beyond t
    \<and> (if ok then required \<le> user_heap_mapped_end t else card (free_set (pm (uvm t))) \<le> 1)"
  using assms
proof (induction "card (free_set (pm (uvm s)))" arbitrary: s rule: less_induct)
  case less
  show ?case
  proof (cases "user_heap_mapped_end s < required")
    case False
    then have "expand_user_heap_to beyond required s = Some (True, s)"
      by (subst expand_user_heap_to.simps) simp
    then show ?thesis using less.prems False by (intro exI [of _ True] exI [of _ s]) simp
  next
    case True
    obtain f q where al: "pmm_alloc_page beyond (pm (uvm s)) = (f, q)" by fastforce
    show ?thesis
    proof (cases f)
      case None
      have "free_set (pm (uvm s)) = {} \<and> q = pm (uvm s)"
        using pmm_alloc_page_None [of "pm (uvm s)" beyond q] heap_mappedD(1) [OF less.prems(1)] al None
        by (simp add: vmm_inv_def)
      with True al None less.prems show ?thesis
        by (intro exI [of _ False] exI [of _ s]) (subst expand_user_heap_to.simps, simp)
    next
      case (Some a)
      with al have al: "pmm_alloc_page beyond (pm (uvm s)) = (Some a, q)" by simp
      obtain r vm where m: "vmm_map_page beyond (of_nat (user_heap_mapped_end s)) (of_nat a)
          (PAGE_PRESENT OR PAGE_WRITABLE OR PAGE_USER) ((uvm s)\<lparr>pm := q\<rparr>) = (r, vm)" by fastforce
      show ?thesis
      proof (cases "r = 0")
        case r: True
        note R = expand_refused [OF less.prems(1) al m [unfolded r] less.prems(2)]
        from True al m r R show ?thesis
          by (intro exI [of _ False] exI [of _ "s\<lparr>uvm := vm\<lparr>pm := pmm_free_page a (pm vm)\<rparr>\<rparr>"])
            (subst expand_user_heap_to.simps, simp)
      next
        case r: False
        let ?t = "s\<lparr>uvm := vm, user_heap_mapped_end := user_heap_mapped_end s + PAGE_SIZE\<rparr>"
        note G = expand_mapped [OF less.prems(1) al m less.prems(2) r]
        have "add64 (user_heap_mapped_end s) PAGE_SIZE = user_heap_mapped_end s + PAGE_SIZE"
          using expand_frame(3) [OF less.prems(1) al] by (intro add64_eq) (simp add: PAGE_SIZE_def)
        then have "expand_user_heap_to beyond required s = expand_user_heap_to beyond required ?t"
          using True al m r by (subst expand_user_heap_to.simps) simp
        with less.hyps [of ?t] G less.prems(2) show ?thesis by fastforce
      qed
    qed
  qed
qed

section \<open>Properties of the user heap\<close>

text \<open>What a caller of \<open>umalloc\<close> gets with the address \<open>p\<close>.\<close>

definition ugranted :: "(nat \<Rightarrow> u8) \<Rightarrow> nat \<Rightarrow> nat set \<Rightarrow> uheap \<Rightarrow> nat \<Rightarrow> bool" where
  "ugranted beyond size0 L s p \<longleftrightarrow> 8 dvd p \<and> HEADER \<le> p \<and> p - HEADER \<notin> L \<and> size0 \<le> bsize (ublk s) (p - HEADER)
     \<and> (\<forall>x. p - HEADER \<le> x \<and> x < p + size0 \<longrightarrow> vmm_get_phys_addr beyond (of_nat x) (uvm s) \<noteq> 0)
     \<and> (\<exists>bs. uheap_inv s bs (insert (p - HEADER) L))"

lemma uheap_inv_below_end:
  assumes "uheap_inv s bs (insert c L)"
  shows "c + HEADER + bsize (ublk s) c \<le> user_heap_mapped_end s"
proof -
  have "c + HEADER + bsize (ublk s) c - 1 \<in> ext (ublk s) c" by (simp add: ext_def HEADER_def)
  then have "c + HEADER + bsize (ublk s) c - 1 < user_heap_break s"
    using assms by (auto simp: uheap_inv_def cover_def)
  moreover have "user_heap_break s \<le> user_heap_mapped_end s" using assms by (simp add: uheap_inv_def)
  ultimately show ?thesis by (simp add: HEADER_def)
qed

lemma uheap_block_start:
  assumes "uheap_inv s bs (insert c L)"
  shows "USER_HEAP_START \<le> c"
proof -
  have "c \<in> cover (ublk s) (set bs \<union> insert c L)" using ext_self [of c "ublk s"] by (auto simp: cover_def)
  then show ?thesis using assms by (auto simp: uheap_inv_def simp del: Un_insert_right)
qed

lemma block_mapped:
  assumes inv: "uheap_inv s bs (insert c L)" and hm: "heap_mapped beyond s" and "n \<le> bsize (ublk s) c"
    and x: "c \<le> x" "x < c + HEADER + n"
  shows "vmm_get_phys_addr beyond (of_nat x) (uvm s) \<noteq> 0"
  using uheap_inv_below_end [OF inv] uheap_block_start [OF inv] assms(3) x
  by (intro heap_byte_mapped [OF hm]) simp_all

lemma heap_mapped_blocks [simp]:
  "heap_mapped beyond (s\<lparr>ublk := h\<rparr>) = heap_mapped beyond s"
  "heap_mapped beyond (s\<lparr>ublk := h, user_heap_break := b\<rparr>) = heap_mapped beyond s"
  by (simp_all add: heap_mapped_def heap_pages_def page_frame_def [abs_def])

lemma umalloc_from_list:
  assumes inv: "uheap_inv s (zs @ c # ys) L" and hm: "heap_mapped beyond s" and size: "0 < size0" and c: "align8 size0 \<le> bsize (ublk s) c"
    and n: "size0 \<le> align8 size0" "8 dvd align8 size0"
    and ff: "find_fit (ublk s) (align8 size0) None (free_list (ublk s)) = Some (link_after zs, c)"
  shows "\<exists>s'. umalloc beyond size0 s = Some (c + HEADER, s') \<and> heap_mapped beyond s'
    \<and> ugranted beyond size0 L s' (c + HEADER) \<and> c + HEADER \<noteq> 0 \<and> (\<forall>b\<in>L. bsize (ublk s') b = bsize (ublk s) b)"
proof -
  let ?h = "take_block (ublk s) (align8 size0) (link_after zs) c"
  let ?s = "s\<lparr>ublk := ?h\<rparr>"
  have fi: "free_inv (ublk s) (zs @ c # ys) L" using inv by (simp add: uheap_inv_def)
  from take_block_inv [OF fi c n(2) refl] obtain us where
    t: "free_inv ?h us (insert c L)" "align8 size0 \<le> bsize ?h c" "c \<notin> L"
      "cover ?h (set us \<union> insert c L) = cover (ublk s) (set (zs @ c # ys) \<union> L)"
      "\<forall>b\<in>L. bsize ?h b = bsize (ublk s) b" by blast
  have cok: "block_ok (ublk s) c" using fi by (auto simp: free_inv_def blocks_ok_def)
  then have p: "add64 c HEADER = c + HEADER" "c \<noteq> 0" "8 dvd c + HEADER"
    by (simp_all add: add64_eq block_ok_def HEADER_def)
  have "umalloc beyond size0 s = Some (c + HEADER, ?s)"
    using size ff p(1,2) by (simp add: umalloc_def Let_def)
  moreover have i: "uheap_inv ?s us (insert c L)" using inv t(1,4) by (simp add: uheap_inv_def)
  moreover have hm': "heap_mapped beyond ?s" using hm by simp
  moreover have "vmm_get_phys_addr beyond (of_nat x) (uvm ?s) \<noteq> 0" if "c \<le> x" "x < c + HEADER + size0" for x
    using t(2) n(1) that by (intro block_mapped [OF i hm', of size0]) simp_all
  ultimately show ?thesis
    using t(2,3,5) n(1) p(2,3) by (intro exI [of _ ?s]) (auto simp: ugranted_def simp del: add_is_0)
qed

text \<open>Without a fit in the list the block is put at the break, when the region can be made large enough.\<close>

lemma break_block_inv:
  assumes inv: "uheap_inv s bs L" and n: "8 dvd n" and rm: "user_heap_break s + HEADER + n + 8 < 2 ^ 64"
    and t: "ublk t = ublk s" "PAGE_SIZE dvd user_heap_mapped_end t"
      "user_heap_break s + HEADER + n \<le> user_heap_mapped_end t"
    and h: "h = (ublk s)\<lparr>bsize := (bsize (ublk s))(user_heap_break s := n)\<rparr>"
  shows "uheap_inv (t\<lparr>ublk := h, user_heap_break := user_heap_break s + HEADER + n\<rparr>) bs (insert (user_heap_break s) L)"
    "user_heap_break s \<notin> set bs \<union> L" "8 dvd user_heap_break s + HEADER"
proof -
  let ?a = "user_heap_break s" and ?B = "set bs \<union> L"
  have fi: "free_path (ublk s) bs" "set bs \<inter> L = {}" "blocks_ok (ublk s) ?B"
    using inv by (simp_all add: uheap_inv_def free_inv_def)
  have al: "8 dvd ?a" "0 < ?a" using inv by (auto simp: uheap_inv_def USER_HEAP_START_def)
  have ex: "ext h ?a = {?a ..< ?a + HEADER + n}" by (simp add: ext_def h)
  have bok: "block_ok h ?a" using al n rm by (simp add: block_ok_def h)
  have dis: "ext h ?a \<inter> cover (ublk s) ?B = {}"
    unfolding ex using inv by (auto simp: uheap_inv_def)
  show notin: "?a \<notin> ?B"
    using dis ext_self [of ?a h] ext_self [of ?a "ublk s"] unfolding cover_def by blast
  show "8 dvd ?a + HEADER" using al by (simp add: HEADER_def)
  have same: "bsize h b = bsize (ublk s) b" if "b \<in> ?B" for b using notin that by (auto simp: h)
  note bi = blocks_ok_insert [OF fi(3) bok same dis]
  have set: "set bs \<union> insert ?a L = insert ?a ?B" by auto
  have "free_inv h bs (insert ?a L)"
    unfolding free_inv_def set using bi(1) fi notin by (auto simp: free_path_def h)
  moreover have "cover h (insert ?a ?B) = ext h ?a \<union> cover (ublk s) ?B"
    using bi(3) by (simp add: cover_def)
  ultimately show "uheap_inv (t\<lparr>ublk := h, user_heap_break := ?a + HEADER + n\<rparr>) bs (insert ?a L)"
    unfolding uheap_inv_def set using inv n al t
    by (auto simp: uheap_inv_def ex HEADER_def simp del: Un_insert_right)
qed

lemma umalloc_from_break:
  assumes inv: "uheap_inv s bs L" and hm: "heap_mapped beyond s" and size: "0 < size0" "size0 + 32 \<le> 2 ^ 64"
    and ff: "find_fit (ublk s) (align8 size0) None (free_list (ublk s)) = Some (link_after bs, 0)"
  shows "\<exists>p s'. umalloc beyond size0 s = Some (p, s') \<and> heap_mapped beyond s'
    \<and> (\<forall>b\<in>L. bsize (ublk s') b = bsize (ublk s) b)
    \<and> (p = 0 \<longrightarrow> uheap_inv s' bs L \<and> (2 ^ 64 \<le> user_heap_break s + HEADER + align8 size0
                                        \<or> card (free_set (pm (uvm s'))) \<le> 1))
    \<and> (p \<noteq> 0 \<longrightarrow> ugranted beyond size0 L s' p)"
proof -
  let ?a = "user_heap_break s"
  define n where "n = align8 size0"
  have n: "size0 \<le> n" "n < size0 + 8" "8 dvd n" using align8_up [of size0] size(2) by (auto simp: n_def)
  have a: "?a \<le> 2 ^ 47" "8 dvd ?a" and st: "USER_HEAP_START \<le> user_heap_mapped_end s"
    using inv hm by (simp_all add: uheap_inv_def heap_mapped_def)
  then have ar: "align8 ?a = ?a" "add64 ?a HEADER = ?a + HEADER"
    by (auto intro!: align8_aligned add64_eq simp: HEADER_def)
  show ?thesis
  proof (cases "2 ^ 64 \<le> ?a + HEADER + n")
    case True
    have "add64 (?a + HEADER) n = ?a + HEADER + n - 2 ^ 64"
      using True a n(2) size(2) by (auto simp: add64_def HEADER_def mod_if)
    then have "add64 (?a + HEADER) n < ?a" using n(2) size(2) True by (simp add: HEADER_def)
    then have "umalloc beyond size0 s = Some (0, s)"
      using size ff ar by (simp add: umalloc_def Let_def n_def [symmetric])
    with True inv hm show ?thesis by (simp add: n_def)
  next
    case False
    then have ar2: "add64 (?a + HEADER) n = ?a + HEADER + n" by (intro add64_eq) simp
    from expand_result [OF hm st, of "?a + HEADER + n"] obtain ok t where
      x: "expand_user_heap_to beyond (?a + HEADER + n) s = Some (ok, t)" and
      t: "ublk t = ublk s" "user_heap_break t = ?a" "user_heap_mapped_end s \<le> user_heap_mapped_end t"
        "heap_mapped beyond t"
        "if ok then ?a + HEADER + n \<le> user_heap_mapped_end t else card (free_set (pm (uvm t))) \<le> 1" by blast
    let ?h = "(ublk s)\<lparr>bsize := (bsize (ublk s))(?a := n)\<rparr>"
    let ?t = "t\<lparr>ublk := ?h, user_heap_break := ?a + HEADER + n\<rparr>"
    have e: "umalloc beyond size0 s = (if \<not> ok then Some (0, t) else Some (?a + HEADER, ?t))"
      using size ff x ar ar2 t(1) by (simp add: umalloc_def Let_def n_def [symmetric])
    have pd: "PAGE_SIZE dvd user_heap_mapped_end t" "user_heap_mapped_end t \<le> 2 ^ 47" using t(4) by (simp_all add: heap_mapped_def)
    show ?thesis
    proof (cases ok)
      case False
      have "uheap_inv t bs L" using inv t(1,2,3) pd(1) by (simp add: uheap_inv_def)
      with e t(1,4,5) False show ?thesis by simp
    next
      case True
      with t(5) have "?a + HEADER + n \<le> user_heap_mapped_end t" by simp
      moreover from this pd(2) have "?a + HEADER + n + 8 < 2 ^ 64" by simp
      ultimately have b: "uheap_inv ?t bs (insert ?a L)" "?a \<notin> set bs \<union> L" "8 dvd ?a + HEADER"
        using break_block_inv [OF inv n(3) _ t(1) pd(1) _ refl] by blast+
      have "vmm_get_phys_addr beyond (of_nat x) (uvm ?t) \<noteq> 0" if "?a \<le> x" "x < ?a + HEADER + size0" for x
        using n(1) t(4) that by (intro block_mapped [OF b(1), of beyond size0]) simp_all
      then have "ugranted beyond size0 L ?t (?a + HEADER)" using b n(1) by (auto simp: ugranted_def)
      moreover have "\<forall>b\<in>L. bsize (ublk ?t) b = bsize (ublk s) b" using b(2) by auto
      moreover have "heap_mapped beyond ?t" using t(4) by simp
      ultimately show ?thesis using e True by (intro exI [of _ "?a + HEADER"] exI [of _ ?t]) (simp add: HEADER_def)
    qed
  qed
qed

text \<open>
  C9. The user heap's allocation is safe, and fails safely. For a sound heap whose region is
  mapped page by page, and a size from 1 to 2^64 - 32: it returns and keeps the region mapped and
  the sizes of the live blocks. The result is null only with the blocks as they were, and only when
  the break would leave the address space or memory is used up to the last frame; otherwise it is
  an 8-byte aligned pointer to a new live block of at least the size asked for, overlapping no
  other block, every byte of which, header included, has a translation.
\<close>

theorem umalloc_correct:
  assumes inv: "uheap_inv s bs L" and hm: "heap_mapped beyond s" and size: "0 < size0" "size0 + 32 \<le> 2 ^ 64"
  shows "\<exists>p s'. umalloc beyond size0 s = Some (p, s') \<and> heap_mapped beyond s'
    \<and> (\<forall>b\<in>L. bsize (ublk s') b = bsize (ublk s) b)
    \<and> (p = 0 \<longrightarrow> uheap_inv s' bs L \<and> (2 ^ 64 \<le> user_heap_break s + HEADER + align8 size0
                                        \<or> card (free_set (pm (uvm s'))) \<le> 1))
    \<and> (p \<noteq> 0 \<longrightarrow> 8 dvd p \<and> HEADER \<le> p \<and> p - HEADER \<notin> L \<and> size0 \<le> bsize (ublk s') (p - HEADER)
         \<and> (\<forall>x. p - HEADER \<le> x \<and> x < p + size0 \<longrightarrow> vmm_get_phys_addr beyond (of_nat x) (uvm s') \<noteq> 0)
         \<and> (\<exists>bs'. uheap_inv s' bs' (insert (p - HEADER) L)))"
proof -
  have n: "size0 \<le> align8 size0" "8 dvd align8 size0" using align8_up [of size0] size(2) by auto
  have "free_path (ublk s) bs" using inv by (simp add: uheap_inv_def free_inv_def)
  from find_fit_list [OF this, of "align8 size0"] show ?thesis
  proof (elim disjE exE conjE)
    fix zs c ys
    assume z: "bs = zs @ c # ys" and c: "align8 size0 \<le> bsize (ublk s) c"
      and ff: "find_fit (ublk s) (align8 size0) None (free_list (ublk s)) = Some (link_after zs, c)"
    from umalloc_from_list [OF inv [unfolded z] hm size(1) c n ff] obtain s' where
      k: "umalloc beyond size0 s = Some (c + HEADER, s')" "heap_mapped beyond s'"
        "ugranted beyond size0 L s' (c + HEADER)" "c + HEADER \<noteq> 0"
        "\<forall>b\<in>L. bsize (ublk s') b = bsize (ublk s) b" by blast
    then show ?thesis unfolding ugranted_def by (intro exI [of _ "c + HEADER"] exI [of _ s']) auto
  next
    assume "find_fit (ublk s) (align8 size0) None (free_list (ublk s)) = Some (link_after bs, 0)"
    from umalloc_from_break [OF inv hm size this] show ?thesis unfolding ugranted_def .
  qed
qed

text \<open>
  Trimming loses live data. When the freed block ends at the end of the mapped region, the
  region is cut at the start of the page in which that block starts, not at the block: a live
  block in the same page then lies beyond the break and beyond the mapped end, and the next
  allocation reuses its bytes.
\<close>

theorem ufree_unmaps_live_data:
  assumes inv: "uheap_inv s [] L" and c: "c \<in> L" "block_end (ublk s) c = user_heap_mapped_end s"
    and a: "a \<in> L" "c div PAGE_SIZE * PAGE_SIZE \<le> a" "a < c"
    and rm: "user_heap_mapped_end s + PAGE_SIZE < 2 ^ 64"
  shows "\<exists>s'. ufree beyond (c + HEADER) s = Some s'
    \<and> bsize (ublk s') a = bsize (ublk s) a
    \<and> user_heap_break s' \<le> a \<and> user_heap_mapped_end s' \<le> a"
proof -
  let ?m = "c div PAGE_SIZE * PAGE_SIZE" and ?e = "user_heap_mapped_end s"
  have fi: "free_path (ublk s) []" "blocks_ok (ublk s) L" using inv by (simp_all add: uheap_inv_def free_inv_def)
  have cok: "block_ok (ublk s) c" using fi(2) c(1) by (simp add: blocks_ok_def)
  have ce: "c + HEADER + bsize (ublk s) c = ?e" using c(2) block_end_eq [OF cok] by simp
  have cs: "sub64 (c + HEADER) HEADER = c" using cok by (subst sub64_eq) (simp_all add: block_ok_def)
  have fl: "free_list (ublk s) = 0" using fi(1) by (simp add: free_path_def)
  let ?h = "(ublk s)\<lparr>bnext := (bnext (ublk s))(c := 0), free_list := c\<rparr>"
  have ip: "insert_pos (ublk s) c None = Some None"
    by (subst insert_pos.simps) (simp add: get_link_def fl)
  have fb: "free_block (ublk s) c = Some ?h"
    using ip by (simp add: free_block_def set_link_def get_link_def fl)
  have c0: "c \<noteq> 0" using cok by (simp add: block_ok_def)
  have lb: "last_block ?h c = Some c" by (subst last_block.simps) simp
  have be: "block_end ?h c = ?e" using c(2) by (simp add: block_end_def)
  have me1: "?m \<le> c" by simp
  then have me: "?m < ?e" using ce HEADER_def by linarith
  have start: "USER_HEAP_START \<le> ?m"
  proof -
    have "c \<in> cover (ublk s) (set [] \<union> L)" using c(1) ext_self [of c "ublk s"] unfolding cover_def by blast
    then have "USER_HEAP_START \<le> c" using inv by (auto simp: uheap_inv_def)
    then have "USER_HEAP_START div PAGE_SIZE \<le> c div PAGE_SIZE" by (rule div_le_mono)
    then show ?thesis by (simp add: USER_HEAP_START_def PAGE_SIZE_def)
  qed
  have rel: "\<exists>vm'. release_pages beyond x ?e vm = Some vm'" for x vm
  proof (induction "?e - x" arbitrary: x vm rule: less_induct)
    case less
    show ?case
    proof (cases "x < ?e")
      case False
      then show ?thesis by (subst release_pages.simps) simp
    next
      case True
      have "add64 x PAGE_SIZE = x + PAGE_SIZE" using True rm by (intro add64_eq) simp
      moreover have "?e - (x + PAGE_SIZE) < ?e - x" using True by (simp add: PAGE_SIZE_def)
      ultimately show ?thesis using True less by (subst release_pages.simps) (simp add: Let_def)
    qed
  qed
  then obtain vm where vm: "release_pages beyond ?m ?e (uvm s) = Some vm" by blast
  let ?s = "s\<lparr>ublk := ?h\<lparr>free_list := 0\<rparr>, uvm := vm, user_heap_mapped_end := ?m,
      user_heap_break := (if ?m < user_heap_break s then ?m else user_heap_break s)\<rparr>"
  have "trim beyond (s\<lparr>ublk := ?h\<rparr>) = Some ?s"
    using lb be c0 start me vm by (simp add: trim_def Let_def)
  then have "ufree beyond (c + HEADER) s = Some ?s"
    using fb cs by (simp add: ufree_def HEADER_def)
  then show ?thesis using a by (intro exI [of _ ?s]) auto
qed


definition uheap_fresh :: uheap where
  "uheap_fresh = \<lparr>ublk = \<lparr>bsize = (\<lambda>_. 0), bnext = (\<lambda>_. 0), free_list = 0\<rparr>,
     user_heap_break = USER_HEAP_START, user_heap_mapped_end = USER_HEAP_START, uvm = vmm_demo\<rparr>"

lemma uheap_fresh_ok: "uheap_inv uheap_fresh [] {}" "heap_mapped (\<lambda>_. 0) uheap_fresh"
proof -
  show "uheap_inv uheap_fresh [] {}"
    by (simp add: uheap_inv_def free_inv_def free_path_def blocks_ok_def cover_def uheap_fresh_def
        USER_HEAP_START_def PAGE_SIZE_def)
  have v: "uvm uheap_fresh = vmm_demo" "user_heap_mapped_end uheap_fresh = USER_HEAP_START" by (simp_all add: uheap_fresh_def)
  have c: "card (free_set (pm vmm_demo)) = 6"
    using vmm_demo_inv(1) vmm_demo_start(3) by (simp add: vmm_inv_def pmm_inv_def)
  have h: "heap_pages uheap_fresh = {}" by (simp add: heap_pages_def v)
  show "heap_mapped (\<lambda>_. 0) uheap_fresh"
    unfolding heap_mapped_def v c h using vmm_demo_inv by (simp add: USER_HEAP_START_def PAGE_SIZE_def)
qed

text \<open>Four free frames are enough for one more page.\<close>

lemma expand_one_page:
  assumes "pmm_inv (pm (uvm s))" "4 \<le> free_pages (pm (uvm s))"
    and e: "user_heap_mapped_end s < required" "required \<le> user_heap_mapped_end s + PAGE_SIZE"
    and "of_nat (user_heap_mapped_end s) \<noteq> (0 :: u64)" "user_heap_mapped_end s + PAGE_SIZE < 2 ^ 64"
  shows "\<exists>t. expand_user_heap_to beyond required s = Some (True, t)"
proof -
  let ?v = "of_nat (user_heap_mapped_end s) :: u64" and ?f = "PAGE_PRESENT OR PAGE_WRITABLE OR PAGE_USER"
  have "0 < free_pages (pm (uvm s))" using assms(2) by simp
  then obtain a q where al: "pmm_alloc_page beyond (pm (uvm s)) = (Some a, q)" "pmm_inv q"
    "free_pages (pm (uvm s)) = Suc (free_pages q)"
    by (rule pmm_alloc_count [OF assms(1)])
  let ?u = "(uvm s)\<lparr>pm := q\<rparr>"
  obtain ret res u where w: "walk_pt beyond 3 (root ?u) ?v True (?f AND PAGE_USER) ?u = (ret, res, u)"
    by (cases "walk_pt beyond 3 (root ?u) ?v True (?f AND PAGE_USER) ?u")
  have "0 \<le> ret" using walk_frames [OF _ _ w] al assms(2) by auto
  then obtain t where m: "vmm_map_page beyond ?v (of_nat a) ?f ?u = (?v, t)"
    using w by (simp add: vmm_map_page_def)
  have ad: "add64 (user_heap_mapped_end s) PAGE_SIZE = user_heap_mapped_end s + PAGE_SIZE"
    using assms(6) by (rule add64_eq)
  let ?t = "s\<lparr>uvm := t, user_heap_mapped_end := user_heap_mapped_end s + PAGE_SIZE\<rparr>"
  have "expand_user_heap_to beyond required ?t = Some (True, ?t)"
    using e(2) by (subst expand_user_heap_to.simps) simp
  then show ?thesis
    using al(1) m assms(5) e(1) by (subst expand_user_heap_to.simps) (simp add: ad)
qed

lemma uheap_fresh_umalloc: "map_option fst (umalloc (\<lambda>_. 0) 8 uheap_fresh) = Some 0x400010"
proof -
  have d: "user_heap_mapped_end uheap_fresh = 0x400000" "user_heap_break uheap_fresh = 0x400000"
    "uvm uheap_fresh = vmm_demo" "free_list (ublk uheap_fresh) = 0"
    by (simp_all add: uheap_fresh_def USER_HEAP_START_def)
  have "pmm_inv (pm vmm_demo)" using vmm_demo_inv(1) by (simp add: vmm_inv_def)
  then obtain t where t: "expand_user_heap_to (\<lambda>_. 0) 0x400018 uheap_fresh = Some (True, t)"
    using expand_one_page [of uheap_fresh "0x400018" "\<lambda>_. 0"] vmm_demo_start(3)
    by (auto simp: d PAGE_SIZE_def)
  have "find_fit (ublk uheap_fresh) 8 None 0 = Some (None, 0)" by (subst find_fit.simps) simp
  moreover have "align8 8 = 8" "align8 0x400000 = 0x400000" "add64 0x400000 HEADER = 0x400010"
    "add64 0x400010 8 = 0x400018" by (simp_all add: align8_def add64_def HEADER_def)
  ultimately show ?thesis using t by (simp add: umalloc_def d)
qed

text \<open>In a fresh heap with six free frames a block is granted behind the start of the region.\<close>

theorem umalloc_correct_witness:
  "\<exists>s' bs'. umalloc (\<lambda>_. 0) 8 uheap_fresh = Some (0x400010, s') \<and> heap_mapped (\<lambda>_. 0) s'
    \<and> 8 \<le> bsize (ublk s') 0x400000 \<and> uheap_inv s' bs' {0x400000}
    \<and> (\<forall>x. 0x400000 \<le> x \<and> x < 0x400018 \<longrightarrow> vmm_get_phys_addr (\<lambda>_. 0) (of_nat x) (uvm s') \<noteq> 0)"
  using umalloc_correct [OF uheap_fresh_ok, of 8] uheap_fresh_umalloc by (auto simp: HEADER_def)

text \<open>Two live blocks that fill the first page; the second is freed.\<close>

definition uheap_page :: uheap where
  "uheap_page = \<lparr>ublk = \<lparr>bsize = (\<lambda>b. if b = 0x400000 then 16 else 4048), bnext = (\<lambda>_. 0), free_list = 0\<rparr>,
     user_heap_break = 0x401000, user_heap_mapped_end = 0x401000, uvm = vmm_demo\<rparr>"

theorem ufree_unmaps_live_data_witness:
  "\<exists>s'. ufree (\<lambda>_. 0) (0x400020 + HEADER) uheap_page = Some s'
    \<and> bsize (ublk s') 0x400000 = bsize (ublk uheap_page) 0x400000
    \<and> user_heap_break s' \<le> 0x400000 \<and> user_heap_mapped_end s' \<le> 0x400000"
proof (rule ufree_unmaps_live_data)
  show "uheap_inv uheap_page [] {0x400000, 0x400020}"
    by (simp add: uheap_inv_def free_inv_def free_path_def blocks_ok_def block_ok_def cover_def ext_def
        uheap_page_def USER_HEAP_START_def PAGE_SIZE_def HEADER_def)
  show "block_end (ublk uheap_page) 0x400020 = user_heap_mapped_end uheap_page"
    by (simp add: block_end_def add64_def uheap_page_def HEADER_def)
qed (simp_all add: PAGE_SIZE_def uheap_page_def)

end
