(* ===== verification/Tqueue.thy ===== *)
theory Tqueue
  imports Prelude
begin

text \<open>
  The doubly linked queues threads hang in, \<open>kernel/src/sched/scheduler.c\<close>: the ready queue
  and the wake list. Both have the same shape (head, tail, two links and a queued flag in each
  thread) and the same code, which is modelled here once; a thread is named by its id, and a
  link field of all threads is a map. The interface of such a queue is a locale, interpreted
  on the code's operations.
\<close>

record dlist =
  nx :: "nat \<Rightarrow> nat option"
  pv :: "nat \<Rightarrow> nat option"
  queued :: "nat \<Rightarrow> bool"
  head :: "nat option"
  tail :: "nat option"

definition dl_empty :: dlist where
  "dl_empty = \<lparr>nx = (\<lambda>_. None), pv = (\<lambda>_. None), queued = (\<lambda>_. False), head = None, tail = None\<rparr>"

definition dl_add :: "dlist \<Rightarrow> nat \<Rightarrow> dlist" where
  "dl_add d t =
     (if queued d t then d
      else let d = d\<lparr>nx := (nx d)(t := None), pv := (pv d)(t := tail d)\<rparr>;
               d = (case tail d of Some u \<Rightarrow> d\<lparr>nx := (nx d)(u := Some t)\<rparr>
                                 | None \<Rightarrow> d\<lparr>head := Some t\<rparr>)
           in d\<lparr>tail := Some t, queued := (queued d)(t := True)\<rparr>)"

definition dl_take :: "dlist \<Rightarrow> nat option \<times> dlist" where
  "dl_take d =
     (case head d of
        None \<Rightarrow> (None, d)
      | Some t \<Rightarrow>
          let d = d\<lparr>head := nx d t\<rparr>;
              d = (case head d of Some u \<Rightarrow> d\<lparr>pv := (pv d)(u := None)\<rparr>
                                | None \<Rightarrow> d\<lparr>tail := None\<rparr>)
          in (Some t, d\<lparr>nx := (nx d)(t := None), pv := (pv d)(t := None),
                       queued := (queued d)(t := False)\<rparr>))"

definition dl_remove :: "dlist \<Rightarrow> nat \<Rightarrow> dlist" where
  "dl_remove d t =
     (if \<not> queued d t then d
      else let d = (case pv d t of Some u \<Rightarrow> d\<lparr>nx := (nx d)(u := nx d t)\<rparr>
                                 | None \<Rightarrow> d\<lparr>head := nx d t\<rparr>);
               d = (case nx d t of Some u \<Rightarrow> d\<lparr>pv := (pv d)(u := pv d t)\<rparr>
                                 | None \<Rightarrow> d\<lparr>tail := pv d t\<rparr>)
           in d\<lparr>nx := (nx d)(t := None), pv := (pv d)(t := None), queued := (queued d)(t := False)\<rparr>)"

section \<open>The list it represents\<close>

fun hdo :: "'a list \<Rightarrow> 'a option" where
  "hdo [] = None"
| "hdo (x # _) = Some x"

text \<open>Along \<open>q\<close> every link leads to the next element, the last one to \<open>e\<close>.\<close>

fun dseg :: "(nat \<Rightarrow> nat option) \<Rightarrow> nat list \<Rightarrow> nat option \<Rightarrow> bool" where
  "dseg f [] e \<longleftrightarrow> True"
| "dseg f (a # q) e \<longleftrightarrow> f a = (case q of [] \<Rightarrow> e | b # _ \<Rightarrow> Some b) \<and> dseg f q e"

definition dl_rep :: "dlist \<Rightarrow> nat list \<Rightarrow> bool" where
  "dl_rep d q \<longleftrightarrow> distinct q \<and> head d = hdo q \<and> tail d = hdo (rev q)
     \<and> dseg (nx d) q None \<and> dseg (pv d) (rev q) None \<and> (\<forall>t. queued d t \<longleftrightarrow> t \<in> set q)"

lemma dseg_append:
  "dseg f (xs @ ys) e \<longleftrightarrow> dseg f xs (case ys of [] \<Rightarrow> e | y # _ \<Rightarrow> Some y) \<and> dseg f ys e"
  by (induction xs) (auto split: list.splits)

lemma dseg_snoc: "dseg f (xs @ [a]) e \<longleftrightarrow> dseg f xs (Some a) \<and> f a = e"
  by (auto simp: dseg_append)

lemma dseg_upd: "a \<notin> set q \<Longrightarrow> dseg (f(a := v)) q e = dseg f q e"
  by (induction q) auto

lemma hdo_append: "hdo (xs @ ys) = (if xs = [] then hdo ys else hdo xs)"
  by (cases xs) auto

lemma hdo_rev_snoc [simp]: "hdo (rev (xs @ [a])) = Some a"
  by simp

lemma dl_rep_empty: "dl_rep dl_empty []"
  by (simp add: dl_rep_def dl_empty_def)

lemma dl_rep_queued: "dl_rep d q \<Longrightarrow> queued d t \<longleftrightarrow> t \<in> set q"
  by (simp add: dl_rep_def)

lemma dl_add_rep:
  assumes "dl_rep d q" "t \<notin> set q"
  shows "dl_rep (dl_add d t) (q @ [t])"
proof (cases q rule: rev_cases)
  case Nil
  with assms show ?thesis by (simp add: dl_rep_def dl_add_def)
next
  case (snoc xs u)
  with assms have u: "u \<noteq> t" "u \<notin> set xs" "t \<notin> set xs" "tail d = Some u" by (auto simp: dl_rep_def)
  from assms snoc u show ?thesis
    by (auto simp: dl_rep_def dl_add_def Let_def dseg_append dseg_upd hdo_append)
qed

lemma dl_take_rep:
  assumes "dl_rep d (t # q)"
  shows "fst (dl_take d) = Some t" "dl_rep (snd (dl_take d)) q"
proof -
  have h: "head d = Some t" "t \<notin> set q" "distinct q" using assms by (auto simp: dl_rep_def)
  then show "fst (dl_take d) = Some t" by (simp add: dl_take_def Let_def)
  show "dl_rep (snd (dl_take d)) q"
  proof (cases q)
    case Nil
    with assms h show ?thesis by (auto simp: dl_rep_def dl_take_def Let_def)
  next
    case (Cons u us)
    have "dseg (pv d) (rev us) (Some u)" using assms Cons by (auto simp: dl_rep_def dseg_append)
    with assms h Cons show ?thesis
      by (auto simp: dl_rep_def dl_take_def Let_def dseg_append dseg_upd hdo_append)
  qed
qed

lemma dl_remove_rep:
  assumes "dl_rep d (xs @ t # ys)"
  shows "dl_rep (dl_remove d t) (xs @ ys)"
proof -
  have d: "t \<notin> set xs" "t \<notin> set ys" "distinct xs" "distinct ys" "set xs \<inter> set ys = {}" "queued d t"
    using assms by (auto simp: dl_rep_def)
  have n: "nx d t = hdo ys" "dseg (nx d) xs (Some t)" "dseg (nx d) ys None"
    using assms by (auto simp: dl_rep_def dseg_append split: list.splits)
  have p: "pv d t = hdo (rev xs)" "dseg (pv d) (rev xs) None" "dseg (pv d) (rev ys) (Some t)"
    using assms by (auto simp: dl_rep_def dseg_append split: list.splits)
  have ht: "head d = hdo (xs @ [t])" "tail d = hdo (rev (t # ys))"
    using assms by (auto simp: dl_rep_def hdo_append)
  have q: "queued d u \<longleftrightarrow> u \<in> set xs \<union> {t} \<union> set ys" for u using assms by (auto simp: dl_rep_def)
  show ?thesis
  proof (cases xs rule: rev_cases)
    case Nil
    show ?thesis
    proof (cases ys)
      case Nil
      with \<open>xs = []\<close> d n p ht q show ?thesis by (auto simp: dl_rep_def dl_remove_def Let_def)
    next
      case (Cons b bs)
      with \<open>xs = []\<close> d n p ht q show ?thesis
        by (auto simp: dl_rep_def dl_remove_def Let_def dseg_append dseg_upd hdo_append)
    qed
  next
    case (snoc as' a)
    show ?thesis
    proof (cases ys)
      case Nil
      with snoc d n p ht q show ?thesis
        by (auto simp: dl_rep_def dl_remove_def Let_def dseg_append dseg_upd hdo_append)
    next
      case (Cons b bs)
      with snoc d n p ht q show ?thesis
        by (auto simp: dl_rep_def dl_remove_def Let_def dseg_append dseg_upd hdo_append)
    qed
  qed
qed

section \<open>The contract of a queue of threads\<close>

text \<open>
  Adding is at the back and without effect on a queued element, taking is at the front,
  removing works anywhere and is without effect on an element that is not queued.
\<close>

locale thread_queue =
  fixes add :: "'d \<Rightarrow> nat \<Rightarrow> 'd" and take_first :: "'d \<Rightarrow> nat option \<times> 'd"
    and del :: "'d \<Rightarrow> nat \<Rightarrow> 'd" and rep :: "'d \<Rightarrow> nat list \<Rightarrow> bool"
  assumes rep_distinct: "rep d q \<Longrightarrow> distinct q"
    and add_new: "rep d q \<Longrightarrow> t \<notin> set q \<Longrightarrow> rep (add d t) (q @ [t])"
    and add_old: "rep d q \<Longrightarrow> t \<in> set q \<Longrightarrow> add d t = d"
    and take_nil: "rep d [] \<Longrightarrow> take_first d = (None, d)"
    and take_cons: "rep d (t # q) \<Longrightarrow> \<exists>d'. take_first d = (Some t, d') \<and> rep d' q"
    and del_mid: "rep d (xs @ t # ys) \<Longrightarrow> rep (del d t) (xs @ ys)"
    and del_absent: "rep d q \<Longrightarrow> t \<notin> set q \<Longrightarrow> del d t = d"
begin

lemma add_rep: "rep d q \<Longrightarrow> rep (add d t) (if t \<in> set q then q else q @ [t])"
  using add_new add_old by auto

lemma del_rep: "rep d q \<Longrightarrow> rep (del d t) (remove1 t q)"
proof (cases "t \<in> set q")
  case True
  assume r: "rep d q"
  from True obtain xs ys where q: "q = xs @ t # ys" "t \<notin> set xs" by (meson split_list_first)
  with del_mid [of d xs t ys] r show ?thesis by (simp add: remove1_append)
next
  case False
  assume "rep d q"
  with False del_absent [of d q t] show ?thesis by (simp add: remove1_idem)
qed

lemma take_rep: "rep d q \<Longrightarrow>
    take_first d = (hdo q, snd (take_first d)) \<and> rep (snd (take_first d)) (tl q)"
  using take_nil take_cons by (cases q) fastforce+

text \<open>Elements added one after another are taken in that order.\<close>

primrec take_all :: "nat \<Rightarrow> 'd \<Rightarrow> nat list" where
  "take_all 0 d = []"
| "take_all (Suc n) d = (case take_first d of (None, d) \<Rightarrow> [] | (Some t, d) \<Rightarrow> t # take_all n d)"

lemma take_all_rep: "rep d q \<Longrightarrow> take_all n d = take n q"
proof (induction n arbitrary: d q)
  case (Suc n)
  show ?case
  proof (cases q)
    case Nil
    with Suc.prems take_nil [of d] show ?thesis by simp
  next
    case (Cons t q')
    with Suc.prems take_cons [of d t q'] obtain d' where "take_first d = (Some t, d')" "rep d' q'" by auto
    with Suc.IH [of d' q'] Cons show ?thesis by simp
  qed
qed simp

end

interpretation dlq: thread_queue dl_add dl_take dl_remove dl_rep
proof unfold_locales
  fix d q t
  show "dl_rep d q \<Longrightarrow> distinct q" by (simp add: dl_rep_def)
  show "dl_rep d q \<Longrightarrow> t \<in> set q \<Longrightarrow> dl_add d t = d" by (simp add: dl_add_def dl_rep_queued)
  show "dl_rep d [] \<Longrightarrow> dl_take d = (None, d)" by (simp add: dl_take_def dl_rep_def)
  show "dl_rep d (t # q) \<Longrightarrow> \<exists>d'. dl_take d = (Some t, d') \<and> dl_rep d' q"
    using dl_take_rep [of d t q] by (metis prod.collapse)
  show "dl_rep d q \<Longrightarrow> t \<notin> set q \<Longrightarrow> dl_remove d t = d" by (simp add: dl_remove_def dl_rep_queued)
qed (auto intro: dl_add_rep dl_remove_rep)


section \<open>Refinement of lists\<close>

datatype queue_op = Add nat | Take | Del nat

fun dl_step :: "dlist \<Rightarrow> queue_op \<Rightarrow> dlist \<times> nat option" where
  "dl_step d (Add t) = (dl_add d t, None)"
| "dl_step d Take = (snd (dl_take d), fst (dl_take d))"
| "dl_step d (Del t) = (dl_remove d t, None)"

fun list_step :: "nat list \<Rightarrow> queue_op \<Rightarrow> nat list \<times> nat option" where
  "list_step q (Add t) = (if t \<in> set q then q else q @ [t], None)"
| "list_step q Take = (tl q, hdo q)"
| "list_step q (Del t) = (remove1 t q, None)"

fun runs :: "('q \<Rightarrow> queue_op \<Rightarrow> 'q \<times> nat option) \<Rightarrow> queue_op list \<Rightarrow> 'q \<Rightarrow> 'q \<times> nat option list" where
  "runs step [] q = (q, [])"
| "runs step (x # xs) q = (let (q, r) = step q x; (q, rs) = runs step xs q in (q, r # rs))"

lemma dl_step_refines:
  "dl_rep d q \<Longrightarrow> dl_rep (fst (dl_step d x)) (fst (list_step q x)) \<and> snd (dl_step d x) = snd (list_step q x)"
  using dlq.add_rep [of d q] dlq.del_rep [of d q] dlq.take_rep [of d q]
  by (cases x) (auto dest: arg_cong [of _ _ fst])

lemma runs_refines:
  "dl_rep d q \<Longrightarrow> dl_rep (fst (runs dl_step xs d)) (fst (runs list_step xs q))
     \<and> snd (runs dl_step xs d) = snd (runs list_step xs q)"
proof (induction xs arbitrary: d q)
  case (Cons x xs)
  from dl_step_refines [OF Cons.prems, of x] Cons.IH [of "fst (dl_step d x)" "fst (list_step q x)"]
  show ?case by (simp add: case_prod_beta Let_def)
qed simp

text \<open>
  C10. The linked queues behave as lists: whatever sequence of additions, removals and takes runs
  on an empty queue, the elements taken are those a list gives, and the links, the two ends and
  the queued flags represent that list: nothing is lost, duplicated or reordered.
\<close>

theorem thread_queue_refines_list:
  "snd (runs dl_step xs dl_empty) = snd (runs list_step xs [])
   \<and> dl_rep (fst (runs dl_step xs dl_empty)) (fst (runs list_step xs []))
   \<and> distinct (fst (runs list_step xs []))"
  using runs_refines [OF dl_rep_empty, of xs] dlq.rep_distinct by blast

end
