(* ===== verification/Sched.thy ===== *)
theory Sched
  imports Tqueue Kstring
begin

text \<open>
  Threads and the scheduler: \<open>sched/thread.c\<close>, \<open>sched/scheduler.c\<close>, the wake-up and
  preemption part of \<open>interrupt/timer.c\<close> and the blocking helper of \<open>net/network.c\<close>.

  A thread pointer is the thread's id; \<open>tcb\<close> is what it points to (it stays there after the
  structure is freed) and \<open>alive\<close> says that the table still holds it. The links of the ready
  queue and the wake list are in \<open>rq\<close> and \<open>wl\<close>. What the scheduler asks of other components
  (freeing memory, closing descriptors) is the log \<open>calls\<close>, newest last. Whether the
  allocations of \<open>thread_create\<close> succeed is its argument. A function that takes the global
  lock is one atomic step.
\<close>

datatype thread_state = THREAD_RUNNING | THREAD_READY | THREAD_BLOCKED | THREAD_TERMINATED

definition MAX_THREADS :: nat where "MAX_THREADS = 1024"
definition TIME_SLICE_DEFAULT :: int where "TIME_SLICE_DEFAULT = 8"
definition USER_MAX_GROUPS :: int where "USER_MAX_GROUPS = 32"

record thread =
  stack :: nat
  state :: thread_state
  name :: string
  uid :: u32
  euid :: u32
  suid :: u32
  gid :: u32
  egid :: u32
  sgid :: u32
  groups :: "u32 list"
  ngroups :: int
  user_vstart :: u64
  user_vend :: u64
  thread_cr3 :: u64
  wake_tick :: nat
  kill_pending :: bool
  cpu_ticks :: nat
  quantum :: int
  priority :: int

datatype call = Fd_close_all nat | Free_user_space u64 u64 u64 | Kfree_stack nat | Kfree_thread nat

record sched =
  tcb :: "nat \<Rightarrow> thread"
  alive :: "nat \<Rightarrow> bool"
  current_thread_id :: int
  next_thread_id :: nat
  blocked_count :: nat
  rq :: dlist
  rq_count :: int
  wl :: dlist
  kernel_cr3 :: u64
  cpu_cr3 :: u64
  kernel_stack :: nat
  idle_tick_count :: nat
  calls :: "call list"

abbreviation upd_thread :: "nat \<Rightarrow> (thread \<Rightarrow> thread) \<Rightarrow> sched \<Rightarrow> sched" where
  "upd_thread t f s \<equiv> s\<lparr>tcb := (tcb s)(t := f (tcb s t))\<rparr>"

section \<open>The queues\<close>

definition wake_list_add :: "sched \<Rightarrow> nat \<Rightarrow> sched" where
  "wake_list_add s t = s\<lparr>wl := dl_add (wl s) t\<rparr>"

definition wake_list_remove :: "sched \<Rightarrow> nat \<Rightarrow> sched" where
  "wake_list_remove s t = s\<lparr>wl := dl_remove (wl s) t\<rparr>"

definition rq_enqueue :: "sched \<Rightarrow> nat \<Rightarrow> sched" where
  "rq_enqueue s t =
     (if queued (rq s) t then s else s\<lparr>rq := dl_add (rq s) t, rq_count := rq_count s + 1\<rparr>)"

definition rq_dequeue :: "sched \<Rightarrow> nat option \<times> sched" where
  "rq_dequeue s =
     (case dl_take (rq s) of
        (None, d) \<Rightarrow> (None, s)
      | (Some t, d) \<Rightarrow> (Some t, s\<lparr>rq := d, rq_count := rq_count s - 1\<rparr>))"

definition rq_remove :: "sched \<Rightarrow> nat \<Rightarrow> sched" where
  "rq_remove s t =
     (if \<not> queued (rq s) t then s else s\<lparr>rq := dl_remove (rq s) t, rq_count := rq_count s - 1\<rparr>)"

definition rq_get_count :: "sched \<Rightarrow> int" where "rq_get_count s = rq_count s"

section \<open>Thread lifecycle\<close>

definition thread_init :: "sched \<Rightarrow> sched" where
  "thread_init s = s\<lparr>alive := (\<lambda>_. False), current_thread_id := -1, next_thread_id := 0,
     blocked_count := 0\<rparr>"

definition fresh_thread :: "nat \<Rightarrow> thread" where
  "fresh_thread stk = \<lparr>stack = stk, state = THREAD_READY, name = ''kernel'', uid = 0, euid = 0, suid = 0,
     gid = 0, egid = 0, sgid = 0, groups = replicate 32 0, ngroups = 0, user_vstart = 0,
     user_vend = 0, thread_cr3 = 0, wake_tick = 0, kill_pending = False, cpu_ticks = 0,
     quantum = TIME_SLICE_DEFAULT, priority = 0\<rparr>"

text \<open>The structure is cleared, which takes the thread's links and queued flags with it.\<close>

definition dl_clear :: "dlist \<Rightarrow> nat \<Rightarrow> dlist" where
  "dl_clear d t = d\<lparr>nx := (nx d)(t := None), pv := (pv d)(t := None), queued := (queued d)(t := False)\<rparr>"

definition thread_init_common :: "nat \<Rightarrow> sched \<Rightarrow> nat \<times> sched" where
  "thread_init_common stk s =
     (let t = next_thread_id s in
      (t, s\<lparr>next_thread_id := t + 1, tcb := (tcb s)(t := fresh_thread stk),
           rq := dl_clear (rq s) t, wl := dl_clear (wl s) t\<rparr>))"

definition thread_create :: "bool \<Rightarrow> nat \<Rightarrow> sched \<Rightarrow> int \<times> sched" where
  "thread_create have_tcb stk s =
     (if MAX_THREADS \<le> next_thread_id s then (-1, s)
      else if \<not> have_tcb then (-1, s)
      else case thread_init_common stk s of
             (t, s) \<Rightarrow>
               if stack (tcb s t) = 0 then (-1, s\<lparr>calls := calls s @ [Kfree_thread t]\<rparr>)
               else (int t, rq_enqueue (s\<lparr>alive := (alive s)(t := True)\<rparr>) t))"

definition valid_tid :: "sched \<Rightarrow> int \<Rightarrow> bool" where
  "valid_tid s tid \<longleftrightarrow> 0 \<le> tid \<and> tid < int MAX_THREADS \<and> alive s (nat tid)"

definition thread_set_name :: "int \<Rightarrow> string \<Rightarrow> sched \<Rightarrow> int \<times> sched" where
  "thread_set_name tid nm s =
     (if \<not> valid_tid s tid then (-1, s)
      else (0, upd_thread (nat tid) (\<lambda>t. t\<lparr>name := take 31 nm\<rparr>) s))"

definition reap_one :: "sched \<Rightarrow> nat \<Rightarrow> sched" where
  "reap_one s i =
     (if \<not> alive s i \<or> state (tcb s i) \<noteq> THREAD_TERMINATED \<or> current_thread_id s = int i then s
      else let s = rq_remove s i;
               t = tcb s i;
               s = s\<lparr>calls := calls s @ [Fd_close_all i]\<rparr>;
               s = (if thread_cr3 t \<noteq> 0 \<and> user_vstart t < user_vend t
                    then s\<lparr>calls := calls s @ [Free_user_space (thread_cr3 t) (user_vstart t) (user_vend t)]\<rparr>
                    else s);
               s = (if stack t \<noteq> 0
                    then upd_thread i (\<lambda>t. t\<lparr>stack := 0\<rparr>) (s\<lparr>calls := calls s @ [Kfree_stack (stack t)]\<rparr>)
                    else s)
           in s\<lparr>calls := calls s @ [Kfree_thread i], alive := (alive s)(i := False)\<rparr>)"

definition thread_reap_terminated :: "sched \<Rightarrow> sched" where
  "thread_reap_terminated s = fold (\<lambda>i s. reap_one s i) [0..<MAX_THREADS] s"

definition thread_kill :: "int \<Rightarrow> sched \<Rightarrow> int \<times> sched" where
  "thread_kill tid s =
     (if \<not> valid_tid s tid then (-1, s)
      else let t = nat tid;
               s = (if state (tcb s t) = THREAD_BLOCKED \<and> 0 < blocked_count s
                    then s\<lparr>blocked_count := blocked_count s - 1\<rparr> else s);
               s = wake_list_remove s t;
               s = rq_remove s t
           in (0, upd_thread t (\<lambda>t. t\<lparr>state := THREAD_TERMINATED\<rparr>) s))"

text \<open>The first half of \<open>thread_exit_current\<close>; the second is \<open>scheduler\<close> in a loop.\<close>

definition thread_exit_mark :: "sched \<Rightarrow> sched" where
  "thread_exit_mark s =
     (let tid = current_thread_id s in
      if valid_tid s tid
      then upd_thread (nat tid) (\<lambda>t. t\<lparr>state := THREAD_TERMINATED\<rparr>) (rq_remove s (nat tid))
      else s)"

section \<open>Scheduling\<close>

text \<open>
  The decision: the old thread (whose registers the switch saves, if there is one) and the
  thread to switch to.
\<close>

definition activate :: "sched \<Rightarrow> nat \<Rightarrow> sched" where
  "activate s n =
     (let s = upd_thread n (\<lambda>t. t\<lparr>state := THREAD_RUNNING\<rparr>) s;
          s = (if quantum (tcb s n) \<le> 0 then upd_thread n (\<lambda>t. t\<lparr>quantum := TIME_SLICE_DEFAULT\<rparr>) s else s);
          s = s\<lparr>current_thread_id := int n\<rparr>;
          s = (if kernel_cr3 s = 0 then s\<lparr>kernel_cr3 := cpu_cr3 s\<rparr> else s);
          target = (if thread_cr3 (tcb s n) \<noteq> 0 then thread_cr3 (tcb s n) else kernel_cr3 s);
          s = (if target \<noteq> 0 then s\<lparr>cpu_cr3 := target\<rparr> else s)
      in if stack (tcb s n) \<noteq> 0 then s\<lparr>kernel_stack := (stack (tcb s n) + 8192) div 16 * 16\<rparr> else s)"

definition preempt_old :: "sched \<Rightarrow> nat option \<times> sched" where
  "preempt_old s =
     (let old_id = current_thread_id s in
      if valid_tid s old_id
      then let old = nat old_id in
           (Some old, if state (tcb s old) = THREAD_RUNNING
                      then rq_enqueue (upd_thread old (\<lambda>t. t\<lparr>state := THREAD_READY\<rparr>) s) old else s)
      else (None, s))"

definition schedule_core :: "sched \<Rightarrow> nat option \<times> nat option \<times> sched" where
  "schedule_core s =
     (let s = thread_reap_terminated s;
          old_id = current_thread_id s
      in case preempt_old s of (old, s) \<Rightarrow>
         case rq_dequeue s of
           (None, s) \<Rightarrow> (None, None, s\<lparr>current_thread_id := -1\<rparr>)
         | (Some n, s) \<Rightarrow>
             if old_id = int n
             then (None, None, upd_thread n (\<lambda>t. t\<lparr>state := THREAD_RUNNING, quantum := TIME_SLICE_DEFAULT\<rparr>) s)
             else (old, Some n, activate s n))"

definition scheduler :: "sched \<Rightarrow> (nat option \<times> nat) option \<times> sched" where
  "scheduler s =
     (case schedule_core s of (old, nxt, s) \<Rightarrow> (map_option (\<lambda>n. (old, n)) nxt, s))"

section \<open>Blocking and waking\<close>

definition block_current :: "nat \<Rightarrow> sched \<Rightarrow> sched" where
  "block_current wake s =
     (let tid = current_thread_id s in
      if valid_tid s tid \<and> state (tcb s (nat tid)) \<noteq> THREAD_BLOCKED
      then let t = nat tid;
               s = upd_thread t (\<lambda>t. t\<lparr>wake_tick := wake, state := THREAD_BLOCKED\<rparr>) s;
               s = rq_remove s t
           in wake_list_add (s\<lparr>blocked_count := blocked_count s + 1\<rparr>) t
      else s)"

definition network_thread_block :: "nat \<Rightarrow> sched \<Rightarrow> (nat option \<times> nat) option \<times> sched" where
  "network_thread_block now s = scheduler (block_current (now + 1) s)"

definition wake_one :: "nat \<Rightarrow> sched \<Rightarrow> nat \<Rightarrow> sched" where
  "wake_one now s t =
     (if state (tcb s t) = THREAD_BLOCKED \<and> 0 < wake_tick (tcb s t) \<and> wake_tick (tcb s t) \<le> now
      then let s = upd_thread t (\<lambda>t. t\<lparr>state := THREAD_READY, wake_tick := 0\<rparr>) s;
               s = wake_list_remove (rq_enqueue s t) t
           in (if 0 < blocked_count s then s\<lparr>blocked_count := blocked_count s - 1\<rparr> else s)
      else s)"

partial_function (option) wake_loop :: "nat \<Rightarrow> nat option \<Rightarrow> sched \<Rightarrow> sched option" where
  "wake_loop now t s =
     (case t of None \<Rightarrow> Some s
      | Some t \<Rightarrow> let next = nx (wl s) t in wake_loop now next (wake_one now s t))"

text \<open>
  The timer interrupt at tick \<open>now\<close>: it wakes, then preempts. Each part needs the scheduler's
  lock and is skipped when the attempt to take it fails, which \<open>wfree\<close> and \<open>pfree\<close> tell; the time
  slice then stays used up until an interrupt finds the lock free.
\<close>

definition timer_handler :: "nat \<Rightarrow> bool \<Rightarrow> bool \<Rightarrow> sched \<Rightarrow> ((nat option \<times> nat) option \<times> sched) option" where
  "timer_handler now wfree pfree s =
     Option.bind (if wfree then wake_loop now (head (wl s)) s else Some s) (\<lambda>s.
       let tid = current_thread_id s in
       Some (if valid_tid s tid \<and> state (tcb s (nat tid)) = THREAD_RUNNING
             then let t = nat tid;
                      s = upd_thread t (\<lambda>t. t\<lparr>cpu_ticks := cpu_ticks t + 1, quantum := quantum t - 1\<rparr>) s
                  in if quantum (tcb s t) \<le> 0 \<and> pfree then scheduler s else (None, s)
             else (None, s\<lparr>idle_tick_count := idle_tick_count s + 1\<rparr>)))"

section \<open>Accessors of the current thread\<close>

definition current_field :: "(thread \<Rightarrow> 'a) \<Rightarrow> 'a \<Rightarrow> sched \<Rightarrow> 'a" where
  "current_field f d s = (if valid_tid s (current_thread_id s) then f (tcb s (nat (current_thread_id s))) else d)"

definition set_current :: "(thread \<Rightarrow> thread) \<Rightarrow> sched \<Rightarrow> int \<times> sched" where
  "set_current f s =
     (if valid_tid s (current_thread_id s) then (0, upd_thread (nat (current_thread_id s)) f s) else (-1, s))"

definition thread_get_current_uid :: "sched \<Rightarrow> u32" where
  "thread_get_current_uid s = current_field uid 0 s"
definition thread_set_current_uid :: "u32 \<Rightarrow> sched \<Rightarrow> int \<times> sched" where
  "thread_set_current_uid u s = set_current (\<lambda>t. t\<lparr>uid := u\<rparr>) s"
definition thread_get_current_user_range :: "sched \<Rightarrow> (u64 \<times> u64) option" where
  "thread_get_current_user_range s = current_field (\<lambda>t. Some (user_vstart t, user_vend t)) None s"
definition thread_get_current_cr3 :: "sched \<Rightarrow> u64" where
  "thread_get_current_cr3 s = current_field thread_cr3 0 s"
definition thread_set_current_cr3 :: "u64 \<Rightarrow> sched \<Rightarrow> sched" where
  "thread_set_current_cr3 v s = snd (set_current (\<lambda>t. t\<lparr>thread_cr3 := v\<rparr>) s)"
definition thread_get_current_tid :: "sched \<Rightarrow> int" where
  "thread_get_current_tid s = (if valid_tid s (current_thread_id s) then current_thread_id s else -1)"
definition thread_get_current_euid :: "sched \<Rightarrow> u32" where
  "thread_get_current_euid s = current_field euid 0 s"
definition thread_set_current_euid :: "u32 \<Rightarrow> sched \<Rightarrow> int \<times> sched" where
  "thread_set_current_euid u s = set_current (\<lambda>t. t\<lparr>euid := u\<rparr>) s"
definition thread_get_current_gid :: "sched \<Rightarrow> u32" where
  "thread_get_current_gid s = current_field gid 0 s"
definition thread_set_current_gid :: "u32 \<Rightarrow> sched \<Rightarrow> int \<times> sched" where
  "thread_set_current_gid g s = set_current (\<lambda>t. t\<lparr>gid := g\<rparr>) s"
definition thread_get_current_egid :: "sched \<Rightarrow> u32" where
  "thread_get_current_egid s = current_field egid 0 s"
definition thread_set_current_egid :: "u32 \<Rightarrow> sched \<Rightarrow> int \<times> sched" where
  "thread_set_current_egid g s = set_current (\<lambda>t. t\<lparr>egid := g\<rparr>) s"

definition thread_get_current_groups :: "int \<Rightarrow> sched \<Rightarrow> int \<times> u32 list" where
  "thread_get_current_groups mx s =
     current_field (\<lambda>t. (ngroups t, take (nat (min (ngroups t) mx)) (groups t))) (-1, []) s"

definition thread_set_current_groups :: "u32 list \<Rightarrow> int \<Rightarrow> sched \<Rightarrow> int \<times> sched" where
  "thread_set_current_groups gs n s =
     (let n = (if USER_MAX_GROUPS < n then USER_MAX_GROUPS else n) in
      set_current (\<lambda>t. t\<lparr>ngroups := n, groups := take (nat n) gs @ drop (nat n) (groups t)\<rparr>) s)"


section \<open>What the queue operations leave alone\<close>

lemma rq_enqueue_frame [simp, frame]:
  "tcb (rq_enqueue s t) = tcb s" "alive (rq_enqueue s t) = alive s"
  "current_thread_id (rq_enqueue s t) = current_thread_id s"
  "next_thread_id (rq_enqueue s t) = next_thread_id s" "wl (rq_enqueue s t) = wl s"
  "calls (rq_enqueue s t) = calls s" "blocked_count (rq_enqueue s t) = blocked_count s"
  by (simp_all add: rq_enqueue_def)

lemma rq_remove_frame [simp, frame]:
  "tcb (rq_remove s t) = tcb s" "alive (rq_remove s t) = alive s"
  "current_thread_id (rq_remove s t) = current_thread_id s"
  "next_thread_id (rq_remove s t) = next_thread_id s" "wl (rq_remove s t) = wl s"
  "calls (rq_remove s t) = calls s" "blocked_count (rq_remove s t) = blocked_count s"
  by (simp_all add: rq_remove_def)

lemma wake_list_frame [simp, frame]:
  "tcb (wake_list_add s t) = tcb s" "alive (wake_list_add s t) = alive s"
  "current_thread_id (wake_list_add s t) = current_thread_id s"
  "next_thread_id (wake_list_add s t) = next_thread_id s" "rq (wake_list_add s t) = rq s"
  "rq_count (wake_list_add s t) = rq_count s" "calls (wake_list_add s t) = calls s"
  "tcb (wake_list_remove s t) = tcb s" "alive (wake_list_remove s t) = alive s"
  "current_thread_id (wake_list_remove s t) = current_thread_id s"
  "next_thread_id (wake_list_remove s t) = next_thread_id s" "rq (wake_list_remove s t) = rq s"
  "rq_count (wake_list_remove s t) = rq_count s" "calls (wake_list_remove s t) = calls s"
  by (simp_all add: wake_list_add_def wake_list_remove_def)

text \<open>The ready queue and the wake list as lists.\<close>

definition rq_rep :: "sched \<Rightarrow> nat list \<Rightarrow> bool" where
  "rq_rep s q \<longleftrightarrow> dl_rep (rq s) q \<and> rq_count s = int (length q)"

definition wl_rep :: "sched \<Rightarrow> nat list \<Rightarrow> bool" where
  "wl_rep s w \<longleftrightarrow> dl_rep (wl s) w"

lemma rep_cong:
  "rq s' = rq s \<Longrightarrow> rq_count s' = rq_count s \<Longrightarrow> rq_rep s' = rq_rep s"
  "wl s' = wl s \<Longrightarrow> wl_rep s' = wl_rep s"
  by (auto simp: rq_rep_def wl_rep_def)

lemma rq_enqueue_rep: "rq_rep s q \<Longrightarrow> rq_rep (rq_enqueue s t) (if t \<in> set q then q else q @ [t])"
  using dlq.add_new [of "rq s" q t] by (auto simp: rq_rep_def rq_enqueue_def dl_rep_queued)

lemma rq_remove_rep: "rq_rep s q \<Longrightarrow> rq_rep (rq_remove s t) (remove1 t q)"
proof (cases "t \<in> set q")
  case True
  assume r: "rq_rep s q"
  from True have "length q = Suc (length (remove1 t q))"
    by (metis One_nat_def Suc_pred length_pos_if_in_set length_remove1)
  with r True dlq.del_rep [of "rq s" q t] show ?thesis
    using dl_rep_queued [of "rq s" q t] by (simp add: rq_rep_def rq_remove_def)
next
  case False
  assume "rq_rep s q"
  with False show ?thesis by (auto simp: rq_rep_def rq_remove_def dl_rep_queued remove1_idem)
qed

lemma rq_dequeue_rep:
  "rq_rep s [] \<Longrightarrow> rq_dequeue s = (None, s)"
  "rq_rep s (t # q) \<Longrightarrow> \<exists>d. rq_dequeue s = (Some t, s\<lparr>rq := d, rq_count := rq_count s - 1\<rparr>)
     \<and> rq_rep (s\<lparr>rq := d, rq_count := rq_count s - 1\<rparr>) q"
  using dlq.take_nil [of "rq s"] dlq.take_cons [of "rq s" t q]
  by (auto simp: rq_rep_def rq_dequeue_def)

lemma wake_list_rep:
  "wl_rep s w \<Longrightarrow> wl_rep (wake_list_add s t) (if t \<in> set w then w else w @ [t])"
  "wl_rep s w \<Longrightarrow> wl_rep (wake_list_remove s t) (remove1 t w)"
  using dlq.add_rep [of "wl s" w t] dlq.del_rep [of "wl s" w t]
  by (simp_all add: wl_rep_def wake_list_add_def wake_list_remove_def)

section \<open>The invariant\<close>

text \<open>
  The ready queue holds exactly the live threads that are ready, each once; a running thread is
  the current one; ids come from below \<open>next_thread_id\<close>; a freed thread in the wake list is
  terminated, so it is never woken.
\<close>

definition sched_ok :: "sched \<Rightarrow> nat list \<Rightarrow> nat list \<Rightarrow> bool" where
  "sched_ok s q w \<longleftrightarrow> rq_rep s q \<and> wl_rep s w
     \<and> (\<forall>t. t \<in> set q \<longleftrightarrow> alive s t \<and> state (tcb s t) = THREAD_READY)
     \<and> (\<forall>t. alive s t \<longrightarrow> state (tcb s t) = THREAD_RUNNING \<longrightarrow> current_thread_id s = int t)
     \<and> (\<forall>t. alive s t \<longrightarrow> t < next_thread_id s) \<and> next_thread_id s \<le> MAX_THREADS
     \<and> (\<forall>t\<in>set w. t < next_thread_id s \<and> (alive s t \<or> state (tcb s t) = THREAD_TERMINATED))"

lemma sched_ok_distinct: "sched_ok s q w \<Longrightarrow> distinct q \<and> distinct w"
  using dlq.rep_distinct by (auto simp: sched_ok_def rq_rep_def wl_rep_def)

lemma valid_current: "sched_ok s q w \<Longrightarrow> valid_tid s i \<longleftrightarrow> 0 \<le> i \<and> alive s (nat i)"
  by (auto simp: sched_ok_def valid_tid_def)

text \<open>Reaping.\<close>

definition reapable :: "sched \<Rightarrow> nat \<Rightarrow> bool" where
  "reapable s i \<longleftrightarrow> alive s i \<and> state (tcb s i) = THREAD_TERMINATED \<and> current_thread_id s \<noteq> int i"

lemma reap_one_frame [simp, frame]:
  "current_thread_id (reap_one s i) = current_thread_id s"
  "next_thread_id (reap_one s i) = next_thread_id s"
  "wl (reap_one s i) = wl s"
  "state (tcb (reap_one s i) t) = state (tcb s t)"
  "t \<noteq> i \<Longrightarrow> tcb (reap_one s i) t = tcb s t"
  "alive (reap_one s i) t \<longleftrightarrow> alive s t \<and> \<not> (t = i \<and> reapable s i)"
  by (simp_all add: reap_one_def reapable_def Let_def)

lemma reap_one_calls:
  "set (calls s) \<subseteq> set (calls (reap_one s i))"
  "reapable s i \<Longrightarrow> stack (tcb s i) \<noteq> 0 \<Longrightarrow> Kfree_stack (stack (tcb s i)) \<in> set (calls (reap_one s i))"
  by (auto simp: reap_one_def reapable_def Let_def)

lemma reap_one_rq:
  assumes "rq_rep s q" "i \<notin> set q"
  shows "rq_rep (reap_one s i) q"
proof -
  have "rq_remove s i = s" using assms dl_rep_queued [of "rq s" q i] by (simp add: rq_remove_def rq_rep_def)
  then show ?thesis using assms by (simp add: reap_one_def Let_def rq_rep_def)
qed

lemma reap_one_ok [keeps]:
  assumes "sched_ok s q w"
  shows "sched_ok (reap_one s i) q w"
proof (cases "reapable s i")
  case False
  then have "reap_one s i = s" by (auto simp: reap_one_def reapable_def)
  with assms show ?thesis by simp
next
  case True
  then have i: "i \<notin> set q" using assms by (auto simp: sched_ok_def reapable_def)
  have "rq_rep (reap_one s i) q" using assms i by (intro reap_one_rq) (simp_all add: sched_ok_def)
  moreover have "wl_rep (reap_one s i) w" using assms by (simp add: sched_ok_def wl_rep_def)
  ultimately show ?thesis
    using assms i True by (auto simp: sched_ok_def reapable_def)
qed

lemma reap_fold:
  "sched_ok s q w \<Longrightarrow> sched_ok (fold (\<lambda>i s. reap_one s i) is s) q w"
  by (induction "is" arbitrary: s) (auto intro: reap_one_ok)

lemma reap_fold_frame:
  "current_thread_id (fold (\<lambda>i s. reap_one s i) is s) = current_thread_id s
   \<and> next_thread_id (fold (\<lambda>i s. reap_one s i) is s) = next_thread_id s
   \<and> (\<forall>t. state (tcb (fold (\<lambda>i s. reap_one s i) is s) t) = state (tcb s t))
   \<and> (\<forall>t. t \<notin> set is \<or> \<not> reapable s t \<longrightarrow>
        alive (fold (\<lambda>i s. reap_one s i) is s) t = alive s t)
   \<and> (\<forall>t. t \<notin> set is \<longrightarrow> tcb (fold (\<lambda>i s. reap_one s i) is s) t = tcb s t)
   \<and> set (calls s) \<subseteq> set (calls (fold (\<lambda>i s. reap_one s i) is s))"
proof (induction "is" arbitrary: s)
  case (Cons i "is")
  have "reapable (reap_one s i) t \<longrightarrow> reapable s t" for t by (auto simp: reapable_def)
  with Cons.IH [of "reap_one s i"] reap_one_calls(1) [of s i] show ?case by auto
qed simp

lemma reap_ok [keeps]: "sched_ok s q w \<Longrightarrow> sched_ok (thread_reap_terminated s) q w"
  by (simp add: thread_reap_terminated_def reap_fold)

lemma reap_frame [simp, frame]:
  "current_thread_id (thread_reap_terminated s) = current_thread_id s"
  "next_thread_id (thread_reap_terminated s) = next_thread_id s"
  "state (tcb (thread_reap_terminated s) t) = state (tcb s t)"
  "\<not> reapable s t \<Longrightarrow> alive (thread_reap_terminated s) t = alive s t"
  by (simp_all add: thread_reap_terminated_def reap_fold_frame)


text \<open>What reaping does to one thread.\<close>

lemma reap_fold_not:
  "\<not> reapable s t \<Longrightarrow> tcb (fold (\<lambda>i s. reap_one s i) is s) t = tcb s t"
proof (induction "is" arbitrary: s)
  case (Cons i "is")
  have "tcb (reap_one s i) t = tcb s t"
  proof (cases "t = i")
    case True
    then have "reap_one s i = s" using Cons.prems by (auto simp: reap_one_def reapable_def)
    then show ?thesis by simp
  qed simp
  moreover have "\<not> reapable (reap_one s i) t" using Cons.prems by (simp add: reapable_def)
  ultimately show ?case using Cons.IH [of "reap_one s i"] by simp
qed simp

lemma reap_not_reapable: "\<not> reapable s t \<Longrightarrow> tcb (thread_reap_terminated s) t = tcb s t"
  by (simp add: thread_reap_terminated_def reap_fold_not)

lemma reap_reapable:
  assumes "reapable s t" "t < MAX_THREADS"
  shows "\<not> alive (thread_reap_terminated s) t"
    and "stack (tcb s t) \<noteq> 0 \<Longrightarrow> Kfree_stack (stack (tcb s t)) \<in> set (calls (thread_reap_terminated s))"
proof -
  let ?f = "fold (\<lambda>i s. reap_one s i)"
  have "[0..<MAX_THREADS] = [0..<t] @ t # [Suc t..<MAX_THREADS]"
    using assms(2) by (metis upt_conv_Cons upt_add_eq_append le_add_diff_inverse less_imp_le zero_le)
  then have split: "thread_reap_terminated s = ?f [Suc t..<MAX_THREADS] (reap_one (?f [0..<t] s) t)"
    by (simp add: thread_reap_terminated_def)
  let ?u = "?f [0..<t] s"
  have u: "tcb ?u t = tcb s t" "alive ?u t = alive s t" "current_thread_id ?u = current_thread_id s"
    by (simp_all add: reap_fold_frame)
  then have ru: "reapable ?u t" using assms(1) by (simp add: reapable_def)
  then show "\<not> alive (thread_reap_terminated s) t" by (simp add: split reap_fold_frame)
  assume "stack (tcb s t) \<noteq> 0"
  then have "Kfree_stack (stack (tcb s t)) \<in> set (calls (reap_one ?u t))"
    using reap_one_calls(2) [OF ru] u by simp
  then show "Kfree_stack (stack (tcb s t)) \<in> set (calls (thread_reap_terminated s))"
    unfolding split using reap_fold_frame by blast
qed

section \<open>Scheduling keeps the invariant\<close>

lemma preempt_old_ok:
  assumes ok: "sched_ok s q w" and p: "preempt_old s = (old, s')"
  defines "run \<equiv> valid_tid s (current_thread_id s) \<and> state (tcb s (nat (current_thread_id s))) = THREAD_RUNNING"
  shows "sched_ok s' (if run then q @ [nat (current_thread_id s)] else q) w"
    and "\<forall>t. alive s' t \<longrightarrow> state (tcb s' t) \<noteq> THREAD_RUNNING"
    and "old = (if valid_tid s (current_thread_id s) then Some (nat (current_thread_id s)) else None)"
    and "current_thread_id s' = current_thread_id s" "alive s' = alive s"
    and "next_thread_id s' = next_thread_id s" "stack (tcb s' t) = stack (tcb s t)"
    and "calls s' = calls s"
proof -
  let ?c = "nat (current_thread_id s)"
  have nr: "t = ?c" if "alive s t" "state (tcb s t) = THREAD_RUNNING" for t
    using ok that by (auto simp: sched_ok_def)
  have all: "sched_ok s' (if run then q @ [?c] else q) w
    \<and> (\<forall>t. alive s' t \<longrightarrow> state (tcb s' t) \<noteq> THREAD_RUNNING)
    \<and> old = (if valid_tid s (current_thread_id s) then Some ?c else None)
    \<and> current_thread_id s' = current_thread_id s \<and> alive s' = alive s
    \<and> next_thread_id s' = next_thread_id s \<and> stack (tcb s' t) = stack (tcb s t) \<and> calls s' = calls s"
  proof (cases run)
    case True
    then have v: "valid_tid s (current_thread_id s)" "state (tcb s ?c) = THREAD_RUNNING" "alive s ?c"
      by (auto simp: run_def valid_tid_def)
    define c where "c = ?c"
    have c: "?c = c" "alive s c" "state (tcb s c) = THREAD_RUNNING" using v by (simp_all add: c_def)
    let ?u = "upd_thread c (\<lambda>t. t\<lparr>state := THREAD_READY\<rparr>) s"
    have e: "s' = rq_enqueue ?u c" "old = Some c" using p v by (simp_all add: preempt_old_def Let_def c_def)
    have cq: "c \<notin> set q" using ok c by (auto simp: sched_ok_def)
    have "rq_rep ?u q" using ok by (simp add: sched_ok_def rq_rep_def)
    from rq_enqueue_rep [OF this, of c] cq have r1: "rq_rep s' (q @ [c])" by (simp add: e)
    have r2: "wl_rep s' w" using ok by (simp add: sched_ok_def wl_rep_def e)
    have t: "tcb s' = (tcb s)(c := (tcb s c)\<lparr>state := THREAD_READY\<rparr>)" "alive s' = alive s"
      "next_thread_id s' = next_thread_id s" "current_thread_id s' = current_thread_id s" "calls s' = calls s"
      by (simp_all add: e)
    have nr': "state (tcb s' x) \<noteq> THREAD_RUNNING" if "alive s' x" for x
      using nr [of x] that c by (cases "x = c") (auto simp: t)
    have mem: "x \<in> set (q @ [c]) \<longleftrightarrow> alive s' x \<and> state (tcb s' x) = THREAD_READY" for x
      using ok c by (cases "x = c") (simp_all add: sched_ok_def t)
    have "sched_ok s' (q @ [c]) w"
      using ok r1 r2 nr' mem c unfolding sched_ok_def t(2,3) by (auto simp: t(1))
    then show ?thesis using True nr' e v(1) t by (simp add: c_def)
  next
    case False
    then have e: "s' = s" using p by (auto simp: preempt_old_def run_def Let_def split: if_splits)
    have "state (tcb s t) \<noteq> THREAD_RUNNING" if "alive s t" for t
    proof
      assume r: "state (tcb s t) = THREAD_RUNNING"
      with ok that have "current_thread_id s = int t" by (simp add: sched_ok_def)
      with ok that r False show False
        by (auto simp: run_def valid_current [OF ok])
    qed
    with ok e p False show ?thesis by (auto simp: preempt_old_def Let_def split: if_splits)
  qed
  then show "sched_ok s' (if run then q @ [?c] else q) w"
    "\<forall>t. alive s' t \<longrightarrow> state (tcb s' t) \<noteq> THREAD_RUNNING"
    "old = (if valid_tid s (current_thread_id s) then Some ?c else None)"
    "current_thread_id s' = current_thread_id s" "alive s' = alive s"
    "next_thread_id s' = next_thread_id s" "stack (tcb s' t) = stack (tcb s t)" "calls s' = calls s" by blast+
qed

lemma activate_frame [simp, frame]:
  "alive (activate s n) = alive s" "next_thread_id (activate s n) = next_thread_id s"
  "rq (activate s n) = rq s" "rq_count (activate s n) = rq_count s" "wl (activate s n) = wl s"
  "current_thread_id (activate s n) = int n" "calls (activate s n) = calls s"
  "state (tcb (activate s n) t) = (if t = n then THREAD_RUNNING else state (tcb s t))"
  by (simp_all add: activate_def Let_def)

text \<open>
  The decision, over the ready list \<open>q\<close>: the running thread goes to its back, and its front is
  the next thread; if that is the running thread itself, or there is none, no switch happens.
\<close>

lemma schedule_core_result:
  assumes ok: "sched_ok s q w" and r: "schedule_core s = (old, nxt, s')"
  defines "run \<equiv> valid_tid s (current_thread_id s) \<and> state (tcb s (nat (current_thread_id s))) = THREAD_RUNNING"
  shows "case (if run then q @ [nat (current_thread_id s)] else q) of
      [] \<Rightarrow> nxt = None \<and> current_thread_id s' = -1 \<and> sched_ok s' [] w
    | n # q' \<Rightarrow> sched_ok s' q' w \<and> current_thread_id s' = int n \<and> alive s' n
        \<and> state (tcb s' n) = THREAD_RUNNING
        \<and> (if current_thread_id s = int n then nxt = None
           else nxt = Some n \<and> old = (if valid_tid (thread_reap_terminated s) (current_thread_id s)
                                      then Some (nat (current_thread_id s)) else None))"
proof -
  let ?r = "thread_reap_terminated s" and ?c = "nat (current_thread_id s)"
  have okr: "sched_ok ?r q w" using ok by (rule reap_ok)
  have run: "run \<longleftrightarrow> valid_tid ?r (current_thread_id ?r) \<and> state (tcb ?r ?c) = THREAD_RUNNING"
  proof -
    have "state (tcb s ?c) = THREAD_RUNNING \<Longrightarrow> alive ?r ?c = alive s ?c" by (simp add: reapable_def)
    then show ?thesis by (auto simp: run_def valid_tid_def)
  qed
  obtain o2 t where p: "preempt_old ?r = (o2, t)" by fastforce
  note pr = preempt_old_ok [OF okr p]
  let ?q = "if run then q @ [?c] else q"
  have okt: "sched_ok t ?q w" using pr(1) run by (cases run) (auto split: if_splits)
  have nr: "state (tcb t x) \<noteq> THREAD_RUNNING" if "alive t x" for x using pr(2) that by blast
  show ?thesis
  proof (cases ?q)
    case Nil
    then have "rq_rep t []" using okt by (simp add: sched_ok_def)
    from rq_dequeue_rep(1) [OF this] r p have "nxt = None" "s' = t\<lparr>current_thread_id := -1\<rparr>"
      by (simp_all add: schedule_core_def Let_def)
    moreover have "sched_ok (t\<lparr>current_thread_id := -1\<rparr>) [] w"
      using okt Nil nr by (auto simp: sched_ok_def rq_rep_def wl_rep_def)
    ultimately show ?thesis using Nil by simp
  next
    case (Cons n q')
    then have "rq_rep t (n # q')" using okt by (simp add: sched_ok_def)
    from rq_dequeue_rep(2) [OF this] obtain d where d: "rq_dequeue t = (Some n, t\<lparr>rq := d, rq_count := rq_count t - 1\<rparr>)"
      "rq_rep (t\<lparr>rq := d, rq_count := rq_count t - 1\<rparr>) q'" by blast
    let ?d = "t\<lparr>rq := d, rq_count := rq_count t - 1\<rparr>"
    have n: "alive t n" "state (tcb t n) = THREAD_READY" "n \<notin> set q'" "\<And>x. x \<in> set q' \<longleftrightarrow> x \<noteq> n \<and> alive t x \<and> state (tcb t x) = THREAD_READY"
      using okt Cons sched_ok_distinct [OF okt] by (auto simp: sched_ok_def)
    show ?thesis
    proof (cases "current_thread_id s = int n")
      case True
      let ?u = "upd_thread n (\<lambda>t. t\<lparr>state := THREAD_RUNNING, quantum := TIME_SLICE_DEFAULT\<rparr>) ?d"
      have "nxt = None" "s' = ?u" using r p d(1) True by (simp_all add: schedule_core_def Let_def)
      moreover have "sched_ok ?u q' w"
        using okt d(2) n nr True pr(4) by (auto simp: sched_ok_def rq_rep_def wl_rep_def)
      ultimately show ?thesis using Cons True n(1) pr(4) by simp
    next
      case False
      have e: "nxt = Some n" "old = o2" "s' = activate ?d n"
        using r p d(1) False by (simp_all add: schedule_core_def Let_def)
      have "sched_ok s' q' w"
        using okt d(2) n nr by (auto simp: sched_ok_def rq_rep_def wl_rep_def e)
      then show ?thesis using Cons False n(1) e pr(3) by simp
    qed
  qed
qed


definition sched_inv :: "sched \<Rightarrow> bool" where
  "sched_inv s \<longleftrightarrow> (\<exists>q w. sched_ok s q w)"

lemma scheduler_inv [keeps]: "sched_inv s \<Longrightarrow> sched_inv (snd (scheduler s))"
proof -
  assume "sched_inv s"
  then obtain q w where ok: "sched_ok s q w" by (auto simp: sched_inv_def)
  obtain old nxt s' where r: "schedule_core s = (old, nxt, s')" by (cases "schedule_core s")
  from schedule_core_result [OF ok r] r show ?thesis
    by (auto simp: scheduler_def sched_inv_def split: list.splits)
qed

lemma thread_create_inv [keeps]: "sched_inv s \<Longrightarrow> sched_inv (snd (thread_create b stk s))"
proof -
  assume "sched_inv s"
  then obtain q w where ok: "sched_ok s q w" by (auto simp: sched_inv_def)
  let ?t = "next_thread_id s"
  let ?u = "s\<lparr>next_thread_id := ?t + 1, tcb := (tcb s)(?t := fresh_thread stk),
           rq := dl_clear (rq s) ?t, wl := dl_clear (wl s) ?t\<rparr>"
  have fresh: "?t \<notin> set q" "?t \<notin> set w" "\<not> alive s ?t" using ok by (auto simp: sched_ok_def)
  have clear: "dl_rep (dl_clear d x) l" if "dl_rep d l" "x \<notin> set l" for d x l
    using that by (auto simp: dl_rep_def dl_clear_def dseg_upd)
  have reps: "rq_rep ?u q" "wl_rep ?u w" using ok fresh clear by (auto simp: sched_ok_def rq_rep_def wl_rep_def)
  show ?thesis
  proof (cases "MAX_THREADS \<le> ?t \<or> \<not> b")
    case True
    with ok show ?thesis by (auto simp: thread_create_def sched_inv_def)
  next
    case False
    have tcb: "tcb ?u x = (if x = ?t then fresh_thread stk else tcb s x)" for x by simp
    have fs: "state (fresh_thread stk) = THREAD_READY" "stack (fresh_thread stk) = stk"
      by (simp_all add: fresh_thread_def)
    show ?thesis
    proof (cases "stk = 0")
      case True
      have "sched_ok (?u\<lparr>calls := calls s @ [Kfree_thread ?t]\<rparr>) q w"
        using ok reps fresh False
        by (auto simp: sched_ok_def rq_rep_def wl_rep_def intro: less_SucI)
      moreover have "snd (thread_create b stk s) = ?u\<lparr>calls := calls s @ [Kfree_thread ?t]\<rparr>"
        using True False fs by (simp add: thread_create_def thread_init_common_def Let_def)
      ultimately show ?thesis unfolding sched_inv_def by metis
    next
      case nz: False
      let ?v = "?u\<lparr>alive := (alive s)(?t := True)\<rparr>"
      have e: "snd (thread_create b stk s) = rq_enqueue ?v ?t"
        using nz False fs by (simp add: thread_create_def thread_init_common_def Let_def)
      have "rq_rep ?v q" using reps(1) by (simp add: rq_rep_def)
      from rq_enqueue_rep [OF this, of ?t] fresh(1) have r: "rq_rep (rq_enqueue ?v ?t) (q @ [?t])" by simp
      have "wl_rep (rq_enqueue ?v ?t) w" using reps(2) by (simp add: wl_rep_def)
      with ok r fresh False have "sched_ok (rq_enqueue ?v ?t) (q @ [?t]) w"
        unfolding sched_ok_def by (auto simp: fs less_Suc_eq)
      with e show ?thesis unfolding sched_inv_def by metis
    qed
  qed
qed

text \<open>Taking a thread out of the ready state, and out of the ready queue with it.\<close>

lemma leave_ready_ok:
  assumes ok: "sched_ok s q w" and f: "state (f (tcb s t)) \<noteq> THREAD_READY" "state (f (tcb s t)) \<noteq> THREAD_RUNNING"
    and dead: "t \<in> set w \<Longrightarrow> alive s t \<or> state (f (tcb s t)) = THREAD_TERMINATED"
  shows "sched_ok (upd_thread t f (rq_remove s t)) (remove1 t q) w"
proof -
  let ?s = "upd_thread t f (rq_remove s t)"
  have d: "distinct q" using sched_ok_distinct [OF ok] by simp
  have "rq_rep ?s (remove1 t q)" using ok rq_remove_rep [of s q t] by (simp add: sched_ok_def rq_rep_def)
  moreover have "wl_rep ?s w" using ok by (simp add: sched_ok_def wl_rep_def)
  moreover have "x \<in> set (remove1 t q) \<longleftrightarrow> alive ?s x \<and> state (tcb ?s x) = THREAD_READY" for x
    using ok d f by (cases "x = t") (auto simp: sched_ok_def)
  ultimately show ?thesis
    using ok f dead unfolding sched_ok_def by auto
qed

lemma wake_list_remove_ok: "sched_ok s q w \<Longrightarrow> sched_ok (wake_list_remove s t) q (remove1 t w)"
  using wake_list_rep(2) [of s w t] set_remove1_subset [of t w]
  by (auto simp: sched_ok_def rq_rep_def)

lemma sched_ok_count [simp]: "sched_ok (s\<lparr>blocked_count := n\<rparr>) q w = sched_ok s q w"
  by (simp add: sched_ok_def rq_rep_def wl_rep_def)

lemma thread_kill_inv [keeps]: "sched_inv s \<Longrightarrow> sched_inv (snd (thread_kill tid s))"
proof -
  assume "sched_inv s"
  then obtain q w where ok: "sched_ok s q w" by (auto simp: sched_inv_def)
  show ?thesis
  proof (cases "valid_tid s tid")
    case False
    with ok show ?thesis by (auto simp: thread_kill_def sched_inv_def)
  next
    case True
    let ?t = "nat tid"
    define u where "u = (if state (tcb s ?t) = THREAD_BLOCKED \<and> 0 < blocked_count s
                    then s\<lparr>blocked_count := blocked_count s - 1\<rparr> else s)"
    have "sched_ok u q w" using ok by (simp add: u_def)
    note wo = wake_list_remove_ok [OF this, of ?t]
    have "sched_ok (upd_thread ?t (\<lambda>t. t\<lparr>state := THREAD_TERMINATED\<rparr>) (rq_remove (wake_list_remove u ?t) ?t))
        (remove1 ?t q) (remove1 ?t w)"
      by (rule leave_ready_ok [OF wo]) simp_all
    moreover have "snd (thread_kill tid s)
        = upd_thread ?t (\<lambda>t. t\<lparr>state := THREAD_TERMINATED\<rparr>) (rq_remove (wake_list_remove u ?t) ?t)"
      using True by (simp add: thread_kill_def Let_def u_def)
    ultimately show ?thesis by (auto simp: sched_inv_def)
  qed
qed

lemma thread_exit_mark_inv [keeps]: "sched_inv s \<Longrightarrow> sched_inv (thread_exit_mark s)"
proof -
  assume "sched_inv s"
  then obtain q w where ok: "sched_ok s q w" by (auto simp: sched_inv_def)
  have "sched_ok (upd_thread t (\<lambda>t. t\<lparr>state := THREAD_TERMINATED\<rparr>) (rq_remove s t)) (remove1 t q) w" for t
    by (rule leave_ready_ok [OF ok]) simp_all
  with ok show ?thesis
    by (cases "valid_tid s (current_thread_id s)") (auto simp: sched_inv_def thread_exit_mark_def Let_def)
qed

lemma block_current_ok:
  assumes ok: "sched_ok s q w" and v: "valid_tid s (current_thread_id s)"
    "state (tcb s (nat (current_thread_id s))) \<noteq> THREAD_BLOCKED"
  defines "c \<equiv> nat (current_thread_id s)"
  shows "sched_ok (block_current wake s) (remove1 c q) (if c \<in> set w then w else w @ [c])"
    and "tcb (block_current wake s) = (tcb s)(c := (tcb s c)\<lparr>wake_tick := wake, state := THREAD_BLOCKED\<rparr>)"
    and "alive (block_current wake s) = alive s"
    and "current_thread_id (block_current wake s) = current_thread_id s"
proof -
  let ?f = "\<lambda>t. t\<lparr>wake_tick := wake, state := THREAD_BLOCKED\<rparr>"
  have a: "alive s c" using v by (simp add: valid_tid_def c_def)
  have comm: "rq_remove (upd_thread c ?f s) c = upd_thread c ?f (rq_remove s c)"
    by (simp add: rq_remove_def)
  let ?u = "upd_thread c ?f (rq_remove s c)"
  have e: "block_current wake s = wake_list_add (?u\<lparr>blocked_count := blocked_count s + 1\<rparr>) c"
    using v comm by (simp add: block_current_def Let_def c_def)
  have "sched_ok ?u (remove1 c q) w"
    by (rule leave_ready_ok [OF ok]) (simp_all add: a)
  then have u: "sched_ok (?u\<lparr>blocked_count := blocked_count s + 1\<rparr>) (remove1 c q) w" by simp
  have "c < next_thread_id s" using ok a by (simp add: sched_ok_def)
  with u a show "sched_ok (block_current wake s) (remove1 c q) (if c \<in> set w then w else w @ [c])"
    using wake_list_rep(1) [of "?u\<lparr>blocked_count := blocked_count s + 1\<rparr>" w c]
    unfolding e by (auto simp: sched_ok_def rq_rep_def)
  show "tcb (block_current wake s) = (tcb s)(c := (tcb s c)\<lparr>wake_tick := wake, state := THREAD_BLOCKED\<rparr>)"
    "alive (block_current wake s) = alive s"
    "current_thread_id (block_current wake s) = current_thread_id s" by (simp_all add: e)
qed

lemma block_current_inv [keeps]: "sched_inv s \<Longrightarrow> sched_inv (block_current wake s)"
proof -
  assume "sched_inv s"
  then obtain q w where ok: "sched_ok s q w" by (auto simp: sched_inv_def)
  show ?thesis
  proof (cases "valid_tid s (current_thread_id s) \<and> state (tcb s (nat (current_thread_id s))) \<noteq> THREAD_BLOCKED")
    case True
    with block_current_ok(1) [OF ok] show ?thesis by (auto simp: sched_inv_def)
  next
    case False
    then have "block_current wake s = s" by (auto simp: block_current_def Let_def)
    with ok show ?thesis by (auto simp: sched_inv_def)
  qed
qed


section \<open>The timer\<close>

definition due :: "nat \<Rightarrow> sched \<Rightarrow> nat \<Rightarrow> bool" where
  "due now s t \<longleftrightarrow> state (tcb s t) = THREAD_BLOCKED \<and> 0 < wake_tick (tcb s t) \<and> wake_tick (tcb s t) \<le> now"

lemma wake_one_ok:
  assumes ok: "sched_ok s q (xs @ y # ys)"
  shows "sched_ok (wake_one now s y) (if due now s y then q @ [y] else q)
      (if due now s y then xs @ ys else xs @ y # ys)"
    and "current_thread_id (wake_one now s y) = current_thread_id s"
    and "x \<noteq> y \<Longrightarrow> tcb (wake_one now s y) x = tcb s x"
    and "alive (wake_one now s y) = alive s"
    and "due now s y \<Longrightarrow> state (tcb (wake_one now s y) y) = THREAD_READY"
proof -
  let ?u = "upd_thread y (\<lambda>t. t\<lparr>state := THREAD_READY, wake_tick := 0\<rparr>) s"
  let ?v = "wake_list_remove (rq_enqueue ?u y) y"
  have e: "wake_one now s y = (if due now s y then (if 0 < blocked_count ?v
      then ?v\<lparr>blocked_count := blocked_count ?v - 1\<rparr> else ?v) else s)"
    by (simp add: wake_one_def due_def Let_def)
  show "current_thread_id (wake_one now s y) = current_thread_id s"
    "x \<noteq> y \<Longrightarrow> tcb (wake_one now s y) x = tcb s x" "alive (wake_one now s y) = alive s"
    "due now s y \<Longrightarrow> state (tcb (wake_one now s y) y) = THREAD_READY"
    by (simp_all add: e)
  show "sched_ok (wake_one now s y) (if due now s y then q @ [y] else q)
      (if due now s y then xs @ ys else xs @ y # ys)"
  proof (cases "due now s y")
    case False
    with ok e show ?thesis by simp
  next
    case True
    then have b: "state (tcb s y) = THREAD_BLOCKED" by (simp add: due_def)
    then have a: "alive s y" "y \<notin> set q" using ok by (auto simp: sched_ok_def)
    have ny: "y \<notin> set xs" "y \<notin> set ys" using sched_ok_distinct [OF ok] by auto
    have "rq_rep ?u q" using ok by (simp add: sched_ok_def rq_rep_def)
    from rq_enqueue_rep [OF this, of y] a(2) have r: "rq_rep (rq_enqueue ?u y) (q @ [y])" by simp
    have "wl_rep (rq_enqueue ?u y) (xs @ y # ys)" using ok by (simp add: sched_ok_def wl_rep_def)
    from wake_list_rep(2) [OF this, of y] ny have w: "wl_rep ?v (xs @ ys)"
      by (simp add: remove1_append)
    have r': "rq_rep ?v (q @ [y])" using r by (simp add: rq_rep_def)
    have t: "tcb ?v = (tcb s)(y := (tcb s y)\<lparr>state := THREAD_READY, wake_tick := 0\<rparr>)" "alive ?v = alive s"
      "next_thread_id ?v = next_thread_id s" "current_thread_id ?v = current_thread_id s" by simp_all
    have mem: "x \<in> set (q @ [y]) \<longleftrightarrow> alive ?v x \<and> state (tcb ?v x) = THREAD_READY" for x
      using ok a by (cases "x = y") (simp_all add: sched_ok_def)
    have "sched_ok ?v (q @ [y]) (xs @ ys)"
      using ok r' w mem a unfolding sched_ok_def t by auto
    then show ?thesis by (simp add: e True)
  qed
qed

lemma wake_loop_ok:
  assumes "sched_ok s q (xs @ ys)"
  shows "\<exists>s'. wake_loop now (hdo ys) s = Some s'
    \<and> sched_ok s' (q @ filter (due now s) ys) (xs @ filter (\<lambda>y. \<not> due now s y) ys)
    \<and> current_thread_id s' = current_thread_id s \<and> alive s' = alive s
    \<and> (\<forall>t. t \<notin> set ys \<longrightarrow> tcb s' t = tcb s t)"
  using assms
proof (induction ys arbitrary: s q xs)
  case Nil
  then show ?case by (subst wake_loop.simps) simp
next
  case (Cons y ys)
  note w = wake_one_ok [OF Cons.prems, where now = now]
  have ny: "y \<notin> set ys" using sched_ok_distinct [OF Cons.prems] by auto
  have "nx (wl s) y = hdo ys"
    using Cons.prems by (auto simp: sched_ok_def wl_rep_def dl_rep_def dseg_append split: list.splits)
  then have step: "wake_loop now (hdo (y # ys)) s = wake_loop now (hdo ys) (wake_one now s y)"
    by (subst wake_loop.simps) (simp add: Let_def)
  let ?s = "wake_one now s y" and ?q = "if due now s y then q @ [y] else q"
    and ?xs = "if due now s y then xs else xs @ [y]"
  have same: "due now ?s x = due now s x" if "x \<in> set ys" for x
  proof -
    have "x \<noteq> y" using that ny by auto
    then show ?thesis using w(3) [where x = x] by (simp add: due_def)
  qed
  then have f: "filter (due now ?s) ys = filter (due now s) ys"
    "filter (\<lambda>y. \<not> due now ?s y) ys = filter (\<lambda>y. \<not> due now s y) ys"
    by (auto intro!: filter_cong)
  have "sched_ok ?s ?q (?xs @ ys)" using w(1) by (simp split: if_splits)
  from Cons.IH [OF this] obtain s' where s': "wake_loop now (hdo ys) ?s = Some s'"
    "sched_ok s' (?q @ filter (due now s) ys) (?xs @ filter (\<lambda>y. \<not> due now s y) ys)"
    "current_thread_id s' = current_thread_id s" "alive s' = alive s"
    "\<forall>t. t \<notin> set ys \<longrightarrow> tcb s' t = tcb ?s t"
    unfolding f w(2,4) by blast
  then show ?case using step w(3) by (auto split: if_splits)
qed

lemma sched_ok_head: "sched_ok s q w \<Longrightarrow> head (wl s) = hdo w"
  by (simp add: sched_ok_def wl_rep_def dl_rep_def)

lemma upd_state_inv [keeps]:
  assumes "sched_inv s" "state (f (tcb s t)) = state (tcb s t)"
  shows "sched_inv (upd_thread t f s)"
proof -
  from assms obtain q w where "sched_ok s q w" by (auto simp: sched_inv_def)
  with assms(2) have "sched_ok (upd_thread t f s) q w"
    by (auto simp: sched_ok_def rq_rep_def wl_rep_def)
  then show ?thesis by (auto simp: sched_inv_def)
qed

lemma timer_handler_inv [keeps]:
  assumes "sched_inv s"
  shows "\<exists>d s'. timer_handler now wk pr s = Some (d, s') \<and> sched_inv s'"
proof -
  from assms obtain q w where ok: "sched_ok s q ([] @ w)" by (auto simp: sched_inv_def)
  have hd: "head (wl s) = hdo w" using sched_ok_head ok by simp
  obtain u q' w' where u: "(if wk then wake_loop now (head (wl s)) s else Some s) = Some u" "sched_ok u q' w'"
    using wake_loop_ok [OF ok, of now] ok unfolding hd by (cases wk) auto
  let ?v = "upd_thread (nat (current_thread_id u)) (\<lambda>t. t\<lparr>cpu_ticks := cpu_ticks t + 1, quantum := quantum t - 1\<rparr>) u"
  have v: "sched_inv ?v" "sched_inv u" "sched_inv (u\<lparr>idle_tick_count := idle_tick_count u + 1\<rparr>)"
  proof -
    show "sched_inv u" using u(2) by (auto simp: sched_inv_def)
    then show "sched_inv ?v" by (rule upd_state_inv) simp
    show "sched_inv (u\<lparr>idle_tick_count := idle_tick_count u + 1\<rparr>)"
      using u(2) by (auto simp: sched_inv_def sched_ok_def rq_rep_def wl_rep_def)
  qed
  define r where "r = (if valid_tid u (current_thread_id u)
       \<and> state (tcb u (nat (current_thread_id u))) = THREAD_RUNNING
      then if quantum (tcb ?v (nat (current_thread_id u))) \<le> 0 \<and> pr then scheduler ?v else (None, ?v)
      else (None, u\<lparr>idle_tick_count := idle_tick_count u + 1\<rparr>))"
  have "timer_handler now wk pr s = Some r"
    unfolding timer_handler_def u(1) r_def by (simp add: Let_def)
  moreover have "sched_inv (snd r)"
    unfolding r_def using v scheduler_inv [OF v(1)] by (simp only: if_distrib [of snd] snd_conv split: if_split) simp
  ultimately show ?thesis by (cases r) simp
qed

section \<open>Every history\<close>

text \<open>
  The operations as steps. The wait loop of the system call \<open>INT80_WAIT_TICKS\<close>, which blocks the caller by
  writing its state and the current thread without the functions above, is not among them.
\<close>

inductive sched_step :: "sched \<Rightarrow> sched \<Rightarrow> bool" where
  create: "sched_step s (snd (thread_create have_tcb stk s))"
| kill: "sched_step s (snd (thread_kill tid s))"
| exit: "sched_step s (thread_exit_mark s)"
| schedule: "sched_step s (snd (scheduler s))"
| block: "sched_step s (block_current wake s)"
| timer: "timer_handler now wk pr s = Some (d, s') \<Longrightarrow> sched_step s s'"
| rename: "sched_step s (snd (thread_set_name tid nm s))"
| set_uid: "sched_step s (snd (thread_set_current_uid u s))"
| set_gid: "sched_step s (snd (thread_set_current_gid g s))"
| set_euid: "sched_step s (snd (thread_set_current_euid u s))"
| set_egid: "sched_step s (snd (thread_set_current_egid g s))"
| set_groups: "sched_step s (snd (thread_set_current_groups gs n s))"
| set_cr3: "sched_step s (thread_set_current_cr3 v s)"

lemma set_current_inv [keeps]:
  "sched_inv s \<Longrightarrow> (\<And>t. state (f t) = state t) \<Longrightarrow> sched_inv (snd (set_current f s))"
  by (simp add: set_current_def upd_state_inv)

lemmas setter_defs = thread_set_current_uid_def thread_set_current_gid_def thread_set_current_euid_def
  thread_set_current_egid_def thread_set_current_groups_def thread_set_current_cr3_def

lemma sched_step_inv: "sched_step s s' \<Longrightarrow> sched_inv s \<Longrightarrow> sched_inv s'"
proof (induction rule: sched_step.induct)
  case (timer now wk pr s d s')
  with timer_handler_inv [of s now wk pr] show ?case by auto
next
  case (rename s tid nm)
  then show ?case by (simp add: thread_set_name_def upd_state_inv)
qed (auto simp: setter_defs Let_def intro!: set_current_inv keeps)

lemma sched_reach_inv: "sched_step\<^sup>*\<^sup>* s s' \<Longrightarrow> sched_inv s \<Longrightarrow> sched_inv s'"
  by (induction rule: rtranclp_induct) (auto intro: sched_step_inv)

definition sched_boot :: sched where
  "sched_boot = thread_init \<lparr>tcb = (\<lambda>_. fresh_thread 0), alive = (\<lambda>_. False), current_thread_id = -1,
     next_thread_id = 0, blocked_count = 0, rq = dl_empty, rq_count = 0, wl = dl_empty, kernel_cr3 = 0,
     cpu_cr3 = 0, kernel_stack = 0, idle_tick_count = 0, calls = []\<rparr>"

lemma sched_boot_ok: "sched_ok sched_boot [] []"
  by (simp add: sched_boot_def thread_init_def sched_ok_def rq_rep_def wl_rep_def dl_rep_empty)


end
