(* ===== verification/Sched_Props.thy ===== *)
theory Sched_Props
  imports Sched
begin

text \<open>
  What the scheduler of \<open>Sched\<close> guarantees: no thread is lost, scheduling is round robin; and
  two histories in which a thread keeps the processor although the scheduler thinks that
  nothing runs.
\<close>

text \<open>With nothing ready and the current thread not running, the scheduler only reaps.\<close>

lemma scheduler_idle:
  assumes ok: "sched_ok s [] w"
    and nr: "valid_tid s (current_thread_id s) \<Longrightarrow> state (tcb s (nat (current_thread_id s))) \<noteq> THREAD_RUNNING"
  shows "scheduler s = (None, (thread_reap_terminated s)\<lparr>current_thread_id := -1\<rparr>)"
    and "sched_ok ((thread_reap_terminated s)\<lparr>current_thread_id := -1\<rparr>) [] w"
proof -
  let ?r = "thread_reap_terminated s"
  have v: "valid_tid ?r (current_thread_id s) \<Longrightarrow> valid_tid s (current_thread_id s)"
  proof -
    have "alive ?r t \<Longrightarrow> alive s t" for t
      using reap_reapable(1) [of s t] ok by (cases "reapable s t") (auto simp: reapable_def)
    then show "valid_tid ?r (current_thread_id s) \<Longrightarrow> valid_tid s (current_thread_id s)"
      by (simp add: valid_tid_def)
  qed
  then have p: "snd (preempt_old ?r) = ?r" using nr by (auto simp: preempt_old_def Let_def)
  have "rq_rep ?r []" using reap_ok [OF ok] by (simp add: sched_ok_def)
  from rq_dequeue_rep(1) [OF this] p
  have "schedule_core s = (None, None, ?r\<lparr>current_thread_id := -1\<rparr>)"
    by (cases "preempt_old ?r") (simp add: schedule_core_def Let_def)
  then show "scheduler s = (None, ?r\<lparr>current_thread_id := -1\<rparr>)" by (simp add: scheduler_def)
  have "state (tcb ?r t) \<noteq> THREAD_RUNNING" if "alive ?r t" for t
  proof
    assume r: "state (tcb ?r t) = THREAD_RUNNING"
    have okr: "sched_ok ?r [] w" by (rule reap_ok [OF ok])
    with that r have c: "current_thread_id s = int t" by (simp add: sched_ok_def)
    with okr that have "valid_tid ?r (current_thread_id s)" using valid_current by simp
    with v nr c r show False by simp
  qed
  then show "sched_ok (?r\<lparr>current_thread_id := -1\<rparr>) [] w"
    using reap_ok [OF ok] by (auto simp: sched_ok_def rq_rep_def wl_rep_def)
qed

section \<open>Properties of the scheduler\<close>

text \<open>
  C11. No thread is lost and none is queued twice: after any history of thread creation, kills,
  exits, blocking, timer ticks, renames, credential changes and scheduling, the ready queue is a
  duplicate-free list that holds exactly the live threads that are ready, its count is right, at
  most one live thread is running, and the next timer interrupt returns, whether it finds the lock free or not.
\<close>

theorem scheduler_loses_no_thread:
  assumes "sched_step\<^sup>*\<^sup>* sched_boot s"
  shows "\<exists>q. dl_rep (rq s) q \<and> distinct q \<and> rq_get_count s = int (length q)
    \<and> (\<forall>t. t \<in> set q \<longleftrightarrow> alive s t \<and> state (tcb s t) = THREAD_READY)
    \<and> (\<forall>t u. alive s t \<and> alive s u \<and> state (tcb s t) = THREAD_RUNNING
         \<and> state (tcb s u) = THREAD_RUNNING \<longrightarrow> t = u)
    \<and> timer_handler now wfree pfree s \<noteq> None"
proof -
  have "sched_inv sched_boot" using sched_boot_ok by (auto simp: sched_inv_def)
  with assms have inv: "sched_inv s" by (rule sched_reach_inv)
  then obtain q w where ok: "sched_ok s q w" by (auto simp: sched_inv_def)
  have "t = u" if "alive s t" "alive s u" "state (tcb s t) = THREAD_RUNNING" "state (tcb s u) = THREAD_RUNNING" for t u
  proof -
    have "int t = int u" using ok that unfolding sched_ok_def by metis
    then show ?thesis by simp
  qed
  moreover have "timer_handler now wfree pfree s \<noteq> None" using timer_handler_inv [OF inv, of now wfree pfree] by auto
  ultimately show ?thesis
    using ok sched_ok_distinct [OF ok]
    by (intro exI [of _ q]) (auto simp: sched_ok_def rq_rep_def rq_get_count_def)
qed

text \<open>
  C12. Scheduling is round robin: with thread \<open>t\<close> running and \<open>n\<close> at the front of the ready
  queue, the scheduler switches from \<open>t\<close> to \<open>n\<close>, which is then the one running thread and has
  left the queue, and \<open>t\<close> waits at its back. With an empty queue \<open>t\<close> goes on running.
\<close>

theorem scheduler_round_robin:
  assumes "sched_ok s q w" "current_thread_id s = int t" "alive s t" "state (tcb s t) = THREAD_RUNNING"
  shows "case q of
      [] \<Rightarrow> fst (scheduler s) = None \<and> current_thread_id (snd (scheduler s)) = int t
        \<and> state (tcb (snd (scheduler s)) t) = THREAD_RUNNING \<and> sched_ok (snd (scheduler s)) [] w
    | n # q' \<Rightarrow> fst (scheduler s) = Some (Some t, n) \<and> current_thread_id (snd (scheduler s)) = int n
        \<and> state (tcb (snd (scheduler s)) n) = THREAD_RUNNING
        \<and> sched_ok (snd (scheduler s)) (q' @ [t]) w"
proof -
  obtain old nxt s' where r: "schedule_core s = (old, nxt, s')" by (cases "schedule_core s")
  have v: "valid_tid s (current_thread_id s)" using assms valid_current [OF assms(1)] by simp
  have v': "valid_tid (thread_reap_terminated s) (current_thread_id s)"
    using v assms by (simp add: valid_tid_def reapable_def)
  have tq: "t \<notin> set q" using assms(1,4) by (simp add: sched_ok_def)
  have sc: "scheduler s = (map_option (\<lambda>n. (old, n)) nxt, s')" by (simp add: scheduler_def r)
  show ?thesis
  proof (cases q)
    case Nil
    with schedule_core_result [OF assms(1) r] v assms sc show ?thesis by simp
  next
    case (Cons n q')
    with tq have "t \<noteq> n" by auto
    with schedule_core_result [OF assms(1) r] v v' assms sc Cons show ?thesis by simp
  qed
qed

text \<open>
  C13. A thread that exits while no other thread is ready has its stack freed while it still runs
  on it. Its first call of the scheduler finds nothing to switch to and clears the current
  thread; the second call, made from the same exit loop with no context switch in between, reaps
  the thread.
\<close>

theorem exit_frees_running_stack:
  assumes ok: "sched_ok s [] w" and t: "current_thread_id s = int t" "alive s t"
    "state (tcb s t) = THREAD_RUNNING" "stack (tcb s t) \<noteq> 0"
  shows "let (d1, s1) = scheduler (thread_exit_mark s); (d2, s2) = scheduler s1 in
    d1 = None \<and> d2 = None \<and> Kfree_stack (stack (tcb s t)) \<in> set (calls s2) \<and> \<not> alive s2 t"
proof -
  let ?e = "thread_exit_mark s"
  have v: "valid_tid s (int t)" using valid_current [OF ok] t by simp
  have e: "?e = upd_thread t (\<lambda>t. t\<lparr>state := THREAD_TERMINATED\<rparr>) (rq_remove s t)"
    using v t by (simp add: thread_exit_mark_def Let_def)
  have oke: "sched_ok ?e [] w"
    unfolding e using leave_ready_ok [OF ok, of "\<lambda>t. t\<lparr>state := THREAD_TERMINATED\<rparr>" t] by simp
  have st: "state (tcb ?e t) = THREAD_TERMINATED" "current_thread_id ?e = int t" by (simp_all add: e t)
  let ?s1 = "(thread_reap_terminated ?e)\<lparr>current_thread_id := -1\<rparr>"
  have i1: "scheduler ?e = (None, ?s1)" "sched_ok ?s1 [] w" using scheduler_idle [OF oke] st by simp_all
  let ?s2 = "(thread_reap_terminated ?s1)\<lparr>current_thread_id := -1\<rparr>"
  have i2: "scheduler ?s1 = (None, ?s2)" using scheduler_idle [OF i1(2)] by (simp add: valid_tid_def)
  have nr: "\<not> reapable ?e t" using st by (simp add: reapable_def)
  have t1: "tcb ?s1 t = tcb ?e t" using reap_not_reapable [OF nr] by simp
  have "alive (thread_reap_terminated ?e) t" using nr t by (simp add: e)
  then have rp: "reapable ?s1 t" using t1 st by (simp add: reapable_def)
  have mt: "t < MAX_THREADS" using v by (simp add: valid_tid_def)
  have "stack (tcb ?s1 t) = stack (tcb s t)" unfolding t1 by (simp add: e)
  with reap_reapable [OF rp mt] t(4)
  have "Kfree_stack (stack (tcb s t)) \<in> set (calls ?s2)" "\<not> alive ?s2 t" by simp_all
  then show ?thesis unfolding Let_def i1(1) prod.case i2 by simp
qed

text \<open>
  A thread that blocks while no other thread is ready, and is woken by a timer interrupt that finds the lock free, is
  switched to although it is the one that runs: the decision names no old thread, so its
  registers are saved nowhere and it resumes where it last left the processor, not where it is.
\<close>

theorem woken_thread_loses_its_context:
  assumes ok: "sched_ok s [] []" and t: "current_thread_id s = int t" "alive s t"
    "state (tcb s t) = THREAD_RUNNING"
  shows "\<exists>s1 s2 s3. network_thread_block now s = (None, s1)
    \<and> timer_handler (now + 1) True True s1 = Some (None, s2)
    \<and> scheduler s2 = (Some (None, t), s3)"
proof -
  let ?b = "block_current (now + 1) s"
  have v: "valid_tid s (current_thread_id s)" using valid_current [OF ok] t by simp
  have nb: "state (tcb s (nat (current_thread_id s))) \<noteq> THREAD_BLOCKED" using t by simp
  note bc = block_current_ok [OF ok v nb, of "now + 1"]
  have okb: "sched_ok ?b [] [t]" using bc(1) t by simp
  have tb: "tcb ?b t = (tcb s t)\<lparr>wake_tick := now + 1, state := THREAD_BLOCKED\<rparr>" "current_thread_id ?b = int t"
    using bc t by simp_all
  define s1 where "s1 = (thread_reap_terminated ?b)\<lparr>current_thread_id := -1\<rparr>"
  have i1: "scheduler ?b = (None, s1)" "sched_ok s1 [] [t]"
    using scheduler_idle [OF okb] tb by (simp_all add: s1_def)
  have nr: "\<not> reapable ?b t" using tb by (simp add: reapable_def)
  have tcb1: "tcb s1 t = tcb ?b t" using reap_not_reapable [OF nr] by (simp add: s1_def)
  have c1: "current_thread_id s1 = -1" by (simp add: s1_def)
  have "due (now + 1) s1 t" using tcb1 tb by (simp add: due_def)
  moreover have hd: "head (wl s1) = Some t" using sched_ok_head [OF i1(2)] by simp
  ultimately obtain s2' where w: "wake_loop (now + 1) (head (wl s1)) s1 = Some s2'" "sched_ok s2' [t] []"
    "current_thread_id s2' = -1" "alive s2' = alive s1"
    using wake_loop_ok [of s1 "[]" "[]" "[t]" "now + 1"] i1 c1 by auto
  let ?s2 = "s2'\<lparr>idle_tick_count := idle_tick_count s2' + 1\<rparr>"
  have th: "timer_handler (now + 1) True True s1 = Some (None, ?s2)"
    using w(1,3) by (simp add: timer_handler_def valid_tid_def)
  have ok2: "sched_ok ?s2 [t] []" using w(2) by (simp add: sched_ok_def rq_rep_def wl_rep_def)
  obtain o3 n3 s3 where r3: "schedule_core ?s2 = (o3, n3, s3)" by (cases "schedule_core ?s2")
  from schedule_core_result [OF ok2 r3] w(3) have "n3 = Some t" "o3 = None"
    by (simp_all add: valid_tid_def)
  then have "scheduler ?s2 = (Some (None, t), s3)" using r3 by (simp add: scheduler_def)
  moreover have "network_thread_block now s = (None, s1)"
    using i1 by (simp add: network_thread_block_def)
  ultimately show ?thesis using th by blast
qed


text \<open>Witness states: thread 0 runs, alone or with thread 1 ready.\<close>

definition sched_one :: sched where
  "sched_one = sched_boot\<lparr>tcb := (\<lambda>t. (fresh_thread 4096)\<lparr>state := if t = 0 then THREAD_RUNNING else THREAD_READY\<rparr>),
     alive := (\<lambda>t. t = 0), current_thread_id := 0, next_thread_id := 1\<rparr>"

definition sched_two :: sched where
  "sched_two = sched_one\<lparr>alive := (\<lambda>t. t < 2), next_thread_id := 2, rq := dl_add dl_empty 1, rq_count := 1\<rparr>"

lemma sched_one_ok: "sched_ok sched_one [] []" "current_thread_id sched_one = int 0" "alive sched_one 0"
    "state (tcb sched_one 0) = THREAD_RUNNING" "stack (tcb sched_one 0) = 4096"
  using sched_boot_ok
  by (simp_all add: sched_ok_def sched_one_def rq_rep_def wl_rep_def fresh_thread_def MAX_THREADS_def)

lemma sched_two_ok: "sched_ok sched_two [1] []" "current_thread_id sched_two = int 0" "alive sched_two 0"
    "state (tcb sched_two 0) = THREAD_RUNNING"
proof -
  have "dl_rep (dl_add dl_empty 1) [1]" using dl_add_rep [OF dl_rep_empty, of 1] by simp
  moreover have "dl_rep (wl sched_one) []" using sched_one_ok(1) by (simp add: sched_ok_def wl_rep_def)
  ultimately show "sched_ok sched_two [1] []"
    by (auto simp: sched_ok_def sched_two_def sched_one_def rq_rep_def wl_rep_def fresh_thread_def MAX_THREADS_def
        less_2_cases_iff)
qed (simp_all add: sched_two_def sched_one_def)

theorem scheduler_loses_no_thread_witness:
  "\<exists>q. dl_rep (rq (snd (thread_create True 4096 sched_boot))) q \<and> distinct q
    \<and> rq_get_count (snd (thread_create True 4096 sched_boot)) = int (length q)"
proof -
  have "sched_step\<^sup>*\<^sup>* sched_boot (snd (thread_create True 4096 sched_boot))"
    by (rule r_into_rtranclp) (rule sched_step.create)
  from scheduler_loses_no_thread [OF this, of 0] show ?thesis by blast
qed

theorem scheduler_round_robin_witness:
  "fst (scheduler sched_two) = Some (Some 0, 1) \<and> current_thread_id (snd (scheduler sched_two)) = 1
   \<and> sched_ok (snd (scheduler sched_two)) [0] []"
  using scheduler_round_robin [OF sched_two_ok] by simp

theorem exit_frees_running_stack_witness:
  "let (d1, s1) = scheduler (thread_exit_mark sched_one); (d2, s2) = scheduler s1 in
    d1 = None \<and> d2 = None \<and> Kfree_stack 4096 \<in> set (calls s2) \<and> \<not> alive s2 0"
  using exit_frees_running_stack [OF sched_one_ok(1-4)] sched_one_ok(5) by simp

theorem woken_thread_loses_its_context_witness:
  "\<exists>s1 s2 s3. network_thread_block 5 sched_one = (None, s1)
    \<and> timer_handler (5 + 1) True True s1 = Some (None, s2) \<and> scheduler s2 = (Some (None, 0), s3)"
  by (rule woken_thread_loses_its_context [OF sched_one_ok(1-4)])

end
