(* ===== verification/Sched_Liveness.thy ===== *)
theory Sched_Liveness
  imports Sched_Props
begin

text \<open>
  Progress under the timer: a ready thread is running after finitely many interrupts, whatever the
  times they report and whichever sleepers they wake. The bound is one time slice for every
  ready thread, and it counts the interrupts that find the scheduler's lock free: the others
  use up the time slice, but cannot switch.
\<close>

section \<open>No thread has more than a time slice\<close>

definition quantum_ok :: "sched \<Rightarrow> bool" where
  "quantum_ok s \<longleftrightarrow> (\<forall>t. quantum (tcb s t) \<le> TIME_SLICE_DEFAULT)"

lemma quantum_ok_upd [intro]:
  "quantum_ok s \<Longrightarrow> quantum (f (tcb s t)) \<le> TIME_SLICE_DEFAULT \<Longrightarrow> quantum_ok (upd_thread t f s)"
  by (simp add: quantum_ok_def)

lemma quantum_okD: "quantum_ok s \<Longrightarrow> quantum (tcb s t) \<le> TIME_SLICE_DEFAULT"
  by (simp add: quantum_ok_def)

lemma quantum_ok_cong: "tcb s' = tcb s \<Longrightarrow> quantum_ok s' = quantum_ok s"
  by (simp add: quantum_ok_def)

lemma reap_one_quantum: "quantum (tcb (reap_one s i) t) = quantum (tcb s t)"
  by (simp add: reap_one_def Let_def)

lemma reap_quantum [simp]: "quantum (tcb (thread_reap_terminated s) t) = quantum (tcb s t)"
proof -
  have "quantum (tcb (fold (\<lambda>i s. reap_one s i) xs s) t) = quantum (tcb s t)" for xs
    by (induction xs arbitrary: s) (simp_all add: reap_one_quantum)
  then show ?thesis by (simp add: thread_reap_terminated_def)
qed

lemma preempt_old_quantum: "quantum (tcb (snd (preempt_old s)) t) = quantum (tcb s t)"
  by (simp add: preempt_old_def Let_def)

lemma rq_dequeue_tcb: "tcb (snd (rq_dequeue s)) = tcb s"
  by (simp add: rq_dequeue_def split: prod.splits option.splits)

lemma activate_quantum: "quantum_ok s \<Longrightarrow> quantum_ok (activate s n)"
  by (auto simp: activate_def Let_def quantum_ok_def TIME_SLICE_DEFAULT_def)

lemma scheduler_quantum: "quantum_ok s \<Longrightarrow> quantum_ok (snd (scheduler s))"
proof -
  assume q: "quantum_ok s"
  obtain o2 p where p: "preempt_old (thread_reap_terminated s) = (o2, p)" by fastforce
  obtain n d where d: "rq_dequeue p = (n, d)" by fastforce
  have "quantum (tcb p t) = quantum (tcb s t)" for t
    using preempt_old_quantum [of "thread_reap_terminated s" t] p by simp
  then have d': "quantum_ok d" using q rq_dequeue_tcb [of p] d by (simp add: quantum_ok_def)
  then show ?thesis
    using p d activate_quantum [OF d']
    by (auto simp: scheduler_def schedule_core_def Let_def quantum_ok_def split: option.splits)
qed

lemma wake_one_quantum:
  "quantum (tcb (wake_one now s y) t) = quantum (tcb s t)"
  "state (tcb s t) = THREAD_RUNNING \<Longrightarrow> state (tcb (wake_one now s y) t) = THREAD_RUNNING"
  by (auto simp: wake_one_def Let_def)

lemma wake_loop_quantum:
  assumes "wake_loop now y s = Some s'"
  shows "quantum (tcb s' t) = quantum (tcb s t) \<and>
    (state (tcb s t) = THREAD_RUNNING \<longrightarrow> state (tcb s' t) = THREAD_RUNNING)"
proof (rule wake_loop.raw_induct [OF _ assms, of "\<lambda>now y s s'. quantum (tcb s' t) = quantum (tcb s t) \<and>
    (state (tcb s t) = THREAD_RUNNING \<longrightarrow> state (tcb s' t) = THREAD_RUNNING)"])
  fix f now y s s'
  assume IH: "\<And>now y s s'. f now y s = Some s' \<Longrightarrow> quantum (tcb s' t) = quantum (tcb s t) \<and>
      (state (tcb s t) = THREAD_RUNNING \<longrightarrow> state (tcb s' t) = THREAD_RUNNING)"
    and e: "(case y of None \<Rightarrow> Some s | Some t \<Rightarrow> let next = nx (wl s) t in f now next (wake_one now s t)) = Some s'"
  show "quantum (tcb s' t) = quantum (tcb s t) \<and>
      (state (tcb s t) = THREAD_RUNNING \<longrightarrow> state (tcb s' t) = THREAD_RUNNING)"
  proof (cases y)
    case (Some x)
    with e have "f now (nx (wl s) x) (wake_one now s x) = Some s'" by (simp add: Let_def)
    from IH [OF this] show ?thesis by (simp add: wake_one_quantum)
  qed (use e in simp)
qed

lemma timer_quantum: "timer_handler now wk pr s = Some (d, s') \<Longrightarrow> quantum_ok s \<Longrightarrow> quantum_ok s'"
proof -
  assume t: "timer_handler now wk pr s = Some (d, s')" and q: "quantum_ok s"
  from t obtain u where u: "(if wk then wake_loop now (head (wl s)) s else Some s) = Some u"
    by (auto simp: timer_handler_def bind_eq_Some_conv)
  let ?v = "upd_thread (nat (current_thread_id u)) (\<lambda>t. t\<lparr>cpu_ticks := cpu_ticks t + 1, quantum := quantum t - 1\<rparr>) u"
  have qu: "quantum_ok u" using q wake_loop_quantum u by (cases wk) (auto simp: quantum_ok_def)
  then have qv: "quantum_ok ?v" using quantum_okD [OF qu, of "nat (current_thread_id u)"] by (intro quantum_ok_upd) simp_all
  have "s' = u\<lparr>idle_tick_count := idle_tick_count u + 1\<rparr> \<or> s' = ?v \<or> s' = snd (scheduler ?v)"
    using t unfolding timer_handler_def u by (auto simp: Let_def split: if_splits)
  then show ?thesis using qu qv scheduler_quantum [OF qv] quantum_ok_cong [of s' u] by auto
qed

lemma step_quantum: "sched_step s s' \<Longrightarrow> quantum_ok s \<Longrightarrow> quantum_ok s'"
proof (induction rule: sched_step.induct)
  case (create s b stk)
  then show ?case
    by (auto simp: thread_create_def thread_init_common_def Let_def quantum_ok_def fresh_thread_def)
next
  case (kill s tid)
  then show ?case by (simp add: thread_kill_def Let_def quantum_ok_def)
next
  case (exit s)
  then show ?case by (simp add: thread_exit_mark_def Let_def quantum_ok_def)
next
  case (block s wake)
  then show ?case by (simp add: block_current_def Let_def quantum_ok_def)
next
  case (rename s tid nm)
  then show ?case by (simp add: thread_set_name_def quantum_ok_def)
qed (auto simp: setter_defs set_current_def Let_def quantum_ok_def [symmetric] scheduler_quantum timer_quantum
       intro!: quantum_ok_upd dest: quantum_okD)

lemma reach_quantum: "sched_step\<^sup>*\<^sup>* sched_boot s \<Longrightarrow> quantum_ok s"
proof (induction rule: rtranclp_induct)
  case base
  then show ?case by (simp add: quantum_ok_def sched_boot_def thread_init_def fresh_thread_def)
qed (rule step_quantum)

section \<open>One interrupt\<close>

text \<open>Thread \<open>t\<close> runs, and \<open>q\<close> is the ready queue.\<close>

definition runs :: "sched \<Rightarrow> nat \<Rightarrow> nat list \<Rightarrow> bool" where
  "runs s t q \<longleftrightarrow> (\<exists>w. sched_ok s q w) \<and> current_thread_id s = int t \<and> alive s t
     \<and> state (tcb s t) = THREAD_RUNNING \<and> quantum_ok s"

lemma scheduler_switches:
  assumes "runs s t (n # q)"
  shows "runs (snd (scheduler s)) n (q @ [t])"
proof -
  from assms obtain w where ok: "sched_ok s (n # q) w" and c: "current_thread_id s = int t" "alive s t"
    "state (tcb s t) = THREAD_RUNNING" "quantum_ok s" by (auto simp: runs_def)
  obtain old nxt s' where r: "schedule_core s = (old, nxt, s')" by (cases "schedule_core s")
  have v: "valid_tid s (current_thread_id s)" using c valid_current [OF ok] by simp
  have s': "snd (scheduler s) = s'" by (simp add: scheduler_def r)
  have "sched_ok s' (q @ [t]) w \<and> current_thread_id s' = int n \<and> alive s' n \<and> state (tcb s' n) = THREAD_RUNNING"
    using schedule_core_result [OF ok r] v c by simp
  then show ?thesis using scheduler_quantum [OF c(4)] by (auto simp: runs_def s')
qed

text \<open>
  An interrupt takes a tick from the running thread, or switches to the front of the queue
  when none is left and the lock is free; the threads it wakes go to the back.
\<close>

lemma tick:
  assumes r: "runs s t (n # q)"
  obtains d s' e where "timer_handler now wk pr s = Some (d, s')"
    "if quantum (tcb s t) \<le> 1 \<and> pr then runs s' n (q @ e)
     else runs s' t (n # q @ e) \<and> quantum (tcb s' t) = quantum (tcb s t) - 1"
proof -
  from r obtain w where ok: "sched_ok s (n # q) ([] @ w)" and c: "current_thread_id s = int t" "alive s t"
    "state (tcb s t) = THREAD_RUNNING" "quantum_ok s" by (auto simp: runs_def)
  have hd: "head (wl s) = hdo w" using sched_ok_head ok by simp
  obtain u e where u: "(if wk then wake_loop now (head (wl s)) s else Some s) = Some u"
    and ru: "runs u t (n # q @ e)" and qu: "quantum (tcb u t) = quantum (tcb s t)"
  proof (cases wk)
    case False
    with r show thesis by (intro that [of s "[]"]) simp_all
  next
    case True
    from wake_loop_ok [OF ok, of now] obtain u where u: "wake_loop now (head (wl s)) s = Some u"
      "sched_ok u ((n # q) @ filter (due now s) w) ([] @ filter (\<lambda>y. \<not> due now s y) w)"
      "current_thread_id u = int t" "alive u = alive s"
      unfolding hd c(1) by blast
    have "runs u t (n # q @ filter (due now s) w)"
      using u c wake_loop_quantum [OF u(1)] by (auto simp: runs_def quantum_ok_def)
    with u(1) wake_loop_quantum [OF u(1)] True show thesis by (intro that [of u]) simp_all
  qed
  let ?v = "upd_thread t (\<lambda>t. t\<lparr>cpu_ticks := cpu_ticks t + 1, quantum := quantum t - 1\<rparr>) u"
  have qv: "quantum (tcb ?v t) = quantum (tcb s t) - 1" using qu by simp
  have rv: "runs ?v t (n # q @ e)"
  proof -
    have "quantum_ok ?v" using ru quantum_okD [of u t] by (intro quantum_ok_upd) (auto simp: runs_def)
    moreover obtain w' where "sched_ok u (n # q @ e) w'" using ru by (auto simp: runs_def)
    then have "sched_ok ?v (n # q @ e) w'" by (auto simp: sched_ok_def rq_rep_def wl_rep_def)
    ultimately show ?thesis using ru by (auto simp: runs_def)
  qed
  have vt: "valid_tid u (int t)" using ru valid_current by (auto simp: runs_def)
  have h: "timer_handler now wk pr s = Some (if quantum (tcb ?v t) \<le> 0 \<and> pr then scheduler ?v else (None, ?v))"
    unfolding timer_handler_def u using ru vt by (simp add: runs_def Let_def)
  show thesis
  proof (cases "quantum (tcb s t) \<le> 1 \<and> pr")
    case True
    have "runs (snd (scheduler ?v)) n (q @ (e @ [t]))" using scheduler_switches [OF rv] by simp
    moreover have "timer_handler now wk pr s = Some (fst (scheduler ?v), snd (scheduler ?v))"
      using h True unfolding qv by simp
    ultimately show thesis using that True by metis
  next
    case False
    then have "timer_handler now wk pr s = Some (None, ?v)" using h unfolding qv by auto
    then show thesis using that [of None ?v e] rv qv False by simp
  qed
qed

section \<open>Runs of interrupts\<close>

text \<open>
  Each interrupt with the tick it reports and the outcome of its two attempts at the lock, and the
  number of interrupts at which a switch is possible.
\<close>

fun ticks :: "(nat \<times> bool \<times> bool) list \<Rightarrow> sched \<Rightarrow> sched option" where
  "ticks [] s = Some s"
| "ticks ((now, wk, pr) # nows) s = Option.bind (timer_handler now wk pr s) (\<lambda>(_, s'). ticks nows s')"

fun free_ticks :: "(nat \<times> bool \<times> bool) list \<Rightarrow> nat" where
  "free_ticks [] = 0"
| "free_ticks ((now, wk, pr) # nows) = (if pr then 1 else 0) + free_ticks nows"

lemma ticks_append: "ticks (xs @ ys) s = Option.bind (ticks xs s) (ticks ys)"
  by (induction xs s rule: ticks.induct) (auto simp: Option.bind_assoc split: Option.bind_split)

lemma free_ticks_append: "free_ticks (xs @ ys) = free_ticks xs + free_ticks ys"
  by (induction xs rule: free_ticks.induct) simp_all

text \<open>Within a time slice of such interrupts the front of the queue runs.\<close>

lemma slice:
  assumes "runs s t (n # q)" "quantum (tcb s t) \<le> int k" "0 < k" "k \<le> free_ticks nows"
  shows "\<exists>m\<le>length nows. free_ticks (take m nows) \<le> k
    \<and> (\<exists>s' e. ticks (take m nows) s = Some s' \<and> runs s' n (q @ e))"
  using assms
proof (induction nows arbitrary: k s q)
  case (Cons x rest)
  obtain now wk pr where x: "x = (now, wk, pr)" by (cases x)
  obtain d s' e where t: "timer_handler now wk pr s = Some (d, s')"
    and c: "if quantum (tcb s t) \<le> 1 \<and> pr then runs s' n (q @ e)
       else runs s' t (n # q @ e) \<and> quantum (tcb s' t) = quantum (tcb s t) - 1"
    by (rule tick [OF Cons.prems(1)])
  show ?case
  proof (cases "quantum (tcb s t) \<le> 1 \<and> pr")
    case True
    then have "ticks (take 1 (x # rest)) s = Some s' \<and> runs s' n (q @ e)" using t c by (simp add: x)
    moreover have "free_ticks (take 1 (x # rest)) \<le> k" using Cons.prems(3) by (simp add: x)
    ultimately show ?thesis by (intro exI [of _ "1 :: nat"]) auto
  next
    case False
    define k' where "k' = (if pr then k - 1 else k)"
    from c False have r: "runs s' t (n # (q @ e))" and q: "quantum (tcb s' t) = quantum (tcb s t) - 1" by auto
    have "quantum (tcb s' t) \<le> int k'" "0 < k'" "k' \<le> free_ticks rest"
      using q Cons.prems(2,3,4) False by (auto simp: k'_def x)
    from Cons.IH [OF r this] obtain m s2 e2 where m: "m \<le> length rest" "free_ticks (take m rest) \<le> k'"
      "ticks (take m rest) s' = Some s2" "runs s2 n (q @ (e @ e2))" by auto
    have "ticks (take (Suc m) (x # rest)) s = Some s2" using t m by (simp add: x)
    moreover have "free_ticks (take (Suc m) (x # rest)) \<le> k"
      using m(2) Cons.prems(3) by (auto simp: x k'_def)
    ultimately show ?thesis using m(1,4) by (intro exI [of _ "Suc m"]) auto
  qed
qed simp

lemma queue_runs:
  assumes "runs s t q" "k < length q" "(k + 1) * nat TIME_SLICE_DEFAULT \<le> free_ticks nows"
  shows "\<exists>m\<le>length nows. \<exists>s' q'. ticks (take m nows) s = Some s' \<and> runs s' (q ! k) q'"
  using assms
proof (induction k arbitrary: s t q nows)
  case 0
  then obtain n q' where q: "q = n # q'" by (cases q) auto
  have "quantum (tcb s t) \<le> int (nat TIME_SLICE_DEFAULT)" "0 < nat TIME_SLICE_DEFAULT"
    using 0 quantum_okD [of s t] by (auto simp: runs_def TIME_SLICE_DEFAULT_def)
  moreover have "nat TIME_SLICE_DEFAULT \<le> free_ticks nows" using 0(3) by simp
  ultimately obtain m s' e where "m \<le> length nows" "ticks (take m nows) s = Some s'" "runs s' n (q' @ e)"
    using slice [OF 0(1) [unfolded q]] by blast
  then show ?case unfolding q nth_Cons_0 by blast
next
  case (Suc k)
  then obtain n q' where q: "q = n # q'" by (cases q) auto
  let ?T = "nat TIME_SLICE_DEFAULT"
  have "quantum (tcb s t) \<le> int ?T" "0 < ?T" "?T \<le> free_ticks nows"
    using Suc.prems(1,3) quantum_okD [of s t] by (auto simp: runs_def TIME_SLICE_DEFAULT_def)
  from slice [OF Suc.prems(1) [unfolded q] this] obtain m s1 e where m: "m \<le> length nows"
    "free_ticks (take m nows) \<le> ?T" "ticks (take m nows) s = Some s1" "runs s1 n (q' @ e)" by blast
  have "free_ticks nows = free_ticks (take m nows) + free_ticks (drop m nows)"
    by (simp add: free_ticks_append [symmetric])
  then have "(k + 1) * ?T \<le> free_ticks (drop m nows)" using m(2) Suc.prems(3) by simp
  moreover have "k < length (q' @ e)" using Suc.prems(2) q by simp
  ultimately obtain m2 s2 q2 where m2: "m2 \<le> length (drop m nows)" "ticks (take m2 (drop m nows)) s1 = Some s2"
    "runs s2 ((q' @ e) ! k) q2"
    using Suc.IH [OF m(4)] by blast
  have "(q' @ e) ! k = q ! Suc k" using Suc.prems(2) q by (simp add: nth_append)
  moreover have "ticks (take (m + m2) nows) s = Some s2" using m(3) m2(2) by (simp add: take_add ticks_append)
  moreover have "m + m2 \<le> length nows" using m(1) m2(1) by simp
  ultimately show ?case using m2(3) by auto
qed

text \<open>
  C14. No ready thread starves. In every state that the operations of the scheduler reach with a
  thread running, a live thread \<open>n\<close> that is ready becomes the running thread during any run of
  timer interrupts of which eight for every ready thread find the lock free for the switch,
  however many others come in between, whatever tick counts the interrupts see and whichever
  sleeping threads they wake or fail to wake.
\<close>

theorem no_ready_thread_starves:
  assumes "sched_step\<^sup>*\<^sup>* sched_boot s"
    and "current_thread_id s = int t" "alive s t" "state (tcb s t) = THREAD_RUNNING"
    and "alive s n" "state (tcb s n) = THREAD_READY"
    and "rq_get_count s * TIME_SLICE_DEFAULT \<le> int (free_ticks nows)"
  shows "\<exists>m\<le>length nows. \<exists>s'. ticks (take m nows) s = Some s'
    \<and> current_thread_id s' = int n \<and> alive s' n \<and> state (tcb s' n) = THREAD_RUNNING"
proof -
  have "sched_inv sched_boot" using sched_boot_ok by (auto simp: sched_inv_def)
  with assms(1) have "sched_inv s" by (rule sched_reach_inv)
  then obtain q w where ok: "sched_ok s q w" by (auto simp: sched_inv_def)
  then have r: "runs s t q" using assms(2-4) reach_quantum [OF assms(1)] by (auto simp: runs_def)
  have "n \<in> set q" using ok assms(5,6) by (simp add: sched_ok_def)
  then obtain k where k: "k < length q" "q ! k = n" by (auto simp: in_set_conv_nth)
  have "int (length q) * TIME_SLICE_DEFAULT \<le> int (free_ticks nows)"
    using assms(7) ok by (simp add: rq_get_count_def sched_ok_def rq_rep_def)
  then have l: "length q * nat TIME_SLICE_DEFAULT \<le> free_ticks nows" by (simp add: TIME_SLICE_DEFAULT_def)
  have "(k + 1) * nat TIME_SLICE_DEFAULT \<le> length q * nat TIME_SLICE_DEFAULT"
    using k(1) by (intro mult_le_mono1) simp
  with l have "(k + 1) * nat TIME_SLICE_DEFAULT \<le> free_ticks nows" by (rule order.trans [rotated])
  from queue_runs [OF r k(1) this] obtain m s' q' where
    "m \<le> length nows" "ticks (take m nows) s = Some s'" "runs s' n q'" using k(2) by blast
  then show ?thesis by (auto simp: runs_def)
qed

text \<open>Two threads created, and the first scheduled.\<close>

definition sched_pair :: sched where
  "sched_pair = snd (thread_create True 4096 (snd (thread_create True 4096 sched_boot)))"

lemma sched_pair_ok: "sched_ok sched_pair [0, 1] []" "current_thread_id sched_pair = -1"
proof -
  have "dl_clear dl_empty 0 = dl_empty" by (auto simp: dl_clear_def dl_empty_def)
  then have e: "sched_pair = sched_boot\<lparr>tcb := (tcb sched_boot)(0 := fresh_thread 4096, 1 := fresh_thread 4096),
      alive := (\<lambda>t. t < 2), next_thread_id := 2, rq := dl_add (dl_clear (dl_add dl_empty 0) 1) 1, rq_count := 2,
      wl := dl_clear dl_empty 1\<rparr>"
    by (auto simp: sched_pair_def thread_create_def thread_init_common_def rq_enqueue_def Let_def sched_boot_def
        thread_init_def MAX_THREADS_def fresh_thread_def dl_clear_def dl_add_def dl_empty_def fun_eq_iff)
  have c: "dl_clear (dl_add dl_empty 0) 1 = dl_add dl_empty 0" "dl_clear dl_empty 1 = dl_empty"
    by (auto simp: dl_clear_def dl_add_def dl_empty_def fun_eq_iff)
  have "dl_rep (dl_add (dl_add dl_empty 0) 1) [0, 1]"
    using dl_add_rep [OF dl_add_rep [OF dl_rep_empty, of 0], of 1] by simp
  then show "sched_ok sched_pair [0, 1] []"
    using dl_rep_empty unfolding e c
    by (auto simp: sched_ok_def rq_rep_def wl_rep_def sched_boot_def thread_init_def fresh_thread_def
        MAX_THREADS_def less_2_cases_iff)
  show "current_thread_id sched_pair = -1" by (simp add: e sched_boot_def thread_init_def)
qed

theorem no_ready_thread_starves_witness:
  "\<exists>m s'. m \<le> 10 \<and> ticks (take m ((98, True, False) # (99, False, False) # replicate 8 (100, True, True))) (snd (scheduler sched_pair)) = Some s'
    \<and> current_thread_id s' = 1 \<and> state (tcb s' 1) = THREAD_RUNNING"
proof -
  let ?s = "snd (scheduler sched_pair)"
  have "sched_step\<^sup>*\<^sup>* sched_boot sched_pair"
    unfolding sched_pair_def
    by (rule rtranclp.rtrancl_into_rtrancl, rule r_into_rtranclp, rule sched_step.create, rule sched_step.create)
  then have reach: "sched_step\<^sup>*\<^sup>* sched_boot ?s"
    by (rule rtranclp.rtrancl_into_rtrancl) (rule sched_step.schedule)
  obtain old nxt s' where r: "schedule_core sched_pair = (old, nxt, s')" by (cases "schedule_core sched_pair")
  have s: "?s = s'" by (simp add: scheduler_def r)
  have ok: "sched_ok ?s [1] []" "current_thread_id ?s = int 0" "alive ?s 0" "state (tcb ?s 0) = THREAD_RUNNING"
    using schedule_core_result [OF sched_pair_ok(1) r] sched_pair_ok(2) by (simp_all add: s valid_tid_def)
  have n: "alive ?s 1" "state (tcb ?s 1) = THREAD_READY" using ok(1) unfolding sched_ok_def by (auto dest: spec [of _ 1])
  define xs :: "(nat \<times> bool \<times> bool) list" where "xs = (98, True, False) # (99, False, False) # replicate 8 (100, True, True)"
  have x: "free_ticks xs = 8" "length xs = 10" unfolding xs_def by (simp_all add: numeral_eq_Suc)
  then have f: "rq_get_count ?s * TIME_SLICE_DEFAULT \<le> int (free_ticks xs)"
    using ok(1) by (simp add: sched_ok_def rq_rep_def rq_get_count_def TIME_SLICE_DEFAULT_def)
  from no_ready_thread_starves [OF reach ok(2-4) n f] obtain m s' where m:
    "m \<le> length xs" "ticks (take m xs) ?s = Some s'"
    "current_thread_id s' = int 1" "state (tcb s' 1) = THREAD_RUNNING" by blast
  have "current_thread_id s' = 1" using m(3) by simp
  with m(1,2,4) x(2) show ?thesis unfolding xs_def [symmetric] by metis
qed

end
