(* ===== verification/Vfs_Types.thy ===== *)
theory Vfs_Types
  imports Prelude
begin

text \<open>
  What \<open>kernel/src/fs/vfs.h\<close> declares: the limits, a directory entry, and the table of
  functions a file system offers the virtual file system.

  A context pointer \<open>ctx\<close> is a value of a type \<open>'c\<close>; the memory the file systems
  change is a state of type \<open>'s\<close>, taken and returned by every operation. A function pointer
  that may be \<open>NULL\<close> is an option. The operations also take the credentials of the
  running thread, which the code reads with \<open>thread_get_current_uid()\<close> and
  \<open>thread_get_current_gid()\<close>. An output pointer is a component of the result, an option
  where the function does not always write it; an output buffer is passed in and returned,
  \<open>None\<close> for a null pointer. The result of \<open>list_dir\<close> is \<open>None\<close> when it
  reads outside its own memory, which the union file system can.
\<close>

definition VFS_MAX_MOUNTS :: nat where "VFS_MAX_MOUNTS = 16"
definition VFS_MAX_PATH :: nat where "VFS_MAX_PATH = 256"
definition VFS_MAX_NAME :: nat where "VFS_MAX_NAME = 64"

lemmas vfs_limits = VFS_MAX_MOUNTS_def VFS_MAX_PATH_def VFS_MAX_NAME_def

record cred =
  cr_uid :: u32
  cr_gid :: u32

record dirent =
  d_name :: string
  d_is_dir :: bool
  d_size :: nat

text \<open>What \<open>getattr\<close> reports: mode, owner, group.\<close>

type_synonym attr = "u16 \<times> u32 \<times> u32"

record ('c, 's) backend_ops =
  b_mkdir :: "('c \<Rightarrow> cred \<Rightarrow> 's \<Rightarrow> string \<Rightarrow> u16 \<Rightarrow> int \<times> 's) option"
  b_create_file :: "('c \<Rightarrow> cred \<Rightarrow> 's \<Rightarrow> string \<Rightarrow> u16 \<Rightarrow> u8 list \<Rightarrow> int \<times> 's) option"
  b_write_file :: "('c \<Rightarrow> cred \<Rightarrow> 's \<Rightarrow> string \<Rightarrow> u8 list \<Rightarrow> int \<times> 's) option"
  b_read_file :: "('c \<Rightarrow> 's \<Rightarrow> string \<Rightarrow> u8 list option \<Rightarrow> nat \<Rightarrow> int \<times> nat option \<times> u8 list option) option"
  b_list_dir :: "('c \<Rightarrow> 's \<Rightarrow> string \<Rightarrow> dirent list option \<Rightarrow> nat \<Rightarrow>
    (int \<times> nat option \<times> dirent list option) option) option"
  b_exists :: "('c \<Rightarrow> 's \<Rightarrow> string \<Rightarrow> int) option"
  b_remove :: "('c \<Rightarrow> 's \<Rightarrow> string \<Rightarrow> int \<times> 's) option"
  b_rename :: "('c \<Rightarrow> 's \<Rightarrow> string \<Rightarrow> string \<Rightarrow> int \<times> 's) option"
  b_getattr :: "('c \<Rightarrow> 's \<Rightarrow> string \<Rightarrow> attr option) option"
  b_chmod :: "('c \<Rightarrow> 's \<Rightarrow> string \<Rightarrow> u16 \<Rightarrow> int \<times> 's) option"
  b_chown :: "('c \<Rightarrow> 's \<Rightarrow> string \<Rightarrow> u32 \<Rightarrow> u32 \<Rightarrow> int \<times> 's) option"

text \<open>
  The copy loop of \<open>ramfs_copy_name\<close> and \<open>vfs_copy_string\<close>: at most \<open>cap - 1\<close>
  characters, then the terminator.
\<close>

fun copy_loop :: "nat \<Rightarrow> nat \<Rightarrow> string \<Rightarrow> string" where
  "copy_loop cap i [] = []"
| "copy_loop cap i (c # cs) = (if i + 1 < cap then c # copy_loop cap (i + 1) cs else [])"

lemma copy_loop_take: "copy_loop cap i s = take (cap - 1 - i) s"
proof (induction cap i s rule: copy_loop.induct)
  case (2 cap i c cs)
  show ?case
  proof (cases "i + 1 < cap")
    case True
    then have "cap - 1 - i = Suc (cap - 1 - (i + 1))" by simp
    with True 2 show ?thesis by simp
  qed simp
qed simp

lemma copy_loop_id [simp]: "length s < cap \<Longrightarrow> copy_loop cap 0 s = s"
  by (simp add: copy_loop_take)

lemma length_copy_loop: "0 < cap \<Longrightarrow> length (copy_loop cap 0 s) < cap"
  by (simp add: copy_loop_take)

end
