(* ===== verification/Name_Tree.thy ===== *)
theory Name_Tree
  imports Prelude "HOL-Library.Sublist"
begin

text \<open>
  Directory trees, apart from how a file system stores them: a function
  \<open>f\<close> gives the child of a node under a name, \<open>walk f r q\<close> follows the names \<open>q\<close>
  from \<open>r\<close>. When no node has two parents and nothing leads back to the root
  (\<open>tree_like\<close>), a path is determined by the node it ends in, and the effect of adding,
  removing and moving one link on every path is what the three theorems at the end say.
  Cycles away from the root are allowed: a file system can make them.
\<close>

type_synonym 'n children_fun = "'n \<Rightarrow> string \<Rightarrow> 'n option"

fun walk :: "('n \<Rightarrow> string \<Rightarrow> 'n option) \<Rightarrow> 'n \<Rightarrow> string list \<Rightarrow> 'n option" where
  "walk f i [] = Some i"
| "walk f i (t # ts) = (case f i t of None \<Rightarrow> None | Some c \<Rightarrow> walk f c ts)"

lemma walk_append: "walk f i (p @ q) = (case walk f i p of None \<Rightarrow> None | Some j \<Rightarrow> walk f j q)"
  by (induction p arbitrary: i) (auto split: option.splits)

lemma walk_snoc [simp]: "walk f i (p @ [t]) = (case walk f i p of None \<Rightarrow> None | Some j \<Rightarrow> f j t)"
  by (auto simp: walk_append split: option.splits)

definition tree_like :: "'n children_fun \<Rightarrow> 'n \<Rightarrow> bool" where
  "tree_like f r \<longleftrightarrow>
     (\<forall>i j n m c. f i n = Some c \<longrightarrow> f j m = Some c \<longrightarrow> i = j \<and> n = m) \<and> (\<forall>i n. f i n \<noteq> Some r)"

lemma tree_like_inj: "tree_like f r \<Longrightarrow> f i n = Some c \<Longrightarrow> f j m = Some c \<Longrightarrow> i = j \<and> n = m"
  unfolding tree_like_def by blast

lemma tree_like_root: "tree_like f r \<Longrightarrow> f i n \<noteq> Some r"
  unfolding tree_like_def by blast

lemma walk_inj: "tree_like f r \<Longrightarrow> walk f r p = Some c \<Longrightarrow> walk f r q = Some c \<Longrightarrow> p = q"
proof (induction p arbitrary: c q rule: rev_induct)
  case Nil
  then show ?case
    by (cases q rule: rev_cases) (auto split: option.splits dest: tree_like_root)
next
  case (snoc t p)
  from snoc.prems obtain i where i: "walk f r p = Some i" "f i t = Some c"
    by (auto split: option.splits)
  show ?case
  proof (cases q rule: rev_cases)
    case Nil
    with snoc.prems i show ?thesis by (auto dest: tree_like_root)
  next
    case (snoc q' u)
    with \<open>walk f r q = Some c\<close> obtain j where j: "walk f r q' = Some j" "f j u = Some c"
      by (auto split: option.splits)
    from tree_like_inj [OF \<open>tree_like f r\<close> i(2) j(2)] have "i = j" "t = u" by auto
    with snoc.IH [OF \<open>tree_like f r\<close> i(1)] j snoc show ?thesis by auto
  qed
qed

definition link :: "'n children_fun \<Rightarrow> 'n \<Rightarrow> string \<Rightarrow> 'n option \<Rightarrow> 'n children_fun" where
  "link f i n c = (\<lambda>j m. if j = i \<and> m = n then c else f j m)"

lemma link_same [simp]: "link f i n c i n = c"
  and link_other [simp]: "j \<noteq> i \<or> m \<noteq> n \<Longrightarrow> link f i n c j m = f j m"
  by (auto simp: link_def)

text \<open>A fresh node \<open>c\<close>, without parent and without children, becomes a child.\<close>

lemma walk_add:
  assumes t: "tree_like f r" and p: "walk f r p = Some i" and n: "f i n = None"
    and leaf: "\<And>m. f c m = None" and fresh: "\<And>j m. f j m \<noteq> Some c" and r: "c \<noteq> r"
  shows "walk (link f i n (Some c)) r q = (if q = p @ [n] then Some c else walk f r q)"
proof (induction q rule: rev_induct)
  case (snoc m q)
  have ic: "i \<noteq> c"
    using p fresh r by (cases p rule: rev_cases) (auto split: option.splits)
  show ?case
  proof (cases "q = p @ [n]")
    case True
    have "walk (link f i n (Some c)) r q = Some c" "walk f r q = None"
      using snoc True p n by simp_all
    with ic True leaf show ?thesis by (simp only: walk_snoc link_other) simp
  next
    case False
    show ?thesis
    proof (cases "walk f r q")
      case None
      with False snoc p show ?thesis by auto
    next
      case (Some j)
      with False snoc have w: "walk (link f i n (Some c)) r q = Some j" by simp
      show ?thesis
      proof (cases "j = i \<and> m = n")
        case True
        with walk_inj [OF t] Some p have "q = p" by blast
        with True w show ?thesis by simp
      next
        case neq: False
        with w Some have "walk (link f i n (Some c)) r (q @ [m]) = walk f r (q @ [m])" by simp
        moreover have "q @ [m] \<noteq> p @ [n]" using neq Some p by auto
        ultimately show ?thesis by metis
      qed
    qed
  qed
qed simp

lemma tree_like_add:
  "tree_like f r \<Longrightarrow> (\<And>j m. f j m \<noteq> Some c) \<Longrightarrow> c \<noteq> r \<Longrightarrow> tree_like (link f i n (Some c)) r"
  unfolding tree_like_def link_def by auto

text \<open>A leaf \<open>c\<close> loses its only link.\<close>

lemma walk_remove:
  assumes t: "tree_like f r" and p: "walk f r p = Some i" and n: "f i n = Some c"
    and leaf: "\<And>m. f c m = None"
  shows "walk (link f i n None) r q = (if q = p @ [n] then None else walk f r q)"
proof (induction q rule: rev_induct)
  case (snoc m q)
  show ?case
  proof (cases "q = p @ [n]")
    case True
    have "walk (link f i n None) r q = None" "walk f r q = Some c"
      using snoc True p n by simp_all
    with True leaf show ?thesis by (simp only: walk_snoc) simp
  next
    case False
    show ?thesis
    proof (cases "walk f r q")
      case None
      with False snoc p show ?thesis by auto
    next
      case (Some j)
      with False snoc have w: "walk (link f i n None) r q = Some j" by simp
      show ?thesis
      proof (cases "j = i \<and> m = n")
        case True
        with walk_inj [OF t] Some p have "q = p" by blast
        with True w show ?thesis by simp
      next
        case neq: False
        with w Some have "walk (link f i n None) r (q @ [m]) = walk f r (q @ [m])" by simp
        moreover have "q @ [m] \<noteq> p @ [n]" using neq Some p by auto
        ultimately show ?thesis by metis
      qed
    qed
  qed
qed simp

lemma tree_like_remove: "tree_like f r \<Longrightarrow> tree_like (link f i n None) r"
  unfolding tree_like_def link_def by auto

text \<open>
  The link to \<open>c\<close> moves from \<open>i\<close>, \<open>n\<close> to \<open>j\<close>, \<open>m\<close>: everything under
  the old path is now under the new one, provided the new path is not under the old.
\<close>

definition relink :: "'n children_fun \<Rightarrow> 'n \<Rightarrow> string \<Rightarrow> 'n \<Rightarrow> string \<Rightarrow> 'n \<Rightarrow> 'n children_fun" where
  "relink f i n j m c = link (link f i n None) j m (Some c)"

lemma walk_move_below:
  assumes t: "tree_like f r" and p: "walk f r (p @ [n]) = Some c" and i: "walk f r p = Some i"
    and j: "walk f r q = Some j" and m: "f j m = None"
    and out: "\<not> prefix (p @ [n]) q"
  shows "walk f c x = Some k \<Longrightarrow> walk (relink f i n j m c) c x = Some k"
    and "walk f c x = None \<Longrightarrow> walk (relink f i n j m c) c x = None"
proof -
  have "walk (relink f i n j m c) c x = walk f c x"
  proof (induction x rule: rev_induct)
    case (snoc u x)
    show ?case
    proof (cases "walk f c x")
      case (Some k)
      then have k: "walk f r (p @ [n] @ x) = Some k" 
        using p by (simp only: append_assoc [symmetric] walk_append [of f r "p @ [n]"] option.case)
      have "k \<noteq> j"
        using walk_inj [OF t k] j out by (metis append.assoc prefixI)
      moreover have "k \<noteq> i"
        using walk_inj [OF t k] i by fastforce
      ultimately show ?thesis using Some snoc by (simp add: relink_def)
    qed (use snoc in simp)
  qed simp
  then show "walk f c x = Some k \<Longrightarrow> walk (relink f i n j m c) c x = Some k"
    and "walk f c x = None \<Longrightarrow> walk (relink f i n j m c) c x = None" by simp_all
qed

lemma walk_move_aside:
  assumes t: "tree_like f r" and i: "walk f r p = Some i" and j: "walk f r q = Some j"
    and a: "\<not> prefix (q @ [m]) x" and b: "\<not> prefix (p @ [n]) x"
  shows "walk (relink f i n j m c) r x = walk f r x"
  using a b
proof (induction x rule: rev_induct)
  case (snoc u x)
  then have a: "\<not> prefix (q @ [m]) x" "q @ [m] \<noteq> x @ [u]"
    and b: "\<not> prefix (p @ [n]) x" "p @ [n] \<noteq> x @ [u]" by (auto simp: prefix_snoc)
  show ?case
  proof (cases "walk f r x")
    case (Some k)
    have "\<not> (k = j \<and> u = m)" using walk_inj [OF t Some] j a(2) by blast
    moreover have "\<not> (k = i \<and> u = n)" using walk_inj [OF t Some] i b(2) by blast
    ultimately show ?thesis using snoc.IH [OF a(1) b(1)] Some by (auto simp: relink_def)
  qed (use snoc.IH [OF a(1) b(1)] in simp)
qed simp

lemma walk_move:
  assumes t: "tree_like f r" and p: "walk f r (p @ [n]) = Some c" and i: "walk f r p = Some i"
    and j: "walk f r q = Some j" and m: "f j m = None"
    and out: "\<not> prefix (p @ [n]) q"
  shows "walk (relink f i n j m c) r x =
     (if prefix (q @ [m]) x then walk f r (p @ [n] @ drop (length (q @ [m])) x)
      else if prefix (p @ [n]) x then None
      else walk f r x)"
proof -
  note aside = walk_move_aside [OF t i j]
  have fi: "f i n = Some c" using p i by simp
  have nq: "\<not> prefix (q @ [m]) q" by (auto dest: prefix_length_le)
  have wq: "walk (relink f i n j m c) r (q @ [m]) = Some c"
    using aside [OF nq out] j by (simp add: relink_def)
  show ?thesis
  proof (cases "prefix (q @ [m]) x")
    case True
    then obtain y where y: "x = (q @ [m]) @ y" by (auto simp: prefix_def)
    have "walk (relink f i n j m c) r x = walk (relink f i n j m c) c y"
      unfolding y by (simp only: walk_append [of _ r "q @ [m]"] wq option.case)
    also have "\<dots> = walk f c y"
      using walk_move_below [OF t p i j m out] by (cases "walk f c y") auto
    also have "\<dots> = walk f r ((p @ [n]) @ y)"
      by (simp only: walk_append [of _ r "p @ [n]"] p option.case)
    finally show ?thesis using True y by simp
  next
    case False
    show ?thesis
    proof (cases "prefix (p @ [n]) x")
      case True
      then obtain y where y: "x = (p @ [n]) @ y" by (auto simp: prefix_def)
      have "\<not> prefix (q @ [m]) p" using False y by (metis append_assoc prefix_prefix)
      moreover have "\<not> prefix (p @ [n]) p" by (auto dest: prefix_length_le)
      ultimately have "walk (relink f i n j m c) r p = Some i" using aside i by metis
      moreover have "relink f i n j m c i n = None" using fi m by (auto simp: relink_def link_def)
      ultimately have "walk (relink f i n j m c) r (p @ [n]) = None" by simp
      then have "walk (relink f i n j m c) r x = None"
        unfolding y by (simp only: walk_append [of _ r "p @ [n]"] option.case)
      with True False show ?thesis by simp
    qed (use False aside in simp)
  qed
qed

lemma tree_like_move:
  "tree_like f r \<Longrightarrow> f i n = Some c \<Longrightarrow> tree_like (relink f i n j m c) r"
  unfolding tree_like_def relink_def link_def by (auto split: if_splits)

end
