(* ===== verification/Ramfs.thy ===== *)
theory Ramfs
  imports Vfs_Types Name_Tree
begin

text \<open>
  The file system in memory, \<open>kernel/src/fs/ramfs.c\<close>: a fixed table of nodes, each with an
  array of child indices, and a pool from which file contents are allocated and never freed.

  The table and the pool are functions from the index, the bounds \<open>RAMFS_MAX_NODES\<close> and
  \<open>RAMFS_MAX_FILE_BYTES\<close> being part of the invariant; a child array is the list of its 64
  cells with its count. A data pointer is an offset into the pool, \<open>None\<close> for
  \<open>NULL\<close>. The octal modes are written in hexadecimal: \<open>0755 = 0x1ED\<close>, \<open>0644 = 0x1A4\<close>,
  \<open>07777 = 0xFFF\<close>. A negative status is \<open>Inl\<close>, a node index \<open>Inr\<close>.
\<close>

definition RAMFS_MAX_NODES :: nat where "RAMFS_MAX_NODES = 1024"
definition RAMFS_MAX_CHILDREN :: nat where "RAMFS_MAX_CHILDREN = 64"
definition RAMFS_MAX_FILE_BYTES :: nat where "RAMFS_MAX_FILE_BYTES = 1024 * 1024"
definition RAMFS_DEFAULT_DIR_MODE :: u16 where "RAMFS_DEFAULT_DIR_MODE = 0x1ED"
definition RAMFS_DEFAULT_FILE_MODE :: u16 where "RAMFS_DEFAULT_FILE_MODE = 0x1A4"

datatype node_type = RAMFS_NODE_FILE | RAMFS_NODE_DIR

record ramfs_node =
  used :: bool
  ntype :: node_type
  parent :: nat
  name :: string
  children :: "nat list"
  child_count :: nat
  ndata :: "nat option"
  nsize :: nat
  capacity :: nat
  mode :: u16
  uid :: u32
  gid :: u32

record ramfs =
  nodes :: "nat \<Rightarrow> ramfs_node"
  file_pool :: "nat \<Rightarrow> u8"
  file_pool_used :: nat
  root_index :: nat

definition zero_node :: ramfs_node where
  "zero_node = \<lparr>used = False, ntype = RAMFS_NODE_FILE, parent = 0, name = [],
     children = replicate RAMFS_MAX_CHILDREN 0, child_count = 0, ndata = None, nsize = 0,
     capacity = 0, mode = 0, uid = 0, gid = 0\<rparr>"

abbreviation upd_node :: "ramfs \<Rightarrow> nat \<Rightarrow> (ramfs_node \<Rightarrow> ramfs_node) \<Rightarrow> ramfs" where
  "upd_node fs i g \<equiv> fs\<lparr>nodes := (nodes fs)(i := g (nodes fs i))\<rparr>"

section \<open>Nodes and paths\<close>

definition ramfs_alloc_node :: "ramfs \<Rightarrow> nat option \<times> ramfs" where
  "ramfs_alloc_node fs =
     (case find (\<lambda>i. \<not> used (nodes fs i)) [0..<RAMFS_MAX_NODES] of
        None \<Rightarrow> (None, fs)
      | Some i \<Rightarrow> (Some i, upd_node fs i (\<lambda>_. zero_node\<lparr>used := True, uid := 0, gid := 0\<rparr>)))"

definition ramfs_copy_name :: "string \<Rightarrow> string" where
  "ramfs_copy_name s = copy_loop VFS_MAX_NAME 0 s"

fun skip_slashes :: "string \<Rightarrow> string" where
  "skip_slashes [] = []"
| "skip_slashes (c # s) = (if c = CHR ''/'' then skip_slashes s else c # s)"

fun copy_token :: "nat \<Rightarrow> string \<Rightarrow> string \<times> string" where
  "copy_token i [] = ([], [])"
| "copy_token i (c # s) =
     (if c \<noteq> CHR ''/'' \<and> i + 1 < VFS_MAX_NAME
      then (case copy_token (i + 1) s of (tok, s') \<Rightarrow> (c # tok, s'))
      else ([], c # s))"

fun skip_token :: "string \<Rightarrow> string" where
  "skip_token [] = []"
| "skip_token (c # s) = (if c \<noteq> CHR ''/'' then skip_token s else c # s)"

text \<open>The next component of a path and what follows it; \<open>None\<close> at the end.\<close>

definition ramfs_path_next :: "string \<Rightarrow> (string \<times> string) option" where
  "ramfs_path_next p =
     (let s = skip_slashes p
      in if s = [] then None
         else case copy_token 0 s of (tok, s') \<Rightarrow> Some (tok, skip_token s'))"

definition ramfs_find_child :: "ramfs \<Rightarrow> nat \<Rightarrow> string \<Rightarrow> nat option" where
  "ramfs_find_child fs parent_index nm =
     (let par = nodes fs parent_index
      in find (\<lambda>c. used (nodes fs c) \<and> name (nodes fs c) = nm)
           (take (child_count par) (children par)))"

definition ramfs_create_child ::
  "ramfs \<Rightarrow> nat \<Rightarrow> string \<Rightarrow> node_type \<Rightarrow> (int + nat) \<times> ramfs" where
  "ramfs_create_child fs parent_index nm ty =
     (if child_count (nodes fs parent_index) \<ge> RAMFS_MAX_CHILDREN then (Inl (-1), fs)
      else case ramfs_alloc_node fs of
        (None, fs1) \<Rightarrow> (Inl (-2), fs1)
      | (Some idx, fs1) \<Rightarrow>
          (let fs2 = upd_node fs1 idx
                       (\<lambda>n. n\<lparr>ntype := ty, parent := parent_index, name := ramfs_copy_name nm\<rparr>)
           in (Inr idx,
               upd_node fs2 parent_index
                 (\<lambda>p. p\<lparr>children := (children p)[child_count p := idx],
                        child_count := child_count p + 1\<rparr>))))"

lemma length_skip_slashes: "length (skip_slashes s) \<le> length s"
  by (induction s) auto

lemma length_skip_token: "length (skip_token s) \<le> length s"
  by (induction s) auto

lemma skip_slashes_hd: "skip_slashes s = c # s' \<Longrightarrow> c \<noteq> CHR ''/''"
  by (induction s) (auto split: if_splits)

lemma copy_token_length:
  "copy_token i s = (tok, s') \<Longrightarrow> length tok + length s' = length s \<and> length tok \<le> VFS_MAX_NAME - 1 - i"
proof (induction i s arbitrary: tok s' rule: copy_token.induct)
  case (1 i)
  then show ?case by simp
next
  case (2 i c s)
  show ?case
  proof (cases "c \<noteq> CHR ''/'' \<and> i + 1 < VFS_MAX_NAME")
    case True
    obtain t u where tu: "copy_token (i + 1) s = (t, u)" by (cases "copy_token (i + 1) s")
    from 2 True tu show ?thesis by (auto split: prod.splits)
  next
    case False
    with 2 show ?thesis by auto
  qed
qed

lemma path_next_Some:
  assumes "ramfs_path_next p = Some (tok, r)"
  shows "length r < length p" and "tok \<noteq> []" and "length tok < VFS_MAX_NAME"
proof -
  from assms obtain c s s' where s: "skip_slashes p = c # s" and t: "copy_token 0 (c # s) = (tok, s')"
    and r: "r = skip_token s'"
    by (auto simp: ramfs_path_next_def Let_def neq_Nil_conv split: if_splits prod.splits)
  from skip_slashes_hd [OF s] t show ne: "tok \<noteq> []"
    by (auto simp: VFS_MAX_NAME_def split: if_splits prod.splits)
  from copy_token_length [OF t] show "length tok < VFS_MAX_NAME" by (simp add: VFS_MAX_NAME_def)
  from copy_token_length [OF t] ne have "length s' < length (c # s)" by (cases tok) auto
  with length_skip_token [of s'] length_skip_slashes [of p] s r show "length r < length p" by simp
qed

text \<open>
  The loop of \<open>ramfs_resolve\<close>: the result, the values of \<open>out_parent\<close> and
  \<open>out_leaf\<close> where they are written, and the file system.
\<close>

function ramfs_resolve_loop ::
  "ramfs \<Rightarrow> bool \<Rightarrow> nat \<Rightarrow> string \<Rightarrow> string \<Rightarrow> (int + nat) \<times> (nat \<times> string) option \<times> ramfs" where
  "ramfs_resolve_loop fs create_dirs cur tok p =
     (case ramfs_path_next p of
        None \<Rightarrow>
          ((case ramfs_find_child fs cur tok of Some child \<Rightarrow> Inr child | None \<Rightarrow> Inl (-2)),
           Some (cur, ramfs_copy_name tok), fs)
      | Some (nxt, save) \<Rightarrow>
          (case (case ramfs_find_child fs cur tok of
                   Some child \<Rightarrow> (Inr child, fs)
                 | None \<Rightarrow>
                     if \<not> create_dirs then (Inl (-3), fs)
                     else case ramfs_create_child fs cur tok RAMFS_NODE_DIR of
                            (Inl _, fs1) \<Rightarrow> (Inl (-4), fs1)
                          | (Inr child, fs1) \<Rightarrow> (Inr child, fs1)) of
             (Inl e, fs1) \<Rightarrow> (Inl e, None, fs1)
           | (Inr child, fs1) \<Rightarrow>
               if ntype (nodes fs1 child) \<noteq> RAMFS_NODE_DIR then (Inl (-5), None, fs1)
               else ramfs_resolve_loop fs1 create_dirs child (ramfs_copy_name nxt) save))"
  by pat_completeness auto
termination
  by (relation "measure (\<lambda>(fs, create_dirs, cur, tok, p). length p)") (auto dest: path_next_Some)

declare ramfs_resolve_loop.simps [simp del]

definition ramfs_resolve ::
  "ramfs \<Rightarrow> string \<Rightarrow> bool \<Rightarrow> (int + nat) \<times> (nat \<times> string) option \<times> ramfs" where
  "ramfs_resolve fs path create_dirs =
     (if path = [] \<or> hd path \<noteq> CHR ''/'' then (Inl (-1), None, fs)
      else case ramfs_path_next path of
        None \<Rightarrow> (Inr (root_index fs), Some (root_index fs, []), fs)
      | Some (tok, p) \<Rightarrow> ramfs_resolve_loop fs create_dirs (root_index fs) tok p)"

section \<open>File contents\<close>

text \<open>The sum is computed in a 64-bit \<open>size_t\<close>.\<close>

definition ramfs_alloc_bytes :: "ramfs \<Rightarrow> nat \<Rightarrow> nat option \<times> ramfs" where
  "ramfs_alloc_bytes fs len =
     (if len = 0 then (None, fs)
      else if (file_pool_used fs + len) mod 2 ^ 64 > RAMFS_MAX_FILE_BYTES then (None, fs)
      else (Some (file_pool_used fs), fs\<lparr>file_pool_used := (file_pool_used fs + len) mod 2 ^ 64\<rparr>))"

definition pool_write :: "(nat \<Rightarrow> u8) \<Rightarrow> nat \<Rightarrow> u8 list \<Rightarrow> nat \<Rightarrow> u8" where
  "pool_write m a bs = (\<lambda>k. if a \<le> k \<and> k < a + length bs then bs ! (k - a) else m k)"

definition pool_read :: "(nat \<Rightarrow> u8) \<Rightarrow> nat \<Rightarrow> nat \<Rightarrow> u8 list" where
  "pool_read m a n = map m [a..<a + n]"

section \<open>The operations of the back end\<close>

definition ramfs_op_mkdir :: "u32 \<Rightarrow> ramfs \<Rightarrow> string \<Rightarrow> u16 \<Rightarrow> int \<times> ramfs" where
  "ramfs_op_mkdir cur_uid fs path md =
     (case ramfs_resolve fs path True of
        (Inr rc, _, fs1) \<Rightarrow> (if ntype (nodes fs1 rc) = RAMFS_NODE_DIR then 0 else -1, fs1)
      | (Inl e, out, fs1) \<Rightarrow>
          (if e = -2 then
             (case out of
                None \<Rightarrow> (-2, fs1)
              | Some (par, leaf) \<Rightarrow>
                  (case ramfs_create_child fs1 par leaf RAMFS_NODE_DIR of
                     (Inl _, fs2) \<Rightarrow> (-2, fs2)
                   | (Inr created, fs2) \<Rightarrow>
                       (0, upd_node fs2 created
                             (\<lambda>n. n\<lparr>mode := if md \<noteq> 0 then md else RAMFS_DEFAULT_DIR_MODE,
                                    uid := cur_uid\<rparr>))))
           else (-3, fs1)))"

definition ramfs_store :: "ramfs \<Rightarrow> nat \<Rightarrow> u8 list \<Rightarrow> int \<times> ramfs" where
  "ramfs_store fs node bytes =
     (let n = nodes fs node; len = length bytes in
      if ntype n \<noteq> RAMFS_NODE_FILE then (-3, fs)
      else if len = 0 then
        (0, upd_node fs node (\<lambda>n. n\<lparr>ndata := None, nsize := 0, capacity := 0\<rparr>))
      else
        (case (if capacity n \<ge> len then (ndata n, fs) else ramfs_alloc_bytes fs len) of
           (None, fs1) \<Rightarrow> (-4, fs1)
         | (Some dst, fs1) \<Rightarrow>
             (0, upd_node (fs1\<lparr>file_pool := pool_write (file_pool fs1) dst bytes\<rparr>) node
                   (\<lambda>n. n\<lparr>ndata := Some dst, nsize := len, capacity := len\<rparr>))))"

definition ramfs_op_create_file ::
  "u32 \<Rightarrow> ramfs \<Rightarrow> string \<Rightarrow> u16 \<Rightarrow> u8 list \<Rightarrow> int \<times> ramfs" where
  "ramfs_op_create_file cur_uid fs path md bytes =
     (case ramfs_resolve fs path True of
        (Inr node, _, fs1) \<Rightarrow> ramfs_store fs1 node bytes
      | (Inl e, out, fs1) \<Rightarrow>
          (if e = -2 then
             (case out of
                None \<Rightarrow> (-1, fs1)
              | Some (par, leaf) \<Rightarrow>
                  (case ramfs_create_child fs1 par leaf RAMFS_NODE_FILE of
                     (Inl _, fs2) \<Rightarrow> (-1, fs2)
                   | (Inr node, fs2) \<Rightarrow>
                       ramfs_store
                         (upd_node fs2 node
                            (\<lambda>n. n\<lparr>mode := if md \<noteq> 0 then md else RAMFS_DEFAULT_FILE_MODE,
                                   uid := cur_uid\<rparr>))
                         node bytes))
           else (-2, fs1)))"

definition ramfs_op_write_file :: "u32 \<Rightarrow> ramfs \<Rightarrow> string \<Rightarrow> u8 list \<Rightarrow> int \<times> ramfs" where
  "ramfs_op_write_file cur_uid fs path bytes = ramfs_op_create_file cur_uid fs path 0 bytes"

definition node_bytes :: "ramfs \<Rightarrow> nat \<Rightarrow> u8 list" where
  "node_bytes fs i =
     (case ndata (nodes fs i) of None \<Rightarrow> [] | Some a \<Rightarrow> pool_read (file_pool fs) a (nsize (nodes fs i)))"

text \<open>Status, \<open>*out_len\<close> where it is written, and the buffer.\<close>

definition ramfs_op_read_file ::
  "ramfs \<Rightarrow> string \<Rightarrow> u8 list option \<Rightarrow> nat \<Rightarrow> int \<times> nat option \<times> u8 list option" where
  "ramfs_op_read_file fs path out out_cap =
     (case ramfs_resolve fs path False of
        (Inl _, _) \<Rightarrow> (-1, None, out)
      | (Inr rc, _) \<Rightarrow>
          (let n = nodes fs rc in
           if ntype n \<noteq> RAMFS_NODE_FILE then (-2, None, out)
           else case out of
                  None \<Rightarrow> (0, Some (nsize n), None)
                | Some buf \<Rightarrow>
                    if out_cap < nsize n then (-3, Some (nsize n), out)
                    else (0, Some (nsize n),
                          Some (if nsize n > 0 then node_bytes fs rc @ drop (nsize n) buf else buf))))"

text \<open>The bytes and length a file view gives; \<open>None\<close> for an error.\<close>

definition ramfs_get_file_view :: "ramfs \<Rightarrow> string \<Rightarrow> int + nat option \<times> nat" where
  "ramfs_get_file_view fs path =
     (if path = [] \<or> hd path \<noteq> CHR ''/'' then Inl (-1)
      else case ramfs_resolve fs path False of
        (Inl _, _) \<Rightarrow> Inl (-1)
      | (Inr rc, _) \<Rightarrow>
          (let n = nodes fs rc
           in if ntype n \<noteq> RAMFS_NODE_FILE then Inl (-2) else Inr (ndata n, nsize n)))"

definition ramfs_op_list_dir ::
  "ramfs \<Rightarrow> string \<Rightarrow> dirent list option \<Rightarrow> nat \<Rightarrow> int \<times> nat option \<times> dirent list option" where
  "ramfs_op_list_dir fs path out max_entries =
     (case ramfs_resolve fs path False of
        (Inl _, _) \<Rightarrow> (-1, None, out)
      | (Inr rc, _) \<Rightarrow>
          (let dir = nodes fs rc; n = child_count dir in
           if ntype dir \<noteq> RAMFS_NODE_DIR then (-2, None, out)
           else case out of
                  None \<Rightarrow> (0, Some n, None)
                | Some ents \<Rightarrow>
                    if max_entries = 0 then (0, Some n, out)
                    else let copy_count = min n max_entries
                         in (0, Some n,
                             Some (map (\<lambda>i. let c = nodes fs (children dir ! i)
                                            in \<lparr>d_name = ramfs_copy_name (name c),
                                                d_is_dir = (ntype c = RAMFS_NODE_DIR),
                                                d_size = nsize c\<rparr>) [0..<copy_count]
                                   @ drop copy_count ents))))"

definition ramfs_op_exists :: "ramfs \<Rightarrow> string \<Rightarrow> int" where
  "ramfs_op_exists fs path =
     (case ramfs_resolve fs path False of (Inl _, _) \<Rightarrow> 0 | (Inr _, _) \<Rightarrow> 1)"

definition ramfs_dir_is_empty :: "ramfs \<Rightarrow> nat \<Rightarrow> bool" where
  "ramfs_dir_is_empty fs node =
     (if node \<ge> RAMFS_MAX_NODES then False
      else if ntype (nodes fs node) \<noteq> RAMFS_NODE_DIR then False
      else child_count (nodes fs node) = 0)"

text \<open>The shift loop of \<open>ramfs_detach_child\<close>.\<close>

function shift_down :: "nat list \<Rightarrow> nat \<Rightarrow> nat \<Rightarrow> nat list" where
  "shift_down cs i n = (if i + 1 < n then shift_down (cs[i := cs ! (i + 1)]) (i + 1) n else cs)"
  by pat_completeness auto
termination by (relation "measure (\<lambda>(cs, i, n). n - i)") auto

declare shift_down.simps [simp del]

definition ramfs_detach_child :: "ramfs \<Rightarrow> nat \<Rightarrow> nat \<Rightarrow> int \<times> ramfs" where
  "ramfs_detach_child fs par child =
     (if par \<ge> RAMFS_MAX_NODES then (-1, fs)
      else
        let p = nodes fs par in
        case find_index (\<lambda>c. c = child) (take (child_count p) (children p)) of
          None \<Rightarrow> (-1, fs)
        | Some idx \<Rightarrow>
            (0, upd_node fs par
                  (\<lambda>p. p\<lparr>children := shift_down (children p) idx (child_count p),
                         child_count := child_count p - 1\<rparr>)))"

definition ramfs_op_remove :: "ramfs \<Rightarrow> string \<Rightarrow> int \<times> ramfs" where
  "ramfs_op_remove fs path =
     (if path = [] \<or> hd path \<noteq> CHR ''/'' \<or> tl path = [] then (-1, fs)
      else case ramfs_resolve fs path False of
        (Inr node, Some (par, _), _) \<Rightarrow>
          (if ntype (nodes fs node) = RAMFS_NODE_DIR \<and> \<not> ramfs_dir_is_empty fs node then (-1, fs)
           else case ramfs_detach_child fs par node of
                  (rc, fs1) \<Rightarrow>
                    if rc \<noteq> 0 then (-1, fs1) else (0, upd_node fs1 node (\<lambda>_. zero_node)))
      | _ \<Rightarrow> (-1, fs))"

definition ramfs_op_rename :: "ramfs \<Rightarrow> string \<Rightarrow> string \<Rightarrow> int \<times> ramfs" where
  "ramfs_op_rename fs old_path new_path =
     (if old_path = [] \<or> hd old_path \<noteq> CHR ''/'' \<or> new_path = [] \<or> hd new_path \<noteq> CHR ''/''
      then (-1, fs)
      else if old_path = ''/'' \<or> new_path = ''/'' then (-1, fs)
      else case ramfs_resolve fs old_path False of
        (Inr node, Some (old_parent, _), _) \<Rightarrow>
          (case ramfs_resolve fs new_path False of
             (Inl _, Some (new_parent, new_leaf), _) \<Rightarrow>
               (if old_parent \<noteq> new_parent then
                  (case ramfs_detach_child fs old_parent node of
                     (rc, fs1) \<Rightarrow>
                       if rc \<noteq> 0 then (-1, fs1)
                       else if child_count (nodes fs1 new_parent) \<ge> RAMFS_MAX_CHILDREN then (-1, fs1)
                       else
                         let fs2 = upd_node fs1 new_parent
                                     (\<lambda>np. np\<lparr>children := (children np)[child_count np := node],
                                              child_count := child_count np + 1\<rparr>);
                             fs3 = upd_node fs2 node (\<lambda>n. n\<lparr>parent := new_parent\<rparr>)
                         in (0, upd_node fs3 node (\<lambda>n. n\<lparr>name := ramfs_copy_name new_leaf\<rparr>)))
                else (0, upd_node fs node (\<lambda>n. n\<lparr>name := ramfs_copy_name new_leaf\<rparr>)))
           | _ \<Rightarrow> (-1, fs))
      | _ \<Rightarrow> (-1, fs))"

definition ramfs_op_getattr :: "ramfs \<Rightarrow> string \<Rightarrow> attr option" where
  "ramfs_op_getattr fs path =
     (case ramfs_resolve fs path False of
        (Inl _, _) \<Rightarrow> None
      | (Inr rc, _) \<Rightarrow> Some (mode (nodes fs rc), uid (nodes fs rc), gid (nodes fs rc)))"

definition ramfs_op_chmod :: "ramfs \<Rightarrow> string \<Rightarrow> u16 \<Rightarrow> int \<times> ramfs" where
  "ramfs_op_chmod fs path md =
     (case ramfs_resolve fs path False of
        (Inl _, _) \<Rightarrow> (-1, fs)
      | (Inr rc, _) \<Rightarrow>
          (0, upd_node fs rc (\<lambda>n. n\<lparr>mode := (mode n AND NOT 0xFFF) OR (md AND 0xFFF)\<rparr>)))"

definition ramfs_op_chown :: "ramfs \<Rightarrow> string \<Rightarrow> u32 \<Rightarrow> u32 \<Rightarrow> int \<times> ramfs" where
  "ramfs_op_chown fs path u g =
     (case ramfs_resolve fs path False of
        (Inl _, _) \<Rightarrow> (-1, fs)
      | (Inr rc, _) \<Rightarrow>
          (0, upd_node fs rc (\<lambda>n. n\<lparr>uid := if u \<noteq> -1 then u else uid n,
                                   gid := if g \<noteq> -1 then g else gid n\<rparr>)))"

text \<open>The pool and table of a zeroed \<open>ramfs_t\<close>, then the root.\<close>

definition ramfs_init :: ramfs where
  "ramfs_init =
     (let fs0 = \<lparr>nodes = (\<lambda>_. zero_node), file_pool = (\<lambda>_. 0), file_pool_used = 0, root_index = 0\<rparr>
      in case ramfs_alloc_node fs0 of
           (None, fs1) \<Rightarrow> fs1
         | (Some root, fs1) \<Rightarrow>
             upd_node (fs1\<lparr>root_index := root\<rparr>) root
               (\<lambda>n. n\<lparr>ntype := RAMFS_NODE_DIR, parent := root, name := ''/''\<rparr>))"

text \<open>
  The table of operations. A context is the address of a \<open>ramfs_t\<close>, the memory maps
  addresses to them.
\<close>

definition on_ctx :: "'c \<Rightarrow> ('c \<Rightarrow> 'f) \<Rightarrow> ('f \<Rightarrow> int \<times> 'f) \<Rightarrow> int \<times> ('c \<Rightarrow> 'f)" where
  "on_ctx c s g = (case g (s c) of (rc, f) \<Rightarrow> (rc, s(c := f)))"

definition g_ramfs_ops :: "('c, 'c \<Rightarrow> ramfs) backend_ops" where
  "g_ramfs_ops = \<lparr>
     b_mkdir = Some (\<lambda>c cr s path md. on_ctx c s (\<lambda>f. ramfs_op_mkdir (cr_uid cr) f path md)),
     b_create_file = Some (\<lambda>c cr s path md bytes. on_ctx c s (\<lambda>f. ramfs_op_create_file (cr_uid cr) f path md bytes)),
     b_write_file = Some (\<lambda>c cr s path bytes. on_ctx c s (\<lambda>f. ramfs_op_write_file (cr_uid cr) f path bytes)),
     b_read_file = Some (\<lambda>c s. ramfs_op_read_file (s c)),
     b_list_dir = Some (\<lambda>c s path out n. Some (ramfs_op_list_dir (s c) path out n)),
     b_exists = Some (\<lambda>c s. ramfs_op_exists (s c)),
     b_remove = Some (\<lambda>c s path. on_ctx c s (\<lambda>f. ramfs_op_remove f path)),
     b_rename = Some (\<lambda>c s a b. on_ctx c s (\<lambda>f. ramfs_op_rename f a b)),
     b_getattr = Some (\<lambda>c s. ramfs_op_getattr (s c)),
     b_chmod = Some (\<lambda>c s path md. on_ctx c s (\<lambda>f. ramfs_op_chmod f path md)),
     b_chown = Some (\<lambda>c s path u g. on_ctx c s (\<lambda>f. ramfs_op_chown f path u g))\<rparr>"

end
