(* ===== verification/Ramfs_Tree.thy ===== *)
theory Ramfs_Tree
  imports Ramfs
begin

text \<open>
  The invariant of the node table of \<open>Ramfs\<close>, the tree of names it stores, and what
  resolving a path, adding a child, detaching one and storing bytes do to that tree.
\<close>

section \<open>Invariant and view\<close>

definition kids :: "ramfs \<Rightarrow> nat \<Rightarrow> nat list" where
  "kids fs i = take (child_count (nodes fs i)) (children (nodes fs i))"

definition links_ok :: "ramfs \<Rightarrow> nat \<Rightarrow> bool" where
  "links_ok fs i \<longleftrightarrow>
     (\<forall>c\<in>set (kids fs i). c < RAMFS_MAX_NODES \<and> used (nodes fs c) \<and> c \<noteq> root_index fs
        \<and> parent (nodes fs c) = i)
     \<and> distinct (map (\<lambda>c. name (nodes fs c)) (kids fs i))
     \<and> (kids fs i \<noteq> [] \<longrightarrow> used (nodes fs i) \<and> ntype (nodes fs i) = RAMFS_NODE_DIR)"

definition node_ok :: "nat \<Rightarrow> ramfs_node \<Rightarrow> bool" where
  "node_ok pool_used n \<longleftrightarrow>
     length (children n) = RAMFS_MAX_CHILDREN \<and> child_count n \<le> RAMFS_MAX_CHILDREN
     \<and> length (name n) < VFS_MAX_NAME \<and> nsize n = capacity n
     \<and> (ndata n = None \<longrightarrow> capacity n = 0)
     \<and> (\<forall>a. ndata n = Some a \<longrightarrow>
          used n \<and> ntype n = RAMFS_NODE_FILE \<and> 0 < capacity n \<and> a + capacity n \<le> pool_used)"

definition apart :: "ramfs_node \<Rightarrow> ramfs_node \<Rightarrow> bool" where
  "apart n m \<longleftrightarrow> (\<forall>a b. ndata n = Some a \<longrightarrow> ndata m = Some b \<longrightarrow> a + capacity n \<le> b \<or> b + capacity m \<le> a)"

definition ramfs_inv :: "ramfs \<Rightarrow> bool" where
  "ramfs_inv fs \<longleftrightarrow>
     root_index fs < RAMFS_MAX_NODES \<and> used (nodes fs (root_index fs))
     \<and> ntype (nodes fs (root_index fs)) = RAMFS_NODE_DIR
     \<and> file_pool_used fs \<le> RAMFS_MAX_FILE_BYTES
     \<and> (\<forall>i. node_ok (file_pool_used fs) (nodes fs i))
     \<and> (\<forall>i. links_ok fs i)
     \<and> (\<forall>i j. i \<noteq> j \<longrightarrow> apart (nodes fs i) (nodes fs j))"

lemma ramfs_invD:
  assumes "ramfs_inv fs"
  shows "root_index fs < RAMFS_MAX_NODES" "used (nodes fs (root_index fs))"
    "ntype (nodes fs (root_index fs)) = RAMFS_NODE_DIR" "file_pool_used fs \<le> RAMFS_MAX_FILE_BYTES"
    "node_ok (file_pool_used fs) (nodes fs i)" "links_ok fs i"
    "i \<noteq> j \<Longrightarrow> apart (nodes fs i) (nodes fs j)"
  using assms unfolding ramfs_inv_def by blast+

abbreviation child :: "ramfs \<Rightarrow> nat \<Rightarrow> string \<Rightarrow> nat option" where
  "child \<equiv> ramfs_find_child"

lemma find_Some_iff_distinct:
  "distinct (map g xs) \<Longrightarrow> (\<forall>x\<in>set xs. P x \<longleftrightarrow> g x = k) \<Longrightarrow>
     find P xs = Some c \<longleftrightarrow> c \<in> set xs \<and> g c = k"
  by (induction xs) (auto simp: image_iff)

lemma child_iff:
  assumes "ramfs_inv fs"
  shows "child fs i nm = Some c \<longleftrightarrow> c \<in> set (kids fs i) \<and> name (nodes fs c) = nm"
proof -
  from ramfs_invD(6) [OF assms, of i] show ?thesis
    unfolding ramfs_find_child_def Let_def links_ok_def kids_def [symmetric]
    by (intro find_Some_iff_distinct [of "\<lambda>c. name (nodes fs c)"]) auto
qed

lemma child_SomeD:
  assumes "ramfs_inv fs" "child fs i nm = Some c"
  shows "c \<in> set (kids fs i)" "name (nodes fs c) = nm" "c < RAMFS_MAX_NODES" "used (nodes fs c)"
    "c \<noteq> root_index fs" "parent (nodes fs c) = i" "used (nodes fs i)"
    "ntype (nodes fs i) = RAMFS_NODE_DIR"
proof -
  show k: "c \<in> set (kids fs i)" and "name (nodes fs c) = nm"
    using assms by (auto simp: child_iff)
  then have "kids fs i \<noteq> []" by auto
  with k ramfs_invD(6) [OF assms(1), of i]
  show "c < RAMFS_MAX_NODES" "used (nodes fs c)" "c \<noteq> root_index fs" "parent (nodes fs c) = i"
    "used (nodes fs i)" "ntype (nodes fs i) = RAMFS_NODE_DIR"
    by (auto simp: links_ok_def)
qed

lemma tree_like_child: "ramfs_inv fs \<Longrightarrow> tree_like (child fs) (root_index fs)"
  unfolding tree_like_def by (metis child_SomeD(2,5,6))

lemma unused_no_child:
  assumes "ramfs_inv fs" "\<not> used (nodes fs c)"
  shows "child fs c nm = None" "child fs j nm \<noteq> Some c"
  using child_SomeD(4,7) [OF assms(1)] assms(2) by (metis not_None_eq)+

abbreviation lookup :: "ramfs \<Rightarrow> string list \<Rightarrow> nat option" where
  "lookup fs \<equiv> walk (child fs) (root_index fs)"

lemma lookup_used:
  assumes "ramfs_inv fs" "lookup fs q = Some i"
  shows "used (nodes fs i)" "i < RAMFS_MAX_NODES"
  using assms ramfs_invD(1,2) [OF assms(1)]
  by (cases q rule: rev_cases; auto split: option.splits dest: child_SomeD(3,4))+

text \<open>What a path names: a directory or the bytes of a file, with mode and owner.\<close>

datatype fkind = Dir | File "u8 list"

definition node_obj :: "ramfs_node \<Rightarrow> (nat \<Rightarrow> u8) \<Rightarrow> fkind \<times> attr" where
  "node_obj n pool =
     (if ntype n = RAMFS_NODE_DIR then Dir
      else File (case ndata n of None \<Rightarrow> [] | Some a \<Rightarrow> pool_read pool a (nsize n)),
      mode n, uid n, gid n)"

definition ramfs_view :: "ramfs \<Rightarrow> string list \<Rightarrow> (fkind \<times> attr) option" where
  "ramfs_view fs q = map_option (\<lambda>i. node_obj (nodes fs i) (file_pool fs)) (lookup fs q)"

lemma view_None_iff: "ramfs_view fs q = None \<longleftrightarrow> lookup fs q = None"
  by (simp add: ramfs_view_def)

lemma view_root: "ramfs_inv fs \<Longrightarrow> \<exists>a. ramfs_view fs [] = Some (Dir, a)"
  using ramfs_invD(3) [of fs] by (simp add: ramfs_view_def node_obj_def)

text \<open>The names on a path, slashes skipped and long ones cut.\<close>

function path_tokens :: "string \<Rightarrow> string list" where
  "path_tokens p = (case ramfs_path_next p of None \<Rightarrow> [] | Some (t, r) \<Rightarrow> t # path_tokens r)"
  by pat_completeness auto
termination by (relation "measure length") (auto dest: path_next_Some)

declare path_tokens.simps [simp del]

lemma path_tokens_None: "ramfs_path_next p = None \<Longrightarrow> path_tokens p = []"
  and path_tokens_Some: "ramfs_path_next p = Some (t, r) \<Longrightarrow> path_tokens p = t # path_tokens r"
  by (subst path_tokens.simps; simp)+

lemma path_next_copy [simp]:
  "ramfs_path_next p = Some (t, r) \<Longrightarrow> ramfs_copy_name t = t"
  by (simp add: ramfs_copy_name_def path_next_Some(3))

section \<open>Looking up\<close>

lemma resolve_lookup_loop:
  assumes "ramfs_inv fs" "ntype (nodes fs cur) = RAMFS_NODE_DIR" "length tok < VFS_MAX_NAME"
  shows "\<exists>r out. ramfs_resolve_loop fs False cur tok p = (r, out, fs)
     \<and> out = (case walk (child fs) cur (butlast (tok # path_tokens p)) of
                None \<Rightarrow> None
              | Some i \<Rightarrow> if ntype (nodes fs i) = RAMFS_NODE_DIR
                         then Some (i, List.last (tok # path_tokens p)) else None)
     \<and> (case walk (child fs) cur (tok # path_tokens p) of
          Some c \<Rightarrow> r = Inr c \<and> out \<noteq> None
        | None \<Rightarrow> \<exists>e. r = Inl e \<and> (e = -2 \<longleftrightarrow> out \<noteq> None))"
  using assms(2,3)
proof (induction p arbitrary: cur tok rule: path_tokens.induct)
  case (1 p)
  show ?case
  proof (cases "ramfs_path_next p")
    case None
    with 1 show ?thesis
      by (subst ramfs_resolve_loop.simps)
        (auto simp: path_tokens_None ramfs_copy_name_def split: option.splits)
  next
    case (Some x)
    then obtain t r where x: "ramfs_path_next p = Some (t, r)" by (cases x) auto
    note tok = path_tokens_Some [OF x]
    show ?thesis
    proof (cases "child fs cur tok")
      case None
      with x show ?thesis
        by (subst ramfs_resolve_loop.simps) (auto simp: tok)
    next
      case c: (Some c)
      show ?thesis
      proof (cases "ntype (nodes fs c) = RAMFS_NODE_DIR")
        case True
        have "ramfs_resolve_loop fs False cur tok p = ramfs_resolve_loop fs False c t r"
          using x c True by (subst ramfs_resolve_loop.simps) simp
        moreover have "butlast (tok # path_tokens p) = tok # butlast (t # path_tokens r)"
          "List.last (tok # path_tokens p) = List.last (t # path_tokens r)"
          by (simp_all add: tok)
        moreover note "1.IH" [OF x refl True path_next_Some(3) [OF x]]
        ultimately show ?thesis using c by (simp only: tok walk.simps option.case)
      next
        case False
        have none: "child fs c u = None" for u
          using child_SomeD(8) [OF assms(1)] False by (metis not_None_eq)
        with x c False show ?thesis
          by (subst ramfs_resolve_loop.simps)
            (cases "path_tokens r" rule: rev_cases; auto simp: tok none split: option.splits)
      qed
    qed
  qed
qed

lemma walk_cons_file:
  "(\<And>u. f c u = None) \<Longrightarrow> walk f c ts = (if ts = [] then Some c else None)"
  by (cases ts) auto

definition abs_path :: "string \<Rightarrow> bool" where
  "abs_path p \<longleftrightarrow> p \<noteq> [] \<and> hd p = CHR ''/''"

lemma resolve_root: "abs_path p \<Longrightarrow> path_tokens p = [] \<Longrightarrow>
  ramfs_resolve fs p cr = (Inr (root_index fs), Some (root_index fs, []), fs)"
  by (auto simp: ramfs_resolve_def abs_path_def path_tokens.simps [of p] split: option.splits)

lemma resolve_False:
  assumes "ramfs_inv fs" "abs_path p" "path_tokens p \<noteq> []"
  shows "\<exists>r out. ramfs_resolve fs p False = (r, out, fs)
     \<and> out = (case lookup fs (butlast (path_tokens p)) of
                None \<Rightarrow> None
              | Some i \<Rightarrow> if ntype (nodes fs i) = RAMFS_NODE_DIR
                         then Some (i, List.last (path_tokens p)) else None)
     \<and> (case lookup fs (path_tokens p) of
          Some c \<Rightarrow> r = Inr c \<and> out \<noteq> None
        | None \<Rightarrow> \<exists>e. r = Inl e \<and> (e = -2 \<longleftrightarrow> out \<noteq> None))"
proof -
  from assms(3) obtain t r where x: "ramfs_path_next p = Some (t, r)"
    by (cases "ramfs_path_next p") (auto simp: path_tokens_None)
  with assms(2) have "ramfs_resolve fs p False = ramfs_resolve_loop fs False (root_index fs) t r"
    by (auto simp: ramfs_resolve_def abs_path_def)
  with resolve_lookup_loop [OF assms(1) ramfs_invD(3) [OF assms(1)] path_next_Some(3) [OF x], of r]
  show ?thesis by (simp only: path_tokens_Some [OF x])
qed

lemma resolve_False_cases:
  assumes "ramfs_inv fs"
  obtains (found) c i where "abs_path p" "lookup fs (path_tokens p) = Some c" "path_tokens p \<noteq> []"
      "lookup fs (butlast (path_tokens p)) = Some i" "ntype (nodes fs i) = RAMFS_NODE_DIR"
      "ramfs_resolve fs p False = (Inr c, Some (i, List.last (path_tokens p)), fs)"
  | (root) "abs_path p" "path_tokens p = []"
      "ramfs_resolve fs p False = (Inr (root_index fs), Some (root_index fs, []), fs)"
  | (new) i where "abs_path p" "lookup fs (path_tokens p) = None" "path_tokens p \<noteq> []"
      "lookup fs (butlast (path_tokens p)) = Some i" "ntype (nodes fs i) = RAMFS_NODE_DIR"
      "ramfs_resolve fs p False = (Inl (-2), Some (i, List.last (path_tokens p)), fs)"
  | (bad) e where "abs_path p \<Longrightarrow> lookup fs (path_tokens p) = None" "e \<noteq> -2"
      "ramfs_resolve fs p False = (Inl e, None, fs)"
proof (cases "abs_path p")
  case False
  then show ?thesis using bad by (auto simp: ramfs_resolve_def abs_path_def)
next
  case ab: True
  show ?thesis
  proof (cases "path_tokens p = []")
    case True
    with ab resolve_root root show ?thesis by blast
  next
    case False
    from resolve_False [OF assms ab False] ab False show ?thesis
      by (auto split: option.splits if_splits intro: found new bad)
  qed
qed

lemma snoc_split: "ts \<noteq> [] \<Longrightarrow> lookup fs (butlast ts) = Some i \<Longrightarrow> lookup fs ts = child fs i (List.last ts)"
  by (cases ts rule: rev_cases) auto


section \<open>Changing one node\<close>

text \<open>
  \<open>links_ok\<close> and the child function read only these four fields; an update of the others
  leaves the tree alone.
\<close>

definition same_links :: "ramfs_node \<Rightarrow> ramfs_node \<Rightarrow> bool" where
  "same_links n m \<longleftrightarrow> used n = used m \<and> ntype n = ntype m \<and> parent n = parent m \<and> name n = name m
     \<and> children n = children m \<and> child_count n = child_count m"

lemma kids_cong: "same_links (nodes fs i) (nodes fs' i) \<Longrightarrow> kids fs' i = kids fs i"
  by (simp add: kids_def same_links_def)

lemma child_cong:
  assumes "\<And>i. same_links (nodes fs i) (nodes fs' i)"
  shows "child fs' = child fs"
proof -
  have "kids fs' = kids fs" using kids_cong assms by blast
  moreover have "used (nodes fs' i) = used (nodes fs i)" "name (nodes fs' i) = name (nodes fs i)" for i
    using assms [of i] by (auto simp: same_links_def)
  ultimately show ?thesis
    unfolding ramfs_find_child_def Let_def kids_def [symmetric] by (simp add: fun_eq_iff)
qed

lemma links_cong:
  assumes "\<And>i. same_links (nodes fs i) (nodes fs' i)" "root_index fs' = root_index fs"
    and "links_ok fs i"
  shows "links_ok fs' i"
proof -
  have "kids fs' i = kids fs i" using kids_cong assms(1) by blast
  with assms show ?thesis by (simp add: links_ok_def same_links_def)
qed

text \<open>The only node whose data changes is \<open>i\<close>; its new region touches no other's.\<close>

lemma ramfs_inv_data:
  assumes inv: "ramfs_inv fs" and links: "same_links (nodes fs i) n"
    and fs': "nodes fs' = (nodes fs)(i := n)" "root_index fs' = root_index fs"
    and used: "file_pool_used fs \<le> file_pool_used fs'" "file_pool_used fs' \<le> RAMFS_MAX_FILE_BYTES"
    and ok: "node_ok (file_pool_used fs') n"
    and apart: "\<And>j. j \<noteq> i \<Longrightarrow> apart n (nodes fs j)"
  shows "ramfs_inv fs'" "child fs' = child fs"
proof -
  have sl: "same_links (nodes fs j) (nodes fs' j)" for j
    using links fs' by (auto simp: same_links_def)
  show "child fs' = child fs" by (rule child_cong [OF sl])
  have root: "used (nodes fs' (root_index fs)) \<and> ntype (nodes fs' (root_index fs)) = RAMFS_NODE_DIR"
    using ramfs_invD(2,3) [OF inv] sl by (simp add: same_links_def)
  have ok': "node_ok (file_pool_used fs') (nodes fs' j)" for j
    using ramfs_invD(5) [OF inv, of j] ok fs' used(1)
    by (auto simp: node_ok_def)
  have ap: "apart (nodes fs' j) (nodes fs' k)" if "j \<noteq> k" for j k
    using ramfs_invD(7) [OF inv that] apart that fs' by (fastforce simp: apart_def)
  have ln: "links_ok fs' j" for j
    using links_cong [OF sl] fs'(2) ramfs_invD(6) [OF inv] by blast
  from root ok' ap ln used fs'(2) ramfs_invD(1) [OF inv] show "ramfs_inv fs'"
    by (simp add: ramfs_inv_def)
qed

section \<open>Adding a child\<close>

lemma find_first_unused:
  "find P [0..<n] = Some i \<Longrightarrow> P i \<and> i < n"
  by (auto simp: find_Some_iff)

definition new_node :: "nat \<Rightarrow> string \<Rightarrow> node_type \<Rightarrow> ramfs_node" where
  "new_node par nm ty = zero_node\<lparr>used := True, ntype := ty, parent := par, name := nm\<rparr>"

definition add_kid :: "ramfs \<Rightarrow> nat \<Rightarrow> nat \<Rightarrow> ramfs" where
  "add_kid fs par c = upd_node fs par
     (\<lambda>p. p\<lparr>children := (children p)[child_count p := c], child_count := child_count p + 1\<rparr>)"

lemma create_child_cases:
  assumes "length nm < VFS_MAX_NAME"
  obtains (full) e where "ramfs_create_child fs par nm ty = (Inl e, fs)"
      "RAMFS_MAX_CHILDREN \<le> child_count (nodes fs par) \<or> (\<forall>i<RAMFS_MAX_NODES. used (nodes fs i))"
  | (made) c where "c < RAMFS_MAX_NODES" "\<not> used (nodes fs c)" "child_count (nodes fs par) < RAMFS_MAX_CHILDREN"
      "ramfs_create_child fs par nm ty = (Inr c, add_kid (upd_node fs c (\<lambda>_. new_node par nm ty)) par c)"
proof (cases "find (\<lambda>i. \<not> used (nodes fs i)) [0..<RAMFS_MAX_NODES]")
  case None
  then have "\<forall>i<RAMFS_MAX_NODES. used (nodes fs i)" by (auto simp: find_None_iff)
  with None show ?thesis
    by (cases "RAMFS_MAX_CHILDREN \<le> child_count (nodes fs par)")
      (auto intro!: full simp: ramfs_create_child_def ramfs_alloc_node_def)
next
  case (Some c)
  from find_first_unused [OF this] have "c < RAMFS_MAX_NODES" "\<not> used (nodes fs c)" by auto
  note c = this
  show ?thesis
  proof (cases "RAMFS_MAX_CHILDREN \<le> child_count (nodes fs par)")
    case True
    then show ?thesis by (intro full [of "-1"]) (auto simp: ramfs_create_child_def)
  next
    case False
    with Some c assms show ?thesis
      by (intro made [of c])
        (simp_all add: ramfs_create_child_def ramfs_alloc_node_def add_kid_def new_node_def
          Let_def ramfs_copy_name_def zero_node_def)
  qed
qed

lemma kids_add_kid:
  assumes "length (children (nodes fs par)) = RAMFS_MAX_CHILDREN"
    and "child_count (nodes fs par) < RAMFS_MAX_CHILDREN"
  shows "kids (add_kid fs par c) i = (if i = par then kids fs par @ [c] else kids fs i)"
  using assms by (auto simp: kids_def add_kid_def take_Suc_conv_app_nth take_update_cancel)

text \<open>
  Linking a node \<open>c\<close> that no directory holds under \<open>par\<close>: the case of a new node,
  and of a detached one.
\<close>

lemma add_kid_inv:
  assumes inv: "ramfs_inv fs" and par: "used (nodes fs par)" "ntype (nodes fs par) = RAMFS_NODE_DIR"
    and c: "c < RAMFS_MAX_NODES" "used (nodes fs c)" "c \<noteq> root_index fs" "parent (nodes fs c) = par"
    and room: "child_count (nodes fs par) < RAMFS_MAX_CHILDREN"
    and free: "\<And>j m. child fs j m \<noteq> Some c" and new: "child fs par (name (nodes fs c)) = None"
  shows "ramfs_inv (add_kid fs par c)"
    and "child (add_kid fs par c) = link (child fs) par (name (nodes fs c)) (Some c)"
proof -
  define fs' where "fs' = add_kid fs par c"
  have node: "nodes fs' i = (if i = par then (nodes fs par)\<lparr>children := (children (nodes fs par))[child_count (nodes fs par) := c],
      child_count := child_count (nodes fs par) + 1\<rparr> else nodes fs i)" for i
    by (simp add: fs'_def add_kid_def)
  have rest: "root_index fs' = root_index fs" "file_pool_used fs' = file_pool_used fs"
    by (simp_all add: fs'_def add_kid_def)
  have len: "length (children (nodes fs par)) = RAMFS_MAX_CHILDREN"
    using ramfs_invD(5) [OF inv, of par] by (simp add: node_ok_def)
  note kid = kids_add_kid [OF len room, of c, folded fs'_def]
  have keep: "used (nodes fs' i) = used (nodes fs i)" "ntype (nodes fs' i) = ntype (nodes fs i)"
    "parent (nodes fs' i) = parent (nodes fs i)" "name (nodes fs' i) = name (nodes fs i)" for i
    by (simp_all add: node)
  have notin: "c \<notin> set (kids fs j)" for j
    using free [of j] child_iff [OF inv] by blast
  have other: "\<forall>d\<in>set (kids fs par). name (nodes fs d) \<noteq> name (nodes fs c)"
    using new child_iff [OF inv, of par "name (nodes fs c)"] by auto
  from other have names: "name (nodes fs c) \<notin> (\<lambda>d. name (nodes fs d)) ` set (kids fs par)"
    by force
  have links: "links_ok fs' i" for i
    using ramfs_invD(6) [OF inv, of i] par c names
    by (cases "i = par") (simp_all add: links_ok_def keep kid rest)
  show inv': "ramfs_inv (add_kid fs par c)"
    unfolding fs'_def [symmetric] ramfs_inv_def
  proof (intro conjI allI impI)
    fix i j :: nat
    show "node_ok (file_pool_used fs') (nodes fs' i)"
      using ramfs_invD(5) [OF inv, of i] room by (auto simp: node rest node_ok_def)
    assume "i \<noteq> j"
    have "apart (nodes fs' i) (nodes fs' j) = apart (nodes fs i) (nodes fs j)"
      unfolding apart_def node by simp
    with ramfs_invD(7) [OF inv \<open>i \<noteq> j\<close>] show "apart (nodes fs' i) (nodes fs' j)" by simp
  qed (use ramfs_invD(1-4) [OF inv] links in \<open>auto simp: rest keep\<close>)
  show "child (add_kid fs par c) = link (child fs) par (name (nodes fs c)) (Some c)"
  proof (intro ext)
    fix j m
    have "child fs' j m = Some d \<longleftrightarrow> link (child fs) par (name (nodes fs c)) (Some c) j m = Some d" for d
      using child_iff [OF inv'] child_iff [OF inv] other notin
      by (auto simp: fs'_def [symmetric] kid keep link_def)
    then show "child (add_kid fs par c) j m = link (child fs) par (name (nodes fs c)) (Some c) j m"
      unfolding fs'_def by (metis option.exhaust)
  qed
qed

text \<open>A node set up on an unused index is in no directory yet.\<close>

lemma fresh_node_inv:
  assumes inv: "ramfs_inv fs" and c: "\<not> used (nodes fs c)" and len: "length nm < VFS_MAX_NAME"
  shows "ramfs_inv (upd_node fs c (\<lambda>_. new_node par nm ty))"
    and "child (upd_node fs c (\<lambda>_. new_node par nm ty)) = child fs"
proof -
  define fs' where "fs' = upd_node fs c (\<lambda>_. new_node par nm ty)"
  have node: "nodes fs' i = (if i = c then new_node par nm ty else nodes fs i)" for i
    by (simp add: fs'_def)
  have rest: "root_index fs' = root_index fs" "file_pool_used fs' = file_pool_used fs"
    by (simp_all add: fs'_def)
  have k0: "kids fs c = []"
    using ramfs_invD(6) [OF inv, of c] c by (auto simp: links_ok_def)
  have kid: "kids fs' i = kids fs i" for i
    using k0 by (cases "i = c") (simp_all add: kids_def node new_node_def zero_node_def)
  have notin: "c \<notin> set (kids fs j)" for j
    using ramfs_invD(6) [OF inv, of j] c by (auto simp: links_ok_def)
  have same: "\<forall>d\<in>set (kids fs j). nodes fs' d = nodes fs d" for j
    using notin [of j] by (auto simp: node)
  have cr: "c \<noteq> root_index fs" using ramfs_invD(2) [OF inv] c by blast
  have links: "links_ok fs' i" for i
  proof -
    have eq: "map (\<lambda>d. name (nodes fs' d)) (kids fs i) = map (\<lambda>d. name (nodes fs d)) (kids fs i)"
      using same [of i] by simp
    have "distinct (map (\<lambda>d. name (nodes fs' d)) (kids fs i))"
      unfolding eq using ramfs_invD(6) [OF inv, of i] by (simp only: links_ok_def)
    then show ?thesis
      using ramfs_invD(6) [OF inv, of i] same [of i] k0 node [of i]
      unfolding links_ok_def kid rest by (cases "i = c") auto
  qed
  have ok: "node_ok (file_pool_used fs') (new_node par nm ty)"
    using len by (simp add: node_ok_def new_node_def zero_node_def RAMFS_MAX_CHILDREN_def VFS_MAX_NAME_def)
  show inv': "ramfs_inv (upd_node fs c (\<lambda>_. new_node par nm ty))"
    unfolding fs'_def [symmetric] ramfs_inv_def
  proof (intro conjI allI impI)
    fix i j :: nat
    show "node_ok (file_pool_used fs') (nodes fs' i)"
      using ramfs_invD(5) [OF inv, of i] ok by (auto simp: node rest)
    assume "i \<noteq> j"
    from ramfs_invD(7) [OF inv this] show "apart (nodes fs' i) (nodes fs' j)"
      by (auto simp: node apart_def new_node_def zero_node_def)
  qed (use ramfs_invD(1-4) [OF inv] links cr in \<open>auto simp: rest node\<close>)
  show "child (upd_node fs c (\<lambda>_. new_node par nm ty)) = child fs"
  proof (intro ext)
    fix j m
    have "child fs' j m = Some d \<longleftrightarrow> child fs j m = Some d" for d
      using child_iff [OF inv'] child_iff [OF inv] same [of j] notin [of j]
      by (auto simp: fs'_def [symmetric] kid)
    then show "child (upd_node fs c (\<lambda>_. new_node par nm ty)) j m = child fs j m"
      unfolding fs'_def by (metis option.exhaust)
  qed
qed


section \<open>Detaching a child\<close>

lemma shift_down_take:
  "i < n \<Longrightarrow> n \<le> length cs \<Longrightarrow>
     length (shift_down cs i n) = length cs
     \<and> take (n - 1) (shift_down cs i n) = take i cs @ drop (Suc i) (take n cs)"
proof (induction cs i n rule: shift_down.induct)
  case (1 cs i n)
  show ?case
  proof (cases "i + 1 < n")
    case True
    let ?cs = "cs[i := cs ! (i + 1)]"
    have IH: "length (shift_down ?cs (i + 1) n) = length cs
        \<and> take (n - 1) (shift_down ?cs (i + 1) n) = take (i + 1) ?cs @ drop (Suc (i + 1)) (take n ?cs)"
      using 1 True by simp
    have "take (i + 1) ?cs = take i cs @ [cs ! (i + 1)]"
      using 1 True by (simp add: take_Suc_conv_app_nth)
    moreover have "drop (Suc i) (take n cs) = cs ! (i + 1) # drop (Suc (i + 1)) (take n cs)"
      using 1 True by (subst Cons_nth_drop_Suc [symmetric]) simp_all
    moreover have "drop (Suc (i + 1)) (take n ?cs) = drop (Suc (i + 1)) (take n cs)"
      by (simp add: drop_take)
    moreover have "shift_down cs i n = shift_down ?cs (i + 1) n"
      using True by (subst shift_down.simps) simp
    ultimately show ?thesis using IH by simp
  next
    case False
    with 1 have "n = Suc i" by simp
    with False 1 show ?thesis by (subst (1 2) shift_down.simps) simp
  qed
qed

lemma remove_nth_distinct:
  assumes "distinct xs" "i < length xs"
  shows "set (take i xs @ drop (Suc i) xs) = set xs - {xs ! i}"
proof -
  have "xs = take i xs @ xs ! i # drop (Suc i) xs" using assms(2) by (simp add: id_take_nth_drop)
  then have "distinct (take i xs @ xs ! i # drop (Suc i) xs)"
    "set xs = set (take i xs @ xs ! i # drop (Suc i) xs)" using assms(1) by simp_all
  then show ?thesis by auto
qed

lemma distinct_map_remove_nth:
  assumes "distinct (map g xs)"
  shows "distinct (map g (take i xs @ drop (Suc i) xs))"
proof (cases "i < length xs")
  case True
  then have xs: "map g xs = map g (take i xs) @ g (xs ! i) # map g (drop (Suc i) xs)"
    by (metis id_take_nth_drop list.simps(9) map_append)
  from assms show ?thesis unfolding xs by simp
qed (use assms in simp)

text \<open>What detaching changes: the array and count of the parent.\<close>

lemma detach_child:
  assumes inv: "ramfs_inv fs" and c: "child fs par nm = Some c" and par: "par < RAMFS_MAX_NODES"
  obtains cs fs1 where "ramfs_detach_child fs par c = (0, fs1)"
    "fs1 = upd_node fs par (\<lambda>p. p\<lparr>children := cs, child_count := child_count p - 1\<rparr>)"
    "ramfs_inv fs1" "child fs1 = link (child fs) par nm None"
    "0 < child_count (nodes fs par)"
proof -
  define ks where "ks = kids fs par"
  let ?p = "nodes fs par"
  note cd = child_SomeD [OF inv c]
  have "find_index (\<lambda>d. d = c) ks \<noteq> None"
    using cd(1) by (auto simp: find_index_None_iff ks_def)
  then obtain idx where idx: "find_index (\<lambda>d. d = c) ks = Some idx" by auto
  from find_index_SomeD [OF this] have i: "idx < length ks" "ks ! idx = c" by auto
  define cs where "cs = shift_down (children ?p) idx (child_count ?p)"
  define fs1 where "fs1 = upd_node fs par (\<lambda>p. p\<lparr>children := cs, child_count := child_count p - 1\<rparr>)"
  have ok: "length (children ?p) = RAMFS_MAX_CHILDREN" "child_count ?p \<le> RAMFS_MAX_CHILDREN"
    using ramfs_invD(5) [OF inv, of par] by (auto simp: node_ok_def)
  then have lk: "length ks = child_count ?p" by (simp add: ks_def kids_def)
  from shift_down_take [of idx "child_count ?p" "children ?p"] i ok lk
  have cs: "length cs = RAMFS_MAX_CHILDREN" "take (child_count ?p - 1) cs = take idx ks @ drop (Suc idx) ks"
    by (simp_all add: cs_def ks_def kids_def min_def)
  have node: "nodes fs1 i = (if i = par then ?p\<lparr>children := cs, child_count := child_count ?p - 1\<rparr> else nodes fs i)" for i
    by (simp add: fs1_def)
  have rest: "root_index fs1 = root_index fs" "file_pool_used fs1 = file_pool_used fs"
    by (simp_all add: fs1_def)
  have keep: "used (nodes fs1 i) = used (nodes fs i)" "ntype (nodes fs1 i) = ntype (nodes fs i)"
    "parent (nodes fs1 i) = parent (nodes fs i)" "name (nodes fs1 i) = name (nodes fs i)" for i
    by (simp_all add: node)
  have kid: "kids fs1 i = (if i = par then take idx ks @ drop (Suc idx) ks else kids fs i)" for i
    using cs by (simp add: kids_def node)
  have dist: "distinct (map (\<lambda>d. name (nodes fs d)) ks)"
    using ramfs_invD(6) [OF inv, of par] by (simp add: links_ok_def ks_def)
  then have "distinct ks" by (simp add: distinct_map)
  from remove_nth_distinct [OF this i(1)] i(2)
  have setk: "set (kids fs1 par) = set (kids fs par) - {c}" by (simp add: kid ks_def)
  have setk': "set (kids fs1 i) \<subseteq> set (kids fs i)" for i
    using setk by (cases "i = par") (auto simp: kid)
  have links: "links_ok fs1 i" for i
  proof -
    have "distinct (map (\<lambda>d. name (nodes fs d)) (kids fs1 i))"
      using distinct_map_remove_nth [OF dist, of idx] ramfs_invD(6) [OF inv, of i]
      by (simp add: kid links_ok_def)
    moreover have "kids fs1 i \<noteq> [] \<Longrightarrow> kids fs i \<noteq> []" using setk' [of i] by auto
    ultimately show ?thesis
      using ramfs_invD(6) [OF inv, of i] setk' [of i] unfolding links_ok_def keep rest by blast
  qed
  have inv1: "ramfs_inv fs1" unfolding ramfs_inv_def
  proof (intro conjI allI impI)
    fix i j :: nat
    show "node_ok (file_pool_used fs1) (nodes fs1 i)"
      using ramfs_invD(5) [OF inv, of i] cs ok by (auto simp: node rest node_ok_def)
    assume "i \<noteq> j"
    have "apart (nodes fs1 i) (nodes fs1 j) = apart (nodes fs i) (nodes fs j)"
      unfolding apart_def node by simp
    with ramfs_invD(7) [OF inv \<open>i \<noteq> j\<close>] show "apart (nodes fs1 i) (nodes fs1 j)" by simp
  qed (use ramfs_invD(1-4) [OF inv] links in \<open>auto simp: rest keep\<close>)
  have "child fs1 = link (child fs) par nm None"
  proof (intro ext)
    fix j m
    have one: "d = c" if "d \<in> set (kids fs par)" "name (nodes fs d) = nm" for d
      using child_iff [OF inv, of par nm d] that c by simp
    have "child fs1 j m = Some d \<longleftrightarrow> link (child fs) par nm None j m = Some d" for d
      using child_iff [OF inv1, of j m d] child_iff [OF inv, of j m d] setk one [of d] cd(2)
      by (cases "j = par") (auto simp: keep kid link_def)
    then show "child fs1 j m = link (child fs) par nm None j m" by (metis option.exhaust)
  qed
  moreover have "ramfs_detach_child fs par c = (0, fs1)"
    using par idx by (simp add: ramfs_detach_child_def Let_def kids_def [symmetric] ks_def [symmetric] fs1_def cs_def)
  moreover have "0 < child_count ?p" using i lk by simp
  ultimately show ?thesis using that inv1 fs1_def by blast
qed

text \<open>Clearing a node that is in no directory and has no children.\<close>

lemma clear_node_inv:
  assumes inv: "ramfs_inv fs" and c: "c \<noteq> root_index fs" and free: "\<And>j m. child fs j m \<noteq> Some c"
    and leaf: "\<And>m. child fs c m = None"
  shows "ramfs_inv (upd_node fs c (\<lambda>_. zero_node))"
    and "child (upd_node fs c (\<lambda>_. zero_node)) = child fs"
proof -
  define fs' where "fs' = upd_node fs c (\<lambda>_. zero_node)"
  have node: "nodes fs' i = (if i = c then zero_node else nodes fs i)" for i by (simp add: fs'_def)
  have rest: "root_index fs' = root_index fs" "file_pool_used fs' = file_pool_used fs"
    by (simp_all add: fs'_def)
  have k0: "kids fs c = []"
    using leaf child_iff [OF inv, of c] by (cases "kids fs c") auto
  have kid: "kids fs' i = kids fs i" for i
    using k0 by (cases "i = c") (simp_all add: kids_def node zero_node_def)
  have notin: "c \<notin> set (kids fs j)" for j using free [of j] child_iff [OF inv] by blast
  have same: "\<forall>d\<in>set (kids fs j). nodes fs' d = nodes fs d" for j
    using notin [of j] by (auto simp: node)
  have links: "links_ok fs' i" for i
  proof -
    have eq: "map (\<lambda>d. name (nodes fs' d)) (kids fs i) = map (\<lambda>d. name (nodes fs d)) (kids fs i)"
      using same [of i] by simp
    have "distinct (map (\<lambda>d. name (nodes fs' d)) (kids fs i))"
      unfolding eq using ramfs_invD(6) [OF inv, of i] by (simp only: links_ok_def)
    then show ?thesis
      using ramfs_invD(6) [OF inv, of i] same [of i] k0 node [of i]
      unfolding links_ok_def kid rest by (cases "i = c") auto
  qed
  show inv': "ramfs_inv (upd_node fs c (\<lambda>_. zero_node))"
    unfolding fs'_def [symmetric] ramfs_inv_def
  proof (intro conjI allI impI)
    fix i j :: nat
    show "node_ok (file_pool_used fs') (nodes fs' i)"
      using ramfs_invD(5) [OF inv, of i]
      by (auto simp: node rest node_ok_def zero_node_def RAMFS_MAX_CHILDREN_def VFS_MAX_NAME_def)
    assume "i \<noteq> j"
    from ramfs_invD(7) [OF inv this] show "apart (nodes fs' i) (nodes fs' j)"
      by (auto simp: node apart_def zero_node_def)
  qed (use ramfs_invD(1-4) [OF inv] links c in \<open>auto simp: rest node\<close>)
  show "child (upd_node fs c (\<lambda>_. zero_node)) = child fs"
  proof (intro ext)
    fix j m
    have "child fs' j m = Some d \<longleftrightarrow> child fs j m = Some d" for d
      using child_iff [OF inv'] child_iff [OF inv] same [of j] notin [of j]
      by (auto simp: fs'_def [symmetric] kid)
    then show "child (upd_node fs c (\<lambda>_. zero_node)) j m = child fs j m"
      unfolding fs'_def by (metis option.exhaust)
  qed
qed

end
