(* ===== verification/Ramfs_Props.thy ===== *)
theory Ramfs_Props
  imports Ramfs_Tree
begin

text \<open>
  What the operations of the file system in memory do to the map from paths to contents:
  each is refined to an update of \<open>ramfs_view\<close>. A path is its list of names
  (\<open>path_tokens\<close>), so doubled slashes and the cutting of long names are accounted for.
\<close>

section \<open>Effects on the view\<close>

definition new_obj :: "node_type \<Rightarrow> fkind \<times> attr" where
  "new_obj ty = (if ty = RAMFS_NODE_DIR then Dir else File [], 0, 0, 0)"

lemma view_created:
  assumes inv: "ramfs_inv fs" and par: "lookup fs q = Some par" "ntype (nodes fs par) = RAMFS_NODE_DIR"
    and new: "child fs par nm = None" and len: "length nm < VFS_MAX_NAME"
    and mk: "ramfs_create_child fs par nm ty = (Inr c, fs')"
  shows "ramfs_inv fs'" "lookup fs' (q @ [nm]) = Some c" "nodes fs' c = new_node par nm ty"
    "root_index fs' = root_index fs" "file_pool_used fs' = file_pool_used fs"
    "ramfs_view fs' = (ramfs_view fs)(q @ [nm] \<mapsto> new_obj ty)"
proof -
  define fs1 where "fs1 = upd_node fs c (\<lambda>_. new_node par nm ty)"
  from mk obtain c': "c < RAMFS_MAX_NODES" "\<not> used (nodes fs c)"
    "child_count (nodes fs par) < RAMFS_MAX_CHILDREN" and fs': "fs' = add_kid fs1 par c"
    by (cases rule: create_child_cases [OF len, of fs par ty]) (auto simp: fs1_def)
  note unused = unused_no_child [OF inv c'(2)]
  have pc: "par \<noteq> c" using lookup_used(1) [OF inv par(1)] c'(2) by blast
  have cr: "c \<noteq> root_index fs" using ramfs_invD(2) [OF inv] c'(2) by blast
  from fresh_node_inv [OF inv c'(2) len, of par ty, folded fs1_def]
  have f1: "ramfs_inv fs1" "child fs1 = child fs" .
  have n1: "nodes fs1 c = new_node par nm ty" "nodes fs1 i = nodes fs i" if "i \<noteq> c" for i
    using that by (simp_all add: fs1_def)
  have r1: "root_index fs1 = root_index fs" "file_pool_used fs1 = file_pool_used fs" "file_pool fs1 = file_pool fs"
    by (simp_all add: fs1_def)
  have nc: "nodes fs1 c = new_node par nm ty" by (simp add: fs1_def)
  have "ramfs_inv fs' \<and> child fs' = link (child fs1) par (name (nodes fs1 c)) (Some c)"
    unfolding fs' by (rule conjI; rule add_kid_inv)
      (use f1 par lookup_used(1) [OF inv par(1)] c' cr pc unused new n1 nc in
        \<open>simp_all add: r1 new_node_def zero_node_def\<close>)
  then have f2: "ramfs_inv fs'" "child fs' = link (child fs) par nm (Some c)"
    using f1(2) by (simp_all add: nc new_node_def)
  from fs' have r2: "root_index fs' = root_index fs" "file_pool_used fs' = file_pool_used fs" "file_pool fs' = file_pool fs"
    by (simp_all add: add_kid_def r1)
  have look: "lookup fs' x = (if x = q @ [nm] then Some c else lookup fs x)" for x
    unfolding f2(2) r2(1)
    by (rule walk_add [OF tree_like_child [OF inv] par(1) new unused cr])
  show n2: "nodes fs' c = new_node par nm ty"
    using pc by (simp add: fs' add_kid_def nc)
  have obj: "node_obj (nodes fs' i) m = node_obj (nodes fs i) m" if "i \<noteq> c" for i m
    using that by (simp add: fs' add_kid_def fs1_def node_obj_def split: option.split)
  have nq: "lookup fs x \<noteq> Some c" for x
    using lookup_used(1) [OF inv] c'(2) by blast
  show "ramfs_view fs' = (ramfs_view fs)(q @ [nm] \<mapsto> new_obj ty)"
  proof
    fix x
    show "ramfs_view fs' x = ((ramfs_view fs)(q @ [nm] \<mapsto> new_obj ty)) x"
    proof (cases "x = q @ [nm]")
      case True
      have "node_obj (nodes fs' c) m = new_obj ty" for m
        by (simp add: n2 node_obj_def new_node_def zero_node_def new_obj_def)
      moreover have "lookup fs' (q @ [nm]) = Some c" unfolding look by simp
      ultimately show ?thesis unfolding True ramfs_view_def by (simp del: walk_snoc)
    next
      case False
      then show ?thesis
        using nq [of x] obj
        by (cases "lookup fs x") (simp_all add: ramfs_view_def look r2(3))
    qed
  qed
  show "lookup fs' (q @ [nm]) = Some c" unfolding look by simp
  show "ramfs_inv fs'" "root_index fs' = root_index fs" "file_pool_used fs' = file_pool_used fs"
    using f2(1) r2 by simp_all
qed

text \<open>Changing what a node says of its object, not the tree.\<close>

lemma view_updated:
  assumes inv: "ramfs_inv fs" and q: "lookup fs q = Some i"
    and same: "child fs' = child fs" "root_index fs' = root_index fs"
    and others: "\<And>j. j \<noteq> i \<Longrightarrow> node_obj (nodes fs' j) (file_pool fs') = node_obj (nodes fs j) (file_pool fs)"
  shows "ramfs_view fs' = (ramfs_view fs)(q \<mapsto> node_obj (nodes fs' i) (file_pool fs'))"
proof
  fix x
  show "ramfs_view fs' x = ((ramfs_view fs)(q \<mapsto> node_obj (nodes fs' i) (file_pool fs'))) x"
  proof (cases "lookup fs x")
    case None
    with q show ?thesis by (auto simp: ramfs_view_def same)
  next
    case (Some j)
    have "j = i \<longleftrightarrow> x = q" using walk_inj [OF tree_like_child [OF inv]] Some q by auto
    with Some others [of j] show ?thesis by (cases "x = q") (auto simp: ramfs_view_def same)
  qed
qed

definition mk_dirs :: "(string list \<Rightarrow> (fkind \<times> attr) option) \<Rightarrow> string list \<Rightarrow> string list \<Rightarrow> (fkind \<times> attr) option" where
  "mk_dirs V ts q = (if V q = None \<and> strict_prefix q ts then Some (Dir, 0, 0, 0) else V q)"

text \<open>Everything named stays as it was; at most directories of mode 0 on the way to \<open>ts\<close> are added.\<close>

definition only_dirs_added ::
  "string list \<Rightarrow> (string list \<Rightarrow> (fkind \<times> attr) option) \<Rightarrow> (string list \<Rightarrow> (fkind \<times> attr) option) \<Rightarrow> bool" where
  "only_dirs_added ts V V' \<longleftrightarrow>
     (\<forall>q. V' q = V q \<or> V q = None \<and> strict_prefix q ts \<and> V' q = Some (Dir, 0, 0, 0))"

lemma only_dirs_added_refl [simp]: "only_dirs_added ts V V"
  by (simp add: only_dirs_added_def)

lemma mk_dirs_exists:
  assumes "V [] \<noteq> None" "\<And>n x. V (x @ [n]) \<noteq> None \<Longrightarrow> V x \<noteq> None" "V q \<noteq> None"
  shows "strict_prefix x (q @ [t]) \<Longrightarrow> V x \<noteq> None"
  using assms(3)
proof (induction q arbitrary: t rule: rev_induct)
  case Nil
  then show ?case using assms(1) by (auto simp: strict_prefix_def prefix_Cons)
next
  case (snoc u q)
  show ?case
  proof (cases "x = q @ [u]")
    case False
    then have "strict_prefix x (q @ [u])"
      using snoc.prems(1) prefix_snoc [of x "q @ [u]" t] by (auto simp: strict_prefix_def)
    with snoc.IH [OF this] assms(2) snoc.prems(2) show ?thesis by blast
  qed (use snoc in simp)
qed

lemma view_parent:
  "ramfs_view fs (x @ [n]) \<noteq> None \<Longrightarrow> ramfs_view fs x \<noteq> None"
  by (auto simp: view_None_iff split: option.splits)

lemma mk_dirs_noop:
  assumes "ramfs_view fs q \<noteq> None"
  shows "mk_dirs (ramfs_view fs) (q @ [t]) = ramfs_view fs"
proof
  fix x
  have "ramfs_view fs [] \<noteq> None" by (simp add: view_None_iff)
  from mk_dirs_exists [of "ramfs_view fs", OF this view_parent assms]
  show "mk_dirs (ramfs_view fs) (q @ [t]) x = ramfs_view fs x"
    by (auto simp: mk_dirs_def)
qed

text \<open>Resolving a path while creating the directories on it.\<close>

lemma resolve_True_loop:
  assumes "ramfs_inv fs" "lookup fs q = Some cur" "ntype (nodes fs cur) = RAMFS_NODE_DIR"
    "length tok < VFS_MAX_NAME" "ts = tok # path_tokens p"
    "ramfs_resolve_loop fs True cur tok p = (r, out, fs')"
  shows "ramfs_inv fs' \<and> root_index fs' = root_index fs \<and> file_pool_used fs' = file_pool_used fs
     \<and> (case r of
          Inr c \<Rightarrow> fs' = fs \<and> lookup fs (q @ ts) = Some c
        | Inl e \<Rightarrow>
            if e = -2 then
              \<exists>i. out = Some (i, List.last ts) \<and> lookup fs' (q @ butlast ts) = Some i
                \<and> ntype (nodes fs' i) = RAMFS_NODE_DIR \<and> child fs' i (List.last ts) = None
                \<and> length (List.last ts) < VFS_MAX_NAME
                \<and> ramfs_view fs (q @ ts) = None
                \<and> ramfs_view fs' = mk_dirs (ramfs_view fs) (q @ ts)
            else ramfs_view fs (q @ ts) = None \<and> only_dirs_added (q @ ts) (ramfs_view fs) (ramfs_view fs'))"
  using assms
proof (induction p arbitrary: fs q cur tok ts rule: path_tokens.induct)
  case (1 p)
  note prems = "1.prems"
  show ?case
  proof (cases "ramfs_path_next p")
    case None
    have v: "ramfs_view fs q \<noteq> None" using prems(2) by (simp add: view_None_iff)
    have ts: "ts = [tok]" using prems(5) None by (simp add: path_tokens_None)
    have "(r, out, fs') = ((case child fs cur tok of Some k \<Rightarrow> Inr k | None \<Rightarrow> Inl (-2)),
        Some (cur, ramfs_copy_name tok), fs)"
      using prems(6) None by (subst (asm) ramfs_resolve_loop.simps) auto
    with prems ts mk_dirs_noop [OF v, of tok] show ?thesis
      by (cases "child fs cur tok") (auto simp: ramfs_copy_name_def view_None_iff)
  next
    case (Some x)
    then obtain t s where x: "ramfs_path_next p = Some (t, s)" by (cases x) auto
    have ts: "ts = tok # t # path_tokens s" using prems(5) path_tokens_Some [OF x] by simp
    have ts': "q @ ts = (q @ [tok]) @ t # path_tokens s"
      "q @ butlast ts = (q @ [tok]) @ butlast (t # path_tokens s)"
      "List.last ts = List.last (t # path_tokens s)" by (simp_all add: ts)
    note IH = "1.IH" [OF x refl _ _ _ path_next_Some(3) [OF x] refl]
    show ?thesis
    proof (cases "child fs cur tok")
      case c: (Some c)
      show ?thesis
      proof (cases "ntype (nodes fs c) = RAMFS_NODE_DIR")
        case True
        have "ramfs_resolve_loop fs True c t s = (r, out, fs')"
          using prems(6) x c True by (subst (asm) ramfs_resolve_loop.simps) simp
        moreover have "lookup fs (q @ [tok]) = Some c" using prems(2) c by simp
        ultimately show ?thesis
          using IH [OF prems(1) _ True, of "q @ [tok]"] unfolding ts' by blast
      next
        case False
        then have "(r, out, fs') = (Inl (-5), None, fs)"
          using prems(6) x c by (subst (asm) ramfs_resolve_loop.simps) simp
        moreover have "child fs c m = None" for m
          using child_SomeD(8) [OF prems(1), of c m] False by (cases "child fs c m") auto
        ultimately show ?thesis
          using prems(1,2) c by (simp add: ts view_None_iff walk_append)
      qed
    next
      case c: None
      show ?thesis
      proof (rule create_child_cases [OF prems(4), of fs cur RAMFS_NODE_DIR])
        fix e
        assume "ramfs_create_child fs cur tok RAMFS_NODE_DIR = (Inl e, fs)"
        then have "(r, out, fs') = (Inl (-4), None, fs)"
          using prems(6) x c by (subst (asm) ramfs_resolve_loop.simps) simp
        then show ?thesis using prems(1,2) c by (simp add: ts view_None_iff walk_append)
      next
        fix d
        define fs1 where "fs1 = add_kid (upd_node fs d (\<lambda>_. new_node cur tok RAMFS_NODE_DIR)) cur d"
        assume "ramfs_create_child fs cur tok RAMFS_NODE_DIR
          = (Inr d, add_kid (upd_node fs d (\<lambda>_. new_node cur tok RAMFS_NODE_DIR)) cur d)"
        then have mk: "ramfs_create_child fs cur tok RAMFS_NODE_DIR = (Inr d, fs1)"
          by (simp add: fs1_def)
        note v = view_created [OF prems(1,2,3) c prems(4) mk]
        have dir: "ntype (nodes fs1 d) = RAMFS_NODE_DIR" by (simp add: v(3) new_node_def)
        have "ramfs_resolve_loop fs1 True d t s = (r, out, fs')"
          using prems(6) x c mk dir by (subst (asm) ramfs_resolve_loop.simps) simp
        note I = IH [OF v(1,2) dir this]
        have none: "ramfs_view fs (q @ [tok]) = None" using prems(2) c by (simp add: view_None_iff)
        have deep: "ramfs_view fs ((q @ [tok]) @ t # path_tokens s) = None"
          using none by (simp add: view_None_iff walk_append split: option.splits)
        have lone: "lookup fs1 ((q @ [tok]) @ t # path_tokens s) = Some k \<Longrightarrow> False" for k
        proof -
          assume "lookup fs1 ((q @ [tok]) @ t # path_tokens s) = Some k"
          then have "ramfs_view fs1 ((q @ [tok]) @ t # path_tokens s) \<noteq> None" by (simp add: view_None_iff)
          with deep show False unfolding v(6) by (auto split: if_splits)
        qed
        have mkd: "mk_dirs (ramfs_view fs1) (q @ ts) = mk_dirs (ramfs_view fs) (q @ ts)"
          using none by (auto simp: mk_dirs_def v(6) new_obj_def fun_eq_iff ts strict_prefix_def)
        have oda: "only_dirs_added (q @ ts) (ramfs_view fs) V" if "only_dirs_added (q @ ts) (ramfs_view fs1) V" for V
          unfolding only_dirs_added_def
        proof
          fix x
          from that have "V x = ramfs_view fs1 x \<or> ramfs_view fs1 x = None \<and> strict_prefix x (q @ ts) \<and> V x = Some (Dir, 0, 0, 0)"
            by (simp add: only_dirs_added_def)
          moreover have "strict_prefix (q @ [tok]) (q @ ts)" by (simp add: ts strict_prefix_def)
          ultimately show "V x = ramfs_view fs x \<or> ramfs_view fs x = None \<and> strict_prefix x (q @ ts) \<and> V x = Some (Dir, 0, 0, 0)"
            using none by (auto simp: v(6) new_obj_def split: if_splits)
        qed
        from I v(4,5) lone deep mkd oda show ?thesis
          unfolding ts' by (cases r) (auto simp: ts' [symmetric] split: if_splits)
      qed
    qed
  qed
qed


lemma resolve_True:
  assumes inv: "ramfs_inv fs" and r: "ramfs_resolve fs p True = (r, out, fs')"
  shows "ramfs_inv fs' \<and> root_index fs' = root_index fs \<and> file_pool_used fs' = file_pool_used fs
     \<and> (case r of
          Inr c \<Rightarrow> fs' = fs \<and> abs_path p \<and> lookup fs (path_tokens p) = Some c
        | Inl e \<Rightarrow>
            if e = -2 then
              \<exists>i. out = Some (i, List.last (path_tokens p)) \<and> abs_path p \<and> path_tokens p \<noteq> []
                \<and> lookup fs' (butlast (path_tokens p)) = Some i
                \<and> ntype (nodes fs' i) = RAMFS_NODE_DIR \<and> child fs' i (List.last (path_tokens p)) = None
                \<and> length (List.last (path_tokens p)) < VFS_MAX_NAME
                \<and> ramfs_view fs (path_tokens p) = None
                \<and> ramfs_view fs' = mk_dirs (ramfs_view fs) (path_tokens p)
            else (abs_path p \<longrightarrow> ramfs_view fs (path_tokens p) = None)
              \<and> (\<not> abs_path p \<longrightarrow> fs' = fs)
              \<and> only_dirs_added (path_tokens p) (ramfs_view fs) (ramfs_view fs'))"
proof (cases "abs_path p")
  case False
  with r inv show ?thesis by (auto simp: ramfs_resolve_def abs_path_def)
next
  case ab: True
  show ?thesis
  proof (cases "ramfs_path_next p")
    case None
    with resolve_root [OF ab path_tokens_None [OF None], of fs True] r inv ab show ?thesis
      by (simp add: path_tokens_None)
  next
    case (Some x)
    then obtain t s where x: "ramfs_path_next p = Some (t, s)" by (cases x) auto
    with ab r have "ramfs_resolve_loop fs True (root_index fs) t s = (r, out, fs')"
      by (auto simp: ramfs_resolve_def abs_path_def)
    note L = resolve_True_loop [OF inv _ ramfs_invD(3) [OF inv] path_next_Some(3) [OF x]
        path_tokens_Some [OF x] this, of "[]"]
    have "path_tokens p \<noteq> []" by (simp add: path_tokens_Some [OF x])
    with L ab show ?thesis unfolding append_Nil by (cases r) (auto split: if_splits)
  qed
qed

lemma pool_read_write_same: "pool_read (pool_write m a bs) a (length bs) = bs"
  by (rule nth_equalityI) (simp_all add: pool_read_def pool_write_def)

lemma pool_read_write_other:
  "b + n \<le> a \<or> a + length bs \<le> b \<Longrightarrow> pool_read (pool_write m a bs) b n = pool_read m b n"
  by (auto simp: pool_read_def pool_write_def)

text \<open>Storing bytes in a file node: at a place of the pool that no other file uses.\<close>

lemma store_at:
  assumes inv: "ramfs_inv fs" and q: "lookup fs q = Some i" and ty: "ntype (nodes fs i) = RAMFS_NODE_FILE"
    and nd: "data = None \<longleftrightarrow> bytes = []"
    and fits: "\<And>dst. data = Some dst \<Longrightarrow> dst + length bytes \<le> used'"
    and used': "file_pool_used fs \<le> used'" "used' \<le> RAMFS_MAX_FILE_BYTES"
    and gap: "\<And>j d dst. j \<noteq> i \<Longrightarrow> ndata (nodes fs j) = Some d \<Longrightarrow> data = Some dst \<Longrightarrow>
      d + capacity (nodes fs j) \<le> dst \<or> dst + length bytes \<le> d"
    and fs': "nodes fs' = (nodes fs)(i := (nodes fs i)\<lparr>ndata := data, nsize := length bytes, capacity := length bytes\<rparr>)"
      "file_pool fs' = (case data of None \<Rightarrow> file_pool fs | Some dst \<Rightarrow> pool_write (file_pool fs) dst bytes)"
      "file_pool_used fs' = used'" "root_index fs' = root_index fs"
  shows "ramfs_inv fs'"
    and "ramfs_view fs' = (ramfs_view fs)(q \<mapsto> (File bytes, mode (nodes fs i), uid (nodes fs i), gid (nodes fs i)))"
proof -
  define n where "n = (nodes fs i)\<lparr>ndata := data, nsize := length bytes, capacity := length bytes\<rparr>"
  have n: "nodes fs' = (nodes fs)(i := n)" by (simp add: fs' n_def)
  note ok = ramfs_invD(5) [OF inv]
  have "same_links (nodes fs i) n" by (simp add: same_links_def n_def)
  moreover have "node_ok (file_pool_used fs') n"
    using ok [of i] fits nd ty lookup_used(1) [OF inv q] by (auto simp: fs' node_ok_def n_def)
  moreover have "apart n (nodes fs j)" if "j \<noteq> i" for j
    using gap [OF that] by (auto simp: apart_def n_def)
  ultimately have I: "ramfs_inv fs'" "child fs' = child fs"
    using ramfs_inv_data [OF inv _ n] used' by (simp_all add: fs')
  have "node_obj (nodes fs' j) (file_pool fs') = node_obj (nodes fs j) (file_pool fs)" if "j \<noteq> i" for j
  proof (cases "ndata (nodes fs j)")
    case (Some d)
    have "nsize (nodes fs j) = capacity (nodes fs j)" using ok [of j] by (simp add: node_ok_def)
    then have "pool_read (file_pool fs') d (nsize (nodes fs j)) = pool_read (file_pool fs) d (nsize (nodes fs j))"
      using gap [OF that Some] by (auto simp: fs' pool_read_write_other split: option.split)
    with that Some show ?thesis by (simp add: n node_obj_def)
  qed (use that in \<open>simp add: n node_obj_def\<close>)
  from view_updated [OF inv q I(2) fs'(4) this]
  have "ramfs_view fs' = (ramfs_view fs)(q \<mapsto> node_obj (nodes fs' i) (file_pool fs'))" .
  moreover have "node_obj (nodes fs' i) (file_pool fs')
      = (File bytes, mode (nodes fs i), uid (nodes fs i), gid (nodes fs i))"
    using ty nd by (cases data) (simp_all add: n node_obj_def n_def fs' pool_read_write_same)
  ultimately show "ramfs_view fs' = (ramfs_view fs)(q \<mapsto> (File bytes, mode (nodes fs i), uid (nodes fs i), gid (nodes fs i)))"
    by simp
  show "ramfs_inv fs'" by (rule I)
qed

lemma store_correct:
  assumes inv: "ramfs_inv fs" and q: "lookup fs q = Some i" and v: "ramfs_view fs q = Some (k, a)"
    and len: "length bytes < 2 ^ 63" and st: "ramfs_store fs i bytes = (rc, fs')"
  shows "ramfs_inv fs' \<and> (rc = 0 \<longrightarrow> k \<noteq> Dir \<and> ramfs_view fs' = (ramfs_view fs)(q \<mapsto> (File bytes, a)))
     \<and> (rc \<noteq> 0 \<longrightarrow> fs' = fs)
     \<and> (k \<noteq> Dir \<longrightarrow> (length bytes \<le> nsize (nodes fs i)
          \<or> file_pool_used fs + length bytes \<le> RAMFS_MAX_FILE_BYTES) \<longrightarrow> rc = 0)
     \<and> (rc \<noteq> 0 \<longrightarrow> rc = (if k = Dir then -3 else -4))"
proof -
  let ?n = "nodes fs i"
  have kind: "k = Dir \<longleftrightarrow> ntype ?n = RAMFS_NODE_DIR" and a: "a = (mode ?n, uid ?n, gid ?n)"
    using q v by (auto simp: ramfs_view_def node_obj_def split: if_splits)
  note ok = ramfs_invD(5) [OF inv, of i]
  have size: "nsize ?n = capacity ?n" using ok by (simp add: node_ok_def)
  note upool = ramfs_invD(4) [OF inv]
  have modl: "(file_pool_used fs + length bytes) mod 2 ^ 64 = file_pool_used fs + length bytes"
    using upool len by (simp add: RAMFS_MAX_FILE_BYTES_def)
  consider (dir) "ntype ?n \<noteq> RAMFS_NODE_FILE" | (clear) "ntype ?n = RAMFS_NODE_FILE" "bytes = []"
    | (old) dst where "ntype ?n = RAMFS_NODE_FILE" "bytes \<noteq> []" "length bytes \<le> capacity ?n" "ndata ?n = Some dst"
    | (new) "ntype ?n = RAMFS_NODE_FILE" "bytes \<noteq> []" "\<not> length bytes \<le> capacity ?n"
        "file_pool_used fs + length bytes \<le> RAMFS_MAX_FILE_BYTES"
    | (full) "ntype ?n = RAMFS_NODE_FILE" "bytes \<noteq> []" "\<not> length bytes \<le> capacity ?n"
        "\<not> file_pool_used fs + length bytes \<le> RAMFS_MAX_FILE_BYTES"
    using ok by (cases "ndata ?n") (auto simp: node_ok_def)
  then show ?thesis
  proof cases
    case dir
    then have "ntype ?n = RAMFS_NODE_DIR" by (cases "ntype ?n") auto
    with dir st inv kind show ?thesis by (simp add: ramfs_store_def Let_def)
  next
    case clear
    have f: "rc = 0" "fs' = upd_node fs i (\<lambda>n. n\<lparr>ndata := None, nsize := length bytes, capacity := length bytes\<rparr>)"
      using st clear by (simp_all add: ramfs_store_def Let_def)
    have "ramfs_inv fs' \<and> ramfs_view fs' = (ramfs_view fs)(q \<mapsto> (File bytes, a))"
      unfolding a using store_at [OF inv q clear(1), of None bytes "file_pool_used fs" fs'] clear upool
      by (simp add: f)
    with f kind clear show ?thesis by simp
  next
    case (old dst)
    have f: "rc = 0" "fs' = upd_node (fs\<lparr>file_pool := pool_write (file_pool fs) dst bytes\<rparr>) i
        (\<lambda>n. n\<lparr>ndata := Some dst, nsize := length bytes, capacity := length bytes\<rparr>)"
      using st old by (simp_all add: ramfs_store_def Let_def)
    have g: "d + capacity (nodes fs j) \<le> dst \<or> dst + length bytes \<le> d"
      if "j \<noteq> i" "ndata (nodes fs j) = Some d" for j d
      using ramfs_invD(7) [OF inv that(1)] that(2) old by (force simp: apart_def)
    have "dst + capacity ?n \<le> file_pool_used fs" using ok old by (simp add: node_ok_def)
    with old have fit: "dst + length bytes \<le> file_pool_used fs" by simp
    have "ramfs_inv fs' \<and> ramfs_view fs' = (ramfs_view fs)(q \<mapsto> (File bytes, a))"
      unfolding a
      by (intro conjI; rule store_at [OF inv q old(1), of "Some dst" bytes "file_pool_used fs"])
        (use old fit upool g in \<open>simp_all add: f\<close>)
    with f kind old show ?thesis by simp
  next
    case new
    have f: "rc = 0" "fs' = upd_node (fs\<lparr>file_pool_used := file_pool_used fs + length bytes,
          file_pool := pool_write (file_pool fs) (file_pool_used fs) bytes\<rparr>) i
        (\<lambda>n. n\<lparr>ndata := Some (file_pool_used fs), nsize := length bytes, capacity := length bytes\<rparr>)"
      using st new modl by (simp_all add: ramfs_store_def Let_def ramfs_alloc_bytes_def)
    have g: "d + capacity (nodes fs j) \<le> file_pool_used fs" if "ndata (nodes fs j) = Some d" for j d
      using ramfs_invD(5) [OF inv, of j] that by (simp add: node_ok_def)
    have "ramfs_inv fs' \<and> ramfs_view fs' = (ramfs_view fs)(q \<mapsto> (File bytes, a))"
      unfolding a
      by (intro conjI; rule store_at [OF inv q new(1), of "Some (file_pool_used fs)" bytes
            "file_pool_used fs + length bytes"])
        (use new g in \<open>simp_all add: f\<close>)
    with f kind new show ?thesis by simp
  next
    case full
    then have "rc = -4 \<and> fs' = fs"
      using st modl by (auto simp: ramfs_store_def Let_def ramfs_alloc_bytes_def)
    with full inv size kind show ?thesis by simp
  qed
qed


lemma oda_keeps: "only_dirs_added ts V V' \<Longrightarrow> V q = Some x \<Longrightarrow> V' q = Some x"
  by (auto simp: only_dirs_added_def dest: spec [of _ q])

lemma mk_dirs_keeps: "V q = Some x \<Longrightarrow> mk_dirs V ts q = Some x"
  by (simp add: mk_dirs_def)

text \<open>A new node that has been given its mode and owner.\<close>

lemma create_with_mode:
  assumes inv: "ramfs_inv fs" and q: "lookup fs q = Some par" "ntype (nodes fs par) = RAMFS_NODE_DIR"
    and new: "child fs par nm = None" and len: "length nm < VFS_MAX_NAME"
    and mk: "ramfs_create_child fs par nm ty = (Inr c, fs1)"
    and fs2: "fs2 = upd_node fs1 c (\<lambda>n. n\<lparr>mode := md, uid := u\<rparr>)"
  shows "ramfs_inv fs2" "lookup fs2 (q @ [nm]) = Some c"
    "ramfs_view fs2 = (ramfs_view fs)(q @ [nm] \<mapsto> (fst (new_obj ty), md, u, 0))"
proof -
  note v = view_created [OF inv q new len mk]
  define n where "n = (nodes fs1 c)\<lparr>mode := md, uid := u\<rparr>"
  have "same_links (nodes fs1 c) n" by (simp add: same_links_def n_def)
  moreover have "node_ok (file_pool_used fs1) n"
    using ramfs_invD(5) [OF v(1), of c] by (auto simp: node_ok_def n_def)
  moreover have "apart n (nodes fs1 j)" if "j \<noteq> c" for j
    using ramfs_invD(7) [OF v(1), of c j] that by (simp add: apart_def n_def)
  ultimately have I: "ramfs_inv fs2" "child fs2 = child fs1"
    using ramfs_inv_data [OF v(1), of c n fs2] ramfs_invD(4) [OF v(1)] by (simp_all add: fs2 n_def)
  have "ramfs_view fs2 = (ramfs_view fs1)(q @ [nm] \<mapsto> node_obj (nodes fs2 c) (file_pool fs2))"
    by (rule view_updated [OF v(1,2) I(2)]) (simp_all add: fs2)
  moreover have "node_obj (nodes fs2 c) (file_pool fs2) = (fst (new_obj ty), md, u, 0)"
    by (simp add: fs2 v(3) new_node_def zero_node_def node_obj_def new_obj_def)
  ultimately show "ramfs_view fs2 = (ramfs_view fs)(q @ [nm] \<mapsto> (fst (new_obj ty), md, u, 0))"
    by (simp add: v(6))
  have "root_index fs2 = root_index fs1" by (simp add: fs2)
  then show "lookup fs2 (q @ [nm]) = Some c" using v(2) unfolding I(2) by simp
  show "ramfs_inv fs2" by (rule I)
qed

lemma snoc_butlast: "ts \<noteq> [] \<Longrightarrow> butlast ts @ [List.last ts] = ts"
  by (rule append_butlast_last_id)

section \<open>The operations\<close>

text \<open>
  What a failing \<open>create_file\<close> answers and leaves behind. A path that names a directory, and a
  file that has no room for the bytes, stay as they were. A new path may leave the directories on
  the way behind, and, when only the bytes have no room, the new file without contents.
\<close>

definition create_refused :: "u32 \<Rightarrow> ramfs \<Rightarrow> string \<Rightarrow> u16 \<Rightarrow> u8 list \<Rightarrow> int \<Rightarrow> ramfs \<Rightarrow> bool" where
  "create_refused u fs path md bytes rc fs' \<longleftrightarrow>
     (let V = ramfs_view fs; ts = path_tokens path;
          full = RAMFS_MAX_FILE_BYTES < file_pool_used fs + length bytes
      in if \<not> abs_path path then rc = -2 \<and> fs' = fs
         else case V ts of
           Some (Dir, _) \<Rightarrow> rc = -3 \<and> fs' = fs
         | Some (File old, _) \<Rightarrow> rc = -4 \<and> fs' = fs \<and> length old < length bytes \<and> full
         | None \<Rightarrow> rc = -2 \<and> only_dirs_added ts V (ramfs_view fs')
             \<or> rc = -1 \<and> ramfs_view fs' = mk_dirs V ts
             \<or> rc = -4 \<and> full \<and> ramfs_view fs' = (mk_dirs V ts)
                 (ts \<mapsto> (File [], if md = 0 then RAMFS_DEFAULT_FILE_MODE else md, u, 0)))"

lemma create_file_spec:
  assumes inv: "ramfs_inv fs" and len: "length bytes < 2 ^ 63"
    and op: "ramfs_op_create_file u fs path md bytes = (rc, fs')"
  shows "ramfs_inv fs'
     \<and> (rc = 0 \<longrightarrow> abs_path path \<and>
         (case ramfs_view fs (path_tokens path) of
            None \<Rightarrow> ramfs_view fs' = (mk_dirs (ramfs_view fs) (path_tokens path))
              (path_tokens path \<mapsto> (File bytes, if md = 0 then RAMFS_DEFAULT_FILE_MODE else md, u, 0))
          | Some (File old, a) \<Rightarrow> ramfs_view fs' = (ramfs_view fs)(path_tokens path \<mapsto> (File bytes, a))
          | Some (Dir, _) \<Rightarrow> False))
     \<and> (rc \<noteq> 0 \<longrightarrow> (\<forall>q x. ramfs_view fs q = Some x \<longrightarrow> ramfs_view fs' q = Some x))
     \<and> (\<forall>old a. abs_path path \<longrightarrow> ramfs_view fs (path_tokens path) = Some (File old, a) \<longrightarrow>
          length bytes \<le> length old \<or> file_pool_used fs + length bytes \<le> RAMFS_MAX_FILE_BYTES \<longrightarrow> rc = 0)
     \<and> (rc \<noteq> 0 \<longrightarrow> create_refused u fs path md bytes rc fs')"
proof -
  let ?ts = "path_tokens path"
  obtain r out fs1 where r: "ramfs_resolve fs path True = (r, out, fs1)"
    by (cases "ramfs_resolve fs path True") auto
  note R = resolve_True [OF inv r]
  show ?thesis
  proof (cases r)
    case (Inr c)
    with R have f: "fs1 = fs" "abs_path path" "lookup fs ?ts = Some c" by auto
    then obtain k a where v: "ramfs_view fs ?ts = Some (k, a)" by (cases "node_obj (nodes fs c) (file_pool fs)") (auto simp: ramfs_view_def)
    have st: "ramfs_store fs c bytes = (rc, fs')" using op r Inr f by (simp add: ramfs_op_create_file_def)
    have old: "length old \<le> nsize (nodes fs c)" if "k = File old" for old
      using f(3) v that by (auto simp: ramfs_view_def node_obj_def pool_read_def split: if_splits option.splits)
    have new: "nsize (nodes fs c) \<le> length old" if "k = File old" for old
      using ramfs_invD(5) [OF inv, of c] f(3) v that
      by (auto simp: ramfs_view_def node_obj_def pool_read_def node_ok_def split: if_splits option.splits)
    from store_correct [OF inv f(3) v len st] f(2) v old new show ?thesis
      by (cases k) (auto simp: create_refused_def)
  next
    case (Inl e)
    show ?thesis
    proof (cases "e = -2")
      case False
      with R Inl have "ramfs_inv fs1" "only_dirs_added ?ts (ramfs_view fs) (ramfs_view fs1)"
        "abs_path path \<Longrightarrow> ramfs_view fs ?ts = None" "\<not> abs_path path \<Longrightarrow> fs1 = fs" by auto
      moreover have "rc = -2" "fs' = fs1" using op r Inl False by (simp_all add: ramfs_op_create_file_def)
      moreover have "abs_path path \<Longrightarrow> ramfs_view fs ?ts = Some x \<Longrightarrow> False" for x
        using R Inl False by auto
      ultimately show ?thesis
        using oda_keeps [of ?ts "ramfs_view fs" "ramfs_view fs1"] by (auto simp: create_refused_def)
    next
      case True
      with R Inl obtain i where i: "out = Some (i, List.last ?ts)" "abs_path path" "?ts \<noteq> []"
        "lookup fs1 (butlast ?ts) = Some i" "ntype (nodes fs1 i) = RAMFS_NODE_DIR"
        "child fs1 i (List.last ?ts) = None" "length (List.last ?ts) < VFS_MAX_NAME"
        "ramfs_view fs ?ts = None" "ramfs_view fs1 = mk_dirs (ramfs_view fs) ?ts"
        and inv1: "ramfs_inv fs1" by auto
      show ?thesis
      proof (cases "ramfs_create_child fs1 i (List.last ?ts) RAMFS_NODE_FILE")
        case (Pair r2 fs2)
        show ?thesis
        proof (cases r2)
          case (Inl e2)
          have "fs2 = fs1"
            using Pair Inl by (cases rule: create_child_cases [OF i(7), of fs1 i RAMFS_NODE_FILE]) auto
          then have "rc = -1" "fs' = fs1"
            using op r \<open>r = Inl e\<close> True i Pair Inl by (simp_all add: ramfs_op_create_file_def)
          with i inv1 mk_dirs_keeps show ?thesis by (auto simp: create_refused_def)
        next
          case (Inr c)
          define fs3 where "fs3 = upd_node fs2 c
            (\<lambda>n. n\<lparr>mode := if md \<noteq> 0 then md else RAMFS_DEFAULT_FILE_MODE, uid := u\<rparr>)"
          note C = create_with_mode [OF inv1 i(4,5,6,7) Pair [unfolded Inr] fs3_def]
          have st: "ramfs_store fs3 c bytes = (rc, fs')"
            using op r \<open>r = Inl e\<close> True i Pair Inr by (simp add: ramfs_op_create_file_def fs3_def)
          have v: "ramfs_view fs3 ?ts = Some (File [], if md \<noteq> 0 then md else RAMFS_DEFAULT_FILE_MODE, u, 0)"
            using C(3) snoc_butlast [OF i(3)] by (simp add: new_obj_def)
          from store_correct [OF C(1) _ v len st] C(2) snoc_butlast [OF i(3)]
          have S: "ramfs_inv fs'" "rc = 0 \<Longrightarrow> ramfs_view fs' = (ramfs_view fs3)(?ts \<mapsto>
              (File bytes, if md \<noteq> 0 then md else RAMFS_DEFAULT_FILE_MODE, u, 0))" "rc \<noteq> 0 \<Longrightarrow> fs' = fs3"
            "rc \<noteq> 0 \<Longrightarrow> rc = -4 \<and> RAMFS_MAX_FILE_BYTES < file_pool_used fs3 + length bytes" by auto
          have "file_pool_used fs2 = file_pool_used fs1"
            using Pair Inr by (cases rule: create_child_cases [OF i(7), of fs1 i RAMFS_NODE_FILE]) (auto simp: add_kid_def)
          then have pu: "file_pool_used fs3 = file_pool_used fs" using R by (simp add: fs3_def)
          have fs3: "ramfs_view fs3 = (mk_dirs (ramfs_view fs) ?ts)(?ts \<mapsto> (File [], if md \<noteq> 0 then md else RAMFS_DEFAULT_FILE_MODE, u, 0))"
            using C(3) snoc_butlast [OF i(3)] i(9) by (simp add: new_obj_def)
          have "rc \<noteq> 0 \<longrightarrow> create_refused u fs path md bytes rc fs'"
            using S(3,4) fs3 pu i(2,8) by (auto simp: create_refused_def Let_def)
          moreover have "\<forall>q x. rc \<noteq> 0 \<longrightarrow> ramfs_view fs q = Some x \<longrightarrow> ramfs_view fs' q = Some x"
            using S(3) fs3 i(8) by (auto simp: mk_dirs_keeps)
          ultimately show ?thesis using S(1,2) fs3 i(2,8) by simp
        qed
      qed
    qed
  qed
qed


section \<open>Removing\<close>

lemma child_count_0_iff:
  assumes inv: "ramfs_inv fs"
  shows "child_count (nodes fs i) = 0 \<longleftrightarrow> (\<forall>n. child fs i n = None)"
proof
  assume "child_count (nodes fs i) = 0"
  then have "kids fs i = []" by (simp add: kids_def)
  then have "child fs i n \<noteq> Some c" for n c using child_iff [OF inv, of i n c] by simp
  then show "\<forall>n. child fs i n = None" by (meson option.exhaust)
next
  assume none: "\<forall>n. child fs i n = None"
  have "kids fs i = []"
  proof (rule ccontr)
    assume "kids fs i \<noteq> []"
    then obtain c where "c \<in> set (kids fs i)" by (cases "kids fs i") auto
    then have "child fs i (name (nodes fs c)) = Some c" by (simp add: child_iff [OF inv])
    with none show False by simp
  qed
  moreover have "length (children (nodes fs i)) = RAMFS_MAX_CHILDREN" "child_count (nodes fs i) \<le> RAMFS_MAX_CHILDREN"
    using ramfs_invD(5) [OF inv, of i] by (auto simp: node_ok_def)
  ultimately show "child_count (nodes fs i) = 0"
    by (cases "children (nodes fs i)") (auto simp: kids_def RAMFS_MAX_CHILDREN_def)
qed

definition removable :: "(string list \<Rightarrow> (fkind \<times> attr) option) \<Rightarrow> string list \<Rightarrow> bool" where
  "removable V ts \<longleftrightarrow>
     ts \<noteq> [] \<and> (case V ts of None \<Rightarrow> False
                | Some (File _, _) \<Rightarrow> True
                | Some (Dir, _) \<Rightarrow> (\<forall>n. V (ts @ [n]) = None))"

lemma removable_iff:
  assumes inv: "ramfs_inv fs" and q: "lookup fs q = Some c" "q \<noteq> []"
  shows "removable (ramfs_view fs) q \<longleftrightarrow> (ntype (nodes fs c) = RAMFS_NODE_DIR \<longrightarrow> child_count (nodes fs c) = 0)"
  using q by (auto simp: removable_def ramfs_view_def node_obj_def child_count_0_iff [OF inv])

lemma file_no_child:
  assumes "ramfs_inv fs" "ntype (nodes fs c) \<noteq> RAMFS_NODE_DIR"
  shows "child fs c m = None"
  using child_SomeD(8) [OF assms(1), of c m] assms(2) by (cases "child fs c m") auto

lemma remove_spec:
  assumes inv: "ramfs_inv fs" and op: "ramfs_op_remove fs path = (rc, fs')"
  shows "ramfs_inv fs'
     \<and> (rc = 0 \<longleftrightarrow> abs_path path \<and> removable (ramfs_view fs) (path_tokens path))
     \<and> (rc = 0 \<longrightarrow> ramfs_view fs' = (ramfs_view fs)(path_tokens path := None))
     \<and> (rc \<noteq> 0 \<longrightarrow> fs' = fs)"
proof -
  let ?ts = "path_tokens path"
  have no_path: "removable (ramfs_view fs) ?ts \<Longrightarrow> lookup fs ?ts \<noteq> None"
    by (auto simp: removable_def ramfs_view_def split: option.splits)
  show ?thesis
  proof (rule resolve_False_cases [OF inv, of path])
    fix c i
    assume p: "abs_path path" "lookup fs ?ts = Some c" "?ts \<noteq> []" "lookup fs (butlast ?ts) = Some i"
      "ntype (nodes fs i) = RAMFS_NODE_DIR"
      "ramfs_resolve fs path False = (Inr c, Some (i, List.last ?ts), fs)"
    have "tl path \<noteq> []"
    proof
      assume "tl path = []"
      with p(1) have "path = ''/''" by (cases path) (auto simp: abs_path_def)
      then have "?ts = []" by (simp add: path_tokens.simps ramfs_path_next_def)
      with p(3) show False by simp
    qed
    then have op': "(rc, fs') = (if ntype (nodes fs c) = RAMFS_NODE_DIR \<and> \<not> ramfs_dir_is_empty fs c then (-1, fs)
        else case ramfs_detach_child fs i c of
          (rc, fs1) \<Rightarrow> if rc \<noteq> 0 then (-1, fs1) else (0, upd_node fs1 c (\<lambda>_. zero_node)))"
      using op p(1,6) by (simp add: ramfs_op_remove_def abs_path_def)
    have c: "child fs i (List.last ?ts) = Some c" using snoc_split [OF p(3,4)] p(2) by simp
    note rem = removable_iff [OF inv p(2,3)]
    have empty: "ramfs_dir_is_empty fs c \<longleftrightarrow> ntype (nodes fs c) = RAMFS_NODE_DIR \<and> child_count (nodes fs c) = 0"
      using child_SomeD(3) [OF inv c] by (auto simp: ramfs_dir_is_empty_def)
    show ?thesis
    proof (cases "removable (ramfs_view fs) ?ts")
      case False
      with op' rem empty have "rc = -1" "fs' = fs" by (auto split: if_splits)
      with False inv show ?thesis by simp
    next
      case True
      have leaf: "child fs c m = None" for m
        using True rem child_count_0_iff [OF inv, of c] file_no_child [OF inv, of c m] by blast
      obtain cs fs1 where d: "ramfs_detach_child fs i c = (0, fs1)"
        "fs1 = upd_node fs i (\<lambda>p. p\<lparr>children := cs, child_count := child_count p - 1\<rparr>)"
        "ramfs_inv fs1" "child fs1 = link (child fs) i (List.last ?ts) None"
        using detach_child [OF inv c lookup_used(2) [OF inv p(4)]] by blast
      have r: "rc = 0" "fs' = upd_node fs1 c (\<lambda>_. zero_node)"
        using op' True rem empty d(1) by (auto split: if_splits)
      have free: "child fs1 j m \<noteq> Some c" for j m
        using tree_like_inj [OF tree_like_child [OF inv] c, of j m] by (auto simp: d(4) link_def)
      have leaf1: "child fs1 c m = None" for m using leaf by (simp add: d(4) link_def)
      have root1: "root_index fs1 = root_index fs" by (simp add: d(2))
      from clear_node_inv [OF d(3) _ free leaf1, folded r(2)] child_SomeD(5) [OF inv c] root1
      have I: "ramfs_inv fs'" "child fs' = child fs1" by simp_all
      have "root_index fs' = root_index fs" by (simp add: r(2) root1)
      then have look: "lookup fs' x = (if x = ?ts then None else lookup fs x)" for x
        using walk_remove [OF tree_like_child [OF inv] p(4) c leaf, of x] snoc_butlast [OF p(3)]
        unfolding I(2) d(4) by simp
      have obj: "node_obj (nodes fs' j) (file_pool fs') = node_obj (nodes fs j) (file_pool fs)" if "j \<noteq> c" for j
        using that by (auto simp: r(2) d(2) node_obj_def split: option.split)
      have "ramfs_view fs' = (ramfs_view fs)(?ts := None)"
      proof
        fix x
        have "lookup fs x \<noteq> Some c" if "x \<noteq> ?ts"
          using walk_inj [OF tree_like_child [OF inv] p(2)] that by blast
        then show "ramfs_view fs' x = ((ramfs_view fs)(?ts := None)) x"
          using obj by (cases "lookup fs x") (auto simp: ramfs_view_def look)
      qed
      with I(1) r(1) True p(1) show ?thesis by simp
    qed
  next
    assume p: "abs_path path" "?ts = []"
      "ramfs_resolve fs path False = (Inr (root_index fs), Some (root_index fs, []), fs)"
    have "root_index fs \<notin> set (kids fs (root_index fs))"
      using ramfs_invD(6) [OF inv, of "root_index fs"] by (auto simp: links_ok_def)
    then have "find_index (\<lambda>c. c = root_index fs) (kids fs (root_index fs)) = None"
      by (auto simp: find_index_None_iff)
    then have "ramfs_detach_child fs (root_index fs) (root_index fs) = (-1, fs)"
      by (simp add: ramfs_detach_child_def Let_def kids_def)
    then have "rc = -1 \<and> fs' = fs"
      using op p(1,3) by (auto simp: ramfs_op_remove_def abs_path_def split: if_splits)
    with inv p(2) show ?thesis by (simp add: removable_def)
  next
    fix i
    assume p: "lookup fs ?ts = None" "ramfs_resolve fs path False = (Inl (-2), Some (i, List.last ?ts), fs)"
    then have "rc = -1 \<and> fs' = fs" using op by (auto simp: ramfs_op_remove_def split: if_splits)
    with inv p no_path show ?thesis by auto
  next
    fix e
    assume p: "abs_path path \<Longrightarrow> lookup fs ?ts = None" "ramfs_resolve fs path False = (Inl e, None, fs)"
    then have "rc = -1 \<and> fs' = fs" using op by (auto simp: ramfs_op_remove_def split: if_splits)
    with inv p no_path show ?thesis by auto
  qed
qed


section \<open>Renaming\<close>

text \<open>Giving a node that is in no directory a new name and parent.\<close>

lemma rename_free_inv:
  assumes inv: "ramfs_inv fs" and free: "\<And>j m. child fs j m \<noteq> Some c"
    and len: "length nm < VFS_MAX_NAME"
    and fs': "fs' = upd_node fs c (\<lambda>n. n\<lparr>parent := par, name := nm\<rparr>)"
  shows "ramfs_inv fs'" "child fs' = child fs"
proof -
  have node: "nodes fs' i = (if i = c then (nodes fs c)\<lparr>parent := par, name := nm\<rparr> else nodes fs i)" for i
    by (simp add: fs')
  have rest: "root_index fs' = root_index fs" "file_pool_used fs' = file_pool_used fs"
    by (simp_all add: fs')
  have kid: "kids fs' i = kids fs i" for i by (simp add: kids_def node)
  have notin: "c \<notin> set (kids fs j)" for j using free [of j] child_iff [OF inv] by blast
  have same: "\<forall>d\<in>set (kids fs j). nodes fs' d = nodes fs d" for j using notin [of j] by (auto simp: node)
  have keep: "used (nodes fs' i) = used (nodes fs i)" "ntype (nodes fs' i) = ntype (nodes fs i)" for i
    by (simp_all add: node)
  have links: "links_ok fs' i" for i
  proof -
    have eq: "map (\<lambda>d. name (nodes fs' d)) (kids fs i) = map (\<lambda>d. name (nodes fs d)) (kids fs i)"
      using same [of i] by simp
    have "distinct (map (\<lambda>d. name (nodes fs' d)) (kids fs i))"
      unfolding eq using ramfs_invD(6) [OF inv, of i] by (simp only: links_ok_def)
    then show ?thesis
      using ramfs_invD(6) [OF inv, of i] same [of i] unfolding links_ok_def kid rest keep by auto
  qed
  show inv': "ramfs_inv fs'" unfolding ramfs_inv_def
  proof (intro conjI allI impI)
    fix i j :: nat
    show "node_ok (file_pool_used fs') (nodes fs' i)"
      using ramfs_invD(5) [OF inv, of i] len by (auto simp: node rest node_ok_def)
    assume "i \<noteq> j"
    have "apart (nodes fs' i) (nodes fs' j) = apart (nodes fs i) (nodes fs j)"
      unfolding apart_def node by simp
    with ramfs_invD(7) [OF inv \<open>i \<noteq> j\<close>] show "apart (nodes fs' i) (nodes fs' j)" by simp
  qed (use ramfs_invD(1-4) [OF inv] links in \<open>auto simp: rest keep\<close>)
  show "child fs' = child fs"
  proof (intro ext)
    fix j m
    have "child fs' j m = Some d \<longleftrightarrow> child fs j m = Some d" for d
      using child_iff [OF inv'] child_iff [OF inv] same [of j] notin [of j] by (auto simp: kid)
    then show "child fs' j m = child fs j m" by (metis option.exhaust)
  qed
qed

text \<open>Moving a node to another directory: detach, link, set parent and name.\<close>

lemma move_node:
  assumes inv: "ramfs_inv fs" and c: "child fs op ol = Some c"
    and np: "used (nodes fs np)" "ntype (nodes fs np) = RAMFS_NODE_DIR" "op \<noteq> np"
    and room: "child_count (nodes fs np) < RAMFS_MAX_CHILDREN"
    and new: "child fs np nl = None" and len: "length nl < VFS_MAX_NAME"
    and d: "fs1 = upd_node fs op (\<lambda>p. p\<lparr>children := cs, child_count := child_count p - 1\<rparr>)"
      "ramfs_inv fs1" "child fs1 = link (child fs) op ol None"
    and fs': "fs' = upd_node (add_kid fs1 np c) c (\<lambda>n. n\<lparr>parent := np, name := nl\<rparr>)"
  shows "ramfs_inv fs'" "child fs' = relink (child fs) op ol np nl c" "root_index fs' = root_index fs"
    "node_obj (nodes fs' i) (file_pool fs') = node_obj (nodes fs i) (file_pool fs)"
proof -
  note cc = child_SomeD [OF inv c]
  define fs2 where "fs2 = upd_node fs1 c (\<lambda>n. n\<lparr>parent := np, name := nl\<rparr>)"
  have root: "root_index fs1 = root_index fs" by (simp add: d(1))
  have free: "child fs1 j m \<noteq> Some c" for j m
    using tree_like_inj [OF tree_like_child [OF inv] c, of j m] by (auto simp: d(3) link_def)
  from rename_free_inv [OF d(2) free len fs2_def]
  have I: "ramfs_inv fs2" "child fs2 = child fs1" by simp_all
  have "fs' = add_kid fs2 np c"
    unfolding fs' fs2_def add_kid_def
    by (cases "nodes fs1 c", cases "np = c") (simp_all add: fun_upd_twist)
  moreover have "used (nodes fs2 np)" "ntype (nodes fs2 np) = RAMFS_NODE_DIR" "used (nodes fs2 c)"
    "parent (nodes fs2 c) = np" "name (nodes fs2 c) = nl"
    "child_count (nodes fs2 np) < RAMFS_MAX_CHILDREN" "root_index fs2 = root_index fs"
    using np cc(4) room by (auto simp: fs2_def d(1))
  moreover have "child fs2 j m \<noteq> Some c" for j m using free I(2) by simp
  moreover have "child fs2 np nl = None" using new np(3) by (simp add: I(2) d(3))
  ultimately show "ramfs_inv fs'" "child fs' = relink (child fs) op ol np nl c" "root_index fs' = root_index fs"
    using add_kid_inv [OF I(1), of np c] cc(3,5) by (simp_all add: I(2) d(3) relink_def add_kid_def)
  show "node_obj (nodes fs' i) (file_pool fs') = node_obj (nodes fs i) (file_pool fs)"
    by (simp add: fs' add_kid_def d(1) node_obj_def split: option.split)
qed

text \<open>Renaming a node within its directory.\<close>

lemma renamed_member:
  assumes "c \<in> K" "nm c = ol" "d \<in> K \<Longrightarrow> nm d = ol \<Longrightarrow> d = c" "d \<in> K \<Longrightarrow> nm d \<noteq> nl"
  shows "d \<in> K \<and> (if d = c then nl else nm d) = m
     \<longleftrightarrow> (if m = nl then c = d else m \<noteq> ol \<and> d \<in> K \<and> nm d = m)"
proof (cases "d = c")
  case True
  with assms(1,2) show ?thesis by simp metis
next
  case False
  with assms(3,4) have "d \<in> K \<Longrightarrow> nm d \<noteq> ol \<and> nm d \<noteq> nl" by blast
  with False show ?thesis by (cases "d \<in> K") auto
qed

lemma rename_node:
  assumes inv: "ramfs_inv fs" and c: "child fs par ol = Some c"
    and new: "child fs par nl = None" and len: "length nl < VFS_MAX_NAME"
    and fs': "fs' = upd_node fs c (\<lambda>n. n\<lparr>name := nl\<rparr>)"
  shows "ramfs_inv fs'" "child fs' = relink (child fs) par ol par nl c" "root_index fs' = root_index fs"
    "node_obj (nodes fs' i) (file_pool fs') = node_obj (nodes fs i) (file_pool fs)"
proof -
  note cc = child_SomeD [OF inv c]
  have node: "nodes fs' i = (if i = c then (nodes fs c)\<lparr>name := nl\<rparr> else nodes fs i)" for i
    by (simp add: fs')
  have rest: "root_index fs' = root_index fs" "file_pool_used fs' = file_pool_used fs"
    by (simp_all add: fs')
  have kid: "kids fs' i = kids fs i" for i by (simp add: kids_def node)
  have keep: "used (nodes fs' i) = used (nodes fs i)" "ntype (nodes fs' i) = ntype (nodes fs i)"
    "parent (nodes fs' i) = parent (nodes fs i)" for i by (simp_all add: node)
  have only: "c \<in> set (kids fs j) \<longleftrightarrow> j = par" for j
    using cc(1,6) ramfs_invD(6) [OF inv, of j] by (auto simp: links_ok_def)
  have other: "\<forall>d\<in>set (kids fs par). name (nodes fs d) \<noteq> nl"
    using new child_iff [OF inv, of par nl] by auto
  have dist: "distinct (map (\<lambda>d. name (nodes fs' d)) (kids fs i))" for i
  proof -
    have d: "distinct (map (\<lambda>d. name (nodes fs d)) (kids fs i))"
      using ramfs_invD(6) [OF inv, of i] by (simp add: links_ok_def)
    then have inj: "inj_on (\<lambda>d. name (nodes fs d)) (set (kids fs i))" by (simp add: distinct_map)
    have "inj_on (\<lambda>d. name (nodes fs' d)) (set (kids fs i))"
    proof (rule inj_onI)
      fix d e
      assume de: "d \<in> set (kids fs i)" "e \<in> set (kids fs i)" "name (nodes fs' d) = name (nodes fs' e)"
      show "d = e"
      proof (cases "d = c \<or> e = c")
        case True
        then have "i = par" using only de by blast
        with True de other show ?thesis by (auto simp: node split: if_splits)
      next
        case False
        with de(3) have "name (nodes fs d) = name (nodes fs e)" by (simp add: node)
        with inj de(1,2) show ?thesis by (simp add: inj_on_def)
      qed
    qed
    with d show ?thesis by (simp add: distinct_map)
  qed
  have links: "links_ok fs' i" for i
    using ramfs_invD(6) [OF inv, of i] dist [of i] by (simp add: links_ok_def kid keep rest)
  show inv': "ramfs_inv fs'" unfolding ramfs_inv_def
  proof (intro conjI allI impI)
    fix i j :: nat
    show "node_ok (file_pool_used fs') (nodes fs' i)"
      using ramfs_invD(5) [OF inv, of i] len by (auto simp: node rest node_ok_def)
    assume "i \<noteq> j"
    have "apart (nodes fs' i) (nodes fs' j) = apart (nodes fs i) (nodes fs j)"
      unfolding apart_def node by simp
    with ramfs_invD(7) [OF inv \<open>i \<noteq> j\<close>] show "apart (nodes fs' i) (nodes fs' j)" by simp
  qed (use ramfs_invD(1-4) [OF inv] links in \<open>auto simp: rest keep\<close>)
  show "child fs' = relink (child fs) par ol par nl c"
  proof (intro ext)
    fix j m
    have one: "d = c" if "d \<in> set (kids fs par)" "name (nodes fs d) = ol" for d
      using child_iff [OF inv, of par ol d] that c by simp
    have "child fs' j m = Some d \<longleftrightarrow> relink (child fs) par ol par nl c j m = Some d" for d
    proof (cases "j = par")
      case True
      have "child fs' par m = Some d \<longleftrightarrow> d \<in> set (kids fs par) \<and> (if d = c then nl else name (nodes fs d)) = m"
        by (simp add: child_iff [OF inv'] kid node)
      also have "\<dots> \<longleftrightarrow> (if m = nl then c = d else m \<noteq> ol \<and> d \<in> set (kids fs par) \<and> name (nodes fs d) = m)"
        by (rule renamed_member [where nm = "\<lambda>d. name (nodes fs d)", OF cc(1,2)]) (use one other in blast)+
      also have "\<dots> \<longleftrightarrow> relink (child fs) par ol par nl c par m = Some d"
        by (simp add: relink_def link_def child_iff [OF inv])
      finally show ?thesis unfolding True .
    next
      case False
      then have "child fs' j m = Some d \<longleftrightarrow> child fs j m = Some d"
        using child_iff [OF inv', of j m d] child_iff [OF inv, of j m d] only [of j] by (auto simp: kid node)
      with False show ?thesis by (simp add: relink_def)
    qed
    then show "child fs' j m = relink (child fs) par ol par nl c j m" by (metis option.exhaust)
  qed
  show "root_index fs' = root_index fs"
    "node_obj (nodes fs' i) (file_pool fs') = node_obj (nodes fs i) (file_pool fs)"
    by (simp_all add: fs' node_obj_def split: option.split)
qed


lemma dir_entries:
  assumes inv: "ramfs_inv fs" and p: "lookup fs p = Some i"
  shows "card {n. ramfs_view fs (p @ [n]) \<noteq> None} = child_count (nodes fs i)"
proof -
  let ?ks = "kids fs i"
  have d: "distinct (map (\<lambda>c. name (nodes fs c)) ?ks)"
    using ramfs_invD(6) [OF inv, of i] by (simp add: links_ok_def)
  have "{n. ramfs_view fs (p @ [n]) \<noteq> None} = set (map (\<lambda>c. name (nodes fs c)) ?ks)"
    using p child_iff [OF inv, of i] by (force simp: view_None_iff)
  then have "card {n. ramfs_view fs (p @ [n]) \<noteq> None} = length ?ks"
    using distinct_card [OF d] by simp
  moreover have "length (children (nodes fs i)) = RAMFS_MAX_CHILDREN" "child_count (nodes fs i) \<le> RAMFS_MAX_CHILDREN"
    using ramfs_invD(5) [OF inv, of i] by (auto simp: node_ok_def)
  ultimately show ?thesis by (simp add: kids_def)
qed

definition view_moved ::
  "(string list \<Rightarrow> (fkind \<times> attr) option) \<Rightarrow> string list \<Rightarrow> string list \<Rightarrow> string list \<Rightarrow> (fkind \<times> attr) option" where
  "view_moved V old new x =
     (if prefix new x then V (old @ drop (length new) x) else if prefix old x then None else V x)"

definition view_dropped ::
  "(string list \<Rightarrow> (fkind \<times> attr) option) \<Rightarrow> string list \<Rightarrow> string list \<Rightarrow> (fkind \<times> attr) option" where
  "view_dropped V old x = (if prefix old x then None else V x)"

text \<open>The paths a call of rename can work on.\<close>

definition renamable :: "(string list \<Rightarrow> (fkind \<times> attr) option) \<Rightarrow> string list \<Rightarrow> string list \<Rightarrow> bool" where
  "renamable V old new \<longleftrightarrow>
     V old \<noteq> None \<and> new \<noteq> [] \<and> V new = None \<and> (\<exists>a. V (butlast new) = Some (Dir, a))"

definition rename_blocked :: "(string list \<Rightarrow> (fkind \<times> attr) option) \<Rightarrow> string list \<Rightarrow> string list \<Rightarrow> bool" where
  "rename_blocked V old new \<longleftrightarrow>
     butlast old \<noteq> butlast new \<and> RAMFS_MAX_CHILDREN \<le> card {n. V (butlast new @ [n]) \<noteq> None}"

lemma view_walk_cong:
  assumes "\<And>i. node_obj (nodes fs' i) (file_pool fs') = node_obj (nodes fs i) (file_pool fs)"
    and "lookup fs' x = lookup fs y"
  shows "ramfs_view fs' x = ramfs_view fs y"
  using assms by (simp add: ramfs_view_def)

lemma walk_dropped:
  assumes t: "tree_like f r" and i: "walk f r p = Some i" and c: "f i n = Some c"
  shows "walk (link f i n None) r x = (if prefix (p @ [n]) x then None else walk f r x)"
proof (induction x rule: rev_induct)
  case (snoc u x)
  show ?case
  proof (cases "prefix (p @ [n]) x")
    case False
    show ?thesis
    proof (cases "walk f r x")
      case (Some k)
      have "k = i \<and> u = n \<longleftrightarrow> p @ [n] = x @ [u]"
        using walk_inj [OF t Some, of p] i Some by auto
      with False Some snoc show ?thesis by (auto simp: prefix_snoc link_def)
    next
      case None
      then have "walk f r (x @ [u]) = None" by simp
      with False None snoc show ?thesis by auto
    qed
  qed (use snoc in \<open>auto simp: prefix_snoc\<close>)
qed simp

text \<open>Linking a detached node below itself leaves it out of reach.\<close>

lemma walk_move_inside:
  assumes t: "tree_like f r" and i: "walk f r p = Some i" and c: "f i n = Some c"
    and j: "walk f r q = Some j" and m: "f j m = None" and inside: "prefix (p @ [n]) q"
  shows "walk (relink f i n j m c) r x = (if prefix (p @ [n]) x then None else walk f r x)"
proof (cases "prefix (p @ [n]) x")
  case False
  moreover have "\<not> prefix (q @ [m]) x"
    using inside False by (meson prefix_order.trans prefixI)
  ultimately show ?thesis using walk_move_aside [OF t i j] by simp
next
  case True
  then obtain y where y: "x = (p @ [n]) @ y" by (auto simp: prefix_def)
  have np: "\<not> prefix (p @ [n]) p" by (auto dest: prefix_length_le)
  then have "\<not> prefix (q @ [m]) p" using inside by (meson prefix_order.trans prefixI)
  with np have "walk (relink f i n j m c) r p = Some i"
    using walk_move_aside [OF t i j] i by simp
  moreover have "relink f i n j m c i n = None"
    using m c by (auto simp: relink_def link_def)
  ultimately have "walk (relink f i n j m c) r (p @ [n]) = None" by simp
  with True show ?thesis unfolding y by (simp only: walk_append [of _ r "p @ [n]"] option.case if_True)
qed


text \<open>The state of a rename whose paths resolve: old node \<open>c\<close> in \<open>i\<close>, new directory \<open>j\<close>.\<close>

lemma rename_resolved:
  assumes inv: "ramfs_inv fs" and old: "old \<noteq> []" "lookup fs old = Some c" "lookup fs (butlast old) = Some i"
    and new: "new \<noteq> []" "lookup fs new = None" "lookup fs (butlast new) = Some j"
      "ntype (nodes fs j) = RAMFS_NODE_DIR" "length (List.last new) < VFS_MAX_NAME"
    and op: "(rc, fs') =
       (if i \<noteq> j then
          (case ramfs_detach_child fs i c of
             (rc, fs1) \<Rightarrow>
               if rc \<noteq> 0 then (-1, fs1)
               else if child_count (nodes fs1 j) \<ge> RAMFS_MAX_CHILDREN then (-1, fs1)
               else
                 let fs2 = upd_node fs1 j
                             (\<lambda>np. np\<lparr>children := (children np)[child_count np := c],
                                      child_count := child_count np + 1\<rparr>);
                     fs3 = upd_node fs2 c (\<lambda>n. n\<lparr>parent := j\<rparr>)
                 in (0, upd_node fs3 c (\<lambda>n. n\<lparr>name := ramfs_copy_name (List.last new)\<rparr>)))
        else (0, upd_node fs c (\<lambda>n. n\<lparr>name := ramfs_copy_name (List.last new)\<rparr>)))"
  shows "ramfs_inv fs'
     \<and> rc = (if rename_blocked (ramfs_view fs) old new then -1 else 0)
     \<and> ramfs_view fs' =
         (if rename_blocked (ramfs_view fs) old new \<or> prefix old new
          then view_dropped (ramfs_view fs) old else view_moved (ramfs_view fs) old new)"
proof -
  let ?ol = "List.last old" and ?nl = "List.last new"
  note tree = tree_like_child [OF inv]
  have copy: "ramfs_copy_name ?nl = ?nl" using new(5) by (simp add: ramfs_copy_name_def)
  have c: "child fs i ?ol = Some c" using snoc_split [OF old(1,3)] old(2) by simp
  have n: "child fs j ?nl = None" using snoc_split [OF new(1,3)] new(2) by simp
  have ij: "i = j \<longleftrightarrow> butlast old = butlast new"
  proof
    assume "i = j"
    with walk_inj [OF tree old(3)] new(3) show "butlast old = butlast new" by simp
  next
    assume "butlast old = butlast new"
    with old(3) new(3) show "i = j" by simp
  qed
  have blocked: "rename_blocked (ramfs_view fs) old new \<longleftrightarrow> i \<noteq> j \<and> RAMFS_MAX_CHILDREN \<le> child_count (nodes fs j)"
    using ij dir_entries [OF inv new(3)] by (simp add: rename_blocked_def)
  have po: "walk (child fs) (root_index fs) (butlast old @ [?ol]) = Some c" using old(2) snoc_butlast [OF old(1)] by simp
  have ne: "old \<noteq> new" using old(2) new(2) by auto
  have pre: "prefix old new \<longleftrightarrow> prefix old (butlast new)"
    using ne prefix_snoc [of old "butlast new" ?nl] snoc_butlast [OF new(1)] by simp
  have done': "ramfs_view fs' = (if prefix old new then view_dropped (ramfs_view fs) old else view_moved (ramfs_view fs) old new)"
    if f: "child fs' = relink (child fs) i ?ol j ?nl c" "root_index fs' = root_index fs"
      "\<And>k. node_obj (nodes fs' k) (file_pool fs') = node_obj (nodes fs k) (file_pool fs)"
  proof
    fix x
    show "ramfs_view fs' x = (if prefix old new then view_dropped (ramfs_view fs) old else view_moved (ramfs_view fs) old new) x"
    proof (cases "prefix old new")
      case True
      have "lookup fs' x = (if prefix old x then None else lookup fs x)"
        using walk_move_inside [OF tree old(3) c new(3) n] True pre snoc_butlast [OF old(1)] by (simp only: f)
      with True view_walk_cong [OF f(3), of x x] show ?thesis
        by (simp add: view_dropped_def view_None_iff)
    next
      case False
      have "lookup fs' x = (if prefix new x then lookup fs (old @ drop (length new) x)
          else if prefix old x then None else lookup fs x)"
        using walk_move [OF tree po old(3) new(3) n, of x] False pre snoc_butlast [OF old(1)] snoc_butlast [OF new(1)]
        unfolding f(1,2) append_assoc [symmetric] by simp
      with False view_walk_cong [OF f(3), of x x] view_walk_cong [OF f(3), of x "old @ drop (length new) x"]
      show ?thesis by (simp add: view_moved_def view_None_iff)
    qed
  qed
  show ?thesis
  proof (cases "i = j")
    case True
    then have r: "rc = 0" "fs' = upd_node fs c (\<lambda>n. n\<lparr>name := ?nl\<rparr>)" using op copy by auto
    note R = rename_node [OF inv c n [folded True] new(5) r(2)]
    from R(2) True have "child fs' = relink (child fs) i ?ol j ?nl c" by simp
    from R(1) done' [OF this R(3,4)] True blocked r(1) show ?thesis by simp
  next
    case False
    obtain cs fs1 where d: "ramfs_detach_child fs i c = (0, fs1)"
      "fs1 = upd_node fs i (\<lambda>p. p\<lparr>children := cs, child_count := child_count p - 1\<rparr>)"
      "ramfs_inv fs1" "child fs1 = link (child fs) i ?ol None"
      using detach_child [OF inv c lookup_used(2) [OF inv old(3)]] by blast
    have jc: "child_count (nodes fs1 j) = child_count (nodes fs j)" using False by (simp add: d(2))
    show ?thesis
    proof (cases "RAMFS_MAX_CHILDREN \<le> child_count (nodes fs j)")
      case True
      then have r: "rc = -1" "fs' = fs1" using op False d(1) jc by auto
      have "ramfs_view fs1 x = view_dropped (ramfs_view fs) old x" for x
      proof -
        have "root_index fs1 = root_index fs" by (simp add: d(2))
        then have "lookup fs1 x = (if prefix old x then None else lookup fs x)"
          using walk_dropped [OF tree old(3) c, of x] snoc_butlast [OF old(1)] unfolding d(4) by simp
        moreover have "node_obj (nodes fs1 k) (file_pool fs1) = node_obj (nodes fs k) (file_pool fs)" for k
          by (simp add: d(2) node_obj_def split: option.split)
        ultimately show ?thesis by (simp add: ramfs_view_def view_dropped_def)
      qed
      then show ?thesis using r d(3) blocked False True by auto
    next
      case room: False
      have r: "rc = 0" "fs' = upd_node (add_kid fs1 j c) c (\<lambda>n. n\<lparr>parent := j, name := ?nl\<rparr>)"
        using op False d(1) jc room copy by (auto simp: add_kid_def Let_def)
      from room have "child_count (nodes fs j) < RAMFS_MAX_CHILDREN" by simp
      note R = move_node [OF inv c lookup_used(1) [OF inv new(3)] new(4) False this n new(5) d(2,3,4) r(2)]
      from R(1) done' [OF R(2,3,4)] blocked r(1) room show ?thesis by simp
    qed
  qed
qed

lemma path_tokens_length: "t \<in> set (path_tokens p) \<Longrightarrow> length t < VFS_MAX_NAME"
proof (induction p rule: path_tokens.induct)
  case (1 p)
  show ?case
  proof (cases "ramfs_path_next p")
    case (Some x)
    then obtain u r where x: "ramfs_path_next p = Some (u, r)" by (cases x) auto
    from 1 path_tokens_Some [OF x] path_next_Some(3) [OF x] x show ?thesis by auto
  qed (use 1 path_tokens_None in auto)
qed

lemma path_tokens_slash: "path_tokens ''/'' = []"
  by (simp add: path_tokens.simps ramfs_path_next_def)

lemma view_dir_iff:
  "(\<exists>a. ramfs_view fs q = Some (Dir, a)) \<longleftrightarrow> (\<exists>j. lookup fs q = Some j \<and> ntype (nodes fs j) = RAMFS_NODE_DIR)"
  by (cases "lookup fs q") (auto simp: ramfs_view_def node_obj_def)

lemma rename_spec:
  assumes inv: "ramfs_inv fs" and op: "ramfs_op_rename fs old_path new_path = (rc, fs')"
    and paths: "abs_path old_path" "abs_path new_path" "path_tokens old_path = old" "path_tokens new_path = new"
    and old: "old \<noteq> []"
  shows "ramfs_inv fs'
     \<and> rc = (if renamable (ramfs_view fs) old new \<and> \<not> rename_blocked (ramfs_view fs) old new then 0 else -1)
     \<and> ramfs_view fs' =
         (if \<not> renamable (ramfs_view fs) old new then ramfs_view fs
          else if rename_blocked (ramfs_view fs) old new \<or> prefix old new
               then view_dropped (ramfs_view fs) old
               else view_moved (ramfs_view fs) old new)"
proof -
  have ns: "old_path \<noteq> ''/''" using paths(3) old path_tokens_slash by auto
  note start = paths(1,2) [unfolded abs_path_def]
  have fail: ?thesis if "rc = -1" "fs' = fs" "\<not> renamable (ramfs_view fs) old new"
    using that inv by simp
  show ?thesis
  proof (rule resolve_False_cases [OF inv, of old_path], unfold paths)
    fix c i
    assume o: "lookup fs old = Some c" "lookup fs (butlast old) = Some i"
      "ramfs_resolve fs old_path False = (Inr c, Some (i, List.last old), fs)"
    show ?thesis
    proof (rule resolve_False_cases [OF inv, of new_path], unfold paths)
      fix d j
      assume "lookup fs new = Some d" "ramfs_resolve fs new_path False = (Inr d, Some (j, List.last new), fs)"
      then show ?thesis
        using op o ns start by (intro fail) (auto simp: ramfs_op_rename_def renamable_def view_None_iff split: if_splits)
    next
      assume "new = []" "ramfs_resolve fs new_path False = (Inr (root_index fs), Some (root_index fs, []), fs)"
      then show ?thesis
        using op o ns start by (intro fail) (auto simp: ramfs_op_rename_def renamable_def split: if_splits)
    next
      fix e
      assume n: "abs_path new_path \<Longrightarrow> lookup fs new = None" "e \<noteq> -2"
        "ramfs_resolve fs new_path False = (Inl e, None, fs)"
      have "\<not> renamable (ramfs_view fs) old new"
      proof
        assume "renamable (ramfs_view fs) old new"
        then have "new \<noteq> []" "\<exists>a. ramfs_view fs (butlast new) = Some (Dir, a)"
          unfolding renamable_def by blast+
        then obtain j where "new \<noteq> []" "lookup fs (butlast new) = Some j" "ntype (nodes fs j) = RAMFS_NODE_DIR"
          unfolding view_dir_iff by blast
        with resolve_False [OF inv paths(2)] n(3) paths(4) show False by auto
      qed
      then show ?thesis
        using op o ns start n(3) by (intro fail) (auto simp: ramfs_op_rename_def split: if_splits)
    next
      fix j
      assume n: "lookup fs new = None" "new \<noteq> []" "lookup fs (butlast new) = Some j"
        "ntype (nodes fs j) = RAMFS_NODE_DIR"
        "ramfs_resolve fs new_path False = (Inl (-2), Some (j, List.last new), fs)"
      have nn: "new_path \<noteq> ''/''" using paths(4) n(2) path_tokens_slash by auto
      have "length (List.last new) < VFS_MAX_NAME"
        using path_tokens_length [of "List.last new" new_path] n(2) paths(4) by simp
      note R = rename_resolved [OF inv old o(1,2) n(2,1,3,4) this]
      have "renamable (ramfs_view fs) old new"
        using o n view_dir_iff [of fs "butlast new"] by (simp add: renamable_def view_None_iff)
      moreover have "ramfs_inv fs'
         \<and> rc = (if rename_blocked (ramfs_view fs) old new then -1 else 0)
         \<and> ramfs_view fs' =
             (if rename_blocked (ramfs_view fs) old new \<or> prefix old new
              then view_dropped (ramfs_view fs) old else view_moved (ramfs_view fs) old new)"
        by (rule R) (use op o(3) n(5) ns nn start in \<open>simp add: ramfs_op_rename_def\<close>)
      ultimately show ?thesis by simp
    qed
  next
    assume "old = []"
    with old show ?thesis by simp
  next
    fix i
    assume "lookup fs old = None" "ramfs_resolve fs old_path False = (Inl (-2), Some (i, List.last old), fs)"
    then show ?thesis
      using op by (intro fail) (auto simp: ramfs_op_rename_def renamable_def view_None_iff split: if_splits)
  next
    fix e
    assume "abs_path old_path \<Longrightarrow> lookup fs old = None" "ramfs_resolve fs old_path False = (Inl e, None, fs)"
    then show ?thesis
      using op paths(1) by (intro fail) (auto simp: ramfs_op_rename_def renamable_def view_None_iff split: if_splits)
  qed
qed


end
