(* ===== verification/Ramfs_History.thy ===== *)
theory Ramfs_History
  imports Ramfs_Props
begin

text \<open>
  The remaining operations of the file system in memory, the state \<open>ramfs_init\<close> makes, and
  what holds after every sequence of calls.
\<close>

section \<open>The initial state\<close>

lemma ramfs_init_eq:
  "ramfs_init = \<lparr>nodes = (\<lambda>_. zero_node)(0 := zero_node\<lparr>used := True, ntype := RAMFS_NODE_DIR, name := ''/''\<rparr>),
     file_pool = (\<lambda>_. 0), file_pool_used = 0, root_index = 0\<rparr>"
proof -
  have "find (\<lambda>i. \<not> used ((\<lambda>_. zero_node) i)) [0..<RAMFS_MAX_NODES] = Some 0"
    unfolding find_Some_iff by (rule exI [of _ 0]) (simp add: zero_node_def RAMFS_MAX_NODES_def)
  then show ?thesis
    by (simp add: ramfs_init_def ramfs_alloc_node_def Let_def zero_node_def)
qed

lemma ramfs_inv_init: "ramfs_inv ramfs_init"
  by (auto simp: ramfs_inv_def ramfs_init_eq node_ok_def links_ok_def kids_def apart_def zero_node_def
      RAMFS_MAX_NODES_def RAMFS_MAX_CHILDREN_def VFS_MAX_NAME_def)

lemma child_init: "child ramfs_init i n = None"
  by (simp add: ramfs_find_child_def ramfs_init_eq zero_node_def)

lemma view_init: "ramfs_view ramfs_init = [[] \<mapsto> (Dir, 0, 0, 0)]"
proof
  fix q
  show "ramfs_view ramfs_init q = [[] \<mapsto> (Dir, 0, 0, 0)] q"
    by (cases q) (simp_all add: ramfs_view_def child_init, simp_all add: ramfs_init_eq node_obj_def zero_node_def)
qed

section \<open>Directories, attributes, reading\<close>

lemma ramfs_mkdir_correct:
  assumes inv: "ramfs_inv fs" and op: "ramfs_op_mkdir u fs path md = (rc, fs')"
  shows "ramfs_inv fs'
     \<and> (rc = 0 \<longrightarrow> abs_path path \<and>
         (case ramfs_view fs (path_tokens path) of
            None \<Rightarrow> ramfs_view fs' = (mk_dirs (ramfs_view fs) (path_tokens path))
              (path_tokens path \<mapsto> (Dir, if md = 0 then RAMFS_DEFAULT_DIR_MODE else md, u, 0))
          | Some (k, _) \<Rightarrow> k = Dir \<and> fs' = fs))
     \<and> (rc \<noteq> 0 \<longrightarrow> only_dirs_added (path_tokens path) (ramfs_view fs) (ramfs_view fs') \<or> ramfs_view fs' = mk_dirs (ramfs_view fs) (path_tokens path))"
proof -
  let ?ts = "path_tokens path"
  obtain r out fs1 where r: "ramfs_resolve fs path True = (r, out, fs1)"
    by (cases "ramfs_resolve fs path True") auto
  note R = resolve_True [OF inv r]
  show ?thesis
  proof (cases r)
    case (Inr c)
    with R have f: "fs1 = fs" "abs_path path" "lookup fs ?ts = Some c" by auto
    then have v: "ramfs_view fs ?ts = Some (node_obj (nodes fs c) (file_pool fs))" by (simp add: ramfs_view_def)
    have "(rc, fs') = (if ntype (nodes fs c) = RAMFS_NODE_DIR then 0 else -1, fs)"
      using op r Inr f(1) by (auto simp: ramfs_op_mkdir_def)
    with inv f(2) v show ?thesis by (auto simp: node_obj_def)
  next
    case (Inl e)
    show ?thesis
    proof (cases "e = -2")
      case False
      with R Inl have "ramfs_inv fs1" "only_dirs_added ?ts (ramfs_view fs) (ramfs_view fs1)" by auto
      moreover have "rc = -3" "fs' = fs1" using op r Inl False by (simp_all add: ramfs_op_mkdir_def)
      ultimately show ?thesis by simp
    next
      case True
      with R Inl obtain i where i: "out = Some (i, List.last ?ts)" "abs_path path" "?ts \<noteq> []"
        "lookup fs1 (butlast ?ts) = Some i" "ntype (nodes fs1 i) = RAMFS_NODE_DIR"
        "child fs1 i (List.last ?ts) = None" "length (List.last ?ts) < VFS_MAX_NAME"
        "ramfs_view fs ?ts = None" "ramfs_view fs1 = mk_dirs (ramfs_view fs) ?ts"
        and inv1: "ramfs_inv fs1" by auto
      obtain r2 fs2 where mk: "ramfs_create_child fs1 i (List.last ?ts) RAMFS_NODE_DIR = (r2, fs2)"
        by (cases "ramfs_create_child fs1 i (List.last ?ts) RAMFS_NODE_DIR")
      show ?thesis
      proof (cases r2)
        case (Inl e2)
        have "fs2 = fs1"
          using mk Inl by (cases rule: create_child_cases [OF i(7), of fs1 i RAMFS_NODE_DIR]) auto
        then have "rc = -2" "fs' = fs1"
          using op r \<open>r = Inl e\<close> True i mk Inl by (simp_all add: ramfs_op_mkdir_def)
        with i(9) inv1 show ?thesis by simp
      next
        case (Inr c)
        define fs3 where "fs3 = upd_node fs2 c
          (\<lambda>n. n\<lparr>mode := if md \<noteq> 0 then md else RAMFS_DEFAULT_DIR_MODE, uid := u\<rparr>)"
        note C = create_with_mode [OF inv1 i(4,5,6,7) mk [unfolded Inr] fs3_def]
        have "rc = 0" "fs' = fs3"
          using op r \<open>r = Inl e\<close> True i mk Inr by (simp_all add: ramfs_op_mkdir_def fs3_def)
        with C(1,3) snoc_butlast [OF i(3)] i(2,8,9) show ?thesis by (simp add: new_obj_def)
      qed
    qed
  qed
qed

text \<open>Changing mode or owner of the node a path resolves to.\<close>

lemma set_attr_inv:
  assumes inv: "ramfs_inv fs"
    and fs': "fs' = upd_node fs i (\<lambda>n. n\<lparr>mode := m, uid := u, gid := g\<rparr>)"
  shows "ramfs_inv fs'" "child fs' = child fs"
    "lookup fs q = Some i \<Longrightarrow> ramfs_view fs q = Some (k, a) \<Longrightarrow> ramfs_view fs' = (ramfs_view fs)(q \<mapsto> (k, m, u, g))"
proof -
  define n where "n = (nodes fs i)\<lparr>mode := m, uid := u, gid := g\<rparr>"
  have "same_links (nodes fs i) n" by (simp add: same_links_def n_def)
  moreover have "node_ok (file_pool_used fs) n"
    using ramfs_invD(5) [OF inv, of i] by (auto simp: node_ok_def n_def)
  moreover have "apart n (nodes fs j)" if "j \<noteq> i" for j
    using ramfs_invD(7) [OF inv, of i j] that by (simp add: apart_def n_def)
  ultimately show I: "ramfs_inv fs'" "child fs' = child fs"
    using ramfs_inv_data [OF inv, of i n fs'] ramfs_invD(4) [OF inv] by (simp_all add: fs' n_def)
  assume q: "lookup fs q = Some i" and v: "ramfs_view fs q = Some (k, a)"
  have "ramfs_view fs' = (ramfs_view fs)(q \<mapsto> node_obj (nodes fs' i) (file_pool fs'))"
    by (rule view_updated [OF inv q I(2)]) (simp_all add: fs')
  moreover have "node_obj (nodes fs' i) (file_pool fs') = (k, m, u, g)"
    using v q by (auto simp: fs' node_obj_def ramfs_view_def split: option.splits)
  ultimately show "ramfs_view fs' = (ramfs_view fs)(q \<mapsto> (k, m, u, g))" by simp
qed

lemma resolve_view_False:
  assumes inv: "ramfs_inv fs" and ab: "abs_path path"
  shows "case ramfs_view fs (path_tokens path) of
      None \<Rightarrow> \<exists>e out. ramfs_resolve fs path False = (Inl e, out, fs)
    | Some o' \<Rightarrow> \<exists>c out. ramfs_resolve fs path False = (Inr c, out, fs)
        \<and> lookup fs (path_tokens path) = Some c \<and> o' = node_obj (nodes fs c) (file_pool fs)"
proof (rule resolve_False_cases [OF inv, of path])
qed (use ab in \<open>auto simp: ramfs_view_def\<close>)

text \<open>The answer of \<open>read_file\<close>, from the view alone.\<close>

lemma read_file_eq:
  assumes inv: "ramfs_inv fs" and ab: "abs_path path"
  shows "ramfs_op_read_file fs path out cap =
     (case ramfs_view fs (path_tokens path) of
        None \<Rightarrow> (-1, None, out)
      | Some (Dir, _) \<Rightarrow> (-2, None, out)
      | Some (File bs, _) \<Rightarrow>
          (case out of
             None \<Rightarrow> (0, Some (length bs), None)
           | Some buf \<Rightarrow> if cap < length bs then (-3, Some (length bs), out)
                         else (0, Some (length bs), Some (bs @ drop (length bs) buf))))"
proof (cases "ramfs_view fs (path_tokens path)")
  case None
  with resolve_view_False [OF inv ab] show ?thesis by (auto simp: ramfs_op_read_file_def)
next
  case (Some x)
  with resolve_view_False [OF inv ab] obtain c out' where
    c: "ramfs_resolve fs path False = (Inr c, out', fs)" and x: "x = node_obj (nodes fs c) (file_pool fs)"
    by auto
  have ok: "nsize (nodes fs c) = capacity (nodes fs c)" "ndata (nodes fs c) = None \<longrightarrow> capacity (nodes fs c) = 0"
    using ramfs_invD(5) [OF inv, of c] by (auto simp: node_ok_def)
  then have "length (node_bytes fs c) = nsize (nodes fs c)"
    by (auto simp: node_bytes_def pool_read_def split: option.split)
  moreover have "nsize (nodes fs c) = 0 \<Longrightarrow> node_bytes fs c = []"
    by (auto simp: node_bytes_def pool_read_def split: option.split)
  ultimately show ?thesis
    using c x Some
    by (cases "ntype (nodes fs c)")
      (auto simp: ramfs_op_read_file_def Let_def node_obj_def node_bytes_def [symmetric] split: option.split)
qed

text \<open>
  What a successful \<open>create_file\<close> stored is what \<open>read_file\<close> gives back, for every
  buffer large enough, and the length without a buffer; every other file reads as before.
\<close>

theorem ramfs_create_read_roundtrip:
  assumes inv: "ramfs_inv fs" and len: "length bytes < 2 ^ 63" and cap: "length bytes \<le> cap"
    and op: "ramfs_op_create_file u fs path md bytes = (0, fs')"
  shows "ramfs_op_read_file fs' path (Some buf) cap = (0, Some (length bytes), Some (bytes @ drop (length bytes) buf))
     \<and> ramfs_op_read_file fs' path None 0 = (0, Some (length bytes), None)
     \<and> (\<forall>other old a b c. abs_path other \<longrightarrow> path_tokens other \<noteq> path_tokens path \<longrightarrow>
          ramfs_view fs (path_tokens other) = Some (File old, a) \<longrightarrow>
          ramfs_op_read_file fs' other b c = ramfs_op_read_file fs other b c)"
proof -
  let ?ts = "path_tokens path"
  note C = create_file_spec [OF inv len op]
  have ab: "abs_path path" and inv': "ramfs_inv fs'" using C by auto
  obtain a V where v': "ramfs_view fs' = V(?ts \<mapsto> (File bytes, a))"
    and V: "V = ramfs_view fs \<or> V = mk_dirs (ramfs_view fs) ?ts"
  proof (cases "ramfs_view fs ?ts")
    case (Some x)
    obtain k b where x: "x = (k, b)" by (cases x)
    show thesis using that C Some x by (cases k) auto
  qed (use that C in auto)
  then have v: "ramfs_view fs' ?ts = Some (File bytes, a)" by simp
  have keep: "ramfs_view fs' q = Some (File old, a)"
    if "ramfs_view fs q = Some (File old, a)" "q \<noteq> ?ts" for q old a
    using V that by (auto simp: v' mk_dirs_keeps)
  from v cap show ?thesis
    by (auto simp: read_file_eq [OF inv' ab] read_file_eq [OF inv'] read_file_eq [OF inv] keep)
qed


section \<open>The specification of the updates\<close>


text \<open>
  C16. Removing succeeds exactly for files and empty directories other than the root; the
  path then names nothing and everything else is as before. A failing call changes nothing.
\<close>

theorem ramfs_remove_correct:
  assumes inv: "ramfs_inv fs" and op: "ramfs_op_remove fs path = (rc, fs')"
  shows "ramfs_inv fs'
     \<and> (rc = 0 \<longleftrightarrow> abs_path path \<and> removable (ramfs_view fs) (path_tokens path))
     \<and> (rc = 0 \<longrightarrow> ramfs_view fs' = (ramfs_view fs)(path_tokens path := None))
     \<and> (rc \<noteq> 0 \<longrightarrow> fs' = fs)"
  by (rule remove_spec [OF assms])

text \<open>
  C17. Renaming, exactly. It works when the old path names something, the new one nothing, and
  the new parent is a directory. Then everything below the old path is found below the new
  one and nothing else changes, except in two cases in which everything below the old path
  is lost: the new path lies below the old one (and the call reports success), or the new
  directory is another one and full (and the call fails, after the node has been detached).
\<close>

theorem ramfs_rename_correct:
  assumes inv: "ramfs_inv fs" and op: "ramfs_op_rename fs old_path new_path = (rc, fs')"
    and paths: "abs_path old_path" "abs_path new_path" "path_tokens old_path = old" "path_tokens new_path = new"
    and old: "old \<noteq> []"
  shows "ramfs_inv fs'
     \<and> rc = (if renamable (ramfs_view fs) old new \<and> \<not> rename_blocked (ramfs_view fs) old new then 0 else -1)
     \<and> ramfs_view fs' =
         (if \<not> renamable (ramfs_view fs) old new then ramfs_view fs
          else if rename_blocked (ramfs_view fs) old new \<or> prefix old new
               then view_dropped (ramfs_view fs) old
               else view_moved (ramfs_view fs) old new)"
  by (rule rename_spec [OF assms])


section \<open>Histories\<close>

datatype ramfs_call =
    Mkdir u32 string u16
  | Create u32 string u16 "u8 list"
  | Write u32 string "u8 list"
  | Remove string
  | Rename string string
  | Chmod string u16
  | Chown string u32 u32

fun ramfs_exec :: "ramfs_call \<Rightarrow> ramfs \<Rightarrow> ramfs" where
  "ramfs_exec (Mkdir u p m) fs = snd (ramfs_op_mkdir u fs p m)"
| "ramfs_exec (Create u p m b) fs = snd (ramfs_op_create_file u fs p m b)"
| "ramfs_exec (Write u p b) fs = snd (ramfs_op_write_file u fs p b)"
| "ramfs_exec (Remove p) fs = snd (ramfs_op_remove fs p)"
| "ramfs_exec (Rename p q) fs = snd (ramfs_op_rename fs p q)"
| "ramfs_exec (Chmod p m) fs = snd (ramfs_op_chmod fs p m)"
| "ramfs_exec (Chown p u g) fs = snd (ramfs_op_chown fs p u g)"

text \<open>The length of a buffer is a 64-bit number; half the address space is the kernel's.\<close>

fun call_ok :: "ramfs_call \<Rightarrow> bool" where
  "call_ok (Create u p m b) \<longleftrightarrow> length b < 2 ^ 63"
| "call_ok (Write u p b) \<longleftrightarrow> length b < 2 ^ 63"
| "call_ok c \<longleftrightarrow> True"

lemma chmod_eq: "ramfs_resolve fs p False = (Inr i, out, fs) \<Longrightarrow>
    snd (ramfs_op_chmod fs p m) =
      upd_node fs i (\<lambda>n. n\<lparr>mode := (mode (nodes fs i) AND NOT 0xFFF) OR (m AND 0xFFF), uid := uid (nodes fs i), gid := gid (nodes fs i)\<rparr>)"
  by (cases "nodes fs i") (simp add: ramfs_op_chmod_def)

lemma chown_eq: "ramfs_resolve fs p False = (Inr i, out, fs) \<Longrightarrow>
    snd (ramfs_op_chown fs p u g) =
      upd_node fs i (\<lambda>n. n\<lparr>mode := mode (nodes fs i), uid := if u \<noteq> -1 then u else uid (nodes fs i),
        gid := if g \<noteq> -1 then g else gid (nodes fs i)\<rparr>)"
  by (cases "nodes fs i") (simp add: ramfs_op_chown_def)

lemma chmod_inv:
  assumes inv: "ramfs_inv fs"
  shows "ramfs_inv (snd (ramfs_op_chmod fs p m))"
proof (cases "ramfs_resolve fs p False")
  case (fields r out fs2)
  then have fs2: "fs2 = fs" by (rule_tac resolve_False_cases [OF inv, of p]) auto
  show ?thesis
  proof (cases r)
    case (Inr c)
    with fields fs2 show ?thesis by (intro set_attr_inv(1) [OF inv chmod_eq]) simp
  qed (use fields inv in \<open>simp add: ramfs_op_chmod_def\<close>)
qed

lemma chown_inv:
  assumes inv: "ramfs_inv fs"
  shows "ramfs_inv (snd (ramfs_op_chown fs p u g))"
proof (cases "ramfs_resolve fs p False")
  case (fields r out fs2)
  then have fs2: "fs2 = fs" by (rule_tac resolve_False_cases [OF inv, of p]) auto
  show ?thesis
  proof (cases r)
    case (Inr c)
    with fields fs2 show ?thesis by (intro set_attr_inv(1) [OF inv chown_eq]) simp
  qed (use fields inv in \<open>simp add: ramfs_op_chown_def\<close>)
qed

lemma rename_inv:
  assumes inv: "ramfs_inv fs"
  shows "ramfs_inv (snd (ramfs_op_rename fs p q))"
proof (cases "abs_path p \<and> abs_path q \<and> path_tokens p \<noteq> []")
  case True
  from rename_spec [OF inv prod.collapse [symmetric], of p q] True show ?thesis by blast
next
  case bad: False
  show ?thesis
  proof (cases "abs_path p \<and> abs_path q")
    case False
    then show ?thesis using inv by (auto simp: ramfs_op_rename_def abs_path_def)
  next
    case True
    with bad have t: "path_tokens p = []" by simp
    let ?r = "root_index fs"
    have res: "ramfs_resolve fs p False = (Inr ?r, Some (?r, []), fs)"
      using resolve_root [OF _ t] True by blast
    have "?r \<notin> set (kids fs ?r)"
      using ramfs_invD(6) [OF inv, of ?r] by (auto simp: links_ok_def)
    then have "find_index (\<lambda>c. c = ?r) (kids fs ?r) = None" by (auto simp: find_index_None_iff)
    then have det: "ramfs_detach_child fs ?r ?r = (-1, fs)"
      by (simp add: ramfs_detach_child_def Let_def kids_def)
    have same: "ramfs_inv (upd_node fs ?r (\<lambda>n. n\<lparr>name := nm\<rparr>))" if "length nm < VFS_MAX_NAME" for nm
    proof -
      have "child fs j m \<noteq> Some ?r" for j m using child_SomeD(5) [OF inv] by blast
      from rename_free_inv(1) [OF inv this that refl, of "parent (nodes fs ?r)"] show ?thesis
        by (cases "nodes fs ?r") simp
    qed
    have copy: "length (ramfs_copy_name nm) < VFS_MAX_NAME" for nm
      by (simp add: ramfs_copy_name_def length_copy_loop VFS_MAX_NAME_def)
    obtain r out fs2 where q: "ramfs_resolve fs q False = (r, out, fs2)"
      by (cases "ramfs_resolve fs q False") auto
    show ?thesis
      using inv det same [OF copy]
      by (simp add: ramfs_op_rename_def res q split: sum.split option.split)
  qed
qed

text \<open>
  C18. After every sequence of calls from the initial file system the node table is well
  formed: the names of a directory are distinct, no node is in two directories, child arrays
  and the pool stay within their bounds, and no two files share a byte of the pool.
\<close>

theorem ramfs_history_invariant:
  assumes "\<forall>c\<in>set calls. call_ok c"
  shows "ramfs_inv (fold ramfs_exec calls ramfs_init)"
proof -
  have step: "ramfs_inv (ramfs_exec c fs)" if "ramfs_inv fs" "call_ok c" for c fs
  proof (cases c)
    case (Mkdir u p m)
    with ramfs_mkdir_correct [OF that(1) prod.collapse [symmetric]] show ?thesis by simp
  next
    case (Create u p m b)
    with create_file_spec [OF that(1) _ prod.collapse [symmetric]] that(2) show ?thesis by simp
  next
    case (Write u p b)
    with create_file_spec [OF that(1) _ prod.collapse [symmetric]] that(2) show ?thesis
      by (simp add: ramfs_op_write_file_def)
  next
    case (Remove p)
    with remove_spec [OF that(1) prod.collapse [symmetric]] show ?thesis by simp
  next
    case (Rename p q)
    with rename_inv [OF that(1)] show ?thesis by simp
  next
    case (Chmod p m)
    with chmod_inv [OF that(1)] show ?thesis by simp
  next
    case (Chown p u g)
    with chown_inv [OF that(1)] show ?thesis by simp
  qed
  have "ramfs_inv fs \<Longrightarrow> ramfs_inv (fold ramfs_exec calls fs)" for fs
    using assms step by (induction calls arbitrary: fs) auto
  then show ?thesis using ramfs_inv_init by blast
qed

theorem ramfs_history_invariant_witness:
  "ramfs_inv (fold ramfs_exec [Mkdir 1 ''/a'' 0, Create 1 ''/a/b'' 0 [1, 2], Rename ''/a/b'' ''/c''] ramfs_init)"
  by (rule ramfs_history_invariant) simp

section \<open>Examples\<close>

definition ramfs_ex :: ramfs where
  "ramfs_ex = snd (ramfs_op_create_file 7 ramfs_init ''/a'' 0 [1, 2])"

lemma tokens_ex: "path_tokens ''/a'' = [''a'']" "path_tokens ''/a/b'' = [''a'', ''b'']" "path_tokens ''/b'' = [''b'']"
  by (simp_all add: path_tokens.simps ramfs_path_next_def VFS_MAX_NAME_def)

lemma abs_ex: "abs_path ''/a''" "abs_path ''/a/b''" "abs_path ''/b''"
  by (simp_all add: abs_path_def)

lemma alloc_init: "find (\<lambda>i. \<not> used (nodes ramfs_init i)) [0..<RAMFS_MAX_NODES] = Some 1"
  unfolding find_Some_iff
  by (rule exI [of _ 1]) (simp add: ramfs_init_eq zero_node_def RAMFS_MAX_NODES_def)

lemma create_ex: "fst (ramfs_op_create_file 7 ramfs_init ''/a'' 0 [1, 2]) = 0"
proof -
  have "ramfs_resolve ramfs_init ''/a'' True = (Inl (-2), Some (0, ''a''), ramfs_init)"
    by (simp add: ramfs_resolve_def ramfs_path_next_def VFS_MAX_NAME_def
        ramfs_resolve_loop.simps child_init ramfs_copy_name_def)
      (simp add: ramfs_init_eq)
  then show ?thesis
    by (simp add: ramfs_op_create_file_def ramfs_create_child_def ramfs_alloc_node_def alloc_init Let_def
        ramfs_store_def ramfs_alloc_bytes_def)
      (simp add: ramfs_init_eq zero_node_def RAMFS_MAX_CHILDREN_def RAMFS_MAX_FILE_BYTES_def)
qed


abbreviation ex_attr :: attr where "ex_attr \<equiv> (0x1A4, 7, 0)"

lemma ramfs_ex_eq: "ramfs_op_create_file 7 ramfs_init ''/a'' 0 [1, 2] = (0, ramfs_ex)"
  unfolding ramfs_ex_def create_ex [symmetric] by simp

lemma mk_dirs_init: "mk_dirs (ramfs_view ramfs_init) [''a''] = ramfs_view ramfs_init"
  using mk_dirs_noop [of ramfs_init "[]" "''a''"] by (simp add: view_init)

lemma mk_dirs_init_eq: "mk_dirs [[] \<mapsto> (Dir, 0, 0, 0)] [''a''] = [[] \<mapsto> (Dir, 0, 0, 0)]"
  using mk_dirs_init by (simp only: view_init)

lemma ramfs_ex:
  shows "ramfs_inv ramfs_ex"
    and "ramfs_view ramfs_ex = [[] \<mapsto> (Dir, 0, 0, 0), [''a''] \<mapsto> (File [1, 2], ex_attr)]"
  using create_file_spec [OF ramfs_inv_init _ ramfs_ex_eq]
  by (simp_all add: tokens_ex mk_dirs_init_eq view_init RAMFS_DEFAULT_FILE_MODE_def)


theorem ramfs_create_read_roundtrip_witness:
  "ramfs_op_read_file ramfs_ex ''/a'' (Some [9, 9, 9]) 3 = (0, Some 2, Some [1, 2, 9])"
  using ramfs_create_read_roundtrip [OF ramfs_inv_init _ _ ramfs_ex_eq, of 3 "[9, 9, 9]"] by simp

theorem ramfs_remove_correct_witness:
  "\<exists>fs'. ramfs_op_remove ramfs_ex ''/a'' = (0, fs') \<and> ramfs_view fs' = [[] \<mapsto> (Dir, 0, 0, 0)]"
proof -
  obtain rc fs' where op: "ramfs_op_remove ramfs_ex ''/a'' = (rc, fs')" by (cases "ramfs_op_remove ramfs_ex ''/a''")
  from ramfs_remove_correct [OF ramfs_ex(1) op] op show ?thesis
    by (auto simp: tokens_ex abs_ex removable_def ramfs_ex(2))
qed

theorem ramfs_rename_correct_witness:
  "\<exists>fs'. ramfs_op_rename ramfs_ex ''/a'' ''/b'' = (0, fs')
     \<and> ramfs_view fs' [''b''] = Some (File [1, 2], ex_attr) \<and> ramfs_view fs' [''a''] = None"
proof -
  obtain rc fs' where op: "ramfs_op_rename ramfs_ex ''/a'' ''/b'' = (rc, fs')"
    by (cases "ramfs_op_rename ramfs_ex ''/a'' ''/b''")
  from ramfs_rename_correct [OF ramfs_ex(1) op abs_ex(1,3) tokens_ex(1,3)] op show ?thesis
    by (simp add: renamable_def rename_blocked_def view_moved_def ramfs_ex(2))
qed

end
