(* ===== verification/Vfs.thy ===== *)
theory Vfs
  imports Vfs_Types
begin

text \<open>
  The virtual file system: the mount table, the choice of the mount for a path, the
  permission check and the dispatch of every call (\<open>kernel/src/fs/vfs.c\<close>), and the
  union of two file systems (\<open>kernel/src/fs/vfs_union.c\<close>).

  The mount table has \<open>VFS_MAX_MOUNTS\<close> slots; an unused one is \<open>None\<close>. Octal
  constants are in hexadecimal: \<open>0777 = 0x1FF\<close>, \<open>0400 = 0x100\<close>, \<open>0200 = 0x80\<close>,
  \<open>0040 = 0x20\<close>, \<open>0020 = 0x10\<close>. The printing of the mount table is left out.
\<close>

record ('c, 's) vfs_mount =
  mount_point :: string
  m_ops :: "('c, 's) backend_ops"
  m_ctx :: 'c

record ('c, 's) vfs =
  g_mounts :: "('c, 's) vfs_mount option list"
  g_overlay_mount_path :: string

section \<open>Paths and mounts\<close>

text \<open>The character at an index, the terminator at the end of the string.\<close>

definition char_at :: "string \<Rightarrow> nat \<Rightarrow> char" where
  "char_at s i = (if i < length s then s ! i else CHR 0x00)"

definition vfs_strnlen :: "string \<Rightarrow> nat \<Rightarrow> nat" where
  "vfs_strnlen s cap = min (length s) cap"

definition vfs_copy_string :: "nat \<Rightarrow> string \<Rightarrow> string" where
  "vfs_copy_string cap s = (if cap = 0 then [] else copy_loop cap 0 s)"

definition vfs_path_is_prefix :: "string \<Rightarrow> string \<Rightarrow> bool" where
  "vfs_path_is_prefix pre path =
     (let plen = length pre in
      if plen = 0 then False
      else if take plen path \<noteq> pre then False
      else if plen = 1 \<and> hd pre = CHR ''/'' then True
      else char_at path plen = CHR 0x00 \<or> char_at path plen = CHR ''/'')"

fun copy_child :: "nat \<Rightarrow> string \<Rightarrow> string \<times> string" where
  "copy_child i [] = ([], [])"
| "copy_child i (c # rel) =
     (if c \<noteq> CHR ''/'' \<and> i + 1 < VFS_MAX_NAME
      then (case copy_child (i + 1) rel of (out, rest) \<Rightarrow> (c # out, rest))
      else ([], c # rel))"

definition vfs_extract_mount_child :: "string \<Rightarrow> string \<Rightarrow> string option" where
  "vfs_extract_mount_child par mp =
     (if char_at par 0 \<noteq> CHR ''/'' \<or> char_at mp 0 \<noteq> CHR ''/'' then None
      else if mp = ''/'' then None
      else
        (case (if par = ''/'' then Some (drop 1 mp)
               else let plen = length par in
                    if take plen mp \<noteq> par \<or> char_at mp plen \<noteq> CHR ''/'' then None
                    else Some (drop (plen + 1) mp)) of
           None \<Rightarrow> None
         | Some rel \<Rightarrow>
             if rel = [] then None
             else (case copy_child 0 rel of (out, rest) \<Rightarrow>
                     if out = [] then None
                     else if char_at rest 0 = CHR ''/'' then None
                     else Some out)))"

definition vfs_entry_name_exists :: "dirent list option \<Rightarrow> nat \<Rightarrow> nat \<Rightarrow> string \<Rightarrow> bool" where
  "vfs_entry_name_exists out count max_entries nm =
     (case out of
        None \<Rightarrow> False
      | Some ents \<Rightarrow>
          if max_entries = 0 then False
          else \<exists>e\<in>set (take (min count max_entries) ents). d_name e = nm)"

text \<open>The loop over the mount table: the best mount so far and the length of its name.\<close>

fun find_mount_loop ::
  "('c, 's) vfs_mount option list \<Rightarrow> nat \<Rightarrow> string \<Rightarrow> nat option \<Rightarrow> nat \<Rightarrow> nat option \<times> nat" where
  "find_mount_loop [] i path best best_len = (best, best_len)"
| "find_mount_loop (None # ms) i path best best_len = find_mount_loop ms (i + 1) path best best_len"
| "find_mount_loop (Some m # ms) i path best best_len =
     (let mlen = length (mount_point m) in
      if \<not> vfs_path_is_prefix (mount_point m) path then find_mount_loop ms (i + 1) path best best_len
      else if mlen \<ge> best_len then find_mount_loop ms (i + 1) path (Some i) mlen
      else find_mount_loop ms (i + 1) path best best_len)"

text \<open>The slot of the mount and the path relative to it.\<close>

definition vfs_find_mount :: "('c, 's) vfs \<Rightarrow> string \<Rightarrow> (nat \<times> ('c, 's) vfs_mount \<times> string) option" where
  "vfs_find_mount v path =
     (case find_mount_loop (g_mounts v) 0 path None 0 of
        (None, _) \<Rightarrow> None
      | (Some i, best_len) \<Rightarrow>
          (case g_mounts v ! i of
             None \<Rightarrow> None
           | Some best \<Rightarrow>
               let rel = drop best_len path in
               Some (i, best,
                     if best_len = 1 \<and> hd (mount_point best) = CHR ''/'' then path
                     else if rel = [] then ''/'' else rel)))"

definition vfs_init :: "('c, 's) vfs \<Rightarrow> ('c, 's) vfs" where
  "vfs_init v = v\<lparr>g_mounts := replicate VFS_MAX_MOUNTS None\<rparr>"

definition vfs_set_overlay :: "('c, 's) vfs \<Rightarrow> string option \<Rightarrow> int \<times> ('c, 's) vfs" where
  "vfs_set_overlay v mount_path =
     (case mount_path of
        None \<Rightarrow> (0, v\<lparr>g_overlay_mount_path := []\<rparr>)
      | Some p \<Rightarrow>
          if p = [] then (0, v\<lparr>g_overlay_mount_path := []\<rparr>)
          else (0, v\<lparr>g_overlay_mount_path := vfs_copy_string VFS_MAX_PATH p\<rparr>))"

definition vfs_get_overlay :: "('c, 's) vfs \<Rightarrow> nat \<Rightarrow> int \<times> string option" where
  "vfs_get_overlay v cap =
     (if cap = 0 then (-1, None) else (0, Some (vfs_copy_string cap (g_overlay_mount_path v))))"

definition vfs_mount_fs ::
  "('c, 's) vfs \<Rightarrow> string \<Rightarrow> ('c, 's) backend_ops option \<Rightarrow> 'c \<Rightarrow> int \<times> ('c, 's) vfs" where
  "vfs_mount_fs v mp ops ctx =
     (case ops of
        None \<Rightarrow> (-1, v)
      | Some ops \<Rightarrow>
          if char_at mp 0 \<noteq> CHR ''/'' then (-1, v)
          else let len = vfs_strnlen mp VFS_MAX_PATH in
            if len = 0 \<or> len \<ge> VFS_MAX_PATH then (-2, v)
            else case find_index (\<lambda>m. case m of None \<Rightarrow> False | Some m \<Rightarrow> mount_point m = mp) (g_mounts v) of
                Some i \<Rightarrow>
                  (0, v\<lparr>g_mounts := (g_mounts v)[i :=
                         map_option (\<lambda>m. m\<lparr>m_ops := ops, m_ctx := ctx\<rparr>) (g_mounts v ! i)]\<rparr>)
              | None \<Rightarrow>
                  (case find_index (\<lambda>m. m = None) (g_mounts v) of
                     Some i \<Rightarrow>
                       (0, v\<lparr>g_mounts := (g_mounts v)[i :=
                              Some \<lparr>mount_point = vfs_copy_string VFS_MAX_PATH mp, m_ops = ops, m_ctx = ctx\<rparr>]\<rparr>)
                   | None \<Rightarrow> (-3, v)))"

section \<open>Permissions\<close>

definition vfs_getattr :: "('c, 's) vfs \<Rightarrow> 's \<Rightarrow> string \<Rightarrow> attr option" where
  "vfs_getattr v s path =
     (case vfs_find_mount v path of
        None \<Rightarrow> None
      | Some (_, m, rel) \<Rightarrow>
          (case b_getattr (m_ops m) of None \<Rightarrow> None | Some f \<Rightarrow> f (m_ctx m) s rel))"

definition vfs_perm_check :: "('c, 's) vfs \<Rightarrow> cred \<Rightarrow> 's \<Rightarrow> string \<Rightarrow> bool \<Rightarrow> int" where
  "vfs_perm_check v cr s path write_access =
     (if cr_uid cr = 0 then 0
      else case vfs_getattr v s path of
        None \<Rightarrow> -1
      | Some (md, file_uid, file_gid) \<Rightarrow>
          let md = md AND 0x1FF in
          if file_uid = cr_uid cr then
            (if write_access then (if md AND 0x80 \<noteq> 0 then 0 else -1)
             else if md AND 0x100 \<noteq> 0 then 0 else -1)
          else if file_gid = cr_gid cr then
            (if write_access then (if md AND 0x10 \<noteq> 0 then 0 else -1)
             else if md AND 0x20 \<noteq> 0 then 0 else -1)
          else if write_access then (if md AND 0x2 \<noteq> 0 then 0 else -1)
          else if md AND 0x4 \<noteq> 0 then 0 else -1)"

section \<open>Calls\<close>

text \<open>A call on the mount of a path; \<open>-1\<close> without a mount or without the operation.\<close>

definition vfs_mkdir :: "('c, 's) vfs \<Rightarrow> cred \<Rightarrow> 's \<Rightarrow> string \<Rightarrow> u16 \<Rightarrow> int \<times> 's" where
  "vfs_mkdir v cr s path md =
     (if vfs_perm_check v cr s path True \<noteq> 0 then (-1, s)
      else case vfs_find_mount v path of
        None \<Rightarrow> (-1, s)
      | Some (_, m, rel) \<Rightarrow>
          (case b_mkdir (m_ops m) of None \<Rightarrow> (-1, s) | Some f \<Rightarrow> f (m_ctx m) cr s rel md))"

definition vfs_create_file :: "('c, 's) vfs \<Rightarrow> cred \<Rightarrow> 's \<Rightarrow> string \<Rightarrow> u16 \<Rightarrow> u8 list \<Rightarrow> int \<times> 's" where
  "vfs_create_file v cr s path md bytes =
     (if vfs_perm_check v cr s path True \<noteq> 0 then (-1, s)
      else case vfs_find_mount v path of
        None \<Rightarrow> (-1, s)
      | Some (_, m, rel) \<Rightarrow>
          (case b_create_file (m_ops m) of None \<Rightarrow> (-1, s) | Some f \<Rightarrow> f (m_ctx m) cr s rel md bytes))"

definition vfs_write_file :: "('c, 's) vfs \<Rightarrow> cred \<Rightarrow> 's \<Rightarrow> string \<Rightarrow> u8 list \<Rightarrow> int \<times> 's" where
  "vfs_write_file v cr s path bytes =
     (if vfs_perm_check v cr s path True \<noteq> 0 then (-1, s)
      else case vfs_find_mount v path of
        None \<Rightarrow> (-1, s)
      | Some (_, m, rel) \<Rightarrow>
          (case b_write_file (m_ops m) of None \<Rightarrow> (-1, s) | Some f \<Rightarrow> f (m_ctx m) cr s rel bytes))"

definition vfs_read_file ::
  "('c, 's) vfs \<Rightarrow> cred \<Rightarrow> 's \<Rightarrow> string \<Rightarrow> u8 list option \<Rightarrow> nat \<Rightarrow> int \<times> nat option \<times> u8 list option" where
  "vfs_read_file v cr s path out cap =
     (if vfs_perm_check v cr s path False \<noteq> 0 then (-1, None, out)
      else case vfs_find_mount v path of
        None \<Rightarrow> (-1, None, out)
      | Some (_, m, rel) \<Rightarrow>
          (case b_read_file (m_ops m) of None \<Rightarrow> (-1, None, out) | Some f \<Rightarrow> f (m_ctx m) s rel out cap))"

text \<open>The entries for mount points below the directory, appended by \<open>list_dir\<close>.\<close>

fun list_mounts ::
  "('c, 's) vfs_mount option list \<Rightarrow> string \<Rightarrow> nat \<Rightarrow> dirent list option \<Rightarrow> nat \<Rightarrow> dirent list option \<times> nat" where
  "list_mounts [] path max_entries out tot = (out, tot)"
| "list_mounts (None # ms) path max_entries out tot = list_mounts ms path max_entries out tot"
| "list_mounts (Some m # ms) path max_entries out tot =
     (case vfs_extract_mount_child path (mount_point m) of
        None \<Rightarrow> list_mounts ms path max_entries out tot
      | Some ch \<Rightarrow>
          if vfs_entry_name_exists out tot max_entries ch then list_mounts ms path max_entries out tot
          else list_mounts ms path max_entries
                 (if tot < max_entries
                  then map_option (\<lambda>ents. ents[tot :=
                         \<lparr>d_name = vfs_copy_string VFS_MAX_NAME ch, d_is_dir = True, d_size = 0\<rparr>]) out
                  else out)
                 (tot + 1))"

definition vfs_list_dir ::
  "('c, 's) vfs \<Rightarrow> 's \<Rightarrow> string \<Rightarrow> dirent list option \<Rightarrow> nat \<Rightarrow> (int \<times> nat option \<times> dirent list option) option" where
  "vfs_list_dir v s path out max_entries =
     (case vfs_find_mount v path of
        None \<Rightarrow> Some (-1, None, out)
      | Some (_, m, rel) \<Rightarrow>
          (case b_list_dir (m_ops m) of
             None \<Rightarrow> Some (-1, None, out)
           | Some f \<Rightarrow>
               (case f (m_ctx m) s rel out max_entries of
                  None \<Rightarrow> None
                | Some (rc, cnt, out1) \<Rightarrow>
                    if rc \<noteq> 0 then Some (rc, Some 0, out1)
                    else (case list_mounts (g_mounts v) path max_entries out1 (case cnt of None \<Rightarrow> 0 | Some n \<Rightarrow> n) of
                            (out2, tot) \<Rightarrow> Some (0, Some tot, out2)))))"

definition vfs_exists :: "('c, 's) vfs \<Rightarrow> 's \<Rightarrow> string \<Rightarrow> int" where
  "vfs_exists v s path =
     (case vfs_find_mount v path of
        None \<Rightarrow> 0
      | Some (_, m, rel) \<Rightarrow> (case b_exists (m_ops m) of None \<Rightarrow> 0 | Some f \<Rightarrow> f (m_ctx m) s rel))"

definition vfs_remove :: "('c, 's) vfs \<Rightarrow> cred \<Rightarrow> 's \<Rightarrow> string \<Rightarrow> int \<times> 's" where
  "vfs_remove v cr s path =
     (if vfs_perm_check v cr s path True \<noteq> 0 then (-1, s)
      else case vfs_find_mount v path of
        None \<Rightarrow> (-1, s)
      | Some (_, m, rel) \<Rightarrow>
          (case b_remove (m_ops m) of None \<Rightarrow> (-1, s) | Some f \<Rightarrow> f (m_ctx m) s rel))"

definition vfs_rename :: "('c, 's) vfs \<Rightarrow> cred \<Rightarrow> 's \<Rightarrow> string \<Rightarrow> string \<Rightarrow> int \<times> 's" where
  "vfs_rename v cr s old_path new_path =
     (if vfs_perm_check v cr s old_path True \<noteq> 0 \<or> vfs_perm_check v cr s new_path True \<noteq> 0 then (-1, s)
      else case (vfs_find_mount v old_path, vfs_find_mount v new_path) of
        (Some (io, mo, old_rel), Some (i_n, mn, new_rel)) \<Rightarrow>
          if io \<noteq> i_n then (-1, s)
          else (case b_rename (m_ops mo) of None \<Rightarrow> (-1, s) | Some f \<Rightarrow> f (m_ctx mo) s old_rel new_rel)
      | _ \<Rightarrow> (-1, s))"

definition vfs_get_mount ::
  "('c, 's) vfs \<Rightarrow> string \<Rightarrow> (('c, 's) backend_ops \<times> 'c \<times> string) option" where
  "vfs_get_mount v path =
     (if char_at path 0 \<noteq> CHR ''/'' then None
      else case vfs_find_mount v path of
        None \<Rightarrow> None
      | Some (_, m, rel) \<Rightarrow> Some (m_ops m, m_ctx m, rel))"

definition vfs_chmod :: "('c, 's) vfs \<Rightarrow> cred \<Rightarrow> 's \<Rightarrow> string \<Rightarrow> u16 \<Rightarrow> int \<times> 's" where
  "vfs_chmod v cr s path md =
     (if vfs_perm_check v cr s path True \<noteq> 0 then (-1, s)
      else case vfs_find_mount v path of
        None \<Rightarrow> (-1, s)
      | Some (_, m, rel) \<Rightarrow>
          (case b_chmod (m_ops m) of None \<Rightarrow> (-1, s) | Some f \<Rightarrow> f (m_ctx m) s rel md))"

definition vfs_chown :: "('c, 's) vfs \<Rightarrow> cred \<Rightarrow> 's \<Rightarrow> string \<Rightarrow> u32 \<Rightarrow> u32 \<Rightarrow> int \<times> 's" where
  "vfs_chown v cr s path u g =
     (if cr_uid cr \<noteq> 0 then (-1, s)
      else case vfs_find_mount v path of
        None \<Rightarrow> (-1, s)
      | Some (_, m, rel) \<Rightarrow>
          (case b_chown (m_ops m) of None \<Rightarrow> (-1, s) | Some f \<Rightarrow> f (m_ctx m) s rel u g))"

end
