(* ===== verification/Vfs_Union.thy ===== *)
theory Vfs_Union
  imports Vfs_Types
begin

text \<open>
  The union of two file systems, \<open>kernel/src/fs/vfs_union.c\<close>: the first is asked before the
  second, and only the first is written to.

  \<open>union_list_dir\<close> fills two buffers of \<open>UNION_TEMP_ENTS\<close> entries from
  \<open>kmalloc\<close>; the buffers are arguments of the model, \<open>None\<close> when the allocation
  failed. It returns \<open>None\<close> when it reads past the end of one.
\<close>

definition UNION_TEMP_ENTS :: nat where "UNION_TEMP_ENTS = 16"

record ('c, 's) union_ctx =
  ops_a :: "('c, 's) backend_ops"
  ctx_a :: 'c
  ops_b :: "('c, 's) backend_ops"
  ctx_b :: 'c

definition union_mkdir :: "('c, 's) union_ctx \<Rightarrow> cred \<Rightarrow> 's \<Rightarrow> string \<Rightarrow> u16 \<Rightarrow> int \<times> 's" where
  "union_mkdir u cr s path md =
     (case b_mkdir (ops_a u) of Some f \<Rightarrow> f (ctx_a u) cr s path md | None \<Rightarrow> (-1, s))"

definition union_create_file ::
  "('c, 's) union_ctx \<Rightarrow> cred \<Rightarrow> 's \<Rightarrow> string \<Rightarrow> u16 \<Rightarrow> u8 list \<Rightarrow> int \<times> 's" where
  "union_create_file u cr s path md bytes =
     (case b_create_file (ops_a u) of Some f \<Rightarrow> f (ctx_a u) cr s path md bytes | None \<Rightarrow> (-1, s))"

definition union_write_file :: "('c, 's) union_ctx \<Rightarrow> cred \<Rightarrow> 's \<Rightarrow> string \<Rightarrow> u8 list \<Rightarrow> int \<times> 's" where
  "union_write_file u cr s path bytes =
     (case b_write_file (ops_a u) of Some f \<Rightarrow> f (ctx_a u) cr s path bytes | None \<Rightarrow> (-1, s))"

text \<open>The second read starts with what the failed first one left in the outputs.\<close>

definition union_read_file ::
  "('c, 's) union_ctx \<Rightarrow> 's \<Rightarrow> string \<Rightarrow> u8 list option \<Rightarrow> nat \<Rightarrow> int \<times> nat option \<times> u8 list option" where
  "union_read_file u s path out cap =
     (case (case b_read_file (ops_a u) of Some f \<Rightarrow> f (ctx_a u) s path out cap | None \<Rightarrow> (-1, None, out)) of
        (ra, len_a, out1) \<Rightarrow>
          if ra = 0 then (0, len_a, out1)
          else (case b_read_file (ops_b u) of
                  None \<Rightarrow> (-1, len_a, out1)
                | Some f \<Rightarrow>
                    (case f (ctx_b u) s path out1 cap of
                       (rb, len_b, out2) \<Rightarrow> (rb, case len_b of None \<Rightarrow> len_a | Some n \<Rightarrow> Some n, out2))))"

definition dot_name :: "string \<Rightarrow> bool" where
  "dot_name nm \<longleftrightarrow> nm = ''.'' \<or> nm = ''..''"

definition put_entry :: "dirent list option \<Rightarrow> nat \<Rightarrow> dirent \<Rightarrow> dirent list option" where
  "put_entry out i e = map_option (\<lambda>ents. ents[i := e]) out"

text \<open>The first loop of \<open>union_list_dir\<close>: index, total and output.\<close>

function union_copy_a ::
  "dirent list \<Rightarrow> nat \<Rightarrow> nat \<Rightarrow> nat \<Rightarrow> nat \<Rightarrow> dirent list option \<Rightarrow> (nat \<times> dirent list option) option" where
  "union_copy_a a_ents a_count max_entries i tot out =
     (if i < a_count \<and> tot < max_entries then
        (if length a_ents \<le> i then None
         else if dot_name (d_name (a_ents ! i)) then union_copy_a a_ents a_count max_entries (i + 1) tot out
         else union_copy_a a_ents a_count max_entries (i + 1) (tot + 1) (put_entry out tot (a_ents ! i)))
      else Some (tot, out))"
  by pat_completeness auto
termination by (relation "measure (\<lambda>(a_ents, a_count, max_entries, i, tot, out). a_count - i)") auto

text \<open>The inner loop: whether a name is among the first \<open>a_count\<close> entries.\<close>

function union_dup :: "dirent list \<Rightarrow> nat \<Rightarrow> nat \<Rightarrow> string \<Rightarrow> bool option" where
  "union_dup a_ents a_count j nm =
     (if j < a_count then
        (if length a_ents \<le> j then None
         else if d_name (a_ents ! j) = nm then Some True
         else union_dup a_ents a_count (j + 1) nm)
      else Some False)"
  by pat_completeness auto
termination by (relation "measure (\<lambda>(a_ents, a_count, j, nm). a_count - j)") auto

function union_copy_b ::
  "dirent list \<Rightarrow> nat \<Rightarrow> dirent list \<Rightarrow> nat \<Rightarrow> nat \<Rightarrow> nat \<Rightarrow> nat \<Rightarrow> dirent list option \<Rightarrow>
     (nat \<times> dirent list option) option" where
  "union_copy_b a_ents a_count b_ents b_count max_entries i tot out =
     (if i < b_count \<and> tot < max_entries then
        (if length b_ents \<le> i then None
         else if dot_name (d_name (b_ents ! i))
              then union_copy_b a_ents a_count b_ents b_count max_entries (i + 1) tot out
         else case union_dup a_ents a_count 0 (d_name (b_ents ! i)) of
                None \<Rightarrow> None
              | Some True \<Rightarrow> union_copy_b a_ents a_count b_ents b_count max_entries (i + 1) tot out
              | Some False \<Rightarrow>
                  union_copy_b a_ents a_count b_ents b_count max_entries (i + 1) (tot + 1)
                    (put_entry out tot (b_ents ! i)))
      else Some (tot, out))"
  by pat_completeness auto
termination
  by (relation "measure (\<lambda>(a_ents, a_count, b_ents, b_count, max_entries, i, tot, out). b_count - i)") auto

declare union_copy_a.simps [simp del] union_dup.simps [simp del] union_copy_b.simps [simp del]

text \<open>One call of \<open>list_dir\<close> into a temporary buffer: status, count (0 if not written), buffer.\<close>

definition temp_list ::
  "('c, 's) backend_ops \<Rightarrow> 'c \<Rightarrow> 's \<Rightarrow> string \<Rightarrow> dirent list \<Rightarrow> (int \<times> nat \<times> dirent list) option" where
  "temp_list ops ctx s path buf =
     (case b_list_dir ops of
        None \<Rightarrow> Some (-1, 0, buf)
      | Some f \<Rightarrow>
          (case f ctx s path (Some buf) UNION_TEMP_ENTS of
             None \<Rightarrow> None
           | Some (rc, cnt, out) \<Rightarrow>
               Some (rc, case cnt of None \<Rightarrow> 0 | Some n \<Rightarrow> n, case out of None \<Rightarrow> buf | Some b \<Rightarrow> b)))"

definition union_list_dir ::
  "dirent list option \<Rightarrow> dirent list option \<Rightarrow> ('c, 's) union_ctx \<Rightarrow> 's \<Rightarrow> string \<Rightarrow> dirent list option \<Rightarrow> nat \<Rightarrow>
     (int \<times> nat option \<times> dirent list option) option" where
  "union_list_dir buf_a buf_b u s path out max_entries =
     (case (buf_a, buf_b) of
        (Some a0, Some b0) \<Rightarrow>
          (case temp_list (ops_a u) (ctx_a u) s path a0 of
             None \<Rightarrow> None
           | Some (ra, a_count, a_ents) \<Rightarrow>
               (case temp_list (ops_b u) (ctx_b u) s path b0 of
                  None \<Rightarrow> None
                | Some (rb, b_count, b_ents) \<Rightarrow>
                    if ra \<noteq> 0 \<and> rb \<noteq> 0 then Some (-1, Some 0, out)
                    else
                      (case union_copy_a a_ents a_count max_entries 0 0 out of
                         None \<Rightarrow> None
                       | Some (tot, out1) \<Rightarrow>
                           (case union_copy_b a_ents a_count b_ents b_count max_entries 0 tot out1 of
                              None \<Rightarrow> None
                            | Some (tot2, out2) \<Rightarrow> Some (0, Some tot2, out2)))))
      | _ \<Rightarrow> Some (-1, Some 0, out))"

definition union_exists :: "('c, 's) union_ctx \<Rightarrow> 's \<Rightarrow> string \<Rightarrow> int" where
  "union_exists u s path =
     (let rest = (case b_exists (ops_b u) of Some f \<Rightarrow> f (ctx_b u) s path | None \<Rightarrow> 0) in
      case b_exists (ops_a u) of
        Some f \<Rightarrow> (let rc = f (ctx_a u) s path in if rc > 0 then rc else rest)
      | None \<Rightarrow> rest)"

definition union_remove :: "('c, 's) union_ctx \<Rightarrow> 's \<Rightarrow> string \<Rightarrow> int \<times> 's" where
  "union_remove u s path =
     (case (case b_remove (ops_a u) of Some f \<Rightarrow> f (ctx_a u) s path | None \<Rightarrow> (-1, s)) of
        (ra, s1) \<Rightarrow>
          if ra = 0 then (0, s1)
          else (case b_remove (ops_b u) of Some f \<Rightarrow> f (ctx_b u) s1 path | None \<Rightarrow> (-1, s1)))"

definition union_rename :: "('c, 's) union_ctx \<Rightarrow> 's \<Rightarrow> string \<Rightarrow> string \<Rightarrow> int \<times> 's" where
  "union_rename u s old_path new_path =
     (case (case b_rename (ops_a u) of Some f \<Rightarrow> f (ctx_a u) s old_path new_path | None \<Rightarrow> (-1, s)) of
        (ra, s1) \<Rightarrow>
          if ra = 0 then (0, s1)
          else (case b_rename (ops_b u) of Some f \<Rightarrow> f (ctx_b u) s1 old_path new_path | None \<Rightarrow> (-1, s1)))"

definition union_getattr :: "('c, 's) union_ctx \<Rightarrow> 's \<Rightarrow> string \<Rightarrow> attr option" where
  "union_getattr u s path =
     (case (case b_getattr (ops_a u) of Some f \<Rightarrow> f (ctx_a u) s path | None \<Rightarrow> None) of
        Some a \<Rightarrow> Some a
      | None \<Rightarrow> (case b_getattr (ops_b u) of Some f \<Rightarrow> f (ctx_b u) s path | None \<Rightarrow> None))"

definition union_chmod :: "('c, 's) union_ctx \<Rightarrow> 's \<Rightarrow> string \<Rightarrow> u16 \<Rightarrow> int \<times> 's" where
  "union_chmod u s path md =
     (case (case b_chmod (ops_a u) of Some f \<Rightarrow> f (ctx_a u) s path md | None \<Rightarrow> (-1, s)) of
        (ra, s1) \<Rightarrow>
          if ra = 0 then (0, s1)
          else (case b_chmod (ops_b u) of Some f \<Rightarrow> f (ctx_b u) s1 path md | None \<Rightarrow> (-1, s1)))"

definition union_chown :: "('c, 's) union_ctx \<Rightarrow> 's \<Rightarrow> string \<Rightarrow> u32 \<Rightarrow> u32 \<Rightarrow> int \<times> 's" where
  "union_chown u s path uid gid =
     (case (case b_chown (ops_a u) of Some f \<Rightarrow> f (ctx_a u) s path uid gid | None \<Rightarrow> (-1, s)) of
        (ra, s1) \<Rightarrow>
          if ra = 0 then (0, s1)
          else (case b_chown (ops_b u) of Some f \<Rightarrow> f (ctx_b u) s1 path uid gid | None \<Rightarrow> (-1, s1)))"

text \<open>The table of operations, given the two allocations of \<open>union_list_dir\<close>.\<close>

definition g_union_ops ::
  "dirent list option \<Rightarrow> dirent list option \<Rightarrow> (('c, 's) union_ctx, 's) backend_ops" where
  "g_union_ops buf_a buf_b = \<lparr>
     b_mkdir = Some union_mkdir,
     b_create_file = Some union_create_file,
     b_write_file = Some union_write_file,
     b_read_file = Some union_read_file,
     b_list_dir = Some (union_list_dir buf_a buf_b),
     b_exists = Some union_exists,
     b_remove = Some union_remove,
     b_rename = Some union_rename,
     b_getattr = Some union_getattr,
     b_chmod = Some union_chmod,
     b_chown = Some union_chown\<rparr>"

end
