(* ===== verification/Vfs_Props.thy ===== *)
theory Vfs_Props
  imports Vfs Vfs_Union Ramfs_History
begin

text \<open>
  Properties of the virtual file system: which mount a path belongs to, who may change what,
  and that a file written through it is read back through it. The last is proved once for
  every back end that keeps the contract \<open>file_backend\<close>, which \<open>Ramfs\<close> does. The union's
  directory listing reads past its buffer when a directory is large.
\<close>

section \<open>The mount of a path\<close>

definition below :: "string \<Rightarrow> string \<Rightarrow> bool" where
  "below mp path \<longleftrightarrow>
     mp = ''/'' \<and> prefix mp path \<or> mp \<noteq> [] \<and> (path = mp \<or> (\<exists>r. path = mp @ CHR ''/'' # r))"

lemma take_eq_prefix: "take (length p) s = p \<longleftrightarrow> prefix p s"
  by (metis append_eq_conv_conj prefix_def take_is_prefix)

lemma is_prefix_iff:
  assumes "CHR 0x00 \<notin> set path"
  shows "vfs_path_is_prefix mp path \<longleftrightarrow> below mp path"
proof (cases "prefix mp path")
  case True
  then obtain r where r: "path = mp @ r" by (auto simp: prefix_def)
  have "length mp = 1 \<and> hd mp = CHR ''/'' \<longleftrightarrow> mp = ''/''" by (cases mp) auto
  moreover have "char_at path (length mp) = CHR 0x00 \<longleftrightarrow> r = []"
    using assms r by (cases r) (auto simp: char_at_def)
  moreover have "char_at path (length mp) = CHR ''/'' \<longleftrightarrow> (\<exists>x. r = CHR ''/'' # x)"
    using r by (cases r) (auto simp: char_at_def)
  ultimately show ?thesis
    using r by (auto simp: vfs_path_is_prefix_def below_def Let_def)
next
  case False
  then show ?thesis
    by (auto simp: vfs_path_is_prefix_def below_def Let_def take_eq_prefix)
qed

lemma find_mount_loop_spec:
  assumes "find_mount_loop ms i path best best_len = (b, l)"
    and "best = None \<Longrightarrow> best_len = 0"
  shows "best_len \<le> l
     \<and> (\<forall>m. Some m \<in> set ms \<longrightarrow> vfs_path_is_prefix (mount_point m) path \<longrightarrow> b \<noteq> None \<and> length (mount_point m) \<le> l)
     \<and> (b = best \<and> l = best_len
        \<or> (\<exists>k m. b = Some (i + k) \<and> k < length ms \<and> ms ! k = Some m
             \<and> vfs_path_is_prefix (mount_point m) path \<and> l = length (mount_point m)))"
  using assms
proof (induction ms i path best best_len arbitrary: b l rule: find_mount_loop.induct)
  case (1 i path best best_len)
  then show ?case by simp
next
  case (2 ms i path best best_len)
  from "2.IH" [of b l] "2.prems"
  show ?case by (force intro: exI [of _ "Suc _"])
next
  case (3 m ms i path best best_len)
  let ?len = "length (mount_point m)"
  consider (no) "\<not> vfs_path_is_prefix (mount_point m) path"
    | (better) "vfs_path_is_prefix (mount_point m) path" "?len \<ge> best_len"
    | (worse) "vfs_path_is_prefix (mount_point m) path" "\<not> ?len \<ge> best_len" by blast
  then show ?case
  proof cases
    case no
    with "3.prems" "3.IH"(1) [OF refl no, of b l] show ?thesis
      by (force intro: exI [of _ "Suc _"])
  next
    case better
    then have e: "find_mount_loop ms (i + 1) path (Some i) ?len = (b, l)" using "3.prems" by (simp add: Let_def)
    note IH = "3.IH"(2) [OF refl _ better(2) e]
    have "b = Some i \<and> l = ?len \<or> (\<exists>k m'. b = Some (i + Suc k) \<and> Suc k < length (Some m # ms) \<and> (Some m # ms) ! Suc k = Some m'
        \<and> vfs_path_is_prefix (mount_point m') path \<and> l = length (mount_point m'))"
      using IH better by auto
    then have "\<exists>k m'. b = Some (i + k) \<and> k < length (Some m # ms) \<and> (Some m # ms) ! k = Some m'
        \<and> vfs_path_is_prefix (mount_point m') path \<and> l = length (mount_point m')"
    proof
      assume "b = Some i \<and> l = ?len"
      with better(1) show ?thesis by (intro exI [of _ 0] exI [of _ m]) simp
    qed blast
    then show ?thesis using IH better by auto
  next
    case worse
    then have e: "find_mount_loop ms (i + 1) path best best_len = (b, l)" using "3.prems" by (simp add: Let_def)
    have "best \<noteq> None" using worse "3.prems"(2) by auto
    with worse "3.IH"(3) [OF refl _ worse(2) e] show ?thesis
      by (force intro: exI [of _ "Suc _"])
  qed
qed


text \<open>
  C19. The mount chosen for a path is a mount whose name is the path or a directory above it,
  the longest such one, and no mount is chosen only when there is none; the relative path
  is the rest, \<open>/\<close> for the mount point itself, the whole path for a mount on \<open>/\<close>.
\<close>

theorem vfs_longest_mount:
  assumes path: "CHR 0x00 \<notin> set path"
  shows "case vfs_find_mount v path of
      None \<Rightarrow> (\<forall>m. Some m \<in> set (g_mounts v) \<longrightarrow> \<not> below (mount_point m) path)
    | Some (i, m, rel) \<Rightarrow>
        i < length (g_mounts v) \<and> g_mounts v ! i = Some m \<and> below (mount_point m) path
        \<and> (\<forall>m'. Some m' \<in> set (g_mounts v) \<longrightarrow> below (mount_point m') path \<longrightarrow>
             length (mount_point m') \<le> length (mount_point m))
        \<and> (if mount_point m = ''/'' then rel = path
           else if path = mount_point m then rel = ''/''
           else path = mount_point m @ rel)"
proof -
  obtain b l where e: "find_mount_loop (g_mounts v) 0 path None 0 = (b, l)"
    by (cases "find_mount_loop (g_mounts v) 0 path None 0")
  note L = find_mount_loop_spec [OF e refl, unfolded is_prefix_iff [OF path]]
  show ?thesis
  proof (cases b)
    case None
    with L e show ?thesis by (auto simp: vfs_find_mount_def)
  next
    case (Some k)
    with L obtain m where m: "k < length (g_mounts v)" "g_mounts v ! k = Some m"
      "below (mount_point m) path" "l = length (mount_point m)" by auto
    have "l = 1 \<and> hd (mount_point m) = CHR ''/'' \<longleftrightarrow> mount_point m = ''/''"
      unfolding m(4) by (cases "mount_point m") auto
    then have f: "vfs_find_mount v path = Some (k, m, if mount_point m = ''/'' then path
        else if drop l path = [] then ''/'' else drop l path)"
      using e Some m(2) by (auto simp: vfs_find_mount_def Let_def)
    have "path \<noteq> mount_point m \<Longrightarrow> mount_point m \<noteq> ''/'' \<Longrightarrow> drop l path \<noteq> [] \<and> path = mount_point m @ drop l path"
      using m(3,4) by (auto simp: below_def)
    with f L m show ?thesis by auto
  qed
qed

section \<open>Who may change what\<close>

datatype vfs_call =
    VMkdir string u16
  | VCreate string u16 "u8 list"
  | VWrite string "u8 list"
  | VRemove string
  | VRename string string
  | VChmod string u16
  | VChown string u32 u32

fun vfs_exec :: "('c, 's) vfs \<Rightarrow> cred \<Rightarrow> vfs_call \<Rightarrow> 's \<Rightarrow> int \<times> 's" where
  "vfs_exec v cr (VMkdir p m) s = vfs_mkdir v cr s p m"
| "vfs_exec v cr (VCreate p m b) s = vfs_create_file v cr s p m b"
| "vfs_exec v cr (VWrite p b) s = vfs_write_file v cr s p b"
| "vfs_exec v cr (VRemove p) s = vfs_remove v cr s p"
| "vfs_exec v cr (VRename p q) s = vfs_rename v cr s p q"
| "vfs_exec v cr (VChmod p m) s = vfs_chmod v cr s p m"
| "vfs_exec v cr (VChown p u g) s = vfs_chown v cr s p u g"

fun vfs_targets :: "vfs_call \<Rightarrow> string set" where
  "vfs_targets (VMkdir p m) = {p}"
| "vfs_targets (VCreate p m b) = {p}"
| "vfs_targets (VWrite p b) = {p}"
| "vfs_targets (VRemove p) = {p}"
| "vfs_targets (VRename p q) = {p, q}"
| "vfs_targets (VChmod p m) = {p}"
| "vfs_targets (VChown p u g) = {p}"

text \<open>The bit of the mode that applies: the owner's, else the group's, else the others'.\<close>

definition grants :: "attr \<Rightarrow> cred \<Rightarrow> nat \<Rightarrow> bool" where
  "grants a cr b =
     (case a of (m, u, g) \<Rightarrow>
        if u = cr_uid cr then bit m (6 + b) else if g = cr_gid cr then bit m (3 + b) else bit m b)"

lemma mode_bit:
  assumes "n < 9"
  shows "((w :: u16) AND 0x1FF) AND 2 ^ n \<noteq> 0 \<longleftrightarrow> bit w n"
proof -
  have m: "(0x1FF :: u16) = mask 9" by (simp add: mask_eq_exp_minus_1)
  show ?thesis
    unfolding m using assms by (simp add: and_exp_eq_0_iff_not_bit bit_and_iff bit_mask_iff)
qed

lemma mode_bits:
  "((w :: u16) AND 0x1FF) AND 0x80 \<noteq> 0 \<longleftrightarrow> bit w 7" "(w AND 0x1FF) AND 0x100 \<noteq> 0 \<longleftrightarrow> bit w 8"
  "(w AND 0x1FF) AND 0x10 \<noteq> 0 \<longleftrightarrow> bit w 4" "(w AND 0x1FF) AND 0x20 \<noteq> 0 \<longleftrightarrow> bit w 5"
  "(w AND 0x1FF) AND 2 \<noteq> 0 \<longleftrightarrow> bit w 1" "(w AND 0x1FF) AND 4 \<noteq> 0 \<longleftrightarrow> bit w 2"
  using mode_bit [of 7 w] mode_bit [of 8 w] mode_bit [of 4 w] mode_bit [of 5 w] mode_bit [of 1 w] mode_bit [of 2 w]
  by simp_all

lemma perm_check_iff:
  "vfs_perm_check v cr s p w = 0 \<longleftrightarrow>
     cr_uid cr = 0 \<or> (\<exists>a. vfs_getattr v s p = Some a \<and> grants a cr (if w then 1 else 2))"
proof (cases "vfs_getattr v s p")
  case (Some a)
  then show ?thesis
    by (cases a, cases w) (simp_all add: vfs_perm_check_def grants_def Let_def mode_bits)
qed (simp add: vfs_perm_check_def)

text \<open>
  C20. A user other than root changes nothing through any call on a path that grants no write
  access: one whose mode lacks the write bit of the user's class, or one that has no
  attributes, such as a file that does not exist yet. Changing owners is for root alone.
  (So only root can create a file: the check is made on the new file, not on its directory.)
\<close>

theorem vfs_protects:
  assumes "cr_uid cr \<noteq> 0" and "p \<in> vfs_targets call"
    and "case vfs_getattr v s p of None \<Rightarrow> True | Some a \<Rightarrow> \<not> grants a cr 1 \<or> (\<exists>u g. call = VChown p u g)"
  shows "vfs_exec v cr call s = (-1, s)"
proof -
  have "vfs_perm_check v cr s p True \<noteq> 0 \<or> (\<exists>u g. call = VChown p u g)"
    using assms by (auto simp: perm_check_iff split: option.splits)
  then show ?thesis
    using assms(1,2)
    by (cases call)
      (auto simp: vfs_mkdir_def vfs_create_file_def vfs_write_file_def vfs_remove_def vfs_rename_def
        vfs_chmod_def vfs_chown_def)
qed

section \<open>The contract of a back end\<close>

text \<open>
  What a client of the virtual file system relies on: \<open>content\<close> gives the bytes a path
  names in a context, paths with equal \<open>key\<close> name the same file. Writing stores the bytes,
  keeps every other file and every other context, and reading gives the bytes.
\<close>

locale file_backend =
  fixes ops :: "('c, 's) backend_ops"
    and inv :: "'s \<Rightarrow> bool"
    and content :: "'c \<Rightarrow> 's \<Rightarrow> string \<Rightarrow> u8 list option"
    and key :: "string \<Rightarrow> 'k"
  assumes write_law: "\<lbrakk>b_write_file ops = Some w; inv s; length bytes < 2 ^ 63; w c cr s p bytes = (rc, s')\<rbrakk>
      \<Longrightarrow> inv s'
        \<and> (rc = 0 \<longrightarrow> content c s' p = Some bytes)
        \<and> (\<forall>q old. key q \<noteq> key p \<longrightarrow> content c s q = Some old \<longrightarrow> content c s' q = Some old)
        \<and> (\<forall>d q. d \<noteq> c \<longrightarrow> content d s' q = content d s q)"
    and read_law: "\<lbrakk>b_read_file ops = Some r; inv s; content c s p = Some bytes; length bytes \<le> cap\<rbrakk>
      \<Longrightarrow> r c s p (Some buf) cap = (0, Some (length bytes), Some (bytes @ drop (length bytes) buf))"
    and supports: "b_write_file ops \<noteq> None" "b_read_file ops \<noteq> None"
begin

lemma read_through:
  assumes "vfs_find_mount v path = Some (i, m, rel)" "m_ops m = ops" "inv s"
    "vfs_perm_check v cr s path False = 0" "content (m_ctx m) s rel = Some bytes" "length bytes \<le> cap"
  shows "vfs_read_file v cr s path (Some buf) cap = (0, Some (length bytes), Some (bytes @ drop (length bytes) buf))"
proof -
  obtain r where r: "b_read_file ops = Some r" using supports(2) by auto
  from read_law [OF r assms(3,5,6)] assms r show ?thesis by (simp add: vfs_read_file_def)
qed

lemma write_through:
  assumes "vfs_find_mount v path = Some (i, m, rel)" "m_ops m = ops" "inv s" "length bytes < 2 ^ 63"
    and "vfs_write_file v cr s path bytes = (0, s')"
  shows "inv s'" "content (m_ctx m) s' rel = Some bytes"
    "c \<noteq> m_ctx m \<or> key q \<noteq> key rel \<Longrightarrow> content c s q = Some old \<Longrightarrow> content c s' q = Some old"
proof -
  obtain w where w: "b_write_file ops = Some w" using supports(1) by auto
  have "w (m_ctx m) cr s rel bytes = (0, s')"
    using assms w by (auto simp: vfs_write_file_def split: if_splits)
  from write_law [OF w assms(3,4) this]
  show "inv s'" "content (m_ctx m) s' rel = Some bytes"
    "c \<noteq> m_ctx m \<or> key q \<noteq> key rel \<Longrightarrow> content c s q = Some old \<Longrightarrow> content c s' q = Some old"
    by (cases "c = m_ctx m"; auto)+
qed

lemma write_then_read:
  assumes m: "vfs_find_mount v path = Some (i, m, rel)" "m_ops m = ops" "inv s" "length bytes < 2 ^ 63"
    and w: "vfs_write_file v cr s path bytes = (0, s')"
    and p: "vfs_perm_check v cr' s' path False = 0" "length bytes \<le> cap"
  shows "vfs_read_file v cr' s' path (Some buf) cap = (0, Some (length bytes), Some (bytes @ drop (length bytes) buf))"
  using read_through [OF m(1,2) write_through(1) [OF m w] p(1) write_through(2) [OF m w] p(2)] .

lemma write_keeps_others:
  assumes m: "vfs_find_mount v path = Some (i, m, rel)" "m_ops m = ops" "inv s" "length bytes < 2 ^ 63"
    and w: "vfs_write_file v cr s path bytes = (0, s')"
    and o: "vfs_find_mount v other = Some (i', m', rel')" "m_ops m' = ops"
    and d: "m_ctx m' \<noteq> m_ctx m \<or> key rel' \<noteq> key rel"
    and c: "content (m_ctx m') s rel' = Some old" "length old \<le> cap"
    and p: "vfs_perm_check v cr' s' other False = 0"
  shows "vfs_read_file v cr' s' other (Some buf) cap = (0, Some (length old), Some (old @ drop (length old) buf))"
  using read_through [OF o write_through(1) [OF m w] p write_through(3) [OF m w d c(1)] c(2)] .

end

text \<open>The bytes of a path in a file system in memory.\<close>

definition ramfs_content :: "ramfs \<Rightarrow> string \<Rightarrow> u8 list option" where
  "ramfs_content fs p =
     (if abs_path p
      then case ramfs_view fs (path_tokens p) of Some (File bs, _) \<Rightarrow> Some bs | _ \<Rightarrow> None
      else None)"

lemma ramfs_content_Some:
  "ramfs_content fs p = Some bs \<longleftrightarrow> abs_path p \<and> (\<exists>a. ramfs_view fs (path_tokens p) = Some (File bs, a))"
  by (auto simp: ramfs_content_def split: option.splits fkind.splits)

lemma ramfs_write_content:
  assumes inv: "ramfs_inv fs" and len: "length bytes < 2 ^ 63"
    and op: "ramfs_op_write_file u fs p bytes = (rc, fs')"
  shows "ramfs_inv fs'" "rc = 0 \<Longrightarrow> ramfs_content fs' p = Some bytes"
    "path_tokens q \<noteq> path_tokens p \<Longrightarrow> ramfs_content fs q = Some old \<Longrightarrow> ramfs_content fs' q = Some old"
proof -
  note C = create_file_spec [OF inv len op [unfolded ramfs_op_write_file_def]]
  show "ramfs_inv fs'" using C by blast
  show "ramfs_content fs' p = Some bytes" if "rc = 0"
  proof (cases "ramfs_view fs (path_tokens p)")
    case (Some x)
    obtain k a where "x = (k, a)" by (cases x)
    with C that Some show ?thesis by (cases k) (auto simp: ramfs_content_def)
  qed (use C that in \<open>auto simp: ramfs_content_def\<close>)
  assume q: "path_tokens q \<noteq> path_tokens p" "ramfs_content fs q = Some old"
  then obtain a where a: "abs_path q" "ramfs_view fs (path_tokens q) = Some (File old, a)"
    by (auto simp: ramfs_content_Some)
  have "ramfs_view fs' (path_tokens q) = Some (File old, a)"
  proof (cases "rc = 0")
    case True
    show ?thesis
    proof (cases "ramfs_view fs (path_tokens p)")
      case (Some x)
      obtain k b where "x = (k, b)" by (cases x)
      with C True Some a q(1) show ?thesis by (cases k) auto
    qed (use C True a q(1) in \<open>auto simp: mk_dirs_keeps\<close>)
  qed (use C a in blast)
  with a(1) show "ramfs_content fs' q = Some old" by (simp add: ramfs_content_def)
qed

interpretation ramb: file_backend g_ramfs_ops "\<lambda>s. \<forall>c. ramfs_inv (s c)" "\<lambda>c s. ramfs_content (s c)" path_tokens
proof
  fix w :: "'a \<Rightarrow> cred \<Rightarrow> ('a \<Rightarrow> ramfs) \<Rightarrow> string \<Rightarrow> u8 list \<Rightarrow> int \<times> ('a \<Rightarrow> ramfs)"
    and s s' :: "'a \<Rightarrow> ramfs" and bytes c cr p rc
  assume "b_write_file g_ramfs_ops = Some w" and inv: "\<forall>c. ramfs_inv (s c)" and len: "length bytes < 2 ^ 63"
    and "w c cr s p bytes = (rc, s')"
  then have "on_ctx c s (\<lambda>f. ramfs_op_write_file (cr_uid cr) f p bytes) = (rc, s')"
    by (auto simp: g_ramfs_ops_def)
  then obtain f where f: "ramfs_op_write_file (cr_uid cr) (s c) p bytes = (rc, f)" "s' = s(c := f)"
    by (auto simp: on_ctx_def split: prod.splits)
  note W = ramfs_write_content [OF inv [rule_format] len f(1)]
  show "(\<forall>c. ramfs_inv (s' c)) \<and> (rc = 0 \<longrightarrow> ramfs_content (s' c) p = Some bytes)
      \<and> (\<forall>q old. path_tokens q \<noteq> path_tokens p \<longrightarrow> ramfs_content (s c) q = Some old \<longrightarrow> ramfs_content (s' c) q = Some old)
      \<and> (\<forall>d q. d \<noteq> c \<longrightarrow> ramfs_content (s' d) q = ramfs_content (s d) q)"
    using W inv by (auto simp: f(2))
next
  fix r :: "'a \<Rightarrow> ('a \<Rightarrow> ramfs) \<Rightarrow> string \<Rightarrow> u8 list option \<Rightarrow> nat \<Rightarrow> int \<times> nat option \<times> u8 list option"
    and s :: "'a \<Rightarrow> ramfs" and c p bytes cap buf
  assume r: "b_read_file g_ramfs_ops = Some r" and inv: "\<forall>c. ramfs_inv (s c)"
    and "ramfs_content (s c) p = Some bytes" and cap: "length bytes \<le> cap"
  then obtain a where a: "abs_path p" "ramfs_view (s c) (path_tokens p) = Some (File bytes, a)"
    by (auto simp: ramfs_content_Some)
  have "r = (\<lambda>c s. ramfs_op_read_file (s c))" using r by (auto simp: g_ramfs_ops_def)
  then show "r c s p (Some buf) cap = (0, Some (length bytes), Some (bytes @ drop (length bytes) buf))"
    using read_file_eq [OF inv [rule_format] a(1), of c "Some buf" cap] a(2) cap by simp
qed (simp_all add: g_ramfs_ops_def)

text \<open>
  C21. Through mounts of file systems in memory, what a successful write stored is what a read
  of the same path by anyone allowed to gives back. Every other file of such a mount, the
  same or another one, reads afterwards as its bytes before.
\<close>

theorem vfs_write_then_read:
  assumes "vfs_find_mount v path = Some (i, m, rel)" "m_ops m = g_ramfs_ops"
    and "\<forall>c. ramfs_inv (s c)" "length bytes < 2 ^ 63"
    and "vfs_write_file v cr s path bytes = (0, s')"
  shows "(\<forall>cr' buf cap. vfs_perm_check v cr' s' path False = 0 \<longrightarrow> length bytes \<le> cap \<longrightarrow>
        vfs_read_file v cr' s' path (Some buf) cap = (0, Some (length bytes), Some (bytes @ drop (length bytes) buf)))
    \<and> (\<forall>other i' m' rel' old cr' buf cap.
        vfs_find_mount v other = Some (i', m', rel') \<longrightarrow> m_ops m' = g_ramfs_ops \<longrightarrow>
        m_ctx m' \<noteq> m_ctx m \<or> path_tokens rel' \<noteq> path_tokens rel \<longrightarrow>
        ramfs_content (s (m_ctx m')) rel' = Some old \<longrightarrow>
        vfs_perm_check v cr' s' other False = 0 \<longrightarrow> length old \<le> cap \<longrightarrow>
        vfs_read_file v cr' s' other (Some buf) cap = (0, Some (length old), Some (old @ drop (length old) buf)))"
proof (intro conjI allI impI)
  fix cr' buf cap assume "vfs_perm_check v cr' s' path False = 0" "length bytes \<le> cap"
  then show "vfs_read_file v cr' s' path (Some buf) cap = (0, Some (length bytes), Some (bytes @ drop (length bytes) buf))"
    by (rule ramb.write_then_read [OF assms])
next
  fix other i' m' rel' old cr' buf cap
  assume "vfs_find_mount v other = Some (i', m', rel')" "m_ops m' = g_ramfs_ops"
    "m_ctx m' \<noteq> m_ctx m \<or> path_tokens rel' \<noteq> path_tokens rel"
    "ramfs_content (s (m_ctx m')) rel' = Some old" "vfs_perm_check v cr' s' other False = 0" "length old \<le> cap"
  then show "vfs_read_file v cr' s' other (Some buf) cap = (0, Some (length old), Some (old @ drop (length old) buf))"
    using ramb.write_keeps_others [OF assms] by blast
qed

section \<open>The union of two file systems\<close>

lemma copy_a_overruns:
  "length a_ents < a_count \<Longrightarrow> i \<le> length a_ents \<Longrightarrow> tot + (length a_ents - i) < max_entries \<Longrightarrow>
     union_copy_a a_ents a_count max_entries i tot out = None"
proof (induction a_ents a_count max_entries i tot out rule: union_copy_a.induct)
  case (1 a_ents a_count max_entries i tot out)
  show ?case
  proof (cases "i = length a_ents")
    case True
    with 1 show ?thesis by (subst union_copy_a.simps) simp
  next
    case False
    with 1 show ?thesis by (subst union_copy_a.simps) (auto simp: Suc_diff_Suc)
  qed
qed

text \<open>
  Listing a directory of a union of file systems in memory reads past the end of the
  temporary buffer of 16 entries whenever the directory has more than 16 in the upper file
  system and the caller asks for more than 16: the loop runs to the count the back end
  reports, which is not limited by the size of the buffer.
\<close>

theorem union_list_overruns:
  assumes "ops_a u = g_ramfs_ops" "ops_b u = g_ramfs_ops"
    and dir: "ramfs_resolve (s (ctx_a u)) path False = (Inr d, w)"
      "ntype (nodes (s (ctx_a u)) d) = RAMFS_NODE_DIR" "16 < child_count (nodes (s (ctx_a u)) d)"
    and "length a0 = UNION_TEMP_ENTS" "16 < max_entries"
  shows "union_list_dir (Some a0) (Some b0) u s path out max_entries = None"
proof -
  obtain ents where l: "temp_list (ops_a u) (ctx_a u) s path a0
      = Some (0, child_count (nodes (s (ctx_a u)) d), ents)" and len: "length ents = 16"
    using assms by (simp add: temp_list_def g_ramfs_ops_def ramfs_op_list_dir_def Let_def UNION_TEMP_ENTS_def)
  have "union_copy_a ents (child_count (nodes (s (ctx_a u)) d)) max_entries 0 0 out = None"
    by (rule copy_a_overruns) (use dir(3) len assms(7) in simp_all)
  with l show ?thesis
    by (simp add: union_list_dir_def split: option.split prod.split)
qed

text \<open>A well-formed file system with 17 files in its root directory.\<close>

definition big_ramfs :: ramfs where
  "big_ramfs = ramfs_init\<lparr>nodes := (\<lambda>i.
     if i = 0 then (nodes ramfs_init 0)\<lparr>children := [1..<18] @ replicate 47 0, child_count := 17\<rparr>
     else if i < 18 then new_node 0 (replicate i CHR ''f'') RAMFS_NODE_FILE
     else zero_node)\<rparr>"

lemma big_ramfs_inv: "ramfs_inv big_ramfs"
proof -
  have kids: "kids big_ramfs i = (if i = 0 then [1..<18] else [])" for i
    by (simp add: kids_def big_ramfs_def new_node_def zero_node_def)
  have name: "name (nodes big_ramfs i) = replicate i CHR ''f''" if "i \<in> set [1..<18]" for i
    using that by (simp add: big_ramfs_def new_node_def)
  have "map (\<lambda>c. name (nodes big_ramfs c)) [1..<18] = map (\<lambda>i. replicate i CHR ''f'') [1..<18]"
    using name by simp
  moreover have "distinct (map (\<lambda>i. replicate i CHR ''f'') [1..<18])"
    by (simp add: distinct_map inj_on_def replicate_eq_replicate)
  ultimately have d: "distinct (map (\<lambda>c. name (nodes big_ramfs c)) [1..<18])" by metis
  have links: "links_ok big_ramfs i" for i
    using d unfolding links_ok_def kids
    by (auto simp: big_ramfs_def ramfs_init_eq new_node_def RAMFS_MAX_NODES_def)
  show ?thesis
    unfolding ramfs_inv_def using links
    by (auto simp: big_ramfs_def ramfs_init_eq new_node_def zero_node_def node_ok_def apart_def
        RAMFS_MAX_NODES_def RAMFS_MAX_CHILDREN_def VFS_MAX_NAME_def)
qed

theorem union_list_overruns_witness:
  "ramfs_inv big_ramfs
     \<and> union_list_dir (Some (replicate 16 \<lparr>d_name = [], d_is_dir = False, d_size = 0\<rparr>)) (Some [])
         \<lparr>ops_a = g_ramfs_ops, ctx_a = True, ops_b = g_ramfs_ops, ctx_b = False\<rparr>
         (\<lambda>_. big_ramfs) ''/'' (Some []) 64 = None"
  by (intro conjI big_ramfs_inv, rule union_list_overruns [of _ _ _ 0 "(Some (0, []), big_ramfs)"])
    (simp_all add: ramfs_resolve_def ramfs_path_next_def big_ramfs_def ramfs_init_eq UNION_TEMP_ENTS_def)

text \<open>
  A read through the union answers from the upper file system when that succeeds, and from
  the lower one when the upper has no such file. It also answers from the lower one when the
  upper file does not fit the buffer: the caller gets the bytes of another file and success.
\<close>

theorem union_read_choice:
  assumes ops: "ops_a u = g_ramfs_ops" "ops_b u = g_ramfs_ops"
    and inv: "\<forall>c. ramfs_inv (s c)" and ab: "abs_path path"
  shows "(\<forall>bs. ramfs_content (s (ctx_a u)) path = Some bs \<longrightarrow> length bs \<le> cap \<longrightarrow>
           union_read_file u s path (Some buf) cap = (0, Some (length bs), Some (bs @ drop (length bs) buf)))
     \<and> (\<forall>bs. ramfs_content (s (ctx_b u)) path = Some bs \<longrightarrow> length bs \<le> cap \<longrightarrow>
           (case ramfs_content (s (ctx_a u)) path of None \<Rightarrow> True | Some up \<Rightarrow> cap < length up) \<longrightarrow>
           union_read_file u s path (Some buf) cap = (0, Some (length bs), Some (bs @ drop (length bs) buf)))"
proof -
  have f: "b_read_file g_ramfs_ops = Some (\<lambda>c s. ramfs_op_read_file (s c))" by (simp add: g_ramfs_ops_def)
  have r: "ramfs_op_read_file (s c) path (Some buf) cap =
      (case ramfs_content (s c) path of
         None \<Rightarrow> (if ramfs_view (s c) (path_tokens path) = None then -1 else -2, None, Some buf)
       | Some bs \<Rightarrow> if cap < length bs then (-3, Some (length bs), Some buf)
                    else (0, Some (length bs), Some (bs @ drop (length bs) buf)))" for c
  proof -
    have i: "ramfs_inv (s c)" using inv by blast
    show ?thesis
      using ab by (auto simp: read_file_eq [OF i ab] ramfs_content_def split: option.split fkind.split)
  qed
  show ?thesis
    using ops by (auto simp: union_read_file_def f r split: option.split)
qed

definition union_ex :: "(bool, bool \<Rightarrow> ramfs) union_ctx" where
  "union_ex = \<lparr>ops_a = g_ramfs_ops, ctx_a = True, ops_b = g_ramfs_ops, ctx_b = False\<rparr>"

lemma content_ex: "ramfs_content ramfs_ex ''/a'' = Some [1, 2]"
  by (simp add: ramfs_content_def abs_ex tokens_ex ramfs_ex(2))

theorem union_read_choice_witness:
  "union_read_file union_ex (\<lambda>_. ramfs_ex) ''/a'' (Some [0, 0, 0]) 3 = (0, Some 2, Some [1, 2, 0])"
  using union_read_choice [of union_ex "\<lambda>_. ramfs_ex" "''/a''" 3 "[0, 0, 0]"] ramfs_ex(1) abs_ex(1)
  by (simp add: content_ex union_ex_def)

section \<open>Examples\<close>

definition vfs_ex :: "(nat, nat \<Rightarrow> ramfs) vfs" where
  "vfs_ex = \<lparr>g_mounts = [Some \<lparr>mount_point = ''/'', m_ops = g_ramfs_ops, m_ctx = 0\<rparr>,
                        Some \<lparr>mount_point = ''/t'', m_ops = g_ramfs_ops, m_ctx = 1\<rparr>],
     g_overlay_mount_path = []\<rparr>"

lemma vfs_ex_find:
  "vfs_find_mount vfs_ex ''/a'' = Some (0, \<lparr>mount_point = ''/'', m_ops = g_ramfs_ops, m_ctx = 0\<rparr>, ''/a'')"
  "vfs_find_mount vfs_ex ''/t/a'' = Some (1, \<lparr>mount_point = ''/t'', m_ops = g_ramfs_ops, m_ctx = 1\<rparr>, ''/a'')"
  by (simp_all add: vfs_find_mount_def vfs_ex_def vfs_path_is_prefix_def char_at_def)

theorem vfs_longest_mount_witness:
  "vfs_find_mount vfs_ex ''/t/a'' = Some (1, \<lparr>mount_point = ''/t'', m_ops = g_ramfs_ops, m_ctx = 1\<rparr>, ''/a'')
     \<and> below ''/t'' ''/t/a''"
  using vfs_longest_mount [of "''/t/a''" vfs_ex] by (simp add: vfs_ex_find)

theorem vfs_protects_witness:
  "vfs_exec vfs_ex \<lparr>cr_uid = 7, cr_gid = 7\<rparr> (VCreate ''/a'' 0 [1]) (\<lambda>_. ramfs_init) = (-1, \<lambda>_. ramfs_init)"
proof -
  have "ramfs_op_getattr ramfs_init ''/a'' = None"
    using resolve_view_False [OF ramfs_inv_init abs_ex(1)]
    by (auto simp: tokens_ex view_init ramfs_op_getattr_def)
  then have "vfs_getattr vfs_ex (\<lambda>_. ramfs_init) ''/a'' = None"
    by (simp add: vfs_getattr_def vfs_ex_find g_ramfs_ops_def)
  then show ?thesis
    by (intro vfs_protects [of _ "''/a''"]) simp_all
qed

theorem vfs_write_then_read_witness:
  "\<exists>s'. vfs_write_file vfs_ex \<lparr>cr_uid = 0, cr_gid = 0\<rparr> (\<lambda>_. ramfs_ex) ''/a'' [3] = (0, s')
     \<and> vfs_read_file vfs_ex \<lparr>cr_uid = 0, cr_gid = 0\<rparr> s' ''/a'' (Some [0, 0, 0]) 3 = (0, Some 1, Some [3, 0, 0])
     \<and> vfs_read_file vfs_ex \<lparr>cr_uid = 0, cr_gid = 0\<rparr> s' ''/t/a'' (Some [0, 0, 0]) 3 = (0, Some 2, Some [1, 2, 0])"
proof -
  let ?root = "\<lparr>cr_uid = 0, cr_gid = 0\<rparr>"
  obtain rc f where w: "ramfs_op_create_file 0 ramfs_ex ''/a'' 0 [3] = (rc, f)"
    by (cases "ramfs_op_create_file 0 ramfs_ex ''/a'' 0 [3]")
  have "rc = 0" using create_file_spec [OF ramfs_ex(1) _ w] by (simp add: abs_ex tokens_ex ramfs_ex(2))
  then have v: "vfs_write_file vfs_ex ?root (\<lambda>_. ramfs_ex) ''/a'' [3] = (0, (\<lambda>_. ramfs_ex)(0 := f))"
    using w by (simp add: vfs_write_file_def vfs_perm_check_def vfs_ex_find g_ramfs_ops_def on_ctx_def
        ramfs_op_write_file_def)
  show ?thesis
    using vfs_write_then_read [OF vfs_ex_find(1) _ _ _ v] v ramfs_ex(1) content_ex vfs_ex_find(2)
    by (simp add: vfs_perm_check_def)
qed

end
