(* ===== verification/Tty.thy ===== *)
theory Tty
  imports Input
begin

text \<open>
  The terminals, \<open>kernel/src/drivers/tty/tty.c\<close>: the ring of each terminal, the cooked and
  raw read loops, and the terminal attributes.

  A reader polls for a character and yields when there is none; meanwhile interrupts and
  other threads run. The loops therefore work on the list of what the successive polls
  answer (\<open>None\<close>: nothing there), which \<open>read_from_input\<close> gives for terminal 0 and
  \<open>tty_ring_pop\<close> for the others; when the list is used up the reader is still waiting and
  the result is \<open>None\<close>. What is printed is a list of strings.
\<close>

definition TTY_BUF_SIZE :: nat where "TTY_BUF_SIZE = 4096"
definition TTY_MAX_TTYS :: nat where "TTY_MAX_TTYS = 4"
definition TTY_TCGETS :: u64 where "TTY_TCGETS = 0x5401"
definition TTY_TCSETS :: u64 where "TTY_TCSETS = 0x5402"
definition TTY_TIOCGWINSZ :: u64 where "TTY_TIOCGWINSZ = 0x5413"
definition TTY_ECHO :: u32 where "TTY_ECHO = 8"
definition TTY_ICANON :: u32 where "TTY_ICANON = 2"
definition TTY_ISIG :: u32 where "TTY_ISIG = 1"

record tty_termios =
  c_iflag :: u32
  c_oflag :: u32
  c_cflag :: u32
  c_lflag :: u32
  c_cc :: "u8 list"

record tty =
  tty_buf :: "nat \<Rightarrow> u8"
  tty_head :: nat
  tty_tail :: nat
  tty_echo :: bool
  tty_cooked :: bool
  tty_isig :: bool
  termios :: tty_termios

definition zero_termios :: tty_termios where
  "zero_termios = \<lparr>c_iflag = 0, c_oflag = 0, c_cflag = 0, c_lflag = 0, c_cc = replicate 32 0\<rparr>"

text \<open>One terminal as \<open>tty_init\<close> leaves it.\<close>

definition tty_initial :: tty where
  "tty_initial = \<lparr>tty_buf = (\<lambda>_. 0), tty_head = 0, tty_tail = 0, tty_echo = True, tty_cooked = True,
     tty_isig = True, termios = zero_termios\<lparr>c_lflag := TTY_ECHO OR TTY_ICANON OR TTY_ISIG\<rparr>\<rparr>"

text \<open>The terminals, or \<open>None\<close> before the first \<open>tty_init\<close>.\<close>

definition tty_init :: "(nat \<Rightarrow> tty) option \<Rightarrow> (nat \<Rightarrow> tty) option" where
  "tty_init ttys = (case ttys of Some t \<Rightarrow> Some t | None \<Rightarrow> Some (\<lambda>_. tty_initial))"

section \<open>The ring\<close>

definition tty_ring_push :: "tty \<Rightarrow> u8 \<Rightarrow> int \<times> tty" where
  "tty_ring_push t c =
     (let nxt = (tty_head t + 1) mod TTY_BUF_SIZE in
      if nxt = tty_tail t then (-1, t)
      else (0, t\<lparr>tty_buf := (tty_buf t)(tty_head t := c), tty_head := nxt\<rparr>))"

definition tty_ring_pop :: "tty \<Rightarrow> u8 option \<times> tty" where
  "tty_ring_pop t =
     (if tty_tail t = tty_head t then (None, t)
      else (Some (tty_buf t (tty_tail t)), t\<lparr>tty_tail := (tty_tail t + 1) mod TTY_BUF_SIZE\<rparr>))"

definition tty_ring_avail :: "tty \<Rightarrow> int" where
  "tty_ring_avail t =
     (let avail = int (tty_head t) - int (tty_tail t)
      in if avail < 0 then avail + int TTY_BUF_SIZE else avail)"

definition read_from_input :: "input_sys \<Rightarrow> u8 option \<times> input_sys" where
  "read_from_input s =
     (case input_try_getchar s of
        (None, s') \<Rightarrow> (None, s')
      | (Some c, s') \<Rightarrow> (Some (word_of_nat (of_char c)), s'))"

section \<open>Reading\<close>

abbreviation print1 :: "u8 \<Rightarrow> string" where "print1 c \<equiv> [char_of (unat c)]"

definition rubout :: string where "rubout = [CHR 0x08, CHR '' '', CHR 0x08]"

text \<open>
  The loop of \<open>tty_read_cooked\<close>: polls to come, bytes stored (those below \<open>pos\<close>), and
  what has been printed. The result is the polls left, the bytes and the output.
\<close>

fun tty_cooked_loop ::
  "tty \<Rightarrow> nat \<Rightarrow> u8 option list \<Rightarrow> u8 list \<Rightarrow> string list \<Rightarrow> (u8 option list \<times> u8 list \<times> string list) option" where
  "tty_cooked_loop t len polls dst out =
     (if length dst < len then
        (case polls of
           [] \<Rightarrow> None
         | None # polls' \<Rightarrow>
             if dst \<noteq> [] then Some (polls', dst, out) else tty_cooked_loop t len polls' dst out
         | Some c # polls' \<Rightarrow>
             if c = 3 \<and> tty_isig t then tty_cooked_loop t len polls' dst out
             else if c = 8 \<or> c = 127 then
               (if dst \<noteq> [] then
                  tty_cooked_loop t len polls' (butlast dst) (if tty_echo t then out @ [rubout] else out)
                else tty_cooked_loop t len polls' dst out)
             else
               let c = (if c = 13 then 10 else c);
                   out = (if tty_echo t then out @ [print1 c] else out);
                   dst = dst @ [c]
               in if c = 10 then Some (polls', dst, out) else tty_cooked_loop t len polls' dst out)
      else Some (polls, dst, out))"

declare tty_cooked_loop.simps [simp del]

text \<open>The loop of \<open>tty_read_raw\<close>, which ends with the first byte.\<close>

fun tty_raw_loop :: "tty \<Rightarrow> u8 option list \<Rightarrow> (u8 option list \<times> u8 list \<times> string list) option" where
  "tty_raw_loop t [] = None"
| "tty_raw_loop t (None # polls) = tty_raw_loop t polls"
| "tty_raw_loop t (Some c # polls) = Some (polls, [c], if tty_echo t then [print1 c] else [])"

text \<open>
  \<open>tty_read\<close>: \<open>None\<close> while waiting; else the polls left, the status, the bytes read
  (\<open>*out_read\<close> is their number) and the output.
\<close>

definition tty_read ::
  "(nat \<Rightarrow> tty) \<Rightarrow> int \<Rightarrow> nat \<Rightarrow> u8 option list \<Rightarrow> (u8 option list \<times> int \<times> u8 list option \<times> string list) option" where
  "tty_read ttys tty_id len polls =
     (if tty_id < 0 \<or> tty_id \<ge> int TTY_MAX_TTYS then Some (polls, -1, None, [])
      else if len = 0 then Some (polls, -1, None, [])
      else let t = ttys (nat tty_id) in
        map_option (\<lambda>(polls', bytes, out). (polls', 0, Some bytes, out))
          (if tty_cooked t then tty_cooked_loop t len polls [] [] else tty_raw_loop t polls))"

definition tty_write :: "u8 list \<Rightarrow> int \<times> nat \<times> string list" where
  "tty_write bytes = (0, length bytes, map print1 bytes)"

section \<open>Attributes\<close>

datatype ioctl_arg = ArgNull | ArgTermios tty_termios | ArgWinsize "u16 list"

definition tty_ioctl :: "(nat \<Rightarrow> tty) \<Rightarrow> int \<Rightarrow> u64 \<Rightarrow> ioctl_arg \<Rightarrow> int \<times> ioctl_arg \<times> (nat \<Rightarrow> tty)" where
  "tty_ioctl ttys tty_id req arg =
     (if tty_id < 0 \<or> tty_id \<ge> int TTY_MAX_TTYS then (-1, arg, ttys)
      else let i = nat tty_id; t = ttys i in
        if req = TTY_TCGETS then
          (if arg = ArgNull then (-1, arg, ttys) else (0, ArgTermios (termios t), ttys))
        else if req = TTY_TCSETS then
          (case arg of
             ArgTermios tm \<Rightarrow>
               (0, arg, ttys(i := t\<lparr>termios := tm, tty_echo := (c_lflag tm AND TTY_ECHO \<noteq> 0),
                          tty_cooked := (c_lflag tm AND TTY_ICANON \<noteq> 0),
                          tty_isig := (c_lflag tm AND TTY_ISIG \<noteq> 0)\<rparr>))
           | _ \<Rightarrow> (-1, arg, ttys))
        else if req = TTY_TIOCGWINSZ then
          (if arg = ArgNull then (-1, arg, ttys) else (0, ArgWinsize [25, 80, 0, 0], ttys))
        else (-1, arg, ttys))"

section \<open>What a cooked read returns\<close>

text \<open>
  The line discipline as a function of the characters typed: interrupts are dropped, a
  rubout takes back one character of this read, a return is a newline.
\<close>

fun edit :: "bool \<Rightarrow> u8 list \<Rightarrow> u8 list \<Rightarrow> u8 list" where
  "edit isig acc [] = acc"
| "edit isig acc (c # cs) =
     (if c = 3 \<and> isig then edit isig acc cs
      else if c = 8 \<or> c = 127 then edit isig (butlast acc) cs
      else edit isig (acc @ [if c = 13 then 10 else c]) cs)"

abbreviation typed :: "u8 option list \<Rightarrow> u8 list" where
  "typed \<equiv> List.map_filter id"

lemma typed_simps [simp]: "typed [] = []" "typed (None # p) = typed p" "typed (Some c # p) = c # typed p"
  by (simp_all add: List.map_filter_simps)

lemma edit_append: "edit isig acc (xs @ ys) = edit isig (edit isig acc xs) ys"
  by (induction isig acc xs rule: edit.induct) auto

definition line_so_far :: "u8 list \<Rightarrow> bool" where
  "line_so_far dst \<longleftrightarrow> set dst \<inter> {8, 10, 13, 127} = {}"

text \<open>What a finished read amounts to, for the induction and for the theorem.\<close>

definition line_result :: "tty \<Rightarrow> nat \<Rightarrow> u8 list \<Rightarrow> u8 option list \<Rightarrow> u8 list \<Rightarrow> bool" where
  "line_result t len dst used bytes \<longleftrightarrow>
     bytes = edit (tty_isig t) dst (typed used) \<and> length bytes \<le> len \<and> line_so_far (butlast bytes)
     \<and> (length bytes = len \<or> (bytes \<noteq> [] \<and> List.last bytes = 10)
        \<or> bytes \<noteq> [] \<and> (\<exists>u. used = u @ [None]))"

lemma line_result_skip:
  "line_result t len dst used bytes \<Longrightarrow> edit (tty_isig t) dst (typed (x # used)) = edit (tty_isig t) dst (typed used)
     \<Longrightarrow> line_result t len dst (x # used) bytes"
  unfolding line_result_def by (metis append_Cons)

lemma line_result_step:
  "line_result t len dst' used bytes \<Longrightarrow> edit (tty_isig t) dst (typed (x # used)) = edit (tty_isig t) dst' (typed used)
     \<Longrightarrow> line_result t len dst (x # used) bytes"
  unfolding line_result_def by (metis append_Cons)

lemma line_butlast: "line_so_far dst \<Longrightarrow> line_so_far (butlast dst)"
  by (auto simp: line_so_far_def dest: in_set_butlastD)

lemma cooked_loop_result:
  assumes "tty_cooked_loop t len polls dst out = Some (left, bytes, out')"
    and "length dst \<le> len" and "line_so_far dst"
  shows "\<exists>used. polls = used @ left \<and> line_result t len dst used bytes"
  using assms
proof (induction polls arbitrary: dst out)
  case Nil
  then have "length dst = len" "left = []" "bytes = dst"
    by (auto simp: tty_cooked_loop.simps [of _ _ "[]"] split: if_splits)
  with Nil show ?case by (auto simp: line_result_def line_butlast)
next
  case (Cons p polls)
  note go = Cons.prems(1) [unfolded tty_cooked_loop.simps [of _ _ "p # polls"]]
  note IH = Cons.IH
  show ?case
  proof (cases "length dst < len")
    case False
    with go have "left = p # polls" "bytes = dst" by simp_all
    with False Cons.prems show ?thesis by (auto simp: line_result_def line_butlast)
  next
    case room: True
    have step: ?thesis
      if "tty_cooked_loop t len polls dst' o' = Some (left, bytes, out')" "length dst' \<le> len" "line_so_far dst'"
        "\<And>used. edit (tty_isig t) dst (typed (p # used)) = edit (tty_isig t) dst' (typed used)" for dst' o'
    proof -
      from IH [OF that(1-3)] obtain used where u: "polls = used @ left" "line_result t len dst' used bytes" by blast
      have "p # polls = (p # used) @ left" using u(1) by simp
      with line_result_step [OF u(2) that(4)] show ?thesis by blast
    qed
    show ?thesis
    proof (cases p)
      case None
      show ?thesis
      proof (cases "dst = []")
        case True
        with go None room Cons.prems show ?thesis by (intro step [of dst out]) auto
      next
        case False
        with go None room have "left = polls" "bytes = dst" by auto
        with None False Cons.prems show ?thesis
          by (intro exI [of _ "[None]"]) (auto simp: line_result_def line_butlast)
      qed
    next
      case (Some c)
      define c' where "c' = (if c = 13 then 10 else c)"
      consider (sig) "c = 3" "tty_isig t" | (rub) "\<not> (c = 3 \<and> tty_isig t)" "c = 8 \<or> c = 127"
        | (nl) "\<not> (c = 3 \<and> tty_isig t)" "\<not> (c = 8 \<or> c = 127)" "c' = 10"
        | (chr) "\<not> (c = 3 \<and> tty_isig t)" "\<not> (c = 8 \<or> c = 127)" "c' \<noteq> 10" by blast
      then show ?thesis
      proof cases
        case sig
        with go Some room Cons.prems show ?thesis by (intro step [of dst out]) auto
      next
        case rub
        show ?thesis
        proof (cases "dst = []")
          case True
          with rub go Some room Cons.prems show ?thesis by (intro step [of dst out]) auto
        next
          case False
          have "line_so_far (butlast dst)" "length (butlast dst) \<le> len"
            using Cons.prems(2,3) line_butlast by auto
          with False rub go Some room show ?thesis
            by (intro step [of "butlast dst" "if tty_echo t then out @ [rubout] else out"]) auto
        qed
      next
        case nl
        then have "left = polls" "bytes = dst @ [10]"
          using go Some room c'_def by (auto simp: Let_def split: if_splits)
        then show ?thesis
          using Some nl c'_def Cons.prems(3) room
          by (intro exI [of _ "[p]"]) (auto simp: line_result_def split: if_splits)
      next
        case chr
        have "line_so_far (dst @ [c'])"
          using Cons.prems(3) chr by (auto simp: line_so_far_def c'_def split: if_splits)
        with chr go Some room show ?thesis
          by (intro step [of "dst @ [c']" "if tty_echo t then out @ [print1 c'] else out"])
            (auto simp: c'_def Let_def split: if_splits)
      qed
    qed
  qed
qed

lemma cooked_loop_returns:
  "\<exists>c\<in>set (typed polls). c = 10 \<or> c = 13 \<Longrightarrow> \<exists>r. tty_cooked_loop t len polls dst out = Some r"
proof (induction polls arbitrary: dst out)
  case (Cons p polls)
  note unfold = tty_cooked_loop.simps [of t len "p # polls" dst out]
  show ?case
  proof (cases p)
    case None
    with Cons show ?thesis unfolding unfold by auto
  next
    case (Some c)
    show ?thesis
    proof (cases "c = 10 \<or> c = 13")
      case True
      with Some show ?thesis unfolding unfold by (auto simp: Let_def)
    next
      case False
      with Some Cons show ?thesis unfolding unfold by (auto simp: Let_def)
    qed
  qed
qed simp

text \<open>
  C22. A read of a terminal in cooked mode returns as soon as a line end has been typed. It
  delivers the characters of the polls it used, edited: interrupts dropped, rubouts applied,
  returns turned into newlines. A newline can only be the last byte, and the read ends at
  one, at a full buffer, or at the first poll that finds nothing after something was typed.
\<close>

theorem tty_cooked_read_is_edited_line:
  assumes "0 \<le> n" "n < int TTY_MAX_TTYS" "0 < len" "tty_cooked (ttys (nat n))"
    and "\<exists>c\<in>set (typed polls). c = 10 \<or> c = 13"
  shows "\<exists>left used bytes out. tty_read ttys n len polls = Some (left, 0, Some bytes, out)
     \<and> polls = used @ left \<and> line_result (ttys (nat n)) len [] used bytes"
proof -
  obtain left bytes out where r: "tty_cooked_loop (ttys (nat n)) len polls [] [] = Some (left, bytes, out)"
    using cooked_loop_returns [OF assms(5)] by (metis prod_cases3)
  from cooked_loop_result [OF r] obtain used where
    "polls = used @ left" "line_result (ttys (nat n)) len [] used bytes" by (auto simp: line_so_far_def)
  with r assms(1-4) show ?thesis by (auto simp: tty_read_def Let_def)
qed

theorem tty_cooked_read_is_edited_line_witness:
  "\<exists>left used bytes out. tty_read (\<lambda>_. tty_initial) 0 80 [None, Some 97, Some 98, Some 8, Some 13]
       = Some (left, 0, Some bytes, out)
     \<and> [None, Some 97, Some 98, Some 8, Some 13] = used @ left \<and> line_result tty_initial 80 [] used bytes"
  using tty_cooked_read_is_edited_line [of 0 80 "\<lambda>_. tty_initial" "[None, Some 97, Some 98, Some 8, Some 13]"]
  by (simp add: TTY_MAX_TTYS_def tty_initial_def)

end
