(* ===== verification/Devfs.thy ===== *)
theory Devfs
  imports Vfs Tty
begin

text \<open>
  The device file system, \<open>kernel/src/fs/devfs.c\<close>: a table of named devices, the four
  kinds of device the kernel registers, and the operations it offers the virtual file system.

  A table of device functions is the constructor that names it; the context pointer of a
  terminal is its number, 0 for the others. \<open>devworld\<close> is what the devices act on: the
  input layer, the terminals, what the next polls of a terminal will find, and the output.
  The memory an \<open>ioctl\<close> argument points to is the list of its bytes, and the result is
  \<open>None\<close> when the device writes past its end.
\<close>

definition DEVFS_MAX_NODES :: nat where "DEVFS_MAX_NODES = 16"

datatype devfs_ops = NullOps | ZeroOps | InputOps | TtyOps

record devfs_node =
  dn_name :: string
  dn_ops :: devfs_ops
  dn_ctx :: nat

type_synonym devfs_table = "devfs_node option list"

record devworld =
  dw_input :: input_sys
  dw_ttys :: "nat \<Rightarrow> tty"
  dw_polls :: "u8 option list"
  dw_out :: "string list"

section \<open>Names\<close>

definition devfs_has_prefix :: "string \<Rightarrow> string \<Rightarrow> bool" where
  "devfs_has_prefix path pre =
     (let plen = length pre in
      if take plen path \<noteq> pre then False
      else if char_at path plen = CHR 0x00 then True
      else char_at path plen = CHR ''/'')"

definition devfs_name_exists :: "dirent list option \<Rightarrow> nat \<Rightarrow> nat \<Rightarrow> string \<Rightarrow> bool" where
  "devfs_name_exists out count max_entries nm =
     (case out of
        None \<Rightarrow> False
      | Some ents \<Rightarrow>
          if max_entries = 0 then False
          else \<exists>e\<in>set (take (min count max_entries) ents). d_name e = nm)"

definition devfs_emit_child ::
  "dirent list option \<Rightarrow> nat \<Rightarrow> nat \<Rightarrow> string \<Rightarrow> bool \<Rightarrow> dirent list option \<times> nat" where
  "devfs_emit_child out max_entries count nm is_dir =
     ((if count < max_entries
       then map_option (\<lambda>ents. ents[count :=
              \<lparr>d_name = take (VFS_MAX_NAME - 1) nm, d_is_dir = is_dir, d_size = 0\<rparr>]) out
       else out), count + 1)"

fun devfs_list_loop ::
  "devfs_table \<Rightarrow> string \<Rightarrow> dirent list option \<Rightarrow> nat \<Rightarrow> nat \<Rightarrow> dirent list option \<times> nat" where
  "devfs_list_loop [] path out max_entries count = (out, count)"
| "devfs_list_loop (None # ns) path out max_entries count = devfs_list_loop ns path out max_entries count"
| "devfs_list_loop (Some n # ns) path out max_entries count =
     (let nm = dn_name n in
      if \<not> devfs_has_prefix nm path then devfs_list_loop ns path out max_entries count
      else
        let rel = (if path = [] then nm else drop (length path) nm);
            rel = (if path \<noteq> [] \<and> char_at rel 0 = CHR ''/'' then drop 1 rel else rel);
            ch = takeWhile (\<lambda>c. c \<noteq> CHR ''/'') rel;
            is_dir = (CHR ''/'' \<in> set rel)
        in if ch = [] \<or> length ch \<ge> VFS_MAX_NAME then devfs_list_loop ns path out max_entries count
           else if devfs_name_exists out count max_entries ch then devfs_list_loop ns path out max_entries count
           else (case devfs_emit_child out max_entries count ch is_dir of
                   (out', count') \<Rightarrow> devfs_list_loop ns path out' max_entries count'))"

definition devfs_list_children ::
  "devfs_table \<Rightarrow> string \<Rightarrow> dirent list option \<Rightarrow> nat \<Rightarrow> int \<times> nat option \<times> dirent list option" where
  "devfs_list_children g path out max_entries =
     (case devfs_list_loop g path out max_entries 0 of (out', count) \<Rightarrow> (0, Some count, out'))"

section \<open>The back end\<close>

definition devfs_op_read_file :: "u8 list option \<Rightarrow> nat \<Rightarrow> int \<times> nat option \<times> u8 list option" where
  "devfs_op_read_file out cap = (if out = None \<or> cap = 0 then 0 else -1, Some 0, out)"

definition devfs_op_list_dir ::
  "devfs_table \<Rightarrow> string \<Rightarrow> dirent list option \<Rightarrow> nat \<Rightarrow> int \<times> nat option \<times> dirent list option" where
  "devfs_op_list_dir g path out max_entries =
     devfs_list_children g (if path = ''/'' then [] else path) out max_entries"

definition devfs_op_exists :: "devfs_table \<Rightarrow> string \<Rightarrow> int" where
  "devfs_op_exists g path =
     (if path = ''/'' then 1
      else if path = [] then 1
      else if \<exists>n\<in>set g. case n of None \<Rightarrow> False
                | Some n \<Rightarrow> dn_name n = path \<or> devfs_has_prefix (dn_name n) path then 1 else 0)"

text \<open>Modes \<open>0755 = 0x1ED\<close> for the root and \<open>0666 = 0x1B6\<close> for a device.\<close>

definition devfs_op_getattr :: "devfs_table \<Rightarrow> string \<Rightarrow> attr option" where
  "devfs_op_getattr g path =
     (if path = ''/'' \<or> path = [] then Some (0x1ED, 0, 0)
      else if \<exists>n\<in>set g. case n of None \<Rightarrow> False | Some n \<Rightarrow> dn_name n = path then Some (0x1B6, 0, 0)
      else None)"

definition devfs_op_mkdir :: "'s \<Rightarrow> int \<times> 's" where "devfs_op_mkdir s = (-1, s)"
definition devfs_op_create :: "'s \<Rightarrow> int \<times> 's" where "devfs_op_create s = (-1, s)"
definition devfs_op_write_file :: "'s \<Rightarrow> int \<times> 's" where "devfs_op_write_file s = (-1, s)"
definition devfs_op_remove :: "'s \<Rightarrow> int \<times> 's" where "devfs_op_remove s = (-1, s)"
definition devfs_op_rename :: "'s \<Rightarrow> int \<times> 's" where "devfs_op_rename s = (-1, s)"
definition devfs_op_chmod :: "'s \<Rightarrow> int \<times> 's" where "devfs_op_chmod s = (0, s)"
definition devfs_op_chown :: "'s \<Rightarrow> int \<times> 's" where "devfs_op_chown s = (0, s)"

text \<open>The table of operations; \<open>tab\<close> finds the device table in the state.\<close>

definition g_devfs_ops :: "('s \<Rightarrow> devfs_table) \<Rightarrow> ('c, 's) backend_ops" where
  "g_devfs_ops tab = \<lparr>
     b_mkdir = Some (\<lambda>c cr s path md. devfs_op_mkdir s),
     b_create_file = Some (\<lambda>c cr s path md bytes. devfs_op_create s),
     b_write_file = Some (\<lambda>c cr s path bytes. devfs_op_write_file s),
     b_read_file = Some (\<lambda>c s path. devfs_op_read_file),
     b_list_dir = Some (\<lambda>c s path out n. Some (devfs_op_list_dir (tab s) path out n)),
     b_exists = Some (\<lambda>c s. devfs_op_exists (tab s)),
     b_remove = Some (\<lambda>c s path. devfs_op_remove s),
     b_rename = Some (\<lambda>c s a b. devfs_op_rename s),
     b_getattr = Some (\<lambda>c s. devfs_op_getattr (tab s)),
     b_chmod = Some (\<lambda>c s path md. devfs_op_chmod s),
     b_chown = Some (\<lambda>c s path u g. devfs_op_chown s)\<rparr>"

section \<open>Registration\<close>

definition devfs_add_node :: "devfs_table \<Rightarrow> string \<Rightarrow> devfs_ops \<Rightarrow> nat \<Rightarrow> int \<times> devfs_table" where
  "devfs_add_node g nm ops ctx =
     (if nm = [] then (-1, g)
      else case find_index (\<lambda>n. n = None) g of
        None \<Rightarrow> (-1, g)
      | Some i \<Rightarrow> (0, g[i := Some \<lparr>dn_name = take 63 nm, dn_ops = ops, dn_ctx = ctx\<rparr>]))"

definition devfs_register :: "devfs_table \<Rightarrow> string \<Rightarrow> devfs_ops option \<Rightarrow> nat \<Rightarrow> int \<times> devfs_table" where
  "devfs_register g nm ops ctx =
     (case ops of None \<Rightarrow> (-1, g) | Some ops \<Rightarrow> devfs_add_node g nm ops ctx)"

text \<open>Terminal \<open>i\<close> is \<open>ttyi\<close>.\<close>

definition tty_register_all :: "devfs_table \<Rightarrow> devfs_table" where
  "tty_register_all g =
     fold (\<lambda>i g. snd (devfs_register g (''tty'' @ [char_of (48 + i)]) (Some TtyOps) i)) [0..<TTY_MAX_TTYS] g"

definition devfs_init :: "devfs_table" where
  "devfs_init =
     (let g = replicate DEVFS_MAX_NODES None;
          g = snd (devfs_add_node g ''null'' NullOps 0);
          g = snd (devfs_add_node g ''zero'' ZeroOps 0);
          g = snd (devfs_add_node g ''input/event0'' InputOps 0)
      in tty_register_all g)"

definition devfs_open :: "devfs_table \<Rightarrow> string \<Rightarrow> (devfs_ops \<times> nat) option" where
  "devfs_open g nm =
     (if nm = [] then None
      else case find (\<lambda>n. case n of None \<Rightarrow> False | Some n \<Rightarrow> dn_name n = nm) g of
        Some (Some n) \<Rightarrow> Some (dn_ops n, dn_ctx n)
      | _ \<Rightarrow> None)"

definition devfs_list ::
  "devfs_table \<Rightarrow> string option \<Rightarrow> dirent list option \<Rightarrow> nat \<Rightarrow> int \<times> nat option \<times> dirent list option" where
  "devfs_list g path out max_entries =
     devfs_list_children g (case path of None \<Rightarrow> [] | Some p \<Rightarrow> p) out max_entries"

definition devfs_exists :: "devfs_table \<Rightarrow> string \<Rightarrow> int" where
  "devfs_exists g path = devfs_op_exists g path"

section \<open>The devices\<close>

text \<open>Reads: status, \<open>*out_read\<close>, the buffer, the world.\<close>

definition devfs_null_read :: "u8 list option \<Rightarrow> nat \<Rightarrow> int \<times> nat option \<times> u8 list option" where
  "devfs_null_read out len = (0, Some 0, out)"

definition devfs_zero_read :: "u8 list option \<Rightarrow> nat \<Rightarrow> int \<times> nat option \<times> u8 list option" where
  "devfs_zero_read out len =
     (case out of None \<Rightarrow> (-1, None, out) | Some buf \<Rightarrow> (0, Some len, Some (replicate len 0 @ drop len buf)))"

definition devfs_write_stub :: "nat \<Rightarrow> int \<times> nat" where
  "devfs_write_stub len = (0, len)"

text \<open>An event in memory: two 64-bit, two 16-bit and one 32-bit number, little-endian.\<close>

fun le_bytes :: "nat \<Rightarrow> nat \<Rightarrow> u8 list" where
  "le_bytes 0 x = []"
| "le_bytes (Suc n) x = word_of_nat (x mod 256) # le_bytes n (x div 256)"

definition event_bytes :: "input_event \<Rightarrow> u8 list" where
  "event_bytes e = le_bytes 8 (unat (ev_sec e)) @ le_bytes 8 (unat (ev_usec e))
     @ le_bytes 2 (unat (ev_type e)) @ le_bytes 2 (unat (ev_code e))
     @ le_bytes 4 (unat (word_of_int (ev_value e) :: u32))"

definition event_size :: nat where "event_size = 24"

text \<open>The loop of \<open>devfs_input_read\<close>: at most \<open>n\<close> events.\<close>

fun pop_events :: "nat \<Rightarrow> input_sys \<Rightarrow> u8 list \<times> nat \<times> input_sys" where
  "pop_events 0 s = ([], 0, s)"
| "pop_events (Suc n) s =
     (case input_evdev_pop s of
        (None, s') \<Rightarrow> ([], 0, s')
      | (Some e, s') \<Rightarrow>
          (case pop_events n s' of (bs, got, s'') \<Rightarrow> (event_bytes e @ bs, got + 1, s'')))"

definition devfs_input_read ::
  "input_sys \<Rightarrow> u8 list option \<Rightarrow> nat \<Rightarrow> int \<times> nat option \<times> u8 list option \<times> input_sys" where
  "devfs_input_read s out len =
     (case out of
        None \<Rightarrow> (-1, None, out, s)
      | Some buf \<Rightarrow>
          if len < event_size then (-1, None, out, s)
          else (case pop_events (len div event_size) s of
                  (bs, got, s') \<Rightarrow> (0, Some (got * event_size), Some (bs @ drop (length bs) buf), s')))"

definition EVIOCGBIT_BASE :: u64 where "EVIOCGBIT_BASE = 0x20B1"
definition EVIOCGNAME_BASE :: u64 where "EVIOCGNAME_BASE = 0x81006E06"
definition EVIOCGID_BASE :: u64 where "EVIOCGID_BASE = 0x80084502"

text \<open>Setting bit \<open>b\<close> of the bit map at the argument.\<close>

definition or_bit :: "nat \<Rightarrow> u8 list option \<Rightarrow> u8 list option" where
  "or_bit b mem =
     (case mem of
        None \<Rightarrow> None
      | Some m \<Rightarrow>
          if length m \<le> b div 8 then None
          else Some (m[b div 8 := m ! (b div 8) OR push_bit (b mod 8) 1]))"

definition write_bytes :: "u8 list \<Rightarrow> u8 list \<Rightarrow> u8 list option" where
  "write_bytes bs m = (if length m < length bs then None else Some (bs @ drop (length bs) m))"

definition devfs_input_ioctl :: "u64 \<Rightarrow> u8 list option \<Rightarrow> (int \<times> u8 list option) option" where
  "devfs_input_ioctl req arg =
     (case arg of
        None \<Rightarrow> Some (-1, None)
      | Some mem \<Rightarrow>
          if req AND 0xFFFF = EVIOCGBIT_BASE then
            (let ev = unat ((drop_bit 16 req) AND 0xFF);
                 len = unat ((drop_bit 32 req) AND 0xFFFF)
             in if len = 0 then Some (-1, arg)
                else map_option (\<lambda>m. (0, Some m))
                  (let z = write_bytes (replicate len 0) mem in
                   if ev = 0 then or_bit 2 (or_bit 1 z)
                   else if ev = 1 then
                     or_bit 0x112 (or_bit 0x111 (or_bit 0x110
                       (fold (\<lambda>i m. if i div 8 < len then or_bit i m else m) [0..<128] z)))
                   else if ev = 2 then or_bit 8 (or_bit 1 (or_bit 0 z))
                   else z))
          else if req = EVIOCGNAME_BASE then
            map_option (\<lambda>m. (0, Some m))
              (write_bytes (map (\<lambda>c. word_of_nat (of_char c)) ''NTux Input'' @ replicate 22 0) mem)
          else if req = EVIOCGID_BASE then
            map_option (\<lambda>m. (0, Some m)) (write_bytes [0, 0, 0, 0, 1, 0, 1, 0] mem)
          else Some (-1, arg))"

definition devfs_ioctl_stub :: "int" where "devfs_ioctl_stub = -1"

text \<open>A read through a table of device functions; \<open>None\<close>: a terminal still waiting.\<close>

definition dev_read ::
  "devfs_ops \<Rightarrow> nat \<Rightarrow> devworld \<Rightarrow> u8 list option \<Rightarrow> nat \<Rightarrow> (int \<times> nat option \<times> u8 list option \<times> devworld) option" where
  "dev_read ops ctx w out len =
     (case ops of
        NullOps \<Rightarrow> (case devfs_null_read out len of (rc, n, b) \<Rightarrow> Some (rc, n, b, w))
      | ZeroOps \<Rightarrow> (case devfs_zero_read out len of (rc, n, b) \<Rightarrow> Some (rc, n, b, w))
      | InputOps \<Rightarrow>
          (case devfs_input_read (dw_input w) out len of (rc, n, b, s) \<Rightarrow> Some (rc, n, b, w\<lparr>dw_input := s\<rparr>))
      | TtyOps \<Rightarrow>
          (case out of
             None \<Rightarrow> Some (-1, None, out, w)
           | Some buf \<Rightarrow>
               (case tty_read (dw_ttys w) (int ctx) len (dw_polls w) of
                  None \<Rightarrow> None
                | Some (polls, rc, None, pr) \<Rightarrow> Some (rc, None, out, w\<lparr>dw_polls := polls, dw_out := dw_out w @ pr\<rparr>)
                | Some (polls, rc, Some bytes, pr) \<Rightarrow>
                    Some (rc, Some (length bytes), Some (bytes @ drop (length bytes) buf),
                          w\<lparr>dw_polls := polls, dw_out := dw_out w @ pr\<rparr>))))"

definition dev_write :: "devfs_ops \<Rightarrow> devworld \<Rightarrow> u8 list \<Rightarrow> int \<times> nat \<times> devworld" where
  "dev_write ops w bytes =
     (case ops of
        TtyOps \<Rightarrow> (case tty_write bytes of (rc, n, pr) \<Rightarrow> (rc, n, w\<lparr>dw_out := dw_out w @ pr\<rparr>))
      | _ \<Rightarrow> (case devfs_write_stub (length bytes) of (rc, n) \<Rightarrow> (rc, n, w)))"

section \<open>What can be reached\<close>

text \<open>No registered name is empty or begins with a slash.\<close>

definition names_ok :: "devfs_table \<Rightarrow> bool" where
  "names_ok g \<longleftrightarrow> (\<forall>n. Some n \<in> set g \<longrightarrow> dn_name n \<noteq> [] \<and> hd (dn_name n) \<noteq> CHR ''/'' \<and> CHR 0x00 \<notin> set (dn_name n))"

lemma names_ok_ConsD: "names_ok (x # g) \<Longrightarrow> names_ok g"
  by (auto simp: names_ok_def)

lemma names_ok_add:
  assumes "names_ok g" "hd nm \<noteq> CHR ''/''" "CHR 0x00 \<notin> set nm"
  shows "names_ok (snd (devfs_add_node g nm ops ctx))"
proof (cases "nm = [] \<or> find_index (\<lambda>n. n = None) g = None")
  case False
  then obtain i where i: "find_index (\<lambda>n. n = None) g = Some i" "nm \<noteq> []" by auto
  have "take 63 nm \<noteq> []" "hd (take 63 nm) = hd nm" using i(2) by (cases nm; simp)+
  moreover have "CHR 0x00 \<notin> set (take 63 nm)" using assms(3) by (meson in_set_takeD)
  ultimately show ?thesis
    using i assms by (auto simp: devfs_add_node_def names_ok_def dest!: set_update_subset_insert [THEN subsetD])
qed (use assms in \<open>auto simp: devfs_add_node_def\<close>)

lemma devfs_init_eq:
  "devfs_init = [Some \<lparr>dn_name = ''null'', dn_ops = NullOps, dn_ctx = 0\<rparr>,
     Some \<lparr>dn_name = ''zero'', dn_ops = ZeroOps, dn_ctx = 0\<rparr>,
     Some \<lparr>dn_name = ''input/event0'', dn_ops = InputOps, dn_ctx = 0\<rparr>,
     Some \<lparr>dn_name = ''tty0'', dn_ops = TtyOps, dn_ctx = 0\<rparr>,
     Some \<lparr>dn_name = ''tty1'', dn_ops = TtyOps, dn_ctx = 1\<rparr>,
     Some \<lparr>dn_name = ''tty2'', dn_ops = TtyOps, dn_ctx = 2\<rparr>,
     Some \<lparr>dn_name = ''tty3'', dn_ops = TtyOps, dn_ctx = 3\<rparr>] @ replicate 9 None"
  by code_simp

lemma names_ok_init: "names_ok devfs_init"
  by (auto simp: names_ok_def devfs_init_eq)

lemma no_prefix_slash:
  assumes "nm \<noteq> []" "hd nm \<noteq> CHR ''/''" "CHR 0x00 \<notin> set nm" "path = [] \<or> hd path = CHR ''/''"
  shows "\<not> devfs_has_prefix nm path" "path \<noteq> [] \<Longrightarrow> nm \<noteq> path"
proof -
  show "nm \<noteq> path" if "path \<noteq> []" using that assms by auto
  show "\<not> devfs_has_prefix nm path"
  proof (cases "path = []")
    case True
    from assms(1,3) have "hd nm \<noteq> CHR 0x00" by (cases nm) auto
    with True assms(1,2) show ?thesis by (simp add: devfs_has_prefix_def char_at_def hd_conv_nth)
  next
    case False
    then obtain p where "path = CHR ''/'' # p" using assms(4) by (cases path) auto
    with assms(1,2) show ?thesis by (cases nm) (auto simp: devfs_has_prefix_def Let_def)
  qed
qed

lemma list_loop_none:
  assumes "names_ok g" "path = [] \<or> hd path = CHR ''/''"
  shows "devfs_list_loop g path out n count = (out, count)"
  using assms(1)
proof (induction g)
  case (Cons x g)
  note g = Cons.IH [OF names_ok_ConsD [OF Cons.prems]]
  show ?case
  proof (cases x)
    case (Some m)
    with Cons.prems have "\<not> devfs_has_prefix (dn_name m) path"
      by (intro no_prefix_slash(1) assms(2)) (auto simp: names_ok_def)
    with Some g show ?thesis by (simp add: Let_def)
  qed (use g in simp)
qed simp

text \<open>
  No device can be reached through the virtual file system. The relative path it passes
  begins with a slash and device names do not, so below the mount point nothing exists and
  nothing has attributes; and the listing of the mount point itself is empty, because the
  prefix test rejects the empty path for every name.
\<close>

theorem devfs_hides_its_devices:
  assumes m: "vfs_find_mount v path = Some (i, m, rel)" and ops: "m_ops m = g_devfs_ops tab"
    and names: "names_ok (tab s)" and rel: "hd rel = CHR ''/''" "rel \<noteq> []"
  shows "vfs_exists v s path = (if rel = ''/'' then 1 else 0)
     \<and> vfs_getattr v s path = (if rel = ''/'' then Some (0x1ED, 0, 0) else None)
     \<and> devfs_op_list_dir (tab s) rel out n = (0, Some 0, out)"
proof -
  have "\<not> devfs_has_prefix (dn_name d) rel \<and> dn_name d \<noteq> rel" if "Some d \<in> set (tab s)" for d
    using no_prefix_slash [of "dn_name d" rel] names that rel by (auto simp: names_ok_def)
  then have none: "\<not> (\<exists>d\<in>set (tab s). case d of None \<Rightarrow> False
      | Some d \<Rightarrow> dn_name d = rel \<or> devfs_has_prefix (dn_name d) rel)"
    "\<not> (\<exists>d\<in>set (tab s). case d of None \<Rightarrow> False | Some d \<Rightarrow> dn_name d = rel)"
    by (auto split: option.splits)
  have "devfs_op_list_dir (tab s) rel out n = (0, Some 0, out)"
    using list_loop_none [OF names, of "if rel = ''/'' then [] else rel" out n 0] rel
    by (auto simp: devfs_op_list_dir_def devfs_list_children_def split: if_splits)
  with none rel(2) show ?thesis
    by (simp add: vfs_exists_def vfs_getattr_def m ops g_devfs_ops_def devfs_op_exists_def devfs_op_getattr_def)
qed

definition dev_vfs :: "(nat, devfs_table) vfs" where
  "dev_vfs = \<lparr>g_mounts = [Some \<lparr>mount_point = ''/dev'', m_ops = g_devfs_ops (\<lambda>g. g), m_ctx = 0\<rparr>],
     g_overlay_mount_path = []\<rparr>"

theorem devfs_hides_its_devices_witness:
  "devfs_open devfs_init ''null'' = Some (NullOps, 0) \<and> vfs_exists dev_vfs devfs_init ''/dev/null'' = 0"
proof -
  have "vfs_find_mount dev_vfs ''/dev/null''
      = Some (0, \<lparr>mount_point = ''/dev'', m_ops = g_devfs_ops (\<lambda>g. g), m_ctx = 0\<rparr>, ''/null'')"
    by (simp add: vfs_find_mount_def dev_vfs_def vfs_path_is_prefix_def char_at_def)
  from devfs_hides_its_devices [where tab = "\<lambda>g. g" and s = devfs_init, OF this] names_ok_init show ?thesis
    by (simp add: devfs_open_def devfs_init_eq)
qed

section \<open>The event bits ioctl\<close>

lemma or_bit_length: "or_bit b m = Some m' \<Longrightarrow> \<exists>x. m = Some x \<and> length m' = length x \<and> b div 8 < length x"
  by (auto simp: or_bit_def split: option.splits if_splits)

lemma or_bit_None [simp]: "or_bit b None = None"
  by (simp add: or_bit_def)

lemma fold_or_bit:
  "(\<And>i. i \<in> set is \<Longrightarrow> P i \<Longrightarrow> i div 8 < length m) \<Longrightarrow>
     \<exists>m'. fold (\<lambda>i m. if P i then or_bit i m else m) is (Some m) = Some m' \<and> length m' = length m"
proof (induction "is" arbitrary: m)
  case (Cons i "is")
  show ?case
  proof (cases "P i")
    case True
    then have "i div 8 < length m" using Cons.prems [of i] by simp
    then have "\<exists>x. or_bit i (Some m) = Some x \<and> length x = length m"
      by (auto simp: or_bit_def)
    then obtain x where x: "or_bit i (Some m) = Some x" "length x = length m" by blast
    have "\<exists>m'. fold (\<lambda>i m. if P i then or_bit i m else m) is (Some x) = Some m' \<and> length m' = length x"
      by (rule Cons.IH) (use Cons.prems x in auto)
    with True x show ?thesis by simp
  qed (use Cons in auto)
qed simp

text \<open>
  The call that asks which keys there are writes the bits of the mouse buttons at byte 34
  whatever length the caller gives: with a buffer of that length it writes past the end exactly
  when the length is less than 35.
\<close>

theorem key_bits_ioctl_bounds:
  assumes "req AND 0xFFFF = EVIOCGBIT_BASE" "drop_bit 16 req AND 0xFF = 1"
    and "length buf = unat (drop_bit 32 req AND 0xFFFF)" "buf \<noteq> []"
  shows "devfs_input_ioctl req (Some buf) = None \<longleftrightarrow> length buf < 35"
proof -
  let ?z = "replicate (length buf) 0 :: u8 list"
  obtain m where m: "fold (\<lambda>i m. if i div 8 < length buf then or_bit i m else m) [0..<128] (Some ?z) = Some m"
    and lm: "length m = length buf"
    using fold_or_bit [of "[0..<128]" "\<lambda>i. i div 8 < length buf" ?z] by auto
  have "devfs_input_ioctl req (Some buf) = map_option (\<lambda>m. (0, Some m)) (or_bit 0x112 (or_bit 0x111 (or_bit 0x110 (Some m))))"
    using assms(1,2,4) m by (simp add: devfs_input_ioctl_def Let_def write_bytes_def assms(3) [symmetric])
  also have "\<dots> = None \<longleftrightarrow> length buf < 35"
    using lm by (auto simp: or_bit_def split: option.splits)
  finally show ?thesis .
qed

theorem key_bits_ioctl_bounds_witness:
  "devfs_input_ioctl 0x10000120B1 (Some (replicate 16 0)) = None"
  using key_bits_ioctl_bounds [of "0x10000120B1" "replicate 16 0"]
  by (simp add: EVIOCGBIT_BASE_def)

end
