(* ===== verification/Storage.thy ===== *)
theory Storage
  imports Prelude Vfs_Types
begin

text \<open>
  Block devices: the entry points of the drivers \<open>drivers/sata/ata.c\<close>,
  \<open>drivers/nvme/nvme.c\<close> and \<open>drivers/sdmmc/sdmmc.c\<close> with their range checks, and the layer of
  \<open>fs/fs.c\<close> that numbers all devices in one sequence, splits long transfers and counts bytes.

  The hardware is the medium of a device: what each sector of 512 bytes holds, and \<open>None\<close>
  where a command for that sector fails. A transfer moves one sector after the other and stops
  at the first failure, leaving what it has written. A read answers the bytes or an error
  code; no caller looks at a buffer after a failed read. The fields of the device records are
  those the code above the drivers reads. The page through which NVMe and AHCI move their data is
  taken as allocated: without one these drivers fail before any sector moves.
\<close>

type_synonym medium = "u64 \<Rightarrow> u8 list option"

definition ATA_SECTOR_SIZE :: nat where "ATA_SECTOR_SIZE = 512"

datatype ata_drive_type = ATA_DRIVE_NONE | ATA_DRIVE_ATA | ATA_DRIVE_SATA | ATA_DRIVE_ATAPI | ATA_DRIVE_SATAPI

record ata_drive =
  ad_present :: bool
  ad_ahci :: bool
  lba48_supported :: bool
  ad_type :: ata_drive_type
  sectors28 :: u32
  sectors48 :: u64
  ad_model :: string
  ad_medium :: medium

record nvme_ns =
  nv_present :: bool
  nv_lba_size :: u32
  sectors_512 :: u64
  nv_model :: string
  nv_medium :: medium

record sd_host =
  sd_present :: bool
  sd_sectors :: u64
  sd_model :: string
  sd_medium :: medium

record storage =
  g_drives :: "ata_drive list"
  g_namespaces :: "nvme_ns list"
  g_hosts :: "sd_host list"
  g_fs_read_bytes :: u64
  g_fs_write_bytes :: u64

section \<open>Media\<close>

fun read_run :: "medium \<Rightarrow> u64 \<Rightarrow> nat \<Rightarrow> u8 list option" where
  "read_run m lba 0 = Some []"
| "read_run m lba (Suc n) =
     (case m lba of
        None \<Rightarrow> None
      | Some sec \<Rightarrow> map_option (\<lambda>bs. sec @ bs) (read_run m (lba + 1) n))"

fun write_run :: "medium \<Rightarrow> u64 \<Rightarrow> nat \<Rightarrow> u8 list \<Rightarrow> bool \<times> medium" where
  "write_run m lba 0 bs = (True, m)"
| "write_run m lba (Suc n) bs =
     (case m lba of
        None \<Rightarrow> (False, m)
      | Some _ \<Rightarrow> write_run (m(lba \<mapsto> take ATA_SECTOR_SIZE bs)) (lba + 1) n (drop ATA_SECTOR_SIZE bs))"

section \<open>Drivers\<close>

text \<open>
  \<open>nvme_rw_internal\<close>: sector numbers are in units of 512 bytes and must be multiples of the
  native block size.
\<close>

definition nvme_rw_check :: "nvme_ns \<Rightarrow> u64 \<Rightarrow> u32 \<Rightarrow> int" where
  "nvme_rw_check ns lba_512 n =
     (if \<not> nv_present ns \<or> n = 0 then -1
      else let factor = nv_lba_size ns div 512 in
        if factor = 0 \<or> lba_512 mod ucast factor \<noteq> 0 \<or> n mod factor \<noteq> 0 then -2
        else if lba_512 + ucast n > sectors_512 ns then -3
        else if 4096 div nv_lba_size ns = 0 then -5
        else 0)"

definition nvme_read_sectors :: "storage \<Rightarrow> nat \<Rightarrow> u64 \<Rightarrow> u32 \<Rightarrow> int + u8 list" where
  "nvme_read_sectors st i lba n =
     (if i \<ge> length (g_namespaces st) then Inl (-1)
      else let ns = g_namespaces st ! i; rc = nvme_rw_check ns lba n in
        if rc \<noteq> 0 then Inl rc
        else case read_run (nv_medium ns) lba (unat n) of None \<Rightarrow> Inl (-6) | Some bs \<Rightarrow> Inr bs)"

definition nvme_write_sectors :: "storage \<Rightarrow> nat \<Rightarrow> u64 \<Rightarrow> u32 \<Rightarrow> u8 list \<Rightarrow> int \<times> storage" where
  "nvme_write_sectors st i lba n bs =
     (if i \<ge> length (g_namespaces st) then (-1, st)
      else let ns = g_namespaces st ! i; rc = nvme_rw_check ns lba n in
        if rc \<noteq> 0 then (rc, st)
        else case write_run (nv_medium ns) lba (unat n) bs of
          (ok, m) \<Rightarrow> (if ok then 0 else -6, st\<lparr>g_namespaces := (g_namespaces st)[i := ns\<lparr>nv_medium := m\<rparr>]\<rparr>))"

definition sdmmc_rw_check :: "sd_host \<Rightarrow> u64 \<Rightarrow> u32 \<Rightarrow> int" where
  "sdmmc_rw_check h lba n =
     (if \<not> sd_present h \<or> sd_sectors h = 0 then -1
      else if lba \<ge> sd_sectors h \<or> lba + ucast n > sd_sectors h then -1
      else 0)"

definition sdmmc_read_sectors :: "storage \<Rightarrow> nat \<Rightarrow> u64 \<Rightarrow> u32 \<Rightarrow> int + u8 list" where
  "sdmmc_read_sectors st i lba n =
     (if n = 0 then Inl (-1)
      else if i \<ge> length (g_hosts st) then Inl (-1)
      else let h = g_hosts st ! i; rc = sdmmc_rw_check h lba n in
        if rc \<noteq> 0 then Inl rc
        else case read_run (sd_medium h) lba (unat n) of None \<Rightarrow> Inl (-2) | Some bs \<Rightarrow> Inr bs)"

definition sdmmc_write_sectors :: "storage \<Rightarrow> nat \<Rightarrow> u64 \<Rightarrow> u32 \<Rightarrow> u8 list \<Rightarrow> int \<times> storage" where
  "sdmmc_write_sectors st i lba n bs =
     (if n = 0 then (-1, st)
      else if i \<ge> length (g_hosts st) then (-1, st)
      else let h = g_hosts st ! i; rc = sdmmc_rw_check h lba n in
        if rc \<noteq> 0 then (rc, st)
        else case write_run (sd_medium h) lba (unat n) bs of
          (ok, m) \<Rightarrow> (if ok then 0 else -2, st\<lparr>g_hosts := (g_hosts st)[i := h\<lparr>sd_medium := m\<rparr>]\<rparr>))"

definition ata_drive_total_sectors :: "ata_drive \<Rightarrow> u64" where
  "ata_drive_total_sectors d =
     (if \<not> ad_present d then 0 else if sectors48 d \<noteq> 0 then sectors48 d else ucast (sectors28 d))"

text \<open>
  The checks that \<open>ata_read_sectors\<close> and \<open>ata_write_sectors\<close> share, for a drive in the
  table. The counts are 8 bits wide.
\<close>

definition ata_rw_check :: "ata_drive \<Rightarrow> u64 \<Rightarrow> u8 \<Rightarrow> int" where
  "ata_rw_check d lba n =
     (if \<not> ad_present d then -2
      else if ad_type d = ATA_DRIVE_ATAPI \<or> ad_type d = ATA_DRIVE_SATAPI then -3
      else let tot = ata_drive_total_sectors d in
        if tot > 0 \<and> (lba \<ge> tot \<or> lba + ucast n > tot) then -4
        else if ad_ahci d then (if ad_type d \<noteq> ATA_DRIVE_SATA then -9 else 0)
        else if lba > 0x0FFFFFFF \<and> \<not> lba48_supported d then -5
        else 0)"

definition ata_read_sectors :: "storage \<Rightarrow> nat \<Rightarrow> u64 \<Rightarrow> u8 \<Rightarrow> int + u8 list" where
  "ata_read_sectors st i lba n =
     (if n = 0 then Inl (-1)
      else if i \<ge> length (g_drives st) then nvme_read_sectors st (i - length (g_drives st)) lba (ucast n)
      else let d = g_drives st ! i; rc = ata_rw_check d lba n in
        if rc \<noteq> 0 then Inl rc
        else case read_run (ad_medium d) lba (unat n) of None \<Rightarrow> Inl (-4) | Some bs \<Rightarrow> Inr bs)"

definition ata_write_sectors :: "storage \<Rightarrow> nat \<Rightarrow> u64 \<Rightarrow> u8 \<Rightarrow> u8 list \<Rightarrow> int \<times> storage" where
  "ata_write_sectors st i lba n bs =
     (if n = 0 then (-1, st)
      else if i \<ge> length (g_drives st) then nvme_write_sectors st (i - length (g_drives st)) lba (ucast n) bs
      else let d = g_drives st ! i; rc = ata_rw_check d lba n in
        if rc \<noteq> 0 then (rc, st)
        else case write_run (ad_medium d) lba (unat n) bs of
          (ok, m) \<Rightarrow> (if ok then 0 else -4, st\<lparr>g_drives := (g_drives st)[i := d\<lparr>ad_medium := m\<rparr>]\<rparr>))"

section \<open>The numbering of \<open>fs.c\<close>\<close>

record fs_block_dev =
  bd_is_atapi :: bool
  bd_sectors :: u64
  bd_model :: string
  bd_prefix :: string

definition fs_tolower_ascii :: "char \<Rightarrow> char" where
  "fs_tolower_ascii c =
     (if of_char c \<ge> (65 :: nat) \<and> of_char c \<le> (90 :: nat) then char_of (of_char c + 32 :: nat) else c)"

definition fs_str_contains_icase :: "string \<Rightarrow> string \<Rightarrow> bool" where
  "fs_str_contains_icase txt needle =
     (if needle = [] then False
      else let nl = length needle; tl = length txt in
        if nl > tl then False
        else list_ex (\<lambda>i. list_all (\<lambda>j. fs_tolower_ascii (txt ! (i + j)) = fs_tolower_ascii (needle ! j)) [0..<nl])
               [0..<Suc (tl - nl)])"

definition fs_drive_prefix_from_model :: "string \<Rightarrow> bool \<Rightarrow> string" where
  "fs_drive_prefix_from_model model is_atapi =
     (if is_atapi then ''cd''
      else if fs_str_contains_icase model ''flash'' \<or> fs_str_contains_icase model ''removable'' then ''flash''
      else ''disk'')"

definition fs_get_block_device :: "storage \<Rightarrow> nat \<Rightarrow> fs_block_dev option" where
  "fs_get_block_device st drive =
     (let ata_count = length (g_drives st); nvme_count = length (g_namespaces st);
          sd_count = length (g_hosts st) in
      if drive < ata_count then
        (let drv = g_drives st ! drive in
         if \<not> ad_present drv then None
         else let atapi = (ad_type drv = ATA_DRIVE_ATAPI \<or> ad_type drv = ATA_DRIVE_SATAPI);
                  model = take 40 (ad_model drv) in
           Some \<lparr>bd_is_atapi = atapi,
                 bd_sectors = (if sectors48 drv \<noteq> 0 then sectors48 drv else ucast (sectors28 drv)),
                 bd_model = model, bd_prefix = fs_drive_prefix_from_model model atapi\<rparr>)
      else if drive < ata_count + nvme_count then
        (let nv = g_namespaces st ! (drive - ata_count) in
         if \<not> nv_present nv then None
         else Some \<lparr>bd_is_atapi = False, bd_sectors = sectors_512 nv,
                    bd_model = take 40 (if nv_model nv \<noteq> [] then nv_model nv else ''NVMe SSD''),
                    bd_prefix = ''nvme''\<rparr>)
      else if drive < ata_count + nvme_count + sd_count then
        (let h = g_hosts st ! (drive - ata_count - nvme_count) in
         if \<not> sd_present h then None
         else Some \<lparr>bd_is_atapi = False, bd_sectors = sd_sectors h,
                    bd_model = take 40 (take 47 (if sd_model h \<noteq> [] then sd_model h else ''SD Card'')),
                    bd_prefix = ''sd''\<rparr>)
      else None)"

text \<open>The chunks of a long transfer to an ATA drive: \<open>n\<close> sectors remain.\<close>

function ata_read_chunks :: "storage \<Rightarrow> nat \<Rightarrow> u64 \<Rightarrow> nat \<Rightarrow> u8 list option" where
  "ata_read_chunks st drive lba n =
     (if n = 0 then Some []
      else let chunk = (if n > 255 then 255 else n) in
        case ata_read_sectors st drive lba (of_nat chunk) of
          Inl _ \<Rightarrow> None
        | Inr bs \<Rightarrow> map_option (\<lambda>rest. bs @ rest) (ata_read_chunks st drive (lba + of_nat chunk) (n - chunk)))"
  by pat_completeness auto
termination by (relation "measure (\<lambda>(st, drive, lba, n). n)") (auto split: if_splits)

function ata_write_chunks :: "storage \<Rightarrow> nat \<Rightarrow> u64 \<Rightarrow> nat \<Rightarrow> u8 list \<Rightarrow> int \<times> storage" where
  "ata_write_chunks st drive lba n bs =
     (if n = 0 then (0, st)
      else let chunk = (if n > 255 then 255 else n) in
        case ata_write_sectors st drive lba (of_nat chunk) (take (chunk * ATA_SECTOR_SIZE) bs) of
          (rc, st1) \<Rightarrow>
            if rc \<noteq> 0 then (-1, st1)
            else ata_write_chunks st1 drive (lba + of_nat chunk) (n - chunk) (drop (chunk * ATA_SECTOR_SIZE) bs))"
  by pat_completeness auto
termination by (relation "measure (\<lambda>(st, drive, lba, n, bs). n)") (auto split: if_splits)

declare ata_read_chunks.simps [simp del] ata_write_chunks.simps [simp del]

definition fs_device_read_sectors :: "storage \<Rightarrow> nat \<Rightarrow> u64 \<Rightarrow> u32 \<Rightarrow> int + u8 list" where
  "fs_device_read_sectors st drive lba n =
     (if n = 0 then Inl (-1)
      else let ata_count = length (g_drives st); nvme_count = length (g_namespaces st);
               sd_count = length (g_hosts st) in
        if drive < ata_count then
          (case ata_read_chunks st drive lba (unat n) of None \<Rightarrow> Inl (-1) | Some bs \<Rightarrow> Inr bs)
        else if drive < ata_count + nvme_count then nvme_read_sectors st (drive - ata_count) lba n
        else if drive < ata_count + nvme_count + sd_count then
          sdmmc_read_sectors st (drive - ata_count - nvme_count) lba n
        else Inl (-1))"

definition fs_device_write_sectors :: "storage \<Rightarrow> nat \<Rightarrow> u64 \<Rightarrow> u32 \<Rightarrow> u8 list \<Rightarrow> int \<times> storage" where
  "fs_device_write_sectors st drive lba n bs =
     (if n = 0 then (-1, st)
      else let ata_count = length (g_drives st); nvme_count = length (g_namespaces st);
               sd_count = length (g_hosts st) in
        if drive < ata_count then ata_write_chunks st drive lba (unat n) bs
        else if drive < ata_count + nvme_count then nvme_write_sectors st (drive - ata_count) lba n bs
        else if drive < ata_count + nvme_count + sd_count then
          sdmmc_write_sectors st (drive - ata_count - nvme_count) lba n bs
        else (-1, st))"

definition fs_block_device_count :: "storage \<Rightarrow> nat" where
  "fs_block_device_count st = length (g_drives st) + length (g_namespaces st) + length (g_hosts st)"

definition fs_drive_total_sectors :: "storage \<Rightarrow> nat \<Rightarrow> u64 option" where
  "fs_drive_total_sectors st drive =
     (case fs_get_block_device st drive of
        None \<Rightarrow> None
      | Some d \<Rightarrow> if bd_sectors d = 0 then None else Some (bd_sectors d))"

definition fs_block_read :: "storage \<Rightarrow> nat \<Rightarrow> u64 \<Rightarrow> u32 \<Rightarrow> (int + u8 list) \<times> storage" where
  "fs_block_read st drive lba n =
     (if n = 0 then (Inl (-1), st)
      else case fs_drive_total_sectors st drive of
        None \<Rightarrow> (Inl (-1), st)
      | Some tot \<Rightarrow>
          if lba \<ge> tot \<or> ucast n > tot \<or> lba + ucast n > tot then (Inl (-1), st)
          else case fs_device_read_sectors st drive lba n of
            Inl rc \<Rightarrow> (Inl rc, st)
          | Inr bs \<Rightarrow> (Inr bs, st\<lparr>g_fs_read_bytes := g_fs_read_bytes st + ucast n * 512\<rparr>))"

definition fs_block_write :: "storage \<Rightarrow> nat \<Rightarrow> u64 \<Rightarrow> u32 \<Rightarrow> u8 list \<Rightarrow> int \<times> storage" where
  "fs_block_write st drive lba n bs =
     (if n = 0 then (-1, st)
      else case fs_drive_total_sectors st drive of
        None \<Rightarrow> (-1, st)
      | Some tot \<Rightarrow>
          if lba \<ge> tot \<or> ucast n > tot \<or> lba + ucast n > tot then (-1, st)
          else case fs_device_write_sectors st drive lba n bs of
            (rc, st1) \<Rightarrow>
              if rc = 0 then (rc, st1\<lparr>g_fs_write_bytes := g_fs_write_bytes st1 + ucast n * 512\<rparr>)
              else (rc, st1))"

definition fs_get_io_stats :: "storage \<Rightarrow> u64 \<times> u64" where
  "fs_get_io_stats st = (g_fs_read_bytes st, g_fs_write_bytes st)"

record fs_block_device_info =
  bi_present :: bool
  bi_is_atapi :: bool
  bi_sectors :: u64
  bi_model :: string

text \<open>The devices a caller asked for; a slot whose device is absent is all zero.\<close>

definition fs_get_block_devices :: "storage \<Rightarrow> nat \<Rightarrow> nat \<times> fs_block_device_info list" where
  "fs_get_block_devices st max_entries =
     (let tot = fs_block_device_count st in
      (tot, map (\<lambda>i. case fs_get_block_device st i of
                  None \<Rightarrow> \<lparr>bi_present = False, bi_is_atapi = False, bi_sectors = 0, bi_model = []\<rparr>
                | Some d \<Rightarrow> \<lparr>bi_present = True, bi_is_atapi = bd_is_atapi d, bi_sectors = bd_sectors d,
                            bi_model = bd_model d\<rparr>) [0..<min tot max_entries]))"

end
