(* ===== verification/Storage_Props.thy ===== *)
theory Storage_Props
  imports Storage
begin

text \<open>
  What a block device promises: a run of sectors that was written reads back as written, and
  sectors outside the run and other devices keep their content. The locale \<open>block_driver\<close>
  states it; the three drivers and the layer of \<open>fs.c\<close> above them, which cuts transfers into
  chunks of at most 255 sectors, are its instances.
\<close>

definition run :: "u64 \<Rightarrow> nat \<Rightarrow> u64 set" where
  "run lba n = (\<lambda>j. lba + of_nat j) ` {..<n}"

section \<open>Runs of sectors\<close>

lemma run_0 [simp]: "run lba 0 = {}"
  by (simp add: run_def)

lemma run_Suc: "run lba (Suc n) = insert lba (run (lba + 1) n)"
proof -
  have "{..<Suc n} = insert 0 (Suc ` {..<n})" by (auto simp: lessThan_Suc_eq_insert_0)
  then show ?thesis by (simp add: run_def image_image add.assoc)
qed

lemma run_1 [simp]: "run lba 1 = {lba}" "run lba (Suc 0) = {lba}"
  by (auto simp: run_def)

lemma run_add: "run lba (m + n) = run lba m \<union> run (lba + of_nat m) n"
  by (induction m arbitrary: lba) (simp_all add: run_Suc add.assoc)

lemma of_nat_word_inj:
  "a < 2 ^ LENGTH('a) \<Longrightarrow> b < 2 ^ LENGTH('a) \<Longrightarrow> (of_nat a :: 'a::len word) = of_nat b \<longleftrightarrow> a = b"
  by (simp add: word_of_nat_eq_iff take_bit_nat_eq_self)

lemma unat_lt64: "LENGTH('a) \<le> 64 \<Longrightarrow> unat (n :: 'a::len word) < 2 ^ 64"
  by (rule less_le_trans [OF unsigned_less]) (rule power_increasing; simp)

lemma unat_ucast_widen:
  "LENGTH('a) \<le> LENGTH('b) \<Longrightarrow> unat (ucast (n :: 'a::len word) :: 'b::len word) = unat n"
  by (subst unsigned_ucast_eq, rule take_bit_nat_eq_self, rule less_le_trans [OF unsigned_less])
    (rule power_increasing; simp)

lemma fresh_run: "n < 2 ^ 64 \<Longrightarrow> lba \<notin> run (lba + 1) n"
proof
  assume n: "n < 2 ^ 64" and "lba \<in> run (lba + 1) n"
  then obtain j where j: "j < n" "lba = lba + 1 + of_nat j" by (auto simp: run_def)
  then have "(of_nat (Suc j) :: u64) = of_nat 0" by (simp add: algebra_simps)
  with j n of_nat_word_inj [where 'a = 64, of "Suc j" 0] show False by simp
qed

lemma run_disjoint_split:
  assumes "m + n \<le> 2 ^ 64"
  shows "run lba m \<inter> run (lba + of_nat m) n = {}"
proof (rule ccontr)
  assume "\<not> ?thesis"
  then obtain i j where ij: "i < m" "j < n" "(of_nat i :: u64) = of_nat (m + j)"
    by (auto simp: run_def algebra_simps)
  with assms of_nat_word_inj [where 'a = 64, of i "m + j"] show False by simp
qed

section \<open>Media\<close>

lemma read_run_frame: "(\<And>l. l \<in> run lba n \<Longrightarrow> m' l = m l) \<Longrightarrow> read_run m' lba n = read_run m lba n"
  by (induction n arbitrary: lba) (simp_all add: run_Suc split: option.split)

lemma write_run_frame:
  "write_run m lba n bs = (ok, m') \<Longrightarrow> l \<notin> run lba n \<Longrightarrow> m' l = m l"
  by (induction m lba n bs rule: write_run.induct) (auto simp: run_Suc split: option.splits)

lemma write_run_dom: "write_run m lba n bs = (ok, m') \<Longrightarrow> dom m' = dom m"
  by (induction m lba n bs rule: write_run.induct) (auto split: option.splits)

lemma write_run_ok_iff:
  "n < 2 ^ 64 \<Longrightarrow> fst (write_run m lba n bs) \<longleftrightarrow> run lba n \<subseteq> dom m"
proof (induction m lba n bs rule: write_run.induct)
  case (2 m lba n bs)
  show ?case
  proof (cases "m lba")
    case (Some s)
    with 2 have "fst (write_run m lba (Suc n) bs) \<longleftrightarrow> run (lba + 1) n \<subseteq> insert lba (dom m)" by (simp del: fun_upd_apply)
    also have "\<dots> \<longleftrightarrow> run lba (Suc n) \<subseteq> dom m"
      using fresh_run [of n lba] 2(2) Some by (auto simp: run_Suc)
    finally show ?thesis .
  qed (auto simp: run_Suc)
qed simp

lemma write_run_read:
  "write_run m lba n bs = (True, m') \<Longrightarrow> n < 2 ^ 64 \<Longrightarrow> length bs = n * ATA_SECTOR_SIZE \<Longrightarrow>
     read_run m' lba n = Some bs"
proof (induction m lba n bs arbitrary: m' rule: write_run.induct)
  case (2 m lba n bs)
  then obtain s where s: "m lba = Some s"
    and w: "write_run (m(lba \<mapsto> take ATA_SECTOR_SIZE bs)) (lba + 1) n (drop ATA_SECTOR_SIZE bs) = (True, m')"
    by (auto split: option.splits)
  have "m' lba = Some (take ATA_SECTOR_SIZE bs)"
    using write_run_frame [OF w fresh_run] 2(3) by simp
  moreover have "read_run m' (lba + 1) n = Some (drop ATA_SECTOR_SIZE bs)"
    using 2(1) [OF s w] 2(3,4) by simp
  ultimately show ?case by simp
qed simp

lemma write_run_nth:
  "write_run m lba n bs = (True, m') \<Longrightarrow> n < 2 ^ 64 \<Longrightarrow> j < n \<Longrightarrow>
     m' (lba + of_nat j) = Some (take ATA_SECTOR_SIZE (drop (j * ATA_SECTOR_SIZE) bs))"
proof (induction m lba n bs arbitrary: m' j rule: write_run.induct)
  case (2 m lba n bs)
  then obtain s where s: "m lba = Some s"
    and w: "write_run (m(lba \<mapsto> take ATA_SECTOR_SIZE bs)) (lba + 1) n (drop ATA_SECTOR_SIZE bs) = (True, m')"
    by (auto split: option.splits)
  show ?case
  proof (cases j)
    case 0
    with write_run_frame [OF w fresh_run] 2(3) show ?thesis by simp
  next
    case (Suc k)
    with 2(1) [OF s w, of k] 2(3,4) show ?thesis by (simp add: ac_simps)
  qed
qed simp

lemma read_run_Some:
  "read_run m lba n = Some bs \<Longrightarrow> (\<forall>l sec. m l = Some sec \<longrightarrow> length sec = ATA_SECTOR_SIZE) \<Longrightarrow>
     length bs = n * ATA_SECTOR_SIZE"
  by (induction n arbitrary: lba bs) (auto split: option.splits)

section \<open>The contract of a driver\<close>

text \<open>
  \<open>rd\<close> and \<open>wr\<close> move \<open>n\<close> sectors of device \<open>i\<close>, for \<open>0 < n \<le> cap\<close>; \<open>devs\<close> are the devices
  they serve.
\<close>

locale block_driver =
  fixes rd :: "storage \<Rightarrow> nat \<Rightarrow> u64 \<Rightarrow> nat \<Rightarrow> int + u8 list"
    and wr :: "storage \<Rightarrow> nat \<Rightarrow> u64 \<Rightarrow> nat \<Rightarrow> u8 list \<Rightarrow> int \<times> storage"
    and cap :: nat
  assumes read_written: "wr st i lba n bs = (0, st') \<Longrightarrow> 0 < n \<Longrightarrow> n \<le> cap \<Longrightarrow>
      length bs = n * ATA_SECTOR_SIZE \<Longrightarrow> rd st' i lba n = Inr bs"
    and read_elsewhere: "wr st i lba n bs = (rc, st') \<Longrightarrow> n \<le> cap \<Longrightarrow> k \<le> cap \<Longrightarrow>
      run lba n \<inter> run l k = {} \<Longrightarrow> rd st' i l k = rd st i l k"
    and read_other: "wr st i lba n bs = (rc, st') \<Longrightarrow> n \<le> cap \<Longrightarrow> k \<le> cap \<Longrightarrow> i \<noteq> j \<Longrightarrow>
      rd st' j l k = rd st j l k"
begin

lemma second_write_keeps_first:
  assumes "wr st i a n bs = (0, st1)" "wr st1 i b k cs = (rc, st2)" "run b k \<inter> run a n = {}"
    "0 < n" "n \<le> cap" "k \<le> cap" "length bs = n * ATA_SECTOR_SIZE"
  shows "rd st2 i a n = Inr bs"
  using read_elsewhere [OF assms(2,6,5,3)] read_written [OF assms(1,4,5,7)] by simp

end

text \<open>What each driver has in common: the device is found, checked, and its medium replaced.\<close>

lemma nvme_check_medium: "nvme_rw_check (ns\<lparr>nv_medium := m\<rparr>) = nvme_rw_check ns"
  by (simp add: nvme_rw_check_def fun_eq_iff)

lemma sdmmc_check_medium: "sdmmc_rw_check (h\<lparr>sd_medium := m\<rparr>) = sdmmc_rw_check h"
  by (simp add: sdmmc_rw_check_def fun_eq_iff)

lemma ata_check_medium: "ata_rw_check (d\<lparr>ad_medium := m\<rparr>) = ata_rw_check d"
  by (cases d, intro ext) (simp only: ata_rw_check_def ata_drive_total_sectors_def ata_drive.simps)

lemma nvme_write_cases:
  assumes "nvme_write_sectors st i lba n bs = (rc, st')"
  obtains "rc \<noteq> 0" "st' = st"
  | ok m where "i < length (g_namespaces st)" "nvme_rw_check (g_namespaces st ! i) lba n = 0"
      "write_run (nv_medium (g_namespaces st ! i)) lba (unat n) bs = (ok, m)" "ok \<longleftrightarrow> rc = 0"
      "st' = st\<lparr>g_namespaces := (g_namespaces st)[i := (g_namespaces st ! i)\<lparr>nv_medium := m\<rparr>]\<rparr>"
proof (cases "i < length (g_namespaces st) \<and> nvme_rw_check (g_namespaces st ! i) lba n = 0")
  case True
  obtain ok m where "write_run (nv_medium (g_namespaces st ! i)) lba (unat n) bs = (ok, m)" by fastforce
  with True assms that(2) show ?thesis by (simp add: nvme_write_sectors_def split: if_splits)
next
  case False
  with assms that(1) show ?thesis by (auto simp: nvme_write_sectors_def Let_def split: if_splits)
qed

lemma sdmmc_write_cases:
  assumes "sdmmc_write_sectors st i lba n bs = (rc, st')"
  obtains "rc \<noteq> 0" "st' = st"
  | ok m where "i < length (g_hosts st)" "sdmmc_rw_check (g_hosts st ! i) lba n = 0" "n \<noteq> 0"
      "write_run (sd_medium (g_hosts st ! i)) lba (unat n) bs = (ok, m)" "ok \<longleftrightarrow> rc = 0"
      "st' = st\<lparr>g_hosts := (g_hosts st)[i := (g_hosts st ! i)\<lparr>sd_medium := m\<rparr>]\<rparr>"
proof (cases "i < length (g_hosts st) \<and> n \<noteq> 0 \<and> sdmmc_rw_check (g_hosts st ! i) lba n = 0")
  case True
  obtain ok m where "write_run (sd_medium (g_hosts st ! i)) lba (unat n) bs = (ok, m)" by fastforce
  with True assms that(2) show ?thesis by (simp add: sdmmc_write_sectors_def split: if_splits)
next
  case False
  with assms that(1) show ?thesis by (auto simp: sdmmc_write_sectors_def Let_def split: if_splits)
qed

lemma ata_write_cases:
  assumes "ata_write_sectors st i lba n bs = (rc, st')"
  obtains "rc \<noteq> 0" "st' = st"
  | "i \<ge> length (g_drives st)" "n \<noteq> 0"
      "nvme_write_sectors st (i - length (g_drives st)) lba (ucast n) bs = (rc, st')"
  | ok m where "i < length (g_drives st)" "ata_rw_check (g_drives st ! i) lba n = 0" "n \<noteq> 0"
      "write_run (ad_medium (g_drives st ! i)) lba (unat n) bs = (ok, m)" "ok \<longleftrightarrow> rc = 0"
      "st' = st\<lparr>g_drives := (g_drives st)[i := (g_drives st ! i)\<lparr>ad_medium := m\<rparr>]\<rparr>"
proof (cases "i < length (g_drives st) \<and> n \<noteq> 0 \<and> ata_rw_check (g_drives st ! i) lba n = 0")
  case True
  obtain ok m where "write_run (ad_medium (g_drives st ! i)) lba (unat n) bs = (ok, m)" by fastforce
  with True assms that(3) show ?thesis by (simp add: ata_write_sectors_def split: if_splits)
next
  case False
  with assms that(1,2) show ?thesis
    by (cases "i < length (g_drives st)"; cases "n = 0")
      (auto simp: ata_write_sectors_def Let_def split: if_splits)
qed

lemma nvme_contract:
  assumes w: "nvme_write_sectors st i lba n bs = (rc, st')"
  shows "rc = 0 \<Longrightarrow> length bs = unat n * ATA_SECTOR_SIZE \<Longrightarrow> nvme_read_sectors st' i lba n = Inr bs"
    and "run lba (unat n) \<inter> run l (unat k) = {} \<Longrightarrow> nvme_read_sectors st' i l k = nvme_read_sectors st i l k"
    and "i \<noteq> j \<Longrightarrow> nvme_read_sectors st' j l k = nvme_read_sectors st j l k"
    and "g_drives st' = g_drives st" "g_hosts st' = g_hosts st"
      "length (g_namespaces st') = length (g_namespaces st)"
proof -
  have lt: "unat n < 2 ^ 64" by (rule unat_lt64) simp
  have *: "(rc = 0 \<longrightarrow> length bs = unat n * ATA_SECTOR_SIZE \<longrightarrow> nvme_read_sectors st' i lba n = Inr bs)
    \<and> (run lba (unat n) \<inter> run l (unat k) = {} \<longrightarrow> nvme_read_sectors st' i l k = nvme_read_sectors st i l k)
    \<and> (i \<noteq> j \<longrightarrow> nvme_read_sectors st' j l k = nvme_read_sectors st j l k)
    \<and> g_drives st' = g_drives st \<and> g_hosts st' = g_hosts st
    \<and> length (g_namespaces st') = length (g_namespaces st)"
    using w
  proof (cases rule: nvme_write_cases)
    case (2 ok m)
    have fr: "read_run m l (unat k) = read_run (nv_medium (g_namespaces st ! i)) l (unat k)"
      if "run lba (unat n) \<inter> run l (unat k) = {}"
      by (rule read_run_frame, rule write_run_frame [OF 2(3)]) (use that in blast)
    have rd: "read_run m lba (unat n) = Some bs" if "rc = 0" "length bs = unat n * ATA_SECTOR_SIZE"
      by (rule write_run_read [OF _ lt]) (use 2(3,4) that in simp_all)
    show ?thesis using 2(1,2,4,5) fr rd
      by (simp add: nvme_read_sectors_def nvme_check_medium nth_list_update Let_def)
  qed simp
  then show "rc = 0 \<Longrightarrow> length bs = unat n * ATA_SECTOR_SIZE \<Longrightarrow> nvme_read_sectors st' i lba n = Inr bs"
    and "run lba (unat n) \<inter> run l (unat k) = {} \<Longrightarrow> nvme_read_sectors st' i l k = nvme_read_sectors st i l k"
    and "i \<noteq> j \<Longrightarrow> nvme_read_sectors st' j l k = nvme_read_sectors st j l k"
    and "g_drives st' = g_drives st" "g_hosts st' = g_hosts st"
      "length (g_namespaces st') = length (g_namespaces st)" by blast+
qed

lemma sdmmc_contract:
  assumes w: "sdmmc_write_sectors st i lba n bs = (rc, st')"
  shows "rc = 0 \<Longrightarrow> length bs = unat n * ATA_SECTOR_SIZE \<Longrightarrow> sdmmc_read_sectors st' i lba n = Inr bs"
    and "run lba (unat n) \<inter> run l (unat k) = {} \<Longrightarrow> sdmmc_read_sectors st' i l k = sdmmc_read_sectors st i l k"
    and "i \<noteq> j \<Longrightarrow> sdmmc_read_sectors st' j l k = sdmmc_read_sectors st j l k"
    and "g_drives st' = g_drives st" "g_namespaces st' = g_namespaces st"
      "length (g_hosts st') = length (g_hosts st)"
proof -
  have lt: "unat n < 2 ^ 64" by (rule unat_lt64) simp
  have *: "(rc = 0 \<longrightarrow> length bs = unat n * ATA_SECTOR_SIZE \<longrightarrow> sdmmc_read_sectors st' i lba n = Inr bs)
    \<and> (run lba (unat n) \<inter> run l (unat k) = {} \<longrightarrow> sdmmc_read_sectors st' i l k = sdmmc_read_sectors st i l k)
    \<and> (i \<noteq> j \<longrightarrow> sdmmc_read_sectors st' j l k = sdmmc_read_sectors st j l k)
    \<and> g_drives st' = g_drives st \<and> g_namespaces st' = g_namespaces st
    \<and> length (g_hosts st') = length (g_hosts st)"
    using w
  proof (cases rule: sdmmc_write_cases)
    case (2 ok m)
    have fr: "read_run m l (unat k) = read_run (sd_medium (g_hosts st ! i)) l (unat k)"
      if "run lba (unat n) \<inter> run l (unat k) = {}"
      by (rule read_run_frame, rule write_run_frame [OF 2(4)]) (use that in blast)
    have rd: "read_run m lba (unat n) = Some bs" if "rc = 0" "length bs = unat n * ATA_SECTOR_SIZE"
      by (rule write_run_read [OF _ lt]) (use 2(4,5) that in simp_all)
    show ?thesis using 2(1,2,3,5,6) fr rd
      by (simp add: sdmmc_read_sectors_def sdmmc_check_medium nth_list_update Let_def)
  qed simp
  then show "rc = 0 \<Longrightarrow> length bs = unat n * ATA_SECTOR_SIZE \<Longrightarrow> sdmmc_read_sectors st' i lba n = Inr bs"
    and "run lba (unat n) \<inter> run l (unat k) = {} \<Longrightarrow> sdmmc_read_sectors st' i l k = sdmmc_read_sectors st i l k"
    and "i \<noteq> j \<Longrightarrow> sdmmc_read_sectors st' j l k = sdmmc_read_sectors st j l k"
    and "g_drives st' = g_drives st" "g_namespaces st' = g_namespaces st"
      "length (g_hosts st') = length (g_hosts st)" by blast+
qed

lemma ata_contract:
  assumes w: "ata_write_sectors st i lba n bs = (rc, st')"
  shows "rc = 0 \<Longrightarrow> length bs = unat n * ATA_SECTOR_SIZE \<Longrightarrow> ata_read_sectors st' i lba n = Inr bs"
    and "run lba (unat n) \<inter> run l (unat k) = {} \<Longrightarrow> ata_read_sectors st' i l k = ata_read_sectors st i l k"
    and "i \<noteq> j \<Longrightarrow> ata_read_sectors st' j l k = ata_read_sectors st j l k"
    and "g_hosts st' = g_hosts st" "length (g_drives st') = length (g_drives st)"
      "length (g_namespaces st') = length (g_namespaces st)"
      "i < length (g_drives st) \<longrightarrow> g_namespaces st' = g_namespaces st"
proof -
  have lt: "unat n < 2 ^ 64" by (rule unat_lt64) simp
  have *: "(rc = 0 \<longrightarrow> length bs = unat n * ATA_SECTOR_SIZE \<longrightarrow> ata_read_sectors st' i lba n = Inr bs)
    \<and> (run lba (unat n) \<inter> run l (unat k) = {} \<longrightarrow> ata_read_sectors st' i l k = ata_read_sectors st i l k)
    \<and> (i \<noteq> j \<longrightarrow> ata_read_sectors st' j l k = ata_read_sectors st j l k)
    \<and> g_hosts st' = g_hosts st \<and> length (g_drives st') = length (g_drives st)
    \<and> length (g_namespaces st') = length (g_namespaces st)
    \<and> (i < length (g_drives st) \<longrightarrow> g_namespaces st' = g_namespaces st)"
    using w
  proof (cases rule: ata_write_cases)
    case 2
    note nv = nvme_contract [OF 2(3)]
    have u: "unat (ucast n :: u32) = unat n" "unat (ucast k :: u32) = unat k"
      by (rule unat_ucast_widen; simp)+
    show ?thesis
      using 2(1,2) nv(1) nv(2) [of l "ucast k"] nv(3) [of "j - length (g_drives st)" l "ucast k"] nv(4-6) u
      by (cases "j < length (g_drives st)") (auto simp: ata_read_sectors_def)
  next
    case (3 ok m)
    have fr: "read_run m l (unat k) = read_run (ad_medium (g_drives st ! i)) l (unat k)"
      if "run lba (unat n) \<inter> run l (unat k) = {}"
      by (rule read_run_frame, rule write_run_frame [OF 3(4)]) (use that in blast)
    have rd: "read_run m lba (unat n) = Some bs" if "rc = 0" "length bs = unat n * ATA_SECTOR_SIZE"
      by (rule write_run_read [OF _ lt]) (use 3(4,5) that in simp_all)
    show ?thesis using 3(1,2,3,5,6) fr rd
      by (simp add: ata_read_sectors_def nvme_read_sectors_def ata_check_medium nth_list_update Let_def)
  qed simp
  then show "rc = 0 \<Longrightarrow> length bs = unat n * ATA_SECTOR_SIZE \<Longrightarrow> ata_read_sectors st' i lba n = Inr bs"
    and "run lba (unat n) \<inter> run l (unat k) = {} \<Longrightarrow> ata_read_sectors st' i l k = ata_read_sectors st i l k"
    and "i \<noteq> j \<Longrightarrow> ata_read_sectors st' j l k = ata_read_sectors st j l k"
    and "g_hosts st' = g_hosts st" "length (g_drives st') = length (g_drives st)"
      "length (g_namespaces st') = length (g_namespaces st)"
      "i < length (g_drives st) \<longrightarrow> g_namespaces st' = g_namespaces st" by blast+
qed

section \<open>Transfers in chunks\<close>

lemma chunk_count: "n > 0 \<Longrightarrow> c = (if n > 255 then 255 else n) \<Longrightarrow> unat (of_nat c :: u8) = c \<and> 0 < c \<and> c \<le> n \<and> c \<le> 255"
  by (auto simp: unsigned_of_nat take_bit_nat_eq_self)

lemma chunk_run: "c \<le> n \<Longrightarrow> run lba n = run lba c \<union> run (lba + of_nat c) (n - c)"
  using run_add [of lba c "n - c"] by simp

lemma write_chunks_keeps:
  "ata_write_chunks st d lba n bs = (rc, st') \<Longrightarrow>
     (run lba n \<inter> run l (unat k) = {} \<longrightarrow> ata_read_sectors st' d l k = ata_read_sectors st d l k)
     \<and> (d \<noteq> j \<longrightarrow> ata_read_sectors st' j l k = ata_read_sectors st j l k)
     \<and> g_hosts st' = g_hosts st \<and> length (g_drives st') = length (g_drives st)
     \<and> length (g_namespaces st') = length (g_namespaces st)
     \<and> (d < length (g_drives st) \<longrightarrow> g_namespaces st' = g_namespaces st)"
proof (induction st d lba n bs rule: ata_write_chunks.induct)
  case (1 st d lba n bs)
  show ?case
  proof (cases "n = 0")
    case False
    define c where "c = (if n > 255 then 255 else n)"
    have c: "unat (of_nat c :: u8) = c" "c \<le> n"
      using chunk_count [OF _ c_def] False by auto
    obtain rc1 st1 where w: "ata_write_sectors st d lba (of_nat c) (take (c * ATA_SECTOR_SIZE) bs) = (rc1, st1)"
      by fastforce
    note k = ata_contract(2,3) [OF w, unfolded c(1)] ata_contract(4-7) [OF w]
    show ?thesis
    proof (cases "rc1 = 0")
      case True
      then have rest: "ata_write_chunks st1 d (lba + of_nat c) (n - c) (drop (c * ATA_SECTOR_SIZE) bs) = (rc, st')"
        using "1.prems" False w by (simp add: ata_write_chunks.simps [of st] c_def [symmetric] Let_def)
      from "1.IH" [OF False c_def w [symmetric] _ rest] True chunk_run [OF c(2), of lba] k
      show ?thesis by (simp add: Int_Un_distrib2)
    next
      case bad: False
      then have "st' = st1"
        using "1.prems" False w by (simp add: ata_write_chunks.simps [of st] c_def [symmetric] Let_def)
      then show ?thesis using chunk_run [OF c(2), of lba] k by (simp add: Int_Un_distrib2)
    qed
  qed (use 1 in \<open>simp add: ata_write_chunks.simps [of st]\<close>)
qed

lemma read_chunks_cong:
  "(\<And>l' c. run l' (unat c) \<subseteq> run l k \<Longrightarrow> ata_read_sectors st' d l' c = ata_read_sectors st d l' c) \<Longrightarrow>
     ata_read_chunks st' d l k = ata_read_chunks st d l k"
proof (induction st d l k rule: ata_read_chunks.induct)
  case (1 st d l k)
  show ?case
  proof (cases "k = 0")
    case False
    define c where "c = (if k > 255 then 255 else k)"
    have c: "unat (of_nat c :: u8) = c" "c \<le> k"
      using chunk_count [OF _ c_def] False by auto
    have sub: "run l c \<subseteq> run l k" "run (l + of_nat c) (k - c) \<subseteq> run l k"
      using chunk_run [OF c(2), of l] by auto
    have a: "ata_read_sectors st' d l (of_nat c) = ata_read_sectors st d l (of_nat c)"
      using "1.prems" c(1) sub(1) by simp
    have b: "ata_read_chunks st' d (l + of_nat c) (k - c) = ata_read_chunks st d (l + of_nat c) (k - c)"
      if "ata_read_sectors st d l (of_nat c) = Inr bs" for bs
      by (rule "1.IH" [OF False c_def that]) (use "1.prems" sub(2) in blast)
    show ?thesis
      using a b False
      by (simp add: ata_read_chunks.simps [of st'] ata_read_chunks.simps [of st] c_def [symmetric] split: sum.split)
  qed (simp add: ata_read_chunks.simps)
qed

lemma write_chunks_read:
  "ata_write_chunks st d lba n bs = (0, st') \<Longrightarrow> n \<le> 2 ^ 64 \<Longrightarrow> length bs = n * ATA_SECTOR_SIZE \<Longrightarrow>
     ata_read_chunks st' d lba n = Some bs"
proof (induction st d lba n bs rule: ata_write_chunks.induct)
  case (1 st d lba n bs)
  show ?case
  proof (cases "n = 0")
    case False
    define c where "c = (if n > 255 then 255 else n)"
    have c: "unat (of_nat c :: u8) = c" "c \<le> n"
      using chunk_count [OF _ c_def] False by auto
    obtain rc1 st1 where w: "ata_write_sectors st d lba (of_nat c) (take (c * ATA_SECTOR_SIZE) bs) = (rc1, st1)"
      by fastforce
    from "1.prems"(1) False w have ok: "rc1 = 0"
      and rest: "ata_write_chunks st1 d (lba + of_nat c) (n - c) (drop (c * ATA_SECTOR_SIZE) bs) = (0, st')"
      by (auto simp: ata_write_chunks.simps [of st] c_def [symmetric] Let_def split: if_splits)
    have len: "c * ATA_SECTOR_SIZE \<le> length bs" using c(2) "1.prems"(3) by simp
    have "ata_read_sectors st1 d lba (of_nat c) = Inr (take (c * ATA_SECTOR_SIZE) bs)"
      by (rule ata_contract(1) [OF w ok]) (use len c(1) in simp)
    moreover have "run (lba + of_nat c) (n - c) \<inter> run lba (unat (of_nat c :: u8)) = {}"
      using run_disjoint_split [of c "n - c" lba] c "1.prems"(2) by (simp add: Int_commute)
    ultimately have hd: "ata_read_sectors st' d lba (of_nat c) = Inr (take (c * ATA_SECTOR_SIZE) bs)"
      using write_chunks_keeps [OF rest, of lba "of_nat c" d] by simp
    have tl: "ata_read_chunks st' d (lba + of_nat c) (n - c) = Some (drop (c * ATA_SECTOR_SIZE) bs)"
      by (rule "1.IH" [OF False c_def w [symmetric] _ rest])
        (use ok "1.prems"(2,3) in \<open>simp_all add: diff_mult_distrib\<close>)
    show ?thesis
      using hd tl False by (simp add: ata_read_chunks.simps [of st'] c_def [symmetric])
  qed (use 1 in \<open>simp add: ata_read_chunks.simps\<close>)
qed

lemma write_chunks_frame:
  assumes "ata_write_chunks st d lba n bs = (rc, st')" "run lba n \<inter> run l k = {}"
  shows "ata_read_chunks st' d l k = ata_read_chunks st d l k"
  by (rule read_chunks_cong) (use write_chunks_keeps [OF assms(1)] assms(2) in blast)

lemma write_chunks_other:
  assumes "ata_write_chunks st d lba n bs = (rc, st')" "d \<noteq> j"
  shows "ata_read_chunks st' j l k = ata_read_chunks st j l k"
  by (rule read_chunks_cong) (use write_chunks_keeps [OF assms(1)] assms(2) in blast)

section \<open>The instances\<close>

lemma unat_of_nat_le:
  assumes "n \<le> 2 ^ LENGTH('a) - 1"
  shows "unat (of_nat n :: 'a::len word) = n"
proof -
  have "(0 :: nat) < 2 ^ LENGTH('a)" by simp
  with assms have "n < 2 ^ LENGTH('a)" by linarith
  then show ?thesis by (simp add: unsigned_of_nat take_bit_nat_eq_self)
qed

lemma u32_count: "n \<le> 4294967295 \<Longrightarrow> unat (of_nat n :: u32) = n"
  using unat_of_nat_le [where 'a = 32, of n] by simp

lemma u8_count: "n \<le> 255 \<Longrightarrow> unat (of_nat n :: u8) = n"
  using unat_of_nat_le [where 'a = 8, of n] by simp

interpretation nvme: block_driver
  "\<lambda>st i lba n. nvme_read_sectors st i lba (of_nat n)"
  "\<lambda>st i lba n. nvme_write_sectors st i lba (of_nat n)" 4294967295
  by unfold_locales (use nvme_contract in \<open>simp_all add: u32_count\<close>)

interpretation sdmmc: block_driver
  "\<lambda>st i lba n. sdmmc_read_sectors st i lba (of_nat n)"
  "\<lambda>st i lba n. sdmmc_write_sectors st i lba (of_nat n)" 4294967295
  by unfold_locales (use sdmmc_contract in \<open>simp_all add: u32_count\<close>)

interpretation ata: block_driver
  "\<lambda>st i lba n. ata_read_sectors st i lba (of_nat n)"
  "\<lambda>st i lba n. ata_write_sectors st i lba (of_nat n)" 255
  by unfold_locales (use ata_contract in \<open>simp_all add: u8_count\<close>)

lemma device_contract:
  assumes w: "fs_device_write_sectors st i lba n bs = (rc, st')"
  shows "rc = 0 \<Longrightarrow> length bs = unat n * ATA_SECTOR_SIZE \<Longrightarrow> fs_device_read_sectors st' i lba n = Inr bs"
    and "run lba (unat n) \<inter> run l (unat k) = {} \<Longrightarrow> fs_device_read_sectors st' i l k = fs_device_read_sectors st i l k"
    and "i \<noteq> j \<Longrightarrow> fs_device_read_sectors st' j l k = fs_device_read_sectors st j l k"
proof -
  let ?a = "length (g_drives st)" and ?n = "length (g_namespaces st)" and ?s = "length (g_hosts st)"
  have lt: "unat n \<le> 2 ^ 64" by (rule less_imp_le, rule unat_lt64) simp
  have *: "(rc = 0 \<longrightarrow> length bs = unat n * ATA_SECTOR_SIZE \<longrightarrow> fs_device_read_sectors st' i lba n = Inr bs)
    \<and> (run lba (unat n) \<inter> run l (unat k) = {} \<longrightarrow> fs_device_read_sectors st' i l k = fs_device_read_sectors st i l k)
    \<and> (i \<noteq> j \<longrightarrow> fs_device_read_sectors st' j l k = fs_device_read_sectors st j l k)"
  proof (cases "n = 0")
    case True
    with w show ?thesis by (simp add: fs_device_write_sectors_def)
  next
    case n0: False
    consider (ata) "i < ?a" | (nv) "\<not> i < ?a" "i < ?a + ?n" | (sd) "\<not> i < ?a + ?n" "i < ?a + ?n + ?s"
      | (no) "\<not> i < ?a + ?n + ?s" by linarith
    then show ?thesis
    proof cases
      case ata
      with w n0 have c: "ata_write_chunks st i lba (unat n) bs = (rc, st')"
        by (simp add: fs_device_write_sectors_def)
      note k = write_chunks_keeps [OF c, of 0 0 i] write_chunks_frame [OF c] write_chunks_other [OF c]
        write_chunks_read [of st i lba "unat n" bs st', OF _ lt]
      show ?thesis using ata n0 c k
        by (auto simp: fs_device_read_sectors_def Let_def nvme_read_sectors_def sdmmc_read_sectors_def)
    next
      case nv
      with w n0 have c: "nvme_write_sectors st (i - ?a) lba n bs = (rc, st')"
        by (simp add: fs_device_write_sectors_def)
      note k = nvme_contract(1) [OF c] nvme_contract(2) [OF c, of l k] nvme_contract(4-6) [OF c]
        nvme_contract(3) [OF c, of "j - ?a" l k]
      have rc: "ata_read_chunks st' j l m = ata_read_chunks st j l m" if "j < ?a" for m
        by (rule read_chunks_cong) (use k(3) that in \<open>simp add: ata_read_sectors_def\<close>)
      show ?thesis using nv n0 k rc
        by (auto simp: fs_device_read_sectors_def Let_def sdmmc_read_sectors_def)
    next
      case sd
      with w n0 have c: "sdmmc_write_sectors st (i - ?a - ?n) lba n bs = (rc, st')"
        by (simp add: fs_device_write_sectors_def)
      note k = sdmmc_contract(1) [OF c] sdmmc_contract(2) [OF c, of l k] sdmmc_contract(4-6) [OF c]
        sdmmc_contract(3) [OF c, of "j - ?a - ?n" l k]
      have rc: "ata_read_chunks st' j l m = ata_read_chunks st j l m" if "j < ?a" for m
        by (rule read_chunks_cong) (use k(3) that in \<open>simp add: ata_read_sectors_def\<close>)
      show ?thesis using sd n0 k rc
        by (auto simp: fs_device_read_sectors_def Let_def nvme_read_sectors_def)
    next
      case no
      with w n0 show ?thesis by (simp add: fs_device_write_sectors_def)
    qed
  qed
  then show "rc = 0 \<Longrightarrow> length bs = unat n * ATA_SECTOR_SIZE \<Longrightarrow> fs_device_read_sectors st' i lba n = Inr bs"
    and "run lba (unat n) \<inter> run l (unat k) = {} \<Longrightarrow> fs_device_read_sectors st' i l k = fs_device_read_sectors st i l k"
    and "i \<noteq> j \<Longrightarrow> fs_device_read_sectors st' j l k = fs_device_read_sectors st j l k" by blast+
qed

interpretation fsdev: block_driver
  "\<lambda>st i lba n. fs_device_read_sectors st i lba (of_nat n)"
  "\<lambda>st i lba n. fs_device_write_sectors st i lba (of_nat n)" 4294967295
  by unfold_locales (use device_contract in \<open>simp_all add: u32_count\<close>)

section \<open>Block reads and writes\<close>

lemma same_devices:
  "nvme_write_sectors st i lba n bs = (rc, st') \<Longrightarrow> fs_get_block_device st' j = fs_get_block_device st j"
  "sdmmc_write_sectors st i lba n bs = (rc, st') \<Longrightarrow> fs_get_block_device st' j = fs_get_block_device st j"
proof -
  show "fs_get_block_device st' j = fs_get_block_device st j" if "nvme_write_sectors st i lba n bs = (rc, st')"
    using that by (cases rule: nvme_write_cases) (auto simp: fs_get_block_device_def nth_list_update Let_def)
  show "fs_get_block_device st' j = fs_get_block_device st j" if "sdmmc_write_sectors st i lba n bs = (rc, st')"
    using that by (cases rule: sdmmc_write_cases) (auto simp: fs_get_block_device_def nth_list_update Let_def)
qed

lemma same_devices_ata:
  assumes w: "ata_write_sectors st i lba n bs = (rc, st')"
  shows "fs_get_block_device st' j = fs_get_block_device st j"
  using w
proof (cases rule: ata_write_cases)
  case 2
  then show ?thesis by (simp add: same_devices)
next
  case (3 ok m)
  then show ?thesis by (simp add: fs_get_block_device_def nth_list_update Let_def)
qed simp

lemma same_devices_chunks:
  "ata_write_chunks st i lba n bs = (rc, st') \<Longrightarrow> fs_get_block_device st' j = fs_get_block_device st j"
proof (induction st i lba n bs rule: ata_write_chunks.induct)
  case (1 st d lba n bs)
  show ?case
  proof (cases "n = 0")
    case False
    define c where "c = (if n > 255 then 255 else n)"
    obtain rc1 st1 where w: "ata_write_sectors st d lba (of_nat c) (take (c * ATA_SECTOR_SIZE) bs) = (rc1, st1)"
      by fastforce
    show ?thesis
      using "1.IH" [OF False c_def w [symmetric]] "1.prems" False w same_devices_ata [OF w]
      by (simp add: ata_write_chunks.simps [of st] c_def [symmetric] Let_def split: if_splits)
  qed (use 1 in \<open>simp add: ata_write_chunks.simps [of st]\<close>)
qed

lemma same_devices_fs:
  "fs_device_write_sectors st i lba n bs = (rc, st') \<Longrightarrow> fs_get_block_device st' j = fs_get_block_device st j"
  by (auto simp: fs_device_write_sectors_def Let_def same_devices same_devices_chunks split: if_splits)

lemma stats_frame:
  "fs_get_block_device (st\<lparr>g_fs_write_bytes := w\<rparr>) = fs_get_block_device st"
  "ata_read_sectors (st\<lparr>g_fs_write_bytes := w\<rparr>) i l b = ata_read_sectors st i l b"
  "nvme_read_sectors (st\<lparr>g_fs_write_bytes := w\<rparr>) i l k = nvme_read_sectors st i l k"
  "sdmmc_read_sectors (st\<lparr>g_fs_write_bytes := w\<rparr>) i l k = sdmmc_read_sectors st i l k"
  by (simp_all add: fun_eq_iff fs_get_block_device_def ata_read_sectors_def nvme_read_sectors_def
      sdmmc_read_sectors_def Let_def)

lemma stats_frame_device:
  "fs_device_read_sectors (st\<lparr>g_fs_write_bytes := w\<rparr>) i l k = fs_device_read_sectors st i l k"
proof -
  have "ata_read_chunks (st\<lparr>g_fs_write_bytes := w\<rparr>) i l n = ata_read_chunks st i l n" for n
    by (rule read_chunks_cong) (rule stats_frame(2))
  then show ?thesis by (simp add: fs_device_read_sectors_def stats_frame Let_def)
qed

lemma block_read_device:
  "fst (fs_block_read st d l k) =
     (if k = 0 then Inl (-1)
      else case fs_drive_total_sectors st d of
        None \<Rightarrow> Inl (-1)
      | Some tot \<Rightarrow>
          if l \<ge> tot \<or> ucast k > tot \<or> l + ucast k > tot then Inl (-1) else fs_device_read_sectors st d l k)"
  by (simp add: fs_block_read_def split: option.split sum.split)

lemma no_wrap_bound:
  fixes lba tot :: u64 and n :: u32
  assumes "lba < tot" "lba + ucast n \<le> tot" "unat tot \<le> 2 ^ 64 - 2 ^ 32"
  shows "unat lba + unat n \<le> unat tot"
proof -
  have n: "unat n < 2 ^ 32" "unat (ucast n :: u64) = unat n"
    using unsigned_less [of n, where 'a = nat] by (simp_all add: unat_ucast_widen)
  have l: "unat lba < unat tot" using assms(1) by (simp add: word_less_nat_alt)
  with n(1) assms(3) have "unat lba + unat n < 2 ^ 64" by linarith
  then have "unat (lba + ucast n) = unat lba + unat n"
    using n(2) by (simp add: unat_word_ariths(1))
  with assms(2) show ?thesis by (simp add: word_le_nat_alt)
qed

lemma block_write_read_spec:
  assumes w: "fs_block_write st d lba n bs = (0, st')" and len: "length bs = unat n * ATA_SECTOR_SIZE"
  shows "fst (fs_block_read st' d lba n) = Inr bs"
    "run lba (unat n) \<inter> run l (unat k) = {} \<Longrightarrow> fst (fs_block_read st' d l k) = fst (fs_block_read st d l k)"
    "j \<noteq> d \<Longrightarrow> fst (fs_block_read st' j l k) = fst (fs_block_read st j l k)"
    "(\<exists>tot. fs_drive_total_sectors st d = Some tot \<and>
       (unat tot \<le> 2 ^ 64 - 2 ^ 32 \<longrightarrow> unat lba + unat n \<le> unat tot))"
proof -
  from w obtain tot st1 where n0: "n \<noteq> 0" and tot: "fs_drive_total_sectors st d = Some tot"
    and chk: "\<not> lba \<ge> tot" "\<not> ucast n > tot" "\<not> lba + ucast n > tot"
    and dw: "fs_device_write_sectors st d lba n bs = (0, st1)"
    and st': "st' = st1\<lparr>g_fs_write_bytes := g_fs_write_bytes st1 + ucast n * 512\<rparr>"
    by (auto simp: fs_block_write_def split: if_splits option.splits prod.splits)
  have same: "fs_drive_total_sectors st' i = fs_drive_total_sectors st i" for i
    by (simp add: fs_drive_total_sectors_def st' stats_frame same_devices_fs [OF dw])
  have rd: "fs_device_read_sectors st' i m q = fs_device_read_sectors st1 i m q" for i m q
    by (simp add: st' stats_frame_device)
  show "fst (fs_block_read st' d lba n) = Inr bs"
    using n0 tot chk device_contract(1) [OF dw refl len]
    by (simp add: block_read_device same rd split: option.split)
  show "fst (fs_block_read st' d l k) = fst (fs_block_read st d l k)"
    if "run lba (unat n) \<inter> run l (unat k) = {}"
    using device_contract(2) [OF dw that]
    by (simp add: block_read_device same rd split: option.split)
  show "fst (fs_block_read st' j l k) = fst (fs_block_read st j l k)" if "j \<noteq> d"
    using device_contract(3) [OF dw, of j l k] that
    by (simp add: block_read_device same rd split: option.split)
  show "(\<exists>tot. fs_drive_total_sectors st d = Some tot \<and>
       (unat tot \<le> 2 ^ 64 - 2 ^ 32 \<longrightarrow> unat lba + unat n \<le> unat tot))"
    using tot chk by (auto intro: no_wrap_bound simp: not_le not_less)
qed

text \<open>
  C25. A block that is written reads back, for every kind of device and every length the
  32-bit count allows, though the layer cuts transfers to an ATA drive into chunks; blocks
  that do not overlap it and all other devices read as before; and the block lies within the
  device, whose size may be anything that leaves the end computation room in 64 bits.
\<close>

theorem block_write_read:
  assumes "fs_block_write st d lba n bs = (0, st')" and "length bs = unat n * ATA_SECTOR_SIZE"
  shows "fst (fs_block_read st' d lba n) = Inr bs
     \<and> (\<forall>l k. run lba (unat n) \<inter> run l (unat k) = {} \<longrightarrow>
          fst (fs_block_read st' d l k) = fst (fs_block_read st d l k))
     \<and> (\<forall>j l k. j \<noteq> d \<longrightarrow> fst (fs_block_read st' j l k) = fst (fs_block_read st j l k))
     \<and> (\<exists>tot. fs_drive_total_sectors st d = Some tot \<and>
          (unat tot \<le> 2 ^ 64 - 2 ^ 32 \<longrightarrow> unat lba + unat n \<le> unat tot))"
  using block_write_read_spec [OF assms] by blast

text \<open>A machine with one ATA drive of 1000 sectors, all zero.\<close>

definition zero_sector :: "u8 list" where "zero_sector = replicate 512 0"

definition one_disk :: storage where
  "one_disk = \<lparr>g_drives = [\<lparr>ad_present = True, ad_ahci = False, lba48_supported = True, ad_type = ATA_DRIVE_ATA,
       sectors28 = 1000, sectors48 = 0, ad_model = ''QEMU'', ad_medium = (\<lambda>l. if l < 1000 then Some zero_sector else None)\<rparr>],
     g_namespaces = [], g_hosts = [], g_fs_read_bytes = 0, g_fs_write_bytes = 0\<rparr>"

lemma one_disk_total: "fs_drive_total_sectors one_disk 0 = Some 1000"
  by (simp add: fs_drive_total_sectors_def fs_get_block_device_def one_disk_def Let_def)

lemma one_disk_write:
  "fs_block_write one_disk 0 5 1 (replicate 512 7) =
     (0, snd (fs_block_write one_disk 0 5 1 (replicate 512 7)))"
  by (simp add: fs_block_write_def one_disk_total)
    (simp add: one_disk_def fs_device_write_sectors_def ata_write_chunks.simps ata_write_sectors_def
      ata_rw_check_def ata_drive_total_sectors_def zero_sector_def)

theorem block_write_read_witness:
  "fst (fs_block_read (snd (fs_block_write one_disk 0 5 1 (replicate 512 7))) 0 5 1) = Inr (replicate 512 7)
   \<and> fst (fs_block_read (snd (fs_block_write one_disk 0 5 1 (replicate 512 7))) 0 6 1) = Inr zero_sector"
proof -
  have "fst (fs_block_read one_disk 0 6 1) = Inr zero_sector"
    by (simp add: block_read_device one_disk_total)
      (simp add: one_disk_def fs_device_read_sectors_def ata_read_chunks.simps ata_read_sectors_def
        ata_rw_check_def ata_drive_total_sectors_def)
  then show ?thesis
    using block_write_read [OF one_disk_write] by (simp add: ATA_SECTOR_SIZE_def)
qed

end
