(* ===== verification/Fat_Words.thy ===== *)
theory Fat_Words
  imports Prelude
begin

text \<open>
  Bytes and words: splitting a number into bytes and joining them again, and the 12-bit
  entries that share a byte with their neighbour. Nothing here is particular to a program.
\<close>

lemma masks:
  "(0xFF :: u16) = mask 8" "(0xFFF :: u16) = mask 12" "(0xF :: u16) = mask 4"
  "(0xF000 :: u16) = push_bit 12 (mask 4)"
  "(0xFF :: u32) = mask 8" "(0xFFF :: u32) = mask 12" "(0xFFFF :: u32) = mask 16"
  "(0x0FFFFFFF :: u32) = mask 28" "(0xF0000000 :: u32) = push_bit 28 (mask 4)"
  by (simp_all add: mask_eq_exp_minus_1 push_bit_eq_mult)

definition join16 :: "u8 \<Rightarrow> u8 \<Rightarrow> u16" where
  "join16 a b = ucast a OR push_bit 8 (ucast b)"

definition lo8 :: "u16 \<Rightarrow> u8" where "lo8 v = ucast (v AND 0xFF)"
definition hi8 :: "u16 \<Rightarrow> u8" where "hi8 v = ucast ((drop_bit 8 v) AND 0xFF)"

lemma bit_join16: "bit (join16 a b) n \<longleftrightarrow> (if n < 8 then bit a n else n < 16 \<and> bit b (n - 8))"
  unfolding join16_def
  by (auto simp: bit_simps dest: bit_imp_le_length)

lemma bit_lo8: "bit (lo8 v) n \<longleftrightarrow> n < 8 \<and> bit v n"
  unfolding lo8_def masks by (auto simp: bit_simps)

lemma bit_hi8: "bit (hi8 v) n \<longleftrightarrow> n < 8 \<and> bit v (n + 8)"
  unfolding hi8_def masks by (auto simp: bit_simps ac_simps)

lemma join_split: "join16 (lo8 v) (hi8 v) = v"
  by (rule bit_word_eqI) (auto simp: bit_join16 bit_lo8 bit_hi8)

lemma split_join [simp]: "lo8 (join16 a b) = a" "hi8 (join16 a b) = b"
  by (rule bit_word_eqI, auto simp: bit_join16 bit_lo8 bit_hi8 dest: bit_imp_le_length)+

section \<open>Twelve-bit entries\<close>

text \<open>An odd entry is the upper, an even one the lower part of two bytes.\<close>

definition get12 :: "bool \<Rightarrow> u16 \<Rightarrow> u16" where
  "get12 od v = (if od then drop_bit 4 v else v AND 0xFFF)"

definition set12 :: "bool \<Rightarrow> u16 \<Rightarrow> u16 \<Rightarrow> u16" where
  "set12 od old v = (if od then (old AND 0xF) OR push_bit 4 (v AND 0xFFF)
     else (old AND 0xF000) OR (v AND 0xFFF))"

lemma get12_set12: "get12 od (set12 od old v) = v AND 0xFFF"
  unfolding get12_def set12_def masks
  by (cases od; rule bit_word_eqI) (auto simp: bit_simps)

text \<open>The bits of the neighbour survive.\<close>

lemma set12_other:
  "\<not> od \<Longrightarrow> drop_bit 4 (join16 (hi8 (set12 od old v)) b) = drop_bit 4 (join16 (hi8 old) b)"
  "od \<Longrightarrow> join16 a (lo8 (set12 od old v)) AND 0xFFF = join16 a (lo8 old) AND 0xFFF"
  unfolding set12_def masks
  by (rule bit_word_eqI, auto simp: bit_simps bit_join16 bit_lo8 bit_hi8 masks)+

section \<open>Thirty-two bits\<close>

definition join32 :: "u8 \<Rightarrow> u8 \<Rightarrow> u8 \<Rightarrow> u8 \<Rightarrow> u32" where
  "join32 a b c d = ucast a OR push_bit 8 (ucast b) OR push_bit 16 (ucast c) OR push_bit 24 (ucast d)"

definition byte32 :: "nat \<Rightarrow> u32 \<Rightarrow> u8" where "byte32 k v = ucast ((drop_bit (8 * k) v) AND 0xFF)"

lemma bit_join32:
  "bit (join32 a b c d) n \<longleftrightarrow>
     (if n < 8 then bit a n else if n < 16 then bit b (n - 8) else if n < 24 then bit c (n - 16)
      else n < 32 \<and> bit d (n - 24))"
  unfolding join32_def
  by (auto simp: bit_simps dest: bit_imp_le_length)

lemma bit_byte32: "bit (byte32 k v) n \<longleftrightarrow> n < 8 \<and> bit v (8 * k + n)"
  unfolding byte32_def masks by (auto simp: bit_simps ac_simps)

lemma join_split32: "join32 (byte32 0 v) (byte32 1 v) (byte32 2 v) (byte32 3 v) = v"
  by (rule bit_word_eqI) (auto simp: bit_join32 bit_byte32)

lemma low28: "((old AND 0xF0000000) OR (v AND 0x0FFFFFFF)) AND 0x0FFFFFFF = v AND (0x0FFFFFFF :: u32)"
  unfolding masks by (rule bit_word_eqI) (auto simp: bit_simps)

end
