(* ===== verification/Fat_Table.thy ===== *)
theory Fat_Table
  imports Storage
begin

text \<open>
  The volume level of \<open>fs/fat.c\<close>: mounting, the file allocation table with entries of 12, 16
  or 28 bits in every copy, and allocation and release of clusters.

  \<open>fat_fs\<close> is \<open>fat_fs_t\<close>; the numbers keep their widths, so the sector arithmetic wraps as in
  C. A sector that was read has 512 bytes and \<open>bytes_per_sector\<close> is 512 on every mounted
  volume, so the offsets below stay inside a sector.
\<close>

datatype fat_type = FAT_TYPE_12 | FAT_TYPE_16 | FAT_TYPE_32

record fat_fs =
  mounted :: bool
  drive_index :: nat
  partition_lba :: u64
  ftype :: fat_type
  bytes_per_sector :: u16
  sectors_per_cluster :: u8
  reserved_sectors :: u16
  fat_count :: u8
  root_entry_count :: u16
  total_sectors :: u32
  sectors_per_fat :: u32
  root_dir_sectors :: u32
  first_fat_sector :: u32
  first_root_dir_sector :: u32
  first_data_sector :: u32
  cluster_count :: u32
  root_cluster :: u32
  next_free_cluster :: u32

section \<open>Numbers in sectors\<close>

definition rd16 :: "u8 list \<Rightarrow> nat \<Rightarrow> u16" where
  "rd16 p i = ucast (p ! i) OR push_bit 8 (ucast (p ! (i + 1)))"

definition rd32 :: "u8 list \<Rightarrow> nat \<Rightarrow> u32" where
  "rd32 p i = ucast (p ! i) OR push_bit 8 (ucast (p ! (i + 1))) OR push_bit 16 (ucast (p ! (i + 2)))
     OR push_bit 24 (ucast (p ! (i + 3)))"

definition wr16 :: "u8 list \<Rightarrow> nat \<Rightarrow> u16 \<Rightarrow> u8 list" where
  "wr16 p i v = p[i := ucast (v AND 0xFF), i + 1 := ucast ((drop_bit 8 v) AND 0xFF)]"

definition wr32 :: "u8 list \<Rightarrow> nat \<Rightarrow> u32 \<Rightarrow> u8 list" where
  "wr32 p i v = p[i := ucast (v AND 0xFF), i + 1 := ucast ((drop_bit 8 v) AND 0xFF),
     i + 2 := ucast ((drop_bit 16 v) AND 0xFF), i + 3 := ucast ((drop_bit 24 v) AND 0xFF)]"

section \<open>Geometry\<close>

definition fat_eoc_value :: "fat_fs \<Rightarrow> u32" where
  "fat_eoc_value fs =
     (if ftype fs = FAT_TYPE_12 then 0x0FFF else if ftype fs = FAT_TYPE_16 then 0xFFFF else 0x0FFFFFFF)"

definition fat_is_power_of_two_u32 :: "u32 \<Rightarrow> bool" where
  "fat_is_power_of_two_u32 v \<longleftrightarrow> v \<noteq> 0 \<and> v AND (v - 1) = 0"

definition fat_fat_entry_count :: "fat_fs \<Rightarrow> u32" where
  "fat_fat_entry_count fs =
     (let fat_bytes = sectors_per_fat fs * ucast (bytes_per_sector fs) in
      if ftype fs = FAT_TYPE_12 then (fat_bytes * 2) div 3
      else if ftype fs = FAT_TYPE_16 then fat_bytes div 2
      else fat_bytes div 4)"

definition fat_max_valid_cluster :: "fat_fs \<Rightarrow> u32" where
  "fat_max_valid_cluster fs =
     (let by_data = cluster_count fs + 1; entries = fat_fat_entry_count fs in
      if entries \<le> 2 then 1
      else let by_fat = entries - 1 in if by_data < by_fat then by_data else by_fat)"

definition fat_cluster_to_sector :: "fat_fs \<Rightarrow> u32 \<Rightarrow> u32" where
  "fat_cluster_to_sector fs cluster =
     first_data_sector fs + (cluster - 2) * ucast (sectors_per_cluster fs)"

section \<open>Sectors of the volume\<close>

definition fat_read_sector :: "fat_fs \<Rightarrow> storage \<Rightarrow> u32 \<Rightarrow> int + u8 list" where
  "fat_read_sector fs st rel_sector =
     ata_read_sectors st (drive_index fs) (partition_lba fs + ucast rel_sector) 1"

definition fat_write_sector :: "fat_fs \<Rightarrow> storage \<Rightarrow> u32 \<Rightarrow> u8 list \<Rightarrow> int \<times> storage" where
  "fat_write_sector fs st rel_sector sec =
     ata_write_sectors st (drive_index fs) (partition_lba fs + ucast rel_sector) 1 sec"

definition fat_write_sectors :: "fat_fs \<Rightarrow> storage \<Rightarrow> u32 \<Rightarrow> u8 \<Rightarrow> u8 list \<Rightarrow> int \<times> storage" where
  "fat_write_sectors fs st rel_sector n bs =
     ata_write_sectors st (drive_index fs) (partition_lba fs + ucast rel_sector) n bs"

section \<open>Table entries\<close>

text \<open>\<open>None\<close> is the error return.\<close>

definition fat_read_fat_entry :: "fat_fs \<Rightarrow> storage \<Rightarrow> u32 \<Rightarrow> u32 option" where
  "fat_read_fat_entry fs st cluster =
     (let bps = ucast (bytes_per_sector fs) :: u32 in
      if ftype fs = FAT_TYPE_12 then
        (let fat_offset = cluster + cluster div 2;
             sector = first_fat_sector fs + fat_offset div bps;
             off = unat (fat_offset mod bps)
         in case fat_read_sector fs st sector of
              Inl _ \<Rightarrow> None
            | Inr sec \<Rightarrow>
                (case (if int off = int (unat (bytes_per_sector fs)) - 1
                       then (case fat_read_sector fs st (sector + 1) of
                               Inl _ \<Rightarrow> None | Inr sec2 \<Rightarrow> Some (sec2 ! 0))
                       else Some (sec ! (off + 1))) of
                   None \<Rightarrow> None
                 | Some b1 \<Rightarrow>
                     let v = ucast (sec ! off) OR push_bit 8 (ucast b1) :: u16 in
                     Some (ucast (if cluster AND 1 \<noteq> 0 then drop_bit 4 v else v AND 0x0FFF))))
      else if ftype fs = FAT_TYPE_16 then
        (let fat_offset = cluster * 2;
             sector = first_fat_sector fs + fat_offset div bps;
             off = unat (fat_offset mod bps)
         in case fat_read_sector fs st sector of
              Inl _ \<Rightarrow> None
            | Inr sec \<Rightarrow> Some (ucast (rd16 sec off)))
      else
        (let fat_offset = cluster * 4;
             sector = first_fat_sector fs + fat_offset div bps;
             off = unat (fat_offset mod bps)
         in case fat_read_sector fs st sector of
              Inl _ \<Rightarrow> None
            | Inr sec \<Rightarrow> Some (rd32 sec off AND 0x0FFFFFFF)))"

definition fat_write_fat12_single :: "fat_fs \<Rightarrow> storage \<Rightarrow> u32 \<Rightarrow> u32 \<Rightarrow> u16 \<Rightarrow> int \<times> storage" where
  "fat_write_fat12_single fs st fat_base cluster value12 =
     (let bps = ucast (bytes_per_sector fs) :: u32;
          fat_offset = cluster + cluster div 2;
          sector = fat_base + fat_offset div bps;
          off = unat (fat_offset mod bps)
      in case fat_read_sector fs st sector of
           Inl _ \<Rightarrow> (-1, st)
         | Inr s0 \<Rightarrow>
             let has_second = (int off = int (unat (bytes_per_sector fs)) - 1) in
             (case (if has_second then fat_read_sector fs st (sector + 1) else Inr []) of
                Inl _ \<Rightarrow> (-1, st)
              | Inr s1 \<Rightarrow>
                  let b0 = s0 ! off;
                      b1 = (if has_second then s1 ! 0 else s0 ! (off + 1));
                      old = ucast b0 OR push_bit 8 (ucast b1) :: u16;
                      nv = (if cluster AND 1 \<noteq> 0
                            then (old AND 0x000F) OR push_bit 4 (value12 AND 0x0FFF)
                            else (old AND 0xF000) OR (value12 AND 0x0FFF));
                      s0 = s0[off := ucast (nv AND 0xFF)];
                      hi = ucast ((drop_bit 8 nv) AND 0xFF) :: u8;
                      s0 = (if has_second then s0 else s0[off + 1 := hi])
                  in (case fat_write_sector fs st sector s0 of
                        (rc, st1) \<Rightarrow>
                          if rc \<noteq> 0 then (-1, st1)
                          else if has_second then
                            (case fat_write_sector fs st1 (sector + 1) (s1[0 := hi]) of
                               (rc, st2) \<Rightarrow> if rc \<noteq> 0 then (-1, st2) else (0, st2))
                          else (0, st1))))"

text \<open>The body of the loop over the copies of the table, for the copy at \<open>fat_base\<close>.\<close>

definition fat_write_copy :: "fat_fs \<Rightarrow> storage \<Rightarrow> u32 \<Rightarrow> u32 \<Rightarrow> u32 \<Rightarrow> int \<times> storage" where
  "fat_write_copy fs st fat_base cluster v =
     (if ftype fs = FAT_TYPE_12 then
        (case fat_write_fat12_single fs st fat_base cluster (ucast (v AND 0x0FFF)) of
           (rc, st1) \<Rightarrow> if rc \<noteq> 0 then (-1, st1) else (0, st1))
      else
        let bps = ucast (bytes_per_sector fs) :: u32;
            fat_off = (if ftype fs = FAT_TYPE_16 then cluster * 2 else cluster * 4);
            sector = fat_base + fat_off div bps;
            off = unat (fat_off mod bps)
        in (case fat_read_sector fs st sector of
              Inl _ \<Rightarrow> (-1, st)
            | Inr sec \<Rightarrow>
                let sec = (if ftype fs = FAT_TYPE_16 then wr16 sec off (ucast (v AND 0xFFFF))
                           else wr32 sec off ((rd32 sec off AND 0xF0000000) OR (v AND 0x0FFFFFFF)))
                in (case fat_write_sector fs st sector sec of
                      (rc, st1) \<Rightarrow> if rc \<noteq> 0 then (-1, st1) else (0, st1))))"

text \<open>The copies from the \<open>fi\<close>th on, \<open>n\<close> of them.\<close>

fun fat_write_copies :: "fat_fs \<Rightarrow> storage \<Rightarrow> nat \<Rightarrow> nat \<Rightarrow> u32 \<Rightarrow> u32 \<Rightarrow> int \<times> storage" where
  "fat_write_copies fs st fi 0 cluster v = (0, st)"
| "fat_write_copies fs st fi (Suc n) cluster v =
     (case fat_write_copy fs st (first_fat_sector fs + of_nat fi * sectors_per_fat fs) cluster v of
        (rc, st1) \<Rightarrow> if rc \<noteq> 0 then (-1, st1) else fat_write_copies fs st1 (fi + 1) n cluster v)"

definition fat_write_fat_entry :: "fat_fs \<Rightarrow> storage \<Rightarrow> u32 \<Rightarrow> u32 \<Rightarrow> int \<times> storage" where
  "fat_write_fat_entry fs st cluster v = fat_write_copies fs st 0 (unat (fat_count fs)) cluster v"

definition fat_is_eoc :: "fat_fs \<Rightarrow> u32 \<Rightarrow> bool" where
  "fat_is_eoc fs v \<longleftrightarrow>
     (if ftype fs = FAT_TYPE_12 then v \<ge> 0x0FF8
      else if ftype fs = FAT_TYPE_16 then v \<ge> 0xFFF8
      else v \<ge> 0x0FFFFFF8)"

section \<open>Clusters\<close>

fun fat_zero_sectors :: "fat_fs \<Rightarrow> storage \<Rightarrow> u32 \<Rightarrow> nat \<Rightarrow> int \<times> storage" where
  "fat_zero_sectors fs st sector 0 = (0, st)"
| "fat_zero_sectors fs st sector (Suc n) =
     (case fat_write_sector fs st sector (replicate ATA_SECTOR_SIZE 0) of
        (rc, st1) \<Rightarrow> if rc \<noteq> 0 then (-1, st1) else fat_zero_sectors fs st1 (sector + 1) n)"

definition fat_zero_cluster :: "fat_fs \<Rightarrow> storage \<Rightarrow> u32 \<Rightarrow> int \<times> storage" where
  "fat_zero_cluster fs st cluster =
     fat_zero_sectors fs st (fat_cluster_to_sector fs cluster) (unat (sectors_per_cluster fs))"

text \<open>
  One pass of \<open>fat_alloc_cluster\<close>, from \<open>c\<close> to \<open>e\<close>: an error, no free cluster, or the cluster
  taken.
\<close>

function fat_alloc_scan :: "fat_fs \<Rightarrow> storage \<Rightarrow> bool \<Rightarrow> nat \<Rightarrow> nat \<Rightarrow> (int + u32 option) \<times> storage" where
  "fat_alloc_scan fs st zero c e =
     (if c > e then (Inr None, st)
      else case fat_read_fat_entry fs st (of_nat c) of
        None \<Rightarrow> (Inl (-1), st)
      | Some v \<Rightarrow>
          if v = 0 then
            (case fat_write_fat_entry fs st (of_nat c) (fat_eoc_value fs) of
               (rc, st1) \<Rightarrow>
                 if rc \<noteq> 0 then (Inl (-1), st1)
                 else if zero then
                   (case fat_zero_cluster fs st1 (of_nat c) of
                      (rc, st2) \<Rightarrow> if rc \<noteq> 0 then (Inl (-1), st2) else (Inr (Some (of_nat c)), st2))
                 else (Inr (Some (of_nat c)), st1))
          else fat_alloc_scan fs st zero (c + 1) e)"
  by pat_completeness auto
termination by (relation "measure (\<lambda>(fs, st, zero, c, e). Suc e - c)") auto

declare fat_alloc_scan.simps [simp del]

text \<open>The cluster, or \<open>None\<close> for the error return.\<close>

definition fat_alloc_cluster :: "fat_fs \<Rightarrow> storage \<Rightarrow> bool \<Rightarrow> u32 option \<times> fat_fs \<times> storage" where
  "fat_alloc_cluster fs st zero =
     (let max_cluster = fat_max_valid_cluster fs in
      if max_cluster < 2 then (None, fs, st)
      else
        let start = (if next_free_cluster fs < 2 \<or> next_free_cluster fs > max_cluster then 2
                     else next_free_cluster fs);
            taken = (\<lambda>c st. (Some c, fs\<lparr>next_free_cluster := if c + 1 \<le> max_cluster then c + 1 else 2\<rparr>, st))
        in case fat_alloc_scan fs st zero (unat start) (unat max_cluster) of
             (Inl _, st1) \<Rightarrow> (None, fs, st1)
           | (Inr (Some c), st1) \<Rightarrow> taken c st1
           | (Inr None, st1) \<Rightarrow>
               (case fat_alloc_scan fs st1 zero 2 (if start > 2 then unat (start - 1) else 1) of
                  (Inl _, st2) \<Rightarrow> (None, fs, st2)
                | (Inr (Some c), st2) \<Rightarrow> taken c st2
                | (Inr None, st2) \<Rightarrow> (None, fs, st2)))"

text \<open>
  The loop of \<open>fat_free_chain\<close> follows what the table holds and has no bound of its own:
  \<open>None\<close> if it does not end.
\<close>

partial_function (option) fat_free_loop :: "fat_fs \<Rightarrow> storage \<Rightarrow> u32 \<Rightarrow> (int \<times> storage) option" where
  "fat_free_loop fs st c =
     (if c < 2 then Some (0, st)
      else case fat_read_fat_entry fs st c of
        None \<Rightarrow> Some (-1, st)
      | Some nxt \<Rightarrow>
          case fat_write_fat_entry fs st c 0 of
            (rc, st1) \<Rightarrow>
              if rc \<noteq> 0 then Some (-1, st1)
              else if fat_is_eoc fs nxt then Some (0, st1)
              else if nxt < 2 \<or> nxt > fat_max_valid_cluster fs then Some (0, st1)
              else fat_free_loop fs st1 nxt)"

definition fat_free_chain :: "fat_fs \<Rightarrow> storage \<Rightarrow> u32 \<Rightarrow> (int \<times> storage) option" where
  "fat_free_chain fs st first_cluster = fat_free_loop fs st first_cluster"

section \<open>Mounting\<close>

text \<open>The volume record of a \<open>memset\<close> and what the boot sector says: status and record.\<close>

definition fat_fs_mount :: "storage \<Rightarrow> nat \<Rightarrow> u64 \<Rightarrow> int + fat_fs" where
  "fat_fs_mount st drive lba =
     (case ata_read_sectors st drive lba 1 of
        Inl _ \<Rightarrow> Inl (-1)
      | Inr bs \<Rightarrow>
          if bs ! 510 \<noteq> 0x55 \<or> bs ! 511 \<noteq> 0xAA then Inl (-2)
          else
            let bps = rd16 bs 11; spc = bs ! 13; reserved = rd16 bs 14; fatc = bs ! 16;
                rootc = rd16 bs 17; total16 = rd16 bs 19; total32 = rd32 bs 32;
                tot = (if total16 \<noteq> 0 then ucast total16 else total32);
                spf16 = rd16 bs 22; spf32 = rd32 bs 36;
                spf = (if spf16 \<noteq> 0 then ucast spf16 else spf32) :: u32
            in if bps \<noteq> 512 \<or> spc = 0 \<or> fatc = 0 \<or> spf = 0 then Inl (-3)
               else if \<not> fat_is_power_of_two_u32 (ucast spc) \<or> reserved = 0 \<or> tot = 0 then Inl (-3)
               else
                 let rds = (ucast rootc * 32 + (ucast bps - 1)) div ucast bps;
                     ffs = ucast reserved;
                     frs = ffs + ucast fatc * spf;
                     fds = frs + rds
                 in if fds \<ge> tot then Inl (-3)
                    else
                      let clusters = (tot - fds) div ucast spc in
                      if clusters = 0 then Inl (-3)
                      else
                        let ty = (if clusters < 4085 then FAT_TYPE_12
                                  else if clusters < 65525 then FAT_TYPE_16 else FAT_TYPE_32);
                            fat_bytes = spf * ucast bps;
                            entries = (if ty = FAT_TYPE_12 then (fat_bytes * 2) div 3
                                       else if ty = FAT_TYPE_16 then fat_bytes div 2
                                       else fat_bytes div 4)
                        in if entries \<le> 2 then Inl (-3)
                           else
                             let clusters = (if clusters > entries - 2 then entries - 2 else clusters) in
                             if clusters = 0 then Inl (-3)
                             else
                               let rootcl = (if ty = FAT_TYPE_32 then rd32 bs 44 else 0);
                                   fs = \<lparr>mounted = False, drive_index = drive, partition_lba = lba,
                                         ftype = ty, bytes_per_sector = bps, sectors_per_cluster = spc,
                                         reserved_sectors = reserved, fat_count = fatc,
                                         root_entry_count = rootc, total_sectors = tot,
                                         sectors_per_fat = spf, root_dir_sectors = rds,
                                         first_fat_sector = ffs, first_root_dir_sector = frs,
                                         first_data_sector = fds, cluster_count = clusters,
                                         root_cluster = rootcl, next_free_cluster = 2\<rparr>
                               in if ty = FAT_TYPE_32 \<and> (rootcl < 2 \<or> rootcl > clusters + 1) then Inl (-3)
                                  else if ty \<noteq> FAT_TYPE_32 \<and> (rds = 0 \<or> frs + rds > tot) then Inl (-3)
                                  else
                                    (case fat_read_sector fs st
                                            (if ty = FAT_TYPE_32 then fat_cluster_to_sector fs rootcl
                                             else first_root_dir_sector fs) of
                                       Inl _ \<Rightarrow> Inl (-3)
                                     | Inr _ \<Rightarrow> Inr (fs\<lparr>mounted := True\<rparr>)))"

end
