(* ===== verification/Fat_Volume.thy ===== *)
theory Fat_Volume
  imports Fat_Table Fat_Words Storage_Props
begin

text \<open>
  A sound volume seen as an array of sectors, and a copy of its allocation table seen as an
  array of bytes and as an array of entries. Writing one sector, one entry in one copy, and
  one entry in all copies each change exactly one place of the view.
\<close>

definition fat_geom :: "fat_fs \<Rightarrow> bool" where
  "fat_geom fs \<longleftrightarrow> bytes_per_sector fs = 512 \<and> fat_count fs \<noteq> 0
     \<and> unat (first_fat_sector fs) + unat (fat_count fs) * unat (sectors_per_fat fs) \<le> unat (total_sectors fs)
     \<and> unat (sectors_per_fat fs) < 2 ^ 22
     \<and> unat (partition_lba fs) + unat (total_sectors fs) \<le> 2 ^ 64"

definition fat_disk :: "fat_fs \<Rightarrow> storage \<Rightarrow> bool" where
  "fat_disk fs st \<longleftrightarrow> (\<forall>r < unat (total_sectors fs). \<exists>s. fat_read_sector fs st (of_nat r) = Inr s
     \<and> length s = ATA_SECTOR_SIZE)"

definition vsec :: "fat_fs \<Rightarrow> storage \<Rightarrow> nat \<Rightarrow> u8 list" where
  "vsec fs st r = (case fat_read_sector fs st (of_nat r) of Inr s \<Rightarrow> s | Inl _ \<Rightarrow> [])"

lemma vsec_read:
  "fat_disk fs st \<Longrightarrow> r < unat (total_sectors fs) \<Longrightarrow>
     fat_read_sector fs st (of_nat r) = Inr (vsec fs st r) \<and> length (vsec fs st r) = 512"
  by (auto simp: fat_disk_def vsec_def ATA_SECTOR_SIZE_def)

section \<open>Writing sectors\<close>

lemma read_single_writable:
  assumes "ata_read_sectors st i l 1 = Inr s"
  shows "\<exists>st'. ata_write_sectors st i l 1 bs = (0, st')"
proof (cases "i < length (g_drives st)")
  case True
  with assms obtain sec where "ata_rw_check (g_drives st ! i) l 1 = 0" "ad_medium (g_drives st ! i) l = Some sec"
    by (auto simp: ata_read_sectors_def Let_def split: if_splits option.splits)
  with True show ?thesis by (simp add: ata_write_sectors_def Let_def)
next
  case False
  with assms obtain sec where "i - length (g_drives st) < length (g_namespaces st)"
    "nvme_rw_check (g_namespaces st ! (i - length (g_drives st))) l 1 = 0"
    "nv_medium (g_namespaces st ! (i - length (g_drives st))) l = Some sec"
    by (auto simp: ata_read_sectors_def nvme_read_sectors_def Let_def split: if_splits option.splits)
  with False show ?thesis by (simp add: ata_write_sectors_def nvme_write_sectors_def Let_def)
qed

text \<open>The sector numbers of a volume are distinct addresses.\<close>

lemma sector_lba_inj:
  fixes p :: u64
  assumes "r < 2 ^ 32" "r' < 2 ^ 32"
  shows "p + ucast (of_nat r :: u32) = p + ucast (of_nat r' :: u32) \<longleftrightarrow> r = r'"
proof -
  have "unat (ucast (of_nat r :: u32) :: u64) = r" "unat (ucast (of_nat r' :: u32) :: u64) = r'"
    using assms by (simp_all add: unat_ucast_widen unsigned_of_nat take_bit_nat_eq_self)
  then show ?thesis by (metis add_left_cancel)
qed

lemma total_lt: "r < unat (total_sectors fs) \<Longrightarrow> r < 2 ^ 32"
  using unsigned_less [of "total_sectors fs", where 'a = nat] by simp

lemma write_sector_view:
  assumes d: "fat_disk fs st" and r: "r < unat (total_sectors fs)" and len: "length s = 512"
  shows "\<exists>st'. fat_write_sector fs st (of_nat r) s = (0, st') \<and> fat_disk fs st'
     \<and> (\<forall>r' < unat (total_sectors fs). vsec fs st' r' = (if r' = r then s else vsec fs st r'))"
proof -
  let ?l = "\<lambda>r. partition_lba fs + ucast (of_nat r :: u32)"
  from vsec_read [OF d r] obtain st' where w: "fat_write_sector fs st (of_nat r) s = (0, st')"
    using read_single_writable [of st "drive_index fs" "?l r"]
    unfolding fat_write_sector_def fat_read_sector_def by blast
  have rd: "fat_read_sector fs st' (of_nat r') = (if r' = r then Inr s else fat_read_sector fs st (of_nat r'))"
    if r': "r' < unat (total_sectors fs)" for r'
  proof (cases "r' = r")
    case True
    with ata_contract(1) [OF w [unfolded fat_write_sector_def] refl] len show ?thesis
      by (simp add: fat_read_sector_def ATA_SECTOR_SIZE_def)
  next
    case False
    then have "?l r \<noteq> ?l r'" using sector_lba_inj [OF total_lt [OF r] total_lt [OF r']] by simp
    with ata_contract(2) [OF w [unfolded fat_write_sector_def], of "?l r'" 1] False show ?thesis
      by (simp add: fat_read_sector_def)
  qed
  have "fat_disk fs st'"
    using d rd len by (simp add: fat_disk_def ATA_SECTOR_SIZE_def)
  with w rd show ?thesis by (auto simp: vsec_def)
qed

section \<open>Entries over bytes\<close>

text \<open>The place of an entry, its value, and the bytes after an update.\<close>

definition fat_off :: "fat_type \<Rightarrow> nat \<Rightarrow> nat" where
  "fat_off ty c = (case ty of FAT_TYPE_12 \<Rightarrow> c + c div 2 | FAT_TYPE_16 \<Rightarrow> 2 * c | FAT_TYPE_32 \<Rightarrow> 4 * c)"

definition ent :: "fat_type \<Rightarrow> (nat \<Rightarrow> u8) \<Rightarrow> nat \<Rightarrow> u32" where
  "ent ty B c = (let k = fat_off ty c in case ty of
     FAT_TYPE_12 \<Rightarrow> ucast (get12 (odd c) (join16 (B k) (B (k + 1))))
   | FAT_TYPE_16 \<Rightarrow> ucast (join16 (B k) (B (k + 1)))
   | FAT_TYPE_32 \<Rightarrow> join32 (B k) (B (k + 1)) (B (k + 2)) (B (k + 3)) AND 0x0FFFFFFF)"

definition upd :: "fat_type \<Rightarrow> (nat \<Rightarrow> u8) \<Rightarrow> nat \<Rightarrow> u32 \<Rightarrow> nat \<Rightarrow> u8" where
  "upd ty B c v = (let k = fat_off ty c in case ty of
     FAT_TYPE_12 \<Rightarrow>
       (let nv = set12 (odd c) (join16 (B k) (B (k + 1))) (ucast (v AND 0x0FFF))
        in B(k := lo8 nv, k + 1 := hi8 nv))
   | FAT_TYPE_16 \<Rightarrow> B(k := lo8 (ucast (v AND 0xFFFF)), k + 1 := hi8 (ucast (v AND 0xFFFF)))
   | FAT_TYPE_32 \<Rightarrow>
       (let nv = (join32 (B k) (B (k + 1)) (B (k + 2)) (B (k + 3)) AND 0xF0000000) OR (v AND 0x0FFFFFFF)
        in B(k := byte32 0 nv, k + 1 := byte32 1 nv, k + 2 := byte32 2 nv, k + 3 := byte32 3 nv)))"

definition trunc :: "fat_type \<Rightarrow> u32 \<Rightarrow> u32" where
  "trunc ty v = v AND (case ty of FAT_TYPE_12 \<Rightarrow> 0x0FFF | FAT_TYPE_16 \<Rightarrow> 0xFFFF | FAT_TYPE_32 \<Rightarrow> 0x0FFFFFFF)"

lemma ucast_low:
  "ucast (ucast (v AND 0x0FFF :: u32) AND 0x0FFF :: u16) = v AND (0x0FFF :: u32)"
  "ucast (ucast (v AND 0xFFFF :: u32) :: u16) = v AND (0xFFFF :: u32)"
  unfolding masks by (rule bit_word_eqI, auto simp: bit_simps)+

lemma ent_upd_same: "ent ty (upd ty B c v) c = trunc ty v"
  by (cases ty) (simp_all add: ent_def upd_def trunc_def Let_def join_split join_split32
      join_split32 [unfolded One_nat_def] get12_set12 ucast_low low28)

lemma off12_pairs:
  fixes c c' :: nat
  assumes "c div 2 \<noteq> c' div 2"
  shows "c' + c' div 2 + 1 < c + c div 2 \<or> c + c div 2 + 1 < c' + c' div 2"
proof -
  have "c \<le> 2 * (c div 2) + 1" "2 * (c div 2) \<le> c" "c' \<le> 2 * (c' div 2) + 1" "2 * (c' div 2) \<le> c'"
    by linarith+
  with assms show ?thesis by linarith
qed

lemma ent_upd_other:
  assumes ne: "c' \<noteq> c"
  shows "ent ty (upd ty B c v) c' = ent ty B c'"
proof (cases ty)
  case FAT_TYPE_12
  show ?thesis
  proof (cases "c div 2 = c' div 2")
    case False
    from off12_pairs [OF this] show ?thesis
      by (auto simp: FAT_TYPE_12 ent_def upd_def fat_off_def Let_def)
  next
    case True
    show ?thesis
    proof (cases "odd c")
      case False
      with True ne have "c' = c + 1" "odd c'" by presburger+
      with False show ?thesis
        by (auto simp: FAT_TYPE_12 ent_def upd_def fat_off_def Let_def get12_def set12_other)
    next
      case odd: True
      then obtain m where m: "c = 2 * m + 1" by (auto elim: oddE)
      moreover from m True ne have "c' = 2 * m" by presburger
      ultimately show ?thesis
        by (auto simp: FAT_TYPE_12 ent_def upd_def fat_off_def Let_def get12_def set12_other)
    qed
  qed
next
  case FAT_TYPE_16
  with ne show ?thesis
    by (simp add: ent_def upd_def fat_off_def Let_def)
next
  case FAT_TYPE_32
  with ne have "4 * c' + i \<noteq> 4 * c + j" if "i < 4" "j < 4" for i j :: nat using that by presburger
  from this [of 0 1] this [of 0 2] this [of 0 3] this [of 1 0] this [of 1 1] this [of 1 2] this [of 1 3]
    this [of 2 0] this [of 2 1] this [of 2 2] this [of 2 3] this [of 3 0] this [of 3 1] this [of 3 2] this [of 3 3]
    FAT_TYPE_32 ne
  show ?thesis by (simp add: ent_def upd_def fat_off_def Let_def)
qed

section \<open>Copies of the table\<close>

definition copy_base :: "fat_fs \<Rightarrow> nat \<Rightarrow> nat" where
  "copy_base fs k = unat (first_fat_sector fs) + k * unat (sectors_per_fat fs)"

definition tb :: "fat_fs \<Rightarrow> storage \<Rightarrow> nat \<Rightarrow> nat \<Rightarrow> u8" where
  "tb fs st k x = vsec fs st (copy_base fs k + x div 512) ! (x mod 512)"

definition in_fat :: "fat_fs \<Rightarrow> nat \<Rightarrow> bool" where
  "in_fat fs c \<longleftrightarrow> fat_off (ftype fs) c + (if ftype fs = FAT_TYPE_32 then 4 else 2) \<le> 512 * unat (sectors_per_fat fs)"

lemma copy_sector:
  assumes g: "fat_geom fs" and k: "k < unat (fat_count fs)" and q: "q < unat (sectors_per_fat fs)"
  shows "copy_base fs k + q < unat (total_sectors fs)"
    and "first_fat_sector fs + of_nat k * sectors_per_fat fs + of_nat q = of_nat (copy_base fs k + q)"
proof -
  have "k * unat (sectors_per_fat fs) + unat (sectors_per_fat fs) \<le> unat (fat_count fs) * unat (sectors_per_fat fs)"
    using k by (metis Suc_leI add.commute mult_Suc mult_le_mono1)
  with g q show "copy_base fs k + q < unat (total_sectors fs)" by (simp add: fat_geom_def copy_base_def)
  show "first_fat_sector fs + of_nat k * sectors_per_fat fs + of_nat q = of_nat (copy_base fs k + q)"
    by (simp add: copy_base_def)
qed

lemma word_place:
  assumes "x < 2 ^ 32"
  shows "(of_nat x :: u32) div 512 = of_nat (x div 512)" "unat ((of_nat x :: u32) mod 512) = x mod 512"
proof -
  have x: "unat (of_nat x :: u32) = x" using assms by (simp add: unsigned_of_nat take_bit_nat_eq_self)
  have "unat ((of_nat x :: u32) div 512) = x div 512" by (simp add: unat_div x)
  moreover have "of_nat (unat ((of_nat x :: u32) div 512)) = (of_nat x :: u32) div 512" by simp
  ultimately show "(of_nat x :: u32) div 512 = of_nat (x div 512)" by simp
  show "unat ((of_nat x :: u32) mod 512) = x mod 512" by (simp add: unat_mod x)
qed

lemma place_iff: "i < 512 \<Longrightarrow> x div 512 = q \<and> x mod 512 = i \<longleftrightarrow> x = 512 * q + i" for x q i :: nat
  by auto

lemma last_place:
  fixes x :: nat
  assumes "x mod 512 = 511"
  shows "x + 1 = 512 * (x div 512 + 1)"
proof -
  have "x = 512 * (x div 512) + x mod 512" by (simp only: mult_div_mod_eq)
  also have "\<dots> = 512 * (x div 512) + 511" by (simp only: assms)
  finally have "x + 1 = (512 * (x div 512) + 511) + 1" by (rule arg_cong [of _ _ "\<lambda>y. y + 1"])
  also have "\<dots> = 512 * (x div 512 + 1)" by (simp only: distrib_left)
  finally show ?thesis .
qed

text \<open>A sector of copy \<open>k\<close> is rewritten.\<close>

lemma copy_write:
  assumes g: "fat_geom fs" and d: "fat_disk fs st" and k: "k < unat (fat_count fs)"
    and q: "q < unat (sectors_per_fat fs)" and len: "length s = 512"
  shows "\<exists>st'. fat_write_sector fs st (of_nat (copy_base fs k + q)) s = (0, st') \<and> fat_disk fs st'
     \<and> (\<forall>x < 512 * unat (sectors_per_fat fs). tb fs st' k x = (if x div 512 = q then s ! (x mod 512) else tb fs st k x))
     \<and> (\<forall>r < unat (total_sectors fs). r \<noteq> copy_base fs k + q \<longrightarrow> vsec fs st' r = vsec fs st r)"
proof -
  from write_sector_view [OF d copy_sector(1) [OF g k q] len] obtain st'
    where w: "fat_write_sector fs st (of_nat (copy_base fs k + q)) s = (0, st')" "fat_disk fs st'"
      and v: "\<And>r'. r' < unat (total_sectors fs) \<Longrightarrow> vsec fs st' r' = (if r' = copy_base fs k + q then s else vsec fs st r')"
    by blast
  have "tb fs st' k x = (if x div 512 = q then s ! (x mod 512) else tb fs st k x)"
    if "x < 512 * unat (sectors_per_fat fs)" for x
  proof -
    have "x div 512 < unat (sectors_per_fat fs)" using that by (simp add: less_mult_imp_div_less mult.commute)
    from v [OF copy_sector(1) [OF g k this]] show ?thesis by (simp add: tb_def)
  qed
  with w v show ?thesis by auto
qed

lemma copy_read:
  assumes "fat_geom fs" "fat_disk fs st" "k < unat (fat_count fs)" "q < unat (sectors_per_fat fs)"
  shows "\<exists>s. fat_read_sector fs st (of_nat (copy_base fs k + q)) = Inr s \<and> length s = 512
     \<and> (\<forall>i < 512. s ! i = tb fs st k (512 * q + i))"
  using vsec_read [OF assms(2) copy_sector(1) [OF assms(1,3,4)]] by (auto simp: tb_def)

lemma odd_and_1: "(of_nat c :: u32) AND 1 \<noteq> 0 \<longleftrightarrow> odd c"
  by (simp add: and_one_eq even_iff_mod_2_eq_zero [symmetric])

lemma half_word: "c < 2 ^ 32 \<Longrightarrow> (of_nat c :: u32) div 2 = of_nat (c div 2)"
proof -
  assume "c < 2 ^ 32"
  then have "unat ((of_nat c :: u32) div 2) = c div 2"
    by (simp add: unat_div unsigned_of_nat take_bit_nat_eq_self)
  moreover have "of_nat (unat ((of_nat c :: u32) div 2)) = (of_nat c :: u32) div 2" by simp
  ultimately show ?thesis by simp
qed

text \<open>The offset of an entry that lies in the table, in words: sector and place in it.\<close>

lemma entry_place:
  assumes g: "fat_geom fs" and c: "in_fat fs c"
  shows "c < 2 ^ 31" "fat_off (ftype fs) c < 2 ^ 31"
    "fat_off (ftype fs) c div 512 < unat (sectors_per_fat fs)"
    "bytes_per_sector fs = 512"
    "ftype fs = FAT_TYPE_12 \<Longrightarrow> (of_nat c :: u32) + of_nat c div 2 = of_nat (fat_off (ftype fs) c)"
    "ftype fs = FAT_TYPE_16 \<Longrightarrow> (of_nat c :: u32) * 2 = of_nat (fat_off (ftype fs) c)"
    "ftype fs = FAT_TYPE_32 \<Longrightarrow> (of_nat c :: u32) * 4 = of_nat (fat_off (ftype fs) c)"
proof -
  have spf: "512 * unat (sectors_per_fat fs) < 2 ^ 31" using g by (simp add: fat_geom_def)
  have lt: "fat_off (ftype fs) c < 512 * unat (sectors_per_fat fs)"
    using c by (simp add: in_fat_def split: if_splits)
  with spf show o: "fat_off (ftype fs) c < 2 ^ 31" by linarith
  have "c \<le> fat_off (ftype fs) c" by (simp add: fat_off_def split: fat_type.split)
  with o show c31: "c < 2 ^ 31" by linarith
  show "fat_off (ftype fs) c div 512 < unat (sectors_per_fat fs)"
    using lt by (simp add: less_mult_imp_div_less mult.commute)
  show "bytes_per_sector fs = 512" using g by (simp add: fat_geom_def)
  show "(of_nat c :: u32) + of_nat c div 2 = of_nat (fat_off (ftype fs) c)" if "ftype fs = FAT_TYPE_12"
    using that c31 by (simp add: fat_off_def half_word)
  show "(of_nat c :: u32) * 2 = of_nat (fat_off (ftype fs) c)" if "ftype fs = FAT_TYPE_16"
    using that by (simp add: fat_off_def mult.commute)
  show "(of_nat c :: u32) * 4 = of_nat (fat_off (ftype fs) c)" if "ftype fs = FAT_TYPE_32"
    using that by (simp add: fat_off_def mult.commute)
qed

lemma rd16_join: "rd16 s i = join16 (s ! i) (s ! (i + 1))"
  by (simp add: rd16_def join16_def)

lemma rd32_join: "rd32 s i = join32 (s ! i) (s ! (i + 1)) (s ! (i + 2)) (s ! (i + 3))"
  by (simp add: rd32_def join32_def)

lemma wr16_bytes: "wr16 s i v = s[i := lo8 v, i + 1 := hi8 v]"
  by (simp add: wr16_def lo8_def hi8_def)

lemma wr32_bytes: "wr32 s i v = s[i := byte32 0 v, i + 1 := byte32 1 v, i + 2 := byte32 2 v, i + 3 := byte32 3 v]"
  by (simp add: wr32_def byte32_def)

text \<open>An entry of 16 or 32 bits does not straddle a sector.\<close>

lemma aligned_in_sector:
  fixes c :: nat
  shows "2 * c mod 512 + 1 < 512" "4 * c mod 512 + 3 < 512"
proof -
  have "2 * c mod (2 * 256) = 2 * (c mod 256)" "4 * c mod (4 * 128) = 4 * (c mod 128)"
    by (rule mod_mult_mult1)+
  moreover have "c mod 256 < 256" "c mod 128 < 128" by simp_all
  ultimately show "2 * c mod 512 + 1 < 512" "4 * c mod 512 + 3 < 512" by simp_all
qed

lemma read_entry:
  assumes g: "fat_geom fs" and d: "fat_disk fs st" and c: "in_fat fs c"
  shows "fat_read_fat_entry fs st (of_nat c) = Some (ent (ftype fs) (tb fs st 0) c)"
proof -
  note p = entry_place [OF g c]
  let ?o = "fat_off (ftype fs) c" let ?q = "?o div 512" and ?i = "?o mod 512"
  have k0: "0 < unat (fat_count fs)" using g by (simp add: fat_geom_def unat_gt_0)
  have sec: "first_fat_sector fs + of_nat q = of_nat (copy_base fs 0 + q)" for q
    by (simp add: copy_base_def)
  have w: "(of_nat ?o :: u32) div 512 = of_nat ?q" "unat ((of_nat ?o :: u32) mod 512) = ?i"
    using word_place [of ?o] p(2) by simp_all
  obtain s where s: "fat_read_sector fs st (of_nat (copy_base fs 0 + ?q)) = Inr s"
    and b: "\<And>i. i < 512 \<Longrightarrow> s ! i = tb fs st 0 (512 * ?q + i)"
    using copy_read [OF g d k0 p(3)] by blast
  have b0: "s ! ?i = tb fs st 0 ?o" using b [of ?i] by simp
  show ?thesis
  proof (cases "ftype fs")
    case FAT_TYPE_12
    show ?thesis
    proof (cases "?i = 511")
      case False
      have "?i < 512" by simp
      with False have "?i + 1 < 512" by linarith
      from b [OF this] have b1: "s ! (?i + 1) = tb fs st 0 (?o + 1)" by simp
      show ?thesis
        using FAT_TYPE_12 False p(4,5) s b0 b1 w sec odd_and_1 [of c]
        by (simp add: fat_read_fat_entry_def ent_def Let_def join16_def [symmetric] get12_def)
    next
      case True
      have o1: "?o + 1 = 512 * (?q + 1)" by (rule last_place [OF True])
      moreover have "?o + 2 \<le> 512 * unat (sectors_per_fat fs)" using c FAT_TYPE_12 by (simp add: in_fat_def)
      ultimately have "512 * (?q + 1) < 512 * unat (sectors_per_fat fs)" by linarith
      then have q1: "?q + 1 < unat (sectors_per_fat fs)" "?o + 1 = 512 * (?q + 1)" using o1 by simp_all
      obtain s2 where s2: "fat_read_sector fs st (of_nat (copy_base fs 0 + (?q + 1))) = Inr s2"
        and h: "\<And>i. i < 512 \<Longrightarrow> s2 ! i = tb fs st 0 (512 * (?q + 1) + i)"
        using copy_read [OF g d k0 q1(1)] by blast
      have "tb fs st 0 (?o + 1) = tb fs st 0 (512 * (?q + 1))" by (rule arg_cong [OF o1])
      with h [of 0] have b2: "s2 ! 0 = tb fs st 0 (?o + 1)" by simp
      have s2': "fat_read_sector fs st (of_nat (copy_base fs 0) + of_nat ?q + 1) = Inr s2"
        using s2 by (simp only: of_nat_add of_nat_1 add.assoc)
      with FAT_TYPE_12 True p(4,5) s s2' b0 b2 w sec odd_and_1 [of c] show ?thesis
        by (simp add: fat_read_fat_entry_def ent_def Let_def join16_def [symmetric] get12_def)
    qed
  next
    case FAT_TYPE_16
    then have "?i + 1 < 512" using aligned_in_sector(1) [of c] by (simp add: fat_off_def)
    from b [OF this] have b1: "s ! (?i + 1) = tb fs st 0 (?o + 1)" by simp
    show ?thesis
      using FAT_TYPE_16 p(4,6) s b0 b1 w sec
      by (simp add: fat_read_fat_entry_def ent_def Let_def rd16_join)
  next
    case FAT_TYPE_32
    then have i3: "?i + 3 < 512" using aligned_in_sector(2) [of c] by (simp add: fat_off_def)
    then have "s ! (?i + 1) = tb fs st 0 (?o + 1)" "s ! (?i + 2) = tb fs st 0 (?o + 2)" "s ! (?i + 3) = tb fs st 0 (?o + 3)"
      using b [of "?i + 1"] b [of "?i + 2"] b [of "?i + 3"] by simp_all
    with FAT_TYPE_32 p(4,7) s b0 w sec show ?thesis
      by (simp add: fat_read_fat_entry_def ent_def Let_def rd32_join)
  qed
qed

text \<open>Rewriting a sector turns the bytes of the copy into \<open>N\<close> if \<open>N\<close> differs only there.\<close>

lemma copy_patch:
  assumes g: "fat_geom fs" and d: "fat_disk fs st" and k: "k < unat (fat_count fs)"
    and q: "q < unat (sectors_per_fat fs)" and len: "length s = 512"
    and s: "\<And>i. i < 512 \<Longrightarrow> s ! i = N (512 * q + i)"
    and N: "\<And>x. x div 512 \<noteq> q \<Longrightarrow> x < 512 * unat (sectors_per_fat fs) \<Longrightarrow> N x = tb fs st k x"
  shows "\<exists>st'. fat_write_sector fs st (of_nat (copy_base fs k + q)) s = (0, st') \<and> fat_disk fs st'
     \<and> (\<forall>x < 512 * unat (sectors_per_fat fs). tb fs st' k x = N x)
     \<and> (\<forall>r < unat (total_sectors fs). r \<noteq> copy_base fs k + q \<longrightarrow> vsec fs st' r = vsec fs st r)"
proof -
  have "(if x div 512 = q then s ! (x mod 512) else tb fs st k x) = N x"
    if "x < 512 * unat (sectors_per_fat fs)" for x
    using s [of "x mod 512"] N [of x] that by auto
  with copy_write [OF g d k q len] show ?thesis by (metis (no_types, lifting))
qed

lemma off_iff: "512 * (x div 512) + i = x + j \<longleftrightarrow> i = x mod 512 + j" for x i j :: nat
  using mult_div_mod_eq [of 512 x] by linarith

lemma off_iff0: "512 * (x div 512) + i = x \<longleftrightarrow> i = x mod 512" for x i :: nat
  using off_iff [of x i 0] by simp

lemma div_off:
  fixes x j :: nat
  assumes "x mod 512 + j < 512"
  shows "(x + j) div 512 = x div 512"
proof -
  have "x + j = (x mod 512 + j) + 512 * (x div 512)" by (simp add: mod_div_mult_eq [symmetric])
  then have "(x + j) div 512 = x div 512 + (x mod 512 + j) div 512" by (metis div_mult_self2 zero_neq_numeral)
  with assms show ?thesis by simp
qed

lemma write_copy_view:
  assumes g: "fat_geom fs" and d: "fat_disk fs st" and c: "in_fat fs c" and k: "k < unat (fat_count fs)"
  shows "\<exists>st'. fat_write_copy fs st (first_fat_sector fs + of_nat k * sectors_per_fat fs) (of_nat c) v = (0, st')
     \<and> fat_disk fs st'
     \<and> (\<forall>x < 512 * unat (sectors_per_fat fs). tb fs st' k x = upd (ftype fs) (tb fs st k) c v x)
     \<and> (\<forall>r < unat (total_sectors fs). (r < copy_base fs k \<or> copy_base fs (k + 1) \<le> r) \<longrightarrow> vsec fs st' r = vsec fs st r)"
proof -
  note p = entry_place [OF g c]
  let ?o = "fat_off (ftype fs) c" let ?q = "?o div 512" and ?i = "?o mod 512"
  let ?spf = "unat (sectors_per_fat fs)"
  have outside: "r \<noteq> copy_base fs k + q" if "r < copy_base fs k \<or> copy_base fs (k + 1) \<le> r" "q < ?spf" for r q
    using that by (auto simp: copy_base_def)
  have w: "(of_nat ?o :: u32) div 512 = of_nat ?q" "unat ((of_nat ?o :: u32) mod 512) = ?i"
    using word_place [of ?o] p(2) by simp_all
  have sec: "first_fat_sector fs + of_nat k * sectors_per_fat fs + of_nat ?q = of_nat (copy_base fs k + ?q)"
    by (rule copy_sector(2) [OF g k p(3)])
  obtain s where s: "fat_read_sector fs st (of_nat (copy_base fs k + ?q)) = Inr s" and len: "length s = 512"
    and b: "\<And>i. i < 512 \<Longrightarrow> s ! i = tb fs st k (512 * ?q + i)"
    using copy_read [OF g d k p(3)] by blast
  have b0: "s ! ?i = tb fs st k ?o" using b [of ?i] by simp
  show ?thesis
  proof (cases "ftype fs")
    case FAT_TYPE_16
    then have i1: "?i + 1 < 512" using aligned_in_sector(1) [of c] by (simp add: fat_off_def)
    let ?s = "wr16 s ?i (ucast (v AND 0xFFFF))"
    have lenS: "length ?s = 512" using len by (simp add: wr16_bytes)
    have N: "?s ! i = upd (ftype fs) (tb fs st k) c v (512 * ?q + i)" if "i < 512" for i
      using FAT_TYPE_16 b [OF that] len i1 that
      by (simp add: wr16_bytes upd_def Let_def nth_list_update off_iff [of ?o i 1, unfolded FAT_TYPE_16, simplified]
          off_iff0 [of ?o i, unfolded FAT_TYPE_16])
    have "upd (ftype fs) (tb fs st k) c v x = tb fs st k x" if "x div 512 \<noteq> ?q" for x
      using that div_off [OF i1] FAT_TYPE_16 by (auto simp: upd_def Let_def)
    from copy_patch [OF g d k p(3) lenS N this] obtain st' where st':
      "fat_write_sector fs st (of_nat (copy_base fs k + ?q)) ?s = (0, st')" "fat_disk fs st'"
      "\<forall>x < 512 * ?spf. tb fs st' k x = upd (ftype fs) (tb fs st k) c v x"
      "\<forall>r < unat (total_sectors fs). r \<noteq> copy_base fs k + ?q \<longrightarrow> vsec fs st' r = vsec fs st r"
      by blast
    have "fat_write_copy fs st (first_fat_sector fs + of_nat k * sectors_per_fat fs) (of_nat c) v = (0, st')"
      using FAT_TYPE_16 p(4,6) s w sec st'(1) by (simp add: fat_write_copy_def Let_def)
    with st'(2,3,4) outside [OF _ p(3)] show ?thesis by blast
  next
    case FAT_TYPE_32
    then have i3: "?i + 3 < 512" using aligned_in_sector(2) [of c] by (simp add: fat_off_def)
    have i12: "?i + 1 < 512" "?i + 2 < 512" using i3 by linarith+
    have b123: "s ! (?i + 1) = tb fs st k (?o + 1)" "s ! (?i + 2) = tb fs st k (?o + 2)" "s ! (?i + 3) = tb fs st k (?o + 3)"
      using i3 b [of "?i + 1"] b [of "?i + 2"] b [of "?i + 3"] by simp_all
    let ?s = "wr32 s ?i ((rd32 s ?i AND 0xF0000000) OR (v AND 0x0FFFFFFF))"
    have lenS: "length ?s = 512" using len by (simp add: wr32_bytes)
    have N: "?s ! i = upd (ftype fs) (tb fs st k) c v (512 * ?q + i)" if "i < 512" for i
      using b [OF that] len i3 that b0 b123
      by (simp add: wr32_bytes rd32_join upd_def Let_def nth_list_update off_iff off_iff0 FAT_TYPE_32
          del: One_nat_def add_2_eq_Suc')
    have "upd (ftype fs) (tb fs st k) c v x = tb fs st k x" if "x div 512 \<noteq> ?q" for x
      using that div_off [OF i12(1)] div_off [OF i12(2)] div_off [OF i3] FAT_TYPE_32 by (auto simp: upd_def Let_def)
    from copy_patch [OF g d k p(3) lenS N this] obtain st' where st':
      "fat_write_sector fs st (of_nat (copy_base fs k + ?q)) ?s = (0, st')" "fat_disk fs st'"
      "\<forall>x < 512 * ?spf. tb fs st' k x = upd (ftype fs) (tb fs st k) c v x"
      "\<forall>r < unat (total_sectors fs). r \<noteq> copy_base fs k + ?q \<longrightarrow> vsec fs st' r = vsec fs st r"
      by blast
    have "fat_write_copy fs st (first_fat_sector fs + of_nat k * sectors_per_fat fs) (of_nat c) v = (0, st')"
      using FAT_TYPE_32 p(4,7) s w sec st'(1) by (simp add: fat_write_copy_def Let_def)
    with st'(2,3,4) outside [OF _ p(3)] show ?thesis by blast
  next
    case FAT_TYPE_12
    let ?w = "ucast (v AND 0x0FFF) :: u16"
    define nv where "nv = set12 (odd c) (join16 (tb fs st k ?o) (tb fs st k (?o + 1))) ?w"
    have U: "upd (ftype fs) (tb fs st k) c v = (tb fs st k)(?o := lo8 nv, ?o + 1 := hi8 nv)"
      by (simp add: FAT_TYPE_12 upd_def Let_def nv_def)
    have nv: "set12 (odd c) (join16 (tb fs st k (fat_off FAT_TYPE_12 c)) (tb fs st k (Suc (fat_off FAT_TYPE_12 c)))) ?w = nv"
      by (simp add: nv_def FAT_TYPE_12)
    have hi: "lo8 (drop_bit 8 x) = hi8 x" for x by (simp add: lo8_def hi8_def)
    have odd_c: "(if of_nat c AND (1 :: u32) \<noteq> 0 then (x AND 0xF) OR push_bit 4 (?w AND 0xFFF)
        else (x AND 0xF000) OR (?w AND 0xFFF)) = set12 (odd c) x ?w" for x
      using odd_and_1 [of c] by (simp add: set12_def)
    show ?thesis
    proof (cases "?i = 511")
      case False
      have "?i < 512" by simp
      with False have i1: "?i + 1 < 512" by linarith
      have b1: "s ! (?i + 1) = tb fs st k (?o + 1)" using b [OF i1] by simp
      let ?s = "s[?i := lo8 nv, ?i + 1 := hi8 nv]"
      have N: "?s ! i = upd (ftype fs) (tb fs st k) c v (512 * ?q + i)" if "i < 512" for i
        using b [OF that] len i1 that
        by (simp add: U nth_list_update off_iff off_iff0 del: One_nat_def add_Suc_right)
      have "upd (ftype fs) (tb fs st k) c v x = tb fs st k x" if "x div 512 \<noteq> ?q" for x
        using that div_off [OF i1] by (auto simp: U)
      from copy_patch [OF g d k p(3) _ N this] obtain st' where st':
        "fat_write_sector fs st (of_nat (copy_base fs k + ?q)) ?s = (0, st')" "fat_disk fs st'"
        "\<forall>x < 512 * ?spf. tb fs st' k x = upd (ftype fs) (tb fs st k) c v x"
        "\<forall>r < unat (total_sectors fs). r \<noteq> copy_base fs k + ?q \<longrightarrow> vsec fs st' r = vsec fs st r"
        using len unfolding length_list_update by blast
      have "fat_write_fat12_single fs st (first_fat_sector fs + of_nat k * sectors_per_fat fs) (of_nat c) ?w = (0, st')"
        using FAT_TYPE_12 False p(4,5) s b0 b1 w sec st'(1)
        by (simp add: fat_write_fat12_single_def Let_def join16_def [symmetric] odd_c nv hi lo8_def [symmetric])
      then have "fat_write_copy fs st (first_fat_sector fs + of_nat k * sectors_per_fat fs) (of_nat c) v = (0, st')"
        using FAT_TYPE_12 by (simp add: fat_write_copy_def)
      with st'(2,3,4) outside [OF _ p(3)] show ?thesis by blast
    next
      case True
      have o1: "?o + 1 = 512 * (?q + 1)" by (rule last_place [OF True])
      moreover have "?o + 2 \<le> 512 * ?spf" using c FAT_TYPE_12 by (simp add: in_fat_def)
      ultimately have "512 * (?q + 1) < 512 * ?spf" by linarith
      then have q1: "?q + 1 < ?spf" by simp
      obtain s2 where s2: "fat_read_sector fs st (of_nat (copy_base fs k + (?q + 1))) = Inr s2" and len2: "length s2 = 512"
        and h: "\<And>i. i < 512 \<Longrightarrow> s2 ! i = tb fs st k (512 * (?q + 1) + i)"
        using copy_read [OF g d k q1] by blast
      have "tb fs st k (?o + 1) = tb fs st k (512 * (?q + 1))" by (rule arg_cong [OF o1])
      with h [of 0] have b1: "s2 ! 0 = tb fs st k (?o + 1)" by simp
      let ?N = "(tb fs st k)(?o := lo8 nv)"
      have N: "s[?i := lo8 nv] ! i = ?N (512 * ?q + i)" if "i < 512" for i
        using b [OF that] len that by (simp add: nth_list_update off_iff0)
      have "?N x = tb fs st k x" if "x div 512 \<noteq> ?q" for x using that by auto
      from copy_patch [OF g d k p(3) _ N this] obtain st1 where st1:
        "fat_write_sector fs st (of_nat (copy_base fs k + ?q)) (s[?i := lo8 nv]) = (0, st1)" "fat_disk fs st1"
        "\<forall>x < 512 * ?spf. tb fs st1 k x = ?N x"
        "\<forall>r < unat (total_sectors fs). r \<noteq> copy_base fs k + ?q \<longrightarrow> vsec fs st1 r = vsec fs st r"
        using len unfolding length_list_update by blast
      have U': "upd (ftype fs) (tb fs st k) c v x = (if x = 512 * (?q + 1) then hi8 nv else ?N x)" for x
        by (simp only: U fun_upd_apply o1)
      have ne: "512 * (?q + 1) + i \<noteq> ?o" for i using o1 by linarith
      have N2: "s2[0 := hi8 nv] ! i = upd (ftype fs) (tb fs st k) c v (512 * (?q + 1) + i)" if "i < 512" for i
        unfolding U' using h [OF that] ne [of i] len2 that by (cases i) (simp_all del: mult_Suc_right)
      have "upd (ftype fs) (tb fs st k) c v x = tb fs st1 k x" if "x div 512 \<noteq> ?q + 1" "x < 512 * ?spf" for x
        using that st1(3) by (auto simp: U')
      from copy_patch [OF g st1(2) k q1 _ N2 this] obtain st2 where st2:
        "fat_write_sector fs st1 (of_nat (copy_base fs k + (?q + 1))) (s2[0 := hi8 nv]) = (0, st2)" "fat_disk fs st2"
        "\<forall>x < 512 * ?spf. tb fs st2 k x = upd (ftype fs) (tb fs st k) c v x"
        "\<forall>r < unat (total_sectors fs). r \<noteq> copy_base fs k + (?q + 1) \<longrightarrow> vsec fs st2 r = vsec fs st1 r"
        using len2 unfolding length_list_update by blast
      have next_sec: "of_nat (copy_base fs k + (?q + 1)) = (of_nat (copy_base fs k + ?q) + 1 :: u32)"
        by (simp only: of_nat_add of_nat_1 add.assoc)
      have "fat_write_fat12_single fs st (first_fat_sector fs + of_nat k * sectors_per_fat fs) (of_nat c) ?w = (0, st2)"
        using FAT_TYPE_12 True p(4,5) s s2 [unfolded next_sec] b0 b1 w st1(1) st2(1) [unfolded next_sec]
        by (simp add: fat_write_fat12_single_def Let_def join16_def [symmetric] odd_c nv hi lo8_def [symmetric]
            sec [unfolded FAT_TYPE_12] del: of_nat_add)
      then have "fat_write_copy fs st (first_fat_sector fs + of_nat k * sectors_per_fat fs) (of_nat c) v = (0, st2)"
        using FAT_TYPE_12 by (simp add: fat_write_copy_def)
      with st2(2,3,4) st1(4) outside [OF _ p(3)] outside [OF _ q1] show ?thesis by metis
    qed
  qed
qed

section \<open>All copies\<close>

lemma ent_cong:
  assumes "\<And>x. x < 512 * unat (sectors_per_fat fs) \<Longrightarrow> B x = B' x" "in_fat fs c"
  shows "ent (ftype fs) B c = ent (ftype fs) B' c"
  using assms by (cases "ftype fs") (simp_all add: ent_def in_fat_def Let_def)

lemma tb_cong:
  assumes g: "fat_geom fs" and k: "k < unat (fat_count fs)" and x: "x < 512 * unat (sectors_per_fat fs)"
    and v: "\<And>r. r < unat (total_sectors fs) \<Longrightarrow> copy_base fs k \<le> r \<Longrightarrow> r < copy_base fs (k + 1) \<Longrightarrow> vsec fs st' r = vsec fs st r"
  shows "tb fs st' k x = tb fs st k x"
proof -
  have q: "x div 512 < unat (sectors_per_fat fs)" using x by (simp add: less_mult_imp_div_less mult.commute)
  then show ?thesis using v [OF copy_sector(1) [OF g k q]] by (simp add: tb_def copy_base_def)
qed

lemma copy_base_mono: "k \<le> k' \<Longrightarrow> copy_base fs k \<le> copy_base fs k'"
  by (simp add: copy_base_def)

lemma write_copies_view:
  assumes g: "fat_geom fs" and c: "in_fat fs c"
  shows "fat_disk fs st \<Longrightarrow> fi + n \<le> unat (fat_count fs) \<Longrightarrow>
     \<exists>st'. fat_write_copies fs st fi n (of_nat c) v = (0, st') \<and> fat_disk fs st'
     \<and> (\<forall>k x. fi \<le> k \<longrightarrow> k < fi + n \<longrightarrow> x < 512 * unat (sectors_per_fat fs) \<longrightarrow>
          tb fs st' k x = upd (ftype fs) (tb fs st k) c v x)
     \<and> (\<forall>r < unat (total_sectors fs). (r < copy_base fs fi \<or> copy_base fs (fi + n) \<le> r) \<longrightarrow> vsec fs st' r = vsec fs st r)"
proof (induction n arbitrary: st fi)
  case (Suc n)
  then have k: "fi < unat (fat_count fs)" by simp
  from write_copy_view [OF g Suc.prems(1) c k] obtain st1 where w:
    "fat_write_copy fs st (first_fat_sector fs + of_nat fi * sectors_per_fat fs) (of_nat c) v = (0, st1)" "fat_disk fs st1"
    and t: "\<And>x. x < 512 * unat (sectors_per_fat fs) \<Longrightarrow> tb fs st1 fi x = upd (ftype fs) (tb fs st fi) c v x"
    and f: "\<And>r. r < unat (total_sectors fs) \<Longrightarrow> r < copy_base fs fi \<or> copy_base fs (fi + 1) \<le> r \<Longrightarrow> vsec fs st1 r = vsec fs st r"
    by blast
  have "(fi + 1) + n \<le> unat (fat_count fs)" using Suc.prems(2) by simp
  from Suc.IH [OF w(2) this] obtain st2 where w2:
    "fat_write_copies fs st1 (fi + 1) n (of_nat c) v = (0, st2)" "fat_disk fs st2"
    and t2: "\<And>k x. fi + 1 \<le> k \<Longrightarrow> k < (fi + 1) + n \<Longrightarrow> x < 512 * unat (sectors_per_fat fs) \<Longrightarrow>
          tb fs st2 k x = upd (ftype fs) (tb fs st1 k) c v x"
    and f2: "\<And>r. r < unat (total_sectors fs) \<Longrightarrow> r < copy_base fs (fi + 1) \<or> copy_base fs (fi + 1 + n) \<le> r \<Longrightarrow> vsec fs st2 r = vsec fs st1 r"
    by blast
  have new: "tb fs st2 k x = upd (ftype fs) (tb fs st k) c v x"
    if k: "fi \<le> k" "k < fi + Suc n" and x: "x < 512 * unat (sectors_per_fat fs)" for k x
  proof (cases "k = fi")
    case True
    have "tb fs st2 fi x = tb fs st1 fi x"
      by (rule tb_cong [OF g \<open>fi < unat (fat_count fs)\<close> x]) (use f2 in blast)
    with t [OF x] True show ?thesis by simp
  next
    case False
    then have k': "fi + 1 \<le> k" "k < unat (fat_count fs)" using k Suc.prems(2) by simp_all
    have old: "tb fs st1 k y = tb fs st k y" if "y < 512 * unat (sectors_per_fat fs)" for y
      by (rule tb_cong [OF g k'(2) that])
        (use f copy_base_mono [OF k'(1), of fs] in \<open>blast intro: order_trans\<close>)
    have "upd (ftype fs) (tb fs st1 k) c v x = upd (ftype fs) (tb fs st k) c v x"
      using old c x by (cases "ftype fs") (simp_all add: upd_def in_fat_def Let_def)
    with t2 [of k x] k k' x show ?thesis by simp
  qed
  have fr: "vsec fs st2 r = vsec fs st r"
    if "r < unat (total_sectors fs)" "r < copy_base fs fi \<or> copy_base fs (fi + Suc n) \<le> r" for r
  proof -
    have "copy_base fs fi \<le> copy_base fs (fi + 1)" "copy_base fs (fi + 1) \<le> copy_base fs (fi + Suc n)"
      by (rule copy_base_mono; simp)+
    with that f [of r] f2 [of r] show ?thesis by auto
  qed
  have "fat_write_copies fs st fi (Suc n) (of_nat c) v = (0, st2)" using w(1) w2(1) by simp
  with w2(2) new fr show ?case by blast
qed simp

text \<open>The value of an entry, and the sectors that hold data rather than table.\<close>

definition fent :: "fat_fs \<Rightarrow> storage \<Rightarrow> nat \<Rightarrow> u32" where
  "fent fs st c = ent (ftype fs) (tb fs st 0) c"

definition in_table :: "fat_fs \<Rightarrow> nat \<Rightarrow> bool" where
  "in_table fs r \<longleftrightarrow> copy_base fs 0 \<le> r \<and> r < copy_base fs (unat (fat_count fs))"

definition mirrored :: "fat_fs \<Rightarrow> storage \<Rightarrow> bool" where
  "mirrored fs st \<longleftrightarrow> (\<forall>k < unat (fat_count fs). \<forall>x < 512 * unat (sectors_per_fat fs). tb fs st k x = tb fs st 0 x)"

lemma write_entry_view:
  assumes g: "fat_geom fs" and d: "fat_disk fs st" and c: "in_fat fs c"
  shows "\<exists>st'. fat_write_fat_entry fs st (of_nat c) v = (0, st') \<and> fat_disk fs st'
     \<and> (\<forall>c'. in_fat fs c' \<longrightarrow> fent fs st' c' = (if c' = c then trunc (ftype fs) v else fent fs st c'))
     \<and> (\<forall>r < unat (total_sectors fs). \<not> in_table fs r \<longrightarrow> vsec fs st' r = vsec fs st r)
     \<and> (mirrored fs st \<longrightarrow> mirrored fs st')"
proof -
  have k0: "0 < unat (fat_count fs)" using g by (simp add: fat_geom_def unat_gt_0)
  obtain st' where w: "fat_write_fat_entry fs st (of_nat c) v = (0, st')" "fat_disk fs st'"
    and t: "\<And>k x. k < unat (fat_count fs) \<Longrightarrow> x < 512 * unat (sectors_per_fat fs) \<Longrightarrow>
          tb fs st' k x = upd (ftype fs) (tb fs st k) c v x"
    and f: "\<And>r. r < unat (total_sectors fs) \<Longrightarrow> \<not> in_table fs r \<Longrightarrow> vsec fs st' r = vsec fs st r"
    using write_copies_view [OF g c d, of 0 "unat (fat_count fs)" v]
    unfolding fat_write_fat_entry_def in_table_def not_le not_less de_Morgan_conj add_0 by blast
  have e: "fent fs st' c' = (if c' = c then trunc (ftype fs) v else fent fs st c')" if c': "in_fat fs c'" for c'
  proof -
    have "fent fs st' c' = ent (ftype fs) (upd (ftype fs) (tb fs st 0) c v) c'"
      unfolding fent_def by (rule ent_cong [OF t [OF k0] c'])
    then show ?thesis by (simp add: fent_def ent_upd_same ent_upd_other)
  qed
  have "mirrored fs st'" if "mirrored fs st"
    unfolding mirrored_def
  proof (intro allI impI)
    fix k x assume k: "k < unat (fat_count fs)" and x: "x < 512 * unat (sectors_per_fat fs)"
    have "\<And>y. y < 512 * unat (sectors_per_fat fs) \<Longrightarrow> tb fs st k y = tb fs st 0 y"
      using that k unfolding mirrored_def by blast
    then have "upd (ftype fs) (tb fs st k) c v x = upd (ftype fs) (tb fs st 0) c v x"
      using c x by (cases "ftype fs") (simp_all add: upd_def in_fat_def Let_def)
    with t [OF k x] t [OF k0 x] show "tb fs st' k x = tb fs st' 0 x" by simp
  qed
  then have m: "mirrored fs st \<longrightarrow> mirrored fs st'" by (rule impI)
  show ?thesis by (rule exI [of _ st']) (intro conjI allI impI w e f, simp_all add: m)
qed

lemma read_entry_fent:
  "fat_geom fs \<Longrightarrow> fat_disk fs st \<Longrightarrow> in_fat fs c \<Longrightarrow> fat_read_fat_entry fs st (of_nat c) = Some (fent fs st c)"
  by (simp add: read_entry fent_def)

end
