(* ===== verification/Fat_Clusters.thy ===== *)
theory Fat_Clusters
  imports Fat_Volume
begin

text \<open>
  Allocation and release of clusters on a sound volume, over the view of the table as an
  array of entries.
\<close>

section \<open>Valid clusters\<close>

lemma entry_count:
  assumes g: "fat_geom fs"
  shows "unat (fat_fat_entry_count fs) =
    (case ftype fs of FAT_TYPE_12 \<Rightarrow> unat (sectors_per_fat fs) * 1024 div 3
     | FAT_TYPE_16 \<Rightarrow> unat (sectors_per_fat fs) * 256 | FAT_TYPE_32 \<Rightarrow> unat (sectors_per_fat fs) * 128)"
proof -
  have spf: "unat (sectors_per_fat fs) < 2 ^ 22" "bytes_per_sector fs = 512" using g by (simp_all add: fat_geom_def)
  then have b: "unat (sectors_per_fat fs * 512) = unat (sectors_per_fat fs) * 512"
    by (simp add: unat_word_ariths(2))
  then have "unat (sectors_per_fat fs * 512 * 2) = unat (sectors_per_fat fs) * 1024"
    using spf by (simp add: unat_word_ariths(2))
  with b spf(2) show ?thesis
    by (cases "ftype fs") (simp_all add: fat_fat_entry_count_def unat_div Let_def)
qed

lemma max_cluster_le:
  assumes "2 \<le> unat (fat_max_valid_cluster fs)"
  shows "unat (fat_max_valid_cluster fs) < unat (fat_fat_entry_count fs)"
    and "unat (fat_max_valid_cluster fs) \<le> unat (cluster_count fs + 1)"
proof -
  let ?e = "fat_fat_entry_count fs" and ?m = "fat_max_valid_cluster fs"
  have e: "\<not> ?e \<le> 2"
  proof
    assume "?e \<le> 2"
    then have "?m = 1" by (simp add: fat_max_valid_cluster_def Let_def)
    with assms show False by simp
  qed
  then have m: "?m = (if cluster_count fs + 1 < ?e - 1 then cluster_count fs + 1 else ?e - 1)"
    by (simp add: fat_max_valid_cluster_def Let_def)
  have "unat (?e - 1) = unat ?e - 1" using e by (subst unat_sub) (auto simp: word_le_nat_alt)
  then have "unat (?e - 1) < unat ?e" using e by (simp add: word_le_nat_alt)
  with m show "unat ?m < unat ?e" by (auto simp: word_less_nat_alt)
  from m show "unat ?m \<le> unat (cluster_count fs + 1)" by (auto simp: word_less_nat_alt not_less)
qed

lemma cluster_in_fat:
  assumes g: "fat_geom fs" and c: "c \<le> unat (fat_max_valid_cluster fs)" and m: "2 \<le> unat (fat_max_valid_cluster fs)"
  shows "in_fat fs c"
proof -
  have "c < unat (fat_fat_entry_count fs)" using max_cluster_le(1) [OF m] c by simp
  with entry_count [OF g] show ?thesis
    by (cases "ftype fs") (auto simp: in_fat_def fat_off_def)
qed

lemma in_fat_lt: "fat_geom fs \<Longrightarrow> in_fat fs c \<Longrightarrow> c < 2 ^ 31"
  by (rule entry_place(1))

lemma in_fat_unat: "fat_geom fs \<Longrightarrow> in_fat fs c \<Longrightarrow> unat (of_nat c :: u32) = c"
  using in_fat_lt [of fs c] by (simp add: unsigned_of_nat take_bit_nat_eq_self)

lemma finite_in_fat: "fat_geom fs \<Longrightarrow> finite {c. in_fat fs c}"
  by (rule finite_subset [of _ "{..<2 ^ 31}"]) (auto dest: in_fat_lt)

section \<open>Freeing a chain\<close>

text \<open>The link that \<open>fat_free_chain\<close> follows.\<close>

definition fat_link :: "fat_fs \<Rightarrow> storage \<Rightarrow> nat \<Rightarrow> nat option" where
  "fat_link fs st c =
     (let nxt = fent fs st c in
      if \<not> in_fat fs c \<or> fat_is_eoc fs nxt \<or> nxt < 2 \<or> nxt > fat_max_valid_cluster fs then None else Some (unat nxt))"

definition chain_of :: "fat_fs \<Rightarrow> storage \<Rightarrow> nat \<Rightarrow> nat set" where
  "chain_of fs st c = {d. (c, d) \<in> {(a, b). fat_link fs st a = Some b}\<^sup>*}"

text \<open>What is reached from \<open>c\<close> is \<open>c\<close> and what is reached after it without its own link.\<close>

lemma reach_cut:
  fixes f g :: "'a \<Rightarrow> 'a option"
  assumes f: "f c = Some n" and g: "g c = None" and fg: "\<And>a. a \<noteq> c \<Longrightarrow> g a = f a"
  shows "{d. (c, d) \<in> {(a, b). f a = Some b}\<^sup>*} = insert c {d. (n, d) \<in> {(a, b). g a = Some b}\<^sup>*}"
proof (intro equalityI subsetI)
  fix d assume "d \<in> {d. (c, d) \<in> {(a, b). f a = Some b}\<^sup>*}"
  then have "(c, d) \<in> {(a, b). f a = Some b}\<^sup>*" by simp
  then show "d \<in> insert c {d. (n, d) \<in> {(a, b). g a = Some b}\<^sup>*}"
  proof (induction rule: rtrancl_induct)
    case (step y z)
    show ?case
    proof (cases "y = c")
      case True
      with step f show ?thesis by simp
    next
      case False
      with step fg have "(n, y) \<in> {(a, b). g a = Some b}\<^sup>*" "(y, z) \<in> {(a, b). g a = Some b}" by auto
      then show ?thesis by (simp add: rtrancl.rtrancl_into_rtrancl)
    qed
  qed simp
next
  fix d assume "d \<in> insert c {d. (n, d) \<in> {(a, b). g a = Some b}\<^sup>*}"
  moreover have "{(a, b). g a = Some b} \<subseteq> {(a, b). f a = Some b}"
    using g fg by clarsimp (metis option.distinct(1))
  then have "(n, d) \<in> {(a, b). f a = Some b}\<^sup>*" if "(n, d) \<in> {(a, b). g a = Some b}\<^sup>*"
    using that rtrancl_mono by blast
  moreover have "(c, n) \<in> {(a, b). f a = Some b}" using f by simp
  ultimately show "d \<in> {d. (c, d) \<in> {(a, b). f a = Some b}\<^sup>*}"
    by (auto intro: converse_rtrancl_into_rtrancl)
qed

lemma chain_end: "fat_link fs st c = None \<Longrightarrow> chain_of fs st c = {c}"
  by (auto simp: chain_of_def elim: converse_rtranclE)

text \<open>Entries that are in use.\<close>

definition used_entries :: "fat_fs \<Rightarrow> storage \<Rightarrow> nat set" where
  "used_entries fs st = {c. in_fat fs c \<and> fent fs st c \<noteq> 0}"

lemma fat_link_in_fat:
  assumes "fat_geom fs" "fat_link fs st c = Some n"
  shows "in_fat fs n" "2 \<le> n" "n = unat (fent fs st c)" "fent fs st c \<noteq> 0"
proof -
  from assms(2) have n: "n = unat (fent fs st c)" "\<not> fent fs st c < 2" "\<not> fent fs st c > fat_max_valid_cluster fs"
    by (auto simp: fat_link_def Let_def split: if_splits)
  then show "2 \<le> n" "n = unat (fent fs st c)" "fent fs st c \<noteq> 0"
    by (auto simp: word_less_nat_alt not_less)
  with n(3) show "in_fat fs n"
    by (intro cluster_in_fat [OF assms(1)]) (auto simp: word_less_nat_alt not_less)
qed

lemma trunc_0 [simp]: "trunc ty 0 = 0"
  by (simp add: trunc_def)

lemma free_loop_view:
  assumes g: "fat_geom fs"
  shows "fat_disk fs st \<Longrightarrow> in_fat fs c \<Longrightarrow> 2 \<le> c \<Longrightarrow>
     \<exists>st'. fat_free_loop fs st (of_nat c) = Some (0, st') \<and> fat_disk fs st'
     \<and> (\<forall>d. in_fat fs d \<longrightarrow> fent fs st' d = (if d \<in> chain_of fs st c then 0 else fent fs st d))
     \<and> (\<forall>r < unat (total_sectors fs). \<not> in_table fs r \<longrightarrow> vsec fs st' r = vsec fs st r)
     \<and> (mirrored fs st \<longrightarrow> mirrored fs st')"
proof (induction "card (used_entries fs st)" arbitrary: st c rule: less_induct)
  case less
  note d = less.prems(1) and c = less.prems(2,3)
  have "\<not> (of_nat c :: u32) < 2" using c in_fat_unat [OF g c(1)] by (simp add: word_less_nat_alt)
  moreover obtain st1 where w: "fat_write_fat_entry fs st (of_nat c) 0 = (0, st1)" "fat_disk fs st1"
    and e: "\<And>c'. in_fat fs c' \<Longrightarrow> fent fs st1 c' = (if c' = c then 0 else fent fs st c')"
    and f: "\<And>r. r < unat (total_sectors fs) \<Longrightarrow> \<not> in_table fs r \<Longrightarrow> vsec fs st1 r = vsec fs st r"
    and m: "mirrored fs st \<longrightarrow> mirrored fs st1"
    using write_entry_view [OF g d c(1), of 0] unfolding trunc_0 by blast
  ultimately have loop: "fat_free_loop fs st (of_nat c) =
     (case fat_link fs st c of None \<Rightarrow> Some (0, st1) | Some n \<Rightarrow> fat_free_loop fs st1 (of_nat n))"
    by (subst fat_free_loop.simps) (simp add: read_entry_fent [OF g d c(1)] c(1) fat_link_def Let_def)
  show ?case
  proof (cases "fat_link fs st c")
    case None
    show ?thesis
      by (rule exI [of _ st1]) (use loop None w(2) e f m in \<open>auto simp: chain_end [OF None]\<close>)
  next
    case (Some n)
    note n = fat_link_in_fat [OF g Some]
    have "used_entries fs st1 \<subseteq> used_entries fs st" "c \<notin> used_entries fs st1" "c \<in> used_entries fs st"
      using e c(1) n(4) by (auto simp: used_entries_def split: if_splits)
    then have "used_entries fs st1 \<subset> used_entries fs st" by blast
    moreover have "finite (used_entries fs st)"
      by (rule finite_subset [OF _ finite_in_fat [OF g]]) (auto simp: used_entries_def)
    ultimately have "card (used_entries fs st1) < card (used_entries fs st)" by (simp add: psubset_card_mono)
    from less.hyps [OF this w(2) n(1,2)] obtain st2 where r: "fat_free_loop fs st1 (of_nat n) = Some (0, st2)" "fat_disk fs st2"
      and e2: "\<And>d. in_fat fs d \<Longrightarrow> fent fs st2 d = (if d \<in> chain_of fs st1 n then 0 else fent fs st1 d)"
      and f2: "\<And>r. r < unat (total_sectors fs) \<Longrightarrow> \<not> in_table fs r \<Longrightarrow> vsec fs st2 r = vsec fs st1 r"
      and m2: "mirrored fs st1 \<longrightarrow> mirrored fs st2"
      by blast
    have "fat_link fs st1 a = fat_link fs st a" if "a \<noteq> c" for a
      using e [of a] that by (cases "in_fat fs a") (simp_all add: fat_link_def)
    moreover have "fat_link fs st1 c = None"
      using e [OF c(1)] by (simp add: fat_link_def)
    ultimately have "chain_of fs st c = insert c (chain_of fs st1 n)"
      unfolding chain_of_def by (intro reach_cut Some)
    then have "fent fs st2 d = (if d \<in> chain_of fs st c then 0 else fent fs st d)" if "in_fat fs d" for d
      using e2 [OF that] e [OF that] by auto
    with loop Some r f f2 m m2 show ?thesis by auto
  qed
qed

section \<open>Data clusters\<close>

text \<open>The clusters lie between the table and the end of the volume.\<close>

definition fat_data :: "fat_fs \<Rightarrow> bool" where
  "fat_data fs \<longleftrightarrow> sectors_per_cluster fs \<noteq> 0
     \<and> copy_base fs (unat (fat_count fs)) \<le> unat (first_data_sector fs)
     \<and> unat (first_data_sector fs) + unat (cluster_count fs) * unat (sectors_per_cluster fs) \<le> unat (total_sectors fs)"

definition cluster_start :: "fat_fs \<Rightarrow> nat \<Rightarrow> nat" where
  "cluster_start fs c = unat (first_data_sector fs) + (c - 2) * unat (sectors_per_cluster fs)"

definition in_cluster :: "fat_fs \<Rightarrow> nat \<Rightarrow> nat \<Rightarrow> bool" where
  "in_cluster fs c r \<longleftrightarrow> cluster_start fs c \<le> r \<and> r < cluster_start fs c + unat (sectors_per_cluster fs)"

definition valid_cluster :: "fat_fs \<Rightarrow> nat \<Rightarrow> bool" where
  "valid_cluster fs c \<longleftrightarrow> 2 \<le> c \<and> c \<le> unat (fat_max_valid_cluster fs)"

lemma valid_clusterD:
  assumes g: "fat_geom fs" and v: "valid_cluster fs c"
  shows "in_fat fs c" "2 \<le> c" "c < 2 ^ 31" "unat (of_nat c :: u32) = c" "c < unat (cluster_count fs) + 2"
proof -
  have m: "2 \<le> unat (fat_max_valid_cluster fs)" using v by (simp add: valid_cluster_def)
  show c: "in_fat fs c" using v cluster_in_fat [OF g _ m] by (simp add: valid_cluster_def)
  then show "c < 2 ^ 31" "unat (of_nat c :: u32) = c" using g by (auto simp: in_fat_unat dest: in_fat_lt)
  show "2 \<le> c" using v by (simp add: valid_cluster_def)
  have "unat (cluster_count fs + 1) \<le> unat (cluster_count fs) + 1"
    by (simp add: unat_word_ariths(1) mod_less_eq_dividend)
  with max_cluster_le(2) [OF m] v show "c < unat (cluster_count fs) + 2" by (simp add: valid_cluster_def)
qed

lemma cluster_sector:
  assumes g: "fat_geom fs" and d: "fat_data fs" and v: "valid_cluster fs c"
  shows "fat_cluster_to_sector fs (of_nat c) = of_nat (cluster_start fs c)"
    and "cluster_start fs c + unat (sectors_per_cluster fs) \<le> unat (total_sectors fs)"
    and "in_cluster fs c r \<Longrightarrow> \<not> in_table fs r"
proof -
  note c = valid_clusterD [OF g v]
  have spc: "(ucast (sectors_per_cluster fs) :: u32) = of_nat (unat (sectors_per_cluster fs))" by simp
  have "(of_nat c :: u32) - 2 = of_nat (c - 2)" using c(2) by simp
  then show "fat_cluster_to_sector fs (of_nat c) = of_nat (cluster_start fs c)"
    unfolding fat_cluster_to_sector_def cluster_start_def spc by simp
  have "(c - 2) + 1 \<le> unat (cluster_count fs)" using c(2,5) by linarith
  then have "((c - 2) + 1) * unat (sectors_per_cluster fs) \<le> unat (cluster_count fs) * unat (sectors_per_cluster fs)"
    by (rule mult_le_mono1)
  with d show "cluster_start fs c + unat (sectors_per_cluster fs) \<le> unat (total_sectors fs)"
    by (simp add: fat_data_def cluster_start_def algebra_simps)
  show "\<not> in_table fs r" if "in_cluster fs c r"
    using that d by (simp add: in_cluster_def in_table_def fat_data_def cluster_start_def)
qed

lemma clusters_disjoint:
  assumes "2 \<le> c" "2 \<le> c'" "c \<noteq> c'" "in_cluster fs c r"
  shows "\<not> in_cluster fs c' r"
proof -
  let ?s = "unat (sectors_per_cluster fs)"
  have m: "a * ?s + ?s \<le> b * ?s" if "a < b" for a b
    using mult_le_mono1 [of "a + 1" b ?s] that by simp
  have "c - 2 < c' - 2 \<or> c' - 2 < c - 2" using assms(1-3) by linarith
  then show ?thesis
    using m [of "c - 2" "c' - 2"] m [of "c' - 2" "c - 2"] assms(4)
    unfolding in_cluster_def cluster_start_def by linarith
qed

lemma zero_sectors_view:
  "fat_disk fs st \<Longrightarrow> r + n \<le> unat (total_sectors fs) \<Longrightarrow>
     \<exists>st'. fat_zero_sectors fs st (of_nat r) n = (0, st') \<and> fat_disk fs st'
     \<and> (\<forall>q < unat (total_sectors fs). vsec fs st' q = (if r \<le> q \<and> q < r + n then replicate 512 0 else vsec fs st q))"
proof (induction n arbitrary: st r)
  case (Suc n)
  have "r < unat (total_sectors fs)" using Suc.prems(2) by simp
  from write_sector_view [OF Suc.prems(1) this, of "replicate 512 0"] obtain st1
    where w: "fat_write_sector fs st (of_nat r) (replicate 512 0) = (0, st1)" "fat_disk fs st1"
      and v: "\<And>q. q < unat (total_sectors fs) \<Longrightarrow> vsec fs st1 q = (if q = r then replicate 512 0 else vsec fs st q)"
    by auto
  from Suc.IH [OF w(2), of "r + 1"] Suc.prems(2) obtain st2
    where w2: "fat_zero_sectors fs st1 (of_nat (r + 1)) n = (0, st2)" "fat_disk fs st2"
      and v2: "\<And>q. q < unat (total_sectors fs) \<Longrightarrow>
        vsec fs st2 q = (if r + 1 \<le> q \<and> q < r + 1 + n then replicate 512 0 else vsec fs st1 q)"
    by auto
  have "fat_zero_sectors fs st (of_nat r) (Suc n) = (0, st2)"
    using w(1) w2(1) by (simp add: ATA_SECTOR_SIZE_def add.commute)
  moreover have "vsec fs st2 q = (if r \<le> q \<and> q < r + Suc n then replicate 512 0 else vsec fs st q)"
    if "q < unat (total_sectors fs)" for q
    using v [OF that] v2 [OF that] by auto
  ultimately show ?case using w2(2) by blast
qed auto

lemma zero_cluster_view:
  assumes "fat_geom fs" "fat_data fs" "fat_disk fs st" "valid_cluster fs c"
  shows "\<exists>st'. fat_zero_cluster fs st (of_nat c) = (0, st') \<and> fat_disk fs st'
     \<and> (\<forall>q < unat (total_sectors fs). vsec fs st' q = (if in_cluster fs c q then replicate 512 0 else vsec fs st q))"
  using zero_sectors_view [OF assms(3) cluster_sector(2) [OF assms(1,2,4)]]
  by (simp add: fat_zero_cluster_def cluster_sector(1) [OF assms(1,2,4)] in_cluster_def)

text \<open>Entries depend on the table only.\<close>

lemma fent_cong:
  assumes g: "fat_geom fs" and c: "in_fat fs c"
    and v: "\<And>r. r < unat (total_sectors fs) \<Longrightarrow> in_table fs r \<Longrightarrow> vsec fs st' r = vsec fs st r"
  shows "fent fs st' c = fent fs st c"
proof -
  have k0: "0 < unat (fat_count fs)" using g by (simp add: fat_geom_def unat_gt_0)
  have k1: "copy_base fs (0 + 1) \<le> copy_base fs (unat (fat_count fs))" using k0 by (intro copy_base_mono) simp
  show ?thesis
    unfolding fent_def
    by (rule ent_cong [OF tb_cong [OF g k0] c]) (use v k1 in \<open>auto simp: in_table_def\<close>)
qed

section \<open>Allocation\<close>

text \<open>What a successful allocation of \<open>d\<close> does to the volume.\<close>

definition taken :: "fat_fs \<Rightarrow> storage \<Rightarrow> bool \<Rightarrow> nat \<Rightarrow> storage \<Rightarrow> bool" where
  "taken fs st zero d st' \<longleftrightarrow> fat_disk fs st'
     \<and> (\<forall>c. in_fat fs c \<longrightarrow> fent fs st' c = (if c = d then fat_eoc_value fs else fent fs st c))
     \<and> (\<forall>r < unat (total_sectors fs). \<not> in_table fs r \<longrightarrow>
          vsec fs st' r = (if zero \<and> in_cluster fs d r then replicate 512 0 else vsec fs st r))
     \<and> (mirrored fs st \<longrightarrow> mirrored fs st')"

lemma trunc_eoc: "trunc (ftype fs) (fat_eoc_value fs) = fat_eoc_value fs"
  by (cases "ftype fs") (simp_all add: trunc_def fat_eoc_value_def)

lemma eoc_is_eoc: "fat_is_eoc fs (fat_eoc_value fs)" "fat_eoc_value fs \<noteq> 0"
  by (cases "ftype fs"; simp add: fat_is_eoc_def fat_eoc_value_def)+

lemma mirrored_cong:
  assumes g: "fat_geom fs" and v: "\<And>r. r < unat (total_sectors fs) \<Longrightarrow> in_table fs r \<Longrightarrow> vsec fs st' r = vsec fs st r"
    and m: "mirrored fs st"
  shows "mirrored fs st'"
proof -
  have k0: "0 < unat (fat_count fs)" using g by (simp add: fat_geom_def unat_gt_0)
  have eq: "tb fs st' k x = tb fs st k x" if k: "k < unat (fat_count fs)" and x: "x < 512 * unat (sectors_per_fat fs)" for k x
  proof (rule tb_cong [OF g k x])
    fix r assume r: "r < unat (total_sectors fs)" "copy_base fs k \<le> r" "r < copy_base fs (k + 1)"
    have "copy_base fs 0 \<le> copy_base fs k" "copy_base fs (k + 1) \<le> copy_base fs (unat (fat_count fs))"
      using k by (auto intro!: copy_base_mono)
    with r show "vsec fs st' r = vsec fs st r" by (intro v) (auto simp: in_table_def)
  qed
  show ?thesis
    unfolding mirrored_def
  proof (intro allI impI)
    fix k x assume kx: "k < unat (fat_count fs)" "x < 512 * unat (sectors_per_fat fs)"
    with m have "tb fs st k x = tb fs st 0 x" unfolding mirrored_def by blast
    with eq [OF kx] eq [OF k0 kx(2)] show "tb fs st' k x = tb fs st' 0 x" by simp
  qed
qed

lemma take_cluster_view:
  assumes g: "fat_geom fs" and dt: "fat_data fs" and d: "fat_disk fs st" and v: "valid_cluster fs c"
  shows "\<exists>st1. fat_write_fat_entry fs st (of_nat c) (fat_eoc_value fs) = (0, st1)
     \<and> taken fs st False c st1 \<and> (\<exists>st2. fat_zero_cluster fs st1 (of_nat c) = (0, st2) \<and> taken fs st True c st2)"
proof -
  note c = valid_clusterD(1) [OF g v]
  obtain st1 where w: "fat_write_fat_entry fs st (of_nat c) (fat_eoc_value fs) = (0, st1)" "fat_disk fs st1"
    and e: "\<And>c'. in_fat fs c' \<Longrightarrow> fent fs st1 c' = (if c' = c then fat_eoc_value fs else fent fs st c')"
    and f: "\<And>r. r < unat (total_sectors fs) \<Longrightarrow> \<not> in_table fs r \<Longrightarrow> vsec fs st1 r = vsec fs st r"
    and m: "mirrored fs st \<Longrightarrow> mirrored fs st1"
    using write_entry_view [OF g d c, of "fat_eoc_value fs"] unfolding trunc_eoc by blast
  from zero_cluster_view [OF g dt w(2) v] obtain st2 where z: "fat_zero_cluster fs st1 (of_nat c) = (0, st2)" "fat_disk fs st2"
    and zv: "\<And>q. q < unat (total_sectors fs) \<Longrightarrow> vsec fs st2 q = (if in_cluster fs c q then replicate 512 0 else vsec fs st1 q)"
    by blast
  have same: "vsec fs st2 r = vsec fs st1 r" if "r < unat (total_sectors fs)" "in_table fs r" for r
    using zv [OF that(1)] cluster_sector(3) [OF g dt v, of r] that(2) by auto
  have "taken fs st False c st1" using w(2) e f m by (simp add: taken_def)
  moreover have "taken fs st True c st2"
    unfolding taken_def
  proof (intro conjI allI impI)
    show "fent fs st2 c' = (if c' = c then fat_eoc_value fs else fent fs st c')" if "in_fat fs c'" for c'
      using fent_cong [OF g that same] e [OF that] by simp
    show "vsec fs st2 r = (if True \<and> in_cluster fs c r then replicate 512 0 else vsec fs st r)"
      if "r < unat (total_sectors fs)" "\<not> in_table fs r" for r
      using zv [OF that(1)] f [OF that] by simp
    show "mirrored fs st2" if "mirrored fs st" by (rule mirrored_cong [OF g same m [OF that]])
  qed (rule z(2))
  ultimately show ?thesis using w(1) z(1) by blast
qed

lemma alloc_scan_view:
  assumes g: "fat_geom fs" and dt: "fat_data fs" and d: "fat_disk fs st"
  shows "2 \<le> c \<Longrightarrow> e \<le> unat (fat_max_valid_cluster fs) \<Longrightarrow>
     (if \<exists>b. c \<le> b \<and> b \<le> e \<and> fent fs st b = 0
      then \<exists>b st'. fat_alloc_scan fs st zero c e = (Inr (Some (of_nat b)), st') \<and> c \<le> b \<and> b \<le> e
        \<and> fent fs st b = 0 \<and> taken fs st zero b st'
      else fat_alloc_scan fs st zero c e = (Inr None, st))"
proof (induction "Suc e - c" arbitrary: c)
  case 0
  then show ?case by (subst fat_alloc_scan.simps) auto
next
  case (Suc n)
  then have ce: "c \<le> e" by simp
  then have v: "valid_cluster fs c" using Suc.prems by (simp add: valid_cluster_def)
  note r = read_entry_fent [OF g d valid_clusterD(1) [OF g v]]
  show ?case
  proof (cases "fent fs st c = 0")
    case True
    from take_cluster_view [OF g dt d v] obtain st1 st2 where
      "fat_write_fat_entry fs st (of_nat c) (fat_eoc_value fs) = (0, st1)" "taken fs st False c st1"
      "fat_zero_cluster fs st1 (of_nat c) = (0, st2)" "taken fs st True c st2" by blast
    then have "\<exists>st'. fat_alloc_scan fs st zero c e = (Inr (Some (of_nat c)), st') \<and> taken fs st zero c st'"
      using ce r True by (cases zero) (simp_all add: fat_alloc_scan.simps)
    with True ce show ?thesis by auto
  next
    case False
    then have step: "fat_alloc_scan fs st zero c e = fat_alloc_scan fs st zero (c + 1) e"
      using ce r by (subst fat_alloc_scan.simps) simp
    have same: "(\<exists>b. c \<le> b \<and> b \<le> e \<and> fent fs st b = 0) \<longleftrightarrow> (\<exists>b. c + 1 \<le> b \<and> b \<le> e \<and> fent fs st b = 0)"
      using False by (metis Suc_eq_plus1 Suc_leD le_antisym not_less_eq_eq)
    have "n = Suc e - (c + 1)" "2 \<le> c + 1" using Suc.hyps(2) Suc.prems(1) by simp_all
    note ih = Suc.hyps(1) [OF this Suc.prems(2)]
    show ?thesis
    proof (cases "\<exists>b. c + 1 \<le> b \<and> b \<le> e \<and> fent fs st b = 0")
      case True
      with ih obtain b st' where b: "fat_alloc_scan fs st zero (c + 1) e = (Inr (Some (of_nat b)), st')"
        "c + 1 \<le> b" "b \<le> e" "fent fs st b = 0" "taken fs st zero b st'" by auto
      have "c \<le> b" using b(2) by simp
      with b step same [THEN iffD2, OF True] show ?thesis by (simp only: if_True) blast
    next
      case False
      with ih step show ?thesis by (simp only: same if_False)
    qed
  qed
qed

definition next_hint :: "fat_fs \<Rightarrow> nat \<Rightarrow> fat_fs" where
  "next_hint fs c = fs\<lparr>next_free_cluster := if of_nat c + 1 \<le> fat_max_valid_cluster fs then of_nat c + 1 else 2\<rparr>"

lemma alloc_view:
  assumes g: "fat_geom fs" and dt: "fat_data fs" and d: "fat_disk fs st"
  shows "(if \<exists>c. valid_cluster fs c \<and> fent fs st c = 0
     then \<exists>c st'. fat_alloc_cluster fs st zero = (Some (of_nat c), next_hint fs c, st')
       \<and> valid_cluster fs c \<and> fent fs st c = 0 \<and> taken fs st zero c st'
     else fat_alloc_cluster fs st zero = (None, fs, st))"
proof (cases "fat_max_valid_cluster fs < 2")
  case True
  then have "\<not> valid_cluster fs c" for c by (auto simp: valid_cluster_def word_less_nat_alt)
  with True show ?thesis by (simp add: fat_alloc_cluster_def)
next
  case False
  let ?m = "unat (fat_max_valid_cluster fs)"
  define s where "s = (if next_free_cluster fs < 2 \<or> next_free_cluster fs > fat_max_valid_cluster fs then 2
                       else next_free_cluster fs)"
  have s: "2 \<le> unat s" "unat s \<le> ?m" "2 \<le> ?m"
    using False by (auto simp: s_def word_less_nat_alt not_less)
  define e2 where "e2 = (if s > 2 then unat (s - 1) else 1)"
  have "unat (s - 1) = unat s - 1" if "s > 2"
    using that by (subst unat_sub) (auto simp: word_le_nat_alt word_less_nat_alt)
  then have e2: "e2 = unat s - 1" using s(1) by (auto simp: e2_def word_less_nat_alt)
  have alloc: "fat_alloc_cluster fs st zero =
     (case fat_alloc_scan fs st zero (unat s) ?m of
        (Inl _, st1) \<Rightarrow> (None, fs, st1)
      | (Inr (Some c), st1) \<Rightarrow> (Some c, fs\<lparr>next_free_cluster := if c + 1 \<le> fat_max_valid_cluster fs then c + 1 else 2\<rparr>, st1)
      | (Inr None, st1) \<Rightarrow>
          (case fat_alloc_scan fs st1 zero 2 e2 of
             (Inl _, st2) \<Rightarrow> (None, fs, st2)
           | (Inr (Some c), st2) \<Rightarrow> (Some c, fs\<lparr>next_free_cluster := if c + 1 \<le> fat_max_valid_cluster fs then c + 1 else 2\<rparr>, st2)
           | (Inr None, st2) \<Rightarrow> (None, fs, st2)))"
    using False unfolding fat_alloc_cluster_def Let_def s_def [symmetric] e2_def by simp
  note p1 = alloc_scan_view [OF g dt d s(1) order_refl, of zero]
  show ?thesis
  proof (cases "\<exists>b. unat s \<le> b \<and> b \<le> ?m \<and> fent fs st b = 0")
    case True
    with p1 obtain b st' where b: "fat_alloc_scan fs st zero (unat s) ?m = (Inr (Some (of_nat b)), st')"
      "unat s \<le> b" "b \<le> ?m" "fent fs st b = 0" "taken fs st zero b st'" by auto
    then have "valid_cluster fs b" using s(1) by (simp add: valid_cluster_def)
    with b alloc show ?thesis by (auto simp: next_hint_def)
  next
    case no: False
    with p1 have p1': "fat_alloc_scan fs st zero (unat s) ?m = (Inr None, st)" by simp
    have "e2 \<le> ?m" using e2 s by simp
    note p2 = alloc_scan_view [OF g dt d order_refl this, of zero]
    show ?thesis
    proof (cases "\<exists>b. 2 \<le> b \<and> b \<le> e2 \<and> fent fs st b = 0")
      case True
      with p2 obtain b st' where b: "fat_alloc_scan fs st zero 2 e2 = (Inr (Some (of_nat b)), st')"
        "2 \<le> b" "b \<le> e2" "fent fs st b = 0" "taken fs st zero b st'" by auto
      then have "valid_cluster fs b" using \<open>e2 \<le> ?m\<close> by (simp add: valid_cluster_def)
      with b p1' alloc show ?thesis by (auto simp: next_hint_def)
    next
      case none: False
      with p2 have "fat_alloc_scan fs st zero 2 e2 = (Inr None, st)" by simp
      moreover have "fent fs st c \<noteq> 0" if v: "valid_cluster fs c" for c
      proof (cases "unat s \<le> c")
        case True
        with no v show ?thesis by (auto simp: valid_cluster_def)
      next
        case False
        then have "c \<le> e2" using e2 by simp
        with none v show ?thesis by (auto simp: valid_cluster_def)
      qed
      ultimately show ?thesis using p1' alloc by auto
    qed
  qed
qed

section \<open>The operations on a sound volume\<close>

lemma entry_roundtrip_spec:
  assumes "fat_geom fs" "fat_disk fs st" "in_fat fs c"
  shows "\<exists>st'. fat_write_fat_entry fs st (of_nat c) v = (0, st')
     \<and> (\<forall>c'. in_fat fs c' \<longrightarrow> fat_read_fat_entry fs st' (of_nat c') =
          (if c' = c then Some (trunc (ftype fs) v) else fat_read_fat_entry fs st (of_nat c')))
     \<and> (\<forall>r < unat (total_sectors fs). \<not> in_table fs r \<longrightarrow>
          fat_read_sector fs st' (of_nat r) = fat_read_sector fs st (of_nat r))
     \<and> (mirrored fs st \<longrightarrow> mirrored fs st')"
proof -
  from write_entry_view [OF assms, of v] obtain st' where w: "fat_write_fat_entry fs st (of_nat c) v = (0, st')"
    "fat_disk fs st'" and e: "\<And>c'. in_fat fs c' \<Longrightarrow> fent fs st' c' = (if c' = c then trunc (ftype fs) v else fent fs st c')"
    and f: "\<And>r. r < unat (total_sectors fs) \<Longrightarrow> \<not> in_table fs r \<Longrightarrow> vsec fs st' r = vsec fs st r"
    and m: "mirrored fs st \<longrightarrow> mirrored fs st'" by blast
  have "fat_read_fat_entry fs st' (of_nat c') =
      (if c' = c then Some (trunc (ftype fs) v) else fat_read_fat_entry fs st (of_nat c'))" if "in_fat fs c'" for c'
    using read_entry_fent [OF assms(1) w(2) that] read_entry_fent [OF assms(1,2) that] e [OF that] by simp
  moreover have "fat_read_sector fs st' (of_nat r) = fat_read_sector fs st (of_nat r)"
    if "r < unat (total_sectors fs)" "\<not> in_table fs r" for r
    using vsec_read [OF w(2) that(1)] vsec_read [OF assms(2) that(1)] f [OF that] by simp
  ultimately show ?thesis using w(1) m by blast
qed

text \<open>
  C27. Round trip of table entries. On a volume whose table lies inside it, for tables of 12, 16
  and 32 bits: writing the entry of a cluster that the table has an entry for succeeds, and
  reading it back gives the value, cut to the width of an entry; every other entry, also
  one of 12 bits that shares a byte with the one written, and every sector outside the table
  keep what they held; and copies of the table that agreed before still agree.
\<close>

theorem fat_entry_roundtrip:
  assumes "fat_geom fs" "fat_disk fs st" "in_fat fs c"
  shows "\<exists>st'. fat_write_fat_entry fs st (of_nat c) v = (0, st')
     \<and> (\<forall>c'. in_fat fs c' \<longrightarrow> fat_read_fat_entry fs st' (of_nat c') =
          (if c' = c then Some (trunc (ftype fs) v) else fat_read_fat_entry fs st (of_nat c')))
     \<and> (\<forall>r < unat (total_sectors fs). \<not> in_table fs r \<longrightarrow>
          fat_read_sector fs st' (of_nat r) = fat_read_sector fs st (of_nat r))
     \<and> (mirrored fs st \<longrightarrow> mirrored fs st')"
  using assms by (rule entry_roundtrip_spec)

text \<open>
  C28. Allocation on a sound volume takes a free cluster whenever there is one, wherever the
  search hint stands, and fails only when no data cluster is free, then without a
  change. The cluster taken is a valid one that was free; its entry becomes the end-of-chain
  mark, its sectors are cleared if that was asked for, the hint moves past it, and no other
  entry and no sector of another cluster changes.
\<close>

theorem fat_alloc_cluster_correct:
  assumes "fat_geom fs" "fat_data fs" "fat_disk fs st"
  shows "if \<exists>c. valid_cluster fs c \<and> fat_read_fat_entry fs st (of_nat c) = Some 0
     then \<exists>c st'. fat_alloc_cluster fs st zero = (Some (of_nat c), next_hint fs c, st')
       \<and> valid_cluster fs c \<and> fat_read_fat_entry fs st (of_nat c) = Some 0 \<and> taken fs st zero c st'
     else fat_alloc_cluster fs st zero = (None, fs, st)"
proof -
  have "fat_read_fat_entry fs st (of_nat c) = Some 0 \<longleftrightarrow> fent fs st c = 0" if "valid_cluster fs c" for c
    using read_entry_fent [OF assms(1,3) valid_clusterD(1) [OF assms(1) that]] by simp
  then show ?thesis using alloc_view [OF assms, of zero] by (simp cong: conj_cong)
qed

text \<open>
  C29. Releasing a chain ends, whatever the table holds: also when the links form a cycle or
  run into another chain, because each round clears the entry it leaves. Exactly the clusters
  that the links reach from the first one become free, every other entry and every
  sector outside the table stays.
\<close>

theorem fat_free_chain_ends:
  assumes "fat_geom fs" "fat_disk fs st" "valid_cluster fs c"
  shows "\<exists>st'. fat_free_chain fs st (of_nat c) = Some (0, st')
     \<and> (\<forall>d. in_fat fs d \<longrightarrow> fat_read_fat_entry fs st' (of_nat d) =
          (if d \<in> chain_of fs st c then Some 0 else fat_read_fat_entry fs st (of_nat d)))
     \<and> (\<forall>r < unat (total_sectors fs). \<not> in_table fs r \<longrightarrow> vsec fs st' r = vsec fs st r)"
proof -
  note v = valid_clusterD [OF assms(1,3)]
  from free_loop_view [OF assms(1,2) v(1,2)] obtain st' where
    f: "fat_free_loop fs st (of_nat c) = Some (0, st')" "fat_disk fs st'"
    and e: "\<And>d. in_fat fs d \<Longrightarrow> fent fs st' d = (if d \<in> chain_of fs st c then 0 else fent fs st d)"
    and s: "\<forall>r < unat (total_sectors fs). \<not> in_table fs r \<longrightarrow> vsec fs st' r = vsec fs st r" by blast
  have "fat_read_fat_entry fs st' (of_nat d) =
      (if d \<in> chain_of fs st c then Some 0 else fat_read_fat_entry fs st (of_nat d))" if "in_fat fs d" for d
    using read_entry_fent [OF assms(1) f(2) that] read_entry_fent [OF assms(1,2) that] e [OF that] by simp
  with f(1) s show ?thesis unfolding fat_free_chain_def by blast
qed

section \<open>What mounting checks\<close>

lemma guard_Inr: "(if b then Inl e else x) = Inr y \<longleftrightarrow> \<not> b \<and> x = Inr y"
  by simp

lemma read_Inr: "(case r of Inl e \<Rightarrow> Inl (k e) | Inr v \<Rightarrow> f v) = Inr y \<longleftrightarrow> (\<exists>v. r = Inr v \<and> f v = Inr y)"
  by (cases r) simp_all

lemma let_Inr:
  fixes v :: 'v
  shows "Let v f = Inr y \<longleftrightarrow> (\<exists>x. v = x \<and> f x = Inr y)"
  by simp

lemmas let_Inr_fields = let_Inr [where 'v = u8] let_Inr [where 'v = u16] let_Inr [where 'v = u32]
  let_Inr [where 'v = fat_type]

lemma mount_facts:
  assumes "fat_fs_mount st drive lba = Inr fs"
  shows "bytes_per_sector fs = 512 \<and> sectors_per_cluster fs \<noteq> 0 \<and> fat_count fs \<noteq> 0 \<and> sectors_per_fat fs \<noteq> 0
    \<and> first_fat_sector fs = ucast (reserved_sectors fs) \<and> reserved_sectors fs \<noteq> 0
    \<and> first_root_dir_sector fs = first_fat_sector fs + ucast (fat_count fs) * sectors_per_fat fs
    \<and> first_data_sector fs = first_root_dir_sector fs + root_dir_sectors fs
    \<and> root_dir_sectors fs = (ucast (root_entry_count fs) * 32 + 511) div 512
    \<and> first_data_sector fs < total_sectors fs \<and> cluster_count fs \<noteq> 0
    \<and> 2 < fat_fat_entry_count fs
    \<and> cluster_count fs = (let n = (total_sectors fs - first_data_sector fs) div ucast (sectors_per_cluster fs);
         e = fat_fat_entry_count fs - 2 in if n > e then e else n)
    \<and> ftype fs = (let n = (total_sectors fs - first_data_sector fs) div ucast (sectors_per_cluster fs) in
         if n < 4085 then FAT_TYPE_12 else if n < 65525 then FAT_TYPE_16 else FAT_TYPE_32)
    \<and> drive_index fs = drive \<and> partition_lba fs = lba \<and> next_free_cluster fs = 2 \<and> mounted fs
    \<and> (ftype fs = FAT_TYPE_32 \<longrightarrow> 2 \<le> root_cluster fs \<and> root_cluster fs \<le> cluster_count fs + 1)"
  using assms unfolding fat_fs_mount_def guard_Inr read_Inr let_Inr_fields de_Morgan_disj sum.inject
  apply (elim exE conjE)
  apply (cases fs)
  apply (simp add: guard_Inr read_Inr fat_fat_entry_count_def Let_def not_le not_less split del: if_split cong: if_cong)
  done

text \<open>No sum of the boot sector's numbers leaves 32 bits, and the disk can address the volume.\<close>

definition mount_sane :: "fat_fs \<Rightarrow> bool" where
  "mount_sane fs \<longleftrightarrow> unat (sectors_per_fat fs) < 2 ^ 22
     \<and> unat (reserved_sectors fs) + unat (fat_count fs) * unat (sectors_per_fat fs) + unat (root_dir_sectors fs) < 2 ^ 32
     \<and> unat (partition_lba fs) + unat (total_sectors fs) \<le> 2 ^ 64"

lemma mount_layout:
  assumes "fat_fs_mount st drive lba = Inr fs" and "mount_sane fs"
  shows "unat (first_fat_sector fs) = unat (reserved_sectors fs)"
    and "unat (first_root_dir_sector fs) = copy_base fs (unat (fat_count fs))"
    and "unat (first_data_sector fs) = unat (first_root_dir_sector fs) + unat (root_dir_sectors fs)"
proof -
  note f = mount_facts [OF assms(1)]
  have w: "unat (ucast x :: u32) = unat x" for x :: u16
    by (rule unat_ucast_widen) simp
  have b: "unat (ucast x :: u32) = unat x" for x :: u8
    by (rule unat_ucast_widen) simp
  let ?t = "unat (fat_count fs) * unat (sectors_per_fat fs)"
  show r: "unat (first_fat_sector fs) = unat (reserved_sectors fs)" using f by (simp add: w)
  have "unat (ucast (fat_count fs) * sectors_per_fat fs :: u32) = ?t"
    using assms(2) by (simp add: unat_word_ariths(2) b mount_sane_def)
  moreover have "first_root_dir_sector fs = first_fat_sector fs + ucast (fat_count fs) * sectors_per_fat fs"
    using f by blast
  ultimately have "unat (first_root_dir_sector fs) = unat (reserved_sectors fs) + ?t"
    using assms(2) r by (simp add: unat_word_ariths(1) mount_sane_def)
  then show frs: "unat (first_root_dir_sector fs) = copy_base fs (unat (fat_count fs))"
    by (simp add: copy_base_def r)
  have "first_data_sector fs = first_root_dir_sector fs + root_dir_sectors fs" using f by blast
  then show "unat (first_data_sector fs) = unat (first_root_dir_sector fs) + unat (root_dir_sectors fs)"
    using assms(2) frs by (simp add: unat_word_ariths(1) mount_sane_def copy_base_def r)
qed

lemma mount_sound_spec:
  assumes "fat_fs_mount st drive lba = Inr fs" and "mount_sane fs"
  shows "fat_geom fs" "fat_data fs" "fat_max_valid_cluster fs = cluster_count fs + 1" "2 \<le> unat (fat_max_valid_cluster fs)"
    "unat (cluster_count fs + 1) = unat (cluster_count fs) + 1"
proof -
  note f = mount_facts [OF assms(1)] and l = mount_layout [OF assms]
  have "first_data_sector fs < total_sectors fs" using f by blast
  then have "unat (first_data_sector fs) < unat (total_sectors fs)" by (simp only: word_less_nat_alt)
  then show "fat_geom fs"
    using f l assms(2) by (simp add: fat_geom_def mount_sane_def copy_base_def)
  let ?e = "fat_fat_entry_count fs" and ?s = "unat (sectors_per_cluster fs)"
  let ?n = "(total_sectors fs - first_data_sector fs) div ucast (sectors_per_cluster fs)"
  have s: "unat (ucast (sectors_per_cluster fs) :: u32) = ?s" by (rule unat_ucast_widen) simp
  have e: "2 < ?e" and c: "cluster_count fs = (if ?n > ?e - 2 then ?e - 2 else ?n)"
    using f by (simp_all add: Let_def)
  have "cluster_count fs \<le> ?n" "cluster_count fs \<le> ?e - 2" unfolding c by auto
  then have cn: "unat (cluster_count fs) \<le> unat ?n" and ce: "unat (cluster_count fs) \<le> unat ?e - 2"
    using e unat_sub [of 2 ?e] by (simp_all add: word_le_nat_alt word_less_nat_alt)
  have "unat ?n = (unat (total_sectors fs) - unat (first_data_sector fs)) div ?s"
    using \<open>unat (first_data_sector fs) < unat (total_sectors fs)\<close>
    by (simp only: unat_div s) (simp add: unat_sub word_le_nat_alt)
  then have "unat ?n * ?s \<le> unat (total_sectors fs) - unat (first_data_sector fs)" by simp
  with mult_le_mono1 [OF cn, of ?s] \<open>unat (first_data_sector fs) < unat (total_sectors fs)\<close>
  have "unat (first_data_sector fs) + unat (cluster_count fs) * ?s \<le> unat (total_sectors fs)" by linarith
  then show "fat_data fs" using f l by (simp add: fat_data_def)
  have e1: "unat (?e - 1) = unat ?e - 1" using e by (subst unat_sub) (auto simp: word_le_nat_alt word_less_nat_alt)
  have "unat ?e < 2 ^ 32" using unsigned_less [of ?e, where 'a = nat] by simp
  then show c1: "unat (cluster_count fs + 1) = unat (cluster_count fs) + 1"
    using ce e by (simp add: unat_word_ariths(1) word_less_nat_alt)
  have "cluster_count fs + 1 \<le> ?e - 1"
    using ce e by (simp add: word_le_nat_alt word_less_nat_alt c1 e1)
  then show m: "fat_max_valid_cluster fs = cluster_count fs + 1"
    using e by (auto simp: fat_max_valid_cluster_def Let_def)
  have "cluster_count fs \<noteq> 0" using f by blast
  then have "0 < unat (cluster_count fs)" by (metis unat_gt_0)
  then show "2 \<le> unat (fat_max_valid_cluster fs)" by (simp add: m c1)
qed

text \<open>
  C26. A volume that mounts has a sound layout, if its boot sector is sane: tables below 2 ^ 22 sectors, sums that
  fit 32 bits, and sectors the disk can number. Then
  the tables, the root directory and the clusters follow each other inside the volume, and every
  cluster of the data area has an entry in the table, because mounting lowers the number of
  clusters to what the table can describe. On FAT32 the root cluster is one of them.
\<close>

theorem fat_mount_sound:
  assumes "fat_fs_mount st drive lba = Inr fs" and "mount_sane fs"
  shows "fat_geom fs \<and> fat_data fs \<and> mounted fs \<and> drive_index fs = drive \<and> partition_lba fs = lba
    \<and> copy_base fs (unat (fat_count fs)) = unat (first_root_dir_sector fs)
    \<and> unat (first_root_dir_sector fs) + unat (root_dir_sectors fs) = unat (first_data_sector fs)
    \<and> (\<forall>c. valid_cluster fs c \<longleftrightarrow> 2 \<le> c \<and> c < unat (cluster_count fs) + 2)
    \<and> (ftype fs = FAT_TYPE_32 \<longrightarrow> valid_cluster fs (unat (root_cluster fs)))"
proof -
  note f = mount_facts [OF assms(1)] and l = mount_layout [OF assms] and s = mount_sound_spec [OF assms]
  show ?thesis
    using f l s by (auto simp: valid_cluster_def word_le_nat_alt)
qed

section \<open>A small volume\<close>

text \<open>A floppy-like disk with a FAT12 boot sector: two tables of three sectors, 992 clusters.\<close>

definition boot12 :: "u8 list" where
  "boot12 = zero_sector[12 := 2, 13 := 1, 14 := 1, 16 := 2, 17 := 16, 19 := 0xE8, 20 := 3, 22 := 3,
     510 := 0x55, 511 := 0xAA]"

text \<open>A disk of 1,000 sectors with the given contents.\<close>

definition flat_disk :: "(u64 \<Rightarrow> u8 list) \<Rightarrow> storage" where
  "flat_disk m = \<lparr>g_drives = [\<lparr>ad_present = True, ad_ahci = False, lba48_supported = True, ad_type = ATA_DRIVE_ATA,
       sectors28 = 1000, sectors48 = 0, ad_model = ''QEMU'', ad_medium = (\<lambda>l. if l < 1000 then Some (m l) else None)\<rparr>],
     g_namespaces = [], g_hosts = [], g_fs_read_bytes = 0, g_fs_write_bytes = 0\<rparr>"

definition floppy :: storage where
  "floppy = flat_disk (\<lambda>l. if l = 0 then boot12 else zero_sector)"

definition floppy_fs :: fat_fs where
  "floppy_fs = \<lparr>mounted = True, drive_index = 0, partition_lba = 0, ftype = FAT_TYPE_12,
     bytes_per_sector = 512, sectors_per_cluster = 1, reserved_sectors = 1, fat_count = 2,
     root_entry_count = 16, total_sectors = 1000, sectors_per_fat = 3, root_dir_sectors = 1,
     first_fat_sector = 1, first_root_dir_sector = 7, first_data_sector = 8, cluster_count = 992,
     root_cluster = 0, next_free_cluster = 2\<rparr>"

lemma flat_read: "ata_read_sectors (flat_disk m) 0 lba 1 = (if lba < 1000 then Inr (m lba) else Inl (-4))"
proof -
  have "unat lba + 1 < 2 ^ 64" if "lba \<noteq> -1" for lba :: u64
  proof -
    have "unat lba \<noteq> unat (-1 :: u64)" using that by (metis word_unat_eq_iff)
    moreover have "unat (-1 :: u64) = 2 ^ 64 - 1" by (simp add: unsigned_minus_1_eq_mask mask_eq_exp_minus_1)
    ultimately show ?thesis using unsigned_less [of lba, where 'a = nat] by simp
  qed
  then have "lba + 1 > 1000 \<longleftrightarrow> \<not> lba < 1000" if "lba \<noteq> -1" for lba :: u64
    using that by (simp add: word_less_nat_alt unat_word_ariths(1)) linarith
  then show ?thesis
    by (cases "lba = -1") (auto simp: flat_disk_def ata_read_sectors_def ata_rw_check_def
        ata_drive_total_sectors_def Let_def not_less not_le)
qed

lemmas floppy_read = flat_read [of "\<lambda>l. if l = 0 then boot12 else zero_sector", folded floppy_def]

lemma boot12_bytes:
  "rd16 boot12 11 = 512" "boot12 ! 13 = 1" "rd16 boot12 14 = 1" "boot12 ! 16 = 2" "rd16 boot12 17 = 16"
  "rd16 boot12 19 = 1000" "rd16 boot12 22 = 3" "boot12 ! 510 = 0x55" "boot12 ! 511 = 0xAA"
  by (simp_all add: boot12_def zero_sector_def rd16_def nth_list_update)

lemma floppy_mount: "fat_fs_mount floppy 0 0 = Inr floppy_fs"
  by (simp add: fat_fs_mount_def floppy_read boot12_bytes fat_is_power_of_two_u32_def Let_def
      fat_read_sector_def floppy_fs_def)

lemma floppy_sane: "mount_sane floppy_fs"
  by (simp add: mount_sane_def floppy_fs_def)

lemma flat_fat_disk:
  assumes "\<And>l. l < 1000 \<Longrightarrow> length (m l) = 512"
  shows "fat_disk floppy_fs (flat_disk m)"
proof -
  have "unat (ucast (of_nat r :: u32) :: u64) = r" if "r < 1000" for r
    using that by (simp add: unat_ucast_widen unsigned_of_nat take_bit_nat_eq_self)
  then show ?thesis using assms
    by (auto simp: fat_disk_def fat_read_sector_def flat_read floppy_fs_def ATA_SECTOR_SIZE_def word_less_nat_alt)
qed

lemma floppy_disk: "fat_disk floppy_fs floppy"
  unfolding floppy_def by (rule flat_fat_disk) (simp add: boot12_def zero_sector_def)

lemmas floppy_sound = mount_sound_spec(1,2) [OF floppy_mount floppy_sane]

theorem fat_mount_sound_witness:
  "fat_fs_mount floppy 0 0 = Inr floppy_fs \<and> fat_geom floppy_fs \<and> fat_data floppy_fs \<and> valid_cluster floppy_fs 993"
  using fat_mount_sound [OF floppy_mount floppy_sane] floppy_mount by (simp add: floppy_fs_def)

lemma floppy_valid: "valid_cluster floppy_fs c \<longleftrightarrow> 2 \<le> c \<and> c < 994"
  using mount_sound_spec(3) [OF floppy_mount floppy_sane] by (auto simp: valid_cluster_def floppy_fs_def)

lemma floppy_in_fat: "in_fat floppy_fs 2" "in_fat floppy_fs 3"
  using valid_clusterD(1) [OF floppy_sound(1)] floppy_valid by simp_all

lemma floppy_empty: "fat_read_fat_entry floppy_fs floppy 2 = Some 0"
  by (simp add: fat_read_fat_entry_def floppy_fs_def fat_read_sector_def floppy_read zero_sector_def Let_def)

theorem fat_entry_roundtrip_witness:
  "\<exists>st'. fat_write_fat_entry floppy_fs floppy (of_nat 2) 0xABC = (0, st')
     \<and> fat_read_fat_entry floppy_fs st' (of_nat 2) = Some 0xABC
     \<and> fat_read_fat_entry floppy_fs st' (of_nat 3) = fat_read_fat_entry floppy_fs floppy (of_nat 3)"
proof -
  have "trunc (ftype floppy_fs) 0xABC = 0xABC" by (simp add: trunc_def floppy_fs_def)
  moreover from fat_entry_roundtrip [OF floppy_sound(1) floppy_disk floppy_in_fat(1), of "0xABC"] obtain st'
    where "fat_write_fat_entry floppy_fs floppy (of_nat 2) 0xABC = (0, st')"
      and r: "\<And>c'. in_fat floppy_fs c' \<Longrightarrow> fat_read_fat_entry floppy_fs st' (of_nat c') =
        (if c' = 2 then Some (trunc (ftype floppy_fs) 0xABC) else fat_read_fat_entry floppy_fs floppy (of_nat c'))"
    by blast
  ultimately show ?thesis
    using r [OF floppy_in_fat(1)] r [OF floppy_in_fat(2)] by (intro exI [of _ st']) simp
qed

theorem fat_alloc_cluster_correct_witness:
  "\<exists>c st'. fat_alloc_cluster floppy_fs floppy True = (Some (of_nat c), next_hint floppy_fs c, st')
     \<and> 2 \<le> c \<and> c < 994 \<and> taken floppy_fs floppy True c st'"
proof -
  have "\<exists>c. valid_cluster floppy_fs c \<and> fat_read_fat_entry floppy_fs floppy (of_nat c) = Some 0"
    using floppy_empty floppy_valid [of 2] by (intro exI [of _ 2]) simp
  with fat_alloc_cluster_correct [OF floppy_sound floppy_disk, of True] floppy_valid show ?thesis by auto
qed

text \<open>The same volume with the clusters 2 and 3 linked to each other.\<close>

definition looped :: storage where
  "looped = flat_disk (\<lambda>l. if l = 0 then boot12 else if l = 1 \<or> l = 4 then zero_sector[3 := 3, 4 := 0x20] else zero_sector)"

lemmas looped_read = flat_read [of "\<lambda>l. if l = 0 then boot12 else if l = 1 \<or> l = 4 then zero_sector[3 := 3, 4 := 0x20]
  else zero_sector", folded looped_def]

lemma looped_disk: "fat_disk floppy_fs looped"
  unfolding looped_def by (rule flat_fat_disk) (simp add: boot12_def zero_sector_def)

lemma looped_entries: "fat_read_fat_entry floppy_fs looped 2 = Some 3" "fat_read_fat_entry floppy_fs looped 3 = Some 2"
  by (simp_all add: fat_read_fat_entry_def floppy_fs_def fat_read_sector_def looped_read zero_sector_def Let_def)

theorem fat_free_chain_ends_witness:
  "\<exists>st'. fat_free_chain floppy_fs looped (of_nat 2) = Some (0, st')
     \<and> fat_read_fat_entry floppy_fs st' (of_nat 2) = Some 0 \<and> fat_read_fat_entry floppy_fs st' (of_nat 3) = Some 0"
proof -
  note e = read_entry_fent [OF floppy_sound(1) looped_disk]
  have "fent floppy_fs looped 2 = 3" using e [OF floppy_in_fat(1)] looped_entries by simp
  moreover have "fat_max_valid_cluster floppy_fs = 993"
    using mount_sound_spec(3) [OF floppy_mount floppy_sane] by (simp add: floppy_fs_def)
  moreover have "\<not> fat_is_eoc floppy_fs 3" by (simp add: fat_is_eoc_def floppy_fs_def)
  ultimately have "fat_link floppy_fs looped 2 = Some 3"
    by (simp add: fat_link_def floppy_in_fat word_less_nat_alt)
  then have "2 \<in> chain_of floppy_fs looped 2" "3 \<in> chain_of floppy_fs looped 2" by (auto simp: chain_of_def)
  moreover have "valid_cluster floppy_fs 2" by (simp add: floppy_valid)
  ultimately show ?thesis
    using fat_free_chain_ends [OF floppy_sound(1) looped_disk] floppy_in_fat by fastforce
qed

end
