(* ===== verification/Fat_Names.thy ===== *)
theory Fat_Names
  imports Vfs_Types Fat_Words
begin

text \<open>
  Directory entries of \<open>fs/fat.c\<close> and the names in them: the 32 bytes of an entry, short names
  of eight and three characters, and long names spread over entries of thirteen.

  \<open>fat_dir_entry\<close>, \<open>fat_lfn_entry\<close> and \<open>fat_lfn_accum\<close> are the structs of
  the same names; the casts of the code between a sector's bytes and the packed structs are
  \<open>dir_entry_of\<close>, \<open>lfn_entry_of\<close> and \<open>dir_entry_bytes\<close>, \<open>lfn_entry_bytes\<close>.
  A C string is the string before its NUL.
\<close>

abbreviation chr8 :: "u8 \<Rightarrow> char" where "chr8 b \<equiv> char_of (unat b)"
abbreviation byte :: "char \<Rightarrow> u8" where "byte c \<equiv> of_nat (of_char c)"

definition before_nul :: "string \<Rightarrow> string" where
  "before_nul s = takeWhile (\<lambda>c. c \<noteq> CHR 0x00) s"

text \<open>What \<open>strrchr\<close> finds: the text before and after the last \<open>c\<close>.\<close>

definition split_last :: "char \<Rightarrow> string \<Rightarrow> (string \<times> string) option" where
  "split_last c s =
     (if c \<in> set s then
        let after = rev (takeWhile (\<lambda>x. x \<noteq> c) (rev s)) in
        Some (take (length s - length after - 1) s, after)
      else None)"

section \<open>Entries\<close>

record fat_dir_entry =
  de_name :: "u8 list"
  de_attr :: u8
  nt_reserved :: u8
  creation_time_tenths :: u8
  creation_time :: u16
  creation_date :: u16
  access_date :: u16
  first_cluster_hi :: u16
  modify_time :: u16
  modify_date :: u16
  first_cluster_lo :: u16
  de_size :: u32

record fat_lfn_entry =
  order :: u8
  name1 :: "u16 list"
  le_attr :: u8
  le_type :: u8
  checksum :: u8
  name2 :: "u16 list"
  le_first_cluster_lo :: u16
  name3 :: "u16 list"

definition FAT_ATTR_DIR :: u8 where "FAT_ATTR_DIR = 0x10"
definition FAT_ATTR_LFN :: u8 where "FAT_ATTR_LFN = 0x0F"
definition FAT_ATTR_VOLUME_ID :: u8 where "FAT_ATTR_VOLUME_ID = 0x08"
definition FAT_LFN_LAST :: u8 where "FAT_LFN_LAST = 0x40"
definition FAT_LFN_ORD_MASK :: u8 where "FAT_LFN_ORD_MASK = 0x1F"
definition FAT_LFN_CHARS_PER_ENTRY :: nat where "FAT_LFN_CHARS_PER_ENTRY = 13"

lemmas fat_attrs = FAT_ATTR_DIR_def FAT_ATTR_LFN_def FAT_ATTR_VOLUME_ID_def
lemmas fat_lfn_consts = FAT_LFN_LAST_def FAT_LFN_ORD_MASK_def FAT_LFN_CHARS_PER_ENTRY_def

definition le16 :: "u8 list \<Rightarrow> nat \<Rightarrow> u16" where
  "le16 p i = join16 (p ! i) (p ! (i + 1))"

definition bytes16 :: "u16 \<Rightarrow> u8 list" where
  "bytes16 v = [lo8 v, hi8 v]"

definition dir_entry_of :: "u8 list \<Rightarrow> fat_dir_entry" where
  "dir_entry_of p = \<lparr>de_name = take 11 p, de_attr = p ! 11, nt_reserved = p ! 12,
     creation_time_tenths = p ! 13, creation_time = le16 p 14, creation_date = le16 p 16,
     access_date = le16 p 18, first_cluster_hi = le16 p 20, modify_time = le16 p 22,
     modify_date = le16 p 24, first_cluster_lo = le16 p 26,
     de_size = join32 (p ! 28) (p ! 29) (p ! 30) (p ! 31)\<rparr>"

definition dir_entry_bytes :: "fat_dir_entry \<Rightarrow> u8 list" where
  "dir_entry_bytes e = de_name e @ [de_attr e, nt_reserved e, creation_time_tenths e]
     @ bytes16 (creation_time e) @ bytes16 (creation_date e) @ bytes16 (access_date e)
     @ bytes16 (first_cluster_hi e) @ bytes16 (modify_time e) @ bytes16 (modify_date e)
     @ bytes16 (first_cluster_lo e)
     @ [byte32 0 (de_size e), byte32 1 (de_size e), byte32 2 (de_size e), byte32 3 (de_size e)]"

definition lfn_entry_of :: "u8 list \<Rightarrow> fat_lfn_entry" where
  "lfn_entry_of p = \<lparr>order = p ! 0, name1 = map (le16 p) [1, 3, 5, 7, 9], le_attr = p ! 11,
     le_type = p ! 12, checksum = p ! 13, name2 = map (le16 p) [14, 16, 18, 20, 22, 24],
     le_first_cluster_lo = le16 p 26, name3 = map (le16 p) [28, 30]\<rparr>"

definition lfn_entry_bytes :: "fat_lfn_entry \<Rightarrow> u8 list" where
  "lfn_entry_bytes e = order e # concat (map bytes16 (name1 e)) @ [le_attr e, le_type e, checksum e]
     @ concat (map bytes16 (name2 e)) @ bytes16 (le_first_cluster_lo e) @ concat (map bytes16 (name3 e))"

definition fat_entry_cluster :: "fat_dir_entry \<Rightarrow> u32" where
  "fat_entry_cluster e = push_bit 16 (ucast (first_cluster_hi e)) OR ucast (first_cluster_lo e)"

definition fat_set_entry_cluster :: "fat_dir_entry \<Rightarrow> u32 \<Rightarrow> fat_dir_entry" where
  "fat_set_entry_cluster e c =
     e\<lparr>first_cluster_hi := ucast ((drop_bit 16 c) AND 0xFFFF), first_cluster_lo := ucast (c AND 0xFFFF)\<rparr>"

definition no_dir_entry :: fat_dir_entry where
  "no_dir_entry = dir_entry_of (replicate 32 0)"

section \<open>Short names\<close>

text \<open>The characters up to a blank, from position \<open>p\<close> of the output on.\<close>

fun sfn_copy :: "nat \<Rightarrow> u8 list \<Rightarrow> string option" where
  "sfn_copy p [] = Some []"
| "sfn_copy p (c # cs) =
     (if c = 0x20 then Some []
      else if p + 1 \<ge> VFS_MAX_NAME then None
      else map_option (\<lambda>r. chr8 (if c \<ge> 0x41 \<and> c \<le> 0x5A then c + 32 else c) # r) (sfn_copy (p + 1) cs))"

definition fat_sfn_to_name :: "u8 list \<Rightarrow> string option" where
  "fat_sfn_to_name nm =
     map_option before_nul
     (case sfn_copy 0 (take 8 nm) of
        None \<Rightarrow> None
      | Some b \<Rightarrow>
          if (\<exists>c\<in>set (take 3 (drop 8 nm)). c \<noteq> 0x20) \<and> length b + 1 < VFS_MAX_NAME
          then map_option (\<lambda>x. b @ CHR ''.'' # x) (sfn_copy (length b + 1) (take 3 (drop 8 nm)))
          else Some b)"

definition fat_char_valid_sfn :: "char \<Rightarrow> bool" where
  "fat_char_valid_sfn c \<longleftrightarrow>
     (let n = of_char c :: nat in
      (n \<ge> 97 \<and> n \<le> 122) \<or> (n \<ge> 65 \<and> n \<le> 90) \<or> (n \<ge> 48 \<and> n \<le> 57)
      \<or> c = CHR ''_'' \<or> c = CHR ''-'' \<or> c = CHR ''$'' \<or> c = CHR ''~'')"

definition sfn_char :: "char \<Rightarrow> u8" where
  "sfn_char c =
     (let c = (if fat_char_valid_sfn c then c else CHR ''_''); n = of_char c :: nat in
      of_nat (if n \<ge> 97 \<and> n \<le> 122 then n - 32 else n))"

definition fat_make_sfn :: "string \<Rightarrow> u8 list option" where
  "fat_make_sfn name =
     (if name = [] then None
      else case (case split_last (CHR ''.'') name of None \<Rightarrow> (name, []) | Some be \<Rightarrow> be) of
        (base, ext) \<Rightarrow>
          if base = [] then None
          else
            let long_or_invalid = (length base > 8 \<or> length ext > 3
                  \<or> (\<exists>c\<in>set base. \<not> fat_char_valid_sfn c) \<or> (\<exists>c\<in>set ext. \<not> fat_char_valid_sfn c));
                base_out = (if length base > 8 then 8 else length base);
                base_out = (if long_or_invalid \<and> base_out > 6 then 6 else base_out);
                out11 = replicate 11 0x20;
                out11 = map sfn_char (take base_out base) @ drop base_out out11;
                out11 = (if long_or_invalid then out11[6 := 0x7E, 7 := 0x31] else out11);
                ext_out = (if length ext > 3 then 3 else length ext)
            in Some (take 8 out11 @ map sfn_char (take ext_out ext) @ drop (8 + ext_out) out11))"

definition lower_ascii :: "char \<Rightarrow> char" where
  "lower_ascii c = (if (of_char c :: nat) \<ge> 65 \<and> (of_char c :: nat) \<le> 90 then char_of (of_char c + 32 :: nat) else c)"

fun fat_name_equals_ci :: "string \<Rightarrow> string \<Rightarrow> bool" where
  "fat_name_equals_ci (x # a) (y # b) = (if lower_ascii x \<noteq> lower_ascii y then False else fat_name_equals_ci a b)"
| "fat_name_equals_ci [] [] = True"
| "fat_name_equals_ci _ _ = False"

definition fat_name_equals :: "string \<Rightarrow> string \<Rightarrow> bool" where
  "fat_name_equals a b \<longleftrightarrow>
     fat_name_equals_ci a b
     \<or> (case fat_make_sfn b of
          None \<Rightarrow> False
        | Some sfn \<Rightarrow> (case fat_sfn_to_name sfn of None \<Rightarrow> False | Some sname \<Rightarrow> fat_name_equals_ci a sname))"

definition fat_lfn_checksum :: "u8 list \<Rightarrow> u8" where
  "fat_lfn_checksum sfn =
     fold (\<lambda>c s. (if s AND 1 \<noteq> 0 then 0x80 else 0) + drop_bit 1 s + c) (take 11 sfn) 0"

section \<open>Long names\<close>

record fat_lfn_accum =
  lfn_name :: string
  expected_parts :: u8
  seen_parts_mask :: u32
  lfn_active :: bool

definition fat_lfn_reset :: fat_lfn_accum where
  "fat_lfn_reset = \<lparr>lfn_name = replicate VFS_MAX_NAME (CHR 0x00), expected_parts = 0, seen_parts_mask = 0,
     lfn_active = False\<rparr>"

definition fat_lfn_put_char :: "fat_lfn_accum \<Rightarrow> nat \<Rightarrow> u16 \<Rightarrow> fat_lfn_accum" where
  "fat_lfn_put_char a pos ch =
     (if pos \<ge> VFS_MAX_NAME - 1 then a
      else if ch = 0x0000 then a
      else if ch = 0xFFFF then a
      else a\<lparr>lfn_name := (lfn_name a)[pos := (if ch \<ge> 32 \<and> ch \<le> 126 then char_of (unat ch) else CHR ''?'')]\<rparr>)"

definition fat_lfn_push :: "fat_lfn_accum \<Rightarrow> fat_lfn_entry \<Rightarrow> int \<times> fat_lfn_accum" where
  "fat_lfn_push a le =
     (let ord = order le; idx = ord AND FAT_LFN_ORD_MASK in
      if idx = 0 \<or> idx > 20 then (-1, fat_lfn_reset)
      else if ord AND FAT_LFN_LAST = 0
        \<and> (\<not> lfn_active a \<or> expected_parts a = 0 \<or> idx > expected_parts a) then (-1, fat_lfn_reset)
      else
        let a = (if ord AND FAT_LFN_LAST \<noteq> 0
                 then fat_lfn_reset\<lparr>lfn_active := True, expected_parts := idx\<rparr> else a);
            base = (unat idx - 1) * FAT_LFN_CHARS_PER_ENTRY;
            a = fold (\<lambda>(p, ch) a. fat_lfn_put_char a (base + p) ch)
                  (enumerate 0 (name1 le @ name2 le @ name3 le)) a
        in (0, a\<lparr>seen_parts_mask := seen_parts_mask a OR push_bit (unat idx - 1) 1\<rparr>))"

definition fat_lfn_complete :: "fat_lfn_accum \<Rightarrow> bool" where
  "fat_lfn_complete a \<longleftrightarrow>
     lfn_active a \<and> expected_parts a \<noteq> 0 \<and> expected_parts a \<le> 20
     \<and> seen_parts_mask a = push_bit (unat (expected_parts a)) 1 - 1
     \<and> lfn_name a ! 0 \<noteq> CHR 0x00"

text \<open>The name, if there is one, and the accumulator, which is always reset.\<close>

definition fat_entry_to_name :: "fat_dir_entry \<Rightarrow> fat_lfn_accum \<Rightarrow> string option \<times> fat_lfn_accum" where
  "fat_entry_to_name e lfn =
     (if fat_lfn_complete lfn
      then (Some (before_nul (take (VFS_MAX_NAME - 1) (lfn_name lfn))), fat_lfn_reset)
      else (fat_sfn_to_name (de_name e), fat_lfn_reset))"

definition fat_lfn_entry_count_for_name :: "string \<Rightarrow> nat" where
  "fat_lfn_entry_count_for_name name = (length name + (FAT_LFN_CHARS_PER_ENTRY - 1)) div FAT_LFN_CHARS_PER_ENTRY"

definition fat_lfn_write_entry :: "u8 \<Rightarrow> u8 \<Rightarrow> string \<Rightarrow> nat \<Rightarrow> fat_lfn_entry" where
  "fat_lfn_write_entry ord csum name start_idx =
     (let chars = map (\<lambda>i. let idx = start_idx + i in
            if idx < length name then ucast (byte (name ! idx))
            else if idx = length name then 0x0000 else 0xFFFF) [0..<FAT_LFN_CHARS_PER_ENTRY]
      in \<lparr>order = ord, name1 = take 5 chars, le_attr = FAT_ATTR_LFN, le_type = 0, checksum = csum,
          name2 = take 6 (drop 5 chars), le_first_cluster_lo = 0, name3 = take 2 (drop 11 chars)\<rparr>)"

text \<open>The entries of a name in the order in which they are written: the last part first.\<close>

definition lfn_entries :: "string \<Rightarrow> u8 list \<Rightarrow> fat_lfn_entry list" where
  "lfn_entries name sfn =
     (let n = fat_lfn_entry_count_for_name name; csum = fat_lfn_checksum sfn in
      rev (map (\<lambda>seg. fat_lfn_write_entry
             (if seg = n - 1 then of_nat (seg + 1) OR FAT_LFN_LAST else of_nat (seg + 1))
             csum name (seg * FAT_LFN_CHARS_PER_ENTRY)) [0..<n]))"

section \<open>Bytes and back\<close>

lemma dir_entry_roundtrip:
  assumes "length (de_name e) = 11"
  shows "dir_entry_of (dir_entry_bytes e) = e" "length (dir_entry_bytes e) = 32"
  using assms by (cases e; simp add: dir_entry_of_def dir_entry_bytes_def bytes16_def le16_def join_split
      join_split32 join_split32 [unfolded One_nat_def] nth_append)+

lemma lfn_entry_roundtrip:
  assumes "length (name1 e) = 5" "length (name2 e) = 6" "length (name3 e) = 2"
  shows "lfn_entry_of (lfn_entry_bytes e) = e" "length (lfn_entry_bytes e) = 32"
proof -
  obtain a b c d f where n1: "name1 e = [a, b, c, d, f]"
    using assms(1) by (auto simp: numeral_eq_Suc length_Suc_conv)
  obtain g h i j k l where n2: "name2 e = [g, h, i, j, k, l]"
    using assms(2) by (auto simp: numeral_eq_Suc length_Suc_conv)
  obtain m n where n3: "name3 e = [m, n]"
    using assms(3) by (auto simp: numeral_eq_Suc length_Suc_conv)
  show "lfn_entry_of (lfn_entry_bytes e) = e"
    by (cases e) (use n1 n2 n3 in \<open>simp add: lfn_entry_of_def lfn_entry_bytes_def bytes16_def le16_def join_split\<close>)
  show "length (lfn_entry_bytes e) = 32"
    by (simp add: lfn_entry_bytes_def bytes16_def n1 n2 n3)
qed

lemma entry_cluster_roundtrip: "fat_entry_cluster (fat_set_entry_cluster e c) = c"
proof -
  have m: "(0xFFFF :: u32) = mask 16" by (simp add: mask_eq_exp_minus_1)
  show ?thesis
    unfolding fat_entry_cluster_def fat_set_entry_cluster_def m
    by (rule bit_word_eqI) (auto simp: bit_simps)
qed

section \<open>A long name survives its entries\<close>

definition lfn_char :: "u16 \<Rightarrow> char" where
  "lfn_char ch = (if ch \<ge> 32 \<and> ch \<le> 126 then char_of (unat ch) else CHR ''?'')"

lemma put_char:
  "fat_lfn_put_char a pos ch = a\<lparr>lfn_name := if pos < VFS_MAX_NAME - 1 \<and> ch \<noteq> 0 \<and> ch \<noteq> 0xFFFF
     then (lfn_name a)[pos := lfn_char ch] else lfn_name a\<rparr>"
  by (simp add: fat_lfn_put_char_def lfn_char_def)

lemma fold_put:
  "\<exists>nm. fold (\<lambda>(p, ch) a. fat_lfn_put_char a (base + p) ch) (enumerate k cs) a = a\<lparr>lfn_name := nm\<rparr>
     \<and> length nm = length (lfn_name a)
     \<and> (\<forall>j < length (lfn_name a). nm ! j =
         (if base + k \<le> j \<and> j < base + k + length cs \<and> j < VFS_MAX_NAME - 1 \<and> cs ! (j - (base + k)) \<noteq> 0
             \<and> cs ! (j - (base + k)) \<noteq> 0xFFFF
          then lfn_char (cs ! (j - (base + k))) else lfn_name a ! j))"
proof (induction cs arbitrary: k a)
  case Nil
  then show ?case by (intro exI [of _ "lfn_name a"]) auto
next
  case (Cons c cs)
  let ?a = "fat_lfn_put_char a (base + k) c"
  from Cons.IH [of "Suc k" ?a] obtain nm where nm:
    "fold (\<lambda>(p, ch) a. fat_lfn_put_char a (base + p) ch) (enumerate (Suc k) cs) ?a = ?a\<lparr>lfn_name := nm\<rparr>"
    "length nm = length (lfn_name ?a)"
    and v: "\<And>j. j < length (lfn_name ?a) \<Longrightarrow> nm ! j =
         (if base + Suc k \<le> j \<and> j < base + Suc k + length cs \<and> j < VFS_MAX_NAME - 1 \<and> cs ! (j - (base + Suc k)) \<noteq> 0
             \<and> cs ! (j - (base + Suc k)) \<noteq> 0xFFFF
          then lfn_char (cs ! (j - (base + Suc k))) else lfn_name ?a ! j)"
    by blast
  have len: "length (lfn_name ?a) = length (lfn_name a)" by (simp add: put_char)
  have "nm ! j = (if base + k \<le> j \<and> j < base + k + length (c # cs) \<and> j < VFS_MAX_NAME - 1 \<and> (c # cs) ! (j - (base + k)) \<noteq> 0
             \<and> (c # cs) ! (j - (base + k)) \<noteq> 0xFFFF
          then lfn_char ((c # cs) ! (j - (base + k))) else lfn_name a ! j)" if j: "j < length (lfn_name a)" for j
  proof -
    consider "j = base + k" | "j < base + k" | "base + Suc k \<le> j" by linarith
    then show ?thesis
    proof cases
      case 3
      then have "j - (base + k) = Suc (j - (base + Suc k))" by simp
      with 3 v [of j] j len show ?thesis by (simp add: put_char)
    qed (use v [of j] j len in \<open>auto simp: put_char\<close>)
  qed
  with nm len show ?case
    by (intro exI [of _ nm]) (auto simp: put_char)
qed

definition printable :: "char \<Rightarrow> bool" where
  "printable c \<longleftrightarrow> 32 \<le> (of_char c :: nat) \<and> (of_char c :: nat) \<le> 126"

lemma printable_code:
  assumes "printable c"
  shows "(ucast (byte c) :: u16) \<noteq> 0" "(ucast (byte c) :: u16) \<noteq> 0xFFFF" "lfn_char (ucast (byte c)) = c" "c \<noteq> CHR 0x00"
proof -
  have b: "(of_char c :: nat) < 256" by simp
  have u: "unat (ucast (byte c) :: u16) = of_char c"
    using assms by (simp add: printable_def unsigned_ucast_eq unsigned_of_nat take_bit_nat_eq_self)
  show "(ucast (byte c) :: u16) \<noteq> 0" "(ucast (byte c) :: u16) \<noteq> 0xFFFF"
    using assms u unfolding printable_def word_unat_eq_iff by auto
  show "lfn_char (ucast (byte c)) = c"
    using assms u by (simp add: lfn_char_def printable_def word_le_nat_alt)
  show "c \<noteq> CHR 0x00" using assms by (auto simp: printable_def)
qed

lemma write_entry_parts:
  "name1 (fat_lfn_write_entry ord csum name s) @ name2 (fat_lfn_write_entry ord csum name s)
     @ name3 (fat_lfn_write_entry ord csum name s) =
   map (\<lambda>i. if s + i < length name then ucast (byte (name ! (s + i))) else if s + i = length name then 0 else 0xFFFF) [0..<13]"
  "length (name1 (fat_lfn_write_entry ord csum name s)) = 5"
  "length (name2 (fat_lfn_write_entry ord csum name s)) = 6"
  "length (name3 (fat_lfn_write_entry ord csum name s)) = 2"
  "order (fat_lfn_write_entry ord csum name s) = ord"
  by (simp_all add: fat_lfn_write_entry_def FAT_LFN_CHARS_PER_ENTRY_def Let_def upt_rec)

text \<open>After the parts from the last down to number \<open>k + 1\<close>, the accumulator holds the tail of the name.\<close>

definition holds_from :: "string \<Rightarrow> nat \<Rightarrow> nat \<Rightarrow> fat_lfn_accum \<Rightarrow> bool" where
  "holds_from name n k a \<longleftrightarrow> lfn_active a \<and> expected_parts a = of_nat n
     \<and> seen_parts_mask a = push_bit k (mask (n - k)) \<and> length (lfn_name a) = VFS_MAX_NAME
     \<and> (\<forall>j < VFS_MAX_NAME. lfn_name a ! j = (if 13 * k \<le> j \<and> j < length name then name ! j else CHR 0x00))"

lemma mask_down: "k < n \<Longrightarrow> push_bit (Suc k) (mask (n - Suc k)) OR push_bit k 1 = (push_bit k (mask (n - k)) :: u32)"
  by (rule bit_word_eqI) (auto simp: bit_simps simp del: push_bit_Suc)

lemma part_order:
  fixes k :: nat
  assumes "k < 5"
  shows "(of_nat (k + 1) :: u8) AND FAT_LFN_ORD_MASK = of_nat (k + 1)" "(of_nat (k + 1) :: u8) AND FAT_LFN_LAST = 0"
    "(of_nat (k + 1) OR FAT_LFN_LAST :: u8) AND FAT_LFN_ORD_MASK = of_nat (k + 1)"
    "(of_nat (k + 1) OR FAT_LFN_LAST :: u8) AND FAT_LFN_LAST \<noteq> 0" "unat (of_nat (k + 1) :: u8) = k + 1"
proof -
  have "k = 0 \<or> k = 1 \<or> k = 2 \<or> k = 3 \<or> k = 4" using assms by linarith
  then show "(of_nat (k + 1) :: u8) AND FAT_LFN_ORD_MASK = of_nat (k + 1)" "(of_nat (k + 1) :: u8) AND FAT_LFN_LAST = 0"
    "(of_nat (k + 1) OR FAT_LFN_LAST :: u8) AND FAT_LFN_ORD_MASK = of_nat (k + 1)"
    "(of_nat (k + 1) OR FAT_LFN_LAST :: u8) AND FAT_LFN_LAST \<noteq> 0" "unat (of_nat (k + 1) :: u8) = k + 1"
    by (elim disjE; simp add: fat_lfn_consts)+
qed

lemma push_part:
  assumes n: "n \<le> 5" "k < n" and len: "length name < VFS_MAX_NAME" and pr: "\<And>c. c \<in> set name \<Longrightarrow> printable c"
    and ord: "if k = n - 1 then ord = of_nat (k + 1) OR FAT_LFN_LAST \<and> length name \<le> 13 * n
       else ord = of_nat (k + 1) \<and> holds_from name n (Suc k) a"
  shows "holds_from name n k (snd (fat_lfn_push a (fat_lfn_write_entry ord csum name (k * 13))))"
proof -
  have k5: "k < 5" using n by simp
  note po = part_order [OF k5]
  define cs where "cs = map (\<lambda>i. if k * 13 + i < length name then ucast (byte (name ! (k * 13 + i)))
      else if k * 13 + i = length name then 0 else (0xFFFF :: u16)) [0..<13]"
  define a0 where "a0 = (if k = n - 1 then fat_lfn_reset\<lparr>lfn_active := True, expected_parts := of_nat (k + 1)\<rparr> else a)"
  have mask0: "ord AND FAT_LFN_ORD_MASK = of_nat (k + 1)" using ord po by (auto split: if_splits)
  have last: "ord AND FAT_LFN_LAST \<noteq> 0 \<longleftrightarrow> k = n - 1" using ord po by (auto split: if_splits)
  have nz: "(of_nat (k + 1) :: u8) \<noteq> 0" "\<not> (of_nat (k + 1) :: u8) > 20"
    using po(5) k5 by (auto simp: word_unat_eq_iff word_less_nat_alt)
  have go: "\<not> (ord AND FAT_LFN_LAST = 0 \<and> (\<not> lfn_active a \<or> expected_parts a = 0 \<or> of_nat (k + 1) > expected_parts a))"
  proof (cases "k = n - 1")
    case False
    then have h: "holds_from name n (Suc k) a" using ord by simp
    have "unat (of_nat n :: u8) = n" using n by (simp add: unsigned_of_nat take_bit_nat_eq_self)
    then have "(of_nat n :: u8) \<noteq> 0" "\<not> of_nat (k + 1) > (of_nat n :: u8)"
      using n po(5) by (auto simp: word_unat_eq_iff word_less_nat_alt)
    with h show ?thesis by (simp add: holds_from_def)
  qed (use last in auto)
  obtain nm where f: "fold (\<lambda>(p, ch) a. fat_lfn_put_char a (k * 13 + p) ch) (enumerate 0 cs) a0 = a0\<lparr>lfn_name := nm\<rparr>"
    and l: "length nm = length (lfn_name a0)"
    and v: "\<And>j. j < length (lfn_name a0) \<Longrightarrow> nm ! j = (if k * 13 + 0 \<le> j \<and> j < k * 13 + 0 + length cs \<and> j < VFS_MAX_NAME - 1
        \<and> cs ! (j - (k * 13 + 0)) \<noteq> 0 \<and> cs ! (j - (k * 13 + 0)) \<noteq> 0xFFFF
        then lfn_char (cs ! (j - (k * 13 + 0))) else lfn_name a0 ! j)"
    using fold_put [of "k * 13" 0 cs a0] by blast
  have a0: "lfn_active a0" "expected_parts a0 = of_nat n" "length (lfn_name a0) = VFS_MAX_NAME"
    "\<And>j. j < VFS_MAX_NAME \<Longrightarrow> lfn_name a0 ! j = (if 13 * Suc k \<le> j \<and> j < length name then name ! j else CHR 0x00)"
    "seen_parts_mask a0 = push_bit (Suc k) (mask (n - Suc k))"
    using ord n by (auto simp: a0_def holds_from_def fat_lfn_reset_def split: if_splits)
  have nz': "\<not> (of_nat (k + 1) = (0 :: u8) \<or> of_nat (k + 1) > (20 :: u8))" using nz by simp
  have a0': "(if ord AND FAT_LFN_LAST \<noteq> 0
      then fat_lfn_reset\<lparr>lfn_active := True, expected_parts := of_nat (k + 1)\<rparr> else a) = a0"
    by (simp only: last a0_def)
  have "k + 1 - 1 = k" by simp
  then have "fat_lfn_push a (fat_lfn_write_entry ord csum name (k * 13)) =
      (0, a0\<lparr>lfn_name := nm\<rparr>\<lparr>seen_parts_mask := seen_parts_mask (a0\<lparr>lfn_name := nm\<rparr>) OR push_bit k 1\<rparr>)"
    unfolding fat_lfn_push_def Let_def
    by (simp only: write_entry_parts mask0 a0' po(5) if_not_P [OF go] if_not_P [OF nz'] cs_def [symmetric]
        FAT_LFN_CHARS_PER_ENTRY_def f)
  then have push: "snd (fat_lfn_push a (fat_lfn_write_entry ord csum name (k * 13))) =
      a0\<lparr>lfn_name := nm, seen_parts_mask := push_bit k (mask (n - k))\<rparr>"
    using a0(5) mask_down [OF n(2)] by (simp del: push_bit_Suc)
  have "nm ! j = (if 13 * k \<le> j \<and> j < length name then name ! j else CHR 0x00)" if j: "j < VFS_MAX_NAME" for j
  proof (cases "k * 13 \<le> j \<and> j < k * 13 + 13")
    case True
    then have c: "cs ! (j - k * 13) = (if j < length name then ucast (byte (name ! j)) else if j = length name then 0 else 0xFFFF)"
      unfolding cs_def by (subst nth_map) auto
    have pc: "printable (name ! j)" if "j < length name" using that pr by simp
    have "j < VFS_MAX_NAME - 1" if "j < length name" using that len by simp
    with True c v [of j] j a0(3) a0(4) [OF j] printable_code [OF pc] len show ?thesis
      by (auto simp: cs_def)
  next
    case False
    with v [of j] j a0(3) a0(4) [OF j] show ?thesis by (auto simp: cs_def)
  qed
  then show ?thesis
    unfolding push holds_from_def using a0(1,2,3) l by simp
qed

abbreviation push_raw :: "u8 list \<Rightarrow> fat_lfn_accum \<Rightarrow> fat_lfn_accum" where
  "push_raw raw a \<equiv> snd (fat_lfn_push a (lfn_entry_of raw))"

lemma parts_down:
  assumes n: "n = fat_lfn_entry_count_for_name name" and len: "length name < VFS_MAX_NAME"
    and pr: "\<And>c. c \<in> set name \<Longrightarrow> printable c"
  shows "k < n \<Longrightarrow> holds_from name n k (fold push_raw (map lfn_entry_bytes (rev (map (\<lambda>seg. fat_lfn_write_entry
     (if seg = n - 1 then of_nat (seg + 1) OR FAT_LFN_LAST else of_nat (seg + 1)) csum name
     (seg * FAT_LFN_CHARS_PER_ENTRY)) [k..<n]))) a)"
proof (induction "n - k" arbitrary: k)
  case (Suc m)
  have n5: "n \<le> 5" "length name \<le> 13 * n"
    using len unfolding n fat_lfn_entry_count_for_name_def FAT_LFN_CHARS_PER_ENTRY_def VFS_MAX_NAME_def by linarith+
  note bytes_back = lfn_entry_roundtrip(1) [OF write_entry_parts(2,3,4)]
  have up: "[k..<n] = k # [Suc k..<n]" using Suc.prems by (simp add: upt_conv_Cons)
  show ?case
  proof (cases "k = n - 1")
    case True
    then have "[Suc k..<n] = []" by simp
    with up True show ?thesis
      using push_part [of n k name "of_nat (k + 1) OR FAT_LFN_LAST" a csum] n5 Suc.prems len pr
      by (simp add: bytes_back FAT_LFN_CHARS_PER_ENTRY_def)
  next
    case False
    then have ih: "holds_from name n (Suc k) (fold push_raw (map lfn_entry_bytes (rev (map (\<lambda>seg. fat_lfn_write_entry
     (if seg = n - 1 then of_nat (seg + 1) OR FAT_LFN_LAST else of_nat (seg + 1)) csum name
     (seg * FAT_LFN_CHARS_PER_ENTRY)) [Suc k..<n]))) a)"
      using Suc.hyps(1) [of "Suc k"] Suc.hyps(2) Suc.prems by simp
    show ?thesis
      using push_part [of n k name "of_nat (k + 1)" _ csum] False n5 Suc.prems len pr ih
      by (simp add: up bytes_back FAT_LFN_CHARS_PER_ENTRY_def)
  qed
qed simp

lemma lfn_roundtrip_spec:
  assumes ne: "name \<noteq> []" and len: "length name < VFS_MAX_NAME" and pr: "\<forall>c\<in>set name. printable c"
  shows "fat_entry_to_name e (fold push_raw (map lfn_entry_bytes (lfn_entries name sfn)) a) = (Some name, fat_lfn_reset)"
proof -
  define n where "n = fat_lfn_entry_count_for_name name"
  have n: "0 < n" "n \<le> 5"
    using ne len unfolding n_def fat_lfn_entry_count_for_name_def FAT_LFN_CHARS_PER_ENTRY_def VFS_MAX_NAME_def
    by (cases name; simp)+
  let ?a = "fold push_raw (map lfn_entry_bytes (lfn_entries name sfn)) a"
  have "holds_from name n 0 ?a"
    using parts_down [OF n_def len _ n(1), of "fat_lfn_checksum sfn" a] pr
    by (simp only: lfn_entries_def Let_def n_def [symmetric])
  then have h: "lfn_active ?a" "expected_parts ?a = of_nat n" "seen_parts_mask ?a = mask n"
    "length (lfn_name ?a) = VFS_MAX_NAME"
    "\<And>j. j < VFS_MAX_NAME \<Longrightarrow> lfn_name ?a ! j = (if j < length name then name ! j else CHR 0x00)"
    by (simp_all add: holds_from_def)
  have un: "unat (of_nat n :: u8) = n" using n by (simp add: unsigned_of_nat take_bit_nat_eq_self)
  have nz: "c \<noteq> CHR 0x00" if "c \<in> set name" for c using printable_code(4) pr that by blast
  have "lfn_name ?a ! 0 \<noteq> CHR 0x00" using h(5) [of 0] ne nz by (cases name) (auto simp: VFS_MAX_NAME_def)
  then have c: "fat_lfn_complete ?a"
    using h n un by (auto simp: fat_lfn_complete_def word_unat_eq_iff word_le_nat_alt mask_eq_exp_minus_1 push_bit_eq_mult)
  have t: "take (length name) (lfn_name ?a) = name"
    by (rule nth_equalityI) (use h(4,5) len in auto)
  have "lfn_name ?a = name @ drop (length name) (lfn_name ?a)"
    using append_take_drop_id [of "length name" "lfn_name ?a"] t by simp
  moreover obtain r where "drop (length name) (lfn_name ?a) = CHR 0x00 # r"
    using h(4) h(5) [OF len] len by (metis Cons_nth_drop_Suc less_irrefl)
  ultimately have "lfn_name ?a = name @ CHR 0x00 # r" by simp
  then have "before_nul (take (VFS_MAX_NAME - 1) (lfn_name ?a)) = name"
    using len nz by (auto simp: before_nul_def takeWhile_append VFS_MAX_NAME_def take_Cons' takeWhile_eq_all_conv)
  with c show ?thesis by (simp add: fat_entry_to_name_def)
qed

text \<open>
  C30. Round trip of long names: writing a name of 1 to 63 printable characters into directory
  entries, last part first, with the order marks of the code, and reading the entries back from
  their bytes in that order gives the same name, whatever the accumulator held before, and leaves the
  accumulator empty for the next file.
\<close>

theorem lfn_name_roundtrip:
  assumes "name \<noteq> []" "length name < VFS_MAX_NAME" "\<forall>c\<in>set name. printable c"
  shows "fat_entry_to_name e (fold push_raw (map lfn_entry_bytes (lfn_entries name sfn)) a) = (Some name, fat_lfn_reset)"
  using assms by (rule lfn_roundtrip_spec)

theorem lfn_name_roundtrip_witness:
  "fst (fat_entry_to_name no_dir_entry (fold push_raw (map lfn_entry_bytes
     (lfn_entries ''Annual Report 2024.txt'' (replicate 11 0x20))) fat_lfn_reset)) = Some ''Annual Report 2024.txt''"
  using lfn_name_roundtrip [of "''Annual Report 2024.txt''"] by (simp add: printable_def VFS_MAX_NAME_def)

end
