(* ===== verification/Fat_Dir.thy ===== *)
theory Fat_Dir
  imports Fat_Table Fat_Names
begin

text \<open>
  Directories of \<open>fs/fat.c\<close>: walking the entries of a directory, resolving paths, finding an
  entry and its place, and finding room for new ones.

  A directory is the fixed root area of FAT12 and FAT16, cluster 0, or a chain of clusters. The
  walks over a chain are bounded by a guard of \<open>cluster_count + 2\<close> rounds, here the natural
  number \<open>guard\<close>. A visitor with its \<open>user\<close> pointer is a function that takes and returns the
  value pointed to.
\<close>

definition sec_entries :: "u8 list \<Rightarrow> u8 list list" where
  "sec_entries sec = map (\<lambda>i. take 32 (drop (32 * i) sec)) [0..<ATA_SECTOR_SIZE div 32]"

type_synonym 'a visitor = "'a \<Rightarrow> fat_dir_entry \<Rightarrow> string \<Rightarrow> int \<times> 'a"

section \<open>Walking a directory\<close>

text \<open>The entries of one sector: \<open>Inl\<close> when the walk ends there.\<close>

fun iterate_entries ::
  "'a visitor \<Rightarrow> fat_lfn_accum \<Rightarrow> 'a \<Rightarrow> u8 list list \<Rightarrow> (int \<times> 'a) + (fat_lfn_accum \<times> 'a)" where
  "iterate_entries visit lfn user [] = Inr (lfn, user)"
| "iterate_entries visit lfn user (raw # rest) =
     (let e = dir_entry_of raw in
      if de_name e ! 0 = 0x00 then Inl (0, user)
      else if de_name e ! 0 = 0xE5 then iterate_entries visit fat_lfn_reset user rest
      else if de_attr e = FAT_ATTR_LFN
        then iterate_entries visit (snd (fat_lfn_push lfn (lfn_entry_of raw))) user rest
      else if de_attr e AND FAT_ATTR_VOLUME_ID \<noteq> 0 then iterate_entries visit fat_lfn_reset user rest
      else case fat_entry_to_name e lfn of
        (None, lfn1) \<Rightarrow> iterate_entries visit lfn1 user rest
      | (Some name, lfn1) \<Rightarrow>
          (case visit user e name of
             (rc, user1) \<Rightarrow> if rc \<noteq> 0 then Inl (rc, user1) else iterate_entries visit lfn1 user1 rest))"

fun iterate_sectors ::
  "fat_fs \<Rightarrow> storage \<Rightarrow> 'a visitor \<Rightarrow> u32 \<Rightarrow> nat \<Rightarrow> fat_lfn_accum \<Rightarrow> 'a \<Rightarrow>
   (int \<times> 'a) + (fat_lfn_accum \<times> 'a)" where
  "iterate_sectors fs st visit sector 0 lfn user = Inr (lfn, user)"
| "iterate_sectors fs st visit sector (Suc n) lfn user =
     (case fat_read_sector fs st sector of
        Inl _ \<Rightarrow> Inl (-1, user)
      | Inr sec \<Rightarrow>
          (case iterate_entries visit lfn user (sec_entries sec) of
             Inl r \<Rightarrow> Inl r
           | Inr (lfn1, user1) \<Rightarrow> iterate_sectors fs st visit (sector + 1) n lfn1 user1))"

text \<open>
  After the loop over the clusters the code fails if \<open>guard\<close> is 0. When the guard stops the
  loop it has wrapped below 0, so only a chain that ends in the very last round fails.
\<close>

fun iterate_clusters ::
  "fat_fs \<Rightarrow> storage \<Rightarrow> 'a visitor \<Rightarrow> nat \<Rightarrow> u32 \<Rightarrow> fat_lfn_accum \<Rightarrow> 'a \<Rightarrow> int \<times> 'a" where
  "iterate_clusters fs st visit 0 cluster lfn user = (0, user)"
| "iterate_clusters fs st visit (Suc guard) cluster lfn user =
     (if cluster < 2 then (0, user)
      else if cluster > cluster_count fs + 1 then (-1, user)
      else case iterate_sectors fs st visit (fat_cluster_to_sector fs cluster)
                  (unat (sectors_per_cluster fs)) lfn user of
             Inl r \<Rightarrow> r
           | Inr (lfn1, user1) \<Rightarrow>
               (case fat_read_fat_entry fs st cluster of
                  None \<Rightarrow> (-1, user1)
                | Some nxt \<Rightarrow>
                    if fat_is_eoc fs nxt then (if guard = 0 then -1 else 0, user1)
                    else if nxt = cluster then (-1, user1)
                    else iterate_clusters fs st visit guard nxt lfn1 user1))"

definition fat_iterate_dir :: "fat_fs \<Rightarrow> storage \<Rightarrow> u32 \<Rightarrow> 'a visitor \<Rightarrow> 'a \<Rightarrow> int \<times> 'a" where
  "fat_iterate_dir fs st dir_cluster visit user =
     (if ftype fs \<noteq> FAT_TYPE_32 \<and> dir_cluster = 0 then
        (case iterate_sectors fs st visit (first_root_dir_sector fs) (unat (root_dir_sectors fs))
                fat_lfn_reset user of
           Inl r \<Rightarrow> r
         | Inr (_, user1) \<Rightarrow> (0, user1))
      else
        let cluster = (if ftype fs = FAT_TYPE_32 \<and> dir_cluster = 0 then root_cluster fs else dir_cluster)
        in iterate_clusters fs st visit (unat (cluster_count fs + 2)) cluster fat_lfn_reset user)"

section \<open>Paths\<close>

record fat_find_ctx =
  ff_name :: string
  ff_entry :: fat_dir_entry
  ff_found :: bool

definition fat_find_visitor :: "fat_find_ctx visitor" where
  "fat_find_visitor ctx e name =
     (if fat_name_equals name (ff_name ctx) then (1, ctx\<lparr>ff_entry := e, ff_found := True\<rparr>) else (0, ctx))"

fun skip_slash :: "string \<Rightarrow> string" where
  "skip_slash [] = []"
| "skip_slash (c # s) = (if c = CHR ''/'' then skip_slash s else c # s)"

text \<open>
  The next token, at most 63 characters of it, and the text after it. A longer component is
  not an error: what is left of it is the next token.
\<close>

definition fat_next_token :: "string \<Rightarrow> string \<times> string" where
  "fat_next_token p =
     (let tok = take (VFS_MAX_NAME - 1) (takeWhile (\<lambda>c. c \<noteq> CHR ''/'') p)
      in (tok, skip_slash (drop (length tok) p)))"

lemma length_skip_slash: "length (skip_slash s) \<le> length s"
  by (induction s) auto

lemma next_token_shorter:
  assumes "p \<noteq> []" "hd p \<noteq> CHR ''/''"
  shows "length (snd (fat_next_token p)) < length p"
proof -
  let ?t = "take (VFS_MAX_NAME - 1) (takeWhile (\<lambda>c. c \<noteq> CHR ''/'') p)"
  from assms have "0 < length ?t" by (cases p) (auto simp: VFS_MAX_NAME_def)
  moreover have "length ?t \<le> length p" using length_takeWhile_le [of _ p] by (simp add: min.coboundedI1)
  ultimately have "length (drop (length ?t) p) < length p" unfolding length_drop by linarith
  with length_skip_slash [of "drop (length ?t) p"] show ?thesis by (simp add: fat_next_token_def Let_def)
qed

lemma skip_slash_hd: "skip_slash s \<noteq> [] \<Longrightarrow> hd (skip_slash s) \<noteq> CHR ''/''"
  by (induction s) auto

text \<open>The loop from the directory \<open>dir_cluster\<close> on: the entry and the cluster of its directory.\<close>

function fat_resolve_loop :: "fat_fs \<Rightarrow> storage \<Rightarrow> u32 \<Rightarrow> string \<Rightarrow> int + (fat_dir_entry \<times> u32)" where
  "fat_resolve_loop fs st dir_cluster p =
     (if p = [] \<or> hd p = CHR ''/'' then Inl (-4)
      else case fat_next_token p of
        (token, rest) \<Rightarrow>
          (case fat_iterate_dir fs st dir_cluster fat_find_visitor
                  \<lparr>ff_name = token, ff_entry = no_dir_entry, ff_found = False\<rparr> of
             (rc, ctx) \<Rightarrow>
               if rc < 0 \<or> \<not> ff_found ctx then Inl (-2)
               else if rest = [] then Inr (ff_entry ctx, dir_cluster)
               else if de_attr (ff_entry ctx) AND FAT_ATTR_DIR = 0 then Inl (-3)
               else fat_resolve_loop fs st (fat_entry_cluster (ff_entry ctx)) rest))"
  by pat_completeness auto
termination
  by (relation "measure (\<lambda>(fs, st, d, p). length p)") (use next_token_shorter in \<open>auto, metis snd_conv\<close>)

declare fat_resolve_loop.simps [simp del]

definition fat_resolve_path :: "fat_fs \<Rightarrow> storage \<Rightarrow> string \<Rightarrow> int + (fat_dir_entry \<times> u32)" where
  "fat_resolve_path fs st path =
     (if path = [] \<or> hd path \<noteq> CHR ''/'' then Inl (-1)
      else if tl path = [] then Inr (no_dir_entry\<lparr>de_attr := FAT_ATTR_DIR\<rparr>, 0)
      else fat_resolve_loop fs st 0 (skip_slash path))"

text \<open>Parent directory and last component, where both fit their buffers.\<close>

definition fat_split_parent_leaf :: "string \<Rightarrow> nat \<Rightarrow> nat \<Rightarrow> (string \<times> string) option" where
  "fat_split_parent_leaf path parent_cap leaf_cap =
     (if path = [] \<or> hd path \<noteq> CHR ''/'' then None
      else case split_last (CHR ''/'') path of
        None \<Rightarrow> None
      | Some (parent, leaf) \<Rightarrow>
          if leaf = [] then None
          else if length leaf + 1 > leaf_cap then None
          else if parent = [] then (if parent_cap < 2 then None else Some (''/'', leaf))
          else if length parent + 1 > parent_cap then None
          else Some (parent, leaf))"

definition fat_resolve_parent_dir :: "fat_fs \<Rightarrow> storage \<Rightarrow> string \<Rightarrow> u32 option" where
  "fat_resolve_parent_dir fs st parent_path =
     (if parent_path = ''/'' then Some 0
      else case fat_resolve_path fs st parent_path of
        Inl _ \<Rightarrow> None
      | Inr (e, _) \<Rightarrow> if de_attr e AND FAT_ATTR_DIR = 0 then None else Some (fat_entry_cluster e))"

section \<open>The place of an entry\<close>

record fat_dir_loc =
  loc_sector :: u32
  loc_offset :: u32

text \<open>
  \<open>fat_dir_find_entry\<close> repeats the walk with the comparison in place of the visitor and with the
  place of the entry. \<open>Inl\<close> is the end of the walk: a status or the entry.
\<close>

fun find_in_entries ::
  "string \<Rightarrow> u32 \<Rightarrow> u32 \<Rightarrow> fat_lfn_accum \<Rightarrow> u8 list list \<Rightarrow>
   (int + (fat_dir_entry \<times> fat_dir_loc)) + fat_lfn_accum" where
  "find_in_entries name sector off lfn [] = Inr lfn"
| "find_in_entries name sector off lfn (raw # rest) =
     (let e = dir_entry_of raw in
      if de_name e ! 0 = 0x00 then Inl (Inl (-2))
      else if de_name e ! 0 = 0xE5 then find_in_entries name sector (off + 32) fat_lfn_reset rest
      else if de_attr e = FAT_ATTR_LFN
        then find_in_entries name sector (off + 32) (snd (fat_lfn_push lfn (lfn_entry_of raw))) rest
      else if de_attr e AND FAT_ATTR_VOLUME_ID \<noteq> 0
        then find_in_entries name sector (off + 32) fat_lfn_reset rest
      else case fat_entry_to_name e lfn of
        (None, lfn1) \<Rightarrow> find_in_entries name sector (off + 32) lfn1 rest
      | (Some n, lfn1) \<Rightarrow>
          if fat_name_equals n name then Inl (Inr (e, \<lparr>loc_sector = sector, loc_offset = off\<rparr>))
          else find_in_entries name sector (off + 32) lfn1 rest)"

fun find_in_sectors ::
  "fat_fs \<Rightarrow> storage \<Rightarrow> string \<Rightarrow> u32 \<Rightarrow> nat \<Rightarrow> fat_lfn_accum \<Rightarrow>
   (int + (fat_dir_entry \<times> fat_dir_loc)) + fat_lfn_accum" where
  "find_in_sectors fs st name sector 0 lfn = Inr lfn"
| "find_in_sectors fs st name sector (Suc n) lfn =
     (case fat_read_sector fs st sector of
        Inl _ \<Rightarrow> Inl (Inl (-1))
      | Inr sec \<Rightarrow>
          (case find_in_entries name sector 0 lfn (sec_entries sec) of
             Inl r \<Rightarrow> Inl r
           | Inr lfn1 \<Rightarrow> find_in_sectors fs st name (sector + 1) n lfn1))"

fun find_in_clusters ::
  "fat_fs \<Rightarrow> storage \<Rightarrow> string \<Rightarrow> nat \<Rightarrow> u32 \<Rightarrow> fat_lfn_accum \<Rightarrow> int + (fat_dir_entry \<times> fat_dir_loc)" where
  "find_in_clusters fs st name 0 cluster lfn = Inl (-2)"
| "find_in_clusters fs st name (Suc guard) cluster lfn =
     (if cluster < 2 then Inl (-2)
      else if cluster > cluster_count fs + 1 then Inl (-1)
      else case find_in_sectors fs st name (fat_cluster_to_sector fs cluster)
                  (unat (sectors_per_cluster fs)) lfn of
             Inl r \<Rightarrow> r
           | Inr lfn1 \<Rightarrow>
               (case fat_read_fat_entry fs st cluster of
                  None \<Rightarrow> Inl (-1)
                | Some nxt \<Rightarrow>
                    if fat_is_eoc fs nxt then Inl (if guard = 0 then -1 else -2)
                    else if nxt = cluster then Inl (-1)
                    else find_in_clusters fs st name guard nxt lfn1))"

definition fat_dir_find_entry :: "fat_fs \<Rightarrow> storage \<Rightarrow> u32 \<Rightarrow> string \<Rightarrow> int + (fat_dir_entry \<times> fat_dir_loc)" where
  "fat_dir_find_entry fs st dir_cluster name =
     (if ftype fs \<noteq> FAT_TYPE_32 \<and> dir_cluster = 0 then
        (case find_in_sectors fs st name (first_root_dir_sector fs) (unat (root_dir_sectors fs)) fat_lfn_reset of
           Inl r \<Rightarrow> r
         | Inr _ \<Rightarrow> Inl (-2))
      else
        let cluster = (if ftype fs = FAT_TYPE_32 \<and> dir_cluster = 0 then root_cluster fs else dir_cluster)
        in find_in_clusters fs st name (unat (cluster_count fs + 2)) cluster fat_lfn_reset)"

section \<open>Room for entries\<close>

definition fat_write_entry_at :: "fat_fs \<Rightarrow> storage \<Rightarrow> fat_dir_loc \<Rightarrow> u8 list \<Rightarrow> int \<times> storage" where
  "fat_write_entry_at fs st loc raw =
     (case fat_read_sector fs st (loc_sector loc) of
        Inl _ \<Rightarrow> (-1, st)
      | Inr sec \<Rightarrow>
          let off = unat (loc_offset loc); sec = take off sec @ raw @ drop (off + 32) sec
          in (case fat_write_sector fs st (loc_sector loc) sec of
                (rc, st1) \<Rightarrow> if rc \<noteq> 0 then (-1, st1) else (0, st1)))"

fun fat_write_entries_at :: "fat_fs \<Rightarrow> storage \<Rightarrow> fat_dir_loc \<Rightarrow> u8 list list \<Rightarrow> int \<times> storage" where
  "fat_write_entries_at fs st cur [] = (0, st)"
| "fat_write_entries_at fs st cur (p # ps) =
     (case fat_write_entry_at fs st cur p of
        (rc, st1) \<Rightarrow>
          if rc \<noteq> 0 then (-1, st1)
          else
            let off = loc_offset cur + 32;
                cur = (if off \<ge> of_nat ATA_SECTOR_SIZE then \<lparr>loc_sector = loc_sector cur + 1, loc_offset = 0\<rparr>
                       else \<lparr>loc_sector = loc_sector cur, loc_offset = off\<rparr>)
            in fat_write_entries_at fs st1 cur ps)"

text \<open>The first run of \<open>count\<close> free entries in a sector, from the offset \<open>off\<close> on.\<close>

fun free_run :: "nat \<Rightarrow> nat \<Rightarrow> nat \<Rightarrow> nat \<Rightarrow> u8 list list \<Rightarrow> nat option" where
  "free_run count off run run_start [] = None"
| "free_run count off run run_start (raw # rest) =
     (if raw ! 0 = 0x00 \<or> raw ! 0 = 0xE5 then
        let run_start = (if run = 0 then off else run_start); run = run + 1 in
        if run \<ge> count then Some run_start else free_run count (off + 32) run run_start rest
      else free_run count (off + 32) 0 run_start rest)"

fun slots_in_sectors ::
  "fat_fs \<Rightarrow> storage \<Rightarrow> nat \<Rightarrow> u32 \<Rightarrow> nat \<Rightarrow> (int + fat_dir_loc) option" where
  "slots_in_sectors fs st count sector 0 = None"
| "slots_in_sectors fs st count sector (Suc n) =
     (case fat_read_sector fs st sector of
        Inl _ \<Rightarrow> Some (Inl (-1))
      | Inr sec \<Rightarrow>
          (case free_run count 0 0 0 (sec_entries sec) of
             Some off \<Rightarrow> Some (Inr \<lparr>loc_sector = sector, loc_offset = of_nat off\<rparr>)
           | None \<Rightarrow> slots_in_sectors fs st count (sector + 1) n))"

text \<open>The chain: a result, or the last cluster that was looked at.\<close>

fun slots_in_clusters ::
  "fat_fs \<Rightarrow> storage \<Rightarrow> nat \<Rightarrow> nat \<Rightarrow> u32 \<Rightarrow> u32 \<Rightarrow> (int + fat_dir_loc) + u32" where
  "slots_in_clusters fs st count 0 cluster last_cluster = Inr last_cluster"
| "slots_in_clusters fs st count (Suc guard) cluster last_cluster =
     (if cluster < 2 then Inr last_cluster
      else if cluster > cluster_count fs + 1 then Inl (Inl (-1))
      else case slots_in_sectors fs st count (fat_cluster_to_sector fs cluster)
                  (unat (sectors_per_cluster fs)) of
             Some r \<Rightarrow> Inl r
           | None \<Rightarrow>
               (case fat_read_fat_entry fs st cluster of
                  None \<Rightarrow> Inl (Inl (-1))
                | Some nxt \<Rightarrow>
                    if fat_is_eoc fs nxt then (if guard = 0 then Inl (Inl (-1)) else Inr cluster)
                    else if nxt = cluster then Inl (Inl (-1))
                    else slots_in_clusters fs st count guard nxt cluster))"

definition fat_dir_find_free_slots ::
  "fat_fs \<Rightarrow> storage \<Rightarrow> u32 \<Rightarrow> nat \<Rightarrow> (int + fat_dir_loc) \<times> fat_fs \<times> storage" where
  "fat_dir_find_free_slots fs st dir_cluster count =
     (if count = 0 then (Inl (-1), fs, st)
      else if count > ATA_SECTOR_SIZE div 32 then (Inl (-1), fs, st)
      else if ftype fs \<noteq> FAT_TYPE_32 \<and> dir_cluster = 0 then
        (case slots_in_sectors fs st count (first_root_dir_sector fs) (unat (root_dir_sectors fs)) of
           Some r \<Rightarrow> (r, fs, st)
         | None \<Rightarrow> (Inl (-1), fs, st))
      else
        let cluster = (if ftype fs = FAT_TYPE_32 \<and> dir_cluster = 0 then root_cluster fs else dir_cluster)
        in (case slots_in_clusters fs st count (unat (cluster_count fs + 2)) cluster cluster of
              Inl r \<Rightarrow> (r, fs, st)
            | Inr last_cluster \<Rightarrow>
                (case fat_alloc_cluster fs st True of
                   (None, fs1, st1) \<Rightarrow> (Inl (-1), fs1, st1)
                 | (Some new_cluster, fs1, st1) \<Rightarrow>
                     (case fat_write_fat_entry fs1 st1 last_cluster new_cluster of
                        (rc, st2) \<Rightarrow>
                          if rc \<noteq> 0 then (Inl (-1), fs1, st2)
                          else (case fat_write_fat_entry fs1 st2 new_cluster (fat_eoc_value fs1) of
                            (rc, st3) \<Rightarrow>
                              if rc \<noteq> 0 then (Inl (-1), fs1, st3)
                              else (Inr \<lparr>loc_sector = fat_cluster_to_sector fs1 new_cluster, loc_offset = 0\<rparr>,
                                    fs1, st3))))))"

end
