(* ===== verification/Fat_Files.thy ===== *)
theory Fat_Files
  imports Fat_Dir
begin

text \<open>
  Files of \<open>fs/fat.c\<close>: reading, allocating and writing contents, creating entries, and the
  operations that the file system offers the virtual file system.

  The operations change the volume record, whose search hint moves, and the disks. A call
  that releases a chain may not return, so they are options. The results of the \<open>kmalloc\<close>
  calls for the two buffers of the write path are the parameters \<open>ka\<close> and \<open>kb\<close>:
  whether the list of clusters and the cluster buffer could be allocated.
\<close>

section \<open>Reading\<close>

text \<open>The bytes copied to an output buffer.\<close>

definition put_bytes :: "u8 list option \<Rightarrow> u8 list \<Rightarrow> u8 list option" where
  "put_bytes out bs = map_option (\<lambda>b. bs @ drop (length bs) b) out"

text \<open>The sectors of a cluster: whether all could be read, and the bytes copied.\<close>

fun read_sectors :: "fat_fs \<Rightarrow> storage \<Rightarrow> u32 \<Rightarrow> nat \<Rightarrow> nat \<Rightarrow> bool \<times> u8 list" where
  "read_sectors fs st sector 0 remaining = (True, [])"
| "read_sectors fs st sector (Suc n) remaining =
     (if remaining = 0 then (True, [])
      else case fat_read_sector fs st sector of
        Inl _ \<Rightarrow> (False, [])
      | Inr sec \<Rightarrow>
          let t = (if remaining < ATA_SECTOR_SIZE then remaining else ATA_SECTOR_SIZE)
          in (case read_sectors fs st (sector + 1) n (remaining - t) of (ok, bs) \<Rightarrow> (ok, take t sec @ bs)))"

fun read_chain :: "fat_fs \<Rightarrow> storage \<Rightarrow> nat \<Rightarrow> u32 \<Rightarrow> nat \<Rightarrow> int \<times> u8 list" where
  "read_chain fs st 0 cluster remaining = (if remaining = 0 then 0 else -4, [])"
| "read_chain fs st (Suc guard) cluster remaining =
     (if remaining = 0 then (0, [])
      else if cluster < 2 then (-4, [])
      else if cluster > cluster_count fs + 1 then (-4, [])
      else case read_sectors fs st (fat_cluster_to_sector fs cluster) (unat (sectors_per_cluster fs)) remaining of
        (ok, bs) \<Rightarrow>
          if \<not> ok then (-2, bs)
          else if remaining - length bs = 0 then (0, bs)
          else (case fat_read_fat_entry fs st cluster of
                  None \<Rightarrow> (-3, bs)
                | Some nxt \<Rightarrow>
                    if fat_is_eoc fs nxt then (-4, bs)
                    else if nxt = cluster then (-3, bs)
                    else (case read_chain fs st guard nxt (remaining - length bs) of
                            (rc, bs2) \<Rightarrow> (rc, bs @ bs2))))"

text \<open>Status, length reported, and the output buffer.\<close>

definition fat_read_file_data ::
  "fat_fs \<Rightarrow> storage \<Rightarrow> fat_dir_entry \<Rightarrow> u8 list option \<Rightarrow> nat \<Rightarrow> int \<times> nat \<times> u8 list option" where
  "fat_read_file_data fs st entry out out_cap =
     (let file_size = unat (de_size entry) in
      if out = None then (0, file_size, out)
      else if out_cap < file_size then (-1, file_size, out)
      else if fat_entry_cluster entry < 2 \<and> file_size = 0 then (0, file_size, out)
      else case read_chain fs st (unat (cluster_count fs + 2)) (fat_entry_cluster entry) file_size of
        (rc, bs) \<Rightarrow> (rc, file_size, put_bytes out bs))"

text \<open>The clusters before the offset. When the guard stops this loop it has wrapped around.\<close>

fun skip_clusters :: "fat_fs \<Rightarrow> storage \<Rightarrow> nat \<Rightarrow> nat \<Rightarrow> nat \<Rightarrow> u32 \<Rightarrow> int + (nat \<times> nat \<times> u32)" where
  "skip_clusters fs st bytes_per_cluster 0 skip cluster =
     Inr (if skip \<ge> bytes_per_cluster \<and> cluster \<ge> 2 then 2 ^ 32 - 1 else 0, skip, cluster)"
| "skip_clusters fs st bytes_per_cluster (Suc guard) skip cluster =
     (if skip < bytes_per_cluster \<or> cluster < 2 then Inr (Suc guard, skip, cluster)
      else case fat_read_fat_entry fs st cluster of
        None \<Rightarrow> Inl (-3)
      | Some nxt \<Rightarrow>
          if fat_is_eoc fs nxt then Inl (-4)
          else if nxt = cluster then Inl (-3)
          else skip_clusters fs st bytes_per_cluster guard (skip - bytes_per_cluster) nxt)"

fun range_sectors :: "fat_fs \<Rightarrow> storage \<Rightarrow> u32 \<Rightarrow> nat \<Rightarrow> nat \<Rightarrow> nat \<Rightarrow> bool \<times> u8 list \<times> nat" where
  "range_sectors fs st sector 0 remaining skip = (True, [], skip)"
| "range_sectors fs st sector (Suc n) remaining skip =
     (if remaining = 0 then (True, [], skip)
      else case fat_read_sector fs st sector of
        Inl _ \<Rightarrow> (False, [], skip)
      | Inr sec \<Rightarrow>
          if skip \<ge> ATA_SECTOR_SIZE then range_sectors fs st (sector + 1) n remaining (skip - ATA_SECTOR_SIZE)
          else
            let avail = ATA_SECTOR_SIZE - skip; t = (if remaining < avail then remaining else avail)
            in (case range_sectors fs st (sector + 1) n (remaining - t) 0 of
                  (ok, bs, sk) \<Rightarrow> (ok, take t (drop skip sec) @ bs, sk)))"

text \<open>An early error, or \<open>None\<close> at the end of the loop, and the bytes copied.\<close>

fun range_chain :: "fat_fs \<Rightarrow> storage \<Rightarrow> nat \<Rightarrow> u32 \<Rightarrow> nat \<Rightarrow> nat \<Rightarrow> int option \<times> u8 list" where
  "range_chain fs st 0 cluster remaining skip = (None, [])"
| "range_chain fs st (Suc guard) cluster remaining skip =
     (if remaining = 0 \<or> cluster < 2 then (None, [])
      else if cluster > cluster_count fs + 1 then (Some (-4), [])
      else case range_sectors fs st (fat_cluster_to_sector fs cluster) (unat (sectors_per_cluster fs)) remaining skip of
        (ok, bs, skip1) \<Rightarrow>
          if \<not> ok then (Some (-2), bs)
          else if remaining - length bs = 0 then (None, bs)
          else (case fat_read_fat_entry fs st cluster of
                  None \<Rightarrow> (Some (-3), bs)
                | Some nxt \<Rightarrow>
                    if fat_is_eoc fs nxt then (None, bs)
                    else if nxt = cluster then (Some (-3), bs)
                    else (case range_chain fs st guard nxt (remaining - length bs) skip1 of
                            (rc, bs2) \<Rightarrow> (rc, bs @ bs2))))"

text \<open>Status, bytes reported as read, and the output buffer.\<close>

definition fat_read_file_range_data ::
  "fat_fs \<Rightarrow> storage \<Rightarrow> fat_dir_entry \<Rightarrow> nat \<Rightarrow> u8 list option \<Rightarrow> nat \<Rightarrow> int \<times> nat option \<times> u8 list option" where
  "fat_read_file_range_data fs st entry offset out len =
     (if out = None \<and> len > 0 then (-1, None, out)
      else let file_size = unat (de_size entry) in
      if offset \<ge> file_size \<or> len = 0 then (0, Some 0, out)
      else
        let len = (if (offset + len) mod 2 ^ 64 > file_size then file_size - offset else len);
            cluster = fat_entry_cluster entry;
            bytes_per_cluster = unat (sectors_per_cluster fs) * ATA_SECTOR_SIZE in
        case skip_clusters fs st bytes_per_cluster (unat (cluster_count fs + 2)) offset cluster of
          Inl rc \<Rightarrow> (rc, Some 0, out)
        | Inr (guard, skip, cluster) \<Rightarrow>
            (case range_chain fs st guard cluster len skip of
               (Some rc, bs) \<Rightarrow> (rc, Some 0, put_bytes out bs)
             | (None, bs) \<Rightarrow> (if len - length bs = 0 then 0 else -4, Some (length bs), put_bytes out bs)))"

text \<open>Status, \<open>out_read\<close>, \<open>out_file_len\<close> and the output buffer.\<close>

definition fat_fs_read_file_range ::
  "fat_fs \<Rightarrow> storage \<Rightarrow> string \<Rightarrow> nat \<Rightarrow> u8 list option \<Rightarrow> nat \<Rightarrow> int \<times> nat option \<times> nat option \<times> u8 list option" where
  "fat_fs_read_file_range fs st path offset out len =
     (if path = [] \<or> hd path \<noteq> CHR ''/'' then (-1, None, None, out)
      else case fat_resolve_path fs st path of
        Inl _ \<Rightarrow> (-1, None, None, out)
      | Inr (e, _) \<Rightarrow>
          if de_attr e AND FAT_ATTR_DIR \<noteq> 0 then (-2, None, None, out)
          else if out = None \<or> len = 0 then (0, None, Some (unat (de_size e)), out)
          else (case fat_read_file_range_data fs st e offset out len of
                  (rc, rd, out1) \<Rightarrow> (rc, rd, Some (unat (de_size e)), out1)))"

section \<open>Writing contents\<close>

type_synonym 'r fat_result = "('r \<times> fat_fs \<times> storage) option"

text \<open>The clean-up of a failure: the chain is released and its result ignored.\<close>

definition fail_free :: "fat_fs \<Rightarrow> storage \<Rightarrow> u32 \<Rightarrow> (int + 'r) fat_result" where
  "fail_free fs st first =
     (case fat_free_chain fs st first of None \<Rightarrow> None | Some (_, st1) \<Rightarrow> Some (Inl (-1), fs, st1))"

text \<open>The clusters allocated so far are \<open>allocated\<close>; \<open>n\<close> are still needed.\<close>

fun payload_alloc :: "fat_fs \<Rightarrow> storage \<Rightarrow> u32 list \<Rightarrow> nat \<Rightarrow> (int + u32 list) fat_result" where
  "payload_alloc fs st allocated 0 = Some (Inr allocated, fs, st)"
| "payload_alloc fs st allocated (Suc n) =
     (let first = (if allocated = [] then 0 else hd allocated);
          prev = (if allocated = [] then 0 else last allocated)
      in case fat_alloc_cluster fs st False of
           (None, fs1, st1) \<Rightarrow> if first \<ge> 2 then fail_free fs1 st1 first else Some (Inl (-1), fs1, st1)
         | (Some c, fs1, st1) \<Rightarrow>
             let first = (if allocated = [] then c else first) in
             if prev \<ge> 2 then
               (case fat_write_fat_entry fs1 st1 prev c of
                  (rc, st2) \<Rightarrow> if rc \<noteq> 0 then fail_free fs1 st2 first
                               else payload_alloc fs1 st2 (allocated @ [c]) n)
             else payload_alloc fs1 st1 (allocated @ [c]) n)"

text \<open>A cluster written sector by sector: whether all could be written.\<close>

fun write_by_sector :: "fat_fs \<Rightarrow> storage \<Rightarrow> u32 \<Rightarrow> nat \<Rightarrow> u8 list \<Rightarrow> bool \<times> storage" where
  "write_by_sector fs st sector 0 src = (True, st)"
| "write_by_sector fs st sector (Suc n) src =
     (let t = (if length src < ATA_SECTOR_SIZE then length src else ATA_SECTOR_SIZE);
          sec = take t src @ replicate (ATA_SECTOR_SIZE - t) 0
      in case fat_write_sector fs st sector sec of
           (rc, st1) \<Rightarrow> if rc \<noteq> 0 then (False, st1) else write_by_sector fs st1 (sector + 1) n (drop t src))"

text \<open>The clusters still to be filled and the bytes left.\<close>

fun payload_write :: "bool \<Rightarrow> fat_fs \<Rightarrow> storage \<Rightarrow> u32 list \<Rightarrow> u8 list \<Rightarrow> bool \<times> storage" where
  "payload_write kb fs st [] src = (True, st)"
| "payload_write kb fs st (c # cs) src =
     (let cluster_bytes = unat (sectors_per_cluster fs) * ATA_SECTOR_SIZE;
          first_sec = fat_cluster_to_sector fs c
      in if length src \<ge> cluster_bytes then
           (case fat_write_sectors fs st first_sec (sectors_per_cluster fs) (take cluster_bytes src) of
              (rc, st1) \<Rightarrow> if rc \<noteq> 0 then (False, st1) else payload_write kb fs st1 cs (drop cluster_bytes src))
         else if kb then
           (case fat_write_sectors fs st first_sec (sectors_per_cluster fs)
                   (src @ replicate (cluster_bytes - length src) 0) of
              (rc, st1) \<Rightarrow> if rc \<noteq> 0 then (False, st1) else payload_write kb fs st1 cs [])
         else
           (case write_by_sector fs st first_sec (unat (sectors_per_cluster fs)) src of
              (ok, st1) \<Rightarrow> if \<not> ok then (False, st1) else payload_write kb fs st1 cs []))"

text \<open>How many clusters \<open>len\<close> bytes take, in 32 bits.\<close>

definition clusters_needed :: "fat_fs \<Rightarrow> nat \<Rightarrow> nat" where
  "clusters_needed fs len =
     (let cluster_size = unat (sectors_per_cluster fs) * ATA_SECTOR_SIZE
      in unat (of_nat ((len + cluster_size - 1) div cluster_size) :: u32))"

definition fat_write_file_payload ::
  "bool \<Rightarrow> bool \<Rightarrow> fat_fs \<Rightarrow> storage \<Rightarrow> u8 list \<Rightarrow> (int + u32) fat_result" where
  "fat_write_file_payload ka kb fs st data =
     (if data = [] then Some (Inr 0, fs, st)
      else if \<not> ka then Some (Inl (-1), fs, st)
      else case payload_alloc fs st [] (clusters_needed fs (length data)) of
        None \<Rightarrow> None
      | Some (Inl rc, fs1, st1) \<Rightarrow> Some (Inl rc, fs1, st1)
      | Some (Inr allocated, fs1, st1) \<Rightarrow>
          let first = (if allocated = [] then 0 else hd allocated);
              prev = (if allocated = [] then 0 else last allocated)
          in (case (if prev \<ge> 2 then fat_write_fat_entry fs1 st1 prev (fat_eoc_value fs1) else (0, st1)) of
                (rc, st2) \<Rightarrow>
                  if rc \<noteq> 0 then fail_free fs1 st2 first
                  else (case payload_write kb fs1 st2 allocated data of
                          (ok, st3) \<Rightarrow> if ok then Some (Inr first, fs1, st3) else fail_free fs1 st3 first)))"

text \<open>
  The contents come from a reader: for an offset and a length its bytes, or \<open>None\<close> for an
  error. It may read the disks, which it does not change.
\<close>

type_synonym fat_reader = "storage \<Rightarrow> nat \<Rightarrow> nat \<Rightarrow> u8 list option"

fun reader_by_sector ::
  "fat_reader \<Rightarrow> fat_fs \<Rightarrow> storage \<Rightarrow> u32 \<Rightarrow> nat \<Rightarrow> nat \<Rightarrow> nat \<Rightarrow> (nat \<times> nat) option \<times> storage" where
  "reader_by_sector reader fs st sector 0 file_off remaining = (Some (file_off, remaining), st)"
| "reader_by_sector reader fs st sector (Suc n) file_off remaining =
     (let t = (if remaining < ATA_SECTOR_SIZE then remaining else ATA_SECTOR_SIZE)
      in case (if t > 0 then reader st file_off t else Some []) of
           None \<Rightarrow> (None, st)
         | Some bs \<Rightarrow>
             (case fat_write_sector fs st sector (bs @ replicate (ATA_SECTOR_SIZE - t) 0) of
                (rc, st1) \<Rightarrow>
                  if rc \<noteq> 0 then (None, st1)
                  else reader_by_sector reader fs st1 (sector + 1) n (file_off + t) (remaining - t)))"

fun reader_write ::
  "fat_reader \<Rightarrow> bool \<Rightarrow> fat_fs \<Rightarrow> storage \<Rightarrow> u32 list \<Rightarrow> nat \<Rightarrow> nat \<Rightarrow> bool \<times> storage" where
  "reader_write reader kb fs st [] file_off remaining = (True, st)"
| "reader_write reader kb fs st (c # cs) file_off remaining =
     (let cluster_bytes = unat (sectors_per_cluster fs) * ATA_SECTOR_SIZE;
          first_sec = fat_cluster_to_sector fs c
      in if kb then
           let want = (if remaining < cluster_bytes then remaining else cluster_bytes)
           in (case (if want > 0 then reader st file_off want else Some []) of
                 None \<Rightarrow> (False, st)
               | Some bs \<Rightarrow>
                   (case fat_write_sectors fs st first_sec (sectors_per_cluster fs)
                           (bs @ replicate (cluster_bytes - want) 0) of
                      (rc, st1) \<Rightarrow>
                        if rc \<noteq> 0 then (False, st1)
                        else reader_write reader kb fs st1 cs (file_off + want) (remaining - want)))
         else
           (case reader_by_sector reader fs st first_sec (unat (sectors_per_cluster fs)) file_off remaining of
              (None, st1) \<Rightarrow> (False, st1)
            | (Some (file_off, remaining), st1) \<Rightarrow> reader_write reader kb fs st1 cs file_off remaining))"

definition fat_write_file_payload_reader ::
  "bool \<Rightarrow> bool \<Rightarrow> fat_fs \<Rightarrow> storage \<Rightarrow> nat \<Rightarrow> fat_reader \<Rightarrow> (int + u32) fat_result" where
  "fat_write_file_payload_reader ka kb fs st len reader =
     (if len = 0 then Some (Inr 0, fs, st)
      else if \<not> ka then Some (Inl (-1), fs, st)
      else case payload_alloc fs st [] (clusters_needed fs len) of
        None \<Rightarrow> None
      | Some (Inl rc, fs1, st1) \<Rightarrow> Some (Inl rc, fs1, st1)
      | Some (Inr allocated, fs1, st1) \<Rightarrow>
          let first = (if allocated = [] then 0 else hd allocated);
              prev = (if allocated = [] then 0 else last allocated)
          in (case (if prev \<ge> 2 then fat_write_fat_entry fs1 st1 prev (fat_eoc_value fs1) else (0, st1)) of
                (rc, st2) \<Rightarrow>
                  if rc \<noteq> 0 then fail_free fs1 st2 first
                  else (case reader_write reader kb fs1 st2 allocated 0 len of
                          (ok, st3) \<Rightarrow> if ok then Some (Inr first, fs1, st3) else fail_free fs1 st3 first)))"

section \<open>Creating entries\<close>

text \<open>The last part of a creation: the long name's entries, then the entry itself.\<close>

definition write_names :: "fat_fs \<Rightarrow> storage \<Rightarrow> fat_dir_loc \<Rightarrow> string \<Rightarrow> u8 list \<Rightarrow> fat_dir_entry \<Rightarrow> int \<times> storage" where
  "write_names fs st loc leaf sfn ne =
     (let lfn_count = fat_lfn_entry_count_for_name leaf in
      if lfn_count > 0 then
        if lfn_count > 8 then (-1, st)
        else (case fat_write_entries_at fs st loc (map lfn_entry_bytes (lfn_entries leaf sfn)) of
          (rc, st1) \<Rightarrow>
            if rc \<noteq> 0 then (-1, st1)
            else
              let off = loc_offset loc + of_nat lfn_count * 32;
                  sfn_loc = (if off \<ge> of_nat ATA_SECTOR_SIZE
                    then \<lparr>loc_sector = loc_sector loc + off div of_nat ATA_SECTOR_SIZE,
                          loc_offset = off mod of_nat ATA_SECTOR_SIZE\<rparr>
                    else \<lparr>loc_sector = loc_sector loc, loc_offset = off\<rparr>)
              in fat_write_entry_at fs st1 sfn_loc (dir_entry_bytes ne))
      else fat_write_entry_at fs st loc (dir_entry_bytes ne))"

text \<open>The first part: the directory, the short name and the room, where the name is new.\<close>

definition find_room :: "fat_fs \<Rightarrow> storage \<Rightarrow> string \<Rightarrow>
   (u32 \<times> string \<times> u8 list \<times> fat_dir_loc) option \<times> fat_fs \<times> storage" where
  "find_room fs st path =
     (case fat_split_parent_leaf path VFS_MAX_PATH VFS_MAX_NAME of
        None \<Rightarrow> (None, fs, st)
      | Some (parent, leaf) \<Rightarrow>
          (case fat_resolve_parent_dir fs st parent of
             None \<Rightarrow> (None, fs, st)
           | Some dir_cluster \<Rightarrow>
               (case fat_dir_find_entry fs st dir_cluster leaf of
                  Inr _ \<Rightarrow> (None, fs, st)
                | Inl _ \<Rightarrow>
                    (case fat_make_sfn leaf of
                       None \<Rightarrow> (None, fs, st)
                     | Some sfn \<Rightarrow>
                         (case fat_dir_find_free_slots fs st dir_cluster (fat_lfn_entry_count_for_name leaf + 1) of
                            (Inl _, fs1, st1) \<Rightarrow> (None, fs1, st1)
                          | (Inr loc, fs1, st1) \<Rightarrow> (Some (dir_cluster, leaf, sfn, loc), fs1, st1))))))"

definition fat_fs_create_file_from_reader ::
  "bool \<Rightarrow> bool \<Rightarrow> fat_fs \<Rightarrow> storage \<Rightarrow> string \<Rightarrow> nat \<Rightarrow> fat_reader \<Rightarrow> int fat_result" where
  "fat_fs_create_file_from_reader ka kb fs st path len reader =
     (if path = [] \<or> hd path \<noteq> CHR ''/'' then Some (-1, fs, st)
      else case find_room fs st path of
        (None, fs1, st1) \<Rightarrow> Some (-1, fs1, st1)
      | (Some (dir_cluster, leaf, sfn, loc), fs1, st1) \<Rightarrow>
          let ne = no_dir_entry\<lparr>de_name := sfn, de_attr := 0\<rparr> in
          (case fat_write_file_payload_reader ka kb fs1 st1 len reader of
             None \<Rightarrow> None
           | Some (Inl _, fs2, st2) \<Rightarrow> Some (-1, fs2, st2)
           | Some (Inr first_cluster, fs2, st2) \<Rightarrow>
               (case write_names fs2 st2 loc leaf sfn
                       ((fat_set_entry_cluster ne first_cluster)\<lparr>de_size := of_nat len\<rparr>) of
                  (rc, st3) \<Rightarrow> Some (rc, fs2, st3))))"

fun zero_rest :: "fat_fs \<Rightarrow> storage \<Rightarrow> u32 \<Rightarrow> nat \<Rightarrow> bool \<times> storage" where
  "zero_rest fs st sector 0 = (True, st)"
| "zero_rest fs st sector (Suc n) =
     (case fat_write_sector fs st sector (replicate ATA_SECTOR_SIZE 0) of
        (rc, st1) \<Rightarrow> if rc \<noteq> 0 then (False, st1) else zero_rest fs st1 (sector + 1) n)"

text \<open>The sector with the entries \<open>.\<close> and \<open>..\<close> of a new directory.\<close>

definition dot_sector :: "fat_fs \<Rightarrow> u32 \<Rightarrow> u32 \<Rightarrow> u8 list" where
  "dot_sector fs dir_cluster new_dir_cluster =
     (let dot = fat_set_entry_cluster
            (no_dir_entry\<lparr>de_name := (replicate 11 0x20)[0 := 0x2E], de_attr := FAT_ATTR_DIR\<rparr>) new_dir_cluster;
          parent_ref = (if dir_cluster = 0 \<and> ftype fs = FAT_TYPE_32 then root_cluster fs else dir_cluster);
          dotdot = fat_set_entry_cluster
            (no_dir_entry\<lparr>de_name := (replicate 11 0x20)[0 := 0x2E, 1 := 0x2E], de_attr := FAT_ATTR_DIR\<rparr>) parent_ref
      in dir_entry_bytes dot @ dir_entry_bytes dotdot @ replicate (ATA_SECTOR_SIZE - 64) 0)"

definition fat_create_entry ::
  "bool \<Rightarrow> bool \<Rightarrow> fat_fs \<Rightarrow> storage \<Rightarrow> string \<Rightarrow> u8 \<Rightarrow> u8 list \<Rightarrow> int fat_result" where
  "fat_create_entry ka kb fs st path attr data =
     (case find_room fs st path of
        (None, fs1, st1) \<Rightarrow> Some (-1, fs1, st1)
      | (Some (dir_cluster, leaf, sfn, loc), fs1, st1) \<Rightarrow>
          let ne = no_dir_entry\<lparr>de_name := sfn, de_attr := attr\<rparr> in
          if attr AND FAT_ATTR_DIR \<noteq> 0 then
            (case fat_alloc_cluster fs1 st1 True of
               (None, fs2, st2) \<Rightarrow> Some (-1, fs2, st2)
             | (Some new_dir_cluster, fs2, st2) \<Rightarrow>
                 let ne = (fat_set_entry_cluster ne new_dir_cluster)\<lparr>de_size := 0\<rparr>;
                     first_sector = fat_cluster_to_sector fs2 new_dir_cluster
                 in (case fat_write_sector fs2 st2 first_sector (dot_sector fs2 dir_cluster new_dir_cluster) of
                       (rc, st3) \<Rightarrow>
                         if rc \<noteq> 0 then Some (-1, fs2, st3)
                         else (case zero_rest fs2 st3 (first_sector + 1) (unat (sectors_per_cluster fs2) - 1) of
                           (ok, st4) \<Rightarrow>
                             if \<not> ok then Some (-1, fs2, st4)
                             else (case write_names fs2 st4 loc leaf sfn ne of
                               (rc, st5) \<Rightarrow> Some (rc, fs2, st5)))))
          else
            (case fat_write_file_payload ka kb fs1 st1 data of
               None \<Rightarrow> None
             | Some (Inl _, fs2, st2) \<Rightarrow> Some (-1, fs2, st2)
             | Some (Inr first_cluster, fs2, st2) \<Rightarrow>
                 (case write_names fs2 st2 loc leaf sfn
                         ((fat_set_entry_cluster ne first_cluster)\<lparr>de_size := of_nat (length data)\<rparr>) of
                    (rc, st3) \<Rightarrow> Some (rc, fs2, st3))))"

section \<open>The operations\<close>

definition fat_op_mkdir :: "bool \<Rightarrow> bool \<Rightarrow> fat_fs \<Rightarrow> storage \<Rightarrow> string \<Rightarrow> int fat_result" where
  "fat_op_mkdir ka kb fs st path = fat_create_entry ka kb fs st path FAT_ATTR_DIR []"

definition fat_op_create_file :: "bool \<Rightarrow> bool \<Rightarrow> fat_fs \<Rightarrow> storage \<Rightarrow> string \<Rightarrow> u8 list \<Rightarrow> int fat_result" where
  "fat_op_create_file ka kb fs st path data = fat_create_entry ka kb fs st path 0 data"

definition fat_op_write_file :: "bool \<Rightarrow> bool \<Rightarrow> fat_fs \<Rightarrow> storage \<Rightarrow> string \<Rightarrow> u8 list \<Rightarrow> int fat_result" where
  "fat_op_write_file ka kb fs st path data =
     (case fat_split_parent_leaf path VFS_MAX_PATH VFS_MAX_NAME of
        None \<Rightarrow> Some (-1, fs, st)
      | Some (parent, leaf) \<Rightarrow>
          (case fat_resolve_parent_dir fs st parent of
             None \<Rightarrow> Some (-1, fs, st)
           | Some dir_cluster \<Rightarrow>
               (case fat_dir_find_entry fs st dir_cluster leaf of
                  Inl _ \<Rightarrow> fat_create_entry ka kb fs st path 0 data
                | Inr (e, loc) \<Rightarrow>
                    if de_attr e AND FAT_ATTR_DIR \<noteq> 0 then Some (-1, fs, st)
                    else
                      let old_first = fat_entry_cluster e in
                      (case (if old_first \<ge> 2 then map_option snd (fat_free_chain fs st old_first) else Some st) of
                         None \<Rightarrow> None
                       | Some st1 \<Rightarrow>
                           (case fat_write_file_payload ka kb fs st1 data of
                              None \<Rightarrow> None
                            | Some (Inl _, fs2, st2) \<Rightarrow> Some (-1, fs2, st2)
                            | Some (Inr first_cluster, fs2, st2) \<Rightarrow>
                                (case fat_write_entry_at fs2 st2 loc (dir_entry_bytes
                                        ((fat_set_entry_cluster e first_cluster)\<lparr>de_size := of_nat (length data)\<rparr>)) of
                                   (rc, st3) \<Rightarrow> Some (rc, fs2, st3)))))))"

definition fat_op_read_file ::
  "fat_fs \<Rightarrow> storage \<Rightarrow> string \<Rightarrow> u8 list option \<Rightarrow> nat \<Rightarrow> int \<times> nat option \<times> u8 list option" where
  "fat_op_read_file fs st path out out_cap =
     (case fat_resolve_path fs st path of
        Inl _ \<Rightarrow> (-1, None, out)
      | Inr (e, _) \<Rightarrow>
          if de_attr e AND FAT_ATTR_DIR \<noteq> 0 then (-2, None, out)
          else (case fat_read_file_data fs st e out out_cap of (rc, n, out1) \<Rightarrow> (rc, Some n, out1)))"

record fat_list_ctx =
  fl_out :: "dirent list option"
  fl_max :: nat
  fl_count :: nat

definition fat_list_visitor :: "fat_list_ctx visitor" where
  "fat_list_visitor ctx e name =
     (let ctx = (case fl_out ctx of
            None \<Rightarrow> ctx
          | Some out \<Rightarrow>
              if fl_count ctx < fl_max ctx
              then ctx\<lparr>fl_out := Some (out[fl_count ctx := \<lparr>d_name = take (VFS_MAX_NAME - 1) name,
                         d_is_dir = (de_attr e AND FAT_ATTR_DIR \<noteq> 0), d_size = unat (de_size e)\<rparr>])\<rparr>
              else ctx)
      in (0, ctx\<lparr>fl_count := fl_count ctx + 1\<rparr>))"

definition fat_op_list_dir ::
  "fat_fs \<Rightarrow> storage \<Rightarrow> string \<Rightarrow> dirent list option \<Rightarrow> nat \<Rightarrow> int \<times> nat option \<times> dirent list option" where
  "fat_op_list_dir fs st path out max_entries =
     (let list = (\<lambda>dir_cluster.
            (case fat_iterate_dir fs st dir_cluster fat_list_visitor
                    \<lparr>fl_out = out, fl_max = max_entries, fl_count = 0\<rparr> of
               (rc, ctx) \<Rightarrow> (rc, Some (fl_count ctx), fl_out ctx)))
      in if path = ''/'' then list 0
         else case fat_resolve_path fs st path of
           Inl _ \<Rightarrow> (-1, None, out)
         | Inr (e, _) \<Rightarrow>
             if de_attr e AND FAT_ATTR_DIR = 0 then (-2, None, out) else list (fat_entry_cluster e))"

definition fat_op_exists :: "fat_fs \<Rightarrow> storage \<Rightarrow> string \<Rightarrow> int" where
  "fat_op_exists fs st path = (case fat_resolve_path fs st path of Inl _ \<Rightarrow> 0 | Inr _ \<Rightarrow> 1)"

definition fat_non_dot_visitor :: "bool visitor" where
  "fat_non_dot_visitor found e name =
     (if \<not> (name = ''.'' \<or> name = ''..'') then (1, True) else (0, found))"

definition fat_dir_is_empty :: "fat_fs \<Rightarrow> storage \<Rightarrow> u32 \<Rightarrow> bool" where
  "fat_dir_is_empty fs st dir_cluster =
     (case fat_iterate_dir fs st dir_cluster fat_non_dot_visitor False of
        (rc, found) \<Rightarrow> if rc < 0 then False else \<not> found)"

definition fat_op_remove :: "fat_fs \<Rightarrow> storage \<Rightarrow> string \<Rightarrow> int fat_result" where
  "fat_op_remove fs st path =
     (if path = [] \<or> hd path \<noteq> CHR ''/'' \<or> tl path = [] then Some (-1, fs, st)
      else case fat_split_parent_leaf path VFS_MAX_PATH VFS_MAX_NAME of
        None \<Rightarrow> Some (-1, fs, st)
      | Some (parent, leaf) \<Rightarrow>
          (case fat_resolve_parent_dir fs st parent of
             None \<Rightarrow> Some (-1, fs, st)
           | Some dir_cluster \<Rightarrow>
               (case fat_dir_find_entry fs st dir_cluster leaf of
                  Inl _ \<Rightarrow> Some (-1, fs, st)
                | Inr (e, loc) \<Rightarrow>
                    let first_cluster = fat_entry_cluster e in
                    if de_attr e AND FAT_ATTR_DIR \<noteq> 0 \<and> first_cluster \<ge> 2
                      \<and> \<not> fat_dir_is_empty fs st first_cluster then Some (-1, fs, st)
                    else
                      (case (if first_cluster \<ge> 2 then fat_free_chain fs st first_cluster else Some (0, st)) of
                         None \<Rightarrow> None
                       | Some (rc, st1) \<Rightarrow>
                           if rc \<noteq> 0 then Some (-1, fs, st1)
                           else (case fat_read_sector fs st1 (loc_sector loc) of
                             Inl _ \<Rightarrow> Some (-1, fs, st1)
                           | Inr sec \<Rightarrow>
                               (case fat_write_sector fs st1 (loc_sector loc) (sec[unat (loc_offset loc) := 0xE5]) of
                                  (rc, st2) \<Rightarrow> Some (if rc \<noteq> 0 then -1 else 0, fs, st2)))))))"

definition fat_op_rename :: "fat_fs \<Rightarrow> storage \<Rightarrow> string \<Rightarrow> string \<Rightarrow> int \<times> fat_fs \<times> storage" where
  "fat_op_rename fs st old_path new_path =
     (if old_path = [] \<or> new_path = [] \<or> hd old_path \<noteq> CHR ''/'' \<or> hd new_path \<noteq> CHR ''/'' then (-1, fs, st)
      else if tl old_path = [] \<or> tl new_path = [] then (-1, fs, st)
      else case (fat_split_parent_leaf old_path VFS_MAX_PATH VFS_MAX_NAME,
                 fat_split_parent_leaf new_path VFS_MAX_PATH VFS_MAX_NAME) of
        (Some (old_parent, old_leaf), Some (new_parent, new_leaf)) \<Rightarrow>
          if old_parent \<noteq> new_parent then (-1, fs, st)
          else (case fat_resolve_parent_dir fs st old_parent of
            None \<Rightarrow> (-1, fs, st)
          | Some dir_cluster \<Rightarrow>
              (case fat_dir_find_entry fs st dir_cluster old_leaf of
                 Inl _ \<Rightarrow> (-1, fs, st)
               | Inr (e, loc) \<Rightarrow>
                   (case fat_dir_find_entry fs st dir_cluster new_leaf of
                      Inr _ \<Rightarrow> (-1, fs, st)
                    | Inl _ \<Rightarrow>
                        (case fat_make_sfn new_leaf of
                           None \<Rightarrow> (-1, fs, st)
                         | Some sfn \<Rightarrow>
                             (case fat_write_entry_at fs st loc (dir_entry_bytes (e\<lparr>de_name := sfn\<rparr>)) of
                                (rc, st1) \<Rightarrow> (rc, fs, st1))))))
      | _ \<Rightarrow> (-1, fs, st))"

definition fat_op_getattr :: "fat_fs \<Rightarrow> storage \<Rightarrow> string \<Rightarrow> attr option" where
  "fat_op_getattr fs st path =
     (case fat_resolve_path fs st path of
        Inl _ \<Rightarrow> None
      | Inr (e, _) \<Rightarrow>
          Some (if de_attr e AND FAT_ATTR_DIR \<noteq> 0 then 0x1ED else if de_attr e AND 1 \<noteq> 0 then 0x124 else 0x1A4, 0, 0))"

definition fat_op_chmod :: "fat_fs \<Rightarrow> storage \<Rightarrow> string \<Rightarrow> u16 \<Rightarrow> int \<times> fat_fs \<times> storage" where
  "fat_op_chmod fs st path md = (0, fs, st)"

definition fat_op_chown :: "fat_fs \<Rightarrow> storage \<Rightarrow> string \<Rightarrow> u32 \<Rightarrow> u32 \<Rightarrow> int \<times> fat_fs \<times> storage" where
  "fat_op_chown fs st path uid gid = (0, fs, st)"

text \<open>
  As a back end the state is the volume and the disks, \<open>None\<close> once a call has not returned.
\<close>

definition fat_call :: "(fat_fs \<times> storage) option \<Rightarrow> (fat_fs \<Rightarrow> storage \<Rightarrow> int fat_result) \<Rightarrow>
   int \<times> (fat_fs \<times> storage) option" where
  "fat_call s f =
     (case s of None \<Rightarrow> (-1, None)
      | Some (fs, st) \<Rightarrow> (case f fs st of None \<Rightarrow> (-1, None) | Some (rc, s1) \<Rightarrow> (rc, Some s1)))"

definition g_fat_ops :: "bool \<Rightarrow> bool \<Rightarrow> ('c, (fat_fs \<times> storage) option) backend_ops" where
  "g_fat_ops ka kb = \<lparr>
     b_mkdir = Some (\<lambda>c cr s path md. fat_call s (\<lambda>fs st. fat_op_mkdir ka kb fs st path)),
     b_create_file = Some (\<lambda>c cr s path md bytes. fat_call s (\<lambda>fs st. fat_op_create_file ka kb fs st path bytes)),
     b_write_file = Some (\<lambda>c cr s path bytes. fat_call s (\<lambda>fs st. fat_op_write_file ka kb fs st path bytes)),
     b_read_file = Some (\<lambda>c s path out cap.
       case s of None \<Rightarrow> (-1, None, out) | Some (fs, st) \<Rightarrow> fat_op_read_file fs st path out cap),
     b_list_dir = Some (\<lambda>c s path out n.
       case s of None \<Rightarrow> Some (-1, None, out) | Some (fs, st) \<Rightarrow> Some (fat_op_list_dir fs st path out n)),
     b_exists = Some (\<lambda>c s path. case s of None \<Rightarrow> 0 | Some (fs, st) \<Rightarrow> fat_op_exists fs st path),
     b_remove = Some (\<lambda>c s path. fat_call s (\<lambda>fs st. fat_op_remove fs st path)),
     b_rename = Some (\<lambda>c s a b. fat_call s (\<lambda>fs st. Some (fat_op_rename fs st a b))),
     b_getattr = Some (\<lambda>c s path. case s of None \<Rightarrow> None | Some (fs, st) \<Rightarrow> fat_op_getattr fs st path),
     b_chmod = Some (\<lambda>c s path md. fat_call s (\<lambda>fs st. Some (fat_op_chmod fs st path md))),
     b_chown = Some (\<lambda>c s path u g. fat_call s (\<lambda>fs st. Some (fat_op_chown fs st path u g)))\<rparr>"

end
