(* ===== verification/Fat_Payload.thy ===== *)
theory Fat_Payload
  imports Fat_Files Fat_Clusters
begin

text \<open>
  Contents of files on a sound volume: a payload that is written is read back, and a write that
  runs out of clusters gives back what it took.
\<close>

section \<open>Several sectors at once\<close>

lemma read_single_cases:
  assumes "ata_read_sectors st i l 1 = Inr s"
  shows "if i < length (g_drives st)
     then ata_rw_check (g_drives st ! i) l 1 = 0 \<and> ad_medium (g_drives st ! i) l = Some s
     else i - length (g_drives st) < length (g_namespaces st)
       \<and> nvme_rw_check (g_namespaces st ! (i - length (g_drives st))) l 1 = 0
       \<and> nv_medium (g_namespaces st ! (i - length (g_drives st))) l = Some s"
  using assms by (auto simp: ata_read_sectors_def nvme_read_sectors_def Let_def split: if_splits option.splits)

lemma ata_check_run:
  assumes "ata_rw_check d lba 1 = 0" "ata_rw_check d (lba + of_nat (n - 1)) 1 = 0" "0 < n" "n \<le> 255"
  shows "ata_rw_check d lba (of_nat n) = 0"
proof -
  have "(of_nat (n - 1) + 1 :: u64) = of_nat n" using assms(3) by (metis Suc_pred' of_nat_Suc add.commute)
  then have e: "lba + of_nat (n - 1) + 1 = lba + of_nat n" by (simp add: add.assoc)
  have u: "(ucast (of_nat n :: u8) :: u64) = of_nat n"
    using assms(4) by (simp add: word_unat_eq_iff unat_ucast_widen u8_count unat_of_nat_le)
  show ?thesis
    using assms(1,2) unfolding ata_rw_check_def Let_def by (auto simp: e [unfolded One_nat_def] u split: if_splits)
qed

lemma nvme_check_run:
  assumes "nvme_rw_check ns lba 1 = 0" "nvme_rw_check ns (lba + of_nat (n - 1)) 1 = 0" "0 < n" "n \<le> 255"
  shows "nvme_rw_check ns lba (of_nat n) = 0"
proof -
  have "(of_nat (n - 1) + 1 :: u64) = of_nat n" using assms(3) by (metis Suc_pred' of_nat_Suc add.commute)
  then have e: "lba + of_nat (n - 1) + 1 = lba + of_nat n" by (simp add: add.assoc)
  have n: "unat (of_nat n :: u32) = n" using assms(4) by (simp add: u32_count)
  have u: "(ucast (of_nat n :: u32) :: u64) = of_nat n"
    using n assms(4) by (simp add: word_unat_eq_iff unat_ucast_widen unat_of_nat_le)
  have nz: "(of_nat n :: u32) \<noteq> 0" using assms(3) n by (metis unat_0 less_irrefl)
  have "nv_lba_size ns div 512 = 1"
    using assms(1) by (cases "nv_lba_size ns div 512 = 1") (auto simp: nvme_rw_check_def Let_def split: if_splits)
  with assms(1,2) nz show ?thesis
    unfolding nvme_rw_check_def Let_def by (auto simp: e [unfolded One_nat_def] u split: if_splits)
qed

lemma ata_write_run_view:
  assumes rd: "\<And>j. j < n \<Longrightarrow> \<exists>s. ata_read_sectors st i (lba + of_nat j) 1 = Inr s"
    and n: "0 < n" "n \<le> 255" and len: "length bs = n * ATA_SECTOR_SIZE"
  shows "\<exists>st'. ata_write_sectors st i lba (of_nat n) bs = (0, st')
     \<and> (\<forall>j < n. ata_read_sectors st' i (lba + of_nat j) 1 = Inr (take ATA_SECTOR_SIZE (drop (j * ATA_SECTOR_SIZE) bs)))"
proof -
  have nn: "unat (of_nat n :: u8) = n" using n by (simp add: u8_count)
  then have nz: "(of_nat n :: u8) \<noteq> 0" using n by (metis unat_0 less_irrefl)
  have n64: "n < 2 ^ 64" using n by simp
  have rd0: "\<exists>s. ata_read_sectors st i lba 1 = Inr s" using rd [OF n(1)] by simp
  have last: "n - 1 < n" using n by simp
  show ?thesis
  proof (cases "i < length (g_drives st)")
    case True
    let ?d = "g_drives st ! i"
    have r: "ata_rw_check ?d (lba + of_nat j) 1 = 0 \<and> (\<exists>s. ad_medium ?d (lba + of_nat j) = Some s)" if "j < n" for j
      using rd [OF that] read_single_cases True by fastforce
    have c: "ata_rw_check ?d lba (of_nat n) = 0"
      using r [OF n(1)] r [OF last] n by (intro ata_check_run) simp_all
    have "run lba n \<subseteq> dom (ad_medium ?d)" using r by (auto simp: run_def dom_def)
    then obtain m where w: "write_run (ad_medium ?d) lba n bs = (True, m)"
      using write_run_ok_iff [OF n64, of "ad_medium ?d" lba bs] by (cases "write_run (ad_medium ?d) lba n bs") auto
    let ?st = "st\<lparr>g_drives := (g_drives st)[i := ?d\<lparr>ad_medium := m\<rparr>]\<rparr>"
    have "ata_write_sectors st i lba (of_nat n) bs = (0, ?st)"
      using True c w nz nn by (simp add: ata_write_sectors_def)
    moreover have "ata_read_sectors ?st i (lba + of_nat j) 1 = Inr (take ATA_SECTOR_SIZE (drop (j * ATA_SECTOR_SIZE) bs))"
      if "j < n" for j
      using True r [OF that] write_run_nth [OF w n64 that] by (simp add: ata_read_sectors_def ata_check_medium)
    ultimately show ?thesis by blast
  next
    case False
    let ?k = "i - length (g_drives st)"
    let ?ns = "g_namespaces st ! ?k"
    have k: "?k < length (g_namespaces st)" using rd0 read_single_cases False by fastforce
    have r: "nvme_rw_check ?ns (lba + of_nat j) 1 = 0 \<and> (\<exists>s. nv_medium ?ns (lba + of_nat j) = Some s)" if "j < n" for j
      using rd [OF that] read_single_cases False by fastforce
    have c: "nvme_rw_check ?ns lba (of_nat n) = 0"
      using r [OF n(1)] r [OF last] n by (intro nvme_check_run) simp_all
    have u: "(ucast (of_nat n :: u8) :: u32) = of_nat n"
      using nn n by (simp add: word_unat_eq_iff unat_ucast_widen u32_count)
    have n32: "unat (of_nat n :: u32) = n" using n by (simp add: u32_count)
    have "run lba n \<subseteq> dom (nv_medium ?ns)" using r by (auto simp: run_def dom_def)
    then obtain m where w: "write_run (nv_medium ?ns) lba n bs = (True, m)"
      using write_run_ok_iff [OF n64, of "nv_medium ?ns" lba bs] by (cases "write_run (nv_medium ?ns) lba n bs") auto
    let ?st = "st\<lparr>g_namespaces := (g_namespaces st)[?k := ?ns\<lparr>nv_medium := m\<rparr>]\<rparr>"
    have "ata_write_sectors st i lba (of_nat n) bs = (0, ?st)"
      using False k c w nz n32 u by (simp add: ata_write_sectors_def nvme_write_sectors_def)
    moreover have "ata_read_sectors ?st i (lba + of_nat j) 1 = Inr (take ATA_SECTOR_SIZE (drop (j * ATA_SECTOR_SIZE) bs))"
      if "j < n" for j
      using False k r [OF that] write_run_nth [OF w n64 that]
      by (simp add: ata_read_sectors_def nvme_read_sectors_def nvme_check_medium)
    ultimately show ?thesis by blast
  qed
qed

lemma sector_lba_add:
  assumes "r + j < 2 ^ 32"
  shows "p + ucast (of_nat (r + j) :: u32) = p + ucast (of_nat r :: u32) + (of_nat j :: u64)"
proof -
  have "unat (of_nat (r + j) :: u32) = r + j" "unat (of_nat r :: u32) = r"
    using assms by (simp_all add: unat_of_nat_le del: of_nat_add)
  then have "(ucast (of_nat (r + j) :: u32) :: u64) = of_nat (r + j)" "(ucast (of_nat r :: u32) :: u64) = of_nat r"
    using assms by (simp_all add: word_unat_eq_iff unat_ucast_widen unat_of_nat_le del: of_nat_add)
  then show ?thesis by (simp only: of_nat_add add.assoc)
qed

lemma write_sectors_view:
  assumes d: "fat_disk fs st" and r: "r + n \<le> unat (total_sectors fs)" and n: "0 < n" "n \<le> 255"
    and len: "length bs = n * 512"
  shows "\<exists>st'. fat_write_sectors fs st (of_nat r) (of_nat n) bs = (0, st') \<and> fat_disk fs st'
     \<and> (\<forall>q < unat (total_sectors fs). vsec fs st' q =
          (if r \<le> q \<and> q < r + n then take 512 (drop ((q - r) * 512) bs) else vsec fs st q))"
proof -
  let ?p = "partition_lba fs" let ?l = "?p + ucast (of_nat r :: u32)"
  have lt: "q < 2 ^ 32" if "q < unat (total_sectors fs)" for q using total_lt [OF that] .
  have at: "?p + ucast (of_nat (r + j) :: u32) = ?l + of_nat j" if "j < n" for j
    using r that by (intro sector_lba_add lt) simp
  have rd: "\<exists>s. ata_read_sectors st (drive_index fs) (?l + of_nat j) 1 = Inr s" if "j < n" for j
    unfolding at [OF that, symmetric] using vsec_read [OF d, of "r + j"] r that
    by (simp add: fat_read_sector_def del: of_nat_add)
  obtain st' where w: "ata_write_sectors st (drive_index fs) ?l (of_nat n) bs = (0, st')"
    and in_run: "\<And>j. j < n \<Longrightarrow> ata_read_sectors st' (drive_index fs) (?l + of_nat j) 1 =
      Inr (take ATA_SECTOR_SIZE (drop (j * ATA_SECTOR_SIZE) bs))"
    using ata_write_run_view [OF rd n, of bs] len by (auto simp: ATA_SECTOR_SIZE_def)
  have rd': "fat_read_sector fs st' (of_nat q) = (if r \<le> q \<and> q < r + n then Inr (take 512 (drop ((q - r) * 512) bs))
      else fat_read_sector fs st (of_nat q))" if q: "q < unat (total_sectors fs)" for q
  proof (cases "r \<le> q \<and> q < r + n")
    case True
    then obtain j where j: "q = r + j" "j < n" by (metis add_diff_inverse_nat nat_add_left_cancel_less not_less)
    with in_run [OF j(2)] at [OF j(2), symmetric] show ?thesis
      by (simp add: fat_read_sector_def ATA_SECTOR_SIZE_def add.assoc)
  next
    case False
    have "?l + of_nat j \<noteq> ?p + ucast (of_nat q :: u32)" if j: "j < n" for j
    proof -
      have "r + j < unat (total_sectors fs)" using r j by simp
      then have "?p + ucast (of_nat q :: u32) = ?p + ucast (of_nat (r + j) :: u32) \<longleftrightarrow> q = r + j"
        by (intro sector_lba_inj lt q)
      with at [OF j] False j show ?thesis by auto
    qed
    then have "run ?l (unat (of_nat n :: u8)) \<inter> run (?p + ucast (of_nat q :: u32)) (unat (1 :: u8)) = {}"
      using n by (auto simp: u8_count run_def)
    from ata_contract(2) [OF w this] show ?thesis unfolding if_not_P [OF False] by (simp add: fat_read_sector_def)
  qed
  have "length (take 512 (drop (j * 512) bs)) = 512" if "j < n" for j
  proof -
    have "(j + 1) * 512 \<le> n * 512" using that by (intro mult_le_mono1) simp
    then show ?thesis using len by simp
  qed
  moreover have "fat_disk fs st'"
    unfolding fat_disk_def
  proof (intro allI impI)
    fix q assume q: "q < unat (total_sectors fs)"
    show "\<exists>s. fat_read_sector fs st' (of_nat q) = Inr s \<and> length s = ATA_SECTOR_SIZE"
    proof (cases "r \<le> q \<and> q < r + n")
      case True
      then have "q - r < n" by auto
      with True rd' [OF q] calculation show ?thesis by (simp add: ATA_SECTOR_SIZE_def)
    next
      case False
      with rd' [OF q] vsec_read [OF d q] show ?thesis by (simp add: ATA_SECTOR_SIZE_def)
    qed
  qed
  moreover have "fat_write_sectors fs st (of_nat r) (of_nat n) bs = (0, st')" by (simp add: fat_write_sectors_def w)
  ultimately show ?thesis using rd' by (auto simp: vsec_def)
qed

section \<open>The search hint does not matter\<close>

lemma hint_simps [simp]:
  "fat_geom (fs\<lparr>next_free_cluster := h\<rparr>) = fat_geom fs"
  "fat_data (fs\<lparr>next_free_cluster := h\<rparr>) = fat_data fs"
  "fat_read_sector (fs\<lparr>next_free_cluster := h\<rparr>) = fat_read_sector fs"
  "fat_write_sector (fs\<lparr>next_free_cluster := h\<rparr>) = fat_write_sector fs"
  "fat_write_sectors (fs\<lparr>next_free_cluster := h\<rparr>) = fat_write_sectors fs"
  "fat_is_eoc (fs\<lparr>next_free_cluster := h\<rparr>) = fat_is_eoc fs"
  "fat_eoc_value (fs\<lparr>next_free_cluster := h\<rparr>) = fat_eoc_value fs"
  "fat_max_valid_cluster (fs\<lparr>next_free_cluster := h\<rparr>) = fat_max_valid_cluster fs"
  "fat_cluster_to_sector (fs\<lparr>next_free_cluster := h\<rparr>) = fat_cluster_to_sector fs"
  "in_fat (fs\<lparr>next_free_cluster := h\<rparr>) = in_fat fs"
  "in_table (fs\<lparr>next_free_cluster := h\<rparr>) = in_table fs"
  "in_cluster (fs\<lparr>next_free_cluster := h\<rparr>) = in_cluster fs"
  "cluster_start (fs\<lparr>next_free_cluster := h\<rparr>) = cluster_start fs"
  "valid_cluster (fs\<lparr>next_free_cluster := h\<rparr>) = valid_cluster fs"
  "copy_base (fs\<lparr>next_free_cluster := h\<rparr>) = copy_base fs"
  "fat_read_fat_entry (fs\<lparr>next_free_cluster := h\<rparr>) = fat_read_fat_entry fs"
  by (cases fs; (intro ext)?; simp only: fat_fs.simps fat_geom_def fat_data_def fat_read_sector_def fat_write_sector_def
      fat_write_sectors_def fat_is_eoc_def fat_eoc_value_def fat_max_valid_cluster_def fat_fat_entry_count_def
      fat_cluster_to_sector_def in_fat_def in_table_def in_cluster_def cluster_start_def valid_cluster_def copy_base_def
      fat_read_fat_entry_def)+

lemma hint_simps2 [simp]:
  "fat_disk (fs\<lparr>next_free_cluster := h\<rparr>) = fat_disk fs"
  "vsec (fs\<lparr>next_free_cluster := h\<rparr>) = vsec fs"
  "tb (fs\<lparr>next_free_cluster := h\<rparr>) = tb fs"
  by (intro ext | simp add: fat_disk_def vsec_def tb_def)+

lemma hint_simps3 [simp]:
  "fent (fs\<lparr>next_free_cluster := h\<rparr>) = fent fs"
  "mirrored (fs\<lparr>next_free_cluster := h\<rparr>) = mirrored fs"
  by (intro ext | simp add: fent_def mirrored_def)+

lemma hint_write_copy [simp]:
  "fat_write_fat12_single (fs\<lparr>next_free_cluster := h\<rparr>) = fat_write_fat12_single fs"
  "fat_write_copy (fs\<lparr>next_free_cluster := h\<rparr>) = fat_write_copy fs"
  by (cases fs; (intro ext)?; simp only: fat_fs.simps fat_write_copy_def fat_write_fat12_single_def fat_read_sector_def
      fat_write_sector_def)+

lemma hint_write_copies:
  "fat_write_copies (fs\<lparr>next_free_cluster := h\<rparr>) st fi n c v = fat_write_copies fs st fi n c v"
  by (induction fs st fi n c v rule: fat_write_copies.induct) (simp_all split: prod.split)

lemma hint_write_fat_entry [simp]:
  "fat_write_fat_entry (fs\<lparr>next_free_cluster := h\<rparr>) = fat_write_fat_entry fs"
  by (intro ext) (simp add: fat_write_fat_entry_def hint_write_copies)

lemma hint_fat_link [simp]: "fat_link (fs\<lparr>next_free_cluster := h\<rparr>) = fat_link fs"
  by (intro ext) (simp add: fat_link_def)

lemma hint_chain_of [simp]: "chain_of (fs\<lparr>next_free_cluster := h\<rparr>) = chain_of fs"
  by (intro ext) (simp add: chain_of_def)

lemma hint_taken [simp]: "taken (fs\<lparr>next_free_cluster := h\<rparr>) = taken fs"
  by (intro ext) (simp add: taken_def)

section \<open>Allocating a chain\<close>

text \<open>Cluster numbers fit an entry and are not mistaken for the end of a chain.\<close>

definition fat_marks :: "fat_fs \<Rightarrow> bool" where
  "fat_marks fs \<longleftrightarrow> (\<forall>c. valid_cluster fs c \<longrightarrow>
     \<not> fat_is_eoc fs (of_nat c) \<and> trunc (ftype fs) (of_nat c) = of_nat c)"

definition fat_sound :: "fat_fs \<Rightarrow> bool" where
  "fat_sound fs \<longleftrightarrow> fat_geom fs \<and> fat_data fs \<and> fat_marks fs \<and> unat (cluster_count fs) < 2 ^ 31"

definition free_clusters :: "fat_fs \<Rightarrow> storage \<Rightarrow> nat set" where
  "free_clusters fs st = {c. valid_cluster fs c \<and> fent fs st c = 0}"

lemma finite_free: "finite (free_clusters fs st)"
  by (rule finite_subset [of _ "{..unat (fat_max_valid_cluster fs)}"]) (auto simp: free_clusters_def valid_cluster_def)

lemma hint_sound [simp]:
  "fat_sound (fs\<lparr>next_free_cluster := h\<rparr>) = fat_sound fs"
  "free_clusters (fs\<lparr>next_free_cluster := h\<rparr>) = free_clusters fs"
  by (intro ext | simp add: fat_sound_def fat_marks_def free_clusters_def)+

text \<open>\<open>cs\<close> was free in \<open>st0\<close> and is a chain in \<open>st\<close>; nothing else has changed.\<close>

definition linked :: "fat_fs \<Rightarrow> storage \<Rightarrow> storage \<Rightarrow> nat list \<Rightarrow> bool" where
  "linked fs st0 st cs \<longleftrightarrow> fat_disk fs st \<and> distinct cs \<and> set cs \<subseteq> free_clusters fs st0
     \<and> (\<forall>j < length cs. fent fs st (cs ! j) = (if Suc j < length cs then of_nat (cs ! Suc j) else fat_eoc_value fs))
     \<and> (\<forall>c. in_fat fs c \<longrightarrow> c \<notin> set cs \<longrightarrow> fent fs st c = fent fs st0 c)
     \<and> (\<forall>r < unat (total_sectors fs). \<not> in_table fs r \<longrightarrow> vsec fs st r = vsec fs st0 r)
     \<and> (mirrored fs st0 \<longrightarrow> mirrored fs st)"

text \<open>All entries and all data are as before.\<close>

definition restored :: "fat_fs \<Rightarrow> storage \<Rightarrow> storage \<Rightarrow> bool" where
  "restored fs st0 st \<longleftrightarrow> fat_disk fs st \<and> (\<forall>c. in_fat fs c \<longrightarrow> fent fs st c = fent fs st0 c)
     \<and> (\<forall>r < unat (total_sectors fs). \<not> in_table fs r \<longrightarrow> vsec fs st r = vsec fs st0 r)
     \<and> (mirrored fs st0 \<longrightarrow> mirrored fs st)"

lemma hint_linked [simp]:
  "linked (fs\<lparr>next_free_cluster := h\<rparr>) = linked fs"
  "restored (fs\<lparr>next_free_cluster := h\<rparr>) = restored fs"
  by (intro ext; simp add: linked_def restored_def cong: if_cong)+

lemma linkedD:
  assumes "linked fs st0 st cs"
  shows "fat_disk fs st" "distinct cs" "set cs \<subseteq> free_clusters fs st0"
    and "j < length cs \<Longrightarrow> fent fs st (cs ! j) = (if Suc j < length cs then of_nat (cs ! Suc j) else fat_eoc_value fs)"
    and "in_fat fs c \<Longrightarrow> c \<notin> set cs \<Longrightarrow> fent fs st c = fent fs st0 c"
    and "r < unat (total_sectors fs) \<Longrightarrow> \<not> in_table fs r \<Longrightarrow> vsec fs st r = vsec fs st0 r"
    and "mirrored fs st0 \<Longrightarrow> mirrored fs st"
  using assms unfolding linked_def by blast+

lemma linked_valid: "linked fs st0 st cs \<Longrightarrow> c \<in> set cs \<Longrightarrow> valid_cluster fs c"
  unfolding linked_def free_clusters_def by blast

lemma linked_nonzero:
  assumes s: "fat_sound fs" and l: "linked fs st0 st cs" and c: "c \<in> set cs"
  shows "fent fs st c \<noteq> 0"
proof -
  obtain j where j: "j < length cs" "c = cs ! j" using c by (auto simp: in_set_conv_nth)
  show ?thesis
  proof (cases "Suc j < length cs")
    case True
    then have v: "valid_cluster fs (cs ! Suc j)" using linked_valid [OF l] by simp
    have "unat (of_nat (cs ! Suc j) :: u32) = cs ! Suc j" "2 \<le> cs ! Suc j"
      using valid_clusterD(2,4) [OF _ v] s by (simp_all add: fat_sound_def)
    then have "(of_nat (cs ! Suc j) :: u32) \<noteq> 0" by (metis unat_0 not_numeral_le_zero)
    with True linkedD(4) [OF l j(1)] j show ?thesis by simp
  qed (use linkedD(4) [OF l j(1)] j eoc_is_eoc(2) in simp)
qed

lemma linked_free:
  assumes "fat_sound fs" "linked fs st0 st cs"
  shows "free_clusters fs st = free_clusters fs st0 - set cs"
proof -
  have "fent fs st c = fent fs st0 c" if "valid_cluster fs c" "c \<notin> set cs" for c
    using that valid_clusterD(1) [OF _ that(1)] assms(1) linkedD(5) [OF assms(2)] by (simp add: fat_sound_def)
  with linked_nonzero [OF assms] linkedD(3) [OF assms(2)] show ?thesis
    by (auto simp: free_clusters_def) metis
qed

text \<open>A linked list of nodes reaches exactly its members.\<close>

lemma reach_list:
  assumes "cs \<noteq> []" "\<And>j. j < length cs \<Longrightarrow> f (cs ! j) = (if Suc j < length cs then Some (cs ! Suc j) else None)"
  shows "{d. (hd cs, d) \<in> {(a, b). f a = Some b}\<^sup>*} = set cs"
  using assms
proof (induction cs)
  case (Cons c cs)
  let ?R = "{(a, b). f a = Some b}"
  show ?case
  proof (cases cs)
    case Nil
    then have "f c = None" using Cons.prems(2) [of 0] by simp
    then have "(c, d) \<in> ?R\<^sup>* \<longleftrightarrow> d = c" for d by (auto elim: converse_rtranclE)
    with Nil show ?thesis by auto
  next
    case (Cons c' r)
    then have fc: "f c = Some c'" using Cons.prems(2) [of 0] by simp
    have "{d. (hd cs, d) \<in> ?R\<^sup>*} = set cs"
    proof (rule Cons.IH)
      show "f (cs ! j) = (if Suc j < length cs then Some (cs ! Suc j) else None)" if "j < length cs" for j
        using Cons.prems(2) [of "Suc j"] that by simp
    qed (use Cons in simp)
    moreover have "(c, d) \<in> ?R\<^sup>* \<longleftrightarrow> d = c \<or> (c', d) \<in> ?R\<^sup>*" for d
      using fc by (auto elim: converse_rtranclE intro: converse_rtrancl_into_rtrancl)
    ultimately show ?thesis using Cons by auto
  qed
qed simp

lemma linked_link:
  assumes s: "fat_sound fs" and l: "linked fs st0 st cs" and j: "j < length cs"
  shows "fat_link fs st (cs ! j) = (if Suc j < length cs then Some (cs ! Suc j) else None)"
proof -
  have g: "fat_geom fs" using s by (simp add: fat_sound_def)
  have i: "in_fat fs (cs ! j)" using valid_clusterD(1) [OF g linked_valid [OF l]] j by simp
  show ?thesis
  proof (cases "Suc j < length cs")
    case True
    then have v: "valid_cluster fs (cs ! Suc j)" using linked_valid [OF l] by simp
    note d = valid_clusterD [OF g v]
    have "\<not> fat_is_eoc fs (of_nat (cs ! Suc j))" using s v by (simp add: fat_sound_def fat_marks_def)
    moreover have "\<not> (of_nat (cs ! Suc j) :: u32) < 2" "\<not> (of_nat (cs ! Suc j) :: u32) > fat_max_valid_cluster fs"
      using d v by (simp_all add: word_less_nat_alt valid_cluster_def)
    ultimately show ?thesis using True linkedD(4) [OF l j] i d(4) by (simp add: fat_link_def)
  next
    case False
    then show ?thesis using linkedD(4) [OF l j] eoc_is_eoc(1) by (simp add: fat_link_def Let_def)
  qed
qed

lemma linked_chain_of:
  "fat_sound fs \<Longrightarrow> linked fs st0 st cs \<Longrightarrow> cs \<noteq> [] \<Longrightarrow> chain_of fs st (hd cs) = set cs"
  unfolding chain_of_def by (rule reach_list) (auto simp: linked_link)

text \<open>Giving up releases what was taken.\<close>

lemma fail_free_view:
  assumes s: "fat_sound fs" and l: "linked fs st0 st cs" and ne: "cs \<noteq> []"
  shows "\<exists>st'. fail_free fs st (of_nat (hd cs)) = Some (Inl (-1), fs, st') \<and> restored fs st0 st'"
proof -
  have g: "fat_geom fs" using s by (simp add: fat_sound_def)
  have h: "hd cs \<in> set cs" using ne by simp
  note v = valid_clusterD [OF g linked_valid [OF l h]]
  obtain st' where f: "fat_free_loop fs st (of_nat (hd cs)) = Some (0, st')" "fat_disk fs st'"
    and e: "\<And>d. in_fat fs d \<Longrightarrow> fent fs st' d = (if d \<in> set cs then 0 else fent fs st d)"
    and sec: "\<And>r. r < unat (total_sectors fs) \<Longrightarrow> \<not> in_table fs r \<Longrightarrow> vsec fs st' r = vsec fs st r"
    and m: "mirrored fs st \<Longrightarrow> mirrored fs st'"
    using free_loop_view [OF g linkedD(1) [OF l] v(1,2)] unfolding linked_chain_of [OF s l ne] by blast
  have "fent fs st' c = fent fs st0 c" if "in_fat fs c" for c
    using e [OF that] linkedD(3,5) [OF l] that by (auto simp: free_clusters_def)
  then have "restored fs st0 st'"
    using f(2) sec m linkedD(6,7) [OF l] by (simp add: restored_def)
  with f(1) show ?thesis by (simp add: fail_free_def fat_free_chain_def)
qed

text \<open>One more cluster, linked behind the others.\<close>

lemma linked_snoc:
  assumes s: "fat_sound fs" and l: "linked fs st0 st cs" and c: "valid_cluster fs c" "fent fs st c = 0"
    and t: "taken fs st False c st1"
  shows "if cs = [] then linked fs st0 st1 [c]
     else \<exists>st2. fat_write_fat_entry fs st1 (of_nat (last cs)) (of_nat c) = (0, st2) \<and> linked fs st0 st2 (cs @ [c])"
proof -
  have g: "fat_geom fs" using s by (simp add: fat_sound_def)
  have "c \<in> free_clusters fs st" using c by (simp add: free_clusters_def)
  then have new: "c \<notin> set cs" "c \<in> free_clusters fs st0" using linked_free [OF s l] by auto
  have d1: "fat_disk fs st1" and e1: "\<And>x. in_fat fs x \<Longrightarrow> fent fs st1 x = (if x = c then fat_eoc_value fs else fent fs st x)"
    and v1: "\<And>r. r < unat (total_sectors fs) \<Longrightarrow> \<not> in_table fs r \<Longrightarrow> vsec fs st1 r = vsec fs st r"
    and m1: "mirrored fs st \<Longrightarrow> mirrored fs st1"
    using t unfolding taken_def by simp_all
  have inf: "in_fat fs x" if "valid_cluster fs x" for x using valid_clusterD(1) [OF g that] .
  show ?thesis
  proof (cases "cs = []")
    case True
    with l new d1 e1 v1 m1 inf [OF c(1)] linkedD [OF l] show ?thesis by (simp add: linked_def)
  next
    case False
    then have lc: "last cs \<in> set cs" by simp
    then have lv: "valid_cluster fs (last cs)" using linked_valid [OF l] by blast
    have tr: "trunc (ftype fs) (of_nat c) = of_nat c" using s c(1) by (simp add: fat_sound_def fat_marks_def)
    obtain st2 where w: "fat_write_fat_entry fs st1 (of_nat (last cs)) (of_nat c) = (0, st2)" "fat_disk fs st2"
      and e2: "\<And>x. in_fat fs x \<Longrightarrow> fent fs st2 x = (if x = last cs then of_nat c else fent fs st1 x)"
      and v2: "\<And>r. r < unat (total_sectors fs) \<Longrightarrow> \<not> in_table fs r \<Longrightarrow> vsec fs st2 r = vsec fs st1 r"
      and m2: "mirrored fs st1 \<Longrightarrow> mirrored fs st2"
      using write_entry_view [OF g d1 inf [OF lv], of "of_nat c"] unfolding tr by blast
    have "fent fs st2 ((cs @ [c]) ! j) =
        (if Suc j < length (cs @ [c]) then of_nat ((cs @ [c]) ! Suc j) else fat_eoc_value fs)" if j: "j < length (cs @ [c])" for j
    proof -
      consider "j = length cs" | "j < length cs" "Suc j = length cs" | "Suc j < length cs" using j by fastforce
      then show ?thesis
      proof cases
        case 1
        with e2 [OF inf [OF c(1)]] e1 [OF inf [OF c(1)]] new(1) lc show ?thesis by auto
      next
        case 2
        then have "cs ! j = last cs" by (metis diff_Suc_1 last_conv_nth False)
        with 2 e2 [OF inf [OF lv]] show ?thesis by (simp add: nth_append)
      next
        case 3
        then have x: "cs ! j \<in> set cs" by simp
        then have "cs ! j \<noteq> c" using new(1) by metis
        moreover have "cs ! j \<noteq> last cs"
          using 3 linkedD(2) [OF l] False by (simp add: last_conv_nth nth_eq_iff_index_eq)
        ultimately show ?thesis
          using 3 e2 [OF inf [OF linked_valid [OF l x]]] e1 [OF inf [OF linked_valid [OF l x]]] linkedD(4) [OF l, of j]
          by (simp add: nth_append)
      qed
    qed
    moreover have "fent fs st2 x = fent fs st0 x" if "in_fat fs x" "x \<notin> set (cs @ [c])" for x
      using that e2 [OF that(1)] e1 [OF that(1)] linkedD(5) [OF l that(1)] lc by auto
    ultimately have "linked fs st0 st2 (cs @ [c])"
      unfolding linked_def using w(2) new linkedD(2,3,6,7) [OF l] v1 v2 m1 m2 by auto
    with False w(1) show ?thesis by auto
  qed
qed

lemma payload_alloc_view:
  assumes s: "fat_sound fs"
  shows "linked fs st0 st cs \<Longrightarrow>
    \<exists>h st' r. payload_alloc (fs\<lparr>next_free_cluster := h0\<rparr>) st (map of_nat cs) n = Some (r, fs\<lparr>next_free_cluster := h\<rparr>, st')
     \<and> (case r of
          Inr al \<Rightarrow> \<exists>ds. al = map of_nat ds \<and> length ds = length cs + n \<and> linked fs st0 st' ds
        | Inl rc \<Rightarrow> rc = -1 \<and> restored fs st0 st' \<and> card (free_clusters fs st0) < length cs + n)"
proof (induction n arbitrary: cs st h0)
  case 0
  then show ?case by auto
next
  case (Suc n)
  let ?fs = "fs\<lparr>next_free_cluster := h0\<rparr>"
  have g: "fat_geom fs" and dt: "fat_data fs" using s by (simp_all add: fat_sound_def)
  have first: "hd (map of_nat cs) = (of_nat (hd cs) :: u32)" "last (map of_nat cs) = (of_nat (last cs) :: u32)" if "cs \<noteq> []"
    using that by (simp_all add: hd_map last_map)
  have ge2: "(of_nat c :: u32) \<ge> 2" if "c \<in> set cs" for c
    using valid_clusterD(2,4) [OF g linked_valid [OF Suc.prems that]] by (simp add: word_le_nat_alt)
  have al: "if \<exists>c. valid_cluster fs c \<and> fent fs st c = 0
     then \<exists>c st'. fat_alloc_cluster ?fs st False = (Some (of_nat c), next_hint ?fs c, st')
       \<and> valid_cluster fs c \<and> fent fs st c = 0 \<and> taken fs st False c st'
     else fat_alloc_cluster ?fs st False = (None, ?fs, st)"
    by (rule alloc_view [of ?fs, unfolded hint_simps hint_simps2 hint_simps3 hint_taken, OF g dt linkedD(1) [OF Suc.prems]])
  show ?case
  proof (cases "\<exists>c. valid_cluster fs c \<and> fent fs st c = 0")
    case True
    with al obtain c st1 where c: "fat_alloc_cluster ?fs st False = (Some (of_nat c), next_hint ?fs c, st1)"
      "valid_cluster fs c" "fent fs st c = 0" "taken fs st False c st1" by auto
    obtain h where nh: "next_hint ?fs c = fs\<lparr>next_free_cluster := h\<rparr>" by (simp add: next_hint_def)
    obtain st2 where l2: "linked fs st0 st2 (cs @ [c])"
      and step: "payload_alloc ?fs st (map of_nat cs) (Suc n) =
        payload_alloc (fs\<lparr>next_free_cluster := h\<rparr>) st2 (map of_nat (cs @ [c])) n"
    proof (cases "cs = []")
      case True
      with linked_snoc [OF s Suc.prems c(2-4)] that c(1) nh show ?thesis by simp
    next
      case False
      with linked_snoc [OF s Suc.prems c(2-4)] obtain st2 where st2:
        "fat_write_fat_entry fs st1 (of_nat (last cs)) (of_nat c) = (0, st2)" "linked fs st0 st2 (cs @ [c])" by auto
      have "fat_write_fat_entry (fs\<lparr>next_free_cluster := h\<rparr>) st1 (of_nat (last cs)) (of_nat c) = (0, st2)"
        using st2(1) by simp
      with False c(1) nh st2(2) first [OF False] ge2 [of "last cs"] show ?thesis
        by (intro that [of st2]) (simp_all add: Let_def)
    qed
    have "length (cs @ [c]) + n = length cs + Suc n" by simp
    with Suc.IH [OF l2, of h] show ?thesis unfolding step by (simp only:)
  next
    case False
    with al have none: "fat_alloc_cluster ?fs st False = (None, ?fs, st)" by simp
    from False have "free_clusters fs st = {}" by (auto simp: free_clusters_def)
    then have "free_clusters fs st0 \<subseteq> set cs" using linked_free [OF s Suc.prems] by auto
    then have card: "card (free_clusters fs st0) < length cs + Suc n"
      by (metis add_Suc_right card_length card_mono finite_set le_add1 le_imp_less_Suc le_trans)
    show ?thesis
    proof (cases "cs = []")
      case True
      with Suc.prems have "restored fs st0 st" by (simp add: linked_def restored_def)
      with True none card show ?thesis by (auto simp: Let_def)
    next
      case False
      from fail_free_view [of ?fs st0 st cs] s Suc.prems False obtain st' where
        "fail_free ?fs st (of_nat (hd cs)) = Some (Inl (-1) :: int + u32 list, ?fs, st')" "restored fs st0 st'"
        by auto
      with none card first [OF False] ge2 [of "hd cs"] False show ?thesis
        by (intro exI [of _ h0] exI [of _ st'] exI [of _ "Inl (-1)"]) (simp add: Let_def)
    qed
  qed
qed

section \<open>Filling clusters\<close>

definition clus :: "fat_fs \<Rightarrow> storage \<Rightarrow> nat \<Rightarrow> u8 list" where
  "clus fs st c = concat (map (vsec fs st) [cluster_start fs c..<cluster_start fs c + unat (sectors_per_cluster fs)])"

abbreviation clus_bytes :: "fat_fs \<Rightarrow> nat" where
  "clus_bytes fs \<equiv> unat (sectors_per_cluster fs) * 512"

lemma concat_slices: "concat (map (\<lambda>j. take k (drop (j * k) bs)) [0..<n]) = take (n * k) bs"
proof (induction n)
  case (Suc n)
  have "take (n * k) bs @ take k (drop (n * k) bs) = take (n * k + k) bs" by (rule take_add [symmetric])
  with Suc show ?case by (simp add: add.commute)
qed simp

lemma upt_shift: "[r..<r + n] = map (\<lambda>j. r + j) [0..<n]"
  by (induction n) simp_all

lemma concat_slices_at: "concat (map (\<lambda>q. take k (drop ((q - r) * k) bs)) [r..<r + n]) = take (n * k) bs"
  by (simp add: upt_shift o_def concat_slices)

text \<open>\<open>st'\<close> is \<open>st\<close> with the bytes of one cluster replaced.\<close>

definition filled :: "fat_fs \<Rightarrow> storage \<Rightarrow> nat \<Rightarrow> u8 list \<Rightarrow> storage \<Rightarrow> bool" where
  "filled fs st c bs st' \<longleftrightarrow> fat_disk fs st' \<and> clus fs st' c = bs
     \<and> (\<forall>q < unat (total_sectors fs). \<not> in_cluster fs c q \<longrightarrow> vsec fs st' q = vsec fs st q)"

lemma filledI:
  assumes s: "fat_sound fs" and c: "valid_cluster fs c" and d: "fat_disk fs st'" and len: "length bs = clus_bytes fs"
    and v: "\<And>q. q < unat (total_sectors fs) \<Longrightarrow> vsec fs st' q =
      (if cluster_start fs c \<le> q \<and> q < cluster_start fs c + unat (sectors_per_cluster fs)
       then take 512 (drop ((q - cluster_start fs c) * 512) bs) else vsec fs st q)"
  shows "filled fs st c bs st'"
proof -
  let ?r = "cluster_start fs c" and ?n = "unat (sectors_per_cluster fs)"
  have "?r + ?n \<le> unat (total_sectors fs)" using cluster_sector(2) [OF _ _ c] s by (simp add: fat_sound_def)
  then have "map (vsec fs st') [?r..<?r + ?n] = map (\<lambda>q. take 512 (drop ((q - ?r) * 512) bs)) [?r..<?r + ?n]"
    using v by (intro map_cong) auto
  then have "clus fs st' c = bs" unfolding clus_def by (simp only: concat_slices_at) (simp add: len)
  with d v show ?thesis by (auto simp: filled_def in_cluster_def)
qed

lemma write_cluster_view:
  assumes s: "fat_sound fs" and d: "fat_disk fs st" and c: "valid_cluster fs c" and len: "length bs = clus_bytes fs"
  shows "\<exists>st'. fat_write_sectors fs st (fat_cluster_to_sector fs (of_nat c)) (sectors_per_cluster fs) bs = (0, st')
     \<and> filled fs st c bs st'"
proof -
  let ?n = "unat (sectors_per_cluster fs)"
  have g: "fat_geom fs" "fat_data fs" using s by (simp_all add: fat_sound_def)
  note cs = cluster_sector [OF g c]
  have "0 < ?n" "?n \<le> 255" "of_nat ?n = sectors_per_cluster fs"
    using g(2) unsigned_less [of "sectors_per_cluster fs", where 'a = nat] by (simp_all add: fat_data_def unat_gt_0)
  with write_sectors_view [OF d cs(2) this(1,2) len] obtain st' where
    "fat_write_sectors fs st (fat_cluster_to_sector fs (of_nat c)) (sectors_per_cluster fs) bs = (0, st')" "fat_disk fs st'"
    "\<And>q. q < unat (total_sectors fs) \<Longrightarrow> vsec fs st' q = (if cluster_start fs c \<le> q \<and> q < cluster_start fs c + ?n
        then take 512 (drop ((q - cluster_start fs c) * 512) bs) else vsec fs st q)"
    by (auto simp: cs(1))
  with filledI [OF s c _ len] show ?thesis by blast
qed

lemma write_by_sector_view:
  "fat_disk fs st \<Longrightarrow> r + n \<le> unat (total_sectors fs) \<Longrightarrow> length src \<le> n * 512 \<Longrightarrow>
     \<exists>st'. write_by_sector fs st (of_nat r) n src = (True, st') \<and> fat_disk fs st'
     \<and> (\<forall>q < unat (total_sectors fs). vsec fs st' q = (if r \<le> q \<and> q < r + n
          then take 512 (drop ((q - r) * 512) (src @ replicate (n * 512 - length src) 0)) else vsec fs st q))"
proof (induction n arbitrary: st r src)
  case (Suc n)
  define t where "t = (if length src < 512 then length src else 512)"
  define sec where "sec = take t src @ replicate (512 - t) 0"
  have len: "length sec = 512" by (auto simp: sec_def t_def)
  have r: "r < unat (total_sectors fs)" using Suc.prems(2) by simp
  from write_sector_view [OF Suc.prems(1) r len] obtain st1
    where w: "fat_write_sector fs st (of_nat r) sec = (0, st1)" "fat_disk fs st1"
      and v: "\<And>q. q < unat (total_sectors fs) \<Longrightarrow> vsec fs st1 q = (if q = r then sec else vsec fs st q)"
    by auto
  have src: "length (drop t src) \<le> n * 512" using Suc.prems(3) by (auto simp: t_def)
  have "r + 1 + n \<le> unat (total_sectors fs)" using Suc.prems(2) by simp
  from Suc.IH [OF w(2) this src] obtain st2
    where w2: "write_by_sector fs st1 (of_nat (r + 1)) n (drop t src) = (True, st2)" "fat_disk fs st2"
      and v2: "\<And>q. q < unat (total_sectors fs) \<Longrightarrow> vsec fs st2 q = (if r + 1 \<le> q \<and> q < r + 1 + n
          then take 512 (drop ((q - (r + 1)) * 512) (drop t src @ replicate (n * 512 - length (drop t src)) 0))
          else vsec fs st1 q)"
    by blast
  define X where "X = drop t src @ replicate (n * 512 - length (drop t src)) 0"
  have all: "src @ replicate (Suc n * 512 - length src) 0 = sec @ X"
  proof (cases "length src < 512")
    case True
    then have "Suc n * 512 - length src = (512 - length src) + n * 512" by simp
    then have "replicate (Suc n * 512 - length src) (0 :: u8) = replicate (512 - length src) 0 @ replicate (n * 512) 0"
      by (simp only: replicate_add)
    with True show ?thesis by (simp add: sec_def t_def X_def)
  next
    case False
    then have "Suc n * 512 - length src = n * 512 - (length src - 512)" by simp
    with False show ?thesis by (simp add: sec_def t_def X_def)
  qed
  have "vsec fs st2 q = (if r \<le> q \<and> q < r + Suc n
      then take 512 (drop ((q - r) * 512) (src @ replicate (Suc n * 512 - length src) 0)) else vsec fs st q)"
    if q: "q < unat (total_sectors fs)" for q
  proof -
    consider "q < r \<or> r + Suc n \<le> q" | "q = r" | "r + 1 \<le> q" "q < r + Suc n" by linarith
    then show ?thesis
    proof cases
      case 3
      then have "(q - r) * 512 = 512 + (q - (r + 1)) * 512" by simp
      then have "drop ((q - r) * 512) (sec @ X) = drop ((q - (r + 1)) * 512) X" using len by simp
      with 3 v2 [OF q, folded X_def] show ?thesis unfolding all by simp
    qed (unfold all, use v [OF q] v2 [OF q, folded X_def] len in auto)
  qed
  moreover have "write_by_sector fs st (of_nat r) (Suc n) src = (True, st2)"
    unfolding write_by_sector.simps Let_def ATA_SECTOR_SIZE_def t_def [symmetric] sec_def [symmetric]
    using w(1) w2(1) by (simp add: add.commute)
  ultimately show ?case using w2(2) by blast
qed auto

text \<open>\<open>st'\<close> is \<open>st\<close> with the bytes of the clusters \<open>cs\<close> replaced.\<close>

definition all_filled :: "fat_fs \<Rightarrow> storage \<Rightarrow> nat list \<Rightarrow> u8 list \<Rightarrow> storage \<Rightarrow> bool" where
  "all_filled fs st cs bs st' \<longleftrightarrow> fat_disk fs st' \<and> concat (map (clus fs st') cs) = bs
     \<and> (\<forall>q < unat (total_sectors fs). (\<forall>c\<in>set cs. \<not> in_cluster fs c q) \<longrightarrow> vsec fs st' q = vsec fs st q)"

lemma clus_cong:
  assumes "fat_sound fs" "valid_cluster fs c" "\<And>q. q < unat (total_sectors fs) \<Longrightarrow> in_cluster fs c q \<Longrightarrow> vsec fs st' q = vsec fs st q"
  shows "clus fs st' c = clus fs st c"
proof -
  have "cluster_start fs c + unat (sectors_per_cluster fs) \<le> unat (total_sectors fs)"
    using cluster_sector(2) [OF _ _ assms(2)] assms(1) by (simp add: fat_sound_def)
  with assms(3) have "map (vsec fs st') [cluster_start fs c..<cluster_start fs c + unat (sectors_per_cluster fs)] =
      map (vsec fs st) [cluster_start fs c..<cluster_start fs c + unat (sectors_per_cluster fs)]"
    by (intro map_cong) (auto simp: in_cluster_def)
  then show ?thesis unfolding clus_def by (simp only:)
qed

lemma all_filled_Cons:
  assumes s: "fat_sound fs" and f: "filled fs st c bs st1" and a: "all_filled fs st1 cs bs' st'"
    and v: "valid_cluster fs c" "\<And>x. x \<in> set cs \<Longrightarrow> valid_cluster fs x" "c \<notin> set cs"
  shows "all_filled fs st (c # cs) (bs @ bs') st'"
proof -
  have "clus fs st' c = clus fs st1 c"
  proof (rule clus_cong [OF s v(1)])
    fix q assume q: "q < unat (total_sectors fs)" "in_cluster fs c q"
    have "\<not> in_cluster fs x q" if "x \<in> set cs" for x
      using clusters_disjoint [of c x fs q] q(2) v that by (metis valid_cluster_def)
    with a q show "vsec fs st' q = vsec fs st1 q" unfolding all_filled_def by blast
  qed
  with f a show ?thesis by (auto simp: all_filled_def filled_def)
qed

lemma payload_write_view:
  assumes s: "fat_sound fs"
  shows "fat_disk fs st \<Longrightarrow> distinct cs \<Longrightarrow> (\<And>c. c \<in> set cs \<Longrightarrow> valid_cluster fs c) \<Longrightarrow>
     length src \<le> length cs * clus_bytes fs \<Longrightarrow>
     \<exists>st'. payload_write kb fs st (map of_nat cs) src = (True, st')
       \<and> all_filled fs st cs (src @ replicate (length cs * clus_bytes fs - length src) 0) st'"
proof (induction cs arbitrary: st src)
  case Nil
  then show ?case by (simp add: all_filled_def)
next
  case (Cons c cs)
  let ?b = "clus_bytes fs"
  have v: "valid_cluster fs c" using Cons.prems(3) by simp
  have g: "fat_geom fs" "fat_data fs" using s by (simp_all add: fat_sound_def)
  have step: "\<exists>st'. payload_write kb fs st (map of_nat (c # cs)) src = (True, st')
       \<and> all_filled fs st (c # cs) (bs @ rest @ replicate (length cs * ?b - length rest) 0) st'"
    if f: "filled fs st c bs st1" and rest: "length rest \<le> length cs * ?b"
      and p: "payload_write kb fs st (map of_nat (c # cs)) src = payload_write kb fs st1 (map of_nat cs) rest"
    for bs st1 rest
  proof -
    have "fat_disk fs st1" using f by (simp add: filled_def)
    from Cons.IH [OF this _ _ rest] Cons.prems(2,3) obtain st' where
      "payload_write kb fs st1 (map of_nat cs) rest = (True, st')"
      "all_filled fs st1 cs (rest @ replicate (length cs * ?b - length rest) 0) st'" by auto
    with all_filled_Cons [OF s f] v Cons.prems(2,3) p show ?thesis by auto
  qed
  show ?case
  proof (cases "length src \<ge> ?b")
    case True
    from write_cluster_view [OF s Cons.prems(1) v, of "take ?b src"] True obtain st1 where
      "fat_write_sectors fs st (fat_cluster_to_sector fs (of_nat c)) (sectors_per_cluster fs) (take ?b src) = (0, st1)"
      "filled fs st c (take ?b src) st1" by auto
    moreover have "length (drop ?b src) \<le> length cs * ?b" using Cons.prems(4) by simp
    moreover have "length (c # cs) * ?b - length src = length cs * ?b - length (drop ?b src)" using True by simp
    ultimately show ?thesis
      using step [of "take ?b src" st1 "drop ?b src"] True
      by (simp add: Let_def ATA_SECTOR_SIZE_def append_assoc [symmetric] del: append_assoc)
  next
    case False
    let ?bs = "src @ replicate (?b - length src) 0"
    have "\<exists>st1. filled fs st c ?bs st1
       \<and> payload_write kb fs st (map of_nat (c # cs)) src = payload_write kb fs st1 (map of_nat cs) []"
    proof (cases kb)
      case True
      with False write_cluster_view [OF s Cons.prems(1) v, of ?bs] show ?thesis
        by (auto simp: Let_def ATA_SECTOR_SIZE_def)
    next
      case nb: False
      note cs = cluster_sector [OF g v]
      have "length src \<le> unat (sectors_per_cluster fs) * 512" using False by simp
      from write_by_sector_view [OF Cons.prems(1) cs(2) this] obtain st1 where
        "write_by_sector fs st (fat_cluster_to_sector fs (of_nat c)) (unat (sectors_per_cluster fs)) src = (True, st1)"
        "fat_disk fs st1" "\<And>q. q < unat (total_sectors fs) \<Longrightarrow> vsec fs st1 q = (if cluster_start fs c \<le> q
          \<and> q < cluster_start fs c + unat (sectors_per_cluster fs)
          then take 512 (drop ((q - cluster_start fs c) * 512) ?bs) else vsec fs st q)"
        by (auto simp: cs(1))
      with filledI [OF s v, of st1 ?bs st] False nb show ?thesis
        by (auto simp: Let_def ATA_SECTOR_SIZE_def)
    qed
    moreover have "length (c # cs) * ?b - length src = (?b - length src) + length cs * ?b" using False by simp
    ultimately show ?thesis
      using step [of ?bs _ "[]"] by (auto simp: replicate_add simp del: payload_write.simps)
  qed
qed

section \<open>Reading a chain\<close>

definition is_chain :: "fat_fs \<Rightarrow> storage \<Rightarrow> nat list \<Rightarrow> bool" where
  "is_chain fs st cs \<longleftrightarrow> distinct cs \<and> (\<forall>c\<in>set cs. valid_cluster fs c)
     \<and> (\<forall>j < length cs. fent fs st (cs ! j) = (if Suc j < length cs then of_nat (cs ! Suc j) else fat_eoc_value fs))"

lemma is_chain_tl: "is_chain fs st (c # cs) \<Longrightarrow> is_chain fs st cs"
  unfolding is_chain_def by (metis Suc_less_eq distinct.simps(2) length_Cons list.set_intros(2) nth_Cons_Suc)

lemma is_chain_hd: "is_chain fs st (c # c' # cs) \<Longrightarrow> fent fs st c = of_nat c'"
  unfolding is_chain_def by (auto dest!: spec [of _ 0])

lemma linked_is_chain: "linked fs st0 st cs \<Longrightarrow> is_chain fs st cs"
  using linked_valid [of fs st0 st cs] unfolding is_chain_def linked_def by blast

lemma read_sectors_view:
  "fat_disk fs st \<Longrightarrow> r + n \<le> unat (total_sectors fs) \<Longrightarrow>
     read_sectors fs st (of_nat r) n k = (True, take k (concat (map (vsec fs st) [r..<r + n])))"
proof (induction n arbitrary: r k)
  case (Suc n)
  have r: "r < unat (total_sectors fs)" using Suc.prems(2) by simp
  note v = vsec_read [OF Suc.prems(1) r]
  define Y where "Y = concat (map (vsec fs st) [r + 1..<(r + 1) + n])"
  have up: "concat (map (vsec fs st) [r..<r + Suc n]) = vsec fs st r @ Y"
    by (simp add: upt_conv_Cons Y_def del: upt_Suc)
  have nxt: "read_sectors fs st (of_nat r + 1) n k' = (True, take k' Y)" for k'
    using Suc.IH [of "r + 1" k'] Suc.prems by (simp add: add.commute Y_def)
  show ?case
  proof (cases "k = 0")
    case False
    define t where "t = (if k < 512 then k else 512)"
    have "take t (vsec fs st r) @ take (k - t) Y = take k (vsec fs st r @ Y)" using v by (auto simp: t_def)
    with False v show ?thesis
      unfolding up read_sectors.simps Let_def ATA_SECTOR_SIZE_def t_def [symmetric] nxt by simp
  qed simp
qed simp

lemma length_clus:
  assumes "fat_sound fs" "fat_disk fs st" "valid_cluster fs c"
  shows "length (clus fs st c) = clus_bytes fs"
proof -
  have e: "cluster_start fs c + unat (sectors_per_cluster fs) \<le> unat (total_sectors fs)"
    using cluster_sector(2) [OF _ _ assms(3)] assms(1) by (simp add: fat_sound_def)
  have "map length (map (vsec fs st) [cluster_start fs c..<cluster_start fs c + n]) = replicate n 512"
    if "n \<le> unat (sectors_per_cluster fs)" for n
    using that vsec_read [OF assms(2)] e by (induction n) (auto simp: replicate_append_same)
  then show ?thesis unfolding clus_def length_concat by (simp only: sum_list_replicate order_refl) simp
qed

lemma read_chain_view:
  assumes s: "fat_sound fs" and d: "fat_disk fs st"
  shows "is_chain fs st cs \<Longrightarrow> cs \<noteq> [] \<Longrightarrow> length cs \<le> guard \<Longrightarrow> k \<le> length cs * clus_bytes fs \<Longrightarrow>
    read_chain fs st guard (of_nat (hd cs)) k = (0, take k (concat (map (clus fs st) cs)))"
proof (induction cs arbitrary: guard k)
  case (Cons c cs)
  have g: "fat_geom fs" "fat_data fs" using s by (simp_all add: fat_sound_def)
  have v: "valid_cluster fs c" using Cons.prems(1) by (simp add: is_chain_def)
  note vc = valid_clusterD [OF g(1) v] and sec = cluster_sector [OF g v]
  have m: "2 \<le> unat (fat_max_valid_cluster fs)" using v by (simp add: valid_cluster_def)
  have ok: "\<not> (of_nat c :: u32) < 2" "\<not> of_nat c > cluster_count fs + 1"
    using vc(2,4) v max_cluster_le(2) [OF m] by (simp_all add: word_less_nat_alt valid_cluster_def)
  have rd: "read_sectors fs st (fat_cluster_to_sector fs (of_nat c)) (unat (sectors_per_cluster fs)) k =
      (True, take k (clus fs st c))"
    unfolding sec(1) clus_def by (rule read_sectors_view [OF d sec(2)])
  obtain gd where gd: "guard = Suc gd" using Cons.prems(3) by (cases guard) auto
  note len = length_clus [OF s d v]
  show ?case
  proof (cases "k \<le> clus_bytes fs")
    case True
    then show ?thesis using ok rd len by (simp add: gd)
  next
    case False
    then obtain c' r where cs: "cs = c' # r" using Cons.prems(4) by (cases cs) auto
    have v': "valid_cluster fs c'" and ne: "c' \<noteq> c" using Cons.prems(1) cs by (auto simp: is_chain_def)
    have "(of_nat c' :: u32) \<noteq> of_nat c"
      using ne vc(4) valid_clusterD(4) [OF g(1) v'] by metis
    moreover have "\<not> fat_is_eoc fs (of_nat c')" using s v' by (simp add: fat_sound_def fat_marks_def)
    moreover have "fat_read_fat_entry fs st (of_nat c) = Some (of_nat c')"
      using read_entry_fent [OF g(1) d vc(1)] is_chain_hd Cons.prems(1) cs by simp
    moreover have "read_chain fs st gd (of_nat (hd cs)) (k - clus_bytes fs) =
        (0, take (k - clus_bytes fs) (concat (map (clus fs st) cs)))"
      using Cons.IH [OF is_chain_tl [OF Cons.prems(1)]] Cons.prems(3,4) cs gd by simp
    ultimately show ?thesis
      using ok rd len False by (simp add: gd cs)
  qed
qed simp

section \<open>A payload\<close>

lemma mount_fat_sound:
  assumes m: "fat_fs_mount st drive lba = Inr fs" and sane: "mount_sane fs" and cc: "unat (cluster_count fs) < 0x0FFFFFF6"
  shows "fat_sound fs"
proof -
  note ms = mount_sound_spec [OF m sane] and f = mount_facts [OF m]
  let ?n = "(total_sectors fs - first_data_sector fs) div ucast (sectors_per_cluster fs)"
  have "cluster_count fs \<le> ?n" using f by (simp add: Let_def split: if_splits)
  then have cn: "unat (cluster_count fs) \<le> unat ?n" by (simp add: word_le_nat_alt)
  have ty: "ftype fs = (if ?n < 4085 then FAT_TYPE_12 else if ?n < 65525 then FAT_TYPE_16 else FAT_TYPE_32)"
    using f by (simp add: Let_def)
  have "\<not> fat_is_eoc fs (of_nat c) \<and> trunc (ftype fs) (of_nat c) = of_nat c" if v: "valid_cluster fs c" for c
  proof -
    have u: "unat (of_nat c :: u32) = c" using valid_clusterD(4) [OF ms(1) v] .
    have le: "c \<le> unat (cluster_count fs) + 1" using valid_clusterD(5) [OF ms(1) v] by simp
    have t: "(of_nat c :: u32) AND mask k = of_nat c" if "c < 2 ^ k" for k
      using that u by (metis (no_types, lifting) take_bit_eq_mask take_bit_nat_eq_self unsigned_take_bit_eq word_unat_eq_iff)
    consider "ftype fs = FAT_TYPE_12" "c < 4086" | "ftype fs = FAT_TYPE_16" "c < 65526" | "ftype fs = FAT_TYPE_32" "c < 0x0FFFFFF7"
      using ty cn le cc by (auto simp: word_less_nat_alt split: if_splits)
    then show ?thesis
    proof cases
      case 1
      with t [of 12] u show ?thesis by (simp add: fat_is_eoc_def trunc_def word_le_nat_alt masks)
    next
      case 2
      with t [of 16] u show ?thesis by (simp add: fat_is_eoc_def trunc_def word_le_nat_alt masks)
    next
      case 3
      with t [of 28] u show ?thesis by (simp add: fat_is_eoc_def trunc_def word_le_nat_alt masks)
    qed
  qed
  with ms cc show ?thesis by (simp add: fat_sound_def fat_marks_def)
qed

text \<open>\<open>data\<close> is stored in the clusters \<open>cs\<close>, which were free; everything else is as before.\<close>

definition stored :: "fat_fs \<Rightarrow> storage \<Rightarrow> storage \<Rightarrow> nat list \<Rightarrow> u8 list \<Rightarrow> bool" where
  "stored fs st st' cs data \<longleftrightarrow> fat_disk fs st' \<and> is_chain fs st' cs \<and> set cs \<subseteq> free_clusters fs st
     \<and> (\<forall>c. in_fat fs c \<longrightarrow> c \<notin> set cs \<longrightarrow> fent fs st' c = fent fs st c)
     \<and> (\<forall>q < unat (total_sectors fs). \<not> in_table fs q \<longrightarrow> (\<forall>c\<in>set cs. \<not> in_cluster fs c q) \<longrightarrow> vsec fs st' q = vsec fs st q)
     \<and> (mirrored fs st \<longrightarrow> mirrored fs st')
     \<and> concat (map (clus fs st') cs) = data @ replicate (length cs * clus_bytes fs - length data) 0"

lemma linked_eoc:
  assumes s: "fat_sound fs" and l: "linked fs st0 st cs" and ne: "cs \<noteq> []"
  shows "\<exists>st'. fat_write_fat_entry fs st (of_nat (last cs)) (fat_eoc_value fs) = (0, st') \<and> linked fs st0 st' cs"
proof -
  have g: "fat_geom fs" using s by (simp add: fat_sound_def)
  have lc: "last cs \<in> set cs" using ne by simp
  have inf: "in_fat fs c" if "c \<in> set cs" for c using valid_clusterD(1) [OF g linked_valid [OF l that]] .
  obtain st' where w: "fat_write_fat_entry fs st (of_nat (last cs)) (fat_eoc_value fs) = (0, st')" "fat_disk fs st'"
    and e: "\<And>c. in_fat fs c \<Longrightarrow> fent fs st' c = (if c = last cs then fat_eoc_value fs else fent fs st c)"
    and v: "\<And>r. r < unat (total_sectors fs) \<Longrightarrow> \<not> in_table fs r \<Longrightarrow> vsec fs st' r = vsec fs st r"
    and m: "mirrored fs st \<Longrightarrow> mirrored fs st'"
    using write_entry_view [OF g linkedD(1) [OF l] inf [OF lc], of "fat_eoc_value fs"] unfolding trunc_eoc by blast
  have last: "fent fs st (last cs) = fat_eoc_value fs"
    using linkedD(4) [OF l, of "length cs - 1"] ne by (simp add: last_conv_nth)
  have "fent fs st' c = fent fs st c" if "in_fat fs c" for c using e [OF that] last by simp
  then have "linked fs st0 st' cs"
    using l w(2) v m inf unfolding linked_def by simp
  with w(1) show ?thesis by blast
qed

lemma all_filled_stored:
  assumes s: "fat_sound fs" and l: "linked fs st st2 cs"
    and a: "all_filled fs st2 cs (data @ replicate (length cs * clus_bytes fs - length data) 0) st'"
  shows "stored fs st st' cs data"
proof -
  have g: "fat_geom fs" "fat_data fs" using s by (simp_all add: fat_sound_def)
  have tab: "vsec fs st' q = vsec fs st2 q" if "q < unat (total_sectors fs)" "in_table fs q" for q
    using a that cluster_sector(3) [OF g linked_valid [OF l]] unfolding all_filled_def by blast
  have ent: "fent fs st' c = fent fs st2 c" if "in_fat fs c" for c by (rule fent_cong [OF g(1) that tab])
  have inf: "in_fat fs c" if "c \<in> set cs" for c using valid_clusterD(1) [OF g(1) linked_valid [OF l that]] .
  have "is_chain fs st' cs" using linked_is_chain [OF l] ent inf unfolding is_chain_def by simp
  moreover have "mirrored fs st'" if "mirrored fs st"
    by (rule mirrored_cong [OF g(1) tab linkedD(7) [OF l that]])
  ultimately show ?thesis
    using a l ent linkedD [OF l] unfolding stored_def all_filled_def by auto
qed

lemma clusters_needed_enough:
  assumes s: "fat_sound fs" and len: "length data < 2 ^ 32"
  shows "length data \<le> clusters_needed fs (length data) * clus_bytes fs"
    and "data \<noteq> [] \<Longrightarrow> 0 < clusters_needed fs (length data)"
proof -
  let ?b = "clus_bytes fs" let ?l = "length data"
  have b: "0 < ?b" using s by (simp add: fat_sound_def fat_data_def unat_gt_0)
  have q: "(?l + ?b - 1) div ?b < 2 ^ 32"
  proof (cases "?l = 0")
    case False
    then obtain l' b' where lb: "?l = Suc l'" "?b = Suc b'" using b by (metis not0_implies_Suc less_irrefl)
    have "?l + ?b - 1 \<le> ?l * ?b" unfolding lb by simp
    then have "(?l + ?b - 1) div ?b \<le> (?l * ?b) div ?b" by (rule div_le_mono)
    also have "\<dots> = ?l" using b by simp
    finally show ?thesis using len by simp
  qed (use b in simp)
  have n: "clusters_needed fs ?l = (?l + ?b - 1) div ?b"
    using q by (simp add: clusters_needed_def ATA_SECTOR_SIZE_def unat_of_nat_le Let_def)
  have "?l + ?b - 1 < ((?l + ?b - 1) div ?b + 1) * ?b"
    using b by (simp add: dividend_less_div_times)
  then show "?l \<le> clusters_needed fs ?l * ?b" unfolding n by simp
  show "0 < clusters_needed fs ?l" if "data \<noteq> []"
    unfolding n using that b by (cases data) (simp_all add: div_greater_zero_iff)
qed

lemma payload_view:
  assumes s: "fat_sound fs" and d: "fat_disk fs st" and ne: "data \<noteq> []" and len: "length data < 2 ^ 32"
  shows "\<exists>h st' r. fat_write_file_payload True kb fs st data = Some (r, fs\<lparr>next_free_cluster := h\<rparr>, st')
     \<and> (case r of
          Inr first \<Rightarrow> \<exists>cs. cs \<noteq> [] \<and> first = of_nat (hd cs) \<and> length cs = clusters_needed fs (length data) \<and> stored fs st st' cs data
        | Inl rc \<Rightarrow> rc = -1 \<and> restored fs st st' \<and> card (free_clusters fs st) < clusters_needed fs (length data))"
proof -
  let ?n = "clusters_needed fs (length data)"
  have g: "fat_geom fs" using s by (simp add: fat_sound_def)
  have "linked fs st st []" using d by (simp add: linked_def)
  from payload_alloc_view [OF s this, of "next_free_cluster fs" ?n] obtain h st1 r1 where
    al: "payload_alloc fs st [] ?n = Some (r1, fs\<lparr>next_free_cluster := h\<rparr>, st1)" and
    r1: "case r1 of Inr al \<Rightarrow> \<exists>ds. al = map of_nat ds \<and> length ds = length ([] :: nat list) + ?n \<and> linked fs st st1 ds
        | Inl rc \<Rightarrow> rc = -1 \<and> restored fs st st1 \<and> card (free_clusters fs st) < length ([] :: nat list) + ?n"
    by auto
  show ?thesis
  proof (cases r1)
    case (Inl rc)
    then have "fat_write_file_payload True kb fs st data = Some (Inl rc, fs\<lparr>next_free_cluster := h\<rparr>, st1)"
      using al ne by (simp add: fat_write_file_payload_def)
    with r1 Inl show ?thesis by auto
  next
    case (Inr a)
    with r1 obtain cs where cs: "a = map of_nat cs" "length cs = ?n" "linked fs st st1 cs" by auto
    have csne: "cs \<noteq> []" using clusters_needed_enough(2) [OF s len ne] cs(2) by auto
    have fl: "hd (map of_nat cs) = (of_nat (hd cs) :: u32)" "last (map of_nat cs) = (of_nat (last cs) :: u32)"
      using csne by (simp_all add: hd_map last_map)
    have "valid_cluster fs (last cs)" using linked_valid [OF cs(3)] csne by simp
    then have ge2: "(of_nat (last cs) :: u32) \<ge> 2" using valid_clusterD(2,4) [OF g] by (simp add: word_le_nat_alt)
    obtain st2 where e: "fat_write_fat_entry fs st1 (of_nat (last cs)) (fat_eoc_value fs) = (0, st2)" "linked fs st st2 cs"
      using linked_eoc [OF s cs(3) csne] by blast
    have "length data \<le> length cs * clus_bytes fs" using clusters_needed_enough(1) [OF s len] cs(2) by simp
    from payload_write_view [of "fs\<lparr>next_free_cluster := h\<rparr>" st2 cs data kb] this s linkedD(1,2) [OF e(2)] linked_valid [OF e(2)]
    obtain st3 where w: "payload_write kb (fs\<lparr>next_free_cluster := h\<rparr>) st2 (map of_nat cs) data = (True, st3)"
      and "all_filled (fs\<lparr>next_free_cluster := h\<rparr>) st2 cs (data @ replicate (length cs * clus_bytes fs - length data) 0) st3"
      by auto
    moreover have "clus (fs\<lparr>next_free_cluster := h\<rparr>) = clus fs" by (intro ext) (simp add: clus_def)
    ultimately have "all_filled fs st2 cs (data @ replicate (length cs * clus_bytes fs - length data) 0) st3"
      by (simp add: all_filled_def)
    then have "stored fs st st3 cs data" by (rule all_filled_stored [OF s e(2)])
    moreover have "fat_write_file_payload True kb fs st data = Some (Inr (of_nat (hd cs)), fs\<lparr>next_free_cluster := h\<rparr>, st3)"
      using al Inr cs(1) ne csne fl ge2 e(1) w by (simp add: fat_write_file_payload_def Let_def)
    ultimately show ?thesis using csne cs(2) by auto
  qed
qed

lemma chain_fits_guard:
  assumes s: "fat_sound fs" and c: "is_chain fs st cs"
  shows "length cs \<le> unat (cluster_count fs + 2)"
proof -
  have g: "fat_geom fs" "unat (cluster_count fs) < 2 ^ 31" using s by (simp_all add: fat_sound_def)
  have "set cs \<subseteq> {2..<unat (cluster_count fs) + 2}"
    using c valid_clusterD(2,5) [OF g(1)] unfolding is_chain_def by auto
  then have "card (set cs) \<le> card {2..<unat (cluster_count fs) + 2}" by (rule card_mono [OF finite_atLeastLessThan])
  then have "card (set cs) \<le> unat (cluster_count fs)" by (simp only: card_atLeastLessThan diff_add_inverse2)
  moreover have "card (set cs) = length cs" using c by (simp add: is_chain_def distinct_card)
  moreover have "unat (cluster_count fs + 2) = unat (cluster_count fs) + 2"
    using g(2) by (simp add: unat_word_ariths(1))
  ultimately show ?thesis by simp
qed

text \<open>Reading a chain through a directory entry.\<close>

lemma read_stored:
  assumes s: "fat_sound fs" and d: "fat_disk fs st" and c: "is_chain fs st cs" "cs \<noteq> []"
    and e: "fat_entry_cluster e = of_nat (hd cs)" "unat (de_size e) \<le> length cs * clus_bytes fs"
    and buf: "unat (de_size e) \<le> n"
  shows "fat_read_file_data fs st e (Some buf) n =
     (0, unat (de_size e), put_bytes (Some buf) (take (unat (de_size e)) (concat (map (clus fs st) cs))))"
proof -
  have g: "fat_geom fs" using s by (simp add: fat_sound_def)
  have v: "valid_cluster fs (hd cs)" using c by (simp add: is_chain_def)
  have "\<not> (of_nat (hd cs) :: u32) < 2" using valid_clusterD(2,4) [OF g v] by (simp add: word_less_nat_alt)
  with read_chain_view [OF s d c chain_fits_guard [OF s c(1)] e(2)] e(1) buf show ?thesis
    by (simp add: fat_read_file_data_def Let_def)
qed

lemma payload_roundtrip_spec:
  assumes s: "fat_sound fs" and d: "fat_disk fs st" and ne: "data \<noteq> []" and len: "length data < 2 ^ 32"
  shows "if clusters_needed fs (length data) \<le> card (free_clusters fs st)
     then \<exists>first h cs st'. fat_write_file_payload True kb fs st data = Some (Inr first, fs\<lparr>next_free_cluster := h\<rparr>, st')
       \<and> first = of_nat (hd cs) \<and> cs \<noteq> [] \<and> stored fs st st' cs data
       \<and> (\<forall>e buf. fat_entry_cluster e = first \<and> de_size e = of_nat (length data) \<and> length data \<le> length buf \<longrightarrow>
            fat_read_file_data (fs\<lparr>next_free_cluster := h\<rparr>) st' e (Some buf) (length buf) =
              (0, length data, Some (data @ drop (length data) buf)))
     else \<exists>h st'. fat_write_file_payload True kb fs st data = Some (Inl (-1), fs\<lparr>next_free_cluster := h\<rparr>, st')
       \<and> restored fs st st'"
proof -
  obtain h st' r where w: "fat_write_file_payload True kb fs st data = Some (r, fs\<lparr>next_free_cluster := h\<rparr>, st')"
    and r: "case r of
          Inr first \<Rightarrow> \<exists>cs. cs \<noteq> [] \<and> first = of_nat (hd cs) \<and> length cs = clusters_needed fs (length data) \<and> stored fs st st' cs data
        | Inl rc \<Rightarrow> rc = -1 \<and> restored fs st st' \<and> card (free_clusters fs st) < clusters_needed fs (length data)"
    using payload_view [OF assms, of kb] by blast
  show ?thesis
  proof (cases r)
    case (Inl rc)
    with r w show ?thesis by auto
  next
    case (Inr first)
    with r obtain cs where cs: "cs \<noteq> []" "first = of_nat (hd cs)" "length cs = clusters_needed fs (length data)"
      "stored fs st st' cs data" by auto
    have c: "is_chain fs st' cs" "fat_disk fs st'" "set cs \<subseteq> free_clusters fs st"
      and bytes: "concat (map (clus fs st') cs) = data @ replicate (length cs * clus_bytes fs - length data) 0"
      using cs(4) unfolding stored_def by blast+
    have "card (set cs) = length cs" using c(1) by (simp add: is_chain_def distinct_card)
    then have room: "clusters_needed fs (length data) \<le> card (free_clusters fs st)"
      using card_mono [OF finite_free c(3)] cs(3) by simp
    have clus: "clus (fs\<lparr>next_free_cluster := h\<rparr>) = clus fs" by (intro ext) (simp add: clus_def)
    have ch: "is_chain (fs\<lparr>next_free_cluster := h\<rparr>) = is_chain fs" by (intro ext) (simp add: is_chain_def cong: if_cong)
    have lu: "unat (of_nat (length data) :: u32) = length data" using len by (simp add: unat_of_nat_le)
    have "fat_read_file_data (fs\<lparr>next_free_cluster := h\<rparr>) st' e (Some buf) (length buf) =
              (0, length data, Some (data @ drop (length data) buf))"
      if "fat_entry_cluster e = first" "de_size e = of_nat (length data)" "length data \<le> length buf" for e buf
    proof -
      have "length data \<le> length cs * clus_bytes fs" using clusters_needed_enough(1) [OF s len] cs(3) by simp
      then show ?thesis
        using read_stored [of "fs\<lparr>next_free_cluster := h\<rparr>" st' cs e "length buf" buf] s c cs(1,2) that lu
        by (simp add: ch clus bytes put_bytes_def)
    qed
    with w Inr room cs show ?thesis by auto
  qed
qed

text \<open>
  C31. Contents round trip. On a sound volume, writing the bytes of a file, up to 4 GiB, succeeds
  exactly when enough clusters are free. Then reading a directory entry with the
  returned cluster and the length gives exactly these bytes; the clusters used were free and form
  a chain, and every other table entry and every sector of other files, of the root
  directory and of the reserved area is unchanged. Otherwise it fails and every entry
  and every data sector is as before: nothing leaks. It never runs forever.
\<close>

theorem fat_payload_roundtrip:
  assumes "fat_sound fs" "fat_disk fs st" "data \<noteq> []" "length data < 2 ^ 32"
  shows "if clusters_needed fs (length data) \<le> card (free_clusters fs st)
     then \<exists>first h cs st'. fat_write_file_payload True kb fs st data = Some (Inr first, fs\<lparr>next_free_cluster := h\<rparr>, st')
       \<and> first = of_nat (hd cs) \<and> cs \<noteq> [] \<and> stored fs st st' cs data
       \<and> (\<forall>e buf. fat_entry_cluster e = first \<and> de_size e = of_nat (length data) \<and> length data \<le> length buf \<longrightarrow>
            fat_read_file_data (fs\<lparr>next_free_cluster := h\<rparr>) st' e (Some buf) (length buf) =
              (0, length data, Some (data @ drop (length data) buf)))
     else \<exists>h st'. fat_write_file_payload True kb fs st data = Some (Inl (-1), fs\<lparr>next_free_cluster := h\<rparr>, st')
       \<and> restored fs st st'"
  using assms by (rule payload_roundtrip_spec)

lemma floppy_fat_sound: "fat_sound floppy_fs"
  by (rule mount_fat_sound [OF floppy_mount floppy_sane]) (simp add: floppy_fs_def)

lemma floppy_one_free: "card (free_clusters floppy_fs floppy) > 0"
proof -
  have "fent floppy_fs floppy 2 = 0"
    using floppy_empty read_entry_fent [OF floppy_sound(1) floppy_disk floppy_in_fat(1)] by simp
  then have "2 \<in> free_clusters floppy_fs floppy" using floppy_valid [of 2] by (simp add: free_clusters_def)
  then show ?thesis using finite_free card_gt_0_iff by blast
qed

theorem fat_payload_roundtrip_witness:
  "\<exists>h first st'. fat_write_file_payload True True floppy_fs floppy [1, 2, 3] =
       Some (Inr first, floppy_fs\<lparr>next_free_cluster := h\<rparr>, st')
     \<and> fat_read_file_data (floppy_fs\<lparr>next_free_cluster := h\<rparr>) st'
         ((fat_set_entry_cluster no_dir_entry first)\<lparr>de_size := 3\<rparr>) (Some [0, 0, 0, 9]) 4 =
         (0, 3, Some [1, 2, 3, 9])"
proof -
  have "clusters_needed floppy_fs (length [1, 2, 3 :: u8]) = 1"
    by (simp add: clusters_needed_def floppy_fs_def ATA_SECTOR_SIZE_def)
  with floppy_one_free have "clusters_needed floppy_fs (length [1, 2, 3 :: u8]) \<le> card (free_clusters floppy_fs floppy)" by simp
  then obtain first h st' where
    w: "fat_write_file_payload True True floppy_fs floppy [1, 2, 3] = Some (Inr first, floppy_fs\<lparr>next_free_cluster := h\<rparr>, st')"
    and r: "\<And>e buf. fat_entry_cluster e = first \<and> de_size e = of_nat (length [1, 2, 3 :: u8]) \<and> length [1, 2, 3 :: u8] \<le> length buf \<Longrightarrow>
            fat_read_file_data (floppy_fs\<lparr>next_free_cluster := h\<rparr>) st' e (Some buf) (length buf) =
              (0, length [1, 2, 3 :: u8], Some ([1, 2, 3] @ drop (length [1, 2, 3 :: u8]) buf))"
    using fat_payload_roundtrip [OF floppy_fat_sound floppy_disk, of "[1, 2, 3]" True] by auto
  have c: "fat_entry_cluster (e\<lparr>de_size := n\<rparr>) = fat_entry_cluster e" for e n by (simp add: fat_entry_cluster_def)
  from r [of "(fat_set_entry_cluster no_dir_entry first)\<lparr>de_size := 3\<rparr>" "[0, 0, 0, 9]"] w show ?thesis
    by (intro exI conjI) (assumption, simp add: c entry_cluster_roundtrip numeral_eq_Suc)
qed

end
