(* ===== verification/Fat_Create.thy ===== *)
theory Fat_Create
  imports Fat_Payload
begin

text \<open>
  Names in directories: the two walks over a directory agree, and a file that is created in the
  root directory is found again, unless the place chosen for it lies behind the mark
  that ends the directory.
\<close>

section \<open>Two walks\<close>

lemma entries_agree:
  "iterate_entries fat_find_visitor lfn ctx raws =
     (case find_in_entries (ff_name ctx) sector off lfn raws of
        Inl (Inl _) \<Rightarrow> Inl (0, ctx)
      | Inl (Inr (e, _)) \<Rightarrow> Inl (1, ctx\<lparr>ff_entry := e, ff_found := True\<rparr>)
      | Inr lfn1 \<Rightarrow> Inr (lfn1, ctx))"
  by (induction "ff_name ctx" sector off lfn raws rule: find_in_entries.induct)
    (auto simp: Let_def fat_find_visitor_def split: option.split prod.split)

lemma entries_status: "find_in_entries name sector off lfn raws = Inl (Inl rc) \<Longrightarrow> rc = -2"
  by (induction name sector off lfn raws rule: find_in_entries.induct)
    (auto simp: Let_def split: if_splits option.splits prod.splits)

lemma sectors_agree:
  "iterate_sectors fs st fat_find_visitor sector n lfn ctx =
     (case find_in_sectors fs st (ff_name ctx) sector n lfn of
        Inl (Inl rc) \<Rightarrow> Inl (if rc = -2 then 0 else -1, ctx)
      | Inl (Inr (e, _)) \<Rightarrow> Inl (1, ctx\<lparr>ff_entry := e, ff_found := True\<rparr>)
      | Inr lfn1 \<Rightarrow> Inr (lfn1, ctx))"
proof (induction n arbitrary: sector lfn)
  case (Suc n)
  show ?case
  proof (cases "fat_read_sector fs st sector")
    case (Inr sec)
    show ?thesis
      using Suc.IH entries_status [of "ff_name ctx" sector 0 lfn "sec_entries sec"] Inr
      by (auto simp: entries_agree [of lfn ctx "sec_entries sec" sector 0] split: sum.split)
  qed simp
qed simp

lemma sectors_status:
  "find_in_sectors fs st name sector n lfn = Inl (Inl rc) \<Longrightarrow> rc = -1 \<or> rc = -2"
  by (induction fs st name sector n lfn rule: find_in_sectors.induct) (auto split: sum.splits dest: entries_status)

lemma clusters_agree:
  "iterate_clusters fs st fat_find_visitor guard cluster lfn ctx =
     (case find_in_clusters fs st (ff_name ctx) guard cluster lfn of
        Inl rc \<Rightarrow> (if rc = -2 then 0 else -1, ctx)
      | Inr (e, _) \<Rightarrow> (1, ctx\<lparr>ff_entry := e, ff_found := True\<rparr>))"
  by (induction guard arbitrary: cluster lfn) (auto simp: sectors_agree split: sum.split option.split)

lemma lookup_agree_spec:
  "fat_iterate_dir fs st dir_cluster fat_find_visitor ctx =
     (case fat_dir_find_entry fs st dir_cluster (ff_name ctx) of
        Inl rc \<Rightarrow> (if rc = -2 then 0 else -1, ctx)
      | Inr (e, _) \<Rightarrow> (1, ctx\<lparr>ff_entry := e, ff_found := True\<rparr>))"
  by (auto simp: fat_iterate_dir_def fat_dir_find_entry_def sectors_agree clusters_agree Let_def split: sum.split)

text \<open>
  The two ways to look up a name agree on every directory, also a damaged one: the walk with
  the find visitor, which resolves paths, and \<open>fat_dir_find_entry\<close>, which the operations use to find
  the place of an entry, find the same entry, or both find none, or both fail on the same defect.
\<close>

theorem fat_lookups_agree:
  "fat_iterate_dir fs st dir_cluster fat_find_visitor \<lparr>ff_name = name, ff_entry = e0, ff_found = False\<rparr> =
     (case fat_dir_find_entry fs st dir_cluster name of
        Inl rc \<Rightarrow> (if rc = -2 then 0 else -1, \<lparr>ff_name = name, ff_entry = e0, ff_found = False\<rparr>)
      | Inr (e, loc) \<Rightarrow> (1, \<lparr>ff_name = name, ff_entry = e, ff_found = True\<rparr>))"
  by (simp add: lookup_agree_spec split: sum.split prod.split)

section \<open>A sector as sixteen entries\<close>

lemma sec_entries_nth: "k < 16 \<Longrightarrow> sec_entries sec ! k = take 32 (drop (32 * k) sec)"
  by (simp add: sec_entries_def ATA_SECTOR_SIZE_def)

lemma length_sec_entries [simp]: "length (sec_entries sec) = 16"
  by (simp add: sec_entries_def ATA_SECTOR_SIZE_def)

lemma sec_entries_patch:
  assumes k: "k < 16" and len: "length sec = 512" "length raw = 32"
  shows "sec_entries (take (32 * k) sec @ raw @ drop (32 * k + 32) sec) = (sec_entries sec)[k := raw]"
    and "length (take (32 * k) sec @ raw @ drop (32 * k + 32) sec) = 512"
proof -
  have k32: "32 * k + 32 \<le> 512" using k by simp
  then show "length (take (32 * k) sec @ raw @ drop (32 * k + 32) sec) = 512" using len by simp
  show "sec_entries (take (32 * k) sec @ raw @ drop (32 * k + 32) sec) = (sec_entries sec)[k := raw]"
  proof (rule nth_equalityI)
    fix i assume "i < length (sec_entries (take (32 * k) sec @ raw @ drop (32 * k + 32) sec))"
    then have i: "i < 16" by simp
    consider "i < k" | "i = k" | "k < i" by linarith
    then show "sec_entries (take (32 * k) sec @ raw @ drop (32 * k + 32) sec) ! i = (sec_entries sec)[k := raw] ! i"
    proof cases
      case 1
      then have "32 * i + 32 \<le> 32 * k" by simp
      then have "take 32 (drop (32 * i) (take (32 * k) sec @ raw @ drop (32 * k + 32) sec)) = take 32 (drop (32 * i) sec)"
        using k32 len by (intro nth_equalityI) (auto simp: nth_append)
      with 1 i show ?thesis by (simp only: sec_entries_nth nth_list_update_neq)
    next
      case 2
      with i k len k32 show ?thesis by (simp add: sec_entries_nth)
    next
      case 3
      then have "32 * k + 32 \<le> 32 * i" by simp
      then have "drop (32 * i) (take (32 * k) sec @ raw @ drop (32 * k + 32) sec) = drop (32 * i) sec"
        using k32 len by simp
      with 3 i show ?thesis by (simp only: sec_entries_nth nth_list_update_neq)
    qed
  qed simp
qed

text \<open>The entries of a sector of the volume, and writing some of them.\<close>

definition slots :: "fat_fs \<Rightarrow> storage \<Rightarrow> nat \<Rightarrow> u8 list list" where
  "slots fs st r = sec_entries (vsec fs st r)"

definition at :: "nat \<Rightarrow> nat \<Rightarrow> fat_dir_loc" where
  "at r k = \<lparr>loc_sector = of_nat r, loc_offset = of_nat (32 * k)\<rparr>"

lemma unat_off: "k < 16 \<Longrightarrow> unat (of_nat (32 * k) :: u32) = 32 * k"
  by (rule unat_of_nat_le) simp

lemma write_entry_at_view:
  assumes d: "fat_disk fs st" and r: "r < unat (total_sectors fs)" and k: "k < 16" and len: "length raw = 32"
  shows "\<exists>st'. fat_write_entry_at fs st (at r k) raw = (0, st') \<and> fat_disk fs st'
     \<and> slots fs st' r = (slots fs st r)[k := raw]
     \<and> (\<forall>q < unat (total_sectors fs). q \<noteq> r \<longrightarrow> vsec fs st' q = vsec fs st q)"
proof -
  note v = vsec_read [OF d r]
  let ?s = "take (32 * k) (vsec fs st r) @ raw @ drop (32 * k + 32) (vsec fs st r)"
  from v have "length (vsec fs st r) = 512" by simp
  note p = sec_entries_patch [OF k this len]
  from write_sector_view [OF d r p(2)] obtain st' where w: "fat_write_sector fs st (of_nat r) ?s = (0, st')" "fat_disk fs st'"
    and e: "\<And>q. q < unat (total_sectors fs) \<Longrightarrow> vsec fs st' q = (if q = r then ?s else vsec fs st q)" by blast
  have "fat_write_entry_at fs st (at r k) raw = (0, st')"
    unfolding fat_write_entry_at_def at_def fat_dir_loc.simps unat_off [OF k] Let_def using v w(1) by simp
  moreover have "slots fs st' r = (slots fs st r)[k := raw]" unfolding slots_def e [OF r] using p(1) by simp
  ultimately show ?thesis using w(2) e by auto
qed

lemma write_entries_at_view:
  "fat_disk fs st \<Longrightarrow> r < unat (total_sectors fs) \<Longrightarrow> k + length ps < 16 \<Longrightarrow> (\<And>p. p \<in> set ps \<Longrightarrow> length p = 32) \<Longrightarrow>
     \<exists>st'. fat_write_entries_at fs st (at r k) ps = (0, st') \<and> fat_disk fs st'
     \<and> slots fs st' r = take k (slots fs st r) @ ps @ drop (k + length ps) (slots fs st r)
     \<and> (\<forall>q < unat (total_sectors fs). q \<noteq> r \<longrightarrow> vsec fs st' q = vsec fs st q)"
proof (induction ps arbitrary: k st)
  case Nil
  then show ?case by auto
next
  case (Cons p ps)
  have k: "k < 16" and lp: "length p = 32" using Cons.prems by simp_all
  from write_entry_at_view [OF Cons.prems(1,2) k lp] obtain st1 where w:
    "fat_write_entry_at fs st (at r k) p = (0, st1)" "fat_disk fs st1" "slots fs st1 r = (slots fs st r)[k := p]"
    "\<And>q. q < unat (total_sectors fs) \<Longrightarrow> q \<noteq> r \<Longrightarrow> vsec fs st1 q = vsec fs st q" by blast
  have "Suc k + length ps < 16" using Cons.prems(3) by simp
  from Cons.IH [OF w(2) Cons.prems(2) this] Cons.prems(4) obtain st2 where w2:
    "fat_write_entries_at fs st1 (at r (Suc k)) ps = (0, st2)" "fat_disk fs st2"
    "slots fs st2 r = take (Suc k) (slots fs st1 r) @ ps @ drop (Suc k + length ps) (slots fs st1 r)"
    "\<And>q. q < unat (total_sectors fs) \<Longrightarrow> q \<noteq> r \<Longrightarrow> vsec fs st2 q = vsec fs st1 q" by auto
  have k15: "Suc k < 16" using Cons.prems(3) by simp
  have off: "(of_nat (32 * k) + 32 :: u32) = of_nat (32 * Suc k)" by simp
  have "\<not> (of_nat (32 * Suc k) :: u32) \<ge> of_nat ATA_SECTOR_SIZE"
    unfolding word_le_nat_alt unat_off [OF k15] using k15 by (simp add: ATA_SECTOR_SIZE_def)
  then have "fat_write_entries_at fs st (at r k) (p # ps) = (0, st2)"
    using w(1) w2(1) unfolding fat_write_entries_at.simps Let_def
    by (simp add: at_def off del: of_nat_mult mult_Suc_right)
  moreover have "slots fs st2 r = take k (slots fs st r) @ (p # ps) @ drop (k + length (p # ps)) (slots fs st r)"
    using k15 unfolding w2(3) w(3) by (simp add: take_Suc_conv_app_nth slots_def)
  ultimately show ?case using w2(2,4) w(4) by auto
qed

lemma write_names_view:
  assumes d: "fat_disk fs st" and r: "r < unat (total_sectors fs)"
    and k: "k + fat_lfn_entry_count_for_name leaf < 16" and leaf: "leaf \<noteq> []" "length leaf < VFS_MAX_NAME"
    and ne: "length (de_name ne) = 11"
  shows "\<exists>st'. write_names fs st (at r k) leaf sfn ne = (0, st') \<and> fat_disk fs st'
     \<and> slots fs st' r = take k (slots fs st r) @ map lfn_entry_bytes (lfn_entries leaf sfn) @ [dir_entry_bytes ne]
         @ drop (k + fat_lfn_entry_count_for_name leaf + 1) (slots fs st r)
     \<and> (\<forall>q < unat (total_sectors fs). q \<noteq> r \<longrightarrow> vsec fs st' q = vsec fs st q)"
proof -
  let ?n = "fat_lfn_entry_count_for_name leaf" and ?ps = "map lfn_entry_bytes (lfn_entries leaf sfn)"
  have n: "0 < ?n" "?n \<le> 8"
    using leaf unfolding fat_lfn_entry_count_for_name_def FAT_LFN_CHARS_PER_ENTRY_def VFS_MAX_NAME_def
    by (cases leaf; simp)+
  have len: "length ?ps = ?n" by (simp add: lfn_entries_def Let_def)
  have l32: "length p = 32" if "p \<in> set ?ps" for p
    using that lfn_entry_roundtrip(2) [OF write_entry_parts(2-4)] by (auto simp: lfn_entries_def Let_def)
  have "k + length ?ps < 16" using k len by simp
  from write_entries_at_view [OF d r this l32] obtain st1 where w:
    "fat_write_entries_at fs st (at r k) ?ps = (0, st1)" "fat_disk fs st1"
    "slots fs st1 r = take k (slots fs st r) @ ?ps @ drop (k + ?n) (slots fs st r)"
    "\<And>q. q < unat (total_sectors fs) \<Longrightarrow> q \<noteq> r \<Longrightarrow> vsec fs st1 q = vsec fs st q" unfolding len by blast
  from write_entry_at_view [OF w(2) r k dir_entry_roundtrip(2) [OF ne]] obtain st2 where w2:
    "fat_write_entry_at fs st1 (at r (k + ?n)) (dir_entry_bytes ne) = (0, st2)" "fat_disk fs st2"
    "slots fs st2 r = (slots fs st1 r)[k + ?n := dir_entry_bytes ne]"
    "\<And>q. q < unat (total_sectors fs) \<Longrightarrow> q \<noteq> r \<Longrightarrow> vsec fs st2 q = vsec fs st1 q" by blast
  have off: "(of_nat (32 * k) + of_nat ?n * 32 :: u32) = of_nat (32 * (k + ?n))" by simp
  have "\<not> (of_nat (32 * (k + ?n)) :: u32) \<ge> of_nat ATA_SECTOR_SIZE"
    unfolding word_le_nat_alt unat_off [OF k] using k by (simp add: ATA_SECTOR_SIZE_def)
  then have "write_names fs st (at r k) leaf sfn ne = (0, st2)"
    using n w(1) w2(1) unfolding write_names_def Let_def
    by (simp add: at_def off not_less del: of_nat_mult of_nat_add distrib_left_numeral)
  moreover have "slots fs st2 r = take k (slots fs st r) @ ?ps @ [dir_entry_bytes ne] @ drop (k + ?n + 1) (slots fs st r)"
  proof -
    have "length (slots fs st r) = 16" by (simp add: slots_def)
    then have "drop (k + ?n) (slots fs st r) = (slots fs st r ! (k + ?n)) # drop (k + ?n + 1) (slots fs st r)"
      using k by (simp add: Cons_nth_drop_Suc)
    then show ?thesis using k len \<open>length (slots fs st r) = 16\<close>
      unfolding w2(3) w(3) by (simp add: list_update_append)
  qed
  ultimately show ?thesis using w2(2,4) w(4) by auto
qed

section \<open>The root directory as a list of entries\<close>

definition fat_root :: "fat_fs \<Rightarrow> bool" where
  "fat_root fs \<longleftrightarrow> ftype fs \<noteq> FAT_TYPE_32
     \<and> copy_base fs (unat (fat_count fs)) \<le> unat (first_root_dir_sector fs)
     \<and> unat (first_root_dir_sector fs) + unat (root_dir_sectors fs) \<le> unat (first_data_sector fs)"

definition entries_in :: "fat_fs \<Rightarrow> storage \<Rightarrow> nat \<Rightarrow> nat \<Rightarrow> u8 list list" where
  "entries_in fs st r n = concat (map (slots fs st) [r..<r + n])"

definition root_entries :: "fat_fs \<Rightarrow> storage \<Rightarrow> u8 list list" where
  "root_entries fs st = entries_in fs st (unat (first_root_dir_sector fs)) (unat (root_dir_sectors fs))"

lemma entries_in_Suc: "entries_in fs st r (Suc n) = slots fs st r @ entries_in fs st (Suc r) n"
  unfolding entries_in_def by (simp add: upt_conv_Cons del: upt_Suc)

lemma entries_in_split:
  assumes "i < n"
  shows "entries_in fs st r n = entries_in fs st r i @ slots fs st (r + i) @ entries_in fs st (r + i + 1) (n - i - 1)"
proof -
  have "[r..<r + n] = [r..<r + i] @ (r + i) # [r + i + 1..<r + n]"
    using assms upt_add_eq_append [of r "r + i" "n - i"] by (simp add: upt_conv_Cons)
  moreover have "r + i + 1 + (n - i - 1) = r + n" using assms by simp
  ultimately show ?thesis by (simp add: entries_in_def)
qed

lemma entries_in_cong:
  "(\<And>q. r \<le> q \<Longrightarrow> q < r + n \<Longrightarrow> slots fs st' q = slots fs st q) \<Longrightarrow> entries_in fs st' r n = entries_in fs st r n"
  unfolding entries_in_def by (intro arg_cong [of _ _ concat] map_cong) auto

lemma iterate_append:
  "iterate_entries visit lfn u (xs @ ys) =
     (case iterate_entries visit lfn u xs of Inl r \<Rightarrow> Inl r | Inr (l, u1) \<Rightarrow> iterate_entries visit l u1 ys)"
  by (induction visit lfn u xs rule: iterate_entries.induct) (simp_all add: Let_def split: option.split prod.split)

lemma iterate_sectors_view:
  "fat_disk fs st \<Longrightarrow> r + n \<le> unat (total_sectors fs) \<Longrightarrow>
     iterate_sectors fs st visit (of_nat r) n lfn u = iterate_entries visit lfn u (entries_in fs st r n)"
proof (induction n arbitrary: r lfn u)
  case 0
  then show ?case by (simp add: entries_in_def)
next
  case (Suc n)
  have r: "r < unat (total_sectors fs)" "Suc r + n \<le> unat (total_sectors fs)" using Suc.prems by simp_all
  have "iterate_sectors fs st visit (of_nat r + 1) n l v = iterate_entries visit l v (entries_in fs st (Suc r) n)" for l v
    using Suc.IH [OF Suc.prems(1) r(2)] by (simp add: add.commute)
  then show ?case
    using vsec_read [OF Suc.prems(1) r(1)]
    by (simp add: entries_in_Suc iterate_append slots_def split: sum.split)
qed

lemma root_bounds:
  assumes "fat_sound fs" "fat_root fs" "r < unat (root_dir_sectors fs)"
  shows "unat (first_root_dir_sector fs) + r < unat (total_sectors fs)"
    "\<not> in_table fs (unat (first_root_dir_sector fs) + r)"
    "valid_cluster fs c \<Longrightarrow> \<not> in_cluster fs c (unat (first_root_dir_sector fs) + r)"
  using assms by (auto simp: fat_sound_def fat_data_def fat_root_def in_table_def in_cluster_def cluster_start_def)

lemma iterate_root:
  assumes "fat_sound fs" "fat_root fs" "fat_disk fs st"
  shows "fat_iterate_dir fs st 0 visit u =
     (case iterate_entries visit fat_lfn_reset u (root_entries fs st) of Inl r \<Rightarrow> r | Inr (_, u1) \<Rightarrow> (0, u1))"
proof -
  have "unat (first_root_dir_sector fs) + unat (root_dir_sectors fs) \<le> unat (total_sectors fs)"
    using assms by (simp add: fat_sound_def fat_data_def fat_root_def)
  from iterate_sectors_view [OF assms(3) this, of visit] assms(2) show ?thesis
    by (simp add: fat_iterate_dir_def root_entries_def fat_root_def)
qed

section \<open>Free places\<close>

lemma free_run_place:
  "free_run count (32 * j) m s raws = Some off \<Longrightarrow> m < count \<Longrightarrow> m \<le> j \<Longrightarrow> (0 < m \<longrightarrow> s = 32 * (j - m)) \<Longrightarrow>
     \<exists>k. off = 32 * k \<and> k + count \<le> j + length raws"
proof (induction raws arbitrary: j m s)
  case (Cons raw raws)
  have nxt: "32 * j + 32 = 32 * Suc j" by simp
  show ?case
  proof (cases "raw ! 0 = 0 \<or> raw ! 0 = 0xE5")
    case True
    let ?s = "if m = 0 then 32 * j else s"
    have s: "?s = 32 * (j - m)" using Cons.prems(4) by auto
    show ?thesis
    proof (cases "m + 1 \<ge> count")
      case True
      with \<open>raw ! 0 = 0 \<or> raw ! 0 = 0xE5\<close> Cons.prems(1) s have "off = 32 * (j - m)"
        by (simp add: Let_def split: if_splits)
      moreover have "(j - m) + count \<le> j + length (raw # raws)" using True Cons.prems(2,3) by simp
      ultimately show ?thesis by blast
    next
      case False
      with \<open>raw ! 0 = 0 \<or> raw ! 0 = 0xE5\<close> Cons.prems(1) have "free_run count (32 * Suc j) (m + 1) ?s raws = Some off"
        by (auto simp: Let_def add.commute split: if_splits)
      moreover have "0 < m + 1 \<longrightarrow> ?s = 32 * (Suc j - (m + 1))" using s by simp
      ultimately show ?thesis using Cons.IH [of "Suc j" "m + 1" ?s] False Cons.prems(3) by simp
    qed
  next
    case False
    with Cons.prems(1) have "free_run count (32 * Suc j) 0 s raws = Some off" by (simp add: nxt)
    with Cons.IH [of "Suc j" 0 s] Cons.prems(2) show ?thesis by simp
  qed
qed simp

lemma slots_place:
  "slots_in_sectors fs st count (of_nat r) n = Some (Inr loc) \<Longrightarrow> 0 < count \<Longrightarrow> \<exists>i k. i < n \<and> k + count \<le> 16 \<and> loc = at (r + i) k"
proof (induction n arbitrary: r)
  case (Suc n)
  then obtain sec where sec: "fat_read_sector fs st (of_nat r) = Inr sec" by (auto split: sum.splits)
  show ?case
  proof (cases "free_run count 0 0 0 (sec_entries sec)")
    case None
    with Suc.prems sec have "slots_in_sectors fs st count (of_nat (Suc r)) n = Some (Inr loc)" by (simp add: add.commute)
    from Suc.IH [OF this Suc.prems(2)] obtain i k where "i < n" "k + count \<le> 16" "loc = at (Suc r + i) k" by blast
    then show ?thesis by (intro exI [of _ "Suc i"] exI [of _ k]) simp
  next
    case (Some off)
    with free_run_place [of count 0 0 0 "sec_entries sec" off] Suc.prems obtain k where "off = 32 * k" "k + count \<le> 16" by auto
    with Some Suc.prems sec show ?thesis by (intro exI [of _ 0] exI [of _ k]) (simp add: at_def)
  qed
qed simp

section \<open>Walking over a new file\<close>

lemma walk_parts:
  "(\<And>x. x \<in> set raws \<Longrightarrow> x ! 0 \<noteq> 0 \<and> x ! 0 \<noteq> 0xE5 \<and> x ! 11 = FAT_ATTR_LFN) \<Longrightarrow>
     iterate_entries visit l u (raws @ rest) = iterate_entries visit (fold push_raw raws l) u rest"
proof (induction raws arbitrary: l)
  case (Cons x raws)
  have "de_name (dir_entry_of x) ! 0 = x ! 0" "de_attr (dir_entry_of x) = x ! 11" by (simp_all add: dir_entry_of_def)
  with Cons show ?case by (simp add: Let_def)
qed simp

lemma lfn_raw_marks:
  assumes "length leaf < VFS_MAX_NAME" "x \<in> set (map lfn_entry_bytes (lfn_entries leaf sfn))"
  shows "x ! 0 \<noteq> 0 \<and> x ! 0 \<noteq> 0xE5 \<and> x ! 11 = FAT_ATTR_LFN"
proof -
  let ?n = "fat_lfn_entry_count_for_name leaf"
  have n5: "?n \<le> 5"
    using assms(1) unfolding fat_lfn_entry_count_for_name_def FAT_LFN_CHARS_PER_ENTRY_def VFS_MAX_NAME_def by simp
  from assms(2) obtain k ord where k: "k < ?n" "ord = (if k = ?n - 1 then of_nat (k + 1) OR FAT_LFN_LAST else of_nat (k + 1))"
    and x: "x = lfn_entry_bytes (fat_lfn_write_entry ord (fat_lfn_checksum sfn) leaf (k * FAT_LFN_CHARS_PER_ENTRY))"
    by (auto simp: lfn_entries_def Let_def)
  have "k = 0 \<or> k = 1 \<or> k = 2 \<or> k = 3 \<or> k = 4" using k(1) n5 by linarith
  then have o: "ord \<noteq> 0 \<and> ord \<noteq> 0xE5" unfolding k(2) by (elim disjE; simp add: FAT_LFN_LAST_def)
  let ?e = "fat_lfn_write_entry ord (fat_lfn_checksum sfn) leaf (k * FAT_LFN_CHARS_PER_ENTRY)"
  note p = write_entry_parts(2-5) [of ord "fat_lfn_checksum sfn" leaf "k * FAT_LFN_CHARS_PER_ENTRY"]
  have "length (concat (map bytes16 (name1 ?e))) = 10"
    using p(1) by (simp add: length_concat bytes16_def o_def sum_list_triv)
  then have "x ! 11 = le_attr ?e" "x ! 0 = ord" using p(4) unfolding x lfn_entry_bytes_def by (simp_all add: nth_append)
  moreover have "le_attr ?e = FAT_ATTR_LFN" by (simp add: fat_lfn_write_entry_def Let_def)
  ultimately show ?thesis using o by simp
qed

lemma sfn_char_range: "sfn_char c \<noteq> 0 \<and> sfn_char c \<noteq> 0xE5"
proof -
  define d where "d = (if fat_char_valid_sfn c then c else CHR ''_'')"
  define n where "n = (of_char d :: nat)"
  have v: "fat_char_valid_sfn d" by (simp add: d_def fat_char_valid_sfn_def)
  have "n = 95 \<or> n = 45 \<or> n = 36 \<or> n = 126 \<or> (97 \<le> n \<and> n \<le> 122) \<or> (65 \<le> n \<and> n \<le> 90) \<or> (48 \<le> n \<and> n \<le> 57)"
    using v by (auto simp: fat_char_valid_sfn_def n_def Let_def)
  then have m: "0 < (if 97 \<le> n \<and> n \<le> 122 then n - 32 else n) \<and> (if 97 \<le> n \<and> n \<le> 122 then n - 32 else n) < 229"
    by auto
  have s: "sfn_char c = of_nat (if 97 \<le> n \<and> n \<le> 122 then n - 32 else n)"
    by (simp add: sfn_char_def d_def n_def Let_def)
  have "unat (sfn_char c) = (if 97 \<le> n \<and> n \<le> 122 then n - 32 else n)"
    unfolding s using m by (intro unat_of_nat_le) auto
  with m have "0 < unat (sfn_char c)" "unat (sfn_char c) < 229" by auto
  then show ?thesis by auto
qed

lemma make_sfn_shape:
  assumes "fat_make_sfn name = Some sfn"
  shows "length sfn = 11" "sfn ! 0 \<noteq> 0" "sfn ! 0 \<noteq> 0xE5"
proof -
  obtain base ext where be: "(case split_last (CHR ''.'') name of None \<Rightarrow> (name, []) | Some be \<Rightarrow> be) = (base, ext)" by fastforce
  have ne: "base \<noteq> []" using assms be by (auto simp: fat_make_sfn_def split: if_splits)
  define lo where "lo = (length base > 8 \<or> length ext > 3
      \<or> (\<exists>c\<in>set base. \<not> fat_char_valid_sfn c) \<or> (\<exists>c\<in>set ext. \<not> fat_char_valid_sfn c))"
  define b where "b = (if lo \<and> (if length base > 8 then 8 else length base) > 6 then 6
      else (if length base > 8 then 8 else length base))"
  define x where "x = (if length ext > 3 then 3 else length ext)"
  define o1 where "o1 = map sfn_char (take b base) @ drop b (replicate 11 (0x20 :: u8))"
  define o2 where "o2 = (if lo then o1[6 := 0x7E, 7 := 0x31] else o1)"
  have sfn: "sfn = take 8 o2 @ map sfn_char (take x ext) @ drop (8 + x) o2"
    using assms ne unfolding fat_make_sfn_def be prod.case Let_def lo_def[symmetric] b_def[symmetric]
      x_def[symmetric] o1_def[symmetric] o2_def[symmetric]
    by (simp split: if_splits)
  have b: "0 < b" "b \<le> 8" "b \<le> length base" using ne by (auto simp: b_def)
  have l: "length o1 = 11" "length o2 = 11" using b by (simp_all add: o1_def o2_def)
  have "x \<le> 3" "x \<le> length ext" by (auto simp: x_def)
  with l show "length sfn = 11" by (simp add: sfn)
  have "sfn ! 0 = o2 ! 0" using l by (simp add: sfn nth_append)
  also have "\<dots> = o1 ! 0" using l by (simp add: o2_def)
  also have "\<dots> = sfn_char (base ! 0)" using b ne by (simp add: o1_def nth_append)
  finally show "sfn ! 0 \<noteq> 0" "sfn ! 0 \<noteq> 0xE5" using sfn_char_range by simp_all
qed

lemma name_equals_refl: "fat_name_equals a a"
proof -
  have "fat_name_equals_ci a a" by (induction a) simp_all
  then show ?thesis by (simp add: fat_name_equals_def)
qed

lemma walk_new_file:
  assumes leaf: "leaf \<noteq> []" "length leaf < VFS_MAX_NAME" "\<forall>c\<in>set leaf. printable c"
    and ne: "length (de_name ne) = 11" "de_name ne ! 0 \<noteq> 0" "de_name ne ! 0 \<noteq> 0xE5" "de_attr ne = 0"
    and ctx: "ff_name ctx = leaf"
  shows "iterate_entries fat_find_visitor l ctx
      (map lfn_entry_bytes (lfn_entries leaf sfn) @ [dir_entry_bytes ne] @ rest) =
     Inl (1, ctx\<lparr>ff_entry := ne, ff_found := True\<rparr>)"
  using lfn_roundtrip_spec [OF leaf, of ne sfn l] dir_entry_roundtrip(1) [OF ne(1)] ne ctx name_equals_refl
  by (subst walk_parts [OF lfn_raw_marks [OF leaf(2)]])
    (simp_all add: Let_def fat_attrs fat_find_visitor_def)

text \<open>Without a mark the walk gets to the end, with one it stops there.\<close>

lemma walk_stops:
  "iterate_entries fat_find_visitor l ctx raws = Inl (rc, ctx1) \<Longrightarrow> (rc = 0 \<and> ctx1 = ctx \<and> (\<exists>x\<in>set raws. x ! 0 = 0)) \<or> (rc = 1 \<and> ff_found ctx1)"
proof (induction fat_find_visitor l ctx raws rule: iterate_entries.induct)
  case (2 l ctx raw rest)
  have "de_name (dir_entry_of raw) ! 0 = raw ! 0" by (simp add: dir_entry_of_def)
  with 2 show ?case
    by (auto simp: Let_def fat_find_visitor_def split: if_splits option.splits prod.splits)
qed simp

lemma walk_passes: "iterate_entries visit l u raws = Inr r \<Longrightarrow> x \<in> set raws \<Longrightarrow> x ! 0 \<noteq> 0"
proof (induction visit l u raws rule: iterate_entries.induct)
  case (2 visit l u raw rest)
  have "de_name (dir_entry_of raw) ! 0 = raw ! 0" by (simp add: dir_entry_of_def)
  with 2 show ?case
    by (auto simp: Let_def split: if_splits option.splits prod.splits)
qed simp


section \<open>A file in the root directory\<close>

lemma leaf_paths:
  assumes leaf: "leaf \<noteq> []" "length leaf < VFS_MAX_NAME" "CHR ''/'' \<notin> set leaf"
  shows "skip_slash (CHR ''/'' # leaf) = leaf" "fat_next_token leaf = (leaf, [])"
    "fat_split_parent_leaf (CHR ''/'' # leaf) VFS_MAX_PATH VFS_MAX_NAME = Some (''/'', leaf)"
proof -
  obtain c s where l: "leaf = c # s" "c \<noteq> CHR ''/''" using leaf by (cases leaf) auto
  then show "skip_slash (CHR ''/'' # leaf) = leaf" by simp
  have t: "takeWhile (\<lambda>c. c \<noteq> CHR ''/'') leaf = leaf" using leaf(3) by (auto simp: takeWhile_eq_all_conv)
  have "take (VFS_MAX_NAME - 1) leaf = leaf" using leaf(2) by simp
  with t show "fat_next_token leaf = (leaf, [])" by (simp only: fat_next_token_def Let_def) simp
  have "takeWhile (\<lambda>x. x \<noteq> CHR ''/'') (rev leaf @ [CHR ''/'']) = rev leaf"
    using leaf(3) by (subst takeWhile_append2) auto
  then have "split_last (CHR ''/'') (CHR ''/'' # leaf) = Some ([], leaf)" by (simp add: split_last_def)
  then show "fat_split_parent_leaf (CHR ''/'' # leaf) VFS_MAX_PATH VFS_MAX_NAME = Some (''/'', leaf)"
    using leaf(1,2) by (simp add: fat_split_parent_leaf_def VFS_MAX_PATH_def)
qed

lemma resolve_leaf:
  assumes leaf: "leaf \<noteq> []" "length leaf < VFS_MAX_NAME" "CHR ''/'' \<notin> set leaf"
  shows "fat_resolve_path fs st (CHR ''/'' # leaf) =
     (case fat_dir_find_entry fs st 0 leaf of Inl _ \<Rightarrow> Inl (-2) | Inr (e, _) \<Rightarrow> Inr (e, 0))"
proof -
  have h: "hd leaf \<noteq> CHR ''/''" using leaf by (cases leaf) auto
  show ?thesis
    using leaf h leaf_paths [OF leaf]
    by (subst fat_resolve_path_def, subst fat_resolve_loop.simps)
      (simp add: lookup_agree_spec split: sum.split prod.split)
qed

text \<open>No entry of the root directory before the place \<open>loc\<close> is the mark that ends it.\<close>

definition before_end :: "fat_fs \<Rightarrow> storage \<Rightarrow> fat_dir_loc \<Rightarrow> bool" where
  "before_end fs st loc \<longleftrightarrow>
     (\<forall>x \<in> set (take (16 * (unat (loc_sector loc) - unat (first_root_dir_sector fs)) + unat (loc_offset loc) div 32)
                   (root_entries fs st)). x ! 0 \<noteq> 0)"

lemma room_place:
  assumes leaf: "leaf \<noteq> []" "length leaf < VFS_MAX_NAME" "CHR ''/'' \<notin> set leaf" and r: "fat_root fs"
    and room: "find_room fs st (CHR ''/'' # leaf) = (Some (d, leaf', sfn, loc), fs', st')"
  shows "d = 0" "leaf' = leaf" "fat_make_sfn leaf = Some sfn" "fs' = fs" "st' = st"
    "\<exists>rc. fat_dir_find_entry fs st 0 leaf = Inl rc"
    "\<exists>i k. i < unat (root_dir_sectors fs) \<and> k + fat_lfn_entry_count_for_name leaf < 16
        \<and> loc = at (unat (first_root_dir_sector fs) + i) k"
proof -
  let ?n = "fat_lfn_entry_count_for_name leaf + 1"
  have p: "fat_resolve_parent_dir fs st ''/'' = Some 0" by (simp add: fat_resolve_parent_dir_def)
  have f: "fat_dir_find_free_slots fs st 0 ?n =
      (case slots_in_sectors fs st ?n (first_root_dir_sector fs) (unat (root_dir_sectors fs)) of
         Some r \<Rightarrow> (r, fs, st) | None \<Rightarrow> (Inl (-1), fs, st)) \<or> fst (fat_dir_find_free_slots fs st 0 ?n) = Inl (-1)"
    using r by (simp add: fat_dir_find_free_slots_def fat_root_def)
  show "d = 0" "leaf' = leaf" "fat_make_sfn leaf = Some sfn" "\<exists>rc. fat_dir_find_entry fs st 0 leaf = Inl rc"
    using room leaf_paths(3) [OF leaf] p
    by (auto simp: find_room_def split: sum.splits option.splits prod.splits)
  have s: "fat_dir_find_free_slots fs st 0 ?n = (Inr loc, fs', st')"
    using room leaf_paths(3) [OF leaf] p
    by (auto simp: find_room_def split: sum.splits option.splits prod.splits)
  with f show "fs' = fs" "st' = st" by (auto split: option.splits)
  from s f have "slots_in_sectors fs st ?n (of_nat (unat (first_root_dir_sector fs))) (unat (root_dir_sectors fs)) = Some (Inr loc)"
    by (auto split: option.splits)
  from slots_place [OF this] show "\<exists>i k. i < unat (root_dir_sectors fs) \<and> k + fat_lfn_entry_count_for_name leaf < 16
        \<and> loc = at (unat (first_root_dir_sector fs) + i) k" by (metis Suc_eq_plus1 Suc_le_eq add_Suc_right zero_less_Suc)
qed


text \<open>The contents, and that they can be read when only the root directory has changed since.\<close>

definition in_root :: "fat_fs \<Rightarrow> nat \<Rightarrow> bool" where
  "in_root fs q \<longleftrightarrow> unat (first_root_dir_sector fs) \<le> q
     \<and> q < unat (first_root_dir_sector fs) + unat (root_dir_sectors fs)"

definition readable :: "fat_fs \<Rightarrow> storage \<Rightarrow> u32 \<Rightarrow> u8 list \<Rightarrow> bool" where
  "readable fs st first data \<longleftrightarrow>
     (\<forall>st3 e buf. fat_disk fs st3 \<and> (\<forall>q < unat (total_sectors fs). \<not> in_root fs q \<longrightarrow> vsec fs st3 q = vsec fs st q)
        \<and> fat_entry_cluster e = first \<and> de_size e = of_nat (length data) \<and> length data \<le> length buf \<longrightarrow>
        fat_read_file_data fs st3 e (Some buf) (length buf) = (0, length data, Some (data @ drop (length data) buf)))"

lemma contents_view:
  assumes s: "fat_sound fs" and r: "fat_root fs" and d: "fat_disk fs st" and len: "length data < 2 ^ 32"
    and room: "data = [] \<or> clusters_needed fs (length data) \<le> card (free_clusters fs st)"
  shows "\<exists>h first st2. fat_write_file_payload True kb fs st data = Some (Inr first, fs\<lparr>next_free_cluster := h\<rparr>, st2)
     \<and> fat_disk fs st2 \<and> (\<forall>q < unat (total_sectors fs). in_root fs q \<longrightarrow> vsec fs st2 q = vsec fs st q)
     \<and> readable (fs\<lparr>next_free_cluster := h\<rparr>) st2 first data"
proof (cases "data = []")
  case True
  have "fat_write_file_payload True kb fs st data = Some (Inr 0, fs\<lparr>next_free_cluster := next_free_cluster fs\<rparr>, st)"
    using True by (simp add: fat_write_file_payload_def)
  moreover have "readable (fs\<lparr>next_free_cluster := next_free_cluster fs\<rparr>) st 0 data"
    using True by (simp add: readable_def fat_read_file_data_def)
  ultimately show ?thesis using d by blast
next
  case False
  obtain h st2 res where w: "fat_write_file_payload True kb fs st data = Some (res, fs\<lparr>next_free_cluster := h\<rparr>, st2)"
    and res: "case res of
          Inr first \<Rightarrow> \<exists>cs. cs \<noteq> [] \<and> first = of_nat (hd cs) \<and> length cs = clusters_needed fs (length data) \<and> stored fs st st2 cs data
        | Inl rc \<Rightarrow> rc = -1 \<and> restored fs st st2 \<and> card (free_clusters fs st) < clusters_needed fs (length data)"
    using payload_view [OF s d False len, of kb] by blast
  from res room False obtain first cs where cs: "res = Inr first" "cs \<noteq> []" "first = of_nat (hd cs)"
    "length cs = clusters_needed fs (length data)" "stored fs st st2 cs data" by (cases res) auto
  have g: "fat_geom fs" using s by (simp add: fat_sound_def)
  have c: "is_chain fs st2 cs" "fat_disk fs st2" "\<And>x. x \<in> set cs \<Longrightarrow> valid_cluster fs x"
    and bytes: "concat (map (clus fs st2) cs) = data @ replicate (length cs * clus_bytes fs - length data) 0"
    using cs(5) unfolding stored_def is_chain_def by blast+
  have root: "\<not> in_table fs q \<and> (\<forall>x. valid_cluster fs x \<longrightarrow> \<not> in_cluster fs x q)" if "in_root fs q" for q
    using root_bounds(2,3) [OF s r, of "q - unat (first_root_dir_sector fs)"] that less_diff_conv2
    by (metis in_root_def le_add_diff_inverse add.commute)
  then have "\<forall>q < unat (total_sectors fs). in_root fs q \<longrightarrow> vsec fs st2 q = vsec fs st q"
    using cs(5) c(3) unfolding stored_def by blast
  moreover have "readable (fs\<lparr>next_free_cluster := h\<rparr>) st2 first data"
    unfolding readable_def
  proof (intro allI impI, elim conjE)
    fix st3 e and buf :: "u8 list"
    assume d3: "fat_disk (fs\<lparr>next_free_cluster := h\<rparr>) st3" and e: "fat_entry_cluster e = first" "de_size e = of_nat (length data)"
      and buf: "length data \<le> length buf"
      and same: "\<forall>q < unat (total_sectors (fs\<lparr>next_free_cluster := h\<rparr>)). \<not> in_root (fs\<lparr>next_free_cluster := h\<rparr>) q
         \<longrightarrow> vsec (fs\<lparr>next_free_cluster := h\<rparr>) st3 q = vsec (fs\<lparr>next_free_cluster := h\<rparr>) st2 q"
    have same': "vsec fs st3 q = vsec fs st2 q" if "q < unat (total_sectors fs)" "\<not> in_root fs q" for q
      using same that by (simp add: in_root_def)
    have fent: "fent fs st3 x = fent fs st2 x" if "in_fat fs x" for x
      by (rule fent_cong [OF g that same']) (use root in blast)+
    have clus3: "clus fs st3 x = clus fs st2 x" if "valid_cluster fs x" for x
      by (rule clus_cong [OF s that same']) (use root that in blast)+
    have ch: "is_chain (fs\<lparr>next_free_cluster := h\<rparr>) st3 cs"
      using c(1) fent valid_clusterD(1) [OF g c(3)] by (simp add: is_chain_def cong: if_cong)
    have "clus (fs\<lparr>next_free_cluster := h\<rparr>) = clus fs" by (intro ext) (simp add: clus_def)
    then have b3: "map (clus (fs\<lparr>next_free_cluster := h\<rparr>) st3) cs = map (clus fs st2) cs" using clus3 c(3) by simp
    have lu: "unat (of_nat (length data) :: u32) = length data" using len by (simp add: unat_of_nat_le)
    have "length data \<le> length cs * clus_bytes fs" using clusters_needed_enough(1) [OF s len] cs(4) by simp
    then show "fat_read_file_data (fs\<lparr>next_free_cluster := h\<rparr>) st3 e (Some buf) (length buf) =
        (0, length data, Some (data @ drop (length data) buf))"
      using read_stored [OF _ d3 ch cs(2), of e "length buf" buf] s e cs(3) buf lu b3 bytes by (simp add: put_bytes_def)
  qed
  ultimately show ?thesis using w cs(1) c(2) by blast
qed


lemma root_after_names:
  assumes d: "fat_disk fs st2" and same: "\<And>q. q < unat (total_sectors fs) \<Longrightarrow> in_root fs q \<Longrightarrow> vsec fs st2 q = vsec fs st q"
    and s: "fat_sound fs" and r: "fat_root fs" and i: "i < unat (root_dir_sectors fs)"
    and k: "k + fat_lfn_entry_count_for_name leaf < 16" and leaf: "leaf \<noteq> []" "length leaf < VFS_MAX_NAME"
    and ne: "length (de_name ne) = 11"
  shows "\<exists>st3 before after. write_names fs st2 (at (unat (first_root_dir_sector fs) + i) k) leaf sfn ne = (0, st3)
     \<and> fat_disk fs st3
     \<and> (\<forall>q < unat (total_sectors fs). \<not> in_root fs q \<longrightarrow> vsec fs st3 q = vsec fs st2 q)
     \<and> before = take (16 * i + k) (root_entries fs st)
     \<and> root_entries fs st3 = before @ map lfn_entry_bytes (lfn_entries leaf sfn) @ [dir_entry_bytes ne] @ after"
proof -
  let ?R = "unat (first_root_dir_sector fs)" and ?n = "fat_lfn_entry_count_for_name leaf"
  let ?N = "unat (root_dir_sectors fs)"
  note b = root_bounds(1) [OF s r i]
  from write_names_view [OF d b k leaf ne, of sfn] obtain st3 where w:
    "write_names fs st2 (at (?R + i) k) leaf sfn ne = (0, st3)" "fat_disk fs st3"
    "slots fs st3 (?R + i) = take k (slots fs st2 (?R + i)) @ map lfn_entry_bytes (lfn_entries leaf sfn) @ [dir_entry_bytes ne]
         @ drop (k + ?n + 1) (slots fs st2 (?R + i))"
    "\<And>q. q < unat (total_sectors fs) \<Longrightarrow> q \<noteq> ?R + i \<Longrightarrow> vsec fs st3 q = vsec fs st2 q" by blast
  have "vsec fs st3 q = vsec fs st2 q" if "q < unat (total_sectors fs)" "\<not> in_root fs q" for q
    using w(4) [OF that(1)] that(2) i by (auto simp: in_root_def)
  moreover have "slots fs st3 q = slots fs st q" if "?R \<le> q" "q < ?R + i" for q
    using w(4) [of q] same [of q] that b i by (simp add: slots_def in_root_def)
  then have before: "entries_in fs st3 ?R i = entries_in fs st ?R i" by (rule entries_in_cong)
  have here: "slots fs st2 (?R + i) = slots fs st (?R + i)" using same [OF b] i by (simp add: slots_def in_root_def)
  have len: "length (entries_in fs st ?R i) = 16 * i"
    by (simp add: entries_in_def length_concat o_def slots_def sum_list_triv)
  have "take (16 * i + k) (root_entries fs st) = entries_in fs st ?R i @ take k (slots fs st (?R + i))"
    unfolding root_entries_def entries_in_split [OF i] using len k by (simp add: slots_def)
  moreover have "root_entries fs st3 = (entries_in fs st ?R i @ take k (slots fs st (?R + i)))
      @ map lfn_entry_bytes (lfn_entries leaf sfn) @ [dir_entry_bytes ne]
      @ (drop (k + ?n + 1) (slots fs st2 (?R + i)) @ entries_in fs st3 (?R + i + 1) (?N - i - 1))"
    unfolding root_entries_def entries_in_split [OF i, of fs st3] w(3) before here by simp
  ultimately show ?thesis using w(1,2) by metis
qed

lemma lookup_after:
  assumes s: "fat_sound fs" and r: "fat_root fs" and d: "fat_disk fs st" and d3: "fat_disk fs st3"
    and leaf: "leaf \<noteq> []" "length leaf < VFS_MAX_NAME" "\<forall>c\<in>set leaf. printable c"
    and ne: "length (de_name ne) = 11" "de_name ne ! 0 \<noteq> 0" "de_name ne ! 0 \<noteq> 0xE5" "de_attr ne = 0"
    and old: "fat_dir_find_entry fs st 0 leaf = Inl rc"
    and before: "before = take n (root_entries fs st)"
    and ents: "root_entries fs st3 = before @ map lfn_entry_bytes (lfn_entries leaf sfn) @ [dir_entry_bytes ne] @ after"
  shows "if \<forall>x\<in>set before. x ! 0 \<noteq> 0 then \<exists>loc. fat_dir_find_entry fs st3 0 leaf = Inr (ne, loc)
     else \<exists>rc. fat_dir_find_entry fs st3 0 leaf = Inl rc"
proof -
  let ?c = "\<lparr>ff_name = leaf, ff_entry = no_dir_entry, ff_found = False\<rparr>"
  let ?walk = "iterate_entries fat_find_visitor fat_lfn_reset ?c"
  have "fat_iterate_dir fs st 0 fat_find_visitor ?c = (if rc = -2 then 0 else -1, ?c)"
    using old by (simp add: lookup_agree_spec)
  moreover have "root_entries fs st = before @ drop n (root_entries fs st)" by (simp add: before)
  ultimately have all: "(case ?walk (before @ drop n (root_entries fs st)) of Inl r \<Rightarrow> r | Inr (_, u1) \<Rightarrow> (0, u1)) =
      (if rc = -2 then 0 else -1, ?c)"
    using iterate_root [OF s r d, of fat_find_visitor ?c] by simp
  have now: "fat_iterate_dir fs st3 0 fat_find_visitor ?c =
      (case ?walk (root_entries fs st3) of Inl r \<Rightarrow> r | Inr (_, u1) \<Rightarrow> (0, u1))" by (rule iterate_root [OF s r d3])
  show ?thesis
  proof (cases "?walk before")
    case (Inl res)
    obtain rc1 c1 where res: "res = (rc1, c1)" by fastforce
    from all Inl res have "rc1 \<noteq> 1" by (simp add: iterate_append split: if_splits)
    with walk_stops [OF Inl [unfolded res]] have m: "rc1 = 0" "c1 = ?c" "\<exists>x\<in>set before. x ! 0 = 0" by auto
    have "fat_iterate_dir fs st3 0 fat_find_visitor ?c = (0, ?c)" using now Inl res m by (simp add: ents iterate_append)
    then have "\<exists>rc. fat_dir_find_entry fs st3 0 leaf = Inl rc"
      by (auto simp: lookup_agree_spec split: sum.splits prod.splits)
    with m(3) show ?thesis by auto
  next
    case (Inr res)
    obtain l c1 where res: "res = (l, c1)" by fastforce
    have "c1 = ?c" using Inr res entries_agree [of fat_lfn_reset ?c before 0 0] by (simp split: sum.splits prod.splits)
    then have "fat_iterate_dir fs st3 0 fat_find_visitor ?c = (1, ?c\<lparr>ff_entry := ne, ff_found := True\<rparr>)"
      using now Inr res walk_new_file [OF leaf ne, of ?c l sfn after] by (simp add: ents iterate_append)
    then have "\<exists>loc. fat_dir_find_entry fs st3 0 leaf = Inr (ne, loc)"
      by (auto simp: lookup_agree_spec split: sum.splits prod.splits if_splits)
    moreover have "\<forall>x\<in>set before. x ! 0 \<noteq> 0" using walk_passes [OF Inr [unfolded res]] by blast
    ultimately show ?thesis by auto
  qed
qed


lemma create_then_read_spec:
  assumes s: "fat_sound fs" and r: "fat_root fs" and d: "fat_disk fs st"
    and leaf: "leaf \<noteq> []" "length leaf < VFS_MAX_NAME" "CHR ''/'' \<notin> set leaf" "\<forall>c\<in>set leaf. printable c"
    and find: "find_room fs st (CHR ''/'' # leaf) = (Some (dir, leaf', sfn, loc), fs', st')"
    and len: "length data < 2 ^ 32"
    and room: "data = [] \<or> clusters_needed fs (length data) \<le> card (free_clusters fs st)"
  shows "\<exists>h st3. fat_op_create_file True kb fs st (CHR ''/'' # leaf) data = Some (0, fs\<lparr>next_free_cluster := h\<rparr>, st3)
     \<and> (\<forall>buf. length data \<le> length buf \<longrightarrow>
          fat_op_read_file (fs\<lparr>next_free_cluster := h\<rparr>) st3 (CHR ''/'' # leaf) (Some buf) (length buf) =
            (if before_end fs st loc then (0, Some (length data), Some (data @ drop (length data) buf))
             else (-1, None, Some buf)))"
proof -
  note p = room_place [OF leaf(1-3) r find]
  from p(6,7) obtain rc i k where old: "fat_dir_find_entry fs st 0 leaf = Inl rc" and i: "i < unat (root_dir_sectors fs)"
    and k: "k + fat_lfn_entry_count_for_name leaf < 16" and loc: "loc = at (unat (first_root_dir_sector fs) + i) k" by blast
  from contents_view [OF s r d len room, of kb] obtain h first st2 where
    w: "fat_write_file_payload True kb fs st data = Some (Inr first, fs\<lparr>next_free_cluster := h\<rparr>, st2)" and d2: "fat_disk fs st2"
    and same: "\<And>q. q < unat (total_sectors fs) \<Longrightarrow> in_root fs q \<Longrightarrow> vsec fs st2 q = vsec fs st q"
    and rd: "readable (fs\<lparr>next_free_cluster := h\<rparr>) st2 first data" by blast
  define fs1 where "fs1 = fs\<lparr>next_free_cluster := h\<rparr>"
  define ne where "ne = (fat_set_entry_cluster (no_dir_entry\<lparr>de_name := sfn, de_attr := 0\<rparr>) first)\<lparr>de_size := of_nat (length data)\<rparr>"
  have ne: "length (de_name ne) = 11" "de_name ne ! 0 \<noteq> 0" "de_name ne ! 0 \<noteq> 0xE5" "de_attr ne = 0"
    "de_size ne = of_nat (length data)" "fat_entry_cluster ne = first"
    using make_sfn_shape [OF p(3)] entry_cluster_roundtrip [of "no_dir_entry\<lparr>de_name := sfn, de_attr := 0\<rparr>" first]
    by (simp_all add: ne_def fat_set_entry_cluster_def fat_entry_cluster_def)
  have fs1: "fat_sound fs1" "fat_root fs1" "fat_disk fs1 st" "fat_disk fs1 st2" "root_entries fs1 = root_entries fs"
    "unat (root_dir_sectors fs1) = unat (root_dir_sectors fs)" "first_root_dir_sector fs1 = first_root_dir_sector fs"
    "total_sectors fs1 = total_sectors fs" "in_root fs1 = in_root fs" "vsec fs1 = vsec fs"
    "fat_dir_find_entry fs1 st 0 leaf = Inl rc"
  proof -
    show "root_entries fs1 = root_entries fs" by (intro ext) (simp add: root_entries_def entries_in_def fs1_def slots_def [abs_def])
    have "find_in_sectors fs1 = find_in_sectors fs"
    proof (intro ext)
      fix st nm sec n l show "find_in_sectors fs1 st nm sec n l = find_in_sectors fs st nm sec n l"
        by (induction n arbitrary: sec l) (simp_all add: fs1_def split: sum.split)
    qed
    then show "fat_dir_find_entry fs1 st 0 leaf = Inl rc"
      using old r by (simp add: fat_dir_find_entry_def fat_root_def fs1_def)
    show "fat_root fs1" using r by (simp add: fat_root_def fs1_def)
    show "in_root fs1 = in_root fs" by (intro ext) (simp add: in_root_def fs1_def)
  qed (use s d d2 in \<open>simp_all add: fs1_def\<close>)
  from root_after_names [OF fs1(4) _ fs1(1,2) i [folded fs1(6)] k leaf(1,2) ne(1), of st sfn] same obtain st3 before after where
    n: "write_names fs1 st2 loc leaf sfn ne = (0, st3)" "fat_disk fs1 st3"
    "\<And>q. q < unat (total_sectors fs) \<Longrightarrow> \<not> in_root fs q \<Longrightarrow> vsec fs1 st3 q = vsec fs1 st2 q"
    "before = take (16 * i + k) (root_entries fs st)"
    "root_entries fs1 st3 = before @ map lfn_entry_bytes (lfn_entries leaf sfn) @ [dir_entry_bytes ne] @ after"
    unfolding fs1(5,7-10) loc by blast
  have create: "fat_op_create_file True kb fs st (CHR ''/'' # leaf) data = Some (0, fs1, st3)"
    using find p(1-5) w n(1) unfolding fat_op_create_file_def fat_create_entry_def fs1_def ne_def by simp
  have "unat (first_root_dir_sector fs) + i < 2 ^ 32"
    using root_bounds(1) [OF s r i] unsigned_less [of "total_sectors fs", where 'a = nat] by simp
  then have u: "unat (of_nat (unat (first_root_dir_sector fs) + i) :: u32) = unat (first_root_dir_sector fs) + i"
    by (intro unat_of_nat_le) simp
  have "k < 16" using k by simp
  then have "before_end fs st loc \<longleftrightarrow> (\<forall>x\<in>set before. x ! 0 \<noteq> 0)"
    unfolding before_end_def n(4) loc at_def fat_dir_loc.simps unat_off [OF \<open>k < 16\<close>] u by simp
  with lookup_after [OF fs1(1-3) n(2) leaf(1,2,4) ne(1-4) fs1(11) n(4)[folded fs1(5)] n(5)]
  have found: "if before_end fs st loc then \<exists>loc. fat_dir_find_entry fs1 st3 0 leaf = Inr (ne, loc)
     else \<exists>rc. fat_dir_find_entry fs1 st3 0 leaf = Inl rc" by simp
  have "fat_read_file_data fs1 st3 ne (Some buf) (length buf) = (0, length data, Some (data @ drop (length data) buf))"
    if "length data \<le> length buf" for buf
    using rd n(2,3) ne(5,6) that unfolding readable_def fs1_def [symmetric] fs1(8,9) by blast
  then have "\<forall>buf. length data \<le> length buf \<longrightarrow>
          fat_op_read_file fs1 st3 (CHR ''/'' # leaf) (Some buf) (length buf) =
            (if before_end fs st loc then (0, Some (length data), Some (data @ drop (length data) buf))
             else (-1, None, Some buf))"
    using found ne(4) by (auto simp: fat_op_read_file_def resolve_leaf [OF leaf(1-3)] split: if_splits)
  with create show ?thesis unfolding fs1_def by blast
qed


text \<open>
  C32. A new file in the root directory of a FAT12 or FAT16 volume. When the name is new, printable and
  fits an entry, there is room in the directory and enough clusters are free, creating the file
  succeeds. If no entry before the place that \<open>fat_dir_find_free_slots\<close> chose is the mark that
  ends the directory, reading the path then gives the length and the bytes that were written.
  Otherwise the new entries lie behind that mark: the file takes its clusters, but no lookup finds it.
\<close>

theorem fat_create_then_read:
  assumes "fat_sound fs" "fat_root fs" "fat_disk fs st"
    and "leaf \<noteq> []" "length leaf < VFS_MAX_NAME" "CHR ''/'' \<notin> set leaf" "\<forall>c\<in>set leaf. printable c"
    and "find_room fs st (CHR ''/'' # leaf) = (Some (dir, leaf', sfn, loc), fs', st')"
    and "length data < 2 ^ 32" "data = [] \<or> clusters_needed fs (length data) \<le> card (free_clusters fs st)"
  shows "\<exists>h st3. fat_op_create_file True kb fs st (CHR ''/'' # leaf) data = Some (0, fs\<lparr>next_free_cluster := h\<rparr>, st3)
     \<and> (\<forall>buf. length data \<le> length buf \<longrightarrow>
          fat_op_read_file (fs\<lparr>next_free_cluster := h\<rparr>) st3 (CHR ''/'' # leaf) (Some buf) (length buf) =
            (if before_end fs st loc then (0, Some (length data), Some (data @ drop (length data) buf))
             else (-1, None, Some buf)))"
  using assms by (rule create_then_read_spec)

lemma floppy_entries: "sec_entries zero_sector = replicate 16 (replicate 32 0)"
  by (simp add: sec_entries_def zero_sector_def ATA_SECTOR_SIZE_def list_eq_iff_nth_eq)

lemma floppy_root_sector: "fat_read_sector floppy_fs floppy 7 = Inr zero_sector"
  by (simp add: fat_read_sector_def floppy_fs_def floppy_read)

lemma floppy_geometry:
  "ftype floppy_fs = FAT_TYPE_12" "first_root_dir_sector floppy_fs = 7" "unat (root_dir_sectors floppy_fs) = Suc 0"
  by (simp_all add: floppy_fs_def)

lemma replicate_16: "replicate 16 x = x # replicate 15 x" by (simp add: numeral_eq_Suc)
lemma replicate_15: "replicate 15 x = x # replicate 14 x" by (simp add: numeral_eq_Suc)

lemma floppy_find: "fat_dir_find_entry floppy_fs floppy 0 ''a'' = Inl (-2)"
  by (simp add: fat_dir_find_entry_def floppy_geometry floppy_root_sector floppy_entries replicate_16 dir_entry_of_def)

lemma floppy_sfn: "fat_make_sfn ''a'' = Some (0x41 # replicate 10 0x20)"
  by (simp add: fat_make_sfn_def split_last_def Let_def fat_char_valid_sfn_def sfn_char_def take_Cons' drop_Cons' flip: replicate_add)

lemma floppy_slots:
  "fat_dir_find_free_slots floppy_fs floppy 0 (Suc (Suc 0)) = (Inr \<lparr>loc_sector = 7, loc_offset = 0\<rparr>, floppy_fs, floppy)"
  by (simp add: fat_dir_find_free_slots_def floppy_geometry floppy_root_sector floppy_entries ATA_SECTOR_SIZE_def
      replicate_16 replicate_15)

lemma floppy_room:
  "find_room floppy_fs floppy ''/a'' =
     (Some (0, ''a'', 0x41 # replicate 10 0x20, \<lparr>loc_sector = 7, loc_offset = 0\<rparr>), floppy_fs, floppy)"
proof -
  have n: "fat_lfn_entry_count_for_name ''a'' = 1"
    by (simp add: fat_lfn_entry_count_for_name_def FAT_LFN_CHARS_PER_ENTRY_def)
  show ?thesis
    using leaf_paths(3) [of "''a''"] floppy_find floppy_sfn n floppy_slots
    by (simp add: find_room_def fat_resolve_parent_dir_def VFS_MAX_NAME_def)
qed

theorem fat_create_then_read_witness:
  "\<exists>h st3. fat_op_create_file True True floppy_fs floppy ''/a'' [1, 2, 3] = Some (0, floppy_fs\<lparr>next_free_cluster := h\<rparr>, st3)
     \<and> fat_op_read_file (floppy_fs\<lparr>next_free_cluster := h\<rparr>) st3 ''/a'' (Some [0, 0, 0, 9]) 4 =
         (0, Some 3, Some [1, 2, 3, 9])"
proof -
  have "clusters_needed floppy_fs (length [1, 2, 3 :: u8]) \<le> card (free_clusters floppy_fs floppy)"
    using floppy_one_free by (simp add: clusters_needed_def floppy_fs_def ATA_SECTOR_SIZE_def)
  moreover have "fat_root floppy_fs" by (simp add: fat_root_def floppy_fs_def copy_base_def)
  moreover have "\<forall>c\<in>set ''a''. printable c" by (simp add: printable_def)
  moreover have "before_end floppy_fs floppy \<lparr>loc_sector = 7, loc_offset = 0\<rparr>"
    by (simp add: before_end_def floppy_fs_def)
  ultimately obtain h st3 where
    "fat_op_create_file True True floppy_fs floppy ''/a'' [1, 2, 3] = Some (0, floppy_fs\<lparr>next_free_cluster := h\<rparr>, st3)"
    and r: "\<And>buf. 3 \<le> length buf \<Longrightarrow>
          fat_op_read_file (floppy_fs\<lparr>next_free_cluster := h\<rparr>) st3 ''/a'' (Some buf) (length buf) =
            (0, Some 3, Some ([1, 2, 3] @ drop 3 buf))"
    using fat_create_then_read [OF floppy_fat_sound _ floppy_disk _ _ _ _ floppy_room, of "[1, 2, 3]" True]
    by (auto simp: VFS_MAX_NAME_def numeral_3_eq_3)
  with r [of "[0, 0, 0, 9]"] show ?thesis by (auto simp: numeral_eq_Suc)
qed

end
