(* ===== verification/Mkfs.thy ===== *)
theory Mkfs
  imports Fat_Create
begin

text \<open>
  Formatting a volume, \<open>fs_mkfs_fat\<close> of \<open>fs/fs.c\<close>: the choice of a layout, the boot sector,
  and the sectors written. The loops that write sectors are lists of writes, done in order
  until one fails.

  The theorems say that a volume formatted this way mounts with the layout chosen, with every
  cluster free and an empty root directory, and that a file can be created in it and read.
\<close>

section \<open>The layout\<close>

definition fs_fat_spf_from_clusters :: "u32 \<Rightarrow> fat_type \<Rightarrow> u32" where
  "fs_fat_spf_from_clusters clusters ty =
     (let entries = ucast clusters + 2 :: u64;
          bytes = (if ty = FAT_TYPE_12 then (entries * 3 + 1) div 2
                   else if ty = FAT_TYPE_16 then entries * 2 else entries * 4);
          spf = ucast ((bytes + (of_nat ATA_SECTOR_SIZE - 1)) div of_nat ATA_SECTOR_SIZE) :: u32
      in if spf \<noteq> 0 then spf else 1)"

definition fs_root_dir_sectors :: "u16 \<Rightarrow> u32" where
  "fs_root_dir_sectors root_ents =
     ucast ((ucast root_ents * 32 + (of_nat ATA_SECTOR_SIZE - 1)) div of_nat ATA_SECTOR_SIZE :: u64)"

text \<open>At most eight rounds, until the size of the table fits the clusters it leaves room for.\<close>

fun layout_loop :: "u32 \<Rightarrow> fat_type \<Rightarrow> u8 \<Rightarrow> u16 \<Rightarrow> u32 \<Rightarrow> nat \<Rightarrow> u32 \<Rightarrow> u32 option" where
  "layout_loop tot ty spc reserved rds 0 spf = Some spf"
| "layout_loop tot ty spc reserved rds (Suc n) spf =
     (if tot \<le> ucast reserved + 2 * spf + rds then None
      else let clusters = (tot - ucast reserved - 2 * spf - rds) div ucast spc in
        if clusters = 0 then None
        else let needed = fs_fat_spf_from_clusters clusters ty in
          if needed = spf then Some spf else layout_loop tot ty spc reserved rds n needed)"

text \<open>Sectors of a table and number of clusters.\<close>

definition fs_fat_try_layout :: "u32 \<Rightarrow> fat_type \<Rightarrow> u8 \<Rightarrow> u16 \<Rightarrow> u16 \<Rightarrow> (u32 \<times> u32) option" where
  "fs_fat_try_layout tot ty spc reserved root_ents =
     (if spc = 0 then None
      else let rds = fs_root_dir_sectors root_ents in
        case layout_loop tot ty spc reserved rds 8 1 of
          None \<Rightarrow> None
        | Some spf \<Rightarrow>
            if tot \<le> ucast reserved + 2 * spf + rds then None
            else let clusters = (tot - ucast reserved - 2 * spf - rds) div ucast spc in
              if clusters = 0 then None else Some (spf, clusters))"

record fat_layout =
  ly_type :: fat_type
  ly_spc :: u8
  ly_reserved :: u16
  ly_root_entries :: u16
  ly_spf :: u32
  ly_clusters :: u32

text \<open>Whether a volume with so many clusters has the type.\<close>

definition type_fits :: "fat_type \<Rightarrow> u32 \<Rightarrow> bool" where
  "type_fits ty clusters \<longleftrightarrow>
     \<not> (ty = FAT_TYPE_12 \<and> clusters \<ge> 4085) \<and> \<not> (ty = FAT_TYPE_16 \<and> (clusters < 4085 \<or> clusters \<ge> 65525))
     \<and> \<not> (ty = FAT_TYPE_32 \<and> clusters < 65525)"

fun pick_spc :: "u32 \<Rightarrow> fat_type \<Rightarrow> u16 \<Rightarrow> u16 \<Rightarrow> fat_layout option \<Rightarrow> u8 list \<Rightarrow> fat_layout option" where
  "pick_spc tot ty reserved root_ents best [] = best"
| "pick_spc tot ty reserved root_ents best (spc # rest) =
     pick_spc tot ty reserved root_ents
       (case fs_fat_try_layout tot ty spc reserved root_ents of
          None \<Rightarrow> best
        | Some (spf, clusters) \<Rightarrow>
            if \<not> type_fits ty clusters then best
            else if (case best of None \<Rightarrow> True | Some b \<Rightarrow> spc > ly_spc b)
              then Some \<lparr>ly_type = ty, ly_spc = spc, ly_reserved = reserved, ly_root_entries = root_ents,
                         ly_spf = spf, ly_clusters = clusters\<rparr>
            else best)
       rest"

definition spc_choices :: "u8 list" where "spc_choices = [1, 2, 4, 8, 16, 32, 64, 128]"

fun pick_types :: "u32 \<Rightarrow> fat_type option \<Rightarrow> fat_layout option \<Rightarrow> fat_type list \<Rightarrow> fat_layout option" where
  "pick_types tot wanted best [] = best"
| "pick_types tot wanted best (ty # rest) =
     (let reserved = (if ty = FAT_TYPE_32 then 32 else 1);
          root_ents = (if ty = FAT_TYPE_32 then 0 else 512);
          best = pick_spc tot ty reserved root_ents best spc_choices
      in case best of
           None \<Rightarrow> pick_types tot wanted best rest
         | Some b \<Rightarrow>
             if wanted \<noteq> None then best
             else if wanted = None \<and> ly_type b = FAT_TYPE_32 then best
             else pick_types tot wanted best rest)"

definition fs_fat_pick_layout :: "u32 \<Rightarrow> fat_type option \<Rightarrow> fat_layout option" where
  "fs_fat_pick_layout tot wanted =
     pick_types tot wanted None
       (case wanted of None \<Rightarrow> [FAT_TYPE_32, FAT_TYPE_16, FAT_TYPE_12] | Some ty \<Rightarrow> [ty])"

section \<open>What is written\<close>

definition fs_wr16 :: "u8 list \<Rightarrow> nat \<Rightarrow> u16 \<Rightarrow> u8 list" where
  "fs_wr16 p i v = p[i := ucast (v AND 0xFF), i + 1 := ucast ((drop_bit 8 v) AND 0xFF)]"

definition fs_wr32 :: "u8 list \<Rightarrow> nat \<Rightarrow> u32 \<Rightarrow> u8 list" where
  "fs_wr32 p i v = p[i := ucast (v AND 0xFF), i + 1 := ucast ((drop_bit 8 v) AND 0xFF),
     i + 2 := ucast ((drop_bit 16 v) AND 0xFF), i + 3 := ucast ((drop_bit 24 v) AND 0xFF)]"

text \<open>\<open>memcpy\<close> of a string into a sector.\<close>

fun put_str :: "u8 list \<Rightarrow> nat \<Rightarrow> string \<Rightarrow> u8 list" where
  "put_str p i [] = p"
| "put_str p i (c # s) = put_str (p[i := byte c]) (i + 1) s"

definition mkfs_boot_sector :: "u32 \<Rightarrow> u32 \<Rightarrow> fat_layout \<Rightarrow> u8 list" where
  "mkfs_boot_sector lba_start sectors ly =
     (let ty = ly_type ly;
          bs = replicate ATA_SECTOR_SIZE 0;
          bs = bs[0 := 0xEB, 1 := 0x3C, 2 := 0x90];
          bs = put_str bs 3 ''NTUXFAT '';
          bs = fs_wr16 bs 11 (of_nat ATA_SECTOR_SIZE);
          bs = bs[13 := ly_spc ly];
          bs = fs_wr16 bs 14 (ly_reserved ly);
          bs = bs[16 := 2];
          bs = fs_wr16 bs 17 (ly_root_entries ly);
          bs = (if ty \<noteq> FAT_TYPE_32 \<and> sectors < 0x10000 then fs_wr16 bs 19 (ucast sectors) else fs_wr16 bs 19 0);
          bs = bs[21 := 0xF8];
          bs = fs_wr16 bs 22 (if ty = FAT_TYPE_32 then 0 else ucast (ly_spf ly));
          bs = fs_wr16 bs 24 63;
          bs = fs_wr16 bs 26 255;
          bs = fs_wr32 bs 28 lba_start;
          bs = (if ty = FAT_TYPE_32 \<or> sectors \<ge> 0x10000 then fs_wr32 bs 32 sectors else bs);
          bs = (if ty = FAT_TYPE_32 then
                  let bs = fs_wr32 bs 36 (ly_spf ly);
                      bs = fs_wr16 bs 40 0;
                      bs = fs_wr16 bs 42 0;
                      bs = fs_wr32 bs 44 2;
                      bs = fs_wr16 bs 48 1;
                      bs = fs_wr16 bs 50 6;
                      bs = bs[64 := 0x80, 66 := 0x29];
                      bs = fs_wr32 bs 67 0x12345678;
                      bs = put_str bs 71 ''NTUX OS    ''
                  in put_str bs 82 ''FAT32   ''
                else
                  let bs = bs[36 := 0x80, 38 := 0x29];
                      bs = fs_wr32 bs 39 0x12345678;
                      bs = put_str bs 43 ''NTUX OS    ''
                  in put_str bs 54 (if ty = FAT_TYPE_12 then ''FAT12   '' else ''FAT16   ''))
      in bs[510 := 0x55, 511 := 0xAA])"

definition mkfs_fsinfo :: "u8 list" where
  "mkfs_fsinfo =
     (let b = replicate ATA_SECTOR_SIZE 0;
          b = fs_wr32 b 0 0x41615252;
          b = fs_wr32 b 484 0x61417272;
          b = fs_wr32 b 488 0xFFFFFFFF;
          b = fs_wr32 b 492 0xFFFFFFFF
      in fs_wr16 b 510 0xAA55)"

text \<open>The first sector of a table.\<close>

definition mkfs_fat_sector :: "fat_type \<Rightarrow> u8 list" where
  "mkfs_fat_sector ty =
     (let sec = replicate ATA_SECTOR_SIZE 0 in
      case ty of
        FAT_TYPE_12 \<Rightarrow> sec[0 := 0xF8, 1 := 0xFF, 2 := 0xFF]
      | FAT_TYPE_16 \<Rightarrow> sec[0 := 0xF8, 1 := 0xFF, 2 := 0xFF, 3 := 0xFF]
      | FAT_TYPE_32 \<Rightarrow> fs_wr32 (fs_wr32 (fs_wr32 sec 0 0x0FFFFFF8) 4 0x0FFFFFFF) 8 0x0FFFFFFF)"

definition mkfs_zero :: "u8 list" where "mkfs_zero = replicate ATA_SECTOR_SIZE 0"

definition reserved_writes :: "u32 \<Rightarrow> fat_layout \<Rightarrow> u8 list \<Rightarrow> (u32 \<times> u8 list) list" where
  "reserved_writes lba_start ly bs =
     (if ly_type ly = FAT_TYPE_32 then
        [(lba_start + 1, mkfs_fsinfo), (lba_start + 6, bs)]
        @ map (\<lambda>s. (lba_start + of_nat s, mkfs_zero)) (filter (\<lambda>s. s \<noteq> 6) [2..<unat (ly_reserved ly)])
      else map (\<lambda>s. (lba_start + of_nat s, mkfs_zero)) [1..<unat (ly_reserved ly)])"

definition table_writes :: "u32 \<Rightarrow> fat_layout \<Rightarrow> nat \<Rightarrow> (u32 \<times> u8 list) list" where
  "table_writes fat_base ly fi =
     map (\<lambda>s. (fat_base + of_nat fi * ly_spf ly + of_nat s,
               if s = 0 then mkfs_fat_sector (ly_type ly) else mkfs_zero)) [0..<unat (ly_spf ly)]"

definition root_writes :: "u32 \<Rightarrow> fat_layout \<Rightarrow> (u32 \<times> u8 list) list" where
  "root_writes fat_base ly =
     (let rds = fs_root_dir_sectors (ly_root_entries ly); first_root = fat_base + 2 * ly_spf ly in
      if ly_type ly \<noteq> FAT_TYPE_32
      then map (\<lambda>s. (first_root + of_nat s, mkfs_zero)) [0..<unat rds]
      else map (\<lambda>s. (first_root + rds + of_nat s, mkfs_zero)) [0..<unat (ly_spc ly)])"

fun mkfs_write :: "storage \<Rightarrow> nat \<Rightarrow> (u32 \<times> u8 list) list \<Rightarrow> int \<times> storage" where
  "mkfs_write st drive [] = (0, st)"
| "mkfs_write st drive ((s, sec) # ws) =
     (case fs_device_write_sectors st drive (ucast s) 1 sec of
        (rc, st1) \<Rightarrow> if rc \<noteq> 0 then (-1, st1) else mkfs_write st1 drive ws)"

definition mkfs_all_writes :: "u32 \<Rightarrow> u32 \<Rightarrow> fat_layout \<Rightarrow> (u32 \<times> u8 list) list" where
  "mkfs_all_writes lba_start sectors ly =
     (let bs = mkfs_boot_sector lba_start sectors ly; fat_base = lba_start + ucast (ly_reserved ly) in
      [(lba_start, bs)] @ reserved_writes lba_start ly bs
      @ table_writes fat_base ly 0 @ table_writes fat_base ly 1 @ root_writes fat_base ly)"

definition fs_mkfs_fat :: "storage \<Rightarrow> nat \<Rightarrow> u32 \<Rightarrow> u32 \<Rightarrow> nat \<Rightarrow> int \<times> storage" where
  "fs_mkfs_fat st drive lba_start sectors fat_type =
     (case fs_drive_total_sectors st drive of
        None \<Rightarrow> (-1, st)
      | Some tot \<Rightarrow>
          if ucast lba_start \<ge> tot then (-1, st)
          else if sectors = 0 \<or> ucast lba_start + ucast sectors > tot then (-1, st)
          else case fs_get_block_device st drive of
            None \<Rightarrow> (-1, st)
          | Some d \<Rightarrow>
              if bd_is_atapi d then (-1, st)
              else
                let wanted = (if fat_type = 12 then Some FAT_TYPE_12 else if fat_type = 16 then Some FAT_TYPE_16
                              else if fat_type = 32 then Some FAT_TYPE_32 else None)
                in case fs_fat_pick_layout sectors wanted of
                     None \<Rightarrow> (-1, st)
                   | Some ly \<Rightarrow> mkfs_write st drive (mkfs_all_writes lba_start sectors ly))"


section \<open>Sizes of a layout\<close>

lemma spf_bounds:
  "0 < unat (fs_fat_spf_from_clusters c ty)"
  "128 * unat (fs_fat_spf_from_clusters c ty) \<le> unat c + 130"
proof -
  define e where "e = (ucast c + 2 :: u64)"
  define b where "b = (if ty = FAT_TYPE_12 then (e * 3 + 1) div 2 else if ty = FAT_TYPE_16 then e * 2 else e * 4)"
  have c: "unat c < 2 ^ 32" using unsigned_less [of c, where 'a = nat] by simp
  have e: "unat e = unat c + 2" using c by (simp add: e_def unat_word_ariths(1) unat_ucast_widen)
  have b: "unat b \<le> 4 * (unat c + 2)" using c e by (auto simp: b_def unat_word_ariths(1,2) unat_div)
  have n: "unat ((b + (of_nat ATA_SECTOR_SIZE - 1)) div of_nat ATA_SECTOR_SIZE) = (unat b + 511) div 512"
    using b c by (simp add: ATA_SECTOR_SIZE_def unat_word_ariths(1) unat_div)
  define s where "s = (ucast ((b + (of_nat ATA_SECTOR_SIZE - 1)) div of_nat ATA_SECTOR_SIZE) :: u32)"
  have "(unat b + 511) div 512 < 2 ^ 32" using b c by (auto intro: div_less_dividend le_less_trans)
  then have s: "unat s = (unat b + 511) div 512" by (simp add: s_def unsigned_ucast_eq n take_bit_nat_eq_self)
  have r: "fs_fat_spf_from_clusters c ty = (if s \<noteq> 0 then s else 1)"
    by (simp only: fs_fat_spf_from_clusters_def Let_def e_def [symmetric] b_def [symmetric] s_def [symmetric])
  show "0 < unat (fs_fat_spf_from_clusters c ty)" unfolding r by (simp add: unat_gt_0)
  have "512 * unat s \<le> unat b + 511" unfolding s by (rule times_div_less_eq_dividend)
  then show "128 * unat (fs_fat_spf_from_clusters c ty) \<le> unat c + 130" using b unfolding r by (simp split: if_split)
qed

lemma root_dir_sectors_small: "unat (fs_root_dir_sectors n) \<le> 4096"
proof -
  have n: "unat n < 2 ^ 16" using unsigned_less [of n, where 'a = nat] by simp
  have "unat ((ucast n * 32 + (of_nat ATA_SECTOR_SIZE - 1)) div of_nat ATA_SECTOR_SIZE :: u64) = (unat n * 32 + 511) div 512"
    using n by (simp add: ATA_SECTOR_SIZE_def unat_word_ariths(1,2) unat_div unat_ucast_widen)
  moreover have "(unat n * 32 + 511) div 512 \<le> 4096" using n by simp
  ultimately show ?thesis by (simp add: fs_root_dir_sectors_def unsigned_ucast_eq take_bit_nat_eq_self)
qed

text \<open>The sectors before the data, and the data sectors, as numbers.\<close>

lemma data_sectors:
  fixes spf rds tot :: u32 and reserved :: u16
  assumes "128 * unat spf \<le> 2 ^ 32 + 130" "unat rds \<le> 4096"
  shows "tot \<le> ucast reserved + 2 * spf + rds \<longleftrightarrow> unat tot \<le> unat reserved + 2 * unat spf + unat rds"
    and "\<not> tot \<le> ucast reserved + 2 * spf + rds \<Longrightarrow>
      unat ((tot - ucast reserved - 2 * spf - rds) div ucast spc) =
        (unat tot - (unat reserved + 2 * unat spf + unat rds)) div unat (spc :: u8)"
proof -
  have r: "unat reserved < 2 ^ 16" using unsigned_less [of reserved, where 'a = nat] by simp
  have u: "unat (ucast reserved + 2 * spf + rds) = unat reserved + 2 * unat spf + unat rds"
    using assms r by (simp add: unat_word_ariths(1,2) unat_ucast_widen)
  then show le: "tot \<le> ucast reserved + 2 * spf + rds \<longleftrightarrow> unat tot \<le> unat reserved + 2 * unat spf + unat rds"
    by (simp only: word_le_nat_alt)
  assume "\<not> tot \<le> ucast reserved + 2 * spf + rds"
  then have "unat (tot - (ucast reserved + 2 * spf + rds)) = unat tot - (unat reserved + 2 * unat spf + unat rds)"
    using u by (simp add: unat_sub)
  moreover have "tot - ucast reserved - 2 * spf - rds = tot - (ucast reserved + 2 * spf + rds)" by (simp add: algebra_simps)
  ultimately show "unat ((tot - ucast reserved - 2 * spf - rds) div ucast spc) =
        (unat tot - (unat reserved + 2 * unat spf + unat rds)) div unat spc"
    by (simp only: unat_div) (simp add: unat_ucast_widen)
qed

lemma small_table:
  assumes "128 * unat spf \<le> unat (tot :: u32) div k + 130"
  shows "128 * unat (spf :: u32) \<le> 2 ^ 32 + 130"
proof -
  have "unat tot < 2 ^ 32" using unsigned_less [of tot, where 'a = nat] by simp
  moreover have "unat tot div k \<le> unat tot" by (rule div_le_dividend)
  ultimately show ?thesis using assms by linarith
qed

lemma loop_bounds:
  "layout_loop tot ty spc reserved rds n spf = Some spf' \<Longrightarrow> unat rds \<le> 4096 \<Longrightarrow>
     0 < unat spf \<Longrightarrow> 128 * unat spf \<le> unat tot div unat spc + 130 \<Longrightarrow>
     0 < unat spf' \<and> 128 * unat spf' \<le> unat tot div unat spc + 130"
proof (induction n arbitrary: spf)
  case (Suc n)
  let ?c = "(tot - ucast reserved - 2 * spf - rds) div ucast spc"
  note d = data_sectors [OF small_table [OF Suc.prems(4)] Suc.prems(2), of tot reserved]
  from Suc.prems(1) have ok: "\<not> tot \<le> ucast reserved + 2 * spf + rds" by (auto split: if_splits)
  have "unat ?c \<le> unat tot div unat spc" unfolding d(2) [OF ok] by (intro div_le_mono) simp
  with spf_bounds [of ?c ty] have b: "0 < unat (fs_fat_spf_from_clusters ?c ty)"
    "128 * unat (fs_fat_spf_from_clusters ?c ty) \<le> unat tot div unat spc + 130" by linarith+
  show ?case
  proof (cases "fs_fat_spf_from_clusters ?c ty = spf")
    case True
    with Suc.prems ok show ?thesis by (auto simp: Let_def split: if_splits)
  next
    case False
    with Suc.prems(1) ok have "layout_loop tot ty spc reserved rds n (fs_fat_spf_from_clusters ?c ty) = Some spf'"
      by (auto simp: Let_def split: if_splits)
    from Suc.IH [OF this Suc.prems(2) b] show ?thesis .
  qed
qed simp

text \<open>A layout that is found fits the volume.\<close>

definition layout_fits :: "u32 \<Rightarrow> u8 \<Rightarrow> u16 \<Rightarrow> u16 \<Rightarrow> u32 \<Rightarrow> u32 \<Rightarrow> bool" where
  "layout_fits tot spc reserved root_ents spf clusters \<longleftrightarrow>
     0 < unat spf \<and> 128 * unat spf \<le> unat tot div unat spc + 130
     \<and> unat reserved + 2 * unat spf + unat (fs_root_dir_sectors root_ents) < unat tot
     \<and> unat clusters = (unat tot - (unat reserved + 2 * unat spf + unat (fs_root_dir_sectors root_ents))) div unat spc
     \<and> clusters \<noteq> 0 \<and> clusters = (tot - ucast reserved - 2 * spf - fs_root_dir_sectors root_ents) div ucast spc"

lemma try_layout_fits:
  assumes "fs_fat_try_layout tot ty spc reserved root_ents = Some (spf, clusters)"
  shows "layout_fits tot spc reserved root_ents spf clusters"
proof -
  let ?rds = "fs_root_dir_sectors root_ents"
  from assms obtain l: "layout_loop tot ty spc reserved ?rds 8 1 = Some spf"
    and ok: "\<not> tot \<le> ucast reserved + 2 * spf + ?rds"
    and c: "clusters = (tot - ucast reserved - 2 * spf - ?rds) div ucast spc" "clusters \<noteq> 0"
    by (auto simp: fs_fat_try_layout_def Let_def split: if_splits option.splits)
  from loop_bounds [OF l root_dir_sectors_small] have b: "0 < unat spf" "128 * unat spf \<le> unat tot div unat spc + 130"
    by simp_all
  note d = data_sectors [OF small_table [OF b(2)] root_dir_sectors_small, of tot reserved root_ents]
  show ?thesis using b c ok d(1) d(2) [OF ok, of spc] by (simp add: layout_fits_def)
qed

section \<open>The choice\<close>

text \<open>What holds for a layout that was chosen for a volume of \<open>tot\<close> sectors.\<close>

definition good_layout :: "u32 \<Rightarrow> fat_layout \<Rightarrow> bool" where
  "good_layout tot ly \<longleftrightarrow> ly_spc ly \<in> set spc_choices
     \<and> ly_reserved ly = (if ly_type ly = FAT_TYPE_32 then 32 else 1)
     \<and> ly_root_entries ly = (if ly_type ly = FAT_TYPE_32 then 0 else 512)
     \<and> layout_fits tot (ly_spc ly) (ly_reserved ly) (ly_root_entries ly) (ly_spf ly) (ly_clusters ly)
     \<and> type_fits (ly_type ly) (ly_clusters ly)
     \<and> (ly_type ly = FAT_TYPE_32 \<longrightarrow> 2 ^ 27 \<le> unat tot \<longrightarrow> ly_spc ly = 128)"

lemma pick_spc_from:
  "pick_spc tot ty reserved root_ents best cs = Some ly \<Longrightarrow> best = Some ly \<or>
     (ly_type ly = ty \<and> ly_spc ly \<in> set cs \<and> ly_reserved ly = reserved \<and> ly_root_entries ly = root_ents
      \<and> fs_fat_try_layout tot ty (ly_spc ly) reserved root_ents = Some (ly_spf ly, ly_clusters ly)
      \<and> type_fits ty (ly_clusters ly))"
proof (induction tot ty reserved root_ents best cs rule: pick_spc.induct)
  case (2 tot ty reserved root_ents best spc rest)
  then show ?case
    by (simp, elim disjE) (auto split: option.splits prod.splits if_splits)
qed simp

text \<open>A volume of at least 64 GiB can be FAT32 with clusters of 128 sectors.\<close>

lemma large_room:
  fixes t k :: nat
  assumes "2 ^ 27 \<le> t" "128 * k \<le> t div 128 + 130"
  shows "32 + 2 * k < t" "65525 \<le> (t - (32 + 2 * k)) div 128"
proof -
  have t: "134217728 \<le> t" using assms(1) by simp
  have "t div 128 \<le> t" by (rule div_le_dividend)
  then have k: "128 * k \<le> t + 130" using assms(2) by linarith
  then show "32 + 2 * k < t" using t by linarith
  have "65525 * 128 \<le> t - (32 + 2 * k)" using t k by linarith
  then show "65525 \<le> (t - (32 + 2 * k)) div 128" by (simp add: less_eq_div_iff_mult_less_eq)
qed

lemma large_loop:
  "2 ^ 27 \<le> unat tot \<Longrightarrow> 128 * unat spf \<le> unat tot div 128 + 130 \<Longrightarrow>
     \<exists>spf'. layout_loop tot FAT_TYPE_32 128 32 0 n spf = Some spf' \<and> 128 * unat spf' \<le> unat tot div 128 + 130"
proof (induction n arbitrary: spf)
  case (Suc n)
  let ?c = "(tot - 32 - 2 * spf) div 128"
  note d = data_sectors [OF small_table [OF Suc.prems(2)], of 0 tot 32]
  note room = large_room [OF Suc.prems]
  then have "\<not> unat tot \<le> 32 + 2 * unat spf" by simp
  then have ok: "\<not> tot \<le> 32 + 2 * spf" using d(1) by simp
  have c: "unat ?c = (unat tot - (32 + 2 * unat spf)) div 128" using d(2) [of 128] ok by simp
  have "2 \<le> unat ?c" unfolding c using room(2) by linarith
  then have "?c \<noteq> 0" by auto
  have "unat ?c \<le> unat tot div 128" unfolding c by (intro div_le_mono) simp
  with spf_bounds(2) [of ?c FAT_TYPE_32] have b: "128 * unat (fs_fat_spf_from_clusters ?c FAT_TYPE_32) \<le> unat tot div 128 + 130"
    by linarith
  show ?case
    using Suc.IH [OF Suc.prems(1) b] Suc.prems(2) ok \<open>?c \<noteq> 0\<close> by (simp add: Let_def)
qed simp

lemma large_layout:
  assumes t: "2 ^ 27 \<le> unat tot"
  shows "\<exists>spf clusters. fs_fat_try_layout tot FAT_TYPE_32 128 32 0 = Some (spf, clusters) \<and> type_fits FAT_TYPE_32 clusters"
proof -
  have r: "fs_root_dir_sectors 0 = 0" by (simp add: fs_root_dir_sectors_def ATA_SECTOR_SIZE_def)
  from large_loop [OF t, of 1 8] obtain spf where l: "layout_loop tot FAT_TYPE_32 128 32 0 8 1 = Some spf"
    and b: "128 * unat spf \<le> unat tot div 128 + 130" by auto
  let ?c = "(tot - 32 - 2 * spf) div 128"
  note d = data_sectors [OF small_table [OF b], of 0 tot 32]
  note room = large_room [OF t b]
  then have "\<not> unat tot \<le> 32 + 2 * unat spf" by simp
  then have ok: "\<not> tot \<le> 32 + 2 * spf" using d(1) by simp
  have c: "unat ?c = (unat tot - (32 + 2 * unat spf)) div 128" using d(2) [of 128] ok by simp
  have "65525 \<le> unat ?c" unfolding c by (rule room(2))
  then have "?c \<ge> 65525" "?c \<noteq> 0" by (auto simp: word_le_nat_alt)
  with l ok show ?thesis by (simp add: fs_fat_try_layout_def r type_fits_def Let_def not_less)
qed

lemma pick_spc_32:
  assumes "pick_spc tot FAT_TYPE_32 32 0 None spc_choices = Some ly" "2 ^ 27 \<le> unat tot"
  shows "ly_spc ly = 128"
proof -
  obtain spf clusters where t: "fs_fat_try_layout tot FAT_TYPE_32 128 32 0 = Some (spf, clusters)" "type_fits FAT_TYPE_32 clusters"
    using large_layout [OF assms(2)] by blast
  have app: "pick_spc tot ty r e best (cs @ ds) = pick_spc tot ty r e (pick_spc tot ty r e best cs) ds" for tot ty r e best cs ds
    by (induction cs arbitrary: best) simp_all
  define b where "b = pick_spc tot FAT_TYPE_32 32 0 None [1, 2, 4, 8, 16, 32, 64]"
  have s: "ly_spc l \<in> {1, 2, 4, 8, 16, 32, 64}" if "b = Some l" for l
    using pick_spc_from [OF that [unfolded b_def]] by auto
  have "pick_spc tot FAT_TYPE_32 32 0 b [128] = Some ly"
    using assms(1) unfolding b_def spc_choices_def app [symmetric] by simp
  with t s show ?thesis by (cases b) (auto split: if_splits)
qed

lemma pick_spc_good:
  assumes p: "pick_spc tot ty (if ty = FAT_TYPE_32 then 32 else 1) (if ty = FAT_TYPE_32 then 0 else 512) best spc_choices = Some ly"
    and first: "ty = FAT_TYPE_32 \<Longrightarrow> best = None"
  shows "best = Some ly \<or> (good_layout tot ly \<and> ly_type ly = ty)"
proof (cases "best = Some ly")
  case False
  with pick_spc_from [OF p] have f: "ly_type ly = ty" "ly_spc ly \<in> set spc_choices"
    "ly_reserved ly = (if ty = FAT_TYPE_32 then 32 else 1)" "ly_root_entries ly = (if ty = FAT_TYPE_32 then 0 else 512)"
    "fs_fat_try_layout tot ty (ly_spc ly) (ly_reserved ly) (ly_root_entries ly) = Some (ly_spf ly, ly_clusters ly)"
    "type_fits ty (ly_clusters ly)" by simp_all
  have "ly_spc ly = 128" if "ty = FAT_TYPE_32" "2 ^ 27 \<le> unat tot"
    using p first that by (intro pick_spc_32 [of tot ly]) simp_all
  with f try_layout_fits [OF f(5)] show ?thesis by (simp add: good_layout_def)
qed simp

lemma pick_layout_spec:
  assumes "fs_fat_pick_layout tot wanted = Some ly"
  shows "good_layout tot ly" "wanted = Some ty \<Longrightarrow> ly_type ly = ty"
proof -
  have g: "pick_spc tot FAT_TYPE_32 32 0 None spc_choices = Some l \<Longrightarrow> good_layout tot l \<and> ly_type l = FAT_TYPE_32"
    "ty \<noteq> FAT_TYPE_32 \<Longrightarrow> pick_spc tot ty 1 512 best spc_choices = Some l \<Longrightarrow> best = Some l \<or> good_layout tot l \<and> ly_type l = ty"
    for l best ty
    using pick_spc_good [of tot FAT_TYPE_32 None l] pick_spc_good [of tot ty best l] by simp_all
  note g12 = g(2) [of FAT_TYPE_12, simplified] and g16 = g(2) [of FAT_TYPE_16, simplified]
  have "good_layout tot ly \<and> (\<forall>ty. wanted = Some ty \<longrightarrow> ly_type ly = ty)"
  proof (cases wanted)
    case None
    with assms show ?thesis
      by (auto simp: fs_fat_pick_layout_def Let_def split: option.splits if_splits dest: g(1) g12 g16)
  next
    case (Some ty)
    with assms show ?thesis
      by (cases ty) (auto simp: fs_fat_pick_layout_def Let_def split: option.splits if_splits dest: g(1) g12 g16)
  qed
  then show "good_layout tot ly" "wanted = Some ty \<Longrightarrow> ly_type ly = ty" by simp_all
qed

text \<open>The bounds on a table that the code that mounts the volume needs.\<close>

lemma good_layout_spf:
  assumes "good_layout tot ly"
  shows "unat (ly_spf ly) < 2 ^ 22" "ly_type ly \<noteq> FAT_TYPE_32 \<Longrightarrow> unat (ly_spf ly) < 2 ^ 16"
proof -
  define q s p where "q = unat tot div unat (ly_spc ly)" and "s = unat (ly_spc ly)" and "p = unat (ly_spf ly)"
  have s: "0 < s" "s = 1 \<or> s = 2 \<or> s = 4 \<or> s = 8 \<or> s = 16 \<or> s = 32 \<or> s = 64 \<or> s = 128"
    using assms by (auto simp: good_layout_def spc_choices_def s_def)
  have f: "layout_fits tot (ly_spc ly) (ly_reserved ly) (ly_root_entries ly) (ly_spf ly) (ly_clusters ly)"
    using assms unfolding good_layout_def by blast
  then have pq: "128 * p \<le> q + 130" by (simp add: layout_fits_def p_def q_def)
  have t: "unat tot < 2 ^ 32" using unsigned_less [of tot, where 'a = nat] by simp
  show "unat (ly_spf ly) < 2 ^ 16" if ty: "ly_type ly \<noteq> FAT_TYPE_32"
  proof -
    let ?R = "unat (ly_reserved ly)" and ?D = "unat (fs_root_dir_sectors (ly_root_entries ly))"
    have "?R = 1" "?D = 32" using assms ty
      by (simp_all add: good_layout_def fs_root_dir_sectors_def ATA_SECTOR_SIZE_def)
    moreover have "unat (ly_clusters ly) = (unat tot - (?R + 2 * p + ?D)) div s"
      using f unfolding layout_fits_def p_def s_def by blast
    ultimately have c: "unat (ly_clusters ly) = (unat tot - (33 + 2 * p)) div s" by simp
    have "type_fits (ly_type ly) (ly_clusters ly)" using assms by (simp add: good_layout_def)
    then have "unat (ly_clusters ly) < 65525"
      using ty by (cases "ly_type ly") (auto simp: type_fits_def word_less_nat_alt word_le_nat_alt)
    then have lt: "unat tot - (33 + 2 * p) < 65525 * s" unfolding c using s(1) by (simp add: less_mult_imp_div_less div_less_iff_less_mult)
    have "q * s \<le> unat tot" unfolding q_def s_def by (rule div_times_less_eq_dividend)
    then have qs: "q * s < 65525 * s + 33 + 2 * p" using lt by linarith
    have "q < 2 ^ 20"
    proof (rule ccontr)
      assume "\<not> q < 2 ^ 20"
      then have q: "1048576 \<le> q" by simp
      have "64 * (q * s) < 64 * (65525 * s) + 64 * 33 + q + 130" using qs pq by linarith
      moreover have "q \<le> q * s" using s(1) by simp
      moreover have "1048576 * s \<le> q * s" using q by simp
      ultimately show False using s(1) by linarith
    qed
    then show ?thesis using pq unfolding p_def by simp
  qed
  show "unat (ly_spf ly) < 2 ^ 22"
  proof (cases "ly_type ly = FAT_TYPE_32 \<and> 2 ^ 27 \<le> unat tot")
    case True
    then have "s = 128" using assms by (simp add: good_layout_def s_def)
    then have "q < 2 ^ 25" using t by (simp add: q_def s_def less_mult_imp_div_less)
    then show ?thesis using pq unfolding p_def by simp
  next
    case False
    have "q \<le> unat tot" unfolding q_def by (rule div_le_dividend)
    with False pq \<open>ly_type ly \<noteq> FAT_TYPE_32 \<Longrightarrow> unat (ly_spf ly) < 2 ^ 16\<close> show ?thesis
      unfolding p_def by (cases "ly_type ly = FAT_TYPE_32") simp_all
  qed
qed

section \<open>Reading the boot sector\<close>

lemma length_put_str [simp]: "length (put_str p i s) = length p"
  by (induction p i s rule: put_str.induct) simp_all

lemma nth_put_str: "j < i \<or> i + length s \<le> j \<Longrightarrow> put_str p i s ! j = p ! j"
  by (induction p i s rule: put_str.induct) auto

lemma fs_wr_bytes:
  "fs_wr16 p i v = p[i := lo8 v, i + 1 := hi8 v]"
  "fs_wr32 p i w = p[i := byte32 0 w, i + 1 := byte32 1 w, i + 2 := byte32 2 w, i + 3 := byte32 3 w]"
  by (simp_all add: fs_wr16_def fs_wr32_def lo8_def hi8_def byte32_def)

lemmas boot_simps = mkfs_boot_sector_def Let_def rd16_join rd32_join fs_wr_bytes nth_put_str ATA_SECTOR_SIZE_def
  join_split

lemma boot_length: "length (mkfs_boot_sector lba tot ly) = 512"
  by (simp add: mkfs_boot_sector_def Let_def fs_wr_bytes ATA_SECTOR_SIZE_def)

lemma boot_first: "mkfs_boot_sector lba tot ly ! 0 = 0xEB"
  by (simp add: boot_simps)

lemma boot_fields:
  "rd16 (mkfs_boot_sector lba tot ly) 11 = 512"
  "mkfs_boot_sector lba tot ly ! 13 = ly_spc ly"
  "rd16 (mkfs_boot_sector lba tot ly) 14 = ly_reserved ly"
  "mkfs_boot_sector lba tot ly ! 16 = 2"
  "rd16 (mkfs_boot_sector lba tot ly) 17 = ly_root_entries ly"
  "mkfs_boot_sector lba tot ly ! 510 = 0x55"
  "mkfs_boot_sector lba tot ly ! 511 = 0xAA"
  by (simp_all add: boot_simps)

lemma join_split32': "join32 (byte32 0 v) (byte32 (Suc 0) v) (byte32 2 v) (byte32 3 v) = v"
  using join_split32 [of v] by simp

lemma boot_sizes:
  "rd16 (mkfs_boot_sector lba tot ly) 19 = (if ly_type ly \<noteq> FAT_TYPE_32 \<and> tot < 0x10000 then ucast tot else 0)"
  "ly_type ly = FAT_TYPE_32 \<or> tot \<ge> 0x10000 \<Longrightarrow> rd32 (mkfs_boot_sector lba tot ly) 32 = tot"
  "rd16 (mkfs_boot_sector lba tot ly) 22 = (if ly_type ly = FAT_TYPE_32 then 0 else ucast (ly_spf ly))"
  by (auto simp: boot_simps join_split32')

lemma boot_32:
  assumes "ly_type ly = FAT_TYPE_32"
  shows "rd32 (mkfs_boot_sector lba tot ly) 36 = ly_spf ly" "rd32 (mkfs_boot_sector lba tot ly) 44 = 2"
  by (simp_all add: assms boot_simps join_split32')

lemma ucast_16:
  assumes "unat (v :: u32) < 2 ^ 16"
  shows "ucast (ucast v :: u16) = v"
proof -
  have "unat (ucast v :: u16) = unat v" using assms by (subst unsigned_ucast_eq) (simp add: take_bit_nat_eq_self)
  moreover have "unat (ucast (ucast v :: u16) :: u32) = unat (ucast v :: u16)" by (rule unat_ucast_widen) simp
  ultimately show ?thesis by (simp only: word_unat_eq_iff)
qed

lemma boot_total:
  assumes "tot \<noteq> 0"
  shows "(if rd16 (mkfs_boot_sector lba tot ly) 19 \<noteq> 0 then ucast (rd16 (mkfs_boot_sector lba tot ly) 19)
      else rd32 (mkfs_boot_sector lba tot ly) 32) = tot"
proof (cases "ly_type ly \<noteq> FAT_TYPE_32 \<and> tot < 0x10000")
  case True
  then have "unat tot < 2 ^ 16" by (simp add: word_less_nat_alt)
  then have u: "ucast (ucast tot :: u16) = tot" by (rule ucast_16)
  then have "ucast tot \<noteq> (0 :: u16)" using assms by (metis ucast_0)
  with True u show ?thesis by (simp add: boot_sizes(1))
next
  case False
  then have c: "ly_type ly = FAT_TYPE_32 \<or> tot \<ge> 0x10000" by (auto simp: not_less)
  have "rd16 (mkfs_boot_sector lba tot ly) 19 = 0" unfolding boot_sizes(1) using False by (rule if_not_P)
  then show ?thesis using boot_sizes(2) [OF c] by simp
qed

lemma boot_spf:
  assumes "good_layout tot ly"
  shows "(if rd16 (mkfs_boot_sector lba tot ly) 22 \<noteq> 0 then ucast (rd16 (mkfs_boot_sector lba tot ly) 22)
      else rd32 (mkfs_boot_sector lba tot ly) 36) = ly_spf ly"
proof (cases "ly_type ly = FAT_TYPE_32")
  case False
  have "ly_spf ly \<noteq> 0" using assms by (auto simp: good_layout_def layout_fits_def)
  moreover have u: "ucast (ucast (ly_spf ly) :: u16) = ly_spf ly" by (rule ucast_16 [OF good_layout_spf(2) [OF assms False]])
  ultimately have "ucast (ly_spf ly) \<noteq> (0 :: u16)" by (metis ucast_0)
  with False u show ?thesis by (simp add: boot_sizes(3))
qed (simp add: boot_sizes(3) boot_32(1))

section \<open>Mounting\<close>

text \<open>The volume as it is mounted.\<close>

definition mkfs_fs :: "nat \<Rightarrow> u32 \<Rightarrow> u32 \<Rightarrow> fat_layout \<Rightarrow> fat_fs" where
  "mkfs_fs drive lba tot ly =
     (let fat_bytes = ly_spf ly * 512;
          entries = (if ly_type ly = FAT_TYPE_12 then (fat_bytes * 2) div 3
                     else if ly_type ly = FAT_TYPE_16 then fat_bytes div 2 else fat_bytes div 4);
          rds = (ucast (ly_root_entries ly) * 32 + 511) div 512;
          frs = ucast (ly_reserved ly) + 2 * ly_spf ly
      in \<lparr>mounted = True, drive_index = drive, partition_lba = ucast lba, ftype = ly_type ly, bytes_per_sector = 512,
          sectors_per_cluster = ly_spc ly, reserved_sectors = ly_reserved ly, fat_count = 2,
          root_entry_count = ly_root_entries ly, total_sectors = tot, sectors_per_fat = ly_spf ly,
          root_dir_sectors = rds, first_fat_sector = ucast (ly_reserved ly), first_root_dir_sector = frs,
          first_data_sector = frs + rds,
          cluster_count = (if ly_clusters ly > entries - 2 then entries - 2 else ly_clusters ly),
          root_cluster = (if ly_type ly = FAT_TYPE_32 then 2 else 0), next_free_cluster = 2\<rparr>)"

lemma good_layout_facts:
  assumes "good_layout tot ly"
  shows "fs_root_dir_sectors (ly_root_entries ly) = (ucast (ly_root_entries ly) * 32 + 511) div 512"
    and "ucast (ly_reserved ly) + 2 * ly_spf ly + (ucast (ly_root_entries ly) * 32 + 511) div 512 < tot"
    and "ly_clusters ly = (tot - (ucast (ly_reserved ly) + 2 * ly_spf ly + (ucast (ly_root_entries ly) * 32 + 511) div 512))
            div ucast (ly_spc ly)"
    and "ly_clusters ly \<noteq> 0" "ly_spf ly \<noteq> 0" "ly_spc ly \<noteq> 0" "ly_reserved ly \<noteq> 0"
    and "fat_is_power_of_two_u32 (ucast (ly_spc ly))"
    and "ly_type ly = (if ly_clusters ly < 4085 then FAT_TYPE_12 else if ly_clusters ly < 65525 then FAT_TYPE_16 else FAT_TYPE_32)"
    and "tot \<noteq> 0"
proof -
  have f: "layout_fits tot (ly_spc ly) (ly_reserved ly) (ly_root_entries ly) (ly_spf ly) (ly_clusters ly)"
    and r: "ly_reserved ly = (if ly_type ly = FAT_TYPE_32 then 32 else 1)"
      "ly_root_entries ly = (if ly_type ly = FAT_TYPE_32 then 0 else 512)"
    and s: "ly_spc ly \<in> set spc_choices" and t: "type_fits (ly_type ly) (ly_clusters ly)"
    using assms unfolding good_layout_def by blast+
  show d: "fs_root_dir_sectors (ly_root_entries ly) = (ucast (ly_root_entries ly) * 32 + 511) div 512"
    unfolding r by (simp add: fs_root_dir_sectors_def ATA_SECTOR_SIZE_def)
  have sm: "128 * unat (ly_spf ly) \<le> 2 ^ 32 + 130"
    by (rule small_table [of _ tot "unat (ly_spc ly)"]) (use f in \<open>simp add: layout_fits_def\<close>)
  have "\<not> tot \<le> ucast (ly_reserved ly) + 2 * ly_spf ly + fs_root_dir_sectors (ly_root_entries ly)"
    unfolding data_sectors(1) [OF sm root_dir_sectors_small] using f unfolding layout_fits_def by linarith
  then show lt: "ucast (ly_reserved ly) + 2 * ly_spf ly + (ucast (ly_root_entries ly) * 32 + 511) div 512 < tot"
    by (simp add: d)
  show "ly_clusters ly = (tot - (ucast (ly_reserved ly) + 2 * ly_spf ly + (ucast (ly_root_entries ly) * 32 + 511) div 512))
            div ucast (ly_spc ly)"
    using f unfolding layout_fits_def d by (simp only: diff_diff_eq)
  show "ly_clusters ly \<noteq> 0" "ly_spf ly \<noteq> 0" using f unfolding layout_fits_def by auto
  show "ly_spc ly \<noteq> 0" "fat_is_power_of_two_u32 (ucast (ly_spc ly))"
    using s by (auto simp: spc_choices_def fat_is_power_of_two_u32_def)
  show "ly_reserved ly \<noteq> 0" using r by simp
  show "ly_type ly = (if ly_clusters ly < 4085 then FAT_TYPE_12 else if ly_clusters ly < 65525 then FAT_TYPE_16 else FAT_TYPE_32)"
    using t by (cases "ly_type ly") (auto simp: type_fits_def word_less_nat_alt word_le_nat_alt)
  show "tot \<noteq> 0" using lt by auto
qed

lemma entries_enough:
  assumes "good_layout tot ly"
  shows "\<not> (if ly_type ly = FAT_TYPE_12 then (ly_spf ly * 512 * 2) div 3
            else if ly_type ly = FAT_TYPE_16 then (ly_spf ly * 512) div 2 else (ly_spf ly * 512) div 4) \<le> 2"
proof -
  have p: "0 < unat (ly_spf ly)" using good_layout_facts(5) [OF assms] by (simp add: unat_gt_0)
  note b = good_layout_spf [OF assms]
  have u: "unat (ly_spf ly * 512) = unat (ly_spf ly) * 512" using b(1) by (simp add: unat_word_ariths(2))
  have g: "\<not> (v div k \<le> (2 :: u32))" if "unat v = n * 512" "0 < n" "0 < unat k" "unat k \<le> 4" for v k :: u32 and n
  proof -
    have "3 * unat k \<le> unat v" using that by simp
    then have "3 \<le> unat v div unat k" using that(3) by (simp add: less_eq_div_iff_mult_less_eq)
    then show ?thesis by (simp add: word_le_nat_alt unat_div)
  qed
  show ?thesis
  proof (cases "ly_type ly")
    case FAT_TYPE_12
    then have "unat (ly_spf ly) < 2 ^ 16" using b(2) by simp
    then have "unat (ly_spf ly * 512 * 2) = (unat (ly_spf ly) * 2) * 512" using u by (simp add: unat_word_ariths(2))
    from g [OF this, of 3] p FAT_TYPE_12 show ?thesis by simp
  qed (use g [OF u, of 2] g [OF u, of 4] p in simp_all)
qed

lemma mkfs_cluster_count:
  assumes g: "good_layout tot ly"
  shows "cluster_count (mkfs_fs drive lba tot ly) \<noteq> 0"
    and "unat (cluster_count (mkfs_fs drive lba tot ly)) < 2 ^ 27"
proof -
  note f = good_layout_facts [OF g] and e = entries_enough [OF g]
  define n where "n = (if ly_type ly = FAT_TYPE_12 then (ly_spf ly * 512 * 2) div 3
            else if ly_type ly = FAT_TYPE_16 then (ly_spf ly * 512) div 2 else (ly_spf ly * 512) div 4)"
  have n: "\<not> n \<le> 2" using e unfolding n_def .
  then have "n - 2 \<noteq> 0" by auto
  have c: "cluster_count (mkfs_fs drive lba tot ly) = (if ly_clusters ly > n - 2 then n - 2 else ly_clusters ly)"
    by (simp add: mkfs_fs_def Let_def n_def)
  with \<open>n - 2 \<noteq> 0\<close> f(4) show "cluster_count (mkfs_fs drive lba tot ly) \<noteq> 0" by simp
  have "cluster_count (mkfs_fs drive lba tot ly) \<le> ly_clusters ly" unfolding c by (auto simp: less_imp_le)
  moreover have "unat (ly_clusters ly) < 2 ^ 27"
  proof -
    have t: "unat tot < 2 ^ 32" using unsigned_less [of tot, where 'a = nat] by simp
    have l: "layout_fits tot (ly_spc ly) (ly_reserved ly) (ly_root_entries ly) (ly_spf ly) (ly_clusters ly)"
      using g unfolding good_layout_def by blast
    then have le: "unat (ly_clusters ly) \<le> unat tot div unat (ly_spc ly)"
      unfolding layout_fits_def by (elim conjE) (simp only: div_le_mono diff_le_self)
    show ?thesis
    proof (cases "unat tot < 2 ^ 27")
      case True
      with le div_le_dividend [of "unat tot" "unat (ly_spc ly)"] show ?thesis by linarith
    next
      case False
      show ?thesis
      proof (cases "ly_type ly = FAT_TYPE_32")
        case True
        with False have "ly_spc ly = 128" using g by (simp add: good_layout_def)
        with le t show ?thesis by (simp add: less_mult_imp_div_less le_less_trans)
      next
        case False
        then have "unat (ly_clusters ly) < 65525"
          using f(9) by (auto simp: word_less_nat_alt split: if_splits)
        then show ?thesis by simp
      qed
    qed
  qed
  ultimately show "unat (cluster_count (mkfs_fs drive lba tot ly)) < 2 ^ 27" by (simp add: word_le_nat_alt)
qed

lemma mkfs_mount:
  assumes g: "good_layout tot ly"
    and boot: "ata_read_sectors st drive (ucast lba) 1 = Inr (mkfs_boot_sector lba tot ly)"
    and root: "fat_read_sector (mkfs_fs drive lba tot ly) st (first_root_dir_sector (mkfs_fs drive lba tot ly)) = Inr s"
      "fat_read_sector (mkfs_fs drive lba tot ly) st (first_data_sector (mkfs_fs drive lba tot ly)) = Inr s'"
  shows "fat_fs_mount st drive (ucast lba) = Inr (mkfs_fs drive lba tot ly)"
proof -
  note f = good_layout_facts [OF g]
  let ?bs = "mkfs_boot_sector lba tot ly"
  have r: "ly_reserved ly = (if ly_type ly = FAT_TYPE_32 then 32 else 1)"
    "ly_root_entries ly = (if ly_type ly = FAT_TYPE_32 then 0 else 512)"
    using g unfolding good_layout_def by blast+
  have c512: "ucast (512 :: u16) = (512 :: u32)" "(512 :: u32) - 1 = 511" "ucast (2 :: u8) = (2 :: u32)" by simp_all
  have two: "(2 :: u8) = 0 \<longleftrightarrow> False" by simp
  have nt: "tot \<le> ucast (ly_reserved ly) + 2 * ly_spf ly + (ucast (ly_root_entries ly) * 32 + 511) div 512 \<longleftrightarrow> False"
    using f(2) by (simp add: not_le)
  note en = entries_enough [OF g]
  define cc where "cc = cluster_count (mkfs_fs drive lba tot ly)"
  define ent where "ent = (if ly_type ly = FAT_TYPE_12 then ly_spf ly * 512 * 2 div 3
      else if ly_type ly = FAT_TYPE_16 then ly_spf ly * 512 div 2 else ly_spf ly * 512 div 4)"
  have ent: "ent \<le> 2 \<longleftrightarrow> False" using entries_enough [OF g] by (simp add: ent_def)
  have cc: "(if ent - 2 < ly_clusters ly then ent - 2 else ly_clusters ly) = cc"
    by (simp add: cc_def mkfs_fs_def Let_def ent_def)
  have rc: "(if ly_type ly = FAT_TYPE_32 then rd32 ?bs 44 else 0) = (if ly_type ly = FAT_TYPE_32 then 2 else 0)"
    by (simp add: boot_32(2))
  have cz: "cc = 0 \<longleftrightarrow> False" using mkfs_cluster_count(1) [OF g] by (simp add: cc_def)
  have "unat (cc + 1) = unat cc + 1" using mkfs_cluster_count(2) [OF g, of drive lba] by (simp add: cc_def unat_word_ariths(1))
  then have c1: "\<not> cc + 1 < 2" using cz by (simp add: word_less_nat_alt unat_gt_0)
  let ?rds = "(ucast (ly_root_entries ly) * 32 + 511) div 512 :: u32" and ?frs = "ucast (ly_reserved ly) + 2 * ly_spf ly"
  define fs where "fs = \<lparr>mounted = False, drive_index = drive, partition_lba = ucast lba, ftype = ly_type ly,
     bytes_per_sector = 512, sectors_per_cluster = ly_spc ly, reserved_sectors = ly_reserved ly, fat_count = 2,
     root_entry_count = ly_root_entries ly, total_sectors = tot, sectors_per_fat = ly_spf ly, root_dir_sectors = ?rds,
     first_fat_sector = ucast (ly_reserved ly), first_root_dir_sector = ?frs, first_data_sector = ?frs + ?rds,
     cluster_count = cc, root_cluster = (if ly_type ly = FAT_TYPE_32 then 2 else 0), next_free_cluster = 2\<rparr>"
  have fsm: "fs\<lparr>mounted := True\<rparr> = mkfs_fs drive lba tot ly"
    by (simp add: fs_def mkfs_fs_def Let_def cc_def)
  have rd: "fat_read_sector fs st (first_root_dir_sector fs) = Inr s" "fat_read_sector fs st (first_data_sector fs) = Inr s'"
    using root by (simp_all add: fat_read_sector_def fsm [symmetric])
  have big: "ly_type ly \<noteq> FAT_TYPE_32 \<Longrightarrow> ?rds \<noteq> 0" using r(2) by simp
  have ngt: "\<not> tot < ?frs + ?rds" using f(2) by (rule less_not_sym)
  show ?thesis
    unfolding fat_fs_mount_def boot sum.case Let_def boot_fields boot_total [OF f(10)] boot_spf [OF g]
    unfolding c512 f(3) [symmetric] f(9) [symmetric] ent_def [symmetric] cc rc fs_def [symmetric]
    using rd big ngt nt f(4-8,10) c1
    by (simp add: ent cz fsm fat_cluster_to_sector_def not_le split: if_split)
qed

end
