(* ===== verification/Mkfs_Props.thy ===== *)
theory Mkfs_Props
  imports Mkfs
begin

text \<open>
  What formatting a volume achieves: the sectors written, the volume as it is mounted
  afterwards, and the first file in it.
\<close>

section \<open>The writes\<close>

lemma device_write_one:
  assumes d: "drive < length (g_drives st) + length (g_namespaces st)" and w: "ata_write_sectors st drive l 1 sec = (0, st')"
    and len: "length sec = 512"
  shows "fs_device_write_sectors st drive l 1 sec = (0, st')"
proof (cases "drive < length (g_drives st)")
  case True
  have "ata_write_chunks st drive l 1 sec = (0, st')"
    using w len by (subst ata_write_chunks.simps) (simp add: ATA_SECTOR_SIZE_def ata_write_chunks.simps [of _ _ _ 0])
  with True show ?thesis by (simp add: fs_device_write_sectors_def)
next
  case False
  with w d show ?thesis by (simp add: fs_device_write_sectors_def ata_write_sectors_def)
qed

lemma lba_sum:
  fixes lba :: u32
  assumes "unat lba + r < 2 ^ 32"
  shows "ucast (lba + of_nat r :: u32) = (ucast lba + ucast (of_nat r :: u32) :: u64)"
proof -
  have r: "unat (of_nat r :: u32) = r" using assms by (intro unat_of_nat_le) simp
  have "unat (lba + of_nat r) = unat lba + r" using assms r by (simp add: unat_word_ariths(1))
  moreover have "unat (ucast lba + ucast (of_nat r :: u32) :: u64) = unat lba + r"
    using assms r by (simp add: unat_word_ariths(1) unat_ucast_widen)
  ultimately show ?thesis by (simp only: word_unat_eq_iff) (simp add: unat_ucast_widen)
qed

text \<open>After the writes a sector written with one contents only has it, any other is as before.\<close>

lemma mkfs_write_view:
  "fat_disk fs st \<Longrightarrow> drive_index fs = drive \<Longrightarrow> drive < length (g_drives st) + length (g_namespaces st) \<Longrightarrow>
     partition_lba fs = ucast lba \<Longrightarrow> unat lba + unat (total_sectors fs) \<le> 2 ^ 32 \<Longrightarrow>
     (\<And>r sec. (r, sec) \<in> set rel \<Longrightarrow> r < unat (total_sectors fs) \<and> length sec = 512) \<Longrightarrow>
     \<exists>st'. mkfs_write st drive (map (\<lambda>(r, sec). (lba + of_nat r, sec)) rel) = (0, st') \<and> fat_disk fs st'
     \<and> (\<forall>q < unat (total_sectors fs). \<forall>X. (\<forall>sec. (q, sec) \<in> set rel \<longrightarrow> sec = X)
          \<longrightarrow> q \<in> fst ` set rel \<or> vsec fs st q = X \<longrightarrow> vsec fs st' q = X)"
proof (induction rel arbitrary: st)
  case Nil
  then show ?case by simp
next
  case (Cons rs rel)
  obtain r sec where rs: "rs = (r, sec)" by fastforce
  have r: "r < unat (total_sectors fs)" "length sec = 512" using Cons.prems(6) rs by auto
  from write_sector_view [OF Cons.prems(1) r(1,2)] obtain st1 where
    w: "fat_write_sector fs st (of_nat r) sec = (0, st1)" "fat_disk fs st1"
    and v: "\<And>q. q < unat (total_sectors fs) \<Longrightarrow> vsec fs st1 q = (if q = r then sec else vsec fs st q)" by blast
  have l: "ucast (lba + of_nat r) = partition_lba fs + ucast (of_nat r :: u32)"
    using lba_sum [of lba r] r(1) Cons.prems(4,5) by simp
  have aw: "ata_write_sectors st drive (ucast (lba + of_nat r)) 1 sec = (0, st1)"
    using w(1) Cons.prems(2) l by (simp add: fat_write_sector_def)
  from device_write_one [OF Cons.prems(3) aw r(2)]
  have dw: "fs_device_write_sectors st drive (ucast (lba + of_nat r)) 1 sec = (0, st1)" .
  have d1: "drive < length (g_drives st1) + length (g_namespaces st1)"
    using ata_contract(5,6) [OF aw] Cons.prems(3) by simp
  have rest: "x < unat (total_sectors fs) \<and> length s = 512" if "(x, s) \<in> set rel" for x s
    by (rule Cons.prems(6)) (use that in simp)
  obtain st2 where w2: "mkfs_write st1 drive (map (\<lambda>(r, sec). (lba + of_nat r, sec)) rel) = (0, st2)" "fat_disk fs st2"
    and v2: "\<And>q X. q < unat (total_sectors fs) \<Longrightarrow> (\<forall>sec. (q, sec) \<in> set rel \<longrightarrow> sec = X) \<Longrightarrow>
           q \<in> fst ` set rel \<or> vsec fs st1 q = X \<Longrightarrow> vsec fs st2 q = X"
    using Cons.IH [OF w(2) Cons.prems(2) d1 Cons.prems(4,5) rest] by blast
  have "vsec fs st2 q = X" if q: "q < unat (total_sectors fs)" and X: "\<forall>sec. (q, sec) \<in> set (rs # rel) \<longrightarrow> sec = X"
    and old: "q \<in> fst ` set (rs # rel) \<or> vsec fs st q = X" for q X
  proof (rule v2 [OF q])
    show "\<forall>sec. (q, sec) \<in> set rel \<longrightarrow> sec = X" using X by simp
    show "q \<in> fst ` set rel \<or> vsec fs st1 q = X"
    proof (cases "q = r")
      case True
      then have "sec = X" using X rs by simp
      then show ?thesis using v [OF q] True by simp
    next
      case False
      then show ?thesis using v [OF q] old rs by auto
    qed
  qed
  moreover have "mkfs_write st drive (map (\<lambda>(r, sec). (lba + of_nat r, sec)) (rs # rel)) = (0, st2)"
    using dw w2(1) by (simp add: rs)
  ultimately show ?case using w2(2) by blast
qed

definition mkfs_rel :: "u32 \<Rightarrow> u32 \<Rightarrow> fat_layout \<Rightarrow> (nat \<times> u8 list) list" where
  "mkfs_rel lba tot ly =
     (let bs = mkfs_boot_sector lba tot ly; R = unat (ly_reserved ly); p = unat (ly_spf ly);
          rds = unat (fs_root_dir_sectors (ly_root_entries ly));
          first = (\<lambda>s. if s = 0 then mkfs_fat_sector (ly_type ly) else mkfs_zero) in
      [(0, bs)]
      @ (if ly_type ly = FAT_TYPE_32
         then [(1, mkfs_fsinfo), (6, bs)] @ map (\<lambda>s. (s, mkfs_zero)) (filter (\<lambda>s. s \<noteq> 6) [2..<R])
         else map (\<lambda>s. (s, mkfs_zero)) [1..<R])
      @ map (\<lambda>s. (R + s, first s)) [0..<p] @ map (\<lambda>s. (R + p + s, first s)) [0..<p]
      @ (if ly_type ly \<noteq> FAT_TYPE_32 then map (\<lambda>s. (R + 2 * p + s, mkfs_zero)) [0..<rds]
         else map (\<lambda>s. (R + 2 * p + rds + s, mkfs_zero)) [0..<unat (ly_spc ly)]))"

lemma ucast_of_unat: "LENGTH('a) \<le> LENGTH('b) \<Longrightarrow> (of_nat (unat (x :: 'a::len word)) :: 'b::len word) = ucast x"
  by simp

lemma all_writes_rel:
  "mkfs_all_writes lba tot ly = map (\<lambda>(r, sec). (lba + of_nat r, sec)) (mkfs_rel lba tot ly)"
proof -
  have R: "(of_nat (unat (ly_reserved ly)) :: u32) = ucast (ly_reserved ly)" by (rule ucast_of_unat) simp
  show ?thesis
    by (simp add: mkfs_all_writes_def mkfs_rel_def reserved_writes_def table_writes_def root_writes_def Let_def R
        ac_simps)
qed

text \<open>What a formatted volume holds before the data.\<close>

definition mkfs_contents :: "u32 \<Rightarrow> u32 \<Rightarrow> fat_layout \<Rightarrow> nat \<Rightarrow> u8 list" where
  "mkfs_contents lba tot ly q =
     (if q = 0 \<or> (ly_type ly = FAT_TYPE_32 \<and> q = 6) then mkfs_boot_sector lba tot ly
      else if ly_type ly = FAT_TYPE_32 \<and> q = 1 then mkfs_fsinfo
      else if q = unat (ly_reserved ly) \<or> q = unat (ly_reserved ly) + unat (ly_spf ly) then mkfs_fat_sector (ly_type ly)
      else mkfs_zero)"

definition mkfs_extent :: "fat_layout \<Rightarrow> nat" where
  "mkfs_extent ly = unat (ly_reserved ly) + 2 * unat (ly_spf ly) + unat (fs_root_dir_sectors (ly_root_entries ly))
     + (if ly_type ly = FAT_TYPE_32 then unat (ly_spc ly) else 0)"

lemma rel_contents:
  assumes g: "good_layout tot ly" and m: "(r, sec) \<in> set (mkfs_rel lba tot ly)"
  shows "sec = mkfs_contents lba tot ly r \<and> r < mkfs_extent ly"
proof -
  have R: "unat (ly_reserved ly) = (if ly_type ly = FAT_TYPE_32 then 32 else 1)"
    using g by (simp add: good_layout_def)
  have p: "0 < unat (ly_spf ly)" using g unfolding good_layout_def layout_fits_def by blast
  show ?thesis
    using m p R by (auto simp: mkfs_rel_def mkfs_contents_def mkfs_extent_def Let_def split: if_splits)
qed

lemma rel_covers:
  assumes g: "good_layout tot ly" and q: "q < mkfs_extent ly"
  shows "q \<in> fst ` set (mkfs_rel lba tot ly)"
proof -
  define R p D where "R = unat (ly_reserved ly)" and "p = unat (ly_spf ly)"
    and "D = unat (fs_root_dir_sectors (ly_root_entries ly))"
  have R: "R = (if ly_type ly = FAT_TYPE_32 then 32 else 1)" using g by (simp add: good_layout_def R_def)
  have D: "ly_type ly = FAT_TYPE_32 \<Longrightarrow> D = 0"
    using g by (simp add: good_layout_def D_def fs_root_dir_sectors_def ATA_SECTOR_SIZE_def)
  have e: "mkfs_extent ly = R + 2 * p + (if ly_type ly = FAT_TYPE_32 then unat (ly_spc ly) else D)"
    using D by (simp add: mkfs_extent_def R_def p_def D_def)
  consider "q < R" | s where "q = R + s" "s < p" | s where "q = R + p + s" "s < p"
    | s where "q = R + 2 * p + s" "s < (if ly_type ly = FAT_TYPE_32 then unat (ly_spc ly) else D)"
  proof -
    have "q < R \<or> (q = R + (q - R) \<and> q - R < p) \<or> (q = R + p + (q - R - p) \<and> q - R - p < p)
        \<or> (q = R + 2 * p + (q - R - 2 * p) \<and> q - R - 2 * p < (if ly_type ly = FAT_TYPE_32 then unat (ly_spc ly) else D))"
      using q unfolding e by linarith
    with that show thesis by blast
  qed
  then show ?thesis
  proof cases
    case 1
    then show ?thesis by (auto simp: mkfs_rel_def Let_def R_def [symmetric] image_Un image_image)
  next
    case 2
    then show ?thesis by (auto simp: mkfs_rel_def Let_def R_def p_def image_Un image_image)
  next
    case 3
    then show ?thesis by (auto simp: mkfs_rel_def Let_def R_def p_def image_Un image_image)
  next
    case 4
    then show ?thesis using D by (auto simp: mkfs_rel_def Let_def R_def p_def D_def image_Un image_image split: if_splits)
  qed
qed

section \<open>A formatted volume\<close>

lemma contents_length: "length (mkfs_contents lba tot ly q) = 512"
proof -
  have "length mkfs_zero = 512" by (simp add: mkfs_zero_def ATA_SECTOR_SIZE_def)
  moreover have "length mkfs_fsinfo = 512" by (simp add: mkfs_fsinfo_def fs_wr_bytes ATA_SECTOR_SIZE_def Let_def)
  moreover have "length (mkfs_fat_sector ty) = 512" for ty
    by (cases ty) (simp_all add: mkfs_fat_sector_def fs_wr_bytes ATA_SECTOR_SIZE_def Let_def)
  ultimately show ?thesis by (simp add: mkfs_contents_def boot_length)
qed

lemma mkfs_fs_simps:
  "drive_index (mkfs_fs drive lba tot ly) = drive" "partition_lba (mkfs_fs drive lba tot ly) = ucast lba"
  "ftype (mkfs_fs drive lba tot ly) = ly_type ly" "total_sectors (mkfs_fs drive lba tot ly) = tot"
  "sectors_per_fat (mkfs_fs drive lba tot ly) = ly_spf ly" "fat_count (mkfs_fs drive lba tot ly) = 2"
  "reserved_sectors (mkfs_fs drive lba tot ly) = ly_reserved ly" "sectors_per_cluster (mkfs_fs drive lba tot ly) = ly_spc ly"
  "root_entry_count (mkfs_fs drive lba tot ly) = ly_root_entries ly" "bytes_per_sector (mkfs_fs drive lba tot ly) = 512"
  "cluster_count (mkfs_fs drive lba tot ly) \<le> ly_clusters ly"
  by (simp_all add: mkfs_fs_def Let_def less_imp_le)

lemma mkfs_places:
  fixes lba :: u32 and drive :: nat
  assumes g: "good_layout tot ly"
  defines "fs \<equiv> mkfs_fs drive lba tot ly"
  shows "unat (first_fat_sector fs) = unat (ly_reserved ly)"
    and "unat (root_dir_sectors fs) = unat (fs_root_dir_sectors (ly_root_entries ly))"
    and "unat (first_root_dir_sector fs) = unat (ly_reserved ly) + 2 * unat (ly_spf ly)"
    and "unat (first_data_sector fs) = unat (first_root_dir_sector fs) + unat (root_dir_sectors fs)"
    and "mkfs_extent ly \<le> unat tot"
    and "ly_type ly \<noteq> FAT_TYPE_32 \<Longrightarrow> root_dir_sectors fs = 32"
proof -
  note f = good_layout_facts [OF g] and s = good_layout_spf [OF g]
  have R: "unat (ly_reserved ly) \<le> 32" and spc: "unat (ly_spc ly) \<le> 128"
    using g by (auto simp: good_layout_def spc_choices_def)
  have l: "layout_fits tot (ly_spc ly) (ly_reserved ly) (ly_root_entries ly) (ly_spf ly) (ly_clusters ly)"
    using g unfolding good_layout_def by blast
  have rds: "root_dir_sectors fs = fs_root_dir_sectors (ly_root_entries ly)" by (simp add: fs_def mkfs_fs_def Let_def f(1))
  then show "unat (root_dir_sectors fs) = unat (fs_root_dir_sectors (ly_root_entries ly))" by simp
  show "unat (first_fat_sector fs) = unat (ly_reserved ly)"
    by (simp add: fs_def mkfs_fs_def Let_def unat_ucast_widen)
  have "first_root_dir_sector fs = ucast (ly_reserved ly) + 2 * ly_spf ly" by (simp add: fs_def mkfs_fs_def Let_def)
  then show frs: "unat (first_root_dir_sector fs) = unat (ly_reserved ly) + 2 * unat (ly_spf ly)"
    using R s(1) by (simp add: unat_word_ariths(1,2) unat_ucast_widen)
  have "first_data_sector fs = first_root_dir_sector fs + root_dir_sectors fs" by (simp add: fs_def mkfs_fs_def Let_def)
  then show "unat (first_data_sector fs) = unat (first_root_dir_sector fs) + unat (root_dir_sectors fs)"
    using frs R s(1) root_dir_sectors_small [of "ly_root_entries ly"] by (simp add: rds unat_word_ariths(1))
  show "root_dir_sectors fs = 32" if "ly_type ly \<noteq> FAT_TYPE_32"
    using g that unfolding rds by (simp add: good_layout_def fs_root_dir_sectors_def ATA_SECTOR_SIZE_def)
  show "mkfs_extent ly \<le> unat tot"
  proof -
    let ?b = "unat (ly_reserved ly) + 2 * unat (ly_spf ly) + unat (fs_root_dir_sectors (ly_root_entries ly))"
    have lt: "?b < unat tot" and c: "unat (ly_clusters ly) = (unat tot - ?b) div unat (ly_spc ly)" "ly_clusters ly \<noteq> 0"
      using l unfolding layout_fits_def by blast+
    then have "1 \<le> (unat tot - ?b) div unat (ly_spc ly)" by (metis One_nat_def Suc_leI unat_gt_0)
    then have "unat (ly_spc ly) \<le> unat tot - ?b"
      by (metis div_less linorder_not_less not_one_le_zero)
    moreover have "(if ly_type ly = FAT_TYPE_32 then unat (ly_spc ly) else 0) \<le> unat (ly_spc ly)" by simp
    ultimately show ?thesis using lt unfolding mkfs_extent_def by linarith
  qed
qed

lemma mkfs_spec:
  assumes g: "good_layout tot ly" and d: "fat_disk (mkfs_fs drive lba tot ly) st"
    and dr: "drive < length (g_drives st) + length (g_namespaces st)" and fit: "unat lba + unat tot \<le> 2 ^ 32"
  shows "\<exists>st'. mkfs_write st drive (mkfs_all_writes lba tot ly) = (0, st') \<and> fat_disk (mkfs_fs drive lba tot ly) st'
     \<and> (\<forall>q < mkfs_extent ly. vsec (mkfs_fs drive lba tot ly) st' q = mkfs_contents lba tot ly q)
     \<and> (\<forall>q < unat tot. mkfs_extent ly \<le> q \<longrightarrow>
          vsec (mkfs_fs drive lba tot ly) st' q = vsec (mkfs_fs drive lba tot ly) st q)"
proof -
  let ?fs = "mkfs_fs drive lba tot ly"
  note e = mkfs_places(5) [OF g]
  have pre: "r < unat tot \<and> length sec = 512" if "(r, sec) \<in> set (mkfs_rel lba tot ly)" for r sec
    using rel_contents [OF g that] e contents_length by auto
  have "\<exists>st'. mkfs_write st drive (mkfs_all_writes lba tot ly) = (0, st') \<and> fat_disk ?fs st'
     \<and> (\<forall>q < unat tot. \<forall>X. (\<forall>sec. (q, sec) \<in> set (mkfs_rel lba tot ly) \<longrightarrow> sec = X)
          \<longrightarrow> q \<in> fst ` set (mkfs_rel lba tot ly) \<or> vsec ?fs st q = X \<longrightarrow> vsec ?fs st' q = X)"
    unfolding all_writes_rel
    by (rule mkfs_write_view [OF d mkfs_fs_simps(1) dr mkfs_fs_simps(2), unfolded mkfs_fs_simps(4), OF fit]) (rule pre)
  then obtain st' where all: "mkfs_write st drive (mkfs_all_writes lba tot ly) = (0, st') \<and> fat_disk ?fs st'
     \<and> (\<forall>q < unat tot. \<forall>X. (\<forall>sec. (q, sec) \<in> set (mkfs_rel lba tot ly) \<longrightarrow> sec = X)
          \<longrightarrow> q \<in> fst ` set (mkfs_rel lba tot ly) \<or> vsec ?fs st q = X \<longrightarrow> vsec ?fs st' q = X)" ..
  note w = conjunct1 [OF all] conjunct1 [OF conjunct2 [OF all]] and v0 = conjunct2 [OF conjunct2 [OF all]]
  have v: "vsec ?fs st' q = X" if "q < unat tot" "\<And>sec. (q, sec) \<in> set (mkfs_rel lba tot ly) \<Longrightarrow> sec = X"
      "q \<in> fst ` set (mkfs_rel lba tot ly) \<or> vsec ?fs st q = X" for q X
    by (rule v0 [rule_format, OF that])
  have "vsec ?fs st' q = mkfs_contents lba tot ly q" if "q < mkfs_extent ly" for q
    by (rule v) (use that e rel_contents [OF g] rel_covers [OF g] in auto)
  moreover have "vsec ?fs st' q = vsec ?fs st q" if "q < unat tot" "mkfs_extent ly \<le> q" for q
    by (rule v) (use that rel_contents [OF g] in fastforce)+
  ultimately show ?thesis using w by blast
qed

section \<open>The table\<close>

lemma fat_sector_byte:
  assumes "x < 512"
  shows "(if ty = FAT_TYPE_12 then 3 else if ty = FAT_TYPE_16 then 4 else 12) \<le> x \<Longrightarrow> mkfs_fat_sector ty ! x = 0"
    and "ty = FAT_TYPE_32 \<Longrightarrow> 8 \<le> x \<Longrightarrow> x < 12 \<Longrightarrow> mkfs_fat_sector ty ! x = byte32 (x - 8) 0x0FFFFFFF"
proof -
  show "mkfs_fat_sector ty ! x = 0" if "(if ty = FAT_TYPE_12 then 3 else if ty = FAT_TYPE_16 then 4 else 12) \<le> x"
    using that assms by (cases ty) (simp_all add: mkfs_fat_sector_def fs_wr_bytes ATA_SECTOR_SIZE_def Let_def)
  assume t: "ty = FAT_TYPE_32" and x: "8 \<le> x" "x < 12"
  then have "x = 8 \<or> x = 9 \<or> x = 10 \<or> x = 11" by linarith
  then show "mkfs_fat_sector ty ! x = byte32 (x - 8) 0x0FFFFFFF"
    using t by (elim disjE) (simp_all add: mkfs_fat_sector_def fs_wr_bytes ATA_SECTOR_SIZE_def Let_def)
qed

lemma mkfs_table_byte:
  assumes g: "good_layout tot ly"
    and v: "\<And>q. q < mkfs_extent ly \<Longrightarrow> vsec (mkfs_fs drive lba tot ly) st q = mkfs_contents lba tot ly q"
    and k: "k < 2" and x: "x < 512 * unat (ly_spf ly)"
  shows "tb (mkfs_fs drive lba tot ly) st k x = (if x < 512 then mkfs_fat_sector (ly_type ly) ! x else 0)"
proof -
  let ?R = "unat (ly_reserved ly)" and ?p = "unat (ly_spf ly)"
  have R: "?R = (if ly_type ly = FAT_TYPE_32 then 32 else 1)" using g by (simp add: good_layout_def)
  have j: "x div 512 < ?p" using x by (simp add: div_less_iff_less_mult)
  have b: "copy_base (mkfs_fs drive lba tot ly) k = ?R + k * ?p"
    using mkfs_places(1) [OF g] by (simp add: copy_base_def mkfs_fs_simps)
  have k01: "k = 0 \<or> k = 1" using k by linarith
  then have q: "?R + k * ?p + x div 512 < mkfs_extent ly" using j by (auto simp: mkfs_extent_def)
  have "mkfs_contents lba tot ly (?R + k * ?p + x div 512) =
      (if x div 512 = 0 then mkfs_fat_sector (ly_type ly) else mkfs_zero)"
    using R j k01 by (auto simp: mkfs_contents_def)
  then have "tb (mkfs_fs drive lba tot ly) st k x =
      (if x div 512 = 0 then mkfs_fat_sector (ly_type ly) else mkfs_zero) ! (x mod 512)"
    using v [OF q] by (simp add: tb_def b)
  also have "\<dots> = (if x < 512 then mkfs_fat_sector (ly_type ly) ! x else 0)"
  proof (cases "x < 512")
    case False
    then have "x div 512 \<noteq> 0" by (simp add: div_eq_0_iff)
    with False show ?thesis by (simp add: mkfs_zero_def ATA_SECTOR_SIZE_def)
  qed simp
  finally show ?thesis .
qed

lemma mkfs_entry:
  assumes g: "good_layout tot ly"
    and v: "\<And>q. q < mkfs_extent ly \<Longrightarrow> vsec (mkfs_fs drive lba tot ly) st q = mkfs_contents lba tot ly q"
    and c: "in_fat (mkfs_fs drive lba tot ly) c" "2 \<le> c"
  shows "fent (mkfs_fs drive lba tot ly) st c = (if ly_type ly = FAT_TYPE_32 \<and> c = 2 then 0x0FFFFFFF else 0)"
proof -
  let ?B = "tb (mkfs_fs drive lba tot ly) st 0"
  have B: "?B x = (if x < 512 then mkfs_fat_sector (ly_type ly) ! x else 0)" if "x < 512 * unat (ly_spf ly)" for x
    using mkfs_table_byte [OF g v _ that, of 0] by simp
  have z: "?B x = 0"
    if "x < 512 * unat (ly_spf ly)" "(if ly_type ly = FAT_TYPE_12 then 3 else if ly_type ly = FAT_TYPE_16 then 4 else 12) \<le> x" for x
    using B [OF that(1)] fat_sector_byte(1) [OF _ that(2)] by simp
  have join0: "join16 0 0 = 0" "join32 0 0 0 0 = 0" "get12 od 0 = 0" for od
    by (simp_all add: join16_def join32_def get12_def)
  show ?thesis
  proof (cases "ly_type ly")
    case FAT_TYPE_12
    then have "fat_off FAT_TYPE_12 c + 2 \<le> 512 * unat (ly_spf ly)" using c by (simp add: in_fat_def mkfs_fs_simps)
    moreover have "3 \<le> fat_off FAT_TYPE_12 c" using c(2) by (simp add: fat_off_def)
    ultimately show ?thesis using z [of "fat_off FAT_TYPE_12 c"] z [of "fat_off FAT_TYPE_12 c + 1"] FAT_TYPE_12
      by (simp add: fent_def ent_def mkfs_fs_simps join0 Let_def)
  next
    case FAT_TYPE_16
    then have "fat_off FAT_TYPE_16 c + 2 \<le> 512 * unat (ly_spf ly)" using c by (simp add: in_fat_def mkfs_fs_simps)
    moreover have "4 \<le> fat_off FAT_TYPE_16 c" using c(2) by (simp add: fat_off_def)
    ultimately show ?thesis using z [of "fat_off FAT_TYPE_16 c"] z [of "fat_off FAT_TYPE_16 c + 1"] FAT_TYPE_16
      by (simp add: fent_def ent_def mkfs_fs_simps join0 Let_def)
  next
    case FAT_TYPE_32
    then have le: "fat_off FAT_TYPE_32 c + 4 \<le> 512 * unat (ly_spf ly)" using c by (simp add: in_fat_def mkfs_fs_simps)
    show ?thesis
    proof (cases "c = 2")
      case True
      then have o: "fat_off FAT_TYPE_32 c = 8" by (simp add: fat_off_def)
      have "?B (8 + i) = byte32 i 0x0FFFFFFF" if "i < 4" for i
        using B [of "8 + i"] fat_sector_byte(2) [of "8 + i" FAT_TYPE_32] le o FAT_TYPE_32 that by simp
      from this [of 0] this [of 1] this [of 2] this [of 3]
      have "?B 8 = byte32 0 0x0FFFFFFF" "?B 9 = byte32 1 0x0FFFFFFF" "?B 10 = byte32 2 0x0FFFFFFF"
        "?B 11 = byte32 3 0x0FFFFFFF" by simp_all
      then show ?thesis using True o FAT_TYPE_32 join_split32 [of "0x0FFFFFFF"]
        by (simp add: fent_def ent_def mkfs_fs_simps Let_def)
    next
      case False
      then have "12 \<le> fat_off FAT_TYPE_32 c" using c(2) by (simp add: fat_off_def)
      with le show ?thesis
        using z [of "fat_off FAT_TYPE_32 c"] z [of "fat_off FAT_TYPE_32 c + 1"] z [of "fat_off FAT_TYPE_32 c + 2"]
          z [of "fat_off FAT_TYPE_32 c + 3"] FAT_TYPE_32 False
        by (simp add: fent_def ent_def mkfs_fs_simps join0 Let_def)
    qed
  qed
qed

section \<open>The root directory\<close>

lemma zero_entries: "sec_entries mkfs_zero = replicate 16 (replicate 32 0)"
  by (simp add: sec_entries_def mkfs_zero_def ATA_SECTOR_SIZE_def list_eq_iff_nth_eq)

lemma find_in_zero: "find_in_entries name sector off lfn (sec_entries mkfs_zero) = Inl (Inl (-2))"
  by (simp add: zero_entries replicate_16 dir_entry_of_def)

lemma find_in_zero_sectors:
  assumes "fat_read_sector fs st sector = Inr mkfs_zero" "0 < n"
  shows "find_in_sectors fs st name sector n lfn = Inl (Inl (-2))"
  using assms by (cases n) (simp_all add: find_in_zero)

lemma zero_slots:
  "r < m \<Longrightarrow> m \<le> r + n \<Longrightarrow> free_run m off r s (replicate n (replicate 32 0)) = Some (if r = 0 then off else s)"
proof (induction n arbitrary: off r s)
  case (Suc n)
  show ?case
  proof (cases "m \<le> r + 1")
    case False
    with Suc.prems Suc.IH [of "r + 1" "off + 32" "if r = 0 then off else s"] show ?thesis by (simp add: Let_def)
  qed (use Suc.prems in \<open>simp add: Let_def\<close>)
qed simp

lemma zero_room:
  assumes "fat_read_sector fs st s = Inr mkfs_zero" "0 < m" "m \<le> 16" "0 < n"
  shows "slots_in_sectors fs st m s n = Some (Inr \<lparr>loc_sector = s, loc_offset = 0\<rparr>)"
  using assms zero_slots [of 0 m 16 0 0] by (cases n) (simp_all add: zero_entries)

text \<open>Nothing is found in the root directory, and there is room at its start.\<close>

lemma mkfs_root_empty:
  assumes g: "good_layout tot ly" and d: "fat_disk (mkfs_fs drive lba tot ly) st"
    and v: "\<And>q. q < mkfs_extent ly \<Longrightarrow> vsec (mkfs_fs drive lba tot ly) st q = mkfs_contents lba tot ly q"
  shows "fat_dir_find_entry (mkfs_fs drive lba tot ly) st 0 name = Inl (-2)"
    and "ly_type ly \<noteq> FAT_TYPE_32 \<Longrightarrow> 0 < m \<Longrightarrow> m \<le> 16 \<Longrightarrow>
      fat_dir_find_free_slots (mkfs_fs drive lba tot ly) st 0 m =
        (Inr \<lparr>loc_sector = first_root_dir_sector (mkfs_fs drive lba tot ly), loc_offset = 0\<rparr>, mkfs_fs drive lba tot ly, st)"
    and "fat_read_sector (mkfs_fs drive lba tot ly) st (first_root_dir_sector (mkfs_fs drive lba tot ly)) = Inr mkfs_zero
       \<or> ly_type ly = FAT_TYPE_32"
    and "\<exists>s. fat_read_sector (mkfs_fs drive lba tot ly) st (first_data_sector (mkfs_fs drive lba tot ly)) = Inr s"
    and "\<exists>s. fat_read_sector (mkfs_fs drive lba tot ly) st (first_root_dir_sector (mkfs_fs drive lba tot ly)) = Inr s"
    and "fat_read_sector (mkfs_fs drive lba tot ly) st 0 = Inr (mkfs_boot_sector lba tot ly)"
proof -
  let ?fs = "mkfs_fs drive lba tot ly"
  note pl = mkfs_places [OF g]
  have R: "unat (ly_reserved ly) = (if ly_type ly = FAT_TYPE_32 then 32 else 1)" and spc: "0 < unat (ly_spc ly)"
    and D: "unat (fs_root_dir_sectors (ly_root_entries ly)) = (if ly_type ly = FAT_TYPE_32 then 0 else 32)"
    using g by (auto simp: good_layout_def spc_choices_def fs_root_dir_sectors_def ATA_SECTOR_SIZE_def)
  have p: "0 < unat (ly_spf ly)" using g unfolding good_layout_def layout_fits_def by blast
  have rd: "fat_read_sector ?fs st s = Inr (vsec ?fs st (unat s))" if "unat s < unat tot" for s
    using vsec_read [OF d, of "unat s"] that by (simp add: mkfs_fs_simps)
  have ext: "mkfs_extent ly = unat (ly_reserved ly) + 2 * unat (ly_spf ly) + (if ly_type ly = FAT_TYPE_32 then unat (ly_spc ly) else 32)"
    unfolding mkfs_extent_def D by simp
  have z: "mkfs_contents lba tot ly q = mkfs_zero" if "unat (ly_reserved ly) + 2 * unat (ly_spf ly) \<le> q" for q
    using that R p by (auto simp: mkfs_contents_def)
  have zero: "fat_read_sector ?fs st s = Inr mkfs_zero"
    if "unat (ly_reserved ly) + 2 * unat (ly_spf ly) \<le> unat s" "unat s < mkfs_extent ly" for s
    using rd [of s] v [OF that(2)] z [OF that(1)] that(2) pl(5) by simp
  have root: "fat_read_sector ?fs st (first_root_dir_sector ?fs) = Inr mkfs_zero"
    by (rule zero) (use pl(3) spc in \<open>simp_all add: ext\<close>)
  then show "fat_read_sector ?fs st (first_root_dir_sector ?fs) = Inr mkfs_zero \<or> ly_type ly = FAT_TYPE_32"
    and "\<exists>s. fat_read_sector ?fs st (first_root_dir_sector ?fs) = Inr s" by blast+
  have lt: "unat (first_data_sector ?fs) < unat tot"
    using good_layout_facts(2) [OF g] by (simp add: word_less_nat_alt mkfs_fs_def Let_def)
  from rd [OF this] show "\<exists>s. fat_read_sector ?fs st (first_data_sector ?fs) = Inr s" by blast
  have "0 < mkfs_extent ly" using p by (simp add: mkfs_extent_def)
  then show "fat_read_sector ?fs st 0 = Inr (mkfs_boot_sector lba tot ly)"
    using rd [of 0] v [of 0] lt by (simp add: mkfs_contents_def)
  show "fat_dir_find_entry ?fs st 0 name = Inl (-2)"
  proof (cases "ly_type ly = FAT_TYPE_32")
    case False
    have n: "0 < unat (root_dir_sectors ?fs)" using pl(6) [OF False] by simp
    show ?thesis
      using False find_in_zero_sectors [OF root n] by (simp add: fat_dir_find_entry_def mkfs_fs_simps)
  next
    case True
    have cc: "unat (cluster_count ?fs) < 2 ^ 27" "cluster_count ?fs \<noteq> 0"
      by (rule mkfs_cluster_count [OF g])+
    then have c1: "unat (cluster_count ?fs + 1) = unat (cluster_count ?fs) + 1"
      "unat (cluster_count ?fs + 2) = Suc (unat (cluster_count ?fs) + 1)"
      by (simp_all add: unat_word_ariths(1))
    have "\<not> (2 :: u32) > cluster_count ?fs + 1"
      using cc(2) by (simp add: word_less_nat_alt c1(1) unat_gt_0)
    moreover have "fat_read_sector ?fs st (first_data_sector ?fs) = Inr mkfs_zero"
      by (rule zero) (use pl(2-4) spc True in \<open>simp_all add: ext D\<close>)
    then have "find_in_sectors ?fs st name (fat_cluster_to_sector ?fs 2) (unat (ly_spc ly)) lfn = Inl (Inl (-2))" for lfn
      using find_in_zero_sectors spc by (simp add: fat_cluster_to_sector_def)
    moreover have "root_cluster ?fs = 2" using True by (simp add: mkfs_fs_def Let_def)
    ultimately show ?thesis using True by (simp add: fat_dir_find_entry_def mkfs_fs_simps c1(2))
  qed
  assume t: "ly_type ly \<noteq> FAT_TYPE_32" and m: "0 < m" "m \<le> 16"
  have "slots_in_sectors ?fs st m (first_root_dir_sector ?fs) (unat (root_dir_sectors ?fs)) =
      Some (Inr \<lparr>loc_sector = first_root_dir_sector ?fs, loc_offset = 0\<rparr>)"
    by (rule zero_room [OF root m]) (simp add: pl(6) [OF t])
  then show "fat_dir_find_free_slots ?fs st 0 m = (Inr \<lparr>loc_sector = first_root_dir_sector ?fs, loc_offset = 0\<rparr>, ?fs, st)"
    using t m by (simp add: fat_dir_find_free_slots_def mkfs_fs_simps ATA_SECTOR_SIZE_def)
qed

section \<open>The properties\<close>

lemma mkfs_write_frame:
  "mkfs_write st drive ws = (rc, st') \<Longrightarrow> (\<And>s sec. (s, sec) \<in> set ws \<Longrightarrow> ucast s \<in> A) \<Longrightarrow>
     j \<noteq> drive \<or> A \<inter> run l (unat k) = {} \<Longrightarrow> fs_device_read_sectors st' j l k = fs_device_read_sectors st j l k"
proof (induction st drive ws arbitrary: st' rule: mkfs_write.induct)
  case (2 st drive s sec ws)
  obtain rc1 st1 where w: "fs_device_write_sectors st drive (ucast s) 1 sec = (rc1, st1)" by fastforce
  have "ucast s \<in> A" by (rule "2.prems"(2) [of s sec]) simp
  then have same: "fs_device_read_sectors st1 j l k = fs_device_read_sectors st j l k"
    using "2.prems"(3) device_contract(2,3) [OF w] by fastforce
  show ?case
  proof (cases "rc1 = 0")
    case True
    then have "mkfs_write st1 drive ws = (rc, st')" using "2.prems"(1) w by simp
    moreover have "ucast x \<in> A" if "(x, c) \<in> set ws" for x c by (rule "2.prems"(2) [of x c]) (use that in simp)
    ultimately show ?thesis using "2.IH" [OF w [symmetric]] True "2.prems"(3) same by simp
  qed (use "2.prems"(1) w same in simp)
qed simp

lemma mkfs_cases:
  assumes "fs_mkfs_fat st drive lba sectors fat_type = (0, st')"
  shows "\<exists>ly. fs_fat_pick_layout sectors (if fat_type = 12 then Some FAT_TYPE_12 else if fat_type = 16 then Some FAT_TYPE_16
           else if fat_type = 32 then Some FAT_TYPE_32 else None) = Some ly
         \<and> mkfs_write st drive (mkfs_all_writes lba sectors ly) = (0, st')"
  using assms by (auto simp: fs_mkfs_fat_def Let_def split: option.splits if_splits)

definition area_readable :: "storage \<Rightarrow> nat \<Rightarrow> u32 \<Rightarrow> u32 \<Rightarrow> bool" where
  "area_readable st drive lba sectors \<longleftrightarrow>
     (\<forall>r < unat sectors. \<exists>s. ata_read_sectors st drive (ucast lba + of_nat r) 1 = Inr s \<and> length s = 512)"

lemma area_disk:
  assumes "area_readable st drive lba sectors"
  shows "fat_disk (mkfs_fs drive lba sectors ly) st"
proof -
  have "(ucast (of_nat r :: u32) :: u64) = of_nat r" if "r < unat sectors" for r
  proof -
    have "r < 2 ^ 32" using that unsigned_less [of sectors, where 'a = nat] by simp
    then show ?thesis by (intro word_unat_eq_iff [THEN iffD2]) (simp add: unat_ucast_widen unsigned_of_nat take_bit_nat_eq_self)
  qed
  with assms show ?thesis
    by (simp add: area_readable_def fat_disk_def fat_read_sector_def mkfs_fs_simps ATA_SECTOR_SIZE_def)
qed

text \<open>What formatting with the layout \<open>ly\<close> has achieved.\<close>

definition formatted :: "storage \<Rightarrow> nat \<Rightarrow> u32 \<Rightarrow> u32 \<Rightarrow> fat_layout \<Rightarrow> bool" where
  "formatted st drive lba sectors ly \<longleftrightarrow> good_layout sectors ly
     \<and> fat_fs_mount st drive (ucast lba) = Inr (mkfs_fs drive lba sectors ly)
     \<and> fat_sound (mkfs_fs drive lba sectors ly) \<and> fat_disk (mkfs_fs drive lba sectors ly) st
     \<and> mount_sane (mkfs_fs drive lba sectors ly)
     \<and> (\<forall>q < mkfs_extent ly. vsec (mkfs_fs drive lba sectors ly) st q = mkfs_contents lba sectors ly q)"

lemma formattedD:
  assumes "formatted st drive lba sectors ly"
  shows "good_layout sectors ly" "fat_fs_mount st drive (ucast lba) = Inr (mkfs_fs drive lba sectors ly)"
    "fat_sound (mkfs_fs drive lba sectors ly)" "fat_disk (mkfs_fs drive lba sectors ly) st"
    "mount_sane (mkfs_fs drive lba sectors ly)"
    "q < mkfs_extent ly \<Longrightarrow> vsec (mkfs_fs drive lba sectors ly) st q = mkfs_contents lba sectors ly q"
  using assms unfolding formatted_def by simp_all

definition wanted_type :: "nat \<Rightarrow> fat_type option" where
  "wanted_type t = (if t = 12 then Some FAT_TYPE_12 else if t = 16 then Some FAT_TYPE_16
     else if t = 32 then Some FAT_TYPE_32 else None)"

lemma mkfs_mount_spec:
  assumes m: "fs_mkfs_fat st drive lba sectors fat_type = (0, st')"
    and area: "area_readable st drive lba sectors"
    and dr: "drive < length (g_drives st) + length (g_namespaces st)" and fit: "unat lba + unat sectors \<le> 2 ^ 32"
  shows "\<exists>ly. formatted st' drive lba sectors ly \<and> (\<forall>ty. wanted_type fat_type = Some ty \<longrightarrow> ly_type ly = ty)
    \<and> fs_fat_pick_layout sectors (wanted_type fat_type) = Some ly"
proof -
  from mkfs_cases [OF m] obtain ly where pick: "fs_fat_pick_layout sectors (wanted_type fat_type) = Some ly"
    and w: "mkfs_write st drive (mkfs_all_writes lba sectors ly) = (0, st')" unfolding wanted_type_def by blast
  note g = pick_layout_spec(1) [OF pick] and ty = pick_layout_spec(2) [OF pick]
  let ?fs = "mkfs_fs drive lba sectors ly"
  from mkfs_spec [OF g area_disk [OF area] dr fit] w have d: "fat_disk ?fs st'"
    and v: "\<And>q. q < mkfs_extent ly \<Longrightarrow> vsec ?fs st' q = mkfs_contents lba sectors ly q" by auto
  note e = mkfs_root_empty [OF g d v]
  from e(4,5) obtain s s' where rd: "fat_read_sector ?fs st' (first_root_dir_sector ?fs) = Inr s"
    "fat_read_sector ?fs st' (first_data_sector ?fs) = Inr s'" by blast
  have "ata_read_sectors st' drive (ucast lba) 1 = Inr (mkfs_boot_sector lba sectors ly)"
    using e(6) by (simp add: fat_read_sector_def mkfs_fs_simps)
  then have mt: "fat_fs_mount st' drive (ucast lba) = Inr ?fs" by (rule mkfs_mount [OF g _ rd])
  have sane: "mount_sane ?fs"
  proof -
    have l: "unat (partition_lba ?fs) = unat lba" by (simp add: mkfs_fs_simps unat_ucast_widen)
    have "unat (ly_reserved ly) \<le> 32" using g by (simp add: good_layout_def)
    then show ?thesis
      using good_layout_spf(1) [OF g] l fit mkfs_places(2) [OF g] root_dir_sectors_small [of "ly_root_entries ly"]
      by (simp add: mount_sane_def mkfs_fs_simps)
  qed
  then have "fat_sound ?fs"
    by (rule mount_fat_sound [OF mt]) (rule less_trans [OF mkfs_cluster_count(2) [OF g]], simp)
  with g mt d sane v have "formatted st' drive lba sectors ly" unfolding formatted_def by simp
  with ty pick show ?thesis by blast
qed

text \<open>
  C33. Formatting round trip. When \<open>fs_mkfs_fat\<close> reports success on a drive that ATA or NVMe serves, whose
  sectors in the range can be read, and whose range lies below sector 2 ^ 32, the volume mounts with the layout
  that \<open>fs_fat_pick_layout\<close> chose: type, cluster size, reserved sectors, root entries and table size, and no more clusters
  than it counted. It has the type asked for and the number of sectors given, a sound geometry,
  two equal tables in which every cluster is free but the root directory's on FAT32, and an empty
  root directory.
\<close>

theorem mkfs_then_mount:
  assumes "fs_mkfs_fat st drive lba sectors fat_type = (0, st')" and "area_readable st drive lba sectors"
    and "drive < length (g_drives st) + length (g_namespaces st)" and "unat lba + unat sectors \<le> 2 ^ 32"
  shows "\<exists>fs ly. fat_fs_mount st' drive (ucast lba) = Inr fs \<and> fat_sound fs \<and> fat_disk fs st' \<and> mirrored fs st'
     \<and> fs_fat_pick_layout sectors (wanted_type fat_type) = Some ly
     \<and> ftype fs = ly_type ly \<and> sectors_per_cluster fs = ly_spc ly \<and> reserved_sectors fs = ly_reserved ly
     \<and> root_entry_count fs = ly_root_entries ly \<and> sectors_per_fat fs = ly_spf ly \<and> fat_count fs = 2
     \<and> bytes_per_sector fs = 512 \<and> total_sectors fs = sectors \<and> cluster_count fs \<le> ly_clusters ly
     \<and> (fat_type = 12 \<longrightarrow> ftype fs = FAT_TYPE_12) \<and> (fat_type = 16 \<longrightarrow> ftype fs = FAT_TYPE_16)
     \<and> (fat_type = 32 \<longrightarrow> ftype fs = FAT_TYPE_32)
     \<and> (\<forall>c. valid_cluster fs c \<longrightarrow>
          fat_read_fat_entry fs st' (of_nat c) = Some (if ftype fs = FAT_TYPE_32 \<and> c = 2 then 0x0FFFFFFF else 0))
     \<and> (\<forall>name. fat_dir_find_entry fs st' 0 name = Inl (-2))"
proof -
  from mkfs_mount_spec [OF assms] obtain ly where f: "formatted st' drive lba sectors ly"
    and ty: "\<forall>ty. wanted_type fat_type = Some ty \<longrightarrow> ly_type ly = ty"
    and pick: "fs_fat_pick_layout sectors (wanted_type fat_type) = Some ly" by blast
  note g = formattedD(1) [OF f] and m = formattedD(2-5) [OF f] and v = formattedD(6) [OF f]
  let ?fs = "mkfs_fs drive lba sectors ly"
  have geom: "fat_geom ?fs" using m(2) by (simp add: fat_sound_def)
  have "fat_read_fat_entry ?fs st' (of_nat c) = Some (if ftype ?fs = FAT_TYPE_32 \<and> c = 2 then 0x0FFFFFFF else 0)"
    if "valid_cluster ?fs c" for c
    using read_entry_fent [OF geom m(3) valid_clusterD(1) [OF geom that]]
      mkfs_entry [OF g v valid_clusterD(1,2) [OF geom that]] by (simp add: mkfs_fs_simps)
  moreover have "mirrored ?fs st'"
    using mkfs_table_byte [OF g v] by (simp add: mirrored_def mkfs_fs_simps)
  moreover have "\<forall>name. fat_dir_find_entry ?fs st' 0 name = Inl (-2)" using mkfs_root_empty(1) [OF g m(3) v] by blast
  moreover have "(fat_type = 12 \<longrightarrow> ftype ?fs = FAT_TYPE_12) \<and> (fat_type = 16 \<longrightarrow> ftype ?fs = FAT_TYPE_16)
     \<and> (fat_type = 32 \<longrightarrow> ftype ?fs = FAT_TYPE_32)"
    using ty by (simp add: mkfs_fs_simps(3) wanted_type_def)
  ultimately show ?thesis
    using m(1-3) pick mkfs_fs_simps [of drive lba sectors ly] by (intro exI [of _ ?fs] exI [of _ ly]) blast
qed

lemma mkfs_free:
  assumes g: "good_layout tot ly" and m: "fat_fs_mount st drive (ucast lba) = Inr (mkfs_fs drive lba tot ly)"
    and s: "fat_sound (mkfs_fs drive lba tot ly)" and t: "ly_type ly \<noteq> FAT_TYPE_32" and sane: "mount_sane (mkfs_fs drive lba tot ly)"
    and v: "\<And>q. q < mkfs_extent ly \<Longrightarrow> vsec (mkfs_fs drive lba tot ly) st q = mkfs_contents lba tot ly q"
  shows "card (free_clusters (mkfs_fs drive lba tot ly) st) = unat (cluster_count (mkfs_fs drive lba tot ly))"
proof -
  let ?fs = "mkfs_fs drive lba tot ly"
  have geom: "fat_geom ?fs" using s by (simp add: fat_sound_def)
  have val: "valid_cluster ?fs c \<longleftrightarrow> 2 \<le> c \<and> c < unat (cluster_count ?fs) + 2" for c
    unfolding valid_cluster_def mount_sound_spec(3) [OF m sane] mount_sound_spec(5) [OF m sane] by linarith
  have t': "(if ly_type ly = FAT_TYPE_32 \<and> c = 2 then x else y) = y" for c and x y :: u32 using t by simp
  have z: "fent ?fs st c = 0" if "valid_cluster ?fs c" for c
    using mkfs_entry [OF g v valid_clusterD(1,2) [OF geom that]] unfolding t' .
  have "free_clusters ?fs st = {2..<unat (cluster_count ?fs) + 2}"
  proof (rule set_eqI)
    fix c
    have "c \<in> free_clusters ?fs st \<longleftrightarrow> valid_cluster ?fs c" using z [of c] by (auto simp only: free_clusters_def mem_Collect_eq)
    then show "c \<in> free_clusters ?fs st \<longleftrightarrow> c \<in> {2..<unat (cluster_count ?fs) + 2}" by (simp only: val atLeastLessThan_iff)
  qed
  then show ?thesis by (simp only: card_atLeastLessThan diff_add_inverse2)
qed

text \<open>
  C34. From an empty disk to a file. After formatting, as above, to FAT12 or FAT16 and mounting, creating a
  file in the root directory under any printable name of at most 63 characters that has a short
  name, with contents that the clusters of the volume can hold, succeeds, and reading its path gives
  its length and its bytes.
\<close>

theorem mkfs_first_file:
  assumes "fs_mkfs_fat st drive lba sectors fat_type = (0, st')" and "area_readable st drive lba sectors"
    and "drive < length (g_drives st) + length (g_namespaces st)" and "unat lba + unat sectors \<le> 2 ^ 32"
    and "fat_fs_mount st' drive (ucast lba) = Inr fs" "ftype fs \<noteq> FAT_TYPE_32"
    and "leaf \<noteq> []" "length leaf < VFS_MAX_NAME" "CHR ''/'' \<notin> set leaf" "\<forall>c\<in>set leaf. printable c"
    and "fat_make_sfn leaf = Some sfn"
    and "length data < 2 ^ 32" "clusters_needed fs (length data) \<le> unat (cluster_count fs)"
  shows "\<exists>h st3. fat_op_create_file True kb fs st' (CHR ''/'' # leaf) data = Some (0, fs\<lparr>next_free_cluster := h\<rparr>, st3)
     \<and> (\<forall>buf. length data \<le> length buf \<longrightarrow>
          fat_op_read_file (fs\<lparr>next_free_cluster := h\<rparr>) st3 (CHR ''/'' # leaf) (Some buf) (length buf) =
            (0, Some (length data), Some (data @ drop (length data) buf)))"
proof -
  from mkfs_mount_spec [OF assms(1-4)] obtain ly where f: "formatted st' drive lba sectors ly"
    and ty: "\<forall>ty. wanted_type fat_type = Some ty \<longrightarrow> ly_type ly = ty" by blast
  note g = formattedD(1) [OF f] and m = formattedD(2-5) [OF f] and v = formattedD(6) [OF f]
  have fs: "fs = mkfs_fs drive lba sectors ly" using m(1) assms(5) by simp
  then have t: "ly_type ly \<noteq> FAT_TYPE_32" using assms(6) by (simp add: mkfs_fs_simps)
  have root: "fat_root fs"
    using assms(6) mkfs_places(1-4) [OF g] by (simp add: fs fat_root_def copy_base_def mkfs_fs_simps)
  have n: "0 < fat_lfn_entry_count_for_name leaf + 1" "fat_lfn_entry_count_for_name leaf + 1 \<le> 16"
    using assms(8) by (simp_all add: fat_lfn_entry_count_for_name_def FAT_LFN_CHARS_PER_ENTRY_def VFS_MAX_NAME_def)
  let ?loc = "\<lparr>loc_sector = first_root_dir_sector fs, loc_offset = 0\<rparr>"
  have "find_room fs st' (CHR ''/'' # leaf) = (Some (0, leaf, sfn, ?loc), fs, st')"
    using leaf_paths(3) [OF assms(7-9)] mkfs_root_empty(1) [OF g m(3) v] mkfs_root_empty(2) [OF g m(3) v t n] assms(11)
    by (simp add: find_room_def fat_resolve_parent_dir_def fs)
  moreover have "clusters_needed fs (length data) \<le> card (free_clusters fs st')"
    using mkfs_free [OF g m(1,2) t m(4) v] assms(13) by (simp add: fs)
  moreover have "before_end fs st' ?loc" by (simp add: before_end_def)
  ultimately show ?thesis
    using create_then_read_spec [OF _ root _ assms(7-10) _ assms(12), of st' 0 leaf sfn ?loc fs st' kb] m(2,3)
    by (simp add: fs)
qed

text \<open>
  C35. Formatting stays in its range. Whatever \<open>fs_mkfs_fat\<close> returns, for a range below sector 2 ^ 32 every
  read of another drive, and every read of the same drive outside the range, gives what it gave before.
\<close>

theorem mkfs_stays_inside:
  assumes "unat lba + unat sectors \<le> 2 ^ 32" and "fs_mkfs_fat st drive lba sectors fat_type = (rc, st')"
    and "j \<noteq> drive \<or> run (ucast lba) (unat sectors) \<inter> run l (unat k) = {}"
  shows "fs_device_read_sectors st' j l k = fs_device_read_sectors st j l k"
proof (cases "st' = st")
  case False
  then obtain ly wanted where pick: "fs_fat_pick_layout sectors wanted = Some ly"
    and w: "mkfs_write st drive (mkfs_all_writes lba sectors ly) = (rc, st')"
    using assms(2) by (auto simp: fs_mkfs_fat_def Let_def split: option.splits if_splits)
  note g = pick_layout_spec(1) [OF pick]
  have "ucast s \<in> run (ucast lba) (unat sectors)" if "(s, sec) \<in> set (mkfs_all_writes lba sectors ly)" for s sec
  proof -
    from that obtain r where r: "(r, sec) \<in> set (mkfs_rel lba sectors ly)" "s = lba + of_nat r"
      unfolding all_writes_rel by auto
    then have lt: "r < unat sectors" using rel_contents [OF g r(1)] mkfs_places(5) [OF g] by simp
    then have "ucast s = (ucast lba + ucast (of_nat r :: u32) :: u64)"
      unfolding r(2) using assms(1) by (intro lba_sum) simp
    also have "(ucast (of_nat r :: u32) :: u64) = of_nat r"
    proof -
      have "r < 2 ^ 32" using lt assms(1) by simp
      then show ?thesis
        by (intro word_unat_eq_iff [THEN iffD2]) (simp add: unat_ucast_widen unsigned_of_nat take_bit_nat_eq_self)
    qed
    finally show ?thesis using lt by (auto simp: run_def)
  qed
  from mkfs_write_frame [OF w this assms(3)] show ?thesis .
qed simp

section \<open>Formatting the small disk\<close>

definition floppy_layout :: fat_layout where
  "floppy_layout = \<lparr>ly_type = FAT_TYPE_12, ly_spc = 128, ly_reserved = 1, ly_root_entries = 512, ly_spf = 1,
     ly_clusters = 7\<rparr>"

lemma floppy_pick: "fs_fat_pick_layout 1000 (Some FAT_TYPE_12) = Some floppy_layout"
  unfolding floppy_layout_def by code_simp

lemma floppy_area: "area_readable floppy 0 0 1000"
proof -
  have "(of_nat r :: u64) < 1000" if "r < 1000" for r
    using that by (simp add: word_less_nat_alt unsigned_of_nat take_bit_nat_eq_self)
  then show ?thesis
    by (simp add: area_readable_def floppy_read boot12_def zero_sector_def)
qed

lemma floppy_devices:
  "fs_drive_total_sectors floppy 0 = Some 1000"
  "\<exists>d. fs_get_block_device floppy 0 = Some d \<and> \<not> bd_is_atapi d"
  by (simp_all add: fs_drive_total_sectors_def fs_get_block_device_def floppy_def flat_disk_def Let_def)

lemma floppy_mkfs: "\<exists>st'. fs_mkfs_fat floppy 0 0 1000 12 = (0, st')"
proof -
  note g = pick_layout_spec(1) [OF floppy_pick]
  have dr: "0 < length (g_drives floppy) + length (g_namespaces floppy)" by (simp add: floppy_def flat_disk_def)
  have "unat (0 :: u32) + unat (1000 :: u32) \<le> 2 ^ 32" by simp
  from mkfs_spec [OF g area_disk [OF floppy_area] dr this] obtain st' where
    "mkfs_write floppy 0 (mkfs_all_writes 0 1000 floppy_layout) = (0, st')" by blast
  with floppy_devices floppy_pick show ?thesis by (auto simp: fs_mkfs_fat_def)
qed

lemmas floppy_range = floppy_area floppy_mkfs

theorem mkfs_then_mount_witness:
  "\<exists>st' fs. fs_mkfs_fat floppy 0 0 1000 12 = (0, st') \<and> fat_fs_mount st' 0 0 = Inr fs \<and> ftype fs = FAT_TYPE_12
     \<and> total_sectors fs = 1000 \<and> sectors_per_cluster fs = 128 \<and> fat_dir_find_entry fs st' 0 ''a'' = Inl (-2)"
proof -
  obtain st' where w: "fs_mkfs_fat floppy 0 0 1000 12 = (0, st')" using floppy_mkfs by blast
  have "0 < length (g_drives floppy) + length (g_namespaces floppy)" by (simp add: floppy_def flat_disk_def)
  moreover have "fs_fat_pick_layout 1000 (wanted_type 12) = Some floppy_layout"
    using floppy_pick by (simp add: wanted_type_def)
  ultimately obtain fs where "fat_fs_mount st' 0 (ucast (0 :: u32)) = Inr fs" "total_sectors fs = 1000"
    "ftype fs = FAT_TYPE_12" "sectors_per_cluster fs = ly_spc floppy_layout"
    "\<And>name. fat_dir_find_entry fs st' 0 name = Inl (-2)"
    using mkfs_then_mount [OF w floppy_area] by auto
  moreover have "ly_spc floppy_layout = 128" by (simp add: floppy_layout_def)
  ultimately show ?thesis using w by auto
qed

theorem mkfs_first_file_witness:
  "\<exists>st' fs h st3. fs_mkfs_fat floppy 0 0 1000 12 = (0, st') \<and> fat_fs_mount st' 0 0 = Inr fs
     \<and> fat_op_create_file True True fs st' ''/a'' [1, 2, 3] = Some (0, fs\<lparr>next_free_cluster := h\<rparr>, st3)
     \<and> fat_op_read_file (fs\<lparr>next_free_cluster := h\<rparr>) st3 ''/a'' (Some [0, 0, 0, 9]) 4 = (0, Some 3, Some [1, 2, 3, 9])"
proof -
  obtain st' where w: "fs_mkfs_fat floppy 0 0 1000 12 = (0, st')" using floppy_mkfs by blast
  have dr: "0 < length (g_drives floppy) + length (g_namespaces floppy)" by (simp add: floppy_def flat_disk_def)
  have fit: "unat (0 :: u32) + unat (1000 :: u32) \<le> 2 ^ 32" by simp
  from mkfs_mount_spec [OF w floppy_area dr fit] obtain ly where f: "formatted st' 0 0 1000 ly"
    and ty: "ly_type ly = FAT_TYPE_12" by (auto simp: wanted_type_def)
  let ?fs = "mkfs_fs 0 0 1000 ly"
  have m: "fat_fs_mount st' 0 (ucast (0 :: u32)) = Inr ?fs" by (rule formattedD(2) [OF f])
  have t: "ftype ?fs \<noteq> FAT_TYPE_32" using ty by (simp add: mkfs_fs_simps)
  have "ly_spc ly \<in> set spc_choices" using formattedD(1) [OF f] by (simp add: good_layout_def)
  then have "clusters_needed ?fs (length [1, 2, 3 :: u8]) = 1"
    by (auto simp: clusters_needed_def mkfs_fs_simps spc_choices_def ATA_SECTOR_SIZE_def)
  moreover have "0 < unat (cluster_count ?fs)" using mkfs_cluster_count(1) [OF formattedD(1) [OF f]] by (simp add: unat_gt_0)
  ultimately have c: "clusters_needed ?fs (length [1, 2, 3 :: u8]) \<le> unat (cluster_count ?fs)" by simp
  have p: "\<forall>c\<in>set ''a''. printable c" by (simp add: printable_def)
  obtain h st3 where
    cr: "fat_op_create_file True True ?fs st' ''/a'' [1, 2, 3] = Some (0, ?fs\<lparr>next_free_cluster := h\<rparr>, st3)"
    and r: "\<And>buf. 3 \<le> length buf \<Longrightarrow>
          fat_op_read_file (?fs\<lparr>next_free_cluster := h\<rparr>) st3 ''/a'' (Some buf) (length buf) =
            (0, Some 3, Some ([1, 2, 3] @ drop 3 buf))"
    using mkfs_first_file [OF w floppy_area dr fit m t _ _ _ p floppy_sfn _ c, of True]
    by (auto simp: VFS_MAX_NAME_def numeral_3_eq_3)
  have "fat_op_read_file (?fs\<lparr>next_free_cluster := h\<rparr>) st3 ''/a'' (Some [0, 0, 0, 9]) 4 = (0, Some 3, Some [1, 2, 3, 9])"
    using r [of "[0, 0, 0, 9]"] by (simp add: numeral_eq_Suc)
  moreover have "fat_fs_mount st' 0 0 = Inr ?fs" using m by simp
  ultimately show ?thesis using w cr by blast
qed

theorem mkfs_stays_inside_witness:
  "fs_device_read_sectors (snd (fs_mkfs_fat floppy 0 0 500 12)) 0 600 1 = Inr zero_sector"
proof -
  have "(of_nat j :: u64) \<noteq> 600" if "j < 500" for j
    using that of_nat_word_inj [where 'a = 64, of j 600] by simp
  then have d: "run (ucast (0 :: u32)) (unat (500 :: u32)) \<inter> run 600 (unat (1 :: u32)) = {}"
    by (auto simp: run_def)
  have "fs_device_read_sectors floppy 0 600 1 = Inr zero_sector"
  proof -
    have c: "ata_read_chunks floppy 0 600 (Suc 0) = Some zero_sector"
      using floppy_read [of 600] by (subst ata_read_chunks.simps) (simp add: ata_read_chunks.simps [of _ _ _ 0])
    have "0 < length (g_drives floppy)" by (simp add: floppy_def flat_disk_def)
    then show ?thesis using c by (simp add: fs_device_read_sectors_def)
  qed
  then show ?thesis
    using mkfs_stays_inside [of 0 500 floppy 0 12 "fst (fs_mkfs_fat floppy 0 0 500 12)" "snd (fs_mkfs_fat floppy 0 0 500 12)" 0 600 1] d
    by simp
qed

text \<open>
  C36. The layout chosen for a volume fits it, for every number of sectors that 32 bits hold: the tables
  and the root directory leave room for the clusters counted, which fill the rest but for less than
  one cluster, none of the sums leaves 32 bits, a table of FAT12 and FAT16 fits the 16-bit field of
  the boot sector, and the number of clusters is in the range that the mount code takes for the type.
\<close>

theorem mkfs_layout_fits:
  assumes "fs_fat_pick_layout tot wanted = Some ly"
  shows "(let before = unat (ly_reserved ly) + 2 * unat (ly_spf ly) + unat (fs_root_dir_sectors (ly_root_entries ly));
              used = unat (ly_clusters ly) * unat (ly_spc ly) in
       before + used \<le> unat tot \<and> unat tot < before + used + unat (ly_spc ly))
     \<and> 0 < unat (ly_clusters ly) \<and> unat (ly_spf ly) * 512 < 2 ^ 31
     \<and> (ly_type ly \<noteq> FAT_TYPE_32 \<longrightarrow> unat (ly_spf ly) < 2 ^ 16)
     \<and> ly_type ly = (if unat (ly_clusters ly) < 4085 then FAT_TYPE_12
          else if unat (ly_clusters ly) < 65525 then FAT_TYPE_16 else FAT_TYPE_32)
     \<and> (wanted \<noteq> None \<longrightarrow> wanted = Some (ly_type ly))"
proof -
  note g = pick_layout_spec(1) [OF assms] and w = pick_layout_spec(2) [OF assms]
  note s = good_layout_spf [OF g] and f = good_layout_facts(4,9) [OF g]
  let ?b = "unat (ly_reserved ly) + 2 * unat (ly_spf ly) + unat (fs_root_dir_sectors (ly_root_entries ly))"
  have spc: "0 < unat (ly_spc ly)" using good_layout_facts(6) [OF g] by (simp add: unat_gt_0)
  have l: "?b < unat tot" "unat (ly_clusters ly) = (unat tot - ?b) div unat (ly_spc ly)"
    using g unfolding good_layout_def layout_fits_def by blast+
  have lo: "unat (ly_clusters ly) * unat (ly_spc ly) \<le> unat tot - ?b" unfolding l(2) by (rule div_times_less_eq_dividend)
  have hi: "unat tot - ?b < unat (ly_clusters ly) * unat (ly_spc ly) + unat (ly_spc ly)"
    unfolding l(2) using dividend_less_div_times [OF spc, of "unat tot - ?b"] by simp
  have w': "wanted \<noteq> None \<longrightarrow> wanted = Some (ly_type ly)" using w by (cases wanted) simp_all
  have ty: "ly_type ly = (if unat (ly_clusters ly) < 4085 then FAT_TYPE_12
          else if unat (ly_clusters ly) < 65525 then FAT_TYPE_16 else FAT_TYPE_32)"
    using f(2) by (simp add: word_less_nat_alt)
  have a: "?b + unat (ly_clusters ly) * unat (ly_spc ly) \<le> unat tot" using lo l(1) by linarith
  have b: "unat tot < ?b + unat (ly_clusters ly) * unat (ly_spc ly) + unat (ly_spc ly)" using hi l(1) by linarith
  have c: "0 < unat (ly_clusters ly)" "unat (ly_spf ly) * 512 < 2 ^ 31"
    "ly_type ly \<noteq> FAT_TYPE_32 \<longrightarrow> unat (ly_spf ly) < 2 ^ 16"
    using s f(1) by (simp_all add: unat_gt_0)
  show ?thesis unfolding Let_def by (intro conjI a b c ty w')
qed

theorem mkfs_layout_fits_witness:
  "fs_fat_pick_layout 1000 (Some FAT_TYPE_12) = Some floppy_layout \<and> unat (ly_spf floppy_layout) * 512 < 2 ^ 31
   \<and> unat (ly_clusters floppy_layout) * unat (ly_spc floppy_layout) \<le> unat (1000 :: u32)"
  using mkfs_layout_fits [OF floppy_pick] floppy_pick by (simp add: Let_def)

end
