(* ===== verification/Iso.thy ===== *)
theory Iso
  imports Storage Fat_Names Ctype
begin

text \<open>
  ISO 9660 volumes, read only: \<open>fs/iso.c\<close>, with \<open>ata_read_cd_sectors\<close> of \<open>drivers/sata/ata.c\<close>.

  A block has 2048 bytes. On a CD drive the medium holds one block under each number, on a disk four
  sectors make a block. A directory record is passed to the callbacks as the bytes from its start to the
  end of the block buffer; the length of its name is not checked, and \<open>None\<close> stands for a read
  behind that buffer. The file is identified by its first block and its size, so there is no state besides
  the mount record.
\<close>

section \<open>Blocks\<close>

definition ISO_SECTOR_SIZE :: nat where "ISO_SECTOR_SIZE = 2048"
definition ISO_PVD_SECTOR :: u32 where "ISO_PVD_SECTOR = 16"
definition ISO_FLAG_DIRECTORY :: u8 where "ISO_FLAG_DIRECTORY = 0x02"

record iso_fs =
  iso_mounted :: bool
  is_atapi :: bool
  drive_index :: nat
  partition_lba :: u64
  root_lba :: u32
  root_size :: u32
  use_joliet :: bool

record iso_node =
  nd_lba :: u32
  nd_size :: u32
  nd_flags :: u8

fun read_cd :: "medium \<Rightarrow> u32 \<Rightarrow> nat \<Rightarrow> u8 list option" where
  "read_cd m lba 0 = Some []"
| "read_cd m lba (Suc n) =
     (case m (ucast lba) of None \<Rightarrow> None | Some blk \<Rightarrow> map_option (\<lambda>bs. blk @ bs) (read_cd m (lba + 1) n))"

definition ata_read_cd_sectors :: "storage \<Rightarrow> nat \<Rightarrow> u32 \<Rightarrow> u8 \<Rightarrow> int + u8 list" where
  "ata_read_cd_sectors st i lba n =
     (if n = 0 then Inl (-1)
      else if i \<ge> length (g_drives st) then Inl (-2)
      else let d = g_drives st ! i in
        if \<not> ad_present d then Inl (-2)
        else if ad_type d \<noteq> ATA_DRIVE_ATAPI \<and> ad_type d \<noteq> ATA_DRIVE_SATAPI then Inl (-3)
        else if ad_ahci d \<and> ad_type d \<noteq> ATA_DRIVE_SATAPI then Inl (-2)
        else case read_cd (ad_medium d) lba (unat n) of None \<Rightarrow> Inl (-4) | Some bs \<Rightarrow> Inr bs)"

definition iso_rd32_le :: "u8 list \<Rightarrow> nat \<Rightarrow> u32" where
  "iso_rd32_le p i = ucast (p ! i) OR push_bit 8 (ucast (p ! (i + 1))) OR push_bit 16 (ucast (p ! (i + 2)))
     OR push_bit 24 (ucast (p ! (i + 3)))"

definition iso_phys :: "iso_fs \<Rightarrow> u32 \<Rightarrow> u64" where
  "iso_phys fs lba = partition_lba fs + ucast lba * 4"

definition iso_read_sector :: "storage \<Rightarrow> iso_fs \<Rightarrow> u32 \<Rightarrow> int + u8 list" where
  "iso_read_sector st fs lba =
     (if is_atapi fs then ata_read_cd_sectors st (drive_index fs) lba 1
      else ata_read_sectors st (drive_index fs) (iso_phys fs lba) 4)"

definition iso_step :: "iso_fs \<Rightarrow> nat" where "iso_step fs = (if is_atapi fs then 255 else 63)"

lemma iso_step_pos [simp]: "0 < iso_step fs" by (simp add: iso_step_def)

function iso_read_sectors_batch :: "storage \<Rightarrow> iso_fs \<Rightarrow> u32 \<Rightarrow> nat \<Rightarrow> int + u8 list" where
  "iso_read_sectors_batch st fs lba remaining =
     (if remaining = 0 then Inr []
      else let step = min remaining (iso_step fs) in
        case (if is_atapi fs then ata_read_cd_sectors st (drive_index fs) lba (of_nat step)
              else ata_read_sectors st (drive_index fs) (iso_phys fs lba) (of_nat (step * 4))) of
          Inl _ \<Rightarrow> Inl (-1)
        | Inr bs \<Rightarrow>
            (case iso_read_sectors_batch st fs (lba + of_nat step) (remaining - step) of
               Inl e \<Rightarrow> Inl e | Inr r \<Rightarrow> Inr (bs @ r)))"
  by pat_completeness auto
termination
  by (relation "measure (\<lambda>(st, fs, lba, r). r)") (auto simp: min_def)

declare iso_read_sectors_batch.simps [simp del]

section \<open>Names\<close>

definition iso_name_eq_ci :: "string \<Rightarrow> string \<Rightarrow> bool" where
  "iso_name_eq_ci a b \<longleftrightarrow> map (\<lambda>c. tolower (of_char c)) a = map (\<lambda>c. tolower (of_char c)) b"

definition rec_at :: "u8 list \<Rightarrow> nat \<Rightarrow> u8 option" where
  "rec_at r i = (if i < length r then Some (r ! i) else None)"

text \<open>The two loops that copy the identifier, which starts at byte 33, up to a semicolon.\<close>

function plain_loop :: "u8 list \<Rightarrow> nat \<Rightarrow> nat \<Rightarrow> string \<Rightarrow> string option" where
  "plain_loop r name_len i out =
     (if i < name_len \<and> length out + 1 < VFS_MAX_NAME
      then (case rec_at r (33 + i) of
              None \<Rightarrow> None
            | Some b \<Rightarrow> if b = byte (CHR '';'') then Some out else plain_loop r name_len (i + 1) (out @ [chr8 b]))
      else Some out)"
  by pat_completeness auto
termination by (relation "measure (\<lambda>(r, n, i, out). n - i)") auto

definition joliet_char :: "u8 \<Rightarrow> u8 \<Rightarrow> char" where
  "joliet_char hi lo = (if hi = 0 then chr8 lo else if lo = 0 then chr8 hi else CHR ''?'')"

function joliet_loop :: "u8 list \<Rightarrow> nat \<Rightarrow> nat \<Rightarrow> string \<Rightarrow> string option" where
  "joliet_loop r name_len i out =
     (if i + 1 < name_len \<and> length out + 1 < VFS_MAX_NAME
      then (case (rec_at r (33 + i), rec_at r (33 + i + 1)) of
              (Some hi, Some lo) \<Rightarrow>
                if lo = byte (CHR '';'') \<or> hi = byte (CHR '';'') then Some out
                else joliet_loop r name_len (i + 2) (out @ [joliet_char hi lo])
            | _ \<Rightarrow> None)
      else Some out)"
  by pat_completeness auto
termination by (relation "measure (\<lambda>(r, n, i, out). n - i)") auto

declare plain_loop.simps [simp del] joliet_loop.simps [simp del]

text \<open>
  The inner option is the status. The text that others see ends at the first NUL, if the
  identifier contains one.
\<close>

definition iso_decode_record_name :: "bool \<Rightarrow> u8 list \<Rightarrow> string option option" where
  "iso_decode_record_name joliet r =
     (case (rec_at r 32, rec_at r 33) of
        (Some name_len, Some id0) \<Rightarrow>
          if name_len = 1 \<and> id0 = 0 then Some (Some ''.'')
          else if name_len = 1 \<and> id0 = 1 then Some (Some ''..'')
          else (case (if joliet then joliet_loop r (unat name_len) 0 [] else plain_loop r (unat name_len) 0 []) of
                  None \<Rightarrow> None
                | Some out \<Rightarrow>
                    let out = rev (dropWhile (\<lambda>c. c = CHR ''.'') (rev out)) in
                    Some (if out = [] then None else Some (takeWhile (\<lambda>c. c \<noteq> char_of (0 :: nat)) out)))
      | _ \<Rightarrow> None)"

definition iso_next_token :: "string \<Rightarrow> (string \<times> string) option" where
  "iso_next_token p =
     (let s = dropWhile (\<lambda>c. c = CHR ''/'') p in
      if s = [] then None
      else let tok = take (VFS_MAX_NAME - 1) (takeWhile (\<lambda>c. c \<noteq> CHR ''/'') s)
           in Some (tok, dropWhile (\<lambda>c. c = CHR ''/'') (drop (length tok) s)))"

lemma iso_token_shorter: "iso_next_token p = Some (tok, rest) \<Longrightarrow> length rest < length p"
proof -
  let ?s = "dropWhile (\<lambda>c. c = CHR ''/'') p"
  let ?t = "take (VFS_MAX_NAME - 1) (takeWhile (\<lambda>c. c \<noteq> CHR ''/'') ?s)"
  assume a: "iso_next_token p = Some (tok, rest)"
  then have s: "?s \<noteq> []" and r: "rest = dropWhile (\<lambda>c. c = CHR ''/'') (drop (length ?t) ?s)"
    by (auto simp: iso_next_token_def Let_def split: if_splits)
  obtain c s' where cs: "?s = c # s'" using s by (cases ?s) auto
  have "c \<noteq> CHR ''/''" using hd_dropWhile [of "\<lambda>c. c = CHR ''/''" p] s cs by simp
  then have "0 < length ?t" using cs by (simp add: VFS_MAX_NAME_def)
  moreover have "length rest \<le> length (drop (length ?t) ?s)" unfolding r by (rule length_dropWhile_le)
  moreover have "length ?s \<le> length p" by (rule length_dropWhile_le)
  moreover have "0 < length ?s" using s by simp
  ultimately show ?thesis unfolding length_drop by linarith
qed

section \<open>Directories\<close>

text \<open>A callback answers a status and a new context; 0 means to go on.\<close>

type_synonym 'u on_entry = "u8 list \<Rightarrow> 'u \<Rightarrow> (int \<times> 'u) option"

function iso_scan_sector :: "'u on_entry \<Rightarrow> u8 list \<Rightarrow> nat \<Rightarrow> 'u \<Rightarrow> (int \<times> 'u) option" where
  "iso_scan_sector on_entry sec off user =
     (if off < ISO_SECTOR_SIZE
      then let len = unat (sec ! off) in
        if len = 0 \<or> off + len > ISO_SECTOR_SIZE \<or> len < 34 then Some (0, user)
        else (case on_entry (drop off sec) user of
                None \<Rightarrow> None
              | Some (cb, user) \<Rightarrow> if cb \<noteq> 0 then Some (cb, user) else iso_scan_sector on_entry sec (off + len) user)
      else Some (0, user))"
  by pat_completeness auto
termination by (relation "measure (\<lambda>(f, sec, off, u). ISO_SECTOR_SIZE - off)") auto

function iso_scan_loop ::
  "storage \<Rightarrow> iso_fs \<Rightarrow> 'u on_entry \<Rightarrow> nat \<Rightarrow> u32 \<Rightarrow> 'u \<Rightarrow> (int \<times> 'u) option" where
  "iso_scan_loop st fs on_entry remaining cur_lba user =
     (if remaining = 0 then Some (0, user)
      else case iso_read_sector st fs cur_lba of
        Inl _ \<Rightarrow> Some (-1, user)
      | Inr sec \<Rightarrow>
         (case iso_scan_sector on_entry sec 0 user of
            None \<Rightarrow> None
          | Some (cb, user) \<Rightarrow>
              if cb \<noteq> 0 then Some (cb, user)
              else iso_scan_loop st fs on_entry (remaining - ISO_SECTOR_SIZE) (cur_lba + 1) user))"
  by pat_completeness auto
termination by (relation "measure (\<lambda>(st, fs, f, r, l, u). r)") (auto simp: ISO_SECTOR_SIZE_def)

declare iso_scan_sector.simps [simp del] iso_scan_loop.simps [simp del]

definition iso_scan_dir :: "storage \<Rightarrow> iso_fs \<Rightarrow> iso_node \<Rightarrow> 'u on_entry \<Rightarrow> 'u \<Rightarrow> (int \<times> 'u) option" where
  "iso_scan_dir st fs dir on_entry user =
     (if nd_flags dir AND ISO_FLAG_DIRECTORY = 0 then Some (-1, user)
      else iso_scan_loop st fs on_entry (unat (nd_size dir)) (nd_lba dir) user)"

record iso_find_ctx =
  fc_name :: string
  fc_out :: iso_node
  fc_found :: bool

definition iso_find_cb :: "iso_fs \<Rightarrow> iso_find_ctx on_entry" where
  "iso_find_cb fs r ctx =
     (case iso_decode_record_name (use_joliet fs) r of
        None \<Rightarrow> None
      | Some None \<Rightarrow> Some (0, ctx)
      | Some (Some n) \<Rightarrow>
          if n = ''.'' \<or> n = ''..'' then Some (0, ctx)
          else if \<not> iso_name_eq_ci n (fc_name ctx) then Some (0, ctx)
          else Some (1, ctx\<lparr>fc_out := \<lparr>nd_lba = iso_rd32_le r 2, nd_size = iso_rd32_le r 10, nd_flags = r ! 25\<rparr>,
                            fc_found := True\<rparr>))"

definition no_node :: iso_node where "no_node = \<lparr>nd_lba = 0, nd_size = 0, nd_flags = 0\<rparr>"

definition iso_find_in_dir :: "storage \<Rightarrow> iso_fs \<Rightarrow> iso_node \<Rightarrow> string \<Rightarrow> iso_node option option" where
  "iso_find_in_dir st fs dir name =
     (case iso_scan_dir st fs dir (iso_find_cb fs) \<lparr>fc_name = name, fc_out = no_node, fc_found = False\<rparr> of
        None \<Rightarrow> None
      | Some (rc, ctx) \<Rightarrow> Some (if rc = 1 \<and> fc_found ctx then Some (fc_out ctx) else None))"

function iso_resolve_loop :: "storage \<Rightarrow> iso_fs \<Rightarrow> iso_node \<Rightarrow> string \<Rightarrow> iso_node option option" where
  "iso_resolve_loop st fs cur p =
     (case iso_next_token p of
        None \<Rightarrow> Some (Some cur)
      | Some (tok, rest) \<Rightarrow>
          if nd_flags cur AND ISO_FLAG_DIRECTORY = 0 then Some None
          else (case iso_find_in_dir st fs cur tok of
                  Some (Some next') \<Rightarrow> iso_resolve_loop st fs next' rest
                | r \<Rightarrow> r))"
  by pat_completeness auto
termination
  by (relation "measure (\<lambda>(st, fs, cur, p). length p)") (use iso_token_shorter in auto)

declare iso_resolve_loop.simps [simp del]

definition iso_root :: "iso_fs \<Rightarrow> iso_node" where
  "iso_root fs = \<lparr>nd_lba = root_lba fs, nd_size = root_size fs, nd_flags = ISO_FLAG_DIRECTORY\<rparr>"

definition iso_resolve_path :: "storage \<Rightarrow> iso_fs \<Rightarrow> string \<Rightarrow> iso_node option option" where
  "iso_resolve_path st fs path =
     (if path = [] \<or> hd path \<noteq> CHR ''/'' then Some None else iso_resolve_loop st fs (iso_root fs) path)"

record iso_list_ctx =
  lc_out :: "dirent list option"
  lc_max :: nat
  lc_count :: nat

definition iso_list_cb :: "iso_fs \<Rightarrow> iso_list_ctx on_entry" where
  "iso_list_cb fs r ctx =
     (case iso_decode_record_name (use_joliet fs) r of
        None \<Rightarrow> None
      | Some None \<Rightarrow> Some (0, ctx)
      | Some (Some n) \<Rightarrow>
          if n = ''.'' \<or> n = ''..'' then Some (0, ctx)
          else let ctx = (case lc_out ctx of
                  None \<Rightarrow> ctx
                | Some out \<Rightarrow>
                    if lc_count ctx < lc_max ctx
                    then ctx\<lparr>lc_out := Some (out[lc_count ctx := \<lparr>d_name = take (VFS_MAX_NAME - 1) n,
                               d_is_dir = (r ! 25 AND ISO_FLAG_DIRECTORY \<noteq> 0), d_size = unat (iso_rd32_le r 10)\<rparr>])\<rparr>
                    else ctx)
               in Some (0, ctx\<lparr>lc_count := lc_count ctx + 1\<rparr>))"

section \<open>Operations\<close>

text \<open>The bytes of a file: whole blocks in batches, and the rest of the last block.\<close>

definition iso_read_payload :: "storage \<Rightarrow> iso_fs \<Rightarrow> u32 \<Rightarrow> nat \<Rightarrow> int + u8 list" where
  "iso_read_payload st fs lba n =
     (let full = n div ISO_SECTOR_SIZE; tail = n mod ISO_SECTOR_SIZE in
      case iso_read_sectors_batch st fs lba full of
        Inl _ \<Rightarrow> Inl (-4)
      | Inr bs \<Rightarrow>
          if tail = 0 then Inr bs
          else (case iso_read_sector st fs (lba + of_nat full) of
                  Inl _ \<Rightarrow> Inl (-4)
                | Inr sec \<Rightarrow> Inr (bs @ take tail sec)))"

definition iso_op_read_file ::
  "iso_fs \<Rightarrow> storage \<Rightarrow> string \<Rightarrow> u8 list option \<Rightarrow> nat \<Rightarrow> (int \<times> nat option \<times> u8 list option) option" where
  "iso_op_read_file fs st path out out_cap =
     (if \<not> iso_mounted fs then Some (-1, None, out)
      else case iso_resolve_path st fs path of
        None \<Rightarrow> None
      | Some None \<Rightarrow> Some (-1, None, out)
      | Some (Some node) \<Rightarrow>
          if nd_flags node AND ISO_FLAG_DIRECTORY \<noteq> 0 then Some (-2, None, out)
          else let sz = unat (nd_size node) in
            (case out of
               None \<Rightarrow> Some (0, Some sz, None)
             | Some buf \<Rightarrow>
                 if out_cap < sz then Some (-3, Some sz, out)
                 else (case iso_read_payload st fs (nd_lba node) sz of
                         Inl e \<Rightarrow> Some (e, Some sz, out)
                       | Inr bs \<Rightarrow> Some (0, Some sz, Some (bs @ drop sz buf)))))"

text \<open>The bytes from \<open>offset\<close> on: the end of the first block, whole blocks, and the start of the last one.\<close>

definition iso_read_range :: "storage \<Rightarrow> iso_fs \<Rightarrow> u32 \<Rightarrow> nat \<Rightarrow> nat \<Rightarrow> int + u8 list" where
  "iso_read_range st fs node_lba offset to_copy =
     (let lba = node_lba + of_nat (offset div ISO_SECTOR_SIZE); sec_off = offset mod ISO_SECTOR_SIZE in
      if sec_off = 0 then iso_read_payload st fs lba to_copy
      else case iso_read_sector st fs lba of
        Inl _ \<Rightarrow> Inl (-4)
      | Inr sec \<Rightarrow>
          let chunk = min to_copy (ISO_SECTOR_SIZE - sec_off); first = take chunk (drop sec_off sec) in
          (case iso_read_payload st fs (lba + 1) (to_copy - chunk) of
             Inl e \<Rightarrow> Inl e | Inr bs \<Rightarrow> Inr (first @ bs)))"

text \<open>The status, the bytes read, and the length of the file.\<close>

definition iso_fs_read_file_range ::
  "iso_fs \<Rightarrow> storage \<Rightarrow> string \<Rightarrow> nat \<Rightarrow> nat \<Rightarrow> (int \<times> u8 list \<times> nat option) option" where
  "iso_fs_read_file_range fs st path offset len =
     (case iso_resolve_path st fs path of
        None \<Rightarrow> None
      | Some None \<Rightarrow> Some (-1, [], None)
      | Some (Some node) \<Rightarrow>
          if nd_flags node AND ISO_FLAG_DIRECTORY \<noteq> 0 then Some (-2, [], None)
          else let sz = unat (nd_size node) in
            if offset \<ge> sz then Some (0, [], Some sz)
            else (case iso_read_range st fs (nd_lba node) offset (min len (sz - offset)) of
                    Inl e \<Rightarrow> Some (e, [], Some sz)
                  | Inr bs \<Rightarrow> Some (0, bs, Some sz)))"

definition iso_op_list_dir ::
  "iso_fs \<Rightarrow> storage \<Rightarrow> string \<Rightarrow> dirent list option \<Rightarrow> nat \<Rightarrow> (int \<times> nat option \<times> dirent list option) option" where
  "iso_op_list_dir fs st path out max_entries =
     (if \<not> iso_mounted fs then Some (-1, None, out)
      else case iso_resolve_path st fs path of
        None \<Rightarrow> None
      | Some None \<Rightarrow> Some (-1, None, out)
      | Some (Some dir) \<Rightarrow>
          if nd_flags dir AND ISO_FLAG_DIRECTORY = 0 then Some (-2, None, out)
          else (case iso_scan_dir st fs dir (iso_list_cb fs) \<lparr>lc_out = out, lc_max = max_entries, lc_count = 0\<rparr> of
                  None \<Rightarrow> None
                | Some (rc, ctx) \<Rightarrow>
                    if rc \<noteq> 0 then Some (-1, None, lc_out ctx) else Some (0, Some (lc_count ctx), lc_out ctx)))"

definition iso_op_exists :: "iso_fs \<Rightarrow> storage \<Rightarrow> string \<Rightarrow> int option" where
  "iso_op_exists fs st path =
     (if \<not> iso_mounted fs then Some 0
      else map_option (\<lambda>r. if r \<noteq> None then 1 else 0) (iso_resolve_path st fs path))"

definition iso_op_getattr :: "iso_fs \<Rightarrow> storage \<Rightarrow> string \<Rightarrow> attr option" where
  "iso_op_getattr fs st path = Some (0x16D, 0, 0)"

text \<open>The operations that would change something: \<open>mkdir\<close>, \<open>create_file\<close>, \<open>write_file\<close>, \<open>remove\<close>,
  \<open>rename\<close>, \<open>chmod\<close> and \<open>chown\<close>.\<close>

definition iso_refuse :: "storage \<Rightarrow> int \<times> storage" where "iso_refuse st = (-1, st)"

section \<open>Mounting\<close>

record vd_scan =
  vs_pvd :: "(u32 \<times> u32) option"
  vs_joliet :: "(u32 \<times> u32) option"

definition vd_magic :: "u8 list \<Rightarrow> bool" where
  "vd_magic vd \<longleftrightarrow> vd ! 1 = byte (CHR ''C'') \<and> vd ! 2 = byte (CHR ''D'') \<and> vd ! 3 = byte (CHR ''0'')
     \<and> vd ! 4 = byte (CHR ''0'') \<and> vd ! 5 = byte (CHR ''1'')"

definition joliet_escape :: "u8 list \<Rightarrow> bool" where
  "joliet_escape vd \<longleftrightarrow> vd ! 88 = byte (CHR ''%'') \<and> vd ! 89 = byte (CHR ''/'')
     \<and> (vd ! 90 = byte (CHR ''@'') \<or> vd ! 90 = byte (CHR ''C'') \<or> vd ! 90 = byte (CHR ''E''))"

text \<open>The volume descriptors from block \<open>16 + i\<close> on, \<open>n\<close> of them; \<open>None\<close> is an error.\<close>

fun scan_vds :: "storage \<Rightarrow> iso_fs \<Rightarrow> nat \<Rightarrow> u32 \<Rightarrow> vd_scan \<Rightarrow> vd_scan option" where
  "scan_vds st fs 0 i acc = Some acc"
| "scan_vds st fs (Suc n) i acc =
     (case iso_read_sector st fs (ISO_PVD_SECTOR + i) of
        Inl _ \<Rightarrow> None
      | Inr vd \<Rightarrow>
          if \<not> vd_magic vd then Some acc
          else let ty = vd ! 0; loc = (iso_rd32_le vd 158, iso_rd32_le vd 166) in
            if ty = 1 then
              (if vd ! 6 \<noteq> 1 then None
               else if vd ! 156 < 34 then None
               else scan_vds st fs n (i + 1) (acc\<lparr>vs_pvd := Some loc\<rparr>))
            else if ty = 2 then
              scan_vds st fs n (i + 1)
                (if joliet_escape vd \<and> vd ! 156 \<ge> 34 then acc\<lparr>vs_joliet := Some loc\<rparr> else acc)
            else if ty = 0xFF then Some acc
            else scan_vds st fs n (i + 1) acc)"

definition no_iso :: iso_fs where
  "no_iso = \<lparr>iso_mounted = False, is_atapi = False, drive_index = 0, partition_lba = 0, root_lba = 0,
     root_size = 0, use_joliet = False\<rparr>"

definition iso_fs_mount :: "storage \<Rightarrow> nat \<Rightarrow> u64 \<Rightarrow> int \<times> iso_fs" where
  "iso_fs_mount st drive part_lba =
     (if drive \<ge> length (g_drives st) \<or> \<not> ad_present (g_drives st ! drive) then (-1, no_iso)
      else let ty = ad_type (g_drives st ! drive);
               fs = no_iso\<lparr>drive_index := drive, partition_lba := part_lba,
                           is_atapi := (ty = ATA_DRIVE_ATAPI \<or> ty = ATA_DRIVE_SATAPI)\<rparr> in
        case scan_vds st fs 64 0 \<lparr>vs_pvd = None, vs_joliet = None\<rparr> of
          None \<Rightarrow> (-1, fs)
        | Some vs \<Rightarrow>
           (case (vs_joliet vs, vs_pvd vs) of
              (Some (l, s), _) \<Rightarrow> (0, fs\<lparr>root_lba := l, root_size := s, use_joliet := True, iso_mounted := True\<rparr>)
            | (None, Some (l, s)) \<Rightarrow> (0, fs\<lparr>root_lba := l, root_size := s, use_joliet := False, iso_mounted := True\<rparr>)
            | (None, None) \<Rightarrow> (-1, fs)))"

end
