(* ===== verification/Iso_Props.thy ===== *)
theory Iso_Props
  imports Iso Storage_Props
begin

text \<open>
  Reading from an ISO 9660 volume: a file is the bytes of its blocks, a range of it is a slice of them, and
  looking up a name agrees with listing its directory.
\<close>

section \<open>Runs of blocks\<close>

text \<open>The \<open>n\<close> blocks from \<open>lba\<close> on can be read one by one.\<close>

definition blocks_at :: "storage \<Rightarrow> iso_fs \<Rightarrow> u32 \<Rightarrow> (nat \<Rightarrow> u8 list) \<Rightarrow> nat \<Rightarrow> bool" where
  "blocks_at st fs lba blk n \<longleftrightarrow> unat lba + n \<le> 2 ^ 32
     \<and> (\<forall>k<n. iso_read_sector st fs (lba + of_nat k) = Inr (blk k) \<and> length (blk k) = ISO_SECTOR_SIZE)"

definition run_of :: "(nat \<Rightarrow> u8 list) \<Rightarrow> nat \<Rightarrow> u8 list" where "run_of blk n = concat (map blk [0..<n])"

lemma blocks_atD: "blocks_at st fs lba blk n \<Longrightarrow> k < n \<Longrightarrow> iso_read_sector st fs (lba + of_nat k) = Inr (blk k)"
  by (simp add: blocks_at_def)

lemma blocks_at_shift:
  assumes "blocks_at st fs lba blk (q + n)"
  shows "blocks_at st fs (lba + of_nat q) (\<lambda>k. blk (q + k)) n"
proof (cases "n = 0")
  case True
  then show ?thesis using unsigned_less [of "lba + of_nat q", where 'a = nat] by (simp add: blocks_at_def)
next
  case False
  have b: "unat lba + (q + n) \<le> 2 ^ 32" using assms by (simp add: blocks_at_def)
  have "unat (of_nat q :: u32) = q" using b False by (simp add: unat_of_nat)
  then have "unat (lba + of_nat q) = unat lba + q" using b False by (simp add: unat_word_ariths(1))
  moreover have "lba + of_nat q + of_nat k = lba + of_nat (q + k)" for k by simp
  ultimately show ?thesis using assms b unfolding blocks_at_def by (metis add.assoc nat_add_left_cancel_less)
qed

lemma blocks_at_less: "blocks_at st fs lba blk m \<Longrightarrow> n \<le> m \<Longrightarrow> blocks_at st fs lba blk n"
  by (simp add: blocks_at_def)

lemma run_of_0 [simp]: "run_of blk 0 = []" by (simp add: run_of_def)

lemma run_of_add: "run_of blk (q + n) = run_of blk q @ run_of (\<lambda>k. blk (q + k)) n"
proof -
  have "[0..<q + n] = [0..<q] @ map (\<lambda>k. q + k) [0..<n]"
    by (rule nth_equalityI) (auto simp: nth_append)
  then show ?thesis by (simp add: run_of_def comp_def)
qed

lemma run_of_Suc: "run_of blk (Suc n) = blk 0 @ run_of (\<lambda>k. blk (Suc k)) n"
  using run_of_add [of blk 1 n] by (simp add: run_of_def)

lemma run_of_snoc: "run_of blk (Suc n) = run_of blk n @ blk n"
  by (simp add: run_of_def)

lemma run_of_length: "\<forall>k<n. length (blk k) = ISO_SECTOR_SIZE \<Longrightarrow> length (run_of blk n) = n * ISO_SECTOR_SIZE"
  by (induction n) (simp_all add: run_of_def)

lemma blocks_at_length: "blocks_at st fs lba blk n \<Longrightarrow> length (run_of blk n) = n * ISO_SECTOR_SIZE"
  by (rule run_of_length) (simp add: blocks_at_def)

lemma read_run_add: "read_run m lba (a + b) =
    (case read_run m lba a of None \<Rightarrow> None | Some x \<Rightarrow> map_option (\<lambda>y. x @ y) (read_run m (lba + of_nat a) b))"
proof (induction a arbitrary: lba)
  case 0
  show ?case by (cases "read_run m lba b") simp_all
next
  case (Suc a)
  have e: "lba + 1 + of_nat a = lba + of_nat (Suc a)" by simp
  show ?case
    using Suc [of "lba + 1"] unfolding e
    by (cases "m lba"; cases "read_run m (lba + 1) a"; cases "read_run m (lba + (1 + of_nat a)) b")
      (simp_all add: add.assoc)
qed

lemma read_cd_run:
  assumes "\<forall>k<n. m (ucast (lba + of_nat k)) = Some (blk k)"
  shows "read_cd m lba n = Some (run_of blk n)"
  using assms
proof (induction n arbitrary: lba blk)
  case (Suc n)
  have 0: "m (ucast lba) = Some (blk 0)" using Suc.prems [rule_format, of 0] by simp
  have "m (ucast (lba + 1 + of_nat k)) = Some (blk (1 + k))" if "k < n" for k
    using Suc.prems [rule_format, of "Suc k"] that by (simp add: add.assoc)
  then have "read_cd m (lba + 1) n = Some (run_of (\<lambda>k. blk (Suc k)) n)" by (intro Suc.IH) simp
  then show ?case using 0 by (simp add: run_of_Suc)
qed simp

lemma read_run_blocks:
  assumes "\<forall>k<n. read_run m (p + of_nat (4 * k)) 4 = Some (blk k)"
  shows "read_run m p (4 * n) = Some (run_of blk n)"
  using assms
proof (induction n)
  case (Suc n)
  have e: "4 * Suc n = 4 * n + 4" by simp
  have "read_run m p (4 * n) = Some (run_of blk n)" "read_run m (p + of_nat (4 * n)) 4 = Some (blk n)"
    using Suc by (blast intro: less_SucI, blast)
  then show ?case unfolding e read_run_add run_of_snoc by simp
qed simp

section \<open>Batches\<close>

lemma cd_batch:
  assumes b: "blocks_at st fs lba blk n" and cd: "is_atapi fs" and n: "0 < n" "n < 256"
  shows "ata_read_cd_sectors st (drive_index fs) lba (of_nat n) = Inr (run_of blk n)"
proof -
  let ?d = "g_drives st ! drive_index fs"
  have one: "ata_read_cd_sectors st (drive_index fs) (lba + of_nat k) 1 = Inr (blk k)" if "k < n" for k
    using blocks_atD [OF b that] cd by (simp add: iso_read_sector_def)
  have ok: "drive_index fs < length (g_drives st)" "ad_present ?d" "ad_type ?d = ATA_DRIVE_ATAPI \<or> ad_type ?d = ATA_DRIVE_SATAPI"
    "ad_ahci ?d \<longrightarrow> ad_type ?d = ATA_DRIVE_SATAPI"
    using one [OF n(1)] by (auto simp: ata_read_cd_sectors_def Let_def split: if_splits)
  have "ad_medium ?d (ucast (lba + of_nat k)) = Some (blk k)" if "k < n" for k
    using one [OF that] ok by (auto simp: ata_read_cd_sectors_def Let_def split: option.splits if_splits)
  then have "read_cd (ad_medium ?d) lba n = Some (run_of blk n)" by (intro read_cd_run) simp
  moreover have "unat (of_nat n :: u8) = n" "(of_nat n :: u8) \<noteq> 0"
    using n by (simp_all add: unat_of_nat word_unat_eq_iff)
  ultimately show ?thesis using ok by (auto simp: ata_read_cd_sectors_def Let_def)
qed

lemma iso_phys_add:
  assumes "unat lba + k < 2 ^ 32"
  shows "iso_phys fs (lba + of_nat k) = iso_phys fs lba + of_nat (4 * k)"
proof -
  have "unat (lba + of_nat k) = unat lba + k" using assms by (simp add: unat_word_ariths(1) unat_of_nat)
  then have "(ucast (lba + of_nat k) :: u64) = ucast lba + of_nat k"
    using assms by (simp add: word_unat_eq_iff unat_ucast_widen unat_word_ariths(1) unat_of_nat)
  then show ?thesis by (simp add: iso_phys_def algebra_simps)
qed

lemma disk_check:
  assumes first: "ata_rw_check d p 4 = 0" and last: "ata_rw_check d (p + of_nat (4 * k)) 4 = 0" and k: "4 * k + 4 < 256"
  shows "ata_rw_check d p (of_nat (4 * k + 4)) = 0"
proof -
  have "(ucast (of_nat (4 * k + 4) :: u8) :: u64) = of_nat (4 * k + 4)"
  proof (rule word_unat_eq_iff [THEN iffD2])
    have "unat (ucast (of_nat (4 * k + 4) :: u8) :: u64) = 4 * k + 4"
      by (subst unat_ucast_widen) (use k in \<open>simp_all only: u8_count, simp_all\<close>)
    moreover have "unat (of_nat (4 * k + 4) :: u64) = 4 * k + 4" by (rule unat_of_nat_le) (use k in simp)
    ultimately show "unat (ucast (of_nat (4 * k + 4) :: u8) :: u64) = unat (of_nat (4 * k + 4) :: u64)" by simp
  qed
  then have "(ucast (of_nat (4 * k + 4) :: u8) :: u64) = of_nat (4 * k) + 4" by simp
  then have e: "p + ucast (of_nat (4 * k + 4) :: u8) = p + of_nat (4 * k) + ucast (4 :: u8)" by (simp add: add.assoc)
  show ?thesis using first last unfolding ata_rw_check_def Let_def e by (auto split: if_splits)
qed

lemma disk_batch:
  assumes b: "blocks_at st fs lba blk n" and disk: "\<not> is_atapi fs" "drive_index fs < length (g_drives st)"
    and n: "0 < n" "n < 64"
  shows "ata_read_sectors st (drive_index fs) (iso_phys fs lba) (of_nat (n * 4)) = Inr (run_of blk n)"
proof -
  let ?d = "g_drives st ! drive_index fs" and ?p = "iso_phys fs lba"
  have one: "ata_read_sectors st (drive_index fs) (?p + of_nat (4 * k)) 4 = Inr (blk k)" if "k < n" for k
    using blocks_atD [OF b that] b that disk(1) by (simp add: iso_read_sector_def iso_phys_add blocks_at_def)
  have ok: "ata_rw_check ?d (?p + of_nat (4 * k)) 4 = 0" "read_run (ad_medium ?d) (?p + of_nat (4 * k)) 4 = Some (blk k)"
    if "k < n" for k
    using one [OF that] disk(2) by (simp_all add: ata_read_sectors_def Let_def split: if_splits option.splits)
  have e: "n * 4 = 4 * (n - 1) + 4" using n(1) by simp
  have "ata_rw_check ?d ?p (of_nat (n * 4)) = 0"
    unfolding e by (rule disk_check) (use ok(1) [of 0] ok(1) [of "n - 1"] n in simp_all)
  moreover have "read_run (ad_medium ?d) ?p (4 * n) = Some (run_of blk n)"
    by (rule read_run_blocks) (use ok(2) in blast)
  moreover have u: "unat (of_nat (n * 4) :: u8) = 4 * n" using n by (simp only: unat_of_nat) simp
  moreover have "(of_nat (n * 4) :: u8) \<noteq> 0" using n(1) u by (simp only: word_unat_eq_iff) simp
  ultimately show ?thesis using disk(2) by (simp add: ata_read_sectors_def Let_def)
qed

lemma batch_reads_blocks:
  assumes "blocks_at st fs lba blk n" and d: "drive_index fs < length (g_drives st)"
  shows "iso_read_sectors_batch st fs lba n = Inr (run_of blk n)"
  using assms(1)
proof (induction n arbitrary: lba blk rule: less_induct)
  case (less n)
  show ?case
  proof (cases "n = 0")
    case True
    then show ?thesis by (simp add: iso_read_sectors_batch.simps)
  next
    case False
    define s where "s = min n (iso_step fs)"
    have s: "0 < s" "s \<le> n" "s \<le> iso_step fs" using False by (auto simp: s_def)
    have b: "blocks_at st fs lba blk s" using blocks_at_less [OF less.prems s(2)] .
    have r: "(if is_atapi fs then ata_read_cd_sectors st (drive_index fs) lba (of_nat s)
        else ata_read_sectors st (drive_index fs) (iso_phys fs lba) (of_nat (s * 4))) = Inr (run_of blk s)"
      using cd_batch [OF b _ s(1)] disk_batch [OF b _ d s(1)] s(3) by (auto simp: iso_step_def)
    have "blocks_at st fs lba blk (s + (n - s))" using less.prems s(2) by simp
    from blocks_at_shift [OF this]
    have "iso_read_sectors_batch st fs (lba + of_nat s) (n - s) = Inr (run_of (\<lambda>k. blk (s + k)) (n - s))"
      by (intro less.IH) (use s(1) False in simp_all)
    with r run_of_add [of blk s "n - s"] s(2) False show ?thesis
      by (subst iso_read_sectors_batch.simps) (simp add: Let_def s_def [symmetric])
  qed
qed

section \<open>Files\<close>

lemma payload_reads:
  assumes b: "blocks_at st fs lba blk m" and d: "drive_index fs < length (g_drives st)" and n: "n \<le> m * ISO_SECTOR_SIZE"
  shows "iso_read_payload st fs lba n = Inr (take n (run_of blk m))"
proof -
  let ?q = "n div ISO_SECTOR_SIZE" and ?t = "n mod ISO_SECTOR_SIZE"
  have q: "?q \<le> m" using n by (simp add: ISO_SECTOR_SIZE_def)
  have nq: "n = ?q * ISO_SECTOR_SIZE + ?t" by simp
  have bq: "blocks_at st fs lba blk ?q" by (rule blocks_at_less [OF b q])
  note batch = batch_reads_blocks [OF bq d]
  have split: "run_of blk m = run_of blk ?q @ run_of (\<lambda>k. blk (?q + k)) (m - ?q)"
    using run_of_add [of blk ?q "m - ?q"] q by simp
  have lq: "length (run_of blk ?q) = ?q * ISO_SECTOR_SIZE" by (rule blocks_at_length [OF bq])
  have tk: "take n (run_of blk m) = run_of blk ?q @ take ?t (run_of (\<lambda>k. blk (?q + k)) (m - ?q))"
    unfolding split take_append lq using nq by (metis add_diff_cancel_left' le_add1 lq take_all)
  show ?thesis
  proof (cases "?t = 0")
    case True
    then show ?thesis using batch tk by (simp add: iso_read_payload_def Let_def)
  next
    case False
    then have "?q < m" using n nq q by (metis add_le_same_cancel1 le_neq_implies_less le_zero_eq)
    then have r: "iso_read_sector st fs (lba + of_nat ?q) = Inr (blk ?q)" "length (blk ?q) = ISO_SECTOR_SIZE"
      using b by (simp_all add: blocks_at_def)
    obtain j where j: "m - ?q = Suc j" using \<open>?q < m\<close> by (metis Suc_diff_Suc)
    have "run_of (\<lambda>k. blk (?q + k)) (m - ?q) = blk ?q @ run_of (\<lambda>k. blk (?q + Suc k)) j"
      unfolding j run_of_Suc by simp
    moreover have "?t \<le> ISO_SECTOR_SIZE" by (simp add: ISO_SECTOR_SIZE_def)
    ultimately have "take ?t (run_of (\<lambda>k. blk (?q + k)) (m - ?q)) = take ?t (blk ?q)" using r(2) by simp
    then show ?thesis using batch tk r(1) False by (simp add: iso_read_payload_def Let_def)
  qed
qed

lemma range_reads:
  assumes b: "blocks_at st fs lba blk m" and d: "drive_index fs < length (g_drives st)"
    and n: "off + cnt \<le> m * ISO_SECTOR_SIZE" "0 < cnt"
  shows "iso_read_range st fs lba off cnt = Inr (take cnt (drop off (run_of blk m)))"
proof -
  let ?q = "off div ISO_SECTOR_SIZE" and ?t = "off mod ISO_SECTOR_SIZE"
  have q: "?q < m" using n by (simp add: ISO_SECTOR_SIZE_def)
  have oq: "off = ?q * ISO_SECTOR_SIZE + ?t" by simp
  let ?blk = "\<lambda>k. blk (?q + k)"
  have split: "run_of blk m = run_of blk ?q @ run_of ?blk (m - ?q)" using run_of_add [of blk ?q "m - ?q"] q by simp
  have "length (run_of blk ?q) = ?q * ISO_SECTOR_SIZE" by (rule blocks_at_length [OF blocks_at_less [OF b]]) (use q in simp)
  then have dr: "drop off (run_of blk m) = drop ?t (run_of ?blk (m - ?q))"
    unfolding split using oq by (metis append_eq_conv_conj drop_drop add.commute)
  have b': "blocks_at st fs (lba + of_nat ?q) ?blk (m - ?q)" using blocks_at_shift [of st fs lba blk ?q "m - ?q"] b q by simp
  have cnt: "?t + cnt \<le> (m - ?q) * ISO_SECTOR_SIZE"
    using n(1) oq unfolding diff_mult_distrib by linarith
  show ?thesis
  proof (cases "?t = 0")
    case True
    then show ?thesis using payload_reads [OF b' d, of cnt] cnt dr by (simp add: iso_read_range_def Let_def)
  next
    case False
    have t: "?t < ISO_SECTOR_SIZE" by (simp add: ISO_SECTOR_SIZE_def)
    have r: "iso_read_sector st fs (lba + of_nat ?q) = Inr (blk ?q)" "length (blk ?q) = ISO_SECTOR_SIZE"
      using b q by (simp_all add: blocks_at_def)
    obtain j where j: "m - ?q = Suc j" using q by (metis Suc_diff_Suc)
    let ?c = "min cnt (ISO_SECTOR_SIZE - ?t)" and ?rest = "run_of (\<lambda>k. ?blk (Suc k)) j"
    have s1: "run_of ?blk (m - ?q) = blk ?q @ ?rest" unfolding j run_of_Suc by simp
    have b1: "blocks_at st fs (lba + of_nat ?q + 1) (\<lambda>k. ?blk (Suc k)) j"
      using blocks_at_shift [of st fs "lba + of_nat ?q" ?blk 1 j] b' j by simp
    have "cnt - ?c \<le> j * ISO_SECTOR_SIZE" using cnt t unfolding j by simp
    from payload_reads [OF b1 d this]
    have p: "iso_read_payload st fs (lba + of_nat ?q + 1) (cnt - ?c) = Inr (take (cnt - ?c) ?rest)" .
    have "take cnt (drop ?t (blk ?q @ ?rest)) = take ?c (drop ?t (blk ?q)) @ take (cnt - ?c) ?rest"
      using r(2) t by (auto simp: min_def)
    then show ?thesis using p r False dr s1 by (simp add: iso_read_range_def Let_def)
  qed
qed
text \<open>The number of blocks a file of \<open>n\<close> bytes takes.\<close>

definition blocks_of :: "nat \<Rightarrow> nat" where "blocks_of n = (n + ISO_SECTOR_SIZE - 1) div ISO_SECTOR_SIZE"

lemma blocks_of_enough: "n \<le> blocks_of n * ISO_SECTOR_SIZE"
  using div_mult_mod_eq [of "n + ISO_SECTOR_SIZE - 1" ISO_SECTOR_SIZE]
    mod_less_divisor [of ISO_SECTOR_SIZE "n + ISO_SECTOR_SIZE - 1"]
  by (simp add: blocks_of_def ISO_SECTOR_SIZE_def)

text \<open>
  A file on an ISO 9660 volume reads as the bytes of its blocks, and a range of it as a slice of them. When
  the path leads to a file whose blocks can be read one by one, \<open>iso_op_read_file\<close> fills the buffer with the
  first bytes of the blocks, as many as the size says, although it reads in batches of up to 255 or 63 blocks; and
  \<open>iso_fs_read_file_range\<close> answers for every offset and length the bytes from that offset on, cut at the
  end of the file.
\<close>

theorem iso_range_is_slice:
  assumes node: "iso_resolve_path st fs path = Some (Some node)" "nd_flags node AND ISO_FLAG_DIRECTORY = 0"
    and fs: "iso_mounted fs" "drive_index fs < length (g_drives st)"
    and blocks: "blocks_at st fs (nd_lba node) blk (blocks_of (unat (nd_size node)))"
    and buf: "unat (nd_size node) \<le> length buf"
  shows "\<exists>bs. length bs = unat (nd_size node) \<and> bs = take (unat (nd_size node)) (run_of blk (blocks_of (unat (nd_size node))))
    \<and> iso_op_read_file fs st path (Some buf) (length buf)
        = Some (0, Some (unat (nd_size node)), Some (bs @ drop (unat (nd_size node)) buf))
    \<and> (\<forall>off len. iso_fs_read_file_range fs st path off len = Some (0, take len (drop off bs), Some (unat (nd_size node))))"
proof -
  let ?n = "unat (nd_size node)" and ?m = "blocks_of (unat (nd_size node))"
  let ?bs = "take ?n (run_of blk ?m)"
  have len: "length ?bs = ?n" using blocks_at_length [OF blocks] blocks_of_enough [of ?n] by simp
  have all: "iso_op_read_file fs st path (Some buf) (length buf) = Some (0, Some ?n, Some (?bs @ drop ?n buf))"
    using node fs buf payload_reads [OF blocks fs(2) blocks_of_enough]
    by (simp add: iso_op_read_file_def Let_def)
  have range: "iso_fs_read_file_range fs st path off cnt = Some (0, take cnt (drop off ?bs), Some ?n)" for off cnt
  proof (cases "off < ?n \<and> 0 < cnt")
    case True
    then have "off + min cnt (?n - off) \<le> ?m * ISO_SECTOR_SIZE" "0 < min cnt (?n - off)"
      using blocks_of_enough [of ?n] by (auto simp: min_def)
    note r = range_reads [OF blocks fs(2) this]
    have "take cnt (drop off ?bs) = take (min cnt (?n - off)) (drop off (run_of blk ?m))"
      by (simp add: drop_take min.commute)
    then show ?thesis using r node True by (simp add: iso_fs_read_file_range_def Let_def)
  next
    case False
    have "iso_fs_read_file_range fs st path off cnt = Some (0, [], Some ?n)"
    proof (cases "off < ?n")
      case True
      let ?k = "off div ISO_SECTOR_SIZE"
      have k: "?k < ?m" using True blocks_of_enough [of ?n] by (simp add: ISO_SECTOR_SIZE_def)
      have "iso_read_payload st fs lba 0 = Inr []" for lba
        by (simp add: iso_read_payload_def iso_read_sectors_batch.simps)
      then have "iso_read_range st fs (nd_lba node) off 0 = Inr []"
        using blocks_atD [OF blocks k] by (simp add: iso_read_range_def Let_def)
      then show ?thesis using True False node by (simp add: iso_fs_read_file_range_def Let_def)
    qed (use node in \<open>simp add: iso_fs_read_file_range_def Let_def\<close>)
    moreover have "take cnt (drop off ?bs) = []" using False len by auto
    ultimately show ?thesis by simp
  qed
  show ?thesis using len all range by blast
qed

section \<open>Records of a directory\<close>

text \<open>The records a scan comes across, and what a callback makes of them.\<close>

function sector_recs :: "u8 list \<Rightarrow> nat \<Rightarrow> u8 list list" where
  "sector_recs sec off =
     (if off < ISO_SECTOR_SIZE \<and> \<not> (unat (sec ! off) = 0 \<or> off + unat (sec ! off) > ISO_SECTOR_SIZE \<or> unat (sec ! off) < 34)
      then drop off sec # sector_recs sec (off + unat (sec ! off)) else [])"
  by pat_completeness auto
termination by (relation "measure (\<lambda>(sec, off). ISO_SECTOR_SIZE - off)") auto

function dir_recs :: "storage \<Rightarrow> iso_fs \<Rightarrow> nat \<Rightarrow> u32 \<Rightarrow> u8 list list option" where
  "dir_recs st fs remaining lba =
     (if remaining = 0 then Some []
      else case iso_read_sector st fs lba of
        Inl _ \<Rightarrow> None
      | Inr sec \<Rightarrow> map_option (\<lambda>rs. sector_recs sec 0 @ rs) (dir_recs st fs (remaining - ISO_SECTOR_SIZE) (lba + 1)))"
  by pat_completeness auto
termination by (relation "measure (\<lambda>(st, fs, r, l). r)") (auto simp: ISO_SECTOR_SIZE_def)

declare sector_recs.simps [simp del] dir_recs.simps [simp del]

fun visit :: "'u on_entry \<Rightarrow> u8 list list \<Rightarrow> 'u \<Rightarrow> (int \<times> 'u) option" where
  "visit f [] u = Some (0, u)"
| "visit f (r # rs) u =
     (case f r u of None \<Rightarrow> None | Some (cb, u) \<Rightarrow> if cb \<noteq> 0 then Some (cb, u) else visit f rs u)"

lemma visit_append: "visit f (xs @ ys) u =
    (case visit f xs u of None \<Rightarrow> None | Some (cb, u) \<Rightarrow> if cb \<noteq> 0 then Some (cb, u) else visit f ys u)"
  by (induction xs arbitrary: u) (auto split: option.split prod.split)

lemma scan_sector_visit: "iso_scan_sector f sec off u = visit f (sector_recs sec off) u"
proof (induction f sec off u rule: iso_scan_sector.induct)
  case (1 f sec off u)
  show ?case
    by (subst iso_scan_sector.simps, subst sector_recs.simps)
      (auto simp: Let_def 1 split: option.split prod.split)
qed

lemma scan_loop_step: "remaining \<noteq> 0 \<Longrightarrow> iso_read_sector st fs lba = Inr sec \<Longrightarrow>
    iso_scan_loop st fs f remaining lba u =
      (case visit f (sector_recs sec 0) u of None \<Rightarrow> None | Some (cb, u) \<Rightarrow>
        if cb \<noteq> 0 then Some (cb, u) else iso_scan_loop st fs f (remaining - ISO_SECTOR_SIZE) (lba + 1) u)"
  by (subst iso_scan_loop.simps) (simp add: scan_sector_visit)

lemma dir_recs_step: "remaining \<noteq> 0 \<Longrightarrow> iso_read_sector st fs lba = Inr sec \<Longrightarrow>
    dir_recs st fs remaining lba =
      map_option (\<lambda>rs. sector_recs sec 0 @ rs) (dir_recs st fs (remaining - ISO_SECTOR_SIZE) (lba + 1))"
  by (subst dir_recs.simps) simp

lemma scan_visit: "dir_recs st fs remaining lba = Some rs \<Longrightarrow> iso_scan_loop st fs f remaining lba u = visit f rs u"
proof (induction st fs remaining lba arbitrary: rs u rule: dir_recs.induct)
  case (1 st fs remaining lba)
  show ?case
  proof (cases "remaining = 0 \<or> (\<exists>e. iso_read_sector st fs lba = Inl e)")
    case True
    with 1(2) show ?thesis by (auto simp: dir_recs.simps [of st fs remaining] iso_scan_loop.simps [of st fs f remaining])
  next
    case False
    then obtain sec where s: "remaining \<noteq> 0" "iso_read_sector st fs lba = Inr sec"
      by (cases "iso_read_sector st fs lba") auto
    with 1(2) obtain rs' where r: "dir_recs st fs (remaining - ISO_SECTOR_SIZE) (lba + 1) = Some rs'"
      "rs = sector_recs sec 0 @ rs'"
      by (auto simp: dir_recs_step)
    note ih = 1(1) [OF s r(1)]
    show ?thesis by (simp only: scan_loop_step [OF s] r(2) visit_append ih)
  qed
qed

lemma scan_all_read:
  "iso_scan_loop st fs f remaining lba u = Some (0, u') \<Longrightarrow> \<exists>rs. dir_recs st fs remaining lba = Some rs"
proof (induction st fs remaining lba arbitrary: u rule: dir_recs.induct)
  case (1 st fs remaining lba)
  show ?case
  proof (cases "remaining = 0 \<or> (\<exists>e. iso_read_sector st fs lba = Inl e)")
    case True
    with 1(2) show ?thesis by (auto simp: dir_recs.simps [of st fs remaining] iso_scan_loop.simps [of st fs f remaining])
  next
    case False
    then obtain sec where s: "remaining \<noteq> 0" "iso_read_sector st fs lba = Inr sec"
      by (cases "iso_read_sector st fs lba") auto
    with 1(2) obtain v where "iso_scan_loop st fs f (remaining - ISO_SECTOR_SIZE) (lba + 1) v = Some (0, u')"
      by (auto simp: scan_loop_step split: option.splits if_splits)
    from 1(1) [OF s this] show ?thesis by (auto simp: dir_recs_step [OF s])
  qed
qed

text \<open>The entries among the records: those with a name other than the two dots.\<close>

definition rec_node :: "u8 list \<Rightarrow> iso_node" where
  "rec_node r = \<lparr>nd_lba = iso_rd32_le r 2, nd_size = iso_rd32_le r 10, nd_flags = r ! 25\<rparr>"

definition rec_entry :: "bool \<Rightarrow> u8 list \<Rightarrow> (string \<times> iso_node) option" where
  "rec_entry j r =
     (case iso_decode_record_name j r of
        Some (Some n) \<Rightarrow> if n = ''.'' \<or> n = ''..'' then None else Some (n, rec_node r)
      | _ \<Rightarrow> None)"

abbreviation decodable :: "bool \<Rightarrow> u8 list list \<Rightarrow> bool" where
  "decodable j rs \<equiv> \<forall>r\<in>set rs. iso_decode_record_name j r \<noteq> None"

definition dirent_of :: "string \<times> iso_node \<Rightarrow> dirent" where
  "dirent_of e = \<lparr>d_name = take (VFS_MAX_NAME - 1) (fst e), d_is_dir = (nd_flags (snd e) AND ISO_FLAG_DIRECTORY \<noteq> 0),
     d_size = unat (nd_size (snd e))\<rparr>"

lemma list_cb_entry: "iso_decode_record_name (use_joliet fs) r \<noteq> None \<Longrightarrow>
    iso_list_cb fs r ctx = Some (0, case rec_entry (use_joliet fs) r of
        None \<Rightarrow> ctx
      | Some e \<Rightarrow> ctx\<lparr>lc_count := lc_count ctx + 1, lc_out := (case lc_out ctx of None \<Rightarrow> None
          | Some out \<Rightarrow> Some (if lc_count ctx < lc_max ctx then out[lc_count ctx := dirent_of e] else out))\<rparr>)"
  by (auto simp: iso_list_cb_def rec_entry_def dirent_of_def rec_node_def Let_def split: option.splits)

lemma list_cb_None: "iso_decode_record_name (use_joliet fs) r = None \<Longrightarrow> iso_list_cb fs r ctx = None"
  by (simp add: iso_list_cb_def)

lemma visit_list_decodable: "visit (iso_list_cb fs) rs ctx = Some p \<Longrightarrow> decodable (use_joliet fs) rs"
proof (induction rs arbitrary: ctx)
  case (Cons r rs)
  then show ?case
    by (cases "iso_decode_record_name (use_joliet fs) r = None") (auto simp: list_cb_None list_cb_entry)
qed simp

lemma visit_list:
  assumes "decodable (use_joliet fs) rs" "lc_out ctx = Some out" "length out = lc_max ctx"
    "lc_count ctx + length (List.map_filter (rec_entry (use_joliet fs)) rs) \<le> lc_max ctx"
  shows "visit (iso_list_cb fs) rs ctx = Some (0, ctx\<lparr>lc_count := lc_count ctx + length (List.map_filter (rec_entry (use_joliet fs)) rs),
    lc_out := Some (take (lc_count ctx) out @ map dirent_of (List.map_filter (rec_entry (use_joliet fs)) rs)
      @ drop (lc_count ctx + length (List.map_filter (rec_entry (use_joliet fs)) rs)) out)\<rparr>)"
  using assms
proof (induction rs arbitrary: ctx out)
  case Nil
  then show ?case by (simp add: map_filter_simps)
next
  case (Cons r rs)
  have d: "iso_decode_record_name (use_joliet fs) r \<noteq> None" "decodable (use_joliet fs) rs" using Cons.prems(1) by simp_all
  show ?case
  proof (cases "rec_entry (use_joliet fs) r")
    case None
    with Cons.IH [OF d(2) Cons.prems(2,3)] Cons.prems(4) show ?thesis
      by (simp add: list_cb_entry [OF d(1)] map_filter_simps)
  next
    case (Some e)
    let ?out = "out[lc_count ctx := dirent_of e]"
    let ?ctx = "ctx\<lparr>lc_count := lc_count ctx + 1, lc_out := Some ?out\<rparr>"
    have lt: "lc_count ctx < length out" using Cons.prems(3,4) Some by (simp add: map_filter_simps)
    have "lc_count ?ctx + length (List.map_filter (rec_entry (use_joliet fs)) rs) \<le> lc_max ?ctx"
      using Cons.prems(4) Some by (simp add: map_filter_simps)
    from Cons.IH [OF d(2) _ _ this, of ?out] have
      v: "visit (iso_list_cb fs) rs ?ctx = Some (0, ?ctx\<lparr>lc_count := lc_count ctx + 1 + length (List.map_filter (rec_entry (use_joliet fs)) rs),
        lc_out := Some (take (lc_count ctx + 1) ?out @ map dirent_of (List.map_filter (rec_entry (use_joliet fs)) rs)
          @ drop (lc_count ctx + 1 + length (List.map_filter (rec_entry (use_joliet fs)) rs)) ?out)\<rparr>)"
      using Cons.prems(3) by simp
    have t: "take (lc_count ctx + 1) ?out = take (lc_count ctx) out @ [dirent_of e]"
      using lt by (simp add: take_Suc_conv_app_nth)
    show ?thesis using v Cons.prems(2,3) lt Some unfolding t
      by (simp add: list_cb_entry [OF d(1)] map_filter_simps)
  qed
qed

lemma visit_find:
  assumes "decodable (use_joliet fs) rs"
  shows "visit (iso_find_cb fs) rs ctx =
    (case find (\<lambda>e. iso_name_eq_ci (fst e) (fc_name ctx)) (List.map_filter (rec_entry (use_joliet fs)) rs) of
       None \<Rightarrow> Some (0, ctx)
     | Some e \<Rightarrow> Some (1, ctx\<lparr>fc_out := snd e, fc_found := True\<rparr>))"
  using assms
proof (induction rs)
  case (Cons r rs)
  then show ?case
    by (auto simp: iso_find_cb_def rec_entry_def rec_node_def map_filter_simps split: option.splits)
qed (simp add: map_filter_simps)
lemma visit_list_count:
  "visit (iso_list_cb fs) rs ctx = Some (0, ctx') \<Longrightarrow>
     lc_count ctx' = lc_count ctx + length (List.map_filter (rec_entry (use_joliet fs)) rs)"
proof (induction rs arbitrary: ctx)
  case (Cons r rs)
  have d: "iso_decode_record_name (use_joliet fs) r \<noteq> None" using visit_list_decodable [OF Cons.prems] by simp
  show ?case
    using Cons.prems Cons.IH
    by (cases "rec_entry (use_joliet fs) r") (fastforce simp: list_cb_entry [OF d] map_filter_simps)+
qed (simp add: map_filter_simps)

lemma plain_loop_short: "plain_loop r n i out = Some out' \<Longrightarrow> length out < VFS_MAX_NAME \<Longrightarrow> length out' < VFS_MAX_NAME"
proof (induction r n i out rule: plain_loop.induct)
  case (1 r n i out)
  show ?case using 1 unfolding plain_loop.simps [of r n i out] by (auto split: if_splits option.splits)
qed

lemma joliet_loop_short: "joliet_loop r n i out = Some out' \<Longrightarrow> length out < VFS_MAX_NAME \<Longrightarrow> length out' < VFS_MAX_NAME"
proof (induction r n i out rule: joliet_loop.induct)
  case (1 r n i out)
  show ?case using 1 unfolding joliet_loop.simps [of r n i out] by (auto split: if_splits option.splits)
qed

lemma decode_short:
  assumes "iso_decode_record_name j r = Some (Some n)"
  shows "length n < VFS_MAX_NAME"
proof -
  have t: "length (takeWhile Q (rev (dropWhile P (rev out)))) < VFS_MAX_NAME" if "length out < VFS_MAX_NAME" for P Q and out :: string
  proof -
    have "length (takeWhile Q (rev (dropWhile P (rev out)))) \<le> length (rev (dropWhile P (rev out)))" by (rule length_takeWhile_le)
    also have "\<dots> \<le> length out" using length_dropWhile_le [of P "rev out"] by simp
    finally show ?thesis using that by simp
  qed
  have 0: "length ([] :: string) < VFS_MAX_NAME" by (simp add: VFS_MAX_NAME_def)
  from assms show ?thesis
    by (auto simp: iso_decode_record_name_def Let_def VFS_MAX_NAME_def split: option.splits if_splits
        dest!: plain_loop_short [OF _ 0] joliet_loop_short [OF _ 0] intro!: t [unfolded VFS_MAX_NAME_def])
qed

text \<open>A name that ends within its record is decoded without a read behind the block.\<close>

lemma plain_loop_inside: "33 + n \<le> length r \<Longrightarrow> plain_loop r n i out \<noteq> None"
proof (induction r n i out rule: plain_loop.induct)
  case (1 r n i out)
  then show ?case unfolding plain_loop.simps [of r n i out] by (auto simp: rec_at_def)
qed

lemma joliet_loop_inside: "33 + n \<le> length r \<Longrightarrow> joliet_loop r n i out \<noteq> None"
proof (induction r n i out rule: joliet_loop.induct)
  case (1 r n i out)
  then show ?case unfolding joliet_loop.simps [of r n i out] by (auto simp: rec_at_def)
qed

lemma decode_inside:
  "34 \<le> length r \<Longrightarrow> 33 + unat (r ! 32) \<le> length r \<Longrightarrow> iso_decode_record_name j r \<noteq> None"
  using plain_loop_inside [of "unat (r ! 32)" r 0 "[]"] joliet_loop_inside [of "unat (r ! 32)" r 0 "[]"]
  by (auto simp: iso_decode_record_name_def rec_at_def Let_def)

lemma entry_name: "rec_entry j r = Some e \<Longrightarrow> d_name (dirent_of e) = fst e"
  by (auto simp: rec_entry_def dirent_of_def split: option.splits if_splits dest: decode_short)

section \<open>Paths\<close>

lemma token_append:
  assumes "tok \<noteq> []" "hd tok \<noteq> CHR ''/''"
  shows "iso_next_token p = None \<Longrightarrow> iso_next_token (p @ CHR ''/'' # tok) = iso_next_token tok"
    "iso_next_token p = Some (t, rest) \<Longrightarrow>
      iso_next_token (p @ CHR ''/'' # tok) = Some (t, if rest = [] then tok else rest @ CHR ''/'' # tok)"
proof -
  let ?sl = "\<lambda>c. c = CHR ''/''" and ?s = "dropWhile (\<lambda>c. c = CHR ''/'') p"
  have tok: "dropWhile ?sl tok = tok" using assms by (cases tok) auto
  show "iso_next_token (p @ CHR ''/'' # tok) = iso_next_token tok" if "iso_next_token p = None"
  proof -
    have "?s = []" using that by (simp add: iso_next_token_def Let_def split: if_splits)
    then have "dropWhile ?sl (p @ CHR ''/'' # tok) = dropWhile ?sl tok"
      unfolding dropWhile_append dropWhile_eq_Nil_conv by simp
    then show ?thesis unfolding iso_next_token_def by simp
  qed
  assume n: "iso_next_token p = Some (t, rest)"
  let ?w = "takeWhile (\<lambda>c. c \<noteq> CHR ''/'') ?s"
  have s: "?s \<noteq> []" using n by (cases "?s = []") (simp_all add: iso_next_token_def)
  have "Some (take (VFS_MAX_NAME - 1) ?w, dropWhile ?sl (drop (length (take (VFS_MAX_NAME - 1) ?w)) ?s)) = Some (t, rest)"
    using n unfolding iso_next_token_def Let_def if_not_P [OF s] .
  then have t: "take (VFS_MAX_NAME - 1) ?w = t" and r: "rest = dropWhile ?sl (drop (length t) ?s)"
    unfolding option.inject prod.inject by blast+
  have d: "dropWhile ?sl (p @ CHR ''/'' # tok) = ?s @ CHR ''/'' # tok"
    using s unfolding dropWhile_append dropWhile_eq_Nil_conv by presburger
  have w: "takeWhile (\<lambda>c. c \<noteq> CHR ''/'') (?s @ CHR ''/'' # tok) = ?w" by (rule takeWhile_tail) simp
  have "length t \<le> length ?w" unfolding t [symmetric] by simp
  also have "\<dots> \<le> length ?s" by (rule length_takeWhile_le)
  finally have e: "drop (length t) (?s @ CHR ''/'' # tok) = drop (length t) ?s @ CHR ''/'' # tok" by simp
  have f: "dropWhile ?sl (drop (length t) ?s @ CHR ''/'' # tok) = (if rest = [] then tok else rest @ CHR ''/'' # tok)"
  proof (cases "\<forall>x\<in>set (drop (length t) ?s). x = CHR ''/''")
    case True
    then have "rest = []" unfolding r dropWhile_eq_Nil_conv .
    then show ?thesis unfolding dropWhile_append if_P [OF True] using assms by (cases tok) simp_all
  next
    case False
    then have ne: "rest \<noteq> []" unfolding r dropWhile_eq_Nil_conv .
    show ?thesis unfolding dropWhile_append if_not_P [OF False] if_not_P [OF ne] by (simp only: r append.assoc)
  qed
  have g: "?s @ CHR ''/'' # tok \<noteq> []" by simp
  show "iso_next_token (p @ CHR ''/'' # tok) = Some (t, if rest = [] then tok else rest @ CHR ''/'' # tok)"
    unfolding iso_next_token_def Let_def d w t if_not_P [OF g] e f ..
qed

lemma resolve_append:
  assumes "tok \<noteq> []" "hd tok \<noteq> CHR ''/''"
  shows "iso_resolve_loop st fs cur (p @ CHR ''/'' # tok) =
    (case iso_resolve_loop st fs cur p of Some (Some node) \<Rightarrow> iso_resolve_loop st fs node tok | r \<Rightarrow> r)"
proof (induction st fs cur p rule: iso_resolve_loop.induct)
  case (1 st fs cur p)
  show ?case
  proof (cases "iso_next_token p")
    case None
    then have "iso_resolve_loop st fs cur (p @ CHR ''/'' # tok) = iso_resolve_loop st fs cur tok"
      using token_append(1) [OF assms None] by (simp add: iso_resolve_loop.simps [of st fs cur])
    with None show ?thesis by (simp add: iso_resolve_loop.simps [of st fs cur p])
  next
    case (Some q)
    obtain t rest where q: "q = (t, rest)" by (cases q)
    note a = token_append(2) [OF assms Some [unfolded q]]
    have e: "iso_resolve_loop st fs node [] = Some (Some node)" for node
      by (simp add: iso_resolve_loop.simps [of st fs node] iso_next_token_def)
    have ih: "iso_resolve_loop st fs node (if rest = [] then tok else rest @ CHR ''/'' # tok) =
        (case iso_resolve_loop st fs node rest of Some (Some nd) \<Rightarrow> iso_resolve_loop st fs nd tok | r \<Rightarrow> r)"
      if "iso_find_in_dir st fs cur t = Some (Some node)" "nd_flags cur AND ISO_FLAG_DIRECTORY \<noteq> 0" for node
    proof (cases "rest = []")
      case False
      then show ?thesis using 1 [OF Some q [symmetric] that(2) that(1) refl] by simp
    qed (simp add: e)
    show ?thesis
      unfolding iso_resolve_loop.simps [of st fs cur p] iso_resolve_loop.simps [of st fs cur "p @ CHR ''/'' # tok"] Some q a
      using ih by (auto split: option.split)
  qed
qed

lemma single_token:
  assumes "tok \<noteq> []" "CHR ''/'' \<notin> set tok" "length tok < VFS_MAX_NAME"
  shows "iso_next_token tok = Some (tok, [])"
proof -
  have d: "dropWhile (\<lambda>c. c = CHR ''/'') tok = tok" using assms(1,2) by (cases tok) auto
  have w: "takeWhile (\<lambda>c. c \<noteq> CHR ''/'') tok = tok"
    by (rule takeWhile_eq_all_conv [THEN iffD2]) (use assms(2) in auto)
  show ?thesis unfolding iso_next_token_def Let_def d w using assms(1,3) by simp
qed

lemma resolve_child:
  assumes p: "iso_resolve_path st fs path = Some (Some dir)" "nd_flags dir AND ISO_FLAG_DIRECTORY \<noteq> 0"
    and tok: "tok \<noteq> []" "CHR ''/'' \<notin> set tok" "length tok < VFS_MAX_NAME"
  shows "iso_resolve_path st fs (path @ CHR ''/'' # tok) = iso_find_in_dir st fs dir tok"
proof -
  have path: "path \<noteq> []" "hd path = CHR ''/''" and r: "iso_resolve_loop st fs (iso_root fs) path = Some (Some dir)"
    using p(1) by (auto simp: iso_resolve_path_def split: if_splits)
  have hd: "hd tok \<noteq> CHR ''/''" using tok(1,2) by (cases tok) auto
  have e: "iso_resolve_loop st fs nd [] = Some (Some nd)" for nd
    by (simp add: iso_resolve_loop.simps [of st fs nd] iso_next_token_def)
  have "iso_resolve_path st fs (path @ CHR ''/'' # tok) = iso_resolve_loop st fs dir tok"
    using path r resolve_append [OF tok(1) hd, of st fs "iso_root fs" path] by (simp add: iso_resolve_path_def)
  also have "\<dots> = iso_find_in_dir st fs dir tok"
    using p(2) by (subst iso_resolve_loop.simps) (auto simp: single_token [OF tok] e split: option.split)
  finally show ?thesis .
qed

text \<open>
  Looking up a name agrees with listing its directory. When \<open>iso_op_list_dir\<close> reports \<open>n\<close> entries and the
  buffer holds them all, then the path of the directory, a slash and a name of at most 63 characters leads
  nowhere if no listed name equals it up to the case of letters; otherwise it leads to the first such entry, with
  the listed size and kind.
\<close>

theorem iso_lookup_matches_listing:
  assumes list: "iso_op_list_dir fs st path (Some buf) (length buf) = Some (0, Some n, Some out)" "n \<le> length buf"
    and tok: "tok \<noteq> []" "CHR ''/'' \<notin> set tok" "length tok < VFS_MAX_NAME"
  shows "(iso_resolve_path st fs (path @ ''/'' @ tok) = Some None \<and> (\<forall>i<n. \<not> iso_name_eq_ci (d_name (out ! i)) tok))
    \<or> (\<exists>i node. i < n \<and> iso_name_eq_ci (d_name (out ! i)) tok \<and> (\<forall>j<i. \<not> iso_name_eq_ci (d_name (out ! j)) tok)
        \<and> iso_resolve_path st fs (path @ ''/'' @ tok) = Some (Some node)
        \<and> d_size (out ! i) = unat (nd_size node) \<and> (d_is_dir (out ! i) \<longleftrightarrow> nd_flags node AND ISO_FLAG_DIRECTORY \<noteq> 0))"
proof -
  let ?c0 = "\<lparr>lc_out = Some buf, lc_max = length buf, lc_count = 0\<rparr>"
  from list(1) obtain dir ctx where p: "iso_resolve_path st fs path = Some (Some dir)" "nd_flags dir AND ISO_FLAG_DIRECTORY \<noteq> 0"
    and scan: "iso_scan_loop st fs (iso_list_cb fs) (unat (nd_size dir)) (nd_lba dir) ?c0 = Some (0, ctx)"
    and ctx: "lc_count ctx = n" "lc_out ctx = Some out"
    by (auto simp: iso_op_list_dir_def iso_scan_dir_def split: if_splits option.splits prod.splits)
  from scan_all_read [OF scan] obtain rs where rs: "dir_recs st fs (unat (nd_size dir)) (nd_lba dir) = Some rs" by blast
  let ?es = "List.map_filter (rec_entry (use_joliet fs)) rs"
  have v: "visit (iso_list_cb fs) rs ?c0 = Some (0, ctx)" using scan by (simp add: scan_visit [OF rs])
  note dec = visit_list_decodable [OF v]
  have n: "n = length ?es" using visit_list_count [OF v] ctx(1) by simp
  have "out = map dirent_of ?es @ drop n buf"
    using visit_list [OF dec, of ?c0 buf] v list(2) ctx(2) n by simp
  then have out: "out ! i = dirent_of (?es ! i)" "d_name (out ! i) = fst (?es ! i)" if "i < n" for i
  proof -
    assume o: "out = map dirent_of ?es @ drop n buf"
    show "out ! i = dirent_of (?es ! i)" using that n o by (simp add: nth_append)
    moreover have "?es ! i \<in> set ?es" using that n by simp
    then have "d_name (dirent_of (?es ! i)) = fst (?es ! i)" by (auto simp: map_filter_def entry_name)
    ultimately show "d_name (out ! i) = fst (?es ! i)" by simp
  qed
  have res: "iso_resolve_path st fs (path @ ''/'' @ tok) =
      (case find (\<lambda>e. iso_name_eq_ci (fst e) tok) ?es of None \<Rightarrow> Some None | Some e \<Rightarrow> Some (Some (snd e)))"
    using resolve_child [OF p tok] p(2)
    by (simp add: iso_find_in_dir_def iso_scan_dir_def scan_visit [OF rs] visit_find [OF dec] split: option.split)
  show ?thesis
  proof (cases "find (\<lambda>e. iso_name_eq_ci (fst e) tok) ?es")
    case None
    then have "\<forall>e\<in>set ?es. \<not> iso_name_eq_ci (fst e) tok" unfolding find_None_iff by blast
    then have "\<not> iso_name_eq_ci (fst (?es ! i)) tok" if "i < n" for i using that n nth_mem by blast
    with res None out show ?thesis by simp
  next
    case (Some e)
    then obtain i where i: "i < n" "iso_name_eq_ci (fst (?es ! i)) tok" "e = ?es ! i" "\<forall>j<i. \<not> iso_name_eq_ci (fst (?es ! j)) tok"
      unfolding find_Some_iff n by blast
    have "d_size (out ! i) = unat (nd_size (snd e))" "d_is_dir (out ! i) \<longleftrightarrow> nd_flags (snd e) AND ISO_FLAG_DIRECTORY \<noteq> 0"
      using out(1) [OF i(1)] i(3) by (simp_all add: dirent_of_def)
    then show ?thesis using res Some i out(2)
      by (intro disjI2 exI [of _ i] exI [of _ "snd e"]) auto
  qed
qed
section \<open>A disc with one file\<close>

definition cd_volume :: "u8 list" where
  "cd_volume = (replicate 2048 0)[0 := 1, 1 := 0x43, 2 := 0x44, 3 := 0x30, 4 := 0x30, 5 := 0x31, 6 := 1, 156 := 34,
     158 := 18, 167 := 8]"

definition cd_dir :: "u8 list" where
  "cd_dir = (replicate 2048 0)[0 := 34, 2 := 19, 10 := 5, 32 := 1, 33 := 0x41]"

definition cd_medium :: medium where
  "cd_medium = [16 \<mapsto> cd_volume, 17 \<mapsto> replicate 2048 0, 18 \<mapsto> cd_dir, 19 \<mapsto> replicate 2048 7]"

definition cd_st :: storage where
  "cd_st = \<lparr>g_drives = [\<lparr>ad_present = True, ad_ahci = False, lba48_supported = False, ad_type = ATA_DRIVE_ATAPI, sectors28 = 0,
     sectors48 = 0, ad_model = ''CD'', ad_medium = cd_medium\<rparr>], g_namespaces = [], g_hosts = [], g_fs_read_bytes = 0,
     g_fs_write_bytes = 0\<rparr>"

definition cd_fs :: iso_fs where
  "cd_fs = \<lparr>iso_mounted = True, is_atapi = True, drive_index = 0, partition_lba = 0, root_lba = 18, root_size = 2048,
     use_joliet = False\<rparr>"

lemma cd_read: "is_atapi fs \<Longrightarrow> drive_index fs = 0 \<Longrightarrow>
    iso_read_sector cd_st fs lba = (case cd_medium (ucast lba) of None \<Rightarrow> Inl (-4) | Some b \<Rightarrow> Inr b)"
  by (auto simp: iso_read_sector_def ata_read_cd_sectors_def cd_st_def Let_def split: option.split)

lemma cd_mount: "iso_fs_mount cd_st 0 0 = (0, cd_fs)"
proof -
  let ?f = "no_iso\<lparr>drive_index := 0, partition_lba := 0, is_atapi := True\<rparr>"
  have b: "iso_read_sector cd_st ?f 16 = Inr cd_volume" "iso_read_sector cd_st ?f 17 = Inr (replicate 2048 0)"
    by (simp_all add: cd_read cd_medium_def)
  have m: "vd_magic cd_volume" "\<not> vd_magic (replicate 2048 0)" by (simp_all add: vd_magic_def cd_volume_def)
  have r: "iso_rd32_le cd_volume 158 = 18" "iso_rd32_le cd_volume 166 = 2048"
    by (simp_all add: iso_rd32_le_def cd_volume_def)
  have v: "cd_volume ! 0 = 1" "cd_volume ! 6 = 1" "cd_volume ! 156 = 34" by (simp_all add: cd_volume_def)
  have g: "scan_vds cd_st ?f (Suc (Suc n)) 0 \<lparr>vs_pvd = None, vs_joliet = None\<rparr> = Some \<lparr>vs_pvd = Some (18, 2048), vs_joliet = None\<rparr>" for n
    by (simp add: ISO_PVD_SECTOR_def b m r v Let_def)
  have "(64 :: nat) = Suc (Suc 62)" by simp
  then have "scan_vds cd_st ?f 64 0 \<lparr>vs_pvd = None, vs_joliet = None\<rparr> = Some \<lparr>vs_pvd = Some (18, 2048), vs_joliet = None\<rparr>"
    using g by presburger
  then show ?thesis by (simp add: iso_fs_mount_def cd_st_def cd_fs_def no_iso_def Let_def)
qed

lemma cd_recs: "dir_recs cd_st cd_fs 2048 18 = Some [cd_dir]"
proof -
  have "iso_read_sector cd_st cd_fs 18 = Inr cd_dir" by (simp add: cd_read cd_medium_def cd_fs_def)
  moreover have "sector_recs cd_dir 34 = []" by (subst sector_recs.simps) (simp add: cd_dir_def)
  then have "sector_recs cd_dir 0 = [cd_dir]" by (subst sector_recs.simps) (simp add: cd_dir_def ISO_SECTOR_SIZE_def)
  ultimately show ?thesis by (subst dir_recs_step) (simp_all add: ISO_SECTOR_SIZE_def dir_recs.simps)
qed

definition cd_node :: iso_node where "cd_node = \<lparr>nd_lba = 19, nd_size = 5, nd_flags = 0\<rparr>"

lemma cd_bytes: "length cd_dir = 2048" "cd_dir ! 32 = 1" "cd_dir ! 33 = 0x41" by (simp_all add: cd_dir_def)

lemma chr_A: "chr8 0x41 = CHR ''A''"
proof -
  have "of_char (CHR ''A'') = (65 :: nat)" by simp
  then have "char_of (65 :: nat) = CHR ''A''" by (metis char_of_char)
  then show ?thesis by simp
qed

lemma cd_entry: "iso_decode_record_name False cd_dir = Some (Some ''A'')" "rec_node cd_dir = cd_node"
proof -
  have 1: "plain_loop cd_dir 1 1 ''A'' = Some ''A''" by (subst plain_loop.simps) simp
  have "rec_at cd_dir 33 = Some 0x41" "(0x41 :: u8) \<noteq> byte (CHR '';'')" by (simp_all add: rec_at_def cd_bytes)
  then have "plain_loop cd_dir 1 0 [] = Some ''A''"
    using 1 chr_A by (subst plain_loop.simps) (simp only: VFS_MAX_NAME_def, simp)
  then show "iso_decode_record_name False cd_dir = Some (Some ''A'')"
    by (simp add: iso_decode_record_name_def rec_at_def cd_bytes char_of_eq_iff eq_commute [of "CHR ''A''"])
  show "rec_node cd_dir = cd_node" by (simp add: rec_node_def cd_node_def iso_rd32_le_def cd_dir_def)
qed

lemma cd_find: "iso_find_in_dir cd_st cd_fs (iso_root cd_fs) ''a'' = Some (Some cd_node)"
proof -
  have e: "rec_entry (use_joliet cd_fs) cd_dir = Some (''A'', cd_node)"
    by (simp add: rec_entry_def cd_entry cd_fs_def)
  have c: "iso_name_eq_ci ''A'' ''a''" by (simp add: iso_name_eq_ci_def tolower_def ctype_defs)
  have d: "decodable (use_joliet cd_fs) [cd_dir]" by (simp add: cd_fs_def cd_entry)
  have "unat (nd_size (iso_root cd_fs)) = 2048" "nd_lba (iso_root cd_fs) = 18"
    "nd_flags (iso_root cd_fs) AND ISO_FLAG_DIRECTORY \<noteq> 0"
    by (simp_all add: iso_root_def cd_fs_def ISO_FLAG_DIRECTORY_def)
  then show ?thesis
    by (simp add: iso_find_in_dir_def iso_scan_dir_def scan_visit [OF cd_recs] visit_find [OF d] e c map_filter_simps del: visit.simps)
qed

lemma cd_path: "iso_resolve_path cd_st cd_fs ''/a'' = Some (Some cd_node)" "iso_resolve_path cd_st cd_fs ''/'' = Some (Some (iso_root cd_fs))"
proof -
  have e: "iso_resolve_loop cd_st cd_fs node [] = Some (Some node)" for node
    by (simp add: iso_resolve_loop.simps iso_next_token_def)
  have r: "nd_flags (iso_root cd_fs) AND ISO_FLAG_DIRECTORY \<noteq> 0" by (simp add: iso_root_def ISO_FLAG_DIRECTORY_def)
  have t: "iso_next_token ''/a'' = Some (''a'', [])" "iso_next_token ''/'' = None"
    by (simp_all add: iso_next_token_def VFS_MAX_NAME_def)
  show "iso_resolve_path cd_st cd_fs ''/a'' = Some (Some cd_node)"
    using r by (simp add: iso_resolve_path_def iso_resolve_loop.simps [of _ _ _ "''/a''"] t cd_find e)
  show "iso_resolve_path cd_st cd_fs ''/'' = Some (Some (iso_root cd_fs))"
    by (simp add: iso_resolve_path_def iso_resolve_loop.simps t)
qed

lemma iso_range_is_slice_witness:
  "iso_op_read_file cd_fs cd_st ''/a'' (Some (replicate 6 0)) 6 = Some (0, Some 5, Some [7, 7, 7, 7, 7, 0])
   \<and> iso_fs_read_file_range cd_fs cd_st ''/a'' 2 10 = Some (0, [7, 7, 7], Some 5)"
proof -
  let ?blk = "\<lambda>_ :: nat. replicate 2048 7 :: u8 list"
  have f: "nd_flags cd_node AND ISO_FLAG_DIRECTORY = 0" "iso_mounted cd_fs" "drive_index cd_fs < length (g_drives cd_st)"
    by (simp_all add: cd_node_def cd_fs_def cd_st_def)
  have u: "unat (nd_size cd_node) = 5" by (simp add: cd_node_def)
  have n: "blocks_of 5 = 1" by (simp add: blocks_of_def ISO_SECTOR_SIZE_def)
  have b: "blocks_at cd_st cd_fs (nd_lba cd_node) ?blk (blocks_of (unat (nd_size cd_node)))"
    unfolding u n by (simp add: cd_node_def blocks_at_def cd_read cd_fs_def cd_medium_def ISO_SECTOR_SIZE_def)
  have t: "take 5 (run_of ?blk 1) = replicate 5 7" by (simp add: run_of_def)
  have l: "unat (nd_size cd_node) \<le> length (replicate 6 0 :: u8 list)" by (simp add: u)
  have v: "replicate 5 7 @ drop 5 (replicate 6 0) = [7, 7, 7, 7, 7, 0 :: u8]" "take 10 (drop 2 (replicate 5 7)) = [7, 7, 7 :: u8]"
    by (simp_all add: eval_nat_numeral)
  from iso_range_is_slice [OF cd_path(1) f b l] obtain bs where
    bs: "bs = replicate 5 7"
      "iso_op_read_file cd_fs cd_st ''/a'' (Some (replicate 6 0)) (length (replicate 6 0 :: u8 list))
        = Some (0, Some 5, Some (bs @ drop 5 (replicate 6 0)))"
      "\<forall>off len. iso_fs_read_file_range cd_fs cd_st ''/a'' off len = Some (0, take len (drop off bs), Some 5)"
    unfolding u n t by blast
  then show ?thesis unfolding bs(1) by (simp only: v length_replicate)
qed

lemma iso_lookup_matches_listing_witness:
  "\<exists>n out. iso_op_list_dir cd_fs cd_st ''/'' (Some [\<lparr>d_name = [], d_is_dir = False, d_size = 0\<rparr>]) 1 = Some (0, Some n, Some out)
     \<and> iso_name_eq_ci (d_name (out ! 0)) ''a'' \<and> d_size (out ! 0) = 5
     \<and> (\<exists>node. iso_resolve_path cd_st cd_fs ''//a'' = Some (Some node) \<and> unat (nd_size node) = 5)"
proof -
  let ?b = "[\<lparr>d_name = [], d_is_dir = False, d_size = 0\<rparr>]"
  have e: "rec_entry (use_joliet cd_fs) cd_dir = Some (''A'', cd_node)"
    by (simp add: rec_entry_def cd_entry cd_fs_def)
  have d: "decodable (use_joliet cd_fs) [cd_dir]" by (simp add: cd_fs_def cd_entry)
  have r: "unat (nd_size (iso_root cd_fs)) = 2048" "nd_lba (iso_root cd_fs) = 18"
    "nd_flags (iso_root cd_fs) AND ISO_FLAG_DIRECTORY \<noteq> 0" "iso_mounted cd_fs"
    by (simp_all add: iso_root_def cd_fs_def ISO_FLAG_DIRECTORY_def)
  have l: "iso_op_list_dir cd_fs cd_st ''/'' (Some ?b) (length ?b) = Some (0, Some 1, Some [dirent_of (''A'', cd_node)])"
    using r visit_list [OF d, of "\<lparr>lc_out = Some ?b, lc_max = length ?b, lc_count = 0\<rparr>" ?b]
    by (simp add: iso_op_list_dir_def iso_scan_dir_def cd_path scan_visit [OF cd_recs] e map_filter_simps del: visit.simps)
  have "''a'' \<noteq> []" "CHR ''/'' \<notin> set ''a''" "length ''a'' < VFS_MAX_NAME" "(1 :: nat) \<le> length ?b"
    by (simp_all add: VFS_MAX_NAME_def)
  from iso_lookup_matches_listing [OF l this(4,1,2,3)] l show ?thesis
    by (auto simp: dirent_of_def cd_node_def VFS_MAX_NAME_def iso_name_eq_ci_def ctype_defs)
qed

end
