(* ===== verification/Fs_Calls.thy ===== *)
theory Fs_Calls
  imports Vfs
begin

text \<open>
  The calls of \<open>fs/fs.c\<close> that the rest of the kernel makes on the virtual file system: paths
  put together from a directory and a name and taken apart again, and the wrappers around the calls of
  \<open>Vfs\<close>. The flag \<open>g_fs_persist_enabled\<close> is only ever set to 0, so the copy of the
  file system in memory to a disk that follows a change is never made.
\<close>

definition g_fs_persist_enabled :: bool where "g_fs_persist_enabled = False"

definition fs_should_persist_path :: "('c, 's) vfs \<Rightarrow> bool \<Rightarrow> (('c, 's) backend_ops \<Rightarrow> bool) \<Rightarrow> string \<Rightarrow> bool" where
  "fs_should_persist_path v busy is_ramfs path =
     (if \<not> g_fs_persist_enabled \<or> busy then False
      else case vfs_get_mount v path of None \<Rightarrow> False | Some (ops, _, _) \<Rightarrow> is_ramfs ops)"

lemma no_persist [simp]: "\<not> fs_should_persist_path v busy is_ramfs path"
  by (simp add: fs_should_persist_path_def g_fs_persist_enabled_def)

section \<open>Paths\<close>

definition fs_build_child_path :: "string \<Rightarrow> string \<Rightarrow> int + string" where
  "fs_build_child_path path name =
     (if char_at path 0 \<noteq> CHR ''/'' then Inl (-1)
      else let p = length path; n = length name in
        if n = 0 then Inl (-2)
        else if p + 1 + n + 1 > VFS_MAX_PATH then Inl (-3)
        else Inr ((if char_at path (p - 1) \<noteq> CHR ''/'' then path @ ''/'' else path) @ name))"

text \<open>\<open>strrchr\<close>: what comes before the last occurrence, and what comes after it.\<close>

fun last_slash :: "string \<Rightarrow> (string \<times> string) option" where
  "last_slash [] = None"
| "last_slash (c # s) =
     (case last_slash s of
        Some (a, b) \<Rightarrow> Some (c # a, b)
      | None \<Rightarrow> if c = CHR ''/'' then Some ([], s) else None)"

definition fs_split_path :: "string \<Rightarrow> nat \<Rightarrow> nat \<Rightarrow> (string \<times> string) option" where
  "fs_split_path full parent_cap name_cap =
     (if char_at full 0 \<noteq> CHR ''/'' then None
      else case last_slash full of
        None \<Rightarrow> None
      | Some (dir, leaf) \<Rightarrow>
          if leaf = [] then None
          else if length leaf + 1 > name_cap then None
          else if dir = [] then (if parent_cap < 2 then None else Some (''/'', leaf))
          else if length dir + 1 > parent_cap then None
          else Some (dir, leaf))"

section \<open>Calls\<close>

definition fs_mkdir_mode :: "('c, 's) vfs \<Rightarrow> cred \<Rightarrow> 's \<Rightarrow> string \<Rightarrow> string \<Rightarrow> u16 \<Rightarrow> int \<times> 's" where
  "fs_mkdir_mode v cr s path name md =
     (case fs_build_child_path path name of Inl _ \<Rightarrow> (-1, s) | Inr full \<Rightarrow> vfs_mkdir v cr s full md)"

definition fs_mkdir :: "('c, 's) vfs \<Rightarrow> cred \<Rightarrow> 's \<Rightarrow> string \<Rightarrow> string \<Rightarrow> int \<times> 's" where
  "fs_mkdir v cr s path name = fs_mkdir_mode v cr s path name 0"

definition fs_create_file_mode ::
  "('c, 's) vfs \<Rightarrow> cred \<Rightarrow> 's \<Rightarrow> string \<Rightarrow> string \<Rightarrow> u16 \<Rightarrow> u8 list \<Rightarrow> int \<times> 's" where
  "fs_create_file_mode v cr s path name md bytes =
     (case fs_build_child_path path name of Inl _ \<Rightarrow> (-1, s) | Inr full \<Rightarrow> vfs_create_file v cr s full md bytes)"

definition fs_create_file :: "('c, 's) vfs \<Rightarrow> cred \<Rightarrow> 's \<Rightarrow> string \<Rightarrow> string \<Rightarrow> u8 list \<Rightarrow> int \<times> 's" where
  "fs_create_file v cr s path name bytes = fs_create_file_mode v cr s path name 0 bytes"

definition fs_write_file :: "('c, 's) vfs \<Rightarrow> cred \<Rightarrow> 's \<Rightarrow> string \<Rightarrow> u8 list \<Rightarrow> int \<times> 's" where
  "fs_write_file v cr s path bytes = vfs_write_file v cr s path bytes"

definition fs_read_file ::
  "('c, 's) vfs \<Rightarrow> cred \<Rightarrow> 's \<Rightarrow> string \<Rightarrow> u8 list option \<Rightarrow> nat \<Rightarrow> int \<times> nat option \<times> u8 list option" where
  "fs_read_file v cr s path out cap = vfs_read_file v cr s path out cap"

definition fs_list_dir ::
  "('c, 's) vfs \<Rightarrow> 's \<Rightarrow> string \<Rightarrow> dirent list option \<Rightarrow> nat \<Rightarrow> (int \<times> nat option \<times> dirent list option) option" where
  "fs_list_dir v s path out max_entries = vfs_list_dir v s path out max_entries"

definition fs_exists :: "('c, 's) vfs \<Rightarrow> 's \<Rightarrow> string \<Rightarrow> bool" where
  "fs_exists v s path \<longleftrightarrow> vfs_exists v s path \<noteq> 0"

definition fs_remove :: "('c, 's) vfs \<Rightarrow> cred \<Rightarrow> 's \<Rightarrow> string \<Rightarrow> int \<times> 's" where
  "fs_remove v cr s path = (if char_at path 0 \<noteq> CHR ''/'' then (-1, s) else vfs_remove v cr s path)"

definition fs_rename :: "('c, 's) vfs \<Rightarrow> cred \<Rightarrow> 's \<Rightarrow> string \<Rightarrow> string \<Rightarrow> int \<times> 's" where
  "fs_rename v cr s old_path new_name =
     (if char_at old_path 0 \<noteq> CHR ''/'' \<or> new_name = [] then (-1, s)
      else case fs_split_path old_path VFS_MAX_PATH VFS_MAX_NAME of
        None \<Rightarrow> (-1, s)
      | Some (dir, _) \<Rightarrow>
          (case fs_build_child_path dir new_name of
             Inl _ \<Rightarrow> (-1, s)
           | Inr new_path \<Rightarrow> vfs_rename v cr s old_path new_path))"

section \<open>Taking apart what was put together\<close>

lemma last_slash_None: "last_slash s = None \<longleftrightarrow> CHR ''/'' \<notin> set s"
  by (induction s) (auto split: option.splits)

lemma last_slash_append: "CHR ''/'' \<notin> set b \<Longrightarrow> last_slash (a @ CHR ''/'' # b) = Some (a, b)"
  by (induction a) (simp_all add: last_slash_None [THEN iffD2])

lemma last_slash_Some: "last_slash s = Some (a, b) \<Longrightarrow> s = a @ CHR ''/'' # b \<and> CHR ''/'' \<notin> set b"
  by (induction s arbitrary: a b) (auto split: option.splits if_splits simp: last_slash_None)

lemma split_build_path:
  assumes "fs_build_child_path path name = Inr full" "CHR ''/'' \<notin> set name" "length name < VFS_MAX_NAME"
    and "path = ''/'' \<or> List.last path \<noteq> CHR ''/''"
  shows "fs_split_path full VFS_MAX_PATH VFS_MAX_NAME = Some (path, name)"
proof -
  have p: "path \<noteq> []" "hd path = CHR ''/''" "name \<noteq> []" "length path + length name + 2 \<le> VFS_MAX_PATH"
    and full: "full = (if char_at path (length path - 1) \<noteq> CHR ''/'' then path @ ''/'' else path) @ name"
    using assms(1) by (auto simp: fs_build_child_path_def char_at_def Let_def hd_conv_nth split: if_splits)
  have l: "char_at path (length path - 1) = List.last path" using p(1) by (simp add: char_at_def last_conv_nth)
  have h: "char_at full 0 = CHR ''/''" using p(1,2) full by (auto simp: char_at_def hd_conv_nth nth_append)
  show ?thesis
  proof (cases "path = ''/''")
    case True
    then have "full = [] @ CHR ''/'' # name" using full by (simp add: char_at_def)
    from last_slash_append [OF assms(2), of "[]"] this h p(3) assms(3) True show ?thesis
      by (simp add: fs_split_path_def VFS_MAX_PATH_def)
  next
    case False
    with assms(4) l full have "full = path @ CHR ''/'' # name" by simp
    with last_slash_append [OF assms(2), of path] h p assms(3) show ?thesis by (simp add: fs_split_path_def)
  qed
qed

end
