(* ===== verification/Partitions.thy ===== *)
theory Partitions
  imports Mkfs Kstring Fs_Calls
begin

text \<open>
  Partition tables and what is mounted from them, in \<open>fs/fs.c\<close>: the master boot record with its
  chain of extended records, the GUID table, \<open>fs_list_partitions\<close>, \<open>fs_set_mbr_partition\<close> and
  \<open>fs_probe_partitions\<close>.

  A sector is a list of bytes and a packed structure is read at its offsets: a record's
  entry \<open>i\<close> is at \<open>446 + 16 * i\<close>. The signatures are compared with the kernel's own \<open>memcmp\<close> of
  \<open>Kstring\<close>, which returns 1 for equal blocks, so that the condition \<open>memcmp(..) == 0\<close> asks for
  different ones. Whether a file system recognises a partition is the parameter \<open>probe\<close>, which for FAT is
  \<open>fat_fs_mount\<close>.
\<close>

section \<open>Boot records\<close>

record mbr_part =
  mp_status :: u8
  mp_type :: u8
  mp_lba_first :: u32
  mp_sectors :: u32

definition mbr_part_of :: "u8 list \<Rightarrow> nat \<Rightarrow> mbr_part" where
  "mbr_part_of sec i =
     (let o' = 446 + 16 * i in
      \<lparr>mp_status = sec ! o', mp_type = sec ! (o' + 4), mp_lba_first = rd32 sec (o' + 8), mp_sectors = rd32 sec (o' + 12)\<rparr>)"

definition mbr_sig_ok :: "u8 list \<Rightarrow> bool" where "mbr_sig_ok sec \<longleftrightarrow> rd16 sec 510 = 0xAA55"

definition fs_is_extended_mbr_type :: "u8 \<Rightarrow> bool" where
  "fs_is_extended_mbr_type ty \<longleftrightarrow> ty = 0x05 \<or> ty = 0x0F \<or> ty = 0x85"

record partition_info =
  pi_index :: u8
  pi_type :: u8
  pi_bootable :: u8
  pi_lba_start :: u64
  pi_sectors :: u64

definition boot_flag :: "mbr_part \<Rightarrow> u8" where "boot_flag p = (if mp_status p = 0x80 then 1 else 0)"

text \<open>A primary entry that is in use, inside the disk and not extended.\<close>

definition primary_part :: "u8 list \<Rightarrow> u64 \<Rightarrow> nat \<Rightarrow> partition_info option" where
  "primary_part sec tot i =
     (let p = mbr_part_of sec i in
      if mp_type p = 0 \<or> mp_lba_first p = 0 \<or> mp_sectors p = 0 then None
      else if ucast (mp_lba_first p) + ucast (mp_sectors p) > tot then None
      else if fs_is_extended_mbr_type (mp_type p) then None
      else Some \<lparr>pi_index = of_nat (i + 1), pi_type = mp_type p, pi_bootable = boot_flag p,
                 pi_lba_start = ucast (mp_lba_first p), pi_sectors = ucast (mp_sectors p)\<rparr>)"

text \<open>The records of an extended partition, at most 32.\<close>

fun ebr_chain :: "storage \<Rightarrow> nat \<Rightarrow> u64 \<Rightarrow> u32 \<Rightarrow> nat \<Rightarrow> u32 \<Rightarrow> (u32 \<times> u8 list) list" where
  "ebr_chain st drive tot ext_base 0 ebr_lba = []"
| "ebr_chain st drive tot ext_base (Suc depth) ebr_lba =
     (case fs_device_read_sectors st drive (ucast ebr_lba) 1 of
        Inl _ \<Rightarrow> []
      | Inr sec \<Rightarrow>
          if \<not> mbr_sig_ok sec then []
          else (ebr_lba, sec) #
            (let p1 = mbr_part_of sec 1; next_ebr = ext_base + mp_lba_first p1 in
             if \<not> fs_is_extended_mbr_type (mp_type p1) \<or> mp_lba_first p1 = 0 then []
             else if next_ebr = ebr_lba \<or> ucast next_ebr \<ge> tot then []
             else ebr_chain st drive tot ext_base depth next_ebr))"

text \<open>
  The first sector of a logical partition: \<open>fs_list_partitions\<close> adds in 32 bits,
  \<open>fs_probe_partitions\<close> in 64.
\<close>

definition list_addr :: "u32 \<Rightarrow> u32 \<Rightarrow> u64" where "list_addr ebr_lba rel = ucast (ebr_lba + rel)"
definition probe_addr :: "u32 \<Rightarrow> u32 \<Rightarrow> u64" where "probe_addr ebr_lba rel = ucast ebr_lba + ucast rel"

fun logical_parts :: "(u32 \<Rightarrow> u32 \<Rightarrow> u64) \<Rightarrow> u64 \<Rightarrow> nat \<Rightarrow> (u32 \<times> u8 list) list \<Rightarrow> partition_info list" where
  "logical_parts addr tot idx [] = []"
| "logical_parts addr tot idx ((ebr_lba, sec) # rest) =
     (let p = mbr_part_of sec 0 in
      if mp_type p = 0 \<or> mp_lba_first p = 0 \<or> mp_sectors p = 0 then logical_parts addr tot idx rest
      else let lba = addr ebr_lba (mp_lba_first p) in
        (if lba + ucast (mp_sectors p) \<le> tot
         then [\<lparr>pi_index = (if idx < 250 then 5 + of_nat idx else 255), pi_type = mp_type p, pi_bootable = boot_flag p,
                pi_lba_start = lba, pi_sectors = ucast (mp_sectors p)\<rparr>]
         else []) @ logical_parts addr tot (idx + 1) rest)"

definition extended_parts :: "(u32 \<Rightarrow> u32 \<Rightarrow> u64) \<Rightarrow> storage \<Rightarrow> nat \<Rightarrow> u64 \<Rightarrow> u8 list \<Rightarrow> nat \<Rightarrow> partition_info list" where
  "extended_parts addr st drive tot sec i =
     (let p = mbr_part_of sec i in
      if \<not> fs_is_extended_mbr_type (mp_type p) \<or> mp_lba_first p = 0 then []
      else logical_parts addr tot 0 (ebr_chain st drive tot (mp_lba_first p) 32 (mp_lba_first p)))"

definition mbr_parts :: "(u32 \<Rightarrow> u32 \<Rightarrow> u64) \<Rightarrow> storage \<Rightarrow> nat \<Rightarrow> u64 \<Rightarrow> u8 list \<Rightarrow> partition_info list" where
  "mbr_parts addr st drive tot sec =
     List.map_filter (primary_part sec tot) [0..<4] @ concat (map (extended_parts addr st drive tot sec) [0..<4])"

section \<open>The GUID table\<close>

definition fs_guid_is_zero :: "u8 list \<Rightarrow> bool" where
  "fs_guid_is_zero guid \<longleftrightarrow> fold (\<lambda>i acc. acc OR guid ! i) [0..<16] 0 = 0"

definition fs_rd64_le :: "u8 list \<Rightarrow> nat \<Rightarrow> u64" where
  "fs_rd64_le p i = ucast (p ! i) OR push_bit 8 (ucast (p ! (i + 1))) OR push_bit 16 (ucast (p ! (i + 2)))
     OR push_bit 24 (ucast (p ! (i + 3))) OR push_bit 32 (ucast (p ! (i + 4))) OR push_bit 40 (ucast (p ! (i + 5)))
     OR push_bit 48 (ucast (p ! (i + 6))) OR push_bit 56 (ucast (p ! (i + 7)))"

definition guid_efi_system :: "u8 list" where
  "guid_efi_system = [0x28, 0x73, 0x2A, 0xC1, 0x1F, 0xF8, 0xD2, 0x11, 0xBA, 0x4B, 0x00, 0xA0, 0xC9, 0x3E, 0xC9, 0x3B]"
definition guid_ms_basic :: "u8 list" where
  "guid_ms_basic = [0xA2, 0xA0, 0xD0, 0xEB, 0xE5, 0xB9, 0x33, 0x44, 0x87, 0xC0, 0x68, 0xB6, 0xB7, 0x26, 0x99, 0xC7]"
definition guid_linux_fs :: "u8 list" where
  "guid_linux_fs = [0xAF, 0x3D, 0xC6, 0x0F, 0x83, 0x84, 0x72, 0x47, 0x8E, 0x79, 0x3D, 0x69, 0xD8, 0x47, 0x7D, 0xE4]"

text \<open>The C test \<open>memcmp(a, b, n) == 0\<close> with the kernel's \<open>memcmp\<close>.\<close>

definition memcmp_is_0 :: "u8 list \<Rightarrow> u8 list \<Rightarrow> nat \<Rightarrow> bool" where
  "memcmp_is_0 a b n \<longleftrightarrow> memcmp a b n = Some False"

definition fs_gpt_type_to_mbr_compat :: "u8 list \<Rightarrow> u8" where
  "fs_gpt_type_to_mbr_compat guid =
     (if memcmp_is_0 guid guid_efi_system 16 then 0xEF
      else if memcmp_is_0 guid guid_ms_basic 16 then 0x0C
      else if memcmp_is_0 guid guid_linux_fs 16 then 0x83 else 0)"

record gpt_header =
  gh_entry_lba :: u64
  gh_entries :: u32
  gh_entry_size :: u32

definition gpt_header_of :: "u8 list \<Rightarrow> gpt_header" where
  "gpt_header_of sec = \<lparr>gh_entry_lba = fs_rd64_le sec 72, gh_entries = rd32 sec 80, gh_entry_size = rd32 sec 84\<rparr>"

definition gpt_header_ok :: "u8 list \<Rightarrow> bool" where
  "gpt_header_ok sec \<longleftrightarrow>
     memcmp_is_0 sec (map byte ''EFI PART'') 8 \<and> rd32 sec 12 \<ge> 92 \<and> rd32 sec 12 \<le> of_nat ATA_SECTOR_SIZE
     \<and> gh_entry_size (gpt_header_of sec) \<ge> 128 \<and> gh_entry_size (gpt_header_of sec) \<le> 512
     \<and> gh_entries (gpt_header_of sec) > 0 \<and> gh_entry_lba (gpt_header_of sec) \<noteq> 0"

definition fs_read_gpt_entry :: "storage \<Rightarrow> nat \<Rightarrow> gpt_header \<Rightarrow> nat \<Rightarrow> u8 list option" where
  "fs_read_gpt_entry st drive hdr index =
     (let entry_size = ucast (gh_entry_size hdr) :: u64;
          off = of_nat index * entry_size;
          lba = gh_entry_lba hdr + off div of_nat ATA_SECTOR_SIZE;
          sec_off = unat (off mod of_nat ATA_SECTOR_SIZE);
          size = unat entry_size
      in if size = 0 \<or> size > 512 then None
         else case fs_device_read_sectors st drive lba 1 of
           Inl _ \<Rightarrow> None
         | Inr sec0 \<Rightarrow>
             if sec_off + size \<le> ATA_SECTOR_SIZE
             then Some (take size (drop sec_off sec0) @ replicate (512 - size) 0)
             else (case fs_device_read_sectors st drive (lba + 1) 1 of
                     Inl _ \<Rightarrow> None
                   | Inr sec1 \<Rightarrow>
                       let n = ATA_SECTOR_SIZE - sec_off in
                       Some (drop sec_off sec0 @ take (size - n) sec1 @ replicate (512 - size) 0)))"

fun gpt_parts :: "storage \<Rightarrow> nat \<Rightarrow> gpt_header \<Rightarrow> u64 \<Rightarrow> nat list \<Rightarrow> partition_info list" where
  "gpt_parts st drive hdr tot [] = []"
| "gpt_parts st drive hdr tot (i # is) =
     (case fs_read_gpt_entry st drive hdr i of
        None \<Rightarrow> []
      | Some gent \<Rightarrow>
          if fs_guid_is_zero gent then gpt_parts st drive hdr tot is
          else let first_lba = fs_rd64_le gent 32; last_lba = fs_rd64_le gent 40; secs = last_lba - first_lba + 1 in
            if first_lba = 0 \<or> last_lba < first_lba then gpt_parts st drive hdr tot is
            else if first_lba + secs > tot then gpt_parts st drive hdr tot is
            else \<lparr>pi_index = (if i < 250 then of_nat (i + 1) else 255), pi_type = fs_gpt_type_to_mbr_compat gent,
                  pi_bootable = 0, pi_lba_start = first_lba, pi_sectors = secs\<rparr> # gpt_parts st drive hdr tot is)"

definition gpt_all_parts :: "storage \<Rightarrow> nat \<Rightarrow> u64 \<Rightarrow> u8 list \<Rightarrow> partition_info list" where
  "gpt_all_parts st drive tot gpt_sec =
     (let hdr = gpt_header_of gpt_sec in gpt_parts st drive hdr tot [0..<min (unat (gh_entries hdr)) 256])"

text \<open>Sector 1, when it can be read and passes for a header.\<close>

definition gpt_sector :: "storage \<Rightarrow> nat \<Rightarrow> u8 list option" where
  "gpt_sector st drive =
     (case fs_device_read_sectors st drive 1 1 of
        Inl _ \<Rightarrow> None
      | Inr sec \<Rightarrow> if gpt_header_ok sec then Some sec else None)"

section \<open>Listing and changing\<close>

definition list_parts :: "storage \<Rightarrow> nat \<Rightarrow> partition_info list" where
  "list_parts st drive =
     (case fs_get_block_device st drive of
        None \<Rightarrow> []
      | Some d \<Rightarrow>
          if bd_is_atapi d then []
          else case fs_device_read_sectors st drive 0 1 of
            Inl _ \<Rightarrow> []
          | Inr sec \<Rightarrow>
             (case fs_drive_total_sectors st drive of
                None \<Rightarrow> []
              | Some tot \<Rightarrow>
                 (case gpt_sector st drive of
                    Some gpt_sec \<Rightarrow> gpt_all_parts st drive tot gpt_sec
                  | None \<Rightarrow> if mbr_sig_ok sec then mbr_parts list_addr st drive tot sec else [])))"

text \<open>The count, and the caller's array, which is filled as far as it goes.\<close>

definition fs_list_partitions ::
  "storage \<Rightarrow> nat \<Rightarrow> partition_info list option \<Rightarrow> nat \<Rightarrow> nat \<times> partition_info list option" where
  "fs_list_partitions st drive out max_entries =
     (let ps = list_parts st drive; n = min (length ps) max_entries in
      (length ps, map_option (\<lambda>buf. take n ps @ drop n buf) out))"

definition set_mbr_entry :: "u8 list \<Rightarrow> nat \<Rightarrow> u32 \<Rightarrow> u32 \<Rightarrow> u8 \<Rightarrow> bool \<Rightarrow> u8 list" where
  "set_mbr_entry sec i lba_start sectors ty bootable =
     (let o' = 446 + 16 * i;
          sec = sec[o' := (if ty \<noteq> 0 \<and> bootable then 0x80 else 0), o' + 1 := 0, o' + 2 := 0, o' + 3 := 0, o' + 4 := ty,
                    o' + 5 := 0, o' + 6 := 0, o' + 7 := 0];
          sec = fs_wr32 sec (o' + 8) (if ty = 0 then 0 else lba_start)
      in fs_wr32 sec (o' + 12) (if ty = 0 then 0 else sectors))"

definition fs_set_mbr_partition ::
  "storage \<Rightarrow> nat \<Rightarrow> nat \<Rightarrow> u32 \<Rightarrow> u32 \<Rightarrow> u8 \<Rightarrow> bool \<Rightarrow> int \<times> storage" where
  "fs_set_mbr_partition st drive part_index lba_start sectors ty bootable =
     (if part_index < 1 \<or> part_index > 4 then (-1, st)
      else case fs_drive_total_sectors st drive of
        None \<Rightarrow> (-1, st)
      | Some tot \<Rightarrow>
          if ucast lba_start > tot \<or> ucast sectors > tot \<or> ucast lba_start + ucast sectors > tot then (-1, st)
          else if (ty = 0 \<and> sectors \<noteq> 0) \<or> (ty \<noteq> 0 \<and> sectors = 0) then (-1, st)
          else case fs_get_block_device st drive of
            None \<Rightarrow> (-1, st)
          | Some d \<Rightarrow>
              if bd_is_atapi d then (-1, st)
              else (case fs_device_read_sectors st drive 0 1 of
                      Inl _ \<Rightarrow> (-1, st)
                    | Inr sec \<Rightarrow>
                        let sec = (if \<not> mbr_sig_ok sec then (replicate ATA_SECTOR_SIZE 0)[510 := 0x55, 511 := 0xAA] else sec)
                        in fs_device_write_sectors st drive 0 1
                             (set_mbr_entry sec (part_index - 1) lba_start sectors ty bootable)))"

section \<open>Mounting\<close>

datatype fs_kind = FS_KIND_FAT | FS_KIND_EXT2 | FS_KIND_EXT4 | FS_KIND_ISO

record mounted_part =
  mt_drive :: nat
  mt_lba :: u64
  mt_kind :: fs_kind

text \<open>
  The static variables: the table of mounted partitions, the number of mounts of each kind, the generation
  and the score, and the mount table of the virtual file system. A context is the kind and the index in the
  array of its mounts.
\<close>

record 's fs_mounts =
  mounted_parts :: "mounted_part list"
  mount_count :: "fs_kind \<Rightarrow> nat"
  mount_generation :: u32
  root_score :: int
  mnt_vfs :: "(fs_kind \<times> nat, 's) vfs"

text \<open>\<open>probe k st drive lba\<close> is the status of mounting a file system of kind \<open>k\<close>.\<close>

record 's fs_drivers =
  probe :: "fs_kind \<Rightarrow> storage \<Rightarrow> nat \<Rightarrow> u64 \<Rightarrow> int"
  ops_of :: "fs_kind \<Rightarrow> (fs_kind \<times> nat, 's) backend_ops"

function dec_digits :: "nat \<Rightarrow> string" where
  "dec_digits n = (if n = 0 then [] else char_of (48 + n mod 10) # dec_digits (n div 10))"
  by pat_completeness auto
termination by (relation "measure id") auto

declare dec_digits.simps [simp del]

text \<open>Appending a number to the string \<open>out\<close> in a buffer of \<open>cap\<close> bytes.\<close>

definition fs_append_u32 :: "nat \<Rightarrow> string \<Rightarrow> u32 \<Rightarrow> string" where
  "fs_append_u32 cap out value =
     take (max (length out) (cap - 1)) (out @ (if value = 0 then ''0'' else rev (dec_digits (unat value))))"

definition kind_prefix :: "fs_kind \<Rightarrow> string" where
  "kind_prefix k = (case k of FS_KIND_FAT \<Rightarrow> ''fat'' | FS_KIND_EXT2 \<Rightarrow> ''ext2'' | FS_KIND_EXT4 \<Rightarrow> ''ext4'' | FS_KIND_ISO \<Rightarrow> ''iso'')"

definition fs_build_block_mount :: "nat \<Rightarrow> u8 \<Rightarrow> fs_kind \<Rightarrow> string" where
  "fs_build_block_mount drive part_no kind =
     (let out = take 31 (''/'' @ kind_prefix kind);
          out = fs_append_u32 32 out (of_nat drive);
          out = (if part_no > 0
                 then fs_append_u32 32 (if length out < 31 then out @ ''p'' else out) (ucast part_no) else out)
      in take 31 out)"

definition fs_root_score_from_kind :: "fs_kind \<Rightarrow> int" where
  "fs_root_score_from_kind k =
     (case k of FS_KIND_EXT4 \<Rightarrow> 3 | FS_KIND_EXT2 \<Rightarrow> 2 | FS_KIND_FAT \<Rightarrow> 1 | FS_KIND_ISO \<Rightarrow> 0)"

definition fs_partition_already_mounted :: "'s fs_mounts \<Rightarrow> nat \<Rightarrow> u64 \<Rightarrow> bool" where
  "fs_partition_already_mounted g drive lba \<longleftrightarrow>
     (\<exists>p\<in>set (mounted_parts g). mt_drive p = drive \<and> mt_lba p = lba)"

definition fs_register_mounted_partition :: "'s fs_mounts \<Rightarrow> nat \<Rightarrow> u64 \<Rightarrow> fs_kind \<Rightarrow> 's fs_mounts" where
  "fs_register_mounted_partition g drive lba kind =
     (if length (mounted_parts g) \<ge> 32 then g
      else g\<lparr>mounted_parts := mounted_parts g @ [\<lparr>mt_drive = drive, mt_lba = lba, mt_kind = kind\<rparr>]\<rparr>)"

definition fs_mount_bindings ::
  "'s fs_drivers \<Rightarrow> storage \<Rightarrow> 's fs_mounts \<Rightarrow> nat \<Rightarrow> fs_kind \<Rightarrow> string \<Rightarrow> int \<times> 's fs_mounts" where
  "fs_mount_bindings D st g drive kind mount_path =
     (case fs_get_block_device st drive of
        None \<Rightarrow> (-1, g)
      | Some _ \<Rightarrow>
         (case vfs_mount_fs (mnt_vfs g) mount_path (Some (ops_of D kind)) (kind, mount_count g kind) of
            (rc, v) \<Rightarrow>
              if rc \<noteq> 0 then (-1, g\<lparr>mnt_vfs := v\<rparr>)
              else let g = g\<lparr>mnt_vfs := v\<rparr>;
                       score = fs_root_score_from_kind kind;
                       g = (if kind \<noteq> FS_KIND_ISO \<and> score > root_score g then g\<lparr>root_score := score\<rparr> else g)
                   in (0, g\<lparr>mount_generation := mount_generation g + 1\<rparr>)))"

text \<open>
  The four functions \<open>fs_mount_fat\<close>, \<open>fs_mount_ext2\<close>, \<open>fs_mount_ext4\<close> and \<open>fs_mount_iso\<close> differ in the
  kind, and the last one in the name of the mount; the status of a file system that is not
  recognised only \<open>ext4\<close> passes on.
\<close>

definition mount_name :: "'s fs_mounts \<Rightarrow> nat \<Rightarrow> u8 \<Rightarrow> fs_kind \<Rightarrow> string" where
  "mount_name g drive part_no kind =
     (if kind = FS_KIND_ISO then take 31 (fs_append_u32 32 ''/iso'' (of_nat (mount_count g FS_KIND_ISO)))
      else fs_build_block_mount drive part_no kind)"

definition fs_mount_kind ::
  "'s fs_drivers \<Rightarrow> storage \<Rightarrow> 's fs_mounts \<Rightarrow> nat \<Rightarrow> u64 \<Rightarrow> u8 \<Rightarrow> fs_kind \<Rightarrow> int \<times> 's fs_mounts" where
  "fs_mount_kind D st g drive lba part_no kind =
     (if fs_partition_already_mounted g drive lba then (-2, g)
      else if mount_count g kind \<ge> 8 then (-1, g)
      else let rc = probe D kind st drive lba in
        if rc \<noteq> 0 then (if kind = FS_KIND_EXT4 then rc else -1, g)
        else case fs_mount_bindings D st g drive kind (mount_name g drive part_no kind) of
          (rc, g) \<Rightarrow>
            if rc \<noteq> 0 then (-1, g)
            else let g = fs_register_mounted_partition g drive lba kind
                 in (0, g\<lparr>mount_count := (mount_count g)(kind := mount_count g kind + 1)\<rparr>))"

text \<open>The kinds are tried in turn until one of them mounts.\<close>

fun try_kinds ::
  "'s fs_drivers \<Rightarrow> storage \<Rightarrow> nat \<Rightarrow> u64 \<Rightarrow> u8 \<Rightarrow> fs_kind list \<Rightarrow> 's fs_mounts \<Rightarrow> bool \<times> 's fs_mounts" where
  "try_kinds D st drive lba part_no [] g = (False, g)"
| "try_kinds D st drive lba part_no (k # ks) g =
     (case fs_mount_kind D st g drive lba part_no k of
        (rc, g) \<Rightarrow> if rc = 0 then (True, g) else try_kinds D st drive lba part_no ks g)"

definition kinds_for_type :: "u8 \<Rightarrow> fs_kind list" where
  "kinds_for_type ty =
     (if ty \<in> {0x01, 0x04, 0x06, 0x0E, 0x0B, 0x0C, 0xEF} then [FS_KIND_FAT]
      else if ty = 0x83 then [FS_KIND_EXT4, FS_KIND_EXT2]
      else if ty = 0x96 then [FS_KIND_ISO]
      else [FS_KIND_FAT, FS_KIND_EXT4, FS_KIND_EXT2, FS_KIND_ISO])"

definition fs_try_mount_partition ::
  "'s fs_drivers \<Rightarrow> storage \<Rightarrow> nat \<Rightarrow> partition_info \<Rightarrow> 's fs_mounts \<Rightarrow> bool \<times> 's fs_mounts" where
  "fs_try_mount_partition D st drive p g =
     (if pi_sectors p = 0 then (False, g)
      else if fs_partition_already_mounted g drive (pi_lba_start p) then (True, g)
      else try_kinds D st drive (pi_lba_start p) (pi_index p) (kinds_for_type (pi_type p)) g)"

fun try_parts ::
  "'s fs_drivers \<Rightarrow> storage \<Rightarrow> nat \<Rightarrow> partition_info list \<Rightarrow> bool \<Rightarrow> 's fs_mounts \<Rightarrow> bool \<times> 's fs_mounts" where
  "try_parts D st drive [] any g = (any, g)"
| "try_parts D st drive (p # ps) any g =
     (case fs_try_mount_partition D st drive p g of (ok, g) \<Rightarrow> try_parts D st drive ps (any \<or> ok) g)"

definition fs_probe_partitions :: "'s fs_drivers \<Rightarrow> storage \<Rightarrow> nat \<Rightarrow> 's fs_mounts \<Rightarrow> 's fs_mounts" where
  "fs_probe_partitions D st drive g =
     (case fs_get_block_device st drive of
        None \<Rightarrow> g
      | Some d \<Rightarrow>
          if bd_is_atapi d then snd (fs_mount_kind D st g drive 0 0 FS_KIND_ISO)
          else case fs_device_read_sectors st drive 0 1 of
            Inl _ \<Rightarrow> g
          | Inr sec \<Rightarrow>
             (case fs_drive_total_sectors st drive of
                None \<Rightarrow> g
              | Some tot \<Rightarrow>
                 (case gpt_sector st drive of
                    Some gpt_sec \<Rightarrow> snd (try_parts D st drive (gpt_all_parts st drive tot gpt_sec) False g)
                  | None \<Rightarrow>
                      (case (if mbr_sig_ok sec then try_parts D st drive (mbr_parts probe_addr st drive tot sec) False g
                             else (False, g)) of
                         (any, g) \<Rightarrow>
                           if any then g
                           else snd (try_kinds D st drive 0 0 [FS_KIND_FAT, FS_KIND_EXT4, FS_KIND_EXT2, FS_KIND_ISO] g)))))"

text \<open>\<open>fs_init\<close> and \<open>fs_rescan_storage\<close> probe every drive in turn.\<close>

definition probe_all :: "'s fs_drivers \<Rightarrow> storage \<Rightarrow> 's fs_mounts \<Rightarrow> 's fs_mounts" where
  "probe_all D st g = fold (fs_probe_partitions D st) [0..<fs_block_device_count st] g"

end
