(* ===== verification/Partitions_Props.thy ===== *)
theory Partitions_Props
  imports Partitions Mkfs_Props
begin

text \<open>
  Partitions: what is listed lies inside the disk, what is written is listed, a table with the
  signature of a GUID table is never read as one, and no partition is mounted twice.
\<close>

section \<open>Bytes of an entry\<close>

lemma fs_wr32_wr32: "fs_wr32 = wr32" by (intro ext) (simp add: fs_wr32_def wr32_def)

lemma length_wr32 [simp]: "length (fs_wr32 p i v) = length p" by (simp add: fs_wr32_def)

lemma rd32_wr32: "i + 3 < length p \<Longrightarrow> rd32 (fs_wr32 p i v) i = v"
  by (simp add: fs_wr32_wr32 wr32_bytes rd32_join nth_list_update join_split32 [simplified])

lemma rd32_cong: "(\<And>k. i \<le> k \<Longrightarrow> k < i + 4 \<Longrightarrow> p ! k = q ! k) \<Longrightarrow> rd32 p i = rd32 q i"
  by (simp add: rd32_def)

lemma wr32_nth: "k < i \<or> i + 3 < k \<Longrightarrow> fs_wr32 p i v ! k = p ! k"
  by (auto simp: fs_wr32_def)

lemma length_set_mbr [simp]: "length (set_mbr_entry sec i l s ty b) = length sec"
  by (simp add: set_mbr_entry_def Let_def)

lemma set_mbr_nth: "k < 446 + 16 * i \<or> 446 + 16 * i + 15 < k \<Longrightarrow> set_mbr_entry sec i l s ty b ! k = sec ! k"
  by (auto simp: set_mbr_entry_def Let_def wr32_nth)

lemma set_mbr_other:
  assumes "j \<noteq> i"
  shows "mbr_part_of (set_mbr_entry sec i l s ty b) j = mbr_part_of sec j"
proof -
  have k: "set_mbr_entry sec i l s ty b ! k = sec ! k" if "446 + 16 * j \<le> k" "k \<le> 446 + 16 * j + 15" for k
    by (rule set_mbr_nth) (use assms that in linarith)
  show ?thesis by (simp add: mbr_part_of_def Let_def k rd32_def)
qed

lemma set_mbr_same:
  assumes "length sec = 512" "i < 4" "ty \<noteq> 0"
  shows "mbr_part_of (set_mbr_entry sec i l s ty b) i =
    \<lparr>mp_status = (if b then 0x80 else 0), mp_type = ty, mp_lba_first = l, mp_sectors = s\<rparr>"
proof -
  define p where "p = sec[446 + 16 * i := (if b then 0x80 else 0 :: u8), 446 + 16 * i + 1 := 0, 446 + 16 * i + 2 := 0,
    446 + 16 * i + 3 := 0, 446 + 16 * i + 4 := ty, 446 + 16 * i + 5 := 0, 446 + 16 * i + 6 := 0, 446 + 16 * i + 7 := 0]"
  have e: "set_mbr_entry sec i l s ty b = fs_wr32 (fs_wr32 p (446 + 16 * i + 8) l) (446 + 16 * i + 12) s"
    using assms(3) by (simp add: set_mbr_entry_def p_def Let_def)
  have len: "446 + 16 * i + 15 < length p" using assms by (simp add: p_def)
  have b: "set_mbr_entry sec i l s ty b ! (446 + 16 * i) = (if b then 0x80 else 0)"
    "set_mbr_entry sec i l s ty b ! (446 + 16 * i + 4) = ty"
    unfolding e using assms(1,2) by (simp_all add: wr32_nth p_def nth_list_update)
  have "rd32 (set_mbr_entry sec i l s ty b) (446 + 16 * i + 12) = s" unfolding e by (rule rd32_wr32) (use len in simp)
  moreover have "rd32 (set_mbr_entry sec i l s ty b) (446 + 16 * i + 8) = rd32 (fs_wr32 p (446 + 16 * i + 8) l) (446 + 16 * i + 8)"
    unfolding e by (rule rd32_cong) (simp add: wr32_nth)
  then have "rd32 (set_mbr_entry sec i l s ty b) (446 + 16 * i + 8) = l" using rd32_wr32 [of "446 + 16 * i + 8" p l] len by simp
  ultimately show ?thesis using b by (simp add: mbr_part_of_def Let_def)
qed

lemma set_mbr_sig: "i < 4 \<Longrightarrow> mbr_sig_ok (set_mbr_entry sec i l s ty b) = mbr_sig_ok sec"
  by (simp add: mbr_sig_ok_def rd16_def set_mbr_nth)

section \<open>Partitions lie inside the disk\<close>

definition part_inside :: "nat \<Rightarrow> partition_info \<Rightarrow> bool" where
  "part_inside tot p \<longleftrightarrow> 0 < unat (pi_sectors p) \<and> unat (pi_lba_start p) + unat (pi_sectors p) \<le> tot"

lemma ucast_sum:
  fixes a b :: u32 and t :: u64
  shows "unat (ucast a + ucast b :: u64) = unat a + unat b"
proof -
  have "unat a < 2 ^ 32" "unat b < 2 ^ 32" using unsigned_less [of a, where 'a = nat] unsigned_less [of b, where 'a = nat] by simp_all
  then show ?thesis by (simp add: unat_word_ariths(1) unat_ucast_widen)
qed

lemma primary_inside: "primary_part sec tot i = Some p \<Longrightarrow> part_inside (unat tot) p"
  using ucast_sum [of "mp_lba_first (mbr_part_of sec i)" "mp_sectors (mbr_part_of sec i)"]
  by (auto simp: primary_part_def part_inside_def Let_def unat_ucast_widen unat_eq_0 unat_gt_0 word_less_nat_alt split: if_splits)

lemma add_small:
  fixes a b :: u64
  assumes "a + b \<le> t" "unat a + unat b < 2 ^ 64"
  shows "unat a + unat b \<le> unat t"
  using assms by (simp add: word_le_nat_alt unat_word_ariths(1))

lemma logical_inside:
  assumes "\<And>e r. unat (addr e r) + 2 ^ 32 \<le> 2 ^ 64" "p \<in> set (logical_parts addr tot idx chain)"
  shows "part_inside (unat tot) p"
  using assms(2)
proof (induction chain arbitrary: idx)
  case (Cons x chain)
  obtain e sec where x: "x = (e, sec)" by (cases x)
  let ?p = "mbr_part_of sec 0"
  have s: "unat (ucast (mp_sectors ?p) :: u64) < 2 ^ 32" "unat (ucast (mp_sectors ?p) :: u64) = unat (mp_sectors ?p)"
    using unsigned_less [of "mp_sectors ?p", where 'a = nat] by (simp_all add: unat_ucast_widen)
  have a: "unat (addr e (mp_lba_first ?p)) + unat (ucast (mp_sectors ?p) :: u64) < 2 ^ 64"
    using assms(1) [of e "mp_lba_first ?p"] s(1) by linarith
  from Cons show ?case
    using add_small [OF _ a, of tot] s(2) by (auto simp: x Let_def part_inside_def unat_gt_0 unat_eq_0 split: if_splits)
qed simp

lemma addr_bounds: "unat (list_addr e r) + 2 ^ 32 \<le> 2 ^ 64" "unat (probe_addr e r) + 2 ^ 32 \<le> 2 ^ 64"
proof -
  have b: "unat e < 2 ^ 32" "unat r < 2 ^ 32" "unat (e + r) < 2 ^ 32"
    using unsigned_less [of e, where 'a = nat] unsigned_less [of r, where 'a = nat] unsigned_less [of "e + r", where 'a = nat] by simp_all
  show "unat (list_addr e r) + 2 ^ 32 \<le> 2 ^ 64" using b(3) by (simp add: list_addr_def unat_ucast_widen)
  show "unat (probe_addr e r) + 2 ^ 32 \<le> 2 ^ 64" using b(1,2) by (simp add: probe_addr_def ucast_sum)
qed

lemma mbr_inside:
  assumes "\<And>e r. unat (addr e r) + 2 ^ 32 \<le> 2 ^ 64" "p \<in> set (mbr_parts addr st d tot sec)"
  shows "part_inside (unat tot) p"
  using assms(2) primary_inside logical_inside [OF assms(1)]
  by (auto simp: mbr_parts_def extended_parts_def Let_def map_filter_def split: if_splits)

lemma gpt_inside:
  assumes "p \<in> set (gpt_parts st d hdr tot is)"
  shows "part_inside (unat tot) p \<or> 0 < unat (pi_sectors p) \<and> unat (pi_lba_start p) + unat (pi_sectors p) = 2 ^ 64"
  using assms
proof (induction "is")
  case (Cons i "is")
  show ?case
  proof (cases "fs_read_gpt_entry st d hdr i")
    case (Some g)
    let ?f = "fs_rd64_le g 32" and ?l = "fs_rd64_le g 40"
    let ?s = "?l - ?f + 1"
    show ?thesis
    proof (cases "p \<in> set (gpt_parts st d hdr tot is)")
      case False
      with Cons.prems Some have c: "?f \<noteq> 0" "?f \<le> ?l" "?f + ?s \<le> tot" "pi_lba_start p = ?f" "pi_sectors p = ?s"
        by (auto simp: Let_def split: if_splits)
      have l: "unat ?l < 2 ^ 64" using unsigned_less [of ?l, where 'a = nat] by simp
      have f: "0 < unat ?f" "unat ?f \<le> unat ?l" using c(1,2) by (simp_all add: unat_gt_0 word_le_nat_alt)
      have d: "unat (?l - ?f) = unat ?l - unat ?f" using c(2) by (rule unat_sub)
      then have s: "unat ?s = unat ?l - unat ?f + 1" using l f by (simp add: unat_word_ariths(1))
      then have sum: "unat ?f + unat ?s = unat ?l + 1" using f by simp
      show ?thesis
      proof (cases "unat ?l + 1 = 2 ^ 64")
        case True
        then show ?thesis using sum s c(4,5) by simp
      next
        case False
        with l sum have "unat ?f + unat ?s < 2 ^ 64" by simp
        from add_small [OF c(3) this] s c(4,5) show ?thesis by (simp add: part_inside_def)
      qed
    qed (use Cons.IH in simp)
  qed (use Cons.prems in simp)
qed simp
text \<open>
  C38. Listed partitions lie inside the disk: the range of every partition that \<open>fs_list_partitions\<close> reports is
  not empty and ends within the sectors of the drive. The one exception is an entry of a GUID table whose last
  sector is the largest 64-bit number: the sum in its check wraps to 0, and it is reported
  with all sectors up to there.
\<close>

theorem listed_partitions_inside:
  assumes "p \<in> set (list_parts st d)"
  shows "\<exists>tot. fs_drive_total_sectors st d = Some tot \<and> 0 < unat (pi_sectors p)
    \<and> (unat (pi_lba_start p) + unat (pi_sectors p) \<le> unat tot
       \<or> gpt_sector st d \<noteq> None \<and> unat (pi_lba_start p) + unat (pi_sectors p) = 2 ^ 64)"
proof -
  from assms obtain dev where dev: "fs_get_block_device st d = Some dev" "\<not> bd_is_atapi dev"
    by (cases "fs_get_block_device st d") (auto simp: list_parts_def split: if_splits)
  then obtain sec where sec: "fs_device_read_sectors st d 0 1 = Inr sec"
    using assms by (cases "fs_device_read_sectors st d 0 1") (auto simp: list_parts_def)
  then obtain tot where t: "fs_drive_total_sectors st d = Some tot"
    using assms dev by (cases "fs_drive_total_sectors st d") (auto simp: list_parts_def)
  have p: "p \<in> set (case gpt_sector st d of Some g \<Rightarrow> gpt_all_parts st d tot g
        | None \<Rightarrow> if mbr_sig_ok sec then mbr_parts list_addr st d tot sec else [])"
    using assms dev sec t by (simp add: list_parts_def)
  show ?thesis
  proof (cases "gpt_sector st d")
    case None
    with p have "p \<in> set (mbr_parts list_addr st d tot sec)" by (simp split: if_splits)
    from mbr_inside [OF addr_bounds(1) this] t show ?thesis by (simp add: part_inside_def)
  next
    case (Some g)
    with p have "p \<in> set (gpt_parts st d (gpt_header_of g) tot [0..<min (unat (gh_entries (gpt_header_of g))) 256])"
      by (simp add: gpt_all_parts_def Let_def)
    from gpt_inside [OF this] t Some show ?thesis by (auto simp: part_inside_def)
  qed
qed

section \<open>The signature of a GUID table\<close>

lemma memcmp_is_0_iff: "n \<le> length a \<Longrightarrow> n \<le> length b \<Longrightarrow> memcmp_is_0 a b n \<longleftrightarrow> take n a \<noteq> take n b"
  by (simp add: memcmp_is_0_def memcmp_eq)

text \<open>
  C40. A GUID partition table is never read. When sector 1 starts with the signature of such a table, the
  test of the signature fails, because the kernel's \<open>memcmp\<close> returns 1 for equal blocks: the
  partitions listed are those of the master boot record. The type a GUID is mapped to is that of an EFI system
  partition for every GUID but that one, which becomes a FAT32 partition.
\<close>

theorem gpt_never_read:
  assumes "fs_device_read_sectors st d 1 1 = Inr sec1" "take 8 sec1 = map byte ''EFI PART''" "length guid = 16"
  shows "gpt_sector st d = None
    \<and> (list_parts st d = [] \<or> (\<exists>sec tot. fs_device_read_sectors st d 0 1 = Inr sec
         \<and> fs_drive_total_sectors st d = Some tot \<and> list_parts st d = mbr_parts list_addr st d tot sec))
    \<and> fs_gpt_type_to_mbr_compat guid = (if guid = guid_efi_system then 0x0C else 0xEF)"
proof -
  have "8 \<le> length sec1" using arg_cong [OF assms(2), of length] by simp
  then have "\<not> memcmp_is_0 sec1 (map byte ''EFI PART'') 8" using assms(2) by (simp add: memcmp_is_0_iff)
  then have g: "gpt_sector st d = None" using assms(1) by (simp add: gpt_sector_def gpt_header_ok_def)
  have l: "length guid_efi_system = 16" "length guid_ms_basic = 16" "guid_efi_system \<noteq> guid_ms_basic"
    by (simp_all add: guid_efi_system_def guid_ms_basic_def)
  have "fs_gpt_type_to_mbr_compat guid = (if guid = guid_efi_system then 0x0C else 0xEF)"
    using l assms(3) by (simp add: fs_gpt_type_to_mbr_compat_def memcmp_is_0_iff)
  moreover have "list_parts st d = [] \<or> (\<exists>sec tot. fs_device_read_sectors st d 0 1 = Inr sec
         \<and> fs_drive_total_sectors st d = Some tot \<and> list_parts st d = mbr_parts list_addr st d tot sec)"
    using g by (auto simp: list_parts_def split: option.split sum.split)
  ultimately show ?thesis using g by blast
qed

section \<open>Writing an entry\<close>

lemma primary_listed:
  assumes "fs_get_block_device st d = Some dev" "\<not> bd_is_atapi dev" "fs_device_read_sectors st d 0 1 = Inr sec"
    "fs_drive_total_sectors st d = Some tot" "gpt_sector st d = None" "mbr_sig_ok sec" "i < 4"
    "primary_part sec tot i = Some p"
  shows "p \<in> set (list_parts st d)"
proof -
  have "p \<in> set (List.map_filter (primary_part sec tot) [0..<4])"
    using assms(7,8) by (auto simp: map_filter_def image_iff intro!: bexI [of _ i])
  then show ?thesis using assms(1-6) by (simp add: list_parts_def mbr_parts_def)
qed

lemma run_single: "run 0 (unat (1 :: u32)) = {0}" by (auto simp: run_def)

abbreviation mbr_base :: "u8 list \<Rightarrow> u8 list" where
  "mbr_base sec \<equiv> if mbr_sig_ok sec then sec else (replicate ATA_SECTOR_SIZE 0)[510 := 0x55, 511 := 0xAA]"

lemma set_mbr_write:
  assumes "fs_set_mbr_partition st d i lba secs ty boot = (0, st')" "fs_device_read_sectors st d 0 1 = Inr sec" "ty \<noteq> 0"
  obtains tot dev where "1 \<le> i" "i \<le> 4" "fs_drive_total_sectors st d = Some tot"
    "ucast lba + ucast secs \<le> tot" "secs \<noteq> 0" "fs_get_block_device st d = Some dev" "\<not> bd_is_atapi dev"
    "fs_device_write_sectors st d 0 1 (set_mbr_entry (mbr_base sec) (i - 1) lba secs ty boot) = (0, st')"
  using assms by (auto simp: fs_set_mbr_partition_def Let_def not_less split: if_splits option.splits)

lemma mbr_base_facts: "mbr_sig_ok (mbr_base sec)" "length sec = ATA_SECTOR_SIZE \<Longrightarrow> length (mbr_base sec) = 512"
  by (simp_all add: mbr_sig_ok_def rd16_def ATA_SECTOR_SIZE_def)

lemma write_0_other:
  assumes w: "fs_device_write_sectors st d 0 1 bs = (0, st')" and d: "e \<noteq> d \<or> 0 \<notin> run l (unat n)"
  shows "fs_device_read_sectors st' e l n = fs_device_read_sectors st e l n"
proof (cases "e = d")
  case True
  with d have "run 0 (unat (1 :: u32)) \<inter> run l (unat n) = {}" by (simp only: run_single) simp
  from device_contract(2) [OF w this] True show ?thesis by simp
next
  case False
  then show ?thesis using device_contract(3) [OF w] by metis
qed

lemma set_mbr_listed:
  assumes set: "fs_set_mbr_partition st d i lba secs ty boot = (0, st')"
    and sec: "fs_device_read_sectors st d 0 1 = Inr sec" "length sec = ATA_SECTOR_SIZE"
    and g: "gpt_sector st d = None" and ty: "ty \<noteq> 0" "\<not> fs_is_extended_mbr_type ty" and lba: "lba \<noteq> 0"
  shows "\<lparr>pi_index = of_nat i, pi_type = ty, pi_bootable = (if boot then 1 else 0), pi_lba_start = ucast lba,
       pi_sectors = ucast secs\<rparr> \<in> set (list_parts st' d)"
proof -
  let ?new = "set_mbr_entry (mbr_base sec) (i - 1) lba secs ty boot"
  from set_mbr_write [OF set sec(1) ty(1)] obtain tot dev where i: "1 \<le> i" "i \<le> 4"
    and tot: "fs_drive_total_sectors st d = Some tot"
    and rng: "ucast lba + ucast secs \<le> tot" "secs \<noteq> 0"
    and dev: "fs_get_block_device st d = Some dev" "\<not> bd_is_atapi dev"
    and w: "fs_device_write_sectors st d 0 1 ?new = (0, st')" .
  have i': "i - 1 < 4" using i by simp
  note len = mbr_base_facts(2) [OF sec(2)]
  have sig': "mbr_sig_ok ?new" using set_mbr_sig [OF i'] mbr_base_facts(1) by blast
  have rd: "fs_device_read_sectors st' d 0 1 = Inr ?new"
    by (rule device_contract(1) [OF w]) (simp_all add: len ATA_SECTOR_SIZE_def)
  have "0 \<notin> run (1 :: u64) (unat (1 :: u32))" by (auto simp: run_def)
  then have g': "gpt_sector st' d = None" using g write_0_other [OF w] by (simp add: gpt_sector_def)
  have same: "fs_get_block_device st' d = Some dev" "fs_drive_total_sectors st' d = Some tot"
    using dev tot same_devices_fs [OF w] by (simp_all add: fs_drive_total_sectors_def)
  note m = set_mbr_same [OF len i' ty(1), of lba secs boot]
  have e: "i - 1 + 1 = i" using i by simp
  have "primary_part ?new tot (i - 1) = Some \<lparr>pi_index = of_nat i, pi_type = ty, pi_bootable = (if boot then 1 else 0),
      pi_lba_start = ucast lba, pi_sectors = ucast secs\<rparr>"
    unfolding primary_part_def m e using ty lba rng by (simp add: boot_flag_def Let_def not_less)
  from primary_listed [OF same(1) dev(2) rd same(2) g' sig' i' this] show ?thesis .
qed

text \<open>
  C37. What is written into the master boot record is listed. When \<open>fs_set_mbr_partition\<close> reports success for a
  partition that is not extended and does not start at sector 0, on a disk without a GUID table, then
  \<open>fs_list_partitions\<close> lists it with its number, type, flag, start and size; the three other entries are as
  before, or empty if there was no record before; and no other sector of any drive has changed.
\<close>

theorem set_mbr_then_list:
  assumes "fs_set_mbr_partition st d i lba secs ty boot = (0, st')"
    and "fs_device_read_sectors st d 0 1 = Inr sec" "length sec = ATA_SECTOR_SIZE"
    and "gpt_sector st d = None" "ty \<noteq> 0" "\<not> fs_is_extended_mbr_type ty" "lba \<noteq> 0"
  shows "\<lparr>pi_index = of_nat i, pi_type = ty, pi_bootable = (if boot then 1 else 0), pi_lba_start = ucast lba,
       pi_sectors = ucast secs\<rparr> \<in> set (list_parts st' d)
    \<and> (\<exists>sec'. fs_device_read_sectors st' d 0 1 = Inr sec' \<and> mbr_sig_ok sec'
        \<and> (\<forall>j<4. j \<noteq> i - 1 \<longrightarrow> mbr_part_of sec' j = mbr_part_of (if mbr_sig_ok sec then sec else replicate ATA_SECTOR_SIZE 0) j))
    \<and> (\<forall>e l n. e \<noteq> d \<or> 0 \<notin> run l (unat n) \<longrightarrow> fs_device_read_sectors st' e l n = fs_device_read_sectors st e l n)"
proof -
  let ?new = "set_mbr_entry (mbr_base sec) (i - 1) lba secs ty boot"
  from set_mbr_write [OF assms(1,2,5)] obtain "1 \<le> i" "i \<le> 4"
    and w: "fs_device_write_sectors st d 0 1 ?new = (0, st')" .
  then have i: "i - 1 < 4" by simp
  have sig': "mbr_sig_ok ?new" using set_mbr_sig [OF i] mbr_base_facts(1) by blast
  have rd: "fs_device_read_sectors st' d 0 1 = Inr ?new"
    by (rule device_contract(1) [OF w]) (simp_all add: mbr_base_facts(2) [OF assms(3)] ATA_SECTOR_SIZE_def)
  have "mbr_part_of ?new j = mbr_part_of (if mbr_sig_ok sec then sec else replicate ATA_SECTOR_SIZE 0) j"
    if "j < 4" "j \<noteq> i - 1" for j
  proof -
    have "mbr_part_of (mbr_base sec) j = mbr_part_of (if mbr_sig_ok sec then sec else replicate ATA_SECTOR_SIZE 0) j"
      using that(1) by (simp add: mbr_part_of_def Let_def rd32_def)
    then show ?thesis using set_mbr_other [OF that(2)] by simp
  qed
  then have a: "\<forall>j<4. j \<noteq> i - 1 \<longrightarrow> mbr_part_of ?new j = mbr_part_of (if mbr_sig_ok sec then sec else replicate ATA_SECTOR_SIZE 0) j"
    by blast
  show ?thesis
    by (intro conjI exI [of _ ?new] allI impI, rule set_mbr_listed [OF assms], rule rd, rule sig', rule a [rule_format])
      (assumption | rule write_0_other [OF w])+
qed

section \<open>Mounting each partition once\<close>

definition part_key :: "mounted_part \<Rightarrow> nat \<times> u64" where "part_key p = (mt_drive p, mt_lba p)"

definition kind_count :: "mounted_part list \<Rightarrow> fs_kind \<Rightarrow> nat" where
  "kind_count ps k = length (filter (\<lambda>p. mt_kind p = k) ps)"

definition mounts_ok :: "'s fs_mounts \<Rightarrow> bool" where
  "mounts_ok g \<longleftrightarrow> distinct (map part_key (mounted_parts g))
     \<and> mount_count g = kind_count (mounted_parts g) \<and> (\<forall>k. kind_count (mounted_parts g) k \<le> 8)"

lemma length_by_kind: "length ps = kind_count ps FS_KIND_FAT + kind_count ps FS_KIND_EXT2 + kind_count ps FS_KIND_EXT4 + kind_count ps FS_KIND_ISO"
proof (induction ps)
  case (Cons p ps)
  then show ?case by (cases "mt_kind p") (simp_all add: kind_count_def)
qed (simp add: kind_count_def)

lemma kind_count_append: "kind_count (ps @ [p]) k = kind_count ps k + (if mt_kind p = k then 1 else 0)"
  by (simp add: kind_count_def)

lemma mounts_ok_length: "mounts_ok g \<Longrightarrow> length (mounted_parts g) \<le> 32"
  "mounts_ok g \<Longrightarrow> mount_count g k < 8 \<Longrightarrow> length (mounted_parts g) < 32"
proof -
  assume "mounts_ok g"
  then have c: "\<And>j. kind_count (mounted_parts g) j \<le> 8" "kind_count (mounted_parts g) k = mount_count g k"
    by (simp_all add: mounts_ok_def)
  note l = length_by_kind [of "mounted_parts g"]
  show "length (mounted_parts g) \<le> 32" unfolding l
    using c(1) [of FS_KIND_FAT] c(1) [of FS_KIND_EXT2] c(1) [of FS_KIND_EXT4] c(1) [of FS_KIND_ISO] by linarith
  assume "mount_count g k < 8"
  with c(2) show "length (mounted_parts g) < 32" unfolding l
    using c(1) [of FS_KIND_FAT] c(1) [of FS_KIND_EXT2] c(1) [of FS_KIND_EXT4] c(1) [of FS_KIND_ISO] by (cases k) simp_all
qed

lemma bindings_frame [frame]:
  "fs_mount_bindings D st g drive kind path = (rc, g') \<Longrightarrow>
     mounted_parts g' = mounted_parts g \<and> mount_count g' = mount_count g"
  by (auto simp: fs_mount_bindings_def Let_def split: option.splits prod.splits if_splits)

lemma mount_kind_ok [keeps]:
  assumes ok: "mounts_ok g"
  shows "mounts_ok (snd (fs_mount_kind D st g drive lba pno kind))"
proof -
  obtain rc h where b: "fs_mount_bindings D st g drive kind (mount_name g drive pno kind) = (rc, h)" by fastforce
  note f = bindings_frame [OF b]
  have okh: "mounts_ok h" using ok f by (simp add: mounts_ok_def)
  let ?p = "\<lparr>mt_drive = drive, mt_lba = lba, mt_kind = kind\<rparr>"
  let ?h = "(fs_register_mounted_partition h drive lba kind)\<lparr>mount_count := (mount_count h)(kind := mount_count h kind + 1)\<rparr>"
  have new: "mounts_ok ?h" if "\<not> fs_partition_already_mounted g drive lba" "mount_count g kind < 8"
  proof -
    have "length (mounted_parts h) < 32" using mounts_ok_length(2) [OF okh] that(2) f by simp
    then have r: "fs_register_mounted_partition h drive lba kind = h\<lparr>mounted_parts := mounted_parts g @ [?p]\<rparr>"
      using f by (simp add: fs_register_mounted_partition_def)
    have "part_key ?p \<notin> part_key ` set (mounted_parts g)"
      using that(1) by (auto simp: fs_partition_already_mounted_def part_key_def)
    then show ?thesis using ok that(2) f unfolding r
      by (auto simp: mounts_ok_def fun_eq_iff kind_count_append split: if_splits)
  qed
  have rc0: "fs_mount_kind D st g drive lba pno kind =
     (if fs_partition_already_mounted g drive lba then (-2, g)
      else if mount_count g kind \<ge> 8 then (-1, g)
      else if probe D kind st drive lba \<noteq> 0 then (if kind = FS_KIND_EXT4 then probe D kind st drive lba else -1, g)
      else if rc \<noteq> 0 then (-1, h)
      else (0, (fs_register_mounted_partition h drive lba kind)\<lparr>mount_count :=
          (mount_count (fs_register_mounted_partition h drive lba kind))(kind := mount_count (fs_register_mounted_partition h drive lba kind) kind + 1)\<rparr>))"
    by (simp add: fs_mount_kind_def Let_def b)
  have "mount_count (fs_register_mounted_partition h drive lba kind) = mount_count h"
    by (simp add: fs_register_mounted_partition_def)
  then show ?thesis unfolding rc0 using ok okh new by simp
qed

lemma try_kinds_ok [keeps]: "mounts_ok g \<Longrightarrow> mounts_ok (snd (try_kinds D st drive lba pno ks g))"
proof (induction ks arbitrary: g)
  case (Cons k ks)
  obtain rc h where m: "fs_mount_kind D st g drive lba pno k = (rc, h)" by fastforce
  then have "mounts_ok h" using mount_kind_ok [OF Cons.prems, of D st drive lba pno k] by simp
  then show ?case using Cons.IH m by simp
qed simp

lemma try_partition_ok [keeps]: "mounts_ok g \<Longrightarrow> mounts_ok (snd (fs_try_mount_partition D st drive p g))"
  by (simp add: fs_try_mount_partition_def try_kinds_ok)

lemma try_parts_ok [keeps]: "mounts_ok g \<Longrightarrow> mounts_ok (snd (try_parts D st drive ps any g))"
proof (induction ps arbitrary: g any)
  case (Cons p ps)
  obtain ok h where m: "fs_try_mount_partition D st drive p g = (ok, h)" by fastforce
  then have "mounts_ok h" using try_partition_ok [OF Cons.prems, of D st drive p] by simp
  then show ?case using Cons.IH m by simp
qed simp

lemma probe_ok [keeps]: "mounts_ok g \<Longrightarrow> mounts_ok (fs_probe_partitions D st drive g)"
  unfolding fs_probe_partitions_def case_prod_beta
  by (simp only: split: option.split sum.split if_split) (intro allI impI conjI keeps; simp)

lemma probe_all_ok [keeps]: "mounts_ok g \<Longrightarrow> mounts_ok (probe_all D st g)"
proof -
  have "mounts_ok g \<Longrightarrow> mounts_ok (fold (fs_probe_partitions D st) ds g)" for ds
    by (induction ds arbitrary: g) (simp_all add: probe_ok)
  then show "mounts_ok g \<Longrightarrow> mounts_ok (probe_all D st g)" by (simp add: probe_all_def)
qed

text \<open>The state \<open>fs_init\<close> starts from.\<close>

definition no_mounts :: "(fs_kind \<times> nat, 's) vfs \<Rightarrow> 's fs_mounts" where
  "no_mounts v = \<lparr>mounted_parts = [], mount_count = (\<lambda>_. 0), mount_generation = 0, root_score = 0, mnt_vfs = v\<rparr>"

text \<open>
  C39. No partition is mounted twice, and no table overflows: however often the drives are scanned, with whatever
  disks and file system drivers, the table of mounted partitions has each first sector of a drive at most
  once and at most 32 entries, and the number of mounts of each kind is the number of its entries and never
  more than the 8 places of its array.
\<close>

theorem probe_mounts_once:
  "let g = fold (probe_all D) scans (no_mounts v) in
     distinct (map part_key (mounted_parts g)) \<and> length (mounted_parts g) \<le> 32
     \<and> (\<forall>k. mount_count g k = kind_count (mounted_parts g) k \<and> mount_count g k \<le> 8)"
proof -
  have "mounts_ok (no_mounts v)" by (simp add: mounts_ok_def no_mounts_def kind_count_def fun_eq_iff)
  then have "mounts_ok (fold (probe_all D) scans (no_mounts v))"
    by (rule fold_invariant [where Q = "\<lambda>_. True" and P = mounts_ok, rotated]) (simp_all add: probe_all_ok)
  then show ?thesis using mounts_ok_length(1) [of "fold (probe_all D) scans (no_mounts v)"]
    by (simp add: Let_def mounts_ok_def)
qed

section \<open>Examples\<close>

lemma one_disk_read: "l < 1000 \<Longrightarrow> fs_device_read_sectors one_disk 0 l 1 = Inr zero_sector"
  using inc_le [of l 1000]
  by (simp add: not_le not_less one_disk_def fs_device_read_sectors_def ata_read_chunks.simps ata_read_sectors_def
      ata_rw_check_def ata_drive_total_sectors_def Let_def)

lemma one_disk_dev: "fs_get_block_device one_disk 0 = Some \<lparr>bd_is_atapi = False, bd_sectors = 1000, bd_model = ''QEMU'',
    bd_prefix = fs_drive_prefix_from_model ''QEMU'' False\<rparr>"
  by (simp add: fs_get_block_device_def one_disk_def Let_def)

lemma one_disk_no_gpt: "gpt_sector one_disk 0 = None"
proof -
  have "rd32 zero_sector 12 = 0" by (simp add: rd32_def zero_sector_def)
  then show ?thesis by (simp add: gpt_sector_def one_disk_read gpt_header_ok_def)
qed

lemma one_disk_set: "\<exists>st'. fs_set_mbr_partition one_disk 0 1 10 100 0x0C True = (0, st')"
proof -
  have w: "fst (fs_device_write_sectors one_disk 0 0 1 bs) = 0" for bs
    by (simp add: one_disk_def fs_device_write_sectors_def ata_write_chunks.simps ata_write_sectors_def
        ata_rw_check_def ata_drive_total_sectors_def Let_def)
  have "fst (fs_set_mbr_partition one_disk 0 1 10 100 0x0C True) = 0"
    by (simp add: fs_set_mbr_partition_def one_disk_total one_disk_dev one_disk_read Let_def w)
  then show ?thesis by (metis prod.collapse)
qed

lemma zero_sector_length: "length zero_sector = ATA_SECTOR_SIZE" by (simp add: zero_sector_def ATA_SECTOR_SIZE_def)

lemma type_0C: "(0x0C :: u8) \<noteq> 0" "\<not> fs_is_extended_mbr_type 0x0C" "(10 :: u32) \<noteq> 0"
  by (simp_all add: fs_is_extended_mbr_type_def)

lemma set_mbr_then_list_witness:
  "\<exists>st'. fs_set_mbr_partition one_disk 0 1 10 100 0x0C True = (0, st')
     \<and> \<lparr>pi_index = 1, pi_type = 0x0C, pi_bootable = 1, pi_lba_start = 10, pi_sectors = 100\<rparr> \<in> set (list_parts st' 0)"
proof -
  obtain st' where s: "fs_set_mbr_partition one_disk 0 1 10 100 0x0C True = (0, st')" using one_disk_set by blast
  have r: "fs_device_read_sectors one_disk 0 0 1 = Inr zero_sector" by (rule one_disk_read) simp
  from set_mbr_then_list [OF s r zero_sector_length one_disk_no_gpt type_0C] s show ?thesis by simp
qed

lemma listed_partitions_inside_witness:
  "\<exists>st' p. p \<in> set (list_parts st' 0)
     \<and> (\<exists>tot. fs_drive_total_sectors st' 0 = Some tot \<and> 0 < unat (pi_sectors p)
        \<and> (unat (pi_lba_start p) + unat (pi_sectors p) \<le> unat tot
           \<or> gpt_sector st' 0 \<noteq> None \<and> unat (pi_lba_start p) + unat (pi_sectors p) = 2 ^ 64))"
proof -
  obtain st' where s: "fs_set_mbr_partition one_disk 0 1 10 100 0x0C True = (0, st')" using one_disk_set by blast
  have r: "fs_device_read_sectors one_disk 0 0 1 = Inr zero_sector" by (rule one_disk_read) simp
  note m = set_mbr_listed [OF s r zero_sector_length one_disk_no_gpt type_0C]
  from listed_partitions_inside [OF m] m show ?thesis by blast
qed

text \<open>A disk with the signature of a GUID table in sector 1.\<close>

definition gpt_disk :: storage where
  "gpt_disk = snd (fs_device_write_sectors one_disk 0 1 1 (map byte ''EFI PART'' @ replicate 504 0))"

lemma gpt_disk_sector: "fs_device_read_sectors gpt_disk 0 1 1 = Inr (map byte ''EFI PART'' @ replicate 504 0)"
proof -
  have "fst (fs_device_write_sectors one_disk 0 1 1 bs) = 0" for bs
    using inc_le [of "1 :: u64" 1000]
    by (simp add: not_le not_less one_disk_def fs_device_write_sectors_def ata_write_chunks.simps ata_write_sectors_def
        ata_rw_check_def ata_drive_total_sectors_def Let_def)
  then have "fs_device_write_sectors one_disk 0 1 1 (map byte ''EFI PART'' @ replicate 504 0) = (0, gpt_disk)"
    by (metis gpt_disk_def prod.collapse)
  from device_contract(1) [OF this] show ?thesis by (simp add: ATA_SECTOR_SIZE_def)
qed

lemma gpt_never_read_witness: "gpt_sector gpt_disk 0 = None \<and> fs_gpt_type_to_mbr_compat guid_linux_fs = 0xEF"
  using gpt_never_read [OF gpt_disk_sector, of guid_linux_fs]
  by (simp add: guid_linux_fs_def guid_efi_system_def)

end
