(* ===== verification/Accounts.thy ===== *)
theory Accounts
  imports Fs_Calls Kstring
begin

text \<open>
  The accounts of the system, \<open>sys/user.c\<close>: a table of users and one of groups, kept in the files
  \<open>passwd\<close>, \<open>shadow\<close> and \<open>group\<close> below \<open>/etc\<close>.

  The arrays \<open>g_users\<close> and \<open>g_groups\<close> with their counts are lists. A fixed buffer that
  \<open>strncpy\<close> fills up to its last byte holds a prefix of the string. \<open>mem p\<close> says whether
  \<open>kmalloc\<close> finds memory for the buffer of the file \<open>p\<close>. Names passed in are C strings,
  so they contain no \<open>NUL\<close>.
\<close>

definition USER_MAX_NAME :: nat where "USER_MAX_NAME = 32"
definition USER_MAX_PASS :: nat where "USER_MAX_PASS = 128"
definition USER_MAX_MEMBERS :: nat where "USER_MAX_MEMBERS = 32"
definition USER_DB_MAX :: nat where "USER_DB_MAX = 64"

lemmas user_limits = USER_MAX_NAME_def USER_MAX_PASS_def USER_MAX_MEMBERS_def USER_DB_MAX_def

record user_entry =
  ue_name :: string
  ue_uid :: u32
  ue_gid :: u32
  ue_home :: string
  ue_shell :: string
  ue_hash :: string

record group_entry =
  ge_name :: string
  ge_gid :: u32
  ge_members :: "u32 list"

record accounts =
  g_users :: "user_entry list"
  g_groups :: "group_entry list"

section \<open>Numbers and hashes\<close>

text \<open>The digits, lowest first, at most 15.\<close>

function utoa_loop :: "nat \<Rightarrow> nat \<Rightarrow> string" where
  "utoa_loop val pos =
     (if val > 0 \<and> pos < 15 then char_of (48 + val mod 10) # utoa_loop (val div 10) (pos + 1) else [])"
  by pat_completeness auto
termination by (relation "measure (\<lambda>(val, pos). 15 - pos)") auto

declare utoa_loop.simps [simp del]

definition utoa :: "u32 \<Rightarrow> string" where
  "utoa val = (if val = 0 then ''0'' else rev (utoa_loop (unat val) 0))"

definition parse_u32 :: "string \<Rightarrow> u32" where
  "parse_u32 s = (case strtol (s @ [NUL]) DEC of None \<Rightarrow> 0 | Some v \<Rightarrow> ucast v)"

definition fnv1a_hash :: "string \<Rightarrow> u64" where
  "fnv1a_hash data = fold (\<lambda>c h. (h XOR of_nat (of_char c)) * 1099511628211) data 1469598103934665603"

definition hex_digit :: "nat \<Rightarrow> char" where "hex_digit d = ''0123456789abcdef'' ! d"

definition bytes_to_hex :: "u8 list \<Rightarrow> string" where
  "bytes_to_hex bs = concat (map (\<lambda>b. [hex_digit (unat (drop_bit 4 b AND 0xF)), hex_digit (unat (b AND 0xF))]) bs)"

text \<open>Without memory the output is not written: \<open>garbage\<close> is what the caller's buffer held.\<close>

definition compute_hash :: "bool \<Rightarrow> string \<Rightarrow> string \<Rightarrow> string \<Rightarrow> string" where
  "compute_hash mem garbage name password =
     (if \<not> mem then garbage
      else let h = fnv1a_hash (name @ '':'' @ password)
           in bytes_to_hex (map (\<lambda>i. ucast (drop_bit (56 - i * 8) h)) [0..<8]))"

section \<open>Reading the files\<close>

text \<open>The string up to a character, and what follows it if it occurs.\<close>

fun cut_at :: "char \<Rightarrow> string \<Rightarrow> string \<times> string option" where
  "cut_at c [] = ([], None)"
| "cut_at c (x # s) = (if x = c then ([], Some s) else case cut_at c s of (a, b) \<Rightarrow> (x # a, b))"

lemma cut_at_length: "cut_at c s = (a, Some r) \<Longrightarrow> length r < length s" "(a, Some r) = cut_at c s \<Longrightarrow> length r < length s"
proof -
  show "cut_at c s = (a, Some r) \<Longrightarrow> length r < length s"
    by (induction s arbitrary: a) (force split: if_splits prod.splits)+
  then show "(a, Some r) = cut_at c s \<Longrightarrow> length r < length s" by simp
qed

function file_lines :: "string \<Rightarrow> string list" where
  "file_lines text =
     (if text = [] then []
      else case cut_at CHR 0x0A text of
        (line, None) \<Rightarrow> [line]
      | (line, Some rest) \<Rightarrow> line # file_lines rest)"
  by pat_completeness auto
termination by (relation "measure length") (auto simp: cut_at_length)

declare file_lines.simps [simp del]

text \<open>Lines that do not parse are skipped, and no more than \<open>USER_DB_MAX\<close> entries are taken.\<close>

fun load_entries :: "(string \<Rightarrow> 'a option) \<Rightarrow> nat \<Rightarrow> string list \<Rightarrow> 'a list" where
  "load_entries parse count [] = []"
| "load_entries parse count (line # ls) =
     (if count \<ge> USER_DB_MAX then []
      else case parse line of
        None \<Rightarrow> load_entries parse count ls
      | Some e \<Rightarrow> e # load_entries parse (count + 1) ls)"

definition parse_passwd_line :: "string \<Rightarrow> user_entry option" where
  "parse_passwd_line line =
     (case cut_at CHR '':'' line of
        (_, None) \<Rightarrow> None
      | (name, Some r1) \<Rightarrow>
     (case cut_at CHR '':'' r1 of
        (_, None) \<Rightarrow> None
      | (uid_s, Some r2) \<Rightarrow>
     (case cut_at CHR '':'' r2 of
        (_, None) \<Rightarrow> None
      | (gid_s, Some r3) \<Rightarrow>
     (case cut_at CHR '':'' r3 of
        (_, None) \<Rightarrow> None
      | (home, Some shell) \<Rightarrow>
          Some \<lparr>ue_name = take (USER_MAX_NAME - 1) name, ue_uid = parse_u32 uid_s, ue_gid = parse_u32 gid_s,
                ue_home = take (USER_MAX_NAME - 1) home, ue_shell = take (USER_MAX_NAME - 1) shell,
                ue_hash = []\<rparr>))))"

function parse_members :: "nat \<Rightarrow> string \<Rightarrow> u32 list" where
  "parse_members count m =
     (if m = [] \<or> count \<ge> USER_MAX_MEMBERS then []
      else case cut_at CHR '','' m of
        (num, None) \<Rightarrow> [parse_u32 num]
      | (num, Some rest) \<Rightarrow> parse_u32 num # parse_members (count + 1) rest)"
  by pat_completeness auto
termination by (relation "measure (\<lambda>(count, m). length m)") (auto simp: cut_at_length)

declare parse_members.simps [simp del]

definition parse_group_line :: "string \<Rightarrow> group_entry option" where
  "parse_group_line line =
     (case cut_at CHR '':'' line of
        (_, None) \<Rightarrow> None
      | (name, Some r1) \<Rightarrow>
     (case cut_at CHR '':'' r1 of
        (_, None) \<Rightarrow> None
      | (gid_s, Some members) \<Rightarrow>
          Some \<lparr>ge_name = take (USER_MAX_NAME - 1) name, ge_gid = parse_u32 gid_s,
                ge_members = parse_members 0 members\<rparr>))"

text \<open>The first user of the name gets the hash.\<close>

fun give_hash :: "string \<Rightarrow> string \<Rightarrow> user_entry list \<Rightarrow> user_entry list" where
  "give_hash name hash [] = []"
| "give_hash name hash (u # us) =
     (if ue_name u = name then u\<lparr>ue_hash := take (USER_MAX_PASS - 1) hash\<rparr> # us else u # give_hash name hash us)"

definition shadow_line_step :: "string \<Rightarrow> user_entry list \<Rightarrow> user_entry list" where
  "shadow_line_step line us =
     (case cut_at CHR '':'' line of (_, None) \<Rightarrow> us | (name, Some hash) \<Rightarrow> give_hash name hash us)"

text \<open>
  A whole file as a C string: its size is asked for first, and the buffer, one byte longer, ends
  with \<open>NUL\<close>.
\<close>

definition read_text :: "('c, 's) vfs \<Rightarrow> cred \<Rightarrow> 's \<Rightarrow> (string \<Rightarrow> bool) \<Rightarrow> string \<Rightarrow> string option" where
  "read_text v cr s mem path =
     (case fs_read_file v cr s path None 0 of
        (rc, len, _) \<Rightarrow>
          if rc \<noteq> 0 then None
          else case len of
            None \<Rightarrow> None
          | Some len \<Rightarrow>
              if len = 0 then None
              else if \<not> mem path then None
              else (case fs_read_file v cr s path (Some (replicate len 0)) len of
                      (rc, len2, buf) \<Rightarrow>
                        if rc \<noteq> 0 then None
                        else Some (takeWhile (\<lambda>c. c \<noteq> NUL)
                          (map (\<lambda>b. char_of (unat b)) (take (case len2 of None \<Rightarrow> len | Some n \<Rightarrow> n) (case buf of None \<Rightarrow> [] | Some b \<Rightarrow> b))))))"

definition load_passwd ::
  "('c, 's) vfs \<Rightarrow> cred \<Rightarrow> 's \<Rightarrow> (string \<Rightarrow> bool) \<Rightarrow> accounts \<Rightarrow> int \<times> accounts" where
  "load_passwd v cr s mem db =
     (case read_text v cr s mem ''/etc/passwd'' of
        None \<Rightarrow> (-1, db)
      | Some text \<Rightarrow> (0, db\<lparr>g_users := load_entries parse_passwd_line 0 (file_lines text)\<rparr>))"

definition load_shadow ::
  "('c, 's) vfs \<Rightarrow> cred \<Rightarrow> 's \<Rightarrow> (string \<Rightarrow> bool) \<Rightarrow> accounts \<Rightarrow> int \<times> accounts" where
  "load_shadow v cr s mem db =
     (case read_text v cr s mem ''/etc/shadow'' of
        None \<Rightarrow> (-1, db)
      | Some text \<Rightarrow> (0, db\<lparr>g_users := fold shadow_line_step (file_lines text) (g_users db)\<rparr>))"

definition load_group ::
  "('c, 's) vfs \<Rightarrow> cred \<Rightarrow> 's \<Rightarrow> (string \<Rightarrow> bool) \<Rightarrow> accounts \<Rightarrow> int \<times> accounts" where
  "load_group v cr s mem db =
     (case read_text v cr s mem ''/etc/group'' of
        None \<Rightarrow> (-1, db)
      | Some text \<Rightarrow> (0, db\<lparr>g_groups := load_entries parse_group_line 0 (file_lines text)\<rparr>))"

definition sys_user_load ::
  "('c, 's) vfs \<Rightarrow> cred \<Rightarrow> 's \<Rightarrow> (string \<Rightarrow> bool) \<Rightarrow> int \<times> accounts" where
  "sys_user_load v cr s mem =
     (let db = \<lparr>g_users = [], g_groups = []\<rparr>;
          (r1, db) = (if fs_exists v s ''/etc/passwd'' then load_passwd v cr s mem db else (-1, db));
          (r2, db) = (if fs_exists v s ''/etc/shadow'' then load_shadow v cr s mem db else (-1, db));
          (r3, db) = (if fs_exists v s ''/etc/group'' then load_group v cr s mem db else (-1, db))
      in (if r1 = 0 \<or> r2 = 0 \<or> r3 = 0 then 0 else -1, db))"

section \<open>Writing the files\<close>

text \<open>Characters are put into a buffer of 4096 bytes as long as fewer than 4090 are in it.\<close>

definition put_char :: "char \<Rightarrow> string \<Rightarrow> string" where
  "put_char c buf = (if length buf < 4090 then buf @ [c] else buf)"

definition put_string :: "string \<Rightarrow> string \<Rightarrow> string" where
  "put_string s buf = fold put_char s buf"

definition put_passwd_line :: "user_entry \<Rightarrow> string \<Rightarrow> string" where
  "put_passwd_line u buf =
     (let buf = put_char CHR '':'' (put_string (ue_name u) buf);
          buf = put_char CHR '':'' (put_string (utoa (ue_uid u)) buf);
          buf = put_char CHR '':'' (put_string (utoa (ue_gid u)) buf);
          buf = put_char CHR '':'' (put_string (ue_home u) buf)
      in put_char CHR 0x0A (put_string (ue_shell u) buf))"

definition put_shadow_line :: "user_entry \<Rightarrow> string \<Rightarrow> string" where
  "put_shadow_line u buf =
     (let buf = put_char CHR '':'' (put_string (ue_name u) buf)
      in put_char CHR 0x0A (put_string (ue_hash u) buf))"

fun put_members :: "bool \<Rightarrow> u32 list \<Rightarrow> string \<Rightarrow> string" where
  "put_members first [] buf = buf"
| "put_members first (m # ms) buf =
     put_members False ms (put_string (utoa m) (if first then buf else put_char CHR '','' buf))"

definition put_group_line :: "group_entry \<Rightarrow> string \<Rightarrow> string" where
  "put_group_line g buf =
     (let buf = put_char CHR '':'' (put_string (ge_name g) buf);
          buf = put_char CHR '':'' (put_string (utoa (ge_gid g)) buf)
      in put_char CHR 0x0A (put_members True (ge_members g) buf))"

definition ensure_etc_dir :: "('c, 's) vfs \<Rightarrow> cred \<Rightarrow> 's \<Rightarrow> int \<times> 's" where
  "ensure_etc_dir v cr s =
     (if \<not> fs_exists v s ''/etc''
      then case fs_mkdir v cr s ''/'' ''etc'' of (rc, s1) \<Rightarrow> (if rc \<noteq> 0 then -1 else 0, s1)
      else (0, s))"

text \<open>Whether the file was written is not looked at.\<close>

definition save_text :: "('c, 's) vfs \<Rightarrow> cred \<Rightarrow> 's \<Rightarrow> string \<Rightarrow> string \<Rightarrow> 's" where
  "save_text v cr s name text =
     (let bytes = map (\<lambda>c. of_nat (of_char c)) text in
      if fs_exists v s (''/etc/'' @ name) then snd (fs_write_file v cr s (''/etc/'' @ name) bytes)
      else snd (fs_create_file v cr s ''/etc'' name bytes))"

definition sys_user_save ::
  "('c, 's) vfs \<Rightarrow> cred \<Rightarrow> 's \<Rightarrow> (string \<Rightarrow> bool) \<Rightarrow> accounts \<Rightarrow> int \<times> 's" where
  "sys_user_save v cr s mem db =
     (case ensure_etc_dir v cr s of (rc, s) \<Rightarrow>
      if rc \<noteq> 0 then (-1, s)
      else if \<not> mem ''/etc/passwd'' then (-1, s)
      else let s = save_text v cr s ''passwd'' (fold put_passwd_line (g_users db) []) in
      if \<not> mem ''/etc/shadow'' then (-1, s)
      else let s = save_text v cr s ''shadow'' (fold put_shadow_line (g_users db) []) in
      if \<not> mem ''/etc/group'' then (-1, s)
      else (0, save_text v cr s ''group'' (fold put_group_line (g_groups db) [])))"

section \<open>Users\<close>

text \<open>Each change is saved, whether or not that works.\<close>

definition saved :: "('c, 's) vfs \<Rightarrow> cred \<Rightarrow> 's \<Rightarrow> (string \<Rightarrow> bool) \<Rightarrow> accounts \<Rightarrow> int \<times> accounts \<times> 's" where
  "saved v cr s mem db = (0, db, snd (sys_user_save v cr s mem db))"

definition sys_user_add ::
  "('c, 's) vfs \<Rightarrow> cred \<Rightarrow> 's \<Rightarrow> (string \<Rightarrow> bool) \<Rightarrow> accounts \<Rightarrow>
   string \<Rightarrow> u32 \<Rightarrow> u32 \<Rightarrow> string option \<Rightarrow> string option \<Rightarrow> string option \<Rightarrow> int \<times> accounts \<times> 's" where
  "sys_user_add v cr s mem db name uid gid home shell hash =
     (if name = [] \<or> length (g_users db) \<ge> USER_DB_MAX then (-1, db, s)
      else if \<exists>u\<in>set (g_users db). ue_name u = name then (-1, db, s)
      else let u = \<lparr>ue_name = take (USER_MAX_NAME - 1) name, ue_uid = uid, ue_gid = gid,
                    ue_home = take (USER_MAX_NAME - 1) (case home of None \<Rightarrow> ''/'' | Some h \<Rightarrow> h),
                    ue_shell = take (USER_MAX_NAME - 1) (case shell of None \<Rightarrow> ''/bin/sh'' | Some x \<Rightarrow> x),
                    ue_hash = (case hash of None \<Rightarrow> [] | Some h \<Rightarrow> take (USER_MAX_PASS - 1) h)\<rparr>
           in saved v cr s mem (db\<lparr>g_users := g_users db @ [u]\<rparr>))"

definition sys_user_del ::
  "('c, 's) vfs \<Rightarrow> cred \<Rightarrow> 's \<Rightarrow> (string \<Rightarrow> bool) \<Rightarrow> accounts \<Rightarrow> string \<Rightarrow> int \<times> accounts \<times> 's" where
  "sys_user_del v cr s mem db name =
     (case find_index (\<lambda>u. ue_name u = name) (g_users db) of
        None \<Rightarrow> (-1, db, s)
      | Some i \<Rightarrow> saved v cr s mem (db\<lparr>g_users := take i (g_users db) @ drop (i + 1) (g_users db)\<rparr>))"

definition sys_user_set_hash ::
  "('c, 's) vfs \<Rightarrow> cred \<Rightarrow> 's \<Rightarrow> (string \<Rightarrow> bool) \<Rightarrow> accounts \<Rightarrow> string \<Rightarrow> string \<Rightarrow> int \<times> accounts \<times> 's" where
  "sys_user_set_hash v cr s mem db name hash =
     (case find_index (\<lambda>u. ue_name u = name) (g_users db) of
        None \<Rightarrow> (-1, db, s)
      | Some i \<Rightarrow> saved v cr s mem (db\<lparr>g_users := (g_users db)[i :=
                   (g_users db ! i)\<lparr>ue_hash := take (USER_MAX_PASS - 1) hash\<rparr>]\<rparr>))"

definition sys_user_get_by_name :: "accounts \<Rightarrow> string \<Rightarrow> user_entry option" where
  "sys_user_get_by_name db name = find (\<lambda>u. ue_name u = name) (g_users db)"

definition sys_user_get_by_uid :: "accounts \<Rightarrow> u32 \<Rightarrow> user_entry option" where
  "sys_user_get_by_uid db uid = find (\<lambda>u. ue_uid u = uid) (g_users db)"

definition sys_user_get_count :: "accounts \<Rightarrow> nat" where
  "sys_user_get_count db = length (g_users db)"

definition sys_auth_user :: "bool \<Rightarrow> string \<Rightarrow> accounts \<Rightarrow> string \<Rightarrow> string \<Rightarrow> int" where
  "sys_auth_user mem garbage db name password =
     (case find (\<lambda>u. ue_name u = name) (g_users db) of
        None \<Rightarrow> -1
      | Some u \<Rightarrow> if ue_hash u = compute_hash mem garbage name password then 0 else -1)"

section \<open>Groups\<close>

definition sys_group_add ::
  "('c, 's) vfs \<Rightarrow> cred \<Rightarrow> 's \<Rightarrow> (string \<Rightarrow> bool) \<Rightarrow> accounts \<Rightarrow> string \<Rightarrow> u32 \<Rightarrow> int \<times> accounts \<times> 's" where
  "sys_group_add v cr s mem db name gid =
     (if name = [] \<or> length (g_groups db) \<ge> USER_DB_MAX then (-1, db, s)
      else if \<exists>g\<in>set (g_groups db). ge_name g = name then (-1, db, s)
      else saved v cr s mem (db\<lparr>g_groups := g_groups db @
             [\<lparr>ge_name = take (USER_MAX_NAME - 1) name, ge_gid = gid, ge_members = []\<rparr>]\<rparr>))"

definition sys_group_del ::
  "('c, 's) vfs \<Rightarrow> cred \<Rightarrow> 's \<Rightarrow> (string \<Rightarrow> bool) \<Rightarrow> accounts \<Rightarrow> string \<Rightarrow> int \<times> accounts \<times> 's" where
  "sys_group_del v cr s mem db name =
     (case find_index (\<lambda>g. ge_name g = name) (g_groups db) of
        None \<Rightarrow> (-1, db, s)
      | Some i \<Rightarrow> saved v cr s mem (db\<lparr>g_groups := take i (g_groups db) @ drop (i + 1) (g_groups db)\<rparr>))"

definition set_members :: "accounts \<Rightarrow> nat \<Rightarrow> u32 list \<Rightarrow> accounts" where
  "set_members db i ms = db\<lparr>g_groups := (g_groups db)[i := (g_groups db ! i)\<lparr>ge_members := ms\<rparr>]\<rparr>"

definition sys_group_add_member ::
  "('c, 's) vfs \<Rightarrow> cred \<Rightarrow> 's \<Rightarrow> (string \<Rightarrow> bool) \<Rightarrow> accounts \<Rightarrow> string \<Rightarrow> u32 \<Rightarrow> int \<times> accounts \<times> 's" where
  "sys_group_add_member v cr s mem db grp uid =
     (case find_index (\<lambda>g. ge_name g = grp) (g_groups db) of
        None \<Rightarrow> (-1, db, s)
      | Some i \<Rightarrow>
          let ms = ge_members (g_groups db ! i) in
          if length ms \<ge> USER_MAX_MEMBERS then (-1, db, s)
          else if uid \<in> set ms then (0, db, s)
          else saved v cr s mem (set_members db i (ms @ [uid])))"

definition sys_group_del_member ::
  "('c, 's) vfs \<Rightarrow> cred \<Rightarrow> 's \<Rightarrow> (string \<Rightarrow> bool) \<Rightarrow> accounts \<Rightarrow> string \<Rightarrow> u32 \<Rightarrow> int \<times> accounts \<times> 's" where
  "sys_group_del_member v cr s mem db grp uid =
     (case find_index (\<lambda>g. ge_name g = grp) (g_groups db) of
        None \<Rightarrow> (-1, db, s)
      | Some i \<Rightarrow>
          let ms = ge_members (g_groups db ! i) in
          (case find_index (\<lambda>m. m = uid) ms of
             None \<Rightarrow> (-1, db, s)
           | Some j \<Rightarrow> saved v cr s mem (set_members db i (take j ms @ drop (j + 1) ms))))"

definition sys_group_get_by_name :: "accounts \<Rightarrow> string \<Rightarrow> group_entry option" where
  "sys_group_get_by_name db name = find (\<lambda>g. ge_name g = name) (g_groups db)"

definition sys_group_get_by_gid :: "accounts \<Rightarrow> u32 \<Rightarrow> group_entry option" where
  "sys_group_get_by_gid db gid = find (\<lambda>g. ge_gid g = gid) (g_groups db)"

definition sys_get_default_gid :: "accounts \<Rightarrow> u32" where
  "sys_get_default_gid db = (if \<exists>g\<in>set (g_groups db). ge_gid g = 0 then 0 else 100)"

section \<open>Start\<close>

definition create_defaults ::
  "('c, 's) vfs \<Rightarrow> cred \<Rightarrow> 's \<Rightarrow> (string \<Rightarrow> bool) \<Rightarrow> bool \<Rightarrow> string \<Rightarrow> accounts \<Rightarrow> int \<times> accounts \<times> 's" where
  "create_defaults v cr s mem hmem garbage db =
     (let root_hash = compute_hash hmem garbage ''root'' ''toor'' in
      case sys_user_add v cr s mem db ''root'' 0 0 (Some ''/root'') (Some ''/bin/sh'') (Some root_hash) of
        (r, db, s) \<Rightarrow>
          if r \<noteq> 0 then (r, db, s)
          else (case sys_group_add v cr s mem db ''root'' 0 of
                  (r, db, s) \<Rightarrow>
                    if r \<noteq> 0 then (r, db, s)
                    else sys_group_add_member v cr s mem db ''root'' 0))"

definition sys_user_init ::
  "('c, 's) vfs \<Rightarrow> cred \<Rightarrow> 's \<Rightarrow> (string \<Rightarrow> bool) \<Rightarrow> bool \<Rightarrow> string \<Rightarrow> int \<times> accounts \<times> 's" where
  "sys_user_init v cr s mem hmem garbage =
     (case sys_user_load v cr s mem of
        (rc, db) \<Rightarrow> if rc = 0 then (0, db, s) else create_defaults v cr s mem hmem garbage db)"

end
