(* ===== verification/Accounts_Text.thy ===== *)
theory Accounts_Text
  imports Accounts
begin

text \<open>
  The files of the accounts as text: what \<open>sys_user_save\<close> puts into a buffer, \<open>sys_user_load\<close> reads
  back entry by entry.
\<close>

section \<open>Characters and bytes\<close>

lemma char_roundtrip [simp]: "char_of (unat (of_nat (of_char c) :: u8)) = c"
proof -
  have "(of_char c :: nat) < 2 ^ 8" by simp
  then have "unat (of_nat (of_char c) :: u8) = of_char c" by (simp add: unat_of_nat take_bit_nat_eq_self)
  then show ?thesis by simp
qed

lemma bytes_text [simp]: "map (\<lambda>b. char_of (unat b)) (map (\<lambda>c. of_nat (of_char c) :: u8) t) = t"
  by (simp add: map_idI)

section \<open>Numbers\<close>

lemma digit_schar: "d < 10 \<Longrightarrow> schar (char_of (48 + d :: nat)) = 48 + int d"
proof -
  assume d: "d < 10"
  have "(of_char (char_of (48 + d :: nat) :: char) :: nat) = (48 + d) mod 256" by (rule of_char_of)
  with d have "(of_char (char_of (48 + d :: nat) :: char) :: nat) = 48 + d" by simp
  then have "(of_char (char_of (48 + d :: nat) :: char) :: int) = int (48 + d)" by (metis of_nat_of_char)
  with d show ?thesis by (simp add: schar_def)
qed

lemma strtol_loop_append: "strtol_loop m (a @ b) v = strtol_loop m b (strtol_loop m a v)"
  by (induction m a v rule: strtol_loop.induct) simp_all

lemma strtol_digit: "d < 10 \<Longrightarrow> strtol_loop 9 [char_of (48 + d :: nat)] v = v * 10 + of_nat d"
  by (simp add: digit_schar)

lemma utoa_loop_digits: "c \<in> set (utoa_loop n pos) \<Longrightarrow> 48 \<le> schar c \<and> schar c \<le> 57"
proof (induction n pos rule: utoa_loop.induct)
  case (1 n pos)
  then show ?case using digit_schar [of "n mod 10"] by (subst (asm) (2) utoa_loop.simps) (auto split: if_splits)
qed

lemma strtol_utoa_loop:
  "n < 10 ^ (15 - pos) \<Longrightarrow> strtol_loop 9 (rev (utoa_loop n pos)) 0 = of_nat n"
proof (induction n pos rule: utoa_loop.induct)
  case (1 n pos)
  show ?case
  proof (cases "n > 0 \<and> pos < 15")
    case True
    then have "15 - pos = Suc (15 - (pos + 1))" by linarith
    then have "n div 10 < 10 ^ (15 - (pos + 1))" using 1(2) by (simp add: less_mult_imp_div_less)
    note IH = 1(1) [OF True this]
    have e: "utoa_loop n pos = char_of (48 + n mod 10) # utoa_loop (n div 10) (pos + 1)"
      using True by (subst utoa_loop.simps) simp
    have d: "n mod 10 < 10" by simp
    have "strtol_loop 9 (rev (utoa_loop n pos)) 0 = (of_nat (n div 10) :: u64) * 10 + of_nat (n mod 10)"
      by (simp only: e rev.simps strtol_loop_append IH strtol_digit [OF d])
    also have "\<dots> = of_nat (n div 10 * 10 + n mod 10)" by (simp only: of_nat_add of_nat_mult of_nat_numeral)
    finally show ?thesis by (simp only: div_mult_mod_eq)
  next
    case False
    with 1(2) have "n = 0" by (cases "15 - pos") auto
    then show ?thesis by (simp add: utoa_loop.simps)
  qed
qed

lemma utoa_digits: "c \<in> set (utoa v) \<Longrightarrow> 48 \<le> schar c \<and> schar c \<le> 57"
  using utoa_loop_digits [of c "unat v" 0] by (cases "v = 0") (simp_all add: utoa_def schar_def)

lemma utoa_no [simp]: "NUL \<notin> set (utoa v)" "CHR '':'' \<notin> set (utoa v)" "CHR '','' \<notin> set (utoa v)" "CHR 0x0A \<notin> set (utoa v)"
  using utoa_digits [of _ v] by (fastforce simp: schar_def)+

lemma strlen_NUL: "NUL \<notin> set s \<Longrightarrow> strlen (s @ [NUL]) = Some (length s)"
  by (induction s) auto

lemma parse_utoa [simp]: "parse_u32 (utoa v) = v"
proof -
  have "strtol_loop 9 (utoa v) 0 = of_nat (unat v)"
  proof (cases "v = 0")
    case True
    then show ?thesis by (simp add: utoa_def schar_def)
  next
    case False
    have "unat v < 10 ^ (15 - 0)" using unsigned_less [of v, where 'a = nat] by simp
    from strtol_utoa_loop [OF this] False show ?thesis by (simp add: utoa_def)
  qed
  then have "parse_u32 (utoa v) = ucast (of_nat (unat v) :: u64)"
    by (simp add: parse_u32_def strtol_def strlen_NUL)
  also have "\<dots> = v"
  proof -
    have N: "unat (ucast (of_nat n :: u64) :: u32) = n" if "n < 2 ^ 32" for n
      using that by (simp add: unsigned_ucast_eq unat_of_nat take_bit_nat_eq_self)
    have "unat v < 2 ^ 32" using unsigned_less [of v, where 'a = nat] by simp
    then show ?thesis by (intro word_unat_eq_iff [THEN iffD2] N)
  qed
  finally show ?thesis .
qed

lemma utoa_ne [simp]: "utoa v \<noteq> []"
proof -
  have "utoa_loop (unat v) 0 \<noteq> []" if "v \<noteq> 0"
    using that by (subst utoa_loop.simps) (simp add: unat_gt_0)
  then show ?thesis by (simp add: utoa_def)
qed

section \<open>Lines\<close>

lemma cut_at_append [simp]: "c \<notin> set a \<Longrightarrow> cut_at c (a @ c # b) = (a, Some b)"
  by (induction a) auto

lemma cut_at_none [simp]: "c \<notin> set a \<Longrightarrow> cut_at c a = (a, None)"
  by (induction a) auto

lemma file_lines_concat:
  "(\<And>x. x \<in> set xs \<Longrightarrow> CHR 0x0A \<notin> set (l x)) \<Longrightarrow> file_lines (concat (map (\<lambda>x. l x @ [CHR 0x0A]) xs)) = map l xs"
  by (induction xs) (simp_all add: file_lines.simps)

lemma load_entries_all:
  "(\<And>x. x \<in> set xs \<Longrightarrow> parse (l x) = Some (f x)) \<Longrightarrow> n + length xs \<le> USER_DB_MAX \<Longrightarrow>
     load_entries parse n (map l xs) = map f xs"
  by (induction xs arbitrary: n) auto

section \<open>The buffer\<close>

lemma put_char_fit: "length buf + 1 \<le> 4090 \<Longrightarrow> put_char c buf = buf @ [c]"
  by (simp add: put_char_def)

lemma put_string_fit: "length buf + length s \<le> 4090 \<Longrightarrow> put_string s buf = buf @ s"
  unfolding put_string_def by (induction s arbitrary: buf) (simp_all add: put_char_fit)

lemmas put_fit = put_char_fit put_string_fit

definition passwd_line :: "user_entry \<Rightarrow> string" where
  "passwd_line u = ue_name u @ '':'' @ utoa (ue_uid u) @ '':'' @ utoa (ue_gid u) @ '':'' @ ue_home u @ '':'' @ ue_shell u"

definition shadow_line :: "user_entry \<Rightarrow> string" where
  "shadow_line u = ue_name u @ '':'' @ ue_hash u"

fun comma_list :: "u32 list \<Rightarrow> string" where
  "comma_list [] = []"
| "comma_list [m] = utoa m"
| "comma_list (m # ms) = utoa m @ CHR '','' # comma_list ms"

definition group_line :: "group_entry \<Rightarrow> string" where
  "group_line g = ge_name g @ '':'' @ utoa (ge_gid g) @ '':'' @ comma_list (ge_members g)"

lemma put_passwd_line_fit:
  "length (buf @ passwd_line u @ [CHR 0x0A]) \<le> 4090 \<Longrightarrow> put_passwd_line u buf = buf @ passwd_line u @ [CHR 0x0A]"
  by (simp add: put_passwd_line_def passwd_line_def put_fit Let_def)

lemma put_shadow_line_fit:
  "length (buf @ shadow_line u @ [CHR 0x0A]) \<le> 4090 \<Longrightarrow> put_shadow_line u buf = buf @ shadow_line u @ [CHR 0x0A]"
  by (simp add: put_shadow_line_def shadow_line_def put_fit Let_def)

lemma comma_list_Cons: "comma_list (m # ms) = utoa m @ (if ms = [] then [] else CHR '','' # comma_list ms)"
  by (cases ms) simp_all

lemma put_members_fit:
  "length buf + length (comma_list ms) + 1 \<le> 4090 \<Longrightarrow>
     put_members first ms buf = buf @ (if first \<or> ms = [] then [] else '','') @ comma_list ms"
proof (induction ms arbitrary: first buf)
  case (Cons m ms)
  then show ?case by (cases "ms = []") (simp_all add: put_fit comma_list_Cons)
qed simp

lemma put_group_line_fit:
  "length (buf @ group_line g @ [CHR 0x0A]) \<le> 4090 \<Longrightarrow> put_group_line g buf = buf @ group_line g @ [CHR 0x0A]"
  by (simp add: put_group_line_def group_line_def put_fit put_members_fit Let_def)

text \<open>A text of lines is put whole when it fits.\<close>

definition text_of :: "('a \<Rightarrow> string) \<Rightarrow> 'a list \<Rightarrow> string" where
  "text_of l xs = concat (map (\<lambda>x. l x @ [CHR 0x0A]) xs)"

lemma fold_put_fit:
  assumes "\<And>x buf. length (buf @ l x @ [CHR 0x0A]) \<le> 4090 \<Longrightarrow> put x buf = buf @ l x @ [CHR 0x0A]"
    and "length (buf @ text_of l xs) \<le> 4090"
  shows "fold put xs buf = buf @ text_of l xs"
  using assms(2) by (induction xs arbitrary: buf) (simp_all add: text_of_def assms(1))

section \<open>What is read back\<close>

definition clean :: "string \<Rightarrow> nat \<Rightarrow> bool" where
  "clean s n \<longleftrightarrow> length s < n \<and> NUL \<notin> set s \<and> CHR 0x0A \<notin> set s"

definition user_ok :: "user_entry \<Rightarrow> bool" where
  "user_ok u \<longleftrightarrow> clean (ue_name u) USER_MAX_NAME \<and> clean (ue_home u) USER_MAX_NAME \<and> clean (ue_shell u) USER_MAX_NAME
     \<and> clean (ue_hash u) USER_MAX_PASS \<and> CHR '':'' \<notin> set (ue_name u) \<and> CHR '':'' \<notin> set (ue_home u)"

definition group_ok :: "group_entry \<Rightarrow> bool" where
  "group_ok g \<longleftrightarrow> clean (ge_name g) USER_MAX_NAME \<and> CHR '':'' \<notin> set (ge_name g)
     \<and> length (ge_members g) \<le> USER_MAX_MEMBERS"

text \<open>Accounts that their files can hold.\<close>

definition accounts_ok :: "accounts \<Rightarrow> bool" where
  "accounts_ok db \<longleftrightarrow> (\<forall>u\<in>set (g_users db). user_ok u) \<and> distinct (map ue_name (g_users db))
     \<and> length (g_users db) \<le> USER_DB_MAX
     \<and> (\<forall>g\<in>set (g_groups db). group_ok g) \<and> length (g_groups db) \<le> USER_DB_MAX
     \<and> length (text_of passwd_line (g_users db)) \<le> 4090 \<and> length (text_of shadow_line (g_users db)) \<le> 4090
     \<and> length (text_of group_line (g_groups db)) \<le> 4090"

lemma parse_passwd_line_ok: "user_ok u \<Longrightarrow> parse_passwd_line (passwd_line u) = Some (u\<lparr>ue_hash := []\<rparr>)"
  by (simp add: parse_passwd_line_def passwd_line_def user_ok_def clean_def user_limits)

lemma comma_list_no [simp]: "NUL \<notin> set (comma_list ms)" "CHR 0x0A \<notin> set (comma_list ms)"
  by (induction ms rule: comma_list.induct) simp_all

lemma parse_members_ok: "n + length ms \<le> USER_MAX_MEMBERS \<Longrightarrow> parse_members n (comma_list ms) = ms"
proof (induction ms arbitrary: n rule: comma_list.induct)
  case (3 m m2 ms)
  then show ?case by (subst comma_list.simps, subst parse_members.simps) simp
qed (simp_all add: parse_members.simps)

lemma parse_group_line_ok: "group_ok g \<Longrightarrow> parse_group_line (group_line g) = Some g"
  by (simp add: parse_group_line_def group_line_def group_ok_def clean_def user_limits parse_members_ok)

lemma give_hash_skip:
  "nm \<notin> ue_name ` set us \<Longrightarrow> give_hash nm h (us @ vs) = us @ give_hash nm h vs"
  by (induction us) auto

lemma shadow_ok:
  assumes "\<forall>u\<in>set (vs @ us). user_ok u" "distinct (map ue_name (vs @ us))"
  shows "fold shadow_line_step (map shadow_line us) (vs @ map (\<lambda>u. u\<lparr>ue_hash := []\<rparr>) us) = vs @ us"
  using assms
proof (induction us arbitrary: vs)
  case (Cons u us)
  have u: "user_ok u" "ue_name u \<notin> ue_name ` set vs" using Cons.prems by auto
  then have "shadow_line_step (shadow_line u) (vs @ u\<lparr>ue_hash := []\<rparr> # map (\<lambda>u. u\<lparr>ue_hash := []\<rparr>) us)
      = (vs @ [u]) @ map (\<lambda>u. u\<lparr>ue_hash := []\<rparr>) us"
    by (simp add: shadow_line_step_def shadow_line_def user_ok_def clean_def give_hash_skip user_limits)
  with Cons.IH [of "vs @ [u]"] Cons.prems show ?case by simp
qed simp

lemma text_of_lines:
  "(\<And>x. x \<in> set xs \<Longrightarrow> CHR 0x0A \<notin> set (l x)) \<Longrightarrow> file_lines (text_of l xs) = map l xs"
  unfolding text_of_def by (rule file_lines_concat)

lemma line_clean:
  "user_ok u \<Longrightarrow> CHR 0x0A \<notin> set (passwd_line u) \<and> NUL \<notin> set (passwd_line u)"
  "user_ok u \<Longrightarrow> CHR 0x0A \<notin> set (shadow_line u) \<and> NUL \<notin> set (shadow_line u)"
  "group_ok g \<Longrightarrow> CHR 0x0A \<notin> set (group_line g) \<and> NUL \<notin> set (group_line g)"
  by (simp_all add: passwd_line_def shadow_line_def group_line_def user_ok_def group_ok_def clean_def)

lemma text_no_NUL: "(\<And>x. x \<in> set xs \<Longrightarrow> NUL \<notin> set (l x)) \<Longrightarrow> NUL \<notin> set (text_of l xs)"
  by (induction xs) (auto simp: text_of_def)

text \<open>The three texts, and the three loops that read them.\<close>

lemma accounts_text:
  assumes "accounts_ok db"
  shows "fold put_passwd_line (g_users db) [] = text_of passwd_line (g_users db)"
    "fold put_shadow_line (g_users db) [] = text_of shadow_line (g_users db)"
    "fold put_group_line (g_groups db) [] = text_of group_line (g_groups db)"
  using assms fold_put_fit [where put = put_passwd_line and l = passwd_line and buf = "[]", OF put_passwd_line_fit]
    fold_put_fit [where put = put_shadow_line and l = shadow_line and buf = "[]", OF put_shadow_line_fit]
    fold_put_fit [where put = put_group_line and l = group_line and buf = "[]", OF put_group_line_fit]
  by (simp_all add: accounts_ok_def)

lemma accounts_parse:
  assumes "accounts_ok db"
  shows "load_entries parse_passwd_line 0 (file_lines (text_of passwd_line (g_users db)))
      = map (\<lambda>u. u\<lparr>ue_hash := []\<rparr>) (g_users db)"
    and "fold shadow_line_step (file_lines (text_of shadow_line (g_users db))) (map (\<lambda>u. u\<lparr>ue_hash := []\<rparr>) (g_users db))
      = g_users db"
    and "load_entries parse_group_line 0 (file_lines (text_of group_line (g_groups db))) = g_groups db"
proof -
  have u: "\<And>u. u \<in> set (g_users db) \<Longrightarrow> user_ok u" and g: "\<And>g. g \<in> set (g_groups db) \<Longrightarrow> group_ok g"
    and d: "distinct (map ue_name (g_users db))" "length (g_users db) \<le> USER_DB_MAX" "length (g_groups db) \<le> USER_DB_MAX"
    using assms by (auto simp: accounts_ok_def)
  show "load_entries parse_passwd_line 0 (file_lines (text_of passwd_line (g_users db)))
      = map (\<lambda>u. u\<lparr>ue_hash := []\<rparr>) (g_users db)"
    using u d(2) by (simp add: text_of_lines line_clean load_entries_all parse_passwd_line_ok)
  show "fold shadow_line_step (file_lines (text_of shadow_line (g_users db))) (map (\<lambda>u. u\<lparr>ue_hash := []\<rparr>) (g_users db)) = g_users db"
    using shadow_ok [of "[]" "g_users db"] u d(1) by (simp add: text_of_lines line_clean)
  show "load_entries parse_group_line 0 (file_lines (text_of group_line (g_groups db))) = g_groups db"
    using load_entries_all [of "g_groups db" parse_group_line group_line "\<lambda>g. g" 0] g d(3)
    by (simp add: text_of_lines line_clean parse_group_line_ok)
qed

end
