(* ===== verification/Accounts_Props.thy ===== *)
theory Accounts_Props
  imports Accounts_Text Vfs_Props
begin

text \<open>
  Saving and loading the accounts. The locale is what \<open>sys/user.c\<close> relies on in the file system; it
  is proved for files in memory, below the root mount or on a mount of their own at \<open>/etc\<close>.
\<close>

section \<open>The contract\<close>

definition etc_names :: "string list" where "etc_names = [''passwd'', ''shadow'', ''group'']"

text \<open>
  The three files exist; \<open>holds s n bytes\<close> says what is in one, and \<open>room s\<close> is the number of bytes
  that can still be stored.
\<close>

locale etc_files =
  fixes v :: "('c, 's) vfs" and cr :: cred
    and holds :: "'s \<Rightarrow> string \<Rightarrow> u8 list \<Rightarrow> bool" and room :: "'s \<Rightarrow> nat"
  assumes dir_law: "holds s n b \<Longrightarrow> fs_exists v s ''/etc''"
    and exists_law: "holds s n b \<Longrightarrow> fs_exists v s (''/etc/'' @ n)"
    and size_law: "holds s n b \<Longrightarrow> fs_read_file v cr s (''/etc/'' @ n) None 0 = (0, Some (length b), None)"
    and read_law: "holds s n b \<Longrightarrow> length buf = length b \<Longrightarrow>
      fs_read_file v cr s (''/etc/'' @ n) (Some buf) (length b) = (0, Some (length b), Some b)"
    and write_law: "holds s n old \<Longrightarrow> length b \<le> room s \<Longrightarrow>
      \<exists>s'. fs_write_file v cr s (''/etc/'' @ n) b = (0, s') \<and> holds s' n b \<and> room s \<le> room s' + length b
        \<and> (\<forall>m c. m \<noteq> n \<longrightarrow> holds s m c \<longrightarrow> holds s' m c)"
begin

lemma read_text_holds:
  assumes "holds s n (map (\<lambda>c. of_nat (of_char c)) t)" "NUL \<notin> set t" "mem (''/etc/'' @ n)"
  shows "read_text v cr s mem (''/etc/'' @ n) = (if t = [] then None else Some t)"
proof -
  define bs where "bs = map (\<lambda>c. of_nat (of_char c) :: u8) t"
  have t: "map (\<lambda>b. char_of (unat b)) bs = t" "length bs = length t" unfolding bs_def bytes_text by simp_all
  have w: "takeWhile (\<lambda>c. c \<noteq> NUL) t = t" unfolding takeWhile_eq_all_conv using assms(2) by auto
  note h = assms(1) [folded bs_def]
  have r: "fs_read_file v cr s (''/etc/'' @ n) (Some (replicate (length t) 0)) (length t) = (0, Some (length t), Some bs)"
    using read_law [OF h, of "replicate (length t) 0"] t(2) by simp
  have z: "fs_read_file v cr s (''/etc/'' @ n) None 0 = (0, Some (length t), None)"
    using size_law [OF h] t(2) by simp
  have tk: "take (length t) bs = bs" using t(2) by simp
  show ?thesis
  proof (cases "t = []")
    case True
    then show ?thesis unfolding read_text_def z by simp
  next
    case False
    then show ?thesis unfolding read_text_def z using assms(3) by (simp add: r [simplified] tk t(1) w)
  qed
qed

lemma save_text_holds:
  assumes "holds s n old" "length t \<le> room s"
  shows "holds (save_text v cr s n t) n (map (\<lambda>c. of_nat (of_char c)) t)"
    and "room s \<le> room (save_text v cr s n t) + length t"
    and "m \<noteq> n \<Longrightarrow> holds s m c \<Longrightarrow> holds (save_text v cr s n t) m c"
proof -
  have e: "fs_exists v s (''/etc/'' @ n)" by (rule exists_law [OF assms(1)])
  obtain s' where w: "fs_write_file v cr s (''/etc/'' @ n) (map (\<lambda>c. of_nat (of_char c)) t) = (0, s')"
    "holds s' n (map (\<lambda>c. of_nat (of_char c)) t)" "room s \<le> room s' + length t"
    "\<forall>m c. m \<noteq> n \<longrightarrow> holds s m c \<longrightarrow> holds s' m c"
    using write_law [OF assms(1), of "map (\<lambda>c. of_nat (of_char c)) t"] assms(2) by auto
  have s': "save_text v cr s n t = s'" using e w(1) by (simp add: save_text_def)
  show "holds (save_text v cr s n t) n (map (\<lambda>c. of_nat (of_char c)) t)"
    "room s \<le> room (save_text v cr s n t) + length t"
    "m \<noteq> n \<Longrightarrow> holds s m c \<Longrightarrow> holds (save_text v cr s n t) m c"
    using w(2-4) by (simp_all add: s')
qed

lemma save_then_load:
  assumes ok: "accounts_ok db" "g_users db \<noteq> [] \<or> g_groups db \<noteq> []"
    and mem: "mem ''/etc/passwd''" "mem ''/etc/shadow''" "mem ''/etc/group''"
    and files: "holds s ''passwd'' b1" "holds s ''shadow'' b2" "holds s ''group'' b3"
    and room: "length (text_of passwd_line (g_users db)) + length (text_of shadow_line (g_users db))
      + length (text_of group_line (g_groups db)) \<le> room s"
  shows "\<exists>s'. sys_user_save v cr s mem db = (0, s') \<and> sys_user_load v cr s' mem = (0, db)"
proof -
  let ?p = "text_of passwd_line (g_users db)" and ?h = "text_of shadow_line (g_users db)"
    and ?g = "text_of group_line (g_groups db)"
  let ?s1 = "save_text v cr s ''passwd'' ?p"
  let ?s2 = "save_text v cr ?s1 ''shadow'' ?h"
  let ?s3 = "save_text v cr ?s2 ''group'' ?g"
  let ?b = "map (\<lambda>c. of_nat (of_char c) :: u8)"
  have r1: "length ?p \<le> room s" using room by simp
  note a = save_text_holds [OF files(1) r1]
  have h1: "holds ?s1 ''shadow'' b2" "holds ?s1 ''group'' b3" using a(3) files by simp_all
  have r2: "length ?h \<le> room ?s1" using room a(2) by simp
  note b = save_text_holds [OF h1(1) r2]
  have h2: "holds ?s2 ''passwd'' (?b ?p)" "holds ?s2 ''group'' b3" using b(3) a(1) h1(2) by simp_all
  have r3: "length ?g \<le> room ?s2" using room a(2) b(2) by simp
  note c = save_text_holds [OF h2(2) r3]
  have h3: "holds ?s3 ''passwd'' (?b ?p)" "holds ?s3 ''shadow'' (?b ?h)" using c(3) h2(1) b(1) by simp_all
  have save: "sys_user_save v cr s mem db = (0, ?s3)"
    using dir_law [OF files(1)] mem
    by (simp add: sys_user_save_def ensure_etc_dir_def accounts_text [OF ok(1)] Let_def)
  have nul: "NUL \<notin> set ?p" "NUL \<notin> set ?h" "NUL \<notin> set ?g"
    using ok(1) line_clean by (auto simp: accounts_ok_def intro!: text_no_NUL)
  have t: "read_text v cr ?s3 mem ''/etc/passwd'' = (if ?p = [] then None else Some ?p)"
    "read_text v cr ?s3 mem ''/etc/shadow'' = (if ?h = [] then None else Some ?h)"
    "read_text v cr ?s3 mem ''/etc/group'' = (if ?g = [] then None else Some ?g)"
    using read_text_holds [OF h3(1) nul(1)] read_text_holds [OF h3(2) nul(2)] read_text_holds [OF c(1) nul(3)] mem
    by simp_all
  have e: "fs_exists v ?s3 ''/etc/passwd''" "fs_exists v ?s3 ''/etc/shadow''" "fs_exists v ?s3 ''/etc/group''"
    using exists_law [OF h3(1)] exists_law [OF h3(2)] exists_law [OF c(1)] by simp_all
  have empty: "text_of l xs = [] \<longleftrightarrow> xs = []" for l :: "'b \<Rightarrow> string" and xs by (cases xs) (simp_all add: text_of_def)
  have "sys_user_load v cr ?s3 mem = (0, db)"
    using ok(2) t e accounts_parse [OF ok(1)]
    by (cases "g_users db = []"; cases "g_groups db = []")
      (simp_all add: sys_user_load_def load_passwd_def load_shadow_def load_group_def empty)
  with save show ?thesis by blast
qed

end
section \<open>Files in memory\<close>

text \<open>
  The files of \<open>/etc\<close> lie in the file system in memory with context \<open>c\<close>, at the directory \<open>pre\<close>
  there: \<open>/etc\<close> itself when it is mounted at the root, the empty string when it is mounted
  at \<open>/etc\<close>.
\<close>

definition serves :: "('c, 'c \<Rightarrow> ramfs) vfs \<Rightarrow> 'c \<Rightarrow> string \<Rightarrow> string \<Rightarrow> bool" where
  "serves v c path rel \<longleftrightarrow>
     (\<exists>i m. vfs_find_mount v path = Some (i, m, rel) \<and> m_ops m = g_ramfs_ops \<and> m_ctx m = c)"

definition etc_mounted :: "('c, 'c \<Rightarrow> ramfs) vfs \<Rightarrow> 'c \<Rightarrow> string \<Rightarrow> bool" where
  "etc_mounted v c pre \<longleftrightarrow> pre \<in> {'''', ''/etc''} \<and> serves v c ''/etc'' (if pre = [] then ''/'' else pre)
     \<and> (\<forall>n\<in>set etc_names. serves v c (''/etc/'' @ n) (pre @ ''/'' @ n))"

definition etc_holds ::
  "('c, 'c \<Rightarrow> ramfs) vfs \<Rightarrow> cred \<Rightarrow> 'c \<Rightarrow> string \<Rightarrow> ('c \<Rightarrow> ramfs) \<Rightarrow> string \<Rightarrow> u8 list \<Rightarrow> bool" where
  "etc_holds v cr c pre s n b \<longleftrightarrow> cr_uid cr = 0 \<and> etc_mounted v c pre \<and> n \<in> set etc_names
     \<and> ramfs_inv (s c) \<and> (\<exists>a. ramfs_view (s c) (path_tokens (pre @ ''/'' @ n)) = Some (File b, a))"

definition etc_room :: "'c \<Rightarrow> ('c \<Rightarrow> ramfs) \<Rightarrow> nat" where
  "etc_room c s = RAMFS_MAX_FILE_BYTES - file_pool_used (s c)"

lemma etc_tokens:
  assumes "pre \<in> {'''', ''/etc''}" "n \<in> set etc_names"
  shows "path_tokens (pre @ ''/'' @ n) = (if pre = [] then [] else [''etc'']) @ [n]" "abs_path (pre @ ''/'' @ n)"
    "path_tokens (if pre = [] then ''/'' else pre) = (if pre = [] then [] else [''etc''])"
    "abs_path (if pre = [] then ''/'' else pre)"
  using assms
  by (auto simp: etc_names_def abs_path_def path_tokens.simps ramfs_path_next_def VFS_MAX_NAME_def)

lemma ramfs_write_existing:
  assumes inv: "ramfs_inv fs" and ab: "abs_path p" and v: "ramfs_view fs (path_tokens p) = Some (File old, a)"
    and room: "length b \<le> RAMFS_MAX_FILE_BYTES - file_pool_used fs"
  shows "\<exists>fs'. ramfs_op_write_file u fs p b = (0, fs') \<and> ramfs_inv fs'
    \<and> ramfs_view fs' = (ramfs_view fs)(path_tokens p \<mapsto> (File b, a))
    \<and> file_pool_used fs' \<le> file_pool_used fs + length b"
proof -
  obtain rc fs' where op: "ramfs_op_create_file u fs p 0 b = (rc, fs')" by fastforce
  have used: "file_pool_used fs \<le> RAMFS_MAX_FILE_BYTES" by (rule ramfs_invD(4) [OF inv])
  then have fit: "file_pool_used fs + length b \<le> RAMFS_MAX_FILE_BYTES" using room by linarith
  then have len: "length b < 2 ^ 63" by (simp add: RAMFS_MAX_FILE_BYTES_def)
  note C = create_file_spec [OF inv len op]
  have rc: "rc = 0" using C ab v fit by blast
  then have V: "ramfs_view fs' = (ramfs_view fs)(path_tokens p \<mapsto> (File b, a))" "ramfs_inv fs'" using C v by auto
  obtain r out fs1 where r: "ramfs_resolve fs p True = (r, out, fs1)" by (cases "ramfs_resolve fs p True") auto
  note R = resolve_True [OF inv r]
  have "\<exists>k. r = Inr k"
  proof (cases r)
    case (Inl e)
    then have "ramfs_view fs (path_tokens p) = None" using R ab by (auto split: if_splits)
    with v show ?thesis by simp
  qed simp
  then obtain k where "r = Inr k" ..
  with R op r have st: "ramfs_store fs k b = (0, fs')" by (auto simp: ramfs_op_create_file_def rc)
  then have "file_pool_used fs' \<le> file_pool_used fs + length b"
    by (auto simp: ramfs_store_def ramfs_alloc_bytes_def Let_def split: if_splits option.splits prod.splits)
  with V rc op show ?thesis by (auto simp: ramfs_op_write_file_def)
qed

lemma etc_holdsD:
  assumes "etc_holds v cr c pre s n b"
  obtains i m a where "vfs_find_mount v (''/etc/'' @ n) = Some (i, m, pre @ ''/'' @ n)" "m_ops m = g_ramfs_ops"
    "m_ctx m = c" "cr_uid cr = 0" "ramfs_inv (s c)" "abs_path (pre @ ''/'' @ n)"
    "ramfs_view (s c) (path_tokens (pre @ ''/'' @ n)) = Some (File b, a)"
  using assms etc_tokens(2) [of pre n] unfolding etc_holds_def etc_mounted_def serves_def by blast

interpretation etc: etc_files v cr "etc_holds v cr c pre" "etc_room c" for v cr c pre
proof
  fix s n b assume h: "etc_holds v cr c pre s n b"
  obtain i m a where m: "vfs_find_mount v (''/etc/'' @ n) = Some (i, m, pre @ ''/'' @ n)" "m_ops m = g_ramfs_ops"
    "m_ctx m = c" and u: "cr_uid cr = 0" and inv: "ramfs_inv (s c)" and ab: "abs_path (pre @ ''/'' @ n)"
    and w: "ramfs_view (s c) (path_tokens (pre @ ''/'' @ n)) = Some (File b, a)" by (rule etc_holdsD [OF h])
  have pn: "pre \<in> {'''', ''/etc''}" "n \<in> set etc_names" and sv: "serves v c ''/etc'' (if pre = [] then ''/'' else pre)"
    using h by (auto simp: etc_holds_def etc_mounted_def)
  note r = read_file_eq [OF inv ab]
  show "fs_exists v s ''/etc''"
  proof -
    have "ramfs_view (s c) (path_tokens (if pre = [] then ''/'' else pre)) \<noteq> None"
    proof
      assume "ramfs_view (s c) (path_tokens (if pre = [] then ''/'' else pre)) = None"
      then have "lookup (s c) (path_tokens (pre @ ''/'' @ n)) = None"
        using etc_tokens(1,3) [OF pn] by (simp add: view_None_iff)
      with w show False by (simp add: view_None_iff [symmetric])
    qed
    then have "ramfs_op_exists (s c) (if pre = [] then ''/'' else pre) \<noteq> 0"
      using resolve_view_False [OF inv etc_tokens(4) [OF pn]] by (auto simp: ramfs_op_exists_def)
    with sv show ?thesis by (auto simp: serves_def fs_exists_def vfs_exists_def g_ramfs_ops_def)
  qed
  show "fs_exists v s (''/etc/'' @ n)"
    using resolve_view_False [OF inv ab] w m
    by (auto simp: fs_exists_def vfs_exists_def g_ramfs_ops_def ramfs_op_exists_def)
  show "fs_read_file v cr s (''/etc/'' @ n) None 0 = (0, Some (length b), None)"
    using m r w u by (simp add: fs_read_file_def vfs_read_file_def vfs_perm_check_def g_ramfs_ops_def)
  show "fs_read_file v cr s (''/etc/'' @ n) (Some buf) (length b) = (0, Some (length b), Some b)"
    if "length buf = length b" for buf
    using m r w u that by (simp add: fs_read_file_def vfs_read_file_def vfs_perm_check_def g_ramfs_ops_def)
next
  fix s n old and b :: "u8 list" assume h: "etc_holds v cr c pre s n old" and room: "length b \<le> etc_room c s"
  obtain i m a where m: "vfs_find_mount v (''/etc/'' @ n) = Some (i, m, pre @ ''/'' @ n)" "m_ops m = g_ramfs_ops"
    "m_ctx m = c" and u: "cr_uid cr = 0" and inv: "ramfs_inv (s c)" and ab: "abs_path (pre @ ''/'' @ n)"
    and w: "ramfs_view (s c) (path_tokens (pre @ ''/'' @ n)) = Some (File old, a)" by (rule etc_holdsD [OF h])
  obtain fs' where f: "ramfs_op_write_file 0 (s c) (pre @ ''/'' @ n) b = (0, fs')" "ramfs_inv fs'"
    "ramfs_view fs' = (ramfs_view (s c))(path_tokens (pre @ ''/'' @ n) \<mapsto> (File b, a))"
    "file_pool_used fs' \<le> file_pool_used (s c) + length b"
    using ramfs_write_existing [OF inv ab w] room unfolding etc_room_def by blast
  let ?s = "s(c := fs')"
  have "fs_write_file v cr s (''/etc/'' @ n) b = (0, ?s)"
    using m u f(1) by (simp add: fs_write_file_def vfs_write_file_def vfs_perm_check_def g_ramfs_ops_def on_ctx_def)
  moreover have "etc_holds v cr c pre ?s n b" using h f by (cases a) (simp add: etc_holds_def)
  moreover have "etc_room c s \<le> etc_room c ?s + length b" using f(4) by (simp add: etc_room_def)
  moreover have "etc_holds v cr c pre ?s k d" if "k \<noteq> n" "etc_holds v cr c pre s k d" for k d
  proof -
    have "pre \<in> {'''', ''/etc''}" "n \<in> set etc_names" "k \<in> set etc_names"
      using h that(2) by (auto simp: etc_holds_def etc_mounted_def)
    then have "path_tokens (pre @ ''/'' @ k) \<noteq> path_tokens (pre @ ''/'' @ n)" using that(1) by (simp only: etc_tokens) simp
    with that(2) f show ?thesis by (simp add: etc_holds_def)
  qed
  ultimately show "\<exists>s'. fs_write_file v cr s (''/etc/'' @ n) b = (0, s') \<and> etc_holds v cr c pre s' n b
      \<and> etc_room c s \<le> etc_room c s' + length b
      \<and> (\<forall>m c'. m \<noteq> n \<longrightarrow> etc_holds v cr c pre s m c' \<longrightarrow> etc_holds v cr c pre s' m c')" by blast
qed
section \<open>Password hashes\<close>

lemma hex_digit_inj: "i < 16 \<Longrightarrow> j < 16 \<Longrightarrow> hex_digit i = hex_digit j \<Longrightarrow> i = j"
proof -
  assume "i < 16" "j < 16" "hex_digit i = hex_digit j"
  moreover have "distinct ''0123456789abcdef''" by simp
  ultimately show ?thesis unfolding hex_digit_def by (subst (asm) nth_eq_iff_index_eq) simp_all
qed

lemma nibble_less: "unat (b AND 0xF :: u8) < 16"
proof -
  have "(b AND 0xF) \<le> 0xF" by (rule word_and_le1)
  then show ?thesis by (simp add: word_le_nat_alt)
qed

lemma nibbles_inj:
  fixes a b :: u8
  assumes "drop_bit 4 a AND 0xF = drop_bit 4 b AND 0xF" "a AND 0xF = b AND 0xF"
  shows "a = b"
proof (rule bit_word_eqI)
  fix n assume n: "n < LENGTH(8)"
  have M: "(0xF :: u8) = mask 4" by (simp add: mask_eq_exp_minus_1)
  have m: "bit (0xF :: u8) k \<longleftrightarrow> k < 4" if "k < 8" for k unfolding M using that by (simp add: bit_mask_iff)
  show "bit a n = bit b n"
  proof (cases "n < 4")
    case True
    have "bit (a AND 0xF) n = bit (b AND 0xF) n" using assms(2) by simp
    with m [of n] True show ?thesis by (simp add: bit_and_iff)
  next
    case False
    then have "n - 4 < 4" "4 + (n - 4) = n" using n by simp_all
    have "bit (drop_bit 4 a AND 0xF) (n - 4) = bit (drop_bit 4 b AND 0xF) (n - 4)" using assms(1) by simp
    with m [of "n - 4"] \<open>n - 4 < 4\<close> \<open>4 + (n - 4) = n\<close> show ?thesis by (simp add: bit_and_iff bit_drop_bit_eq)
  qed
qed

lemma byte_hex_inj:
  fixes a b :: u8
  assumes "hex_digit (unat (drop_bit 4 a AND 0xF)) = hex_digit (unat (drop_bit 4 b AND 0xF))"
    "hex_digit (unat (a AND 0xF)) = hex_digit (unat (b AND 0xF))"
  shows "a = b"
  by (rule nibbles_inj [OF unsigned_word_eqI [OF hex_digit_inj [OF nibble_less nibble_less assms(1)]]
        unsigned_word_eqI [OF hex_digit_inj [OF nibble_less nibble_less assms(2)]]])

lemma bytes_to_hex_inj: "length as = length bs \<Longrightarrow> bytes_to_hex as = bytes_to_hex bs \<Longrightarrow> as = bs"
  by (induction as bs rule: list_induct2) (auto simp: bytes_to_hex_def dest: byte_hex_inj)

lemma length_hex: "length (bytes_to_hex bs) = 2 * length bs"
  by (induction bs) (simp_all add: bytes_to_hex_def)

lemma word_bytes_inj:
  fixes h k :: u64
  assumes "map (\<lambda>i. ucast (drop_bit (56 - i * 8) h) :: u8) [0..<8] = map (\<lambda>i. ucast (drop_bit (56 - i * 8) k)) [0..<8]"
  shows "h = k"
proof (rule bit_word_eqI)
  fix n assume n: "n < LENGTH(64)"
  define i where "i = 7 - n div 8"
  define q where "q = n div 8"
  define r where "r = n mod 8"
  have qr: "n = 8 * q + r" "r < 8" unfolding q_def r_def by simp_all
  then have "q < 8" using n by simp
  then have i: "i \<in> set [0..<8]" "56 - i * 8 + n mod 8 = n"
    using qr unfolding i_def q_def [symmetric] r_def [symmetric] by auto
  from assms i(1) have "(ucast (drop_bit (56 - i * 8) h) :: u8) = ucast (drop_bit (56 - i * 8) k)" by (simp only: map_eq_conv)
  then have "bit (ucast (drop_bit (56 - i * 8) h) :: u8) (n mod 8) = bit (ucast (drop_bit (56 - i * 8) k) :: u8) (n mod 8)" by simp
  then show "bit h n = bit k n" using i(2) by (simp add: bit_ucast_iff bit_drop_bit_eq)
qed

lemma compute_hash_eq:
  "compute_hash True g a p = compute_hash True g' b q \<longleftrightarrow> fnv1a_hash (a @ '':'' @ p) = fnv1a_hash (b @ '':'' @ q)"
proof
  assume "compute_hash True g a p = compute_hash True g' b q"
  then show "fnv1a_hash (a @ '':'' @ p) = fnv1a_hash (b @ '':'' @ q)"
    unfolding compute_hash_def Let_def by (intro word_bytes_inj bytes_to_hex_inj) simp_all
qed (simp add: compute_hash_def)

lemma length_compute_hash: "length (compute_hash True g a p) = 16"
  by (simp add: compute_hash_def length_hex)
section \<open>Properties\<close>

text \<open>
  C23. Saved accounts load as they were. For users and groups, at least one, that the files can hold (no separator in a
  name, buffers long enough, no two users of one name, each file at most 4090 bytes), saved by the super
  user to the three files of \<open>/etc\<close>, which exist in a file system in memory with room for them that serves
  \<open>/etc\<close> below the root or on its own mount, and with memory for the buffers, \<open>sys_user_save\<close> succeeds and
  \<open>sys_user_load\<close> then gives back every user with uid, gid, home, shell and hash, and every group
  with its members, in the same order.
\<close>

theorem accounts_save_load:
  assumes "accounts_ok db" "g_users db \<noteq> [] \<or> g_groups db \<noteq> []"
    and "mem ''/etc/passwd''" "mem ''/etc/shadow''" "mem ''/etc/group''"
    and "cr_uid cr = 0" "etc_mounted v c pre" "ramfs_inv (s c)"
    and "\<forall>n\<in>set etc_names. \<exists>old a. ramfs_view (s c) (path_tokens (pre @ ''/'' @ n)) = Some (File old, a)"
    and "length (text_of passwd_line (g_users db)) + length (text_of shadow_line (g_users db))
      + length (text_of group_line (g_groups db)) \<le> RAMFS_MAX_FILE_BYTES - file_pool_used (s c)"
  shows "\<exists>s'. sys_user_save v cr s mem db = (0, s') \<and> sys_user_load v cr s' mem = (0, db)"
proof -
  have "\<exists>b. etc_holds v cr c pre s n b" if "n \<in> set etc_names" for n
    using assms(6-9) that unfolding etc_holds_def by blast
  then obtain b1 b2 b3 where "etc_holds v cr c pre s ''passwd'' b1" "etc_holds v cr c pre s ''shadow'' b2"
    "etc_holds v cr c pre s ''group'' b3" by (fastforce simp: etc_names_def)
  from etc.save_then_load [OF assms(1-5) this] assms(10) show ?thesis by (simp add: etc_room_def)
qed

lemma find_append: "find P (xs @ ys) = (case find P xs of None \<Rightarrow> find P ys | Some x \<Rightarrow> Some x)"
  by (induction xs) simp_all

lemma sys_user_add_0:
  assumes "sys_user_add v cr s mem db nm u gr hm sh (Some h) = (0, db', s')" "length h < USER_MAX_PASS"
  obtains e where "g_users db' = g_users db @ [e]" "ue_name e = take (USER_MAX_NAME - 1) nm" "ue_hash e = h"
    "nm \<noteq> []" "\<forall>u\<in>set (g_users db). ue_name u \<noteq> nm"
  using assms by (auto simp: sys_user_add_def saved_def Let_def user_limits split: if_splits)

text \<open>
  C24. Whom the system lets in. After \<open>sys_user_add\<close> with the hash of a password, a user whose name
  fits its buffer of 32 bytes gets in with exactly the passwords of the same 64-bit hash, as long as there is memory to
  compute it; without, the stack buffer is compared as it is, and the password does not
  matter. Whoever else got in before gets in as before. A longer name is cut, the check for duplicates and the look-up
  compare the whole name: that user never gets in, and can be added again.
\<close>

theorem auth_after_add:
  assumes "sys_user_add v cr s mem db nm u gr hm sh (Some (compute_hash True g nm pw)) = (0, db', s')"
    and "\<forall>e\<in>set (g_users db). length (ue_name e) < USER_MAX_NAME"
  shows "(length nm < USER_MAX_NAME \<longrightarrow> (\<forall>pw' g'.
        (sys_auth_user True g' db' nm pw' = 0 \<longleftrightarrow> fnv1a_hash (nm @ '':'' @ pw') = fnv1a_hash (nm @ '':'' @ pw))
        \<and> (sys_auth_user False g' db' nm pw' = 0 \<longleftrightarrow> g' = compute_hash True g nm pw)))
    \<and> (\<forall>other pw' m g'. other \<noteq> take (USER_MAX_NAME - 1) nm \<longrightarrow>
        sys_auth_user m g' db' other pw' = sys_auth_user m g' db other pw')
    \<and> (USER_MAX_NAME \<le> length nm \<longrightarrow> (\<forall>pw' m g'. sys_auth_user m g' db' nm pw' = -1)
        \<and> (length (g_users db') < USER_DB_MAX \<longrightarrow> fst (sys_user_add v cr s' mem db' nm u gr hm sh hash) = 0))"
proof -
  obtain e where e: "g_users db' = g_users db @ [e]" "ue_name e = take (USER_MAX_NAME - 1) nm"
    "ue_hash e = compute_hash True g nm pw" "nm \<noteq> []" "\<forall>u\<in>set (g_users db). ue_name u \<noteq> nm"
    using assms(1) by (rule sys_user_add_0) (simp add: length_compute_hash USER_MAX_PASS_def)
  have none: "find (\<lambda>u. ue_name u = nm) (g_users db) = None" using e(5) by (auto simp: find_None_iff)
  have "sys_auth_user True g' db' nm pw' = 0 \<longleftrightarrow> fnv1a_hash (nm @ '':'' @ pw') = fnv1a_hash (nm @ '':'' @ pw)"
    "sys_auth_user False g' db' nm pw' = 0 \<longleftrightarrow> g' = compute_hash True g nm pw"
    if "length nm < USER_MAX_NAME" for pw' g'
    using that e none compute_hash_eq [of g nm pw g' nm pw'] compute_hash_def [of False]
    by (auto simp: sys_auth_user_def find_append user_limits)
  moreover have "sys_auth_user m g' db' other pw' = sys_auth_user m g' db other pw'"
    if "other \<noteq> take (USER_MAX_NAME - 1) nm" for other pw' m g'
    using that e by (simp add: sys_auth_user_def find_append eq_commute [of other] split: option.split)
  moreover have "sys_auth_user m g' db' nm pw' = -1" if "USER_MAX_NAME \<le> length nm" for pw' m g'
  proof -
    have "take (USER_MAX_NAME - 1) nm \<noteq> nm" using that by (auto simp: USER_MAX_NAME_def take_all_iff)
    then show ?thesis using e none by (simp add: sys_auth_user_def find_append)
  qed
  moreover have "fst (sys_user_add v cr s' mem db' nm u gr hm sh hash) = 0"
    if "USER_MAX_NAME \<le> length nm" "length (g_users db') < USER_DB_MAX"
  proof -
    have "take (USER_MAX_NAME - 1) nm \<noteq> nm" using that by (auto simp: USER_MAX_NAME_def take_all_iff)
    then show ?thesis using e that(2) by (auto simp: sys_user_add_def saved_def Let_def)
  qed
  ultimately show ?thesis by blast
qed

section \<open>Examples\<close>

text \<open>A file system in memory, mounted at \<open>/etc\<close>, with three empty files.\<close>

definition etc_node :: "string \<Rightarrow> ramfs_node" where
  "etc_node n = zero_node\<lparr>used := True, ramfs_node.name := n, mode := 0x1A4\<rparr>"

definition etc_ex :: ramfs where
  "etc_ex = \<lparr>nodes = (\<lambda>_. zero_node)(0 := zero_node\<lparr>used := True, ntype := RAMFS_NODE_DIR, ramfs_node.name := ''/'',
       children := [1, 2, 3] @ replicate (RAMFS_MAX_CHILDREN - 3) 0, child_count := 3\<rparr>,
       1 := etc_node ''passwd'', 2 := etc_node ''shadow'', 3 := etc_node ''group''),
     file_pool = (\<lambda>_. 0), file_pool_used = 0, root_index = 0\<rparr>"

definition etc_vfs :: "(nat, nat \<Rightarrow> ramfs) vfs" where
  "etc_vfs = \<lparr>g_mounts = [Some \<lparr>mount_point = ''/'', m_ops = g_ramfs_ops, m_ctx = 0\<rparr>,
                        Some \<lparr>mount_point = ''/etc'', m_ops = g_ramfs_ops, m_ctx = 1\<rparr>],
     g_overlay_mount_path = []\<rparr>"

lemma etc_vfs_mounted: "etc_mounted etc_vfs 1 ''''"
  by (simp add: etc_mounted_def serves_def etc_names_def vfs_find_mount_def etc_vfs_def vfs_path_is_prefix_def char_at_def)

lemma etc_ex_nodes:
  "ndata (nodes etc_ex i) = None" "kids etc_ex i = (if i = 0 then [1, 2, 3] else [])"
  "node_ok 0 (nodes etc_ex i)"
  by (auto simp: etc_ex_def etc_node_def zero_node_def kids_def RAMFS_MAX_CHILDREN_def node_ok_def VFS_MAX_NAME_def numeral_3_eq_3)

lemma etc_ex_inv: "ramfs_inv etc_ex"
proof -
  have "links_ok etc_ex i" for i
    by (auto simp: links_ok_def etc_ex_nodes(2)) (auto simp: etc_ex_def etc_node_def zero_node_def RAMFS_MAX_NODES_def)
  moreover have "apart (nodes etc_ex i) (nodes etc_ex j)" for i j by (simp add: apart_def etc_ex_nodes(1))
  moreover have "node_ok (file_pool_used etc_ex) (nodes etc_ex i)" for i
  proof -
    have "file_pool_used etc_ex = 0" by (simp add: etc_ex_def)
    then show ?thesis using etc_ex_nodes(3) by simp
  qed
  moreover have "root_index etc_ex < RAMFS_MAX_NODES" "used (nodes etc_ex (root_index etc_ex))"
    "ntype (nodes etc_ex (root_index etc_ex)) = RAMFS_NODE_DIR" "file_pool_used etc_ex \<le> RAMFS_MAX_FILE_BYTES"
    by (simp_all add: etc_ex_def etc_node_def zero_node_def RAMFS_MAX_NODES_def)
  ultimately show ?thesis unfolding ramfs_inv_def by blast
qed

lemma etc_ex_child: "n \<in> set etc_names \<Longrightarrow> \<exists>i. child etc_ex 0 n = Some i \<and> i \<in> {1, 2, 3}"
  unfolding ramfs_find_child_def Let_def kids_def [symmetric] etc_ex_nodes(2)
  by (auto simp: etc_names_def etc_ex_def etc_node_def zero_node_def)

lemma etc_ex_files: "\<forall>n\<in>set etc_names. \<exists>old a. ramfs_view etc_ex (path_tokens ('''' @ ''/'' @ n)) = Some (File old, a)"
proof
  fix n assume n: "n \<in> set etc_names"
  have t: "path_tokens ('''' @ ''/'' @ n) = [n]" using etc_tokens(1) [of "''''" n] n by simp
  obtain i where c: "child etc_ex 0 n = Some i" "i \<in> {1, 2, 3}" using etc_ex_child [OF n] by blast
  have f: "ntype (nodes etc_ex i) = RAMFS_NODE_FILE" using c(2) by (auto simp: etc_ex_def etc_node_def zero_node_def)
  have "root_index etc_ex = 0" by (simp add: etc_ex_def)
  then show "\<exists>old a. ramfs_view etc_ex (path_tokens ('''' @ ''/'' @ n)) = Some (File old, a)"
    using c(1) f unfolding t by (simp add: ramfs_view_def node_obj_def)
qed

definition db_ex :: accounts where
  "db_ex = \<lparr>g_users = [\<lparr>ue_name = ''root'', ue_uid = 0, ue_gid = 0, ue_home = ''/root'', ue_shell = ''/bin/sh'', ue_hash = ''ab12''\<rparr>,
       \<lparr>ue_name = ''eve'', ue_uid = 1000, ue_gid = 100, ue_home = ''/'', ue_shell = ''/bin/sh'', ue_hash = []\<rparr>],
     g_groups = [\<lparr>ge_name = ''staff'', ge_gid = 0, ge_members = [0, 1000]\<rparr>]\<rparr>"

lemma utoa_ex: "utoa 0 = ''0''" "utoa 100 = ''100''" "utoa 1000 = ''1000''"
  by code_simp+

lemma db_ex_ok: "accounts_ok db_ex" "length (text_of passwd_line (g_users db_ex)) + length (text_of shadow_line (g_users db_ex))
      + length (text_of group_line (g_groups db_ex)) \<le> 200"
  by (simp_all add: accounts_ok_def db_ex_def user_ok_def group_ok_def clean_def user_limits text_of_def
      passwd_line_def shadow_line_def group_line_def utoa_ex)

theorem accounts_save_load_witness:
  "\<exists>s'. sys_user_save etc_vfs \<lparr>cr_uid = 0, cr_gid = 0\<rparr> (\<lambda>_. etc_ex) (\<lambda>_. True) db_ex = (0, s')
    \<and> sys_user_load etc_vfs \<lparr>cr_uid = 0, cr_gid = 0\<rparr> s' (\<lambda>_. True) = (0, db_ex)"
proof (rule accounts_save_load [OF db_ex_ok(1) _ _ _ _ _ etc_vfs_mounted etc_ex_inv etc_ex_files])
  have "(200 :: nat) \<le> RAMFS_MAX_FILE_BYTES - file_pool_used etc_ex" by (simp add: etc_ex_def RAMFS_MAX_FILE_BYTES_def)
  with db_ex_ok(2) show "length (text_of passwd_line (g_users db_ex)) + length (text_of shadow_line (g_users db_ex))
      + length (text_of group_line (g_groups db_ex)) \<le> RAMFS_MAX_FILE_BYTES - file_pool_used etc_ex" by (rule order_trans)
qed (simp_all add: db_ex_def)

theorem auth_after_add_witness:
  "\<exists>db' s'. sys_user_add etc_vfs \<lparr>cr_uid = 0, cr_gid = 0\<rparr> (\<lambda>_. etc_ex) (\<lambda>_. True) db_ex ''bob'' 7 7 None None
      (Some (compute_hash True [] ''bob'' ''secret'')) = (0, db', s')
    \<and> sys_auth_user True [] db' ''bob'' ''secret'' = 0"
proof -
  let ?r = "sys_user_add etc_vfs \<lparr>cr_uid = 0, cr_gid = 0\<rparr> (\<lambda>_. etc_ex) (\<lambda>_. True) db_ex ''bob'' 7 7 None None
      (Some (compute_hash True [] ''bob'' ''secret''))"
  have "fst ?r = 0" by (simp add: sys_user_add_def saved_def db_ex_def Let_def USER_DB_MAX_def)
  then obtain db' s' where r: "?r = (0, db', s')" by (cases ?r) simp
  have "\<forall>e\<in>set (g_users db_ex). length (ue_name e) < USER_MAX_NAME" by (simp add: db_ex_def USER_MAX_NAME_def)
  from auth_after_add [OF r this] have "sys_auth_user True [] db' ''bob'' ''secret'' = 0" by (simp add: USER_MAX_NAME_def)
  with r show ?thesis by blast
qed

end
