(* ===== verification/Spec2Isabelle.thy ===== *)
theory Spec2Isabelle
  imports Prelude Kstring Ctype Ring Input Pmm Vmm Blocklist Kmalloc Umalloc Tqueue Sched Sched_Props
    Sched_Liveness Vfs_Types Name_Tree Ramfs Ramfs_Tree Ramfs_Props Ramfs_History Vfs Vfs_Union Vfs_Props Tty Devfs
    Storage Storage_Props Fat_Words Fat_Table Fat_Volume Fat_Clusters Fat_Names Fat_Dir Fat_Files Fat_Payload Fat_Create
    Mkfs Mkfs_Props Iso Iso_Props Fs_Calls Partitions Partitions_Props Accounts Accounts_Text Accounts_Props
begin

text \<open>
  \<^bold>\<open>The NTux-OS kernel, \<open>kernel/src\<close>.\<close>

  NTux-OS is a small x86-64 kernel in C. Its core is memory (a page bitmap, four-level page
  tables, two heaps), threads (two linked queues and a scheduler driven by the timer), input
  (keyboard, mouse, terminals), and storage (block devices, FAT volumes, a file system in memory,
  and a virtual file system with mounts and a union that puts them together). This development
  translates those parts function by function and proves what each of them promises to the
  others; where the code does not keep a promise, a theorem states what it does instead.

  \<^bold>\<open>Parts and theories.\<close> Paths are relative to \<open>kernel/src\<close>. Definitions have the names of
  the C functions; a loop or a block of a function has a definition of its own.

  \<^item> \<open>Prelude\<close>: the integer types, theorem collections, list and word lemmas.
  \<^item> \<open>Kstring\<close> (\<open>lib/string.c\<close>), \<open>Ctype\<close> (\<open>lib/ctype.c\<close>): buffers are lists that reach to the end of
    the object, and \<open>None\<close> is an access outside it.
  \<^item> \<open>Ring\<close> (\<open>drivers/ps2/ringbuffer.c\<close>) and \<open>Input\<close> (\<open>drivers/ps2/keyboard.c\<close>, \<open>mouse.c\<close>,
    \<open>drivers/input/input.c\<close>): the rings against the locale \<open>bounded_queue\<close>; scan codes, mouse packets
    and the event ring over one record of the static variables.
  \<^item> \<open>Pmm\<close> (\<open>mm/pmm.c\<close>, \<open>mm/hhdm.c\<close>): the bitmap, its scan by words, and the set of free pages it
    stands for; the locale \<open>frame_allocator\<close> is what \<open>Vmm\<close> uses.
  \<^item> \<open>Vmm\<close> (\<open>mm/vmm.c\<close>): page tables as quadwords of physical pages, the walk with its allocations,
    and the translation the hardware sees; a tree invariant makes updates local.
  \<^item> \<open>Blocklist\<close>, \<open>Kmalloc\<close> (\<open>mm/kmalloc.c\<close>), \<open>Umalloc\<close> (\<open>mm/umalloc.c\<close>): block headers at addresses,
    with the shape of the free list as an address-ordered segment.
  \<^item> \<open>Tqueue\<close>, \<open>Sched\<close>, \<open>Sched_Props\<close>, \<open>Sched_Liveness\<close> (\<open>sched/scheduler.c\<close>, \<open>sched/thread.c\<close>, the wake-up
    and preemption of \<open>interrupt/timer.c\<close>, blocking of \<open>net/network.c\<close>): the queues refine lists
    (locale \<open>thread_queue\<close>), \<open>sched_step\<close> is their operations as a step relation, and the theorems hold
    on every reachable state. The call \<open>INT80_WAIT_TICKS\<close>, which writes the state of the calling thread and
    the current thread itself, is not among the steps.
  \<^item> \<open>Vfs_Types\<close>, \<open>Vfs\<close>, \<open>Vfs_Union\<close>, \<open>Vfs_Props\<close> (\<open>fs/vfs.h\<close>, \<open>fs/vfs.c\<close>, \<open>fs/vfs_union.c\<close>): the table of
    operations of a back end is a record of functions over a state type of the back end's own; the
    locale \<open>file_backend\<close> is the contract between the two.
  \<^item> \<open>Name_Tree\<close>, \<open>Ramfs\<close>, \<open>Ramfs_Tree\<close>, \<open>Ramfs_Props\<close>, \<open>Ramfs_History\<close> (\<open>fs/ramfs.c\<close>): the node table, the tree it
    stores, and the refinement of every operation to an update of a map from paths to contents.
  \<^item> \<open>Tty\<close> (\<open>drivers/tty/tty.c\<close>) and \<open>Devfs\<close> (\<open>fs/devfs.c\<close>): the line discipline as a function of the
    input that arrives, and the device table as a back end.
  \<^item> \<open>Storage\<close>, \<open>Storage_Props\<close> (the entry points of \<open>drivers/sata/ata.c\<close>, \<open>drivers/nvme/nvme.c\<close>,
    \<open>drivers/sdmmc/sdmmc.c\<close>, and the block layer of \<open>fs/fs.c\<close>): a medium is a partial map from sector
    numbers to bytes; the locale \<open>block_driver\<close> is interpreted for each driver and for the layer above them.
  \<^item> \<open>Fat_Table\<close>, \<open>Fat_Names\<close>, \<open>Fat_Dir\<close>, \<open>Fat_Files\<close> (\<open>fs/fat.c\<close>) with the lemmas in \<open>Fat_Words\<close>,
    \<open>Fat_Volume\<close>, \<open>Fat_Clusters\<close>, \<open>Fat_Payload\<close>, \<open>Fat_Create\<close>: a sound volume is viewed as an array of sectors,
    its table as an array of entries, a file as the sectors of its chain.
  \<^item> \<open>Mkfs\<close>, \<open>Mkfs_Props\<close> (\<open>fs_mkfs_fat\<close> of \<open>fs/fs.c\<close>): the layout, the list of sectors written, and the
    composition of formatting, mounting, creating and reading.
  \<^item> \<open>Iso\<close>, \<open>Iso_Props\<close> (\<open>fs/iso.c\<close>): reading an ISO 9660 volume; a range of a file is a slice of its blocks, and
    looking up a name agrees with listing its directory. \<open>None\<close> is a read behind a block buffer.
  \<^item> \<open>Partitions\<close>, \<open>Partitions_Props\<close> (the partition tables of \<open>fs/fs.c\<close> and \<open>fs_probe_partitions\<close>): the list of partitions
    read from a drive, the entry written, and the table of what is mounted; which file systems
    recognise a partition is the parameter \<open>fs_drivers\<close>.
  \<^item> \<open>Fs_Calls\<close> (the wrappers and paths of \<open>fs/fs.c\<close>) and \<open>Accounts\<close>, \<open>Accounts_Text\<close>, \<open>Accounts_Props\<close> (\<open>sys/user.c\<close>):
    users and groups as records, their files as text, and the contract \<open>etc_files\<close> with the file system,
    which the file system in memory keeps below a mount.

  \<^bold>\<open>Groups of lemmas.\<close> Invariants that every operation keeps (\<open>sched_inv\<close>, \<open>ramfs_inv\<close>, the page table
  tree, the heaps); refinements (queues to lists, rings to queues, the node table to a map);
  functional correctness with the exact condition of success (page and cluster allocation, mapping,
  contents of files); round trips (block devices, table entries, long names, file contents,
  formatting); termination and bounds (cluster chains with cycles, layouts, loops of the timer);
  liveness of the scheduler. Several theorems record defects, with the
  state in which the code misbehaves as the witness.

  \<^bold>\<open>Bounds and loops.\<close> Machine integers keep their width as words where they can wrap; sizes and
  indices that cannot are natural numbers. A loop that ends by its own counter is recursion
  with a measure. A loop that follows links is a partial function with result \<open>None\<close> when it
  does not return, and returning is then proved from the invariant (\<open>kmalloc_correct\<close>,
  \<open>fat_free_chain_ends\<close>, \<open>scheduler_loses_no_thread\<close>). No definition takes fuel but for the
  counters the code has itself, such as the eight rounds of \<open>layout_loop\<close> or the guards of cluster walks.

  \<^bold>\<open>Outside the model.\<close> Locks and the interrupt flag make the operations atomic and are not in the
  state; whether the timer finds the scheduler's lock free is an argument of its handler. Registers of devices, port input and output, assembly stubs and the context switch itself
  are left out: a driver appears by its entry points and the medium behind it, a switch by the
  decision of the scheduler. Whether an allocation finds memory is a parameter where a component
  only tests for it. Text on the screen is not modelled. Not translated at all: the network stack
  and the programs that are third-party code, the graphics, sound and bus drivers, the system
  call table, ext2 and ext4, the module loader, and everything in user space.
\<close>

end
